(* ===== verification/Prelude.thy ===== *)
theory Prelude
  imports Main "HOL-Library.Word"
begin

text \<open>
  Shared base of the development: the machine types of the C sources, the outcome monad in
  which kernel code is written, its weakest-precondition calculus, and generic lemmas on
  lists and tables that several components use.
\<close>

unbundle bit_operations_syntax

section \<open>Machine types\<close>

text \<open>
  The C types of \<open>types.h\<close>: \<open>uchar\<close>, \<open>ushort\<close> and \<open>uint\<close> are 8, 16 and 32 bit words.
  A C \<open>int\<close> is a 32 bit word that is compared through \<open>sint\<close>.
\<close>

type_synonym u8 = "8 word"
type_synonym u16 = "16 word"
type_synonym u32 = "32 word"

lemma sint_small:
  fixes w :: u32
  assumes "unat w < 2 ^ 31"
  shows "sint w = int (unat w)"
proof -
  have "int (unat w) < int (2 ^ 31)" using assms by (simp only: of_nat_less_iff)
  then have "uint w < 2 ^ 31" by (simp only: of_nat_unat of_nat_power of_nat_numeral)
  moreover have "- (2 ^ 31) \<le> uint w" 
    by (rule order_trans [of _ 0]) (simp_all add: uint_ge_0)
  ultimately show ?thesis
    using signed_take_bit_int_eq_self [of 31 "uint w"] by (simp add: sint_uint)
qed

section \<open>Outcomes\<close>

text \<open>
  What a piece of kernel code does when it is started in a state: it returns a value in a
  new state; it calls \<open>panic\<close>; it dereferences a null pointer or leaves an array
  (undefined behaviour in C); it stops at a point where it waits (spinning on a lock or
  inside \<open>swtch\<close>), in the state in which it waits; or, for loops over linked structures
  that carry fuel, the fuel ran out.
\<close>

datatype ('w, 'a, 's) outcome =
    Ok 'a 's
  | Panic string
  | Undef string
  | Wait 'w 's
  | NoFuel

definition ret :: "'a \<Rightarrow> 's \<Rightarrow> ('w, 'a, 's) outcome" where
  "ret a s = Ok a s"

definition bindM ::
  "('s \<Rightarrow> ('w, 'a, 's) outcome) \<Rightarrow> ('a \<Rightarrow> 's \<Rightarrow> ('w, 'b, 's) outcome) \<Rightarrow> 's \<Rightarrow> ('w, 'b, 's) outcome"
where
  "bindM m f s =
     (case m s of
        Ok a t \<Rightarrow> f a t
      | Panic e \<Rightarrow> Panic e
      | Undef e \<Rightarrow> Undef e
      | Wait w t \<Rightarrow> Wait w t
      | NoFuel \<Rightarrow> NoFuel)"

definition seqM ::
  "('s \<Rightarrow> ('w, 'a, 's) outcome) \<Rightarrow> ('s \<Rightarrow> ('w, 'b, 's) outcome) \<Rightarrow> 's \<Rightarrow> ('w, 'b, 's) outcome"
where
  "seqM m k = bindM m (\<lambda>_. k)"

definition panic :: "string \<Rightarrow> 's \<Rightarrow> ('w, 'a, 's) outcome" where
  "panic e s = Panic e"

definition undef :: "string \<Rightarrow> 's \<Rightarrow> ('w, 'a, 's) outcome" where
  "undef e s = Undef e"

definition nofuel :: "'s \<Rightarrow> ('w, 'a, 's) outcome" where
  "nofuel s = NoFuel"

definition waitM :: "'w \<Rightarrow> 's \<Rightarrow> ('w, 'a, 's) outcome" where
  "waitM w s = Wait w s"

definition getS :: "('s \<Rightarrow> 'a) \<Rightarrow> 's \<Rightarrow> ('w, 'a, 's) outcome" where
  "getS g s = Ok (g s) s"

definition modS :: "('s \<Rightarrow> 's) \<Rightarrow> 's \<Rightarrow> ('w, unit, 's) outcome" where
  "modS h s = Ok () (h s)"

definition whenM :: "bool \<Rightarrow> ('s \<Rightarrow> ('w, unit, 's) outcome) \<Rightarrow> 's \<Rightarrow> ('w, unit, 's) outcome" where
  "whenM b m = (if b then m else ret ())"

lemma bindM_cong [fundef_cong]:
  assumes "m s = m' s'" and "\<And>a t. m' s' = Ok a t \<Longrightarrow> f a t = f' a t"
  shows "bindM m f s = bindM m' f' s'"
  using assms by (simp add: bindM_def split: outcome.split)

lemmas M_defs = ret_def bindM_def seqM_def panic_def undef_def nofuel_def waitM_def getS_def modS_def whenM_def

lemma seqM_ret [simp]: "seqM m (ret ()) = m"
proof
  fix s show "seqM m (ret ()) s = m s" by (auto simp: M_defs split: outcome.splits)
qed

lemma seqM_assoc: "seqM (seqM m k) l = seqM m (seqM k l)"
proof
  fix s show "seqM (seqM m k) l s = seqM m (seqM k l) s"
    by (auto simp: M_defs split: outcome.splits)
qed

text \<open>Running one operation after another.\<close>

lemma seqM_run: "m s = Ok a t \<Longrightarrow> seqM m k s = k t"
  by (simp add: seqM_def bindM_def)

lemma bindM_run: "m s = Ok a t \<Longrightarrow> bindM m f s = f a t"
  by (simp add: bindM_def)

lemma seqM_modS: "seqM (modS h) k s = k (h s)"
  by (rule seqM_run) (simp add: modS_def)

lemma bindM_getS: "bindM (getS g) f s = f (g s) s"
  by (rule bindM_run) (simp add: getS_def)

lemma fold_frame: "(\<And>c t. f (g c t) = f t) \<Longrightarrow> f (fold g cs s) = f s"
  by (induction cs arbitrary: s) simp_all

section \<open>Weakest preconditions\<close>

named_theorems wp_intro \<open>introduction rules for the weakest precondition of an operation\<close>

text \<open>
  \<open>wp m Q s\<close>: started in \<open>s\<close>, \<open>m\<close> returns, and its result and final state satisfy \<open>Q\<close>
  (total correctness: no panic, no undefined behaviour, no waiting).
  \<open>wlp m Q s\<close>: whenever it returns, \<open>Q\<close> holds (partial correctness).
\<close>

definition wp :: "('s \<Rightarrow> ('w, 'a, 's) outcome) \<Rightarrow> ('a \<Rightarrow> 's \<Rightarrow> bool) \<Rightarrow> 's \<Rightarrow> bool" where
  "wp m Q s \<longleftrightarrow> (case m s of Ok a t \<Rightarrow> Q a t | _ \<Rightarrow> False)"

definition wlp :: "('s \<Rightarrow> ('w, 'a, 's) outcome) \<Rightarrow> ('a \<Rightarrow> 's \<Rightarrow> bool) \<Rightarrow> 's \<Rightarrow> bool" where
  "wlp m Q s \<longleftrightarrow> (case m s of Ok a t \<Rightarrow> Q a t | _ \<Rightarrow> True)"

lemma wp_ret [simp]: "wp (ret a) Q s = Q a s"
  by (simp add: wp_def ret_def)

lemma wp_bindM [simp]: "wp (bindM m f) Q s = wp m (\<lambda>a. wp (f a) Q) s"
  by (simp add: wp_def bindM_def split: outcome.split)

lemma wp_seqM [simp]: "wp (seqM m k) Q s = wp m (\<lambda>_. wp k Q) s"
  by (simp add: seqM_def)

lemma wp_getS [simp]: "wp (getS g) Q s = Q (g s) s"
  by (simp add: wp_def getS_def)

lemma wp_modS [simp]: "wp (modS h) Q s = Q () (h s)"
  by (simp add: wp_def modS_def)

lemma wp_panic [simp]: "\<not> wp (panic e) Q s"
  by (simp add: wp_def panic_def)

lemma wp_undef [simp]: "\<not> wp (undef e) Q s"
  by (simp add: wp_def undef_def)

lemma wp_waitM [simp]: "\<not> wp (waitM w) Q s"
  by (simp add: wp_def waitM_def)

lemma wp_nofuel [simp]: "\<not> wp nofuel Q s"
  by (simp add: wp_def nofuel_def)

lemma wp_if [simp]: "wp (if b then m else k) Q s = (if b then wp m Q s else wp k Q s)"
  by simp

lemma wp_whenM [simp]: "wp (whenM b m) Q s = (if b then wp m Q s else Q () s)"
  by (simp add: whenM_def)

lemma wp_mono: "wp m Q s \<Longrightarrow> (\<And>a t. Q a t \<Longrightarrow> R a t) \<Longrightarrow> wp m R s"
  by (auto simp: wp_def split: outcome.splits)

lemma wp_conj: "wp m Q s \<Longrightarrow> wp m R s \<Longrightarrow> wp m (\<lambda>a t. Q a t \<and> R a t) s"
  by (auto simp: wp_def split: outcome.splits)

lemma wp_OkI: "m s = Ok a t \<Longrightarrow> Q a t \<Longrightarrow> wp m Q s"
  by (simp add: wp_def)

lemma wpE:
  assumes "wp m Q s"
  obtains a t where "m s = Ok a t" and "Q a t"
  using assms by (auto simp: wp_def split: outcome.splits)

lemma wp_iff: "wp m Q s \<longleftrightarrow> (\<exists>a t. m s = Ok a t \<and> Q a t)"
  by (auto simp: wp_def split: outcome.splits)

lemma wlp_ret [simp]: "wlp (ret a) Q s = Q a s"
  by (simp add: wlp_def ret_def)

lemma wlp_bindM [simp]: "wlp (bindM m f) Q s = wlp m (\<lambda>a. wlp (f a) Q) s"
  by (simp add: wlp_def bindM_def split: outcome.split)

lemma wlp_seqM [simp]: "wlp (seqM m k) Q s = wlp m (\<lambda>_. wlp k Q) s"
  by (simp add: seqM_def)

lemma wlp_getS [simp]: "wlp (getS g) Q s = Q (g s) s"
  by (simp add: wlp_def getS_def)

lemma wlp_modS [simp]: "wlp (modS h) Q s = Q () (h s)"
  by (simp add: wlp_def modS_def)

lemma wlp_panic [simp]: "wlp (panic e) Q s"
  by (simp add: wlp_def panic_def)

lemma wlp_undef [simp]: "wlp (undef e) Q s"
  by (simp add: wlp_def undef_def)

lemma wlp_waitM [simp]: "wlp (waitM w) Q s"
  by (simp add: wlp_def waitM_def)

lemma wlp_nofuel [simp]: "wlp nofuel Q s"
  by (simp add: wlp_def nofuel_def)

lemma wlp_if [simp]: "wlp (if b then m else k) Q s = (if b then wlp m Q s else wlp k Q s)"
  by simp

lemma wlp_whenM [simp]: "wlp (whenM b m) Q s = (if b then wlp m Q s else Q () s)"
  by (simp add: whenM_def)

lemma wlp_mono: "wlp m Q s \<Longrightarrow> (\<And>a t. Q a t \<Longrightarrow> R a t) \<Longrightarrow> wlp m R s"
  by (auto simp: wlp_def split: outcome.splits)

lemma wlpD: "wlp m Q s \<Longrightarrow> m s = Ok a t \<Longrightarrow> Q a t"
  by (simp add: wlp_def)

lemma wp_imp_wlp: "wp m Q s \<Longrightarrow> wlp m Q s"
  by (auto simp: wp_def wlp_def split: outcome.splits)

section \<open>Table scans\<close>

text \<open>
  The kernel's tables are fixed arrays scanned from index 0 for the first entry with a
  property: \<open>first_idx P xs\<close> is the index at which such a scan stops.
\<close>

fun first_idx :: "('a \<Rightarrow> bool) \<Rightarrow> 'a list \<Rightarrow> nat option" where
  "first_idx P [] = None"
| "first_idx P (x # xs) = (if P x then Some 0 else map_option Suc (first_idx P xs))"

lemma first_idx_SomeD:
  "first_idx P xs = Some i \<Longrightarrow> i < length xs \<and> P (xs ! i) \<and> (\<forall>j<i. \<not> P (xs ! j))"
proof (induction xs arbitrary: i)
  case Nil
  then show ?case by simp
next
  case (Cons x xs)
  show ?case
  proof (cases "P x")
    case True
    with Cons.prems show ?thesis by simp
  next
    case False
    with Cons.prems obtain k where k: "first_idx P xs = Some k" "i = Suc k"
      by auto
    from Cons.IH [OF k(1)] k(2) False show ?thesis
      by (auto simp: nth_Cons less_Suc_eq_0_disj split: nat.splits)
  qed
qed

lemma first_idx_None_iff: "first_idx P xs = None \<longleftrightarrow> (\<forall>x \<in> set xs. \<not> P x)"
  by (induction xs) auto

lemma first_idx_ex: "\<exists>x \<in> set xs. P x \<Longrightarrow> \<exists>i. first_idx P xs = Some i"
  by (cases "first_idx P xs") (auto simp: first_idx_None_iff)

lemma first_idx_SomeI:
  assumes "i < length xs" "P (xs ! i)" "\<And>j. j < i \<Longrightarrow> \<not> P (xs ! j)"
  shows "first_idx P xs = Some i"
proof -
  from assms(1) have "xs ! i \<in> set xs" by simp
  with assms(2) have "\<exists>x \<in> set xs. P x" by (rule bexI)
  then obtain k where k: "first_idx P xs = Some k" using first_idx_ex [of xs P] by blast
  from first_idx_SomeD [OF k] assms(2,3) have "\<not> k < i" and "\<not> i < k" by blast+
  then have "k = i" by simp
  with k show ?thesis by simp
qed

lemma first_idx_less [dest]: "first_idx P xs = Some i \<Longrightarrow> i < length xs"
  by (simp add: first_idx_SomeD)

lemma nth_list_update_if: "i < length xs \<Longrightarrow> xs[i := v] ! j = (if i = j then v else xs ! j)"
  by simp

section \<open>Overwriting a run of bytes\<close>

text \<open>\<open>blit bs off xs\<close>: the bytes \<open>xs\<close> copied over \<open>bs\<close> from offset \<open>off\<close>.\<close>

definition blit :: "'a list \<Rightarrow> nat \<Rightarrow> 'a list \<Rightarrow> 'a list" where
  "blit bs off xs = take off bs @ xs @ drop (off + length xs) bs"

definition chunk :: "'a list \<Rightarrow> nat \<Rightarrow> nat \<Rightarrow> 'a list" where
  "chunk bs off n = take n (drop off bs)"

lemma length_blit [simp]: "off + length xs \<le> length bs \<Longrightarrow> length (blit bs off xs) = length bs"
  by (simp add: blit_def)

lemma length_chunk [simp]: "off + n \<le> length bs \<Longrightarrow> length (chunk bs off n) = n"
  by (simp add: chunk_def)

lemma nth_blit:
  assumes "off + length xs \<le> length bs" "i < length bs"
  shows "blit bs off xs ! i =
    (if off \<le> i \<and> i < off + length xs then xs ! (i - off) else bs ! i)"
  using assms by (auto simp: blit_def nth_append)

lemma nth_chunk [simp]: "off + n \<le> length bs \<Longrightarrow> i < n \<Longrightarrow> chunk bs off n ! i = bs ! (off + i)"
  by (simp add: chunk_def)

lemma chunk_blit_same:
  "off + length xs \<le> length bs \<Longrightarrow> chunk (blit bs off xs) off (length xs) = xs"
  by (simp add: chunk_def blit_def)

lemma chunk_blit_disjoint:
  assumes "off + length xs \<le> length bs" "o' + n \<le> length bs"
    and "o' + n \<le> off \<or> off + length xs \<le> o'"
  shows "chunk (blit bs off xs) o' n = chunk bs o' n"
  by (rule nth_equalityI) (use assms in \<open>auto simp: nth_blit\<close>)

end
