(* ===== verification/Cstring.thy ===== *)
theory Cstring
  imports Prelude "HOL-Library.Signed_Division"
begin

text \<open>
  The kernel's byte memory and \<open>string.c\<close>: \<open>memset\<close>, \<open>memcmp\<close>, \<open>memmove\<close>, \<open>memcpy\<close>,
  \<open>strncmp\<close>, \<open>strncpy\<close>, \<open>safestrcpy\<close> and \<open>strlen\<close>, with the \<open>rep stos\<close> wrappers of
  \<open>x86.h\<close>. Memory is a total map from 32 bit addresses to bytes; pointer arithmetic wraps
  as the hardware's does.
\<close>

section \<open>Memory\<close>

type_synonym mem = "u32 \<Rightarrow> u8"

text \<open>Little-endian 32 bit access.\<close>

definition rd32 :: "mem \<Rightarrow> u32 \<Rightarrow> u32" where
  "rd32 m a =
     ucast (m a) OR push_bit 8 (ucast (m (a + 1)))
     OR push_bit 16 (ucast (m (a + 2))) OR push_bit 24 (ucast (m (a + 3)))"

definition wr32 :: "mem \<Rightarrow> u32 \<Rightarrow> u32 \<Rightarrow> mem" where
  "wr32 m a v =
     m(a := ucast v, a + 1 := ucast (drop_bit 8 v),
       a + 2 := ucast (drop_bit 16 v), a + 3 := ucast (drop_bit 24 v))"

text \<open>\<open>stosb\<close> and \<open>stosl\<close> of \<open>x86.h\<close>: \<open>rep stosb\<close> and \<open>rep stosl\<close>.\<close>

fun stosb :: "mem \<Rightarrow> u32 \<Rightarrow> u8 \<Rightarrow> nat \<Rightarrow> mem" where
  "stosb m d c 0 = m"
| "stosb m d c (Suc n) = stosb (m(d := c)) (d + 1) c n"

fun stosl :: "mem \<Rightarrow> u32 \<Rightarrow> u32 \<Rightarrow> nat \<Rightarrow> mem" where
  "stosl m d v 0 = m"
| "stosl m d v (Suc n) = stosl (wr32 m d v) (d + 4) v n"

section \<open>string.c\<close>

definition memset :: "mem \<Rightarrow> u32 \<Rightarrow> u32 \<Rightarrow> u32 \<Rightarrow> mem" where
  "memset m dst c n =
     (if sint dst smod 4 = 0 \<and> n mod 4 = 0
      then (let c = c AND 0xFF
            in stosl m dst (push_bit 24 c OR push_bit 16 c OR push_bit 8 c OR c) (unat (n div 4)))
      else stosb m dst (ucast c) (unat n))"

fun memcmp_loop :: "mem \<Rightarrow> u32 \<Rightarrow> u32 \<Rightarrow> nat \<Rightarrow> int" where
  "memcmp_loop m s1 s2 0 = 0"
| "memcmp_loop m s1 s2 (Suc n) =
     (if m s1 \<noteq> m s2 then uint (m s1) - uint (m s2) else memcmp_loop m (s1 + 1) (s2 + 1) n)"

definition memcmp :: "mem \<Rightarrow> u32 \<Rightarrow> u32 \<Rightarrow> u32 \<Rightarrow> int" where
  "memcmp m v1 v2 n = memcmp_loop m v1 v2 (unat n)"

text \<open>The two copy loops of \<open>memmove\<close>, downwards and upwards.\<close>

fun copy_down :: "mem \<Rightarrow> u32 \<Rightarrow> u32 \<Rightarrow> nat \<Rightarrow> mem" where
  "copy_down m d s 0 = m"
| "copy_down m d s (Suc n) = copy_down (m(d - 1 := m (s - 1))) (d - 1) (s - 1) n"

fun copy_up :: "mem \<Rightarrow> u32 \<Rightarrow> u32 \<Rightarrow> nat \<Rightarrow> mem" where
  "copy_up m d s 0 = m"
| "copy_up m d s (Suc n) = copy_up (m(d := m s)) (d + 1) (s + 1) n"

definition memmove :: "mem \<Rightarrow> u32 \<Rightarrow> u32 \<Rightarrow> u32 \<Rightarrow> mem" where
  "memmove m dst src n =
     (if src < dst \<and> src + n > dst
      then copy_down m (dst + n) (src + n) (unat n)
      else copy_up m dst src (unat n))"

definition memcpy :: "mem \<Rightarrow> u32 \<Rightarrow> u32 \<Rightarrow> u32 \<Rightarrow> mem" where
  "memcpy m dst src n = memmove m dst src n"

text \<open>
  \<open>strncmp\<close> reads its arguments through the byte accessors \<open>p\<close> and \<open>q\<close> (offset to byte), so
  that it serves strings in memory and the name arrays of directory entries alike.
\<close>

fun strncmp_loop :: "(nat \<Rightarrow> u8) \<Rightarrow> (nat \<Rightarrow> u8) \<Rightarrow> nat \<Rightarrow> nat \<Rightarrow> int" where
  "strncmp_loop p q i 0 = 0"
| "strncmp_loop p q i (Suc n) =
     (if p i \<noteq> 0 \<and> p i = q i then strncmp_loop p q (Suc i) n else uint (p i) - uint (q i))"

definition strncmp :: "(nat \<Rightarrow> u8) \<Rightarrow> (nat \<Rightarrow> u8) \<Rightarrow> nat \<Rightarrow> int" where
  "strncmp p q n = strncmp_loop p q 0 n"

text \<open>
  The two loops of \<open>strncpy\<close>. The first stops with \<open>n\<close> one lower than the bytes left when it
  copied the terminator, the second pads with zeros.
\<close>

fun strncpy_copy :: "mem \<Rightarrow> u32 \<Rightarrow> u32 \<Rightarrow> nat \<Rightarrow> mem \<times> u32 \<times> nat" where
  "strncpy_copy m s t 0 = (m, s, 0)"
| "strncpy_copy m s t (Suc n) =
     (let c = m t; m' = m(s := c)
      in if c \<noteq> 0 then strncpy_copy m' (s + 1) (t + 1) n else (m', s + 1, n))"

definition strncpy :: "mem \<Rightarrow> u32 \<Rightarrow> u32 \<Rightarrow> int \<Rightarrow> mem" where
  "strncpy m s t n =
     (case strncpy_copy m s t (nat n) of (m', s', n') \<Rightarrow> stosb m' s' 0 n')"

fun safestrcpy_loop :: "mem \<Rightarrow> u32 \<Rightarrow> u32 \<Rightarrow> nat \<Rightarrow> mem \<times> u32" where
  "safestrcpy_loop m s t 0 = (m, s)"
| "safestrcpy_loop m s t (Suc n) =
     (let c = m t; m' = m(s := c)
      in if c \<noteq> 0 then safestrcpy_loop m' (s + 1) (t + 1) n else (m', s + 1))"

definition safestrcpy :: "mem \<Rightarrow> u32 \<Rightarrow> u32 \<Rightarrow> int \<Rightarrow> mem" where
  "safestrcpy m s t n =
     (if n \<le> 0 then m
      else (case safestrcpy_loop m s t (nat (n - 1)) of (m', s') \<Rightarrow> m'(s' := 0)))"

partial_function (option) strlen_from :: "mem \<Rightarrow> u32 \<Rightarrow> u32 \<Rightarrow> u32 option" where
  "strlen_from m s n = (if m (s + n) = 0 then Some n else strlen_from m s (n + 1))"

text \<open>A run of bytes stored to and loaded from memory.\<close>

definition poke :: "mem \<Rightarrow> u32 \<Rightarrow> u8 list \<Rightarrow> mem" where
  "poke m a bs = (\<lambda>x. if unat (x - a) < length bs then bs ! unat (x - a) else m x)"

definition peek_at :: "mem \<Rightarrow> u32 \<Rightarrow> nat \<Rightarrow> u8 list" where
  "peek_at m a n = map (\<lambda>i. m (a + of_nat i)) [0..<n]"

definition strlen :: "mem \<Rightarrow> u32 \<Rightarrow> u32 option" where
  "strlen m s = strlen_from m s 0"

section \<open>Word accesses\<close>

lemma addr_offsets_distinct [simp]:
  "(a :: u32) \<noteq> a + 1" "a \<noteq> a + 2" "a \<noteq> a + 3" "a + 1 \<noteq> a" "a + 2 \<noteq> a" "a + 3 \<noteq> a"
  by simp_all

lemma length_peek_at [simp]: "length (peek_at m a n) = n"
  by (simp add: peek_at_def)

lemma peek_poke: "length bs < 2 ^ 32 \<Longrightarrow> peek_at (poke m a bs) a (length bs) = bs"
  by (rule nth_equalityI) (simp_all add: peek_at_def poke_def unat_of_nat)

lemma rd32_bytes:
  fixes v :: u32
  shows "ucast (ucast v :: u8) OR push_bit 8 (ucast (ucast (drop_bit 8 v) :: u8))
     OR push_bit 16 (ucast (ucast (drop_bit 16 v) :: u8))
     OR push_bit 24 (ucast (ucast (drop_bit 24 v) :: u8)) = v"
proof (rule bit_word_eqI)
  fix n assume "n < LENGTH(32)"
  then consider "n < 8" | "8 \<le> n \<and> n < 16" | "16 \<le> n \<and> n < 24" | "24 \<le> n \<and> n < 32"
    by fastforce
  then show "bit (ucast (ucast v :: u8) OR push_bit 8 (ucast (ucast (drop_bit 8 v) :: u8))
     OR push_bit 16 (ucast (ucast (drop_bit 16 v) :: u8))
     OR push_bit 24 (ucast (ucast (drop_bit 24 v) :: u8)) :: u32) n = bit v n"
    by cases (auto simp: bit_or_iff bit_push_bit_iff bit_ucast_iff bit_drop_bit_eq)
qed

lemma rd32_wr32_same [simp]: "rd32 (wr32 m a v) a = v"
  using rd32_bytes [of v] by (simp add: rd32_def wr32_def)

text \<open>Addresses reached from \<open>a\<close> by fewer than \<open>n\<close> steps: \<open>x - a < n\<close> with wrap-around.\<close>

definition in_range :: "u32 \<Rightarrow> nat \<Rightarrow> u32 \<Rightarrow> bool" where
  "in_range a n x \<longleftrightarrow> unat (x - a) < n"

lemma wr32_other: "\<not> in_range a 4 x \<Longrightarrow> wr32 m a v x = m x"
  by (auto simp: wr32_def in_range_def)

lemma wr32_apply:
  "wr32 m a v x =
     (if in_range a 4 x then ucast (drop_bit (8 * unat (x - a)) v) else m x)"
proof (cases "in_range a 4 x")
  case False
  then show ?thesis by (simp add: wr32_other)
next
  case True
  then consider "unat (x - a) = 0" | "unat (x - a) = 1" | "unat (x - a) = 2" | "unat (x - a) = 3"
    by (fastforce simp: in_range_def)
  moreover have "x = a + of_nat (unat (x - a))" by simp
  ultimately have "x = a \<or> x = a + 1 \<or> x = a + 2 \<or> x = a + 3"
    by cases simp_all
  then show ?thesis using True by (auto simp: wr32_def)
qed

lemma rd32_cong: "(\<And>i. i < 4 \<Longrightarrow> m (a + of_nat i) = m' (a + of_nat i)) \<Longrightarrow> rd32 m a = rd32 m' a"
  using rd32_def [of m a] rd32_def [of m' a]
proof -
  assume eq: "\<And>i. i < 4 \<Longrightarrow> m (a + of_nat i) = m' (a + of_nat i)"
  have "m a = m' a" "m (a + 1) = m' (a + 1)" "m (a + 2) = m' (a + 2)" "m (a + 3) = m' (a + 3)"
    using eq [of 0] eq [of 1] eq [of 2] eq [of 3] by simp_all
  then show ?thesis by (simp add: rd32_def)
qed

section \<open>Ranges of addresses\<close>

lemma in_range_0 [simp]: "\<not> in_range a 0 x"
  by (simp add: in_range_def)

lemma in_range_self [simp]: "in_range a n a \<longleftrightarrow> 0 < n"
  by (simp add: in_range_def)

lemma in_range_Suc:
  assumes "n < 2 ^ 32"
  shows "in_range a (Suc n) x \<longleftrightarrow> x = a \<or> in_range (a + 1) n x"
proof (cases "x = a")
  case True
  then show ?thesis by simp
next
  case False
  then have "x - a \<noteq> 0" by simp
  then have "unat (x - a - 1) = unat (x - a) - 1" by (rule unat_minus_one)
  moreover have "0 < unat (x - a)" using \<open>x - a \<noteq> 0\<close> by (simp add: unat_gt_0)
  ultimately show ?thesis using False
    by (auto simp: in_range_def diff_diff_eq add.commute)
qed

lemma in_range_start_excluded: "n < 2 ^ 32 \<Longrightarrow> \<not> in_range (a + 1) n a"
  by (simp add: in_range_def unsigned_minus_1_eq_mask mask_eq_exp_minus_1)

lemma in_range_add:
  assumes "k + n \<le> 2 ^ 32"
  shows "in_range a (k + n) x \<longleftrightarrow> in_range a k x \<or> in_range (a + of_nat k) n x"
  using assms
proof (induction k arbitrary: a)
  case 0
  then show ?case by simp
next
  case (Suc k)
  have "in_range a (Suc k + n) x \<longleftrightarrow> x = a \<or> in_range (a + 1) (k + n) x"
    using Suc.prems in_range_Suc [of "k + n" a x] by simp
  also have "\<dots> \<longleftrightarrow> x = a \<or> in_range (a + 1) k x \<or> in_range (a + 1 + of_nat k) n x"
    using Suc.IH [of "a + 1"] Suc.prems by simp
  also have "\<dots> \<longleftrightarrow> in_range a (Suc k) x \<or> in_range (a + of_nat (Suc k)) n x"
    using Suc.prems in_range_Suc [of k a x] by (auto simp: algebra_simps)
  finally show ?case .
qed

lemma in_range_offset: "i < n \<Longrightarrow> n \<le> 2 ^ 32 \<Longrightarrow> in_range a n (a + of_nat i)"
  by (simp add: in_range_def unat_of_nat)

lemma in_rangeE:
  assumes "in_range a n x"
  obtains i where "i < n" "x = a + of_nat i"
proof (rule that)
  show "unat (x - a) < n" using assms by (simp add: in_range_def)
  show "x = a + of_nat (unat (x - a))" by simp
qed

section \<open>memset\<close>

lemma stosb_apply: "n \<le> 2 ^ 32 \<Longrightarrow> stosb m d c n x = (if in_range d n x then c else m x)"
proof (induction n arbitrary: m d)
  case 0
  then show ?case by simp
next
  case (Suc n)
  then show ?case
    using in_range_Suc [of n d x] in_range_start_excluded [of n d] by auto
qed

definition replicated_byte :: "u32 \<Rightarrow> u32" where
  "replicated_byte c = (let c = c AND 0xFF in push_bit 24 c OR push_bit 16 c OR push_bit 8 c OR c)"

lemma replicated_byte_byte:
  assumes "k < 4"
  shows "ucast (drop_bit (8 * k) (replicated_byte c)) = (ucast c :: u8)"
proof (rule bit_word_eqI)
  fix n assume n: "n < LENGTH(8)"
  have c: "c AND 0xFF = take_bit 8 c"
    by (simp add: take_bit_eq_mask mask_eq_exp_minus_1)
  from assms consider "k = 0" | "k = 1" | "k = 2" | "k = 3" by linarith
  then show "bit (ucast (drop_bit (8 * k) (replicated_byte c)) :: u8) n = bit (ucast c :: u8) n"
    using n
    by cases (auto simp: replicated_byte_def Let_def c bit_or_iff bit_push_bit_iff bit_take_bit_iff
        bit_ucast_iff bit_drop_bit_eq)
qed

lemma stosl_apply:
  "4 * n \<le> 2 ^ 32 \<Longrightarrow> (\<And>k. k < 4 \<Longrightarrow> ucast (drop_bit (8 * k) v) = c) \<Longrightarrow>
   stosl m d v n x = (if in_range d (4 * n) x then c else m x)"
proof (induction n arbitrary: m d)
  case 0
  then show ?case by simp
next
  case (Suc n)
  have r: "in_range d (4 * Suc n) x \<longleftrightarrow> in_range d 4 x \<or> in_range (d + 4) (4 * n) x"
    using in_range_add [of 4 "4 * n" d x] Suc.prems by simp
  have "wr32 m d v x = (if in_range d 4 x then c else m x)"
    using Suc.prems(2) [of "unat (x - d)"] by (auto simp: wr32_apply in_range_def)
  moreover have "stosl m d v (Suc n) x = (if in_range (d + 4) (4 * n) x then c else wr32 m d v x)"
    using Suc.IH [of "wr32 m d v" "d + 4"] Suc.prems by simp
  ultimately show ?case using r by simp
qed

lemma memset_apply: "memset m dst c n x = (if in_range dst (unat n) x then ucast c else m x)"
proof (cases "sint dst smod 4 = 0 \<and> n mod 4 = 0")
  case True
  have d: "unat (n div 4) = unat n div 4" and r: "unat (n mod 4) = unat n mod 4"
    by (simp_all add: unat_div unat_mod)
  from True r have "unat n mod 4 = 0" by simp
  with d have "4 * unat (n div 4) = unat n" by auto
  moreover have "unat n \<le> 2 ^ 32" by (rule order_less_imp_le) (use unsigned_less [where 'a = nat and 'b = 32, of n] in simp)
  moreover have "memset m dst c n = stosl m dst (replicated_byte c) (unat (n div 4))"
    using True by (simp add: memset_def replicated_byte_def Let_def)
  ultimately show ?thesis
    using stosl_apply [of "unat (n div 4)" "replicated_byte c" "ucast c" m dst x]
    by (simp add: replicated_byte_byte)
next
  case False
  moreover have "unat n \<le> 2 ^ 32" by (rule order_less_imp_le) (use unsigned_less [where 'a = nat and 'b = 32, of n] in simp)
  ultimately show ?thesis by (auto simp: memset_def stosb_apply)
qed

section \<open>memmove\<close>

lemma copy_up_apply:
  assumes "n \<le> 2 ^ 32" and "\<And>i j. j < i \<Longrightarrow> i < n \<Longrightarrow> d + of_nat j \<noteq> s + of_nat i"
  shows "copy_up m d s n x = (if in_range d n x then m (s + (x - d)) else m x)"
  using assms
proof (induction n arbitrary: m d s)
  case 0
  then show ?case by simp
next
  case (Suc n)
  have "d + 1 + of_nat j \<noteq> s + 1 + of_nat i" if "j < i" "i < n" for i j
    using Suc.prems(2) [of "Suc j" "Suc i"] that by (simp add: add.commute add.left_commute)
  then have "copy_up (m(d := m s)) (d + 1) (s + 1) n x =
      (if in_range (d + 1) n x then (m(d := m s)) (s + 1 + (x - (d + 1))) else (m(d := m s)) x)"
    by (intro Suc.IH) (use Suc.prems(1) in simp_all)
  moreover have "s + 1 + (x - (d + 1)) = s + (x - d)" by simp
  ultimately have IH: "copy_up (m(d := m s)) (d + 1) (s + 1) n x =
      (if in_range (d + 1) n x then (m(d := m s)) (s + (x - d)) else (m(d := m s)) x)"
    by (simp only:)
  have "s + (x - d) \<noteq> d" if r: "in_range (d + 1) n x"
  proof -
    from r obtain i where "i < n" "x = d + 1 + of_nat i" by (rule in_rangeE)
    then show ?thesis using Suc.prems(2) [of 0 "Suc i"] by (auto simp: algebra_simps)
  qed
  moreover have "in_range d (Suc n) x \<longleftrightarrow> x = d \<or> in_range (d + 1) n x"
    using Suc.prems(1) by (intro in_range_Suc) simp
  moreover have "\<not> in_range (d + 1) n d"
    using Suc.prems(1) by (intro in_range_start_excluded) simp
  ultimately show ?case using IH by (cases "x = d") auto
qed

lemma in_range_Suc_last:
  "n < 2 ^ 32 \<Longrightarrow> in_range a (Suc n) x \<longleftrightarrow> x = a + of_nat n \<or> in_range a n x"
  using in_range_add [of n "Suc 0" a x] in_range_Suc [of 0 "a + of_nat n" x] by auto

lemma copy_down_apply:
  assumes "n \<le> 2 ^ 32" and "\<And>i j. i < j \<Longrightarrow> j < n \<Longrightarrow> d + of_nat j \<noteq> s + of_nat i"
  shows "copy_down m (d + of_nat n) (s + of_nat n) n x =
    (if in_range d n x then m (s + (x - d)) else m x)"
  using assms
proof (induction n arbitrary: m)
  case 0
  then show ?case by simp
next
  case (Suc n)
  let ?m = "m(d + of_nat n := m (s + of_nat n))"
  have IH: "copy_down ?m (d + of_nat n) (s + of_nat n) n x =
      (if in_range d n x then ?m (s + (x - d)) else ?m x)"
    by (rule Suc.IH) (use Suc.prems(1) in simp, use Suc.prems(2) in \<open>simp add: less_SucI\<close>)
  have "s + (x - d) \<noteq> d + of_nat n" if r: "in_range d n x"
  proof -
    from r obtain i where "i < n" "x = d + of_nat i" by (rule in_rangeE)
    then show ?thesis using Suc.prems(2) [of i n] by (auto simp: algebra_simps)
  qed
  moreover have "\<not> in_range d n (d + of_nat n)"
    using Suc.prems(1) by (simp add: in_range_def unat_of_nat)
  moreover have "in_range d (Suc n) x \<longleftrightarrow> x = d + of_nat n \<or> in_range d n x"
    using Suc.prems(1) by (intro in_range_Suc_last) simp
  moreover have "copy_down m (d + of_nat (Suc n)) (s + of_nat (Suc n)) (Suc n) x =
      copy_down ?m (d + of_nat n) (s + of_nat n) n x"
    by (simp add: add.commute [of 1] diff_add_eq add_diff_eq)
  ultimately show ?case using IH by (cases "x = d + of_nat n") auto
qed

lemma unat_add_offset:
  fixes a :: u32
  shows "unat a + n \<le> 2 ^ 32 \<Longrightarrow> i < n \<Longrightarrow> unat (a + of_nat i) = unat a + i"
  by (simp add: unat_word_ariths unat_of_nat)

text \<open>
  The copy is right whether or not the areas overlap, as long as neither area runs past the
  end of the address space (the source strictly: the test \<open>s + n > d\<close> wraps otherwise).
\<close>

lemma memmove_apply:
  assumes src: "unat src + unat n < 2 ^ 32" and dst: "unat dst + unat n \<le> 2 ^ 32"
  shows "memmove m dst src n x = (if in_range dst (unat n) x then m (src + (x - dst)) else m x)"
proof -
  have n: "unat n \<le> 2 ^ 32" using src by simp
  have d: "unat (dst + of_nat j) = unat dst + j" if "j < unat n" for j
    using unat_add_offset [OF dst that] .
  have s: "unat (src + of_nat i) = unat src + i" if "i < unat n" for i
    using unat_add_offset [of src "unat n" i] src that by simp
  have sn: "unat (src + n) = unat src + unat n"
    using src by (simp add: unat_word_ariths)
  show ?thesis
  proof (cases "src < dst \<and> src + n > dst")
    case True
    have "dst + of_nat j \<noteq> src + of_nat i" if "i < j" "j < unat n" for i j
      using d [OF that(2)] s [of i] that True by (auto simp: word_less_nat_alt)
    from copy_down_apply [OF n this] True show ?thesis
      by (simp add: memmove_def)
  next
    case False
    then have "unat dst \<le> unat src \<or> unat src + unat n \<le> unat dst"
      using sn by (auto simp: word_less_nat_alt)
    then have "dst + of_nat j \<noteq> src + of_nat i" if "j < i" "i < unat n" for i j
      using d [of j] s [OF that(2)] that by auto
    from copy_up_apply [OF n this] False show ?thesis
      by (auto simp: memmove_def)
  qed
qed

section \<open>Properties\<close>

text \<open>
  \<open>memmove\<close> delivers the old source bytes to the destination and touches nothing else,
  also when the two areas overlap in either direction (the areas must not run past the end of
  the address space).
\<close>

theorem memmove_copies:
  assumes "unat src + unat n < 2 ^ 32" "unat dst + unat n \<le> 2 ^ 32"
  shows "map (\<lambda>i. memmove m dst src n (dst + of_nat i)) [0..<unat n] = map (\<lambda>i. m (src + of_nat i)) [0..<unat n]
    \<and> (\<forall>x. \<not> in_range dst (unat n) x \<longrightarrow> memmove m dst src n x = m x)"
proof -
  have "unat n \<le> 2 ^ 32" using assms(1) by simp
  then show ?thesis using assms by (auto simp: memmove_apply in_range_offset)
qed

theorem memmove_copies_witness:
  "map (\<lambda>i. memmove (\<lambda>a. ucast a) 0x1002 0x1000 4 (0x1002 + of_nat i)) [0..<4] = [0, 1, 2, 3]"
  using memmove_copies [of "0x1000" 4 "0x1002" "\<lambda>a. ucast a"] by (simp add: upt_rec)

end
