(* ===== verification/Spinlock.thy ===== *)
theory Spinlock
  imports Cstring
begin

text \<open>
  The machine state below every kernel component (\<open>struct cpu\<close> of \<open>proc.h\<close>, the interrupt
  flag, the spinlocks and byte memory) and \<open>spinlock.c\<close>: \<open>initlock\<close>, \<open>acquire\<close>, \<open>release\<close>,
  \<open>holding\<close>, \<open>pushcli\<close>, \<open>popcli\<close>, \<open>getcallerpcs\<close>, with \<open>mycpu\<close> of \<open>proc.c\<close>.
  The client contract of the locks is the predicate \<open>lockset S s\<close>: this CPU holds exactly the
  locks of \<open>S\<close>.
\<close>

section \<open>Names of locks and channels\<close>

text \<open>
  The kernel names a spinlock, a sleeplock or a sleep channel by an address; the addresses in
  use are those of the following objects.
\<close>

datatype slid = SL_buf nat | SL_inode nat

datatype lockid =
    L_kmem | L_ptable | L_ticks | L_bcache | L_log | L_icache | L_ftable | L_cons | L_ide
  | L_pipe u32
  | L_sleeplock slid

datatype chan =
    C_null
  | C_proc nat
  | C_ticks
  | C_log
  | C_buf nat
  | C_sleeplock slid
  | C_pipe_nread u32
  | C_pipe_nwrite u32
  | C_input_r

datatype waiting = Spinning lockid | Switched | Halted

section \<open>State\<close>

record spinlock =
  lk_locked :: u32
  lk_name :: string
  lk_cpu :: "nat option"
  lk_pcs :: "u32 list"

record cpu =
  c_apicid :: u8
  c_ncli :: u32
  c_intena :: u32
  c_proc :: "nat option"

record mach =
  cpus :: "cpu list"
  lapicid :: u8
  if_flag :: bool
  locks :: "lockid \<Rightarrow> spinlock"
  mem :: mem
  frame :: u32

type_synonym ('s, 'a) prog = "'s \<Rightarrow> (waiting, 'a, 's) outcome"

definition FL_IF :: u32 where "FL_IF = 0x200"

definition KERNBASE :: u32 where "KERNBASE = 0x80000000"

definition nl :: string where "nl = [CHR 0x0A]"

definition readeflags :: "'x mach_scheme \<Rightarrow> u32" where
  "readeflags s = (if if_flag s then FL_IF else 0)"

definition cli :: "('x mach_scheme, unit) prog" where
  "cli = modS (\<lambda>s. s\<lparr>if_flag := False\<rparr>)"

definition sti :: "('x mach_scheme, unit) prog" where
  "sti = modS (\<lambda>s. s\<lparr>if_flag := True\<rparr>)"

definition upd_cpu :: "nat \<Rightarrow> (cpu \<Rightarrow> cpu) \<Rightarrow> 'x mach_scheme \<Rightarrow> 'x mach_scheme" where
  "upd_cpu i f s = s\<lparr>cpus := (cpus s)[i := f (cpus s ! i)]\<rparr>"

definition upd_lock :: "lockid \<Rightarrow> (spinlock \<Rightarrow> spinlock) \<Rightarrow> 'x mach_scheme \<Rightarrow> 'x mach_scheme" where
  "upd_lock l f s = s\<lparr>locks := (locks s)(l := f (locks s l))\<rparr>"

section \<open>Operations\<close>

definition mycpu :: "('x mach_scheme, nat) prog" where
  "mycpu =
     bindM (getS readeflags) (\<lambda>fl.
     if fl AND FL_IF \<noteq> 0 then panic (''mycpu called with interrupts enabled'' @ nl)
     else bindM (getS (\<lambda>s. first_idx (\<lambda>c. c_apicid c = lapicid s) (cpus s))) (\<lambda>r.
     case r of Some i \<Rightarrow> ret i | None \<Rightarrow> panic (''unknown apicid'' @ nl)))"

definition pushcli :: "('x mach_scheme, unit) prog" where
  "pushcli =
     bindM (getS readeflags) (\<lambda>eflags.
     seqM cli (
     bindM mycpu (\<lambda>i.
     bindM (getS (\<lambda>s. c_ncli (cpus s ! i))) (\<lambda>n.
     seqM (whenM (n = 0) (modS (upd_cpu i (\<lambda>c. c\<lparr>c_intena := eflags AND FL_IF\<rparr>))))
     (modS (upd_cpu i (\<lambda>c. c\<lparr>c_ncli := c_ncli c + 1\<rparr>)))))))"

definition popcli :: "('x mach_scheme, unit) prog" where
  "popcli =
     bindM (getS readeflags) (\<lambda>fl.
     if fl AND FL_IF \<noteq> 0 then panic ''popcli - interruptible''
     else bindM mycpu (\<lambda>i.
     seqM (modS (upd_cpu i (\<lambda>c. c\<lparr>c_ncli := c_ncli c - 1\<rparr>))) (
     bindM (getS (\<lambda>s. cpus s ! i)) (\<lambda>c.
     if sint (c_ncli c) < 0 then panic ''popcli''
     else whenM (c_ncli c = 0 \<and> c_intena c \<noteq> 0) sti))))"

definition holding :: "lockid \<Rightarrow> ('x mach_scheme, bool) prog" where
  "holding l =
     seqM pushcli (
     bindM (getS (\<lambda>s. locks s l)) (\<lambda>lk.
     bindM mycpu (\<lambda>i.
     seqM popcli
     (ret (lk_locked lk \<noteq> 0 \<and> lk_cpu lk = Some i)))))"

fun callerpcs_loop :: "mem \<Rightarrow> u32 \<Rightarrow> nat \<Rightarrow> u32 list" where
  "callerpcs_loop m ebp 0 = []"
| "callerpcs_loop m ebp (Suc n) =
     (if ebp = 0 \<or> ebp < KERNBASE \<or> ebp = 0xffffffff then replicate (Suc n) 0
      else rd32 m (ebp + 4) # callerpcs_loop m (rd32 m ebp) n)"

definition getcallerpcs :: "mem \<Rightarrow> u32 \<Rightarrow> u32 list" where
  "getcallerpcs m v = callerpcs_loop m (v - 8) 10"

definition initlock :: "lockid \<Rightarrow> string \<Rightarrow> ('x mach_scheme, unit) prog" where
  "initlock l nm = modS (upd_lock l (\<lambda>lk. lk\<lparr>lk_name := nm, lk_locked := 0, lk_cpu := None\<rparr>))"

definition acquire :: "lockid \<Rightarrow> ('x mach_scheme, unit) prog" where
  "acquire l =
     seqM pushcli (
     bindM (holding l) (\<lambda>h.
     if h then panic ''acquire''
     else bindM (getS (\<lambda>s. lk_locked (locks s l))) (\<lambda>old.
     seqM (modS (upd_lock l (\<lambda>lk. lk\<lparr>lk_locked := 1\<rparr>))) (
     if old \<noteq> 0 then waitM (Spinning l)
     else bindM mycpu (\<lambda>i.
     seqM (modS (upd_lock l (\<lambda>lk. lk\<lparr>lk_cpu := Some i\<rparr>)))
     (modS (\<lambda>s. upd_lock l (\<lambda>lk. lk\<lparr>lk_pcs := getcallerpcs (mem s) (frame s)\<rparr>) s)))))))"

definition release :: "lockid \<Rightarrow> ('x mach_scheme, unit) prog" where
  "release l =
     bindM (holding l) (\<lambda>h.
     if \<not> h then panic ''release''
     else seqM (modS (upd_lock l (\<lambda>lk. lk\<lparr>lk_pcs := (lk_pcs lk)[0 := 0]\<rparr>))) (
     seqM (modS (upd_lock l (\<lambda>lk. lk\<lparr>lk_cpu := None\<rparr>))) (
     seqM (modS (upd_lock l (\<lambda>lk. lk\<lparr>lk_locked := 0\<rparr>)))
     popcli)))"

section \<open>The effect of the operations\<close>

definition curcpu :: "'x mach_scheme \<Rightarrow> nat" where
  "curcpu s = the (first_idx (\<lambda>c. c_apicid c = lapicid s) (cpus s))"

definition cpu_found :: "'x mach_scheme \<Rightarrow> bool" where
  "cpu_found s \<longleftrightarrow> first_idx (\<lambda>c. c_apicid c = lapicid s) (cpus s) \<noteq> None"

abbreviation mycpu_of :: "'x mach_scheme \<Rightarrow> cpu" where
  "mycpu_of s \<equiv> cpus s ! curcpu s"

definition pushed :: "'x mach_scheme \<Rightarrow> 'x mach_scheme" where
  "pushed s =
     upd_cpu (curcpu s)
       (\<lambda>c. c\<lparr>c_intena := (if c_ncli c = 0 then readeflags s AND FL_IF else c_intena c),
              c_ncli := c_ncli c + 1\<rparr>)
       (s\<lparr>if_flag := False\<rparr>)"

definition popped :: "'x mach_scheme \<Rightarrow> 'x mach_scheme" where
  "popped s =
     (upd_cpu (curcpu s) (\<lambda>c. c\<lparr>c_ncli := c_ncli c - 1\<rparr>) s)
       \<lparr>if_flag := c_ncli (mycpu_of s) = 1 \<and> c_intena (mycpu_of s) \<noteq> 0\<rparr>"

definition acq :: "lockid \<Rightarrow> 'x mach_scheme \<Rightarrow> 'x mach_scheme" where
  "acq l s =
     upd_lock l
       (\<lambda>lk. lk\<lparr>lk_locked := 1, lk_cpu := Some (curcpu s), lk_pcs := getcallerpcs (mem s) (frame s)\<rparr>)
       (pushed s)"

definition rel :: "lockid \<Rightarrow> 'x mach_scheme \<Rightarrow> 'x mach_scheme" where
  "rel l s =
     popped (upd_lock l (\<lambda>lk. lk\<lparr>lk_pcs := (lk_pcs lk)[0 := 0], lk_cpu := None, lk_locked := 0\<rparr>) s)"

lemmas effect_defs = acq_def rel_def pushed_def popped_def upd_cpu_def upd_lock_def

lemma wp_option [simp]:
  "wp (case x of None \<Rightarrow> m | Some y \<Rightarrow> f y) Q s =
     (case x of None \<Rightarrow> wp m Q s | Some y \<Rightarrow> wp (f y) Q s)"
  by (cases x) simp_all

lemma mycpu_ok: "cpu_found s \<Longrightarrow> \<not> if_flag s \<Longrightarrow> mycpu s = Ok (curcpu s) s"
  by (auto simp: mycpu_def M_defs cpu_found_def curcpu_def readeflags_def)

lemma curcpu_less: "cpu_found s \<Longrightarrow> curcpu s < length (cpus s)"
  by (auto simp: cpu_found_def curcpu_def)

lemma first_idx_update_same:
  "(i < length xs \<Longrightarrow> P v = P (xs ! i)) \<Longrightarrow> first_idx P (xs[i := v]) = first_idx P xs"
  by (induction xs arbitrary: i) (auto split: nat.split)

lemma upd_cpu_found [simp]:
  assumes "\<And>c. c_apicid (f c) = c_apicid c"
  shows "cpu_found (upd_cpu i f s) = cpu_found s" "curcpu (upd_cpu i f s) = curcpu s"
  by (simp_all add: cpu_found_def curcpu_def upd_cpu_def first_idx_update_same assms)

lemma cpu_found_frame [simp]:
  "cpu_found (s\<lparr>if_flag := b\<rparr>) = cpu_found s" "curcpu (s\<lparr>if_flag := b\<rparr>) = curcpu s"
  "cpu_found (upd_lock l g s) = cpu_found s" "curcpu (upd_lock l g s) = curcpu s"
  by (simp_all add: cpu_found_def curcpu_def upd_lock_def)

lemma upd_lock_sel [simp]:
  "cpus (upd_lock l g s) = cpus s" "if_flag (upd_lock l g s) = if_flag s"
  "mem (upd_lock l g s) = mem s" "frame (upd_lock l g s) = frame s"
  "lapicid (upd_lock l g s) = lapicid s"
  "locks (upd_lock l g s) = (locks s)(l := g (locks s l))"
  by (simp_all add: upd_lock_def)

lemma pushed_found [simp]: "cpu_found (pushed s) = cpu_found s" "curcpu (pushed s) = curcpu s"
  by (simp_all add: pushed_def)

lemma popped_found [simp]: "cpu_found (popped s) = cpu_found s" "curcpu (popped s) = curcpu s"
  by (simp_all add: popped_def)

lemma pushcli_ok:
  assumes "cpu_found s"
  shows "pushcli s = Ok () (pushed s)"
proof -
  let ?t = "s\<lparr>if_flag := False\<rparr>"
  have "mycpu ?t = Ok (curcpu s) ?t" using assms mycpu_ok [of ?t] by simp
  then show ?thesis using curcpu_less [OF assms]
    by (auto simp: pushcli_def M_defs cli_def pushed_def upd_cpu_def)
qed

lemma popcli_ok:
  assumes "cpu_found s" "\<not> if_flag s" "0 < unat (c_ncli (mycpu_of s))" "unat (c_ncli (mycpu_of s)) < 2 ^ 31"
  shows "popcli s = Ok () (popped s)"
proof -
  have "unat (c_ncli (mycpu_of s) - 1) = unat (c_ncli (mycpu_of s)) - 1"
    using assms(3) by (intro unat_minus_one) auto
  then have n: "\<not> sint (c_ncli (mycpu_of s) - 1) < 0"
    using assms(4) by (subst sint_small) auto
  show ?thesis
    using assms(1,2) mycpu_ok [OF assms(1,2)] curcpu_less [OF assms(1)] n
    by (auto simp: popcli_def M_defs sti_def popped_def upd_cpu_def readeflags_def)
qed

section \<open>The client contract: sets of held locks\<close>

text \<open>
  \<open>lockset S s\<close>: this CPU holds exactly the locks \<open>S\<close> and no other CPU holds a lock, every
  held lock accounts for one \<open>pushcli\<close>, and interrupts are off while a lock is held.
\<close>

definition lockset :: "lockid set \<Rightarrow> 'x mach_scheme \<Rightarrow> bool" where
  "lockset S s \<longleftrightarrow>
     cpu_found s \<and> finite S \<and> card S \<le> 1000 \<and> unat (c_ncli (mycpu_of s)) = card S \<and>
     (S \<noteq> {} \<longrightarrow> \<not> if_flag s) \<and>
     (\<forall>l. if l \<in> S then lk_locked (locks s l) \<noteq> 0 \<and> lk_cpu (locks s l) = Some (curcpu s)
          else lk_locked (locks s l) = 0)"

lemma cpus_pushed:
  "cpus (pushed s) = (cpus s)[curcpu s := (mycpu_of s)
     \<lparr>c_intena := (if c_ncli (mycpu_of s) = 0 then readeflags s AND FL_IF else c_intena (mycpu_of s)),
      c_ncli := c_ncli (mycpu_of s) + 1\<rparr>]"
  by (simp add: pushed_def upd_cpu_def)

lemma cpus_popped:
  "cpus (popped s) = (cpus s)[curcpu s := (mycpu_of s)\<lparr>c_ncli := c_ncli (mycpu_of s) - 1\<rparr>]"
  by (simp add: popped_def upd_cpu_def)

lemma pushed_ncli [simp]:
  "cpu_found s \<Longrightarrow> c_ncli (cpus (pushed s) ! curcpu s) = c_ncli (mycpu_of s) + 1"
  by (simp add: cpus_pushed curcpu_less)

lemma pushed_if [simp]: "\<not> if_flag (pushed s)"
  by (simp add: pushed_def upd_cpu_def)

lemma pushed_locks [simp]: "locks (pushed s) = locks s" "mem (pushed s) = mem s" "frame (pushed s) = frame s"
  by (simp_all add: pushed_def upd_cpu_def)

lemma popped_locks [simp]: "locks (popped s) = locks s" "mem (popped s) = mem s" "frame (popped s) = frame s"
  by (simp_all add: popped_def upd_cpu_def)

text \<open>A nested \<open>pushcli\<close>/\<open>popcli\<close> pair with interrupts off changes nothing.\<close>

lemma popped_pushed:
  assumes "cpu_found s" "\<not> if_flag s" "c_ncli (mycpu_of s) \<noteq> 0"
  shows "popped (pushed s) = s"
proof -
  have "curcpu s < length (cpus s)" using assms(1) by (rule curcpu_less)
  with assms(2,3) have "cpus (popped (pushed s)) = cpus s"
    by (simp add: cpus_popped cpus_pushed)
  moreover have "if_flag (popped (pushed s)) = if_flag s"
    using assms(2,3) curcpu_less [OF assms(1)] by (simp add: popped_def cpus_pushed)
  moreover have "popped (pushed s) = s\<lparr>cpus := cpus (popped (pushed s)), if_flag := if_flag (popped (pushed s))\<rparr>"
    by (simp add: popped_def pushed_def upd_cpu_def)
  ultimately show ?thesis by simp
qed

lemma holding_ok:
  assumes "cpu_found s" "\<not> if_flag s" "0 < unat (c_ncli (mycpu_of s))" "unat (c_ncli (mycpu_of s)) < 2 ^ 30"
  shows "holding l s =
    Ok (lk_locked (locks s l) \<noteq> 0 \<and> lk_cpu (locks s l) = Some (curcpu s)) s"
proof -
  let ?n = "c_ncli (mycpu_of s)"
  have n: "unat (?n + 1) = unat ?n + 1"
    using assms(4) by (simp add: unat_word_ariths)
  have "?n \<noteq> 0" using assms(3) by auto
  with assms have "popped (pushed s) = s" by (intro popped_pushed)
  moreover have "popcli (pushed s) = Ok () (popped (pushed s))"
    using assms n by (intro popcli_ok) simp_all
  moreover have "mycpu (pushed s) = Ok (curcpu s) (pushed s)"
    using assms(1) mycpu_ok [of "pushed s"] by simp
  ultimately show ?thesis
    using pushcli_ok [OF assms(1)] by (simp add: holding_def M_defs)
qed

lemma locksetD:
  assumes "lockset S s"
  shows "cpu_found s" "finite S" "unat (c_ncli (mycpu_of s)) = card S"
    and "l \<in> S \<Longrightarrow> lk_locked (locks s l) \<noteq> 0 \<and> lk_cpu (locks s l) = Some (curcpu s)"
    and "l \<notin> S \<Longrightarrow> lk_locked (locks s l) = 0"
    and "S \<noteq> {} \<Longrightarrow> \<not> if_flag s" "card S \<le> 1000"
  using assms by (auto simp: lockset_def split: if_splits)

lemma pushed_ncli_unat:
  "lockset S s \<Longrightarrow> unat (c_ncli (mycpu_of (pushed s))) = card S + 1"
  using locksetD(1,3,7) [of S s] by (simp add: unat_word_ariths)

lemma upd_lock_twice [simp]: "upd_lock l f (upd_lock l g s) = upd_lock l (f \<circ> g) s"
  by (simp add: upd_lock_def)

lemma acquire_ok:
  assumes "lockset S s" "l \<notin> S"
  shows "acquire l s = Ok () (acq l s)"
proof -
  have h: "holding l (pushed s) = Ok False (pushed s)"
    using locksetD(1,5,7) [OF assms(1)] pushed_ncli_unat [OF assms(1)] assms(2)
    by (subst holding_ok) simp_all
  have m: "mycpu (upd_lock l f (pushed s)) = Ok (curcpu s) (upd_lock l f (pushed s))" for f
    using locksetD(1) [OF assms(1)] mycpu_ok [of "upd_lock l f (pushed s)"] by simp
  show ?thesis
    using pushcli_ok [OF locksetD(1) [OF assms(1)]] h m locksetD(5) [OF assms]
    by (simp add: acquire_def M_defs acq_def comp_def)
qed

lemma acquire_held:
  assumes "lockset S s" "l \<in> S" "card S < 1000"
  shows "acquire l s = Panic ''acquire''"
proof -
  have "holding l (pushed s) = Ok True (pushed s)"
    using locksetD(1,4,7) [OF assms(1)] pushed_ncli_unat [OF assms(1)] assms(2)
    by (subst holding_ok) simp_all
  then show ?thesis
    using pushcli_ok [OF locksetD(1) [OF assms(1)]] by (simp add: acquire_def M_defs)
qed

lemma release_ok:
  assumes "lockset S s" "l \<in> S"
  shows "release l s = Ok () (rel l s)"
proof -
  have S: "0 < card S" using assms locksetD(2) by (auto simp: card_gt_0_iff)
  have off: "\<not> if_flag s" using assms locksetD(6) by blast
  have h: "holding l s = Ok True s"
    using locksetD(1,3,4,7) [OF assms(1)] S off assms(2) by (subst holding_ok) auto
  let ?t = "upd_lock l (\<lambda>lk. lk\<lparr>lk_pcs := (lk_pcs lk)[0 := 0], lk_cpu := None, lk_locked := 0\<rparr>) s"
  have "popcli ?t = Ok () (popped ?t)"
  proof (rule popcli_ok)
    show "cpu_found ?t" using locksetD(1) [OF assms(1)] by simp
    show "\<not> if_flag ?t" using off by simp
    show "0 < unat (c_ncli (mycpu_of ?t))" "unat (c_ncli (mycpu_of ?t)) < 2 ^ 31"
      using locksetD(3,7) [OF assms(1)] S by simp_all
  qed
  then show ?thesis using h by (simp add: release_def M_defs rel_def comp_def)
qed

lemma release_not_held:
  assumes "lockset S s" "l \<notin> S" "S \<noteq> {}"
  shows "release l s = Panic ''release''"
proof -
  have "0 < card S" using assms locksetD(2) by (auto simp: card_gt_0_iff)
  then have "holding l s = Ok False s"
    using locksetD(1,3,5,6,7) [OF assms(1)] assms(2,3) by (subst holding_ok) auto
  then show ?thesis by (simp add: release_def M_defs)
qed

lemma acq_found [simp]: "cpu_found (acq l s) = cpu_found s" "curcpu (acq l s) = curcpu s"
  by (simp_all add: acq_def)

lemma rel_found [simp]: "cpu_found (rel l s) = cpu_found s" "curcpu (rel l s) = curcpu s"
  by (simp_all add: rel_def)

lemma lockset_acq:
  assumes "lockset S s" "l \<notin> S" "card S < 1000"
  shows "lockset (insert l S) (acq l s)"
proof -
  have "unat (c_ncli (cpus (acq l s) ! curcpu s)) = card S + 1"
    using pushed_ncli_unat [OF assms(1)] by (simp add: acq_def)
  then show ?thesis
    using locksetD [OF assms(1)] assms(2,3) by (auto simp: lockset_def acq_def)
qed

lemma popped_if: "if_flag (popped s) \<longleftrightarrow> c_ncli (mycpu_of s) = 1 \<and> c_intena (mycpu_of s) \<noteq> 0"
  by (simp add: popped_def)

lemma lockset_rel:
  assumes "lockset S s" "l \<in> S"
  shows "lockset (S - {l}) (rel l s)"
proof -
  have S: "0 < card S" using assms locksetD(2) by (auto simp: card_gt_0_iff)
  let ?n = "c_ncli (mycpu_of s)"
  have n: "unat (?n - 1) = card S - 1"
    using locksetD(3) [OF assms(1)] S unat_minus_one [of ?n] by force
  have c: "card (S - {l}) = card S - 1" using assms locksetD(2) by simp
  have flag: "\<not> if_flag (rel l s)" if "S - {l} \<noteq> {}"
  proof -
    from that have "0 < card (S - {l})" using locksetD(2) [OF assms(1)] by (simp add: card_gt_0_iff)
    then have "?n \<noteq> 1" using c locksetD(3) [OF assms(1)] by auto
    then show ?thesis by (simp add: rel_def popped_if)
  qed
  have "unat (c_ncli (cpus (rel l s) ! curcpu s)) = card (S - {l})"
    using n c curcpu_less [OF locksetD(1) [OF assms(1)]] by (simp add: rel_def cpus_popped)
  then show ?thesis
    using locksetD [OF assms(1)] assms(2) flag c
    by (auto simp: lockset_def rel_def)
qed

lemma acquire_wp [wp_intro]:
  assumes "lockset S s" "l \<notin> S" "card S < 1000"
    and "lockset (insert l S) (acq l s) \<Longrightarrow> Q () (acq l s)"
  shows "wp (acquire l) Q s"
  using assms lockset_acq [OF assms(1-3)] by (simp add: wp_def acquire_ok [OF assms(1,2)])

lemma release_wp [wp_intro]:
  assumes "lockset S s" "l \<in> S" and "lockset (S - {l}) (rel l s) \<Longrightarrow> Q () (rel l s)"
  shows "wp (release l) Q s"
  using assms lockset_rel [OF assms(1,2)] by (simp add: wp_def release_ok [OF assms(1,2)])

section \<open>The lock interface\<close>

text \<open>
  What the rest of the kernel relies on: taking a free lock and giving up a held one succeed
  and change the set of held locks, and taking a held lock is an error.
\<close>

locale lock_service =
  fixes lock_op unlock_op :: "'l \<Rightarrow> ('s, unit) prog"
    and held :: "'l set \<Rightarrow> 's \<Rightarrow> bool"
  assumes take: "held S s \<Longrightarrow> l \<notin> S \<Longrightarrow> card S < 1000 \<Longrightarrow> \<exists>t. lock_op l s = Ok () t \<and> held (insert l S) t"
    and give: "held S s \<Longrightarrow> l \<in> S \<Longrightarrow> \<exists>t. unlock_op l s = Ok () t \<and> held (S - {l}) t"
    and retake: "held S s \<Longrightarrow> l \<in> S \<Longrightarrow> card S < 1000 \<Longrightarrow> \<exists>e. lock_op l s = Panic e"
begin

lemma critical_section:
  assumes "held S s" "l \<notin> S" "card S < 1000"
    and body: "\<And>t. held (insert l S) t \<Longrightarrow> wp body (\<lambda>r. held (insert l S)) t"
  shows "wp (seqM (lock_op l) (bindM body (\<lambda>r. seqM (unlock_op l) (ret r)))) (\<lambda>r. held S) s"
proof -
  from take [OF assms(1-3)] obtain t where t: "lock_op l s = Ok () t" "held (insert l S) t" by blast
  from body [OF t(2)] obtain r u where u: "body t = Ok r u" "held (insert l S) u" by (rule wpE)
  from give [OF u(2), of l] obtain v where "unlock_op l u = Ok () v" "held (insert l S - {l}) v" by blast
  then show ?thesis using t(1) u(1) assms(2) by (simp add: wp_def M_defs)
qed

lemma balanced:
  assumes "held S s" "l \<notin> S" "card S < 1000"
  shows "wp (seqM (lock_op l) (unlock_op l)) (\<lambda>_. held S) s"
proof -
  from take [OF assms] obtain t where t: "lock_op l s = Ok () t" "held (insert l S) t" by blast
  from give [OF t(2), of l] obtain v where "unlock_op l t = Ok () v" "held (insert l S - {l}) v" by blast
  then show ?thesis using t(1) assms(2) by (simp add: wp_def M_defs)
qed

lemma relock_panics:
  assumes "held S s" "l \<notin> S" "card S + 1 < 1000" "finite S"
  shows "\<exists>e. seqM (lock_op l) (lock_op l) s = Panic e"
proof -
  from assms(3) have "card S < 1000" by simp
  from take [OF assms(1,2) this] obtain t where t: "lock_op l s = Ok () t" "held (insert l S) t" by blast
  have "card (insert l S) < 1000" using assms(2-4) by simp
  from retake [OF t(2) _ this] obtain e where "lock_op l t = Panic e" by blast
  then show ?thesis using t(1) by (auto simp: seqM_def bindM_def)
qed

end

interpretation spin: lock_service acquire release lockset
proof
  fix S l and s :: "'x mach_scheme"
  show "lockset S s \<Longrightarrow> l \<notin> S \<Longrightarrow> card S < 1000 \<Longrightarrow> \<exists>t. acquire l s = Ok () t \<and> lockset (insert l S) t"
    by (auto simp: acquire_ok lockset_acq)
  show "lockset S s \<Longrightarrow> l \<in> S \<Longrightarrow> \<exists>t. release l s = Ok () t \<and> lockset (S - {l}) t"
    by (auto simp: release_ok lockset_rel)
  show "lockset S s \<Longrightarrow> l \<in> S \<Longrightarrow> card S < 1000 \<Longrightarrow> \<exists>e. acquire l s = Panic e"
    by (simp add: acquire_held)
qed

end
