(* ===== verification/Kalloc.thy ===== *)
theory Kalloc
  imports Spinlock
begin

text \<open>
  The physical page allocator \<open>kalloc.c\<close>: a free list threaded through the free pages
  themselves, with \<open>kinit1\<close>, \<open>kinit2\<close>, \<open>freerange\<close>, \<open>kfree\<close>, \<open>kalloc\<close>, and the page counter
  \<open>count_free_pages\<close> that lab 5 adds. The invariant \<open>free_pages ps s\<close> ties the chain of
  \<open>next\<close> pointers in memory to an abstract list of distinct pages.
\<close>

section \<open>Constants of mmu.h and memlayout.h\<close>

definition PGSIZE :: u32 where "PGSIZE = 4096"

definition PHYSTOP :: u32 where "PHYSTOP = 0xE000000"

definition V2P :: "u32 \<Rightarrow> u32" where "V2P a = a - KERNBASE"

definition P2V :: "u32 \<Rightarrow> u32" where "P2V a = a + KERNBASE"

definition PGROUNDUP :: "u32 \<Rightarrow> u32" where
  "PGROUNDUP sz = (sz + PGSIZE - 1) AND NOT (PGSIZE - 1)"

definition PGROUNDDOWN :: "u32 \<Rightarrow> u32" where
  "PGROUNDDOWN a = a AND NOT (PGSIZE - 1)"

section \<open>State and operations\<close>

record kmem_st = mach +
  use_lock :: bool
  freelist :: u32
  kend :: u32

definition upd_mem :: "(mem \<Rightarrow> mem) \<Rightarrow> 'x mach_scheme \<Rightarrow> 'x mach_scheme" where
  "upd_mem f s = s\<lparr>mem := f (mem s)\<rparr>"

definition kfree :: "u32 \<Rightarrow> ('x kmem_st_scheme, unit) prog" where
  "kfree v =
     bindM (getS kend) (\<lambda>e.
     if v mod PGSIZE \<noteq> 0 \<or> v < e \<or> V2P v \<ge> PHYSTOP then panic ''kfree''
     else seqM (modS (upd_mem (\<lambda>m. memset m v 1 PGSIZE))) (
     bindM (getS use_lock) (\<lambda>ul.
     seqM (whenM ul (acquire L_kmem)) (
     seqM (modS (\<lambda>s. upd_mem (\<lambda>m. wr32 m v (freelist s)) s)) (
     seqM (modS (\<lambda>s. s\<lparr>freelist := v\<rparr>)) (
     bindM (getS use_lock) (\<lambda>ul.
     whenM ul (release L_kmem))))))))"

definition kalloc :: "('x kmem_st_scheme, u32) prog" where
  "kalloc =
     bindM (getS use_lock) (\<lambda>ul.
     seqM (whenM ul (acquire L_kmem)) (
     bindM (getS freelist) (\<lambda>r.
     seqM (whenM (r \<noteq> 0) (modS (\<lambda>s. s\<lparr>freelist := rd32 (mem s) r\<rparr>))) (
     bindM (getS use_lock) (\<lambda>ul.
     seqM (whenM ul (release L_kmem))
     (ret r))))))"

text \<open>
  The loop of \<open>freerange\<close>, with fuel: the address space has \<open>2 ^ 20\<close> pages, and \<open>kfree\<close>
  panics at the first page at or above \<open>PHYSTOP\<close>.
\<close>

fun freerange_loop :: "nat \<Rightarrow> u32 \<Rightarrow> u32 \<Rightarrow> ('x kmem_st_scheme, unit) prog" where
  "freerange_loop 0 p vend = nofuel"
| "freerange_loop (Suc fuel) p vend =
     (if p + PGSIZE \<le> vend then seqM (kfree p) (freerange_loop fuel (p + PGSIZE) vend) else ret ())"

definition freerange :: "u32 \<Rightarrow> u32 \<Rightarrow> ('x kmem_st_scheme, unit) prog" where
  "freerange vstart vend = freerange_loop (2 ^ 20 + 1) (PGROUNDUP vstart) vend"

definition kinit1 :: "u32 \<Rightarrow> u32 \<Rightarrow> ('x kmem_st_scheme, unit) prog" where
  "kinit1 vstart vend =
     seqM (initlock L_kmem ''kmem'') (
     seqM (modS (\<lambda>s. s\<lparr>use_lock := False\<rparr>))
     (freerange vstart vend))"

definition kinit2 :: "u32 \<Rightarrow> u32 \<Rightarrow> ('x kmem_st_scheme, unit) prog" where
  "kinit2 vstart vend =
     seqM (freerange vstart vend)
     (modS (\<lambda>s. s\<lparr>use_lock := True\<rparr>))"

text \<open>
  Lab 5: \<open>count_free_pages\<close> starts at \<open>kmem.freelist\<close> and dereferences it before looking
  whether it is null. The traversal carries fuel, one unit per page.
\<close>

fun count_loop :: "nat \<Rightarrow> u32 \<Rightarrow> u32 \<Rightarrow> ('x kmem_st_scheme, u32) prog" where
  "count_loop 0 r count = nofuel"
| "count_loop (Suc fuel) r count =
     (if r = 0 then undef ''null pointer''
      else bindM (getS (\<lambda>s. rd32 (mem s) r)) (\<lambda>nx.
      if nx \<noteq> 0 then count_loop fuel nx (count + 1) else ret count))"

definition count_free_pages :: "('x kmem_st_scheme, u32) prog" where
  "count_free_pages =
     bindM (getS freelist) (\<lambda>r.
     seqM (acquire L_kmem) (
     bindM (count_loop (2 ^ 20 + 1) r 0) (\<lambda>count.
     seqM (release L_kmem)
     (ret count))))"

section \<open>Pages\<close>

definition valid_page :: "u32 \<Rightarrow> u32 \<Rightarrow> bool" where
  "valid_page e v \<longleftrightarrow> v mod PGSIZE = 0 \<and> e \<le> v \<and> V2P v < PHYSTOP \<and> v \<noteq> 0"

lemma aligned_unat: "v mod PGSIZE = 0 \<Longrightarrow> unat v mod 4096 = 0"
proof -
  assume "v mod PGSIZE = 0"
  then have "unat (v mod PGSIZE) = 0" by simp
  then show ?thesis by (simp add: unat_mod PGSIZE_def)
qed

lemma aligned_obtain:
  assumes "v mod PGSIZE = 0"
  obtains k where "unat v = 4096 * k" "k < 1048576"
proof -
  from aligned_unat [OF assms] have "4096 dvd unat v" by (simp add: dvd_eq_mod_eq_0)
  then obtain k where k: "unat v = 4096 * k" by (rule dvdE)
  have "unat v < 2 ^ 32" using unsigned_less [where 'a = nat and 'b = 32, of v] by simp
  with k have "k < 1048576" by simp
  with k show ?thesis by (rule that)
qed

lemma aligned_bound: "v mod PGSIZE = 0 \<Longrightarrow> unat v + 4096 \<le> 2 ^ 32"
  by (erule aligned_obtain) simp

lemma page_of_addr:
  assumes "v mod PGSIZE = 0" "in_range v 4096 x"
  shows "unat x div 4096 = unat v div 4096"
proof -
  from assms(2) obtain i where i: "i < 4096" "x = v + of_nat i" by (rule in_rangeE)
  from assms(1) obtain k where k: "unat v = 4096 * k" by (rule aligned_obtain)
  from i have "unat x = unat v + i"
    using unat_add_offset [of v 4096 i] aligned_bound [OF assms(1)] by simp
  with k i(1) show ?thesis by simp
qed

lemma pages_disjoint:
  assumes "p mod PGSIZE = 0" "q mod PGSIZE = 0" "p \<noteq> q" "in_range p 4096 x"
  shows "\<not> in_range q 4096 x"
proof
  assume "in_range q 4096 x"
  with assms have "unat p div 4096 = unat q div 4096"
    using page_of_addr [of p x] page_of_addr [of q x] by simp
  moreover obtain j where "unat p = 4096 * j" using assms(1) by (rule aligned_obtain)
  moreover obtain k where "unat q = 4096 * k" using assms(2) by (rule aligned_obtain)
  ultimately have "unat p = unat q" by simp
  then show False using assms(3) by (simp add: word_unat_eq_iff)
qed

definition only_page :: "u32 \<Rightarrow> mem \<Rightarrow> mem \<Rightarrow> bool" where
  "only_page p m m' \<longleftrightarrow> (\<forall>x. \<not> in_range p 4096 x \<longrightarrow> m' x = m x)"

lemma in_range_mono: "in_range a k x \<Longrightarrow> k \<le> n \<Longrightarrow> in_range a n x"
  by (simp add: in_range_def)

lemma only_page_memset: "only_page p m (memset m p c PGSIZE)"
  by (simp add: only_page_def memset_apply PGSIZE_def)

lemma only_page_wr32: "only_page p m (wr32 m p v)"
  unfolding only_page_def
proof (intro allI impI)
  fix x assume "\<not> in_range p 4096 x"
  then have "\<not> in_range p 4 x" using in_range_mono [of p 4 x 4096] by auto
  then show "wr32 m p v x = m x" by (rule wr32_other)
qed

lemma only_page_trans: "only_page p m m' \<Longrightarrow> only_page p m' m'' \<Longrightarrow> only_page p m m''"
  by (simp add: only_page_def)

lemma rd32_only_page:
  assumes "only_page p m m'" "p mod PGSIZE = 0" "q mod PGSIZE = 0" "p \<noteq> q"
  shows "rd32 m' q = rd32 m q"
proof (rule rd32_cong)
  fix i :: nat assume "i < 4"
  then have "in_range q 4096 (q + of_nat i)" by (simp add: in_range_offset)
  then have "\<not> in_range p 4096 (q + of_nat i)" 
    by (rule pages_disjoint [OF assms(3,2) assms(4) [symmetric]])
  with assms(1) show "m' (q + of_nat i) = m (q + of_nat i)" by (simp add: only_page_def)
qed

section \<open>The free list\<close>

fun chain :: "mem \<Rightarrow> u32 \<Rightarrow> u32 list \<Rightarrow> bool" where
  "chain m p [] \<longleftrightarrow> p = 0"
| "chain m p (q # qs) \<longleftrightarrow> p = q \<and> q \<noteq> 0 \<and> chain m (rd32 m q) qs"

definition free_pages :: "u32 list \<Rightarrow> 'x kmem_st_scheme \<Rightarrow> bool" where
  "free_pages ps s \<longleftrightarrow>
     chain (mem s) (freelist s) ps \<and> distinct ps \<and> (\<forall>p \<in> set ps. valid_page (kend s) p)"

lemma chain_only_page:
  assumes "only_page v m m'" "v mod PGSIZE = 0" "v \<notin> set ps" "\<forall>p \<in> set ps. valid_page e p"
  shows "chain m' p ps = chain m p ps"
  using assms(3,4)
proof (induction ps arbitrary: p)
  case Nil
  then show ?case by simp
next
  case (Cons q qs)
  have "rd32 m' q = rd32 m q"
    using rd32_only_page [OF assms(1,2), of q] Cons.prems by (auto simp: valid_page_def)
  with Cons show ?case by simp
qed

lemma kmem_frame [simp]:
  "use_lock (acq l s) = use_lock s" "freelist (acq l s) = freelist s" "kend (acq l s) = kend s"
  "use_lock (rel l s) = use_lock s" "freelist (rel l s) = freelist s" "kend (rel l s) = kend s"
  "use_lock (upd_mem f s) = use_lock s" "freelist (upd_mem f s) = freelist s" "kend (upd_mem f s) = kend s"
  by (simp_all add: effect_defs upd_mem_def)

lemma mem_frame [simp]: "mem (acq l s) = mem s" "mem (rel l s) = mem s" "mem (upd_mem f s) = f (mem s)"
  by (simp_all add: acq_def rel_def upd_mem_def)

lemma lockset_frame [simp]:
  "lockset S (upd_mem f s) = lockset S s"
  "lockset S (s\<lparr>freelist := v\<rparr>) = lockset S s"
  "lockset S (s\<lparr>use_lock := b\<rparr>) = lockset S s"
  by (simp_all add: lockset_def cpu_found_def curcpu_def upd_mem_def)

lemma free_pages_frame [simp]:
  "free_pages ps (acq l s) = free_pages ps s" "free_pages ps (rel l s) = free_pages ps s"
  by (simp_all add: free_pages_def)

lemma kfree_panics:
  "\<not> valid_page (kend s) v \<Longrightarrow> v \<noteq> 0 \<Longrightarrow> kfree v s = Panic ''kfree''"
  by (auto simp: kfree_def M_defs valid_page_def)

lemma lockset_insert_remove: "l \<notin> S \<Longrightarrow> lockset (insert l S - {l}) s = lockset S s"
  by simp

text \<open>
  The exact effect of the two operations, for clients that have state of their own: nothing
  but the lock, the allocator's fields and memory changes.
\<close>

definition pop_free :: "'x kmem_st_scheme \<Rightarrow> 'x kmem_st_scheme" where
  "pop_free s = (if freelist s \<noteq> 0 then s\<lparr>freelist := rd32 (mem s) (freelist s)\<rparr> else s)"

definition push_free :: "u32 \<Rightarrow> 'x kmem_st_scheme \<Rightarrow> 'x kmem_st_scheme" where
  "push_free v s = (upd_mem (\<lambda>m. wr32 m v (freelist s)) s)\<lparr>freelist := v\<rparr>"

definition kalloced :: "'x kmem_st_scheme \<Rightarrow> 'x kmem_st_scheme" where
  "kalloced s = (if use_lock s then rel L_kmem (pop_free (acq L_kmem s)) else pop_free s)"

definition kfreed :: "u32 \<Rightarrow> 'x kmem_st_scheme \<Rightarrow> 'x kmem_st_scheme" where
  "kfreed v s =
     (let s' = upd_mem (\<lambda>m. memset m v 1 PGSIZE) s
      in if use_lock s then rel L_kmem (push_free v (acq L_kmem s')) else push_free v s')"

lemmas kmem_effect_defs = kalloced_def kfreed_def pop_free_def push_free_def upd_mem_def

lemma pop_free_sel [simp]:
  "lockset S (pop_free s) = lockset S s" "use_lock (pop_free s) = use_lock s"
  "mem (pop_free s) = mem s" "kend (pop_free s) = kend s"
  by (simp_all add: pop_free_def)

lemma push_free_sel [simp]:
  "lockset S (push_free v s) = lockset S s" "use_lock (push_free v s) = use_lock s"
  "mem (push_free v s) = wr32 (mem s) v (freelist s)" "kend (push_free v s) = kend s"
  "freelist (push_free v s) = v"
  by (simp_all add: push_free_def)

lemma kalloc_ok:
  assumes "lockset S s" "L_kmem \<notin> S" "card S < 1000"
  shows "kalloc s = Ok (freelist s) (kalloced s)"
proof (cases "use_lock s")
  case True
  let ?t = "pop_free (acq L_kmem s)"
  have "lockset (insert L_kmem S) ?t" using assms by (simp add: lockset_acq)
  then have "release L_kmem ?t = Ok () (rel L_kmem ?t)" by (rule release_ok) simp
  then show ?thesis using True acquire_ok [OF assms(1,2)]
    by (auto simp: kalloc_def M_defs kalloced_def pop_free_def)
next
  case False
  then show ?thesis by (simp add: kalloc_def M_defs kalloced_def pop_free_def)
qed

lemma kfree_ok:
  assumes "lockset S s" "L_kmem \<notin> S" "card S < 1000" "valid_page (kend s) v"
  shows "kfree v s = Ok () (kfreed v s)"
proof (cases "use_lock s")
  case True
  let ?s = "upd_mem (\<lambda>m. memset m v 1 PGSIZE) s"
  let ?t = "push_free v (acq L_kmem ?s)"
  have ls: "lockset S ?s" using assms by simp
  have "lockset (insert L_kmem S) ?t" using lockset_acq [OF ls assms(2,3)] by simp
  then have "release L_kmem ?t = Ok () (rel L_kmem ?t)" by (rule release_ok) simp
  then show ?thesis using True acquire_ok [OF ls assms(2)] assms(4)
    by (auto simp: kfree_def M_defs kfreed_def push_free_def valid_page_def Let_def)
next
  case False
  then show ?thesis using assms(4)
    by (auto simp: kfree_def M_defs kfreed_def push_free_def valid_page_def Let_def)
qed

lemma lockset_kalloced:
  assumes "lockset S s" "L_kmem \<notin> S" "card S < 1000"
  shows "lockset S (kalloced s)"
  using assms lockset_acq [OF assms] lockset_rel [of "insert L_kmem S" "pop_free (acq L_kmem s)" L_kmem]
  by (simp add: kalloced_def)

lemma lockset_kfreed:
  assumes "lockset S s" "L_kmem \<notin> S" "card S < 1000"
  shows "lockset S (kfreed v s)"
proof -
  let ?s = "upd_mem (\<lambda>m. memset m v 1 PGSIZE) s"
  have "lockset S ?s" using assms by simp
  then show ?thesis
    using assms lockset_acq [of S ?s L_kmem]
      lockset_rel [of "insert L_kmem S" "push_free v (acq L_kmem ?s)" L_kmem]
    by (simp add: kfreed_def Let_def)
qed

lemma kalloced_sel [simp]:
  "mem (kalloced s) = mem s" "kend (kalloced s) = kend s" "use_lock (kalloced s) = use_lock s"
  by (simp_all add: kalloced_def)

lemma kfreed_sel [simp]: "kend (kfreed v s) = kend s" "use_lock (kfreed v s) = use_lock s"
  by (simp_all add: kfreed_def Let_def)

lemma free_pages_kalloced: "free_pages (p # ps) s \<Longrightarrow> free_pages ps (kalloced s)"
  by (auto simp: free_pages_def kalloced_def pop_free_def)

lemma mem_kfreed: "mem (kfreed v s) = wr32 (memset (mem s) v 1 PGSIZE) v (freelist s)"
  by (simp add: kfreed_def Let_def)

lemma only_page_kfreed: "only_page v (mem s) (mem (kfreed v s))"
  unfolding mem_kfreed by (rule only_page_trans [OF only_page_memset only_page_wr32])

lemma free_pages_kfreed:
  assumes "free_pages ps s" "valid_page (kend s) v" "v \<notin> set ps"
  shows "free_pages (v # ps) (kfreed v s)"
proof -
  have "freelist (kfreed v s) = v" by (simp add: kfreed_def Let_def)
  moreover have "chain (mem (kfreed v s)) (freelist s) ps"
    using chain_only_page [OF only_page_kfreed, of v ps "kend s" s "freelist s"] assms
    by (auto simp: free_pages_def valid_page_def)
  moreover have "v \<noteq> 0" using assms(2) by (simp add: valid_page_def)
  ultimately show ?thesis using assms by (auto simp: free_pages_def mem_kfreed)
qed

text \<open>Freeing a page that is not on the list puts it at the front of the list.\<close>

lemma kfree_wp [wp_intro]:
  assumes "lockset S s" "L_kmem \<notin> S" "card S < 1000"
    and "free_pages ps s" "valid_page (kend s) v" "v \<notin> set ps"
    and post: "\<And>t. lockset S t \<Longrightarrow> free_pages (v # ps) t \<Longrightarrow> only_page v (mem s) (mem t) \<Longrightarrow>
      kend t = kend s \<Longrightarrow> use_lock t = use_lock s \<Longrightarrow> Q () t"
  shows "wp (kfree v) Q s"
proof (rule wp_OkI)
  show "kfree v s = Ok () (kfreed v s)" by (rule kfree_ok [OF assms(1-3,5)])
  show "Q () (kfreed v s)"
    by (rule post [OF lockset_kfreed [OF assms(1-3)] free_pages_kfreed [OF assms(4-6)] only_page_kfreed])
      simp_all
qed

lemma kalloc_wp [wp_intro]:
  assumes "lockset S s" "L_kmem \<notin> S" "card S < 1000" "free_pages ps s"
    and post: "\<And>r t. lockset S t \<Longrightarrow> mem t = mem s \<Longrightarrow> kend t = kend s \<Longrightarrow> use_lock t = use_lock s \<Longrightarrow>
      (case ps of [] \<Rightarrow> r = 0 \<and> free_pages [] t
       | p # qs \<Rightarrow> r = p \<and> p \<noteq> 0 \<and> free_pages qs t) \<Longrightarrow> Q r t"
  shows "wp kalloc Q s"
proof (rule wp_OkI, rule kalloc_ok [OF assms(1-3)], rule post)
  show "case ps of [] \<Rightarrow> freelist s = 0 \<and> free_pages [] (kalloced s)
    | p # qs \<Rightarrow> freelist s = p \<and> p \<noteq> 0 \<and> free_pages qs (kalloced s)"
    using assms(4) free_pages_kalloced [of _ _ s]
    by (cases ps) (auto simp: free_pages_def kalloced_def pop_free_def)
qed (simp_all add: lockset_kalloced [OF assms(1-3)])

section \<open>The page interface\<close>

text \<open>
  What the users of physical pages rely on. \<open>inv ps s\<close> says that exactly the pages \<open>ps\<close> are
  free. Handing out all pages gives every page exactly once.
\<close>

locale page_allocator =
  fixes alloc :: "('s, 'p) prog"
    and free :: "'p \<Rightarrow> ('s, unit) prog"
    and inv :: "'p list \<Rightarrow> 's \<Rightarrow> bool"
    and ok :: "'s \<Rightarrow> 'p \<Rightarrow> bool"
    and null :: "'p"
  assumes alloc_some: "inv (p # ps) s \<Longrightarrow> \<exists>t. alloc s = Ok p t \<and> inv ps t \<and> ok t = ok s"
    and alloc_none: "inv [] s \<Longrightarrow> \<exists>t. alloc s = Ok null t \<and> inv [] t \<and> ok t = ok s"
    and free_page: "inv ps s \<Longrightarrow> ok s p \<Longrightarrow> p \<notin> set ps \<Longrightarrow> \<exists>t. free p s = Ok () t \<and> inv (p # ps) t \<and> ok t = ok s"
    and inv_distinct: "inv ps s \<Longrightarrow> distinct ps \<and> null \<notin> set ps"
begin

fun alloc_n :: "nat \<Rightarrow> ('s, 'p list) prog" where
  "alloc_n 0 = ret []"
| "alloc_n (Suc n) = bindM alloc (\<lambda>p. bindM (alloc_n n) (\<lambda>ps. ret (p # ps)))"

lemma alloc_n_prefix:
  "inv (qs @ ps) s \<Longrightarrow> \<exists>t. alloc_n (length qs) s = Ok qs t \<and> inv ps t"
proof (induction qs arbitrary: s)
  case Nil
  then show ?case by (simp add: ret_def)
next
  case (Cons q qs)
  from Cons.prems have "inv (q # (qs @ ps)) s" by simp
  from alloc_some [OF this] obtain t where t: "alloc s = Ok q t" "inv (qs @ ps) t" by blast
  from Cons.IH [OF t(2)] obtain u where "alloc_n (length qs) t = Ok qs u" "inv ps u" by blast
  with t(1) show ?case by (simp add: bindM_def ret_def)
qed

lemma alloc_n_distinct:
  assumes "inv ps s" "n \<le> length ps"
  shows "\<exists>qs t. alloc_n n s = Ok qs t \<and> distinct qs \<and> length qs = n \<and> null \<notin> set qs"
proof -
  have len: "length (take n ps) = n" using assms(2) by simp
  have "inv (take n ps @ drop n ps) s" using assms(1) by simp
  from alloc_n_prefix [OF this] obtain t where "alloc_n n s = Ok (take n ps) t"
    using len by auto
  moreover have "distinct (take n ps)" "null \<notin> set (take n ps)"
    using inv_distinct [OF assms(1)] by (auto dest: in_set_takeD)
  ultimately show ?thesis using len by blast
qed

lemma free_alloc:
  assumes "inv ps s" "ok s p" "p \<notin> set ps"
  shows "\<exists>t. seqM (free p) alloc s = Ok p t \<and> inv ps t"
proof -
  from free_page [OF assms] obtain t where t: "free p s = Ok () t" "inv (p # ps) t" by blast
  from alloc_some [OF t(2)] t(1) show ?thesis by (auto simp: seqM_def bindM_def)
qed

end

definition kmem_ready :: "u32 list \<Rightarrow> 'x kmem_st_scheme \<Rightarrow> bool" where
  "kmem_ready ps s \<longleftrightarrow> lockset {} s \<and> free_pages ps s"

interpretation pages: page_allocator kalloc kfree kmem_ready "\<lambda>s. valid_page (kend s)" 0
proof
  fix p ps and s :: "'x kmem_st_scheme"
  show "\<exists>t. kalloc s = Ok p t \<and> kmem_ready ps t \<and> valid_page (kend t) = valid_page (kend s)"
    if "kmem_ready (p # ps) s"
  proof -
    from that have "wp kalloc (\<lambda>r t. r = p \<and> kmem_ready ps t \<and> kend t = kend s) s"
      by (intro kalloc_wp [where S = "{}" and ps = "p # ps"]) (auto simp: kmem_ready_def)
    then show ?thesis by (auto elim!: wpE)
  qed
  show "\<exists>t. kalloc s = Ok 0 t \<and> kmem_ready [] t \<and> valid_page (kend t) = valid_page (kend s)"
    if "kmem_ready [] s"
  proof -
    from that have "wp kalloc (\<lambda>r t. r = 0 \<and> kmem_ready [] t \<and> kend t = kend s) s"
      by (intro kalloc_wp [where S = "{}" and ps = "[]"]) (auto simp: kmem_ready_def)
    then show ?thesis by (auto elim!: wpE)
  qed
  show "\<exists>t. kfree p s = Ok () t \<and> kmem_ready (p # ps) t \<and> valid_page (kend t) = valid_page (kend s)"
    if "kmem_ready ps s" "valid_page (kend s) p" "p \<notin> set ps"
  proof -
    from that have "wp (kfree p) (\<lambda>_ t. kmem_ready (p # ps) t \<and> kend t = kend s) s"
      by (intro kfree_wp [where S = "{}" and ps = ps]) (auto simp: kmem_ready_def)
    then show ?thesis by (auto elim!: wpE)
  qed
  show "kmem_ready ps s \<Longrightarrow> distinct ps \<and> 0 \<notin> set ps"
    by (auto simp: kmem_ready_def free_pages_def valid_page_def)
qed

section \<open>Counting and initialising\<close>

lemma free_pages_length:
  assumes "free_pages ps s"
  shows "length ps \<le> 2 ^ 20"
proof -
  let ?f = "\<lambda>v :: u32. unat v div 4096"
  have al: "\<exists>k. unat v = 4096 * k \<and> k < 1048576" if "v \<in> set ps" for v
  proof -
    from assms that have "v mod PGSIZE = 0" by (simp add: free_pages_def valid_page_def)
    then show ?thesis by (rule aligned_obtain) auto
  qed
  have "inj_on ?f (set ps)"
  proof (rule inj_onI)
    fix x y assume "x \<in> set ps" "y \<in> set ps" "?f x = ?f y"
    then show "x = y" using al [of x] al [of y] by (auto simp: word_unat_eq_iff)
  qed
  moreover have "?f ` set ps \<subseteq> {..<1048576}" using al by force
  ultimately have "card (set ps) \<le> 1048576"
    using card_inj_on_le [of ?f "set ps" "{..<1048576}"] by simp
  then show ?thesis using assms by (simp add: free_pages_def distinct_card)
qed

lemma count_loop_chain:
  "chain (mem s) r (p # ps) \<Longrightarrow> length ps < fuel \<Longrightarrow>
   count_loop fuel r c s = Ok (c + of_nat (length ps)) s"
proof (induction ps arbitrary: p r c fuel)
  case Nil
  then obtain f where "fuel = Suc f" by (cases fuel) auto
  with Nil show ?case by (simp add: M_defs)
next
  case (Cons q qs)
  then obtain f where f: "fuel = Suc f" by (cases fuel) auto
  from Cons.prems have ch: "chain (mem s) (rd32 (mem s) r) (q # qs)" "rd32 (mem s) r \<noteq> 0" "r \<noteq> 0"
    by auto
  from Cons.IH [OF ch(1), of f "c + 1"] Cons.prems(2) f ch(2,3) show ?case
    by (simp add: M_defs add.commute add.left_commute)
qed

lemma count_free_pages_value:
  assumes "kmem_ready (p # ps) s"
  shows "wp count_free_pages (\<lambda>n t. n = of_nat (length ps) \<and> kmem_ready (p # ps) t) s"
proof -
  let ?s = "acq L_kmem s"
  have "length ps < 2 ^ 20 + 1"
    using free_pages_length [of "p # ps" s] assms by (simp add: kmem_ready_def)
  moreover have "chain (mem ?s) (freelist s) (p # ps)"
    using assms by (simp add: kmem_ready_def free_pages_def)
  ultimately have c: "count_loop (2 ^ 20 + 1) (freelist s) 0 ?s = Ok (of_nat (length ps)) ?s"
    using count_loop_chain [of ?s "freelist s" p ps "2 ^ 20 + 1" 0] by simp
  show ?thesis
    unfolding count_free_pages_def
    apply simp
    apply (rule acquire_wp [where S = "{}"], use assms in \<open>simp_all add: kmem_ready_def\<close>)
    apply (rule wp_OkI [where m = "count_loop _ _ _"], use c in simp)
    apply simp
    apply (rule release_wp [where S = "{L_kmem}"], simp_all)
    done
qed

lemma count_loop_null: "0 < fuel \<Longrightarrow> count_loop fuel 0 c s = Undef ''null pointer''"
  by (cases fuel) (simp_all add: M_defs)

lemma count_free_pages_empty:
  assumes "kmem_ready [] s"
  shows "count_free_pages s = Undef ''null pointer''"
  using assms acquire_ok [of "{}" s L_kmem]
  by (simp add: kmem_ready_def free_pages_def count_free_pages_def count_loop_null seqM_def bindM_def getS_def)

definition page_range :: "u32 \<Rightarrow> nat \<Rightarrow> u32 list" where
  "page_range p n = map (\<lambda>i. p + of_nat i * PGSIZE) [0..<n]"

lemma page_range_0 [simp]: "page_range p 0 = []"
  by (simp add: page_range_def)

lemma page_range_Suc: "page_range p (Suc n) = p # page_range (p + PGSIZE) n"
  by (simp add: page_range_def upt_conv_Cons map_Suc_upt [symmetric] algebra_simps del: upt_Suc)

lemma freerange_loop_wp:
  fixes s :: "'x kmem_st_scheme"
  assumes "lockset S s" "L_kmem \<notin> S" "card S < 1000" "free_pages ps s"
    and "unat p + 4096 * n \<le> unat vend" "unat vend < unat p + 4096 * (n + 1)"
    and "unat vend + 4096 < 2 ^ 32" "n < fuel"
    and "\<forall>q \<in> set (page_range p n). valid_page (kend s) q"
    and "distinct (rev (page_range p n) @ ps)"
  shows "wp (freerange_loop fuel p vend)
    (\<lambda>_ t. lockset S t \<and> free_pages (rev (page_range p n) @ ps) t \<and> kend t = kend s) s"
  using assms
proof (induction n arbitrary: p ps s fuel)
  case 0
  then obtain f where "fuel = Suc f" by (cases fuel) auto
  moreover have "unat (p + PGSIZE) = unat p + 4096"
    using "0.prems"(5,7) by (simp add: PGSIZE_def unat_word_ariths)
  then have "\<not> p + PGSIZE \<le> vend" using "0.prems"(6) by (simp add: word_le_nat_alt)
  ultimately show ?case using "0.prems" by simp
next
  case (Suc n)
  then obtain f where f: "fuel = Suc f" by (cases fuel) auto
  have u: "unat (p + PGSIZE) = unat p + 4096"
    using Suc.prems(5,7) by (simp add: PGSIZE_def unat_word_ariths)
  then have le: "p + PGSIZE \<le> vend" using Suc.prems(5) by (simp add: word_le_nat_alt)
  have "wp (kfree p) (\<lambda>_ t. lockset S t \<and> free_pages (p # ps) t \<and> kend t = kend s) s"
    by (rule kfree_wp [where S = S and ps = ps])
      (use Suc.prems in \<open>auto simp: page_range_Suc\<close>)
  then have "wp (kfree p) (\<lambda>_. wp (freerange_loop f (p + PGSIZE) vend)
      (\<lambda>_ t. lockset S t \<and> free_pages (rev (page_range (p + PGSIZE) n) @ p # ps) t \<and> kend t = kend s)) s"
  proof (rule wp_mono)
    fix r and t :: "'x kmem_st_scheme"
    assume t: "lockset S t \<and> free_pages (p # ps) t \<and> kend t = kend s"
    have "wp (freerange_loop f (p + PGSIZE) vend)
      (\<lambda>_ u. lockset S u \<and> free_pages (rev (page_range (p + PGSIZE) n) @ p # ps) u \<and> kend u = kend t) t"
      using Suc.IH [of t "p # ps" "p + PGSIZE" f] Suc.prems t f u by (auto simp: page_range_Suc)
    then show "wp (freerange_loop f (p + PGSIZE) vend)
      (\<lambda>_ u. lockset S u \<and> free_pages (rev (page_range (p + PGSIZE) n) @ p # ps) u \<and> kend u = kend s) t"
      using t by simp
  qed
  then show ?case using f le by (simp add: page_range_Suc)
qed

end
