(* ===== verification/Console.thy ===== *)
theory Console
  imports Kalloc
begin

text \<open>
  The output half of \<open>console.c\<close>: the serial port and the CGA screen behind \<open>consputc\<close>, and
  \<open>printint\<close> and \<open>cprintf\<close>. Characters are C \<open>int\<close>s, as \<open>consputc\<close> takes them; the value
  \<open>0x100\<close> is \<open>BACKSPACE\<close>. A CPU that prints after a panic stops for ever: \<open>Wait Halted\<close>.
\<close>

section \<open>State and devices\<close>

record con_st = kmem_st +
  con_locking :: bool
  panicked :: bool
  uart :: bool
  uart_out :: "u8 list"
  crt :: "u16 list"
  crt_pos :: u16

definition BACKSPACE :: int where "BACKSPACE = 0x100"

definition nlc :: int where "nlc = 10"

definition SCREEN :: nat where "SCREEN = 25 * 80"

definition uartputc :: "int \<Rightarrow> ('x con_st_scheme, unit) prog" where
  "uartputc c = modS (\<lambda>s. if uart s then s\<lparr>uart_out := uart_out s @ [word_of_int c]\<rparr> else s)"

definition crt_cell :: "int \<Rightarrow> u16" where
  "crt_cell c = (word_of_int c AND 0xff) OR 0x0700"

text \<open>
  \<open>cgaputc\<close>. The CGA window holds 32 kB, the screen is its first 25 rows of 80 cells. The
  cursor register has 16 bits; a write outside the modelled window is undefined.
\<close>

definition cgaputc :: "int \<Rightarrow> ('x con_st_scheme, unit) prog" where
  "cgaputc c =
     bindM (getS (\<lambda>s. unat (crt_pos s))) (\<lambda>pos0.
     bindM
       (if c = nlc then ret (pos0 + (80 - pos0 mod 80))
        else if c = BACKSPACE then ret (if pos0 > 0 then pos0 - 1 else pos0)
        else bindM (getS (\<lambda>s. length (crt s))) (\<lambda>n.
             if pos0 < n then
               seqM (modS (\<lambda>s. s\<lparr>crt := (crt s)[pos0 := crt_cell c]\<rparr>)) (ret (pos0 + 1))
             else undef ''crt'')) (\<lambda>pos1.
     if pos1 > 25 * 80 then panic ''pos under/overflow''
     else bindM
       (if pos1 div 80 \<ge> 24 then
          seqM (modS (\<lambda>s. s\<lparr>crt := blit (crt s) 0 (chunk (crt s) 80 (23 * 80))\<rparr>)) (
          seqM (modS (\<lambda>s. s\<lparr>crt := blit (crt s) (pos1 - 80) (replicate (24 * 80 - (pos1 - 80)) 0)\<rparr>))
          (ret (pos1 - 80)))
        else ret pos1) (\<lambda>pos2.
     seqM (modS (\<lambda>s. s\<lparr>crt_pos := of_nat pos2\<rparr>))
     (modS (\<lambda>s. s\<lparr>crt := (crt s)[pos2 := 0x0720]\<rparr>)))))"

definition consputc :: "int \<Rightarrow> ('x con_st_scheme, unit) prog" where
  "consputc c =
     bindM (getS panicked) (\<lambda>pk.
     if pk then seqM cli (waitM Halted)
     else seqM
       (if c = BACKSPACE then seqM (uartputc 8) (seqM (uartputc 32) (uartputc 8)) else uartputc c)
       (cgaputc c))"

section \<open>Formatted output\<close>

definition digits :: string where "digits = ''0123456789abcdef''"

text \<open>The \<open>do\<close> loop of \<open>printint\<close>: the digits of \<open>x\<close>, least significant first.\<close>

function digit_loop :: "nat \<Rightarrow> nat \<Rightarrow> string" where
  "digit_loop base x =
     (if base < 2 then [digits ! (x mod base)]
      else if x div base = 0 then [digits ! (x mod base)]
      else digits ! (x mod base) # digit_loop base (x div base))"
  by auto
termination by (relation "measure snd") (auto intro!: div_less_dividend simp: div_greater_zero_iff)

declare digit_loop.simps [simp del]

definition int_buf :: "u32 \<Rightarrow> nat \<Rightarrow> bool \<Rightarrow> string" where
  "int_buf xx base sign =
     (let neg = sign \<and> sint xx < 0;
          x = (if neg then - xx else xx)
      in digit_loop base (unat x) @ (if neg then ''-'' else []))"

fun putchars :: "int list \<Rightarrow> ('x con_st_scheme, unit) prog" where
  "putchars [] = ret ()"
| "putchars (c # cs) = seqM (consputc c) (putchars cs)"

definition printint :: "u32 \<Rightarrow> nat \<Rightarrow> bool \<Rightarrow> ('x con_st_scheme, unit) prog" where
  "printint xx base sign = putchars (map of_char (rev (int_buf xx base sign)))"

text \<open>An argument of \<open>cprintf\<close>: a word, or a string pointer that may be null.\<close>

datatype arg = AInt u32 | AStr "string option"

text \<open>The value of a \<open>char\<close> passed as an \<open>int\<close>: \<open>char\<close> is signed.\<close>

definition schar :: "char \<Rightarrow> int" where
  "schar c = (let n = of_char c in if n < 128 then n else n - 256)"

fun cprintf_loop :: "string \<Rightarrow> arg list \<Rightarrow> ('x con_st_scheme, unit) prog" where
  "cprintf_loop [] args = ret ()"
| "cprintf_loop (c # fmt) args =
     (if c \<noteq> CHR ''%'' then seqM (consputc (of_char c)) (cprintf_loop fmt args)
      else case fmt of
        [] \<Rightarrow> ret ()
      | d # fmt' \<Rightarrow>
          if d = CHR ''d'' then
            (case args of AInt w # as \<Rightarrow> seqM (printint w 10 True) (cprintf_loop fmt' as)
             | _ \<Rightarrow> undef ''cprintf argument'')
          else if d = CHR ''x'' \<or> d = CHR ''p'' then
            (case args of AInt w # as \<Rightarrow> seqM (printint w 16 False) (cprintf_loop fmt' as)
             | _ \<Rightarrow> undef ''cprintf argument'')
          else if d = CHR ''s'' then
            (case args of
               AStr str # as \<Rightarrow>
                 seqM (putchars (map schar (case str of None \<Rightarrow> ''(null)'' | Some t \<Rightarrow> t)))
                 (cprintf_loop fmt' as)
             | _ \<Rightarrow> undef ''cprintf argument'')
          else if d = CHR ''%'' then seqM (consputc (of_char d)) (cprintf_loop fmt' args)
          else seqM (consputc (of_char (CHR ''%''))) (seqM (consputc (of_char d)) (cprintf_loop fmt' args)))"

definition cprintf :: "string option \<Rightarrow> arg list \<Rightarrow> ('x con_st_scheme, unit) prog" where
  "cprintf fmt args =
     bindM (getS con_locking) (\<lambda>locking.
     seqM (whenM locking (acquire L_cons)) (
     case fmt of None \<Rightarrow> panic ''null fmt''
     | Some f \<Rightarrow>
         seqM (cprintf_loop f args)
         (whenM locking (release L_cons))))"

abbreviation kprint :: "string \<Rightarrow> arg list \<Rightarrow> ('x con_st_scheme, unit) prog" where
  "kprint f \<equiv> cprintf (Some f)"

section \<open>The screen stays in bounds\<close>

text \<open>
  What \<open>cgaputc\<close> does to the screen, as a function of the cells and the cursor, and the
  invariant under which it neither panics nor leaves the 25 rows: the cursor is at most at the
  start of the last row. Every character keeps it.
\<close>

definition screen_put :: "int \<Rightarrow> u16 list \<times> nat \<Rightarrow> u16 list \<times> nat" where
  "screen_put c sp =
     (let cells = fst sp; pos0 = snd sp;
          cells1 = (if c = nlc \<or> c = BACKSPACE then cells else cells[pos0 := crt_cell c]);
          pos1 = (if c = nlc then pos0 + (80 - pos0 mod 80)
                  else if c = BACKSPACE then pos0 - 1 else pos0 + 1);
          up = blit cells1 0 (chunk cells1 80 (23 * 80));
          cells2 = (if pos1 div 80 \<ge> 24 then blit up (pos1 - 80) (replicate (24 * 80 - (pos1 - 80)) 0) else cells1);
          pos2 = (if pos1 div 80 \<ge> 24 then pos1 - 80 else pos1)
      in (cells2[pos2 := 0x0720], pos2))"

definition screen_ok :: "u16 list \<times> nat \<Rightarrow> bool" where
  "screen_ok sp \<longleftrightarrow> SCREEN \<le> length (fst sp) \<and> snd sp \<le> 24 * 80"

definition con_ok :: "'x con_st_scheme \<Rightarrow> bool" where
  "con_ok s \<longleftrightarrow> screen_ok (crt s, unat (crt_pos s)) \<and> \<not> panicked s"

lemma newline_pos: "p \<le> 1920 \<Longrightarrow> p + (80 - p mod 80) \<le> (2000 :: nat)"
proof -
  assume "p \<le> 1920"
  moreover have "p mod 80 < 80" "80 * (p div 80) + p mod 80 = p" by simp_all
  moreover have "p div 80 \<le> 24" using \<open>p \<le> 1920\<close> by simp
  ultimately show ?thesis by linarith
qed

lemma screen_put_ok:
  assumes "screen_ok sp"
  shows "screen_ok (screen_put c sp)" "length (fst (screen_put c sp)) = length (fst sp)"
  using assms newline_pos [of "snd sp"]
  by (auto simp: screen_ok_def screen_put_def Let_def SCREEN_def)

definition putc :: "int \<Rightarrow> 'x con_st_scheme \<Rightarrow> 'x con_st_scheme" where
  "putc c s =
     (let sp = screen_put c (crt s, unat (crt_pos s))
      in s\<lparr>uart_out := (if uart s then
             uart_out s @ (if c = BACKSPACE then [8, 32, 8] else [word_of_int c]) else uart_out s),
           crt := fst sp, crt_pos := of_nat (snd sp)\<rparr>)"

lemma cgaputc_ok:
  assumes "screen_ok (crt s, unat (crt_pos s))"
  shows "cgaputc c s =
    (let sp = screen_put c (crt s, unat (crt_pos s)) in Ok () (s\<lparr>crt := fst sp, crt_pos := of_nat (snd sp)\<rparr>))"
proof -
  define pos0 where "pos0 = unat (crt_pos s)"
  have b: "pos0 \<le> 1920" "pos0 < length (crt s)" "\<not> 2000 < pos0 + 1" "\<not> 2000 < pos0 - 1"
    using assms by (auto simp: pos0_def screen_ok_def SCREEN_def)
  have nl: "\<not> 2000 < pos0 + (80 - pos0 mod 80)" using newline_pos [OF b(1)] by simp
  consider "c = nlc" | "c = BACKSPACE" "c \<noteq> nlc" | "c \<noteq> nlc" "c \<noteq> BACKSPACE" by blast
  then show ?thesis
  proof cases
    case 1
    then show ?thesis unfolding cgaputc_def screen_put_def Let_def pos0_def [symmetric] fst_conv snd_conv
      using nl by (simp add: bindM_def seqM_def getS_def modS_def ret_def pos0_def [symmetric])
  next
    case 2
    then show ?thesis unfolding cgaputc_def screen_put_def Let_def pos0_def [symmetric] fst_conv snd_conv
      using b by (simp add: bindM_def seqM_def getS_def modS_def ret_def pos0_def [symmetric])
  next
    case 3
    then show ?thesis unfolding cgaputc_def screen_put_def Let_def pos0_def [symmetric] fst_conv snd_conv
      using b by (simp add: bindM_def seqM_def getS_def modS_def ret_def pos0_def [symmetric])
  qed
qed

lemma consputc_ok:
  assumes "con_ok s"
  shows "consputc c s = Ok () (putc c s)"
proof -
  have "cgaputc c (s\<lparr>uart_out := u\<rparr>) =
    (let sp = screen_put c (crt s, unat (crt_pos s))
     in Ok () (s\<lparr>uart_out := u, crt := fst sp, crt_pos := of_nat (snd sp)\<rparr>))" for u
    using cgaputc_ok [of "s\<lparr>uart_out := u\<rparr>" c] assms by (simp add: con_ok_def)
  moreover have "\<not> panicked s" using assms by (simp add: con_ok_def)
  ultimately show ?thesis
    using cgaputc_ok [of s c] assms
    by (auto simp: consputc_def uartputc_def M_defs putc_def Let_def con_ok_def BACKSPACE_def)
qed

lemma con_ok_putc:
  assumes "con_ok s"
  shows "con_ok (putc c s)"
proof -
  have "screen_ok (screen_put c (crt s, unat (crt_pos s)))"
    using assms by (intro screen_put_ok) (simp add: con_ok_def)
  moreover from this have "snd (screen_put c (crt s, unat (crt_pos s))) \<le> 1920"
    by (simp add: screen_ok_def)
  ultimately show ?thesis
    using assms by (simp add: con_ok_def putc_def Let_def screen_ok_def unat_of_nat)
qed

lemma putchars_ok:
  "con_ok s \<Longrightarrow> putchars cs s = Ok () (fold putc cs s) \<and> con_ok (fold putc cs s)"
  by (induction cs arbitrary: s) (simp_all add: M_defs consputc_ok con_ok_putc)

section \<open>What cprintf prints\<close>

text \<open>
  The characters that a format string and its arguments stand for, or \<open>None\<close> when the
  arguments do not match the format.
\<close>

fun cfmt :: "string \<Rightarrow> arg list \<Rightarrow> int list option" where
  "cfmt (c # d # fmt) args =
     (if c \<noteq> CHR ''%'' then map_option ((#) (of_char c)) (cfmt (d # fmt) args)
      else if d = CHR ''d'' then
        (case args of AInt w # as \<Rightarrow> map_option ((@) (map of_char (rev (int_buf w 10 True)))) (cfmt fmt as)
         | _ \<Rightarrow> None)
      else if d = CHR ''x'' \<or> d = CHR ''p'' then
        (case args of AInt w # as \<Rightarrow> map_option ((@) (map of_char (rev (int_buf w 16 False)))) (cfmt fmt as)
         | _ \<Rightarrow> None)
      else if d = CHR ''s'' then
        (case args of AStr str # as \<Rightarrow>
           map_option ((@) (map schar (case str of None \<Rightarrow> ''(null)'' | Some t \<Rightarrow> t))) (cfmt fmt as)
         | _ \<Rightarrow> None)
      else if d = CHR ''%'' then map_option ((#) (of_char d)) (cfmt fmt args)
      else map_option (\<lambda>cs. of_char (CHR ''%'') # of_char d # cs) (cfmt fmt args))"
| "cfmt [c] args = Some (if c \<noteq> CHR ''%'' then [of_char c] else [])"
| "cfmt [] args = Some []"

lemma putchars_append: "putchars (xs @ ys) = seqM (putchars xs) (putchars ys)"
proof (induction xs)
  case Nil
  then show ?case by (auto simp: M_defs)
next
  case (Cons x xs)
  then show ?case by (simp add: seqM_assoc)
qed

lemma cprintf_loop_putchars: "cfmt fmt args = Some cs \<Longrightarrow> cprintf_loop fmt args = putchars cs"
proof (induction fmt args arbitrary: cs rule: cfmt.induct)
  case (1 c d fmt args)
  note u = cprintf_loop.simps(2) [of c "d # fmt" args] printint_def putchars_append seqM_assoc
  consider "c \<noteq> CHR ''%''" | "c = CHR ''%''" "d = CHR ''d''" | "c = CHR ''%''" "d = CHR ''x'' \<or> d = CHR ''p''"
    | "c = CHR ''%''" "d = CHR ''s''" | "c = CHR ''%''" "d = CHR ''%''"
    | "c = CHR ''%''" "d \<notin> set ''dxps%''"
    by auto
  then show ?case
  proof cases
    case 1
    with "1.prems" obtain cs' where "cfmt (d # fmt) args = Some cs'" "cs = of_char c # cs'" by auto
    with "1.IH"(1) [OF 1] 1 show ?thesis unfolding u(1) by simp
  next
    case 2
    with "1.prems" "1.IH"(2) show ?thesis unfolding u(1)
      by (auto simp: u(2,3,4) split: list.splits arg.splits)
  next
    case 3
    with "1.prems" "1.IH"(3) show ?thesis unfolding u(1)
      by (auto simp: u(2,3,4) split: list.splits arg.splits)
  next
    case 4
    with "1.prems" "1.IH"(4) show ?thesis unfolding u(1)
      by (auto simp: u(2,3,4) split: list.splits arg.splits)
  next
    case 5
    with "1.prems" "1.IH"(5) show ?thesis unfolding u(1) by auto
  next
    case 6
    with "1.prems" "1.IH"(6) show ?thesis unfolding u(1) by auto
  qed
qed (auto split: if_splits)

definition printed :: "int list \<Rightarrow> 'x con_st_scheme \<Rightarrow> 'x con_st_scheme" where
  "printed cs s = (if con_locking s then rel L_cons (fold putc cs (acq L_cons s)) else fold putc cs s)"

lemma con_frame [simp]:
  "con_locking (acq l s) = con_locking s" "panicked (acq l s) = panicked s" "uart (acq l s) = uart s"
  "uart_out (acq l s) = uart_out s" "crt (acq l s) = crt s" "crt_pos (acq l s) = crt_pos s"
  "con_locking (rel l s) = con_locking s" "panicked (rel l s) = panicked s" "uart (rel l s) = uart s"
  "uart_out (rel l s) = uart_out s" "crt (rel l s) = crt s" "crt_pos (rel l s) = crt_pos s"
  by (simp_all add: effect_defs)

lemma con_ok_frame [simp]: "con_ok (acq l s) = con_ok s" "con_ok (rel l s) = con_ok s"
  by (simp_all add: con_ok_def)

lemma putc_sel [simp]:
  "lockset S (putc c s) = lockset S s" "mem (putc c s) = mem s" "freelist (putc c s) = freelist s"
  "use_lock (putc c s) = use_lock s" "kend (putc c s) = kend s" "con_locking (putc c s) = con_locking s"
  "uart (putc c s) = uart s" "cpus (putc c s) = cpus s" "curcpu (putc c s) = curcpu s"
  by (simp_all add: putc_def Let_def lockset_def cpu_found_def curcpu_def)

lemma fold_putc_sel [simp]:
  "lockset S (fold putc cs s) = lockset S s" "mem (fold putc cs s) = mem s"
  "freelist (fold putc cs s) = freelist s" "use_lock (fold putc cs s) = use_lock s"
  "kend (fold putc cs s) = kend s" "con_locking (fold putc cs s) = con_locking s"
  "uart (fold putc cs s) = uart s" "cpus (fold putc cs s) = cpus s" "curcpu (fold putc cs s) = curcpu s"
  by (induction cs arbitrary: s; simp)+

lemma cprintf_ok:
  assumes "lockset S s" "L_cons \<notin> S" "card S < 1000" "con_ok s" "cfmt fmt args = Some cs"
  shows "kprint fmt args s = Ok () (printed cs s)"
proof (cases "con_locking s")
  case True
  let ?t = "fold putc cs (acq L_cons s)"
  have "putchars cs (acq L_cons s) = Ok () ?t" using putchars_ok [of "acq L_cons s" cs] assms(4) by simp
  moreover have "lockset (insert L_cons S) ?t" using lockset_acq [OF assms(1-3)] by simp
  then have "release L_cons ?t = Ok () (rel L_cons ?t)" by (rule release_ok) simp
  ultimately show ?thesis using True acquire_ok [OF assms(1,2)]
    by (simp add: cprintf_def M_defs printed_def cprintf_loop_putchars [OF assms(5)])
next
  case False
  then show ?thesis using putchars_ok [OF assms(4)]
    by (simp add: cprintf_def M_defs printed_def cprintf_loop_putchars [OF assms(5)])
qed

lemma lockset_printed:
  assumes "lockset S s" "L_cons \<notin> S" "card S < 1000"
  shows "lockset S (printed cs s)"
  using assms lockset_acq [OF assms] lockset_rel [of "insert L_cons S" "fold putc cs (acq L_cons s)" L_cons]
  by (simp add: printed_def)

lemma printed_sel [simp]:
  "mem (printed cs s) = mem s" "freelist (printed cs s) = freelist s"
  "use_lock (printed cs s) = use_lock s" "kend (printed cs s) = kend s"
  by (simp_all add: printed_def)

lemma con_ok_printed: "con_ok s \<Longrightarrow> con_ok (printed cs s)"
  using putchars_ok [of "acq L_cons s" cs] putchars_ok [of s cs] by (simp add: printed_def)

lemma uart_out_fold_putc:
  "\<forall>c \<in> set cs. c \<noteq> BACKSPACE \<Longrightarrow> uart s \<Longrightarrow>
   uart_out (fold putc cs s) = uart_out s @ map word_of_int cs"
proof (induction cs arbitrary: s)
  case Nil
  then show ?case by simp
next
  case (Cons c cs)
  have "uart_out (putc c s) = uart_out s @ [word_of_int c]"
    using Cons.prems by (simp add: putc_def Let_def)
  then show ?case using Cons by simp
qed

section \<open>The numbers printint prints\<close>

text \<open>Reading a digit string back: the value of decimal or hexadecimal text.\<close>

definition digit_val :: "char \<Rightarrow> nat" where
  "digit_val c = the (first_idx ((=) c) digits)"

fun text_val :: "nat \<Rightarrow> string \<Rightarrow> nat" where
  "text_val base [] = 0"
| "text_val base (c # cs) = digit_val c + base * text_val base cs"

lemma digit_val_digits: "d < 16 \<Longrightarrow> digit_val (digits ! d) = d"
  by (auto simp: digit_val_def digits_def numeral_eq_Suc less_Suc_eq nth_Cons')

lemma text_val_digit_loop: "2 \<le> base \<Longrightarrow> base \<le> 16 \<Longrightarrow> text_val base (digit_loop base x) = x"
proof (induction base x rule: digit_loop.induct)
  case (1 base x)
  have "x mod base < 16" using 1(2,3) mod_less_divisor [of base x] by linarith
  then have d: "digit_val (digits ! (x mod base)) = x mod base" by (rule digit_val_digits)
  show ?case
  proof (cases "x div base = 0")
    case True
    then have "x mod base = x" using mult_div_mod_eq [of base x] by simp
    with True d show ?thesis by (simp add: digit_loop.simps [of base x])
  next
    case False
    with 1 d show ?thesis by (simp add: digit_loop.simps [of base x])
  qed
qed

lemma digit_loop_chars: "2 \<le> base \<Longrightarrow> base \<le> 16 \<Longrightarrow> set (digit_loop base x) \<subseteq> set digits"
proof (induction base x rule: digit_loop.induct)
  case (1 base x)
  have "length digits = 16" by (simp add: digits_def)
  then have "x mod base < length digits"
    using 1(2,3) mod_less_divisor [of base x] by linarith
  then show ?case using 1 by (subst digit_loop.simps) auto
qed

text \<open>The signed value of the text that \<open>printint\<close> sends to the console.\<close>

definition signed_text :: "nat \<Rightarrow> string \<Rightarrow> int" where
  "signed_text base t =
     (case t of CHR ''-'' # ds \<Rightarrow> - int (text_val base (rev ds)) | _ \<Rightarrow> int (text_val base (rev t)))"

lemma signed_text_int_buf:
  assumes "2 \<le> base" "base \<le> 16"
  shows "signed_text base (rev (int_buf xx base sign)) = (if sign then sint xx else uint xx)"
proof (cases "sign \<and> sint xx < 0")
  case True
  have b: "- (2 ^ 31) \<le> sint xx" "sint xx < 2 ^ 31"
    using sint_range_size [of xx] by (simp_all add: word_size)
  have "uint (- xx) = - sint xx"
  proof -
    have "uint (- xx) = (- sint xx) mod 2 ^ 32"
      using uint_word_of_int [where 'a = 32, of "- sint xx"] by simp
    also have "\<dots> = - sint xx" using True b by (intro mod_pos_pos_trivial) auto
    finally show ?thesis .
  qed
  then have "int (unat (- xx)) = - sint xx" by simp
  with True show ?thesis
    by (simp add: int_buf_def signed_text_def text_val_digit_loop [OF assms] Let_def)
next
  case False
  let ?d = "digit_loop base (unat xx)"
  have ne: "?d \<noteq> []" by (subst digit_loop.simps) simp
  have "hd (rev ?d) \<in> set ?d" using ne by (simp add: hd_rev)
  then have "hd (rev ?d) \<noteq> CHR ''-''" using digit_loop_chars [OF assms, of "unat xx"] by (auto simp: digits_def)
  then have "signed_text base (rev ?d) = int (text_val base ?d)"
    using ne by (cases "rev ?d") (auto simp: signed_text_def split: char.splits bool.splits)
  moreover have "sign \<Longrightarrow> sint xx = uint xx"
  proof -
    assume sign
    with False have "0 \<le> sint xx" by simp
    then have "sint xx mod 2 ^ 32 = sint xx"
      using sint_range_size [of xx] by (intro mod_pos_pos_trivial) (simp_all add: word_size)
    then show "sint xx = uint xx" using uint_word_of_int [where 'a = 32, of "sint xx"] by simp
  qed
  ultimately show ?thesis
    using False by (auto simp: int_buf_def Let_def text_val_digit_loop [OF assms])
qed

end
