(* ===== verification/Ptable.thy ===== *)
theory Ptable
  imports Console
begin

text \<open>
  The process table of \<open>proc.c\<close> and \<open>proc.h\<close> (lab 6, with the fields \<open>wtime\<close>, \<open>rutime\<close> and
  \<open>snapticks\<close>) and the operations that only touch it: \<open>pinit\<close>, \<open>cpuid\<close>, \<open>myproc\<close>, \<open>allocproc\<close>,
  \<open>sched\<close>, \<open>yield\<close>, \<open>sleep\<close>, \<open>wakeup1\<close>, \<open>wakeup\<close>, \<open>kill\<close> and \<open>updatestatistics\<close>.
  A process is named by its index in \<open>ptable.proc\<close>. Code that calls \<open>swtch\<close> is cut there:
  the part before it ends in \<open>Wait Switched\<close>, the part after it is an operation of its own.
\<close>

section \<open>State\<close>

datatype procstate = UNUSED | EMBRYO | SLEEPING | RUNNABLE | RUNNING | ZOMBIE

fun procstate_num :: "procstate \<Rightarrow> nat" where
  "procstate_num UNUSED = 0"
| "procstate_num EMBRYO = 1"
| "procstate_num SLEEPING = 2"
| "procstate_num RUNNABLE = 3"
| "procstate_num RUNNING = 4"
| "procstate_num ZOMBIE = 5"

instantiation procstate :: linorder
begin

definition less_eq_procstate :: "procstate \<Rightarrow> procstate \<Rightarrow> bool" where
  "less_eq_procstate a b \<longleftrightarrow> procstate_num a \<le> procstate_num b"

definition less_procstate :: "procstate \<Rightarrow> procstate \<Rightarrow> bool" where
  "less_procstate a b \<longleftrightarrow> procstate_num a < procstate_num b"

instance
proof
  fix x y :: procstate
  show "x \<le> y \<Longrightarrow> y \<le> x \<Longrightarrow> x = y"
    by (cases x; cases y) (simp_all add: less_eq_procstate_def)
qed (auto simp: less_eq_procstate_def less_procstate_def)

end

definition NPROC :: nat where "NPROC = 64"

definition NOFILE :: nat where "NOFILE = 16"

definition KSTACKSIZE :: u32 where "KSTACKSIZE = 4096"

text \<open>\<open>sizeof(struct trapframe)\<close> and \<open>sizeof(struct context)\<close>; \<open>context.eip\<close> is the last field.\<close>

definition sizeof_trapframe :: u32 where "sizeof_trapframe = 76"

definition sizeof_context :: u32 where "sizeof_context = 20"

record proc =
  p_sz :: u32
  p_pgdir :: u32
  p_kstack :: u32
  p_state :: procstate
  p_pid :: u32
  p_parent :: "nat option"
  p_tf :: u32
  p_context :: u32
  p_chan :: chan
  p_killed :: u32
  p_ofile :: "nat option list"
  p_cwd :: "nat option"
  p_name :: "u8 list"
  p_wtime :: u32
  p_rutime :: u32
  p_snapticks :: u32

record proc_st = con_st +
  ptable :: "proc list"
  nextpid :: u32
  initproc :: "nat option"
  ticks :: u32
  trapret_addr :: u32
  forkret_addr :: u32

definition upd_proc :: "nat \<Rightarrow> (proc \<Rightarrow> proc) \<Rightarrow> 'x proc_st_scheme \<Rightarrow> 'x proc_st_scheme" where
  "upd_proc i f s = s\<lparr>ptable := (ptable s)[i := f (ptable s ! i)]\<rparr>"

section \<open>Operations\<close>

definition pinit :: "('x proc_st_scheme, unit) prog" where
  "pinit = initlock L_ptable ''ptable''"

definition cpuid :: "('x mach_scheme, nat) prog" where
  "cpuid = mycpu"

definition myproc :: "('x mach_scheme, nat option) prog" where
  "myproc =
     seqM pushcli (
     bindM mycpu (\<lambda>c.
     bindM (getS (\<lambda>s. c_proc (cpus s ! c))) (\<lambda>p.
     seqM popcli
     (ret p))))"

text \<open>The slot of the current process, for code that dereferences \<open>myproc()\<close>.\<close>

definition curproc :: "('x mach_scheme, nat) prog" where
  "curproc = bindM myproc (\<lambda>p. case p of None \<Rightarrow> undef ''null pointer'' | Some i \<Rightarrow> ret i)"

definition embryo :: "u32 \<Rightarrow> u32 \<Rightarrow> proc \<Rightarrow> proc" where
  "embryo pid tck p = p\<lparr>p_state := EMBRYO, p_pid := pid, p_wtime := 0, p_rutime := 0, p_snapticks := tck\<rparr>"

definition allocproc :: "('x proc_st_scheme, nat option) prog" where
  "allocproc =
     seqM (acquire L_ptable) (
     bindM (getS (\<lambda>s. first_idx (\<lambda>p. p_state p = UNUSED) (ptable s))) (\<lambda>r.
     case r of
       None \<Rightarrow> seqM (release L_ptable) (ret None)
     | Some i \<Rightarrow>
         seqM (modS (\<lambda>s. (upd_proc i (embryo (nextpid s) (ticks s)) s)\<lparr>nextpid := nextpid s + 1\<rparr>)) (
         seqM (release L_ptable) (
         bindM kalloc (\<lambda>ks.
         seqM (modS (upd_proc i (\<lambda>p. p\<lparr>p_kstack := ks\<rparr>))) (
         if ks = 0 then
           seqM (modS (upd_proc i (\<lambda>p. p\<lparr>p_state := UNUSED\<rparr>)))
           (ret None)
         else
           (let tf = ks + KSTACKSIZE - sizeof_trapframe;
                ra = tf - 4;
                cx = ra - sizeof_context
            in seqM (modS (upd_proc i (\<lambda>p. p\<lparr>p_tf := tf\<rparr>))) (
               seqM (modS (\<lambda>s. upd_mem (\<lambda>m. wr32 m ra (trapret_addr s)) s)) (
               seqM (modS (upd_proc i (\<lambda>p. p\<lparr>p_context := cx\<rparr>))) (
               seqM (modS (upd_mem (\<lambda>m. memset m cx 0 sizeof_context))) (
               seqM (modS (\<lambda>s. upd_mem (\<lambda>m. wr32 m (cx + 16) (forkret_addr s)) s))
               (ret (Some i))))))))))))) "

text \<open>\<open>sched\<close> up to \<open>swtch\<close>: the checks, then the saved \<open>intena\<close>. \<open>sched_resume\<close> is the rest.\<close>

definition sched_enter :: "('x proc_st_scheme, u32) prog" where
  "sched_enter =
     bindM curproc (\<lambda>p.
     bindM (holding L_ptable) (\<lambda>h.
     if \<not> h then panic ''sched ptable.lock''
     else bindM mycpu (\<lambda>c.
     bindM (getS (\<lambda>s. c_ncli (cpus s ! c))) (\<lambda>n.
     if n \<noteq> 1 then panic ''sched locks''
     else bindM (getS (\<lambda>s. p_state (ptable s ! p))) (\<lambda>st.
     if st = RUNNING then panic ''sched running''
     else bindM (getS readeflags) (\<lambda>fl.
     if fl AND FL_IF \<noteq> 0 then panic ''sched interruptible''
     else getS (\<lambda>s. c_intena (cpus s ! c))))))))"

definition sched :: "('x proc_st_scheme, unit) prog" where
  "sched = seqM sched_enter (waitM Switched)"

definition sched_resume :: "u32 \<Rightarrow> ('x proc_st_scheme, unit) prog" where
  "sched_resume intena =
     bindM mycpu (\<lambda>c. modS (upd_cpu c (\<lambda>x. x\<lparr>c_intena := intena\<rparr>)))"

text \<open>Account the ticks since the last snapshot as running time.\<close>

definition account_run :: "u32 \<Rightarrow> proc \<Rightarrow> proc" where
  "account_run tck p = p\<lparr>p_rutime := p_rutime p + (tck - p_snapticks p)\<rparr>"

definition yield_enter :: "('x proc_st_scheme, u32) prog" where
  "yield_enter =
     bindM curproc (\<lambda>p.
     seqM (acquire L_ptable) (
     seqM (modS (upd_proc p (\<lambda>q. q\<lparr>p_state := RUNNABLE\<rparr>))) (
     seqM (modS (\<lambda>s. upd_proc p (account_run (ticks s)) s)) (
     seqM (modS (\<lambda>s. upd_proc p (\<lambda>q. q\<lparr>p_snapticks := ticks s\<rparr>) s))
     sched_enter))))"

definition yield :: "('x proc_st_scheme, unit) prog" where
  "yield = seqM yield_enter (waitM Switched)"

definition yield_resume :: "u32 \<Rightarrow> ('x proc_st_scheme, unit) prog" where
  "yield_resume intena = seqM (sched_resume intena) (release L_ptable)"

definition sleep_enter :: "chan \<Rightarrow> lockid option \<Rightarrow> ('x proc_st_scheme, u32) prog" where
  "sleep_enter ch lk =
     bindM myproc (\<lambda>mp.
     case mp of None \<Rightarrow> panic ''sleep''
     | Some p \<Rightarrow>
     (case lk of None \<Rightarrow> panic ''sleep without lk''
      | Some l \<Rightarrow>
      seqM (whenM (l \<noteq> L_ptable) (seqM (acquire L_ptable) (release l))) (
      seqM (modS (upd_proc p (\<lambda>q. q\<lparr>p_chan := ch, p_state := SLEEPING\<rparr>))) (
      seqM (modS (\<lambda>s. upd_proc p (account_run (ticks s)) s))
      sched_enter))))"

definition sleep :: "chan \<Rightarrow> lockid \<Rightarrow> ('x proc_st_scheme, 'a) prog" where
  "sleep ch lk = seqM (sleep_enter ch (Some lk)) (waitM Switched)"

definition sleep_resume :: "lockid \<Rightarrow> nat \<Rightarrow> u32 \<Rightarrow> ('x proc_st_scheme, unit) prog" where
  "sleep_resume lk p intena =
     seqM (sched_resume intena) (
     seqM (modS (upd_proc p (\<lambda>q. q\<lparr>p_chan := C_null\<rparr>)))
     (whenM (lk \<noteq> L_ptable) (seqM (release L_ptable) (acquire lk))))"

definition awaken :: "chan \<Rightarrow> u32 \<Rightarrow> proc \<Rightarrow> proc" where
  "awaken ch tck p =
     (if p_state p = SLEEPING \<and> p_chan p = ch then p\<lparr>p_state := RUNNABLE, p_snapticks := tck\<rparr> else p)"

definition wakeup1 :: "chan \<Rightarrow> ('x proc_st_scheme, unit) prog" where
  "wakeup1 ch = modS (\<lambda>s. s\<lparr>ptable := map (awaken ch (ticks s)) (ptable s)\<rparr>)"

definition wakeup :: "chan \<Rightarrow> ('x proc_st_scheme, unit) prog" where
  "wakeup ch =
     seqM (acquire L_ptable) (
     seqM (wakeup1 ch)
     (release L_ptable))"

definition mark_killed :: "u32 \<Rightarrow> proc \<Rightarrow> proc" where
  "mark_killed tck p =
     (let q = p\<lparr>p_killed := 1\<rparr>
      in if p_state q = SLEEPING then q\<lparr>p_state := RUNNABLE, p_snapticks := tck\<rparr> else q)"

definition kill :: "u32 \<Rightarrow> ('x proc_st_scheme, u32) prog" where
  "kill pid =
     seqM (acquire L_ptable) (
     bindM (getS (\<lambda>s. first_idx (\<lambda>p. p_pid p = pid) (ptable s))) (\<lambda>r.
     case r of
       Some i \<Rightarrow>
         seqM (modS (\<lambda>s. upd_proc i (mark_killed (ticks s)) s)) (
         seqM (release L_ptable)
         (ret 0))
     | None \<Rightarrow> seqM (release L_ptable) (ret (- 1))))"

text \<open>The loop of \<open>updatestatistics\<close>; \<open>None\<close> is its panic on a second running process.\<close>

fun count_ticks :: "bool \<Rightarrow> proc list \<Rightarrow> proc list option" where
  "count_ticks run_cnt [] = Some []"
| "count_ticks run_cnt (p # ps) =
     (case p_state p of
        RUNNABLE \<Rightarrow> map_option ((#) (p\<lparr>p_wtime := p_wtime p + 1\<rparr>)) (count_ticks run_cnt ps)
      | RUNNING \<Rightarrow>
          (if run_cnt then None
           else map_option ((#) (p\<lparr>p_rutime := p_rutime p + 1\<rparr>)) (count_ticks True ps))
      | _ \<Rightarrow> map_option ((#) p) (count_ticks run_cnt ps))"

definition updatestatistics :: "('x proc_st_scheme, unit) prog" where
  "updatestatistics =
     seqM (acquire L_ptable) (
     bindM (getS (\<lambda>s. count_ticks False (ptable s))) (\<lambda>r.
     case r of
       None \<Rightarrow> panic (''more than 1 processes are running'' @ nl)
     | Some ps \<Rightarrow>
         seqM (modS (\<lambda>s. s\<lparr>ptable := ps\<rparr>))
         (release L_ptable)))"

section \<open>Effects\<close>

definition pushpop :: "'x mach_scheme \<Rightarrow> 'x mach_scheme" where
  "pushpop s = popped (pushed s)"

definition woken :: "chan \<Rightarrow> 'x proc_st_scheme \<Rightarrow> 'x proc_st_scheme" where
  "woken ch s =
     rel L_ptable ((acq L_ptable s)\<lparr>ptable := map (awaken ch (ticks s)) (ptable s)\<rparr>)"

lemma proc_frame [simp]:
  "ptable (acq l s) = ptable s" "ptable (rel l s) = ptable s" "ptable (pushpop s) = ptable s"
  "ticks (acq l s) = ticks s" "ticks (rel l s) = ticks s" "ticks (pushpop s) = ticks s"
  "nextpid (acq l s) = nextpid s" "nextpid (rel l s) = nextpid s" "nextpid (pushpop s) = nextpid s"
  "initproc (acq l s) = initproc s" "initproc (rel l s) = initproc s" "initproc (pushpop s) = initproc s"
  "trapret_addr (acq l s) = trapret_addr s" "trapret_addr (rel l s) = trapret_addr s"
  "forkret_addr (acq l s) = forkret_addr s" "forkret_addr (rel l s) = forkret_addr s"
  by (simp_all add: effect_defs pushpop_def)

lemma proc_frame_mem [simp]:
  "ptable (upd_mem f s) = ptable s" "ticks (upd_mem f s) = ticks s" "nextpid (upd_mem f s) = nextpid s"
  "initproc (upd_mem f s) = initproc s"
  "trapret_addr (upd_mem f s) = trapret_addr s" "forkret_addr (upd_mem f s) = forkret_addr s"
  "ptable (kalloced s) = ptable s" "ticks (kalloced s) = ticks s" "nextpid (kalloced s) = nextpid s"
  "initproc (kalloced s) = initproc s"
  "trapret_addr (kalloced s) = trapret_addr s" "forkret_addr (kalloced s) = forkret_addr s"
  "ptable (kfreed v s) = ptable s" "ticks (kfreed v s) = ticks s" "nextpid (kfreed v s) = nextpid s"
  "initproc (kfreed v s) = initproc s"
  by (simp_all add: kmem_effect_defs Let_def)

lemma proc_frame_con [simp]:
  "ptable (putc c s) = ptable s" "ticks (putc c s) = ticks s" "nextpid (putc c s) = nextpid s"
  "initproc (putc c s) = initproc s"
  by (simp_all add: putc_def Let_def)

lemma proc_frame_printed [simp]:
  "ptable (printed cs s) = ptable s" "ticks (printed cs s) = ticks s" "nextpid (printed cs s) = nextpid s"
  "initproc (printed cs s) = initproc s"
  by (simp_all add: printed_def fold_frame [where f = ptable] fold_frame [where f = ticks]
      fold_frame [where f = nextpid] fold_frame [where f = initproc])

lemma mach_frame_pushpop [simp]:
  "locks (pushpop s) = locks s" "mem (pushpop s) = mem s" "frame (pushpop s) = frame s"
  "cpu_found (pushpop s) = cpu_found s" "curcpu (pushpop s) = curcpu s"
  by (simp_all add: pushpop_def)

lemma kmem_frame_pushpop [simp]:
  "freelist (pushpop s) = freelist s" "use_lock (pushpop s) = use_lock s" "kend (pushpop s) = kend s"
  by (simp_all add: pushpop_def effect_defs)

lemma upd_proc_sel [simp]:
  "ptable (upd_proc i f s) = (ptable s)[i := f (ptable s ! i)]"
  "ticks (upd_proc i f s) = ticks s" "nextpid (upd_proc i f s) = nextpid s"
  "initproc (upd_proc i f s) = initproc s"
  "trapret_addr (upd_proc i f s) = trapret_addr s" "forkret_addr (upd_proc i f s) = forkret_addr s"
  "freelist (upd_proc i f s) = freelist s" "use_lock (upd_proc i f s) = use_lock s"
  "kend (upd_proc i f s) = kend s" "cpus (upd_proc i f s) = cpus s" "mem (upd_proc i f s) = mem s"
  "if_flag (upd_proc i f s) = if_flag s" "locks (upd_proc i f s) = locks s"
  "lapicid (upd_proc i f s) = lapicid s" "frame (upd_proc i f s) = frame s"
  by (simp_all add: upd_proc_def)

lemma lockset_proc [simp]:
  "lockset S (upd_proc i f s) = lockset S s" "lockset S (s\<lparr>ptable := ps\<rparr>) = lockset S s"
  "lockset S (s\<lparr>nextpid := n\<rparr>) = lockset S s" "lockset S (s\<lparr>ticks := k\<rparr>) = lockset S s"
  "lockset S (s\<lparr>initproc := ip\<rparr>) = lockset S s"
  by (simp_all add: lockset_def cpu_found_def curcpu_def upd_proc_def)

lemma curcpu_proc [simp]:
  "curcpu (upd_proc i f s) = curcpu s" "curcpu (s\<lparr>ptable := ps\<rparr>) = curcpu s"
  "curcpu (s\<lparr>nextpid := n\<rparr>) = curcpu s" "curcpu (upd_mem g s) = curcpu s"
  "cpu_found (upd_proc i f s) = cpu_found s" "cpu_found (upd_mem g s) = cpu_found s"
  by (simp_all add: curcpu_def cpu_found_def upd_proc_def upd_mem_def)

lemma c_proc_pushed [simp]: "c_proc (cpus (pushed s) ! i) = c_proc (cpus s ! i)"
  by (cases "i = curcpu s"; cases "i < length (cpus s)") (simp_all add: cpus_pushed nth_list_update list_update_beyond)

lemma c_proc_popped [simp]: "c_proc (cpus (popped s) ! i) = c_proc (cpus s ! i)"
  by (cases "i = curcpu s"; cases "i < length (cpus s)") (simp_all add: cpus_popped nth_list_update list_update_beyond)

lemma c_proc_frame [simp]:
  "c_proc (cpus (acq l s) ! i) = c_proc (cpus s ! i)" "c_proc (cpus (rel l s) ! i) = c_proc (cpus s ! i)"
  "c_proc (cpus (pushpop s) ! i) = c_proc (cpus s ! i)"
  by (simp_all add: acq_def rel_def pushpop_def)

lemma lockset_pushpop:
  assumes "lockset S s"
  shows "lockset S (pushpop s)"
proof -
  have u: "unat (c_ncli (cpus (pushed s) ! curcpu s)) = card S + 1"
    using pushed_ncli_unat [OF assms] by simp
  have "unat (c_ncli (cpus (pushpop s) ! curcpu s)) = card S"
  proof -
    have "c_ncli (cpus (pushpop s) ! curcpu s) = c_ncli (mycpu_of s)"
      using curcpu_less [OF locksetD(1) [OF assms]]
      by (simp add: pushpop_def cpus_popped cpus_pushed)
    then show ?thesis using locksetD(3) [OF assms] by simp
  qed
  moreover have "S \<noteq> {} \<Longrightarrow> \<not> if_flag (pushpop s)"
  proof -
    assume "S \<noteq> {}"
    then have "c_ncli (cpus (pushed s) ! curcpu s) \<noteq> 1"
      using u locksetD(2) [OF assms] by (auto simp: card_gt_0_iff)
    then show ?thesis by (simp add: pushpop_def popped_if)
  qed
  ultimately show ?thesis using locksetD [OF assms] by (auto simp: lockset_def)
qed

lemma myproc_ok:
  assumes "lockset S s"
  shows "myproc s = Ok (c_proc (mycpu_of s)) (pushpop s)"
proof -
  have "popcli (pushed s) = Ok () (popped (pushed s))"
    using locksetD(1,7) [OF assms] pushed_ncli_unat [OF assms] by (intro popcli_ok) simp_all
  moreover have "mycpu (pushed s) = Ok (curcpu s) (pushed s)"
    using locksetD(1) [OF assms] mycpu_ok [of "pushed s"] by simp
  ultimately show ?thesis
    using pushcli_ok [OF locksetD(1) [OF assms]] by (simp add: myproc_def M_defs pushpop_def)
qed

lemma curproc_ok:
  "lockset S s \<Longrightarrow> c_proc (mycpu_of s) = Some p \<Longrightarrow> curproc s = Ok p (pushpop s)"
  by (simp add: curproc_def bindM_def ret_def myproc_ok)

lemma pushpop_held: "lockset S s \<Longrightarrow> S \<noteq> {} \<Longrightarrow> pushpop s = s"
  unfolding pushpop_def
  by (rule popped_pushed) (use locksetD(1,2,3,6) [of S s] in \<open>auto simp: card_gt_0_iff\<close>)

lemma wakeup_ok:
  assumes "lockset S s" "L_ptable \<notin> S" "card S < 1000"
  shows "wakeup ch s = Ok () (woken ch s)"
proof -
  let ?t = "(acq L_ptable s)\<lparr>ptable := map (awaken ch (ticks s)) (ptable s)\<rparr>"
  have "lockset (insert L_ptable S) ?t" using lockset_acq [OF assms] by simp
  then have "release L_ptable ?t = Ok () (rel L_ptable ?t)" by (rule release_ok) simp
  then show ?thesis
    using acquire_ok [OF assms(1,2)] by (simp add: wakeup_def wakeup1_def M_defs woken_def)
qed

lemma lockset_woken:
  assumes "lockset S s" "L_ptable \<notin> S" "card S < 1000"
  shows "lockset S (woken ch s)"
proof -
  let ?t = "(acq L_ptable s)\<lparr>ptable := map (awaken ch (ticks s)) (ptable s)\<rparr>"
  have "lockset (insert L_ptable S) ?t" using lockset_acq [OF assms] by simp
  from lockset_rel [OF this, of L_ptable] assms(2) show ?thesis by (simp add: woken_def)
qed

lemma woken_sel [simp]:
  "ptable (woken ch s) = map (awaken ch (ticks s)) (ptable s)" "ticks (woken ch s) = ticks s"
  "nextpid (woken ch s) = nextpid s" "initproc (woken ch s) = initproc s"
  "mem (woken ch s) = mem s" "freelist (woken ch s) = freelist s" "use_lock (woken ch s) = use_lock s"
  "kend (woken ch s) = kend s" "c_proc (cpus (woken ch s) ! i) = c_proc (cpus s ! i)"
  "curcpu (woken ch s) = curcpu s"
  by (simp_all add: woken_def)

section \<open>Giving up the CPU\<close>

text \<open>
  \<open>sched\<close> is reached with exactly \<open>ptable.lock\<close> held and the current process no longer
  \<open>RUNNING\<close>; each of its four checks is a panic otherwise.
\<close>

lemma holding_lockset:
  assumes "lockset S s" "S \<noteq> {}"
  shows "holding l s = Ok (l \<in> S) s"
proof -
  have "0 < card S" using assms locksetD(2) by (auto simp: card_gt_0_iff)
  then show ?thesis
    using locksetD(1,3,4,5,6,7) [OF assms(1)] assms(2) by (subst holding_ok) auto
qed

lemma sched_enter_ok:
  assumes "lockset {L_ptable} s" "c_proc (mycpu_of s) = Some p" "p_state (ptable s ! p) \<noteq> RUNNING"
  shows "sched_enter s = Ok (c_intena (mycpu_of s)) s"
proof -
  have "c_ncli (mycpu_of s) = 1"
    using locksetD(3) [OF assms(1)] by (simp add: word_unat_eq_iff)
  moreover have "\<not> if_flag s" using locksetD(6) [OF assms(1)] by simp
  ultimately show ?thesis
    using curproc_ok [OF assms(1,2)] pushpop_held [OF assms(1)] holding_lockset [OF assms(1), of L_ptable]
      mycpu_ok [OF locksetD(1) [OF assms(1)]] assms(3)
    by (simp add: sched_enter_def M_defs readeflags_def)
qed

lemma sched_enter_locks:
  assumes "lockset S s" "L_ptable \<in> S" "card S \<noteq> 1" "c_proc (mycpu_of s) = Some p"
  shows "sched_enter s = Panic ''sched locks''"
proof -
  have ne: "S \<noteq> {}" using assms(2) by auto
  have "c_ncli (mycpu_of s) \<noteq> 1"
    using locksetD(3) [OF assms(1)] assms(3) by auto
  moreover have "\<not> if_flag s" using locksetD(6) [OF assms(1) ne] by simp
  ultimately show ?thesis
    using curproc_ok [OF assms(1,4)] pushpop_held [OF assms(1) ne] holding_lockset [OF assms(1) ne, of L_ptable]
      mycpu_ok [OF locksetD(1) [OF assms(1)]] assms(2)
    by (simp add: sched_enter_def M_defs)
qed

text \<open>The state in which \<open>yield\<close> and \<open>sleep\<close> reach \<open>swtch\<close>.\<close>

definition yielded :: "nat \<Rightarrow> 'x proc_st_scheme \<Rightarrow> 'x proc_st_scheme" where
  "yielded p s =
     upd_proc p (\<lambda>q. (account_run (ticks s) (q\<lparr>p_state := RUNNABLE\<rparr>))\<lparr>p_snapticks := ticks s\<rparr>)
       (acq L_ptable (pushpop s))"

definition slept :: "nat \<Rightarrow> chan \<Rightarrow> lockid \<Rightarrow> 'x proc_st_scheme \<Rightarrow> 'x proc_st_scheme" where
  "slept p ch lk s =
     upd_proc p (\<lambda>q. account_run (ticks s) (q\<lparr>p_chan := ch, p_state := SLEEPING\<rparr>))
       (if lk = L_ptable then s else rel lk (acq L_ptable s))"

lemma upd_proc_twice [simp]:
  "i < length (ptable s) \<Longrightarrow> upd_proc i f (upd_proc i g s) = upd_proc i (f \<circ> g) s"
  by (simp add: upd_proc_def)

lemma yield_ok:
  assumes "lockset {} s" "c_proc (mycpu_of s) = Some p" "p < length (ptable s)"
  shows "yield s = Wait Switched (yielded p s)"
proof -
  let ?a = "acq L_ptable (pushpop s)"
  have a: "lockset {L_ptable} ?a"
    using lockset_acq [OF lockset_pushpop [OF assms(1)], of L_ptable] by simp
  have "sched_enter (yielded p s) = Ok (c_intena (mycpu_of (yielded p s))) (yielded p s)"
    by (rule sched_enter_ok [of _ p]) (use a assms(2,3) in \<open>simp_all add: yielded_def account_run_def\<close>)
  then show ?thesis
    using curproc_ok [OF assms(1,2)] acquire_ok [OF lockset_pushpop [OF assms(1)], of L_ptable] assms(3)
    by (simp add: yield_def yield_enter_def M_defs yielded_def comp_def)
qed

lemma lockset_slept:
  assumes "lockset {lk} s"
  shows "lockset {L_ptable} (slept p ch lk s)"
proof (cases "lk = L_ptable")
  case True
  with assms show ?thesis by (simp add: slept_def)
next
  case False
  have "lockset {L_ptable, lk} (acq L_ptable s)"
    using lockset_acq [OF assms, of L_ptable] False by simp
  from lockset_rel [OF this, of lk] have "lockset {L_ptable} (rel lk (acq L_ptable s))"
    using False by (simp add: insert_Diff_if)
  with False show ?thesis by (simp add: slept_def)
qed

lemma sleep_ok:
  assumes "lockset {lk} s" "c_proc (mycpu_of s) = Some p" "p < length (ptable s)"
  shows "sleep ch lk s = Wait Switched (slept p ch lk s)"
proof -
  have se: "sched_enter (slept p ch lk s) = Ok (c_intena (mycpu_of (slept p ch lk s))) (slept p ch lk s)"
    by (rule sched_enter_ok [of _ p])
      (use lockset_slept [OF assms(1)] assms(2,3) in \<open>simp_all add: slept_def account_run_def\<close>)
  have mp: "myproc s = Ok (Some p) s"
    using myproc_ok [OF assms(1)] pushpop_held [OF assms(1)] assms(2) by simp
  show ?thesis
  proof (cases "lk = L_ptable")
    case True
    then show ?thesis using mp se assms(3)
      by (simp add: sleep_def sleep_enter_def M_defs slept_def comp_def)
  next
    case False
    have a: "acquire L_ptable s = Ok () (acq L_ptable s)"
      using acquire_ok [OF assms(1)] False by simp
    have "lockset {L_ptable, lk} (acq L_ptable s)"
      using lockset_acq [OF assms(1), of L_ptable] False by simp
    then have "release lk (acq L_ptable s) = Ok () (rel lk (acq L_ptable s))"
      by (rule release_ok) simp
    then show ?thesis using mp se a False assms(3)
      by (simp add: sleep_def sleep_enter_def M_defs slept_def comp_def)
  qed
qed

text \<open>A process that sleeps while it holds another spinlock brings the kernel down.\<close>

lemma sleep_extra_lock:
  assumes "lockset S s" "lk \<in> S" "L_ptable \<notin> S" "card S \<noteq> 1" "card S < 1000"
    and "c_proc (mycpu_of s) = Some p" "p < length (ptable s)"
  shows "sleep ch lk s = Panic ''sched locks''"
proof -
  have ne: "S \<noteq> {}" "lk \<noteq> L_ptable" using assms(2,3) by auto
  let ?t = "rel lk (acq L_ptable s)"
  have a: "lockset (insert L_ptable S) (acq L_ptable s)"
    using lockset_acq [OF assms(1,3,5)] .
  have r: "release lk (acq L_ptable s) = Ok () ?t"
    using release_ok [OF a, of lk] assms(2) by simp
  have t: "lockset (insert L_ptable S - {lk}) ?t"
    using lockset_rel [OF a] assms(2) by simp
  have c: "card (insert L_ptable S - {lk}) \<noteq> 1"
    using assms(2-4) locksetD(2) [OF assms(1)] by simp
  have "sched_enter (slept p ch lk s) = Panic ''sched locks''"
    by (rule sched_enter_locks [of "insert L_ptable S - {lk}" _ p])
      (use t c ne assms(2,3,6) in \<open>simp_all add: slept_def\<close>)
  moreover have "myproc s = Ok (Some p) s"
    using myproc_ok [OF assms(1)] pushpop_held [OF assms(1) ne(1)] assms(6) by simp
  ultimately show ?thesis
    using acquire_ok [OF assms(1,3)] r ne(2) assms(7)
    by (simp add: sleep_def sleep_enter_def M_defs slept_def comp_def)
qed

section \<open>kill and allocproc\<close>

definition killed_state :: "u32 \<Rightarrow> 'x proc_st_scheme \<Rightarrow> 'x proc_st_scheme" where
  "killed_state pid s =
     rel L_ptable
       (case first_idx (\<lambda>p. p_pid p = pid) (ptable s) of
          None \<Rightarrow> acq L_ptable s
        | Some i \<Rightarrow> upd_proc i (mark_killed (ticks s)) (acq L_ptable s))"

lemma kill_ok:
  assumes "lockset S s" "L_ptable \<notin> S" "card S < 1000"
  shows "kill pid s =
    Ok (if \<exists>p \<in> set (ptable s). p_pid p = pid then 0 else - 1) (killed_state pid s)"
proof (cases "first_idx (\<lambda>p. p_pid p = pid) (ptable s)")
  case None
  have "lockset (insert L_ptable S) (acq L_ptable s)" using lockset_acq [OF assms] .
  then have "release L_ptable (acq L_ptable s) = Ok () (rel L_ptable (acq L_ptable s))"
    by (rule release_ok) simp
  moreover have "\<not> (\<exists>p \<in> set (ptable s). p_pid p = pid)"
    using None by (simp add: first_idx_None_iff)
  ultimately show ?thesis using acquire_ok [OF assms(1,2)] None
    by (simp add: kill_def M_defs killed_state_def)
next
  case (Some i)
  let ?t = "upd_proc i (mark_killed (ticks s)) (acq L_ptable s)"
  have "lockset (insert L_ptable S) ?t" using lockset_acq [OF assms] by simp
  then have "release L_ptable ?t = Ok () (rel L_ptable ?t)" by (rule release_ok) simp
  moreover have "\<exists>p \<in> set (ptable s). p_pid p = pid"
    using first_idx_SomeD [OF Some] by (auto intro: bexI [of _ "ptable s ! i"])
  ultimately show ?thesis using acquire_ok [OF assms(1,2)] Some
    by (simp add: kill_def M_defs killed_state_def)
qed

lemma ptable_killed_state:
  "ptable (killed_state pid s) =
     (case first_idx (\<lambda>p. p_pid p = pid) (ptable s) of
        None \<Rightarrow> ptable s
      | Some i \<Rightarrow> (ptable s)[i := mark_killed (ticks s) (ptable s ! i)])"
  by (simp add: killed_state_def split: option.split)

text \<open>\<open>allocproc\<close> after the slot has been claimed, and after the kernel stack has been set up.\<close>

definition claimed :: "nat \<Rightarrow> 'x proc_st_scheme \<Rightarrow> 'x proc_st_scheme" where
  "claimed i s =
     rel L_ptable ((upd_proc i (embryo (nextpid s) (ticks s)) (acq L_ptable s))\<lparr>nextpid := nextpid s + 1\<rparr>)"

definition stack_image :: "u32 \<Rightarrow> u32 \<Rightarrow> u32 \<Rightarrow> mem \<Rightarrow> mem" where
  "stack_image ks tr fr m =
     (let tf = ks + KSTACKSIZE - sizeof_trapframe; ra = tf - 4; cx = ra - sizeof_context
      in wr32 (memset (wr32 m ra tr) cx 0 sizeof_context) (cx + 16) fr)"

definition stacked :: "nat \<Rightarrow> u32 \<Rightarrow> 'x proc_st_scheme \<Rightarrow> 'x proc_st_scheme" where
  "stacked i ks s =
     (let tf = ks + KSTACKSIZE - sizeof_trapframe; cx = tf - 4 - sizeof_context
      in upd_mem (stack_image ks (trapret_addr s) (forkret_addr s))
           (upd_proc i (\<lambda>p. p\<lparr>p_kstack := ks, p_tf := tf, p_context := cx\<rparr>) s))"

lemma lockset_claimed:
  assumes "lockset S s" "L_ptable \<notin> S" "card S < 1000"
  shows "lockset S (claimed i s)"
proof -
  have "lockset (insert L_ptable S) ((upd_proc i f (acq L_ptable s))\<lparr>nextpid := n\<rparr>)" for f n
    using lockset_acq [OF assms] by simp
  from lockset_rel [OF this, of L_ptable] assms(2) show ?thesis by (simp add: claimed_def)
qed

lemma claimed_sel [simp]:
  "ptable (claimed i s) = (ptable s)[i := embryo (nextpid s) (ticks s) (ptable s ! i)]"
  "ticks (claimed i s) = ticks s" "nextpid (claimed i s) = nextpid s + 1" "initproc (claimed i s) = initproc s"
  "curcpu (claimed i s) = curcpu s" "c_proc (cpus (claimed i s) ! j) = c_proc (cpus s ! j)"
  "freelist (claimed i s) = freelist s" "mem (claimed i s) = mem s"
  by (simp_all add: claimed_def)

lemma c_proc_kalloced [simp]:
  "c_proc (cpus (kalloced s) ! j) = c_proc (cpus s ! j)" "curcpu (kalloced s) = curcpu s"
proof -
  have "cpus (pop_free t) = cpus t" "curcpu (pop_free t) = curcpu t" for t :: "'a kmem_st_scheme"
    by (simp_all add: pop_free_def curcpu_def)
  then show "c_proc (cpus (kalloced s) ! j) = c_proc (cpus s ! j)" "curcpu (kalloced s) = curcpu s"
    by (simp_all add: kalloced_def)
qed

lemma allocproc_full:
  assumes "lockset S s" "L_ptable \<notin> S" "card S < 1000" "first_idx (\<lambda>p. p_state p = UNUSED) (ptable s) = None"
  shows "allocproc s = Ok None (rel L_ptable (acq L_ptable s))"
  using acquire_ok [OF assms(1,2)] release_ok [OF lockset_acq [OF assms(1-3)], of L_ptable] assms(4)
  by (simp add: allocproc_def M_defs)

lemma allocproc_ok:
  assumes "lockset S s" "L_ptable \<notin> S" "L_kmem \<notin> S" "card S < 1000"
    and "first_idx (\<lambda>p. p_state p = UNUSED) (ptable s) = Some i"
  shows "allocproc s =
    (if freelist s = 0
     then Ok None (upd_proc i (\<lambda>p. p\<lparr>p_kstack := 0, p_state := UNUSED\<rparr>) (kalloced (claimed i s)))
     else Ok (Some i) (stacked i (freelist s) (kalloced (claimed i s))))"
proof -
  let ?u = "(upd_proc i (embryo (nextpid s) (ticks s)) (acq L_ptable s))\<lparr>nextpid := nextpid s + 1\<rparr>"
  have "lockset (insert L_ptable S) ?u" using lockset_acq [OF assms(1,2,4)] by simp
  then have r: "release L_ptable ?u = Ok () (claimed i s)"
    using release_ok [of "insert L_ptable S" ?u L_ptable] by (simp add: claimed_def)
  have k: "kalloc (claimed i s) = Ok (freelist s) (kalloced (claimed i s))"
    using kalloc_ok [OF lockset_claimed [OF assms(1,2,4)] assms(3,4), of i] by simp
  have il: "i < length (ptable s)" using assms(5) by blast
  show ?thesis
    using acquire_ok [OF assms(1,2)] r k assms(5) il
    by (simp add: allocproc_def M_defs stacked_def stack_image_def Let_def comp_def upd_mem_def upd_proc_def)
qed

end
