(* ===== verification/Vm.thy ===== *)
theory Vm
  imports Ptable
begin

text \<open>
  Virtual memory, \<open>vm.c\<close>: the two-level page tables held in kernel memory (\<open>walkpgdir\<close>,
  \<open>mappages\<close>, \<open>setupkvm\<close>, \<open>allocuvm\<close>, \<open>deallocuvm\<close>, \<open>freevm\<close>, \<open>clearpteu\<close>, \<open>copyuvm\<close>, \<open>uva2ka\<close>,
  \<open>copyout\<close>), the segment and page-table registers (\<open>seginit\<close>, \<open>switchkvm\<close>, \<open>switchuvm\<close>), the
  page counters that lab 5 adds, and \<open>growproc\<close> of \<open>proc.c\<close>. Loops over pages carry fuel for
  the \<open>2 ^ 20\<close> pages of the address space.
\<close>

section \<open>Constants of mmu.h and memlayout.h\<close>

definition EXTMEM :: u32 where "EXTMEM = 0x100000"

definition DEVSPACE :: u32 where "DEVSPACE = 0xFE000000"

definition KERNLINK :: u32 where "KERNLINK = KERNBASE + EXTMEM"

definition PTE_P :: u32 where "PTE_P = 1"

definition PTE_W :: u32 where "PTE_W = 2"

definition PTE_U :: u32 where "PTE_U = 4"

definition PDX :: "u32 \<Rightarrow> u32" where "PDX va = drop_bit 22 va AND 0x3FF"

definition PTX :: "u32 \<Rightarrow> u32" where "PTX va = drop_bit 12 va AND 0x3FF"

definition PGADDR :: "u32 \<Rightarrow> u32 \<Rightarrow> u32 \<Rightarrow> u32" where
  "PGADDR d t off = push_bit 22 d OR push_bit 12 t OR off"

definition PTE_ADDR :: "u32 \<Rightarrow> u32" where "PTE_ADDR pte = pte AND NOT 0xFFF"

definition PTE_FLAGS :: "u32 \<Rightarrow> u32" where "PTE_FLAGS pte = pte AND 0xFFF"

definition NPAGES :: nat where "NPAGES = 2 ^ 20"

record segdesc =
  sd_lim_15_0 :: u16
  sd_base_15_0 :: u16
  sd_base_23_16 :: u8
  sd_type :: "4 word"
  sd_s :: "1 word"
  sd_dpl :: "2 word"
  sd_p :: "1 word"
  sd_lim_19_16 :: "4 word"
  sd_avl :: "1 word"
  sd_rsv1 :: "1 word"
  sd_db :: "1 word"
  sd_g :: "1 word"
  sd_base_31_24 :: u8

definition SEG :: "4 word \<Rightarrow> u32 \<Rightarrow> u32 \<Rightarrow> 2 word \<Rightarrow> segdesc" where
  "SEG ty base lim dpl =
     \<lparr>sd_lim_15_0 = ucast (drop_bit 12 lim AND 0xffff), sd_base_15_0 = ucast (base AND 0xffff),
      sd_base_23_16 = ucast (drop_bit 16 base AND 0xff), sd_type = ty, sd_s = 1, sd_dpl = dpl, sd_p = 1,
      sd_lim_19_16 = ucast (drop_bit 28 lim), sd_avl = 0, sd_rsv1 = 0, sd_db = 1, sd_g = 1,
      sd_base_31_24 = ucast (drop_bit 24 base)\<rparr>"

definition SEG16 :: "4 word \<Rightarrow> u32 \<Rightarrow> u32 \<Rightarrow> 2 word \<Rightarrow> segdesc" where
  "SEG16 ty base lim dpl =
     \<lparr>sd_lim_15_0 = ucast (lim AND 0xffff), sd_base_15_0 = ucast (base AND 0xffff),
      sd_base_23_16 = ucast (drop_bit 16 base AND 0xff), sd_type = ty, sd_s = 1, sd_dpl = dpl, sd_p = 1,
      sd_lim_19_16 = ucast (drop_bit 16 lim), sd_avl = 0, sd_rsv1 = 0, sd_db = 1, sd_g = 0,
      sd_base_31_24 = ucast (drop_bit 24 base)\<rparr>"

datatype seg = SEG_KCODE | SEG_KDATA | SEG_UCODE | SEG_UDATA | SEG_TSS

fun seg_num :: "seg \<Rightarrow> u16" where
  "seg_num SEG_KCODE = 1"
| "seg_num SEG_KDATA = 2"
| "seg_num SEG_UCODE = 3"
| "seg_num SEG_UDATA = 4"
| "seg_num SEG_TSS = 5"

text \<open>The fields of \<open>struct taskstate\<close> that the kernel sets; its size is 104 bytes.\<close>

record taskstate =
  ts_esp0 :: u32
  ts_ss0 :: u16
  ts_iomb :: u16

definition sizeof_taskstate :: u32 where "sizeof_taskstate = 104"

section \<open>State\<close>

text \<open>
  \<open>cpu_gdt\<close> and \<open>cpu_ts\<close> are the arrays \<open>gdt\<close> and \<open>ts\<close> of each \<open>struct cpu\<close>; \<open>ts_addr\<close> (the address
  of a CPU's \<open>ts\<close>) and \<open>data_addr\<close> (the linker symbol \<open>data\<close>) are fixed when the kernel is linked.
\<close>

record vm_st = proc_st +
  kpgdir :: u32
  cr3 :: u32
  task_reg :: u16
  gdtr :: "nat option"
  cpu_gdt :: "nat \<Rightarrow> seg \<Rightarrow> segdesc"
  cpu_ts :: "nat \<Rightarrow> taskstate"
  ts_addr :: "nat \<Rightarrow> u32"
  data_addr :: u32

section \<open>Segments and registers\<close>

definition lcr3 :: "u32 \<Rightarrow> ('x vm_st_scheme, unit) prog" where
  "lcr3 v = modS (\<lambda>s. s\<lparr>cr3 := v\<rparr>)"

definition set_gdt :: "nat \<Rightarrow> seg \<Rightarrow> segdesc \<Rightarrow> ('x vm_st_scheme, unit) prog" where
  "set_gdt c g d = modS (\<lambda>s. s\<lparr>cpu_gdt := (cpu_gdt s)(c := (cpu_gdt s c)(g := d))\<rparr>)"

definition seginit :: "('x vm_st_scheme, unit) prog" where
  "seginit =
     bindM cpuid (\<lambda>c.
     seqM (set_gdt c SEG_KCODE (SEG (8 OR 2) 0 0xffffffff 0)) (
     seqM (set_gdt c SEG_KDATA (SEG 2 0 0xffffffff 0)) (
     seqM (set_gdt c SEG_UCODE (SEG (8 OR 2) 0 0xffffffff 3)) (
     seqM (set_gdt c SEG_UDATA (SEG 2 0 0xffffffff 3))
     (modS (\<lambda>s. s\<lparr>gdtr := Some c\<rparr>))))))"

definition switchkvm :: "('x vm_st_scheme, unit) prog" where
  "switchkvm = bindM (getS kpgdir) (\<lambda>d. lcr3 (V2P d))"

definition upd_ts :: "nat \<Rightarrow> (taskstate \<Rightarrow> taskstate) \<Rightarrow> ('x vm_st_scheme, unit) prog" where
  "upd_ts c f = modS (\<lambda>s. s\<lparr>cpu_ts := (cpu_ts s)(c := f (cpu_ts s c))\<rparr>)"

definition switchuvm :: "nat option \<Rightarrow> ('x vm_st_scheme, unit) prog" where
  "switchuvm mp =
     (case mp of None \<Rightarrow> panic ''switchuvm: no process''
      | Some p \<Rightarrow>
      bindM (getS (\<lambda>s. ptable s ! p)) (\<lambda>pr.
      if p_kstack pr = 0 then panic ''switchuvm: no kstack''
      else if p_pgdir pr = 0 then panic ''switchuvm: no pgdir''
      else seqM pushcli (
      bindM mycpu (\<lambda>c.
      bindM (getS (\<lambda>s. ts_addr s c)) (\<lambda>ta.
      seqM (set_gdt c SEG_TSS (SEG16 9 ta (sizeof_taskstate - 1) 0\<lparr>sd_s := 0\<rparr>)) (
      seqM (upd_ts c (\<lambda>t. t\<lparr>ts_ss0 := push_bit 3 (seg_num SEG_KDATA)\<rparr>)) (
      seqM (upd_ts c (\<lambda>t. t\<lparr>ts_esp0 := p_kstack pr + KSTACKSIZE\<rparr>)) (
      seqM (upd_ts c (\<lambda>t. t\<lparr>ts_iomb := 0xFFFF\<rparr>)) (
      seqM (modS (\<lambda>s. s\<lparr>task_reg := push_bit 3 (seg_num SEG_TSS)\<rparr>)) (
      seqM (lcr3 (V2P (p_pgdir pr)))
      popcli))))))))))"

section \<open>Page tables\<close>

abbreviation rdm :: "u32 \<Rightarrow> ('x mach_scheme, u32) prog" where
  "rdm a \<equiv> getS (\<lambda>s. rd32 (mem s) a)"

abbreviation wrm :: "u32 \<Rightarrow> u32 \<Rightarrow> ('x mach_scheme, unit) prog" where
  "wrm a v \<equiv> modS (upd_mem (\<lambda>m. wr32 m a v))"

text \<open>The address of the entry for \<open>va\<close>; 0 is the null pointer.\<close>

definition walkpgdir :: "u32 \<Rightarrow> u32 \<Rightarrow> bool \<Rightarrow> ('x kmem_st_scheme, u32) prog" where
  "walkpgdir pgdir va alloc =
     (let pde = pgdir + 4 * PDX va
      in bindM (rdm pde) (\<lambda>e.
         if e AND PTE_P \<noteq> 0 then ret (P2V (PTE_ADDR e) + 4 * PTX va)
         else if \<not> alloc then ret 0
         else bindM kalloc (\<lambda>pgtab.
           if pgtab = 0 then ret 0
           else seqM (modS (upd_mem (\<lambda>m. memset m pgtab 0 PGSIZE))) (
                seqM (wrm pde (V2P pgtab OR PTE_P OR PTE_W OR PTE_U))
                (ret (pgtab + 4 * PTX va))))))"

fun mappages_loop :: "nat \<Rightarrow> u32 \<Rightarrow> u32 \<Rightarrow> u32 \<Rightarrow> u32 \<Rightarrow> u32 \<Rightarrow> ('x kmem_st_scheme, int) prog" where
  "mappages_loop 0 pgdir a lst pa perm = nofuel"
| "mappages_loop (Suc fuel) pgdir a lst pa perm =
     bindM (walkpgdir pgdir a True) (\<lambda>pte.
     if pte = 0 then ret (- 1)
     else bindM (rdm pte) (\<lambda>e.
     if e AND PTE_P \<noteq> 0 then panic ''remap''
     else seqM (wrm pte (pa OR perm OR PTE_P)) (
     if a = lst then ret 0
     else mappages_loop fuel pgdir (a + PGSIZE) lst (pa + PGSIZE) perm)))"

definition mappages :: "u32 \<Rightarrow> u32 \<Rightarrow> u32 \<Rightarrow> u32 \<Rightarrow> u32 \<Rightarrow> ('x kmem_st_scheme, int) prog" where
  "mappages pgdir va sz pa perm =
     mappages_loop NPAGES pgdir (PGROUNDDOWN va) (PGROUNDDOWN (va + sz - 1)) pa perm"

fun deallocuvm_loop :: "nat \<Rightarrow> u32 \<Rightarrow> u32 \<Rightarrow> u32 \<Rightarrow> ('x kmem_st_scheme, unit) prog" where
  "deallocuvm_loop 0 pgdir a oldsz = nofuel"
| "deallocuvm_loop (Suc fuel) pgdir a oldsz =
     (if \<not> a < oldsz then ret ()
      else bindM (walkpgdir pgdir a False) (\<lambda>pte.
      if pte = 0 then deallocuvm_loop fuel pgdir (PGADDR (PDX a + 1) 0 0 - PGSIZE + PGSIZE) oldsz
      else bindM (rdm pte) (\<lambda>e.
      if e AND PTE_P \<noteq> 0 then
        (let pa = PTE_ADDR e
         in if pa = 0 then panic ''kfree''
            else seqM (kfree (P2V pa)) (
                 seqM (wrm pte 0)
                 (deallocuvm_loop fuel pgdir (a + PGSIZE) oldsz)))
      else deallocuvm_loop fuel pgdir (a + PGSIZE) oldsz)))"

definition deallocuvm :: "u32 \<Rightarrow> u32 \<Rightarrow> u32 \<Rightarrow> ('x kmem_st_scheme, u32) prog" where
  "deallocuvm pgdir oldsz newsz =
     (if newsz \<ge> oldsz then ret oldsz
      else seqM (deallocuvm_loop (NPAGES + 1) pgdir (PGROUNDUP newsz) oldsz) (ret newsz))"

fun allocuvm_loop :: "nat \<Rightarrow> u32 \<Rightarrow> u32 \<Rightarrow> u32 \<Rightarrow> u32 \<Rightarrow> ('x con_st_scheme, u32) prog" where
  "allocuvm_loop 0 pgdir a oldsz newsz = nofuel"
| "allocuvm_loop (Suc fuel) pgdir a oldsz newsz =
     (if \<not> a < newsz then ret newsz
      else bindM kalloc (\<lambda>pg.
      if pg = 0 then
        seqM (kprint (''allocuvm out of memory'' @ nl) []) (
        seqM (deallocuvm pgdir newsz oldsz)
        (ret 0))
      else seqM (modS (upd_mem (\<lambda>m. memset m pg 0 PGSIZE))) (
      bindM (mappages pgdir a PGSIZE (V2P pg) (PTE_W OR PTE_U)) (\<lambda>r.
      if r < 0 then
        seqM (kprint (''allocuvm out of memory (2)'' @ nl) []) (
        seqM (deallocuvm pgdir newsz oldsz) (
        seqM (kfree pg)
        (ret 0)))
      else allocuvm_loop fuel pgdir (a + PGSIZE) oldsz newsz))))"

definition allocuvm :: "u32 \<Rightarrow> u32 \<Rightarrow> u32 \<Rightarrow> ('x con_st_scheme, u32) prog" where
  "allocuvm pgdir oldsz newsz =
     (if newsz \<ge> KERNBASE then ret 0
      else if newsz < oldsz then ret oldsz
      else allocuvm_loop (NPAGES + 1) pgdir (PGROUNDUP oldsz) oldsz newsz)"

fun freevm_loop :: "nat \<Rightarrow> nat \<Rightarrow> u32 \<Rightarrow> ('x kmem_st_scheme, unit) prog" where
  "freevm_loop 0 i pgdir = ret ()"
| "freevm_loop (Suc n) i pgdir =
     bindM (rdm (pgdir + 4 * of_nat i)) (\<lambda>e.
     seqM (whenM (e AND PTE_P \<noteq> 0) (kfree (P2V (PTE_ADDR e))))
     (freevm_loop n (Suc i) pgdir))"

definition freevm :: "u32 \<Rightarrow> ('x kmem_st_scheme, unit) prog" where
  "freevm pgdir =
     (if pgdir = 0 then panic ''freevm: no pgdir''
      else seqM (deallocuvm pgdir KERNBASE 0) (
           seqM (freevm_loop 1024 0 pgdir)
           (kfree pgdir)))"

text \<open>The table \<open>kmap\<close>: virtual start, physical start and end, permissions.\<close>

definition kmap :: "u32 \<Rightarrow> (u32 \<times> u32 \<times> u32 \<times> u32) list" where
  "kmap data =
     [(KERNBASE, 0, EXTMEM, PTE_W),
      (KERNLINK, V2P KERNLINK, V2P data, 0),
      (data, V2P data, PHYSTOP, PTE_W),
      (DEVSPACE, DEVSPACE, 0, PTE_W)]"

fun setupkvm_loop :: "(u32 \<times> u32 \<times> u32 \<times> u32) list \<Rightarrow> u32 \<Rightarrow> ('x kmem_st_scheme, u32) prog" where
  "setupkvm_loop [] pgdir = ret pgdir"
| "setupkvm_loop ((virt, pstart, pend, perm) # ks) pgdir =
     bindM (mappages pgdir virt (pend - pstart) pstart perm) (\<lambda>r.
     if r < 0 then seqM (freevm pgdir) (ret 0)
     else setupkvm_loop ks pgdir)"

definition setupkvm :: "('x vm_st_scheme, u32) prog" where
  "setupkvm =
     bindM kalloc (\<lambda>pgdir.
     if pgdir = 0 then ret 0
     else seqM (modS (upd_mem (\<lambda>m. memset m pgdir 0 PGSIZE))) (
     if P2V PHYSTOP > DEVSPACE then panic ''PHYSTOP too high''
     else bindM (getS data_addr) (\<lambda>data. setupkvm_loop (kmap data) pgdir)))"

definition kvmalloc :: "('x vm_st_scheme, unit) prog" where
  "kvmalloc =
     bindM setupkvm (\<lambda>d.
     seqM (modS (\<lambda>s. s\<lparr>kpgdir := d\<rparr>))
     switchkvm)"

definition inituvm :: "u32 \<Rightarrow> u32 \<Rightarrow> u32 \<Rightarrow> ('x kmem_st_scheme, unit) prog" where
  "inituvm pgdir init sz =
     (if sz \<ge> PGSIZE then panic ''inituvm: more than a page''
      else bindM kalloc (\<lambda>pg.
      seqM (modS (upd_mem (\<lambda>m. memset m pg 0 PGSIZE))) (
      seqM (mappages pgdir 0 PGSIZE (V2P pg) (PTE_W OR PTE_U))
      (modS (upd_mem (\<lambda>m. memmove m pg init sz))))))"

definition clearpteu :: "u32 \<Rightarrow> u32 \<Rightarrow> ('x kmem_st_scheme, unit) prog" where
  "clearpteu pgdir uva =
     bindM (walkpgdir pgdir uva False) (\<lambda>pte.
     if pte = 0 then panic ''clearpteu''
     else bindM (rdm pte) (\<lambda>e. wrm pte (e AND NOT PTE_U)))"

fun copyuvm_loop :: "nat \<Rightarrow> u32 \<Rightarrow> u32 \<Rightarrow> u32 \<Rightarrow> u32 \<Rightarrow> ('x kmem_st_scheme, u32) prog" where
  "copyuvm_loop 0 pgdir d i sz = nofuel"
| "copyuvm_loop (Suc fuel) pgdir d i sz =
     (if \<not> i < sz then ret d
      else bindM (walkpgdir pgdir i False) (\<lambda>pte.
      if pte = 0 then panic ''copyuvm: pte should exist''
      else bindM (rdm pte) (\<lambda>e.
      if e AND PTE_P = 0 then panic ''copyuvm: page not present''
      else bindM kalloc (\<lambda>pg.
      if pg = 0 then seqM (freevm d) (ret 0)
      else seqM (modS (upd_mem (\<lambda>m. memmove m pg (P2V (PTE_ADDR e)) PGSIZE))) (
      bindM (mappages d i PGSIZE (V2P pg) (PTE_FLAGS e)) (\<lambda>r.
      if r < 0 then seqM (kfree pg) (seqM (freevm d) (ret 0))
      else copyuvm_loop fuel pgdir d (i + PGSIZE) sz))))))"

definition copyuvm :: "u32 \<Rightarrow> u32 \<Rightarrow> ('x vm_st_scheme, u32) prog" where
  "copyuvm pgdir sz =
     bindM setupkvm (\<lambda>d.
     if d = 0 then ret 0 else copyuvm_loop (NPAGES + 1) pgdir d 0 sz)"

text \<open>\<open>uva2ka\<close> dereferences the entry without looking whether \<open>walkpgdir\<close> returned null.\<close>

definition uva2ka :: "u32 \<Rightarrow> u32 \<Rightarrow> ('x kmem_st_scheme, u32) prog" where
  "uva2ka pgdir uva =
     bindM (walkpgdir pgdir uva False) (\<lambda>pte.
     if pte = 0 then undef ''null pointer''
     else bindM (rdm pte) (\<lambda>e.
     if e AND PTE_P = 0 then ret 0
     else if e AND PTE_U = 0 then ret 0
     else ret (P2V (PTE_ADDR e))))"

text \<open>\<open>copyout\<close> takes the bytes at its source address.\<close>

fun copyout_loop :: "nat \<Rightarrow> u32 \<Rightarrow> u32 \<Rightarrow> u8 list \<Rightarrow> ('x kmem_st_scheme, int) prog" where
  "copyout_loop 0 pgdir va buf = nofuel"
| "copyout_loop (Suc fuel) pgdir va buf =
     (if buf = [] then ret 0
      else (let va0 = PGROUNDDOWN va
            in bindM (uva2ka pgdir va0) (\<lambda>pa0.
               if pa0 = 0 then ret (- 1)
               else (let n0 = unat (PGSIZE - (va - va0));
                         n = (if n0 > length buf then length buf else n0)
                     in seqM (modS (upd_mem (\<lambda>m. poke m (pa0 + (va - va0)) (take n buf))))
                        (copyout_loop fuel pgdir (va0 + PGSIZE) (drop n buf))))))"

definition copyout :: "u32 \<Rightarrow> u32 \<Rightarrow> u8 list \<Rightarrow> ('x kmem_st_scheme, int) prog" where
  "copyout pgdir va p = copyout_loop (NPAGES + 2) pgdir va p"

section \<open>Lab 5 counters\<close>

fun count_physical_loop :: "nat \<Rightarrow> u32 \<Rightarrow> u32 \<Rightarrow> u32 \<Rightarrow> u32 \<Rightarrow> ('x kmem_st_scheme, u32) prog" where
  "count_physical_loop 0 pgdir a sz count = nofuel"
| "count_physical_loop (Suc fuel) pgdir a sz count =
     (if \<not> a < sz then ret count
      else bindM (walkpgdir pgdir a False) (\<lambda>pte.
      bindM (rdm pte) (\<lambda>e.
      count_physical_loop fuel pgdir (a + PGSIZE) sz
        (if pte \<noteq> 0 \<and> e AND PTE_P \<noteq> 0 \<and> PTE_ADDR e \<noteq> 0 then count + 1 else count))))"

definition count_physical_pages :: "u32 \<Rightarrow> u32 \<Rightarrow> ('x kmem_st_scheme, u32) prog" where
  "count_physical_pages pgdir sz = count_physical_loop (NPAGES + 1) pgdir 0 sz 0"

fun count_pdes :: "nat \<Rightarrow> nat \<Rightarrow> u32 \<Rightarrow> u32 \<Rightarrow> ('x mach_scheme, u32) prog" where
  "count_pdes 0 i pgdir count = ret count"
| "count_pdes (Suc n) i pgdir count =
     bindM (rdm (pgdir + 4 * of_nat i)) (\<lambda>e.
     count_pdes n (Suc i) pgdir (if e AND PTE_P \<noteq> 0 then count + 1 else count))"

definition page_table_size :: "u32 \<Rightarrow> u32 \<Rightarrow> ('x mach_scheme, u32) prog" where
  "page_table_size pgdir sz = count_pdes 1024 0 pgdir 1"

section \<open>growproc\<close>

definition growproc :: "u32 \<Rightarrow> ('x vm_st_scheme, int) prog" where
  "growproc n =
     bindM curproc (\<lambda>p.
     bindM (getS (\<lambda>s. p_sz (ptable s ! p))) (\<lambda>sz0.
     bindM (getS (\<lambda>s. p_pgdir (ptable s ! p))) (\<lambda>pgdir.
     bindM
       (if sint n > 0 then allocuvm pgdir sz0 (sz0 + n)
        else if sint n < 0 then deallocuvm pgdir sz0 (sz0 + n)
        else ret sz0) (\<lambda>sz.
     if n \<noteq> 0 \<and> sz = 0 then ret (- 1)
     else seqM (modS (upd_proc p (\<lambda>q. q\<lparr>p_sz := sz\<rparr>))) (
          seqM (switchuvm (Some p))
          (ret 0))))))"

section \<open>Address arithmetic\<close>

lemma and_3FF: "(w :: u32) AND 0x3FF = take_bit 10 w"
  by (simp add: take_bit_eq_mask mask_eq_exp_minus_1)

lemma unat_PDX: "unat (PDX va) = unat va div 2 ^ 22"
proof -
  have "unat va div 2 ^ 22 < 1024"
    using unsigned_less [where 'a = nat and 'b = 32, of va] by (simp add: less_mult_imp_div_less)
  then show ?thesis
    by (simp add: PDX_def and_3FF take_bit_eq_mod drop_bit_eq_div unat_div unat_mod)
qed

lemma unat_PTX: "unat (PTX va) = unat va div 4096 mod 1024"
  by (simp add: PTX_def and_3FF take_bit_eq_mod drop_bit_eq_div unat_div unat_mod)

lemma index_less: "unat (PDX va) < 1024" "unat (PTX va) < 1024"
proof -
  show "unat (PDX va) < 1024"
    using unsigned_less [where 'a = nat and 'b = 32, of va] by (simp add: unat_PDX less_mult_imp_div_less)
  show "unat (PTX va) < 1024" by (simp add: unat_PTX)
qed

text \<open>Two addresses use the same entry exactly when they lie in the same page.\<close>

definition vpn :: "u32 \<Rightarrow> nat" where
  "vpn va = unat va div 4096"

lemma vpn_indices: "unat (PDX va) = vpn va div 1024" "unat (PTX va) = vpn va mod 1024"
  by (simp_all add: unat_PDX unat_PTX vpn_def div_mult2_eq [symmetric])

lemma same_page_iff: "PDX a = PDX b \<and> PTX a = PTX b \<longleftrightarrow> vpn a = vpn b"
proof
  assume "PDX a = PDX b \<and> PTX a = PTX b"
  then have "vpn a div 1024 = vpn b div 1024" "vpn a mod 1024 = vpn b mod 1024"
    by (simp_all flip: vpn_indices)
  then show "vpn a = vpn b" by (metis div_mult_mod_eq)
qed (simp add: word_unat_eq_iff vpn_indices)

lemma vpn_less: "vpn va < 2 ^ 20"
  using unsigned_less [where 'a = nat and 'b = 32, of va] by (simp add: vpn_def less_mult_imp_div_less)

lemma and_not_FFF: "unat ((w :: u32) AND NOT 0xFFF) = 4096 * (unat w div 4096)"
proof -
  have "w AND NOT 0xFFF = push_bit 12 (drop_bit 12 w)"
  proof (rule bit_word_eqI)
    have m: "(0xFFF :: u32) = mask 12" by (simp add: mask_eq_exp_minus_1)
    fix n assume "n < LENGTH(32)"
    then show "bit (w AND NOT 0xFFF) n = bit (push_bit 12 (drop_bit 12 w)) n"
      unfolding m by (auto simp: bit_and_iff bit_not_iff bit_push_bit_iff bit_drop_bit_eq bit_mask_iff)
  qed
  then have "unat (w AND NOT 0xFFF) = (unat w div 4096) * 4096 mod 2 ^ 32"
    by (simp add: push_bit_eq_mult drop_bit_eq_div unat_word_ariths mod_mult_left_eq)
  moreover have "unat w div 4096 * 4096 < 2 ^ 32"
    using unsigned_less [where 'a = nat and 'b = 32, of w] by (simp add: order_le_less_trans [OF div_times_less_eq_dividend])
  ultimately show ?thesis by simp
qed

lemma unat_PGROUNDDOWN: "unat (PGROUNDDOWN a) = 4096 * vpn a"
  using and_not_FFF [of a] by (simp add: PGROUNDDOWN_def PGSIZE_def vpn_def)

lemma PTE_ADDR_aligned: "PTE_ADDR e mod PGSIZE = 0"
proof -
  have "unat (PTE_ADDR e mod PGSIZE) = 0"
    using and_not_FFF [of e] by (simp add: PTE_ADDR_def PGSIZE_def unat_mod)
  then show ?thesis by (simp add: word_unat_eq_iff)
qed

section \<open>Entries\<close>

lemma rd32_wr32_other:
  assumes "\<And>i. i < 4 \<Longrightarrow> \<not> in_range a 4 (b + of_nat i)"
  shows "rd32 (wr32 m a v) b = rd32 m b"
  by (rule rd32_cong) (simp add: wr32_other assms)

text \<open>The 1024 words of a page do not overlap.\<close>

lemma entry_addr:
  assumes "v mod PGSIZE = 0" "i < 1024" "k < 4"
  shows "unat (v + 4 * of_nat i + of_nat k) = unat v + (4 * i + k)"
proof -
  show ?thesis
    using unat_add_offset [of v 4096 "4 * i + k"] aligned_bound [OF assms(1)] assms(2,3)
    by (simp add: add.assoc)
qed

lemma entry_in_page:
  assumes "i < 1024" "k < 4"
  shows "in_range v 4096 (v + 4 * of_nat i + of_nat k)"
  using in_range_offset [of "4 * i + k" 4096 v] assms by (simp add: add.assoc)

lemma rd32_wr32_entry:
  assumes "v mod PGSIZE = 0" "i < 1024" "w mod PGSIZE = 0" "j < 1024" "v \<noteq> w \<or> i \<noteq> j"
  shows "rd32 (wr32 m (v + 4 * of_nat i) x) (w + 4 * of_nat j) = rd32 m (w + 4 * of_nat j)"
proof (rule rd32_wr32_other)
  fix k :: nat assume k: "k < 4"
  show "\<not> in_range (v + 4 * of_nat i) 4 (w + 4 * of_nat j + of_nat k)"
  proof
    assume "in_range (v + 4 * of_nat i) 4 (w + 4 * of_nat j + of_nat k)"
    then obtain l where l: "l < 4" "w + 4 * of_nat j + of_nat k = v + 4 * of_nat i + of_nat l"
      by (rule in_rangeE)
    show False
    proof (cases "v = w")
      case True
      then have "4 * j + k = 4 * i + l"
        using entry_addr [OF assms(3,4) k] entry_addr [OF assms(1,2) l(1)] l(2) by simp
      with True assms(5) k l(1) show False by presburger
    next
      case False
      have "in_range v 4096 (w + 4 * of_nat j + of_nat k)"
        using entry_in_page [OF assms(2) l(1), of v] l(2) by simp
      moreover have "in_range w 4096 (w + 4 * of_nat j + of_nat k)"
        by (rule entry_in_page [OF assms(4) k])
      ultimately show False using pages_disjoint [OF assms(1,3) False] by blast
    qed
  qed
qed

lemma rd32_only_page_entry:
  assumes "only_page p m m'" "p mod PGSIZE = 0" "q mod PGSIZE = 0" "p \<noteq> q" "i < 1024"
  shows "rd32 m' (q + 4 * of_nat i) = rd32 m (q + 4 * of_nat i)"
proof (rule rd32_cong)
  fix k :: nat assume "k < 4"
  then have "in_range q 4096 (q + 4 * of_nat i + of_nat k)" by (rule entry_in_page [OF assms(5)])
  then have "\<not> in_range p 4096 (q + 4 * of_nat i + of_nat k)"
    by (rule pages_disjoint [OF assms(3,2) assms(4) [symmetric]])
  with assms(1) show "m' (q + 4 * of_nat i + of_nat k) = m (q + 4 * of_nat i + of_nat k)"
    by (simp add: only_page_def)
qed

lemma only_page_entry: "i < 1024 \<Longrightarrow> v mod PGSIZE = 0 \<Longrightarrow> only_page v m (wr32 m (v + 4 * of_nat i) x)"
  unfolding only_page_def
proof (intro allI impI)
  fix a assume i: "i < 1024" and a: "\<not> in_range v 4096 a"
  have "\<not> in_range (v + 4 * of_nat i) 4 a"
  proof
    assume "in_range (v + 4 * of_nat i) 4 a"
    then obtain k where "k < 4" "a = v + 4 * of_nat i + of_nat k" by (rule in_rangeE)
    with entry_in_page [OF i, of k v] a show False by simp
  qed
  then show "wr32 m (v + 4 * of_nat i) x a = m a" by (rule wr32_other)
qed

lemma rd32_memset_zero:
  assumes "i < 1024"
  shows "rd32 (memset m v 0 PGSIZE) (v + 4 * of_nat i) = 0"
proof -
  have "rd32 (memset m v 0 PGSIZE) (v + 4 * of_nat i) = rd32 (\<lambda>_. 0) (v + 4 * of_nat i)"
    by (rule rd32_cong) (use entry_in_page [OF assms] in \<open>simp add: memset_apply PGSIZE_def\<close>)
  then show ?thesis by (simp add: rd32_def)
qed

section \<open>Translation\<close>

text \<open>
  \<open>pt_of m pgdir d\<close> is the page table that directory slot \<open>d\<close> points to, \<open>pte_of m pgdir va\<close>
  the entry for \<open>va\<close> (0 when there is no page table). \<open>pt_ok\<close>: the directory and its tables are
  distinct pages of allocatable memory that are in use.
\<close>

definition pde :: "mem \<Rightarrow> u32 \<Rightarrow> nat \<Rightarrow> u32" where
  "pde m pgdir d = rd32 m (pgdir + 4 * of_nat d)"

definition pt_of :: "mem \<Rightarrow> u32 \<Rightarrow> nat \<Rightarrow> u32 option" where
  "pt_of m pgdir d = (if pde m pgdir d AND PTE_P \<noteq> 0 then Some (P2V (PTE_ADDR (pde m pgdir d))) else None)"

definition pte_of :: "mem \<Rightarrow> u32 \<Rightarrow> u32 \<Rightarrow> u32" where
  "pte_of m pgdir va =
     (case pt_of m pgdir (unat (PDX va)) of
        None \<Rightarrow> 0
      | Some t \<Rightarrow> rd32 m (t + 4 * PTX va))"

definition pt_ok :: "u32 \<Rightarrow> u32 set \<Rightarrow> mem \<Rightarrow> u32 \<Rightarrow> bool" where
  "pt_ok e free m pgdir \<longleftrightarrow>
     valid_page e pgdir \<and> pgdir \<notin> free \<and>
     (\<forall>d < 1024. \<forall>t. pt_of m pgdir d = Some t \<longrightarrow> valid_page e t \<and> t \<noteq> pgdir \<and> t \<notin> free) \<and>
     (\<forall>c < 1024. \<forall>d < 1024. \<forall>t. pt_of m pgdir c = Some t \<and> pt_of m pgdir d = Some t \<longrightarrow> c = d)"

lemma pt_okD:
  assumes "pt_ok e free m pgdir"
  shows "pgdir mod PGSIZE = 0" "pgdir \<noteq> 0" "pgdir \<notin> free" "valid_page e pgdir"
    and "d < 1024 \<Longrightarrow> pt_of m pgdir d = Some t \<Longrightarrow> t mod PGSIZE = 0 \<and> t \<noteq> 0 \<and> t \<noteq> pgdir \<and> t \<notin> free \<and> valid_page e t"
    and "c < 1024 \<Longrightarrow> d < 1024 \<Longrightarrow> pt_of m pgdir c = Some t \<Longrightarrow> pt_of m pgdir d = Some t \<Longrightarrow> c = d"
  using assms unfolding pt_ok_def valid_page_def by blast+

lemma pt_ok_mono: "pt_ok e free m pgdir \<Longrightarrow> free' \<subseteq> free \<Longrightarrow> pt_ok e free' m pgdir"
  unfolding pt_ok_def by blast

lemma P2V_V2P [simp]: "P2V (V2P a) = a" "V2P (P2V a) = a"
  by (simp_all add: P2V_def V2P_def)

lemma of_nat_unat_idx [simp]: "(of_nat (unat (w :: u32)) :: u32) = w"
  by simp

lemma entry_nonzero:
  assumes "v mod PGSIZE = 0" "v \<noteq> 0" "i < 1024"
  shows "v + 4 * of_nat i \<noteq> (0 :: u32)"
proof
  assume z: "v + 4 * of_nat i = 0"
  have "unat (v + 4 * of_nat i) = unat v + 4 * i"
    using entry_addr [OF assms(1,3), of 0] by simp
  with z have "unat v = 0" by simp
  with assms(2) show False by (simp add: word_unat_eq_iff)
qed

text \<open>\<open>walkpgdir\<close> without \<open>alloc\<close> is a pure lookup.\<close>

definition pte_addr :: "mem \<Rightarrow> u32 \<Rightarrow> u32 \<Rightarrow> u32" where
  "pte_addr m pgdir va =
     (case pt_of m pgdir (unat (PDX va)) of None \<Rightarrow> 0 | Some t \<Rightarrow> t + 4 * PTX va)"

lemma walkpgdir_lookup: "walkpgdir pgdir va False s = Ok (pte_addr (mem s) pgdir va) s"
  by (simp add: walkpgdir_def M_defs pte_addr_def pt_of_def pde_def Let_def)

lemma pte_addr_present:
  assumes "pt_ok e free m pgdir" "pte_addr m pgdir va \<noteq> 0"
  shows "rd32 m (pte_addr m pgdir va) = pte_of m pgdir va"
  using assms(2) by (auto simp: pte_addr_def pte_of_def split: option.splits)

lemma pte_addr_zero_iff:
  assumes "pt_ok e free m pgdir"
  shows "pte_addr m pgdir va = 0 \<longleftrightarrow> pt_of m pgdir (unat (PDX va)) = None"
proof (cases "pt_of m pgdir (unat (PDX va))")
  case (Some t)
  have "t + 4 * of_nat (unat (PTX va)) \<noteq> 0"
    by (rule entry_nonzero) (use pt_okD(5) [OF assms index_less(1) Some] index_less in auto)
  then show ?thesis using Some by (simp add: pte_addr_def)
qed (simp add: pte_addr_def)

text \<open>Writing an entry changes the translation of its own page and no other.\<close>

lemma write_entry:
  fixes m :: mem and x :: u32
  assumes ok: "pt_ok e free m pgdir" and t: "pt_of m pgdir (unat (PDX va)) = Some t"
  defines "m' \<equiv> wr32 m (t + 4 * PTX va) x"
  shows "d < 1024 \<Longrightarrow> pt_of m' pgdir d = pt_of m pgdir d"
    and "pte_of m' pgdir vb = (if vpn vb = vpn va then x else pte_of m pgdir vb)"
    and "pt_ok e free m' pgdir"
proof -
  note tok = pt_okD(5) [OF ok index_less(1) t]
  have m': "m' = wr32 m (t + 4 * of_nat (unat (PTX va))) x" by (simp add: m'_def)
  show pt: "pt_of m' pgdir d = pt_of m pgdir d" if "d < 1024" for d
    using rd32_wr32_entry [of t "unat (PTX va)" pgdir d m x] tok pt_okD(1) [OF ok] that index_less
    by (simp add: pt_of_def pde_def m')
  show "pte_of m' pgdir vb = (if vpn vb = vpn va then x else pte_of m pgdir vb)"
  proof (cases "pt_of m pgdir (unat (PDX vb))")
    case None
    then have "vpn vb \<noteq> vpn va" using t by (auto simp flip: same_page_iff)
    with None show ?thesis using pt [OF index_less(1)] by (simp add: pte_of_def)
  next
    case (Some u)
    show ?thesis
    proof (cases "vpn vb = vpn va")
      case True
      then have "PDX vb = PDX va" "PTX vb = PTX va" by (simp_all flip: same_page_iff)
      with True t pt [OF index_less(1), of va] show ?thesis by (simp add: pte_of_def m'_def)
    next
      case False
      have "u \<noteq> t \<or> PTX vb \<noteq> PTX va"
        using False pt_okD(6) [OF ok index_less(1) index_less(1) Some, of va] t
        by (auto simp: word_unat_eq_iff simp flip: same_page_iff)
      then have "rd32 m' (u + 4 * of_nat (unat (PTX vb))) = rd32 m (u + 4 * of_nat (unat (PTX vb)))"
        unfolding m' using tok pt_okD(5) [OF ok index_less(1) Some] index_less
        by (intro rd32_wr32_entry) (auto simp: word_unat_eq_iff)
      with False Some pt [OF index_less(1), of vb] show ?thesis by (simp add: pte_of_def)
    qed
  qed
  show "pt_ok e free m' pgdir"
    using ok unfolding pt_ok_def by (simp add: pt)
qed

section \<open>New page tables\<close>

definition tables :: "mem \<Rightarrow> u32 \<Rightarrow> u32 set" where
  "tables m pgdir = {t. \<exists>d < 1024. pt_of m pgdir d = Some t}"

text \<open>Memory outside the pages \<open>P\<close> is unchanged.\<close>

definition only_pages :: "u32 set \<Rightarrow> mem \<Rightarrow> mem \<Rightarrow> bool" where
  "only_pages P m m' \<longleftrightarrow> (\<forall>x. (\<forall>p \<in> P. \<not> in_range p 4096 x) \<longrightarrow> m' x = m x)"

lemma only_pages_refl [simp]: "only_pages P m m"
  by (simp add: only_pages_def)

lemma only_pages_trans: "only_pages P m m' \<Longrightarrow> only_pages P m' m'' \<Longrightarrow> only_pages P m m''"
  by (simp add: only_pages_def)

lemma only_pages_mono: "only_pages P m m' \<Longrightarrow> P \<subseteq> Q \<Longrightarrow> only_pages Q m m'"
  unfolding only_pages_def by blast

lemma only_page_pages: "only_page p m m' \<Longrightarrow> p \<in> P \<Longrightarrow> only_pages P m m'"
  by (auto simp: only_page_def only_pages_def)

lemma aligned_bits:
  assumes "a mod PGSIZE = 0" "n < 12"
  shows "\<not> bit a n"
proof -
  have "take_bit 12 a = 0" using assms(1) by (simp add: take_bit_eq_mod PGSIZE_def)
  then have "\<not> bit (take_bit 12 a) n" by simp
  then show ?thesis using assms(2) by (simp add: bit_take_bit_iff)
qed

lemma small_bits:
  assumes "(f :: u32) < 4096" "12 \<le> n"
  shows "\<not> bit f n"
proof -
  have "unat f < 4096" using assms(1) by (simp add: word_less_nat_alt)
  then have "f = take_bit 12 f"
    by (simp add: take_bit_eq_mod word_unat_eq_iff unat_mod)
  then show ?thesis using assms(2) by (metis bit_take_bit_iff not_le)
qed

lemma PTE_combine:
  assumes "a mod PGSIZE = 0" "f < 4096"
  shows "PTE_ADDR (a OR f) = a" "PTE_FLAGS (a OR f) = f"
proof -
  have m: "(0xFFF :: u32) = mask 12" by (simp add: mask_eq_exp_minus_1)
  show "PTE_ADDR (a OR f) = a"
    unfolding PTE_ADDR_def m
    by (rule bit_word_eqI) (use aligned_bits [OF assms(1)] small_bits [OF assms(2)] in
        \<open>auto simp: bit_and_iff bit_or_iff bit_not_iff bit_mask_iff leI\<close>)
  have "bit f n \<Longrightarrow> n < 12" for n using small_bits [OF assms(2), of n] by (cases "n < 12") auto
  then show "PTE_FLAGS (a OR f) = f"
    unfolding PTE_FLAGS_def m
    by (intro bit_word_eqI) (use aligned_bits [OF assms(1)] in
        \<open>auto simp: bit_and_iff bit_or_iff bit_mask_iff\<close>)
qed

lemma bit0_nonzero: "bit (w :: u32) 0 \<Longrightarrow> w \<noteq> 0"
  by auto

lemma PTE_P_or: "(a OR b OR PTE_P) AND PTE_P \<noteq> 0" "(a OR PTE_P OR b) AND PTE_P \<noteq> 0"
  by (rule bit0_nonzero, simp add: PTE_P_def bit_and_iff bit_or_iff)+

lemma V2P_aligned: "v mod PGSIZE = 0 \<Longrightarrow> V2P v mod PGSIZE = 0"
proof -
  assume "v mod PGSIZE = 0"
  then obtain k where k: "unat v = 4096 * k" by (rule aligned_obtain)
  have "V2P v = v + KERNBASE" by (simp add: V2P_def KERNBASE_def)
  then have "unat (V2P v) = 4096 * (k + 524288) mod 2 ^ 32"
    using k by (simp add: unat_word_ariths KERNBASE_def)
  also have "\<dots> mod 4096 = 4096 * (k + 524288) mod 4096"
    by (rule mod_mod_cancel) simp
  finally have "unat (V2P v mod PGSIZE) = 0" by (simp add: unat_mod PGSIZE_def)
  then show ?thesis by (simp add: word_unat_eq_iff)
qed

definition link_table :: "mem \<Rightarrow> u32 \<Rightarrow> u32 \<Rightarrow> u32 \<Rightarrow> mem" where
  "link_table m pgdir va g =
     wr32 (memset m g 0 PGSIZE) (pgdir + 4 * PDX va) (V2P g OR PTE_P OR PTE_W OR PTE_U)"

lemma link_table_entry: "g mod PGSIZE = 0 \<Longrightarrow>
  P2V (PTE_ADDR (V2P g OR PTE_P OR PTE_W OR PTE_U)) = g \<and>
  (V2P g OR PTE_P OR PTE_W OR PTE_U) AND PTE_P \<noteq> 0"
  using PTE_combine(1) [OF V2P_aligned, of g "PTE_P OR PTE_W OR PTE_U"] PTE_P_or(2) [of "V2P g" "PTE_W OR PTE_U"]
  by (simp add: PTE_P_def PTE_W_def PTE_U_def)

lemma link_table:
  fixes m :: mem
  assumes ok: "pt_ok e free m pgdir" and none: "pt_of m pgdir (unat (PDX va)) = None"
    and g: "valid_page e g" "g \<in> free"
  defines "m' \<equiv> link_table m pgdir va g"
  shows "d < 1024 \<Longrightarrow> pt_of m' pgdir d = (if d = unat (PDX va) then Some g else pt_of m pgdir d)"
    and "pte_of m' pgdir vb = pte_of m pgdir vb"
    and "pt_ok e (free - {g}) m' pgdir"
    and "only_pages {pgdir, g} m m'"
proof -
  let ?m = "memset m g 0 PGSIZE" and ?v = "V2P g OR PTE_P OR PTE_W OR PTE_U"
  have g': "g mod PGSIZE = 0" "g \<noteq> pgdir" using g pt_okD(3) [OF ok] by (auto simp: valid_page_def)
  note pd = pt_okD(1) [OF ok]
  have m': "m' = wr32 ?m (pgdir + 4 * of_nat (unat (PDX va))) ?v" by (simp add: m'_def link_table_def)
  have old: "rd32 ?m (q + 4 * of_nat i) = rd32 m (q + 4 * of_nat i)"
    if "q mod PGSIZE = 0" "q \<noteq> g" "i < 1024" for q i
    by (rule rd32_only_page_entry [OF only_page_memset g'(1)]) (use that in auto)
  have pde': "pde m' pgdir d = (if d = unat (PDX va) then ?v else pde m pgdir d)" if "d < 1024" for d
    using rd32_wr32_entry [OF pd index_less(1) pd that, of va ?m ?v] old [OF pd g'(2) [symmetric] that] m'
    by (auto simp: pde_def)
  show pt: "pt_of m' pgdir d = (if d = unat (PDX va) then Some g else pt_of m pgdir d)" if "d < 1024" for d
    using pde' [OF that] link_table_entry [OF g'(1)] by (auto simp: pt_of_def)
  have other: "rd32 m' (t + 4 * of_nat i) = rd32 ?m (t + 4 * of_nat i)"
    if "t mod PGSIZE = 0" "t \<noteq> pgdir" "i < 1024" for t i
    unfolding m' by (rule rd32_wr32_entry) (use pd that index_less in auto)
  show "pte_of m' pgdir vb = pte_of m pgdir vb"
  proof (cases "PDX vb = PDX va")
    case True
    then have "pte_of m' pgdir vb = rd32 ?m (g + 4 * of_nat (unat (PTX vb)))"
      using pt [OF index_less(1), of vb] other [OF g' index_less(2), of vb] by (simp add: pte_of_def)
    also have "\<dots> = 0" by (rule rd32_memset_zero [OF index_less(2)])
    finally show ?thesis using True none by (simp add: pte_of_def)
  next
    case False
    then have same: "pt_of m' pgdir (unat (PDX vb)) = pt_of m pgdir (unat (PDX vb))"
      using pt [OF index_less(1), of vb] by (auto simp: word_unat_eq_iff)
    show ?thesis
    proof (cases "pt_of m pgdir (unat (PDX vb))")
      case None
      then show ?thesis using same by (simp add: pte_of_def)
    next
      case (Some t)
      note tok = pt_okD(5) [OF ok index_less(1) Some]
      have "rd32 m' (t + 4 * of_nat (unat (PTX vb))) = rd32 m (t + 4 * of_nat (unat (PTX vb)))"
        using other [of t "unat (PTX vb)"] old [of t "unat (PTX vb)"] tok g(2) index_less by auto
      then show ?thesis using Some same by (simp add: pte_of_def)
    qed
  qed
  show "pt_ok e (free - {g}) m' pgdir"
    using ok g g' none unfolding pt_ok_def by (auto simp: pt split: if_splits)
  show "only_pages {pgdir, g} m m'"
    unfolding m'
    by (rule only_pages_trans [OF only_page_pages [OF only_page_memset] only_page_pages [OF only_page_entry]])
      (use index_less pd in auto)
qed

section \<open>walkpgdir and mappages\<close>

text \<open>
  The precondition and postcondition of the operations on a page table: \<open>vm_inv S ps pgdir s\<close>
  says which locks are held, which pages are free, and that the tables are sound.
\<close>

definition vm_inv :: "lockid set \<Rightarrow> u32 list \<Rightarrow> u32 \<Rightarrow> 'x kmem_st_scheme \<Rightarrow> bool" where
  "vm_inv S ps pgdir s \<longleftrightarrow>
     lockset S s \<and> L_kmem \<notin> S \<and> card S < 1000 \<and> free_pages ps s \<and> pt_ok (kend s) (set ps) (mem s) pgdir"

lemma free_pages_upd_mem:
  assumes "free_pages ps s" "only_pages P (mem s) (f (mem s))" "\<forall>p \<in> P. p mod PGSIZE = 0 \<and> p \<notin> set ps"
  shows "free_pages ps (upd_mem f s)"
proof -
  have al: "\<forall>p \<in> set ps. p mod PGSIZE = 0" using assms(1) by (auto simp: free_pages_def valid_page_def)
  have rd: "rd32 (f (mem s)) p = rd32 (mem s) p" if p: "p \<in> set ps" for p
  proof (rule rd32_cong)
    fix i :: nat assume "i < 4"
    then have "in_range p 4096 (p + of_nat i)" by (simp add: in_range_offset)
    then have "\<forall>q \<in> P. \<not> in_range q 4096 (p + of_nat i)"
      using pages_disjoint [of p _ "p + of_nat i"] assms(3) al p by metis
    with assms(2) show "f (mem s) (p + of_nat i) = mem s (p + of_nat i)" by (simp add: only_pages_def)
  qed
  have "chain (f (mem s)) q qs = chain (mem s) q qs" if "set qs \<subseteq> set ps" for q qs
    using that by (induction qs arbitrary: q) (auto simp: rd)
  then show ?thesis using assms(1) by (simp add: free_pages_def)
qed

definition pte_ready :: "u32 \<Rightarrow> u32 \<Rightarrow> u32 \<Rightarrow> 'x kmem_st_scheme \<Rightarrow> bool" where
  "pte_ready pgdir va r t \<longleftrightarrow> (\<exists>pt. pt_of (mem t) pgdir (unat (PDX va)) = Some pt \<and> r = pt + 4 * PTX va)"

lemma walkpgdir_alloc:
  assumes "vm_inv S ps pgdir s"
  shows "wp (walkpgdir pgdir va True)
    (\<lambda>r t. \<exists>qs. vm_inv S qs pgdir t \<and> kend t = kend s \<and> set qs \<subseteq> set ps \<and> length ps \<le> length qs + 1 \<and>
       only_pages (insert pgdir (set ps)) (mem s) (mem t) \<and>
       (\<forall>vb. pte_of (mem t) pgdir vb = pte_of (mem s) pgdir vb) \<and>
       tables (mem t) pgdir \<subseteq> tables (mem s) pgdir \<union> set ps \<and>
       (if r = 0 then ps = [] else pte_ready pgdir va r t)) s"
    (is "wp _ ?Q s")
proof -
  note inv = assms [unfolded vm_inv_def]
  then have ok: "pt_ok (kend s) (set ps) (mem s) pgdir" by simp
  let ?e = "rd32 (mem s) (pgdir + 4 * PDX va)"
  have e: "pde (mem s) pgdir (unat (PDX va)) = ?e" by (simp add: pde_def)
  show ?thesis
  proof (cases "?e AND PTE_P \<noteq> 0")
    case True
    let ?r = "P2V (PTE_ADDR ?e) + 4 * PTX va"
    have some: "pt_of (mem s) pgdir (unat (PDX va)) = Some (P2V (PTE_ADDR ?e))"
      using True by (simp add: pt_of_def e)
    have "?r \<noteq> 0" using pte_addr_zero_iff [OF ok, of va] some by (simp add: pte_addr_def)
    then have "?Q ?r s" using assms some by (auto simp: pte_ready_def)
    then show ?thesis using True by (simp add: walkpgdir_def Let_def)
  next
    case False
    then have none: "pt_of (mem s) pgdir (unat (PDX va)) = None" by (simp add: pt_of_def e)
    have ka: "kalloc s = Ok (freelist s) (kalloced s)" using inv by (intro kalloc_ok) auto
    show ?thesis
    proof (cases ps)
      case Nil
      then have "freelist s = 0" using inv by (simp add: free_pages_def)
      moreover have "kalloced s = kalloced s" by simp
      moreover have "free_pages [] (kalloced s)"
        using inv Nil by (auto simp: free_pages_def kalloced_def pop_free_def)
      then have "vm_inv S [] pgdir (kalloced s)"
        using inv Nil lockset_kalloced [of S s] by (simp add: vm_inv_def)
      ultimately show ?thesis using False ka Nil by (simp add: walkpgdir_def Let_def wp_def M_defs)
    next
      case (Cons g qs)
      let ?t = "upd_mem (\<lambda>m. link_table m pgdir va g) (kalloced s)"
      have fl: "freelist s = g" "g \<noteq> 0" and vg: "valid_page (kend s) g" "g \<notin> set qs"
        using inv Cons by (auto simp: free_pages_def)
      have lt: "pte_of (mem ?t) pgdir vb = pte_of (mem s) pgdir vb" for vb
        using link_table(2) [OF ok none vg(1)] Cons by simp
      have op: "only_pages {pgdir, g} (mem s) (mem ?t)"
        using link_table(4) [OF ok none vg(1)] Cons by simp
      have "pt_ok (kend s) (set ps - {g}) (mem ?t) pgdir"
        using link_table(3) [OF ok none vg(1)] Cons by simp
      then have pk: "pt_ok (kend s) (set qs) (mem ?t) pgdir"
        by (rule pt_ok_mono) (use Cons vg in auto)
      have "free_pages qs (kalloced s)" using inv Cons by (intro free_pages_kalloced) auto
      then have "free_pages qs ?t"
        by (rule free_pages_upd_mem [where P = "{pgdir, g}"])
          (use op pt_okD(1,3) [OF ok] vg Cons in \<open>auto simp: valid_page_def\<close>)
      then have vi: "vm_inv S qs pgdir ?t"
        using inv pk lockset_kalloced [of S s] by (simp add: vm_inv_def)
      have pt: "pt_of (link_table (mem s) pgdir va g) pgdir d = (if d = unat (PDX va) then Some g else pt_of (mem s) pgdir d)"
        if "d < 1024" for d
        using link_table(1) [OF ok none vg(1) _ that] Cons by simp
      have r: "pte_ready pgdir va (g + 4 * PTX va) ?t" using pt [OF index_less(1)] by (simp add: pte_ready_def)
      have nz: "g + 4 * PTX va \<noteq> 0"
        using entry_nonzero [of g "unat (PTX va)"] vg(1) index_less by (simp add: valid_page_def)
      have tb: "tables (mem ?t) pgdir \<subseteq> tables (mem s) pgdir \<union> set ps"
        using Cons by (auto simp: tables_def pt split: if_splits)
      have "?Q (g + 4 * PTX va) ?t"
        using vi lt r nz tb only_pages_mono [OF op, of "insert pgdir (set ps)"] Cons by auto
      moreover have "walkpgdir pgdir va True s = Ok (g + 4 * PTX va) ?t"
        using False ka fl by (simp add: walkpgdir_def Let_def M_defs upd_mem_def link_table_def)
      ultimately show ?thesis by (simp only: wp_OkI)
    qed
  qed
qed

text \<open>
  \<open>mappages\<close> on a run of unmapped pages: on success exactly these pages are mapped, page by
  page to consecutive frames with the given permissions; it can only fail when there are not
  enough free pages for the page tables, and then no other page has changed.
\<close>

definition page_at :: "u32 \<Rightarrow> nat \<Rightarrow> u32" where
  "page_at a j = a + of_nat j * PGSIZE"

lemma vpn_page_at:
  assumes "vpn a + j < 2 ^ 20"
  shows "vpn (page_at a j) = vpn a + j"
proof -
  have "unat a mod 4096 + 4096 * vpn a = unat a" by (simp add: vpn_def)
  moreover have "unat a mod 4096 < 4096" by simp
  moreover have "vpn a + j < 1048576" using assms by simp
  ultimately have "unat a + 4096 * j < 4294967296" by linarith
  then have "unat (page_at a j) = unat a + 4096 * j"
    by (simp add: page_at_def PGSIZE_def unat_word_ariths unat_of_nat mod_mult_left_eq mod_add_right_eq mult.commute)
  then show ?thesis by (simp add: vpn_def)
qed

lemma vpn_next: "vpn a + 1 < 2 ^ 20 \<Longrightarrow> vpn (a + PGSIZE) = vpn a + 1"
  using vpn_page_at [of a 1] by (simp add: page_at_def)

definition new_entry :: "u32 \<Rightarrow> u32 \<Rightarrow> nat \<Rightarrow> u32" where
  "new_entry pa perm j = (pa + of_nat j * PGSIZE) OR perm OR PTE_P"

definition map_post :: "lockid set \<Rightarrow> u32 list \<Rightarrow> u32 \<Rightarrow> nat \<Rightarrow> nat \<Rightarrow> u32 \<Rightarrow> u32 \<Rightarrow>
    'x kmem_st_scheme \<Rightarrow> int \<Rightarrow> 'x kmem_st_scheme \<Rightarrow> bool" where
  "map_post S ps pgdir v k pa perm s r t \<longleftrightarrow>
     (\<exists>qs. vm_inv S qs pgdir t \<and> set qs \<subseteq> set ps) \<and> kend t = kend s \<and>
     only_pages (insert pgdir (set ps \<union> tables (mem s) pgdir)) (mem s) (mem t) \<and>
     tables (mem t) pgdir \<subseteq> tables (mem s) pgdir \<union> set ps \<and>
     (if r = 0 then
        (\<forall>vb. pte_of (mem t) pgdir vb =
           (if v \<le> vpn vb \<and> vpn vb \<le> v + k then new_entry pa perm (vpn vb - v) else pte_of (mem s) pgdir vb))
      else r = - 1 \<and> length ps \<le> k \<and>
        (\<forall>vb. \<not> (v \<le> vpn vb \<and> vpn vb \<le> v + k) \<longrightarrow> pte_of (mem t) pgdir vb = pte_of (mem s) pgdir vb))"

lemma vm_inv_write:
  fixes x :: u32
  assumes "vm_inv S ps pgdir s" "pt_of (mem s) pgdir (unat (PDX va)) = Some pt"
  defines "t \<equiv> upd_mem (\<lambda>m. wr32 m (pt + 4 * PTX va) x) s"
  shows "vm_inv S ps pgdir t" "only_pages {pt} (mem s) (mem t)" "tables (mem t) pgdir = tables (mem s) pgdir"
    "pte_of (mem t) pgdir vb = (if vpn vb = vpn va then x else pte_of (mem s) pgdir vb)"
proof -
  have ok: "pt_ok (kend s) (set ps) (mem s) pgdir" using assms(1) by (simp add: vm_inv_def)
  note w = write_entry [OF ok assms(2)]
  have pt: "pt mod PGSIZE = 0" "pt \<notin> set ps" using pt_okD(5) [OF ok index_less(1) assms(2)] by auto
  have "only_page pt (mem s) (wr32 (mem s) (pt + 4 * of_nat (unat (PTX va))) x)"
    by (rule only_page_entry [OF index_less(2) pt(1)])
  then show op: "only_pages {pt} (mem s) (mem t)"
    by (intro only_page_pages [of pt]) (simp_all add: t_def)
  have "free_pages ps t"
    unfolding t_def by (rule free_pages_upd_mem [where P = "{pt}"])
      (use assms(1) op pt in \<open>auto simp: vm_inv_def t_def\<close>)
  then show "vm_inv S ps pgdir t" using assms(1) w(3) by (simp add: vm_inv_def t_def)
  show "tables (mem t) pgdir = tables (mem s) pgdir" using w(1) by (auto simp: tables_def t_def)
  show "pte_of (mem t) pgdir vb = (if vpn vb = vpn va then x else pte_of (mem s) pgdir vb)"
    using w(2) by (simp add: t_def)
qed

definition map_step :: "lockid set \<Rightarrow> u32 list \<Rightarrow> u32 list \<Rightarrow> u32 \<Rightarrow> nat \<Rightarrow> u32 \<Rightarrow> u32 \<Rightarrow>
    'x kmem_st_scheme \<Rightarrow> 'x kmem_st_scheme \<Rightarrow> bool" where
  "map_step S ps qs pgdir v pa perm s t \<longleftrightarrow>
     vm_inv S qs pgdir t \<and> set qs \<subseteq> set ps \<and> length ps \<le> length qs + 1 \<and> kend t = kend s \<and>
     only_pages (insert pgdir (set ps \<union> tables (mem s) pgdir)) (mem s) (mem t) \<and>
     tables (mem t) pgdir \<subseteq> tables (mem s) pgdir \<union> set ps \<and>
     (\<forall>vb. pte_of (mem t) pgdir vb = (if vpn vb = v then pa OR perm OR PTE_P else pte_of (mem s) pgdir vb))"

lemma map_post_last:
  "map_step S ps qs pgdir v pa perm s t \<Longrightarrow> map_post S ps pgdir v 0 pa perm s 0 t"
  unfolding map_step_def map_post_def new_entry_def by auto

lemma map_post_step:
  assumes st: "map_step S ps qs pgdir v pa perm s u"
    and po: "map_post S qs pgdir (Suc v) k (pa + PGSIZE) perm u r t"
  shows "map_post S ps pgdir v (Suc k) pa perm s r t"
proof -
  have op: "only_pages (insert pgdir (set ps \<union> tables (mem s) pgdir)) (mem s) (mem t)"
  proof (rule only_pages_trans)
    show "only_pages (insert pgdir (set ps \<union> tables (mem s) pgdir)) (mem u) (mem t)"
      using po st by (auto simp: map_post_def map_step_def intro: only_pages_mono)
  qed (use st in \<open>simp add: map_step_def\<close>)
  have ne: "new_entry (pa + PGSIZE) perm (w - Suc v) = new_entry pa perm (w - v)" if "Suc v \<le> w" for w
  proof -
    from that obtain d where d: "w = v + Suc d" using le_iff_add [of "Suc v" w] by auto
    show ?thesis by (simp add: d new_entry_def algebra_simps)
  qed
  have n0: "pa OR perm OR PTE_P = new_entry pa perm 0" by (simp add: new_entry_def)
  have "pte_of (mem t) pgdir vb =
      (if v \<le> vpn vb \<and> vpn vb \<le> v + Suc k then new_entry pa perm (vpn vb - v) else pte_of (mem s) pgdir vb)"
    if "r = 0" for vb
    using st po that ne [of "vpn vb"] n0
    by (cases "vpn vb = v"; cases "Suc v \<le> vpn vb") (auto simp: map_post_def map_step_def)
  moreover have "r = - 1 \<and> length ps \<le> Suc k" if "r \<noteq> 0"
    using st po that by (auto simp: map_post_def map_step_def)
  moreover have "pte_of (mem t) pgdir vb = pte_of (mem s) pgdir vb"
    if "r \<noteq> 0" "\<not> (v \<le> vpn vb \<and> vpn vb \<le> v + Suc k)" for vb
    using st po that by (auto simp: map_post_def map_step_def)
  moreover have "\<exists>qs'. vm_inv S qs' pgdir t \<and> set qs' \<subseteq> set ps"
    using st po unfolding map_post_def map_step_def by (metis subset_trans)
  moreover have "tables (mem t) pgdir \<subseteq> tables (mem s) pgdir \<union> set ps" "kend t = kend s"
    using st po unfolding map_post_def map_step_def by auto
  ultimately show ?thesis
    using op unfolding map_post_def by (simp del: add_Suc_right)
qed

text \<open>One round of the loop: the walk, the check and the write.\<close>

lemma map_round:
  fixes s :: "'x kmem_st_scheme"
  assumes "vm_inv S ps pgdir s" "pte_of (mem s) pgdir a AND PTE_P = 0"
    and fail: "\<And>t. ps = [] \<Longrightarrow> map_post S ps pgdir (vpn a) k pa perm s (- 1) t \<Longrightarrow>
      \<forall>vb. pte_of (mem t) pgdir vb = pte_of (mem s) pgdir vb \<Longrightarrow> Q (- 1) t"
    and step: "\<And>qs t. map_step S ps qs pgdir (vpn a) pa perm s t \<Longrightarrow>
      wp (if a = lst then ret 0 else mappages_loop fuel pgdir (a + PGSIZE) lst (pa + PGSIZE) perm) Q t"
  shows "wp (mappages_loop (Suc fuel) pgdir a lst pa perm) Q s"
proof -
  let ?w = "\<lambda>r (t :: 'x kmem_st_scheme). \<exists>qs. vm_inv S qs pgdir t \<and> kend t = kend s \<and> set qs \<subseteq> set ps \<and> length ps \<le> length qs + 1 \<and>
       only_pages (insert pgdir (set ps)) (mem s) (mem t) \<and>
       (\<forall>vb. pte_of (mem t) pgdir vb = pte_of (mem s) pgdir vb) \<and>
       tables (mem t) pgdir \<subseteq> tables (mem s) pgdir \<union> set ps \<and>
       (if r = 0 then ps = [] else pte_ready pgdir a r t)"
  have "wp (walkpgdir pgdir a True) ?w s" by (rule walkpgdir_alloc [OF assms(1)])
  then show ?thesis
    unfolding mappages_loop.simps wp_bindM
  proof (rule wp_mono)
    fix r t assume "?w r t"
    then obtain qs where w: "vm_inv S qs pgdir t" "kend t = kend s" "set qs \<subseteq> set ps" "length ps \<le> length qs + 1"
      "only_pages (insert pgdir (set ps)) (mem s) (mem t)"
      "\<And>vb. pte_of (mem t) pgdir vb = pte_of (mem s) pgdir vb"
      "tables (mem t) pgdir \<subseteq> tables (mem s) pgdir \<union> set ps"
      "if r = 0 then ps = [] else pte_ready pgdir a r t" by blast
    have op: "only_pages (insert pgdir (set ps \<union> tables (mem s) pgdir)) (mem s) (mem t)"
      by (rule only_pages_mono [OF w(5)]) auto
    show "wp (if r = 0 then ret (- 1) else bindM (rdm r) (\<lambda>e. if e AND PTE_P \<noteq> 0 then panic ''remap''
       else seqM (wrm r (pa OR perm OR PTE_P)) (if a = lst then ret 0
         else mappages_loop fuel pgdir (a + PGSIZE) lst (pa + PGSIZE) perm))) Q t"
    proof (cases "r = 0")
      case True
      then have "map_post S ps pgdir (vpn a) k pa perm s (- 1) t"
        using w op by (auto simp: map_post_def)
      with fail True w(6,8) show ?thesis by simp
    next
      case False
      with w(8) obtain pt where pt: "pt_of (mem t) pgdir (unat (PDX a)) = Some pt" "r = pt + 4 * PTX a"
        by (auto simp: pte_ready_def)
      let ?t = "upd_mem (\<lambda>m. wr32 m (pt + 4 * PTX a) (pa OR perm OR PTE_P)) t"
      note wr = vm_inv_write [OF w(1) pt(1), of "pa OR perm OR PTE_P"]
      have "pt \<in> tables (mem t) pgdir" using pt(1) index_less(1) by (auto simp: tables_def)
      then have "only_pages (insert pgdir (set ps \<union> tables (mem s) pgdir)) (mem t) (mem ?t)"
        using w(7) by (intro only_pages_mono [OF wr(2)]) auto
      then have "only_pages (insert pgdir (set ps \<union> tables (mem s) pgdir)) (mem s) (mem ?t)"
        by (rule only_pages_trans [OF op])
      then have "map_step S ps qs pgdir (vpn a) pa perm s ?t"
        using w wr(1,3,4) by (auto simp: map_step_def)
      from step [OF this] have
        "wp (if a = lst then ret 0 else mappages_loop fuel pgdir (a + PGSIZE) lst (pa + PGSIZE) perm) Q ?t" .
      moreover have "rd32 (mem t) r AND PTE_P = 0"
        using w(6) [of a] pt assms(2) by (simp add: pte_of_def)
      ultimately show ?thesis using False pt(2) by (simp split del: if_split)
    qed
  qed
qed

lemma mappages_loop_post:
  fixes s :: "'x kmem_st_scheme"
  assumes "vm_inv S ps pgdir s" "vpn a + k < 2 ^ 20" "k < fuel"
    and "\<forall>vb. vpn a \<le> vpn vb \<and> vpn vb \<le> vpn a + k \<longrightarrow> pte_of (mem s) pgdir vb AND PTE_P = 0"
  shows "wp (mappages_loop fuel pgdir a (page_at a k) pa perm) (map_post S ps pgdir (vpn a) k pa perm s) s"
  using assms
proof (induction k arbitrary: a pa s ps fuel)
  case (0 a pa s ps fuel)
  then obtain f where "fuel = Suc f" by (cases fuel) auto
  moreover have "page_at a 0 = a" by (simp add: page_at_def)
  moreover have "wp (mappages_loop (Suc f) pgdir a a pa perm) (map_post S ps pgdir (vpn a) 0 pa perm s) s" for f
    by (rule map_round [OF "0.prems"(1)]) (use "0.prems" in \<open>auto intro: map_post_last\<close>)
  ultimately show ?case by simp
next
  case (Suc k a pa s ps fuel)
  then obtain f where f: "fuel = Suc f" by (cases fuel) auto
  have ne: "a \<noteq> page_at a (Suc k)"
    using vpn_page_at [of a "Suc k"] Suc.prems(2) by auto
  have pa': "page_at a (Suc k) = page_at (a + PGSIZE) k" by (simp add: page_at_def algebra_simps)
  have v': "vpn (a + PGSIZE) = Suc (vpn a)" using vpn_next [of a] Suc.prems(2) by simp
  show ?case
    unfolding f
  proof (rule map_round [OF Suc.prems(1)])
    fix qs and t :: "'x kmem_st_scheme"
    assume st: "map_step S ps qs pgdir (vpn a) pa perm s t"
    have "wp (mappages_loop f pgdir (a + PGSIZE) (page_at (a + PGSIZE) k) (pa + PGSIZE) perm)
        (map_post S qs pgdir (vpn (a + PGSIZE)) k (pa + PGSIZE) perm t) t"
      by (rule Suc.IH) (use st Suc.prems f v' in \<open>auto simp: map_step_def\<close>)
    then have "wp (mappages_loop f pgdir (a + PGSIZE) (page_at (a + PGSIZE) k) (pa + PGSIZE) perm)
        (map_post S ps pgdir (vpn a) (Suc k) pa perm s) t"
      unfolding v' by (rule wp_mono) (rule map_post_step [OF st])
    then show "wp (if a = page_at a (Suc k) then ret 0
        else mappages_loop f pgdir (a + PGSIZE) (page_at a (Suc k)) (pa + PGSIZE) perm)
        (map_post S ps pgdir (vpn a) (Suc k) pa perm s) t"
      using ne pa' by simp
  qed (use Suc.prems(4) in auto)
qed

lemma page_span:
  assumes "0 < unat sz" "unat va + unat sz \<le> 2 ^ 32"
  defines "k \<equiv> vpn (va + sz - 1) - vpn va"
  shows "PGROUNDDOWN (va + sz - 1) = page_at (PGROUNDDOWN va) k" "vpn (PGROUNDDOWN va) = vpn va"
    "vpn va + k < 2 ^ 20" "vpn va + k = (unat va + unat sz - 1) div 4096"
proof -
  have "va + sz - 1 = va + of_nat (unat sz - 1)"
    using assms(1) by (simp add: of_nat_diff add_diff_eq)
  then have u: "unat (va + sz - 1) = unat va + unat sz - 1"
    using unat_add_offset [OF assms(2), of "unat sz - 1"] assms(1) by (simp only:)
  then have le: "vpn va \<le> vpn (va + sz - 1)" using assms(1) by (auto simp: vpn_def intro: div_le_mono)
  then have k: "vpn va + k = vpn (va + sz - 1)" by (simp add: k_def)
  show vr: "vpn (PGROUNDDOWN va) = vpn va" using unat_PGROUNDDOWN [of va] by (simp add: vpn_def)
  show b: "vpn va + k < 2 ^ 20" using k vpn_less by simp
  show "vpn va + k = (unat va + unat sz - 1) div 4096" using k u by (simp add: vpn_def)
  have b': "vpn va + k < 1048576" using b by simp
  then have "unat (page_at (PGROUNDDOWN va) k) = 4096 * (vpn va + k)"
    using unat_PGROUNDDOWN [of va]
    by (simp add: page_at_def PGSIZE_def unat_word_ariths unat_of_nat mod_mult_left_eq mod_add_right_eq)
  then show "PGROUNDDOWN (va + sz - 1) = page_at (PGROUNDDOWN va) k"
    using unat_PGROUNDDOWN [of "va + sz - 1"] k by (simp add: word_unat_eq_iff)
qed

text \<open>
  \<open>mappages\<close> on unmapped, non-empty memory returns, and when it returns 0 the entry of every
  page in the range is the frame at the same offset from \<open>pa\<close> with the given permissions and
  \<open>PTE_P\<close>, while the translation of every other address is unchanged; it returns -1 only
  when there were not enough free pages for page tables. The page tables stay well-formed, and
  memory outside the directory, its tables and formerly free pages is untouched.
\<close>

theorem mappages_maps:
  fixes s :: "'x kmem_st_scheme"
  assumes "vm_inv S ps pgdir s" "0 < unat sz" "unat va + unat sz \<le> 2 ^ 32"
    and "\<forall>vb. vpn va \<le> vpn vb \<and> vpn vb \<le> (unat va + unat sz - 1) div 4096 \<longrightarrow> pte_of (mem s) pgdir vb AND PTE_P = 0"
  shows "\<exists>r t qs. mappages pgdir va sz pa perm s = Ok r t \<and> vm_inv S qs pgdir t \<and> set qs \<subseteq> set ps \<and>
     only_pages (insert pgdir (set ps \<union> tables (mem s) pgdir)) (mem s) (mem t) \<and>
     (r = 0 \<longrightarrow> (\<forall>vb. pte_of (mem t) pgdir vb =
        (if vpn va \<le> vpn vb \<and> vpn vb \<le> (unat va + unat sz - 1) div 4096
         then (pa + of_nat (vpn vb - vpn va) * PGSIZE) OR perm OR PTE_P
         else pte_of (mem s) pgdir vb))) \<and>
     (r \<noteq> 0 \<longrightarrow> r = - 1 \<and> length ps \<le> (unat va + unat sz - 1) div 4096 - vpn va)"
proof -
  define k where "k = vpn (va + sz - 1) - vpn va"
  note sp = page_span [OF assms(2,3), folded k_def]
  have "k < NPAGES" using sp(3) by (simp add: NPAGES_def)
  moreover have "\<forall>vb. vpn va \<le> vpn vb \<and> vpn vb \<le> vpn va + k \<longrightarrow> pte_of (mem s) pgdir vb AND PTE_P = 0"
    using assms(4) sp(4) by simp
  ultimately have "wp (mappages_loop NPAGES pgdir (PGROUNDDOWN va) (page_at (PGROUNDDOWN va) k) pa perm)
      (map_post S ps pgdir (vpn (PGROUNDDOWN va)) k pa perm s) s"
    using assms(1) sp(2,3) by (intro mappages_loop_post) auto
  then obtain r t where r: "mappages pgdir va sz pa perm s = Ok r t" "map_post S ps pgdir (vpn va) k pa perm s r t"
    unfolding mappages_def sp(1,2) by (rule wpE)
  have "(unat va + unat sz - 1) div 4096 - vpn va = k" using sp(4) by simp
  with r show ?thesis
    unfolding map_post_def new_entry_def sp(4) by (metis (no_types, lifting))
qed

text \<open>A machine with one CPU, one free page and zeroed memory.\<close>

definition demo_kmem :: kmem_st where
  "demo_kmem =
     \<lparr>cpus = [\<lparr>c_apicid = 0, c_ncli = 0, c_intena = 0, c_proc = None\<rparr>], lapicid = 0, if_flag = True,
      locks = (\<lambda>_. \<lparr>lk_locked = 0, lk_name = [], lk_cpu = None, lk_pcs = []\<rparr>), mem = (\<lambda>_. 0), frame = 0,
      use_lock = True, freelist = 0x80401000, kend = 0x80000000\<rparr>"

lemma demo_kmem_ready: "kmem_ready [0x80401000] demo_kmem"
proof -
  have "lockset {} demo_kmem"
    by (simp add: lockset_def demo_kmem_def cpu_found_def curcpu_def)
  moreover have "free_pages [0x80401000] demo_kmem"
    by (simp add: free_pages_def demo_kmem_def valid_page_def PGSIZE_def PHYSTOP_def V2P_def KERNBASE_def rd32_def)
  ultimately show ?thesis by (simp add: kmem_ready_def)
qed

lemma demo_vm_inv: "vm_inv {} [0x80401000] 0x80400000 demo_kmem"
proof -
  have "pt_of (mem demo_kmem) 0x80400000 d = None" for d
    by (simp add: pt_of_def pde_def demo_kmem_def rd32_def)
  then have "pt_ok (kend demo_kmem) {0x80401000} (mem demo_kmem) 0x80400000"
    by (simp add: pt_ok_def valid_page_def demo_kmem_def PGSIZE_def PHYSTOP_def V2P_def KERNBASE_def)
  then show ?thesis using demo_kmem_ready by (simp add: vm_inv_def kmem_ready_def)
qed

theorem mappages_maps_witness:
  "\<exists>t. mappages 0x80400000 0x1000 PGSIZE 0x402000 (PTE_W OR PTE_U) demo_kmem = Ok 0 t \<and>
     pte_of (mem t) 0x80400000 0x1000 = 0x402007 \<and> pte_of (mem t) 0x80400000 0x5000 = 0"
proof -
  have z: "pte_of (mem demo_kmem) 0x80400000 vb = 0" for vb
    by (simp add: pte_of_def pt_of_def pde_def demo_kmem_def rd32_def)
  show ?thesis
    using mappages_maps [OF demo_vm_inv, of PGSIZE "0x1000" "0x402000" "PTE_W OR PTE_U"]
    by (auto simp: z PGSIZE_def PTE_W_def PTE_U_def PTE_P_def vpn_def)
qed

end
