(* ===== verification/Sched.thy ===== *)
theory Sched
  imports Vm
begin

text \<open>
  The scheduler of \<open>proc.c\<close> and the machine it makes together with \<open>yield\<close>, \<open>sleep\<close>, \<open>wakeup\<close>,
  \<open>kill\<close> and \<open>allocproc\<close>: a step relation between the points at which control changes hands.
  Its invariant (one running process, the lock discipline around \<open>swtch\<close>) and the time
  accounting of lab 6 are proved by rule induction.
\<close>

section \<open>The scheduler loop\<close>

text \<open>Before the loop, and the head of each round of the outer loop.\<close>

definition scheduler_init :: "('x vm_st_scheme, unit) prog" where
  "scheduler_init = bindM mycpu (\<lambda>c. modS (upd_cpu c (\<lambda>x. x\<lparr>c_proc := None\<rparr>)))"

definition scheduler_begin :: "('x vm_st_scheme, unit) prog" where
  "scheduler_begin = seqM sti (acquire L_ptable)"

definition account_wait :: "u32 \<Rightarrow> proc \<Rightarrow> proc" where
  "account_wait tck p = p\<lparr>p_wtime := p_wtime p + (tck - p_snapticks p)\<rparr>"

text \<open>The inner loop from slot \<open>i\<close> on: to the next \<open>swtch\<close>, or to the end of the table.\<close>

definition first_from :: "nat \<Rightarrow> (proc \<Rightarrow> bool) \<Rightarrow> proc list \<Rightarrow> nat option" where
  "first_from i P ps = map_option (\<lambda>k. i + k) (first_idx P (drop i ps))"

definition scheduler_scan :: "nat \<Rightarrow> ('x vm_st_scheme, unit) prog" where
  "scheduler_scan i =
     bindM (getS (\<lambda>s. first_from i (\<lambda>p. p_state p = RUNNABLE) (ptable s))) (\<lambda>r.
     case r of
       None \<Rightarrow> release L_ptable
     | Some p \<Rightarrow>
         bindM mycpu (\<lambda>c.
         seqM (modS (upd_cpu c (\<lambda>x. x\<lparr>c_proc := Some p\<rparr>))) (
         seqM (switchuvm (Some p)) (
         seqM (modS (upd_proc p (\<lambda>q. q\<lparr>p_state := RUNNING\<rparr>))) (
         seqM (modS (\<lambda>s. upd_proc p (account_wait (ticks s)) s)) (
         seqM (modS (\<lambda>s. upd_proc p (\<lambda>q. q\<lparr>p_snapticks := ticks s\<rparr>) s))
         (waitM Switched)))))))"

text \<open>Back from \<open>swtch\<close>, before the scan goes on with the next slot.\<close>

definition scheduler_back :: "('x vm_st_scheme, unit) prog" where
  "scheduler_back =
     seqM switchkvm
     (bindM mycpu (\<lambda>c. modS (upd_cpu c (\<lambda>x. x\<lparr>c_proc := None\<rparr>))))"

section \<open>The clock interrupt\<close>

text \<open>\<open>trap\<close> on a timer interrupt: the clock, and the decision to preempt (lab 6's policy).\<close>

definition clock_tick :: "('x proc_st_scheme, unit) prog" where
  "clock_tick =
     bindM cpuid (\<lambda>c.
     whenM (c = 0) (
       seqM (acquire L_ticks) (
       seqM (modS (\<lambda>s. s\<lparr>ticks := ticks s + 1\<rparr>)) (
       seqM (wakeup C_ticks)
       (release L_ticks)))))"

definition preempts :: "proc \<Rightarrow> bool" where
  "preempts p \<longleftrightarrow> \<not> (p_pid p mod 2 = 0) \<or> (p_rutime p mod 2 = 0 \<and> p_rutime p \<noteq> 0)"

definition preempt :: "('x proc_st_scheme, unit) prog" where
  "preempt =
     bindM myproc (\<lambda>mp.
     case mp of None \<Rightarrow> ret ()
     | Some p \<Rightarrow>
         bindM (getS (\<lambda>s. ptable s ! p)) (\<lambda>pr.
         whenM (p_state pr = RUNNING \<and> preempts pr) yield))"

section \<open>Creation, exit and reaping, as far as they concern the table\<close>

text \<open>The last lines of \<open>fork\<close> and \<open>userinit\<close>: the new process becomes runnable.\<close>

definition make_runnable :: "nat \<Rightarrow> ('x proc_st_scheme, unit) prog" where
  "make_runnable np =
     seqM (acquire L_ptable) (
     seqM (modS (upd_proc np (\<lambda>p. p\<lparr>p_state := RUNNABLE\<rparr>)))
     (release L_ptable))"

definition proc_chan :: "nat option \<Rightarrow> chan" where
  "proc_chan mp = (case mp of None \<Rightarrow> C_null | Some i \<Rightarrow> C_proc i)"

text \<open>The loop of \<open>exit\<close> that passes abandoned children to \<open>init\<close>.\<close>

fun reparent_loop :: "nat \<Rightarrow> nat \<Rightarrow> nat \<Rightarrow> ('x proc_st_scheme, unit) prog" where
  "reparent_loop 0 i me = ret ()"
| "reparent_loop (Suc n) i me =
     bindM (getS (\<lambda>s. ptable s ! i)) (\<lambda>p.
     bindM (getS initproc) (\<lambda>ip.
     seqM
       (whenM (p_parent p = Some me)
         (seqM (modS (upd_proc i (\<lambda>q. q\<lparr>p_parent := ip\<rparr>)))
          (whenM (p_state p = ZOMBIE) (wakeup1 (proc_chan ip)))))
       (reparent_loop n (Suc i) me)))"

text \<open>The part of \<open>exit\<close> under \<open>ptable.lock\<close>, to \<open>swtch\<close>.\<close>

definition exit_locked :: "nat \<Rightarrow> ('x proc_st_scheme, 'a) prog" where
  "exit_locked me =
     seqM (acquire L_ptable) (
     bindM (getS (\<lambda>s. p_parent (ptable s ! me))) (\<lambda>par.
     seqM (wakeup1 (proc_chan par)) (
     seqM (reparent_loop NPROC 0 me) (
     seqM (modS (upd_proc me (\<lambda>p. p\<lparr>p_state := ZOMBIE\<rparr>))) (
     seqM (modS (\<lambda>s. upd_proc me (account_run (ticks s)) s)) (
     seqM sched
     (panic ''zombie exit'')))))))"

text \<open>What \<open>wait\<close> leaves in the slot of a reaped child.\<close>

definition reap_slot :: "proc \<Rightarrow> proc" where
  "reap_slot p =
     p\<lparr>p_kstack := 0, p_pid := 0, p_parent := None, p_name := (p_name p)[0 := 0], p_killed := 0,
       p_state := UNUSED\<rparr>"

section \<open>Effects\<close>

definition switched :: "nat \<Rightarrow> 'x vm_st_scheme \<Rightarrow> 'x vm_st_scheme" where
  "switched p s =
     (let c = curcpu s; pr = ptable s ! p
      in s\<lparr>cpu_gdt := (cpu_gdt s)(c := (cpu_gdt s c)
               (SEG_TSS := SEG16 9 (ts_addr s c) (sizeof_taskstate - 1) 0\<lparr>sd_s := 0\<rparr>)),
           cpu_ts := (cpu_ts s)(c := (cpu_ts s c)
               \<lparr>ts_ss0 := push_bit 3 (seg_num SEG_KDATA), ts_esp0 := p_kstack pr + KSTACKSIZE, ts_iomb := 0xFFFF\<rparr>),
           task_reg := push_bit 3 (seg_num SEG_TSS), cr3 := V2P (p_pgdir pr)\<rparr>)"

lemma lockset_vm [simp]:
  "lockset S (s\<lparr>cpu_gdt := g\<rparr>) = lockset S s" "lockset S (s\<lparr>cpu_ts := ts\<rparr>) = lockset S s"
  "lockset S (s\<lparr>task_reg := r\<rparr>) = lockset S s" "lockset S (s\<lparr>cr3 := v\<rparr>) = lockset S s"
  "lockset S (s\<lparr>kpgdir := d\<rparr>) = lockset S s"
  by (simp_all add: lockset_def cpu_found_def curcpu_def)

lemma switched_sel [simp]:
  "lockset S (switched p s) = lockset S s" "ptable (switched p s) = ptable s" "ticks (switched p s) = ticks s"
  "cpus (switched p s) = cpus s" "curcpu (switched p s) = curcpu s" "nextpid (switched p s) = nextpid s"
  "mem (switched p s) = mem s" "cpu_found (switched p s) = cpu_found s" "if_flag (switched p s) = if_flag s"
  "initproc (switched p s) = initproc s"
  by (simp_all add: switched_def Let_def curcpu_def cpu_found_def)

lemma lockset_c_proc [simp]:
  "lockset S (upd_cpu i (\<lambda>x. x\<lparr>c_proc := v\<rparr>) s) = lockset S s"
proof -
  have "c_ncli (cpus (upd_cpu i (\<lambda>x. x\<lparr>c_proc := v\<rparr>) s) ! j) = c_ncli (cpus s ! j)" for j
    by (cases "i < length (cpus s)"; cases "i = j") (simp_all add: upd_cpu_def list_update_beyond)
  then show ?thesis by (simp add: lockset_def) (simp add: upd_cpu_def)
qed

lemma upd_cpu_sel [simp]:
  "ptable (upd_cpu i f s) = ptable s" "ticks (upd_cpu i f s) = ticks s" "nextpid (upd_cpu i f s) = nextpid s"
  "initproc (upd_cpu i f s) = initproc s"
  "cpus (upd_cpu i f s) = (cpus s)[i := f (cpus s ! i)]" "kpgdir (upd_cpu i f s) = kpgdir s"
  by (simp_all add: upd_cpu_def)

lemma pushed_more:
  "pushed (s\<lparr>cpu_gdt := g, cpu_ts := ts, task_reg := r, cr3 := v\<rparr>) =
   (pushed s)\<lparr>cpu_gdt := g, cpu_ts := ts, task_reg := r, cr3 := v\<rparr>"
  by (simp add: pushed_def upd_cpu_def curcpu_def readeflags_def)

lemma vm_fields_pushed [simp]:
  "cpu_gdt (pushed s) = cpu_gdt s" "cpu_ts (pushed s) = cpu_ts s" "ts_addr (pushed s) = ts_addr s"
  by (simp_all add: pushed_def upd_cpu_def)

lemma switchuvm_ok:
  fixes s :: "'x vm_st_scheme"
  assumes "lockset S s" "S \<noteq> {}" "p_kstack (ptable s ! p) \<noteq> 0" "p_pgdir (ptable s ! p) \<noteq> 0"
  shows "switchuvm (Some p) s = Ok () (switched p s)"
proof -
  have pp: "popped (pushed t) = t" if "lockset S t" for t :: "'x vm_st_scheme"
    using pushpop_held [OF that assms(2)] by (simp add: pushpop_def)
  have pc: "pushcli s = Ok () (pushed s)" "mycpu (pushed s) = Ok (curcpu s) (pushed s)"
    using pushcli_ok [OF locksetD(1) [OF assms(1)]] mycpu_ok [of "pushed s"] locksetD(1) [OF assms(1)] by auto
  have "lockset S (switched p s)" using assms(1) by simp
  moreover have "popcli (pushed (switched p s)) = Ok () (switched p s)"
    using popcli_ok [of "pushed (switched p s)"] pp [OF \<open>lockset S (switched p s)\<close>]
      locksetD(1,7) [OF \<open>lockset S (switched p s)\<close>] pushed_ncli_unat [OF \<open>lockset S (switched p s)\<close>] by simp
  moreover have "pushed (switched p s) =
      (pushed s)\<lparr>cpu_gdt := cpu_gdt (switched p s), cpu_ts := cpu_ts (switched p s),
        task_reg := push_bit 3 (seg_num SEG_TSS), cr3 := V2P (p_pgdir (ptable s ! p))\<rparr>"
    using pushed_more [where s = s] by (simp add: switched_def Let_def)
  ultimately show ?thesis
    using assms(3,4) pc
    by (simp add: switchuvm_def M_defs set_gdt_def upd_ts_def lcr3_def switched_def Let_def del: bit_push_bit_iff)
qed

lemma cpu0_ok: "lockset S s \<Longrightarrow> S \<noteq> {} \<Longrightarrow> mycpu s = Ok (curcpu s) s"
  by (rule mycpu_ok) (use locksetD(1,6) in auto)

definition ran :: "nat \<Rightarrow> 'x vm_st_scheme \<Rightarrow> 'x vm_st_scheme" where
  "ran p s =
     upd_proc p (\<lambda>q. (account_wait (ticks s) (q\<lparr>p_state := RUNNING\<rparr>))\<lparr>p_snapticks := ticks s\<rparr>)
       (switched p (upd_cpu (curcpu s) (\<lambda>x. x\<lparr>c_proc := Some p\<rparr>) s))"

lemma first_from_SomeD:
  assumes "first_from i P ps = Some j"
  shows "i \<le> j" "j < length ps" "P (ps ! j)" "\<And>k. i \<le> k \<Longrightarrow> k < j \<Longrightarrow> \<not> P (ps ! k)"
proof -
  from assms obtain k where k: "first_idx P (drop i ps) = Some k" "j = i + k"
    by (auto simp: first_from_def)
  note f = first_idx_SomeD [OF k(1)]
  show "i \<le> j" "j < length ps" "P (ps ! j)" using f k(2) by auto
  show "\<not> P (ps ! l)" if "i \<le> l" "l < j" for l
  proof -
    have "l - i < k" using that k(2) by simp
    then have "\<not> P (drop i ps ! (l - i))" using f by blast
    moreover have "drop i ps ! (l - i) = ps ! l" using that f k(2) by (subst nth_drop) auto
    ultimately show ?thesis by simp
  qed
qed

lemma first_from_None: "first_from i P ps = None \<longleftrightarrow> (\<forall>k < length ps. i \<le> k \<longrightarrow> \<not> P (ps ! k))"
proof -
  have "first_from i P ps = None \<longleftrightarrow> (\<forall>x \<in> set (drop i ps). \<not> P x)"
    by (simp add: first_from_def first_idx_None_iff)
  also have "\<dots> \<longleftrightarrow> (\<forall>k < length ps. i \<le> k \<longrightarrow> \<not> P (ps ! k))"
  proof
    assume "\<forall>x \<in> set (drop i ps). \<not> P x"
    moreover have "ps ! k \<in> set (drop i ps)" if "k < length ps" "i \<le> k" for k
      using that nth_mem [of "k - i" "drop i ps"] by simp
    ultimately show "\<forall>k < length ps. i \<le> k \<longrightarrow> \<not> P (ps ! k)" by blast
  qed (auto simp: in_set_conv_nth)
  finally show ?thesis .
qed

lemma scheduler_scan_pick:
  assumes "lockset {L_ptable} s" "first_from i (\<lambda>p. p_state p = RUNNABLE) (ptable s) = Some p"
    and "p_kstack (ptable s ! p) \<noteq> 0" "p_pgdir (ptable s ! p) \<noteq> 0"
  shows "scheduler_scan i s = Wait Switched (ran p s)"
proof -
  let ?t = "upd_cpu (curcpu s) (\<lambda>x. x\<lparr>c_proc := Some p\<rparr>) s"
  have "switchuvm (Some p) ?t = Ok () (switched p ?t)"
    by (rule switchuvm_ok [of "{L_ptable}"]) (use assms in simp_all)
  then show ?thesis
    using cpu0_ok [OF assms(1)] assms(2) first_from_SomeD(2) [OF assms(2)]
    by (simp add: scheduler_scan_def M_defs ran_def comp_def)
qed

lemma scheduler_scan_panic:
  assumes "lockset {L_ptable} s" "first_from i (\<lambda>p. p_state p = RUNNABLE) (ptable s) = Some p"
    and "p_kstack (ptable s ! p) = 0 \<or> p_pgdir (ptable s ! p) = 0"
  shows "\<exists>e. scheduler_scan i s = Panic e"
  using cpu0_ok [OF assms(1)] assms(2,3)
  by (auto simp: scheduler_scan_def M_defs switchuvm_def)

lemma scheduler_scan_end:
  assumes "lockset {L_ptable} s" "first_from i (\<lambda>p. p_state p = RUNNABLE) (ptable s) = None"
  shows "scheduler_scan i s = Ok () (rel L_ptable s)"
  using release_ok [OF assms(1)] assms(2) by (simp add: scheduler_scan_def M_defs)

definition came_back :: "'x vm_st_scheme \<Rightarrow> 'x vm_st_scheme" where
  "came_back s = upd_cpu (curcpu s) (\<lambda>x. x\<lparr>c_proc := None\<rparr>) (s\<lparr>cr3 := V2P (kpgdir s)\<rparr>)"

lemma curcpu_cr3 [simp]: "curcpu (s\<lparr>cr3 := v\<rparr>) = curcpu s"
  by (simp add: curcpu_def)

lemma scheduler_back_ok:
  assumes "lockset {L_ptable} s"
  shows "scheduler_back s = Ok () (came_back s)"
proof -
  let ?t = "s\<lparr>cr3 := V2P (kpgdir s)\<rparr>"
  have "lockset {L_ptable} ?t" using assms by simp
  then have "mycpu ?t = Ok (curcpu ?t) ?t" by (rule cpu0_ok) simp
  then show ?thesis by (simp add: scheduler_back_def switchkvm_def lcr3_def M_defs came_back_def)
qed

definition ticked :: "'x proc_st_scheme \<Rightarrow> 'x proc_st_scheme" where
  "ticked s = rel L_ticks (woken C_ticks ((acq L_ticks s)\<lparr>ticks := ticks s + 1\<rparr>))"

lemma clock_tick_ok:
  assumes "lockset {} s" "\<not> if_flag s" "curcpu s = 0"
  shows "clock_tick s = Ok () (ticked s)" "lockset {} (ticked s)"
proof -
  let ?a = "(acq L_ticks s)\<lparr>ticks := ticks s + 1\<rparr>"
  have a: "lockset {L_ticks} ?a" using lockset_acq [OF assms(1), of L_ticks] by simp
  then have w: "lockset {L_ticks} (woken C_ticks ?a)" by (rule lockset_woken) auto
  have "mycpu s = Ok 0 s" using mycpu_ok [OF locksetD(1) [OF assms(1)] assms(2)] assms(3) by simp
  moreover have "wakeup C_ticks ?a = Ok () (woken C_ticks ?a)" using a by (rule wakeup_ok) auto
  moreover have "release L_ticks (woken C_ticks ?a) = Ok () (ticked s)"
    using release_ok [OF w] by (simp add: ticked_def)
  ultimately show "clock_tick s = Ok () (ticked s)"
    using acquire_ok [OF assms(1), of L_ticks] by (simp add: clock_tick_def cpuid_def M_defs)
  show "lockset {} (ticked s)" using lockset_rel [OF w, of L_ticks] by (simp add: ticked_def)
qed

lemma curcpu_ticks [simp]: "curcpu (s\<lparr>ticks := k\<rparr>) = curcpu s"
  by (simp add: curcpu_def)

lemma ticked_sel [simp]:
  "ticks (ticked s) = ticks s + 1" "ptable (ticked s) = map (awaken C_ticks (ticks s + 1)) (ptable s)"
  "curcpu (ticked s) = curcpu s" "c_proc (cpus (ticked s) ! i) = c_proc (cpus s ! i)"
  by (simp_all add: ticked_def)

definition readied :: "nat \<Rightarrow> 'x proc_st_scheme \<Rightarrow> 'x proc_st_scheme" where
  "readied np s = rel L_ptable (upd_proc np (\<lambda>p. p\<lparr>p_state := RUNNABLE\<rparr>) (acq L_ptable s))"

lemma make_runnable_ok:
  assumes "lockset S s" "L_ptable \<notin> S" "card S < 1000"
  shows "make_runnable np s = Ok () (readied np s)" "lockset S (readied np s)"
proof -
  have a: "lockset (insert L_ptable S) (upd_proc np f (acq L_ptable s))" for f
    using lockset_acq [OF assms] by simp
  show "make_runnable np s = Ok () (readied np s)"
    using acquire_ok [OF assms(1,2)] release_ok [OF a, of L_ptable]
    by (simp add: make_runnable_def M_defs readied_def)
  show "lockset S (readied np s)"
    using lockset_rel [OF a, of L_ptable] assms(2) by (simp add: readied_def)
qed

section \<open>Time accounting\<close>

text \<open>
  The waiting and running time of a process at time \<open>tck\<close>: what is recorded, plus the ticks since
  the last snapshot, which the code adds when the process leaves its state. A process that is
  being created counts as waiting.
\<close>

definition acct :: "u32 \<Rightarrow> proc \<Rightarrow> u32 \<times> u32" where
  "acct tck p =
     (case p_state p of
        RUNNABLE \<Rightarrow> (p_wtime p + (tck - p_snapticks p), p_rutime p)
      | EMBRYO \<Rightarrow> (p_wtime p + (tck - p_snapticks p), p_rutime p)
      | RUNNING \<Rightarrow> (p_wtime p, p_rutime p + (tck - p_snapticks p))
      | _ \<Rightarrow> (p_wtime p, p_rutime p))"

text \<open>The reference: at every tick, count one for each process by its state.\<close>

definition count_one :: "procstate \<Rightarrow> u32 \<times> u32 \<Rightarrow> u32 \<times> u32" where
  "count_one st wr =
     (if st = RUNNABLE \<or> st = EMBRYO then (fst wr + 1, snd wr)
      else if st = RUNNING then (fst wr, snd wr + 1) else wr)"

text \<open>Changes of the table that do not change the accounts, the running process or the free slots.\<close>

definition quiet :: "u32 \<Rightarrow> proc list \<Rightarrow> proc list \<Rightarrow> bool" where
  "quiet tck ps qs \<longleftrightarrow>
     length qs = length ps \<and>
     (\<forall>i < length ps. acct tck (qs ! i) = acct tck (ps ! i) \<and>
        (p_state (qs ! i) = RUNNING \<longleftrightarrow> p_state (ps ! i) = RUNNING) \<and>
        (p_state (qs ! i) = UNUSED \<longleftrightarrow> p_state (ps ! i) = UNUSED))"

lemma quiet_refl [simp]: "quiet tck ps ps"
  by (simp add: quiet_def)

lemma quiet_trans: "quiet tck ps qs \<Longrightarrow> quiet tck qs rs \<Longrightarrow> quiet tck ps rs"
  by (simp add: quiet_def)

lemma quiet_awaken: "quiet tck ps (map (awaken ch tck) ps)"
  by (auto simp: quiet_def awaken_def acct_def split: procstate.splits)

lemma quiet_update:
  assumes "i < length ps" "acct tck v = acct tck (ps ! i)" "p_state v = RUNNING \<longleftrightarrow> p_state (ps ! i) = RUNNING"
    and "p_state v = UNUSED \<longleftrightarrow> p_state (ps ! i) = UNUSED"
  shows "quiet tck ps (ps[i := v])"
  using assms by (auto simp: quiet_def nth_list_update)

lemma quiet_parent: "quiet tck ps (ps[i := (ps ! i)\<lparr>p_parent := v\<rparr>])"
proof (cases "i < length ps")
  case True
  then show ?thesis by (rule quiet_update) (simp_all add: acct_def split: procstate.splits)
qed (simp add: list_update_beyond)

lemma quiet_killed: "quiet tck ps (ps[i := mark_killed tck (ps ! i)])"
proof (cases "i < length ps")
  case True
  then show ?thesis
    by (rule quiet_update) (auto simp: acct_def mark_killed_def Let_def split: procstate.splits)
qed (simp add: list_update_beyond)

lemma acct_tick:
  "acct (tck + 1) p = count_one (p_state p) (acct tck p)"
  by (simp add: acct_def count_one_def split: procstate.splits)

lemma reparent_loop_quiet:
  "\<exists>ps. reparent_loop n i me s = Ok () (s\<lparr>ptable := ps\<rparr>) \<and> quiet (ticks s) (ptable s) ps"
proof (induction n arbitrary: i s)
  case 0
  then show ?case by (auto simp: ret_def intro!: exI [of _ "ptable s"])
next
  case (Suc n)
  define ps1 where "ps1 =
    (if p_parent (ptable s ! i) = Some me then
       (let qs = (ptable s)[i := (ptable s ! i)\<lparr>p_parent := initproc s\<rparr>]
        in if p_state (ptable s ! i) = ZOMBIE then map (awaken (proc_chan (initproc s)) (ticks s)) qs else qs)
     else ptable s)"
  have q1: "quiet (ticks s) (ptable s) ps1"
    using quiet_parent quiet_trans [OF quiet_parent quiet_awaken]
    by (auto simp: ps1_def Let_def simp del: map_update)
  from Suc.IH [of "Suc i" "s\<lparr>ptable := ps1\<rparr>"] obtain ps where
    ps: "reparent_loop n (Suc i) me (s\<lparr>ptable := ps1\<rparr>) = Ok () (s\<lparr>ptable := ps\<rparr>)" "quiet (ticks s) ps1 ps"
    by auto
  have "reparent_loop (Suc n) i me s = reparent_loop n (Suc i) me (s\<lparr>ptable := ps1\<rparr>)"
    by (simp add: M_defs wakeup1_def upd_proc_def ps1_def Let_def)
  with ps(1) quiet_trans [OF q1 ps(2)] show ?case by auto
qed

section \<open>The machine as a step relation\<close>

text \<open>
  Who has the CPU: the scheduler, about to scan from a slot; a process just switched to, still
  inside \<open>swtch\<close>'s caller; or a process running with no kernel lock held. The labels say
  whether the clock ticked and which slot was newly allocated.
\<close>

datatype ctl = Sch nat | Fresh nat | Run nat

datatype label = Tau | Tick | Birth nat

text \<open>Entering a trap: interrupts are off in the handler; \<open>iret\<close> restores the flag.\<close>

definition trap_entry :: "'x mach_scheme \<Rightarrow> 'x mach_scheme" where
  "trap_entry s = s\<lparr>if_flag := False\<rparr>"

inductive kstep :: "ctl \<times> 'x vm_st_scheme \<Rightarrow> label \<Rightarrow> ctl \<times> 'x vm_st_scheme \<Rightarrow> bool" where
  pick: "scheduler_scan i s = Wait Switched t \<Longrightarrow> c_proc (mycpu_of t) = Some p \<Longrightarrow>
    kstep (Sch i, s) Tau (Fresh p, t)"
| round: "scheduler_scan i s = Ok () t \<Longrightarrow> scheduler_begin t = Ok () u \<Longrightarrow> kstep (Sch i, s) Tau (Sch 0, u)"
| idle_tick: "scheduler_scan i s = Ok () t \<Longrightarrow> clock_tick (trap_entry t) = Ok () u \<Longrightarrow>
    scheduler_begin u = Ok () v \<Longrightarrow> kstep (Sch i, s) Tick (Sch 0, v)"
| resume: "yield_resume intena s = Ok () t \<Longrightarrow> kstep (Fresh p, s) Tau (Run p, t)"
| timer: "clock_tick (trap_entry s) = Ok () t \<Longrightarrow> preempt t = Ok () u \<Longrightarrow> kstep (Run p, s) Tick (Run p, u\<lparr>if_flag := fl\<rparr>)"
| timer_yield: "clock_tick (trap_entry s) = Ok () t \<Longrightarrow> preempt t = Wait Switched u \<Longrightarrow>
    scheduler_back u = Ok () v \<Longrightarrow> kstep (Run p, s) Tick (Sch (Suc p), v)"
| sleeps: "acquire lk s = Ok () t \<Longrightarrow> sleep ch lk t = (Wait Switched u :: (waiting, unit, _) outcome) \<Longrightarrow>
    scheduler_back u = Ok () v \<Longrightarrow> kstep (Run p, s) Tau (Sch (Suc p), v)"
| wakes: "wakeup ch s = Ok () t \<Longrightarrow> kstep (Run p, s) Tau (Run p, t)"
| kills: "kill pid s = Ok r t \<Longrightarrow> kstep (Run p, s) Tau (Run p, t)"
| births: "allocproc s = Ok (Some np) t \<Longrightarrow> kstep (Run p, s) (Birth np) (Run p, t)"
| no_birth: "allocproc s = Ok None t \<Longrightarrow> kstep (Run p, s) Tau (Run p, t)"
| ready: "p_state (ptable s ! np) = EMBRYO \<Longrightarrow> make_runnable np s = Ok () t \<Longrightarrow> kstep (Run p, s) Tau (Run p, t)"
| abandon: "p_state (ptable s ! np) = EMBRYO \<Longrightarrow>
    kstep (Run p, s) Tau (Run p, upd_proc np (\<lambda>q. q\<lparr>p_kstack := 0, p_state := UNUSED\<rparr>) s)"
| exits: "exit_locked p s = (Wait Switched t :: (waiting, unit, _) outcome) \<Longrightarrow> scheduler_back t = Ok () u \<Longrightarrow>
    kstep (Run p, s) Tau (Sch (Suc p), u)"
| reaps: "p_state (ptable s ! i) = ZOMBIE \<Longrightarrow> kstep (Run p, s) Tau (Run p, upd_proc i reap_slot s)"

definition running_is :: "nat option \<Rightarrow> proc list \<Rightarrow> bool" where
  "running_is r ps \<longleftrightarrow> length ps = NPROC \<and> (\<forall>i < NPROC. p_state (ps ! i) = RUNNING \<longleftrightarrow> r = Some i) \<and>
     (case r of None \<Rightarrow> True | Some p \<Rightarrow> p < NPROC)"

definition kinv :: "ctl \<Rightarrow> 'x vm_st_scheme \<Rightarrow> bool" where
  "kinv c s \<longleftrightarrow>
     curcpu s = 0 \<and>
     (case c of
        Sch i \<Rightarrow> lockset {L_ptable} s \<and> c_proc (cpus s ! 0) = None \<and> running_is None (ptable s)
      | Fresh p \<Rightarrow> lockset {L_ptable} s \<and> c_proc (cpus s ! 0) = Some p \<and> running_is (Some p) (ptable s)
      | Run p \<Rightarrow> lockset {} s \<and> c_proc (cpus s ! 0) = Some p \<and> running_is (Some p) (ptable s))"

definition tbl_step :: "label \<Rightarrow> 'x vm_st_scheme \<Rightarrow> 'x vm_st_scheme \<Rightarrow> bool" where
  "tbl_step l s t \<longleftrightarrow>
     (\<forall>i < NPROC. p_state (ptable t ! i) \<noteq> UNUSED \<longrightarrow>
        (if l = Birth i then acct (ticks t) (ptable t ! i) = (0, 0)
         else p_state (ptable s ! i) \<noteq> UNUSED \<and>
           acct (ticks t) (ptable t ! i) =
             (if l = Tick then count_one (p_state (ptable s ! i)) (acct (ticks s) (ptable s ! i))
              else acct (ticks s) (ptable s ! i))))"

lemma quiet_running_is: "quiet tck ps qs \<Longrightarrow> running_is r ps \<Longrightarrow> running_is r qs"
  by (simp add: quiet_def running_is_def)

lemma quiet_tbl_step:
  "quiet (ticks s) (ptable s) (ptable t) \<Longrightarrow> ticks t = ticks s \<Longrightarrow> length (ptable s) = NPROC \<Longrightarrow> tbl_step Tau s t"
  by (simp add: quiet_def tbl_step_def)

text \<open>One slot changes and the accounts do not.\<close>

lemma update_tbl_step:
  assumes "ptable t = (ptable s)[p := v]" "ticks t = ticks s" "length (ptable s) = NPROC"
    and "p_state v \<noteq> UNUSED \<Longrightarrow> p_state (ptable s ! p) \<noteq> UNUSED \<and> acct (ticks s) v = acct (ticks s) (ptable s ! p)"
  shows "tbl_step Tau s t"
  using assms by (cases "p < NPROC") (auto simp: tbl_step_def nth_list_update list_update_beyond)

lemma running_is_update:
  assumes "running_is r ps" "p < NPROC" "p_state v = RUNNING \<longleftrightarrow> r' = Some p"
    and "\<And>i. i < NPROC \<Longrightarrow> i \<noteq> p \<Longrightarrow> r = Some i \<longleftrightarrow> r' = Some i" "\<And>q. r' = Some q \<Longrightarrow> q < NPROC"
  shows "running_is r' (ps[p := v])"
  using assms by (auto simp: running_is_def nth_list_update split: option.splits)

lemma kinv_length: "kinv c s \<Longrightarrow> length (ptable s) = NPROC"
  by (auto simp: kinv_def running_is_def split: ctl.splits)

lemma cpu0_c_proc:
  fixes s :: "'x vm_st_scheme"
  shows "lockset S s \<Longrightarrow> curcpu s = 0 \<Longrightarrow> c_proc (cpus (upd_cpu 0 (\<lambda>x. x\<lparr>c_proc := v\<rparr>) s) ! 0) = v"
  using curcpu_less [of s] locksetD(1) [of S s] by simp

lemma upd_cpu_curcpu [simp]: "curcpu (upd_cpu i (\<lambda>x. x\<lparr>c_proc := v\<rparr>) s) = curcpu s"
  by (simp add: upd_cpu_found)

lemma cpus_vm [simp]: "cpus (s\<lparr>cr3 := v\<rparr>) = cpus s" "ptable (s\<lparr>cr3 := v\<rparr>) = ptable s" "ticks (s\<lparr>cr3 := v\<rparr>) = ticks s"
  by simp_all

lemma step_pick:
  assumes "kinv (Sch i) s" "scheduler_scan i s = Wait Switched t"
  shows "\<exists>p. kinv (Fresh p) t \<and> c_proc (mycpu_of t) = Some p \<and> tbl_step Tau s t"
proof -
  have k: "lockset {L_ptable} s" "curcpu s = 0" "running_is None (ptable s)"
    using assms(1) by (auto simp: kinv_def)
  obtain p where p: "first_from i (\<lambda>p. p_state p = RUNNABLE) (ptable s) = Some p"
    using scheduler_scan_end [OF k(1), of i] assms(2)
    by (cases "first_from i (\<lambda>p. p_state p = RUNNABLE) (ptable s)") auto
  have t: "t = ran p s"
    using scheduler_scan_pick [OF k(1) p] scheduler_scan_panic [OF k(1) p] assms(2) by auto
  note pl = first_from_SomeD(2,3) [OF p]
  have len: "length (ptable s) = NPROC" using kinv_length [OF assms(1)] .
  have pt: "ptable t = (ptable s)[p := (account_wait (ticks s) ((ptable s ! p)\<lparr>p_state := RUNNING\<rparr>))\<lparr>p_snapticks := ticks s\<rparr>]"
    "ticks t = ticks s"
    by (simp_all add: t ran_def)
  have "tbl_step Tau s t"
    by (rule update_tbl_step [OF pt len]) (use pl in \<open>simp add: acct_def account_wait_def\<close>)
  moreover have "running_is (Some p) (ptable t)"
    unfolding pt by (rule running_is_update [OF k(3)]) (use pl len in \<open>auto simp: account_wait_def\<close>)
  moreover have "lockset {L_ptable} t" "curcpu t = 0" "c_proc (cpus t ! 0) = Some p"
    using k cpu0_c_proc [OF k(1,2), of "Some p"] by (simp_all add: t ran_def)
  ultimately show ?thesis by (auto simp: kinv_def)
qed

lemma running_is_rel [simp]: "ptable s = ps \<Longrightarrow> running_is r (ptable (rel l s)) = running_is r ps"
  by simp

lemma if_flag_frame [simp]:
  "lockset {} (s\<lparr>if_flag := b\<rparr>) = lockset {} s"
  by (simp add: lockset_def)

definition begun :: "'x vm_st_scheme \<Rightarrow> 'x vm_st_scheme" where
  "begun s = acq L_ptable (s\<lparr>if_flag := True\<rparr>)"

lemma scheduler_begin_ok:
  assumes "lockset {} s"
  shows "scheduler_begin s = Ok () (begun s)" "lockset {L_ptable} (begun s)"
proof -
  have l: "lockset {} (s\<lparr>if_flag := True\<rparr>)" using assms by simp
  show "scheduler_begin s = Ok () (begun s)"
    using acquire_ok [OF l, of L_ptable] by (simp add: scheduler_begin_def sti_def M_defs begun_def)
  show "lockset {L_ptable} (begun s)"
    using lockset_acq [OF l, of L_ptable] by (simp add: begun_def)
qed

lemma begun_sel [simp]:
  "ptable (begun s) = ptable s" "ticks (begun s) = ticks s" "curcpu (begun s) = curcpu s"
  "c_proc (cpus (begun s) ! i) = c_proc (cpus s ! i)"
  by (simp_all add: begun_def)

lemma scan_end:
  assumes "kinv (Sch i) s" "scheduler_scan i s = Ok () t"
  shows "t = rel L_ptable s" "lockset {} t" "curcpu t = 0" "c_proc (cpus t ! 0) = None"
    "running_is None (ptable t)" "ptable t = ptable s" "ticks t = ticks s"
proof -
  have k: "lockset {L_ptable} s" "curcpu s = 0" "running_is None (ptable s)" "c_proc (cpus s ! 0) = None"
    using assms(1) by (auto simp: kinv_def)
  show t: "t = rel L_ptable s"
  proof (cases "first_from i (\<lambda>p. p_state p = RUNNABLE) (ptable s)")
    case None
    with scheduler_scan_end [OF k(1)] assms(2) show ?thesis by auto
  next
    case (Some p)
    then show ?thesis
      using scheduler_scan_pick [OF k(1) Some] scheduler_scan_panic [OF k(1) Some] assms(2) by auto
  qed
  show "lockset {} t" using lockset_rel [OF k(1), of L_ptable] t by simp
  show "curcpu t = 0" "c_proc (cpus t ! 0) = None" "running_is None (ptable t)" "ptable t = ptable s" "ticks t = ticks s"
    using k t by simp_all
qed

lemma step_round:
  assumes "kinv (Sch i) s" "scheduler_scan i s = Ok () t" "scheduler_begin t = Ok () u"
  shows "kinv (Sch 0) u \<and> tbl_step Tau s u"
proof -
  note e = scan_end [OF assms(1,2)]
  have "u = begun t" "lockset {L_ptable} u"
    using scheduler_begin_ok [OF e(2)] assms(3) by auto
  then show ?thesis
    using e kinv_length [OF assms(1)] by (auto simp: kinv_def intro!: quiet_tbl_step)
qed

lemma tick_tbl:
  assumes "length (ptable s) = NPROC" "ptable t = map (awaken ch (ticks s + 1)) (ptable s)" "ticks t = ticks s + 1"
  shows "tbl_step Tick s t"
proof -
  have "quiet (ticks s + 1) (ptable s) (ptable t)" unfolding assms(2) by (rule quiet_awaken)
  then show ?thesis using assms by (simp add: tbl_step_def quiet_def acct_tick)
qed

lemma trap_entry_sel [simp]:
  "lockset {} (trap_entry s) = lockset {} s" "\<not> if_flag (trap_entry s)" "curcpu (trap_entry s) = curcpu s"
  "ptable (trap_entry s) = ptable s" "ticks (trap_entry s) = ticks s" "cpus (trap_entry s) = cpus s"
  by (simp_all add: trap_entry_def)

lemma step_idle_tick:
  assumes "kinv (Sch i) s" "scheduler_scan i s = Ok () t" "clock_tick (trap_entry t) = Ok () u"
    and "scheduler_begin u = Ok () v"
  shows "kinv (Sch 0) v \<and> tbl_step Tick s v"
proof -
  note e = scan_end [OF assms(1,2)]
  have u: "u = ticked (trap_entry t)" "lockset {} u"
    using clock_tick_ok [of "trap_entry t"] e(2,3) assms(3) by auto
  have v: "v = begun u" "lockset {L_ptable} v"
    using scheduler_begin_ok [OF u(2)] assms(4) by auto
  have "running_is None (ptable v)"
    using e(5,6) quiet_running_is [OF quiet_awaken] by (simp add: u v(1))
  then show ?thesis
    using e u v kinv_length [OF assms(1)] by (auto simp: kinv_def intro!: tick_tbl)
qed

lemma yield_resume_ok:
  fixes s :: "'x vm_st_scheme"
  assumes "lockset {L_ptable} s" "yield_resume intena s = Ok () t"
  shows "lockset {} t" "ptable t = ptable s" "ticks t = ticks s" "curcpu t = curcpu s"
    "c_proc (cpus t ! i) = c_proc (cpus s ! i)"
proof -
  let ?u = "upd_cpu (curcpu s) (\<lambda>x. x\<lparr>c_intena := intena\<rparr>) s"
  have "c_ncli (cpus ?u ! j) = c_ncli (cpus s ! j)" for j
    by (cases "curcpu s < length (cpus s)"; cases "curcpu s = j") (simp_all add: upd_cpu_def list_update_beyond)
  then have u: "lockset {L_ptable} ?u"
    using assms(1) by (simp add: lockset_def) (simp add: upd_cpu_def)
  have cp: "c_proc (cpus ?u ! j) = c_proc (cpus s ! j)" for j
    by (cases "curcpu s < length (cpus s)"; cases "curcpu s = j") (simp_all add: upd_cpu_def list_update_beyond)
  have t: "t = rel L_ptable ?u"
    using assms(2) cpu0_ok [OF assms(1)] release_ok [OF u, of L_ptable]
    by (simp add: yield_resume_def sched_resume_def M_defs)
  show "lockset {} t" using lockset_rel [OF u, of L_ptable] t by simp
  show "ptable t = ptable s" "ticks t = ticks s" "curcpu t = curcpu s"
    "c_proc (cpus t ! i) = c_proc (cpus s ! i)"
    using t cp by (simp_all del: upd_cpu_sel(5))
qed

lemma step_resume:
  assumes "kinv (Fresh p) s" "yield_resume intena s = Ok () t"
  shows "kinv (Run p) t \<and> tbl_step Tau s t"
proof -
  have k: "lockset {L_ptable} s" using assms(1) by (simp add: kinv_def)
  note y = yield_resume_ok [OF k assms(2)]
  show ?thesis
    using assms(1) y kinv_length [OF assms(1)] by (auto simp: kinv_def intro!: quiet_tbl_step)
qed

lemma back_kinv:
  assumes "lockset {L_ptable} u" "curcpu u = 0" "running_is None (ptable u)" "scheduler_back u = Ok () v"
  shows "kinv (Sch i) v" "ptable v = ptable u" "ticks v = ticks u"
proof -
  have v: "v = came_back u" using scheduler_back_ok [OF assms(1)] assms(4) by simp
  have "lockset {L_ptable} (u\<lparr>cr3 := V2P (kpgdir u)\<rparr>)" using assms(1) by simp
  from cpu0_c_proc [OF this, of None] have "c_proc (cpus v ! 0) = None"
    using assms(2) by (simp add: v came_back_def)
  then show "kinv (Sch i) v" using assms by (simp add: kinv_def v came_back_def)
  show "ptable v = ptable u" "ticks v = ticks u" by (simp_all add: v came_back_def)
qed

lemma preempt_cases:
  fixes t :: "'x vm_st_scheme"
  assumes "lockset {} t" "c_proc (mycpu_of t) = Some p" "p < length (ptable t)"
  shows "preempt t =
    (if p_state (ptable t ! p) = RUNNING \<and> preempts (ptable t ! p)
     then Wait Switched (yielded p (pushpop t)) else Ok () (pushpop t))"
proof -
  have "lockset {} (pushpop t)" by (rule lockset_pushpop [OF assms(1)])
  then have "yield (pushpop t) = Wait Switched (yielded p (pushpop t))"
    by (rule yield_ok) (use assms in simp_all)
  then show ?thesis
    using myproc_ok [OF assms(1)] assms(2) by (simp add: preempt_def M_defs)
qed

lemma timer_state:
  assumes "kinv (Run p) s" "clock_tick (trap_entry s) = Ok () t"
  shows "t = ticked (trap_entry s)" "lockset {} t" "curcpu t = 0" "c_proc (cpus t ! 0) = Some p"
    "running_is (Some p) (ptable t)" "p < NPROC" "length (ptable t) = NPROC" "tbl_step Tick s t"
proof -
  have k: "lockset {} s" "curcpu s = 0" "running_is (Some p) (ptable s)" "c_proc (cpus s ! 0) = Some p"
    using assms(1) by (auto simp: kinv_def)
  show t: "t = ticked (trap_entry s)" "lockset {} t"
    using clock_tick_ok [of "trap_entry s"] k assms(2) by auto
  show "curcpu t = 0" "c_proc (cpus t ! 0) = Some p" using k t by simp_all
  show "running_is (Some p) (ptable t)"
    using k(3) quiet_running_is [OF quiet_awaken] by (simp add: t(1))
  show "p < NPROC" using k(3) by (simp add: running_is_def)
  show "length (ptable t) = NPROC" using k(3) t by (simp add: running_is_def)
  show "tbl_step Tick s t" by (rule tick_tbl [where ch = C_ticks]) (use k t in \<open>simp_all add: running_is_def\<close>)
qed

lemma step_timer:
  assumes "kinv (Run p) s" "clock_tick (trap_entry s) = Ok () t" "preempt t = Ok () u"
  shows "kinv (Run p) (u\<lparr>if_flag := fl\<rparr>) \<and> tbl_step Tick s (u\<lparr>if_flag := fl\<rparr>)"
proof -
  note t = timer_state [OF assms(1,2)]
  have "u = pushpop t"
    using preempt_cases [OF t(2), of p] t assms(3) by (auto split: if_splits)
  then show ?thesis
    using t lockset_pushpop [OF t(2)] by (auto simp: kinv_def tbl_step_def)
qed

lemma tbl_step_trans: "tbl_step l s t \<Longrightarrow> tbl_step Tau t u \<Longrightarrow> tbl_step l s u"
  by (auto simp: tbl_step_def)

lemma yielded_sel [simp]:
  "ticks (yielded p s) = ticks s" "curcpu (yielded p s) = curcpu s"
  "ptable (yielded p s) = (ptable s)[p := (account_run (ticks s) ((ptable s ! p)\<lparr>p_state := RUNNABLE\<rparr>))\<lparr>p_snapticks := ticks s\<rparr>]"
  by (simp_all add: yielded_def)

lemma lockset_yielded: "lockset {} s \<Longrightarrow> lockset {L_ptable} (yielded p s)"
  using lockset_acq [OF lockset_pushpop, of "{}" s L_ptable] by (simp add: yielded_def)

lemma tbl_step_vm: "ptable v = ptable u \<Longrightarrow> ticks v = ticks u \<Longrightarrow> tbl_step l s u \<Longrightarrow> tbl_step l s v"
  by (simp add: tbl_step_def)

lemma step_timer_yield:
  assumes "kinv (Run p) s" "clock_tick (trap_entry s) = Ok () t" "preempt t = Wait Switched u"
    and "scheduler_back u = Ok () v"
  shows "kinv (Sch (Suc p)) v \<and> tbl_step Tick s v"
proof -
  note t = timer_state [OF assms(1,2)]
  have u: "u = yielded p (pushpop t)" and run: "p_state (ptable t ! p) = RUNNING"
    using preempt_cases [OF t(2), of p] t assms(3) by (auto split: if_splits)
  have ls: "lockset {L_ptable} u" unfolding u by (rule lockset_yielded [OF lockset_pushpop [OF t(2)]])
  have ri: "running_is None (ptable u)"
    unfolding u by (simp, rule running_is_update [OF t(5)]) (use t(6) in \<open>auto simp: account_run_def\<close>)
  have pt: "ptable u = (ptable t)[p := (account_run (ticks t) ((ptable t ! p)\<lparr>p_state := RUNNABLE\<rparr>))\<lparr>p_snapticks := ticks t\<rparr>]"
    "ticks u = ticks t"
    by (simp_all add: u)
  have "tbl_step Tau t u"
    by (rule update_tbl_step [OF pt t(7)]) (use run in \<open>simp add: account_run_def acct_def\<close>)
  then have "tbl_step Tick s u" by (rule tbl_step_trans [OF t(8)])
  moreover note b = back_kinv [OF ls _ ri assms(4)]
  ultimately show ?thesis using t(3) tbl_step_vm [of v u] by (simp add: u)
qed

lemma slept_sel [simp]:
  "ticks (slept p ch lk s) = ticks s" "curcpu (slept p ch lk s) = curcpu s"
  "ptable (slept p ch lk s) = (ptable s)[p := account_run (ticks s) ((ptable s ! p)\<lparr>p_chan := ch, p_state := SLEEPING\<rparr>)]"
  by (simp_all add: slept_def)

lemma step_sleeps:
  assumes "kinv (Run p) s" "acquire lk s = Ok () t" "sleep ch lk t = (Wait Switched u :: (waiting, unit, _) outcome)"
    and "scheduler_back u = Ok () v"
  shows "kinv (Sch (Suc p)) v \<and> tbl_step Tau s v"
proof -
  have k: "lockset {} s" "curcpu s = 0" "running_is (Some p) (ptable s)" "c_proc (cpus s ! 0) = Some p"
    using assms(1) by (auto simp: kinv_def)
  have t: "t = acq lk s" "lockset {lk} t"
    using acquire_ok [OF k(1), of lk] lockset_acq [OF k(1), of lk] assms(2) by auto
  have p: "p < NPROC" "length (ptable s) = NPROC" "p_state (ptable s ! p) = RUNNING"
    using k(3) by (auto simp: running_is_def)
  have u: "u = slept p ch lk t"
    using k p assms(3) t by (simp add: sleep_ok [where p = p])
  have ls: "lockset {L_ptable} u" unfolding u by (rule lockset_slept [OF t(2)])
  have ri: "running_is None (ptable u)"
    unfolding u t(1) by (simp, rule running_is_update [OF k(3)]) (use p in \<open>auto simp: account_run_def\<close>)
  have pt: "ptable u = (ptable s)[p := account_run (ticks s) ((ptable s ! p)\<lparr>p_chan := ch, p_state := SLEEPING\<rparr>)]"
    "ticks u = ticks s"
    by (simp_all add: u t(1))
  have "tbl_step Tau s u"
    by (rule update_tbl_step [OF pt p(2)]) (use p in \<open>simp add: account_run_def acct_def\<close>)
  moreover note b = back_kinv [OF ls _ ri assms(4)]
  ultimately show ?thesis using k(2) tbl_step_vm [of v u] by (simp add: u t(1))
qed

lemma step_wakes:
  assumes "kinv (Run p) s" "wakeup ch s = Ok () t"
  shows "kinv (Run p) t \<and> tbl_step Tau s t"
proof -
  have k: "lockset {} s" "running_is (Some p) (ptable s)" using assms(1) by (auto simp: kinv_def)
  have t: "t = woken ch s" "lockset {} t"
    using wakeup_ok [OF k(1), of ch] lockset_woken [OF k(1), of ch] assms(2) by auto
  then show ?thesis
    using assms(1) quiet_running_is [OF quiet_awaken k(2)] kinv_length [OF assms(1)]
    by (auto simp: kinv_def intro!: quiet_tbl_step quiet_awaken)
qed

lemma killed_state_sel [simp]:
  "ticks (killed_state pid s) = ticks s" "curcpu (killed_state pid s) = curcpu s"
  "c_proc (cpus (killed_state pid s) ! i) = c_proc (cpus s ! i)"
  by (simp_all add: killed_state_def split: option.split)

lemma lockset_killed_state:
  assumes "lockset S s" "L_ptable \<notin> S" "card S < 1000"
  shows "lockset S (killed_state pid s)"
proof -
  have "lockset (insert L_ptable S) (case first_idx (\<lambda>p. p_pid p = pid) (ptable s) of
        None \<Rightarrow> acq L_ptable s | Some i \<Rightarrow> upd_proc i (mark_killed (ticks s)) (acq L_ptable s))"
    using lockset_acq [OF assms] by (simp split: option.split)
  from lockset_rel [OF this, of L_ptable] assms(2) show ?thesis by (simp add: killed_state_def)
qed

lemma quiet_kill: "quiet (ticks s) (ptable s) (ptable (killed_state pid s))"
  by (simp add: ptable_killed_state quiet_killed split: option.split)

lemma step_kills:
  assumes "kinv (Run p) s" "kill pid s = Ok r t"
  shows "kinv (Run p) t \<and> tbl_step Tau s t"
proof -
  have k: "lockset {} s" "running_is (Some p) (ptable s)" using assms(1) by (auto simp: kinv_def)
  have t: "t = killed_state pid s" using kill_ok [OF k(1), of pid] assms(2) by auto
  have "lockset {} t" unfolding t by (rule lockset_killed_state [OF k(1)]) auto
  then show ?thesis
    using assms(1) t quiet_running_is [OF quiet_kill k(2)] kinv_length [OF assms(1)]
    by (auto simp: kinv_def intro!: quiet_tbl_step quiet_kill)
qed

lemma cpus_upd_mem [simp]: "cpus (upd_mem f s) = cpus s"
  by (simp add: upd_mem_def)

lemma step_allocproc:
  assumes "kinv (Run p) s" "allocproc s = Ok r t"
  shows "kinv (Run p) t \<and> tbl_step (case r of None \<Rightarrow> Tau | Some np \<Rightarrow> Birth np) s t"
proof -
  have k: "lockset {} s" "running_is (Some p) (ptable s)" "length (ptable s) = NPROC"
    "curcpu s = 0" "c_proc (cpus s ! 0) = Some p"
    using assms(1) by (auto simp: kinv_def running_is_def)
  show ?thesis
  proof (cases "first_idx (\<lambda>p. p_state p = UNUSED) (ptable s)")
    case None
    have "lockset {} (rel L_ptable (acq L_ptable s))"
      using lockset_rel [OF lockset_acq [OF k(1)], of L_ptable L_ptable] by simp
    then show ?thesis
      using allocproc_full [OF k(1) _ _ None] assms(2) k
      by (auto simp: kinv_def intro!: quiet_tbl_step)
  next
    case (Some i)
    note i = first_idx_SomeD [OF Some]
    have lk: "lockset {} (kalloced (claimed i s))"
      by (intro lockset_kalloced lockset_claimed k(1)) auto
    have ip: "i \<noteq> p" using i k(2) by (auto simp: running_is_def)
    show ?thesis
    proof (cases "freelist s = 0")
      case True
      then have t: "r = None" "t = upd_proc i (\<lambda>p. p\<lparr>p_kstack := 0, p_state := UNUSED\<rparr>) (kalloced (claimed i s))"
        using allocproc_ok [OF k(1) _ _ _ Some] assms(2) by auto
      have "tbl_step Tau s t"
        by (rule update_tbl_step [where p = i and
              v = "(embryo (nextpid s) (ticks s) (ptable s ! i))\<lparr>p_kstack := 0, p_state := UNUSED\<rparr>"])
          (use k i t in simp_all)
      moreover have "running_is (Some p) (ptable t)"
        unfolding t by (simp add: i, rule running_is_update [OF k(2)]) (use i ip k(2,3) in \<open>auto simp: running_is_def\<close>)
      ultimately show ?thesis using t k lk by (simp add: kinv_def)
    next
      case False
      then have t: "r = Some i" "t = stacked i (freelist s) (kalloced (claimed i s))"
        using allocproc_ok [OF k(1) _ _ _ Some] assms(2) by auto
      obtain ks tf cx where pt: "ptable t = (ptable s)[i := (embryo (nextpid s) (ticks s) (ptable s ! i))
          \<lparr>p_kstack := ks, p_tf := tf, p_context := cx\<rparr>]" "ticks t = ticks s"
        using i by (simp add: t stacked_def Let_def)
      have "tbl_step (Birth i) s t"
        using pt k(3) i by (auto simp: tbl_step_def nth_list_update acct_def embryo_def)
      moreover have "running_is (Some p) (ptable t)"
        unfolding pt by (rule running_is_update [OF k(2)]) (use i ip k(2,3) in \<open>auto simp: running_is_def embryo_def\<close>)
      moreover have "lockset {} t" "curcpu t = 0" "c_proc (cpus t ! 0) = Some p"
        using lk k(4,5) by (simp_all add: t stacked_def Let_def)
      ultimately show ?thesis using t by (simp add: kinv_def)
    qed
  qed
qed

lemma step_slot:
  assumes "kinv (Run p) s" "lockset {} t" "curcpu t = 0" "c_proc (cpus t ! 0) = Some p" "ticks t = ticks s"
    and "ptable t = (ptable s)[i := v]" "p_state (ptable s ! i) \<noteq> RUNNING" "p_state v \<noteq> RUNNING"
    and "p_state v \<noteq> UNUSED \<Longrightarrow> p_state (ptable s ! i) \<noteq> UNUSED \<and> acct (ticks s) v = acct (ticks s) (ptable s ! i)"
  shows "kinv (Run p) t \<and> tbl_step Tau s t"
proof -
  have k: "running_is (Some p) (ptable s)" "length (ptable s) = NPROC" using assms(1) by (auto simp: kinv_def running_is_def)
  have "running_is (Some p) (ptable t)"
  proof (cases "i < NPROC")
    case True
    show ?thesis unfolding assms(6)
      by (rule running_is_update [OF k(1) True]) (use assms(7,8) k True in \<open>auto simp: running_is_def\<close>)
  next
    case False
    then show ?thesis using k by (simp add: assms(6) list_update_beyond)
  qed
  then show ?thesis
    using assms(2-4) update_tbl_step [OF assms(6,5) k(2) assms(9)] by (simp add: kinv_def)
qed

lemma step_ready:
  assumes "kinv (Run p) s" "p_state (ptable s ! np) = EMBRYO" "make_runnable np s = Ok () t"
  shows "kinv (Run p) t \<and> tbl_step Tau s t"
proof -
  have k: "lockset {} s" "curcpu s = 0" "c_proc (cpus s ! 0) = Some p" using assms(1) by (auto simp: kinv_def)
  have t: "t = readied np s" "lockset {} t" using make_runnable_ok [OF k(1), of np] assms(3) by auto
  show ?thesis
    by (rule step_slot [OF assms(1), where i = np and v = "(ptable s ! np)\<lparr>p_state := RUNNABLE\<rparr>"])
      (use k t assms(2) in \<open>simp_all add: readied_def acct_def\<close>)
qed

lemma exit_locked_ok:
  fixes s :: "'x vm_st_scheme"
  assumes "lockset {} s" "c_proc (mycpu_of s) = Some p" "p < length (ptable s)"
  shows "\<exists>ps. exit_locked p s = (Wait Switched ((acq L_ptable s)
       \<lparr>ptable := ps[p := account_run (ticks s) ((ps ! p)\<lparr>p_state := ZOMBIE\<rparr>)]\<rparr>) :: (waiting, 'a, _) outcome) \<and>
     quiet (ticks s) (ptable s) ps"
proof -
  let ?ch = "proc_chan (p_parent (ptable s ! p))"
  let ?w = "(acq L_ptable s)\<lparr>ptable := map (awaken ?ch (ticks s)) (ptable s)\<rparr>"
  obtain ps where ps: "reparent_loop NPROC 0 p ?w = Ok () (?w\<lparr>ptable := ps\<rparr>)" "quiet (ticks s) (ptable ?w) ps"
    using reparent_loop_quiet [of NPROC 0 p ?w] by auto
  have q: "quiet (ticks s) (ptable s) ps"
    using quiet_trans [OF quiet_awaken, of "ticks s" ?ch "ptable s" ps] ps(2) by simp
  let ?t = "(acq L_ptable s)\<lparr>ptable := ps[p := account_run (ticks s) ((ps ! p)\<lparr>p_state := ZOMBIE\<rparr>)]\<rparr>"
  have len: "length ps = length (ptable s)" using q by (simp add: quiet_def)
  have "lockset {L_ptable} ?t" using lockset_acq [OF assms(1), of L_ptable] by simp
  then have "sched_enter ?t = Ok (c_intena (mycpu_of ?t)) ?t"
    by (rule sched_enter_ok [of _ p]) (use assms(2,3) len in \<open>simp_all add: account_run_def\<close>)
  then have "exit_locked p s = (Wait Switched ?t :: (waiting, 'a, _) outcome)"
    using acquire_ok [OF assms(1), of L_ptable] ps(1) assms(3) len
    by (simp add: exit_locked_def sched_def wakeup1_def M_defs upd_proc_def comp_def)
  with q show ?thesis by blast
qed

lemma step_exits:
  assumes "kinv (Run p) s" "exit_locked p s = (Wait Switched t :: (waiting, unit, _) outcome)"
    and "scheduler_back t = Ok () u"
  shows "kinv (Sch (Suc p)) u \<and> tbl_step Tau s u"
proof -
  have k: "lockset {} s" "curcpu s = 0" "running_is (Some p) (ptable s)" "c_proc (cpus s ! 0) = Some p"
    and p: "p < NPROC" "length (ptable s) = NPROC"
    using assms(1) by (auto simp: kinv_def running_is_def)
  obtain ps where t: "t = (acq L_ptable s)\<lparr>ptable := ps[p := account_run (ticks s) ((ps ! p)\<lparr>p_state := ZOMBIE\<rparr>)]\<rparr>"
    and q: "quiet (ticks s) (ptable s) ps"
    using exit_locked_ok [where 'a = unit, OF k(1), of p] k p assms(2) by auto
  have len: "length ps = NPROC" using q p by (simp add: quiet_def)
  have run: "p_state (ps ! p) = RUNNING" using q p k(3) by (simp add: quiet_def running_is_def)
  have ls: "lockset {L_ptable} t" using lockset_acq [OF k(1), of L_ptable] by (simp add: t)
  have ri: "running_is None (ptable t)"
    unfolding t by (simp, rule running_is_update [OF quiet_running_is [OF q k(3)]])
      (use p in \<open>auto simp: account_run_def\<close>)
  let ?m = "s\<lparr>ptable := ps\<rparr>"
  have "tbl_step Tau s ?m" by (rule quiet_tbl_step) (use q p in simp_all)
  moreover have pt: "ptable t = (ptable ?m)[p := account_run (ticks s) ((ps ! p)\<lparr>p_state := ZOMBIE\<rparr>)]"
    "ticks t = ticks ?m" "length (ptable ?m) = NPROC"
    using len by (simp_all add: t)
  have "tbl_step Tau ?m t"
    by (rule update_tbl_step [OF pt]) (use run in \<open>simp add: account_run_def acct_def\<close>)
  ultimately have "tbl_step Tau s t" by (rule tbl_step_trans)
  moreover have "curcpu t = 0" using k(2) by (simp add: t)
  moreover note b = back_kinv [OF ls _ ri assms(3)]
  ultimately show ?thesis using tbl_step_vm [of u t] by simp
qed

lemma step_abandon:
  assumes "kinv (Run p) s" "p_state (ptable s ! np) = EMBRYO"
  shows "kinv (Run p) (upd_proc np (\<lambda>q. q\<lparr>p_kstack := 0, p_state := UNUSED\<rparr>) s) \<and>
    tbl_step Tau s (upd_proc np (\<lambda>q. q\<lparr>p_kstack := 0, p_state := UNUSED\<rparr>) s)"
  by (rule step_slot [OF assms(1), where i = np and v = "(ptable s ! np)\<lparr>p_kstack := 0, p_state := UNUSED\<rparr>"])
    (use assms in \<open>simp_all add: kinv_def\<close>)

lemma step_reaps:
  assumes "kinv (Run p) s" "p_state (ptable s ! i) = ZOMBIE"
  shows "kinv (Run p) (upd_proc i reap_slot s) \<and> tbl_step Tau s (upd_proc i reap_slot s)"
  by (rule step_slot [OF assms(1), where i = i and v = "reap_slot (ptable s ! i)"])
    (use assms in \<open>simp_all add: kinv_def reap_slot_def\<close>)

lemma kstep_kinv:
  assumes "kstep cs l cs'" "kinv (fst cs) (snd cs)"
  shows "kinv (fst cs') (snd cs') \<and> tbl_step l (snd cs) (snd cs')"
  using assms
proof (induction rule: kstep.induct)
  case (pick i s t p)
  then show ?case using step_pick [of i s t] by auto
next
  case (round i s t u)
  then show ?case using step_round [of i s t u] by simp
next
  case (idle_tick i s t u v)
  then show ?case using step_idle_tick [of i s t u v] by simp
next
  case (resume intena s t p)
  then show ?case using step_resume [of p s intena t] by simp
next
  case (timer s t u p fl)
  then show ?case using step_timer [of p s t u fl] by simp
next
  case (timer_yield s t u v p)
  then show ?case using step_timer_yield [of p s t u v] by simp
next
  case (sleeps lk s t ch u v p)
  then show ?case using step_sleeps [of p s lk t ch u v] by simp
next
  case (wakes ch s t p)
  then show ?case using step_wakes [of p s ch t] by simp
next
  case (kills pid s r t p)
  then show ?case using step_kills [of p s pid r t] by simp
next
  case (births s np t p)
  then show ?case using step_allocproc [of p s "Some np" t] by simp
next
  case (no_birth s t p)
  then show ?case using step_allocproc [of p s None t] by simp
next
  case (ready s np t p)
  then show ?case using step_ready [of p s np t] by simp
next
  case (abandon s np p)
  then show ?case using step_abandon [of p s np] by simp
next
  case (exits p s t u)
  then show ?case using step_exits [of p s t u] by simp
next
  case (reaps s i p)
  then show ?case using step_reaps [of p s i] by simp
qed

section \<open>Runs\<close>

text \<open>
  A run of the machine together with the reference accounts: \<open>g i\<close> is what a kernel that counts
  every process at every tick has recorded for slot \<open>i\<close> since the slot was allocated.
\<close>

definition count_ref :: "label \<Rightarrow> 'x vm_st_scheme \<Rightarrow> (nat \<Rightarrow> u32 \<times> u32) \<Rightarrow> nat \<Rightarrow> u32 \<times> u32" where
  "count_ref l s g =
     (case l of Tau \<Rightarrow> g | Tick \<Rightarrow> (\<lambda>i. count_one (p_state (ptable s ! i)) (g i)) | Birth i \<Rightarrow> g(i := (0, 0)))"

inductive krun :: "ctl \<times> 'x vm_st_scheme \<Rightarrow> (nat \<Rightarrow> u32 \<times> u32) \<Rightarrow> ctl \<times> 'x vm_st_scheme \<Rightarrow> (nat \<Rightarrow> u32 \<times> u32) \<Rightarrow> bool"
  for cs0 :: "ctl \<times> 'x vm_st_scheme" and g0 :: "nat \<Rightarrow> u32 \<times> u32" where
  start: "krun cs0 g0 cs0 g0"
| step: "krun cs0 g0 cs g \<Longrightarrow> kstep cs l cs' \<Longrightarrow> krun cs0 g0 cs' (count_ref l (snd cs) g)"

definition accounts_agree :: "'x vm_st_scheme \<Rightarrow> (nat \<Rightarrow> u32 \<times> u32) \<Rightarrow> bool" where
  "accounts_agree s g \<longleftrightarrow>
     (\<forall>i < NPROC. p_state (ptable s ! i) \<noteq> UNUSED \<longrightarrow> acct (ticks s) (ptable s ! i) = g i)"

lemma krun_invariant:
  assumes "krun cs0 g0 cs g" "kinv (fst cs0) (snd cs0)" "accounts_agree (snd cs0) g0"
  shows "kinv (fst cs) (snd cs) \<and> accounts_agree (snd cs) g"
  using assms
proof (induction rule: krun.induct)
  case (step cs g l cs')
  then have k: "kinv (fst cs) (snd cs)" "accounts_agree (snd cs) g" by auto
  from kstep_kinv [OF step.hyps(2) k(1)] have
    k': "kinv (fst cs') (snd cs')" and t: "tbl_step l (snd cs) (snd cs')" by auto
  have "accounts_agree (snd cs') (count_ref l (snd cs) g)"
    using t k(2) unfolding tbl_step_def accounts_agree_def count_ref_def
    by (cases l) auto
  with k' show ?case by simp
qed simp

section \<open>Consequences\<close>

lemma count_ticks_one:
  assumes "\<And>i j. i < length ps \<Longrightarrow> j < length ps \<Longrightarrow> p_state (ps ! i) = RUNNING \<Longrightarrow> p_state (ps ! j) = RUNNING \<Longrightarrow> i = j"
    and "b \<Longrightarrow> \<forall>i < length ps. p_state (ps ! i) \<noteq> RUNNING"
  shows "\<exists>qs. count_ticks b ps = Some qs"
  using assms
proof (induction ps arbitrary: b)
  case Nil
  then show ?case by simp
next
  case (Cons p ps)
  have rest: "\<forall>i < length ps. p_state (ps ! i) \<noteq> RUNNING" if "p_state p = RUNNING"
    using Cons.prems(1) [of 0 "Suc i" for i] that by auto
  have uniq: "i = j" if "i < length ps" "j < length ps" "p_state (ps ! i) = RUNNING" "p_state (ps ! j) = RUNNING" for i j
    using Cons.prems(1) [of "Suc i" "Suc j"] that by simp
  have restb: "\<forall>i < length ps. p_state (ps ! i) \<noteq> RUNNING" if b using Cons.prems(2) that by force
  have nb: "\<not> b" if "p_state p = RUNNING" using Cons.prems(2) that by force
  have "\<exists>qs. count_ticks (p_state p = RUNNING \<or> b) ps = Some qs"
    by (rule Cons.IH) (use uniq rest restb in auto)
  then show ?case using nb by (cases "p_state p") auto
qed

lemma updatestatistics_ok:
  assumes "lockset {} s" "running_is r (ptable s)"
  shows "\<exists>t. updatestatistics s = Ok () t"
proof -
  obtain qs where qs: "count_ticks False (ptable s) = Some qs"
    using count_ticks_one [of "ptable s" False] assms(2) by (auto simp: running_is_def)
  have "lockset {L_ptable} ((acq L_ptable s)\<lparr>ptable := qs\<rparr>)"
    using lockset_acq [OF assms(1), of L_ptable] by simp
  from release_ok [OF this, of L_ptable] show ?thesis
    using acquire_ok [OF assms(1), of L_ptable] qs by (simp add: updatestatistics_def M_defs)
qed

text \<open>\<open>n\<close> timer interrupts in a row, each as \<open>trap\<close> handles it.\<close>

fun timer_interrupts :: "nat \<Rightarrow> ('x vm_st_scheme, unit) prog" where
  "timer_interrupts 0 = ret ()"
| "timer_interrupts (Suc n) = seqM (modS trap_entry) (seqM clock_tick (seqM preempt (timer_interrupts n)))"

lemma timer_interrupts_stay:
  assumes "kinv (Run p) s" "\<not> preempts (ptable s ! p)"
  shows "\<exists>t. timer_interrupts n s = Ok () t \<and> kinv (Run p) t \<and> ptable t ! p = ptable s ! p \<and>
    ticks t = ticks s + of_nat n"
  using assms
proof (induction n arbitrary: s)
  case 0
  then show ?case by (simp add: ret_def)
next
  case (Suc n)
  have k: "lockset {} s" "curcpu s = 0" "running_is (Some p) (ptable s)" using Suc.prems(1) by (auto simp: kinv_def)
  have ct: "clock_tick (trap_entry s) = Ok () (ticked (trap_entry s))"
    using clock_tick_ok [of "trap_entry s"] k by simp
  note t = timer_state [OF Suc.prems(1) ct]
  have same: "ptable (ticked (trap_entry s)) ! p = ptable s ! p"
    using k(3) by (auto simp: running_is_def awaken_def)
  have pr: "preempt (ticked (trap_entry s)) = Ok () (pushpop (ticked (trap_entry s)))"
    using preempt_cases [OF t(2), of p] t Suc.prems(2) same by simp
  let ?u = "pushpop (ticked (trap_entry s))"
  have "kinv (Run p) ?u" using t lockset_pushpop [OF t(2)] by (simp add: kinv_def)
  then have "\<exists>v. timer_interrupts n ?u = Ok () v \<and> kinv (Run p) v \<and> ptable v ! p = ptable ?u ! p \<and>
      ticks v = ticks ?u + of_nat n"
    by (rule Suc.IH) (use Suc.prems(2) same in simp)
  then show ?case using ct pr same by (simp add: M_defs add.assoc)
qed

section \<open>Properties\<close>

text \<open>
  C2: Whatever the processes do, at every point of a run at most one process is \<open>RUNNING\<close>,
  namely the one the CPU names; the scheduler and \<open>swtch\<close>'s callers hold exactly
  \<open>ptable.lock\<close>, and running code holds no lock. So \<open>updatestatistics\<close>, called from the running
  process, never panics with more than one running process.
\<close>

theorem one_running_process:
  assumes "krun cs0 g0 cs g" "kinv (fst cs0) (snd cs0)" "accounts_agree (snd cs0) g0"
  shows "kinv (fst cs) (snd cs) \<and>
    (\<forall>i < NPROC. \<forall>j < NPROC. p_state (ptable (snd cs) ! i) = RUNNING \<and> p_state (ptable (snd cs) ! j) = RUNNING \<longrightarrow> i = j) \<and>
    (\<forall>p. fst cs = Run p \<longrightarrow> (\<exists>t. updatestatistics (snd cs) = Ok () t))"
proof -
  have k: "kinv (fst cs) (snd cs)" using krun_invariant [OF assms] by simp
  then obtain r where r: "running_is r (ptable (snd cs))" by (auto simp: kinv_def split: ctl.splits)
  have "\<exists>t. updatestatistics (snd cs) = Ok () t" if "fst cs = Run p" for p
    using k that updatestatistics_ok [of "snd cs" "Some p"] by (simp add: kinv_def)
  with k r show ?thesis by (auto simp: running_is_def)
qed



text \<open>
  One call of the scheduler's scan from slot \<open>i\<close> switches to the first \<open>RUNNABLE\<close> slot from
  \<open>i\<close> on, so a runnable process is never passed over: it is reached after at most as many
  switches as there are slots before it. The chosen process becomes \<open>RUNNING\<close>, its waiting time
  is accounted, and the page table and the kernel stack of that process are loaded.
\<close>

theorem scheduler_not_passed_over:
  fixes s :: "'x vm_st_scheme"
  assumes "lockset {L_ptable} s" "i \<le> p" "p < length (ptable s)" "p_state (ptable s ! p) = RUNNABLE"
    and "\<forall>q < length (ptable s). p_state (ptable s ! q) = RUNNABLE \<longrightarrow> p_kstack (ptable s ! q) \<noteq> 0 \<and> p_pgdir (ptable s ! q) \<noteq> 0"
  shows "\<exists>q t. scheduler_scan i s = Wait Switched t \<and> i \<le> q \<and> q \<le> p \<and> c_proc (mycpu_of t) = Some q \<and>
    p_state (ptable t ! q) = RUNNING \<and>
    p_wtime (ptable t ! q) = p_wtime (ptable s ! q) + (ticks s - p_snapticks (ptable s ! q)) \<and>
    cr3 t = V2P (p_pgdir (ptable s ! q)) \<and> ts_esp0 (cpu_ts t (curcpu s)) = p_kstack (ptable s ! q) + KSTACKSIZE \<and>
    (\<forall>k. i \<le> k \<and> k < q \<longrightarrow> p_state (ptable s ! k) \<noteq> RUNNABLE)"
proof -
  have "first_from i (\<lambda>p. p_state p = RUNNABLE) (ptable s) \<noteq> None"
    using assms(2-4) by (auto simp: first_from_None)
  then obtain q where q: "first_from i (\<lambda>p. p_state p = RUNNABLE) (ptable s) = Some q" by auto
  note f = first_from_SomeD [OF q]
  have "q \<le> p" using f(4) [of p] assms(2,4) by (cases "q \<le> p") auto
  moreover have "scheduler_scan i s = Wait Switched (ran q s)"
    using scheduler_scan_pick [OF assms(1) q] f assms(5) by auto
  moreover have "curcpu s < length (cpus s)" using curcpu_less locksetD(1) [OF assms(1)] by blast
  then have "c_proc (mycpu_of (ran q s)) = Some q" "cr3 (ran q s) = V2P (p_pgdir (ptable s ! q))"
    "ts_esp0 (cpu_ts (ran q s) (curcpu s)) = p_kstack (ptable s ! q) + KSTACKSIZE"
    "p_state (ptable (ran q s) ! q) = RUNNING"
    "p_wtime (ptable (ran q s) ! q) = p_wtime (ptable s ! q) + (ticks s - p_snapticks (ptable s ! q))"
    using f(2) by (simp_all add: ran_def account_wait_def) (simp_all add: switched_def Let_def upd_proc_def)
  ultimately show ?thesis using f(1,4) by blast
qed

text \<open>
  \<open>kill(0)\<close> finds an unused slot (whose pid is 0), reports success and marks the slot killed;
  \<open>allocproc\<close> does not clear the mark, so the next process that gets the slot is born killed and
  will exit at its first trap.
\<close>

theorem kill_zero_poisons_slot:
  fixes s :: "'x vm_st_scheme"
  assumes "lockset {} s" "first_idx (\<lambda>p. p_state p = UNUSED) (ptable s) = Some i" "p_pid (ptable s ! i) = 0"
    and "\<forall>j < i. p_pid (ptable s ! j) \<noteq> 0" "freelist s \<noteq> 0"
  shows "\<exists>u t. kill 0 s = Ok 0 u \<and> allocproc u = Ok (Some i) t \<and>
    p_state (ptable t ! i) = EMBRYO \<and> p_killed (ptable t ! i) = 1"
proof -
  note i = first_idx_SomeD [OF assms(2)]
  have f: "first_idx (\<lambda>p. p_pid p = 0) (ptable s) = Some i"
    by (rule first_idx_SomeI) (use i assms in auto)
  let ?u = "killed_state 0 s"
  have "\<exists>p \<in> set (ptable s). p_pid p = 0" using i assms(3) by (auto intro: bexI [of _ "ptable s ! i"])
  then have k: "kill 0 s = Ok 0 ?u" using kill_ok [OF assms(1), of 0] by simp
  have pt: "ptable ?u = (ptable s)[i := (ptable s ! i)\<lparr>p_killed := 1\<rparr>]"
    using i by (simp add: ptable_killed_state f mark_killed_def)
  have f': "first_idx (\<lambda>p. p_state p = UNUSED) (ptable ?u) = Some i"
    unfolding pt using first_idx_update_same [of i "ptable s" "\<lambda>p. p_state p = UNUSED"] assms(2) by simp
  have fl: "freelist ?u = freelist s" by (simp add: killed_state_def f)
  have "allocproc ?u = Ok (Some i) (stacked i (freelist s) (kalloced (claimed i ?u)))"
    using allocproc_ok [OF lockset_killed_state [OF assms(1)] _ _ _ f'] assms(5) fl by simp
  moreover have "ptable (stacked i ks (kalloced (claimed i ?u))) ! i =
      (embryo (nextpid ?u) (ticks ?u) ((ptable s ! i)\<lparr>p_killed := 1\<rparr>))
        \<lparr>p_kstack := ks, p_tf := ks + KSTACKSIZE - sizeof_trapframe,
         p_context := ks + KSTACKSIZE - sizeof_trapframe - 4 - sizeof_context\<rparr>" for ks
    using i pt by (simp add: stacked_def Let_def)
  ultimately show ?thesis using k by (auto simp: embryo_def)
qed

section \<open>A concrete machine\<close>

definition blank_proc :: proc where
  "blank_proc =
     \<lparr>p_sz = 0, p_pgdir = 0, p_kstack = 0, p_state = UNUSED, p_pid = 0, p_parent = None, p_tf = 0, p_context = 0,
      p_chan = C_null, p_killed = 0, p_ofile = replicate 16 None, p_cwd = None, p_name = replicate 16 0,
      p_wtime = 0, p_rutime = 0, p_snapticks = 0\<rparr>"

definition demo_table :: "proc list" where
  "demo_table =
     [blank_proc\<lparr>p_state := RUNNING, p_pid := 2, p_kstack := 0x80500000, p_pgdir := 0x80501000\<rparr>,
      blank_proc\<lparr>p_state := RUNNABLE, p_pid := 1, p_kstack := 0x80502000, p_pgdir := 0x80503000\<rparr>]
     @ replicate 62 blank_proc"

definition demo_vm :: vm_st where
  "demo_vm =
     \<lparr>cpus = [\<lparr>c_apicid = 0, c_ncli = 0, c_intena = 0, c_proc = Some 0\<rparr>], lapicid = 0, if_flag = True,
      locks = (\<lambda>_. \<lparr>lk_locked = 0, lk_name = [], lk_cpu = None, lk_pcs = []\<rparr>), mem = (\<lambda>_. 0), frame = 0,
      use_lock = True, freelist = 0x80401000, kend = 0x80000000,
      con_locking = True, panicked = False, uart = True, uart_out = [], crt = replicate 2000 0, crt_pos = 0,
      ptable = demo_table, nextpid = 3, initproc = Some 1, ticks = 5, trapret_addr = 0x80101000, forkret_addr = 0x80102000,
      kpgdir = 0x80400000, cr3 = 0x400000, task_reg = 0, gdtr = None, cpu_gdt = (\<lambda>_ _. SEG 0 0 0 0),
      cpu_ts = (\<lambda>_. \<lparr>ts_esp0 = 0, ts_ss0 = 0, ts_iomb = 0\<rparr>), ts_addr = (\<lambda>_. 0x80110000), data_addr = 0x80108000\<rparr>"

lemma demo_vm_lockset: "lockset {} demo_vm"
  by (simp add: lockset_def demo_vm_def cpu_found_def curcpu_def)

lemma demo_table_state:
  "i < 64 \<Longrightarrow> p_state (demo_table ! i) = (if i = 0 then RUNNING else if i = 1 then RUNNABLE else UNUSED)"
  by (simp add: demo_table_def blank_proc_def nth_Cons' nth_append)

lemma demo_sel [simp]:
  "ptable demo_vm = demo_table" "ticks demo_vm = 5" "curcpu demo_vm = 0" "c_proc (cpus demo_vm ! 0) = Some 0"
  "freelist demo_vm \<noteq> 0" "length demo_table = 64"
  by (simp_all add: demo_vm_def curcpu_def demo_table_def)

lemma demo_kinv: "kinv (Run 0) demo_vm"
  using demo_vm_lockset by (simp add: kinv_def running_is_def NPROC_def demo_table_state)

definition demo_accounts :: "nat \<Rightarrow> u32 \<times> u32" where
  "demo_accounts i = (if i = 0 then (0, 5) else if i = 1 then (5, 0) else (0, 0))"

lemma demo_agree: "accounts_agree demo_vm demo_accounts"
proof -
  have "acct 5 (demo_table ! 0) = (0, 5)" "acct 5 (demo_table ! 1) = (5, 0)"
    by (simp_all add: acct_def demo_table_def blank_proc_def)
  then show ?thesis
    by (auto simp: accounts_agree_def NPROC_def demo_table_state demo_accounts_def)
qed

lemma demo_step: "\<exists>t. kstep (Run 0, demo_vm) Tick (Run 0, t)"
proof -
  have k: "lockset {} demo_vm" "curcpu demo_vm = 0" using demo_kinv by (auto simp: kinv_def)
  have ct: "clock_tick (trap_entry demo_vm) = Ok () (ticked (trap_entry demo_vm))"
    using clock_tick_ok [of "trap_entry demo_vm"] k by simp
  note t = timer_state [OF demo_kinv ct]
  have "ptable (ticked (trap_entry demo_vm)) ! 0 = demo_table ! 0"
    by (simp add: awaken_def demo_table_state)
  moreover have "\<not> preempts (demo_table ! 0)"
    by (simp add: preempts_def demo_table_def blank_proc_def)
  ultimately have "preempt (ticked (trap_entry demo_vm)) = Ok () (pushpop (ticked (trap_entry demo_vm)))"
    using preempt_cases [OF t(2), of 0] t(3,4,7) unfolding NPROC_def by (simp only: if_False simp_thms)
  from kstep.timer [OF ct this] show ?thesis by blast
qed

theorem one_running_process_witness:
  "\<exists>t. krun (Run 0, demo_vm) demo_accounts (Run 0, t) (count_ref Tick demo_vm demo_accounts) \<and>
     kinv (Run 0) t \<and> (\<exists>u. updatestatistics t = Ok () u)"
proof -
  obtain t where "kstep (Run 0, demo_vm) Tick (Run 0, t)" using demo_step by blast
  then have r: "krun (Run 0, demo_vm) demo_accounts (Run 0, t) (count_ref Tick demo_vm demo_accounts)"
    using krun.step [OF krun.start, of "(Run 0, demo_vm)" Tick "(Run 0, t)" demo_accounts] by simp
  then show ?thesis using one_running_process [OF r] demo_kinv demo_agree by auto
qed



theorem scheduler_not_passed_over_witness:
  "\<exists>t. scheduler_scan 0 (acq L_ptable demo_vm) = Wait Switched t \<and> p_state (ptable t ! 1) = RUNNING"
proof -
  have l: "lockset {L_ptable} (acq L_ptable demo_vm)"
    using lockset_acq [OF demo_vm_lockset, of L_ptable] by simp
  have t: "ptable (acq L_ptable demo_vm) = demo_table" "length demo_table = 64"
    by simp_all
  have r: "p_state (demo_table ! q) = RUNNABLE \<Longrightarrow> q = 1" if "q < 64" for q
    using demo_table_state [OF that] by (auto split: if_splits)
  have s1: "p_state (demo_table ! 1) = RUNNABLE" "p_kstack (demo_table ! 1) \<noteq> 0" "p_pgdir (demo_table ! 1) \<noteq> 0"
    "p_state (demo_table ! 0) \<noteq> RUNNABLE"
    by (simp_all add: demo_table_def blank_proc_def)
  have "\<exists>q u. scheduler_scan 0 (acq L_ptable demo_vm) = Wait Switched u \<and> q \<le> 1 \<and> p_state (ptable u ! q) = RUNNING \<and>
      (\<forall>k. k < q \<longrightarrow> p_state (demo_table ! k) \<noteq> RUNNABLE) \<and> c_proc (mycpu_of u) = Some q"
    using scheduler_not_passed_over [OF l, of 0 1] t r s1 by auto
  then obtain q u where q: "scheduler_scan 0 (acq L_ptable demo_vm) = Wait Switched u" "q \<le> 1"
      "p_state (ptable u ! q) = RUNNING" "c_proc (mycpu_of u) = Some q" by blast
  have "first_from 0 (\<lambda>p. p_state p = RUNNABLE) (ptable (acq L_ptable demo_vm)) = Some 1"
    using t s1 by (simp add: first_from_def demo_table_def blank_proc_def)
  from scheduler_scan_pick [OF l this] t s1 q(1) have "u = ran 1 (acq L_ptable demo_vm)" by simp
  moreover have "curcpu (acq L_ptable demo_vm) < length (cpus (acq L_ptable demo_vm))"
    using curcpu_less locksetD(1) [OF l] by blast
  ultimately have "c_proc (mycpu_of u) = Some 1" by (simp add: ran_def)
  with q show ?thesis by auto
qed

theorem kill_zero_poisons_slot_witness:
  "\<exists>u t. kill 0 demo_vm = Ok 0 u \<and> allocproc u = Ok (Some 2) t \<and> p_killed (ptable t ! 2) = 1"
proof -
  have "first_idx (\<lambda>p. p_state p = UNUSED) (ptable demo_vm) = Some 2"
    by (rule first_idx_SomeI) (auto simp: demo_table_state less_2_cases_iff)
  moreover have "p_pid (ptable demo_vm ! 2) = 0" "\<forall>j < 2. p_pid (ptable demo_vm ! j) \<noteq> 0" "freelist demo_vm \<noteq> 0"
    by (auto simp: demo_table_def blank_proc_def less_2_cases_iff)
  ultimately show ?thesis using kill_zero_poisons_slot [OF demo_vm_lockset] by blast
qed

end
