(* ===== verification/Bio.thy ===== *)
theory Bio
  imports Sched
begin

text \<open>
  Sleep locks (\<open>sleeplock.c\<close>), the memory disk (\<open>memide.c\<close>) and the buffer cache (\<open>bio.c\<close>).
  The cache is the fixed array of buffers with its circular doubly linked list; index \<open>NBUF\<close> is
  the list head. The disk is a list of blocks. A ghost field records the sequence of disk writes,
  for reasoning about crashes. Waiting for a sleep lock ends in \<open>Wait Switched\<close>, and the caller's
  loop goes on with the part named \<open>..._retry\<close>.
\<close>

section \<open>State\<close>

definition BSIZE :: nat where "BSIZE = 512"

definition NBUF :: nat where "NBUF = 30"

definition B_VALID :: u32 where "B_VALID = 2"

definition B_DIRTY :: u32 where "B_DIRTY = 4"

record sleeplock =
  sl_locked :: u32
  sl_name :: string
  sl_pid :: u32

record buf =
  b_flags :: u32
  b_dev :: u32
  b_blockno :: u32
  b_refcnt :: u32
  b_data :: "u8 list"

record buf_st = vm_st +
  sleeplocks :: "slid \<Rightarrow> sleeplock"
  bufs :: "buf list"
  bnext :: "nat \<Rightarrow> nat"
  bprev :: "nat \<Rightarrow> nat"
  memdisk :: "u8 list list"
  dtrace :: "(nat \<times> u8 list) list"

definition upd_buf :: "nat \<Rightarrow> (buf \<Rightarrow> buf) \<Rightarrow> 'x buf_st_scheme \<Rightarrow> 'x buf_st_scheme" where
  "upd_buf i f s = s\<lparr>bufs := (bufs s)[i := f (bufs s ! i)]\<rparr>"

definition upd_sl :: "slid \<Rightarrow> (sleeplock \<Rightarrow> sleeplock) \<Rightarrow> 'x buf_st_scheme \<Rightarrow> 'x buf_st_scheme" where
  "upd_sl l f s = s\<lparr>sleeplocks := (sleeplocks s)(l := f (sleeplocks s l))\<rparr>"

section \<open>Sleep locks\<close>

definition initsleeplock :: "slid \<Rightarrow> string \<Rightarrow> ('x buf_st_scheme, unit) prog" where
  "initsleeplock l nm =
     seqM (initlock (L_sleeplock l) ''sleep lock'')
     (modS (upd_sl l (\<lambda>k. k\<lparr>sl_name := nm, sl_locked := 0, sl_pid := 0\<rparr>)))"

text \<open>The loop of \<open>acquiresleep\<close>, entered again each time the sleep returns, and what follows it.\<close>

definition acquiresleep_retry :: "slid \<Rightarrow> ('x buf_st_scheme, unit) prog" where
  "acquiresleep_retry l =
     bindM (getS (\<lambda>s. sl_locked (sleeplocks s l))) (\<lambda>k.
     if k \<noteq> 0 then sleep (C_sleeplock l) (L_sleeplock l)
     else seqM (modS (upd_sl l (\<lambda>k. k\<lparr>sl_locked := 1\<rparr>))) (
          bindM curproc (\<lambda>p.
          seqM (modS (\<lambda>s. upd_sl l (\<lambda>k. k\<lparr>sl_pid := p_pid (ptable s ! p)\<rparr>) s))
          (release (L_sleeplock l)))))"

definition acquiresleep :: "slid \<Rightarrow> ('x buf_st_scheme, unit) prog" where
  "acquiresleep l = seqM (acquire (L_sleeplock l)) (acquiresleep_retry l)"

definition releasesleep :: "slid \<Rightarrow> ('x buf_st_scheme, unit) prog" where
  "releasesleep l =
     seqM (acquire (L_sleeplock l)) (
     seqM (modS (upd_sl l (\<lambda>k. k\<lparr>sl_locked := 0, sl_pid := 0\<rparr>))) (
     seqM (wakeup (C_sleeplock l))
     (release (L_sleeplock l))))"

definition holdingsleep :: "slid \<Rightarrow> ('x buf_st_scheme, bool) prog" where
  "holdingsleep l =
     seqM (acquire (L_sleeplock l)) (
     bindM (getS (\<lambda>s. sleeplocks s l)) (\<lambda>k.
     bindM
       (if sl_locked k \<noteq> 0 then
          bindM curproc (\<lambda>p. getS (\<lambda>s. sl_pid k = p_pid (ptable s ! p)))
        else ret False) (\<lambda>r.
     seqM (release (L_sleeplock l))
     (ret r))))"

section \<open>The disk\<close>

definition iderw :: "nat \<Rightarrow> ('x buf_st_scheme, unit) prog" where
  "iderw i =
     bindM (holdingsleep (SL_buf i)) (\<lambda>h.
     if \<not> h then panic ''iderw: buf not locked''
     else bindM (getS (\<lambda>s. bufs s ! i)) (\<lambda>b.
     if b_flags b AND (B_VALID OR B_DIRTY) = B_VALID then panic ''iderw: nothing to do''
     else if b_dev b \<noteq> 1 then panic ''iderw: request not for disk 1''
     else bindM (getS (\<lambda>s. length (memdisk s))) (\<lambda>disksize.
     if unat (b_blockno b) \<ge> disksize then panic ''iderw: block out of range''
     else seqM
       (if b_flags b AND B_DIRTY \<noteq> 0 then
          seqM (modS (upd_buf i (\<lambda>b. b\<lparr>b_flags := b_flags b AND NOT B_DIRTY\<rparr>)))
          (modS (\<lambda>s. s\<lparr>memdisk := (memdisk s)[unat (b_blockno b) := b_data b],
                       dtrace := dtrace s @ [(unat (b_blockno b), b_data b)]\<rparr>))
        else modS (\<lambda>s. upd_buf i (\<lambda>b. b\<lparr>b_data := memdisk s ! unat (b_blockno b)\<rparr>) s))
       (modS (upd_buf i (\<lambda>b. b\<lparr>b_flags := b_flags b OR B_VALID\<rparr>))))))"

section \<open>The buffer cache\<close>

text \<open>Linking buffer \<open>b\<close> in front of the list, as \<open>binit\<close> and \<open>brelse\<close> do.\<close>

definition link_front :: "nat \<Rightarrow> ('x buf_st_scheme, unit) prog" where
  "link_front b =
     seqM (modS (\<lambda>s. s\<lparr>bnext := (bnext s)(b := bnext s NBUF)\<rparr>)) (
     seqM (modS (\<lambda>s. s\<lparr>bprev := (bprev s)(b := NBUF)\<rparr>)) (
     seqM (modS (\<lambda>s. s\<lparr>bprev := (bprev s)(bnext s NBUF := b)\<rparr>))
     (modS (\<lambda>s. s\<lparr>bnext := (bnext s)(NBUF := b)\<rparr>))))"

fun binit_loop :: "nat \<Rightarrow> nat \<Rightarrow> ('x buf_st_scheme, unit) prog" where
  "binit_loop 0 b = ret ()"
| "binit_loop (Suc n) b =
     seqM (modS (\<lambda>s. s\<lparr>bnext := (bnext s)(b := bnext s NBUF), bprev := (bprev s)(b := NBUF)\<rparr>)) (
     seqM (initsleeplock (SL_buf b) ''buffer'') (
     seqM (modS (\<lambda>s. s\<lparr>bprev := (bprev s)(bnext s NBUF := b)\<rparr>)) (
     seqM (modS (\<lambda>s. s\<lparr>bnext := (bnext s)(NBUF := b)\<rparr>))
     (binit_loop n (Suc b)))))"

definition binit :: "('x buf_st_scheme, unit) prog" where
  "binit =
     seqM (initlock L_bcache ''bcache'') (
     seqM (modS (\<lambda>s. s\<lparr>bprev := (bprev s)(NBUF := NBUF), bnext := (bnext s)(NBUF := NBUF)\<rparr>))
     (binit_loop NBUF 0))"

text \<open>The two loops of \<open>bget\<close>. The list has at most \<open>NBUF\<close> buffers, which bounds the fuel.\<close>

fun bget_lookup :: "nat \<Rightarrow> nat \<Rightarrow> u32 \<Rightarrow> u32 \<Rightarrow> ('x buf_st_scheme, nat option) prog" where
  "bget_lookup 0 b dev blockno = nofuel"
| "bget_lookup (Suc fuel) b dev blockno =
     (if b = NBUF then ret None
      else bindM (getS (\<lambda>s. bufs s ! b)) (\<lambda>x.
      if b_dev x = dev \<and> b_blockno x = blockno then ret (Some b)
      else bindM (getS (\<lambda>s. bnext s b)) (\<lambda>n. bget_lookup fuel n dev blockno)))"

fun bget_victim :: "nat \<Rightarrow> nat \<Rightarrow> ('x buf_st_scheme, nat option) prog" where
  "bget_victim 0 b = nofuel"
| "bget_victim (Suc fuel) b =
     (if b = NBUF then ret None
      else bindM (getS (\<lambda>s. bufs s ! b)) (\<lambda>x.
      if b_refcnt x = 0 \<and> b_flags x AND B_DIRTY = 0 then ret (Some b)
      else bindM (getS (\<lambda>s. bprev s b)) (\<lambda>n. bget_victim fuel n)))"

definition bget :: "u32 \<Rightarrow> u32 \<Rightarrow> ('x buf_st_scheme, nat) prog" where
  "bget dev blockno =
     seqM (acquire L_bcache) (
     bindM (getS (\<lambda>s. bnext s NBUF)) (\<lambda>b0.
     bindM (bget_lookup (NBUF + 1) b0 dev blockno) (\<lambda>r.
     case r of
       Some b \<Rightarrow>
         seqM (modS (upd_buf b (\<lambda>x. x\<lparr>b_refcnt := b_refcnt x + 1\<rparr>))) (
         seqM (release L_bcache) (
         seqM (acquiresleep (SL_buf b))
         (ret b)))
     | None \<Rightarrow>
         bindM (getS (\<lambda>s. bprev s NBUF)) (\<lambda>b1.
         bindM (bget_victim (NBUF + 1) b1) (\<lambda>v.
         case v of
           None \<Rightarrow> panic ''bget: no buffers''
         | Some b \<Rightarrow>
             seqM (modS (upd_buf b (\<lambda>x. x\<lparr>b_dev := dev, b_blockno := blockno, b_flags := 0, b_refcnt := 1\<rparr>))) (
             seqM (release L_bcache) (
             seqM (acquiresleep (SL_buf b))
             (ret b))))))))"

definition bread :: "u32 \<Rightarrow> u32 \<Rightarrow> ('x buf_st_scheme, nat) prog" where
  "bread dev blockno =
     bindM (bget dev blockno) (\<lambda>b.
     bindM (getS (\<lambda>s. b_flags (bufs s ! b))) (\<lambda>fl.
     seqM (whenM (fl AND B_VALID = 0) (iderw b))
     (ret b)))"

definition bwrite :: "nat \<Rightarrow> ('x buf_st_scheme, unit) prog" where
  "bwrite b =
     bindM (holdingsleep (SL_buf b)) (\<lambda>h.
     if \<not> h then panic ''bwrite''
     else seqM (modS (upd_buf b (\<lambda>x. x\<lparr>b_flags := b_flags x OR B_DIRTY\<rparr>)))
     (iderw b))"

definition brelse :: "nat \<Rightarrow> ('x buf_st_scheme, unit) prog" where
  "brelse b =
     bindM (holdingsleep (SL_buf b)) (\<lambda>h.
     if \<not> h then panic ''brelse''
     else seqM (releasesleep (SL_buf b)) (
     seqM (acquire L_bcache) (
     seqM (modS (upd_buf b (\<lambda>x. x\<lparr>b_refcnt := b_refcnt x - 1\<rparr>))) (
     bindM (getS (\<lambda>s. b_refcnt (bufs s ! b))) (\<lambda>rc.
     seqM
       (whenM (rc = 0) (
          seqM (modS (\<lambda>s. s\<lparr>bprev := (bprev s)(bnext s b := bprev s b)\<rparr>)) (
          seqM (modS (\<lambda>s. s\<lparr>bnext := (bnext s)(bprev s b := bnext s b)\<rparr>))
          (link_front b))))
       (release L_bcache))))))"

section \<open>Code that returns with the locks as they were\<close>

text \<open>
  \<open>mach_eq s t\<close>: the states differ at most in the CPUs, the interrupt flag and the spinlocks.
  \<open>ctx S pid s\<close>: the process with this pid runs and holds exactly the spinlocks \<open>S\<close>.
\<close>

definition mach_eq :: "'x mach_scheme \<Rightarrow> 'x mach_scheme \<Rightarrow> bool" where
  "mach_eq s t \<longleftrightarrow> t = s\<lparr>cpus := cpus t, if_flag := if_flag t, locks := locks t\<rparr>"

definition ctx :: "lockid set \<Rightarrow> u32 \<Rightarrow> 'x proc_st_scheme \<Rightarrow> bool" where
  "ctx S pid s \<longleftrightarrow> lockset S s \<and>
     (\<exists>p. c_proc (mycpu_of s) = Some p \<and> p < length (ptable s) \<and> p_pid (ptable s ! p) = pid)"

lemma mach_eqI: "t = s\<lparr>cpus := c, if_flag := fl, locks := lk\<rparr> \<Longrightarrow> mach_eq s t"
  by (simp add: mach_eq_def)

lemma mach_eqE:
  assumes "mach_eq s t"
  obtains c fl lk where "t = s\<lparr>cpus := c, if_flag := fl, locks := lk\<rparr>"
  using assms unfolding mach_eq_def by blast

lemma mach_eq_refl [simp]: "mach_eq s s"
  by (simp add: mach_eq_def)

lemma mach_eq_trans: "mach_eq s t \<Longrightarrow> mach_eq t u \<Longrightarrow> mach_eq s u"
  by (erule mach_eqE, erule mach_eqE) (rule mach_eqI, simp)

lemma mach_eq_acq: "mach_eq s (acq l s)" and mach_eq_rel: "mach_eq s (rel l s)"
  and mach_eq_pushpop: "mach_eq s (pushpop s)"
  by (simp_all add: mach_eq_def effect_defs pushpop_def)

lemma ctxD: "ctx S pid s \<Longrightarrow> lockset S s"
  by (simp add: ctx_def)

lemma ctx_acquire:
  assumes "ctx S pid s" "l \<notin> S" "card S < 1000"
  shows "acquire l s = Ok () (acq l s)" "ctx (insert l S) pid (acq l s)"
  using assms acquire_ok [of S s l] lockset_acq [of S s l] by (auto simp: ctx_def)

lemma ctx_release:
  assumes "ctx S pid s" "l \<in> S"
  shows "release l s = Ok () (rel l s)" "ctx (S - {l}) pid (rel l s)"
  using assms release_ok [of S s l] lockset_rel [of S s l] by (auto simp: ctx_def)

lemma ctx_curproc:
  assumes "ctx S pid s"
  obtains p where "curproc s = Ok p (pushpop s)" "p_pid (ptable s ! p) = pid" "ctx S pid (pushpop s)"
proof -
  from assms obtain p where p: "c_proc (mycpu_of s) = Some p" "p < length (ptable s)" "p_pid (ptable s ! p) = pid"
    by (auto simp: ctx_def)
  have l: "lockset S s" using assms by (simp add: ctx_def)
  have "ctx S pid (pushpop s)" using p lockset_pushpop [OF l] by (auto simp: ctx_def)
  with curproc_ok [OF l p(1)] p(3) show ?thesis by (rule that)
qed

lemma ctx_wakeup:
  assumes "ctx S pid s" "L_ptable \<notin> S" "card S < 1000"
  shows "wakeup ch s = Ok () (woken ch s)" "ctx S pid (woken ch s)"
proof -
  have l: "lockset S s" using assms by (simp add: ctx_def)
  show "wakeup ch s = Ok () (woken ch s)" by (rule wakeup_ok [OF l assms(2,3)])
  from assms(1) obtain p where p: "c_proc (mycpu_of s) = Some p" "p < length (ptable s)" "p_pid (ptable s ! p) = pid"
    by (auto simp: ctx_def)
  then show "ctx S pid (woken ch s)"
    using lockset_woken [OF l assms(2,3)] by (auto simp: ctx_def awaken_def)
qed

lemma mach_eq_woken: "mach_eq (s\<lparr>ptable := map (awaken ch (ticks s)) (ptable s)\<rparr>) (woken ch s)"
  by (simp add: mach_eq_def woken_def effect_defs)

text \<open>The fields of a state above the machine level are the same in \<open>mach_eq\<close> states.\<close>

lemma mach_eq_fields:
  "mach_eq s t \<Longrightarrow> mem t = mem s \<and> frame t = frame s \<and> lapicid t = lapicid s"
  by (erule mach_eqE) simp

lemma mach_eq_buf:
  "mach_eq s t \<Longrightarrow> sleeplocks t = sleeplocks s \<and> bufs t = bufs s \<and> bnext t = bnext s \<and> bprev t = bprev s \<and>
     memdisk t = memdisk s \<and> dtrace t = dtrace s \<and> ptable t = ptable s \<and> ticks t = ticks s"
  by (erule mach_eqE) simp

lemma mach_eq_upd_sl: "mach_eq s t \<Longrightarrow> mach_eq (upd_sl l f s) (upd_sl l f t)"
  by (erule mach_eqE) (simp add: mach_eq_def upd_sl_def)

lemma mach_eq_upd_buf: "mach_eq s t \<Longrightarrow> mach_eq (upd_buf i f s) (upd_buf i f t)"
  by (erule mach_eqE) (simp add: mach_eq_def upd_buf_def)

lemma curcpu_mach [simp]:
  "curcpu (upd_sl l f s) = curcpu s" "curcpu (upd_buf i g s) = curcpu s"
  by (simp_all add: curcpu_def upd_sl_def upd_buf_def)

lemma ctx_upd [simp]:
  "ctx S pid (upd_sl l f s) = ctx S pid s" "ctx S pid (upd_buf i g s) = ctx S pid s"
  "ctx S pid (s\<lparr>bnext := nx\<rparr>) = ctx S pid s" "ctx S pid (s\<lparr>bprev := pv\<rparr>) = ctx S pid s"
  "ctx S pid (s\<lparr>memdisk := d\<rparr>) = ctx S pid s" "ctx S pid (s\<lparr>dtrace := tr\<rparr>) = ctx S pid s"
  by (simp_all add: ctx_def lockset_def cpu_found_def curcpu_def upd_sl_def upd_buf_def)

section \<open>What the sleep locks do when there is no contention\<close>

lemma acquiresleep_free:
  assumes "ctx {} pid s" "sl_locked (sleeplocks s l) = 0"
  shows "\<exists>t. acquiresleep l s = Ok () t \<and> mach_eq (upd_sl l (\<lambda>k. k\<lparr>sl_locked := 1, sl_pid := pid\<rparr>) s) t \<and> ctx {} pid t"
proof -
  let ?L = "L_sleeplock l"
  note a = ctx_acquire [OF assms(1), of ?L, simplified]
  let ?u = "upd_sl l (\<lambda>k. k\<lparr>sl_locked := 1\<rparr>) (acq ?L s)"
  have cu: "ctx {?L} pid ?u" using a(2) by simp
  from ctx_curproc [OF cu] obtain p where
    p: "curproc ?u = Ok p (pushpop ?u)" "p_pid (ptable ?u ! p) = pid" "ctx {?L} pid (pushpop ?u)" by blast
  let ?v = "upd_sl l (\<lambda>k. k\<lparr>sl_pid := pid\<rparr>) (pushpop ?u)"
  have cv: "ctx {?L} pid ?v" using p(3) by simp
  note r = ctx_release [OF cv, of ?L, simplified]
  have "mach_eq (upd_sl l (\<lambda>k. k\<lparr>sl_pid := pid\<rparr>) (upd_sl l (\<lambda>k. k\<lparr>sl_locked := 1\<rparr>) s)) ?v"
    by (intro mach_eq_upd_sl mach_eq_trans [OF mach_eq_upd_sl mach_eq_pushpop] mach_eq_acq)
  then have m: "mach_eq (upd_sl l (\<lambda>k. k\<lparr>sl_locked := 1, sl_pid := pid\<rparr>) s) (rel ?L ?v)"
    using mach_eq_trans [OF _ mach_eq_rel] by (simp add: upd_sl_def)
  have "sl_locked (sleeplocks (acq ?L s) l) = 0"
    using assms(2) mach_eq_buf [OF mach_eq_acq] by metis
  moreover have "p_pid (ptable (pushpop ?u) ! p) = pid" using p(2) by simp
  ultimately have "acquiresleep l s = Ok () (rel ?L ?v)"
    using a(1) p(1) r(1) by (simp add: acquiresleep_def acquiresleep_retry_def M_defs)
  with m r(2) show ?thesis by blast
qed

lemma acquiresleep_held:
  assumes "ctx {} pid s" "sl_locked (sleeplocks s l) \<noteq> 0"
  shows "\<exists>t. acquiresleep l s = Wait Switched t"
proof -
  let ?L = "L_sleeplock l"
  note a = ctx_acquire [OF assms(1), of ?L, simplified]
  obtain p where "c_proc (mycpu_of (acq ?L s)) = Some p" "p < length (ptable (acq ?L s))"
    using a(2) by (auto simp: ctx_def)
  from sleep_ok [OF ctxD [OF a(2)] this, of "C_sleeplock l"] have
    "sleep (C_sleeplock l) ?L (acq ?L s) = (Wait Switched (slept p (C_sleeplock l) ?L (acq ?L s)) :: (waiting, unit, _) outcome)" .
  moreover have "sl_locked (sleeplocks (acq ?L s) l) \<noteq> 0"
    using assms(2) mach_eq_buf [OF mach_eq_acq] by metis
  ultimately show ?thesis using a(1) by (simp add: acquiresleep_def acquiresleep_retry_def M_defs)
qed

lemma holdingsleep_ok:
  assumes "ctx {} pid s"
  shows "\<exists>t. holdingsleep l s = Ok (sl_locked (sleeplocks s l) \<noteq> 0 \<and> sl_pid (sleeplocks s l) = pid) t \<and>
    mach_eq s t \<and> ctx {} pid t"
proof -
  let ?L = "L_sleeplock l"
  note a = ctx_acquire [OF assms(1), of ?L, simplified]
  have sl: "sleeplocks (acq ?L s) = sleeplocks s" using mach_eq_buf [OF mach_eq_acq] by blast
  show ?thesis
  proof (cases "sl_locked (sleeplocks s l) = 0")
    case True
    note r = ctx_release [OF a(2), of ?L, simplified]
    have "holdingsleep l s = Ok False (rel ?L (acq ?L s))"
      using a(1) r(1) True sl by (simp add: holdingsleep_def M_defs)
    with True r(2) mach_eq_trans [OF mach_eq_acq mach_eq_rel] show ?thesis by auto
  next
    case False
    from ctx_curproc [OF a(2)] obtain p where
      p: "curproc (acq ?L s) = Ok p (pushpop (acq ?L s))" "p_pid (ptable (acq ?L s) ! p) = pid"
         "ctx {?L} pid (pushpop (acq ?L s))" by blast
    note r = ctx_release [OF p(3), of ?L, simplified]
    have "holdingsleep l s = Ok (sl_pid (sleeplocks s l) = pid) (rel ?L (pushpop (acq ?L s)))"
      using a(1) p r(1) False sl by (simp add: holdingsleep_def M_defs)
    moreover have "mach_eq s (rel ?L (pushpop (acq ?L s)))"
      by (intro mach_eq_trans [OF mach_eq_acq mach_eq_trans [OF mach_eq_pushpop mach_eq_rel]])
    ultimately show ?thesis using False r(2) by auto
  qed
qed

section \<open>States up to locks and scheduling\<close>

text \<open>
  \<open>sys_eq s t\<close>: \<open>t\<close> differs from \<open>s\<close> at most in the machine part and in which processes are
  runnable. \<open>does pid m s r u\<close>: started by process \<open>pid\<close> in \<open>s\<close> with no spinlock held, \<open>m\<close>
  returns \<open>r\<close> in the state \<open>u\<close>, up to \<open>sys_eq\<close>, again with no spinlock held.
\<close>

definition sched_free :: "proc \<Rightarrow> proc" where
  "sched_free p = p\<lparr>p_state := UNUSED, p_snapticks := 0\<rparr>"

definition sys_eq :: "'x proc_st_scheme \<Rightarrow> 'x proc_st_scheme \<Rightarrow> bool" where
  "sys_eq s t \<longleftrightarrow>
     t = s\<lparr>cpus := cpus t, if_flag := if_flag t, locks := locks t, ptable := ptable t\<rparr> \<and>
     map sched_free (ptable t) = map sched_free (ptable s)"

lemma sys_eqI:
  "t = s\<lparr>cpus := c, if_flag := fl, locks := lk, ptable := pt\<rparr> \<Longrightarrow> map sched_free pt = map sched_free (ptable s) \<Longrightarrow> sys_eq s t"
  by (simp add: sys_eq_def)

lemma sys_eqE:
  assumes "sys_eq s t"
  obtains c fl lk pt where "t = s\<lparr>cpus := c, if_flag := fl, locks := lk, ptable := pt\<rparr>"
    "map sched_free pt = map sched_free (ptable s)"
proof -
  have "t = s\<lparr>cpus := cpus t, if_flag := if_flag t, locks := locks t, ptable := ptable t\<rparr>"
    "map sched_free (ptable t) = map sched_free (ptable s)"
    using assms by (simp_all add: sys_eq_def)
  then show ?thesis by (rule that)
qed

lemma sys_eq_refl [simp]: "sys_eq s s"
  by (simp add: sys_eq_def)

lemma sys_eq_trans: "sys_eq s t \<Longrightarrow> sys_eq t u \<Longrightarrow> sys_eq s u"
  by (erule sys_eqE, erule sys_eqE) (simp add: sys_eq_def)

lemma sys_eq_sym: "sys_eq s t \<Longrightarrow> sys_eq t s"
  by (erule sys_eqE) (simp add: sys_eq_def)

lemma mach_eq_sys: "mach_eq s t \<Longrightarrow> sys_eq s t"
  by (erule mach_eqE) (simp add: sys_eq_def)

lemma sys_eq_woken: "sys_eq s (woken ch s)"
proof -
  have "map sched_free (map (awaken ch k) ps) = map sched_free ps" for k ps
    by (simp add: awaken_def sched_free_def)
  then show ?thesis by (simp add: sys_eq_def woken_def effect_defs del: map_map)
qed

lemma sys_eq_buf:
  assumes "sys_eq s t"
  shows "sleeplocks t = sleeplocks s" "bufs t = bufs s" "bnext t = bnext s" "bprev t = bprev s"
    "memdisk t = memdisk s" "dtrace t = dtrace s"
  using assms by (auto elim!: sys_eqE)

lemma sys_eq_upd:
  assumes "sys_eq s t"
  shows "sys_eq (upd_sl l f s) (upd_sl l f t)" "sys_eq (upd_buf i g s) (upd_buf i g t)"
    "sys_eq (s\<lparr>bnext := nx\<rparr>) (t\<lparr>bnext := nx\<rparr>)" "sys_eq (s\<lparr>bprev := pv\<rparr>) (t\<lparr>bprev := pv\<rparr>)"
    "sys_eq (s\<lparr>memdisk := d\<rparr>) (t\<lparr>memdisk := d\<rparr>)" "sys_eq (s\<lparr>dtrace := tr\<rparr>) (t\<lparr>dtrace := tr\<rparr>)"
proof -
  obtain c fl lk pt where "t = s\<lparr>cpus := c, if_flag := fl, locks := lk, ptable := pt\<rparr>"
    "map sched_free pt = map sched_free (ptable s)" using assms by (rule sys_eqE)
  then show "sys_eq (upd_sl l f s) (upd_sl l f t)" "sys_eq (upd_buf i g s) (upd_buf i g t)"
    "sys_eq (s\<lparr>bnext := nx\<rparr>) (t\<lparr>bnext := nx\<rparr>)" "sys_eq (s\<lparr>bprev := pv\<rparr>) (t\<lparr>bprev := pv\<rparr>)"
    "sys_eq (s\<lparr>memdisk := d\<rparr>) (t\<lparr>memdisk := d\<rparr>)" "sys_eq (s\<lparr>dtrace := tr\<rparr>) (t\<lparr>dtrace := tr\<rparr>)"
    by (simp_all add: sys_eq_def upd_sl_def upd_buf_def)
qed

definition does :: "u32 \<Rightarrow> ('x proc_st_scheme, 'a) prog \<Rightarrow> 'x proc_st_scheme \<Rightarrow> 'a \<Rightarrow> 'x proc_st_scheme \<Rightarrow> bool" where
  "does pid m s r u \<longleftrightarrow> (\<exists>t. m s = Ok r t \<and> sys_eq u t \<and> ctx {} pid t)"

lemma doesI: "m s = Ok r t \<Longrightarrow> sys_eq u t \<Longrightarrow> ctx {} pid t \<Longrightarrow> does pid m s r u"
  by (auto simp: does_def)

lemma does_eq: "does pid m s r u \<Longrightarrow> sys_eq v u \<Longrightarrow> does pid m s r v"
  unfolding does_def by (meson sys_eq_trans)

lemma does_ret: "ctx {} pid s \<Longrightarrow> sys_eq u s \<Longrightarrow> does pid (ret r) s r u"
  by (auto simp: does_def ret_def)

lemma does_bind:
  assumes "does pid m s a u" "\<And>t. sys_eq u t \<Longrightarrow> ctx {} pid t \<Longrightarrow> does pid (k a) t r v"
  shows "does pid (bindM m k) s r v"
proof -
  from assms(1) obtain t where t: "m s = Ok a t" "sys_eq u t" "ctx {} pid t" by (auto simp: does_def)
  from assms(2) [OF t(2,3)] t(1) show ?thesis by (simp add: does_def bindM_def)
qed

lemma does_seq:
  "does pid m s a u \<Longrightarrow> (\<And>t. sys_eq u t \<Longrightarrow> ctx {} pid t \<Longrightarrow> does pid k t r v) \<Longrightarrow> does pid (seqM m k) s r v"
  unfolding seqM_def by (rule does_bind)

lemma does_mod: "ctx {} pid (h s) \<Longrightarrow> sys_eq u (h s) \<Longrightarrow> does pid (modS h) s () u"
  by (auto simp: does_def modS_def)

lemma does_get_bind: "does pid (k (g s)) s r v \<Longrightarrow> does pid (bindM (getS g) k) s r v"
  by (simp add: does_def bindM_def getS_def)

lemma does_mod_seq: "does pid k (h s) r v \<Longrightarrow> does pid (seqM (modS h) k) s r v"
  by (simp add: does_def seqM_def bindM_def modS_def)

lemma does_acquiresleep:
  assumes "ctx {} pid s" "sl_locked (sleeplocks s l) = 0"
  shows "does pid (acquiresleep l) s () (upd_sl l (\<lambda>k. k\<lparr>sl_locked := 1, sl_pid := pid\<rparr>) s)"
  using acquiresleep_free [OF assms] mach_eq_sys by (auto simp: does_def)

lemma does_holdingsleep:
  assumes "ctx {} pid s"
  shows "does pid (holdingsleep l) s (sl_locked (sleeplocks s l) \<noteq> 0 \<and> sl_pid (sleeplocks s l) = pid) s"
  using holdingsleep_ok [OF assms, of l] mach_eq_sys unfolding does_def by blast

lemma does_releasesleep:
  assumes "ctx {} pid s"
  shows "does pid (releasesleep l) s () (upd_sl l (\<lambda>k. k\<lparr>sl_locked := 0, sl_pid := 0\<rparr>) s)"
proof -
  let ?L = "L_sleeplock l" and ?f = "\<lambda>k. k\<lparr>sl_locked := 0, sl_pid := 0\<rparr>"
  note a = ctx_acquire [OF assms(1), of ?L, simplified]
  have cu: "ctx {?L} pid (upd_sl l ?f (acq ?L s))" using a(2) by simp
  note w = ctx_wakeup [OF cu, of "C_sleeplock l", simplified]
  note r = ctx_release [OF w(2), of ?L, simplified]
  have "sys_eq (upd_sl l ?f s) (rel ?L (woken (C_sleeplock l) (upd_sl l ?f (acq ?L s))))"
    by (intro sys_eq_trans [OF sys_eq_upd(1) sys_eq_trans [OF sys_eq_woken mach_eq_sys [OF mach_eq_rel]]]
        mach_eq_sys [OF mach_eq_acq])
  moreover have "releasesleep l s = Ok () (rel ?L (woken (C_sleeplock l) (upd_sl l ?f (acq ?L s))))"
    using a(1) w(1) r(1) by (simp add: releasesleep_def M_defs)
  ultimately show ?thesis using r(2) by (intro doesI)
qed

section \<open>Rings\<close>

text \<open>
  \<open>path f a xs z\<close>: following \<open>f\<close> from \<open>a\<close> one passes through \<open>xs\<close> and arrives at \<open>z\<close>.
  \<open>ring nx pv xs\<close>: the buffers \<open>xs\<close> hang in this order on the list head, in both directions.
\<close>

fun path :: "('a \<Rightarrow> 'a) \<Rightarrow> 'a \<Rightarrow> 'a list \<Rightarrow> 'a \<Rightarrow> bool" where
  "path f a [] z \<longleftrightarrow> f a = z"
| "path f a (x # xs) z \<longleftrightarrow> f a = x \<and> path f x xs z"

lemma path_append: "path f a (xs @ y # ys) z \<longleftrightarrow> path f a xs y \<and> path f y ys z"
  by (induction xs arbitrary: a) auto

lemma path_update_other: "k \<noteq> a \<Longrightarrow> k \<notin> set xs \<Longrightarrow> path (f(k := v)) a xs z = path f a xs z"
  by (induction xs arbitrary: a) auto

lemma path_last: "path f a xs z \<Longrightarrow> f (last (a # xs)) = z"
  by (induction xs arbitrary: a) auto

lemma path_redirect:
  "path f a xs z \<Longrightarrow> distinct (a # xs) \<Longrightarrow> path (f(last (a # xs) := w)) a xs w"
proof (induction xs arbitrary: a)
  case Nil
  then show ?case by simp
next
  case (Cons x xs)
  have "a \<noteq> last (x # xs)" using Cons.prems(2) by (metis distinct.simps(2) last_in_set list.discI)
  then show ?case using Cons by auto
qed

definition ring :: "nat \<Rightarrow> (nat \<Rightarrow> nat) \<Rightarrow> (nat \<Rightarrow> nat) \<Rightarrow> nat list \<Rightarrow> bool" where
  "ring h nx pv xs \<longleftrightarrow> path nx h xs h \<and> path pv h (rev xs) h \<and> distinct (h # xs)"

lemma ring_empty: "nx h = h \<Longrightarrow> pv h = h \<Longrightarrow> ring h nx pv []"
  by (simp add: ring_def)

lemma last_rev_cons: "last (h # rev xs) = (case xs of [] \<Rightarrow> h | x # _ \<Rightarrow> x)"
  by (cases xs) simp_all

text \<open>Linking a new element in front.\<close>

lemma ring_push:
  assumes r: "ring h nx pv xs" and b: "b \<notin> set xs" "b \<noteq> h"
  defines "nx1 \<equiv> nx(b := nx h)" and "pv1 \<equiv> pv(b := h)"
  defines "pv2 \<equiv> pv1(nx1 h := b)" and "nx2 \<equiv> nx1(h := b)"
  shows "ring h nx2 pv2 (b # xs)"
proof -
  have p: "path nx h xs h" "path pv h (rev xs) h" "distinct (h # xs)" using r by (auto simp: ring_def)
  have first: "nx h = last (h # rev xs)" using p(1) by (cases xs) auto
  have "path nx2 b xs h"
  proof -
    have "path nx1 b xs h" using p(1) b by (cases xs) (auto simp: nx1_def path_update_other)
    then show ?thesis using b p(3) by (simp add: nx2_def path_update_other)
  qed
  moreover have "path pv2 h (rev xs) b"
  proof -
    have "path pv1 h (rev xs) h" using p(2) b by (simp add: pv1_def path_update_other)
    then have "path (pv1(last (h # rev xs) := b)) h (rev xs) b"
      by (rule path_redirect) (use p(3) in auto)
    then show ?thesis using first b by (simp add: pv2_def nx1_def)
  qed
  moreover have "pv2 b = h"
  proof -
    have "nx h \<noteq> b" using first b by (cases xs) auto
    then show ?thesis using b by (simp add: pv2_def pv1_def nx1_def)
  qed
  ultimately show ?thesis
    using b p(3) by (simp add: ring_def path_append nx2_def)
qed

text \<open>Taking an element out.\<close>

lemma ring_unlink:
  assumes r: "ring h nx pv (us @ b # vs)"
  defines "pv1 \<equiv> pv(nx b := pv b)" and "nx1 \<equiv> nx(pv b := nx b)"
  shows "ring h nx1 pv1 (us @ vs)"
proof -
  have p: "path nx h us b" "path nx b vs h" "path pv h (rev vs) b" "path pv b (rev us) h"
    and d: "distinct (h # us @ b # vs)"
    using r by (auto simp: ring_def path_append)
  have nb: "nx b = last (h # rev vs)" using p(2) by (cases vs) auto
  have pb: "pv b = last (h # us)"
    using p(4) by (cases us rule: rev_cases) auto
  have "path nx1 h (us @ vs) h"
  proof (cases vs)
    case Nil
    then show ?thesis
      using path_redirect [OF p(1), of h] d pb p(2) by (simp add: nx1_def)
  next
    case (Cons v vs')
    then have v: "nx b = v" "path nx v vs' h" using p(2) by auto
    have "path nx1 h us v"
      using path_redirect [OF p(1), of v] d pb v(1) by (simp add: nx1_def)
    moreover have "pv b \<notin> set vs" using d pb by (cases us rule: rev_cases) auto
    then have "path nx1 v vs' h" using v(2) Cons by (simp add: nx1_def path_update_other)
    ultimately show ?thesis using Cons by (simp add: path_append)
  qed
  moreover have "path pv1 h (rev (us @ vs)) h"
  proof (cases us rule: rev_cases)
    case Nil
    then show ?thesis
      using path_redirect [OF p(3), of h] d nb p(4) by (simp add: pv1_def)
  next
    case (snoc us' u)
    then have u: "pv b = u" "path pv u (rev us') h" using p(4) by auto
    have "path pv1 h (rev vs) u"
      using path_redirect [OF p(3), of u] d nb u(1) by (simp add: pv1_def)
    moreover have "nx b \<notin> set us" using d nb by (cases vs) auto
    then have "path pv1 u (rev us') h" using u(2) snoc by (simp add: pv1_def path_update_other)
    ultimately show ?thesis using snoc by (simp add: path_append)
  qed
  ultimately show ?thesis using d by (simp add: ring_def)
qed

section \<open>The cache invariant\<close>

definition holds_block :: "u32 \<Rightarrow> buf \<Rightarrow> bool" where
  "holds_block b x \<longleftrightarrow> b_dev x = 1 \<and> b_blockno x = b"

text \<open>The contents of a block as \<open>bread\<close> shows them.\<close>

definition view :: "'x buf_st_scheme \<Rightarrow> u32 \<Rightarrow> u8 list" where
  "view s b =
     (case first_idx (holds_block b) (bufs s) of
        None \<Rightarrow> memdisk s ! unat b
      | Some i \<Rightarrow> b_data (bufs s ! i))"

text \<open>
  What every buffer satisfies between operations of process \<open>pid\<close>: it is idle (and then valid
  and equal to the disk unless it is dirty), or held by \<open>pid\<close>.
\<close>

definition buf_ok :: "u32 \<Rightarrow> u8 list list \<Rightarrow> sleeplock \<Rightarrow> buf \<Rightarrow> bool" where
  "buf_ok pid disk k x \<longleftrightarrow>
     length (b_data x) = BSIZE \<and> b_dev x \<in> {0, 1} \<and> b_flags x \<in> {0, B_VALID, B_VALID OR B_DIRTY} \<and>
     (b_dev x = 1 \<longrightarrow> b_flags x \<noteq> 0 \<and> unat (b_blockno x) < length disk) \<and>
     (b_dev x = 0 \<longrightarrow> b_flags x = 0) \<and>
     (b_refcnt x = 0 \<and> sl_locked k = 0 \<and>
        (b_flags x = B_VALID \<longrightarrow> b_data x = disk ! unat (b_blockno x)) \<or>
      b_refcnt x = 1 \<and> sl_locked k = 1 \<and> sl_pid k = pid \<and> b_dev x = 1)"

definition cache_ok :: "u32 \<Rightarrow> 'x buf_st_scheme \<Rightarrow> bool" where
  "cache_ok pid s \<longleftrightarrow>
     length (bufs s) = NBUF \<and>
     (\<exists>xs. ring NBUF (bnext s) (bprev s) xs \<and> set xs = {..<NBUF}) \<and>
     (\<forall>i < NBUF. buf_ok pid (memdisk s) (sleeplocks s (SL_buf i)) (bufs s ! i)) \<and>
     (\<forall>i < NBUF. \<forall>j < NBUF. b_dev (bufs s ! i) = 1 \<and> b_dev (bufs s ! j) = 1 \<and>
        b_blockno (bufs s ! i) = b_blockno (bufs s ! j) \<longrightarrow> i = j) \<and>
     (\<forall>d \<in> set (memdisk s). length d = BSIZE)"

lemma cache_ok_sys: "sys_eq s t \<Longrightarrow> cache_ok pid t = cache_ok pid s"
  by (erule sys_eqE) (simp add: cache_ok_def)

lemma view_sys: "sys_eq s t \<Longrightarrow> view t = view s"
  by (erule sys_eqE) (simp add: view_def fun_eq_iff split: option.split)

lemma view_hit:
  assumes "cache_ok pid s" "i < NBUF" "holds_block b (bufs s ! i)"
  shows "view s b = b_data (bufs s ! i)"
proof -
  have len: "length (bufs s) = NBUF" using assms(1) by (simp add: cache_ok_def)
  have "first_idx (holds_block b) (bufs s) = Some i"
  proof (rule first_idx_SomeI)
    fix j assume "j < i"
    show "\<not> holds_block b (bufs s ! j)"
    proof
      assume "holds_block b (bufs s ! j)"
      moreover have "\<And>k l. k < NBUF \<Longrightarrow> l < NBUF \<Longrightarrow> b_dev (bufs s ! k) = 1 \<Longrightarrow> b_dev (bufs s ! l) = 1 \<Longrightarrow>
          b_blockno (bufs s ! k) = b_blockno (bufs s ! l) \<Longrightarrow> k = l"
        using assms(1) by (simp add: cache_ok_def)
      from this [of j i] have "holds_block b (bufs s ! j) \<Longrightarrow> j = i"
        using assms(2,3) \<open>j < i\<close> by (simp add: holds_block_def)
      ultimately show False using \<open>j < i\<close> by simp
    qed
  qed (use assms(2,3) len in auto)
  then show ?thesis by (simp add: view_def)
qed

lemma view_miss:
  assumes "length (bufs s) = NBUF" "\<And>i. i < NBUF \<Longrightarrow> \<not> holds_block b (bufs s ! i)"
  shows "view s b = memdisk s ! unat b"
proof -
  have "first_idx (holds_block b) (bufs s) = None"
    using assms by (auto simp: first_idx_None_iff in_set_conv_nth)
  then show ?thesis by (simp add: view_def)
qed

section \<open>bget\<close>

lemma bget_lookup_find:
  "path (bnext s) a xs NBUF \<Longrightarrow> NBUF \<notin> set xs \<Longrightarrow> length xs < fuel \<Longrightarrow>
   bget_lookup fuel (bnext s a) dev blk s =
     Ok (find (\<lambda>i. b_dev (bufs s ! i) = dev \<and> b_blockno (bufs s ! i) = blk) xs) s"
proof (induction xs arbitrary: a fuel)
  case Nil
  then show ?case by (cases fuel) (simp_all add: M_defs)
next
  case (Cons x xs)
  then obtain f where f: "fuel = Suc f" by (cases fuel) auto
  have "bnext s a = x" "x \<noteq> NBUF" using Cons.prems by auto
  moreover have "bget_lookup f (bnext s x) dev blk s =
     Ok (find (\<lambda>i. b_dev (bufs s ! i) = dev \<and> b_blockno (bufs s ! i) = blk) xs) s"
    by (rule Cons.IH) (use Cons.prems f in auto)
  ultimately show ?case using f by (simp add: M_defs)
qed

lemma bget_victim_find:
  "path (bprev s) a xs NBUF \<Longrightarrow> NBUF \<notin> set xs \<Longrightarrow> length xs < fuel \<Longrightarrow>
   bget_victim fuel (bprev s a) s =
     Ok (find (\<lambda>i. b_refcnt (bufs s ! i) = 0 \<and> b_flags (bufs s ! i) AND B_DIRTY = 0) xs) s"
proof (induction xs arbitrary: a fuel)
  case Nil
  then show ?case by (cases fuel) (simp_all add: M_defs)
next
  case (Cons x xs)
  then obtain f where f: "fuel = Suc f" by (cases fuel) auto
  have "bprev s a = x" "x \<noteq> NBUF" using Cons.prems by auto
  moreover have "bget_victim f (bprev s x) s =
     Ok (find (\<lambda>i. b_refcnt (bufs s ! i) = 0 \<and> b_flags (bufs s ! i) AND B_DIRTY = 0) xs) s"
    by (rule Cons.IH) (use Cons.prems f in auto)
  ultimately show ?case using f by (simp add: M_defs)
qed

lemma find_Some_props: "find P xs = Some i \<Longrightarrow> i \<in> set xs \<and> P i"
  by (auto simp: find_Some_iff)

text \<open>The buffer record that \<open>bget\<close> leaves in slot \<open>i\<close> for block \<open>b\<close>.\<close>

definition reserved :: "u32 \<Rightarrow> buf \<Rightarrow> buf" where
  "reserved b x =
     (if holds_block b x then x\<lparr>b_refcnt := b_refcnt x + 1\<rparr>
      else x\<lparr>b_dev := 1, b_blockno := b, b_flags := 0, b_refcnt := 1\<rparr>)"

definition lock_buf :: "u32 \<Rightarrow> nat \<Rightarrow> 'x buf_st_scheme \<Rightarrow> 'x buf_st_scheme" where
  "lock_buf pid i = upd_sl (SL_buf i) (\<lambda>k. k\<lparr>sl_locked := 1, sl_pid := pid\<rparr>)"

definition available :: "u32 \<Rightarrow> 'x buf_st_scheme \<Rightarrow> nat \<Rightarrow> bool" where
  "available b s i \<longleftrightarrow> i < NBUF \<and> b_refcnt (bufs s ! i) = 0 \<and>
     (holds_block b (bufs s ! i) \<or>
      (\<forall>j < NBUF. \<not> holds_block b (bufs s ! j)) \<and> b_flags (bufs s ! i) AND B_DIRTY = 0)"

lemma bget_does:
  assumes c: "ctx {} pid s" and ok: "cache_ok pid s"
    and free: "\<forall>i < NBUF. holds_block b (bufs s ! i) \<longrightarrow> b_refcnt (bufs s ! i) = 0"
    and avail: "\<exists>i. available b s i"
  shows "\<exists>i. available b s i \<and> does pid (bget 1 b) s i (lock_buf pid i (upd_buf i (reserved b) s))"
proof -
  obtain xs where xs: "path (bnext s) NBUF xs NBUF" "path (bprev s) NBUF (rev xs) NBUF" "distinct (NBUF # xs)"
    "set xs = {..<NBUF}"
    using ok by (auto simp: cache_ok_def ring_def)
  have lx: "length xs = NBUF" using xs(3,4) distinct_card [of xs] by simp
  let ?a = "acq L_bcache s"
  note a = ctx_acquire [OF c, of L_bcache, simplified]
  have me: "mach_eq s ?a" by (rule mach_eq_acq)
  have same: "bufs ?a = bufs s" "bnext ?a = bnext s" "bprev ?a = bprev s" "sleeplocks ?a = sleeplocks s"
    using mach_eq_buf [OF me] by auto
  have lk: "bget_lookup (NBUF + 1) (bnext s NBUF) 1 b ?a = Ok (find (\<lambda>i. holds_block b (bufs s ! i)) xs) ?a"
    using bget_lookup_find [of ?a NBUF xs "NBUF + 1" 1 b] xs lx same by (simp add: holds_block_def)
  have vc: "bget_victim (NBUF + 1) (bprev s NBUF) ?a =
      Ok (find (\<lambda>i. b_refcnt (bufs s ! i) = 0 \<and> b_flags (bufs s ! i) AND B_DIRTY = 0) (rev xs)) ?a"
    using bget_victim_find [of ?a NBUF "rev xs" "NBUF + 1"] xs lx same by simp
  have fin: "does pid (seqM (release L_bcache) (seqM (acquiresleep (SL_buf i)) (ret i))) (upd_buf i f ?a) i
      (lock_buf pid i (upd_buf i f s))" if i: "available b s i" for i f
  proof -
    have cu: "ctx {L_bcache} pid (upd_buf i f ?a)" using a(2) by simp
    note r = ctx_release [OF cu, of L_bcache, simplified]
    have eq: "sys_eq (upd_buf i f s) (rel L_bcache (upd_buf i f ?a))"
      by (intro sys_eq_trans [OF sys_eq_upd(2) mach_eq_sys [OF mach_eq_rel]] mach_eq_sys [OF me])
    have d1: "does pid (release L_bcache) (upd_buf i f ?a) () (upd_buf i f s)"
      using r eq by (intro doesI) auto
    show ?thesis
    proof (rule does_seq [OF d1])
      fix t :: "'a buf_st_scheme" assume t: "sys_eq (upd_buf i f s) t" "ctx {} pid t"
      have "buf_ok pid (memdisk s) (sleeplocks s (SL_buf i)) (bufs s ! i)" "b_refcnt (bufs s ! i) = 0"
        using ok i by (auto simp: cache_ok_def available_def)
      then have "sl_locked (sleeplocks s (SL_buf i)) = 0" by (auto simp: buf_ok_def)
      then have "sl_locked (sleeplocks t (SL_buf i)) = 0"
        using sys_eq_buf(1) [OF t(1)] by (simp add: upd_buf_def)
      from does_acquiresleep [OF t(2) this] have "does pid (acquiresleep (SL_buf i)) t () (lock_buf pid i t)"
        by (simp add: lock_buf_def)
      then show "does pid (seqM (acquiresleep (SL_buf i)) (ret i)) t i (lock_buf pid i (upd_buf i f s))"
      proof (rule does_seq)
        fix u :: "'a buf_st_scheme" assume u: "sys_eq (lock_buf pid i t) u" "ctx {} pid u"
        have "sys_eq (lock_buf pid i (upd_buf i f s)) (lock_buf pid i t)"
          unfolding lock_buf_def by (rule sys_eq_upd(1) [OF t(1)])
        from sys_eq_trans [OF this u(1)] show "does pid (ret i) u i (lock_buf pid i (upd_buf i f s))"
          by (rule does_ret [OF u(2)])
      qed
    qed
  qed
  show ?thesis
  proof (cases "find (\<lambda>i. holds_block b (bufs s ! i)) xs")
    case (Some i)
    then have i: "i < NBUF" "holds_block b (bufs s ! i)" using find_Some_props [OF Some] xs(4) by auto
    then have av: "available b s i" using free by (simp add: available_def)
    have "upd_buf i (\<lambda>x. x\<lparr>b_refcnt := b_refcnt x + 1\<rparr>) s = upd_buf i (reserved b) s"
      using i(2) by (simp add: upd_buf_def reserved_def)
    then have "does pid (bget 1 b) s i (lock_buf pid i (upd_buf i (reserved b) s))"
      using fin [OF av, of "\<lambda>x. x\<lparr>b_refcnt := b_refcnt x + 1\<rparr>"] a(1) lk Some same
      by (simp add: does_def bget_def M_defs)
    with av show ?thesis by blast
  next
    case None
    then have none: "\<forall>j < NBUF. \<not> holds_block b (bufs s ! j)" using xs(4) by (auto simp: find_None_iff)
    obtain v where v: "find (\<lambda>i. b_refcnt (bufs s ! i) = 0 \<and> b_flags (bufs s ! i) AND B_DIRTY = 0) (rev xs) = Some v"
      using avail none xs(4)
      by (cases "find (\<lambda>i. b_refcnt (bufs s ! i) = 0 \<and> b_flags (bufs s ! i) AND B_DIRTY = 0) (rev xs)")
        (auto simp: find_None_iff available_def)
    then have av: "available b s v" using find_Some_props [OF v] xs(4) none by (auto simp: available_def)
    have "upd_buf v (\<lambda>x. x\<lparr>b_dev := 1, b_blockno := b, b_flags := 0, b_refcnt := 1\<rparr>) s = upd_buf v (reserved b) s"
      using none av by (simp add: upd_buf_def reserved_def available_def)
    then have "does pid (bget 1 b) s v (lock_buf pid v (upd_buf v (reserved b) s))"
      using fin [OF av, of "\<lambda>x. x\<lparr>b_dev := 1, b_blockno := b, b_flags := 0, b_refcnt := 1\<rparr>"] a(1) lk vc v None same
      by (simp add: does_def bget_def M_defs)
    with av show ?thesis by blast
  qed
qed

section \<open>bread, bwrite and brelse\<close>

definition locked_by :: "u32 \<Rightarrow> nat \<Rightarrow> 'x buf_st_scheme \<Rightarrow> bool" where
  "locked_by pid i s \<longleftrightarrow> sl_locked (sleeplocks s (SL_buf i)) \<noteq> 0 \<and> sl_pid (sleeplocks s (SL_buf i)) = pid"

lemma upd_buf_sel [simp]:
  "bufs (upd_buf i f s) = (bufs s)[i := f (bufs s ! i)]" "sleeplocks (upd_buf i f s) = sleeplocks s"
  "memdisk (upd_buf i f s) = memdisk s" "dtrace (upd_buf i f s) = dtrace s"
  "bnext (upd_buf i f s) = bnext s" "bprev (upd_buf i f s) = bprev s"
  by (simp_all add: upd_buf_def)

lemma upd_sl_sel [simp]:
  "bufs (upd_sl l f s) = bufs s" "sleeplocks (upd_sl l f s) = (sleeplocks s)(l := f (sleeplocks s l))"
  "memdisk (upd_sl l f s) = memdisk s" "dtrace (upd_sl l f s) = dtrace s"
  "bnext (upd_sl l f s) = bnext s" "bprev (upd_sl l f s) = bprev s"
  by (simp_all add: upd_sl_def)

text \<open>What the driver does to a buffer and the disk.\<close>

definition ide_fx :: "nat \<Rightarrow> 'x buf_st_scheme \<Rightarrow> 'x buf_st_scheme" where
  "ide_fx i s =
     (let x = bufs s ! i; b = unat (b_blockno x)
      in if b_flags x AND B_DIRTY \<noteq> 0 then
           (upd_buf i (\<lambda>x. x\<lparr>b_flags := (b_flags x AND NOT B_DIRTY) OR B_VALID\<rparr>) s)
             \<lparr>memdisk := (memdisk s)[b := b_data x], dtrace := dtrace s @ [(b, b_data x)]\<rparr>
         else upd_buf i (\<lambda>x. x\<lparr>b_data := memdisk s ! b, b_flags := b_flags x OR B_VALID\<rparr>) s)"

lemma iderw_does:
  assumes "ctx {} pid s" "locked_by pid i s" "i < length (bufs s)"
    and "b_flags (bufs s ! i) AND (B_VALID OR B_DIRTY) \<noteq> B_VALID" "b_dev (bufs s ! i) = 1"
    and "unat (b_blockno (bufs s ! i)) < length (memdisk s)"
  shows "does pid (iderw i) s () (ide_fx i s)"
proof -
  from does_holdingsleep [OF assms(1), of "SL_buf i"] obtain t where
    t: "holdingsleep (SL_buf i) s = Ok True t" "sys_eq s t" "ctx {} pid t"
    using assms(2) by (auto simp: does_def locked_by_def)
  note f = sys_eq_buf [OF t(2)]
  have "iderw i s = Ok () (ide_fx i t)"
    using t(1) assms(3-6) f
    by (simp add: iderw_def M_defs ide_fx_def Let_def upd_buf_def)
  moreover have "sys_eq (ide_fx i s) (ide_fx i t)"
    using sys_eq_upd(2) [OF t(2)] sys_eq_upd(5,6) [of "upd_buf i _ s" "upd_buf i _ t"] f
    by (auto simp: ide_fx_def Let_def intro!: sys_eq_upd t(2))
  moreover have "ctx {} pid (ide_fx i t)" using t(3) by (simp add: ide_fx_def Let_def)
  ultimately show ?thesis by (rule doesI)
qed

definition opened :: "u32 \<Rightarrow> u8 list \<Rightarrow> buf \<Rightarrow> buf" where
  "opened b d x =
     (if holds_block b x then x\<lparr>b_refcnt := 1\<rparr>
      else x\<lparr>b_dev := 1, b_blockno := b, b_refcnt := 1, b_data := d, b_flags := B_VALID\<rparr>)"

lemma bread_does:
  assumes c: "ctx {} pid s" and ok: "cache_ok pid s" and b: "unat b < length (memdisk s)"
    and free: "\<forall>i < NBUF. holds_block b (bufs s ! i) \<longrightarrow> b_refcnt (bufs s ! i) = 0"
    and avail: "\<exists>i. available b s i"
  shows "\<exists>i. available b s i \<and>
    does pid (bread 1 b) s i (lock_buf pid i (upd_buf i (opened b (memdisk s ! unat b)) s))"
proof -
  obtain i where i: "available b s i" "does pid (bget 1 b) s i (lock_buf pid i (upd_buf i (reserved b) s))"
    using bget_does [OF c ok free avail] by blast
  have len: "length (bufs s) = NBUF" using ok by (simp add: cache_ok_def)
  have il: "i < NBUF" "b_refcnt (bufs s ! i) = 0" using i(1) by (auto simp: available_def)
  let ?u = "lock_buf pid i (upd_buf i (reserved b) s)"
  let ?v = "lock_buf pid i (upd_buf i (opened b (memdisk s ! unat b)) s)"
  have "does pid (bread 1 b) s i ?v"
    unfolding bread_def
  proof (rule does_bind [OF i(2)], rule does_get_bind)
    fix t :: "'a buf_st_scheme" assume t: "sys_eq ?u t" "ctx {} pid t"
    note f = sys_eq_buf [OF t(1)]
    have x: "bufs t ! i = reserved b (bufs s ! i)" using f(2) il len by (simp add: lock_buf_def)
    have bo: "buf_ok pid (memdisk s) (sleeplocks s (SL_buf i)) (bufs s ! i)" using ok il by (simp add: cache_ok_def)
    show "does pid (seqM (whenM (b_flags (bufs t ! i) AND B_VALID = 0) (iderw i)) (ret i)) t i ?v"
    proof (cases "holds_block b (bufs s ! i)")
      case True
      then have "b_flags (bufs t ! i) AND B_VALID \<noteq> 0" and r: "b_refcnt (bufs s ! i) = 0"
        using x bo il by (auto simp: reserved_def buf_ok_def holds_block_def B_VALID_def B_DIRTY_def)
      moreover have "?u = ?v" using True r by (simp add: upd_buf_def reserved_def opened_def)
      ultimately show ?thesis using t by (simp add: whenM_def does_def M_defs)
    next
      case False
      then have x': "b_flags (bufs t ! i) = 0" "b_dev (bufs t ! i) = 1" "b_blockno (bufs t ! i) = b"
        by (auto simp: x reserved_def)
      have lb: "locked_by pid i t" using f(1) by (simp add: locked_by_def lock_buf_def)
      have "does pid (iderw i) t () (ide_fx i t)"
        by (rule iderw_does [OF t(2) lb])
          (use f x' il len b in \<open>simp_all add: lock_buf_def B_VALID_def B_DIRTY_def\<close>)
      moreover have "sys_eq ?v (ide_fx i t)"
      proof -
        have "ide_fx i t = upd_buf i (\<lambda>x. x\<lparr>b_data := memdisk s ! unat b, b_flags := b_flags x OR B_VALID\<rparr>) t"
          using x' f by (simp add: ide_fx_def lock_buf_def)
        moreover have "?v = upd_buf i (\<lambda>x. x\<lparr>b_data := memdisk s ! unat b, b_flags := b_flags x OR B_VALID\<rparr>) ?u"
          using False il len
          by (intro buf_st.equality) (simp_all add: lock_buf_def upd_buf_def upd_sl_def opened_def reserved_def)
        ultimately show ?thesis using sys_eq_upd(2) [OF t(1)] by simp
      qed
      ultimately have "does pid (iderw i) t () ?v" by (rule does_eq)
      then have "does pid (seqM (iderw i) (ret i)) t i ?v"
        by (rule does_seq) (rule does_ret)
      then show ?thesis using x'(1) by (simp add: whenM_def)
    qed
  qed
  with i(1) show ?thesis by blast
qed

text \<open>Writing a held buffer through to the disk.\<close>

definition written :: "nat \<Rightarrow> 'x buf_st_scheme \<Rightarrow> 'x buf_st_scheme" where
  "written i s =
     (let x = bufs s ! i; b = unat (b_blockno x)
      in (upd_buf i (\<lambda>x. x\<lparr>b_flags := B_VALID\<rparr>) s)
           \<lparr>memdisk := (memdisk s)[b := b_data x], dtrace := dtrace s @ [(b, b_data x)]\<rparr>)"

definition held :: "u32 \<Rightarrow> nat \<Rightarrow> 'x buf_st_scheme \<Rightarrow> bool" where
  "held pid i s \<longleftrightarrow> i < NBUF \<and> b_refcnt (bufs s ! i) = 1 \<and> b_dev (bufs s ! i) = 1 \<and> locked_by pid i s \<and>
     unat (b_blockno (bufs s ! i)) < length (memdisk s) \<and> b_flags (bufs s ! i) \<in> {B_VALID, B_VALID OR B_DIRTY}"

lemma sys_eq_written: "sys_eq s t \<Longrightarrow> sys_eq (written i s) (written i t)"
  by (erule sys_eqE) (simp add: sys_eq_def written_def Let_def upd_buf_def)

lemma bwrite_does:
  assumes c: "ctx {} pid s" and len: "length (bufs s) = NBUF" and h: "held pid i s"
  shows "does pid (bwrite i) s () (written i s)"
proof -
  have lb: "locked_by pid i s" using h by (simp add: held_def)
  from does_holdingsleep [OF c, of "SL_buf i"] obtain t where
    t: "holdingsleep (SL_buf i) s = Ok True t" "sys_eq s t" "ctx {} pid t"
    using lb by (auto simp: does_def locked_by_def)
  let ?t = "upd_buf i (\<lambda>x. x\<lparr>b_flags := b_flags x OR B_DIRTY\<rparr>) t"
  note f = sys_eq_buf [OF t(2)]
  have dirty: "b_flags (bufs ?t ! i) = B_VALID OR B_DIRTY"
    using h f len by (auto simp: held_def B_VALID_def B_DIRTY_def)
  have "does pid (iderw i) ?t () (ide_fx i ?t)"
    by (rule iderw_does) (use t(3) h f len dirty in \<open>auto simp: held_def locked_by_def B_VALID_def B_DIRTY_def\<close>)
  moreover have "ide_fx i ?t = written i t"
  proof -
    have il: "i < length (bufs t)" using h f len by (simp add: held_def)
    have "b_flags (bufs ?t ! i) AND B_DIRTY \<noteq> 0" unfolding dirty by (simp add: B_VALID_def B_DIRTY_def)
    moreover have "((b_flags (bufs t ! i) OR B_DIRTY) AND NOT B_DIRTY) OR B_VALID = B_VALID"
      using h f by (auto simp: held_def B_VALID_def B_DIRTY_def)
    ultimately show ?thesis using il unfolding ide_fx_def written_def Let_def
      by (simp only: if_True simp_thms) (simp add: upd_buf_def)
  qed
  ultimately have "does pid (iderw i) ?t () (written i s)"
    using does_eq [OF _ sys_eq_written [OF t(2)]] by simp
  then show ?thesis using t(1) by (simp add: does_def bwrite_def M_defs)
qed

text \<open>Giving a held buffer back: it becomes the most recently used one.\<close>

definition front_links :: "nat \<Rightarrow> (nat \<Rightarrow> nat) \<times> (nat \<Rightarrow> nat) \<Rightarrow> (nat \<Rightarrow> nat) \<times> (nat \<Rightarrow> nat)" where
  "front_links i np =
     (let nx = fst np; pv = snd np;
          pv1 = pv(nx i := pv i);
          nx1 = nx(pv1 i := nx i);
          nx2 = nx1(i := nx1 NBUF);
          pv2 = pv1(i := NBUF);
          pv3 = pv2(nx2 NBUF := i)
      in (nx2(NBUF := i), pv3))"

definition released :: "nat \<Rightarrow> 'x buf_st_scheme \<Rightarrow> 'x buf_st_scheme" where
  "released i s =
     (upd_sl (SL_buf i) (\<lambda>k. k\<lparr>sl_locked := 0, sl_pid := 0\<rparr>) (upd_buf i (\<lambda>x. x\<lparr>b_refcnt := 0\<rparr>) s))
       \<lparr>bnext := fst (front_links i (bnext s, bprev s)), bprev := snd (front_links i (bnext s, bprev s))\<rparr>"

lemma move_front:
  "seqM (modS (\<lambda>s. s\<lparr>bprev := (bprev s)(bnext s i := bprev s i)\<rparr>))
     (seqM (modS (\<lambda>s. s\<lparr>bnext := (bnext s)(bprev s i := bnext s i)\<rparr>)) (link_front i)) s =
   Ok () (s\<lparr>bnext := fst (front_links i (bnext s, bprev s)), bprev := snd (front_links i (bnext s, bprev s))\<rparr>)"
  by (simp add: M_defs link_front_def front_links_def Let_def del: fun_upd_apply)

lemma brelse_does:
  assumes c: "ctx {} pid s" and len: "length (bufs s) = NBUF" and h: "held pid i s"
  shows "does pid (brelse i) s () (released i s)"
proof -
  let ?l = "upd_sl (SL_buf i) (\<lambda>k. k\<lparr>sl_locked := 0, sl_pid := 0\<rparr>)"
  have lb: "locked_by pid i s" using h by (simp add: held_def)
  have "does pid (holdingsleep (SL_buf i)) s True s"
    using does_holdingsleep [OF c, of "SL_buf i"] lb by (simp add: locked_by_def)
  then show ?thesis
    unfolding brelse_def
  proof (rule does_bind)
    fix t :: "'a buf_st_scheme" assume t: "sys_eq s t" "ctx {} pid t"
    have "does pid (releasesleep (SL_buf i)) t () (?l s)"
      by (rule does_eq [OF does_releasesleep [OF t(2)] sys_eq_upd(1) [OF t(1)]])
    then have "does pid (seqM (releasesleep (SL_buf i)) (seqM (acquire L_bcache)
       (seqM (modS (upd_buf i (\<lambda>x. x\<lparr>b_refcnt := b_refcnt x - 1\<rparr>)))
         (bindM (getS (\<lambda>s. b_refcnt (bufs s ! i))) (\<lambda>rc. seqM (whenM (rc = 0)
            (seqM (modS (\<lambda>s. s\<lparr>bprev := (bprev s)(bnext s i := bprev s i)\<rparr>))
              (seqM (modS (\<lambda>s. s\<lparr>bnext := (bnext s)(bprev s i := bnext s i)\<rparr>)) (link_front i))))
            (release L_bcache)))))) t () (released i s)"
    proof (rule does_seq)
      fix u :: "'a buf_st_scheme" assume u: "sys_eq (?l s) u" "ctx {} pid u"
      note a = ctx_acquire [OF u(2), of L_bcache, simplified]
      have eq: "sys_eq (?l s) (acq L_bcache u)" by (rule sys_eq_trans [OF u(1) mach_eq_sys [OF mach_eq_acq]])
      define v where "v = acq L_bcache u"
      note f = sys_eq_buf [OF eq, folded v_def]
      have rc: "b_refcnt (bufs v ! i) = 1" "i < length (bufs v)" using f(2) h len by (auto simp: held_def)
      define w where "w = (upd_buf i (\<lambda>x. x\<lparr>b_refcnt := 0\<rparr>) v)
        \<lparr>bnext := fst (front_links i (bnext s, bprev s)), bprev := snd (front_links i (bnext s, bprev s))\<rparr>"
      have run: "(seqM (modS (upd_buf i (\<lambda>x. x\<lparr>b_refcnt := b_refcnt x - 1\<rparr>)))
         (bindM (getS (\<lambda>s. b_refcnt (bufs s ! i))) (\<lambda>rc. seqM (whenM (rc = 0)
            (seqM (modS (\<lambda>s. s\<lparr>bprev := (bprev s)(bnext s i := bprev s i)\<rparr>))
              (seqM (modS (\<lambda>s. s\<lparr>bnext := (bnext s)(bprev s i := bnext s i)\<rparr>)) (link_front i))))
            (release L_bcache)))) v = release L_bcache w"
      proof -
        let ?w = "upd_buf i (\<lambda>x. x\<lparr>b_refcnt := 0\<rparr>) v"
        have "upd_buf i (\<lambda>x. x\<lparr>b_refcnt := b_refcnt x - 1\<rparr>) v = ?w" using rc by (simp add: upd_buf_def)
        moreover have "b_refcnt (bufs ?w ! i) = 0" using rc by simp
        ultimately show ?thesis
          using move_front [of i ?w] f(3,4) by (simp add: seqM_def bindM_def getS_def modS_def whenM_def w_def)
      qed
      have cw: "ctx {L_bcache} pid w" using a(2) by (simp add: w_def v_def)
      note r = ctx_release [OF cw, of L_bcache, simplified]
      have rel: "released i s = (upd_buf i (\<lambda>x. x\<lparr>b_refcnt := 0\<rparr>) (?l s))
          \<lparr>bnext := fst (front_links i (bnext s, bprev s)), bprev := snd (front_links i (bnext s, bprev s))\<rparr>"
        by (simp add: released_def upd_buf_def upd_sl_def)
      have "sys_eq (released i s) w"
        unfolding w_def rel by (intro sys_eq_upd eq [folded v_def])
      then have "sys_eq (released i s) (rel L_bcache w)"
        by (rule sys_eq_trans [OF _ mach_eq_sys [OF mach_eq_rel]])
      with r a(1) run show "does pid (seqM (acquire L_bcache)
       (seqM (modS (upd_buf i (\<lambda>x. x\<lparr>b_refcnt := b_refcnt x - 1\<rparr>)))
         (bindM (getS (\<lambda>s. b_refcnt (bufs s ! i))) (\<lambda>rc. seqM (whenM (rc = 0)
            (seqM (modS (\<lambda>s. s\<lparr>bprev := (bprev s)(bnext s i := bprev s i)\<rparr>))
              (seqM (modS (\<lambda>s. s\<lparr>bnext := (bnext s)(bprev s i := bnext s i)\<rparr>)) (link_front i))))
            (release L_bcache))))) u () (released i s)"
        by (intro doesI [where t = "rel L_bcache w"]) (simp_all add: seqM_def bindM_def v_def)
    qed
    then show "does pid (if \<not> True then panic ''brelse'' else seqM (releasesleep (SL_buf i)) (seqM (acquire L_bcache)
       (seqM (modS (upd_buf i (\<lambda>x. x\<lparr>b_refcnt := b_refcnt x - 1\<rparr>)))
         (bindM (getS (\<lambda>s. b_refcnt (bufs s ! i))) (\<lambda>rc. seqM (whenM (rc = 0)
            (seqM (modS (\<lambda>s. s\<lparr>bprev := (bprev s)(bnext s i := bprev s i)\<rparr>))
              (seqM (modS (\<lambda>s. s\<lparr>bnext := (bnext s)(bprev s i := bnext s i)\<rparr>)) (link_front i))))
            (release L_bcache)))))) t () (released i s)"
      by simp
  qed
qed

section \<open>The operations keep the invariant\<close>

lemma flag_distinct [simp]: "B_VALID \<noteq> 0" "B_DIRTY \<noteq> 0" "B_VALID OR B_DIRTY \<noteq> 0" "B_VALID OR B_DIRTY \<noteq> B_VALID"
  "B_VALID \<noteq> B_VALID OR B_DIRTY"
  by (simp_all add: B_VALID_def B_DIRTY_def)

lemma cache_okD:
  assumes "cache_ok pid s"
  shows "length (bufs s) = NBUF"
    and "i < NBUF \<Longrightarrow> buf_ok pid (memdisk s) (sleeplocks s (SL_buf i)) (bufs s ! i)"
    and "i < NBUF \<Longrightarrow> j < NBUF \<Longrightarrow> holds_block b (bufs s ! i) \<Longrightarrow> holds_block b (bufs s ! j) \<Longrightarrow> i = j"
    and "\<And>d. d \<in> set (memdisk s) \<Longrightarrow> length d = BSIZE"
  using assms unfolding cache_ok_def holds_block_def by blast+

lemma cache_ok_update:
  assumes ok: "cache_ok pid s" and i: "i < NBUF" and bt: "bufs t = (bufs s)[i := x]"
    and sl: "\<And>j. j \<noteq> i \<Longrightarrow> sleeplocks t (SL_buf j) = sleeplocks s (SL_buf j)"
    and bo: "buf_ok pid (memdisk t) (sleeplocks t (SL_buf i)) x"
    and rg: "\<exists>xs. ring NBUF (bnext t) (bprev t) xs \<and> set xs = {..<NBUF}"
    and un: "\<And>j. b_dev x = 1 \<Longrightarrow> j < NBUF \<Longrightarrow> j \<noteq> i \<Longrightarrow> \<not> holds_block (b_blockno x) (bufs s ! j)"
    and dk: "length (memdisk t) = length (memdisk s)" "\<And>d. d \<in> set (memdisk t) \<Longrightarrow> length d = BSIZE"
      "\<And>j. j < NBUF \<Longrightarrow> j \<noteq> i \<Longrightarrow> b_dev (bufs s ! j) = 1 \<Longrightarrow>
        memdisk t ! unat (b_blockno (bufs s ! j)) = memdisk s ! unat (b_blockno (bufs s ! j))"
  shows "cache_ok pid t"
proof -
  have len: "length (bufs s) = NBUF" using ok by (rule cache_okD)
  have "buf_ok pid (memdisk t) (sleeplocks t (SL_buf j)) (bufs t ! j)" if j: "j < NBUF" for j
  proof (cases "j = i")
    case True
    then show ?thesis using bo i bt len by simp
  next
    case False
    then have "buf_ok pid (memdisk s) (sleeplocks s (SL_buf j)) (bufs t ! j)"
      using cache_okD(2) [OF ok j] bt by simp
    then show ?thesis using False dk(1) dk(3) [of j] j sl [OF False] bt unfolding buf_ok_def by auto
  qed
  moreover have "k = l" if "k < NBUF" "l < NBUF" "b_dev (bufs t ! k) = 1" "b_dev (bufs t ! l) = 1"
      "b_blockno (bufs t ! k) = b_blockno (bufs t ! l)" for k l
    using that bt len i un [of k] un [of l] cache_okD(3) [OF ok, of k l "b_blockno (bufs s ! k)"]
    by (cases "k = i"; cases "l = i") (auto simp: holds_block_def)
  ultimately show ?thesis using rg dk bt len unfolding cache_ok_def by auto
qed

lemma ring_front:
  assumes "\<exists>xs. ring NBUF (bnext s) (bprev s) xs \<and> set xs = {..<NBUF}" "i < NBUF"
  shows "\<exists>xs. ring NBUF (bnext (released i s)) (bprev (released i s)) xs \<and> set xs = {..<NBUF}"
proof -
  from assms obtain xs where r: "ring NBUF (bnext s) (bprev s) xs" and sx: "set xs = {..<NBUF}" by blast
  from sx assms(2) have "i \<in> set xs" by simp
  then obtain us vs where uv: "xs = us @ i # vs" by (meson split_list)
  have d: "distinct (NBUF # us @ i # vs)" using r uv by (simp add: ring_def)
  note u = ring_unlink [OF r [unfolded uv]]
  have ni: "bnext s i \<noteq> i"
  proof
    assume "bnext s i = i"
    moreover have "path (bnext s) i vs NBUF" using r uv by (simp add: ring_def path_append)
    ultimately show False using d by (cases vs) auto
  qed
  have "i \<notin> set (us @ vs)" "i \<noteq> NBUF" using d by auto
  from ring_push [OF u this] have
    "ring NBUF (bnext (released i s)) (bprev (released i s)) (i # us @ vs)"
    using ni by (simp add: released_def front_links_def Let_def fun_upd_other [of i "bnext s i"] del: fun_upd_apply)
  moreover have "set (i # us @ vs) = {..<NBUF}" using sx uv by auto
  ultimately show ?thesis by blast
qed

lemma view_update:
  assumes "cache_ok pid s" "cache_ok pid t" "i < NBUF" "bufs t = (bufs s)[i := x]"
    and "c \<noteq> b_blockno (bufs s ! i) \<or> b_dev (bufs s ! i) \<noteq> 1" "c \<noteq> b_blockno x \<or> b_dev x \<noteq> 1"
    and "memdisk t ! unat c = memdisk s ! unat c"
  shows "view t c = view s c"
proof (cases "\<exists>j < NBUF. holds_block c (bufs s ! j)")
  case True
  then obtain j where j: "j < NBUF" "holds_block c (bufs s ! j)" by blast
  then have "j \<noteq> i" using assms(5) by (auto simp: holds_block_def)
  then have "bufs t ! j = bufs s ! j" using assms(4) by simp
  then show ?thesis using view_hit [OF assms(1) j] view_hit [OF assms(2) j(1)] j(2) by simp
next
  case False
  have len: "length (bufs s) = NBUF" "length (bufs t) = NBUF" using assms(1,2) by (auto dest: cache_okD(1))
  have "\<not> holds_block c (bufs t ! j)" if "j < NBUF" for j
    using that False assms(4,6) len by (cases "j = i") (auto simp: holds_block_def)
  then show ?thesis using view_miss [OF len(1), of c] view_miss [OF len(2), of c] False assms(7) by auto
qed

lemma lock_buf_sel [simp]:
  "bufs (lock_buf pid i s) = bufs s" "memdisk (lock_buf pid i s) = memdisk s" "dtrace (lock_buf pid i s) = dtrace s"
  "bnext (lock_buf pid i s) = bnext s" "bprev (lock_buf pid i s) = bprev s"
  "sleeplocks (lock_buf pid i s) = (sleeplocks s)(SL_buf i := (sleeplocks s (SL_buf i))\<lparr>sl_locked := 1, sl_pid := pid\<rparr>)"
  by (simp_all add: lock_buf_def)

lemma flag_facts:
  "b_flags x \<in> {0, B_VALID, B_VALID OR B_DIRTY} \<Longrightarrow> b_flags x AND B_DIRTY = 0 \<longleftrightarrow> b_flags x \<noteq> B_VALID OR B_DIRTY"
  by (auto simp: B_VALID_def B_DIRTY_def)

lemma open_ok:
  assumes ok: "cache_ok pid s" and av: "available b s i" and b: "unat b < length (memdisk s)"
  defines "t \<equiv> lock_buf pid i (upd_buf i (opened b (memdisk s ! unat b)) s)"
  shows "cache_ok pid t" "view t = view s" "held pid i t" "b_data (bufs t ! i) = view s b"
    "b_blockno (bufs t ! i) = b" "memdisk t = memdisk s" "dtrace t = dtrace s"
proof -
  let ?x = "opened b (memdisk s ! unat b) (bufs s ! i)"
  have i: "i < NBUF" "b_refcnt (bufs s ! i) = 0" using av by (auto simp: available_def)
  note bo = cache_okD(2) [OF ok i(1)]
  have len: "length (bufs s) = NBUF" using ok by (rule cache_okD)
  have bt: "bufs t = (bufs s)[i := ?x]" by (simp add: t_def)
  have xt: "bufs t ! i = ?x" using bt i(1) len by simp
  have hb: "holds_block b ?x" by (auto simp: opened_def holds_block_def)
  have dl: "length (memdisk s ! unat b) = BSIZE" using cache_okD(4) [OF ok] b by simp
  show mt: "memdisk t = memdisk s" "dtrace t = dtrace s" by (simp_all add: t_def)
  have box: "buf_ok pid (memdisk t) (sleeplocks t (SL_buf i)) ?x"
    using bo dl b by (auto simp: buf_ok_def opened_def holds_block_def t_def)
  show okt: "cache_ok pid t"
  proof (rule cache_ok_update [OF ok i(1) bt _ box])
    fix j assume "j < NBUF" "j \<noteq> i" "b_dev ?x = 1"
    show "\<not> holds_block (b_blockno ?x) (bufs s ! j)"
      using av hb cache_okD(3) [OF ok i(1) \<open>j < NBUF\<close>, of b] \<open>j \<noteq> i\<close> \<open>j < NBUF\<close>
      by (auto simp: available_def holds_block_def)
  qed (use ok in \<open>auto simp: t_def cache_ok_def\<close>)
  show "held pid i t"
    using box i xt b by (auto simp: held_def buf_ok_def opened_def locked_by_def holds_block_def t_def)
  show "b_blockno (bufs t ! i) = b" using hb xt by (simp add: holds_block_def)
  show vb: "b_data (bufs t ! i) = view s b"
  proof (cases "holds_block b (bufs s ! i)")
    case True
    then show ?thesis using view_hit [OF ok i(1) True] xt by (simp add: opened_def)
  next
    case False
    then have "view s b = memdisk s ! unat b" using av len by (intro view_miss) (auto simp: available_def)
    then show ?thesis using False xt by (simp add: opened_def)
  qed
  show "view t = view s"
  proof
    fix c
    show "view t c = view s c"
    proof (cases "c = b")
      case True
      then show ?thesis using view_hit [OF okt i(1), of b] hb xt vb by simp
    next
      case c: False
      then have cx: "c \<noteq> b_blockno ?x \<or> b_dev ?x \<noteq> 1" using hb by (simp add: holds_block_def)
      show ?thesis
      proof (cases "holds_block c (bufs s ! i)")
        case True
        then have nb: "\<not> holds_block b (bufs s ! i)" using c by (simp add: holds_block_def)
        then have "b_flags (bufs s ! i) AND B_DIRTY = 0" using av by (simp add: available_def)
        then have "b_flags (bufs s ! i) = B_VALID"
          using bo True flag_facts [of "bufs s ! i"] by (auto simp: buf_ok_def holds_block_def)
        then have "b_data (bufs s ! i) = memdisk s ! unat c"
          using bo i(2) True by (auto simp: buf_ok_def holds_block_def)
        moreover have "view s c = b_data (bufs s ! i)" by (rule view_hit [OF ok i(1) True])
        moreover have "view t c = memdisk t ! unat c"
        proof (rule view_miss)
          fix j assume j: "j < NBUF"
          show "\<not> holds_block c (bufs t ! j)"
            using cache_okD(3) [OF ok i(1) j, of c] True bt xt cx by (cases "j = i") (auto simp: holds_block_def)
        qed (use okt in \<open>rule cache_okD\<close>)
        ultimately show ?thesis using mt by simp
      next
        case False
        show ?thesis
          by (rule view_update [OF ok okt i(1) bt _ cx]) (use False mt in \<open>auto simp: holds_block_def\<close>)
      qed
    qed
  qed
qed

text \<open>Changing the contents of a held buffer, and marking it dirty (as \<open>log_write\<close> does).\<close>

definition filled :: "nat \<Rightarrow> u8 list \<Rightarrow> 'x buf_st_scheme \<Rightarrow> 'x buf_st_scheme" where
  "filled i d = upd_buf i (\<lambda>x. x\<lparr>b_data := d\<rparr>)"

definition dirtied :: "nat \<Rightarrow> 'x buf_st_scheme \<Rightarrow> 'x buf_st_scheme" where
  "dirtied i = upd_buf i (\<lambda>x. x\<lparr>b_flags := b_flags x OR B_DIRTY\<rparr>)"

lemma held_update:
  fixes s t :: "'x buf_st_scheme"
  assumes ok: "cache_ok pid s" and h: "held pid i s" and bt: "bufs t = (bufs s)[i := x]"
    and sl: "sleeplocks t = sleeplocks s" and nx: "bnext t = bnext s" "bprev t = bprev s" and mt: "memdisk t = memdisk s"
    and x: "b_dev x = 1" "b_blockno x = b_blockno (bufs s ! i)" "b_refcnt x = 1" "length (b_data x) = BSIZE"
      "b_flags x \<in> {B_VALID, B_VALID OR B_DIRTY}"
  shows "cache_ok pid t" "held pid i t" "view t = (view s)(b_blockno (bufs s ! i) := b_data x)"
proof -
  let ?b = "b_blockno (bufs s ! i)"
  have i: "i < NBUF" using h by (simp add: held_def)
  have len: "length (bufs s) = NBUF" using ok by (rule cache_okD)
  have hb: "holds_block ?b (bufs s ! i)" using h by (simp add: held_def holds_block_def)
  show okt: "cache_ok pid t"
  proof (rule cache_ok_update [OF ok i bt])
    show "buf_ok pid (memdisk t) (sleeplocks t (SL_buf i)) x"
      using cache_okD(2) [OF ok i] h x sl mt by (auto simp: buf_ok_def held_def)
    show "\<not> holds_block (b_blockno x) (bufs s ! j)" if "j < NBUF" "j \<noteq> i" for j
      using cache_okD(3) [OF ok i that(1) hb] that x(2) by auto
  qed (use ok sl nx mt in \<open>auto simp: cache_ok_def\<close>)
  have xt: "bufs t ! i = x" using bt i len by simp
  then show "held pid i t" using h x sl mt by (auto simp: held_def locked_by_def)
  show "view t = (view s)(?b := b_data x)"
  proof
    fix c
    show "view t c = ((view s)(?b := b_data x)) c"
    proof (cases "c = ?b")
      case True
      then show ?thesis using view_hit [OF okt i, of ?b] xt x by (simp add: holds_block_def)
    next
      case False
      then show ?thesis using view_update [OF ok okt i bt, of c] x(2) mt by simp
    qed
  qed
qed

lemma view_held: "cache_ok pid s \<Longrightarrow> held pid i s \<Longrightarrow> view s (b_blockno (bufs s ! i)) = b_data (bufs s ! i)"
  by (rule view_hit) (auto simp: held_def holds_block_def)

lemma filled_ok:
  assumes "cache_ok pid s" "held pid i s" "length d = BSIZE"
  shows "cache_ok pid (filled i d s)" "held pid i (filled i d s)"
    "view (filled i d s) = (view s)(b_blockno (bufs s ! i) := d)"
proof -
  have bt: "bufs (filled i d s) = (bufs s)[i := (bufs s ! i)\<lparr>b_data := d\<rparr>]" by (simp add: filled_def)
  note u = held_update [OF assms(1,2) bt]
  show "cache_ok pid (filled i d s)" "held pid i (filled i d s)"
    "view (filled i d s) = (view s)(b_blockno (bufs s ! i) := d)"
    using u assms(2,3) by (simp_all add: filled_def held_def)
qed

lemma dirtied_ok:
  assumes "cache_ok pid s" "held pid i s"
  shows "cache_ok pid (dirtied i s)" "held pid i (dirtied i s)" "view (dirtied i s) = view s"
    "b_flags (bufs (dirtied i s) ! i) = B_VALID OR B_DIRTY"
proof -
  let ?x = "(bufs s ! i)\<lparr>b_flags := B_VALID OR B_DIRTY\<rparr>"
  have f: "b_flags (bufs s ! i) OR B_DIRTY = B_VALID OR B_DIRTY"
    using assms(2) by (auto simp: held_def B_VALID_def B_DIRTY_def)
  have bt: "bufs (dirtied i s) = (bufs s)[i := ?x]" using f by (simp add: dirtied_def)
  have i: "i < NBUF" "length (bufs s) = NBUF" using assms cache_okD(1) by (auto simp: held_def)
  have dl: "length (b_data (bufs s ! i)) = BSIZE" using cache_okD(2) [OF assms(1) i(1)] by (simp add: buf_ok_def)
  note u = held_update [OF assms(1,2) bt]
  show "cache_ok pid (dirtied i s)" "held pid i (dirtied i s)" "view (dirtied i s) = view s"
    using u assms(2) dl view_held [OF assms] by (simp_all add: dirtied_def held_def fun_upd_idem)
  show "b_flags (bufs (dirtied i s) ! i) = B_VALID OR B_DIRTY" using bt i by simp
qed

lemma written_ok:
  assumes ok: "cache_ok pid s" and h: "held pid i s"
  shows "cache_ok pid (written i s)" "held pid i (written i s)" "view (written i s) = view s"
    "b_flags (bufs (written i s) ! i) = B_VALID"
    "memdisk (written i s) = (memdisk s)[unat (b_blockno (bufs s ! i)) := b_data (bufs s ! i)]"
    "dtrace (written i s) = dtrace s @ [(unat (b_blockno (bufs s ! i)), b_data (bufs s ! i))]"
proof -
  let ?x = "(bufs s ! i)\<lparr>b_flags := B_VALID\<rparr>" and ?t = "written i s" and ?b = "b_blockno (bufs s ! i)"
  have i: "i < NBUF" and len: "length (bufs s) = NBUF" using h ok cache_okD(1) by (auto simp: held_def)
  have hb: "holds_block ?b (bufs s ! i)" using h by (simp add: held_def holds_block_def)
  have bt: "bufs ?t = (bufs s)[i := ?x]" by (simp add: written_def Let_def)
  show mt: "memdisk ?t = (memdisk s)[unat ?b := b_data (bufs s ! i)]"
    and "dtrace ?t = dtrace s @ [(unat ?b, b_data (bufs s ! i))]"
    by (simp_all add: written_def Let_def)
  have dl: "length (b_data (bufs s ! i)) = BSIZE" using cache_okD(2) [OF ok i] by (simp add: buf_ok_def)
  have sl: "sleeplocks ?t = sleeplocks s" "bnext ?t = bnext s" "bprev ?t = bprev s"
    by (simp_all add: written_def Let_def)
  have other: "\<not> holds_block ?b (bufs s ! j)" if "j < NBUF" "j \<noteq> i" for j
    using cache_okD(3) [OF ok i that(1) hb] that by auto
  show okt: "cache_ok pid ?t"
  proof (rule cache_ok_update [OF ok i bt])
    show "buf_ok pid (memdisk ?t) (sleeplocks ?t (SL_buf i)) ?x"
      using cache_okD(2) [OF ok i] h sl mt by (auto simp: buf_ok_def held_def)
    show "memdisk ?t ! unat (b_blockno (bufs s ! j)) = memdisk s ! unat (b_blockno (bufs s ! j))"
      if "j < NBUF" "j \<noteq> i" "b_dev (bufs s ! j) = 1" for j
      using other [OF that(1,2)] that(3) mt by (auto simp: holds_block_def nth_list_update word_unat_eq_iff)
    show "length d = BSIZE" if "d \<in> set (memdisk ?t)" for d
      using that cache_okD(4) [OF ok] dl mt set_update_subset_insert [of "memdisk s" "unat ?b"] by auto
  qed (use ok sl mt other in \<open>auto simp: cache_ok_def\<close>)
  have xt: "bufs ?t ! i = ?x" using bt i len by simp
  then show "b_flags (bufs ?t ! i) = B_VALID" "held pid i ?t"
    using h sl mt by (auto simp: held_def locked_by_def)
  show "view ?t = view s"
  proof
    fix c
    show "view ?t c = view s c"
    proof (cases "c = ?b")
      case True
      then show ?thesis using view_hit [OF okt i, of ?b] view_hit [OF ok i hb] xt h by (simp add: holds_block_def held_def)
    next
      case False
      then show ?thesis using view_update [OF ok okt i bt, of c] mt by (simp add: word_unat_eq_iff)
    qed
  qed
qed

lemma released_ok:
  assumes ok: "cache_ok pid s" and h: "held pid i s"
    and sync: "b_flags (bufs s ! i) = B_VALID \<longrightarrow> b_data (bufs s ! i) = memdisk s ! unat (b_blockno (bufs s ! i))"
  shows "cache_ok pid (released i s)" "view (released i s) = view s" "memdisk (released i s) = memdisk s"
    "dtrace (released i s) = dtrace s" "bufs (released i s) = (bufs s)[i := (bufs s ! i)\<lparr>b_refcnt := 0\<rparr>]"
    "j \<noteq> i \<Longrightarrow> held pid j (released i s) = held pid j s"
proof -
  let ?x = "(bufs s ! i)\<lparr>b_refcnt := 0\<rparr>" and ?t = "released i s"
  have i: "i < NBUF" and len: "length (bufs s) = NBUF" using h ok cache_okD(1) by (auto simp: held_def)
  have hb: "holds_block (b_blockno (bufs s ! i)) (bufs s ! i)" using h by (simp add: held_def holds_block_def)
  show bt: "bufs ?t = (bufs s)[i := ?x]" and mt: "memdisk ?t = memdisk s" and "dtrace ?t = dtrace s"
    by (simp_all add: released_def)
  show okt: "cache_ok pid ?t"
  proof (rule cache_ok_update [OF ok i bt])
    show "buf_ok pid (memdisk ?t) (sleeplocks ?t (SL_buf i)) ?x"
      using cache_okD(2) [OF ok i] sync by (auto simp: buf_ok_def released_def)
    show "\<exists>xs. ring NBUF (bnext ?t) (bprev ?t) xs \<and> set xs = {..<NBUF}"
      by (rule ring_front [OF _ i]) (use ok in \<open>simp add: cache_ok_def\<close>)
    show "\<not> holds_block (b_blockno ?x) (bufs s ! j)" if "j < NBUF" "j \<noteq> i" for j
      using cache_okD(3) [OF ok i that(1) hb] that by auto
  qed (use ok mt in \<open>auto simp: cache_ok_def released_def\<close>)
  have xt: "bufs ?t ! i = ?x" using bt i len by simp
  show "view ?t = view s"
  proof
    fix c
    show "view ?t c = view s c"
    proof (cases "holds_block c (bufs s ! i)")
      case True
      then show ?thesis
        using view_hit [OF okt i, of c] view_hit [OF ok i True] xt by (simp add: holds_block_def)
    next
      case False
      then show ?thesis using view_update [OF ok okt i bt, of c] mt by (auto simp: holds_block_def)
    qed
  qed
  show "held pid j ?t = held pid j s" if "j \<noteq> i"
    using that bt mt by (simp add: held_def locked_by_def released_def)
qed

definition busy :: "'x buf_st_scheme \<Rightarrow> nat set" where
  "busy s = {i. i < NBUF \<and> (b_refcnt (bufs s ! i) \<noteq> 0 \<or> b_flags (bufs s ! i) = B_VALID OR B_DIRTY)}"

lemma avail_ex:
  assumes ok: "cache_ok pid s" and free: "\<forall>i < NBUF. holds_block b (bufs s ! i) \<longrightarrow> b_refcnt (bufs s ! i) = 0"
    and "(\<exists>i < NBUF. holds_block b (bufs s ! i)) \<or> card (busy s) < NBUF"
  shows "\<exists>i. available b s i"
proof (cases "\<exists>i < NBUF. holds_block b (bufs s ! i)")
  case True
  then show ?thesis using free by (auto simp: available_def)
next
  case False
  with assms(3) have "card (busy s) < card {..<NBUF}" by simp
  moreover have "busy s \<subseteq> {..<NBUF}" by (auto simp: busy_def)
  ultimately obtain i where "i < NBUF" "i \<notin> busy s" by (metis lessThan_iff less_irrefl subsetI subset_antisym)
  then have "b_refcnt (bufs s ! i) = 0" "b_flags (bufs s ! i) AND B_DIRTY = 0"
    using cache_okD(2) [OF ok, of i] flag_facts [of "bufs s ! i"] by (auto simp: busy_def buf_ok_def)
  then show ?thesis using False \<open>i < NBUF\<close> by (auto simp: available_def)
qed

section \<open>Dirty blocks\<close>

text \<open>The blocks whose cached contents have not reached the disk.\<close>

definition dirty_bufs :: "'x buf_st_scheme \<Rightarrow> nat set" where
  "dirty_bufs s = {i. i < NBUF \<and> b_flags (bufs s ! i) = B_VALID OR B_DIRTY}"

definition dirty :: "'x buf_st_scheme \<Rightarrow> u32 set" where
  "dirty s = (\<lambda>i. b_blockno (bufs s ! i)) ` dirty_bufs s"

definition idle :: "'x buf_st_scheme \<Rightarrow> bool" where
  "idle s \<longleftrightarrow> (\<forall>i < NBUF. b_refcnt (bufs s ! i) = 0)"

definition synced :: "nat \<Rightarrow> 'x buf_st_scheme \<Rightarrow> bool" where
  "synced i s \<longleftrightarrow> (b_flags (bufs s ! i) = B_VALID \<longrightarrow> b_data (bufs s ! i) = memdisk s ! unat (b_blockno (bufs s ! i)))"

lemma dirty_dev: "cache_ok pid s \<Longrightarrow> i \<in> dirty_bufs s \<Longrightarrow> b_dev (bufs s ! i) = 1"
  using cache_okD(2) [of pid s i] by (auto simp: dirty_bufs_def buf_ok_def)

lemma dirty_hit:
  assumes "cache_ok pid s" "b \<in> dirty s"
  obtains i where "i < NBUF" "holds_block b (bufs s ! i)" "b_flags (bufs s ! i) = B_VALID OR B_DIRTY"
  using assms dirty_dev [OF assms(1)] by (auto simp: dirty_def dirty_bufs_def holds_block_def)

lemma card_dirty:
  assumes "cache_ok pid s"
  shows "card (dirty s) = card (dirty_bufs s)"
  unfolding dirty_def
proof (rule card_image, rule inj_onI)
  fix i j assume "i \<in> dirty_bufs s" "j \<in> dirty_bufs s" "b_blockno (bufs s ! i) = b_blockno (bufs s ! j)"
  then show "i = j"
    using cache_okD(3) [OF assms, of i j "b_blockno (bufs s ! i)"] dirty_dev [OF assms]
    by (auto simp: dirty_bufs_def holds_block_def)
qed

lemma dirty_update:
  assumes "cache_ok pid s" "length (bufs s) = NBUF" "i < NBUF" "bufs t = (bufs s)[i := x]" "b_blockno x = b_blockno (bufs s ! i)"
    and "b_dev (bufs s ! i) = 1"
  shows "dirty t = (if b_flags x = B_VALID OR B_DIRTY then insert (b_blockno x) (dirty s) else dirty s - {b_blockno x})"
proof -
  have d: "dirty_bufs t = (if b_flags x = B_VALID OR B_DIRTY then insert i (dirty_bufs s) else dirty_bufs s - {i})"
    using assms(2-4) by (auto simp: dirty_bufs_def nth_list_update split: if_splits)
  have u: "j = i" if "j \<in> dirty_bufs s" "b_blockno (bufs s ! j) = b_blockno x" for j
    using that cache_okD(3) [OF assms(1), of j i "b_blockno x"] dirty_dev [OF assms(1), of j] assms(3,5,6)
    by (auto simp: dirty_bufs_def holds_block_def)
  have e: "b_blockno (bufs t ! j) = b_blockno (bufs s ! j)" for j
    using assms(2-5) by (cases "j = i") auto
  show ?thesis
    using u assms(5) unfolding dirty_def d e by (auto split: if_splits)
qed

lemma dirty_open:
  assumes ok: "cache_ok pid s" and av: "available b s i"
  shows "dirty (lock_buf pid i (upd_buf i (opened b d) s)) = dirty s"
proof -
  have i: "i < NBUF" and len: "length (bufs s) = NBUF" using av cache_okD(1) [OF ok] by (auto simp: available_def)
  let ?t = "lock_buf pid i (upd_buf i (opened b d) s)"
  have bt: "bufs ?t = (bufs s)[i := opened b d (bufs s ! i)]" by simp
  show ?thesis
  proof (cases "holds_block b (bufs s ! i)")
    case True
    have "dirty ?t = (if b_flags (bufs s ! i) = B_VALID OR B_DIRTY then insert b (dirty s) else dirty s - {b})"
      using dirty_update [OF ok len i bt] True by (simp add: opened_def holds_block_def)
    moreover have "b \<in> dirty s \<longleftrightarrow> b_flags (bufs s ! i) = B_VALID OR B_DIRTY"
    proof
      assume "b \<in> dirty s"
      then obtain j where "j < NBUF" "holds_block b (bufs s ! j)" "b_flags (bufs s ! j) = B_VALID OR B_DIRTY"
        by (rule dirty_hit [OF ok])
      moreover from this have "i = j" using cache_okD(3) [OF ok i, of j b] True by auto
      ultimately show "b_flags (bufs s ! i) = B_VALID OR B_DIRTY" by simp
    qed (use True i in \<open>auto simp: dirty_def dirty_bufs_def holds_block_def\<close>)
    ultimately show ?thesis by auto
  next
    case False
    then have "b_flags (bufs s ! i) AND B_DIRTY = 0" using av by (simp add: available_def)
    then have nd: "i \<notin> dirty_bufs s" by (auto simp: dirty_bufs_def B_VALID_def B_DIRTY_def)
    have "dirty_bufs ?t = dirty_bufs s"
      using nd i len False by (auto simp: dirty_bufs_def nth_list_update opened_def split: if_splits)
    moreover have "b_blockno (bufs ?t ! j) = b_blockno (bufs s ! j)" if "j \<in> dirty_bufs s" for j
      using that nd by (cases "j = i") auto
    ultimately show ?thesis by (simp add: dirty_def)
  qed
qed

lemma open_synced:
  assumes "cache_ok pid s" "available b s i"
  shows "synced i (lock_buf pid i (upd_buf i (opened b (memdisk s ! unat b)) s))"
proof -
  have i: "i < NBUF" "b_refcnt (bufs s ! i) = 0" and len: "length (bufs s) = NBUF"
    using assms cache_okD(1) by (auto simp: available_def)
  then show ?thesis
    using cache_okD(2) [OF assms(1) i(1)] by (auto simp: synced_def opened_def buf_ok_def)
qed

end
