(* ===== verification/Bytes.thy ===== *)
theory Bytes
  imports Cstring
begin

text \<open>
  The on-disk layout of C integers and structs inside a block: little-endian 16 and 32 bit
  fields at byte offsets, and runs of 32 bit words.
\<close>

definition enc16 :: "u16 \<Rightarrow> u8 list" where
  "enc16 w = [ucast w, ucast (drop_bit 8 w)]"

definition dec16 :: "u8 list \<Rightarrow> u16" where
  "dec16 bs = ucast (bs ! 0) OR push_bit 8 (ucast (bs ! 1))"

definition enc32 :: "u32 \<Rightarrow> u8 list" where
  "enc32 w = [ucast w, ucast (drop_bit 8 w), ucast (drop_bit 16 w), ucast (drop_bit 24 w)]"

definition dec32 :: "u8 list \<Rightarrow> u32" where
  "dec32 bs = ucast (bs ! 0) OR push_bit 8 (ucast (bs ! 1))
     OR push_bit 16 (ucast (bs ! 2)) OR push_bit 24 (ucast (bs ! 3))"

definition get16 :: "u8 list \<Rightarrow> nat \<Rightarrow> u16" where
  "get16 bs off = dec16 (chunk bs off 2)"

definition put16 :: "u8 list \<Rightarrow> nat \<Rightarrow> u16 \<Rightarrow> u8 list" where
  "put16 bs off w = blit bs off (enc16 w)"

definition get32 :: "u8 list \<Rightarrow> nat \<Rightarrow> u32" where
  "get32 bs off = dec32 (chunk bs off 4)"

definition put32 :: "u8 list \<Rightarrow> nat \<Rightarrow> u32 \<Rightarrow> u8 list" where
  "put32 bs off w = blit bs off (enc32 w)"

text \<open>An array of 32 bit words at a byte offset.\<close>

fun put32s :: "u8 list \<Rightarrow> nat \<Rightarrow> u32 list \<Rightarrow> u8 list" where
  "put32s bs off [] = bs"
| "put32s bs off (w # ws) = put32s (put32 bs off w) (off + 4) ws"

definition get32s :: "u8 list \<Rightarrow> nat \<Rightarrow> nat \<Rightarrow> u32 list" where
  "get32s bs off n = map (\<lambda>i. get32 bs (off + 4 * i)) [0..<n]"

lemma length_enc [simp]: "length (enc16 w) = 2" "length (enc32 v) = 4"
  by (simp_all add: enc16_def enc32_def)

lemma dec32_enc32 [simp]: "dec32 (enc32 w) = w"
  using rd32_bytes [of w] by (simp add: dec32_def enc32_def)

lemma dec16_enc16 [simp]: "dec16 (enc16 w) = w"
proof (rule bit_word_eqI)
  fix n assume "n < LENGTH(16)"
  then consider "n < 8" | "8 \<le> n \<and> n < 16" by fastforce
  then show "bit (dec16 (enc16 w)) n = bit w n"
    by cases (auto simp: dec16_def enc16_def bit_or_iff bit_push_bit_iff bit_ucast_iff bit_drop_bit_eq)
qed

lemma length_put [simp]:
  "off + 2 \<le> length bs \<Longrightarrow> length (put16 bs off w) = length bs"
  "off + 4 \<le> length bs \<Longrightarrow> length (put32 bs off v) = length bs"
  by (simp_all add: put16_def put32_def)

lemma get32_put32_same [simp]: "off + 4 \<le> length bs \<Longrightarrow> get32 (put32 bs off w) off = w"
  using chunk_blit_same [of off "enc32 w" bs] by (simp add: get32_def put32_def)

lemma get32_put32_other:
  "off + 4 \<le> length bs \<Longrightarrow> o' + 4 \<le> length bs \<Longrightarrow> o' + 4 \<le> off \<or> off + 4 \<le> o' \<Longrightarrow>
   get32 (put32 bs off w) o' = get32 bs o'"
  by (simp add: get32_def put32_def chunk_blit_disjoint)

lemma get16_put16_same [simp]: "off + 2 \<le> length bs \<Longrightarrow> get16 (put16 bs off w) off = w"
  using chunk_blit_same [of off "enc16 w" bs] by (simp add: get16_def put16_def)

lemma get16_put16_other:
  "off + 2 \<le> length bs \<Longrightarrow> o' + 2 \<le> length bs \<Longrightarrow> o' + 2 \<le> off \<or> off + 2 \<le> o' \<Longrightarrow>
   get16 (put16 bs off w) o' = get16 bs o'"
  by (simp add: get16_def put16_def chunk_blit_disjoint)

lemma get32_put16_other:
  "off + 2 \<le> length bs \<Longrightarrow> o' + 4 \<le> length bs \<Longrightarrow> o' + 4 \<le> off \<or> off + 2 \<le> o' \<Longrightarrow>
   get32 (put16 bs off w) o' = get32 bs o'"
  by (simp add: get32_def put16_def chunk_blit_disjoint)

lemma get16_put32_other:
  "off + 4 \<le> length bs \<Longrightarrow> o' + 2 \<le> length bs \<Longrightarrow> o' + 2 \<le> off \<or> off + 4 \<le> o' \<Longrightarrow>
   get16 (put32 bs off w) o' = get16 bs o'"
  by (simp add: get16_def put32_def chunk_blit_disjoint)

lemma length_put32s [simp]: "off + 4 * length ws \<le> length bs \<Longrightarrow> length (put32s bs off ws) = length bs"
  by (induction ws arbitrary: bs off) simp_all

lemma get32_put32s_before:
  "off + 4 * length ws \<le> length bs \<Longrightarrow> o' + 4 \<le> off \<Longrightarrow> get32 (put32s bs off ws) o' = get32 bs o'"
  by (induction ws arbitrary: bs off) (simp_all add: get32_put32_other)

lemma get32_put32s_nth:
  "off + 4 * length ws \<le> length bs \<Longrightarrow> i < length ws \<Longrightarrow> get32 (put32s bs off ws) (off + 4 * i) = ws ! i"
proof (induction ws arbitrary: bs off i)
  case Nil
  then show ?case by simp
next
  case (Cons w ws)
  show ?case
  proof (cases i)
    case 0
    then show ?thesis using Cons.prems by (simp add: get32_put32s_before)
  next
    case (Suc j)
    then show ?thesis using Cons.IH [of "off + 4" "put32 bs off w" j] Cons.prems by (simp add: algebra_simps)
  qed
qed

lemma get32s_put32s: "off + 4 * length ws \<le> length bs \<Longrightarrow> get32s (put32s bs off ws) off (length ws) = ws"
  by (rule nth_equalityI) (simp_all add: get32s_def get32_put32s_nth)

lemma get16_put32s_before:
  "off + 4 * length ws \<le> length bs \<Longrightarrow> o' + 2 \<le> off \<Longrightarrow> get16 (put32s bs off ws) o' = get16 bs o'"
  by (induction ws arbitrary: bs off) (simp_all add: get16_put32_other)

end
