(* ===== verification/Log.thy ===== *)
theory Log
  imports Bio Bytes
begin

text \<open>
  The write-ahead log, \<open>log.c\<close>, with \<open>readsb\<close> of \<open>fs.c\<close>. The in-memory header is the pair of
  fields \<open>lh_n\<close> and \<open>lh_block\<close>; its on-disk image is decoded and encoded byte by byte. The
  main result is atomicity: whatever prefix of the disk writes of a commit has reached the disk
  when the machine stops, recovery leaves either none or all of the transaction's blocks.
\<close>

section \<open>State\<close>

definition LOGSIZE :: nat where "LOGSIZE = 30"

definition MAXOPBLOCKS :: int where "MAXOPBLOCKS = 10"

record superblock =
  sb_size :: u32
  sb_nblocks :: u32
  sb_ninodes :: u32
  sb_nlog :: u32
  sb_logstart :: u32
  sb_inodestart :: u32
  sb_bmapstart :: u32

record log_st = buf_st +
  lg_start :: u32
  lg_size :: u32
  lg_outstanding :: u32
  lg_committing :: u32
  lg_dev :: u32
  lh_n :: u32
  lh_block :: "u32 list"

abbreviation bdata :: "nat \<Rightarrow> 'x buf_st_scheme \<Rightarrow> u8 list" where
  "bdata b s \<equiv> b_data (bufs s ! b)"

definition set_data :: "nat \<Rightarrow> ('x buf_st_scheme \<Rightarrow> u8 list) \<Rightarrow> ('x buf_st_scheme, unit) prog" where
  "set_data b f = modS (\<lambda>s. upd_buf b (\<lambda>x. x\<lparr>b_data := f s\<rparr>) s)"

definition dec_sb :: "u8 list \<Rightarrow> superblock" where
  "dec_sb d =
     \<lparr>sb_size = get32 d 0, sb_nblocks = get32 d 4, sb_ninodes = get32 d 8, sb_nlog = get32 d 12,
      sb_logstart = get32 d 16, sb_inodestart = get32 d 20, sb_bmapstart = get32 d 24\<rparr>"

definition readsb :: "u32 \<Rightarrow> ('x buf_st_scheme, superblock) prog" where
  "readsb dev =
     bindM (bread dev 1) (\<lambda>bp.
     bindM (getS (\<lambda>s. dec_sb (bdata bp s))) (\<lambda>sb.
     seqM (brelse bp)
     (ret sb)))"

section \<open>Moving blocks\<close>

text \<open>
  The loop of \<open>install_trans\<close>; \<open>lh.block\<close> has \<open>LOGSIZE\<close> entries, and reading past them is
  undefined.
\<close>

fun install_loop :: "nat \<Rightarrow> nat \<Rightarrow> ('x log_st_scheme, unit) prog" where
  "install_loop 0 tail = nofuel"
| "install_loop (Suc fuel) tail =
     bindM (getS lh_n) (\<lambda>n.
     if \<not> int tail < sint n then ret ()
     else bindM (getS lg_dev) (\<lambda>dev.
     bindM (getS lg_start) (\<lambda>start.
     bindM (getS lh_block) (\<lambda>blk.
     if tail \<ge> length blk then undef ''log.lh.block''
     else bindM (bread dev (start + of_nat tail + 1)) (\<lambda>lbuf.
     bindM (bread dev (blk ! tail)) (\<lambda>dbuf.
     seqM (set_data dbuf (bdata lbuf)) (
     seqM (bwrite dbuf) (
     seqM (brelse lbuf) (
     seqM (brelse dbuf)
     (install_loop fuel (Suc tail)))))))))))"

definition install_trans :: "('x log_st_scheme, unit) prog" where
  "install_trans = install_loop (LOGSIZE + 1) 0"

definition read_head :: "('x log_st_scheme, unit) prog" where
  "read_head =
     bindM (getS lg_dev) (\<lambda>dev.
     bindM (getS lg_start) (\<lambda>start.
     bindM (bread dev start) (\<lambda>buf.
     bindM (getS (bdata buf)) (\<lambda>d.
     let n = get32 d 0 in
     seqM (modS (\<lambda>s. s\<lparr>lh_n := n\<rparr>)) (
     if sint n > int LOGSIZE then undef ''log.lh.block''
     else seqM (modS (\<lambda>s. s\<lparr>lh_block := get32s d 4 (nat (sint n)) @ drop (nat (sint n)) (lh_block s)\<rparr>))
     (brelse buf))))))"

definition enc_head :: "u32 \<Rightarrow> u32 list \<Rightarrow> u8 list \<Rightarrow> u8 list" where
  "enc_head n blk d = put32s (put32 d 0 n) 4 (take (nat (sint n)) blk)"

definition write_head :: "('x log_st_scheme, unit) prog" where
  "write_head =
     bindM (getS lg_dev) (\<lambda>dev.
     bindM (getS lg_start) (\<lambda>start.
     bindM (bread dev start) (\<lambda>buf.
     bindM (getS lh_n) (\<lambda>n.
     bindM (getS lh_block) (\<lambda>blk.
     if sint n > int (length blk) then undef ''log.lh.block''
     else seqM (set_data buf (\<lambda>s. enc_head n blk (bdata buf s))) (
     seqM (bwrite buf)
     (brelse buf)))))))"

definition recover_from_log :: "('x log_st_scheme, unit) prog" where
  "recover_from_log =
     seqM read_head (
     seqM install_trans (
     seqM (modS (\<lambda>s. s\<lparr>lh_n := 0\<rparr>))
     write_head))"

definition initlog :: "u32 \<Rightarrow> ('x log_st_scheme, unit) prog" where
  "initlog dev =
     seqM (initlock L_log ''log'') (
     bindM (readsb dev) (\<lambda>sb.
     seqM (modS (\<lambda>s. s\<lparr>lg_start := sb_logstart sb, lg_size := sb_nlog sb, lg_dev := dev\<rparr>))
     recover_from_log))"

section \<open>Transactions\<close>

text \<open>
  One turn of the loop of \<open>begin_op\<close>, entered again each time the sleep returns.
\<close>

definition begin_op_retry :: "('x log_st_scheme, unit) prog" where
  "begin_op_retry =
     bindM (getS (\<lambda>s. lg_committing s)) (\<lambda>c.
     bindM (getS (\<lambda>s. sint (lh_n s) + (sint (lg_outstanding s) + 1) * MAXOPBLOCKS)) (\<lambda>need.
     if c \<noteq> 0 then sleep C_log L_log
     else if need > int LOGSIZE then sleep C_log L_log
     else seqM (modS (\<lambda>s. s\<lparr>lg_outstanding := lg_outstanding s + 1\<rparr>))
          (release L_log)))"

definition begin_op :: "('x log_st_scheme, unit) prog" where
  "begin_op = seqM (acquire L_log) begin_op_retry"

fun write_log_loop :: "nat \<Rightarrow> nat \<Rightarrow> ('x log_st_scheme, unit) prog" where
  "write_log_loop 0 tail = nofuel"
| "write_log_loop (Suc fuel) tail =
     bindM (getS lh_n) (\<lambda>n.
     if \<not> int tail < sint n then ret ()
     else bindM (getS lg_dev) (\<lambda>dev.
     bindM (getS lg_start) (\<lambda>start.
     bindM (getS lh_block) (\<lambda>blk.
     if tail \<ge> length blk then undef ''log.lh.block''
     else bindM (bread dev (start + of_nat tail + 1)) (\<lambda>to.
     bindM (bread dev (blk ! tail)) (\<lambda>from.
     seqM (set_data to (bdata from)) (
     seqM (bwrite to) (
     seqM (brelse from) (
     seqM (brelse to)
     (write_log_loop fuel (Suc tail)))))))))))"

definition write_log :: "('x log_st_scheme, unit) prog" where
  "write_log = write_log_loop (LOGSIZE + 1) 0"

definition commit :: "('x log_st_scheme, unit) prog" where
  "commit =
     bindM (getS lh_n) (\<lambda>n.
     whenM (sint n > 0) (
       seqM write_log (
       seqM write_head (
       seqM install_trans (
       seqM (modS (\<lambda>s. s\<lparr>lh_n := 0\<rparr>))
       write_head)))))"

definition end_op :: "('x log_st_scheme, unit) prog" where
  "end_op =
     seqM (acquire L_log) (
     seqM (modS (\<lambda>s. s\<lparr>lg_outstanding := lg_outstanding s - 1\<rparr>)) (
     bindM (getS (\<lambda>s. lg_committing s)) (\<lambda>c.
     if c \<noteq> 0 then panic ''log.committing''
     else bindM (getS (\<lambda>s. lg_outstanding s)) (\<lambda>n.
     let do_commit = (n = 0) in
     seqM (if do_commit then modS (\<lambda>s. s\<lparr>lg_committing := 1\<rparr>) else wakeup C_log) (
     seqM (release L_log) (
     whenM do_commit (
       seqM commit (
       seqM (acquire L_log) (
       seqM (modS (\<lambda>s. s\<lparr>lg_committing := 0\<rparr>)) (
       seqM (wakeup C_log)
       (release L_log)))))))))))"

text \<open>\<open>log_write\<close> of buffer \<open>b\<close>: the block is recorded once, and the buffer is pinned by \<open>B_DIRTY\<close>.\<close>

definition log_slot :: "u32 \<Rightarrow> u32 list \<Rightarrow> u32 \<Rightarrow> nat" where
  "log_slot n blk b =
     (case first_idx (\<lambda>x. x = b) (take (nat (sint n)) blk) of Some i \<Rightarrow> i | None \<Rightarrow> nat (sint n))"

definition log_write :: "nat \<Rightarrow> ('x log_st_scheme, unit) prog" where
  "log_write b =
     bindM (getS (\<lambda>s. sint (lh_n s) \<ge> int LOGSIZE \<or> sint (lh_n s) \<ge> sint (lg_size s) - 1)) (\<lambda>big.
     if big then panic ''too big a transaction''
     else bindM (getS (\<lambda>s. sint (lg_outstanding s) < 1)) (\<lambda>out.
     if out then panic ''log_write outside of trans''
     else seqM (acquire L_log) (
     bindM (getS (\<lambda>s. log_slot (lh_n s) (lh_block s) (b_blockno (bufs s ! b)))) (\<lambda>i.
     seqM (modS (\<lambda>s. s\<lparr>lh_block := (lh_block s)[i := b_blockno (bufs s ! b)]\<rparr>)) (
     seqM (modS (\<lambda>s. if int i = sint (lh_n s) then s\<lparr>lh_n := lh_n s + 1\<rparr> else s)) (
     seqM (modS (upd_buf b (\<lambda>x. x\<lparr>b_flags := b_flags x OR B_DIRTY\<rparr>)))
     (release L_log)))))))"

section \<open>Blocks between idle points\<close>

text \<open>
  \<open>cstate pid s\<close>: process \<open>pid\<close> runs, holds no lock and no buffer, and the cache is sound.
  \<open>buf_frame s t\<close>: the states differ at most in the machine, the cache and the disk.
\<close>

definition cstate :: "u32 \<Rightarrow> 'x buf_st_scheme \<Rightarrow> bool" where
  "cstate pid s \<longleftrightarrow> ctx {} pid s \<and> cache_ok pid s \<and> idle s"

definition buf_frame :: "'x buf_st_scheme \<Rightarrow> 'x buf_st_scheme \<Rightarrow> bool" where
  "buf_frame s t \<longleftrightarrow>
     t = s\<lparr>cpus := cpus t, if_flag := if_flag t, locks := locks t, ptable := ptable t, sleeplocks := sleeplocks t,
           bufs := bufs t, bnext := bnext t, bprev := bprev t, memdisk := memdisk t, dtrace := dtrace t\<rparr> \<and>
     map sched_free (ptable t) = map sched_free (ptable s)"

lemma buf_frameE:
  assumes "buf_frame s t"
  obtains c fl lk pt sl bs nx pv d tr where
    "t = s\<lparr>cpus := c, if_flag := fl, locks := lk, ptable := pt, sleeplocks := sl, bufs := bs, bnext := nx,
       bprev := pv, memdisk := d, dtrace := tr\<rparr>" "map sched_free pt = map sched_free (ptable s)"
  using assms unfolding buf_frame_def by blast

lemma buf_frame_refl [simp]: "buf_frame s s"
  by (simp add: buf_frame_def)

lemma buf_frame_trans: "buf_frame s t \<Longrightarrow> buf_frame t u \<Longrightarrow> buf_frame s u"
  by (erule buf_frameE, erule buf_frameE) (simp add: buf_frame_def)

lemma sys_eq_frame: "sys_eq s t \<Longrightarrow> buf_frame s t"
  by (erule sys_eqE) (simp add: buf_frame_def)

lemma frame_open: "buf_frame s (lock_buf pid i (upd_buf i f s))"
  by (simp add: buf_frame_def lock_buf_def upd_sl_def upd_buf_def)

lemma frame_ops:
  "buf_frame s (filled i d s)" "buf_frame s (written i s)" "buf_frame s (released i s)" "buf_frame s (dirtied i s)"
  by (simp_all add: buf_frame_def filled_def dirtied_def written_def released_def upd_buf_def upd_sl_def Let_def)

lemma log_frame:
  assumes "buf_frame s t"
  shows "lg_start t = lg_start s" "lg_size t = lg_size s" "lg_outstanding t = lg_outstanding s"
    "lg_committing t = lg_committing s" "lg_dev t = lg_dev s" "lh_n t = lh_n s" "lh_block t = lh_block s"
  using assms by (auto elim!: buf_frameE)

text \<open>Facts about a state that only depend on the cache carry over to \<open>sys_eq\<close> states.\<close>

lemma sys_eq_preds:
  assumes "sys_eq s t"
  shows "cache_ok pid t = cache_ok pid s" "view t = view s" "held pid i t = held pid i s" "idle t = idle s"
    "dirty t = dirty s" "synced i t = synced i s" "busy t = busy s"
  using assms cache_ok_sys [OF assms] view_sys [OF assms] sys_eq_buf [OF assms]
  by (simp_all add: held_def locked_by_def idle_def dirty_def dirty_bufs_def synced_def busy_def)

definition opens :: "u32 \<Rightarrow> u32 \<Rightarrow> 'x buf_st_scheme \<Rightarrow> nat \<Rightarrow> 'x buf_st_scheme \<Rightarrow> bool" where
  "opens pid b s i t \<longleftrightarrow>
     ctx {} pid t \<and> cache_ok pid t \<and> buf_frame s t \<and> held pid i t \<and> synced i t \<and> b_refcnt (bufs s ! i) = 0 \<and>
     b_blockno (bufs t ! i) = b \<and> b_data (bufs t ! i) = view s b \<and> view t = view s \<and> dirty t = dirty s \<and>
     memdisk t = memdisk s \<and> dtrace t = dtrace s \<and>
     (\<forall>j. j \<noteq> i \<longrightarrow> bufs t ! j = bufs s ! j \<and> held pid j t = held pid j s \<and> synced j t = synced j s) \<and>
     (\<forall>k. sleeplocks t (SL_inode k) = sleeplocks s (SL_inode k))"

lemma bread_opens:
  assumes c: "ctx {} pid s" and ok: "cache_ok pid s" and b: "unat b < length (memdisk s)"
    and free: "\<forall>i < NBUF. holds_block b (bufs s ! i) \<longrightarrow> b_refcnt (bufs s ! i) = 0"
    and av: "(\<exists>i < NBUF. holds_block b (bufs s ! i)) \<or> card (busy s) < NBUF"
  shows "\<exists>i t. bread 1 b s = Ok i t \<and> opens pid b s i t"
proof -
  obtain i where i: "available b s i"
    "does pid (bread 1 b) s i (lock_buf pid i (upd_buf i (opened b (memdisk s ! unat b)) s))"
    using bread_does [OF c ok b free avail_ex [OF ok free av]] by blast
  define u where "u = lock_buf pid i (upd_buf i (opened b (memdisk s ! unat b)) s)"
  from i(2) obtain t where t: "bread 1 b s = Ok i t" "sys_eq u t" "ctx {} pid t" by (auto simp: does_def u_def)
  note o = open_ok [OF ok i(1) b, folded u_def] and e = sys_eq_preds [OF t(2)] and f = sys_eq_buf [OF t(2)]
  have fr: "buf_frame s t" by (rule buf_frame_trans [OF _ sys_eq_frame [OF t(2)]]) (simp add: u_def frame_open)
  have oth: "bufs u ! j = bufs s ! j" "held pid j u = held pid j s" "synced j u = synced j s" if "j \<noteq> i" for j
    using that by (simp_all add: u_def held_def locked_by_def synced_def)
  have "opens pid b s i t"
    unfolding opens_def e f
    using o t(3) fr oth dirty_open [OF ok i(1)] open_synced [OF ok i(1)] i(1)
    by (auto simp: u_def available_def lock_buf_def)
  with t(1) show ?thesis by blast
qed

lemma bwrite_ok:
  assumes "ctx {} pid s" "cache_ok pid s" "held pid i s"
  shows "\<exists>t. bwrite i s = Ok () t \<and> ctx {} pid t \<and> sys_eq (written i s) t"
  using bwrite_does [OF assms(1) cache_okD(1) [OF assms(2)] assms(3)] by (auto simp: does_def)

lemma brelse_ok:
  assumes "ctx {} pid s" "cache_ok pid s" "held pid i s"
  shows "\<exists>t. brelse i s = Ok () t \<and> ctx {} pid t \<and> sys_eq (released i s) t"
  using brelse_does [OF assms(1) cache_okD(1) [OF assms(2)] assms(3)] by (auto simp: does_def)

text \<open>Two different blocks are opened one after the other.\<close>

definition opens2 :: "u32 \<Rightarrow> u32 \<Rightarrow> u32 \<Rightarrow> 'x buf_st_scheme \<Rightarrow> nat \<Rightarrow> nat \<Rightarrow> 'x buf_st_scheme \<Rightarrow> bool" where
  "opens2 pid x y s i j t \<longleftrightarrow>
     ctx {} pid t \<and> cache_ok pid t \<and> buf_frame s t \<and> i \<noteq> j \<and> held pid i t \<and> held pid j t \<and> synced i t \<and> synced j t \<and>
     b_blockno (bufs t ! i) = x \<and> b_blockno (bufs t ! j) = y \<and> bdata i t = view s x \<and> bdata j t = view s y \<and>
     view t = view s \<and> dirty t = dirty s \<and> memdisk t = memdisk s \<and> dtrace t = dtrace s \<and>
     (\<forall>k < NBUF. k \<noteq> i \<and> k \<noteq> j \<longrightarrow> b_refcnt (bufs t ! k) = 0)"

lemma busy_dirty: "idle s \<Longrightarrow> busy s = dirty_bufs s"
  by (auto simp: busy_def dirty_bufs_def idle_def)

lemma open_two:
  assumes cs: "cstate pid s" and xy: "x \<noteq> y" and b: "unat x < length (memdisk s)" "unat y < length (memdisk s)"
    and d: "card (dirty s) < NBUF" "y \<in> dirty s \<or> card (dirty s) + 1 < NBUF"
  shows "\<exists>i t j u. bread 1 x s = Ok i t \<and> bread 1 y t = Ok j u \<and> opens2 pid x y s i j u"
proof -
  have c: "ctx {} pid s" "cache_ok pid s" "idle s" using cs by (auto simp: cstate_def)
  have "\<exists>i t. bread 1 x s = Ok i t \<and> opens pid x s i t"
    by (rule bread_opens [OF c(1,2) b(1)])
      (use c(3) d(1) busy_dirty [OF c(3)] card_dirty [OF c(2)] in \<open>auto simp: idle_def\<close>)
  then obtain i t where t: "bread 1 x s = Ok i t" "opens pid x s i t" by blast
  note o = t(2) [unfolded opens_def]
  have i: "i < NBUF" using o by (simp add: held_def)
  have fy: "\<forall>k < NBUF. holds_block y (bufs t ! k) \<longrightarrow> b_refcnt (bufs t ! k) = 0"
  proof (intro allI impI)
    fix k assume k: "k < NBUF" "holds_block y (bufs t ! k)"
    then have "k \<noteq> i" using o xy by (auto simp: holds_block_def)
    then show "b_refcnt (bufs t ! k) = 0" using o c(3) k(1) by (simp add: idle_def)
  qed
  have av: "(\<exists>k < NBUF. holds_block y (bufs t ! k)) \<or> card (busy t) < NBUF"
  proof (cases "y \<in> dirty s")
    case True
    have "y \<in> dirty t" "cache_ok pid t" using True o by auto
    then show ?thesis by (metis dirty_hit)
  next
    case False
    have "busy t \<subseteq> insert i (busy s)"
      using o by (auto simp: busy_def)
    then have "card (busy t) \<le> card (insert i (busy s))"
      by (rule card_mono [rotated]) (simp add: busy_def)
    also have "\<dots> \<le> card (busy s) + 1" by (simp add: card_insert_if busy_def)
    finally show ?thesis using False d(2) busy_dirty [OF c(3)] card_dirty [OF c(2)] by auto
  qed
  have "\<exists>j u. bread 1 y t = Ok j u \<and> opens pid y t j u"
    by (rule bread_opens) (use o b(2) fy av in auto)
  then obtain j u where u: "bread 1 y t = Ok j u" "opens pid y t j u" by blast
  note p = u(2) [unfolded opens_def]
  have ij: "i \<noteq> j" using o p by (auto simp: held_def)
  have "opens2 pid x y s i j u"
    unfolding opens2_def using o p ij c(3) buf_frame_trans [of s t u] by (auto simp: idle_def)
  with t(1) u(1) show ?thesis by blast
qed

text \<open>
  The contents of buffer \<open>e\<close> are copied to buffer \<open>d\<close>, which is written through; then both are
  released. This is the body of both loops over the log.
\<close>

definition copy_tail :: "nat \<Rightarrow> nat \<Rightarrow> ('x buf_st_scheme, unit) prog" where
  "copy_tail d e =
     seqM (set_data d (bdata e)) (
     seqM (bwrite d) (
     seqM (brelse e)
     (brelse d)))"

definition block_put :: "u32 \<Rightarrow> 'x buf_st_scheme \<Rightarrow> u32 \<Rightarrow> u8 list \<Rightarrow> 'x buf_st_scheme \<Rightarrow> bool" where
  "block_put pid s b v t \<longleftrightarrow>
     cstate pid t \<and> buf_frame s t \<and> view t = (view s)(b := v) \<and> dirty t = dirty s - {b} \<and>
     memdisk t = (memdisk s)[unat b := v] \<and> dtrace t = dtrace s @ [(unat b, v)]"

lemma released_dirty:
  assumes "cache_ok pid s" "held pid i s"
  shows "dirty (released i s) = dirty s"
proof -
  have i: "i < NBUF" "length (bufs s) = NBUF" using assms cache_okD(1) by (auto simp: held_def)
  have bt: "bufs (released i s) = (bufs s)[i := (bufs s ! i)\<lparr>b_refcnt := 0\<rparr>]" by (simp add: released_def)
  have "b_flags (bufs (released i s) ! k) = b_flags (bufs s ! k)" "b_blockno (bufs (released i s) ! k) = b_blockno (bufs s ! k)" for k
    using bt i by (cases "k = i"; simp)+
  then show ?thesis by (simp add: dirty_def dirty_bufs_def)
qed

lemma refcnt_other:
  "j \<noteq> i \<Longrightarrow> b_refcnt (bufs (released i s) ! j) = b_refcnt (bufs s ! j)"
  "b_refcnt (bufs (written i s) ! j) = b_refcnt (bufs s ! j)"
  "b_refcnt (bufs (filled i v s) ! j) = b_refcnt (bufs s ! j)"
  by (cases "j = i"; cases "i < length (bufs s)"; simp add: released_def written_def filled_def Let_def list_update_beyond)+

lemma copy_tail_ok:
  fixes s :: "'x buf_st_scheme"
  assumes c: "ctx {} pid s" and ok: "cache_ok pid s" and de: "d \<noteq> e" and hd: "held pid d s" and he: "held pid e s"
    and sy: "synced e s" and bl: "b_blockno (bufs s ! d) = b" and ne: "b_blockno (bufs s ! e) \<noteq> b"
    and idl: "\<forall>k < NBUF. k \<noteq> d \<and> k \<noteq> e \<longrightarrow> b_refcnt (bufs s ! k) = 0"
  shows "\<exists>t. copy_tail d e s = Ok () t \<and> block_put pid s b (bdata e s) t"
proof -
  let ?v = "bdata e s" and ?f = "filled d (bdata e s) s"
  have len: "length (bufs s) = NBUF" "d < NBUF" "e < NBUF" using cache_okD(1) [OF ok] hd he by (auto simp: held_def)
  have lv: "length ?v = BSIZE" using cache_okD(2) [OF ok len(3)] by (simp add: buf_ok_def)
  note F = filled_ok [OF ok hd lv]
  have cf: "ctx {} pid ?f" using c by (simp add: filled_def)
  have df: "bufs ?f ! d = (bufs s ! d)\<lparr>b_data := ?v\<rparr>" "bufs ?f ! e = bufs s ! e" using len de by (simp_all add: filled_def)
  from bwrite_ok [OF cf F(1,2)] obtain w where w: "bwrite d ?f = Ok () w" "ctx {} pid w" "sys_eq (written d ?f) w" by blast
  note W = written_ok [OF F(1,2)] and we = sys_eq_preds [OF w(3)] and wf = sys_eq_buf [OF w(3)]
  have bw: "bufs w = (bufs s)[d := (bufs s ! d)\<lparr>b_data := ?v, b_flags := B_VALID\<rparr>]"
    using wf len by (simp add: written_def Let_def filled_def)
  have mw: "memdisk w = (memdisk s)[unat b := ?v]" using wf W(5) df bl by (simp add: filled_def)
  have okw: "cache_ok pid w" "held pid d w" using we W by auto
  have he': "held pid e w"
    using he de wf(1,2) mw len by (simp add: held_def locked_by_def written_def filled_def Let_def)
  have sye: "synced e w"
    using sy bw mw de ne by (auto simp: synced_def nth_list_update word_unat_eq_iff)
  from brelse_ok [OF w(2) okw(1) he'] obtain r where r: "brelse e w = Ok () r" "ctx {} pid r" "sys_eq (released e w) r" by blast
  note R = released_ok [OF okw(1) he' sye [unfolded synced_def]] and re = sys_eq_preds [OF r(3)] and rf = sys_eq_buf [OF r(3)]
  have okr: "cache_ok pid r" "held pid d r" using re R okw de by auto
  have br: "bufs r ! d = bufs w ! d" using rf R(5) de by simp
  have syd: "b_flags (bufs r ! d) = B_VALID \<longrightarrow> b_data (bufs r ! d) = memdisk r ! unat (b_blockno (bufs r ! d))"
    using br bw mw rf R(3) len bl hd by (simp add: held_def)
  from brelse_ok [OF r(2) okr] obtain t where t: "brelse d r = Ok () t" "ctx {} pid t" "sys_eq (released d r) t" by blast
  note T = released_ok [OF okr syd] and te = sys_eq_preds [OF t(3)] and tf = sys_eq_buf [OF t(3)]
  have "copy_tail d e s = Ok () t"
    using w(1) r(1) t(1) by (simp add: copy_tail_def set_data_def M_defs filled_def)
  moreover have "view t = (view s)(b := ?v)" using te T R re W we F bl by simp
  moreover have "memdisk t = (memdisk s)[unat b := ?v]" using tf T rf R mw by simp
  moreover have "dtrace t = dtrace s @ [(unat b, ?v)]"
    using tf T rf R wf W(6) df bl by (simp add: filled_def)
  moreover have "dirty t = dirty s - {b}"
  proof -
    have "dirty w = dirty s - {b}"
      using dirty_update [OF ok len(1,2) bw] bl hd by (simp add: held_def)
    then show ?thesis using te re released_dirty [OF okr] released_dirty [OF okw(1) he'] by simp
  qed
  moreover have "buf_frame s t"
    by (intro buf_frame_trans [OF frame_ops(1) buf_frame_trans [OF frame_ops(2) buf_frame_trans [OF sys_eq_frame [OF w(3)]
          buf_frame_trans [OF frame_ops(3) buf_frame_trans [OF sys_eq_frame [OF r(3)]
          buf_frame_trans [OF frame_ops(3) sys_eq_frame [OF t(3)]]]]]]])
  moreover have "idle t"
    unfolding idle_def
  proof (intro allI impI)
    fix k assume k: "k < NBUF"
    show "b_refcnt (bufs t ! k) = 0"
    proof (cases "k = d")
      case True
      then show ?thesis using tf T(5) okr cache_okD(1) [OF okr(1)] k by simp
    next
      case kd: False
      have "b_refcnt (bufs t ! k) = b_refcnt (bufs r ! k)" using kd tf refcnt_other(1) by simp
      also have "\<dots> = 0"
      proof (cases "k = e")
        case True
        then show ?thesis using rf R(5) cache_okD(1) [OF okw(1)] k by simp
      next
        case False
        then have "b_refcnt (bufs r ! k) = b_refcnt (bufs w ! k)" using rf refcnt_other(1) by simp
        then show ?thesis using bw kd False idl k by simp
      qed
      finally show ?thesis .
    qed
  qed
  ultimately show ?thesis using te T(1) t(2) by (auto simp: block_put_def cstate_def)
qed


text \<open>One block is opened, changed, written through and released, as \<open>write_head\<close> does.\<close>

lemma put_tail_ok:
  fixes s :: "'x buf_st_scheme"
  assumes c: "ctx {} pid s" and ok: "cache_ok pid s" and hd: "held pid d s" and bl: "b_blockno (bufs s ! d) = b"
    and lv: "length (f s) = BSIZE" and idl: "\<forall>k < NBUF. k \<noteq> d \<longrightarrow> b_refcnt (bufs s ! k) = 0"
  shows "\<exists>t. seqM (set_data d f) (seqM (bwrite d) (brelse d)) s = Ok () t \<and> block_put pid s b (f s) t"
proof -
  let ?v = "f s" and ?f = "filled d (f s) s"
  have len: "length (bufs s) = NBUF" "d < NBUF" using cache_okD(1) [OF ok] hd by (auto simp: held_def)
  note F = filled_ok [OF ok hd lv]
  have cf: "ctx {} pid ?f" using c by (simp add: filled_def)
  have df: "bufs ?f ! d = (bufs s ! d)\<lparr>b_data := ?v\<rparr>" using len by (simp add: filled_def)
  from bwrite_ok [OF cf F(1,2)] obtain w where w: "bwrite d ?f = Ok () w" "ctx {} pid w" "sys_eq (written d ?f) w" by blast
  note W = written_ok [OF F(1,2)] and we = sys_eq_preds [OF w(3)] and wf = sys_eq_buf [OF w(3)]
  have bw: "bufs w = (bufs s)[d := (bufs s ! d)\<lparr>b_data := ?v, b_flags := B_VALID\<rparr>]"
    using wf len by (simp add: written_def Let_def filled_def)
  have mw: "memdisk w = (memdisk s)[unat b := ?v]" using wf W(5) df bl by (simp add: filled_def)
  have okw: "cache_ok pid w" "held pid d w" using we W by auto
  have syd: "b_flags (bufs w ! d) = B_VALID \<longrightarrow> b_data (bufs w ! d) = memdisk w ! unat (b_blockno (bufs w ! d))"
    using bw mw len bl hd by (simp add: held_def)
  from brelse_ok [OF w(2) okw] obtain t where t: "brelse d w = Ok () t" "ctx {} pid t" "sys_eq (released d w) t" by blast
  note T = released_ok [OF okw syd] and te = sys_eq_preds [OF t(3)] and tf = sys_eq_buf [OF t(3)]
  have "seqM (set_data d f) (seqM (bwrite d) (brelse d)) s = Ok () t"
    using w(1) t(1) by (simp add: set_data_def M_defs filled_def)
  moreover have "view t = (view s)(b := ?v)" "memdisk t = (memdisk s)[unat b := ?v]"
    using te T W we F bl tf mw by simp_all
  moreover have "dtrace t = dtrace s @ [(unat b, ?v)]"
    using tf T wf W(6) df bl by (simp add: filled_def)
  moreover have "dirty t = dirty s - {b}"
    using dirty_update [OF ok len(1,2) bw] bl hd te released_dirty [OF okw] by (simp add: held_def)
  moreover have "buf_frame s t"
    by (intro buf_frame_trans [OF frame_ops(1) buf_frame_trans [OF frame_ops(2) buf_frame_trans [OF sys_eq_frame [OF w(3)]
          buf_frame_trans [OF frame_ops(3) sys_eq_frame [OF t(3)]]]]])
  moreover have "idle t"
    unfolding idle_def
  proof (intro allI impI)
    fix k assume k: "k < NBUF"
    then show "b_refcnt (bufs t ! k) = 0"
      using tf T(5) bw len idl by (cases "k = d") simp_all
  qed
  ultimately show ?thesis using te T(1) t(2) by (auto simp: block_put_def cstate_def)
qed

lemma put_block_ok:
  assumes cs: "cstate pid s" and b: "unat b < length (memdisk s)" and d: "b \<in> dirty s \<or> card (dirty s) < NBUF"
  shows "\<exists>i t. bread 1 b s = Ok i t \<and> opens pid b s i t \<and>
           (\<forall>f. length (f t) = BSIZE \<longrightarrow>
              (\<exists>u. seqM (set_data i f) (seqM (bwrite i) (brelse i)) t = Ok () u \<and> block_put pid s b (f t) u))"
proof -
  have c: "ctx {} pid s" "cache_ok pid s" "idle s" using cs by (auto simp: cstate_def)
  have av: "(\<exists>k < NBUF. holds_block b (bufs s ! k)) \<or> card (busy s) < NBUF"
    using d busy_dirty [OF c(3)] card_dirty [OF c(2)] by (metis dirty_hit [OF c(2)])
  have "\<exists>i t. bread 1 b s = Ok i t \<and> opens pid b s i t"
    by (rule bread_opens [OF c(1,2) b _ av]) (use c(3) in \<open>auto simp: idle_def\<close>)
  then obtain i t where t: "bread 1 b s = Ok i t" "opens pid b s i t" by blast
  note o = t(2) [unfolded opens_def]
  have "\<exists>u. seqM (set_data i f) (seqM (bwrite i) (brelse i)) t = Ok () u \<and> block_put pid s b (f t) u"
    if L: "length (f t) = BSIZE" for f
  proof -
    obtain u where u: "seqM (set_data i f) (seqM (bwrite i) (brelse i)) t = Ok () u" "block_put pid t b (f t) u"
      using put_tail_ok [of pid t i b f] o L c(3) by (auto simp: idle_def)
    then show ?thesis using o buf_frame_trans [of s t u] by (auto simp: block_put_def)
  qed
  with t show ?thesis by blast
qed

section \<open>Sequences of block writes\<close>

definition apply_writes :: "(u32 \<times> u8 list) list \<Rightarrow> u8 list list \<Rightarrow> u8 list list" where
  "apply_writes ws d = fold (\<lambda>w d. d[unat (fst w) := snd w]) ws d"

definition view_writes :: "(u32 \<times> u8 list) list \<Rightarrow> (u32 \<Rightarrow> u8 list) \<Rightarrow> u32 \<Rightarrow> u8 list" where
  "view_writes ws f = fold (\<lambda>w f. f(fst w := snd w)) ws f"

definition blocks_put :: "u32 \<Rightarrow> 'x buf_st_scheme \<Rightarrow> (u32 \<times> u8 list) list \<Rightarrow> 'x buf_st_scheme \<Rightarrow> bool" where
  "blocks_put pid s ws t \<longleftrightarrow>
     cstate pid t \<and> buf_frame s t \<and> view t = view_writes ws (view s) \<and> dirty t = dirty s - fst ` set ws \<and>
     memdisk t = apply_writes ws (memdisk s) \<and> dtrace t = dtrace s @ map (\<lambda>w. (unat (fst w), snd w)) ws"

lemma writes_append [simp]:
  "apply_writes (xs @ ys) d = apply_writes ys (apply_writes xs d)"
  "view_writes (xs @ ys) f = view_writes ys (view_writes xs f)"
  "apply_writes [] d = d" "view_writes [] f = f"
  "apply_writes (w # ys) d = apply_writes ys (d[unat (fst w) := snd w])"
  "view_writes (w # ys) f = view_writes ys (f(fst w := snd w))"
  by (simp_all add: apply_writes_def view_writes_def)

lemma length_apply_writes [simp]: "length (apply_writes ws d) = length d"
  by (induction ws arbitrary: d) simp_all

lemma view_writes_other: "b \<notin> fst ` set ws \<Longrightarrow> view_writes ws f b = f b"
  by (induction ws arbitrary: f) auto

lemma view_writes_in:
  "b \<in> fst ` set ws \<Longrightarrow> (\<And>w. w \<in> set ws \<Longrightarrow> fst w = b \<Longrightarrow> snd w = v) \<Longrightarrow> view_writes ws f b = v"
proof (induction ws rule: rev_induct)
  case (snoc w ws)
  then show ?case by (cases "fst w = b") (auto simp: image_iff)
qed simp

lemma apply_writes_nth:
  "unat b < length d \<Longrightarrow> apply_writes ws d ! unat b = view_writes ws (\<lambda>x. d ! unat x) b"
proof (induction ws rule: rev_induct)
  case (snoc w ws)
  then show ?case by (cases "b = fst w") (simp_all add: word_unat_eq_iff nth_list_update)
qed simp

lemma blocks_put_nil: "cstate pid s \<Longrightarrow> blocks_put pid s [] s"
  by (simp add: blocks_put_def)

lemma blocks_put_one: "blocks_put pid s [(b, v)] t = block_put pid s b v t"
  by (simp add: blocks_put_def block_put_def)

lemma blocks_put_trans: "blocks_put pid s ws t \<Longrightarrow> blocks_put pid t ws' u \<Longrightarrow> blocks_put pid s (ws @ ws') u"
  using buf_frame_trans [of s t u] by (auto simp: blocks_put_def)

lemma blocks_put_cons: "block_put pid s b v t \<Longrightarrow> blocks_put pid t ws u \<Longrightarrow> blocks_put pid s ((b, v) # ws) u"
  using blocks_put_trans [of pid s "[(b, v)]" t ws u] by (simp add: blocks_put_one)

section \<open>The loops over the log\<close>

definition logblk :: "'x log_st_scheme \<Rightarrow> nat \<Rightarrow> u32" where
  "logblk s k = lg_start s + of_nat k + 1"

definition logn :: "'x log_st_scheme \<Rightarrow> nat" where
  "logn s = nat (sint (lh_n s))"

definition home :: "'x log_st_scheme \<Rightarrow> nat \<Rightarrow> u32" where
  "home s k = lh_block s ! k"

text \<open>The blocks of the log on disk: the header and \<open>lg_size - 1\<close> data blocks.\<close>

definition in_log :: "'x log_st_scheme \<Rightarrow> u32 \<Rightarrow> bool" where
  "in_log s b \<longleftrightarrow> unat (lg_start s) \<le> unat b \<and> unat b < unat (lg_start s) + unat (lg_size s)"

definition log_geom :: "'x log_st_scheme \<Rightarrow> bool" where
  "log_geom s \<longleftrightarrow>
     lg_dev s = 1 \<and> length (lh_block s) = LOGSIZE \<and> 0 < unat (lg_size s) \<and>
     unat (lg_start s) + unat (lg_size s) \<le> length (memdisk s) \<and> length (memdisk s) < 2 ^ 31"

definition log_wf :: "'x log_st_scheme \<Rightarrow> bool" where
  "log_wf s \<longleftrightarrow>
     log_geom s \<and> 0 \<le> sint (lh_n s) \<and> logn s \<le> LOGSIZE \<and> logn s < unat (lg_size s) \<and>
     (\<forall>k < logn s. unat (home s k) < length (memdisk s) \<and> \<not> in_log s (home s k))"

lemma logblk_unat:
  assumes "log_geom s" "k + 1 < unat (lg_size s)"
  shows "unat (logblk s k) = unat (lg_start s) + k + 1"
proof -
  have "unat (lg_start s) + (k + 1) < 2 ^ LENGTH(32)" using assms by (simp add: log_geom_def)
  then show ?thesis
    by (simp add: logblk_def unat_word_ariths unat_of_nat take_bit_eq_mod)
qed


lemma logblk_in_log: "log_geom s \<Longrightarrow> k + 1 < unat (lg_size s) \<Longrightarrow> in_log s (logblk s k)"
  by (simp add: in_log_def logblk_unat)

lemma logblk_inj:
  "log_geom s \<Longrightarrow> j + 1 < unat (lg_size s) \<Longrightarrow> k + 1 < unat (lg_size s) \<Longrightarrow> logblk s j = logblk s k \<longleftrightarrow> j = k"
  by (auto simp: word_unat_eq_iff logblk_unat)

lemma log_frames:
  assumes "buf_frame s t" "length (memdisk t) = length (memdisk s)"
  shows "logblk t = logblk s" "logn t = logn s" "home t = home s" "in_log t = in_log s" "log_geom t = log_geom s"
    "log_wf t = log_wf s"
  using assms(2) log_frame [OF assms(1)]
  by (simp_all add: logblk_def logn_def home_def in_log_def log_geom_def log_wf_def fun_eq_iff)

lemma blocks_put_frames:
  assumes "blocks_put pid s ws t"
  shows "logblk t = logblk s" "logn t = logn s" "home t = home s" "in_log t = in_log s" "log_geom t = log_geom s"
    "log_wf t = log_wf s" "lg_dev t = lg_dev s" "lg_start t = lg_start s" "lh_block t = lh_block s" "lh_n t = lh_n s"
    "cstate pid t" "length (memdisk t) = length (memdisk s)"
  using assms log_frames [of s t] log_frame [of s t] by (auto simp: blocks_put_def)

lemma seqM_then: "m s = Ok x t \<Longrightarrow> seqM m k s = k t"
  by (simp add: M_defs)

lemma copy_tail_then:
  "copy_tail d e s = Ok () t \<Longrightarrow>
   seqM (set_data d (bdata e)) (seqM (bwrite d) (seqM (brelse e) (seqM (brelse d) k))) s = k t"
  using seqM_then [of "copy_tail d e" s "()" t k] by (simp add: copy_tail_def seqM_assoc)

lemma copy_blocks_ok:
  assumes cs: "cstate pid s" and xy: "x \<noteq> y" and b: "unat x < length (memdisk s)" "unat y < length (memdisk s)"
    and d: "card (dirty s) < NBUF" "y \<in> dirty s \<or> card (dirty s) + 1 < NBUF"
  shows "\<exists>i t j u v. bread 1 x s = Ok i t \<and> bread 1 y t = Ok j u \<and> copy_tail i j u = Ok () v \<and> block_put pid s x (view s y) v"
    and "\<exists>i t j u v. bread 1 x s = Ok i t \<and> bread 1 y t = Ok j u \<and> copy_tail j i u = Ok () v \<and> block_put pid s y (view s x) v"
proof -
  obtain i t j u where r: "bread 1 x s = Ok i t" "bread 1 y t = Ok j u" "opens2 pid x y s i j u"
    using open_two [OF assms] by blast
  note o = r(3) [unfolded opens2_def]
  have put: "block_put pid u b v w \<Longrightarrow> block_put pid s b v w" for b v w
    using o buf_frame_trans [of s u w] by (auto simp: block_put_def)
  obtain v where v: "copy_tail i j u = Ok () v" "block_put pid u x (bdata j u) v"
    using copy_tail_ok [of pid u i j x] o xy by auto
  obtain w where w: "copy_tail j i u = Ok () w" "block_put pid u y (bdata i u) w"
    using copy_tail_ok [of pid u j i y] o xy by auto
  show "\<exists>i t j u v. bread 1 x s = Ok i t \<and> bread 1 y t = Ok j u \<and> copy_tail i j u = Ok () v \<and> block_put pid s x (view s y) v"
    "\<exists>i t j u v. bread 1 x s = Ok i t \<and> bread 1 y t = Ok j u \<and> copy_tail j i u = Ok () v \<and> block_put pid s y (view s x) v"
    using r v w put o by metis+
qed

lemma sint_of_logn: "0 \<le> sint (lh_n s) \<Longrightarrow> sint (lh_n s) = int (logn s)"
  by (simp add: logn_def)

lemma write_log_loop_ok:
  assumes "cstate pid s" "log_wf s" "card (dirty s) < NBUF" "tail \<le> logn s" "logn s < tail + fuel"
    "\<And>k. tail \<le> k \<Longrightarrow> k < logn s \<Longrightarrow> home s k \<in> dirty s"
  shows "\<exists>t. write_log_loop fuel tail s = Ok () t \<and>
             blocks_put pid s (map (\<lambda>k. (logblk s k, view s (home s k))) [tail..<logn s]) t"
  using assms
proof (induction fuel arbitrary: s tail)
  case 0
  then show ?case by simp
next
  case (Suc fuel)
  note wf = Suc.prems(2) [unfolded log_wf_def] and geom = log_geom_def [of s]
  have n: "sint (lh_n s) = int (logn s)" using wf sint_of_logn by blast
  show ?case
  proof (cases "tail = logn s")
    case True
    then show ?thesis using n blocks_put_nil [OF Suc.prems(1)] by (simp add: M_defs)
  next
    case False
    then have tl: "tail < logn s" using Suc.prems(4) by simp
    let ?x = "logblk s tail" and ?y = "home s tail"
    have xl: "in_log s ?x" "unat ?x = unat (lg_start s) + tail + 1" "?x \<noteq> ?y"
      using tl wf logblk_in_log [of s tail] logblk_unat [of s tail] by auto
    have ux: "unat ?x < length (memdisk s)" using xl tl wf geom by auto
    obtain i t j u v where r: "bread 1 ?x s = Ok i t" "bread 1 ?y t = Ok j u" "copy_tail i j u = Ok () v"
      "block_put pid s ?x (view s ?y) v"
      using copy_blocks_ok(1) [OF Suc.prems(1) xl(3) ux _ Suc.prems(3)] tl wf Suc.prems(6) by blast
    note bp = r(4) [folded blocks_put_one] and fr = blocks_put_frames [OF r(4) [folded blocks_put_one]]
    have vw: "view v (home s k) = view s (home s k)" if "k < logn s" for k
      using r(4) that wf xl(1) by (auto simp: block_put_def)
    have dv: "dirty v = dirty s - {?x}" "finite (dirty s)"
      using r(4) by (simp_all add: block_put_def dirty_def dirty_bufs_def)
    then have "card (dirty v) \<le> card (dirty s)" by (simp add: card_mono)
    moreover have "home v k \<in> dirty v" if "Suc tail \<le> k" "k < logn v" for k
      using that fr dv Suc.prems(6) [of k] wf xl(1) by auto
    ultimately obtain z where z: "write_log_loop fuel (Suc tail) v = Ok () z"
      "blocks_put pid v (map (\<lambda>k. (logblk v k, view v (home v k))) [Suc tail..<logn v]) z"
      using Suc.IH [of v "Suc tail"] fr Suc.prems tl by auto
    have "map (\<lambda>k. (logblk v k, view v (home v k))) [Suc tail..<logn v] =
          map (\<lambda>k. (logblk s k, view s (home s k))) [Suc tail..<logn s]"
      using fr vw by simp
    then have "blocks_put pid s (map (\<lambda>k. (logblk s k, view s (home s k))) [tail..<logn s]) z"
      using blocks_put_cons [OF r(4), of _ z] z(2) tl by (simp add: upt_conv_Cons)
    moreover have "write_log_loop (Suc fuel) tail s = Ok () z"
      using r z(1) copy_tail_then [OF r(3), of "write_log_loop fuel (Suc tail)"] n tl wf geom
      by (simp add: bindM_def getS_def logblk_def home_def)
    ultimately show ?thesis by blast
  qed
qed

text \<open>
  Installing copies the log blocks home. The home blocks are either all in the cache (after
  \<open>write_log\<close>) or there is room for two buffers (during recovery).
\<close>

definition install_room :: "nat \<Rightarrow> 'x log_st_scheme \<Rightarrow> bool" where
  "install_room tail s \<longleftrightarrow>
     card (dirty s) < NBUF \<and>
     ((\<forall>k. tail \<le> k \<longrightarrow> k < logn s \<longrightarrow> home s k \<in> dirty s) \<and> distinct (map (home s) [tail..<logn s]) \<or>
      card (dirty s) + 1 < NBUF)"

lemma install_room_step:
  assumes "install_room tail s" "tail < logn s" "dirty t = dirty s - {home s tail}" "home t = home s" "logn t = logn s"
  shows "install_room (Suc tail) t"
proof -
  have fin: "finite (dirty s)" by (simp add: dirty_def dirty_bufs_def)
  then have c: "card (dirty t) \<le> card (dirty s)" using assms(3) by (simp add: card_mono)
  have "home s k \<noteq> home s tail" if "distinct (map (home s) [tail..<logn s])" "Suc tail \<le> k" "k < logn s" for k
    using that assms(2) inj_onD [of "home s" "{tail..<logn s}" k tail] by (auto simp: distinct_map)
  moreover have "distinct (map (home s) [tail..<logn s]) \<Longrightarrow> distinct (map (home s) [Suc tail..<logn s])"
    using assms(2) by (simp add: upt_conv_Cons)
  moreover have "card (dirty t) < NBUF" "card (dirty s) + 1 < NBUF \<Longrightarrow> card (dirty t) + 1 < NBUF"
    using assms(1) c by (simp_all add: install_room_def)
  ultimately show ?thesis
    using assms(1) unfolding install_room_def assms(4,5) by (simp add: assms(3)) (metis Suc_leD)
qed

lemma install_loop_ok:
  assumes "cstate pid s" "log_wf s" "install_room tail s" "tail \<le> logn s" "logn s < tail + fuel"
  shows "\<exists>t. install_loop fuel tail s = Ok () t \<and>
             blocks_put pid s (map (\<lambda>k. (home s k, view s (logblk s k))) [tail..<logn s]) t"
  using assms
proof (induction fuel arbitrary: s tail)
  case 0
  then show ?case by simp
next
  case (Suc fuel)
  note wf = Suc.prems(2) [unfolded log_wf_def] and geom = log_geom_def [of s]
  have n: "sint (lh_n s) = int (logn s)" using wf sint_of_logn by blast
  show ?case
  proof (cases "tail = logn s")
    case True
    then show ?thesis using n blocks_put_nil [OF Suc.prems(1)] by (simp add: M_defs)
  next
    case False
    then have tl: "tail < logn s" using Suc.prems(4) by simp
    let ?x = "logblk s tail" and ?y = "home s tail"
    have xl: "in_log s ?x" "unat ?x = unat (lg_start s) + tail + 1" "?x \<noteq> ?y"
      using tl wf logblk_in_log [of s tail] logblk_unat [of s tail] by auto
    have ux: "unat ?x < length (memdisk s)" using xl tl wf geom by auto
    obtain i t j u v where r: "bread 1 ?x s = Ok i t" "bread 1 ?y t = Ok j u" "copy_tail j i u = Ok () v"
      "block_put pid s ?y (view s ?x) v"
      using copy_blocks_ok(2) [OF Suc.prems(1) xl(3) ux] tl wf Suc.prems(3) unfolding install_room_def by blast
    note fr = blocks_put_frames [OF r(4) [folded blocks_put_one]]
    have vw: "view v (logblk s k) = view s (logblk s k)" if "k < logn s" for k
      using r(4) that wf logblk_in_log [of s k] tl by (auto simp: block_put_def)
    have "install_room (Suc tail) v"
      by (rule install_room_step [OF Suc.prems(3) tl]) (use r(4) fr in \<open>simp_all add: block_put_def\<close>)
    then obtain z where z: "install_loop fuel (Suc tail) v = Ok () z"
      "blocks_put pid v (map (\<lambda>k. (home v k, view v (logblk v k))) [Suc tail..<logn v]) z"
      using Suc.IH [of v "Suc tail"] fr Suc.prems tl by auto
    have "map (\<lambda>k. (home v k, view v (logblk v k))) [Suc tail..<logn v] =
          map (\<lambda>k. (home s k, view s (logblk s k))) [Suc tail..<logn s]"
      using fr vw by simp
    then have "blocks_put pid s (map (\<lambda>k. (home s k, view s (logblk s k))) [tail..<logn s]) z"
      using blocks_put_cons [OF r(4), of _ z] z(2) tl by (simp add: upt_conv_Cons)
    moreover have "install_loop (Suc fuel) tail s = Ok () z"
      using r z(1) copy_tail_then [OF r(3), of "install_loop fuel (Suc tail)"] n tl wf geom
      by (simp add: bindM_def getS_def logblk_def home_def)
    ultimately show ?thesis by blast
  qed
qed

lemma install_trans_ok:
  assumes "cstate pid s" "log_wf s" "install_room 0 s"
  shows "\<exists>t. install_trans s = Ok () t \<and>
             blocks_put pid s (map (\<lambda>k. (home s k, view s (logblk s k))) [0..<logn s]) t"
  using install_loop_ok [OF assms, of "LOGSIZE + 1"] assms(2) by (simp add: install_trans_def log_wf_def del: install_loop.simps)

lemma view_length: "cache_ok pid s \<Longrightarrow> unat b < length (memdisk s) \<Longrightarrow> length (view s b) = BSIZE"
  using view_hit [of pid s _ b] view_miss [of s b]
  by (cases "\<exists>i < NBUF. holds_block b (bufs s ! i)") (auto simp: cache_ok_def buf_ok_def)

text \<open>The header written by \<open>write_head\<close>: the count and the block numbers, over the old block.\<close>

definition head_of :: "'x log_st_scheme \<Rightarrow> u8 list" where
  "head_of s = enc_head (lh_n s) (lh_block s) (view s (lg_start s))"

lemma write_head_ok:
  assumes cs: "cstate pid s" and wf: "log_wf s" and d: "card (dirty s) < NBUF"
  shows "\<exists>t. write_head s = Ok () t \<and> blocks_put pid s [(lg_start s, head_of s)] t"
proof -
  note w = wf [unfolded log_wf_def log_geom_def]
  have b: "unat (lg_start s) < length (memdisk s)" using w by linarith
  obtain i t where t: "bread 1 (lg_start s) s = Ok i t" "opens pid (lg_start s) s i t"
    and put: "\<And>f. length (f t) = BSIZE \<Longrightarrow>
      \<exists>u. seqM (set_data i f) (seqM (bwrite i) (brelse i)) t = Ok () u \<and> block_put pid s (lg_start s) (f t) u"
    using put_block_ok [OF cs b] d by blast
  note o = t(2) [unfolded opens_def]
  have l: "length (bdata i t) = BSIZE" using o view_length [OF _ b] cs by (auto simp: cstate_def)
  have f: "lh_n t = lh_n s" "lh_block t = lh_block s" using o log_frame [of s t] by auto
  have n: "sint (lh_n s) = int (logn s)" using w sint_of_logn by blast
  have h: "enc_head (lh_n s) (lh_block s) (bdata i t) = head_of s" using o by (simp add: head_of_def)
  have "length (head_of s) = BSIZE"
    using w l n unfolding h [symmetric] enc_head_def by (simp add: BSIZE_def LOGSIZE_def min_def)
  then obtain u where u: "seqM (set_data i (\<lambda>z. enc_head (lh_n s) (lh_block s) (bdata i z))) (seqM (bwrite i) (brelse i)) t = Ok () u"
    "block_put pid s (lg_start s) (head_of s) u"
    using put [of "\<lambda>z. enc_head (lh_n s) (lh_block s) (bdata i z)"] h by auto
  then show ?thesis
    using t f n w by (intro exI [of _ u]) (simp add: write_head_def bindM_def getS_def blocks_put_one)
qed


section \<open>Commit and recovery\<close>

lemma log_upd_preds [simp]:
  "cstate pid (lh_n_update f s) = cstate pid s" "view (lh_n_update f s) = view s" "dirty (lh_n_update f s) = dirty s"
  "cstate pid (lh_block_update g s) = cstate pid s" "view (lh_block_update g s) = view s" "dirty (lh_block_update g s) = dirty s"
  "logblk (lh_n_update f s) = logblk s" "logblk (lh_block_update g s) = logblk s" "home (lh_n_update f s) = home s"
  "in_log (lh_n_update f s) = in_log s" "in_log (lh_block_update g s) = in_log s"
  "log_geom (lh_n_update f s) = log_geom s"
  by (simp_all add: cstate_def ctx_def cache_ok_def idle_def view_def dirty_def dirty_bufs_def fun_eq_iff logblk_def home_def
      in_log_def log_geom_def lockset_def cpu_found_def curcpu_def split: option.split)

lemma close_buf_ok:
  assumes c: "ctx {} pid s" and ok: "cache_ok pid s" and hd: "held pid i s" and sy: "synced i s"
    and idl: "\<forall>k < NBUF. k \<noteq> i \<longrightarrow> b_refcnt (bufs s ! k) = 0"
  shows "\<exists>t. brelse i s = Ok () t \<and> blocks_put pid s [] t"
proof -
  obtain t where t: "brelse i s = Ok () t" "ctx {} pid t" "sys_eq (released i s) t" using brelse_ok [OF c ok hd] by blast
  note T = released_ok [OF ok hd sy [unfolded synced_def]] and te = sys_eq_preds [OF t(3)] and tf = sys_eq_buf [OF t(3)]
  have "i < NBUF" "length (bufs s) = NBUF" using hd cache_okD(1) [OF ok] by (auto simp: held_def)
  then have "idle t" unfolding idle_def using tf T(5) idl by (auto simp: nth_list_update)
  moreover have "buf_frame s t" by (rule buf_frame_trans [OF frame_ops(3) sys_eq_frame [OF t(3)]])
  ultimately show ?thesis
    using t te tf T released_dirty [OF ok hd] by (auto simp: blocks_put_def cstate_def)
qed

lemma read_block_ok:
  assumes cs: "cstate pid s" and b: "unat b < length (memdisk s)" and d: "card (dirty s) < NBUF"
  shows "\<exists>i t. bread 1 b s = Ok i t \<and> opens pid b s i t \<and> (\<forall>k < NBUF. k \<noteq> i \<longrightarrow> b_refcnt (bufs t ! k) = 0)"
proof -
  obtain i t where t: "bread 1 b s = Ok i t" "opens pid b s i t" using put_block_ok [OF cs b] d by blast
  then have "\<forall>k < NBUF. k \<noteq> i \<longrightarrow> b_refcnt (bufs t ! k) = 0" using cs by (simp add: opens_def cstate_def idle_def)
  with t show ?thesis by blast
qed

text \<open>The header as recovery reads it from a block, and what \<open>read_head\<close> leaves.\<close>

definition head_n :: "u8 list \<Rightarrow> nat" where
  "head_n d = nat (sint (get32 d 0))"

definition head_blocks :: "u8 list \<Rightarrow> u32 list" where
  "head_blocks d = get32s d 4 (head_n d)"

definition headed :: "u8 list \<Rightarrow> 'x log_st_scheme \<Rightarrow> 'x log_st_scheme" where
  "headed d s = s\<lparr>lh_n := get32 d 0, lh_block := head_blocks d @ drop (head_n d) (lh_block s)\<rparr>"

lemma headed_preds:
  "ctx L pid (headed d s) = ctx L pid s" "cache_ok pid (headed d s) = cache_ok pid s" "held pid i (headed d s) = held pid i s"
  "synced i (headed d s) = synced i s" "bufs (headed d s) = bufs s"
  by (simp_all add: headed_def ctx_def cache_ok_def held_def synced_def locked_by_def lockset_def cpu_found_def curcpu_def)

lemma buf_frame_upd:
  assumes "buf_frame s t"
  shows "buf_frame (lh_n_update f s) (lh_n_update f t)" "buf_frame (headed d s) (headed d t)"
  using assms by (elim buf_frameE; simp add: headed_def buf_frame_def)+

lemma read_head_ok:
  assumes cs: "cstate pid s" and g: "log_geom s" and d: "card (dirty s) < NBUF"
    and n: "sint (get32 (view s (lg_start s)) 0) \<le> int LOGSIZE"
  shows "\<exists>t. read_head s = Ok () t \<and> blocks_put pid (headed (view s (lg_start s)) s) [] t"
proof -
  let ?b = "lg_start s" and ?v = "view s (lg_start s)"
  note w = g [unfolded log_geom_def]
  have b: "unat ?b < length (memdisk s)" using w by linarith
  obtain i t where t: "bread 1 ?b s = Ok i t" "opens pid ?b s i t" "\<forall>k < NBUF. k \<noteq> i \<longrightarrow> b_refcnt (bufs t ! k) = 0"
    using read_block_ok [OF cs b d] by blast
  note o = t(2) [unfolded opens_def]
  let ?h = "headed ?v t"
  have h: "ctx {} pid ?h" "cache_ok pid ?h" "held pid i ?h" "synced i ?h" "\<forall>k < NBUF. k \<noteq> i \<longrightarrow> b_refcnt (bufs ?h ! k) = 0"
    using o t(3) unfolding headed_preds by blast+
  obtain u where u: "brelse i ?h = Ok () u" "blocks_put pid ?h [] u" using close_buf_ok [OF h] by blast
  have ot: "bdata i t = ?v" and ld: "lg_dev s = 1" using o w by auto
  have n': "\<not> int LOGSIZE < sint (get32 ?v 0)" using n by simp
  have "read_head s = brelse i ?h"
    unfolding read_head_def bindM_def [of "getS lg_dev"] getS_def outcome.case ld
    by (simp only: bindM_def seqM_def t(1) modS_def ot n' Let_def outcome.case if_False headed_def head_blocks_def head_n_def) simp
  then have "read_head s = Ok () u" using u(1) by simp
  moreover have "blocks_put pid (headed ?v s) [] u"
  proof -
    have "buf_frame (headed ?v s) ?h" using o buf_frame_upd(2) by blast
    then show ?thesis using u(2) o buf_frame_trans [of "headed ?v s" ?h u]
      by (auto simp: blocks_put_def headed_def)
  qed
  ultimately show ?thesis by blast
qed


text \<open>The disk writes of a commit and of recovery, in order.\<close>

definition log_writes :: "'x log_st_scheme \<Rightarrow> (u32 \<times> u8 list) list" where
  "log_writes s = map (\<lambda>k. (logblk s k, view s (home s k))) [0..<logn s]"

definition home_writes :: "'x log_st_scheme \<Rightarrow> (u32 \<times> u8 list) list" where
  "home_writes s = map (\<lambda>k. (home s k, view s (home s k))) [0..<logn s]"

definition clear_head :: "'x log_st_scheme \<Rightarrow> u8 list \<Rightarrow> u8 list" where
  "clear_head s h = put32 h 0 0"

definition commit_writes :: "'x log_st_scheme \<Rightarrow> (u32 \<times> u8 list) list" where
  "commit_writes s =
     log_writes s @ [(lg_start s, head_of s)] @ home_writes s @ [(lg_start s, clear_head s (head_of s))]"

text \<open>
  A transaction ready to commit: the log is well-formed, the logged blocks are distinct and are
  the dirty buffers, and a buffer is left to write the log with.
\<close>

definition commit_ready :: "'x log_st_scheme \<Rightarrow> bool" where
  "commit_ready s \<longleftrightarrow>
     log_wf s \<and> dirty s = home s ` {..<logn s} \<and> distinct (map (home s) [0..<logn s]) \<and> logn s < NBUF"

lemma start_in_log: "log_geom s \<Longrightarrow> in_log s (lg_start s)"
  by (simp add: in_log_def log_geom_def)

lemma logblk_not_start:
  "log_geom s \<Longrightarrow> k + 1 < unat (lg_size s) \<Longrightarrow> logblk s k \<noteq> lg_start s"
  by (auto simp: word_unat_eq_iff logblk_unat)

lemma view_log_writes:
  assumes "log_wf s"
  shows "\<not> in_log s b \<Longrightarrow> view_writes (log_writes s) f b = f b"
    and "view_writes (log_writes s) f (lg_start s) = f (lg_start s)"
    and "k < logn s \<Longrightarrow> view_writes (log_writes s) f (logblk s k) = view s (home s k)"
proof -
  note wf = assms [unfolded log_wf_def]
  have in_log: "in_log s (logblk s k)" "logblk s k \<noteq> lg_start s" if "k < logn s" for k
    using wf that logblk_in_log [of s k] logblk_not_start [of s k] by auto
  show "\<not> in_log s b \<Longrightarrow> view_writes (log_writes s) f b = f b"
    "view_writes (log_writes s) f (lg_start s) = f (lg_start s)"
    by (rule view_writes_other; use in_log in \<open>force simp: log_writes_def\<close>)+
  show "view_writes (log_writes s) f (logblk s k) = view s (home s k)" if "k < logn s"
  proof (rule view_writes_in)
    show "logblk s k \<in> fst ` set (log_writes s)" using that by (force simp: log_writes_def)
    fix w assume "w \<in> set (log_writes s)" "fst w = logblk s k"
    then obtain j where "j < logn s" "w = (logblk s j, view s (home s j))" "logblk s j = logblk s k"
      by (auto simp: log_writes_def)
    then show "snd w = view s (home s k)" using wf that logblk_inj [of s j k] by simp
  qed
qed

lemma blocks_put_lh_n: "blocks_put pid s ws t \<Longrightarrow> blocks_put pid (lh_n_update f s) ws (lh_n_update f t)"
  using buf_frame_upd(1) [of s t f] by (simp add: blocks_put_def)

lemma head_of_zero: "head_of (s\<lparr>lh_n := 0\<rparr>) = clear_head s (view s (lg_start s))"
  by (simp add: head_of_def clear_head_def enc_head_def)

lemma card_dirty_mono: "dirty t \<subseteq> dirty s \<Longrightarrow> card (dirty s) < NBUF \<Longrightarrow> card (dirty t) < NBUF"
  using card_mono [of "dirty s" "dirty t"] by (simp add: dirty_def dirty_bufs_def)

lemma commit_ready_dirty: "commit_ready s \<Longrightarrow> card (dirty s) < NBUF"
  unfolding commit_ready_def using card_image_le [of "{..<logn s}" "home s"] by simp

lemma commit_start:
  assumes cs: "cstate pid s" and rdy: "commit_ready s"
  shows "\<exists>t1 t2. write_log s = Ok () t1 \<and> write_head t1 = Ok () t2 \<and>
           blocks_put pid s (log_writes s @ [(lg_start s, head_of s)]) t2"
proof -
  have wf: "log_wf s" using rdy by (simp add: commit_ready_def)
  note dc = commit_ready_dirty [OF rdy]
  obtain t1 where t1: "write_log s = Ok () t1" "blocks_put pid s (log_writes s) t1"
    using write_log_loop_ok [OF cs wf dc, of 0 "LOGSIZE + 1"] rdy wf
    by (auto simp: commit_ready_def log_wf_def write_log_def log_writes_def)
  note f1 = blocks_put_frames [OF t1(2)]
  have v1: "view t1 = view_writes (log_writes s) (view s)" "dirty t1 \<subseteq> dirty s" using t1(2) by (auto simp: blocks_put_def)
  have h1: "head_of t1 = head_of s" using view_log_writes(2) [OF wf] v1 f1 by (simp add: head_of_def)
  obtain t2 where t2: "write_head t1 = Ok () t2" "blocks_put pid t1 [(lg_start t1, head_of t1)] t2"
    using write_head_ok [of pid t1] f1 wf card_dirty_mono [OF v1(2) dc] by auto
  show ?thesis using t1(1) t2 blocks_put_trans [OF t1(2) t2(2)] f1 h1 by auto
qed

lemma commit_finish:
  assumes cs: "cstate pid s" and rdy: "commit_ready s"
    and t: "blocks_put pid s (log_writes s @ [(lg_start s, head_of s)]) t"
  shows "\<exists>t1 t2. install_trans t = Ok () t1 \<and> write_head (t1\<lparr>lh_n := 0\<rparr>) = Ok () t2 \<and>
           blocks_put pid (s\<lparr>lh_n := 0\<rparr>) (commit_writes s) t2"
proof -
  have wf: "log_wf s" using rdy by (simp add: commit_ready_def)
  note dc = commit_ready_dirty [OF rdy]
  note w = wf [unfolded log_wf_def] and f = blocks_put_frames [OF t]
  have vt: "view t = (view_writes (log_writes s) (view s))(lg_start s := head_of s)" using t by (simp add: blocks_put_def)
  have vk: "view t (logblk s k) = view s (home s k)" if "k < logn s" for k
    using view_log_writes(3) [OF wf that] logblk_not_start [of s k] w that by (simp add: vt)
  have dt: "dirty t = dirty s - (fst ` set (log_writes s @ [(lg_start s, head_of s)]))" using t by (simp add: blocks_put_def)
  have "home s k \<in> dirty t" if "k < logn s" for k
    using that rdy w logblk_in_log [of s] start_in_log [of s] unfolding dt
    by (fastforce simp: commit_ready_def log_writes_def)
  then have "install_room 0 t"
    using card_dirty_mono [of t s] dc dt f rdy by (auto simp: install_room_def commit_ready_def)
  moreover have "map (\<lambda>k. (home t k, view t (logblk t k))) [0..<logn t] = home_writes s"
    using f vk by (simp add: home_writes_def)
  ultimately obtain t1 where t1: "install_trans t = Ok () t1" "blocks_put pid t (home_writes s) t1"
    using install_trans_ok [of pid t] f wf by auto
  note f1 = blocks_put_frames [OF t1(2)]
  let ?z = "t1\<lparr>lh_n := 0\<rparr>"
  have wz: "log_wf ?z" using f1 f w by (simp add: log_wf_def logn_def)
  have dz: "card (dirty ?z) < NBUF" using card_dirty_mono [of t1 s] dc dt t1(2) by (auto simp: blocks_put_def)
  have "lg_start s \<notin> home s ` {0..<logn s}" using w start_in_log [of s] by auto
  then have "view t1 (lg_start s) = head_of s"
    using t1(2) vt view_writes_other [of "lg_start s" "home_writes s"] by (simp add: blocks_put_def home_writes_def image_image)
  then have hz: "head_of ?z = clear_head s (head_of s)" using f1 f by (simp add: head_of_zero clear_head_def)
  obtain t2 where t2: "write_head ?z = Ok () t2" "blocks_put pid ?z [(lg_start s, clear_head s (head_of s))] t2"
    using write_head_ok [OF _ wz dz, of pid] f1 f hz by auto
  have "blocks_put pid (s\<lparr>lh_n := 0\<rparr>) (commit_writes s) t2"
    using blocks_put_trans [OF blocks_put_trans [OF blocks_put_lh_n [OF t] blocks_put_lh_n [OF t1(2)]] t2(2)]
    by (simp add: commit_writes_def)
  then show ?thesis using t1(1) t2(1) by blast
qed

lemma commit_ok:
  assumes "cstate pid s" "commit_ready s" "0 < logn s"
  shows "\<exists>t. commit s = Ok () t \<and> blocks_put pid (s\<lparr>lh_n := 0\<rparr>) (commit_writes s) t"
proof -
  obtain t1 t2 where t: "write_log s = Ok () t1" "write_head t1 = Ok () t2"
    "blocks_put pid s (log_writes s @ [(lg_start s, head_of s)]) t2"
    using commit_start [OF assms(1,2)] by blast
  obtain t3 t4 where u: "install_trans t2 = Ok () t3" "write_head (t3\<lparr>lh_n := 0\<rparr>) = Ok () t4"
    "blocks_put pid (s\<lparr>lh_n := 0\<rparr>) (commit_writes s) t4"
    using commit_finish [OF assms(1,2) t(3)] by blast
  have "commit s = Ok () t4" using t u assms(3) by (simp add: commit_def M_defs logn_def)
  then show ?thesis using u(3) by blast
qed


text \<open>
  Recovery, started from an empty cache: the blocks named in the header are copied from the log
  to their homes and the header is cleared.
\<close>

definition rebooted :: "u32 \<Rightarrow> 'x log_st_scheme \<Rightarrow> u8 list list \<Rightarrow> 'x log_st_scheme \<Rightarrow> bool" where
  "rebooted pid s d r \<longleftrightarrow>
     cstate pid r \<and> dirty r = {} \<and> memdisk r = d \<and> lg_dev r = 1 \<and> lg_start r = lg_start s \<and> lg_size r = lg_size s \<and>
     length (lh_block r) = LOGSIZE"

lemma clean_view:
  assumes "cstate pid r" "b \<notin> dirty r" "unat b < length (memdisk r)"
  shows "view r b = memdisk r ! unat b"
proof (cases "\<exists>i < NBUF. holds_block b (bufs r ! i)")
  case True
  then obtain i where i: "i < NBUF" "holds_block b (bufs r ! i)" by blast
  have ok: "cache_ok pid r" "b_refcnt (bufs r ! i) = 0" using assms(1) i by (auto simp: cstate_def idle_def)
  have "b_flags (bufs r ! i) \<noteq> B_VALID OR B_DIRTY" using assms(2) i by (auto simp: dirty_def dirty_bufs_def holds_block_def)
  then show ?thesis
    using view_hit [OF ok(1) i] cache_okD(2) [OF ok(1) i(1)] i(2) ok(2) by (auto simp: buf_ok_def holds_block_def)
next
  case False
  then show ?thesis using view_miss [of r b] assms(1) by (simp add: cstate_def cache_ok_def)
qed

lemma recover_ok:
  assumes cs: "cstate pid r" and d0: "dirty r = {}" and wf: "log_wf (headed (view r (lg_start r)) r)"
    and g: "log_geom r"
  shows "\<exists>u. recover_from_log r = Ok () u \<and> cstate pid u \<and> dirty u = {} \<and> lh_n u = 0 \<and>
           memdisk u = apply_writes
             (map (\<lambda>k. (head_blocks (view r (lg_start r)) ! k, view r (logblk r k))) [0..<head_n (view r (lg_start r))] @
              [(lg_start r, clear_head r (view r (lg_start r)))]) (memdisk r)"
proof -
  let ?v = "view r (lg_start r)"
  let ?h = "headed ?v r"
  note w = wf [unfolded log_wf_def]
  have hh: "logn ?h = head_n ?v" "logblk ?h = logblk r" "lg_start ?h = lg_start r" "view ?h = view r" "dirty ?h = dirty r"
    "memdisk ?h = memdisk r" "in_log ?h = in_log r"
    by (simp_all add: headed_def logn_def head_n_def)
  have hk: "home ?h k = head_blocks ?v ! k" if "k < head_n ?v" for k
    using that by (simp add: home_def headed_def nth_append head_blocks_def get32s_def)
  have "nat (sint (get32 ?v 0)) \<le> LOGSIZE" using w by (simp add: headed_def logn_def)
  then have "sint (get32 ?v 0) \<le> int LOGSIZE" by linarith
  then obtain a where a: "read_head r = Ok () a" "blocks_put pid ?h [] a"
    using read_head_ok [OF cs g] d0 by (auto simp: NBUF_def)
  note fa = blocks_put_frames [OF a(2)]
  have va: "view a = view r" "dirty a = {}" "memdisk a = memdisk r" using a(2) hh d0 by (simp_all add: blocks_put_def)
  have "install_room 0 a" using va by (simp add: install_room_def NBUF_def)
  moreover have "map (\<lambda>k. (home a k, view a (logblk a k))) [0..<logn a] =
      map (\<lambda>k. (head_blocks ?v ! k, view r (logblk r k))) [0..<head_n ?v]"
    using fa va hh hk by simp
  ultimately obtain b where b: "install_trans a = Ok () b"
    "blocks_put pid a (map (\<lambda>k. (head_blocks ?v ! k, view r (logblk r k))) [0..<head_n ?v]) b"
    using install_trans_ok [of pid a] fa wf by auto
  note fb = blocks_put_frames [OF b(2)]
  let ?z = "b\<lparr>lh_n := 0\<rparr>"
  have wz: "log_wf ?z" using fb fa w by (simp add: log_wf_def logn_def)
  have dz: "dirty b = {}" using b(2) va by (simp add: blocks_put_def)
  have "head_blocks ?v ! k \<noteq> lg_start r" if "k < head_n ?v" for k
    using that w hh start_in_log [OF g] hk [OF that] by metis
  then have ns: "lg_start r \<notin> fst ` set (map (\<lambda>k. (head_blocks ?v ! k, view r (logblk r k))) [0..<head_n ?v])" by force
  have "view b = view_writes (map (\<lambda>k. (head_blocks ?v ! k, view r (logblk r k))) [0..<head_n ?v]) (view r)"
    using b(2) va by (simp add: blocks_put_def)
  from fun_cong [OF this, of "lg_start r"] have "view b (lg_start r) = ?v" unfolding view_writes_other [OF ns] .
  then have hz: "head_of ?z = clear_head r ?v" using fb fa hh by (simp add: head_of_zero clear_head_def)
  obtain c where c: "write_head ?z = Ok () c" "blocks_put pid ?z [(lg_start r, clear_head r ?v)] c"
    using write_head_ok [OF _ wz, of pid] fb fa hh hz dz by (auto simp: NBUF_def)
  have "recover_from_log r = Ok () c" using a b c by (simp add: recover_from_log_def M_defs)
  moreover have "lh_n c = 0" using blocks_put_frames(10) [OF c(2)] by simp
  ultimately show ?thesis using c(2) b(2) dz va by (auto simp: blocks_put_def)
qed


lemma head_dec:
  assumes "log_wf s" "length v = BSIZE"
  shows "get32 (enc_head (lh_n s) (lh_block s) v) 0 = lh_n s"
    "head_n (enc_head (lh_n s) (lh_block s) v) = logn s"
    "head_blocks (enc_head (lh_n s) (lh_block s) v) = take (logn s) (lh_block s)"
proof -
  let ?ws = "take (logn s) (lh_block s)"
  have l: "4 + 4 * length ?ws \<le> BSIZE" "length ?ws = logn s" "nat (sint (lh_n s)) = logn s"
    using assms(1) by (auto simp: log_wf_def log_geom_def BSIZE_def LOGSIZE_def logn_def)
  show g: "get32 (enc_head (lh_n s) (lh_block s) v) 0 = lh_n s"
    using l assms(2) by (simp add: enc_head_def get32_put32s_before)
  then show n: "head_n (enc_head (lh_n s) (lh_block s) v) = logn s" using l by (simp add: head_n_def)
  show "head_blocks (enc_head (lh_n s) (lh_block s) v) = ?ws"
    unfolding head_blocks_def n using get32s_put32s [of 4 ?ws "put32 v 0 (lh_n s)"] l assms(2) by (simp add: enc_head_def)
qed

text \<open>What recovery leaves of a block outside the log.\<close>

lemma recover_blocks:
  assumes rb: "rebooted pid s d r" and g: "log_geom s" and ld: "length d = length (memdisk s)"
    and hd: "h = d ! unat (lg_start s)" "0 \<le> sint (get32 h 0)" "head_n h \<le> LOGSIZE" "head_n h < unat (lg_size s)"
    and hb: "\<And>k. k < head_n h \<Longrightarrow> unat (head_blocks h ! k) < length d \<and> \<not> in_log s (head_blocks h ! k)"
  shows "\<exists>u. recover_from_log r = Ok () u \<and> lh_n u = 0 \<and>
           (\<forall>b. unat b < length d \<longrightarrow> \<not> in_log s b \<longrightarrow>
              memdisk u ! unat b = view_writes (map (\<lambda>k. (head_blocks h ! k, d ! unat (logblk s k))) [0..<head_n h]) (\<lambda>x. d ! unat x) b)"
proof -
  note R = rb [unfolded rebooted_def]
  have geo: "log_geom r" using R g ld by (simp add: log_geom_def)
  have sb: "unat (lg_start s) < length d" using g ld by (auto simp: log_geom_def)
  have eqs: "logblk r = logblk s" "in_log r = in_log s" using R by (simp_all add: logblk_def in_log_def fun_eq_iff)
  have v: "view r (lg_start r) = h" using clean_view [of pid r "lg_start s"] R sb hd(1) by simp
  have hk: "home (headed h r) k = head_blocks h ! k" if "k < head_n h" for k
    using that by (simp add: home_def headed_def nth_append head_blocks_def get32s_def)
  have wf: "log_wf (headed h r)"
    using geo hd hb hk R eqs by (auto simp: log_wf_def logn_def head_n_def headed_def log_geom_def head_blocks_def get32s_def)
  obtain u where u: "recover_from_log r = Ok () u" "lh_n u = 0"
    "memdisk u = apply_writes (map (\<lambda>k. (head_blocks h ! k, view r (logblk r k))) [0..<head_n h] @ [(lg_start r, clear_head r h)]) d"
    using recover_ok [of pid r] R wf geo v by auto
  have lv: "view r (logblk s k) = d ! unat (logblk s k)" if "k < head_n h" for k
    using clean_view [of pid r "logblk s k"] R logblk_unat [OF g, of k] that hd(4) g ld by (auto simp: log_geom_def)
  have m: "map (\<lambda>k. (head_blocks h ! k, view r (logblk r k))) [0..<head_n h] =
      map (\<lambda>k. (head_blocks h ! k, d ! unat (logblk s k))) [0..<head_n h]" using lv eqs by simp
  have ne: "unat b \<noteq> unat (lg_start r)" if "\<not> in_log s b" for b
    using that start_in_log [OF g] R by (auto simp: word_unat_eq_iff [symmetric])
  show ?thesis
  proof (intro exI conjI allI impI)
    fix b assume b: "unat b < length d" "\<not> in_log s b"
    show "memdisk u ! unat b = view_writes (map (\<lambda>k. (head_blocks h ! k, d ! unat (logblk s k))) [0..<head_n h]) (\<lambda>x. d ! unat x) b"
      using ne [OF b(2)] b(1) by (simp add: u(3) m apply_writes_nth)
  qed (use u in auto)
qed

lemma trace_writes: "fold (\<lambda>w d. d[fst w := snd w]) (map (\<lambda>w. (unat (fst w), snd w)) ws) d = apply_writes ws d"
  by (induction ws arbitrary: d) simp_all

definition apply_trace :: "(nat \<times> u8 list) list \<Rightarrow> u8 list list \<Rightarrow> u8 list list" where
  "apply_trace ws d = fold (\<lambda>w d. d[fst w := snd w]) ws d"

text \<open>The three phases of a commit at which the machine can stop.\<close>

lemma commit_prefix:
  assumes "k \<le> length (commit_writes s)"
  obtains (logging) "k \<le> logn s" "take k (commit_writes s) = take k (log_writes s)"
  | (installing) j where "logn s < k" "take k (commit_writes s) = log_writes s @ (lg_start s, head_of s) # take j (home_writes s)"
  | (cleared) "logn s < k" "take k (commit_writes s) = commit_writes s"
proof -
  have l: "length (log_writes s) = logn s" "length (home_writes s) = logn s" "length (commit_writes s) = 2 * logn s + 2"
    by (simp_all add: log_writes_def home_writes_def commit_writes_def)
  consider "k \<le> logn s" | "logn s < k" "k \<le> 2 * logn s + 1" | "k = 2 * logn s + 2"
    using assms l by linarith
  then show ?thesis
  proof cases
    case 1
    then show ?thesis using l by (intro logging) (simp_all add: commit_writes_def)
  next
    case 2
    then obtain j where j: "k = Suc (logn s + j)" "j \<le> logn s" using less_imp_Suc_add by fastforce
    then show ?thesis using l by (intro installing [of j]) (simp_all add: commit_writes_def)
  next
    case 3
    then show ?thesis using l by (intro cleared) simp_all
  qed
qed

lemma crash_logging:
  assumes wf: "log_wf s" and z: "get32 (memdisk s ! unat (lg_start s)) 0 = 0"
    and rb: "rebooted pid s (apply_writes (take k (log_writes s)) (memdisk s)) r"
  shows "\<exists>u. recover_from_log r = Ok () u \<and> lh_n u = 0 \<and>
           (\<forall>b. unat b < length (memdisk s) \<longrightarrow> \<not> in_log s b \<longrightarrow> memdisk u ! unat b = memdisk s ! unat b)"
proof -
  let ?ws = "take k (log_writes s)"
  let ?d = "apply_writes ?ws (memdisk s)"
  note w = wf [unfolded log_wf_def]
  have g: "log_geom s" using w by simp
  have sub: "fst ` set ?ws \<subseteq> logblk s ` {..<logn s}" by (auto simp: log_writes_def dest!: in_set_takeD)
  have lk: "in_log s (logblk s j)" "logblk s j \<noteq> lg_start s" if "j < logn s" for j
    using that w logblk_in_log [OF g, of j] logblk_not_start [OF g, of j] by auto
  have out: "b \<notin> fst ` set ?ws" if "\<not> in_log s b \<or> b = lg_start s" for b
  proof
    assume "b \<in> fst ` set ?ws"
    with sub obtain j where "j < logn s" "b = logblk s j" by auto
    then show False using lk [of j] that by auto
  qed
  have d: "?d ! unat b = memdisk s ! unat b" if "unat b < length (memdisk s)" "\<not> in_log s b \<or> b = lg_start s" for b
    unfolding apply_writes_nth [OF that(1)] by (rule view_writes_other [OF out [OF that(2)]])
  have sb: "unat (lg_start s) < length (memdisk s)" using g by (auto simp: log_geom_def)
  have h: "head_n (?d ! unat (lg_start s)) = 0" "get32 (?d ! unat (lg_start s)) 0 = 0"
    unfolding head_n_def d [OF sb disjI2 [OF refl]] z by simp_all
  obtain u where "recover_from_log r = Ok () u" "lh_n u = 0"
    "\<And>b. unat b < length (memdisk s) \<Longrightarrow> \<not> in_log s b \<Longrightarrow> memdisk u ! unat b = ?d ! unat b"
    using recover_blocks [OF rb g _ refl] h w by auto
  then show ?thesis using d by auto
qed


lemma view_home_writes:
  "view_writes (home_writes s) f b = (if b \<in> home s ` {..<logn s} then view s b else f b)"
proof (cases "b \<in> home s ` {..<logn s}")
  case True
  then show ?thesis by (intro trans [OF view_writes_in]) (auto simp: home_writes_def image_iff intro: bexI)
next
  case False
  then show ?thesis by (intro trans [OF view_writes_other]) (auto simp: home_writes_def)
qed

lemma view_home_take:
  assumes "\<And>k. k < logn s \<Longrightarrow> \<not> in_log s (home s k)" "in_log s b"
  shows "view_writes (take j (home_writes s)) f b = f b"
proof (rule view_writes_other)
  show "b \<notin> fst ` set (take j (home_writes s))"
    using assms by (auto simp: home_writes_def dest!: in_set_takeD)
qed

lemma commit_ready_view:
  assumes "cstate pid s" "commit_ready s" "unat b < length (memdisk s)" "b \<notin> home s ` {..<logn s}"
  shows "view s b = memdisk s ! unat b"
  using clean_view [OF assms(1) _ assms(3)] assms(2,4) by (simp add: commit_ready_def)

lemma home_take_other:
  assumes "b \<notin> home s ` {..<logn s}"
  shows "view_writes (take j (home_writes s)) f b = f b"
  by (rule view_writes_other) (use assms in \<open>auto simp: home_writes_def dest!: in_set_takeD\<close>)

lemma crash_installing:
  assumes cs: "cstate pid s" and rdy: "commit_ready s"
    and rb: "rebooted pid s (apply_writes (log_writes s @ (lg_start s, head_of s) # take j (home_writes s)) (memdisk s)) r"
  shows "\<exists>u. recover_from_log r = Ok () u \<and> lh_n u = 0 \<and>
           (\<forall>b. unat b < length (memdisk s) \<longrightarrow> \<not> in_log s b \<longrightarrow> memdisk u ! unat b = view s b)"
proof -
  let ?ws = "log_writes s @ (lg_start s, head_of s) # take j (home_writes s)"
  let ?D = "\<lambda>x. memdisk s ! unat x"
  define d' where "d' = apply_writes ?ws (memdisk s)"
  have wf: "log_wf s" using rdy by (simp add: commit_ready_def)
  note w = wf [unfolded log_wf_def]
  have g: "log_geom s" using w by simp
  have sb: "unat (lg_start s) < length (memdisk s)" using g by (auto simp: log_geom_def)
  have hl: "\<And>k. k < logn s \<Longrightarrow> \<not> in_log s (home s k)" using w by simp
  have d: "d' ! unat b = view_writes (take j (home_writes s)) ((view_writes (log_writes s) ?D)(lg_start s := head_of s)) b"
    if "unat b < length (memdisk s)" for b
    unfolding d'_def apply_writes_nth [OF that] by simp
  have lv: "length (view s (lg_start s)) = BSIZE" using view_length [of pid s, OF _ sb] cs by (simp add: cstate_def)
  have h: "d' ! unat (lg_start s) = head_of s"
    by (rule trans [OF d [OF sb]]) (simp add: view_home_take [OF hl start_in_log [OF g]])
  note hd = head_dec [OF wf lv, folded head_of_def]
  have lb: "d' ! unat (logblk s k) = view s (home s k)" if "k < logn s" for k
  proof -
    have k: "k + 1 < unat (lg_size s)" using that w by simp
    have "unat (logblk s k) < length (memdisk s)" using logblk_unat [OF g k] k g by (simp add: log_geom_def)
    from d [OF this] show ?thesis
      by (simp only: view_home_take [OF hl logblk_in_log [OF g k]] fun_upd_apply if_False
          view_log_writes(3) [OF wf that] logblk_not_start [OF g k])
  qed
  have hb: "head_blocks (head_of s) ! k = home s k" if "k < logn s" for k
    using that by (simp add: hd home_def)
  have m: "map (\<lambda>k. (head_blocks (head_of s) ! k, d' ! unat (logblk s k))) [0..<logn s] = home_writes s"
    unfolding home_writes_def by (rule map_cong [OF refl]) (use hb lb in auto)
  obtain u where u: "recover_from_log r = Ok () u" "lh_n u = 0"
    "\<And>b. unat b < length (memdisk s) \<Longrightarrow> \<not> in_log s b \<Longrightarrow>
       memdisk u ! unat b = view_writes (home_writes s) (\<lambda>x. d' ! unat x) b"
    using recover_blocks [OF rb [folded d'_def] g _ h [symmetric]] hd hb w m by (auto simp: d'_def)
  have "memdisk u ! unat b = view s b" if b: "unat b < length (memdisk s)" "\<not> in_log s b" for b
  proof (cases "b \<in> home s ` {..<logn s}")
    case True
    then show ?thesis using u(3) [OF b] by (simp add: view_home_writes)
  next
    case False
    have "d' ! unat b = memdisk s ! unat b"
    proof -
      have "b \<noteq> lg_start s" using b(2) start_in_log [OF g] by auto
      then show ?thesis
        using d [OF b(1)] by (simp only: home_take_other [OF False] fun_upd_apply if_False view_log_writes(1) [OF wf b(2)])
    qed
    then show ?thesis using u(3) [OF b] False commit_ready_view [OF cs rdy b(1) False] by (simp add: view_home_writes)
  qed
  with u(1,2) show ?thesis by blast
qed


lemma clear_head_zero: "length h = BSIZE \<Longrightarrow> get32 (clear_head s h) 0 = 0"
  by (simp add: clear_head_def BSIZE_def)

lemma length_head_of:
  assumes "cstate pid s" "log_wf s"
  shows "length (head_of s) = BSIZE"
proof -
  have sb: "unat (lg_start s) < length (memdisk s)" using assms(2) by (auto simp: log_wf_def log_geom_def)
  have "length (view s (lg_start s)) = BSIZE" using view_length [of pid s, OF _ sb] assms(1) by (simp add: cstate_def)
  then show ?thesis
    using assms(2) by (auto simp: head_of_def enc_head_def log_wf_def log_geom_def logn_def BSIZE_def LOGSIZE_def)
qed

lemma crash_cleared:
  assumes cs: "cstate pid s" and rdy: "commit_ready s"
    and rb: "rebooted pid s (apply_writes (commit_writes s) (memdisk s)) r"
  shows "\<exists>u. recover_from_log r = Ok () u \<and> lh_n u = 0 \<and>
           (\<forall>b. unat b < length (memdisk s) \<longrightarrow> \<not> in_log s b \<longrightarrow> memdisk u ! unat b = view s b)"
proof -
  let ?d = "apply_writes (commit_writes s) (memdisk s)" and ?D = "\<lambda>x. memdisk s ! unat x"
  have wf: "log_wf s" using rdy by (simp add: commit_ready_def)
  note w = wf [unfolded log_wf_def]
  have g: "log_geom s" using w by simp
  have sb: "unat (lg_start s) < length (memdisk s)" using g by (auto simp: log_geom_def)
  have d: "?d ! unat b = ((view_writes (home_writes s) ((view_writes (log_writes s) ?D)(lg_start s := head_of s)))
      (lg_start s := clear_head s (head_of s))) b" if "unat b < length (memdisk s)" for b
    unfolding apply_writes_nth [OF that] by (simp add: commit_writes_def)
  have h: "?d ! unat (lg_start s) = clear_head s (head_of s)" unfolding d [OF sb] by simp
  have z: "get32 (?d ! unat (lg_start s)) 0 = 0" "head_n (?d ! unat (lg_start s)) = 0"
    unfolding h using clear_head_zero [OF length_head_of [OF cs wf], of s] by (simp_all add: head_n_def)
  obtain u where u: "recover_from_log r = Ok () u" "lh_n u = 0"
    "\<And>b. unat b < length (memdisk s) \<Longrightarrow> \<not> in_log s b \<Longrightarrow> memdisk u ! unat b = ?d ! unat b"
    using recover_blocks [OF rb g _ refl] z w by auto
  have "?d ! unat b = view s b" if b: "unat b < length (memdisk s)" "\<not> in_log s b" for b
  proof -
    have "b \<noteq> lg_start s" using b(2) start_in_log [OF g] by auto
    then show ?thesis
      using view_log_writes(1) [OF wf b(2)] commit_ready_view [OF cs rdy b(1)] by (simp add: d [OF b(1)] view_home_writes)
  qed
  with u show ?thesis by auto
qed

text \<open>
  C1: A commit is atomic. The transaction's writes reach the disk one block at a time; if the machine
  stops after any number \<open>k\<close> of them, recovery from what is then on the disk succeeds and leaves every
  block outside the log as it was before the commit (when the header had not been written) or as the
  transaction left it (once it had). When the commit returns, nothing is left to be written.
\<close>

theorem commit_crash_atomic:
  assumes cs: "cstate pid s" and rdy: "commit_ready s" and n: "0 < logn s"
    and clean: "get32 (memdisk s ! unat (lg_start s)) 0 = 0"
  shows "\<exists>t ws. commit s = Ok () t \<and> cstate pid t \<and> lh_n t = 0 \<and> dirty t = {} \<and>
           dtrace t = dtrace s @ ws \<and> memdisk t = apply_trace ws (memdisk s) \<and>
           (\<forall>k r. k \<le> length ws \<longrightarrow> rebooted pid s (apply_trace (take k ws) (memdisk s)) r \<longrightarrow>
              (\<exists>u. recover_from_log r = Ok () u \<and> lh_n u = 0 \<and>
                 (\<forall>b. unat b < length (memdisk s) \<longrightarrow> \<not> in_log s b \<longrightarrow>
                    memdisk u ! unat b = (if k \<le> logn s then memdisk s ! unat b else view s b))))"
proof -
  let ?f = "\<lambda>w. (unat (fst w), snd w)"
  let ?ws = "map ?f (commit_writes s)"
  have wf: "log_wf s" using rdy by (simp add: commit_ready_def)
  obtain t where t: "commit s = Ok () t" "blocks_put pid (s\<lparr>lh_n := 0\<rparr>) (commit_writes s) t"
    using commit_ok [OF cs rdy n] by blast
  have tr: "apply_trace (map ?f xs) d = apply_writes xs d" for xs d
    by (simp add: apply_trace_def trace_writes)
  have "home s ` {..<logn s} \<subseteq> fst ` set (commit_writes s)" by (force simp: commit_writes_def home_writes_def)
  then have dt: "dirty t = {}" using t(2) rdy by (auto simp: blocks_put_def commit_ready_def)
  have "\<exists>u. recover_from_log r = Ok () u \<and> lh_n u = 0 \<and>
          (\<forall>b. unat b < length (memdisk s) \<longrightarrow> \<not> in_log s b \<longrightarrow>
             memdisk u ! unat b = (if k \<le> logn s then memdisk s ! unat b else view s b))"
    if k: "k \<le> length ?ws" and r: "rebooted pid s (apply_trace (take k ?ws) (memdisk s)) r" for k r
  proof -
    have r': "rebooted pid s (apply_writes (take k (commit_writes s)) (memdisk s)) r" using r by (simp add: tr take_map)
    have "k \<le> length (commit_writes s)" using k by simp
    then show ?thesis
    proof (cases rule: commit_prefix)
      case logging
      then show ?thesis using crash_logging [OF wf clean, of pid k r] r' by simp
    next
      case (installing j)
      then show ?thesis using crash_installing [OF cs rdy, of j r] r' by simp
    next
      case cleared
      then show ?thesis using crash_cleared [OF cs rdy, of r] r' by simp
    qed
  qed
  then show ?thesis
    using t dt tr [of "commit_writes s" "memdisk s"] blocks_put_frames(10) [OF t(2)]
    by (intro exI [of _ t] exI [of _ ?ws]) (auto simp: blocks_put_def)
qed


section \<open>Recording a block\<close>

definition logged :: "'x log_st_scheme \<Rightarrow> u32 list" where
  "logged s = take (logn s) (lh_block s)"

definition note_block :: "u32 \<Rightarrow> 'x log_st_scheme \<Rightarrow> 'x log_st_scheme" where
  "note_block b s =
     (let i = log_slot (lh_n s) (lh_block s) b; u = s\<lparr>lh_block := (lh_block s)[i := b]\<rparr>
      in if int i = sint (lh_n s) then u\<lparr>lh_n := lh_n s + 1\<rparr> else u)"

definition log_room :: "'x log_st_scheme \<Rightarrow> bool" where
  "log_room s \<longleftrightarrow> sint (lh_n s) < int LOGSIZE \<and> sint (lh_n s) < sint (lg_size s) - 1"

lemma log_slot_cases:
  assumes "0 \<le> sint n" "nat (sint n) \<le> length blk"
  shows "b \<in> set (take (nat (sint n)) blk) \<Longrightarrow> log_slot n blk b < nat (sint n) \<and> blk ! log_slot n blk b = b"
    and "b \<notin> set (take (nat (sint n)) blk) \<Longrightarrow> log_slot n blk b = nat (sint n)"
proof -
  show "log_slot n blk b < nat (sint n) \<and> blk ! log_slot n blk b = b" if B: "b \<in> set (take (nat (sint n)) blk)"
  proof -
    obtain i where i: "first_idx (\<lambda>x. x = b) (take (nat (sint n)) blk) = Some i"
      using first_idx_ex [of "take (nat (sint n)) blk" "\<lambda>x. x = b"] B by blast
    from first_idx_SomeD [OF i] have "i < nat (sint n)" "blk ! i = b" by auto
    moreover have "log_slot n blk b = i" by (simp only: log_slot_def i option.case)
    ultimately show ?thesis by simp
  qed
  show "log_slot n blk b = nat (sint n)" if "b \<notin> set (take (nat (sint n)) blk)"
  proof -
    have n: "first_idx (\<lambda>x. x = b) (take (nat (sint n)) blk) = None" using that unfolding first_idx_None_iff by blast
    show ?thesis by (simp only: log_slot_def n option.case)
  qed
qed

lemma sint_plus_one: "0 \<le> sint n \<Longrightarrow> sint n < 2 ^ 30 \<Longrightarrow> sint (n + 1 :: u32) = sint n + 1"
  by (simp add: sint_word_add signed_take_bit_int_eq_self_iff)

lemma log_ctx [simp]:
  "ctx S pid (lh_n_update f s) = ctx S pid s" "ctx S pid (lh_block_update g s) = ctx S pid s"
  "ctx S pid (lg_outstanding_update f s) = ctx S pid s" "ctx S pid (lg_committing_update f s) = ctx S pid s"
  by (simp_all add: ctx_def lockset_def cpu_found_def curcpu_def)

lemma logged_note_block:
  assumes n: "0 \<le> sint (lh_n s)" and len: "length (lh_block s) = LOGSIZE" and room: "log_room s"
  shows "logged (note_block b s) = (if b \<in> set (logged s) then logged s else logged s @ [b])"
    "0 \<le> sint (lh_n (note_block b s))" "length (lh_block (note_block b s)) = LOGSIZE"
proof -
  let ?i = "log_slot (lh_n s) (lh_block s) b"
  have k: "logn s < LOGSIZE" "int (logn s) = sint (lh_n s)" using n room by (auto simp: log_room_def logn_def)
  have i: "nat (sint (lh_n s)) \<le> length (lh_block s)" using k len by (simp add: logn_def)
  have p: "sint (lh_n s + 1) = sint (lh_n s) + 1" using n k by (intro sint_plus_one) (auto simp: LOGSIZE_def)
  note sl = log_slot_cases [OF n i, folded logn_def]
  show "length (lh_block (note_block b s)) = LOGSIZE" "0 \<le> sint (lh_n (note_block b s))"
    using len n p by (simp_all add: note_block_def Let_def)
  show "logged (note_block b s) = (if b \<in> set (logged s) then logged s else logged s @ [b])"
  proof (cases "b \<in> set (logged s)")
    case True
    then have "?i < logn s" "lh_block s ! ?i = b" using sl(1) by (auto simp: logged_def)
    moreover have "(lh_block s)[?i := b] = lh_block s" using calculation by (metis list_update_id)
    ultimately show ?thesis using True k by (simp add: logged_def note_block_def logn_def)
  next
    case False
    then have "?i = logn s" using sl(2) by (simp add: logged_def)
    moreover have "nat (sint (lh_n s + 1)) = Suc (logn s)" using p k by simp
    ultimately show ?thesis using False k len by (simp add: logged_def note_block_def logn_def take_Suc_conv_app_nth)
  qed
qed

lemma sys_eq_note: "sys_eq s t \<Longrightarrow> sys_eq (dirtied i (note_block b s)) (dirtied i (note_block b t))"
  by (erule sys_eqE) (simp add: sys_eq_def note_block_def dirtied_def upd_buf_def Let_def)

lemma log_write_does:
  assumes c: "ctx {} pid s" and room: "log_room s" and out: "1 \<le> sint (lg_outstanding s)"
    and b: "b = b_blockno (bufs s ! i)"
  shows "does pid (log_write i) s () (dirtied i (note_block b s))"
proof -
  note a = ctx_acquire [OF c, of L_log, simplified]
  let ?a = "acq L_log s"
  have e: "mach_eq s ?a" by (rule mach_eq_acq)
  have f: "lh_n ?a = lh_n s" "lh_block ?a = lh_block s" "bufs ?a = bufs s" using e by (auto elim: mach_eqE)
  let ?d = "dirtied i (note_block b ?a)"
  have cd: "ctx {L_log} pid ?d" using a(2) by (simp add: dirtied_def note_block_def Let_def)
  note r = ctx_release [OF cd, of L_log, simplified]
  have "log_write i s = release L_log ?d"
    using room out a(1) f b
    by (simp add: log_write_def M_defs log_room_def note_block_def dirtied_def Let_def)
  then have "log_write i s = Ok () (rel L_log ?d)" using r(1) by simp
  moreover have "sys_eq (dirtied i (note_block b s)) (rel L_log ?d)"
    by (rule sys_eq_trans [OF sys_eq_note [OF mach_eq_sys [OF e]] mach_eq_sys [OF mach_eq_rel]])
  ultimately show ?thesis using r(2) by (intro doesI)
qed


lemma note_block_sel [simp]:
  "cache_ok pid (note_block b s) = cache_ok pid s" "held pid i (note_block b s) = held pid i s"
  "view (note_block b s) = view s" "bufs (note_block b s) = bufs s" "memdisk (note_block b s) = memdisk s"
  "dirty (note_block b s) = dirty s" "dtrace (note_block b s) = dtrace s"
  by (simp_all add: note_block_def Let_def cache_ok_def held_def locked_by_def view_def fun_eq_iff dirty_def dirty_bufs_def
      split: option.split)

lemma dirtied_dirty:
  assumes "cache_ok pid s" "held pid i s"
  shows "dirty (dirtied i s) = insert (b_blockno (bufs s ! i)) (dirty s)"
proof -
  have i: "i < NBUF" "length (bufs s) = NBUF" "b_dev (bufs s ! i) = 1" using assms cache_okD(1) by (auto simp: held_def)
  have f: "b_flags (bufs s ! i) OR B_DIRTY = B_VALID OR B_DIRTY"
    using assms(2) by (auto simp: held_def B_VALID_def B_DIRTY_def)
  show ?thesis
    using dirty_update [OF assms(1) i(2,1), of "dirtied i s" "(bufs s ! i)\<lparr>b_flags := B_VALID OR B_DIRTY\<rparr>"] i(3) f
    by (simp add: dirtied_def)
qed

lemma dirtied_log [simp]:
  "lh_n (dirtied i s) = lh_n s" "lh_block (dirtied i s) = lh_block s" "logged (dirtied i s) = logged s"
  "lg_outstanding (dirtied i s) = lg_outstanding s" "dtrace (dirtied i s) = dtrace s" "memdisk (dirtied i s) = memdisk s"
  by (simp_all add: dirtied_def upd_buf_def logged_def logn_def)

lemma log_write_ok:
  assumes c: "ctx {} pid s" and ok: "cache_ok pid s" and h: "held pid i s" and b: "b = b_blockno (bufs s ! i)"
    and n: "0 \<le> sint (lh_n s)" and len: "length (lh_block s) = LOGSIZE" and dist: "distinct (logged s)"
    and pinned: "set (logged s) = dirty s" and room: "log_room s" and out: "1 \<le> sint (lg_outstanding s)"
  shows "\<exists>t. log_write i s = Ok () t \<and> sys_eq (dirtied i (note_block b s)) t \<and>
     ctx {} pid t \<and> cache_ok pid t \<and> held pid i t \<and> view t = view s \<and>
     logged t = (if b \<in> set (logged s) then logged s else logged s @ [b]) \<and>
     distinct (logged t) \<and> set (logged t) = dirty t \<and> dtrace t = dtrace s \<and> memdisk t = memdisk s"
proof -
  let ?u = "dirtied i (note_block b s)"
  obtain t where t: "log_write i s = Ok () t" "sys_eq ?u t" "ctx {} pid t"
    using log_write_does [OF c room out b] by (auto simp: does_def)
  note e = sys_eq_preds [OF t(2)] and f = sys_eq_buf [OF t(2)]
  have lt: "logged t = logged ?u" using log_frame [OF sys_eq_frame [OF t(2)]] by (simp add: logged_def logn_def)
  note u = dirtied_ok [of pid "note_block b s" i, simplified, OF ok h] dirtied_dirty [of pid "note_block b s" i, simplified, OF ok h]
  have "logged t = (if b \<in> set (logged s) then logged s else logged s @ [b])"
    using lt logged_note_block(1) [OF n len room] by simp
  moreover from this have "distinct (logged t)" "set (logged t) = dirty t" using dist pinned u(5) e b by auto
  ultimately show ?thesis using t e f u by auto
qed

text \<open>
  C24: Inside a transaction with room in the log, \<open>log_write\<close> of a held buffer records its block
  exactly once, appending it when it is new and absorbing it when it is already logged; the buffer
  becomes dirty, which pins it in the cache, the cached contents stay and nothing is written to disk.
  Without room, or outside a transaction, it panics.
\<close>

theorem log_write_records:
  assumes c: "ctx {} pid s" and ok: "cache_ok pid s" and h: "held pid i s" and b: "b = b_blockno (bufs s ! i)"
    and n: "0 \<le> sint (lh_n s)" and len: "length (lh_block s) = LOGSIZE" and dist: "distinct (logged s)"
    and pinned: "set (logged s) = dirty s"
  shows "if \<not> log_room s then log_write i s = Panic ''too big a transaction''
         else if sint (lg_outstanding s) < 1 then log_write i s = Panic ''log_write outside of trans''
         else \<exists>t. log_write i s = Ok () t \<and> ctx {} pid t \<and> cache_ok pid t \<and> held pid i t \<and> view t = view s \<and>
                logged t = (if b \<in> set (logged s) then logged s else logged s @ [b]) \<and>
                distinct (logged t) \<and> set (logged t) = dirty t \<and> dtrace t = dtrace s \<and> memdisk t = memdisk s"
proof -
  have "log_write i s = Panic ''too big a transaction''" if "\<not> log_room s"
    using that by (auto simp: log_write_def M_defs log_room_def)
  moreover have "log_write i s = Panic ''log_write outside of trans''" if "log_room s" "sint (lg_outstanding s) < 1"
    using that by (simp add: log_write_def M_defs log_room_def)
  ultimately show ?thesis using log_write_ok [OF assms] by auto
qed

section \<open>Admission to a transaction\<close>

text \<open>The log blocks that are used or promised to running system calls.\<close>

definition reservation :: "'x log_st_scheme \<Rightarrow> int" where
  "reservation s = sint (lh_n s) + sint (lg_outstanding s) * MAXOPBLOCKS"

definition op_admitted :: "'x log_st_scheme \<Rightarrow> bool" where
  "op_admitted s \<longleftrightarrow> lg_committing s = 0 \<and> reservation s + MAXOPBLOCKS \<le> int LOGSIZE"

lemma begin_op_go:
  assumes c: "ctx {} pid s" and adm: "op_admitted s"
  shows "does pid begin_op s () (s\<lparr>lg_outstanding := lg_outstanding s + 1\<rparr>)"
proof -
  note a = ctx_acquire [OF c, of L_log, simplified]
  let ?a = "acq L_log s"
  have e: "mach_eq s ?a" by (rule mach_eq_acq)
  have f: "lh_n ?a = lh_n s" "lg_outstanding ?a = lg_outstanding s" "lg_committing ?a = lg_committing s"
    using e by (auto elim: mach_eqE)
  let ?d = "?a\<lparr>lg_outstanding := lg_outstanding s + 1\<rparr>"
  have cd: "ctx {L_log} pid ?d" using a(2) by simp
  note r = ctx_release [OF cd, of L_log, simplified]
  have "begin_op s = Ok () (rel L_log ?d)"
    using adm a(1) r(1) f
    by (simp add: begin_op_def begin_op_retry_def M_defs op_admitted_def reservation_def MAXOPBLOCKS_def algebra_simps)
  moreover have "sys_eq (s\<lparr>lg_outstanding := lg_outstanding s + 1\<rparr>) ?d"
    using e by (auto elim!: mach_eqE simp: sys_eq_def)
  then have "sys_eq (s\<lparr>lg_outstanding := lg_outstanding s + 1\<rparr>) (rel L_log ?d)"
    using sys_eq_trans mach_eq_sys [OF mach_eq_rel] by blast
  ultimately show ?thesis using r(2) by (intro doesI)
qed

lemma begin_op_waits:
  assumes c: "ctx {} pid s" and adm: "\<not> op_admitted s"
  shows "\<exists>p. c_proc (mycpu_of s) = Some p \<and> begin_op s = Wait Switched (slept p C_log L_log (acq L_log s))"
proof -
  note a = ctx_acquire [OF c, of L_log, simplified]
  have f: "lh_n (acq L_log s) = lh_n s" "lg_outstanding (acq L_log s) = lg_outstanding s"
    "lg_committing (acq L_log s) = lg_committing s"
    using mach_eq_acq [of s L_log] by (auto elim: mach_eqE)
  obtain p where p: "c_proc (mycpu_of s) = Some p" "p < length (ptable s)" using c by (auto simp: ctx_def)
  have "sleep C_log L_log (acq L_log s) = Wait Switched (slept p C_log L_log (acq L_log s))"
    by (rule sleep_ok) (use a(2) p in \<open>auto simp: ctx_def\<close>)
  moreover have "lg_committing s \<noteq> 0 \<or> sint (lh_n s) + (sint (lg_outstanding s) + 1) * MAXOPBLOCKS > int LOGSIZE"
    using adm by (auto simp: op_admitted_def reservation_def algebra_simps)
  ultimately have "begin_op s = Wait Switched (slept p C_log L_log (acq L_log s))"
    using a(1) f by (auto simp: begin_op_def begin_op_retry_def M_defs)
  with p(1) show ?thesis by blast
qed

lemma slept_log [simp]:
  "lh_n (slept p ch lk s) = lh_n s" "lg_outstanding (slept p ch lk s) = lg_outstanding s"
  "lh_n (acq lk s) = lh_n s" "lg_outstanding (acq lk s) = lg_outstanding s"
  by (simp_all add: slept_def upd_proc_def effect_defs)

text \<open>
  C26: \<open>begin_op\<close> lets a system call into the transaction exactly when no commit is running and the
  log blocks already used or promised leave room for ten more; the promises never exceed \<open>LOGSIZE\<close>.
  Otherwise the process sleeps on the log, with the log's lock released and nothing promised.
\<close>

theorem begin_op_admission:
  assumes c: "ctx {} pid s" and o: "0 \<le> sint (lg_outstanding s)" "sint (lg_outstanding s) \<le> 3"
    and r: "reservation s \<le> int LOGSIZE"
  shows "if op_admitted s
         then \<exists>t. begin_op s = Ok () t \<and> ctx {} pid t \<and> sint (lg_outstanding t) = sint (lg_outstanding s) + 1 \<and>
                reservation t = reservation s + MAXOPBLOCKS \<and> reservation t \<le> int LOGSIZE
         else \<exists>p t. begin_op s = Wait Switched t \<and> c_proc (mycpu_of s) = Some p \<and> reservation t = reservation s \<and>
                p_state (ptable t ! p) = SLEEPING \<and> p_chan (ptable t ! p) = C_log \<and> lk_locked (locks t L_log) = 0"
proof (cases "op_admitted s")
  case True
  from begin_op_go [OF c True] obtain t where t: "begin_op s = Ok () t" "sys_eq (s\<lparr>lg_outstanding := lg_outstanding s + 1\<rparr>) t" "ctx {} pid t"
    by (auto simp: does_def)
  have f: "lg_outstanding t = lg_outstanding s + 1" "lh_n t = lh_n s" using log_frame [OF sys_eq_frame [OF t(2)]] by simp_all
  have p: "sint (lg_outstanding s + 1) = sint (lg_outstanding s) + 1" using o by (intro sint_plus_one) auto
  have "reservation t = reservation s + MAXOPBLOCKS" using f p by (simp add: reservation_def algebra_simps)
  then show ?thesis using True t f p by (auto simp: op_admitted_def)
next
  case False
  obtain p where p: "c_proc (mycpu_of s) = Some p" "begin_op s = Wait Switched (slept p C_log L_log (acq L_log s))"
    using begin_op_waits [OF c False] by blast
  let ?t = "slept p C_log L_log (acq L_log s)"
  have pl: "p < length (ptable s)" using c p(1) by (auto simp: ctx_def)
  have "lockset {L_ptable} ?t"
    by (rule lockset_slept) (use ctx_acquire(2) [OF c, of L_log] in \<open>simp add: ctx_def\<close>)
  then have "lk_locked (locks ?t L_log) = 0" by (simp add: lockset_def)
  moreover have "p_state (ptable ?t ! p) = SLEEPING" "p_chan (ptable ?t ! p) = C_log"
    using pl by (simp_all add: slept_def account_run_def)
  ultimately show ?thesis using False p by (auto simp: reservation_def)
qed


section \<open>A concrete disk\<close>

text \<open>
  A machine with an empty disk of 64 blocks, the log in blocks 2 to 31, and one process. The
  arguments are the buffer cache, the in-memory log header and the fields of a larger state.
\<close>

definition demo_state :: "u8 list list \<Rightarrow> buf list \<Rightarrow> u32 \<Rightarrow> u32 list \<Rightarrow> 'x \<Rightarrow> 'x log_st_scheme" where
  "demo_state disk bs n blk x =
     \<lparr>cpus = cpus demo_vm, lapicid = 0, if_flag = True, locks = locks demo_vm, mem = mem demo_vm, frame = 0,
      use_lock = True, freelist = freelist demo_vm, kend = kend demo_vm,
      con_locking = True, panicked = False, uart = True, uart_out = [], crt = crt demo_vm, crt_pos = 0,
      ptable = demo_table, nextpid = 3, initproc = Some 1, ticks = 5, trapret_addr = 0x80101000, forkret_addr = 0x80102000,
      kpgdir = 0x80400000, cr3 = 0x400000, task_reg = 0, gdtr = None, cpu_gdt = cpu_gdt demo_vm,
      cpu_ts = cpu_ts demo_vm, ts_addr = (\<lambda>_. 0x80110000), data_addr = 0x80108000,
      sleeplocks = (\<lambda>_. \<lparr>sl_locked = 0, sl_name = [], sl_pid = 0\<rparr>), bufs = bs,
      bnext = (\<lambda>i. if i = NBUF then 0 else i + 1), bprev = (\<lambda>i. if i = 0 then NBUF else i - 1),
      memdisk = disk, dtrace = [],
      lg_start = 2, lg_size = 30, lg_outstanding = 1, lg_committing = 0, lg_dev = 1, lh_n = n, lh_block = blk, \<dots> = x\<rparr>"

definition blank_buf :: buf where
  "blank_buf = \<lparr>b_flags = 0, b_dev = 0, b_blockno = 0, b_refcnt = 0, b_data = replicate BSIZE 0\<rparr>"

definition demo_disk :: "u8 list list" where
  "demo_disk = replicate 64 (replicate BSIZE 0)"

definition demo_dirty :: buf where
  "demo_dirty = \<lparr>b_flags = B_VALID OR B_DIRTY, b_dev = 1, b_blockno = 40, b_refcnt = 0, b_data = replicate BSIZE 7\<rparr>"

lemma demo_state_ctx: "ctx {} 2 (demo_state disk bs n blk x)"
  by (simp add: ctx_def lockset_def demo_state_def demo_vm_def cpu_found_def curcpu_def demo_table_def)

lemma demo_ring: "ring NBUF (\<lambda>i. if i = NBUF then 0 else i + 1) (\<lambda>i. if i = 0 then NBUF else i - 1) [0..<NBUF]"
  by code_simp

lemma demo_cstate:
  assumes "bs = x # replicate 29 blank_buf" "buf_ok 2 demo_disk \<lparr>sl_locked = 0, sl_name = [], sl_pid = 0\<rparr> x"
    "b_refcnt x = 0"
  shows "cstate 2 (demo_state demo_disk bs n blk y)"
proof -
  have bi: "bs ! i = (if i = 0 then x else blank_buf)" if "i < NBUF" for i
    using that assms(1) by (simp add: NBUF_def nth_Cons')
  have blank: "buf_ok 2 demo_disk \<lparr>sl_locked = 0, sl_name = [], sl_pid = 0\<rparr> blank_buf"
    by (simp add: buf_ok_def blank_buf_def)
  let ?s = "demo_state demo_disk bs n blk y"
  have sel: "bufs ?s = bs" "memdisk ?s = demo_disk" "sleeplocks ?s = (\<lambda>_. \<lparr>sl_locked = 0, sl_name = [], sl_pid = 0\<rparr>)"
    "bnext ?s = (\<lambda>i. if i = NBUF then 0 else i + 1)" "bprev ?s = (\<lambda>i. if i = 0 then NBUF else i - 1)"
    by (simp_all add: demo_state_def)
  have "cache_ok 2 ?s"
    unfolding cache_ok_def sel
  proof (intro conjI)
    show "length bs = NBUF" using assms(1) by (simp add: NBUF_def)
    show "\<exists>xs. ring NBUF (\<lambda>i. if i = NBUF then 0 else i + 1) (\<lambda>i. if i = 0 then NBUF else i - 1) xs \<and> set xs = {..<NBUF}"
      using demo_ring by (intro exI [of _ "[0..<NBUF]"]) (simp add: atLeast0LessThan)
    show "\<forall>i < NBUF. buf_ok 2 demo_disk \<lparr>sl_locked = 0, sl_name = [], sl_pid = 0\<rparr> (bs ! i)"
      using bi blank assms(2) by simp
    show "\<forall>i < NBUF. \<forall>j < NBUF. b_dev (bs ! i) = 1 \<and> b_dev (bs ! j) = 1 \<and> b_blockno (bs ! i) = b_blockno (bs ! j) \<longrightarrow> i = j"
      using bi by (simp add: blank_buf_def)
    show "\<forall>d \<in> set demo_disk. length d = BSIZE" by (simp add: demo_disk_def)
  qed
  moreover have "idle ?s" using bi assms(3) by (simp add: idle_def sel blank_buf_def)
  ultimately show ?thesis by (simp add: cstate_def demo_state_ctx)
qed

definition demo_txn :: log_st where
  "demo_txn = demo_state demo_disk (demo_dirty # replicate 29 blank_buf) 1 (40 # replicate 29 0) ()"

lemma demo_txn_cstate: "cstate 2 demo_txn"
  unfolding demo_txn_def by (rule demo_cstate [OF refl]) (simp_all add: buf_ok_def demo_dirty_def demo_disk_def)

lemma demo_txn_log:
  "logn demo_txn = 1" "home demo_txn 0 = 40" "dirty demo_txn = {40}" "lg_start demo_txn = 2" "lg_size demo_txn = 30"
  "memdisk demo_txn = demo_disk" "lg_dev demo_txn = 1" "lh_n demo_txn = 1" "lh_block demo_txn = 40 # replicate 29 0"
  "view demo_txn 40 = replicate BSIZE 7" "dtrace demo_txn = []"
proof -
  have "dirty_bufs demo_txn = {0}"
    by (auto simp: dirty_bufs_def demo_txn_def demo_state_def NBUF_def nth_Cons' blank_buf_def demo_dirty_def)
  then show "dirty demo_txn = {40}" by (simp add: dirty_def demo_txn_def demo_state_def demo_dirty_def)
  show "view demo_txn 40 = replicate BSIZE 7"
    by (simp add: view_def demo_txn_def demo_state_def holds_block_def demo_dirty_def)
qed (simp_all add: demo_txn_def demo_state_def logn_def home_def)

lemma demo_commit_ready: "commit_ready demo_txn"
  by (simp add: commit_ready_def log_wf_def log_geom_def demo_txn_log in_log_def demo_disk_def LOGSIZE_def NBUF_def lessThan_Suc)

lemma demo_rebooted:
  "rebooted 2 demo_txn demo_disk (demo_state demo_disk (blank_buf # replicate 29 blank_buf) 0 (replicate 30 0) ())"
proof -
  let ?r = "demo_state demo_disk (blank_buf # replicate 29 blank_buf) 0 (replicate 30 0) ()"
  have "cstate 2 ?r" by (rule demo_cstate [OF refl]) (simp_all add: buf_ok_def blank_buf_def)
  moreover have "dirty ?r = {}" by (auto simp: dirty_def dirty_bufs_def demo_state_def NBUF_def nth_Cons' blank_buf_def)
  ultimately show ?thesis by (simp add: rebooted_def demo_txn_log) (simp add: demo_state_def LOGSIZE_def)
qed

theorem commit_crash_atomic_witness:
  "\<exists>t u. commit demo_txn = Ok () t \<and> dirty t = {} \<and>
     recover_from_log (demo_state demo_disk (blank_buf # replicate 29 blank_buf) 0 (replicate 30 0) ()) = Ok () u \<and>
     memdisk u ! 40 = replicate BSIZE 0"
proof -
  have "get32 (memdisk demo_txn ! unat (lg_start demo_txn)) 0 = 0"
    by (simp add: demo_txn_log demo_disk_def) code_simp
  from commit_crash_atomic [OF demo_txn_cstate demo_commit_ready _ this] obtain t ws where
    t: "commit demo_txn = Ok () t" "dirty t = {}"
    and c: "\<forall>k r. k \<le> length ws \<longrightarrow> rebooted 2 demo_txn (apply_trace (take k ws) (memdisk demo_txn)) r \<longrightarrow>
      (\<exists>u. recover_from_log r = Ok () u \<and> lh_n u = 0 \<and>
         (\<forall>b. unat b < length (memdisk demo_txn) \<longrightarrow> \<not> in_log demo_txn b \<longrightarrow>
           memdisk u ! unat b = (if k \<le> logn demo_txn then memdisk demo_txn ! unat b else view demo_txn b)))"
    by (metis demo_txn_log(1) zero_less_one)
  have "rebooted 2 demo_txn (apply_trace (take 0 ws) (memdisk demo_txn))
      (demo_state demo_disk (blank_buf # replicate 29 blank_buf) 0 (replicate 30 0) ())"
    using demo_rebooted by (simp add: apply_trace_def demo_txn_log)
  with c obtain u where u: "recover_from_log (demo_state demo_disk (blank_buf # replicate 29 blank_buf) 0 (replicate 30 0) ()) = Ok () u"
    "\<forall>b. unat b < length (memdisk demo_txn) \<longrightarrow> \<not> in_log demo_txn b \<longrightarrow> memdisk u ! unat b = memdisk demo_txn ! unat b"
    by (metis le0)
  from u(2) [rule_format, of 40] have "memdisk u ! 40 = replicate BSIZE 0"
    by (simp add: in_log_def demo_txn_log demo_disk_def)
  with t u(1) show ?thesis by blast
qed

theorem begin_op_admission_witness:
  "\<exists>t. begin_op demo_txn = Ok () t \<and> reservation t = 21"
proof -
  have "ctx {} 2 demo_txn" by (simp add: demo_txn_def demo_state_ctx)
  moreover have "lg_outstanding demo_txn = 1" "lg_committing demo_txn = 0" by (simp_all add: demo_txn_def demo_state_def)
  moreover from this have "reservation demo_txn = 11" "op_admitted demo_txn"
    by (simp_all add: reservation_def op_admitted_def demo_txn_log MAXOPBLOCKS_def LOGSIZE_def)
  ultimately show ?thesis using begin_op_admission [of 2 demo_txn] by (auto simp: MAXOPBLOCKS_def LOGSIZE_def)
qed

text \<open>A held buffer: block 41 has been read, and is about to be logged.\<close>

theorem log_write_records_witness:
  "\<exists>i t u. bread 1 41 demo_txn = Ok i t \<and> log_write i t = Ok () u \<and> logged u = [40, 41] \<and> dirty u = {40, 41}"
proof -
  have cs: "cstate 2 demo_txn" by (rule demo_txn_cstate)
  have "unat (41 :: u32) < length (memdisk demo_txn)" "card (dirty demo_txn) < NBUF"
    by (simp_all add: demo_txn_log demo_disk_def NBUF_def)
  from read_block_ok [OF cs this] obtain i t where t: "bread 1 41 demo_txn = Ok i t" "opens 2 41 demo_txn i t" by blast
  note o = t(2) [unfolded opens_def]
  have f: "lh_n t = 1" "lh_block t = 40 # replicate 29 0" "lg_size t = 30" "lg_outstanding t = 1"
    using o log_frame [of demo_txn t] by (auto simp: demo_txn_def demo_state_def)
  have lg: "logged t = [40]" by (simp add: logged_def logn_def f)
  have "if \<not> log_room t then log_write i t = Panic ''too big a transaction''
         else if sint (lg_outstanding t) < 1 then log_write i t = Panic ''log_write outside of trans''
         else \<exists>u. log_write i t = Ok () u \<and> ctx {} 2 u \<and> cache_ok 2 u \<and> held 2 i u \<and> view u = view t \<and>
                logged u = (if 41 \<in> set (logged t) then logged t else logged t @ [41]) \<and>
                distinct (logged u) \<and> set (logged u) = dirty u \<and> dtrace u = dtrace t \<and> memdisk u = memdisk t"
    by (rule log_write_records) (use o f lg in \<open>simp_all add: LOGSIZE_def demo_txn_log\<close>)
  then show ?thesis using t(1) f lg by (auto simp: log_room_def LOGSIZE_def)
qed

end
