(* ===== verification/Inode.thy ===== *)
theory Inode
  imports Log
begin

text \<open>
  The block and inode layers of the file system, \<open>fs.c\<close> up to \<open>stati\<close>: the free block bitmap, the
  on-disk inodes and the inode cache. A pointer to an in-memory inode is an index into
  \<open>icache.inode\<close>, and a null pointer is \<open>None\<close>.
\<close>

section \<open>State\<close>

definition NINODE :: nat where "NINODE = 50"

definition NDIRECT :: nat where "NDIRECT = 12"

definition NINDIRECT :: nat where "NINDIRECT = 128"

definition MAXFILE :: nat where "MAXFILE = NDIRECT + NINDIRECT"

definition BPB :: nat where "BPB = 4096"

definition IPB :: nat where "IPB = 8"

definition T_DIR :: u16 where "T_DIR = 1"

definition T_FILE :: u16 where "T_FILE = 2"

definition T_DEV :: u16 where "T_DEV = 3"

record dinode =
  di_type :: u16
  di_major :: u16
  di_minor :: u16
  di_nlink :: u16
  di_size :: u32
  di_addrs :: "u32 list"

record inode =
  i_dev :: u32
  i_inum :: u32
  i_ref :: u32
  i_valid :: u32
  i_d :: dinode

record stat =
  st_type :: u16
  st_dev :: u32
  st_ino :: u32
  st_nlink :: u16
  st_size :: u32

record fs_st = log_st +
  sb :: superblock
  inodes :: "inode list"

definition upd_inode :: "nat \<Rightarrow> (inode \<Rightarrow> inode) \<Rightarrow> 'x fs_st_scheme \<Rightarrow> 'x fs_st_scheme" where
  "upd_inode i f s = s\<lparr>inodes := (inodes s)[i := f (inodes s ! i)]\<rparr>"

abbreviation upd_dinode :: "nat \<Rightarrow> (dinode \<Rightarrow> dinode) \<Rightarrow> 'x fs_st_scheme \<Rightarrow> 'x fs_st_scheme" where
  "upd_dinode i f \<equiv> upd_inode i (\<lambda>ip. ip\<lparr>i_d := f (i_d ip)\<rparr>)"

section \<open>On-disk layout\<close>

definition IBLOCK :: "u32 \<Rightarrow> superblock \<Rightarrow> u32" where
  "IBLOCK i b = i div 8 + sb_inodestart b"

definition BBLOCK :: "u32 \<Rightarrow> superblock \<Rightarrow> u32" where
  "BBLOCK i b = i div 4096 + sb_bmapstart b"

definition dip_off :: "u32 \<Rightarrow> nat" where
  "dip_off inum = 64 * unat (inum mod 8)"

definition get_dinode :: "u8 list \<Rightarrow> nat \<Rightarrow> dinode" where
  "get_dinode d off =
     \<lparr>di_type = get16 d off, di_major = get16 d (off + 2), di_minor = get16 d (off + 4), di_nlink = get16 d (off + 6),
      di_size = get32 d (off + 8), di_addrs = get32s d (off + 12) (NDIRECT + 1)\<rparr>"

definition put_dinode :: "u8 list \<Rightarrow> nat \<Rightarrow> dinode \<Rightarrow> u8 list" where
  "put_dinode d off di =
     put32s (put32 (put16 (put16 (put16 (put16 d off (di_type di)) (off + 2) (di_major di)) (off + 4) (di_minor di))
       (off + 6) (di_nlink di)) (off + 8) (di_size di)) (off + 12) (di_addrs di)"

definition zero_dinode :: dinode where
  "zero_dinode = \<lparr>di_type = 0, di_major = 0, di_minor = 0, di_nlink = 0, di_size = 0, di_addrs = replicate 13 0\<rparr>"

section \<open>Blocks\<close>

definition bzero :: "u32 \<Rightarrow> u32 \<Rightarrow> ('x fs_st_scheme, unit) prog" where
  "bzero dev bno =
     bindM (bread dev bno) (\<lambda>bp.
     seqM (set_data bp (\<lambda>_. replicate BSIZE 0)) (
     seqM (log_write bp)
     (brelse bp)))"

definition bit_mask :: "nat \<Rightarrow> u8" where
  "bit_mask bi = push_bit (bi mod 8) 1"

definition bit_free :: "u8 list \<Rightarrow> nat \<Rightarrow> bool" where
  "bit_free d bi \<longleftrightarrow> d ! (bi div 8) AND bit_mask bi = 0"

text \<open>
  The inner loop of \<open>balloc\<close>, over the bits of one bitmap block that stand for blocks of the disk;
  then the outer loop over the bitmap blocks. The disk has fewer than \<open>2 ^ 31\<close> blocks, so that the
  \<open>int\<close> counters of the C code do not overflow.
\<close>

definition find_free :: "u8 list \<Rightarrow> u32 \<Rightarrow> u32 \<Rightarrow> nat option" where
  "find_free d b sz = first_idx (bit_free d) [0..<min BPB (unat sz - unat b)]"

fun balloc_loop :: "nat \<Rightarrow> u32 \<Rightarrow> u32 \<Rightarrow> ('x fs_st_scheme, u32) prog" where
  "balloc_loop 0 dev b = nofuel"
| "balloc_loop (Suc fuel) dev b =
     bindM (getS sb) (\<lambda>sp.
     if \<not> b < sb_size sp then panic ''balloc: out of blocks''
     else bindM (bread dev (BBLOCK b sp)) (\<lambda>bp.
     bindM (getS (\<lambda>s. find_free (bdata bp s) b (sb_size sp))) (\<lambda>f.
     case f of
       Some bi \<Rightarrow>
         seqM (set_data bp (\<lambda>s. (bdata bp s)[bi div 8 := bdata bp s ! (bi div 8) OR bit_mask bi])) (
         seqM (log_write bp) (
         seqM (brelse bp) (
         seqM (bzero dev (b + of_nat bi))
         (ret (b + of_nat bi)))))
     | None \<Rightarrow>
         seqM (brelse bp)
         (balloc_loop fuel dev (b + 4096)))))"

definition balloc :: "u32 \<Rightarrow> ('x fs_st_scheme, u32) prog" where
  "balloc dev = balloc_loop (2 ^ 20 + 1) dev 0"

definition bfree :: "u32 \<Rightarrow> u32 \<Rightarrow> ('x fs_st_scheme, unit) prog" where
  "bfree dev b =
     bindM (getS sb) (\<lambda>sp.
     bindM (bread dev (BBLOCK b sp)) (\<lambda>bp.
     let bi = unat (b mod 4096) in
     bindM (getS (\<lambda>s. bit_free (bdata bp s) bi)) (\<lambda>free.
     if free then panic ''freeing free block''
     else seqM (set_data bp (\<lambda>s. (bdata bp s)[bi div 8 := bdata bp s ! (bi div 8) AND NOT (bit_mask bi)])) (
     seqM (log_write bp)
     (brelse bp)))))"

section \<open>The inode cache\<close>

fun iinit_loop :: "nat \<Rightarrow> nat \<Rightarrow> ('x fs_st_scheme, unit) prog" where
  "iinit_loop 0 i = ret ()"
| "iinit_loop (Suc n) i = seqM (initsleeplock (SL_inode i) ''inode'') (iinit_loop n (Suc i))"

definition iinit :: "u32 \<Rightarrow> ('x fs_st_scheme, unit) prog" where
  "iinit dev =
     seqM (initlock L_icache ''icache'') (
     seqM (iinit_loop NINODE 0) (
     bindM (readsb dev) (\<lambda>sp.
     seqM (modS (\<lambda>s. s\<lparr>sb := sp\<rparr>))
     (kprint (''sb: size %d nblocks %d ninodes %d nlog %d logstart %d inodestart %d bmap start %d'' @ nl)
        [AInt (sb_size sp), AInt (sb_nblocks sp), AInt (sb_ninodes sp), AInt (sb_nlog sp), AInt (sb_logstart sp),
         AInt (sb_inodestart sp), AInt (sb_bmapstart sp)]))))"

definition cached_as :: "u32 \<Rightarrow> u32 \<Rightarrow> inode \<Rightarrow> bool" where
  "cached_as dev inum ip \<longleftrightarrow> 0 < sint (i_ref ip) \<and> i_dev ip = dev \<and> i_inum ip = inum"

definition iget :: "u32 \<Rightarrow> u32 \<Rightarrow> ('x fs_st_scheme, nat) prog" where
  "iget dev inum =
     seqM (acquire L_icache) (
     bindM (getS (\<lambda>s. first_idx (cached_as dev inum) (inodes s))) (\<lambda>hit.
     case hit of
       Some i \<Rightarrow>
         seqM (modS (upd_inode i (\<lambda>ip. ip\<lparr>i_ref := i_ref ip + 1\<rparr>))) (
         seqM (release L_icache)
         (ret i))
     | None \<Rightarrow>
         bindM (getS (\<lambda>s. first_idx (\<lambda>ip. i_ref ip = 0) (inodes s))) (\<lambda>empty.
         case empty of
           None \<Rightarrow> panic ''iget: no inodes''
         | Some i \<Rightarrow>
             seqM (modS (upd_inode i (\<lambda>ip. ip\<lparr>i_dev := dev, i_inum := inum, i_ref := 1, i_valid := 0\<rparr>))) (
             seqM (release L_icache)
             (ret i)))))"

fun ialloc_loop :: "nat \<Rightarrow> u32 \<Rightarrow> u16 \<Rightarrow> u32 \<Rightarrow> ('x fs_st_scheme, nat) prog" where
  "ialloc_loop 0 dev type inum = nofuel"
| "ialloc_loop (Suc fuel) dev type inum =
     bindM (getS sb) (\<lambda>sp.
     if \<not> inum < sb_ninodes sp then panic ''ialloc: no inodes''
     else bindM (bread dev (IBLOCK inum sp)) (\<lambda>bp.
     bindM (getS (\<lambda>s. get16 (bdata bp s) (dip_off inum))) (\<lambda>ty.
     if ty = 0 then
       seqM (set_data bp (\<lambda>s. put16 (put_dinode (bdata bp s) (dip_off inum) zero_dinode) (dip_off inum) type)) (
       seqM (log_write bp) (
       seqM (brelse bp)
       (iget dev inum)))
     else seqM (brelse bp) (ialloc_loop fuel dev type (inum + 1)))))"

definition ialloc :: "u32 \<Rightarrow> u16 \<Rightarrow> ('x fs_st_scheme, nat) prog" where
  "ialloc dev type = bindM (getS (\<lambda>s. unat (sb_ninodes (sb s)))) (\<lambda>n. ialloc_loop (n + 1) dev type 1)"

definition iupdate :: "nat \<Rightarrow> ('x fs_st_scheme, unit) prog" where
  "iupdate i =
     bindM (getS (\<lambda>s. inodes s ! i)) (\<lambda>ip.
     bindM (getS sb) (\<lambda>sp.
     bindM (bread (i_dev ip) (IBLOCK (i_inum ip) sp)) (\<lambda>bp.
     seqM (set_data bp (\<lambda>s. put_dinode (bdata bp s) (dip_off (i_inum ip)) (i_d ip))) (
     seqM (log_write bp)
     (brelse bp)))))"

definition idup :: "nat \<Rightarrow> ('x fs_st_scheme, nat) prog" where
  "idup i =
     seqM (acquire L_icache) (
     seqM (modS (upd_inode i (\<lambda>ip. ip\<lparr>i_ref := i_ref ip + 1\<rparr>))) (
     seqM (release L_icache)
     (ret i)))"

definition ilock :: "nat option \<Rightarrow> ('x fs_st_scheme, unit) prog" where
  "ilock ipp =
     (case ipp of
        None \<Rightarrow> panic ''ilock''
      | Some i \<Rightarrow>
          bindM (getS (\<lambda>s. sint (i_ref (inodes s ! i)) < 1)) (\<lambda>bad.
          if bad then panic ''ilock''
          else seqM (acquiresleep (SL_inode i)) (
          bindM (getS (\<lambda>s. inodes s ! i)) (\<lambda>ip.
          bindM (getS sb) (\<lambda>sp.
          whenM (i_valid ip = 0) (
            bindM (bread (i_dev ip) (IBLOCK (i_inum ip) sp)) (\<lambda>bp.
            seqM (modS (\<lambda>s. upd_dinode i (\<lambda>_. get_dinode (bdata bp s) (dip_off (i_inum ip))) s)) (
            seqM (brelse bp) (
            seqM (modS (upd_inode i (\<lambda>ip. ip\<lparr>i_valid := 1\<rparr>))) (
            bindM (getS (\<lambda>s. di_type (i_d (inodes s ! i)))) (\<lambda>ty.
            if ty = 0 then panic ''ilock: no type'' else ret ())))))))))))"

definition iunlock :: "nat option \<Rightarrow> ('x fs_st_scheme, unit) prog" where
  "iunlock ipp =
     (case ipp of
        None \<Rightarrow> panic ''iunlock''
      | Some i \<Rightarrow>
          bindM (holdingsleep (SL_inode i)) (\<lambda>h.
          if \<not> h then panic ''iunlock''
          else bindM (getS (\<lambda>s. sint (i_ref (inodes s ! i)) < 1)) (\<lambda>bad.
          if bad then panic ''iunlock''
          else releasesleep (SL_inode i))))"

section \<open>Truncation\<close>

fun itrunc_direct :: "nat \<Rightarrow> nat \<Rightarrow> nat \<Rightarrow> ('x fs_st_scheme, unit) prog" where
  "itrunc_direct 0 k i = ret ()"
| "itrunc_direct (Suc n) k i =
     bindM (getS (\<lambda>s. inodes s ! i)) (\<lambda>ip.
     let a = di_addrs (i_d ip) ! k in
     seqM (whenM (a \<noteq> 0) (
       seqM (bfree (i_dev ip) a)
       (modS (upd_dinode i (\<lambda>d. d\<lparr>di_addrs := (di_addrs d)[k := 0]\<rparr>)))))
     (itrunc_direct n (Suc k) i))"

fun itrunc_indirect :: "nat \<Rightarrow> nat \<Rightarrow> u32 \<Rightarrow> nat \<Rightarrow> ('x fs_st_scheme, unit) prog" where
  "itrunc_indirect 0 j dev bp = ret ()"
| "itrunc_indirect (Suc n) j dev bp =
     bindM (getS (\<lambda>s. get32 (bdata bp s) (4 * j))) (\<lambda>a.
     seqM (whenM (a \<noteq> 0) (bfree dev a))
     (itrunc_indirect n (Suc j) dev bp))"

definition itrunc :: "nat \<Rightarrow> ('x fs_st_scheme, unit) prog" where
  "itrunc i =
     seqM (itrunc_direct NDIRECT 0 i) (
     bindM (getS (\<lambda>s. inodes s ! i)) (\<lambda>ip.
     let a = di_addrs (i_d ip) ! NDIRECT in
     seqM (whenM (a \<noteq> 0) (
       bindM (bread (i_dev ip) a) (\<lambda>bp.
       seqM (itrunc_indirect NINDIRECT 0 (i_dev ip) bp) (
       seqM (brelse bp) (
       seqM (bfree (i_dev ip) a)
       (modS (upd_dinode i (\<lambda>d. d\<lparr>di_addrs := (di_addrs d)[NDIRECT := 0]\<rparr>))))))))
     (seqM (modS (upd_dinode i (\<lambda>d. d\<lparr>di_size := 0\<rparr>)))
     (iupdate i))))"

definition iput :: "nat \<Rightarrow> ('x fs_st_scheme, unit) prog" where
  "iput i =
     seqM (acquiresleep (SL_inode i)) (
     bindM (getS (\<lambda>s. inodes s ! i)) (\<lambda>ip.
     seqM (whenM (i_valid ip \<noteq> 0 \<and> di_nlink (i_d ip) = 0) (
       seqM (acquire L_icache) (
       bindM (getS (\<lambda>s. i_ref (inodes s ! i))) (\<lambda>r.
       seqM (release L_icache) (
       whenM (r = 1) (
         seqM (itrunc i) (
         seqM (modS (upd_dinode i (\<lambda>d. d\<lparr>di_type := 0\<rparr>))) (
         seqM (iupdate i)
         (modS (upd_inode i (\<lambda>ip. ip\<lparr>i_valid := 0\<rparr>))))))))))) (
     seqM (releasesleep (SL_inode i)) (
     seqM (acquire L_icache) (
     seqM (modS (upd_inode i (\<lambda>ip. ip\<lparr>i_ref := i_ref ip - 1\<rparr>)))
     (release L_icache))))))"

definition iunlockput :: "nat \<Rightarrow> ('x fs_st_scheme, unit) prog" where
  "iunlockput i = seqM (iunlock (Some i)) (iput i)"

section \<open>Block addresses of a file\<close>

definition bmap :: "nat \<Rightarrow> u32 \<Rightarrow> ('x fs_st_scheme, u32) prog" where
  "bmap i bn =
     bindM (getS (\<lambda>s. inodes s ! i)) (\<lambda>ip.
     if unat bn < NDIRECT then
       let addr = di_addrs (i_d ip) ! unat bn in
       if addr \<noteq> 0 then ret addr
       else bindM (balloc (i_dev ip)) (\<lambda>addr.
            seqM (modS (upd_dinode i (\<lambda>d. d\<lparr>di_addrs := (di_addrs d)[unat bn := addr]\<rparr>)))
            (ret addr))
     else let j = unat bn - NDIRECT in
     if j < NINDIRECT then
       bindM (let addr = di_addrs (i_d ip) ! NDIRECT in
              if addr \<noteq> 0 then ret addr
              else bindM (balloc (i_dev ip)) (\<lambda>addr.
                   seqM (modS (upd_dinode i (\<lambda>d. d\<lparr>di_addrs := (di_addrs d)[NDIRECT := addr]\<rparr>)))
                   (ret addr))) (\<lambda>addr.
       bindM (bread (i_dev ip) addr) (\<lambda>bp.
       bindM (getS (\<lambda>s. get32 (bdata bp s) (4 * j))) (\<lambda>addr.
       bindM (if addr \<noteq> 0 then ret addr
              else bindM (balloc (i_dev ip)) (\<lambda>addr.
                   seqM (set_data bp (\<lambda>s. put32 (bdata bp s) (4 * j) addr)) (
                   seqM (log_write bp)
                   (ret addr)))) (\<lambda>addr.
       seqM (brelse bp)
       (ret addr)))))
     else panic ''bmap: out of range'')"

definition stati :: "nat \<Rightarrow> 'x fs_st_scheme \<Rightarrow> stat" where
  "stati i s =
     (let ip = inodes s ! i
      in \<lparr>st_type = di_type (i_d ip), st_dev = i_dev ip, st_ino = i_inum ip, st_nlink = di_nlink (i_d ip),
          st_size = di_size (i_d ip)\<rparr>)"

end
