(* ===== verification/Txn.thy ===== *)
theory Txn
  imports Inode
begin

text \<open>
  File system operations inside a transaction. The first part lifts the buffer cache and the log to
  three rules, for opening, changing and closing a block; with them the block allocator, the inode
  write-back and the block map of a file are proved correct against the contents of the disk as
  the cache shows them.
\<close>

section \<open>States inside a transaction\<close>

text \<open>
  \<open>txn pid H s\<close>: process \<open>pid\<close> runs inside a transaction and holds exactly the buffers in \<open>H\<close>, each of
  them equal to the disk or logged; the blocks in the log are those of the dirty buffers.
  \<open>fs_keep s t\<close>: nothing but the cache, the disk, the log header and the machine differs between \<open>s\<close> and \<open>t\<close>.
\<close>

definition txn :: "u32 \<Rightarrow> nat set \<Rightarrow> 'x log_st_scheme \<Rightarrow> bool" where
  "txn pid H s \<longleftrightarrow>
     ctx {} pid s \<and> cache_ok pid s \<and> H \<subseteq> {..<NBUF} \<and>
     (\<forall>i < NBUF. i \<notin> H \<longrightarrow> b_refcnt (bufs s ! i) = 0) \<and> (\<forall>i \<in> H. held pid i s \<and> synced i s) \<and>
     0 \<le> sint (lh_n s) \<and> length (lh_block s) = LOGSIZE \<and> distinct (logged s) \<and> set (logged s) = dirty s \<and>
     1 \<le> sint (lg_outstanding s)"

definition fs_keep :: "'x log_st_scheme \<Rightarrow> 'x log_st_scheme \<Rightarrow> bool" where
  "fs_keep s t \<longleftrightarrow>
     buf_frame (s\<lparr>lh_n := lh_n t, lh_block := lh_block t\<rparr>) t \<and>
     (\<forall>k. sleeplocks t (SL_inode k) = sleeplocks s (SL_inode k)) \<and>
     length (memdisk t) = length (memdisk s)"

definition held_blocks :: "nat set \<Rightarrow> 'x buf_st_scheme \<Rightarrow> u32 set" where
  "held_blocks H s = (\<lambda>i. b_blockno (bufs s ! i)) ` H"

lemma fs_keepE:
  assumes "fs_keep s t"
  obtains n blk c fl lk pt sl bs nx pv d tr where
    "t = s\<lparr>lh_n := n, lh_block := blk, cpus := c, if_flag := fl, locks := lk, ptable := pt, sleeplocks := sl, bufs := bs, bnext := nx,
       bprev := pv, memdisk := d, dtrace := tr\<rparr>" "map sched_free pt = map sched_free (ptable s)"
    "length d = length (memdisk s)" "\<forall>k. sl (SL_inode k) = sleeplocks s (SL_inode k)"
proof -
  from assms have "buf_frame (s\<lparr>lh_n := lh_n t, lh_block := lh_block t\<rparr>) t" by (simp add: fs_keep_def)
  then obtain c fl lk pt sl bs nx pv d tr where
    e: "t = s\<lparr>lh_n := lh_n t, lh_block := lh_block t, cpus := c, if_flag := fl, locks := lk, ptable := pt, sleeplocks := sl, bufs := bs,
       bnext := nx, bprev := pv, memdisk := d, dtrace := tr\<rparr>" "map sched_free pt = map sched_free (ptable s)"
    by (rule buf_frameE) simp
  have "memdisk t = d" "sleeplocks t = sl" by (subst e(1), simp)+
  then show ?thesis using that [OF e(1,2)] assms by (auto simp: fs_keep_def)
qed

lemma fs_keep_refl [simp]: "fs_keep s s"
  by (simp add: fs_keep_def)

lemma fs_keep_trans: "fs_keep s t \<Longrightarrow> fs_keep t u \<Longrightarrow> fs_keep s u"
  by (erule fs_keepE, erule fs_keepE) (simp add: fs_keep_def buf_frame_def)

lemma fs_keep_log: "fs_keep s t \<Longrightarrow> lg_size t = lg_size s" "fs_keep s t \<Longrightarrow> lg_outstanding t = lg_outstanding s"
  "fs_keep s t \<Longrightarrow> length (memdisk t) = length (memdisk s)"
  by (auto elim!: fs_keepE)

lemma fs_keep_fields:
  assumes "fs_keep s t"
  shows "sb t = sb s" "inodes t = inodes s"
  using assms by (auto elim!: fs_keepE)

lemma fs_keep_frame:
  assumes "buf_frame s t" "\<forall>k. sleeplocks t (SL_inode k) = sleeplocks s (SL_inode k)" "length (memdisk t) = length (memdisk s)"
  shows "fs_keep s t"
  using assms log_frame [OF assms(1)] by (simp add: fs_keep_def)

lemma txn_dirty:
  assumes "txn pid H s"
  shows "card (dirty s) = length (logged s)"
  using assms distinct_card [of "logged s"] by (simp add: txn_def)

lemma logged_frame: "lh_n t = lh_n s \<Longrightarrow> lh_block t = lh_block s \<Longrightarrow> logged t = logged s"
  by (simp add: logged_def logn_def)

lemma busy_bound:
  assumes "txn pid H s"
  shows "card (busy s) \<le> card (dirty s) + card H"
proof -
  note a = assms [unfolded txn_def]
  have f: "finite H" using a finite_subset by blast
  have fd: "finite (dirty_bufs s)" by (simp add: dirty_bufs_def)
  have "busy s \<subseteq> dirty_bufs s \<union> H" using a by (auto simp: busy_def dirty_bufs_def)
  then have "card (busy s) \<le> card (dirty_bufs s \<union> H)" using f fd by (intro card_mono) auto
  also have "\<dots> \<le> card (dirty_bufs s) + card H" by (rule card_Un_le)
  finally show ?thesis using card_dirty [of pid s] a by simp
qed

text \<open>The three ways in which a file system operation uses a block: open it, write it, close it.\<close>

lemma txn_bread:
  assumes t: "txn pid H s" and b: "unat b < length (memdisk s)" "b \<notin> held_blocks H s"
    and room: "length (logged s) + card H < NBUF"
  shows "\<exists>i t. bread 1 b s = Ok i t \<and> txn pid (insert i H) t \<and> i \<notin> H \<and> b_blockno (bufs t ! i) = b \<and>
     bdata i t = view s b \<and> view t = view s \<and> logged t = logged s \<and> (\<forall>j \<in> H. bufs t ! j = bufs s ! j) \<and> fs_keep s t"
proof -
  note a = t [unfolded txn_def]
  have free: "\<forall>i < NBUF. holds_block b (bufs s ! i) \<longrightarrow> b_refcnt (bufs s ! i) = 0"
    using a b(2) by (auto simp: held_blocks_def holds_block_def)
  have av: "card (busy s) < NBUF" using busy_bound [OF t] txn_dirty [OF t] room by simp
  obtain i u where u: "bread 1 b s = Ok i u" "opens pid b s i u"
    using bread_opens [of pid s b] a b(1) free av by blast
  note o = u(2) [unfolded opens_def]
  have iH: "i \<notin> H" using o a by (auto simp: held_def)
  have i: "i < NBUF" using o by (simp add: held_def)
  note lf = log_frame [of s u]
  have lg: "logged u = logged s" using lf o by (intro logged_frame) simp_all
  have "txn pid (insert i H) u"
    using o a i iH lf lg by (auto simp: txn_def)
  moreover have "fs_keep s u" using o by (intro fs_keep_frame) simp_all
  moreover have "bdata i u = view s b" using o by simp
  ultimately show ?thesis using u(1) iH lg o by (intro exI [of _ i] exI [of _ u]) auto
qed

lemma txn_brelse:
  assumes t: "txn pid H s" and i: "i \<in> H"
  shows "\<exists>t. brelse i s = Ok () t \<and> txn pid (H - {i}) t \<and> view t = view s \<and> logged t = logged s \<and>
     (\<forall>j. j \<noteq> i \<longrightarrow> bufs t ! j = bufs s ! j) \<and> fs_keep s t"
proof -
  note a = t [unfolded txn_def]
  have h: "held pid i s" "synced i s" using a i by auto
  obtain u where u: "brelse i s = Ok () u" "ctx {} pid u" "sys_eq (released i s) u"
    using brelse_ok [of pid s i] a h by blast
  note r = released_ok [of pid s i, OF _ h(1) h(2) [unfolded synced_def]]
  note e = sys_eq_preds [OF u(3)] and f = sys_eq_buf [OF u(3)]
  have fr: "buf_frame s u" by (rule buf_frame_trans [OF frame_ops(3) sys_eq_frame [OF u(3)]])
  note lf = log_frame [OF fr]
  have len: "length (bufs s) = NBUF" using a cache_okD(1) by auto
  have bt: "bufs u = (bufs s)[i := (bufs s ! i)\<lparr>b_refcnt := 0\<rparr>]" using f r(5) a by simp
  have lg: "logged u = logged s" by (rule logged_frame) (simp_all add: lf)
  have d: "dirty u = dirty s" using e released_dirty [of pid s i] a h by simp
  have md: "memdisk u = memdisk s" using f r(3) a by simp
  have sy: "synced j u = synced j s" if "j \<noteq> i" for j
    using that by (simp add: synced_def bt md)
  have rc: "b_refcnt (bufs u ! k) = (if k = i then 0 else b_refcnt (bufs s ! k))" for k
    using bt len h by (auto simp: held_def)
  have "txn pid (H - {i}) u"
    using a u(2) e r h rc lf lg d sy by (auto simp: txn_def)
  moreover have "fs_keep s u"
    by (rule fs_keep_frame [OF fr]) (use f r(3) a in \<open>simp_all add: released_def\<close>)
  ultimately show ?thesis using u(1) lg bt e r(2) a by auto
qed

lemma note_block_held [simp]:
  "held pid i (note_block b s) = held pid i s" "cache_ok pid (note_block b s) = cache_ok pid s"
  "synced i (note_block b s) = synced i s"
  by (simp_all add: note_block_def Let_def held_def locked_by_def synced_def cache_ok_def)

lemma fs_keep_note:
  assumes "length (memdisk t) = length (memdisk s)" "buf_frame (dirtied i (note_block b (filled i d s))) t"
    "\<forall>k. sleeplocks t (SL_inode k) = sleeplocks s (SL_inode k)"
  shows "fs_keep s t"
proof -
  have "buf_frame (note_block b (filled i d s)) t" by (rule buf_frame_trans [OF frame_ops(4) assms(2)])
  moreover have "note_block b (filled i d s) = (filled i d s)\<lparr>lh_n := lh_n t, lh_block := lh_block t\<rparr>"
    using log_frame [OF assms(2)] by (auto simp: note_block_def Let_def filled_def upd_buf_def)
  moreover have "(filled i d s)\<lparr>lh_n := lh_n t, lh_block := lh_block t\<rparr> = filled i d (s\<lparr>lh_n := lh_n t, lh_block := lh_block t\<rparr>)"
    by (simp add: filled_def upd_buf_def)
  ultimately have "buf_frame (filled i d (s\<lparr>lh_n := lh_n t, lh_block := lh_block t\<rparr>)) t" by simp
  from buf_frame_trans [OF frame_ops(1) this] assms show ?thesis by (simp add: fs_keep_def)
qed

definition log_add :: "u32 \<Rightarrow> u32 list \<Rightarrow> u32 list" where
  "log_add b bs = (if b \<in> set bs then bs else bs @ [b])"

lemma txn_write:
  assumes t: "txn pid H s" and i: "i \<in> H" and d: "length (f s) = BSIZE" and room: "log_room s"
  shows "\<exists>t. seqM (set_data i f) (log_write i) s = Ok () t \<and> txn pid H t \<and>
     view t = (view s)(b_blockno (bufs s ! i) := f s) \<and> bdata i t = f s \<and> b_blockno (bufs t ! i) = b_blockno (bufs s ! i) \<and>
     logged t = log_add (b_blockno (bufs s ! i)) (logged s) \<and>
     (\<forall>j. j \<noteq> i \<longrightarrow> bufs t ! j = bufs s ! j) \<and> fs_keep s t"
proof -
  note a = t [unfolded txn_def]
  let ?b = "b_blockno (bufs s ! i)" and ?s = "filled i (f s) s"
  have h: "held pid i s" using a i by auto
  note F = filled_ok [of pid s i "f s", OF _ h d]
  have il: "i < length (bufs s)" using h cache_okD(1) [of pid s] a by (simp add: held_def)
  have same: "b_flags (bufs ?s ! k) = b_flags (bufs s ! k)" "b_blockno (bufs ?s ! k) = b_blockno (bufs s ! k)" for k
    using il by (cases "k = i"; simp add: filled_def)+
  have sel: "lh_n ?s = lh_n s" "lh_block ?s = lh_block s" "lg_outstanding ?s = lg_outstanding s" "lg_size ?s = lg_size s"
    "dirty ?s = dirty s" "memdisk ?s = memdisk s" "b_blockno (bufs ?s ! i) = ?b" "logged ?s = logged s"
    using same by (simp_all add: dirty_def dirty_bufs_def) (simp_all add: filled_def upd_buf_def logged_def logn_def)
  have c: "ctx {} pid ?s" using a by (simp add: filled_def)
  obtain u where u: "log_write i ?s = Ok () u" "sys_eq (dirtied i (note_block ?b ?s)) u" "ctx {} pid u" "cache_ok pid u"
    "held pid i u" "view u = view ?s" "logged u = (if ?b \<in> set (logged ?s) then logged ?s else logged ?s @ [?b])"
    "distinct (logged u)" "set (logged u) = dirty u"
    using log_write_ok [OF c _ _ sel(7) [symmetric]] F a room by (auto simp: sel log_room_def)
  note f = sys_eq_buf [OF u(2)] and e = sys_eq_preds [OF u(2)]
  have st: "seqM (set_data i f) (log_write i) s = Ok () u"
    using u(1) by (simp add: set_data_def M_defs filled_def)
  have bu: "bufs u = (bufs s)[i := (bufs s ! i)\<lparr>b_data := f s, b_flags := b_flags (bufs s ! i) OR B_DIRTY\<rparr>]"
    using f il by (simp add: dirtied_def filled_def)
  have oth: "bufs u ! j = bufs s ! j" if "j \<noteq> i" for j using bu that by simp
  have md: "memdisk u = memdisk s" using f sel by simp
  have fl: "b_flags (bufs u ! i) = B_VALID OR B_DIRTY"
    using bu il h by (auto simp: held_def B_VALID_def B_DIRTY_def)
  have sy: "synced j u" if "j \<in> H" for j
    using that a oth [of j] md fl by (cases "j = i") (auto simp: synced_def B_VALID_def B_DIRTY_def)
  have sl: "sleeplocks u = sleeplocks s" using f by (simp add: dirtied_def filled_def note_block_def Let_def)
  have hj: "held pid j u" if "j \<in> H" for j
    using that a oth [of j] md sl u(5) by (cases "j = i") (auto simp: held_def locked_by_def)
  have kp: "fs_keep s u"
    by (rule fs_keep_note [OF _ sys_eq_frame [OF u(2)]]) (use md sl in simp_all)
  have lh: "0 \<le> sint (lh_n u)" "length (lh_block u) = LOGSIZE"
    using logged_note_block(2,3) [of ?s ?b] log_frame(6,7) [OF sys_eq_frame [OF u(2)]] a room
    by (simp_all add: sel log_room_def)
  have rc: "b_refcnt (bufs u ! k) = b_refcnt (bufs s ! k)" if "k \<notin> H" for k using oth [of k] i that by metis
  have "txn pid H u"
    unfolding txn_def using u(3,4,8,9) a sy hj rc lh fs_keep_log(2) [OF kp] by auto
  then show ?thesis
    using st kp oth u(6,7) F(3) a bu il by (auto simp: log_add_def sel)
qed

text \<open>The same as rules for the weakest precondition.\<close>

lemma bread_wp:
  assumes "txn pid H s" "unat b < length (memdisk s)" "b \<notin> held_blocks H s" "length (logged s) + card H < NBUF"
    and "\<And>i t. txn pid (insert i H) t \<Longrightarrow> i \<notin> H \<Longrightarrow> b_blockno (bufs t ! i) = b \<Longrightarrow> bdata i t = view s b \<Longrightarrow> view t = view s \<Longrightarrow>
      logged t = logged s \<Longrightarrow> \<forall>j \<in> H. bufs t ! j = bufs s ! j \<Longrightarrow> fs_keep s t \<Longrightarrow> Q i t"
  shows "wp (bread 1 b) Q s"
  using txn_bread [OF assms(1-4)] assms(5) by (auto simp: wp_iff)

lemma brelse_wp:
  assumes "txn pid H s" "i \<in> H"
    and "\<And>t. txn pid (H - {i}) t \<Longrightarrow> view t = view s \<Longrightarrow> logged t = logged s \<Longrightarrow> \<forall>j. j \<noteq> i \<longrightarrow> bufs t ! j = bufs s ! j \<Longrightarrow>
      fs_keep s t \<Longrightarrow> Q () t"
  shows "wp (brelse i) Q s"
  using txn_brelse [OF assms(1,2)] assms(3) by (auto simp: wp_iff)

text \<open>
  \<open>modify b f\<close>: the read, change, log and release of one block that \<open>bzero\<close>, \<open>balloc\<close>, \<open>bfree\<close>, \<open>iupdate\<close> and \<open>ialloc\<close> share.
\<close>

lemma modify_wp:
  assumes "txn pid H s" "i \<in> H" "length (f s) = BSIZE" "log_room s"
    and "\<And>t. txn pid (H - {i}) t \<Longrightarrow> view t = (view s)(b_blockno (bufs s ! i) := f s) \<Longrightarrow>
      logged t = log_add (b_blockno (bufs s ! i)) (logged s) \<Longrightarrow> \<forall>j. j \<noteq> i \<longrightarrow> bufs t ! j = bufs s ! j \<Longrightarrow> fs_keep s t \<Longrightarrow> wp k Q t"
  shows "wp (seqM (set_data i f) (seqM (log_write i) (seqM (brelse i) k))) Q s"
proof -
  obtain t where t: "seqM (set_data i f) (log_write i) s = Ok () t" "txn pid H t"
    "view t = (view s)(b_blockno (bufs s ! i) := f s)" "logged t = log_add (b_blockno (bufs s ! i)) (logged s)"
    "\<forall>j. j \<noteq> i \<longrightarrow> bufs t ! j = bufs s ! j" "fs_keep s t"
    using txn_write [where f = f, OF assms(1-4)] by blast
  obtain u where u: "brelse i t = Ok () u" "txn pid (H - {i}) u" "view u = view t" "logged u = logged t"
    "\<forall>j. j \<noteq> i \<longrightarrow> bufs u ! j = bufs t ! j" "fs_keep t u" using txn_brelse [OF t(2) assms(2)] by blast
  have "wp k Q u" using u t fs_keep_trans [OF t(6) u(6)] by (intro assms(5)) simp_all
  moreover have "seqM (set_data i f) (seqM (log_write i) (seqM (brelse i) k)) s = k u"
    unfolding seqM_assoc [symmetric] using t(1) u(1) by (simp add: seqM_def bindM_def)
  ultimately show ?thesis by (simp add: wp_def)
qed

lemma modify_end_wp:
  assumes "txn pid H s" "i \<in> H" "length (f s) = BSIZE" "log_room s"
    and "\<And>t. txn pid (H - {i}) t \<Longrightarrow> view t = (view s)(b_blockno (bufs s ! i) := f s) \<Longrightarrow>
      logged t = log_add (b_blockno (bufs s ! i)) (logged s) \<Longrightarrow> \<forall>j. j \<noteq> i \<longrightarrow> bufs t ! j = bufs s ! j \<Longrightarrow> fs_keep s t \<Longrightarrow> Q () t"
  shows "wp (seqM (set_data i f) (seqM (log_write i) (brelse i))) Q s"
  using modify_wp [where f = f and k = "ret ()", OF assms(1-4)] assms(5) by simp

text \<open>\<open>log_space n s\<close>: the log can take \<open>n\<close> more blocks.\<close>

definition log_space :: "nat \<Rightarrow> 'x log_st_scheme \<Rightarrow> bool" where
  "log_space n s \<longleftrightarrow> length (logged s) + n < LOGSIZE \<and> int (length (logged s) + n) < sint (lg_size s)"

lemma log_space_room:
  assumes "txn pid H s" "log_space (Suc n) s"
  shows "log_room s"
proof -
  have "length (logged s) < LOGSIZE" using assms(2) by (simp add: log_space_def)
  then have "length (logged s) = logn s" using assms(1) by (simp add: txn_def logged_def)
  then show ?thesis using assms by (auto simp: log_space_def log_room_def txn_def logn_def)
qed

lemma log_space_step:
  assumes "log_space (Suc n) s" "logged t = log_add b (logged s)" "fs_keep s t"
  shows "log_space n t"
  using assms fs_keep_log(1) [OF assms(3)] by (auto simp: log_space_def log_add_def)

lemma log_space_keep: "log_space n s \<Longrightarrow> logged t = logged s \<Longrightarrow> fs_keep s t \<Longrightarrow> log_space n t"
  using fs_keep_log(1) [of s t] by (simp add: log_space_def)

lemma log_space_bufs: "log_space n s \<Longrightarrow> h < n + 1 \<Longrightarrow> length (logged s) + h < NBUF"
  by (auto simp: log_space_def LOGSIZE_def NBUF_def)

lemma held_blocks_simps [simp]:
  "held_blocks {} s = {}" "held_blocks (insert i H) s = insert (b_blockno (bufs s ! i)) (held_blocks H s)"
  by (simp_all add: held_blocks_def)

section \<open>The block bitmap\<close>

lemma bit_free_iff: "bit_free d bi \<longleftrightarrow> \<not> bit (d ! (bi div 8)) (bi mod 8)"
  by (simp add: bit_free_def bit_mask_def push_bit_of_1 and_exp_eq_0_iff_not_bit)

lemma bit_mask_bit: "bit (bit_mask bi) k \<longleftrightarrow> k = bi mod 8"
  by (auto simp: bit_mask_def push_bit_of_1 bit_exp_iff)

lemma bit_set_clear:
  "bit (w OR bit_mask bi) k \<longleftrightarrow> bit w k \<or> k = bi mod 8"
  "bit (w AND NOT (bit_mask bi)) k \<longleftrightarrow> bit w k \<and> k \<noteq> bi mod 8"
  using bit_imp_le_length [of w k] by (auto simp: bit_or_iff bit_and_iff bit_not_iff bit_mask_bit)

lemma bit_free_set:
  assumes "bi < 8 * length d"
  shows "bit_free (d[bi div 8 := d ! (bi div 8) OR bit_mask bi]) c \<longleftrightarrow> bit_free d c \<and> c \<noteq> bi"
proof -
  have "bi div 8 < length d" using assms by simp
  moreover have "c div 8 = bi div 8 \<Longrightarrow> c mod 8 = bi mod 8 \<longleftrightarrow> c = bi" by (metis div_mult_mod_eq)
  ultimately show ?thesis
    by (cases "c div 8 = bi div 8") (auto simp only: bit_free_iff nth_list_update_eq nth_list_update_neq bit_set_clear)
qed

lemma bit_free_clear:
  assumes "bi < 8 * length d"
  shows "bit_free (d[bi div 8 := d ! (bi div 8) AND NOT (bit_mask bi)]) c \<longleftrightarrow> bit_free d c \<or> c = bi"
proof -
  have "bi div 8 < length d" using assms by simp
  moreover have "c div 8 = bi div 8 \<Longrightarrow> c mod 8 = bi mod 8 \<longleftrightarrow> c = bi" by (metis div_mult_mod_eq)
  ultimately show ?thesis
    by (cases "c div 8 = bi div 8") (auto simp only: bit_free_iff nth_list_update_eq nth_list_update_neq bit_set_clear)
qed

text \<open>\<open>block_used s b\<close>: the bit of block \<open>b\<close> is set in the bitmap, as seen through the cache.\<close>

definition block_used :: "'x fs_st_scheme \<Rightarrow> u32 \<Rightarrow> bool" where
  "block_used s b \<longleftrightarrow> \<not> bit_free (view s (BBLOCK b (sb s))) (unat (b mod 4096))"

lemma BBLOCK_eq: "BBLOCK b p = BBLOCK c p \<longleftrightarrow> b div 4096 = c div 4096"
  by (simp add: BBLOCK_def)

lemma block_eqI: "b div 4096 = c div 4096 \<Longrightarrow> unat (b mod 4096) = unat (c mod 4096) \<Longrightarrow> b = (c :: u32)"
  by (metis div_mult_mod_eq unsigned_word_eqI)

lemma view_len: "txn pid H s \<Longrightarrow> unat b < length (memdisk s) \<Longrightarrow> length (view s b) = BSIZE"
  using view_length [of pid s b] by (simp add: txn_def)

lemma mod_4096: "unat (b mod 4096 :: u32) < 8 * BSIZE"
  by (simp add: BSIZE_def unat_mod)

text \<open>The effect of changing one bitmap block.\<close>

lemma used_after_set:
  assumes "view t = (view s)(BBLOCK b (sb s) := d[unat (b mod 4096) div 8 := d ! (unat (b mod 4096) div 8) OR bit_mask (unat (b mod 4096))])"
    and "d = view s (BBLOCK b (sb s))" "length d = BSIZE" "sb t = sb s"
  shows "block_used t c \<longleftrightarrow> block_used s c \<or> c = b"
proof (cases "c div 4096 = b div 4096")
  case True
  then have "BBLOCK c (sb s) = BBLOCK b (sb s)" by (simp add: BBLOCK_eq)
  then have "block_used t c \<longleftrightarrow> \<not> (bit_free d (unat (c mod 4096)) \<and> unat (c mod 4096) \<noteq> unat (b mod 4096))"
    unfolding block_used_def assms(1,4) using bit_free_set [of "unat (b mod 4096)" d] mod_4096 [of b] assms(3) by simp
  then show ?thesis using True block_eqI [of c b] assms(2) \<open>BBLOCK c (sb s) = _\<close> by (auto simp: block_used_def)
next
  case False
  then have "BBLOCK c (sb s) \<noteq> BBLOCK b (sb s)" "c \<noteq> b" by (auto simp: BBLOCK_eq)
  then show ?thesis by (simp add: block_used_def assms(1,4))
qed

lemma used_after_clear:
  assumes "view t = (view s)(BBLOCK b (sb s) := d[unat (b mod 4096) div 8 := d ! (unat (b mod 4096) div 8) AND NOT (bit_mask (unat (b mod 4096)))])"
    and "d = view s (BBLOCK b (sb s))" "length d = BSIZE" "sb t = sb s"
  shows "block_used t c \<longleftrightarrow> block_used s c \<and> c \<noteq> b"
proof (cases "c div 4096 = b div 4096")
  case True
  then have "BBLOCK c (sb s) = BBLOCK b (sb s)" by (simp add: BBLOCK_eq)
  then have "block_used t c \<longleftrightarrow> \<not> (bit_free d (unat (c mod 4096)) \<or> unat (c mod 4096) = unat (b mod 4096))"
    unfolding block_used_def assms(1,4) using bit_free_clear [of "unat (b mod 4096)" d] mod_4096 [of b] assms(3) by simp
  then show ?thesis using True block_eqI [of c b] assms(2) \<open>BBLOCK c (sb s) = _\<close> by (auto simp: block_used_def)
next
  case False
  then have "BBLOCK c (sb s) \<noteq> BBLOCK b (sb s)" "c \<noteq> b" by (auto simp: BBLOCK_eq)
  then show ?thesis by (simp add: block_used_def assms(1,4))
qed

lemma bfree_ok:
  assumes t: "txn pid {} s" and sp: "log_space 1 s" and b: "unat (BBLOCK b (sb s)) < length (memdisk s)" and u: "block_used s b"
  shows "wp (bfree 1 b) (\<lambda>_ t. txn pid {} t \<and> fs_keep s t \<and> (\<forall>c. block_used t c \<longleftrightarrow> block_used s c \<and> c \<noteq> b) \<and>
      (\<forall>c. c \<noteq> BBLOCK b (sb s) \<longrightarrow> view t c = view s c) \<and> logged t = log_add (BBLOCK b (sb s)) (logged s)) s"
    (is "wp _ ?Q s")
  unfolding bfree_def Let_def wp_bindM wp_getS
proof (rule bread_wp [OF t b])
  show "length (logged s) + card {} < NBUF" using log_space_bufs [OF sp, of 0] by simp
  fix i v
  assume v: "txn pid {i} v" "b_blockno (bufs v ! i) = BBLOCK b (sb s)" "bdata i v = view s (BBLOCK b (sb s))" "view v = view s"
    "logged v = logged s" "fs_keep s v"
  have room: "log_room v" using log_space_room [OF v(1)] log_space_keep [OF sp v(5,6)] by simp
  have len: "length (view s (BBLOCK b (sb s))) = BSIZE" by (rule view_len [OF t b])
  have nf: "\<not> bit_free (bdata i v) (unat (b mod 4096))" using u by (simp add: v(3) block_used_def)
  have used: "block_used w c \<longleftrightarrow> block_used s c \<and> c \<noteq> b"
    if "view w = (view v)(b_blockno (bufs v ! i) := (bdata i v)[unat (b mod 4096) div 8 := bdata i v ! (unat (b mod 4096) div 8) AND NOT (bit_mask (unat (b mod 4096)))])"
      "fs_keep v w" for w c
    using used_after_clear [of w s b "view s (BBLOCK b (sb s))" c] that v(2-4) len fs_keep_fields(1) [OF fs_keep_trans [OF v(6) that(2)]] by simp
  show "wp (if bit_free (bdata i v) (unat (b mod 4096)) then panic ''freeing free block''
      else seqM (set_data i (\<lambda>s. (bdata i s)[unat (b mod 4096) div 8 := bdata i s ! (unat (b mod 4096) div 8) AND NOT (bit_mask (unat (b mod 4096)))]))
        (seqM (log_write i) (brelse i))) ?Q v"
    unfolding if_not_P [OF nf]
    by (rule modify_end_wp [OF v(1) _ _ room]) (use len used v fs_keep_trans [OF v(6)] in auto)
qed simp

text \<open>
  \<open>fs_geom s\<close>: the blocks of the file system and its bitmap lie on the disk, the counters do not overflow,
  and the bitmap blocks themselves are marked as used.
\<close>

definition fs_geom :: "'x fs_st_scheme \<Rightarrow> bool" where
  "fs_geom s \<longleftrightarrow>
     unat (sb_size (sb s)) \<le> length (memdisk s) \<and> unat (sb_size (sb s)) < 2 ^ 31 \<and>
     (\<forall>b < sb_size (sb s). unat (BBLOCK b (sb s)) < length (memdisk s) \<and> block_used s (BBLOCK b (sb s)))"

lemma block_split:
  assumes "b mod 4096 = 0" "bi < 4096" "unat b + bi < 2 ^ 32"
  shows "unat (b + of_nat bi :: u32) = unat b + bi" "(b + of_nat bi) div 4096 = b div 4096"
    "unat ((b + of_nat bi) mod 4096) = bi"
proof -
  have m: "unat b mod 4096 = 0" using arg_cong [OF assms(1), of unat] by (simp add: unat_mod)
  show u: "unat (b + of_nat bi) = unat b + bi"
    using assms(2,3) by (simp add: unat_word_ariths unat_of_nat)
  have "unat ((b + of_nat bi) div 4096) = unat (b div 4096)"
    using m assms(2) by (simp add: unat_div u div_add1_eq)
  then show "(b + of_nat bi) div 4096 = b div 4096" by (rule unsigned_word_eqI)
  have "(unat b + bi) mod 4096 = bi" using m assms(2) by (metis add_0 mod_add_left_eq mod_less)
  then show "unat ((b + of_nat bi) mod 4096) = bi" by (simp add: unat_mod u)
qed

lemma bzero_ok:
  assumes t: "txn pid {} s" and sp: "log_space 1 s" and b: "unat b < length (memdisk s)"
  shows "wp (bzero 1 b) (\<lambda>_ t. txn pid {} t \<and> fs_keep s t \<and> view t = (view s)(b := replicate BSIZE 0) \<and>
     logged t = log_add b (logged s)) s"
  unfolding bzero_def wp_bindM
proof (rule bread_wp [OF t b])
  show "length (logged s) + card {} < NBUF" using log_space_bufs [OF sp, of 0] by simp
  fix i v
  assume v: "txn pid {i} v" "b_blockno (bufs v ! i) = b" "bdata i v = view s b" "view v = view s" "logged v = logged s" "fs_keep s v"
  have room: "log_room v" using log_space_room [OF v(1)] log_space_keep [OF sp v(5,6)] by simp
  show "wp (seqM (set_data i (\<lambda>_. replicate BSIZE 0)) (seqM (log_write i) (brelse i)))
     (\<lambda>_ t. txn pid {} t \<and> fs_keep s t \<and> view t = (view s)(b := replicate BSIZE 0) \<and> logged t = log_add b (logged s)) v"
    by (rule modify_end_wp [OF v(1) _ _ room]) (use v fs_keep_trans [OF v(6)] in auto)
qed simp

lemma find_free_Some:
  assumes "find_free d b sz = Some bi"
  shows "bi < 4096" "unat b + bi < unat sz" "bit_free d bi" "\<And>j. j < bi \<Longrightarrow> \<not> bit_free d j"
  using first_idx_SomeD [OF assms [unfolded find_free_def]] by (auto simp: BPB_def)

lemma find_free_None:
  assumes "find_free d b sz = None" "j < 4096" "unat b + j < unat sz"
  shows "\<not> bit_free d j"
  using assms by (auto simp: find_free_def first_idx_None_iff BPB_def)

definition alloc_post :: "u32 \<Rightarrow> 'x fs_st_scheme \<Rightarrow> u32 \<Rightarrow> 'x fs_st_scheme \<Rightarrow> bool" where
  "alloc_post pid s r t \<longleftrightarrow>
     r < sb_size (sb s) \<and> \<not> block_used s r \<and> (\<forall>c < r. block_used s c) \<and>
     txn pid {} t \<and> fs_keep s t \<and> (\<forall>c < sb_size (sb s). block_used t c \<longleftrightarrow> block_used s c \<or> c = r) \<and>
     view t r = replicate BSIZE 0 \<and> (\<forall>c. c \<noteq> r \<longrightarrow> c \<noteq> BBLOCK r (sb s) \<longrightarrow> view t c = view s c) \<and>
     logged t = log_add r (log_add (BBLOCK r (sb s)) (logged s))"

lemma balloc_hit:
  assumes v: "txn pid {i} v" "b_blockno (bufs v ! i) = BBLOCK b (sb s)" "bdata i v = view s (BBLOCK b (sb s))" "view v = view s"
      "logged v = logged s" "fs_keep s v"
    and t: "txn pid {} s" "log_space 2 s" "fs_geom s" and b: "b mod 4096 = 0" "b < sb_size (sb s)" "\<forall>c < b. block_used s c"
    and hit: "find_free (view s (BBLOCK b (sb s))) b (sb_size (sb s)) = Some bi"
  shows "wp (seqM (set_data i (\<lambda>s. (bdata i s)[bi div 8 := bdata i s ! (bi div 8) OR bit_mask bi])) (
         seqM (log_write i) (seqM (brelse i) (seqM (bzero 1 (b + of_nat bi)) (ret (b + of_nat bi)))))) (alloc_post pid s) v"
proof -
  let ?r = "b + of_nat bi" and ?d = "view s (BBLOCK b (sb s))"
  note f = find_free_Some [OF hit]
  have lt: "unat b + bi < 2 ^ 32" using f(2) t(3) by (simp add: fs_geom_def)
  note r = block_split [OF b(1) f(1) lt]
  have rl: "?r < sb_size (sb s)" using f(2) r(1) by (simp add: word_less_nat_alt)
  have br: "BBLOCK ?r (sb s) = BBLOCK b (sb s)" using r(2) by (simp add: BBLOCK_eq)
  have g: "unat (BBLOCK b (sb s)) < length (memdisk s)" "block_used s (BBLOCK b (sb s))" "unat ?r < length (memdisk s)"
    using t(3) b(2) rl f(2) r(1) by (auto simp: fs_geom_def)
  have free: "\<not> block_used s ?r" using f(3) r(3) br by (simp add: block_used_def)
  have ne: "?r \<noteq> BBLOCK b (sb s)" using free g(2) by auto
  have low: "block_used s c" if "c < ?r" for c
  proof (cases "c < b")
    case True then show ?thesis using b(3) by simp
  next
    case False
    let ?j = "unat c - unat b"
    have j: "?j < bi" "unat c = unat b + ?j" using False that r(1) by (auto simp: word_less_nat_alt)
    note k = block_split [OF b(1), of ?j]
    have c: "c = b + of_nat ?j" by (rule unsigned_word_eqI) (use k(1) j f(1) lt in simp)
    have "unat (c mod 4096) = ?j" "BBLOCK c (sb s) = BBLOCK b (sb s)" using k j(1) f(1) lt c by (auto simp: BBLOCK_eq)
    then show ?thesis using f(4) [OF j(1)] by (simp add: block_used_def)
  qed
  have room: "log_room v" using log_space_room [OF v(1)] log_space_keep [OF t(2) v(5,6)] by (simp add: numeral_2_eq_2)
  have len: "length ?d = BSIZE" by (rule view_len [OF t(1) g(1)])
  show ?thesis
  proof (rule modify_wp [OF v(1) _ _ room])
    fix w
    assume w: "txn pid ({i} - {i}) w" "view w = (view v)(b_blockno (bufs v ! i) := (bdata i v)[bi div 8 := bdata i v ! (bi div 8) OR bit_mask bi])"
      "logged w = log_add (b_blockno (bufs v ! i)) (logged v)" "fs_keep v w"
    have k: "fs_keep s w" by (rule fs_keep_trans [OF v(6) w(4)])
    have vw: "view w = (view s)(BBLOCK ?r (sb s) := ?d[unat (?r mod 4096) div 8 :=
        ?d ! (unat (?r mod 4096) div 8) OR bit_mask (unat (?r mod 4096))])"
      unfolding r(3) br w(2) v(2-4) by (rule refl)
    have used: "block_used w c \<longleftrightarrow> block_used s c \<or> c = ?r" for c
      by (rule used_after_set [OF vw _ len fs_keep_fields(1) [OF k]]) (simp only: br)
    have sp: "log_space 1 w" using log_space_step [of 1 s w] t(2) w(3) v(2,5) k by (simp add: numeral_2_eq_2)
    have tw: "txn pid {} w" using w(1) by simp
    have "wp (bzero 1 ?r) (\<lambda>_ t. txn pid {} t \<and> fs_keep w t \<and> view t = (view w)(?r := replicate BSIZE 0) \<and>
       logged t = log_add ?r (logged w)) w"
      by (rule bzero_ok [OF tw sp]) (use g(3) fs_keep_log(3) [OF k] in simp)
    then show "wp (seqM (bzero 1 ?r) (ret ?r)) (alloc_post pid s) w"
      unfolding wp_seqM
    proof (rule wp_mono)
      fix x u
      assume u: "txn pid {} u \<and> fs_keep w u \<and> view u = (view w)(?r := replicate BSIZE 0) \<and> logged u = log_add ?r (logged w)"
      have ku: "fs_keep s u" using fs_keep_trans [OF k] u by blast
      have "block_used u c \<longleftrightarrow> block_used w c" if "c < sb_size (sb s)" for c
      proof -
        have "BBLOCK c (sb s) \<noteq> ?r" using that t(3) free by (auto simp: fs_geom_def)
        then show ?thesis using u fs_keep_fields(1) [OF k] fs_keep_fields(1) [OF ku] by (simp add: block_used_def)
      qed
      then show "wp (ret ?r) (alloc_post pid s) u"
        using rl free low u ku used w(2,3) v(2,4,5) br ne by (auto simp: alloc_post_def)
    qed
  qed (simp_all add: len v)
qed

lemma fs_geom_keep:
  assumes "fs_geom s" "fs_keep s t" "view t = view s"
  shows "fs_geom t" "block_used t = block_used s"
proof -
  show u: "block_used t = block_used s"
    using fs_keep_fields(1) [OF assms(2)] assms(3) by (simp add: block_used_def fun_eq_iff)
  show "fs_geom t"
    using assms(1) fs_keep_fields(1) [OF assms(2)] fs_keep_log(3) [OF assms(2)] u by (simp add: fs_geom_def)
qed

lemma alloc_post_keep:
  assumes "alloc_post pid t r u" "fs_keep s t" "view t = view s" "logged t = logged s"
  shows "alloc_post pid s r u"
proof -
  have "sb t = sb s" "block_used t = block_used s"
    using fs_keep_fields(1) [OF assms(2)] assms(3) by (simp_all add: block_used_def fun_eq_iff)
  then show ?thesis using assms(1,3,4) fs_keep_trans [OF assms(2)] by (auto simp: alloc_post_def)
qed

text \<open>Looking into one bitmap block leaves the transaction as it was.\<close>

lemma peek_block:
  assumes "txn pid {} s" "unat b < length (memdisk s)" "log_space n s"
  shows "\<exists>i v w. bread 1 b s = Ok i v \<and> bdata i v = view s b \<and> b_blockno (bufs v ! i) = b \<and>
     txn pid {i} v \<and> view v = view s \<and> logged v = logged s \<and> fs_keep s v \<and>
     brelse i v = Ok () w \<and> txn pid {} w \<and> view w = view s \<and> logged w = logged s \<and> fs_keep s w"
proof -
  have r: "length (logged s) + card ({} :: nat set) < NBUF" using log_space_bufs [OF assms(3), of 0] by simp
  obtain i v where v: "bread 1 b s = Ok i v" "txn pid {i} v" "b_blockno (bufs v ! i) = b" "bdata i v = view s b" "view v = view s"
    "logged v = logged s" "fs_keep s v" using txn_bread [OF assms(1,2) _ r] by auto
  obtain w where w: "brelse i v = Ok () w" "txn pid {} w" "view w = view v" "logged w = logged v" "fs_keep v w"
    using txn_brelse [OF v(2), of i] by auto
  then show ?thesis using v fs_keep_trans [OF v(7) w(5)] by auto
qed

lemma next_group:
  assumes "b mod 4096 = 0" "b < sz" "unat sz < 2 ^ 31"
  shows "(b + 4096) mod 4096 = 0" "unat (b + 4096 :: u32) = unat b + 4096"
proof -
  show u: "unat (b + 4096) = unat b + 4096"
    using assms(2,3) by (simp add: unat_word_ariths word_less_nat_alt)
  have "unat b mod 4096 = 0" using arg_cong [OF assms(1), of unat] by (simp add: unat_mod)
  then have "unat ((b + 4096) mod 4096) = 0" by (simp add: unat_mod u)
  then show "(b + 4096) mod 4096 = 0" by (simp add: unat_eq_0)
qed

lemma group_used:
  assumes "b mod 4096 = 0" "unat sz < 2 ^ 31" "\<forall>c < b. c < sz \<longrightarrow> block_used s c"
    and none: "find_free (view s (BBLOCK b (sb s))) b sz = None" and c: "c < b + 4096" "c < sz" "b < sz"
  shows "block_used s c"
proof (cases "c < b")
  case True
  then show ?thesis using assms(3) c(2) by simp
next
  case False
  let ?j = "unat c - unat b"
  have cj: "unat c = unat b + ?j" "?j < 4096" "unat b + ?j < 2 ^ 32" "unat b + ?j < unat sz"
    using False c next_group(2) [OF assms(1) c(3) assms(2)] assms(2) by (auto simp: word_less_nat_alt)
  note k = block_split [OF assms(1) cj(2,3)]
  have e: "c = b + of_nat ?j" by (rule unsigned_word_eqI) (use k(1) cj in simp)
  have "\<not> bit_free (view s (BBLOCK b (sb s))) ?j" by (rule find_free_None [OF none cj(2,4)])
  moreover have "unat (c mod 4096) = ?j" "BBLOCK c (sb s) = BBLOCK b (sb s)" using k e by (auto simp: BBLOCK_eq)
  ultimately show ?thesis by (simp add: block_used_def)
qed

lemma balloc_loop_ok:
  assumes "txn pid {} s" "log_space 2 s" "fs_geom s" "b mod 4096 = 0" "\<forall>c < b. c < sb_size (sb s) \<longrightarrow> block_used s c"
    and "unat (sb_size (sb s)) \<le> unat b + fuel * 4096"
  shows "if \<exists>c < sb_size (sb s). \<not> block_used s c then wp (balloc_loop (Suc fuel) 1 b) (alloc_post pid s) s
     else balloc_loop (Suc fuel) 1 b s = Panic ''balloc: out of blocks''"
  using assms
proof (induction fuel arbitrary: s b)
  case 0
  then have "sb_size (sb s) \<le> b" by (simp add: word_le_nat_alt)
  then have "\<not> b < sb_size (sb s)" "\<not> (\<exists>c < sb_size (sb s). \<not> block_used s c)" using "0.prems"(5) by auto
  then show ?case by (auto simp: M_defs)
next
  case (Suc fuel)
  note p = Suc.prems
  let ?sz = "sb_size (sb s)" and ?B = "BBLOCK b (sb s)"
  show ?case
  proof (cases "b < ?sz")
    case False
    then have "\<not> (\<exists>c < ?sz. \<not> block_used s c)" using p(5) by auto
    with False show ?thesis by (auto simp: M_defs)
  next
    case True
    have B: "unat ?B < length (memdisk s)" "unat ?sz < 2 ^ 31" using p(3) True by (auto simp: fs_geom_def)
    obtain i v w where v: "bread 1 ?B s = Ok i v" "bdata i v = view s ?B" "b_blockno (bufs v ! i) = ?B" "txn pid {i} v" "view v = view s"
      "logged v = logged s" "fs_keep s v" and w: "brelse i v = Ok () w" "txn pid {} w" "view w = view s" "logged w = logged s" "fs_keep s w"
      using peek_block [OF p(1) B(1) p(2)] by blast
    show ?thesis
    proof (cases "find_free (view s ?B) b ?sz")
      case None
      note g = fs_geom_keep [OF p(3) w(5,3)] and n = next_group [OF p(4) True B(2)]
      have sbw: "sb w = sb s" by (rule fs_keep_fields(1) [OF w(5)])
      have us: "\<forall>c < b + 4096. c < sb_size (sb w) \<longrightarrow> block_used w c"
        using group_used [OF p(4) B(2) p(5) None] True by (simp add: sbw g(2))
      have "balloc_loop (Suc (Suc fuel)) 1 b s = balloc_loop (Suc fuel) 1 (b + 4096) w"
        using True v(1,2) None w(1) by (subst balloc_loop.simps(2)) (simp add: M_defs del: balloc_loop.simps)
      moreover have "if \<exists>c < sb_size (sb w). \<not> block_used w c then wp (balloc_loop (Suc fuel) 1 (b + 4096)) (alloc_post pid w) w
         else balloc_loop (Suc fuel) 1 (b + 4096) w = Panic ''balloc: out of blocks''"
        by (rule Suc.IH [OF w(2) log_space_keep [OF p(2) w(4,5)] g(1) n(1) us]) (use p(6) n(2) sbw in simp)
      ultimately show ?thesis
        using alloc_post_keep [OF _ w(5,3,4)]
        by (auto simp: sbw g(2) wp_iff simp del: balloc_loop.simps split: if_splits)
    next
      case (Some bi)
      have ex: "\<exists>c < ?sz. \<not> block_used s c"
      proof -
        note f = find_free_Some [OF Some]
        have "unat b + bi < 2 ^ 32" using f(2) B(2) by simp
        note r = block_split [OF p(4) f(1) this]
        have "\<not> block_used s (b + of_nat bi)" using f(3) r by (simp add: block_used_def BBLOCK_def)
        moreover have "b + of_nat bi < ?sz" using f(2) r(1) by (simp add: word_less_nat_alt)
        ultimately show ?thesis by blast
      qed
      have lo: "\<forall>c < b. block_used s c" using p(5) True by auto
      have "wp (balloc_loop (Suc (Suc fuel)) 1 b) (alloc_post pid s) s"
        using balloc_hit [OF v(4,3,2,5,6,7) p(1-4) True lo Some] True v(1,2) Some
        by (subst balloc_loop.simps(2)) (simp add: wp_def M_defs del: balloc_loop.simps)
      then show ?thesis using ex by simp
    qed
  qed
qed

text \<open>
  C17: The block allocator. Inside a transaction with room for two log blocks, \<open>balloc\<close> returns
  the lowest block whose bit in the bitmap is clear, sets exactly that bit, fills the block
  with zeros, and changes no other block; when every block is in use it panics.
\<close>

theorem balloc_allocates:
  assumes "txn pid {} s" "log_space 2 s" "fs_geom s"
  shows "if \<exists>c < sb_size (sb s). \<not> block_used s c
    then \<exists>r t. balloc 1 s = Ok r t \<and> r < sb_size (sb s) \<and> \<not> block_used s r \<and> (\<forall>c < r. block_used s c) \<and>
      txn pid {} t \<and> (\<forall>c < sb_size (sb s). block_used t c \<longleftrightarrow> block_used s c \<or> c = r) \<and>
      view t r = replicate BSIZE 0 \<and> (\<forall>c. c \<noteq> r \<longrightarrow> c \<noteq> BBLOCK r (sb s) \<longrightarrow> view t c = view s c)
    else balloc 1 s = Panic ''balloc: out of blocks''"
proof -
  have "unat (sb_size (sb s)) \<le> unat (0 :: u32) + 2 ^ 20 * 4096" using assms(3) by (simp add: fs_geom_def)
  from balloc_loop_ok [OF assms, of 0, OF _ _ this] show ?thesis
    by (simp add: balloc_def wp_iff alloc_post_def split: if_splits) blast
qed

text \<open>
  C32: \<open>bfree\<close> inside a transaction clears exactly the bit of the block it is given and changes no
  other block's contents; freeing a block that is already free is a kernel panic.
\<close>

theorem bfree_frees:
  assumes "txn pid {} s" "log_space 1 s" "unat (BBLOCK b (sb s)) < length (memdisk s)"
  shows "if block_used s b
    then \<exists>t. bfree 1 b s = Ok () t \<and> txn pid {} t \<and> (\<forall>c. block_used t c \<longleftrightarrow> block_used s c \<and> c \<noteq> b) \<and>
      (\<forall>c. c \<noteq> BBLOCK b (sb s) \<longrightarrow> view t c = view s c)
    else bfree 1 b s = Panic ''freeing free block''"
proof (cases "block_used s b")
  case True
  then show ?thesis using bfree_ok [OF assms] by (auto simp: wp_iff)
next
  case False
  obtain i v where "bread 1 (BBLOCK b (sb s)) s = Ok i v" "bdata i v = view s (BBLOCK b (sb s))"
    using peek_block [OF assms(1,3,2)] by blast
  then show ?thesis using False by (simp add: bfree_def M_defs Let_def block_used_def)
qed

section \<open>Inodes on disk\<close>

lemma length_put_dinode [simp]:
  "off + 64 \<le> length d \<Longrightarrow> length (di_addrs di) = 13 \<Longrightarrow> length (put_dinode d off di) = length d"
  by (simp add: put_dinode_def)

lemma dinode_round_trip:
  assumes "off + 64 \<le> length d" "length (di_addrs di) = 13"
  shows "get_dinode (put_dinode d off di) off = di"
  using assms get32s_put32s [of "off + 12" "di_addrs di"]
  by (simp add: get_dinode_def put_dinode_def NDIRECT_def get16_put32s_before get32_put32s_before
      get16_put32_other get16_put16_other get32_put16_other)

lemma nth_put32s_other:
  "off + 4 * length ws \<le> length d \<Longrightarrow> k < length d \<Longrightarrow> k < off \<or> off + 4 * length ws \<le> k \<Longrightarrow> put32s d off ws ! k = d ! k"
proof (induction ws arbitrary: d off)
  case Nil
  then show ?case by simp
next
  case (Cons w ws)
  have "put32s (put32 d off w) (off + 4) ws ! k = put32 d off w ! k" using Cons.prems by (intro Cons.IH) auto
  also have "\<dots> = d ! k" using Cons.prems by (auto simp: put32_def nth_blit)
  finally show ?case by simp
qed

lemma nth_put_dinode_other:
  assumes "off + 64 \<le> length d" "length (di_addrs di) = 13" "k < length d" "k < off \<or> off + 64 \<le> k"
  shows "put_dinode d off di ! k = d ! k"
proof -
  let ?d = "put32 (put16 (put16 (put16 (put16 d off (di_type di)) (off + 2) (di_major di)) (off + 4) (di_minor di))
       (off + 6) (di_nlink di)) (off + 8) (di_size di)"
  have "put32s ?d (off + 12) (di_addrs di) ! k = ?d ! k" using assms by (intro nth_put32s_other) auto
  also have "\<dots> = d ! k" using assms by (auto simp: put32_def put16_def nth_blit)
  finally show ?thesis by (simp add: put_dinode_def)
qed

lemma chunk_cong: "o' + n \<le> length d \<Longrightarrow> length e = length d \<Longrightarrow> (\<And>k. o' \<le> k \<Longrightarrow> k < o' + n \<Longrightarrow> e ! k = d ! k) \<Longrightarrow> chunk e o' n = chunk d o' n"
  by (rule nth_equalityI) simp_all

lemma get_dinode_cong:
  assumes "o' + 64 \<le> length d" "length e = length d" "\<And>k. o' \<le> k \<Longrightarrow> k < o' + 64 \<Longrightarrow> e ! k = d ! k"
  shows "get_dinode e o' = get_dinode d o'"
proof -
  have c: "chunk e p n = chunk d p n" if "o' \<le> p" "p + n \<le> o' + 64" for p n
    using that assms by (intro chunk_cong) auto
  have "map (\<lambda>i. get32 e (o' + 12 + 4 * i)) [0..<13] = map (\<lambda>i. get32 d (o' + 12 + 4 * i)) [0..<13]"
    using c by (intro map_cong) (auto simp: get32_def)
  then show ?thesis using c by (simp add: get_dinode_def get32s_def NDIRECT_def get16_def get32_def)
qed

definition dinode_of :: "'x fs_st_scheme \<Rightarrow> u32 \<Rightarrow> dinode" where
  "dinode_of s n = get_dinode (view s (IBLOCK n (sb s))) (dip_off n)"

lemma dip_off_bound: "dip_off n + 64 \<le> BSIZE"
proof -
  have "unat (n mod 8) < 8" by (simp add: unat_mod)
  then show ?thesis by (simp add: dip_off_def BSIZE_def)
qed

lemma inum_eqI: "n div 8 = m div 8 \<Longrightarrow> dip_off n = dip_off m \<Longrightarrow> n = m"
proof -
  assume a: "n div 8 = m div 8" "dip_off n = dip_off m"
  from a(2) have "unat (n mod 8) = unat (m mod 8)" by (simp add: dip_off_def)
  then have "n mod 8 = m mod 8" by (rule unsigned_word_eqI)
  with a(1) show "n = m" by (metis div_mult_mod_eq)
qed

lemma dinode_after_put:
  assumes "view t = (view s)(IBLOCK n (sb s) := put_dinode (view s (IBLOCK n (sb s))) (dip_off n) di)" "sb t = sb s"
    and len: "length (view s (IBLOCK n (sb s))) = BSIZE" "length (di_addrs di) = 13"
  shows "dinode_of t m = (if m = n then di else dinode_of s m)"
proof (cases "m = n")
  case True
  then show ?thesis using dinode_round_trip dip_off_bound [of n] len by (simp add: dinode_of_def assms(1,2))
next
  case False
  show ?thesis
  proof (cases "IBLOCK m (sb s) = IBLOCK n (sb s)")
    case True
    then have "dip_off m \<noteq> dip_off n" using False inum_eqI [of m n] by (auto simp: IBLOCK_def)
    then have "dip_off m + 64 \<le> dip_off n \<or> dip_off n + 64 \<le> dip_off m" by (auto simp: dip_off_def)
    then have "get_dinode (put_dinode (view s (IBLOCK n (sb s))) (dip_off n) di) (dip_off m) =
        get_dinode (view s (IBLOCK n (sb s))) (dip_off m)"
      using dip_off_bound [of n] dip_off_bound [of m] len by (intro get_dinode_cong nth_put_dinode_other) auto
    with True False show ?thesis by (simp add: dinode_of_def assms(1,2))
  next
    case False
    with \<open>m \<noteq> n\<close> show ?thesis by (simp add: dinode_of_def assms(1,2))
  qed
qed

lemma iupdate_ok:
  assumes t: "txn pid {} s" and sp: "log_space 1 s" and dv: "i_dev (inodes s ! i) = 1"
    and b: "unat (IBLOCK (i_inum (inodes s ! i)) (sb s)) < length (memdisk s)" and a: "length (di_addrs (i_d (inodes s ! i))) = 13"
  shows "wp (iupdate i) (\<lambda>_ t. txn pid {} t \<and> fs_keep s t \<and>
     (\<forall>m. dinode_of t m = (if m = i_inum (inodes s ! i) then i_d (inodes s ! i) else dinode_of s m)) \<and>
     (\<forall>c. c \<noteq> IBLOCK (i_inum (inodes s ! i)) (sb s) \<longrightarrow> view t c = view s c) \<and>
     logged t = log_add (IBLOCK (i_inum (inodes s ! i)) (sb s)) (logged s)) s"
    (is "wp _ ?Q s")
  unfolding iupdate_def wp_bindM wp_getS dv
proof (rule bread_wp [OF t b])
  let ?n = "i_inum (inodes s ! i)" and ?di = "i_d (inodes s ! i)"
  show "length (logged s) + card {} < NBUF" using log_space_bufs [OF sp, of 0] by simp
  fix k v
  assume v: "txn pid {k} v" "b_blockno (bufs v ! k) = IBLOCK ?n (sb s)" "bdata k v = view s (IBLOCK ?n (sb s))"
    "view v = view s" "logged v = logged s" "fs_keep s v"
  have room: "log_room v" using log_space_room [OF v(1)] log_space_keep [OF sp v(5,6)] by simp
  have len: "length (view s (IBLOCK ?n (sb s))) = BSIZE" by (rule view_len [OF t b])
  have pl: "length (put_dinode (view s (IBLOCK ?n (sb s))) (dip_off ?n) ?di) = BSIZE"
    using dip_off_bound [of ?n] len a by simp
  show "wp (seqM (set_data k (\<lambda>s. put_dinode (bdata k s) (dip_off ?n) ?di)) (seqM (log_write k) (brelse k))) ?Q v"
  proof (rule modify_end_wp [OF v(1) _ _ room])
    fix w
    assume w: "txn pid ({k} - {k}) w" "view w = (view v)(b_blockno (bufs v ! k) := put_dinode (bdata k v) (dip_off ?n) ?di)"
      "logged w = log_add (b_blockno (bufs v ! k)) (logged v)" "fs_keep v w"
    have ks: "fs_keep s w" by (rule fs_keep_trans [OF v(6) w(4)])
    have "dinode_of w m = (if m = ?n then ?di else dinode_of s m)" for m
      using dinode_after_put [of w s ?n ?di m] w(2) v(2-4) len a fs_keep_fields(1) [OF ks] by simp
    then show "?Q () w" using w ks v by simp
  qed (use pl v(3) in simp_all)
qed simp

text \<open>The inode's sleep lock and the cached inodes are independent of the transaction.\<close>

lemma view_cong: "bufs t = bufs s \<Longrightarrow> memdisk t = memdisk s \<Longrightarrow> view t = view s"
  by (simp add: view_def fun_eq_iff cong: option.case_cong)

lemma ring_frame: "cache_ok pid t \<longleftrightarrow> cache_ok pid s"
  if "bufs t = bufs s" "bnext t = bnext s" "bprev t = bprev s" "memdisk t = memdisk s" "\<And>i. sleeplocks t (SL_buf i) = sleeplocks s (SL_buf i)"
  using that by (simp add: cache_ok_def)

lemma txn_cong:
  assumes "txn pid H s" "ctx {} pid t" "bufs t = bufs s" "bnext t = bnext s" "bprev t = bprev s" "memdisk t = memdisk s"
    "\<And>i. sleeplocks t (SL_buf i) = sleeplocks s (SL_buf i)" "lh_n t = lh_n s" "lh_block t = lh_block s"
    "lg_outstanding t = lg_outstanding s"
  shows "txn pid H t"
proof -
  have "cache_ok pid t" using ring_frame [of t s pid] assms by (simp add: txn_def)
  moreover have "dirty t = dirty s" using assms(3) by (simp add: dirty_def dirty_bufs_def)
  moreover have "logged t = logged s" using assms by (intro logged_frame)
  ultimately show ?thesis using assms by (auto simp: txn_def held_def locked_by_def synced_def)
qed

lemma upd_inode_base [simp]:
  "inodes (upd_inode i f s) = (inodes s)[i := f (inodes s ! i)]" "sb (upd_inode i f s) = sb s" "bufs (upd_inode i f s) = bufs s"
  "sleeplocks (upd_inode i f s) = sleeplocks s" "memdisk (upd_inode i f s) = memdisk s" "lh_n (upd_inode i f s) = lh_n s"
  "lh_block (upd_inode i f s) = lh_block s" "lg_size (upd_inode i f s) = lg_size s"
  by (simp_all add: upd_inode_def)

lemma txn_upd_inode [simp]: "txn pid H (upd_inode i f s) = txn pid H s"
proof -
  have c: "ctx {} pid (upd_inode i f s) = ctx {} pid s"
    by (simp add: upd_inode_def ctx_def lockset_def cpu_found_def curcpu_def)
  have e: "bnext (upd_inode i f s) = bnext s" "bprev (upd_inode i f s) = bprev s" "lg_outstanding (upd_inode i f s) = lg_outstanding s"
    by (simp_all add: upd_inode_def)
  show ?thesis
  proof
    assume t: "txn pid H (upd_inode i f s)"
    then have "ctx {} pid s" using c by (simp add: txn_def)
    then show "txn pid H s" by (rule txn_cong [OF t]) (simp_all add: e)
  next
    assume t: "txn pid H s"
    then have "ctx {} pid (upd_inode i f s)" using c by (simp add: txn_def)
    then show "txn pid H (upd_inode i f s)" by (rule txn_cong [OF t]) (simp_all add: e)
  qed
qed

lemma upd_inode_sel [simp]:
  "view (upd_inode i f s) = view s" "logged (upd_inode i f s) = logged s" "log_space n (upd_inode i f s) = log_space n s"
  "dinode_of (upd_inode i f s) = dinode_of s" "block_used (upd_inode i f s) = block_used s"
proof -
  show v: "view (upd_inode i f s) = view s" by (rule view_cong) simp_all
  show l: "logged (upd_inode i f s) = logged s" by (rule logged_frame) simp_all
  show "log_space n (upd_inode i f s) = log_space n s" by (simp add: log_space_def l)
  show "dinode_of (upd_inode i f s) = dinode_of s" "block_used (upd_inode i f s) = block_used s"
    by (simp_all add: dinode_of_def block_used_def fun_eq_iff v)
qed

lemma ilock_sleep:
  assumes "txn pid H s" "sl_locked (sleeplocks s (SL_inode i)) = 0"
  shows "\<exists>t. acquiresleep (SL_inode i) s = Ok () t \<and> txn pid H t \<and> view t = view s \<and> logged t = logged s \<and>
     sb t = sb s \<and> inodes t = inodes s \<and> memdisk t = memdisk s \<and> lg_size t = lg_size s \<and>
     sl_locked (sleeplocks t (SL_inode i)) = 1 \<and> sl_pid (sleeplocks t (SL_inode i)) = pid"
proof -
  let ?u = "upd_sl (SL_inode i) (\<lambda>k. k\<lparr>sl_locked := 1, sl_pid := pid\<rparr>) s"
  have "ctx {} pid s" using assms(1) by (simp add: txn_def)
  from does_acquiresleep [OF this assms(2)] obtain t where t: "acquiresleep (SL_inode i) s = Ok () t" "sys_eq ?u t" "ctx {} pid t"
    by (auto simp: does_def)
  have f: "sb t = sb s" "inodes t = inodes s" "lh_n t = lh_n s" "lh_block t = lh_block s" "lg_outstanding t = lg_outstanding s" "lg_size t = lg_size s"
    using t(2) by (auto elim!: sys_eqE simp: upd_sl_def)
  note e = sys_eq_buf [OF t(2)]
  have "txn pid H t" by (rule txn_cong [OF assms(1) t(3)]) (use e f in \<open>simp_all\<close>)
  then show ?thesis using t(1) e f view_cong [of t s] logged_frame [of t s] by auto
qed

lemma log_space_cong: "logged t = logged s \<Longrightarrow> lg_size t = lg_size s \<Longrightarrow> log_space n t = log_space n s"
  by (simp add: log_space_def)

lemma ilock_loads:
  assumes t: "txn pid {} s" and sp: "log_space n s" and l: "sl_locked (sleeplocks s (SL_inode i)) = 0" and i: "i < length (inodes s)"
    and r: "1 \<le> sint (i_ref (inodes s ! i))" and dv: "i_dev (inodes s ! i) = 1"
    and b: "unat (IBLOCK (i_inum (inodes s ! i)) (sb s)) < length (memdisk s)" and v0: "i_valid (inodes s ! i) = 0"
  shows "if di_type (dinode_of s (i_inum (inodes s ! i))) = 0 then ilock (Some i) s = Panic ''ilock: no type''
     else \<exists>t. ilock (Some i) s = Ok () t \<and> txn pid {} t \<and> view t = view s \<and> logged t = logged s \<and> sb t = sb s \<and>
       inodes t = (inodes s)[i := (inodes s ! i)\<lparr>i_d := dinode_of s (i_inum (inodes s ! i)), i_valid := 1\<rparr>]"
proof -
  let ?n = "i_inum (inodes s ! i)"
  obtain u where u: "acquiresleep (SL_inode i) s = Ok () u" "txn pid {} u" "view u = view s" "logged u = logged s" "sb u = sb s"
    "inodes u = inodes s" "memdisk u = memdisk s" "lg_size u = lg_size s" using ilock_sleep [OF t l] by blast
  have spu: "log_space n u" using sp log_space_cong [OF u(4,8)] by simp
  have len: "length (logged u) + card ({} :: nat set) < NBUF" using log_space_bufs [OF spu, of 0] by simp
  obtain k v where v: "bread 1 (IBLOCK ?n (sb s)) u = Ok k v" "txn pid {k} v" "bdata k v = view s (IBLOCK ?n (sb s))" "view v = view s"
    "logged v = logged s" "fs_keep u v" using txn_bread [OF u(2) _ _ len, of "IBLOCK ?n (sb s)"] b u by auto
  let ?w = "upd_dinode i (\<lambda>_. get_dinode (bdata k v) (dip_off ?n)) v"
  have "txn pid {k} ?w" using v(2) by simp
  from txn_brelse [OF this, of k] obtain x where x: "brelse k ?w = Ok () x" "txn pid {} x" "view x = view s" "logged x = logged s" "fs_keep ?w x"
    using v by auto
  let ?y = "upd_inode i (\<lambda>ip. ip\<lparr>i_valid := 1\<rparr>) x"
  have iv: "inodes v = inodes s" "sb v = sb s" using fs_keep_fields [OF v(6)] u by auto
  have ix: "inodes x = (inodes s)[i := (inodes s ! i)\<lparr>i_d := dinode_of s ?n\<rparr>]" "sb x = sb s"
    using fs_keep_fields [OF x(5)] iv v(3) by (auto simp: dinode_of_def)
  have iy: "inodes ?y = (inodes s)[i := (inodes s ! i)\<lparr>i_d := dinode_of s ?n, i_valid := 1\<rparr>]" using ix i by simp
  have "ilock (Some i) s = (if di_type (dinode_of s ?n) = 0 then Panic ''ilock: no type'' else Ok () ?y)"
    using u(1,5,6) r v(1) dv v0 x(1) ix i by (auto simp: ilock_def M_defs)
  then show ?thesis using x ix iy by simp
qed

text \<open>
  C29: Write-back of an inode. \<open>iupdate\<close> stores the cached inode in its slot of the inode blocks and leaves every
  other inode and every other block as it was. When the cache entry is recycled afterwards, so that
  its fields are arbitrary and \<open>valid\<close> is 0, \<open>ilock\<close> loads back exactly the inode that was stored.
\<close>

theorem iupdate_ilock:
  assumes "txn pid {} s" "log_space 1 s" "i < length (inodes s)" "1 \<le> sint (i_ref (inodes s ! i))" "i_dev (inodes s ! i) = 1"
    and "unat (IBLOCK (i_inum (inodes s ! i)) (sb s)) < length (memdisk s)" "length (di_addrs (i_d (inodes s ! i))) = 13"
    and "di_type (i_d (inodes s ! i)) \<noteq> 0" "sl_locked (sleeplocks s (SL_inode i)) = 0"
  shows "\<exists>t u. iupdate i s = Ok () t \<and> (\<forall>m. m \<noteq> i_inum (inodes s ! i) \<longrightarrow> dinode_of t m = dinode_of s m) \<and>
     (\<forall>c. c \<noteq> IBLOCK (i_inum (inodes s ! i)) (sb s) \<longrightarrow> view t c = view s c) \<and>
     ilock (Some i) (upd_inode i (\<lambda>ip. ip\<lparr>i_valid := 0, i_d := junk\<rparr>) t) = Ok () u \<and>
     i_d (inodes u ! i) = i_d (inodes s ! i) \<and> i_valid (inodes u ! i) = 1"
proof -
  let ?n = "i_inum (inodes s ! i)"
  obtain t where t: "iupdate i s = Ok () t" "txn pid {} t" "fs_keep s t"
    "\<forall>m. dinode_of t m = (if m = ?n then i_d (inodes s ! i) else dinode_of s m)"
    "\<forall>c. c \<noteq> IBLOCK ?n (sb s) \<longrightarrow> view t c = view s c" "logged t = log_add (IBLOCK ?n (sb s)) (logged s)"
    using iupdate_ok [OF assms(1,2,5,6,7)] by (auto simp: wp_iff)
  note k = fs_keep_fields [OF t(3)] fs_keep_log(3) [OF t(3)]
  have sl: "sleeplocks t (SL_inode i) = sleeplocks s (SL_inode i)" using t(3) by (simp add: fs_keep_def)
  have sp: "log_space 0 t" using log_space_step [of 0 s t] assms(2) t(3,6) by simp
  let ?j = "upd_inode i (\<lambda>ip. ip\<lparr>i_valid := 0, i_d := junk\<rparr>) t"
  have "\<exists>u. ilock (Some i) ?j = Ok () u \<and> inodes u = (inodes ?j)[i := (inodes ?j ! i)\<lparr>i_d := dinode_of ?j (i_inum (inodes ?j ! i)), i_valid := 1\<rparr>]"
    using ilock_loads [of pid ?j 0 i] t(2,4) sp sl k assms(3-6,8,9) by auto
  then show ?thesis using t assms(3) k by auto
qed

section \<open>The inode cache\<close>

text \<open>
  \<open>icache_ok\<close>: no inode is cached twice, and no reference count is negative. The code relies on it: an inode's
  sleep lock only excludes other users when they all go through the same entry.
\<close>

definition icache_ok :: "inode list \<Rightarrow> bool" where
  "icache_ok is \<longleftrightarrow>
     (\<forall>i < length is. 0 \<le> sint (i_ref (is ! i)) \<and> sint (i_ref (is ! i)) < 2 ^ 31 - 1) \<and>
     (\<forall>i < length is. \<forall>j < length is. 0 < sint (i_ref (is ! i)) \<and> 0 < sint (i_ref (is ! j)) \<and>
        i_dev (is ! i) = i_dev (is ! j) \<and> i_inum (is ! i) = i_inum (is ! j) \<longrightarrow> i = j)"

lemma icache_same:
  "icache_ok is \<Longrightarrow> cached_as dev inum (is ! i) \<Longrightarrow> cached_as dev inum (is ! j) \<Longrightarrow> i < length is \<Longrightarrow> j < length is \<Longrightarrow> i = j"
  by (simp add: icache_ok_def cached_as_def)

definition in_icache :: "('x fs_st_scheme \<Rightarrow> 'x fs_st_scheme) \<Rightarrow> 'x fs_st_scheme \<Rightarrow> 'x fs_st_scheme" where
  "in_icache f s = rel L_icache (f (acq L_icache s))"

lemma fs_frame [simp]: "inodes (acq l s) = inodes s" "inodes (rel l s) = inodes s" "sb (acq l s) = sb s" "sb (rel l s) = sb s"
  by (simp_all add: effect_defs)

lemma icache_section:
  assumes "lockset {} s"
  shows "acquire L_icache s = Ok () (acq L_icache s)" "release L_icache (upd_inode i f (acq L_icache s)) = Ok () (in_icache (upd_inode i f) s)"
    "lockset {} (in_icache (upd_inode i f) s)" "inodes (in_icache (upd_inode i f) s) = (inodes s)[i := f (inodes s ! i)]"
proof -
  show "acquire L_icache s = Ok () (acq L_icache s)" using acquire_ok [OF assms] by simp
  have "lockset {L_icache} (upd_inode i f (acq L_icache s))"
    using lockset_acq [OF assms, of L_icache] by (simp add: upd_inode_def lockset_def cpu_found_def curcpu_def)
  from release_ok [OF this, of L_icache] lockset_rel [OF this, of L_icache]
  show "release L_icache (upd_inode i f (acq L_icache s)) = Ok () (in_icache (upd_inode i f) s)"
    "lockset {} (in_icache (upd_inode i f) s)" by (simp_all add: in_icache_def)
  show "inodes (in_icache (upd_inode i f) s) = (inodes s)[i := f (inodes s ! i)]" by (simp add: in_icache_def)
qed

lemma sint_incr: "0 \<le> sint n \<Longrightarrow> sint n < 2 ^ 31 - 1 \<Longrightarrow> sint (n + 1 :: u32) = sint n + 1"
  by (simp add: sint_word_ariths signed_take_bit_int_eq_self)

text \<open>The entry \<open>iget\<close> chooses: the one that holds the inode, or else the first that is unused.\<close>

definition iget_slot :: "u32 \<Rightarrow> u32 \<Rightarrow> inode list \<Rightarrow> nat option" where
  "iget_slot dev inum is =
     (case first_idx (cached_as dev inum) is of Some i \<Rightarrow> Some i | None \<Rightarrow> first_idx (\<lambda>ip. i_ref ip = 0) is)"

definition iget_entry :: "u32 \<Rightarrow> u32 \<Rightarrow> inode \<Rightarrow> inode" where
  "iget_entry dev inum ip =
     (if cached_as dev inum ip then ip\<lparr>i_ref := i_ref ip + 1\<rparr> else ip\<lparr>i_dev := dev, i_inum := inum, i_ref := 1, i_valid := 0\<rparr>)"

lemma iget_ok:
  assumes "lockset {} s"
  shows "iget dev inum s =
     (case iget_slot dev inum (inodes s) of
        None \<Rightarrow> Panic ''iget: no inodes''
      | Some i \<Rightarrow> Ok i (in_icache (upd_inode i (iget_entry dev inum)) s))"
proof (cases "first_idx (cached_as dev inum) (inodes s)")
  case None
  have n: "\<not> cached_as dev inum (inodes s ! i)" if "first_idx (\<lambda>ip. i_ref ip = 0) (inodes s) = Some i" for i
    using first_idx_SomeD [OF that] None by (simp add: first_idx_None_iff)
  have "upd_inode i (\<lambda>ip. ip\<lparr>i_dev := dev, i_inum := inum, i_ref := 1, i_valid := 0\<rparr>) (acq L_icache s) =
      upd_inode i (iget_entry dev inum) (acq L_icache s)" if "first_idx (\<lambda>ip. i_ref ip = 0) (inodes s) = Some i" for i
    using n [OF that] by (simp add: upd_inode_def iget_entry_def)
  then show ?thesis using None icache_section [OF assms]
    by (auto simp: iget_def M_defs iget_slot_def split: option.split)
next
  case (Some i)
  have "upd_inode i (\<lambda>ip. ip\<lparr>i_ref := i_ref ip + 1\<rparr>) (acq L_icache s) = upd_inode i (iget_entry dev inum) (acq L_icache s)"
    using first_idx_SomeD [OF Some] by (simp add: upd_inode_def iget_entry_def)
  then show ?thesis using Some icache_section [OF assms] by (simp add: iget_def M_defs iget_slot_def)
qed

lemma iget_slot_ok:
  assumes "icache_ok is" "iget_slot dev inum is = Some i" "\<forall>ip \<in> set is. sint (i_ref ip) < 2 ^ 31 - 2"
  shows "i < length is" "icache_ok (is[i := iget_entry dev inum (is ! i)])" "cached_as dev inum (iget_entry dev inum (is ! i))"
proof -
  have miss: "\<not> cached_as dev inum (is ! j)" if "j < length is" "\<not> cached_as dev inum (is ! i)" for j
    using that assms(2) first_idx_SomeD [of "cached_as dev inum" "is" i]
    by (auto simp: iget_slot_def first_idx_None_iff split: option.splits)
  show i: "i < length is" using assms(2) by (auto simp: iget_slot_def split: option.splits)
  then have b: "0 \<le> sint (i_ref (is ! i))" "sint (i_ref (is ! i)) < 2 ^ 31 - 2" using assms(1,3) by (auto simp: icache_ok_def)
  have inc: "sint (i_ref (is ! i) + 1) = sint (i_ref (is ! i)) + 1" using b by (intro sint_incr) auto
  show c: "cached_as dev inum (iget_entry dev inum (is ! i))" using b inc by (auto simp: iget_entry_def cached_as_def)
  have ref: "0 \<le> sint (i_ref (iget_entry dev inum (is ! i)))" "sint (i_ref (iget_entry dev inum (is ! i))) < 2 ^ 31 - 1"
    using b inc by (auto simp: iget_entry_def)
  have uniq: "\<not> (i_dev (is ! j) = dev \<and> i_inum (is ! j) = inum)" if "j < length is" "j \<noteq> i" "0 < sint (i_ref (is ! j))" for j
  proof (cases "cached_as dev inum (is ! i)")
    case True
    then show ?thesis using that assms(1) i by (auto simp: icache_ok_def cached_as_def)
  next
    case False
    then show ?thesis using miss [OF that(1)] that(3) by (auto simp: cached_as_def)
  qed
  show "icache_ok (is[i := iget_entry dev inum (is ! i)])"
    unfolding icache_ok_def using assms(1) i ref uniq c
    by (auto simp: nth_list_update icache_ok_def cached_as_def)
qed

text \<open>
  C30: The inode cache never holds an inode twice. \<open>iget\<close> keeps this invariant, returns an entry that holds
  the inode it was asked for, and changes no other entry; asked again it returns the same entry
  with one more reference. It panics exactly when the inode is not cached and no entry is free.
\<close>

theorem iget_unique:
  assumes "lockset {} s" "icache_ok (inodes s)" "\<forall>ip \<in> set (inodes s). sint (i_ref ip) < 2 ^ 31 - 3"
  shows "if (\<forall>ip \<in> set (inodes s). \<not> cached_as dev inum ip \<and> i_ref ip \<noteq> 0) then iget dev inum s = Panic ''iget: no inodes''
    else \<exists>i t u. iget dev inum s = Ok i t \<and> icache_ok (inodes t) \<and> cached_as dev inum (inodes t ! i) \<and>
      (\<forall>j. j \<noteq> i \<longrightarrow> inodes t ! j = inodes s ! j) \<and>
      iget dev inum t = Ok i u \<and> icache_ok (inodes u) \<and> sint (i_ref (inodes u ! i)) = sint (i_ref (inodes t ! i)) + 1"
proof (cases "iget_slot dev inum (inodes s)")
  case None
  then have "\<forall>ip \<in> set (inodes s). \<not> cached_as dev inum ip \<and> i_ref ip \<noteq> 0"
    by (auto simp: iget_slot_def first_idx_None_iff split: option.splits)
  then show ?thesis using iget_ok [OF assms(1), of dev inum] None by simp
next
  case (Some i)
  then have h: "\<not> (\<forall>ip \<in> set (inodes s). \<not> cached_as dev inum ip \<and> i_ref ip \<noteq> 0)"
    using first_idx_SomeD [of "cached_as dev inum" "inodes s" i] first_idx_SomeD [of "\<lambda>ip. i_ref ip = 0" "inodes s" i]
    by (auto simp: iget_slot_def split: option.splits)
  let ?t = "in_icache (upd_inode i (iget_entry dev inum)) s"
  have b: "\<forall>ip \<in> set (inodes s). sint (i_ref ip) < 2 ^ 31 - 2" using assms(3) by auto
  note ok = iget_slot_ok [OF assms(2) Some b]
  have it: "inodes ?t = (inodes s)[i := iget_entry dev inum (inodes s ! i)]" by (rule icache_section(4) [OF assms(1)])
  have bi: "0 \<le> sint (i_ref (inodes s ! i))" "sint (i_ref (inodes s ! i)) < 2 ^ 31 - 3"
    using ok(1) assms(2,3) by (auto simp: icache_ok_def)
  have re: "sint (i_ref (iget_entry dev inum (inodes s ! i))) < 2 ^ 31 - 2"
    using bi sint_incr [of "i_ref (inodes s ! i)"] by (simp add: iget_entry_def)
  have bt: "\<forall>ip \<in> set (inodes ?t). sint (i_ref ip) < 2 ^ 31 - 2"
    unfolding it using b re set_update_subset_insert [of "inodes s" i] by fastforce
  have ci: "cached_as dev inum (inodes ?t ! i)" using ok(1,3) by (simp add: it)
  have "first_idx (cached_as dev inum) (inodes ?t) = Some i"
  proof (rule first_idx_SomeI)
    fix j assume "j < i"
    then show "\<not> cached_as dev inum (inodes ?t ! j)"
      using ci ok(1) icache_same [OF ok(2), of dev inum j i] unfolding it by auto
  qed (use ok(1) ci it in simp_all)
  then have sl: "iget_slot dev inum (inodes ?t) = Some i" by (simp add: iget_slot_def)
  have lt: "lockset {} ?t" by (rule icache_section(3) [OF assms(1)])
  let ?u = "in_icache (upd_inode i (iget_entry dev inum)) ?t"
  have iu: "inodes ?u = (inodes ?t)[i := iget_entry dev inum (inodes ?t ! i)]" by (rule icache_section(4) [OF lt])
  have okt: "icache_ok (inodes ?t)" using ok(2) it by simp
  note ok2 = iget_slot_ok [OF okt sl bt]
  have "sint (i_ref (inodes ?u ! i)) = sint (i_ref (inodes ?t ! i)) + 1"
    using ok2(1) ci bt okt sint_incr [of "i_ref (inodes ?t ! i)"] unfolding iu by (auto simp: iget_entry_def icache_ok_def)
  moreover have "icache_ok (inodes ?u)" using ok2(2) iu by simp
  moreover have "\<forall>j. j \<noteq> i \<longrightarrow> inodes ?t ! j = inodes s ! j" by (simp add: it)
  moreover have "iget dev inum s = Ok i ?t" "iget dev inum ?t = Ok i ?u"
    using iget_ok [OF assms(1), of dev inum] iget_ok [OF lt, of dev inum] Some sl by simp_all
  ultimately show ?thesis using h ci okt by auto
qed

section \<open>A concrete file system\<close>

text \<open>
  A file system of 64 blocks inside a transaction that has already logged the bitmap block 35; all
  blocks but the last are in use. Inode 3 is cached in the first entry of the inode cache.
\<close>

definition demo_sb :: superblock where
  "demo_sb = \<lparr>sb_size = 64, sb_nblocks = 20, sb_ninodes = 16, sb_nlog = 30, sb_logstart = 2, sb_inodestart = 32, sb_bmapstart = 35\<rparr>"

definition demo_bits :: "u8 list" where
  "demo_bits = replicate 7 0xFF @ [0x7F] @ replicate 504 0"

definition demo_bitmap :: buf where
  "demo_bitmap = \<lparr>b_flags = B_VALID OR B_DIRTY, b_dev = 1, b_blockno = 35, b_refcnt = 0, b_data = demo_bits\<rparr>"

definition demo_inode :: inode where
  "demo_inode = \<lparr>i_dev = 1, i_inum = 3, i_ref = 1, i_valid = 1,
     i_d = \<lparr>di_type = 2, di_major = 0, di_minor = 0, di_nlink = 1, di_size = 100, di_addrs = 40 # replicate 12 0\<rparr>\<rparr>"

definition demo_fs :: "inode list \<Rightarrow> 'x \<Rightarrow> 'x fs_st_scheme" where
  "demo_fs is x = demo_state demo_disk (demo_bitmap # replicate 29 blank_buf) 1 (35 # replicate 29 0) (fs_st_ext demo_sb is x)"

lemma demo_fs_sel [simp]:
  "sb (demo_fs is x) = demo_sb" "inodes (demo_fs is x) = is" "memdisk (demo_fs is x) = demo_disk" "logged (demo_fs is x) = [35]"
  "lg_size (demo_fs is x) = 30" "sl_locked (sleeplocks (demo_fs is x) l) = 0" "lockset {} (demo_fs is x)"
  by (simp_all add: demo_fs_def demo_state_def logged_def logn_def lockset_def demo_vm_def cpu_found_def curcpu_def)

lemma demo_fs_txn: "txn 2 {} (demo_fs is x)"
proof -
  have "cstate 2 (demo_fs is x)"
    unfolding demo_fs_def by (rule demo_cstate [OF refl]) (simp_all add: buf_ok_def demo_bitmap_def demo_disk_def demo_bits_def BSIZE_def)
  moreover have "dirty_bufs (demo_fs is x) = {0}"
    by (auto simp: dirty_bufs_def demo_fs_def demo_state_def NBUF_def nth_Cons' blank_buf_def demo_bitmap_def)
  then have "dirty (demo_fs is x) = {35}" by (simp add: dirty_def demo_fs_def demo_state_def demo_bitmap_def)
  moreover have "lh_n (demo_fs is x) = 1" "lh_block (demo_fs is x) = 35 # replicate 29 0" "lg_outstanding (demo_fs is x) = 1"
    by (simp_all add: demo_fs_def demo_state_def)
  ultimately show ?thesis by (simp add: txn_def cstate_def idle_def LOGSIZE_def)
qed

lemma demo_fs_view: "view (demo_fs is x) 35 = demo_bits"
  by (simp add: view_def demo_fs_def demo_state_def holds_block_def demo_bitmap_def)

lemma demo_bits_free: "n < 64 \<Longrightarrow> bit_free demo_bits n \<longleftrightarrow> n = 63"
proof -
  have "\<forall>n < 64. bit_free demo_bits n \<longleftrightarrow> n = 63" by code_simp
  then show "n < 64 \<Longrightarrow> bit_free demo_bits n \<longleftrightarrow> n = 63" by blast
qed

lemma demo_block_used:
  assumes "b < 64"
  shows "BBLOCK b demo_sb = 35" "block_used (demo_fs is x) b \<longleftrightarrow> b \<noteq> 63"
proof -
  have u: "unat b < 64" using assms by (simp add: word_less_nat_alt)
  then have d: "b div 4096 = 0" and m: "unat (b mod 4096) = unat b" by (simp_all add: unat_eq_0 [symmetric] unat_div unat_mod)
  show B: "BBLOCK b demo_sb = 35" using d by (simp add: BBLOCK_def demo_sb_def)
  show "block_used (demo_fs is x) b \<longleftrightarrow> b \<noteq> 63"
    unfolding block_used_def demo_fs_sel B demo_fs_view m using demo_bits_free [OF u] by (simp add: word_unat_eq_iff)
qed

lemma demo_fs_geom: "fs_geom (demo_fs is x)"
proof -
  have "b < sb_size demo_sb \<longleftrightarrow> b < 64" for b by (simp add: demo_sb_def)
  then show ?thesis using demo_block_used(1) demo_block_used(2) [of 35 "is" x]
    by (simp add: fs_geom_def demo_disk_def) (simp add: demo_sb_def)
qed

lemma demo_fs_space: "log_space n (demo_fs is x) \<longleftrightarrow> n < 29"
  by (auto simp: log_space_def LOGSIZE_def)

theorem balloc_allocates_witness:
  "\<exists>t. balloc 1 (demo_fs [] ()) = Ok 63 t \<and> block_used t 63 \<and> view t 63 = replicate BSIZE 0"
proof -
  let ?s = "demo_fs [] ()"
  have sz: "sb_size demo_sb = 64" by (simp add: demo_sb_def)
  have "\<exists>c < sb_size (sb ?s). \<not> block_used ?s c" using demo_block_used(2) [of 63 "[]" "()"] sz by (intro exI [of _ 63]) simp
  with balloc_allocates [OF demo_fs_txn demo_fs_space [THEN iffD2] demo_fs_geom, of "[]" "()"] obtain r t where
    r: "balloc 1 ?s = Ok r t" "r < 64" "\<not> block_used ?s r" "\<forall>c < sb_size (sb ?s). block_used t c \<longleftrightarrow> block_used ?s c \<or> c = r"
    "view t r = replicate BSIZE 0" by (auto simp: sz)
  have "r = 63" using r(2,3) demo_block_used(2) [OF r(2), of "[]" "()"] by simp
  then show ?thesis using r sz by auto
qed

theorem bfree_frees_witness:
  "(\<exists>t. bfree 1 40 (demo_fs [] ()) = Ok () t \<and> \<not> block_used t 40 \<and> block_used t 41) \<and>
   bfree 1 63 (demo_fs [] ()) = Panic ''freeing free block''"
proof -
  have b: "unat (BBLOCK c (sb (demo_fs [] ()))) < length (memdisk (demo_fs [] ()))" if "c < 64" for c
    using demo_block_used(1) [OF that] by (simp add: demo_disk_def)
  note f = bfree_frees [OF demo_fs_txn demo_fs_space [THEN iffD2] b, of 40] bfree_frees [OF demo_fs_txn demo_fs_space [THEN iffD2] b, of 63]
  show ?thesis using f demo_block_used(2) [of 40 "[]" "()"] demo_block_used(2) [of 41 "[]" "()"] demo_block_used(2) [of 63 "[]" "()"]
    by auto
qed

theorem iupdate_ilock_witness:
  "\<exists>t u. iupdate 0 (demo_fs [demo_inode] ()) = Ok () t \<and>
     ilock (Some 0) (upd_inode 0 (\<lambda>ip. ip\<lparr>i_valid := 0, i_d := zero_dinode\<rparr>) t) = Ok () u \<and>
     di_size (i_d (inodes u ! 0)) = 100"
proof -
  have "unat (IBLOCK 3 demo_sb) < 64" by (simp add: IBLOCK_def demo_sb_def)
  then show ?thesis
    using iupdate_ilock [OF demo_fs_txn demo_fs_space [THEN iffD2], of 0 "[demo_inode]" "()" zero_dinode]
    by (auto simp: demo_inode_def demo_disk_def)
qed

theorem iget_unique_witness:
  "\<exists>i t u. iget 1 7 (demo_fs [demo_inode, demo_inode\<lparr>i_ref := 0\<rparr>] ()) = Ok i t \<and> iget 1 7 t = Ok i u \<and> cached_as 1 7 (inodes t ! i)"
proof -
  let ?is = "[demo_inode, demo_inode\<lparr>i_ref := 0\<rparr>]"
  have "icache_ok ?is" by (auto simp: icache_ok_def demo_inode_def less_Suc_eq nth_Cons')
  with iget_unique [of "demo_fs ?is ()" 1 7] show ?thesis by (auto simp: demo_inode_def)
qed

end
