(* ===== verification/Conin.thy ===== *)
theory Conin
  imports Txn
begin

text \<open>
  Console and keyboard input: \<open>consoleintr\<close>, \<open>consoleread\<close>, \<open>consolewrite\<close> and \<open>consoleinit\<close> of
  \<open>console.c\<close>, \<open>kbd.c\<close> with the tables of \<open>kbd.h\<close>, \<open>uartgetc\<close> of \<open>uart.c\<close>, and \<open>procdump\<close> of \<open>proc.c\<close>.
  The input line buffer is a ring of 128 bytes with free-running read, write and edit indices.
  The bytes waiting in the keyboard controller and the serial port are the lists \<open>kbd_in\<close> and
  \<open>com_in\<close>; reading a data port takes the first byte.
\<close>

section \<open>State\<close>

definition INPUT_BUF :: nat where "INPUT_BUF = 128"

definition NDEV :: nat where "NDEV = 10"

definition CONSOLE :: nat where "CONSOLE = 1"

datatype device = Dev_console

record cin_st = fs_st +
  in_buf :: "u8 list"
  in_r :: u32
  in_w :: u32
  in_e :: u32
  devsw :: "device option list"
  kbd_shift :: u8
  kbd_in :: "u8 list"
  com_in :: "u8 list"

section \<open>The keyboard\<close>

definition SHIFT :: u8 where "SHIFT = 1"

definition CTL :: u8 where "CTL = 2"

definition ALT :: u8 where "ALT = 4"

definition CAPSLOCK :: u8 where "CAPSLOCK = 8"

definition NUMLOCK :: u8 where "NUMLOCK = 16"

definition SCROLLLOCK :: u8 where "SCROLLLOCK = 32"

definition E0ESC :: u8 where "E0ESC = 64"

definition shiftcode :: "u8 \<Rightarrow> u8" where
  "shiftcode k =
     (if k = 0x1D then CTL else if k = 0x2A then SHIFT else if k = 0x36 then SHIFT else if k = 0x38 then ALT
      else if k = 0x9D then CTL else if k = 0xB8 then ALT else 0)"

definition togglecode :: "u8 \<Rightarrow> u8" where
  "togglecode k =
     (if k = 0x3A then CAPSLOCK else if k = 0x45 then NUMLOCK else if k = 0x46 then SCROLLLOCK else 0)"

definition high_keys :: "u8 \<Rightarrow> u8" where
  "high_keys k =
     (if k = 0xC8 then 0xE2 else if k = 0xD0 then 0xE3 else if k = 0xC9 then 0xE6 else if k = 0xD1 then 0xE7
      else if k = 0xCB then 0xE4 else if k = 0xCD then 0xE5 else if k = 0x97 then 0xE0 else if k = 0xCF then 0xE1
      else if k = 0xD2 then 0xE8 else if k = 0xD3 then 0xE9 else 0)"

definition normal_row :: "u8 list" where
  "normal_row =
     [0, 0x1B] @ map of_char ''1234567890-='' @ [8, 9] @ map of_char ''qwertyuiop[]'' @ [10, 0]
     @ map of_char ''asdfghjkl;'' @ [39, 96, 0, 92] @ map of_char ''zxcvbnm,./'' @ [0, 42, 0, 32]
     @ replicate 13 0 @ map of_char ''789-456+1230.''"

definition normalmap :: "u8 \<Rightarrow> u8" where
  "normalmap k =
     (if unat k < length normal_row then normal_row ! unat k
      else if k = 0x9C then 10 else if k = 0xB5 then 47 else high_keys k)"

definition shift_row :: "u8 list" where
  "shift_row =
     [0, 27] @ map of_char ''!@#$%^&*()_+'' @ [8, 9] @ map of_char ''QWERTYUIOP{}'' @ [10, 0]
     @ map of_char ''ASDFGHJKL:'' @ [34, 126, 0, 124] @ map of_char ''ZXCVBNM<>?'' @ [0, 42, 0, 32]
     @ replicate 13 0 @ map of_char ''789-456+1230.''"

definition shiftmap :: "u8 \<Rightarrow> u8" where
  "shiftmap k =
     (if unat k < length shift_row then shift_row ! unat k
      else if k = 0x9C then 10 else if k = 0xB5 then 47 else high_keys k)"

definition Ctl :: "char \<Rightarrow> u8" where
  "Ctl c = of_char c - 64"

definition ctl_row :: "u8 list" where
  "ctl_row =
     replicate 16 0 @ map Ctl ''QWERTYUIOP'' @ [0, 0, 13, 0] @ map Ctl ''ASDFGHJKL'' @ [0, 0, 0, 0, 92 - 64]
     @ map Ctl ''ZXCVBNM'' @ [0, 0, Ctl (CHR ''/''), 0, 0]"

definition ctlmap :: "u8 \<Rightarrow> u8" where
  "ctlmap k =
     (if unat k < length ctl_row then ctl_row ! unat k
      else if k = 0x9C then 13 else if k = 0xB5 then Ctl (CHR ''/'') else high_keys k)"

definition charcode :: "u8 \<Rightarrow> u8 \<Rightarrow> u8" where
  "charcode m = (if m = 0 then normalmap else if m = 1 then shiftmap else ctlmap)"

text \<open>
  One scan code: the shift state and the character, 0 when there is none. This is the part of
  \<open>kbdgetc\<close> after the data port has been read.
\<close>

definition kbd_case :: "u8 \<Rightarrow> u8 \<Rightarrow> u8" where
  "kbd_case sh c =
     (if sh AND CAPSLOCK \<noteq> 0 then
        if 97 \<le> c \<and> c \<le> 122 then c - 32 else if 65 \<le> c \<and> c \<le> 90 then c + 32 else c
      else c)"

definition kbd_code :: "u8 \<Rightarrow> u8 \<Rightarrow> u8 \<times> u8" where
  "kbd_code shift data =
     (if data = 0xE0 then (shift OR E0ESC, 0)
      else if data AND 0x80 \<noteq> 0 then
        let data = (if shift AND E0ESC \<noteq> 0 then data else data AND 0x7F)
        in (shift AND NOT (shiftcode data OR E0ESC), 0)
      else
        let esc = shift AND E0ESC \<noteq> 0;
            data = (if esc then data OR 0x80 else data);
            sh = (if esc then shift AND NOT E0ESC else shift);
            sh = (sh OR shiftcode data) XOR togglecode data
        in (sh, kbd_case sh (charcode (sh AND (CTL OR SHIFT)) data)))"

definition kbdgetc :: "('x cin_st_scheme, int) prog" where
  "kbdgetc =
     bindM (getS kbd_in) (\<lambda>q.
     case q of
       [] \<Rightarrow> ret (-1)
     | data # rest \<Rightarrow>
         seqM (modS (\<lambda>s. s\<lparr>kbd_in := rest\<rparr>)) (
         bindM (getS (\<lambda>s. kbd_code (kbd_shift s) data)) (\<lambda>r.
         seqM (modS (\<lambda>s. s\<lparr>kbd_shift := fst r\<rparr>))
         (ret (uint (snd r))))))"

definition uartgetc :: "('x cin_st_scheme, int) prog" where
  "uartgetc =
     bindM (getS uart) (\<lambda>u.
     if \<not> u then ret (-1)
     else bindM (getS com_in) (\<lambda>q.
     case q of
       [] \<Rightarrow> ret (-1)
     | data # rest \<Rightarrow> seqM (modS (\<lambda>s. s\<lparr>com_in := rest\<rparr>)) (ret (uint data))))"

section \<open>Listing the processes\<close>

definition state_name :: "procstate \<Rightarrow> string" where
  "state_name p =
     (case p of UNUSED \<Rightarrow> ''unused'' | EMBRYO \<Rightarrow> ''embryo'' | SLEEPING \<Rightarrow> ''sleep '' | RUNNABLE \<Rightarrow> ''runble''
      | RUNNING \<Rightarrow> ''run   '' | ZOMBIE \<Rightarrow> ''zombie'')"

definition str_of :: "u8 list \<Rightarrow> string" where
  "str_of bs = map (\<lambda>b. char_of (unat b)) (takeWhile (\<lambda>b. b \<noteq> 0) bs)"

fun print_pcs :: "u32 list \<Rightarrow> ('x con_st_scheme, unit) prog" where
  "print_pcs [] = ret ()"
| "print_pcs (pc # pcs) = (if pc \<noteq> 0 then seqM (kprint '' %p'' [AInt pc]) (print_pcs pcs) else ret ())"

fun procdump_loop :: "nat \<Rightarrow> nat \<Rightarrow> ('x proc_st_scheme, unit) prog" where
  "procdump_loop 0 i = ret ()"
| "procdump_loop (Suc n) i =
     bindM (getS (\<lambda>s. ptable s ! i)) (\<lambda>p.
     seqM (if p_state p = UNUSED then ret () else
       seqM (kprint ''%d %s %s'' [AInt (p_pid p), AStr (Some (state_name (p_state p))), AStr (Some (str_of (p_name p)))]) (
       seqM (whenM (p_state p = SLEEPING) (
         bindM (getS (\<lambda>s. getcallerpcs (mem s) (rd32 (mem s) (p_context p + 12) + 8))) print_pcs))
       (kprint nl [])))
     (procdump_loop n (Suc i)))"

definition procdump :: "('x proc_st_scheme, unit) prog" where
  "procdump = procdump_loop NPROC 0"

section \<open>Input lines\<close>

fun kill_line :: "nat \<Rightarrow> ('x cin_st_scheme, unit) prog" where
  "kill_line 0 = nofuel"
| "kill_line (Suc fuel) =
     bindM (getS (\<lambda>s. in_e s \<noteq> in_w s \<and> in_buf s ! (unat (in_e s - 1) mod INPUT_BUF) \<noteq> 10)) (\<lambda>more.
     if \<not> more then ret ()
     else seqM (modS (\<lambda>s. s\<lparr>in_e := in_e s - 1\<rparr>)) (
     seqM (consputc BACKSPACE)
     (kill_line fuel)))"

definition put_input :: "int \<Rightarrow> ('x cin_st_scheme, unit) prog" where
  "put_input c =
     seqM (modS (\<lambda>s. s\<lparr>in_buf := (in_buf s)[unat (in_e s) mod INPUT_BUF := word_of_int c], in_e := in_e s + 1\<rparr>)) (
     seqM (consputc c) (
     bindM (getS (\<lambda>s. in_e s = in_r s + 128)) (\<lambda>full.
     whenM (c = 10 \<or> c = 4 \<or> full) (
       seqM (modS (\<lambda>s. s\<lparr>in_w := in_e s\<rparr>))
       (wakeup C_input_r)))))"

definition input_char :: "int \<Rightarrow> ('x cin_st_scheme, unit) prog" where
  "input_char c =
     (if c = 21 then bindM (getS (\<lambda>s. unat (in_e s - in_w s))) (\<lambda>n. kill_line (n + 1))
      else if c = 8 \<or> c = 127 then
        bindM (getS (\<lambda>s. in_e s \<noteq> in_w s)) (\<lambda>ne.
        whenM ne (
          seqM (modS (\<lambda>s. s\<lparr>in_e := in_e s - 1\<rparr>))
          (consputc BACKSPACE)))
      else
        bindM (getS (\<lambda>s. c \<noteq> 0 \<and> in_e s - in_r s < 128)) (\<lambda>room.
        whenM room (put_input (if c = 13 then 10 else c))))"

fun consoleintr_loop :: "nat \<Rightarrow> ('x cin_st_scheme, int) prog \<Rightarrow> bool \<Rightarrow> ('x cin_st_scheme, bool) prog" where
  "consoleintr_loop 0 getc dump = nofuel"
| "consoleintr_loop (Suc fuel) getc dump =
     bindM getc (\<lambda>c.
     if \<not> c \<ge> 0 then ret dump
     else if c = 16 then consoleintr_loop fuel getc True
     else seqM (input_char c) (consoleintr_loop fuel getc dump))"

definition consoleintr :: "nat \<Rightarrow> ('x cin_st_scheme, int) prog \<Rightarrow> ('x cin_st_scheme, unit) prog" where
  "consoleintr fuel getc =
     seqM (acquire L_cons) (
     bindM (consoleintr_loop fuel getc False) (\<lambda>doprocdump.
     seqM (release L_cons)
     (whenM doprocdump procdump)))"

definition kbdintr :: "('x cin_st_scheme, unit) prog" where
  "kbdintr = bindM (getS kbd_in) (\<lambda>q. consoleintr (length q + 1) kbdgetc)"

definition uartintr :: "('x cin_st_scheme, unit) prog" where
  "uartintr = bindM (getS com_in) (\<lambda>q. consoleintr (length q + 1) uartgetc)"

section \<open>The console device\<close>

text \<open>
  \<open>consoleread\<close> returns its result and the bytes it has stored at \<open>dst\<close>. The loop runs with the
  console lock held; after a sleep it is entered again with the same arguments.
\<close>

definition consoleread_end :: "nat \<Rightarrow> int \<Rightarrow> u8 list \<Rightarrow> ('x cin_st_scheme, int \<times> u8 list) prog" where
  "consoleread_end ip r acc =
     seqM (release L_cons) (
     seqM (ilock (Some ip))
     (ret (r, acc)))"

fun consoleread_loop :: "nat \<Rightarrow> nat \<Rightarrow> int \<Rightarrow> int \<Rightarrow> u8 list \<Rightarrow> ('x cin_st_scheme, int \<times> u8 list) prog" where
  "consoleread_loop 0 ip target n acc = nofuel"
| "consoleread_loop (Suc fuel) ip target n acc =
     (if \<not> n > 0 then consoleread_end ip (target - n) acc
      else bindM (getS (\<lambda>s. in_r s = in_w s)) (\<lambda>empty.
      if empty then
        bindM curproc (\<lambda>p.
        bindM (getS (\<lambda>s. p_killed (ptable s ! p))) (\<lambda>k.
        if k \<noteq> 0 then consoleread_end ip (-1) acc
        else sleep C_input_r L_cons))
      else
        bindM (getS (\<lambda>s. in_buf s ! (unat (in_r s) mod INPUT_BUF))) (\<lambda>c.
        seqM (modS (\<lambda>s. s\<lparr>in_r := in_r s + 1\<rparr>)) (
        if c = 4 then
          seqM (whenM (n < target) (modS (\<lambda>s. s\<lparr>in_r := in_r s - 1\<rparr>)))
          (consoleread_end ip (target - n) acc)
        else if c = 10 then consoleread_end ip (target - (n - 1)) (acc @ [c])
        else consoleread_loop fuel ip target (n - 1) (acc @ [c])))))"

definition consoleread :: "nat \<Rightarrow> int \<Rightarrow> ('x cin_st_scheme, int \<times> u8 list) prog" where
  "consoleread ip n =
     seqM (iunlock (Some ip)) (
     seqM (acquire L_cons)
     (consoleread_loop (nat n + 1) ip n n []))"

definition consolewrite :: "nat \<Rightarrow> u8 list \<Rightarrow> int \<Rightarrow> ('x cin_st_scheme, int) prog" where
  "consolewrite ip buf n =
     seqM (iunlock (Some ip)) (
     seqM (acquire L_cons) (
     seqM (putchars (map uint (take (nat n) buf))) (
     seqM (release L_cons) (
     seqM (ilock (Some ip))
     (ret n)))))"

definition consoleinit :: "('x cin_st_scheme, unit) prog" where
  "consoleinit =
     seqM (initlock L_cons ''console'')
     (modS (\<lambda>s. s\<lparr>devsw := (devsw s)[CONSOLE := Some Dev_console], con_locking := True\<rparr>))"

end
