(* ===== verification/Dir.thy ===== *)
theory Dir
  imports Conin
begin

text \<open>
  File contents, directories and path names: \<open>fs.c\<close> from \<open>readi\<close> on. A transfer passes its bytes by
  value: \<open>readi\<close> returns its result with the bytes it stores at \<open>dst\<close>, and \<open>writei\<close> takes the bytes
  at \<open>src\<close>. A path or name is the list of its bytes up to the terminating zero, and the name
  buffer of \<open>namex\<close> is a list of \<open>DIRSIZ\<close> bytes.
\<close>

definition DIRSIZ :: nat where "DIRSIZ = 14"

definition ROOTDEV :: u32 where "ROOTDEV = 1"

definition ROOTINO :: u32 where "ROOTINO = 1"

section \<open>File contents\<close>

definition dev_of :: "inode \<Rightarrow> 'x cin_st_scheme \<Rightarrow> device option" where
  "dev_of ip s =
     (let m = sint (di_major (i_d ip))
      in if m < 0 \<or> m \<ge> int NDEV then None else devsw s ! nat m)"

definition span :: "u32 \<Rightarrow> u32 \<Rightarrow> u32" where
  "span off left = min left (512 - off mod 512)"

fun readi_loop :: "nat \<Rightarrow> nat \<Rightarrow> u32 \<Rightarrow> u32 \<Rightarrow> u32 \<Rightarrow> u8 list \<Rightarrow> ('x cin_st_scheme, u8 list) prog" where
  "readi_loop 0 i off n tot acc = nofuel"
| "readi_loop (Suc fuel) i off n tot acc =
     (if \<not> tot < n then ret acc
      else bindM (bmap i (off div 512)) (\<lambda>addr.
      bindM (getS (\<lambda>s. i_dev (inodes s ! i))) (\<lambda>dev.
      bindM (bread dev addr) (\<lambda>bp.
      let m = span off (n - tot) in
      bindM (getS (\<lambda>s. chunk (bdata bp s) (unat (off mod 512)) (unat m))) (\<lambda>d.
      seqM (brelse bp)
      (readi_loop fuel i (off + m) n (tot + m) (acc @ d)))))))"

definition readi :: "nat \<Rightarrow> u32 \<Rightarrow> u32 \<Rightarrow> ('x cin_st_scheme, int \<times> u8 list) prog" where
  "readi i off n =
     bindM (getS (\<lambda>s. inodes s ! i)) (\<lambda>ip.
     if di_type (i_d ip) = T_DEV then
       bindM (getS (dev_of ip)) (\<lambda>dv.
       case dv of
         None \<Rightarrow> ret (-1, [])
       | Some Dev_console \<Rightarrow> consoleread i (sint n))
     else if off > di_size (i_d ip) \<or> off + n < off then ret (-1, [])
     else let n = (if off + n > di_size (i_d ip) then di_size (i_d ip) - off else n) in
     bindM (readi_loop (unat n + 1) i off n 0 []) (\<lambda>d.
     ret (sint n, d)))"

fun writei_loop :: "nat \<Rightarrow> nat \<Rightarrow> u32 \<Rightarrow> u32 \<Rightarrow> u32 \<Rightarrow> u8 list \<Rightarrow> ('x cin_st_scheme, u32) prog" where
  "writei_loop 0 i off n tot src = nofuel"
| "writei_loop (Suc fuel) i off n tot src =
     (if \<not> tot < n then ret off
      else bindM (bmap i (off div 512)) (\<lambda>addr.
      bindM (getS (\<lambda>s. i_dev (inodes s ! i))) (\<lambda>dev.
      bindM (bread dev addr) (\<lambda>bp.
      let m = span off (n - tot) in
      seqM (set_data bp (\<lambda>s. blit (bdata bp s) (unat (off mod 512)) (chunk src (unat tot) (unat m)))) (
      seqM (log_write bp) (
      seqM (brelse bp)
      (writei_loop fuel i (off + m) n (tot + m) src)))))))"

definition writei :: "nat \<Rightarrow> u8 list \<Rightarrow> u32 \<Rightarrow> u32 \<Rightarrow> ('x cin_st_scheme, int) prog" where
  "writei i src off n =
     bindM (getS (\<lambda>s. inodes s ! i)) (\<lambda>ip.
     if di_type (i_d ip) = T_DEV then
       bindM (getS (dev_of ip)) (\<lambda>dv.
       case dv of
         None \<Rightarrow> ret (-1)
       | Some Dev_console \<Rightarrow> consolewrite i src (sint n))
     else if off > di_size (i_d ip) \<or> off + n < off then ret (-1)
     else if off + n > of_nat (MAXFILE * BSIZE) then ret (-1)
     else bindM (writei_loop (unat n + 1) i off n 0 src) (\<lambda>off.
     bindM (getS (\<lambda>s. di_size (i_d (inodes s ! i)))) (\<lambda>sz.
     seqM (whenM (n > 0 \<and> off > sz) (
       seqM (modS (upd_dinode i (\<lambda>d. d\<lparr>di_size := off\<rparr>)))
       (iupdate i)))
     (ret (sint n)))))"

section \<open>Directories\<close>

definition cbyte :: "u8 list \<Rightarrow> nat \<Rightarrow> u8" where
  "cbyte xs k = (if k < length xs then xs ! k else 0)"

definition namecmp :: "u8 list \<Rightarrow> u8 list \<Rightarrow> int" where
  "namecmp s t = strncmp (cbyte s) (cbyte t) DIRSIZ"

definition de_inum :: "u8 list \<Rightarrow> u16" where
  "de_inum de = get16 de 0"

definition de_name :: "u8 list \<Rightarrow> u8 list" where
  "de_name de = chunk de 2 DIRSIZ"

fun dirlookup_loop :: "nat \<Rightarrow> nat \<Rightarrow> u8 list \<Rightarrow> u32 \<Rightarrow> ('x cin_st_scheme, (nat \<times> u32) option) prog" where
  "dirlookup_loop 0 dp name off = nofuel"
| "dirlookup_loop (Suc fuel) dp name off =
     bindM (getS (\<lambda>s. inodes s ! dp)) (\<lambda>ip.
     if \<not> off < di_size (i_d ip) then ret None
     else bindM (readi dp off 16) (\<lambda>r.
     if fst r \<noteq> 16 then panic ''dirlookup read''
     else if de_inum (snd r) = 0 then dirlookup_loop fuel dp name (off + 16)
     else if namecmp name (de_name (snd r)) = 0 then
       bindM (iget (i_dev ip) (ucast (de_inum (snd r)))) (\<lambda>i.
       ret (Some (i, off)))
     else dirlookup_loop fuel dp name (off + 16)))"

definition dirlookup :: "nat \<Rightarrow> u8 list \<Rightarrow> ('x cin_st_scheme, (nat \<times> u32) option) prog" where
  "dirlookup dp name =
     bindM (getS (\<lambda>s. i_d (inodes s ! dp))) (\<lambda>d.
     if di_type d \<noteq> T_DIR then panic ''dirlookup not DIR''
     else dirlookup_loop (unat (di_size d) div 16 + 2) dp name 0)"

fun empty_slot :: "nat \<Rightarrow> nat \<Rightarrow> u32 \<Rightarrow> ('x cin_st_scheme, u32) prog" where
  "empty_slot 0 dp off = nofuel"
| "empty_slot (Suc fuel) dp off =
     bindM (getS (\<lambda>s. di_size (i_d (inodes s ! dp)))) (\<lambda>sz.
     if \<not> off < sz then ret off
     else bindM (readi dp off 16) (\<lambda>r.
     if fst r \<noteq> 16 then panic ''dirlink read''
     else if de_inum (snd r) = 0 then ret off
     else empty_slot fuel dp (off + 16)))"

text \<open>\<open>strncpy(de.name, name, DIRSIZ)\<close> into a 14 byte field.\<close>

definition name_field :: "u8 list \<Rightarrow> u8 list" where
  "name_field name =
     map (\<lambda>k. strncpy (\<lambda>a. cbyte name (unat a)) 0x1000 0 (int DIRSIZ) (0x1000 + of_nat k)) [0..<DIRSIZ]"

definition dirlink :: "nat \<Rightarrow> u8 list \<Rightarrow> u32 \<Rightarrow> ('x cin_st_scheme, int) prog" where
  "dirlink dp name inum =
     bindM (dirlookup dp name) (\<lambda>r.
     case r of
       Some (ip, _) \<Rightarrow> seqM (iput ip) (ret (-1))
     | None \<Rightarrow>
         bindM (getS (\<lambda>s. unat (di_size (i_d (inodes s ! dp))))) (\<lambda>sz.
         bindM (empty_slot (sz div 16 + 2) dp 0) (\<lambda>off.
         bindM (writei dp (enc16 (ucast inum) @ name_field name) off 16) (\<lambda>w.
         if w \<noteq> 16 then panic ''dirlink'' else ret 0))))"

section \<open>Paths\<close>

definition slash :: u8 where "slash = 47"

text \<open>
  \<open>skipelem\<close> returns the rest of the path and the new contents of the name buffer.
\<close>

definition skipelem :: "u8 list \<Rightarrow> u8 list \<Rightarrow> (u8 list \<times> u8 list) option" where
  "skipelem pth name =
     (let p = dropWhile (\<lambda>c. c = slash) pth
      in if p = [] then None
         else
           let elem = takeWhile (\<lambda>c. c \<noteq> slash) p;
               rest = dropWhile (\<lambda>c. c \<noteq> slash) p;
               len = length elem;
               name = (if len \<ge> DIRSIZ then blit name 0 (take DIRSIZ elem) else blit name 0 (elem @ [0]))
           in Some (dropWhile (\<lambda>c. c = slash) rest, name))"

fun namex_loop :: "nat \<Rightarrow> nat \<Rightarrow> u8 list \<Rightarrow> bool \<Rightarrow> u8 list \<Rightarrow> ('x cin_st_scheme, nat option \<times> u8 list) prog" where
  "namex_loop 0 ip pth parent name = nofuel"
| "namex_loop (Suc fuel) ip pth parent name =
     (case skipelem pth name of
        None \<Rightarrow> if parent then seqM (iput ip) (ret (None, name)) else ret (Some ip, name)
      | Some (pth, name) \<Rightarrow>
          seqM (ilock (Some ip)) (
          bindM (getS (\<lambda>s. di_type (i_d (inodes s ! ip)))) (\<lambda>ty.
          if ty \<noteq> T_DIR then seqM (iunlockput ip) (ret (None, name))
          else if parent \<and> pth = [] then seqM (iunlock (Some ip)) (ret (Some ip, name))
          else bindM (dirlookup ip name) (\<lambda>next.
          case next of
            None \<Rightarrow> seqM (iunlockput ip) (ret (None, name))
          | Some (n, _) \<Rightarrow> seqM (iunlockput ip) (namex_loop fuel n pth parent name)))))"

definition namex :: "u8 list \<Rightarrow> bool \<Rightarrow> u8 list \<Rightarrow> ('x cin_st_scheme, nat option \<times> u8 list) prog" where
  "namex pth parent name =
     bindM (if pth \<noteq> [] \<and> hd pth = slash then iget ROOTDEV ROOTINO
            else bindM curproc (\<lambda>p.
                 bindM (getS (\<lambda>s. p_cwd (ptable s ! p))) (\<lambda>cwd.
                 case cwd of None \<Rightarrow> undef ''null pointer'' | Some i \<Rightarrow> idup i))) (\<lambda>ip.
     namex_loop (length pth + 1) ip pth parent name)"

text \<open>The name buffers of the callers are local arrays with arbitrary contents; here they hold zeros.\<close>

definition namei :: "u8 list \<Rightarrow> ('x cin_st_scheme, nat option) prog" where
  "namei pth = bindM (namex pth False (replicate DIRSIZ 0)) (\<lambda>r. ret (fst r))"

definition nameiparent :: "u8 list \<Rightarrow> ('x cin_st_scheme, nat option \<times> u8 list) prog" where
  "nameiparent pth = namex pth True (replicate DIRSIZ 0)"

end
