(* ===== verification/Fileio.thy ===== *)
theory Fileio
  imports Dir
begin

text \<open>
  The contents of files: what \<open>readi\<close> and \<open>writei\<close> do to the bytes of a file, in terms of the blocks the inode
  points to, directly and through its indirect block.
\<close>

section \<open>The block map of a file\<close>

text \<open>
  \<open>file_addr s i k\<close> is the disk address of block \<open>k\<close> of the cached inode \<open>i\<close>; \<open>mapped s i K\<close> says that its first \<open>K\<close> blocks
  have been allocated and lie on the disk.
\<close>

definition file_addr :: "'x fs_st_scheme \<Rightarrow> nat \<Rightarrow> nat \<Rightarrow> u32" where
  "file_addr s i k =
     (let a = di_addrs (i_d (inodes s ! i))
      in if k < 12 then a ! k else get32 (view s (a ! 12)) (4 * (k - 12)))"

definition mapped :: "'x fs_st_scheme \<Rightarrow> nat \<Rightarrow> nat \<Rightarrow> bool" where
  "mapped s i K \<longleftrightarrow>
     i_dev (inodes s ! i) = 1 \<and> K \<le> MAXFILE \<and>
     (\<forall>k < K. file_addr s i k \<noteq> 0 \<and> unat (file_addr s i k) < length (memdisk s)) \<and>
     (12 < K \<longrightarrow> di_addrs (i_d (inodes s ! i)) ! 12 \<noteq> 0 \<and> unat (di_addrs (i_d (inodes s ! i)) ! 12) < length (memdisk s))"

text \<open>\<open>same_fs s t\<close>: nothing has been written between \<open>s\<close> and \<open>t\<close>.\<close>

definition same_fs :: "u32 \<Rightarrow> 'x fs_st_scheme \<Rightarrow> 'x fs_st_scheme \<Rightarrow> bool" where
  "same_fs pid s t \<longleftrightarrow> txn pid {} t \<and> view t = view s \<and> logged t = logged s \<and> fs_keep s t"

lemma same_fs_refl: "txn pid {} s \<Longrightarrow> same_fs pid s s"
  by (simp add: same_fs_def)

lemma same_fs_trans: "same_fs pid s t \<Longrightarrow> same_fs pid t u \<Longrightarrow> same_fs pid s u"
  by (auto simp: same_fs_def intro: fs_keep_trans)

lemma same_fs_file:
  assumes "same_fs pid s t"
  shows "file_addr t i k = file_addr s i k" "mapped t i K = mapped s i K" "inodes t = inodes s" "log_space n t = log_space n s"
proof -
  have f: "inodes t = inodes s" "view t = view s" "length (memdisk t) = length (memdisk s)" "lg_size t = lg_size s" "logged t = logged s"
    using assms fs_keep_fields(2) [of s t] fs_keep_log(1,3) [of s t] by (auto simp: same_fs_def)
  then show "file_addr t i k = file_addr s i k" for k by (simp add: file_addr_def Let_def)
  then show "mapped t i K = mapped s i K" using f by (simp add: mapped_def)
  show "inodes t = inodes s" "log_space n t = log_space n s" using f by (simp_all add: log_space_def)
qed

lemma bmap_mapped:
  assumes t: "txn pid {} s" and sp: "log_space n s" and m: "mapped s i K" and k: "unat bn < K"
  shows "wp (bmap i bn) (\<lambda>r t. r = file_addr s i (unat bn) \<and> same_fs pid s t) s"
proof (cases "unat bn < 12")
  case True
  have "file_addr s i (unat bn) \<noteq> 0" using m k by (simp add: mapped_def)
  then show ?thesis using True same_fs_refl [OF t] by (simp add: bmap_def NDIRECT_def Let_def file_addr_def)
next
  case False
  let ?ind = "di_addrs (i_d (inodes s ! i)) ! 12" and ?a = "file_addr s i (unat bn)"
  have a: "?a \<noteq> 0" "?ind \<noteq> 0" "unat ?ind < length (memdisk s)" "i_dev (inodes s ! i) = 1" "unat bn - 12 < 128"
    using m k False by (auto simp: mapped_def MAXFILE_def NDIRECT_def NINDIRECT_def)
  obtain b v w where v: "bread 1 ?ind s = Ok b v" "bdata b v = view s ?ind" "brelse b v = Ok () w" and w: "same_fs pid s w"
    using peek_block [OF t a(3) sp] by (auto simp: same_fs_def)
  have "get32 (bdata b v) (4 * (unat bn - 12)) = ?a" using v(2) False by (simp add: file_addr_def)
  then have "bmap i bn s = Ok ?a w"
    using False a v by (simp add: bmap_def NDIRECT_def NINDIRECT_def Let_def M_defs)
  then show ?thesis using w by (simp add: wp_def)
qed

section \<open>Reading\<close>

definition file_byte :: "'x fs_st_scheme \<Rightarrow> nat \<Rightarrow> nat \<Rightarrow> u8" where
  "file_byte s i j = view s (file_addr s i (j div BSIZE)) ! (j mod BSIZE)"

definition file_bytes :: "'x fs_st_scheme \<Rightarrow> nat \<Rightarrow> nat \<Rightarrow> nat \<Rightarrow> u8 list" where
  "file_bytes s i off n = map (file_byte s i) [off..<off + n]"

lemma length_file_bytes [simp]: "length (file_bytes s i off n) = n"
  by (simp add: file_bytes_def)

lemma file_bytes_append: "file_bytes s i off m @ file_bytes s i (off + m) n = file_bytes s i off (m + n)"
  using upt_add_eq_append [of off "off + m" n] by (simp add: file_bytes_def add.assoc)

lemma same_fs_bytes: "same_fs pid s t \<Longrightarrow> file_bytes t i off n = file_bytes s i off n"
  using same_fs_file(1) [of pid s t] by (simp add: file_bytes_def file_byte_def fun_eq_iff same_fs_def)

lemma span_props:
  assumes "tot < n" "unat off + unat (n - tot) < 2 ^ 32"
  shows "unat (span off (n - tot)) = min (unat (n - tot)) (512 - unat off mod 512)" "0 < unat (span off (n - tot))"
    "unat off mod 512 + unat (span off (n - tot)) \<le> 512"
    "unat (off + span off (n - tot)) = unat off + unat (span off (n - tot))"
    "unat (tot + span off (n - tot)) = unat tot + unat (span off (n - tot))"
proof -
  have lt: "unat (off mod 512) < 512" by (simp add: unat_mod)
  have s: "unat (512 - off mod 512) = 512 - unat off mod 512"
    using lt by (subst unat_sub) (simp_all add: word_le_nat_alt unat_mod)
  have p: "0 < unat (n - tot)" using assms(1) by (simp add: unat_gt_0)
  have n32: "unat n < 2 ^ LENGTH(32)" by (rule unsigned_less)
  have nt: "unat (n - tot) = unat n - unat tot" using assms(1) by (intro unat_sub) simp
  show m: "unat (span off (n - tot)) = min (unat (n - tot)) (512 - unat off mod 512)"
    using s by (auto simp: span_def min_def word_le_nat_alt)
  show "0 < unat (span off (n - tot))" using m p lt by (simp add: unat_mod)
  show "unat off mod 512 + unat (span off (n - tot)) \<le> 512" using m by simp
  show "unat (off + span off (n - tot)) = unat off + unat (span off (n - tot))"
    using assms(2) m by (intro unat_add_lem [THEN iffD1]) simp
  show "unat (tot + span off (n - tot)) = unat tot + unat (span off (n - tot))"
    using m nt n32 assms(1) by (intro unat_add_lem [THEN iffD1]) (simp add: word_less_nat_alt)
qed

lemma div_in_block:
  assumes "a mod n + j < (n :: nat)"
  shows "(a + j) div n = a div n" "(a + j) mod n = a mod n + j"
proof -
  have "((a mod n + j) + n * (a div n)) div n = a div n" using assms by (subst div_mult_self2) simp_all
  moreover have "(a mod n + j) + n * (a div n) = a + j" by simp
  ultimately show "(a + j) div n = a div n" by (simp only:)
  show "(a + j) mod n = a mod n + j" using assms mod_add_left_eq [of a n j] by simp
qed

lemma chunk_file_bytes:
  assumes "off mod 512 + m \<le> 512" "length (view s (file_addr s i (off div 512))) = BSIZE"
  shows "chunk (view s (file_addr s i (off div 512))) (off mod 512) m = file_bytes s i off m"
proof (rule nth_equalityI)
  show "length (chunk (view s (file_addr s i (off div 512))) (off mod 512) m) = length (file_bytes s i off m)"
    using assms by (simp add: BSIZE_def)
  fix j assume "j < length (chunk (view s (file_addr s i (off div 512))) (off mod 512) m)"
  then have j: "j < m" using assms by (simp add: BSIZE_def)
  then have "off mod 512 + j < 512" using assms(1) by simp
  then have "(off + j) div 512 = off div 512" "(off + j) mod 512 = off mod 512 + j"
    using div_in_block [of off 512 j] by simp_all
  then show "chunk (view s (file_addr s i (off div 512))) (off mod 512) m ! j = file_bytes s i off m ! j"
    using j assms by (simp add: file_bytes_def file_byte_def BSIZE_def)
qed
lemma readi_step:
  assumes t: "txn pid {} s" and sp: "log_space q s" and m: "mapped s i K" and lt: "tot < n"
    and off: "unat off + unat (n - tot) \<le> K * 512"
  shows "\<exists>w. readi_loop (Suc fuel) i off n tot acc s =
      readi_loop fuel i (off + span off (n - tot)) n (tot + span off (n - tot))
        (acc @ file_bytes s i (unat off) (unat (span off (n - tot)))) w \<and> same_fs pid s w"
proof -
  have K: "K \<le> 140" "i_dev (inodes s ! i) = 1" using m by (auto simp: mapped_def MAXFILE_def NDIRECT_def NINDIRECT_def)
  have small: "unat off + unat (n - tot) < 2 ^ 32" using off K(1) by simp
  note sn = span_props [OF lt small]
  let ?k = "unat off div 512"
  have p: "0 < unat (n - tot)" using lt by (simp add: unat_gt_0)
  have k: "unat (off div 512) = ?k" "?k < K" using off p by (auto simp: unat_div less_mult_imp_div_less)
  have "unat (off div 512) < K" using k by simp
  from bmap_mapped [OF t sp m this] obtain u where u: "bmap i (off div 512) s = Ok (file_addr s i ?k) u" "same_fs pid s u"
    using k(1) by (auto simp: wp_iff)
  note su = same_fs_file [OF u(2)]
  have tu: "txn pid {} u" "view u = view s" "log_space q u" using u(2) sp su(4) by (auto simp: same_fs_def)
  have a: "unat (file_addr s i ?k) < length (memdisk u)"
    using m k(2) u(2) fs_keep_log(3) [of s u] by (simp add: mapped_def same_fs_def)
  obtain b v w where v: "bread 1 (file_addr s i ?k) u = Ok b v" "bdata b v = view s (file_addr s i ?k)" "brelse b v = Ok () w"
    and w: "same_fs pid u w" using peek_block [OF tu(1) a tu(3)] tu(2) by (auto simp: same_fs_def)
  have len: "length (view s (file_addr s i ?k)) = BSIZE" using view_len [OF tu(1) a] tu(2) by simp
  have "chunk (bdata b v) (unat (off mod 512)) (unat (span off (n - tot))) = file_bytes s i (unat off) (unat (span off (n - tot)))"
    unfolding v(2) using chunk_file_bytes [OF sn(3) len] by (simp add: unat_mod)
  then have "readi_loop (Suc fuel) i off n tot acc s =
      readi_loop fuel i (off + span off (n - tot)) n (tot + span off (n - tot))
        (acc @ file_bytes s i (unat off) (unat (span off (n - tot)))) w"
    using lt u(1) v(1,3) su(3) K(2) by (simp add: M_defs Let_def)
  then show ?thesis using same_fs_trans [OF u(2) w] by blast
qed

lemma readi_loop_ok:
  assumes "txn pid {} s" "log_space q s" "mapped s i K" "unat tot \<le> unat n" "unat off + (unat n - unat tot) \<le> K * 512"
    and "unat n - unat tot < fuel"
  shows "wp (readi_loop fuel i off n tot acc)
     (\<lambda>r t. r = acc @ file_bytes s i (unat off) (unat n - unat tot) \<and> same_fs pid s t) s"
  using assms
proof (induction fuel arbitrary: s off tot acc)
  case 0
  then show ?case by simp
next
  case (Suc fuel)
  note p = Suc.prems
  show ?case
  proof (cases "tot < n")
    case False
    then have "unat n \<le> unat tot" by (simp add: word_less_nat_alt)
    then show ?thesis using False same_fs_refl [OF p(1)] by (simp add: file_bytes_def)
  next
    case True
    have nt: "unat (n - tot) = unat n - unat tot" using True by (intro unat_sub) simp
    have K: "K \<le> 140" using p(3) by (simp add: mapped_def MAXFILE_def NDIRECT_def NINDIRECT_def)
    have small: "unat off + unat (n - tot) < 2 ^ 32" using p(5) K nt by simp
    note sn = span_props [OF True small]
    let ?m = "span off (n - tot)"
    have "unat off + unat (n - tot) \<le> K * 512" using p(5) nt by simp
    from readi_step [OF p(1-3) True this] obtain w where
      w: "readi_loop (Suc fuel) i off n tot acc s = readi_loop fuel i (off + ?m) n (tot + ?m) (acc @ file_bytes s i (unat off) (unat ?m)) w"
      "same_fs pid s w" by blast
    note sw = same_fs_file [OF w(2)]
    have mle: "unat ?m \<le> unat n - unat tot" using sn(1) nt by simp
    have "wp (readi_loop fuel i (off + ?m) n (tot + ?m) (acc @ file_bytes s i (unat off) (unat ?m)))
       (\<lambda>r t. r = (acc @ file_bytes s i (unat off) (unat ?m)) @ file_bytes w i (unat (off + ?m)) (unat n - unat (tot + ?m)) \<and> same_fs pid w t) w"
    proof (rule Suc.IH)
      show "txn pid {} w" using w(2) by (simp add: same_fs_def)
      show "log_space q w" "mapped w i K" using sw p(2,3) by simp_all
      show "unat (tot + ?m) \<le> unat n" "unat (off + ?m) + (unat n - unat (tot + ?m)) \<le> K * 512" "unat n - unat (tot + ?m) < fuel"
        using sn(2,4,5) mle p(4,5,6) by linarith+
    qed
    moreover have "file_bytes s i (unat off) (unat ?m) @ file_bytes w i (unat (off + ?m)) (unat n - unat (tot + ?m)) =
        file_bytes s i (unat off) (unat n - unat tot)"
      using file_bytes_append [of s i "unat off" "unat ?m" "unat n - unat (tot + ?m)"] same_fs_bytes [OF w(2)] sn(4,5) mle p(4) by simp
    ultimately show ?thesis using same_fs_trans [OF w(2)] by (auto simp: wp_iff w(1) simp del: readi_loop.simps)
  qed
qed

section \<open>Writing in place\<close>

text \<open>\<open>unshared s i K\<close>: the first \<open>K\<close> blocks of the file are different blocks, and its indirect block is none of them.\<close>

definition unshared :: "'x fs_st_scheme \<Rightarrow> nat \<Rightarrow> nat \<Rightarrow> bool" where
  "unshared s i K \<longleftrightarrow>
     inj_on (file_addr s i) {..<K} \<and> (12 < K \<longrightarrow> di_addrs (i_d (inodes s ! i)) ! 12 \<notin> file_addr s i ` {..<K})"

definition blocks_spanned :: "nat \<Rightarrow> nat \<Rightarrow> nat" where
  "blocks_spanned off n = (off mod 512 + n + 511) div 512"

text \<open>\<open>patched s i K off xs t\<close>: the bytes \<open>xs\<close> have been stored at offset \<open>off\<close> of the file, and nothing else in it has changed.\<close>

definition patched :: "u32 \<Rightarrow> 'x fs_st_scheme \<Rightarrow> nat \<Rightarrow> nat \<Rightarrow> nat \<Rightarrow> u8 list \<Rightarrow> 'x fs_st_scheme \<Rightarrow> bool" where
  "patched pid s i K off xs t \<longleftrightarrow>
     txn pid {} t \<and> fs_keep s t \<and> mapped t i K \<and> unshared t i K \<and>
     (\<forall>j < K * 512. file_byte t i j = (if off \<le> j \<and> j < off + length xs then xs ! (j - off) else file_byte s i j)) \<and>
     (\<forall>b. b \<notin> file_addr s i ` {..<K} \<longrightarrow> view t b = view s b) \<and> (\<forall>k < K. file_addr t i k = file_addr s i k)"

lemma patched_append:
  assumes "patched pid s i K off xs t" "patched pid t i K (off + length xs) ys u"
  shows "patched pid s i K off (xs @ ys) u"
proof -
  have im: "file_addr t i ` {..<K} = file_addr s i ` {..<K}" using assms(1) by (auto simp: patched_def)
  show ?thesis
    using assms fs_keep_trans [of s t u] im by (auto simp: patched_def nth_append)
qed

lemma addr_after_write:
  assumes m: "mapped s i K" and us: "unshared s i K" and kp: "fs_keep s w" and k: "k < K"
    and vw: "view w = (view s)(file_addr s i k := d)" and j: "j < K"
  shows "file_addr w i j = file_addr s i j"
proof (cases "j < 12")
  case True
  then show ?thesis using fs_keep_fields(2) [OF kp] by (simp add: file_addr_def)
next
  case False
  then have "di_addrs (i_d (inodes s ! i)) ! 12 \<noteq> file_addr s i k" using us k j by (auto simp: unshared_def)
  then show ?thesis using False fs_keep_fields(2) [OF kp] vw by (simp add: file_addr_def Let_def)
qed

lemma write_patches:
  assumes t: "txn pid {} w" and m: "mapped s i K" and us: "unshared s i K" and kp: "fs_keep s w" and k: "off div 512 < K"
    and vw: "view w = (view s)(file_addr s i (off div 512) := blit (view s (file_addr s i (off div 512))) (off mod 512) xs)"
    and fit: "off mod 512 + length xs \<le> 512" and len: "length (view s (file_addr s i (off div 512))) = BSIZE"
  shows "patched pid s i K off xs w"
proof -
  let ?k = "off div 512"
  note a = addr_after_write [OF m us kp k vw]
  have im: "file_addr w i ` {..<K} = file_addr s i ` {..<K}" using a by auto
  have "file_byte w i j = (if off \<le> j \<and> j < off + length xs then xs ! (j - off) else file_byte s i j)" if "j < K * 512" for j
  proof -
    have jk: "j div 512 < K" using that by (simp add: less_mult_imp_div_less)
    show ?thesis
    proof (cases "j div 512 = ?k")
      case False
      then have "file_addr s i (j div 512) \<noteq> file_addr s i ?k" using us jk k by (auto simp: unshared_def inj_on_def)
      moreover have "\<not> (off \<le> j \<and> j < off + length xs)"
      proof
        assume "off \<le> j \<and> j < off + length xs"
        then have "off mod 512 + (j - off) < 512" using fit by linarith
        from div_in_block(1) [OF this] have "j div 512 = ?k" using \<open>off \<le> j \<and> _\<close> by simp
        with False show False by simp
      qed
      ultimately show ?thesis using a [OF jk] by (auto simp: file_byte_def vw BSIZE_def)
    next
      case True
      have dm: "off = 512 * ?k + off mod 512" "j = 512 * ?k + j mod 512" using True by (metis mult_div_mod_eq)+
      have "(off mod 512 \<le> j mod 512 \<and> j mod 512 < off mod 512 + length xs) \<longleftrightarrow> (off \<le> j \<and> j < off + length xs)"
        "j mod 512 - off mod 512 = j - off" using dm by linarith+
      moreover have "file_byte w i j = blit (view s (file_addr s i ?k)) (off mod 512) xs ! (j mod 512)"
        using a [OF jk] True by (simp add: file_byte_def vw BSIZE_def)
      moreover have "j mod 512 < length (view s (file_addr s i ?k))" using len by (simp add: BSIZE_def)
      ultimately show ?thesis
        using nth_blit [of "off mod 512" xs "view s (file_addr s i ?k)" "j mod 512"] fit len True
        by (simp add: file_byte_def BSIZE_def)
    qed
  qed
  moreover have "mapped w i K"
    using m a fs_keep_fields(2) [OF kp] fs_keep_log(3) [OF kp] by (simp add: mapped_def)
  moreover have "unshared w i K"
    using us im fs_keep_fields(2) [OF kp] a by (simp add: unshared_def inj_on_def)
  moreover have "view w b = view s b" if "b \<notin> file_addr s i ` {..<K}" for b using that k vw by auto
  ultimately show ?thesis using t kp a by (simp add: patched_def)
qed

lemma writei_step:
  assumes t: "txn pid {} s" and sp: "log_space (Suc q) s" and m: "mapped s i K" and us: "unshared s i K" and lt: "tot < n"
    and off: "unat off + unat (n - tot) \<le> K * 512" and src: "unat n \<le> length src"
  shows "\<exists>w. writei_loop (Suc fuel) i off n tot src s =
      writei_loop fuel i (off + span off (n - tot)) n (tot + span off (n - tot)) src w \<and> log_space q w \<and>
      patched pid s i K (unat off) (chunk src (unat tot) (unat (span off (n - tot)))) w"
proof -
  have K: "K \<le> 140" "i_dev (inodes s ! i) = 1" using m by (auto simp: mapped_def MAXFILE_def NDIRECT_def NINDIRECT_def)
  have small: "unat off + unat (n - tot) < 2 ^ 32" using off K(1) by simp
  note sn = span_props [OF lt small]
  let ?k = "unat off div 512" and ?m = "span off (n - tot)"
  let ?A = "file_addr s i ?k" and ?xs = "chunk src (unat tot) (unat ?m)"
  have nt: "unat (n - tot) = unat n - unat tot" using lt by (intro unat_sub) simp
  have "unat ?m \<le> unat n - unat tot" using sn(1) nt by simp
  then have xl: "length ?xs = unat ?m" using src by (simp add: chunk_def)
  have p: "0 < unat (n - tot)" using lt by (simp add: unat_gt_0)
  have k: "unat (off div 512) = ?k" "?k < K" using off p by (auto simp: unat_div less_mult_imp_div_less)
  have "unat (off div 512) < K" using k by simp
  from bmap_mapped [OF t sp m this] obtain u where u: "bmap i (off div 512) s = Ok ?A u" "same_fs pid s u"
    using k(1) by (auto simp: wp_iff)
  note su = same_fs_file [OF u(2)]
  have tu: "txn pid {} u" "view u = view s" "log_space (Suc q) u" "fs_keep s u" "logged u = logged s" using u(2) sp su(4) by (auto simp: same_fs_def)
  have a: "unat ?A < length (memdisk u)" using m k(2) fs_keep_log(3) [OF tu(4)] by (simp add: mapped_def)
  have len: "length (view s ?A) = BSIZE" using view_len [OF tu(1) a] tu(2) by simp
  obtain b v where v: "bread 1 ?A u = Ok b v" "bdata b v = view s ?A" "b_blockno (bufs v ! b) = ?A" "txn pid {b} v" "view v = view s"
    "logged v = logged s" "fs_keep u v" using peek_block [OF tu(1) a tu(3)] tu(2,5) by auto
  let ?f = "\<lambda>s. blit (bdata b s) (unat (off mod 512)) ?xs"
  have room: "log_room v" using log_space_room [OF v(4)] log_space_keep [OF tu(3) _ v(7)] v(6) tu(5) by simp
  have fl: "length (?f v) = BSIZE" using v(2) len sn(3) xl by (simp add: unat_mod BSIZE_def)
  have "wp (seqM (set_data b ?f) (seqM (log_write b) (brelse b))) (\<lambda>_ w. txn pid {} w \<and> view w = (view s)(?A := ?f v) \<and>
     logged w = log_add ?A (logged s) \<and> fs_keep v w) v"
    by (rule modify_end_wp [OF v(4) _ _ room]) (use v fl in simp_all)
  then obtain w where w: "seqM (set_data b ?f) (seqM (log_write b) (brelse b)) v = Ok () w" "txn pid {} w" "view w = (view s)(?A := ?f v)"
    "logged w = log_add ?A (logged s)" "fs_keep v w" by (auto simp: wp_iff)
  have kp: "fs_keep s w" by (rule fs_keep_trans [OF tu(4) fs_keep_trans [OF v(7) w(5)]])
  have "seqM (set_data b ?f) (seqM (log_write b) (seqM (brelse b) k)) v = k w" for k :: "('a cin_st_scheme, u32) prog"
    using w(1) by (simp add: seqM_assoc [symmetric]) (simp add: seqM_def bindM_def)
  then have "writei_loop (Suc fuel) i off n tot src s = writei_loop fuel i (off + ?m) n (tot + ?m) src w"
    using lt u(1) v(1) su(3) K(2) by (simp add: M_defs Let_def)
  moreover have "patched pid s i K (unat off) ?xs w"
    by (rule write_patches [OF w(2) m us kp k(2)]) (use w(3) v(2) sn(3) xl len in \<open>simp_all add: unat_mod\<close>)
  moreover have "log_space q w" by (rule log_space_step [OF sp w(4) kp])
  ultimately show ?thesis by blast
qed
lemma blocks_step:
  assumes "unat off mod 512 + m \<le> 512" "m = min r (512 - unat off mod 512)" "0 < m" "m < r"
  shows "blocks_spanned (unat off) r = Suc (blocks_spanned (unat off + m) (r - m))"
proof -
  have e: "unat off mod 512 + m = 512" using assms(1,2,4) by (simp add: min_def split: if_splits)
  then have "(unat off + m) mod 512 = (512 :: nat) mod 512" by (metis mod_add_left_eq)
  moreover have "unat off mod 512 + r + 511 = 512 + (r - m + 511)" using e assms(4) by linarith
  ultimately show ?thesis by (simp add: blocks_spanned_def)
qed

lemma blocks_pos: "0 < r \<Longrightarrow> 0 < blocks_spanned off r"
  by (simp add: blocks_spanned_def div_greater_zero_iff)

lemma chunk_append: "a + m + r \<le> length xs \<Longrightarrow> chunk xs a m @ chunk xs (a + m) r = chunk xs a (m + r)"
  by (simp add: chunk_def take_add add.commute)

lemma patched_refl:
  assumes "txn pid {} s" "mapped s i K" "unshared s i K"
  shows "patched pid s i K off [] s"
  using assms by (auto simp: patched_def)

lemma writei_loop_ok:
  assumes "txn pid {} s" "mapped s i K" "unshared s i K" "unat tot \<le> unat n" "unat off + (unat n - unat tot) \<le> K * 512"
    and "unat n - unat tot < fuel" "unat n \<le> length src"
    and "unat tot < unat n \<longrightarrow> log_space (blocks_spanned (unat off) (unat n - unat tot)) s"
  shows "wp (writei_loop fuel i off n tot src)
     (\<lambda>r t. unat r = unat off + (unat n - unat tot) \<and> patched pid s i K (unat off) (chunk src (unat tot) (unat n - unat tot)) t \<and>
        (log_space 0 s \<longrightarrow> log_space 0 t)) s"
  using assms
proof (induction fuel arbitrary: s off tot)
  case 0
  then show ?case by simp
next
  case (Suc fuel)
  note p = Suc.prems
  show ?case
  proof (cases "tot < n")
    case False
    then have "unat n \<le> unat tot" by (simp add: word_less_nat_alt)
    then show ?thesis using False patched_refl [OF p(1-3)] by (simp add: chunk_def)
  next
    case True
    have lt: "unat tot < unat n" using True by (simp add: word_less_nat_alt)
    have nt: "unat (n - tot) = unat n - unat tot" using True by (intro unat_sub) simp
    have K: "K \<le> 140" using p(2) by (simp add: mapped_def MAXFILE_def NDIRECT_def NINDIRECT_def)
    have small: "unat off + unat (n - tot) < 2 ^ 32" using p(5) K nt by simp
    note sn = span_props [OF True small]
    let ?m = "span off (n - tot)" and ?r = "unat n - unat tot"
    obtain q where q: "blocks_spanned (unat off) ?r = Suc q" using blocks_pos [of ?r] lt by (metis gr0_implies_Suc zero_less_diff)
    have sp: "log_space (Suc q) s" using p(8) lt q by simp
    have "unat off + unat (n - tot) \<le> K * 512" using p(5) nt by simp
    from writei_step [OF p(1) sp p(2,3) True this p(7)] obtain w where
      w: "writei_loop (Suc fuel) i off n tot src s = writei_loop fuel i (off + ?m) n (tot + ?m) src w" "log_space q w"
        "patched pid s i K (unat off) (chunk src (unat tot) (unat ?m)) w" by blast
    have mle: "unat ?m \<le> ?r" using sn(1) nt by simp
    have xl: "length (chunk src (unat tot) (unat ?m)) = unat ?m" using mle p(7) lt by (simp add: chunk_def)
    have "wp (writei_loop fuel i (off + ?m) n (tot + ?m) src)
       (\<lambda>r t. unat r = unat (off + ?m) + (unat n - unat (tot + ?m)) \<and>
          patched pid w i K (unat (off + ?m)) (chunk src (unat (tot + ?m)) (unat n - unat (tot + ?m))) t \<and>
          (log_space 0 w \<longrightarrow> log_space 0 t)) w"
    proof (rule Suc.IH)
      show "txn pid {} w" "mapped w i K" "unshared w i K" using w(3) by (simp_all add: patched_def)
      show "unat (tot + ?m) \<le> unat n" "unat (off + ?m) + (unat n - unat (tot + ?m)) \<le> K * 512" "unat n - unat (tot + ?m) < fuel"
        using sn(2,4,5) mle lt p(5,6) by linarith+
      show "unat n \<le> length src" by (rule p(7))
      show "unat (tot + ?m) < unat n \<longrightarrow> log_space (blocks_spanned (unat (off + ?m)) (unat n - unat (tot + ?m))) w"
      proof
        assume "unat (tot + ?m) < unat n"
        then have "unat ?m < ?r" using sn(5) by linarith
        from blocks_step [OF sn(3) sn(1) [unfolded nt] sn(2) this] q
        show "log_space (blocks_spanned (unat (off + ?m)) (unat n - unat (tot + ?m))) w"
          using w(2) sn(4,5) by (simp add: diff_diff_left)
      qed
    qed
    then obtain r t where t: "writei_loop fuel i (off + ?m) n (tot + ?m) src w = Ok r t" "unat r = unat (off + ?m) + (unat n - unat (tot + ?m))"
      "patched pid w i K (unat (off + ?m)) (chunk src (unat (tot + ?m)) (unat n - unat (tot + ?m))) t" "log_space 0 w \<longrightarrow> log_space 0 t" by (auto simp: wp_iff)
    have "log_space 0 w" using w(2) by (simp add: log_space_def)
    have "unat tot + unat ?m + (?r - unat ?m) \<le> length src" using mle lt p(7) by linarith
    moreover have "unat ?m + (?r - unat ?m) = ?r" "unat n - unat (tot + ?m) = ?r - unat ?m" "unat tot + unat ?m = unat (tot + ?m)"
      using mle sn(5) by simp_all
    ultimately have ch: "chunk src (unat tot) (unat ?m) @ chunk src (unat (tot + ?m)) (unat n - unat (tot + ?m)) = chunk src (unat tot) ?r"
      using chunk_append [of "unat tot" "unat ?m" "?r - unat ?m" src] by (simp only:)
    have "patched pid s i K (unat off) (chunk src (unat tot) ?r) t"
      unfolding ch [symmetric] by (rule patched_append [OF w(3)]) (use t(3) xl sn(4) in simp)
    moreover have "unat r = unat off + ?r" using t(2) sn(4,5) mle by linarith
    ultimately show ?thesis using t(1,4) \<open>log_space 0 w\<close> by (simp add: wp_def w(1) del: writei_loop.simps)
  qed
qed

section \<open>A concrete file\<close>

definition demo_cin :: "inode list \<Rightarrow> 'x \<Rightarrow> 'x cin_st_scheme" where
  "demo_cin is x = demo_fs is (cin_st_ext (replicate 128 0) 0 0 0 (None # Some Dev_console # replicate 8 None) 0 [] [] x)"

lemma demo_cin_file:
  "txn 2 {} (demo_cin is x)" "inodes (demo_cin is x) = is" "log_space n (demo_cin is x) \<longleftrightarrow> n < 29"
  "mapped (demo_cin [demo_inode] x) 0 1" "unshared (demo_cin [demo_inode] x) 0 1"
  by (simp_all add: demo_cin_def demo_fs_txn demo_fs_space mapped_def unshared_def inj_on_def file_addr_def demo_inode_def MAXFILE_def
      NDIRECT_def NINDIRECT_def demo_disk_def)



end
