(* ===== verification/Paths.thy ===== *)
theory Paths
  imports Fileio
begin

text \<open>
  Names: how a path is taken apart by \<open>skipelem\<close>, and how the name of a directory entry is stored and compared.
\<close>

section \<open>Path names\<close>

text \<open>
  The reference: the nonempty pieces between the slashes. \<open>path_names\<close> collects the name buffer, as a C
  string of at most \<open>DIRSIZ\<close> bytes, after each call of \<open>skipelem\<close>, the way the loop of \<open>namex\<close> sees it.
\<close>

fun split_slash :: "u8 list \<Rightarrow> u8 list list" where
  "split_slash [] = [[]]"
| "split_slash (c # cs) = (if c = slash then [] # split_slash cs else (c # hd (split_slash cs)) # tl (split_slash cs))"

definition path_elems :: "u8 list \<Rightarrow> u8 list list" where
  "path_elems pth = filter (\<lambda>e. e \<noteq> []) (split_slash pth)"

definition cname :: "u8 list \<Rightarrow> u8 list" where
  "cname name = takeWhile (\<lambda>c. c \<noteq> 0) (take DIRSIZ name)"

fun path_names :: "nat \<Rightarrow> u8 list \<Rightarrow> u8 list \<Rightarrow> u8 list list option" where
  "path_names 0 pth name = None"
| "path_names (Suc fuel) pth name =
     (case skipelem pth name of
        None \<Rightarrow> Some []
      | Some (rest, name) \<Rightarrow> map_option (\<lambda>es. cname name # es) (path_names fuel rest name))"

lemma split_slash_append: "slash \<notin> set e \<Longrightarrow> split_slash (e @ slash # cs) = e # split_slash cs"
  by (induction e) auto

lemma split_slash_elem: "slash \<notin> set e \<Longrightarrow> split_slash e = [e]"
  by (induction e) auto

lemma path_elems_slash [simp]: "path_elems (slash # cs) = path_elems cs"
  by (simp add: path_elems_def)

lemma path_elems_dropWhile: "path_elems (dropWhile (\<lambda>c. c = slash) pth) = path_elems pth"
  by (induction pth) (auto simp: path_elems_def)

lemma path_elems_step:
  assumes "p \<noteq> []" "hd p \<noteq> slash"
  shows "path_elems p = takeWhile (\<lambda>c. c \<noteq> slash) p # path_elems (dropWhile (\<lambda>c. c \<noteq> slash) p)"
proof -
  let ?e = "takeWhile (\<lambda>c. c \<noteq> slash) p" and ?r = "dropWhile (\<lambda>c. c \<noteq> slash) p"
  have ne: "?e \<noteq> []" using assms by (cases p) auto
  have s: "slash \<notin> set ?e" by (auto dest: set_takeWhileD)
  show ?thesis
  proof (cases ?r)
    case Nil
    then have "p = ?e" by (metis append_Nil2 takeWhile_dropWhile_id)
    then have "path_elems p = [?e]" using split_slash_elem [OF s] ne by (simp add: path_elems_def)
    moreover have "path_elems ?r = []" by (simp add: Nil path_elems_def)
    ultimately show ?thesis by simp
  next
    case (Cons c cs)
    then have "c = slash" using hd_dropWhile [of "\<lambda>c. c \<noteq> slash" p] by simp
    then have "p = ?e @ slash # cs" using Cons takeWhile_dropWhile_id [of "\<lambda>c. c \<noteq> slash" p] by (simp only:)
    then have "path_elems p = path_elems (?e @ slash # cs)" by (rule arg_cong)
    also have "\<dots> = ?e # path_elems cs" using split_slash_append [OF s, of cs] ne by (simp add: path_elems_def)
    finally show ?thesis using Cons \<open>c = slash\<close> by simp
  qed
qed

lemma cname_field:
  assumes "0 \<notin> set e" "length name = DIRSIZ"
  shows "cname (if length e \<ge> DIRSIZ then blit name 0 (take DIRSIZ e) else blit name 0 (e @ [0])) = take DIRSIZ e"
proof -
  have tw: "takeWhile (\<lambda>c. c \<noteq> 0) (take DIRSIZ e) = take DIRSIZ e"
    using assms(1) by (intro takeWhile_eq_all_conv [THEN iffD2]) (metis in_set_takeD)
  have e0: "takeWhile (\<lambda>c. c \<noteq> 0) (e @ 0 # xs) = e" for xs
    using assms(1) by (subst takeWhile_append2) auto
  show ?thesis
    using assms tw e0 by (auto simp: cname_def blit_def take_Cons' min_def not_le)
qed

lemma skipelem_cases:
  assumes "length name = DIRSIZ" "0 \<notin> set pth"
  shows "case skipelem pth name of
       None \<Rightarrow> path_elems pth = []
     | Some (rest, name') \<Rightarrow> \<exists>e. path_elems pth = e # path_elems rest \<and> cname name' = take DIRSIZ e \<and> length name' = DIRSIZ \<and>
         0 \<notin> set rest \<and> length rest < length pth"
proof -
  let ?p = "dropWhile (\<lambda>c. c = slash) pth"
  show ?thesis
  proof (cases "?p = []")
    case True
    have "path_elems [] = []" by (simp add: path_elems_def)
    then have "path_elems pth = []" using path_elems_dropWhile [of pth] True by simp
    then show ?thesis using True by (simp add: skipelem_def)
  next
    case False
    let ?e = "takeWhile (\<lambda>c. c \<noteq> slash) ?p" and ?r = "dropWhile (\<lambda>c. c \<noteq> slash) ?p"
    let ?q = "dropWhile (\<lambda>c. c = slash) ?r"
    have hd: "hd ?p \<noteq> slash" using False hd_dropWhile [of "\<lambda>c. c = slash" pth] by simp
    have el: "path_elems pth = ?e # path_elems ?q"
      using path_elems_step [OF False hd] path_elems_dropWhile [of pth] path_elems_dropWhile [of ?r] by simp
    have sub: "set ?p \<subseteq> set pth" by (auto dest: set_dropWhileD)
    have z: "0 \<notin> set ?e" "0 \<notin> set ?q" using assms(2) sub by (auto dest!: set_takeWhileD set_dropWhileD)
    have "length ?q \<le> length ?r" by (rule length_dropWhile_le)
    also have "length ?r < length ?p" using False hd by (cases ?p) (auto simp: le_imp_less_Suc length_dropWhile_le)
    also have "length ?p \<le> length pth" by (rule length_dropWhile_le)
    finally have "length ?q < length pth" .
    moreover have "length (if length ?e \<ge> DIRSIZ then blit name 0 (take DIRSIZ ?e) else blit name 0 (?e @ [0])) = DIRSIZ"
      using assms(1) by (auto simp: blit_def)
    ultimately show ?thesis
      using False el z cname_field [OF z(1) assms(1)] by (simp add: skipelem_def Let_def)
  qed
qed


section \<open>Directory entries\<close>

lemma strncmp_loop_zero:
  "strncmp_loop p q i n = 0 \<longleftrightarrow> (\<forall>k < n. (\<forall>j < k. p (i + j) \<noteq> 0) \<longrightarrow> p (i + k) = q (i + k))"
proof (induction n arbitrary: i)
  case 0
  then show ?case by simp
next
  case (Suc n)
  have split: "(\<forall>k < Suc n. (\<forall>j < k. p (i + j) \<noteq> 0) \<longrightarrow> p (i + k) = q (i + k)) \<longleftrightarrow>
      p i = q i \<and> (p i \<noteq> 0 \<longrightarrow> (\<forall>k < n. (\<forall>j < k. p (Suc i + j) \<noteq> 0) \<longrightarrow> p (Suc i + k) = q (Suc i + k)))"
    by (auto simp: All_less_Suc2)
  show ?case unfolding split using word_uint_eq_iff [of "p i" "q i"] by (auto simp: Suc.IH)
qed

lemma cbyte_zero: "0 \<notin> set xs \<Longrightarrow> cbyte xs k = 0 \<longleftrightarrow> length xs \<le> k"
  by (auto simp: cbyte_def) (metis nth_mem)

lemma of_nat_inj_u32: "a < 2 ^ 32 \<Longrightarrow> b < 2 ^ 32 \<Longrightarrow> (of_nat a :: u32) = of_nat b \<longleftrightarrow> a = b"
  by (auto dest!: arg_cong [of _ _ unat] simp: unat_of_nat)

lemma in_range_nat:
  assumes "i + n \<le> 2 ^ 32" "k < 2 ^ 32"
  shows "in_range (a + of_nat i) n (a + of_nat k) \<longleftrightarrow> i \<le> k \<and> k < i + n"
proof
  assume "in_range (a + of_nat i) n (a + of_nat k)"
  then obtain j where "j < n" "a + of_nat k = a + of_nat i + of_nat j" by (rule in_rangeE)
  then have "(of_nat k :: u32) = of_nat (i + j)" "j < n" by (simp_all add: add.assoc)
  then have "k = i + j" using of_nat_inj_u32 [of k "i + j"] assms by simp
  then show "i \<le> k \<and> k < i + n" using \<open>j < n\<close> by simp
next
  assume "i \<le> k \<and> k < i + n"
  then have "a + of_nat k = a + of_nat i + of_nat (k - i)" "k - i < n" by (auto simp: of_nat_diff)
  then show "in_range (a + of_nat i) n (a + of_nat k)" using in_range_offset [of "k - i" n "a + of_nat i"] assms by (simp add: add.assoc)
qed

lemma strncpy_bytes:
  assumes "\<And>j. j < 14 \<Longrightarrow> m (of_nat j) = cbyte name j" "0 \<notin> set name" "i + n = 14" "k < 14"
  shows "(case strncpy_copy m (0x1000 + of_nat i) (of_nat i) n of (m', s', n') \<Rightarrow> stosb m' s' 0 n') (0x1000 + of_nat k) =
     (if k < i then m (0x1000 + of_nat k) else cbyte name k)"
  using assms
proof (induction n arbitrary: m i)
  case 0
  then show ?case by simp
next
  case (Suc n)
  have i: "i < 14" using Suc.prems(3) by simp
  let ?c = "cbyte name i"
  let ?m = "m(0x1000 + of_nat i := ?c)"
  have c: "m (of_nat i) = ?c" by (rule Suc.prems(1) [OF i])
  have inj: "(0x1000 + of_nat a :: u32) = 0x1000 + of_nat b \<longleftrightarrow> a = b" if "a < 14" "b < 14" for a b
    using of_nat_inj_u32 [of a b] that by simp
  have dis: "(of_nat a :: u32) \<noteq> 0x1000 + of_nat b" if "a < 14" "b < 14" for a b
    using of_nat_inj_u32 [of a "0x1000 + b"] that by simp
  have m: "?m (of_nat j) = cbyte name j" if "j < 14" for j
    using that Suc.prems(1) [OF that] dis [OF that i] by simp
  show ?case
  proof (cases "?c = 0")
    case False
    have "(case strncpy_copy ?m (0x1000 + of_nat (Suc i)) (of_nat (Suc i)) n of (m', s', n') \<Rightarrow> stosb m' s' 0 n') (0x1000 + of_nat k) =
       (if k < Suc i then ?m (0x1000 + of_nat k) else cbyte name k)"
      by (rule Suc.IH) (use m Suc.prems in simp_all)
    then show ?thesis using False c inj [OF Suc.prems(4) i] by (auto simp: Let_def algebra_simps less_Suc_eq)
  next
    case True
    then have z: "cbyte name j = 0" if "i \<le> j" for j
      using that cbyte_zero [OF Suc.prems(2)] by (metis le_trans)
    have "in_range (0x1000 + of_nat (Suc i)) n (0x1000 + of_nat k) \<longleftrightarrow> Suc i \<le> k \<and> k < Suc i + n"
      by (rule in_range_nat) (use Suc.prems in simp_all)
    then have "stosb ?m (0x1000 + of_nat (Suc i)) 0 n (0x1000 + of_nat k) = (if k < i then m (0x1000 + of_nat k) else cbyte name k)"
      using Suc.prems(3,4) inj [OF Suc.prems(4) i] z [of k] True by (auto simp: stosb_apply)
    then show ?thesis using True c by (simp add: Let_def algebra_simps)
  qed
qed

lemma name_field_bytes:
  assumes "0 \<notin> set name"
  shows "name_field name = map (cbyte name) [0..<DIRSIZ]"
proof (rule nth_equalityI)
  fix k assume "k < length (name_field name)"
  then have k: "k < 14" by (simp add: name_field_def DIRSIZ_def)
  have "(case strncpy_copy (\<lambda>a. cbyte name (unat a)) (0x1000 + of_nat 0) (of_nat 0) 14 of (m', s', n') \<Rightarrow> stosb m' s' 0 n') (0x1000 + of_nat k) =
     (if k < 0 then cbyte name (unat (0x1000 + of_nat k :: u32)) else cbyte name k)"
    by (rule strncpy_bytes) (use assms k in \<open>simp_all add: unat_of_nat\<close>)
  then show "name_field name ! k = map (cbyte name) [0..<DIRSIZ] ! k"
    using k by (simp add: name_field_def DIRSIZ_def strncpy_def)
qed (simp add: name_field_def)

lemma cbyte_take_eq:
  assumes "0 \<notin> set xs" "0 \<notin> set ys"
  shows "(\<forall>k < n. (\<forall>j < k. cbyte xs j \<noteq> 0) \<longrightarrow> cbyte xs k = cbyte ys k) \<longleftrightarrow> take n xs = take n ys"
proof
  assume a: "\<forall>k < n. (\<forall>j < k. cbyte xs j \<noteq> 0) \<longrightarrow> cbyte xs k = cbyte ys k"
  have eq: "cbyte xs k = cbyte ys k" if "k < n" "k \<le> length xs" for k
    using a that cbyte_zero [OF assms(1)] by (metis leD less_le_trans)
  have len: "min n (length xs) = min n (length ys)"
  proof (cases "length xs < n")
    case True
    have "cbyte xs (length xs) = 0" using cbyte_zero [OF assms(1)] by simp
    then have "cbyte ys (length xs) = 0" using eq [of "length xs"] True by simp
    then have "length ys \<le> length xs" using cbyte_zero [OF assms(2)] by simp
    moreover have "\<not> length ys < length xs"
    proof
      assume l: "length ys < length xs"
      then have "cbyte xs (length ys) = 0" using eq [of "length ys"] True cbyte_zero [OF assms(2)] by simp
      then show False using l cbyte_zero [OF assms(1)] by simp
    qed
    ultimately show ?thesis by simp
  next
    case False
    have "\<not> length ys < n"
    proof
      assume l: "length ys < n"
      then have "cbyte xs (length ys) = 0" using eq [of "length ys"] False cbyte_zero [OF assms(2)] by simp
      then show False using l False cbyte_zero [OF assms(1)] by simp
    qed
    then show ?thesis using False by simp
  qed
  show "take n xs = take n ys"
  proof (rule nth_equalityI)
    show "length (take n xs) = length (take n ys)" using len by (simp add: min.commute)
    fix k assume "k < length (take n xs)"
    then have "k < n" "k < length xs" "k < length ys" using len by auto
    then show "take n xs ! k = take n ys ! k" using eq [of k] by (simp add: cbyte_def)
  qed
next
  assume t: "take n xs = take n ys"
  have "cbyte xs k = cbyte ys k" if "k < n" for k
  proof -
    have "length (take n xs) = length (take n ys)" using t by simp
    then have "k < length xs \<longleftrightarrow> k < length ys" using that by (auto simp: min_def split: if_splits)
    moreover have "take n xs ! k = take n ys ! k" using t by simp
    ultimately show ?thesis using that by (simp add: cbyte_def)
  qed
  then show "\<forall>k < n. (\<forall>j < k. cbyte xs j \<noteq> 0) \<longrightarrow> cbyte xs k = cbyte ys k" by simp
qed

text \<open>
  Directory entries. The entry \<open>dirlink\<close> writes for a name and an inode number is read back by \<open>dirlookup\<close>
  with the same inode number (as 16 bits), and its comparison finds it for a name exactly
  when the two names agree in their first 14 bytes.
\<close>

theorem dirent_round_trip:
  assumes "0 \<notin> set name" "0 \<notin> set other"
  shows "de_inum (enc16 (ucast inum) @ name_field name) = ucast (inum :: u32) \<and>
     length (enc16 (ucast inum) @ name_field name) = 16 \<and>
     (namecmp other (de_name (enc16 (ucast inum) @ name_field name)) = 0 \<longleftrightarrow> take 14 other = take 14 name)"
proof -
  have nf: "name_field name = map (cbyte name) [0..<14]" using name_field_bytes [OF assms(1)] by (simp add: DIRSIZ_def)
  have de: "de_name (enc16 (ucast inum) @ name_field name) = name_field name"
    by (simp add: de_name_def chunk_def nf DIRSIZ_def)
  have cb: "cbyte (name_field name) k = cbyte name k" if "k < 14" for k using that by (simp add: nf cbyte_def [of "map _ _"])
  have "namecmp other (name_field name) = 0 \<longleftrightarrow>
     (\<forall>k < 14. (\<forall>j < k. cbyte other j \<noteq> 0) \<longrightarrow> cbyte other k = cbyte (name_field name) k)"
    using strncmp_loop_zero [of "cbyte other" "cbyte (name_field name)" 0 14] by (simp add: namecmp_def strncmp_def DIRSIZ_def)
  also have "\<dots> \<longleftrightarrow> take 14 other = take 14 name"
    using cbyte_take_eq [OF assms(2,1), of 14] cb by simp
  finally show ?thesis using de by (simp add: nf de_inum_def get16_def chunk_def)
qed

theorem dirent_round_trip_witness:
  "namecmp [97, 98] (de_name (enc16 7 @ name_field [97, 98])) = 0 \<and> namecmp [97, 98] (de_name (enc16 7 @ name_field [97])) \<noteq> 0"
  using dirent_round_trip [of "[97, 98]" "[97, 98]" 7] dirent_round_trip [of "[97]" "[97, 98]" 7] by simp

end
