(* ===== verification/Ring.thy ===== *)
theory Ring
  imports Cstring
begin

text \<open>
  Bounded queues. The locale states what the users of a queue rely on: a put appends to the
  contents when there is room, a get takes the first element when there is one. From this it
  follows that any interleaving of puts and gets is first in, first out and loses nothing. The
  pipe is an instance. The second part is the arithmetic of rings with free-running indices, which the
  pipe and the console input share.
\<close>

locale bounded_queue =
  fixes put :: "'a \<Rightarrow> 's \<Rightarrow> 's"
    and peek :: "'s \<Rightarrow> 'a"
    and drop_one :: "'s \<Rightarrow> 's"
    and contents :: "'s \<Rightarrow> 'a list"
    and inv :: "'s \<Rightarrow> bool"
    and cap :: nat
  assumes put_contents: "inv s \<Longrightarrow> length (contents s) < cap \<Longrightarrow> contents (put x s) = contents s @ [x]"
    and put_inv: "inv s \<Longrightarrow> length (contents s) < cap \<Longrightarrow> inv (put x s)"
    and peek_contents: "inv s \<Longrightarrow> contents s \<noteq> [] \<Longrightarrow> peek s = hd (contents s)"
    and drop_contents: "inv s \<Longrightarrow> contents s \<noteq> [] \<Longrightarrow> contents (drop_one s) = tl (contents s)"
    and drop_inv: "inv s \<Longrightarrow> contents s \<noteq> [] \<Longrightarrow> inv (drop_one s)"
    and cap_bound: "inv s \<Longrightarrow> length (contents s) \<le> cap"
begin

text \<open>One step of a run: \<open>Inl x\<close> puts \<open>x\<close>, \<open>Inr y\<close> gets \<open>y\<close>.\<close>

inductive qstep :: "'s \<Rightarrow> 'a + 'a \<Rightarrow> 's \<Rightarrow> bool" where
  put: "length (contents s) < cap \<Longrightarrow> qstep s (Inl x) (put x s)"
| get: "contents s \<noteq> [] \<Longrightarrow> qstep s (Inr (peek s)) (drop_one s)"

inductive qrun :: "'s \<Rightarrow> ('a + 'a) list \<Rightarrow> 's \<Rightarrow> bool" where
  stop: "qrun s [] s"
| step: "qstep s l t \<Longrightarrow> qrun t ls u \<Longrightarrow> qrun s (l # ls) u"

definition ins :: "('a + 'a) list \<Rightarrow> 'a list" where
  "ins ls = concat (map (\<lambda>l. case l of Inl x \<Rightarrow> [x] | Inr _ \<Rightarrow> []) ls)"

definition outs :: "('a + 'a) list \<Rightarrow> 'a list" where
  "outs ls = concat (map (\<lambda>l. case l of Inl _ \<Rightarrow> [] | Inr y \<Rightarrow> [y]) ls)"

lemma qstep_inv: "qstep s l t \<Longrightarrow> inv s \<Longrightarrow> inv t"
  by (induction rule: qstep.induct) (simp_all add: put_inv drop_inv)

lemma fifo:
  assumes "qrun s ls t" "inv s"
  shows "contents s @ ins ls = outs ls @ contents t" "inv t"
proof -
  from assms have "contents s @ ins ls = outs ls @ contents t \<and> inv t"
  proof (induction rule: qrun.induct)
    case (stop s)
    then show ?case by (simp add: ins_def outs_def)
  next
    case (step s l t ls u)
    have i: "inv t" by (rule qstep_inv [OF step.hyps(1) step.prems])
    with step.IH have u: "contents t @ ins ls = outs ls @ contents u" "inv u" by auto
    from step.hyps(1) show ?case
    proof cases
      case (put x)
      then show ?thesis using u put_contents [OF step.prems, of x] by (simp add: ins_def outs_def)
    next
      case get
      then have "contents s = peek s # contents t"
        using peek_contents [OF step.prems] drop_contents [OF step.prems] by simp
      then show ?thesis using u get by (simp add: ins_def outs_def)
    qed
  qed
  then show "contents s @ ins ls = outs ls @ contents t" "inv t" by auto
qed

lemma fold_put:
  assumes "inv s" "length (contents s) + length xs \<le> cap"
  shows "contents (fold put xs s) = contents s @ xs" "inv (fold put xs s)"
proof -
  have "contents (fold put xs s) = contents s @ xs \<and> inv (fold put xs s)" using assms
    by (induction xs arbitrary: s) (simp_all add: put_contents put_inv)
  then show "contents (fold put xs s) = contents s @ xs" "inv (fold put xs s)" by auto
qed

end

section \<open>Rings with free-running indices\<close>

text \<open>
  The bytes between the read index and the write index of a ring of \<open>2 ^ k\<close> bytes. The indices are
  32 bit counters that wrap around; the ring's size divides \<open>2 ^ 32\<close>, so positions are consistent.
\<close>

definition ring_bytes :: "nat \<Rightarrow> 'a list \<Rightarrow> u32 \<Rightarrow> u32 \<Rightarrow> 'a list" where
  "ring_bytes k d r w = map (\<lambda>j. d ! (unat (r + of_nat j) mod 2 ^ k)) [0..<unat (w - r)]"

lemma length_ring_bytes [simp]: "length (ring_bytes k d r w) = unat (w - r)"
  by (simp add: ring_bytes_def)

lemma unat_sub_one: "w \<noteq> r \<Longrightarrow> unat (w - (r + 1) :: u32) = unat (w - r) - 1"
  using unat_minus_one [of "w - r"] by (simp add: algebra_simps)

lemma unat_sub_suc: "unat (w - r :: u32) < 2 ^ 32 - 1 \<Longrightarrow> unat (w + 1 - r) = unat (w - r) + 1"
proof -
  assume "unat (w - r) < 2 ^ 32 - 1"
  moreover have "w + 1 - r = (w - r) + 1" by simp
  ultimately show ?thesis by (simp only: unat_word_ariths) simp
qed

lemma mod_shift_inj:
  assumes "(a + i) mod n = (a + j) mod (n :: nat)" "i < n" "j < n"
  shows "i = j"
proof -
  have "int (a + i) mod int n = int (a + j) mod int n" using assms(1) by (metis of_nat_mod)
  then have d: "int n dvd int i - int j" by (simp add: mod_eq_dvd_iff)
  have "\<bar>int i - int j\<bar> < int n" using assms(2,3) by linarith
  then show ?thesis using d dvd_imp_le_int [of "int i - int j" "int n"] by fastforce
qed

lemma ring_pos:
  assumes "k \<le> 32" "j < 2 ^ k" "i < 2 ^ k" "i \<noteq> j"
  shows "unat (r + of_nat j :: u32) mod 2 ^ k \<noteq> unat (r + of_nat i) mod 2 ^ k"
proof -
  have le: "(2 :: nat) ^ k \<le> 2 ^ 32" using assms(1) by (intro power_increasing) auto
  have d: "(2 :: nat) ^ k dvd 2 ^ 32" using assms(1) by (intro le_imp_power_dvd)
  have u: "unat (r + of_nat n :: u32) mod 2 ^ k = (unat r + n) mod 2 ^ k" if "n < 2 ^ k" for n
  proof -
    have "unat (r + of_nat n :: u32) = (unat r + n) mod 2 ^ 32"
      using that le by (simp add: unat_word_ariths unat_of_nat)
    then show ?thesis using d by (simp add: mod_mod_cancel)
  qed
  then show ?thesis using mod_shift_inj [of "unat r" i "2 ^ k" j] assms(2-4) u [OF assms(2)] u [OF assms(3)] by metis
qed

lemma ring_bytes_push:
  assumes k: "k < 32" and len: "length d = 2 ^ k" and room: "unat (w - r) < 2 ^ k"
  shows "ring_bytes k (d[unat w mod 2 ^ k := c]) r (w + 1) = ring_bytes k d r w @ [c]"
proof -
  let ?n = "unat (w - r)"
  have le: "(2 :: nat) ^ k \<le> 2 ^ 31" using k by (intro power_increasing) auto
  have n: "unat (w + 1 - r) = Suc ?n" using room le by (subst unat_sub_suc) auto
  have w: "r + of_nat ?n = w" by simp
  have "d[unat w mod 2 ^ k := c] ! (unat (r + of_nat j) mod 2 ^ k) = d ! (unat (r + of_nat j) mod 2 ^ k)" if "j < ?n" for j
    using ring_pos [of k j ?n r] that room k unfolding w by (subst nth_list_update_neq) auto
  moreover have "d[unat w mod 2 ^ k := c] ! (unat (r + of_nat ?n) mod 2 ^ k) = c"
    unfolding w using len by simp
  ultimately show ?thesis unfolding ring_bytes_def n by simp
qed

lemma ring_bytes_pop:
  assumes "w \<noteq> r"
  shows "ring_bytes k d r w = d ! (unat r mod 2 ^ k) # ring_bytes k d (r + 1) w"
proof -
  have "0 < unat (w - r)" using assms by (simp add: unat_gt_0)
  then obtain n where n: "unat (w - r) = Suc n" using gr0_implies_Suc by blast
  then have "unat (w - (r + 1)) = n" using unat_sub_one [OF assms] by simp
  moreover have "map (\<lambda>j. d ! (unat (r + of_nat j) mod 2 ^ k)) [Suc 0..<Suc n] =
      map (\<lambda>j. d ! (unat (r + 1 + of_nat j) mod 2 ^ k)) [0..<n]"
    by (rule nth_equalityI) (simp_all add: add.assoc del: upt_Suc)
  ultimately show ?thesis unfolding ring_bytes_def n by (simp add: upt_conv_Cons del: upt_Suc)
qed

lemma ring_bytes_empty: "ring_bytes k d r w = [] \<longleftrightarrow> r = w"
  by (auto simp: ring_bytes_def unat_eq_0)

end
