(* ===== verification/File.thy ===== *)
theory File
  imports Paths Ring
begin

text \<open>
  Pipes, \<open>pipe.c\<close>, and the table of open files, \<open>file.c\<close>. The pipe in the page at address \<open>p\<close> is the
  record \<open>pipes s p\<close>; its page comes from \<open>kalloc\<close> and goes back with \<open>kfree\<close>. A pointer to an open
  file is an index into \<open>ftable.file\<close>. The bytes of a transfer are passed by value, as in
  \<open>readi\<close> and \<open>writei\<close>.
\<close>

section \<open>State\<close>

definition PIPESIZE :: nat where "PIPESIZE = 512"

definition NFILE :: nat where "NFILE = 100"

record pipe =
  pi_data :: "u8 list"
  pi_nread :: u32
  pi_nwrite :: u32
  pi_readopen :: bool
  pi_writeopen :: bool

datatype fdtype = FD_NONE | FD_PIPE | FD_INODE

record file_rec =
  f_type :: fdtype
  f_ref :: u32
  f_readable :: bool
  f_writable :: bool
  f_pipe :: u32
  f_ip :: "nat option"
  f_off :: u32

record file_st = cin_st +
  files :: "file_rec list"
  pipes :: "u32 \<Rightarrow> pipe"

definition upd_file :: "nat \<Rightarrow> (file_rec \<Rightarrow> file_rec) \<Rightarrow> 'x file_st_scheme \<Rightarrow> 'x file_st_scheme" where
  "upd_file i f s = s\<lparr>files := (files s)[i := f (files s ! i)]\<rparr>"

definition upd_pipe :: "u32 \<Rightarrow> (pipe \<Rightarrow> pipe) \<Rightarrow> 'x file_st_scheme \<Rightarrow> 'x file_st_scheme" where
  "upd_pipe p f s = s\<lparr>pipes := (pipes s)(p := f (pipes s p))\<rparr>"

section \<open>Pipes\<close>

definition pipe_push :: "u8 \<Rightarrow> pipe \<Rightarrow> pipe" where
  "pipe_push c p = p\<lparr>pi_data := (pi_data p)[unat (pi_nwrite p) mod PIPESIZE := c], pi_nwrite := pi_nwrite p + 1\<rparr>"

definition pipe_front :: "pipe \<Rightarrow> u8" where
  "pipe_front p = pi_data p ! (unat (pi_nread p) mod PIPESIZE)"

definition pipe_pop :: "pipe \<Rightarrow> pipe" where
  "pipe_pop p = p\<lparr>pi_nread := pi_nread p + 1\<rparr>"

definition pipeclose :: "u32 \<Rightarrow> bool \<Rightarrow> ('x file_st_scheme, unit) prog" where
  "pipeclose p writable =
     seqM (acquire (L_pipe p)) (
     seqM (if writable then
             seqM (modS (upd_pipe p (\<lambda>q. q\<lparr>pi_writeopen := False\<rparr>))) (wakeup (C_pipe_nread p))
           else
             seqM (modS (upd_pipe p (\<lambda>q. q\<lparr>pi_readopen := False\<rparr>))) (wakeup (C_pipe_nwrite p))) (
     bindM (getS (\<lambda>s. \<not> pi_readopen (pipes s p) \<and> \<not> pi_writeopen (pipes s p))) (\<lambda>gone.
     if gone then seqM (release (L_pipe p)) (kfree p)
     else release (L_pipe p))))"

definition killed :: "('x proc_st_scheme, bool) prog" where
  "killed = bindM curproc (\<lambda>p. getS (\<lambda>s. p_killed (ptable s ! p) \<noteq> 0))"

text \<open>
  The loop of \<open>pipewrite\<close> with the bytes still to be written; it runs with the pipe's lock held
  and is entered again, with the same bytes, after each sleep.
\<close>

fun pipewrite_loop :: "u32 \<Rightarrow> int \<Rightarrow> u8 list \<Rightarrow> ('x file_st_scheme, int) prog" where
  "pipewrite_loop p n [] =
     seqM (wakeup (C_pipe_nread p)) (
     seqM (release (L_pipe p))
     (ret n))"
| "pipewrite_loop p n (c # cs) =
     bindM (getS (\<lambda>s. pi_nwrite (pipes s p) = pi_nread (pipes s p) + 512)) (\<lambda>full.
     if full then
       bindM (getS (\<lambda>s. pi_readopen (pipes s p))) (\<lambda>ro.
       bindM (if \<not> ro then ret True else killed) (\<lambda>stop.
       if stop then seqM (release (L_pipe p)) (ret (-1))
       else seqM (wakeup (C_pipe_nread p)) (sleep (C_pipe_nwrite p) (L_pipe p))))
     else
       seqM (modS (upd_pipe p (pipe_push c)))
       (pipewrite_loop p n cs))"

definition pipewrite :: "u32 \<Rightarrow> u8 list \<Rightarrow> int \<Rightarrow> ('x file_st_scheme, int) prog" where
  "pipewrite p addr n =
     seqM (acquire (L_pipe p))
     (pipewrite_loop p n (take (nat n) addr))"

fun piperead_copy :: "nat \<Rightarrow> u32 \<Rightarrow> u8 list \<Rightarrow> ('x file_st_scheme, int \<times> u8 list) prog" where
  "piperead_copy 0 p acc =
     seqM (wakeup (C_pipe_nwrite p)) (
     seqM (release (L_pipe p))
     (ret (int (length acc), acc)))"
| "piperead_copy (Suc n) p acc =
     bindM (getS (\<lambda>s. pi_nread (pipes s p) = pi_nwrite (pipes s p))) (\<lambda>empty.
     if empty then piperead_copy 0 p acc
     else bindM (getS (\<lambda>s. pipe_front (pipes s p))) (\<lambda>c.
     seqM (modS (upd_pipe p pipe_pop))
     (piperead_copy n p (acc @ [c]))))"

definition piperead_retry :: "u32 \<Rightarrow> int \<Rightarrow> ('x file_st_scheme, int \<times> u8 list) prog" where
  "piperead_retry p n =
     bindM (getS (\<lambda>s. pi_nread (pipes s p) = pi_nwrite (pipes s p) \<and> pi_writeopen (pipes s p))) (\<lambda>wait.
     if wait then
       bindM killed (\<lambda>k.
       if k then seqM (release (L_pipe p)) (ret (-1, []))
       else sleep (C_pipe_nread p) (L_pipe p))
     else piperead_copy (nat n) p [])"

definition piperead :: "u32 \<Rightarrow> int \<Rightarrow> ('x file_st_scheme, int \<times> u8 list) prog" where
  "piperead p n =
     seqM (acquire (L_pipe p))
     (piperead_retry p n)"

section \<open>Open files\<close>

definition fileinit :: "('x file_st_scheme, unit) prog" where
  "fileinit = initlock L_ftable ''ftable''"

definition filealloc :: "('x file_st_scheme, nat option) prog" where
  "filealloc =
     seqM (acquire L_ftable) (
     bindM (getS (\<lambda>s. first_idx (\<lambda>f. f_ref f = 0) (files s))) (\<lambda>r.
     case r of
       Some i \<Rightarrow>
         seqM (modS (upd_file i (\<lambda>f. f\<lparr>f_ref := 1\<rparr>))) (
         seqM (release L_ftable)
         (ret (Some i)))
     | None \<Rightarrow> seqM (release L_ftable) (ret None)))"

definition filedup :: "nat \<Rightarrow> ('x file_st_scheme, nat) prog" where
  "filedup f =
     seqM (acquire L_ftable) (
     bindM (getS (\<lambda>s. sint (f_ref (files s ! f)) < 1)) (\<lambda>bad.
     if bad then panic ''filedup''
     else seqM (modS (upd_file f (\<lambda>x. x\<lparr>f_ref := f_ref x + 1\<rparr>))) (
     seqM (release L_ftable)
     (ret f))))"

definition iput_null :: "nat option \<Rightarrow> ('x fs_st_scheme, unit) prog" where
  "iput_null ip = (case ip of None \<Rightarrow> undef ''null pointer'' | Some i \<Rightarrow> iput i)"

definition fileclose :: "nat \<Rightarrow> ('x file_st_scheme, unit) prog" where
  "fileclose f =
     seqM (acquire L_ftable) (
     bindM (getS (\<lambda>s. sint (f_ref (files s ! f)) < 1)) (\<lambda>bad.
     if bad then panic ''fileclose''
     else seqM (modS (upd_file f (\<lambda>x. x\<lparr>f_ref := f_ref x - 1\<rparr>))) (
     bindM (getS (\<lambda>s. files s ! f)) (\<lambda>ff.
     if sint (f_ref ff) > 0 then release L_ftable
     else seqM (modS (upd_file f (\<lambda>x. x\<lparr>f_ref := 0, f_type := FD_NONE\<rparr>))) (
     seqM (release L_ftable) (
     case f_type ff of
       FD_PIPE \<Rightarrow> pipeclose (f_pipe ff) (f_writable ff)
     | FD_INODE \<Rightarrow> seqM begin_op (seqM (iput_null (f_ip ff)) end_op)
     | FD_NONE \<Rightarrow> ret ()))))))"

definition pipe_file :: "bool \<Rightarrow> u32 \<Rightarrow> file_rec \<Rightarrow> file_rec" where
  "pipe_file writable p f = f\<lparr>f_type := FD_PIPE, f_readable := \<not> writable, f_writable := writable, f_pipe := p\<rparr>"

definition close_opt :: "nat option \<Rightarrow> ('x file_st_scheme, unit) prog" where
  "close_opt f = (case f of None \<Rightarrow> ret () | Some i \<Rightarrow> fileclose i)"

text \<open>\<open>pipealloc\<close> returns the two files, or \<open>None\<close> for its result \<open>-1\<close>.\<close>

definition pipealloc :: "('x file_st_scheme, (nat \<times> nat) option) prog" where
  "pipealloc =
     bindM filealloc (\<lambda>f0.
     case f0 of
       None \<Rightarrow> ret None
     | Some r \<Rightarrow>
         bindM filealloc (\<lambda>f1.
         case f1 of
           None \<Rightarrow> seqM (fileclose r) (ret None)
         | Some w \<Rightarrow>
             bindM kalloc (\<lambda>p.
             if p = 0 then seqM (fileclose r) (seqM (fileclose w) (ret None))
             else
               seqM (modS (upd_pipe p (\<lambda>q. q\<lparr>pi_readopen := True, pi_writeopen := True, pi_nwrite := 0, pi_nread := 0\<rparr>))) (
               seqM (initlock (L_pipe p) ''pipe'') (
               seqM (modS (upd_file r (pipe_file False p))) (
               seqM (modS (upd_file w (pipe_file True p)))
               (ret (Some (r, w)))))))))"

definition filestat :: "nat \<Rightarrow> ('x file_st_scheme, stat option) prog" where
  "filestat f =
     bindM (getS (\<lambda>s. files s ! f)) (\<lambda>ff.
     case f_type ff of
       FD_INODE \<Rightarrow>
         (case f_ip ff of
            None \<Rightarrow> panic ''ilock''
          | Some i \<Rightarrow>
              seqM (ilock (Some i)) (
              bindM (getS (stati i)) (\<lambda>st.
              seqM (iunlock (Some i))
              (ret (Some st)))))
     | _ \<Rightarrow> ret None)"

definition fileread :: "nat \<Rightarrow> int \<Rightarrow> ('x file_st_scheme, int \<times> u8 list) prog" where
  "fileread f n =
     bindM (getS (\<lambda>s. files s ! f)) (\<lambda>ff.
     if \<not> f_readable ff then ret (-1, [])
     else case f_type ff of
       FD_PIPE \<Rightarrow> piperead (f_pipe ff) n
     | FD_INODE \<Rightarrow>
         (case f_ip ff of
            None \<Rightarrow> panic ''ilock''
          | Some i \<Rightarrow>
              seqM (ilock (Some i)) (
              bindM (getS (\<lambda>s. f_off (files s ! f))) (\<lambda>off.
              bindM (readi i off (word_of_int n)) (\<lambda>r.
              seqM (whenM (fst r > 0) (modS (upd_file f (\<lambda>x. x\<lparr>f_off := f_off x + word_of_int (fst r)\<rparr>)))) (
              seqM (iunlock (Some i))
              (ret r))))))
     | FD_NONE \<Rightarrow> panic ''fileread'')"

definition write_max :: int where
  "write_max = ((10 - 1 - 1 - 2) div 2) * 512"

fun filewrite_loop :: "nat \<Rightarrow> nat \<Rightarrow> nat \<Rightarrow> u8 list \<Rightarrow> int \<Rightarrow> int \<Rightarrow> ('x file_st_scheme, int) prog" where
  "filewrite_loop 0 f i addr n i0 = nofuel"
| "filewrite_loop (Suc fuel) f i addr n i0 =
     (if \<not> i0 < n then ret i0
      else let n1 = min (n - i0) write_max in
      seqM begin_op (
      seqM (ilock (Some i)) (
      bindM (getS (\<lambda>s. f_off (files s ! f))) (\<lambda>off.
      bindM (writei i (drop (nat i0) addr) off (word_of_int n1)) (\<lambda>r.
      seqM (whenM (r > 0) (modS (upd_file f (\<lambda>x. x\<lparr>f_off := f_off x + word_of_int r\<rparr>)))) (
      seqM (iunlock (Some i)) (
      seqM end_op (
      if r < 0 then ret i0
      else if r \<noteq> n1 then panic ''short filewrite''
      else filewrite_loop fuel f i addr n (i0 + r)))))))))"

definition filewrite :: "nat \<Rightarrow> u8 list \<Rightarrow> int \<Rightarrow> ('x file_st_scheme, int) prog" where
  "filewrite f addr n =
     bindM (getS (\<lambda>s. files s ! f)) (\<lambda>ff.
     if \<not> f_writable ff then ret (-1)
     else case f_type ff of
       FD_PIPE \<Rightarrow> pipewrite (f_pipe ff) addr n
     | FD_INODE \<Rightarrow>
         (case f_ip ff of
            None \<Rightarrow> if n > 0 then seqM begin_op (panic ''ilock'') else ret (if n = 0 then 0 else -1)
          | Some i \<Rightarrow>
              bindM (filewrite_loop (nat n + 1) f i addr n 0) (\<lambda>i.
              ret (if i = n then n else -1)))
     | FD_NONE \<Rightarrow> panic ''filewrite'')"

section \<open>A pipe is a bounded queue\<close>

definition pipe_wf :: "pipe \<Rightarrow> bool" where
  "pipe_wf p \<longleftrightarrow> length (pi_data p) = PIPESIZE \<and> unat (pi_nwrite p - pi_nread p) \<le> PIPESIZE"

definition pipe_bytes :: "pipe \<Rightarrow> u8 list" where
  "pipe_bytes p = ring_bytes 9 (pi_data p) (pi_nread p) (pi_nwrite p)"

lemma length_pipe_bytes: "length (pipe_bytes p) = unat (pi_nwrite p - pi_nread p)"
  by (simp add: pipe_bytes_def)

lemma pipe_push_bytes:
  assumes "pipe_wf p" "length (pipe_bytes p) < PIPESIZE"
  shows "pipe_bytes (pipe_push c p) = pipe_bytes p @ [c]"
  using assms ring_bytes_push [of 9 "pi_data p" "pi_nwrite p" "pi_nread p" c]
  by (simp add: pipe_wf_def pipe_bytes_def pipe_push_def PIPESIZE_def)

lemma pipe_push_wf:
  assumes "pipe_wf p" "length (pipe_bytes p) < PIPESIZE"
  shows "pipe_wf (pipe_push c p)"
  using assms unat_sub_suc [of "pi_nwrite p" "pi_nread p"]
  by (simp add: pipe_wf_def pipe_bytes_def pipe_push_def PIPESIZE_def)

lemma pipe_pop_bytes:
  assumes "pipe_bytes p \<noteq> []"
  shows "pipe_bytes p = pipe_front p # pipe_bytes (pipe_pop p)"
  using assms ring_bytes_pop [of "pi_nwrite p" "pi_nread p" 9 "pi_data p"]
  by (auto simp: pipe_bytes_def ring_bytes_empty pipe_front_def pipe_pop_def PIPESIZE_def)

lemma pipe_pop_wf:
  assumes "pipe_wf p" "pipe_bytes p \<noteq> []"
  shows "pipe_wf (pipe_pop p)"
  using assms unat_sub_one [of "pi_nwrite p" "pi_nread p"]
  by (auto simp: pipe_wf_def pipe_bytes_def pipe_pop_def ring_bytes_empty)

interpretation pipe_queue: bounded_queue pipe_push pipe_front pipe_pop pipe_bytes pipe_wf PIPESIZE
proof
  fix p c
  show "pipe_wf p \<Longrightarrow> length (pipe_bytes p) < PIPESIZE \<Longrightarrow> pipe_bytes (pipe_push c p) = pipe_bytes p @ [c]"
    by (rule pipe_push_bytes)
  show "pipe_wf p \<Longrightarrow> length (pipe_bytes p) < PIPESIZE \<Longrightarrow> pipe_wf (pipe_push c p)"
    by (rule pipe_push_wf)
  show "pipe_bytes p \<noteq> [] \<Longrightarrow> pipe_front p = hd (pipe_bytes p)"
    using pipe_pop_bytes [of p] by simp
  show "pipe_bytes p \<noteq> [] \<Longrightarrow> pipe_bytes (pipe_pop p) = tl (pipe_bytes p)"
    using pipe_pop_bytes [of p] by simp
  show "pipe_wf p \<Longrightarrow> pipe_bytes p \<noteq> [] \<Longrightarrow> pipe_wf (pipe_pop p)"
    by (rule pipe_pop_wf)
  show "pipe_wf p \<Longrightarrow> length (pipe_bytes p) \<le> PIPESIZE"
    by (simp add: pipe_wf_def length_pipe_bytes)
qed

lemma pipe_full_iff:
  "pipe_wf p \<Longrightarrow> pi_nwrite p = pi_nread p + 512 \<longleftrightarrow> length (pipe_bytes p) = PIPESIZE"
proof -
  have "pi_nwrite p = pi_nread p + 512 \<longleftrightarrow> pi_nwrite p - pi_nread p = 512" by (auto simp: algebra_simps)
  also have "\<dots> \<longleftrightarrow> unat (pi_nwrite p - pi_nread p) = 512" by (simp add: word_unat_eq_iff)
  finally show ?thesis by (simp add: length_pipe_bytes PIPESIZE_def)
qed

lemma pipe_empty_iff: "pi_nread p = pi_nwrite p \<longleftrightarrow> pipe_bytes p = []"
  by (simp add: pipe_bytes_def ring_bytes_empty)

lemma file_frame [simp]:
  "pipes (acq l s) = pipes s" "pipes (rel l s) = pipes s" "pipes (pushpop s) = pipes s" "pipes (woken ch s) = pipes s"
  "files (acq l s) = files s" "files (rel l s) = files s" "files (pushpop s) = files s" "files (woken ch s) = files s"
  by (simp_all add: effect_defs pushpop_def woken_def)

lemma file_frame_slept [simp]: "pipes (slept i ch l s) = pipes s" "files (slept i ch l s) = files s"
  by (simp_all add: slept_def upd_proc_def)

lemma upd_pipe_sel [simp]:
  "pipes (upd_pipe p f s) = (pipes s)(p := f (pipes s p))" "files (upd_pipe p f s) = files s"
  "ptable (upd_pipe p f s) = ptable s" "lockset S (upd_pipe p f s) = lockset S s"
  "upd_pipe p g (upd_pipe p f s) = upd_pipe p (g \<circ> f) s"
  "cpus (upd_pipe p f s) = cpus s" "curcpu (upd_pipe p f s) = curcpu s"
  by (simp_all add: upd_pipe_def lockset_def cpu_found_def curcpu_def)

lemma wakeup_wp [wp_intro]:
  assumes "lockset S s" "L_ptable \<notin> S" "card S < 1000"
    and "lockset S (woken ch s) \<Longrightarrow> Q () (woken ch s)"
  shows "wp (wakeup ch) Q s"
  using assms(4) lockset_woken [OF assms(1-3)] by (simp add: wp_def wakeup_ok [OF assms(1-3)])

text \<open>
  What writing and reading do to the contents. \<open>pipe_ready S p s\<close>: the caller holds the locks \<open>S\<close>,
  neither the pipe's lock nor the process table's among them, and the pipe is well formed.
\<close>

definition pipe_ready :: "lockid set \<Rightarrow> u32 \<Rightarrow> 'x file_st_scheme \<Rightarrow> bool" where
  "pipe_ready S p s \<longleftrightarrow> lockset S s \<and> L_pipe p \<notin> S \<and> L_ptable \<notin> S \<and> card S < 900 \<and> pipe_wf (pipes s p)"

definition pipe_moves :: "u32 \<Rightarrow> u8 list \<Rightarrow> 'x file_st_scheme \<Rightarrow> 'x file_st_scheme \<Rightarrow> bool" where
  "pipe_moves p q s t \<longleftrightarrow>
     pipe_wf (pipes t p) \<and> pipe_bytes (pipes t p) = q \<and>
     pi_readopen (pipes t p) = pi_readopen (pipes s p) \<and> pi_writeopen (pipes t p) = pi_writeopen (pipes s p) \<and>
     (\<forall>r. r \<noteq> p \<longrightarrow> pipes t r = pipes s r) \<and> files t = files s"

lemma pipe_fold_open [simp]:
  "pi_readopen (fold pipe_push cs q) = pi_readopen q" "pi_writeopen (fold pipe_push cs q) = pi_writeopen q"
  by (induction cs arbitrary: q) (simp_all add: pipe_push_def)

lemma pipe_pop_open [simp]:
  "pi_readopen (pipe_pop q) = pi_readopen q" "pi_writeopen (pipe_pop q) = pi_writeopen q"
  by (simp_all add: pipe_pop_def)

lemma wake_release_wp:
  assumes "lockset (insert l S) s" "l \<notin> S" "L_ptable \<notin> insert l S" "card S < 900"
    and "lockset S (rel l (woken ch s)) \<Longrightarrow> Q r (rel l (woken ch s))"
  shows "wp (seqM (wakeup ch) (seqM (release l) (ret r))) Q s"
proof -
  have c: "card (insert l S) < 1000" using assms(2,4) locksetD(2) [OF assms(1)] by simp
  have eq: "insert l S - {l} = S" using assms(2) by simp
  have w: "lockset (insert l S) (woken ch s)" by (rule lockset_woken [OF assms(1,3) c])
  have "lockset S (rel l (woken ch s))" using lockset_rel [OF w, of l] eq by simp
  then show ?thesis
    using assms(5) wakeup_ok [OF assms(1,3) c] release_ok [OF w, of l] by (simp add: wp_def M_defs)
qed

lemma pipewrite_loop_wp:
  assumes "lockset (insert (L_pipe p) S) s" "L_pipe p \<notin> S" "L_ptable \<notin> S" "card S < 900"
    and "pipe_wf (pipes s p)" "length (pipe_bytes (pipes s p)) + length cs \<le> PIPESIZE"
  shows "wp (pipewrite_loop p n cs)
     (\<lambda>r t. r = n \<and> lockset S t \<and> pipes t = (pipes s)(p := fold pipe_push cs (pipes s p)) \<and> files t = files s) s"
  using assms
proof (induction cs arbitrary: s)
  case Nil
  show ?case
    unfolding pipewrite_loop.simps by (rule wake_release_wp [of _ S]) (use Nil.prems in simp_all)
next
  case (Cons c cs)
  let ?s = "upd_pipe p (pipe_push c) s"
  have lt: "length (pipe_bytes (pipes s p)) < PIPESIZE" using Cons.prems(6) by simp
  have "\<not> pi_nwrite (pipes s p) = pi_nread (pipes s p) + 512"
    using pipe_full_iff [OF Cons.prems(5)] lt by simp
  moreover have "wp (pipewrite_loop p n cs)
     (\<lambda>r t. r = n \<and> lockset S t \<and> pipes t = (pipes ?s)(p := fold pipe_push cs (pipes ?s p)) \<and> files t = files ?s) ?s"
    using Cons.prems lt pipe_push_bytes [OF Cons.prems(5) lt] pipe_push_wf [OF Cons.prems(5) lt]
    by (intro Cons.IH) simp_all
  ultimately show ?case by (simp add: fun_upd_def cong: if_cong)
qed

lemma pipewrite_wp:
  assumes "pipe_ready S p s" "0 \<le> n" "length (pipe_bytes (pipes s p)) + length (take (nat n) bs) \<le> PIPESIZE"
  shows "wp (pipewrite p bs n) (\<lambda>r t. r = n \<and> pipe_ready S p t \<and>
     pipe_moves p (pipe_bytes (pipes s p) @ take (nat n) bs) s t) s"
proof -
  note a = assms(1) [unfolded pipe_ready_def]
  note f = pipe_queue.fold_put [of "pipes s p" "take (nat n) bs"]
  have "wp (pipewrite p bs n) (\<lambda>r t. r = n \<and> lockset S t \<and>
     pipes t = (pipes s)(p := fold pipe_push (take (nat n) bs) (pipes s p)) \<and> files t = files s) s"
    unfolding pipewrite_def
    by (simp, rule acquire_wp [of S], use a in simp, use a in simp, use a in simp,
        rule wp_mono, rule pipewrite_loop_wp, assumption) (use a assms in simp_all)
  then show ?thesis
    by (rule wp_mono) (use a assms(3) f in \<open>auto simp: pipe_ready_def pipe_moves_def\<close>)
qed

lemma piperead_copy_wp:
  assumes "lockset (insert (L_pipe p) S) s" "L_pipe p \<notin> S" "L_ptable \<notin> S" "card S < 900" "pipe_wf (pipes s p)"
  shows "wp (piperead_copy n p acc)
     (\<lambda>(k, bs) t. k = int (length bs) \<and> bs = acc @ take n (pipe_bytes (pipes s p)) \<and> lockset S t \<and>
        pipe_moves p (drop n (pipe_bytes (pipes s p))) s t) s"
  using assms
proof (induction n arbitrary: s acc)
  case 0
  show ?case
    unfolding piperead_copy.simps
    by (rule wake_release_wp [of _ S]) (use 0 in \<open>simp_all add: pipe_moves_def\<close>)
next
  case (Suc n)
  show ?case
  proof (cases "pipe_bytes (pipes s p) = []")
    case True
    have "wp (piperead_copy 0 p acc) (\<lambda>(k, bs) t. k = int (length bs) \<and> bs = acc \<and> lockset S t \<and> pipe_moves p [] s t) s"
      unfolding piperead_copy.simps
      by (rule wake_release_wp [of _ S]) (use Suc.prems True in \<open>simp_all add: pipe_moves_def\<close>)
    then show ?thesis by (simp add: pipe_empty_iff True del: piperead_copy.simps(1))
  next
    case False
    let ?s = "upd_pipe p pipe_pop s"
    have cons: "pipe_bytes (pipes s p) = pipe_front (pipes s p) # pipe_bytes (pipe_pop (pipes s p))"
      by (rule pipe_pop_bytes [OF False])
    have "wp (piperead_copy n p (acc @ [pipe_front (pipes s p)]))
     (\<lambda>(k, bs) t. k = int (length bs) \<and> bs = (acc @ [pipe_front (pipes s p)]) @ take n (pipe_bytes (pipes ?s p)) \<and>
        lockset S t \<and> pipe_moves p (drop n (pipe_bytes (pipes ?s p))) ?s t) ?s"
      using Suc.prems pipe_pop_wf [OF Suc.prems(5) False] by (intro Suc.IH) simp_all
    then have "wp (piperead_copy n p (acc @ [pipe_front (pipes s p)]))
     (\<lambda>(k, bs) t. k = int (length bs) \<and> bs = acc @ take (Suc n) (pipe_bytes (pipes s p)) \<and>
        lockset S t \<and> pipe_moves p (drop (Suc n) (pipe_bytes (pipes s p))) s t) ?s"
      by (rule wp_mono) (clarsimp simp: cons pipe_moves_def)
    then show ?thesis by (simp add: pipe_empty_iff False)
  qed
qed

lemma piperead_wp:
  assumes "pipe_ready S p s" "0 \<le> n" "pipe_bytes (pipes s p) \<noteq> [] \<or> \<not> pi_writeopen (pipes s p)"
  shows "wp (piperead p n) (\<lambda>r t. r = (int (min (nat n) (length (pipe_bytes (pipes s p)))), take (nat n) (pipe_bytes (pipes s p))) \<and>
     pipe_ready S p t \<and> pipe_moves p (drop (nat n) (pipe_bytes (pipes s p))) s t) s"
proof -
  note a = assms(1) [unfolded pipe_ready_def]
  let ?s = "acq (L_pipe p) s"
  have l: "lockset (insert (L_pipe p) S) ?s" using a by (intro lockset_acq) simp_all
  have "wp (piperead_copy (nat n) p []) (\<lambda>(k, bs) t. k = int (length bs) \<and> bs = [] @ take (nat n) (pipe_bytes (pipes ?s p)) \<and> lockset S t \<and>
        pipe_moves p (drop (nat n) (pipe_bytes (pipes ?s p))) ?s t) ?s"
    using a l by (intro piperead_copy_wp) simp_all
  then have "wp (piperead_copy (nat n) p []) (\<lambda>r t. r = (int (min (nat n) (length (pipe_bytes (pipes s p)))), take (nat n) (pipe_bytes (pipes s p))) \<and>
     pipe_ready S p t \<and> pipe_moves p (drop (nat n) (pipe_bytes (pipes s p))) s t) ?s"
    by (rule wp_mono) (use a in \<open>auto simp: pipe_ready_def pipe_moves_def min.commute\<close>)
  then show ?thesis
    using acquire_ok [of S s "L_pipe p"] a assms(3)
    by (auto simp: piperead_def piperead_retry_def pipe_empty_iff wp_iff seqM_def bindM_def getS_def)
qed

text \<open>A write that does not fit stores what fits, wakes the readers and sleeps on \<open>nwrite\<close>; with no reader left it fails.\<close>

lemma pipewrite_loop_full:
  assumes "pipe_wf (pipes s p)" "length (pipe_bytes (pipes s p)) + length as = PIPESIZE"
  shows "pipewrite_loop p n (as @ c # cs) s =
     pipewrite_loop p n (c # cs) (upd_pipe p (fold pipe_push as) s)"
  using assms
proof (induction as arbitrary: s)
  case Nil
  have "upd_pipe p (\<lambda>x. x) s = s" by (simp add: upd_pipe_def)
  then show ?case by (simp add: id_def)
next
  case (Cons a as)
  have lt: "length (pipe_bytes (pipes s p)) < PIPESIZE" using Cons.prems by simp
  have "\<not> pi_nwrite (pipes s p) = pi_nread (pipes s p) + 512" using pipe_full_iff [OF Cons.prems(1)] lt by simp
  then have "pipewrite_loop p n ((a # as) @ c # cs) s = pipewrite_loop p n (as @ c # cs) (upd_pipe p (pipe_push a) s)"
    by (simp add: M_defs)
  also have "\<dots> = pipewrite_loop p n (c # cs) (upd_pipe p (fold pipe_push as) (upd_pipe p (pipe_push a) s))"
    using Cons.prems lt pipe_push_bytes [OF Cons.prems(1) lt] pipe_push_wf [OF Cons.prems(1) lt]
    by (intro Cons.IH) simp_all
  finally show ?case by (simp only: upd_pipe_sel(5) fold.simps(2))
qed

lemma pipewrite_fills:
  assumes "pipe_ready S p s" "PIPESIZE < length (pipe_bytes (pipes s p)) + length (take (nat n) bs)"
  defines "as \<equiv> take (PIPESIZE - length (pipe_bytes (pipes s p))) (take (nat n) bs)"
  defines "u \<equiv> upd_pipe p (fold pipe_push as) (acq (L_pipe p) s)"
  shows "\<exists>c cs. pipewrite p bs n s = pipewrite_loop p n (c # cs) u"
    and "lockset (insert (L_pipe p) S) u"
    and "pi_nwrite (pipes u p) = pi_nread (pipes u p) + 512"
    and "pipe_bytes (pipes u p) = pipe_bytes (pipes s p) @ as"
proof -
  note a = assms(1) [unfolded pipe_ready_def]
  let ?q = "pipes s p" and ?k = "PIPESIZE - length (pipe_bytes (pipes s p))"
  have le: "length (pipe_bytes ?q) \<le> PIPESIZE" using a by (simp add: pipe_wf_def length_pipe_bytes)
  have len: "length (pipe_bytes ?q) + length as = PIPESIZE" using assms(2) le by (simp add: as_def)
  obtain c cs where c: "drop ?k (take (nat n) bs) = c # cs"
    using assms(2) le by (cases "drop ?k (take (nat n) bs)") auto
  have split: "take (nat n) bs = as @ c # cs" unfolding c [symmetric] as_def by (rule append_take_drop_id [symmetric])
  note f = pipe_queue.fold_put [of ?q as]
  show "pi_nwrite (pipes u p) = pi_nread (pipes u p) + 512"
    using f a len pipe_full_iff [of "fold pipe_push as ?q"] by (simp add: u_def)
  show "lockset (insert (L_pipe p) S) u" using a lockset_acq [of S s "L_pipe p"] by (simp add: u_def)
  show "pipe_bytes (pipes u p) = pipe_bytes ?q @ as" using f a len by (simp add: u_def)
  have "pipewrite p bs n s = pipewrite_loop p n (as @ c # cs) (acq (L_pipe p) s)"
    unfolding split [symmetric] using acquire_ok [of S s "L_pipe p"] a by (simp add: pipewrite_def M_defs)
  also have "\<dots> = pipewrite_loop p n (c # cs) u"
    unfolding u_def using a len by (intro pipewrite_loop_full) simp_all
  finally show "\<exists>c cs. pipewrite p bs n s = pipewrite_loop p n (c # cs) u" by blast
qed

lemma killed_ok:
  "lockset S s \<Longrightarrow> S \<noteq> {} \<Longrightarrow> c_proc (mycpu_of s) = Some me \<Longrightarrow> killed s = Ok (p_killed (ptable s ! me) \<noteq> 0) s"
  using pushpop_held [of S s] by (simp add: killed_def M_defs curproc_ok)

text \<open>
  A \<open>pipewrite\<close> that does not fit into the pipe. When the read end is closed or the writer has been killed
  it gives up the pipe's lock and returns -1. Otherwise it has stored exactly the bytes that fit,
  so that the pipe is full, and the process sleeps on \<open>nwrite\<close> with the pipe's lock released, so that
  a reader can make room.
\<close>

theorem pipewrite_too_long:
  assumes "pipe_ready {} p s" "c_proc (mycpu_of s) = Some me" "me < length (ptable s)"
    and "PIPESIZE < length (pipe_bytes (pipes s p)) + length (take (nat n) bs)"
  shows "if \<not> pi_readopen (pipes s p) \<or> p_killed (ptable s ! me) \<noteq> 0
     then \<exists>t. pipewrite p bs n s = Ok (-1) t \<and> lockset {} t
     else \<exists>t. pipewrite p bs n s = Wait Switched t \<and> lockset {L_ptable} t \<and>
       pipe_bytes (pipes t p) = pipe_bytes (pipes s p) @ take (PIPESIZE - length (pipe_bytes (pipes s p))) bs \<and>
       length (pipe_bytes (pipes t p)) = PIPESIZE \<and>
       p_state (ptable t ! me) = SLEEPING \<and> p_chan (ptable t ! me) = C_pipe_nwrite p"
proof -
  let ?as = "take (PIPESIZE - length (pipe_bytes (pipes s p))) (take (nat n) bs)"
  let ?u = "upd_pipe p (fold pipe_push ?as) (acq (L_pipe p) s)"
  note f = pipewrite_fills [OF assms(1,4)]
  have l: "lockset {L_pipe p} ?u" using f(2) by simp
  have me: "c_proc (mycpu_of ?u) = Some me" using assms(2) by simp
  have ro: "pi_readopen (pipes ?u p) = pi_readopen (pipes s p)" by simp
  obtain c cs where c: "pipewrite p bs n s = pipewrite_loop p n (c # cs) ?u" using f(1) by blast
  show ?thesis
  proof (cases "\<not> pi_readopen (pipes s p) \<or> p_killed (ptable s ! me) \<noteq> 0")
    case True
    have "pipewrite p bs n s = seqM (release (L_pipe p)) (ret (-1)) ?u"
      unfolding c using f(3) ro killed_ok [OF l _ me] True by (auto simp: M_defs)
    then show ?thesis using True release_ok [OF l] lockset_rel [OF l, of "L_pipe p"] by (simp add: M_defs)
  next
    case False
    let ?w = "woken (C_pipe_nread p) ?u"
    have w: "lockset {L_pipe p} ?w" by (rule lockset_woken [OF l]) simp_all
    have "pipewrite p bs n s = seqM (wakeup (C_pipe_nread p)) (sleep (C_pipe_nwrite p) (L_pipe p)) ?u"
      unfolding c using f(3) ro killed_ok [OF l _ me] False by (simp add: M_defs)
    also have "\<dots> = sleep (C_pipe_nwrite p) (L_pipe p) ?w" using wakeup_ok [OF l] by (simp add: M_defs)
    also have "\<dots> = Wait Switched (slept me (C_pipe_nwrite p) (L_pipe p) ?w)"
      by (rule sleep_ok [OF w]) (use me assms(3) in simp_all)
    finally have r: "pipewrite p bs n s = Wait Switched (slept me (C_pipe_nwrite p) (L_pipe p) ?w)" .
    have len: "length (pipe_bytes (pipes ?u p)) = PIPESIZE"
      using f(4) assms(4) pipe_queue.cap_bound [of "pipes s p"] assms(1) by (simp add: pipe_ready_def)
    have tk: "?as = take (PIPESIZE - length (pipe_bytes (pipes s p))) bs" using assms(4) by (simp add: min_def split: if_splits)
    have "p_state (ptable (slept me (C_pipe_nwrite p) (L_pipe p) ?w) ! me) = SLEEPING"
      "p_chan (ptable (slept me (C_pipe_nwrite p) (L_pipe p) ?w) ! me) = C_pipe_nwrite p"
      using assms(3) by (simp_all add: slept_def account_run_def)
    then show ?thesis using False r lockset_slept [OF w] f(4) len unfolding tk by auto
  qed
qed

section \<open>A run of reads and writes\<close>

text \<open>
  The abstract channel: a queue of at most \<open>PIPESIZE\<close> bytes. \<open>None\<close> is an operation that would block.
\<close>

datatype chan_op = Send "u8 list" | Recv nat

fun chan_step :: "chan_op \<Rightarrow> u8 list \<Rightarrow> (u8 list \<times> u8 list) option" where
  "chan_step (Send bs) q = (if length q + length bs \<le> PIPESIZE then Some ([], q @ bs) else None)"
| "chan_step (Recv n) q = (if q = [] then None else Some (take n q, drop n q))"

fun chan_run :: "chan_op list \<Rightarrow> u8 list \<Rightarrow> (u8 list \<times> u8 list) option" where
  "chan_run [] q = Some ([], q)"
| "chan_run (op # ops) q =
     (case chan_step op q of
        None \<Rightarrow> None
      | Some (out, q') \<Rightarrow> map_option (\<lambda>(outs, q''). (out @ outs, q'')) (chan_run ops q'))"

fun pipe_op :: "u32 \<Rightarrow> chan_op \<Rightarrow> ('x file_st_scheme, u8 list) prog" where
  "pipe_op p (Send bs) = seqM (pipewrite p bs (int (length bs))) (ret [])"
| "pipe_op p (Recv n) = bindM (piperead p (int n)) (\<lambda>r. ret (snd r))"

fun pipe_run :: "u32 \<Rightarrow> chan_op list \<Rightarrow> ('x file_st_scheme, u8 list) prog" where
  "pipe_run p [] = ret []"
| "pipe_run p (op # ops) = bindM (pipe_op p op) (\<lambda>a. bindM (pipe_run p ops) (\<lambda>b. ret (a @ b)))"

lemma pipe_op_wp:
  assumes "pipe_ready S p s" "chan_step op (pipe_bytes (pipes s p)) = Some (out, q)"
  shows "wp (pipe_op p op) (\<lambda>r t. r = out \<and> pipe_ready S p t \<and> pipe_bytes (pipes t p) = q) s"
proof (cases op)
  case (Send bs)
  with assms(2) have "length (pipe_bytes (pipes s p)) + length bs \<le> PIPESIZE" "out = []" "q = pipe_bytes (pipes s p) @ bs"
    by (auto split: if_splits)
  then show ?thesis unfolding Send
    by (simp, intro wp_mono [OF pipewrite_wp [OF assms(1)]]) (auto simp: pipe_moves_def)
next
  case (Recv n)
  with assms(2) have "pipe_bytes (pipes s p) \<noteq> []" "out = take n (pipe_bytes (pipes s p))" "q = drop n (pipe_bytes (pipes s p))"
    by (auto split: if_splits)
  then show ?thesis unfolding Recv
    by (simp, intro wp_mono [OF piperead_wp [OF assms(1)]]) (auto simp: pipe_moves_def)
qed


section \<open>The life of a pipe\<close>

definition pipe_closed :: "u32 \<Rightarrow> bool \<Rightarrow> 'x file_st_scheme \<Rightarrow> 'x file_st_scheme" where
  "pipe_closed p w s =
     rel (L_pipe p) (woken (if w then C_pipe_nread p else C_pipe_nwrite p)
       (upd_pipe p (if w then (\<lambda>q. q\<lparr>pi_writeopen := False\<rparr>) else (\<lambda>q. q\<lparr>pi_readopen := False\<rparr>)) (acq (L_pipe p) s)))"

lemma pipeclose_ok:
  assumes "lockset S s" "L_pipe p \<notin> S" "L_ptable \<notin> S" "card S < 900" "L_kmem \<notin> S" "valid_page (kend s) p"
  shows "pipeclose p w s =
      (if (if w then \<not> pi_readopen (pipes s p) else \<not> pi_writeopen (pipes s p))
       then Ok () (kfreed p (pipe_closed p w s)) else Ok () (pipe_closed p w s))"
    and "lockset S (pipe_closed p w s)"
proof -
  let ?f = "if w then (\<lambda>q. q\<lparr>pi_writeopen := False\<rparr>) else (\<lambda>q. q\<lparr>pi_readopen := False\<rparr>)"
  let ?u = "upd_pipe p ?f (acq (L_pipe p) s)"
  let ?ch = "if w then C_pipe_nread p else C_pipe_nwrite p"
  have a: "acquire (L_pipe p) s = Ok () (acq (L_pipe p) s)" by (rule acquire_ok [OF assms(1,2)])
  have u: "lockset (insert (L_pipe p) S) ?u" using lockset_acq [OF assms(1,2)] assms(4) by simp
  have c: "card (insert (L_pipe p) S) < 1000" using assms(2,4) locksetD(2) [OF assms(1)] by simp
  have n: "L_ptable \<notin> insert (L_pipe p) S" using assms(3) by simp
  have w: "wakeup ?ch ?u = Ok () (woken ?ch ?u)" "lockset (insert (L_pipe p) S) (woken ?ch ?u)"
    by (rule wakeup_ok [OF u n c], rule lockset_woken [OF u n c])
  have r: "release (L_pipe p) (woken ?ch ?u) = Ok () (pipe_closed p w s)"
    using release_ok [OF w(2), of "L_pipe p"] by (simp add: pipe_closed_def)
  show l: "lockset S (pipe_closed p w s)"
    using lockset_rel [OF w(2), of "L_pipe p"] assms(2) by (simp add: pipe_closed_def)
  have "kend (pipe_closed p w s) = kend s" by (simp add: pipe_closed_def upd_pipe_def)
  then have k: "kfree p (pipe_closed p w s) = Ok () (kfreed p (pipe_closed p w s))"
    using kfree_ok [OF l assms(5)] assms(4,6) by simp
  show "pipeclose p w s =
      (if (if w then \<not> pi_readopen (pipes s p) else \<not> pi_writeopen (pipes s p))
       then Ok () (kfreed p (pipe_closed p w s)) else Ok () (pipe_closed p w s))"
    using a w(1) r k by (cases w) (auto simp: pipeclose_def M_defs)
qed

lemma upd_file_sel [simp]:
  "files (upd_file i f s) = (files s)[i := f (files s ! i)]" "pipes (upd_file i f s) = pipes s"
  "lockset S (upd_file i f s) = lockset S s" "kend (upd_file i f s) = kend s"
  "free_pages ps (upd_file i f s) = free_pages ps s"
  by (simp_all add: upd_file_def lockset_def cpu_found_def curcpu_def free_pages_def)

lemma free_pages_file [simp]:
  "kend (upd_pipe p f s) = kend s" "free_pages ps (upd_pipe p f s) = free_pages ps s"
  "free_pages ps (woken ch s) = free_pages ps s"
  "free_pages ps (pipe_closed p w s) = free_pages ps s" "kend (pipe_closed p w s) = kend s"
  by (simp_all add: upd_pipe_def free_pages_def pipe_closed_def)

lemma file_frame_kmem [simp]:
  "files (kalloced s) = files s" "pipes (kalloced s) = pipes s" "files (kfreed v s) = files s" "pipes (kfreed v s) = pipes s"
  by (simp_all add: kmem_effect_defs effect_defs Let_def)

lemma pipe_closed_sel [simp]:
  "files (pipe_closed p w s) = files s"
  "pipes (pipe_closed p w s) =
     (pipes s)(p := (if w then (pipes s p)\<lparr>pi_writeopen := False\<rparr> else (pipes s p)\<lparr>pi_readopen := False\<rparr>))"
  by (simp_all add: pipe_closed_def)

text \<open>\<open>in_ftable f s\<close>: the state after \<open>f\<close> has been applied under the lock of the file table.\<close>

definition in_ftable :: "('x file_st_scheme \<Rightarrow> 'x file_st_scheme) \<Rightarrow> 'x file_st_scheme \<Rightarrow> 'x file_st_scheme" where
  "in_ftable f s = rel L_ftable (f (acq L_ftable s))"

lemma lockset_in_ftable:
  assumes "lockset S s" "L_ftable \<notin> S" "card S < 1000" "\<And>u. lockset (insert L_ftable S) u \<Longrightarrow> lockset (insert L_ftable S) (f u)"
  shows "lockset S (in_ftable f s)" "release L_ftable (f (acq L_ftable s)) = Ok () (in_ftable f s)"
proof -
  have l: "lockset (insert L_ftable S) (f (acq L_ftable s))" by (rule assms(4) [OF lockset_acq [OF assms(1-3)]])
  show "lockset S (in_ftable f s)" using lockset_rel [OF l, of L_ftable] assms(2) by (simp add: in_ftable_def)
  show "release L_ftable (f (acq L_ftable s)) = Ok () (in_ftable f s)"
    using release_ok [OF l, of L_ftable] by (simp add: in_ftable_def)
qed

lemma filealloc_ok:
  assumes "lockset S s" "L_ftable \<notin> S" "card S < 1000"
  shows "filealloc s =
     (case first_idx (\<lambda>f. f_ref f = 0) (files s) of
        Some i \<Rightarrow> Ok (Some i) (in_ftable (upd_file i (\<lambda>f. f\<lparr>f_ref := 1\<rparr>)) s)
      | None \<Rightarrow> Ok None (in_ftable (\<lambda>u. u) s))"
proof -
  have "release L_ftable (upd_file i g (acq L_ftable s)) = Ok () (in_ftable (upd_file i g) s)" for i g
    by (rule lockset_in_ftable(2) [OF assms]) simp
  moreover have "release L_ftable (acq L_ftable s) = Ok () (in_ftable (\<lambda>u. u) s)"
    by (rule lockset_in_ftable(2) [OF assms, of "\<lambda>u. u"]) simp
  ultimately show ?thesis
    using acquire_ok [OF assms(1,2)] by (simp add: filealloc_def M_defs split: option.split)
qed

lemma filedup_ok:
  assumes "lockset S s" "L_ftable \<notin> S" "card S < 1000" "1 \<le> sint (f_ref (files s ! f))"
  shows "filedup f s = Ok f (in_ftable (upd_file f (\<lambda>x. x\<lparr>f_ref := f_ref x + 1\<rparr>)) s)"
proof -
  have "release L_ftable (upd_file f g (acq L_ftable s)) = Ok () (in_ftable (upd_file f g) s)" for g
    by (rule lockset_in_ftable(2) [OF assms(1-3)]) simp
  then show ?thesis using acquire_ok [OF assms(1,2)] assms(4) by (simp add: filedup_def M_defs)
qed

lemma upd_file_twice [simp]: "f < length (files s) \<Longrightarrow> upd_file f g (upd_file f h s) = upd_file f (g \<circ> h) s"
  by (simp add: upd_file_def)

text \<open>Closing one of several references only counts down; closing the last one closes the end of the pipe.\<close>

lemma fileclose_shared:
  assumes "lockset S s" "L_ftable \<notin> S" "card S < 1000" "f < length (files s)" "1 < sint (f_ref (files s ! f))"
  shows "fileclose f s = Ok () (in_ftable (upd_file f (\<lambda>x. x\<lparr>f_ref := f_ref x - 1\<rparr>)) s)"
proof -
  have r: "release L_ftable (upd_file f g (acq L_ftable s)) = Ok () (in_ftable (upd_file f g) s)" for g
    by (rule lockset_in_ftable(2) [OF assms(1-3)]) simp
  have "sint (f_ref (files s ! f) - 1) = sint (f_ref (files s ! f)) - 1"
    using assms(5) sint_less [of "f_ref (files s ! f)"] by (simp add: sint_word_ariths signed_take_bit_int_eq_self)
  then show ?thesis using acquire_ok [OF assms(1,2)] assms(4,5) r by (simp add: fileclose_def M_defs)
qed

lemma fileclose_last:
  assumes "lockset S s" "L_ftable \<notin> S" "card S < 1000" "f < length (files s)"
    and "f_ref (files s ! f) = 1" "f_type (files s ! f) = FD_PIPE"
  shows "fileclose f s = pipeclose (f_pipe (files s ! f)) (f_writable (files s ! f))
     (in_ftable (upd_file f (\<lambda>x. x\<lparr>f_ref := 0, f_type := FD_NONE\<rparr>)) s)"
proof -
  have r: "release L_ftable (upd_file f g (acq L_ftable s)) = Ok () (in_ftable (upd_file f g) s)" for g
    by (rule lockset_in_ftable(2) [OF assms(1-3)]) simp
  have g: "(\<lambda>x. x\<lparr>f_ref := 0, f_type := FD_NONE\<rparr>) \<circ> (\<lambda>x. x\<lparr>f_ref := f_ref x - 1\<rparr>) = (\<lambda>x. x\<lparr>f_ref := 0, f_type := FD_NONE\<rparr>)"
    by (auto simp: fun_eq_iff)
  show ?thesis using acquire_ok [OF assms(1,2)] assms(4-6) r by (simp add: fileclose_def M_defs g)
qed

lemma initlock_pipe:
  assumes "lockset S s" "l \<notin> S"
  shows "\<exists>lk. initlock l nm s = Ok () (upd_lock l lk s) \<and> lockset S (upd_lock l lk s)"
  using assms by (auto simp: initlock_def modS_def lockset_def split: if_splits)

lemma upd_lock_file [simp]:
  "files (upd_lock l f s) = files s" "pipes (upd_lock l f s) = pipes s" "kend (upd_lock l f s) = kend s"
  "free_pages ps (upd_lock l f s) = free_pages ps s"
  by (simp_all add: upd_lock_def free_pages_def)

lemma in_ftable_sel [simp]:
  "files (in_ftable (upd_file i f) s) = (files s)[i := f (files s ! i)]" "pipes (in_ftable (upd_file i f) s) = pipes s"
  "kend (in_ftable (upd_file i f) s) = kend s" "free_pages ps (in_ftable (upd_file i f) s) = free_pages ps s"
  by (simp_all add: in_ftable_def)

lemma pipealloc_ok:
  assumes "lockset {} s" "free_pages (pg # ps) s" "length (pi_data (pipes s pg)) = PIPESIZE"
    and "first_idx (\<lambda>f. f_ref f = 0) (files s) = Some r"
    and "first_idx (\<lambda>f. f_ref f = 0) ((files s)[r := (files s ! r)\<lparr>f_ref := 1\<rparr>]) = Some w"
  shows "\<exists>t. pipealloc s = Ok (Some (r, w)) t \<and> lockset {} t \<and> free_pages ps t \<and> kend t = kend s \<and>
     files t = (files s)[r := pipe_file False pg ((files s ! r)\<lparr>f_ref := 1\<rparr>), w := pipe_file True pg ((files s ! w)\<lparr>f_ref := 1\<rparr>)] \<and>
     pipe_ready {} pg t \<and> pipe_bytes (pipes t pg) = [] \<and> pi_readopen (pipes t pg) \<and> pi_writeopen (pipes t pg)"
proof -
  let ?s1 = "in_ftable (upd_file r (\<lambda>f. f\<lparr>f_ref := 1\<rparr>)) s"
  let ?s2 = "in_ftable (upd_file w (\<lambda>f. f\<lparr>f_ref := 1\<rparr>)) ?s1"
  let ?init = "\<lambda>q. q\<lparr>pi_readopen := True, pi_writeopen := True, pi_nwrite := 0, pi_nread := 0\<rparr>"
  let ?s3 = "upd_pipe pg ?init (kalloced ?s2)"
  have rw: "r < length (files s)" "w < length (files s)" "w \<noteq> r"
    using first_idx_SomeD [OF assms(4)] first_idx_SomeD [OF assms(5)] by auto
  have l1: "lockset {} ?s1" by (rule lockset_in_ftable(1)) (use assms(1) in simp_all)
  have l2: "lockset {} ?s2" by (rule lockset_in_ftable(1)) (use l1 in simp_all)
  have l3: "lockset {} ?s3" using lockset_kalloced [OF l2] by simp
  obtain lk where k: "initlock (L_pipe pg) ''pipe'' ?s3 = Ok () (upd_lock (L_pipe pg) lk ?s3)"
    "lockset {} (upd_lock (L_pipe pg) lk ?s3)" using initlock_pipe [OF l3, of "L_pipe pg" "''pipe''"] by auto
  let ?t = "upd_file w (pipe_file True pg) (upd_file r (pipe_file False pg) (upd_lock (L_pipe pg) lk ?s3))"
  have pg: "freelist ?s2 = pg" "pg \<noteq> 0" using assms(2) by (auto simp: free_pages_def in_ftable_def upd_file_def)
  have "pipealloc s = Ok (Some (r, w)) ?t"
    using filealloc_ok [OF assms(1)] filealloc_ok [OF l1] assms(4,5) kalloc_ok [OF l2] pg k(1)
    by (simp add: pipealloc_def M_defs)
  moreover have "free_pages ps ?t" using free_pages_kalloced [of pg ps ?s2] assms(2) by simp
  moreover have "kend ?t = kend s" by simp
  moreover have "files ?t = (files s)[r := pipe_file False pg ((files s ! r)\<lparr>f_ref := 1\<rparr>), w := pipe_file True pg ((files s ! w)\<lparr>f_ref := 1\<rparr>)]"
    using rw by (simp add: list_update_swap [of w r])
  moreover have "lockset {} ?t" using k(2) by simp
  moreover have "pipe_ready {} pg ?t" using \<open>lockset {} ?t\<close> assms(3) by (simp add: pipe_ready_def pipe_wf_def)
  moreover have "pipe_bytes (pipes ?t pg) = []" by (simp add: pipe_bytes_def ring_bytes_def)
  ultimately show ?thesis by (intro exI [of _ ?t]) simp
qed

lemma closes_pipe_end:
  assumes "lockset {} s" "f < length (files s)" "f_ref (files s ! f) = 1" "f_type (files s ! f) = FD_PIPE" "f_pipe (files s ! f) = pg"
    and "valid_page (kend s) pg" "free_pages ps s" "pg \<notin> set ps"
  shows "\<exists>t. fileclose f s = Ok () t \<and> lockset {} t \<and> kend t = kend s \<and>
     files t = (files s)[f := (files s ! f)\<lparr>f_ref := 0, f_type := FD_NONE\<rparr>] \<and>
     pi_readopen (pipes t pg) = (f_writable (files s ! f) \<and> pi_readopen (pipes s pg)) \<and>
     pi_writeopen (pipes t pg) = (\<not> f_writable (files s ! f) \<and> pi_writeopen (pipes s pg)) \<and>
     free_pages (if pi_readopen (pipes t pg) \<or> pi_writeopen (pipes t pg) then ps else pg # ps) t"
proof -
  let ?w = "f_writable (files s ! f)"
  let ?s = "in_ftable (upd_file f (\<lambda>x. x\<lparr>f_ref := 0, f_type := FD_NONE\<rparr>)) s"
  have l: "lockset {} ?s" by (rule lockset_in_ftable(1)) (use assms(1) in simp_all)
  have e: "fileclose f s = pipeclose pg ?w ?s" using fileclose_last [OF assms(1) _ _ assms(2-4)] assms(5) by simp
  have v: "valid_page (kend ?s) pg" using assms(6) by simp
  note p = pipeclose_ok [OF l _ _ _ _ v, of ?w]
  have f: "free_pages (pg # ps) (kfreed pg (pipe_closed pg ?w ?s))"
    by (rule free_pages_kfreed) (use assms(6-8) in simp_all)
  have lk: "lockset {} (kfreed pg (pipe_closed pg ?w ?s))" by (rule lockset_kfreed [OF p(2)]) simp_all
  show ?thesis using p f lk e assms(7) by auto
qed

text \<open>
  C31: The life of a pipe. With two free entries in the file table and a free page, \<open>pipealloc\<close>
  returns a readable and a writable file for an empty pipe in that page. Closing the two files,
  in either order, frees the page exactly once, with the second close, and leaves both entries free again.
\<close>

theorem pipe_lifecycle:
  assumes "lockset {} s" "free_pages (pg # ps) s" "length (pi_data (pipes s pg)) = PIPESIZE"
    and "first_idx (\<lambda>f. f_ref f = 0) (files s) = Some r"
    and "first_idx (\<lambda>f. f_ref f = 0) ((files s)[r := (files s ! r)\<lparr>f_ref := 1\<rparr>]) = Some w"
  shows "\<exists>t. pipealloc s = Ok (Some (r, w)) t \<and> free_pages ps t \<and> pipe_ready {} pg t \<and> pipe_bytes (pipes t pg) = [] \<and>
     f_readable (files t ! r) \<and> \<not> f_writable (files t ! r) \<and> f_writable (files t ! w) \<and> \<not> f_readable (files t ! w) \<and>
     (\<forall>a b. (a, b) \<in> {(r, w), (w, r)} \<longrightarrow>
       (\<exists>u v. fileclose a t = Ok () u \<and> free_pages ps u \<and>
          fileclose b u = Ok () v \<and> free_pages (pg # ps) v \<and> f_ref (files v ! a) = 0 \<and> f_ref (files v ! b) = 0))"
proof -
  have rw: "r < length (files s)" "w < length (files s)" "w \<noteq> r"
    using first_idx_SomeD [OF assms(4)] first_idx_SomeD [OF assms(5)] by auto
  have vp: "valid_page (kend s) pg" "pg \<notin> set ps" using assms(2) by (simp_all add: free_pages_def)
  obtain t where t: "pipealloc s = Ok (Some (r, w)) t" "lockset {} t" "free_pages ps t" "kend t = kend s"
    "files t = (files s)[r := pipe_file False pg ((files s ! r)\<lparr>f_ref := 1\<rparr>), w := pipe_file True pg ((files s ! w)\<lparr>f_ref := 1\<rparr>)]"
    "pipe_ready {} pg t" "pipe_bytes (pipes t pg) = []" "pi_readopen (pipes t pg)" "pi_writeopen (pipes t pg)"
    using pipealloc_ok [OF assms] by blast
  have fr: "files t ! r = pipe_file False pg ((files s ! r)\<lparr>f_ref := 1\<rparr>)"
    and fw: "files t ! w = pipe_file True pg ((files s ! w)\<lparr>f_ref := 1\<rparr>)" and ln: "length (files t) = length (files s)"
    using rw by (simp_all add: t(5))
  have "\<exists>u v. fileclose a t = Ok () u \<and> free_pages ps u \<and>
          fileclose b u = Ok () v \<and> free_pages (pg # ps) v \<and> f_ref (files v ! a) = 0 \<and> f_ref (files v ! b) = 0"
    if "(a, b) \<in> {(r, w), (w, r)}" for a b
  proof -
    have ab: "a < length (files t)" "b < length (files t)" "a \<noteq> b"
      "f_ref (files t ! a) = 1" "f_type (files t ! a) = FD_PIPE" "f_pipe (files t ! a) = pg"
      "f_ref (files t ! b) = 1" "f_type (files t ! b) = FD_PIPE" "f_pipe (files t ! b) = pg"
      "f_writable (files t ! a) \<noteq> f_writable (files t ! b)"
      using that rw ln by (auto simp: fr fw pipe_file_def)
    from closes_pipe_end [OF t(2) ab(1,4,5,6) _ t(3) vp(2)] vp(1) t(4,8,9) obtain u where
      u: "fileclose a t = Ok () u" "lockset {} u" "kend u = kend s"
      "files u = (files t)[a := (files t ! a)\<lparr>f_ref := 0, f_type := FD_NONE\<rparr>]"
      "pi_readopen (pipes u pg) = f_writable (files t ! a)" "pi_writeopen (pipes u pg) = (\<not> f_writable (files t ! a))"
      "free_pages ps u" by (auto split: if_splits)
    have "files u ! b = files t ! b" "b < length (files u)" using ab(2,3) by (simp_all add: u(4))
    with closes_pipe_end [OF u(2) _ _ _ _ _ u(7) vp(2), of b] ab vp(1) u(3,5,6) obtain v where
      v: "fileclose b u = Ok () v" "files v = (files u)[b := (files u ! b)\<lparr>f_ref := 0, f_type := FD_NONE\<rparr>]" "free_pages (pg # ps) v"
      by (auto split: if_splits)
    then show ?thesis using u(1,7) ab(1-3) by (auto simp: u(4))
  qed
  then show ?thesis using t fr fw by (auto simp: pipe_file_def)
qed

text \<open>
  Reference counts of open files. For a file with at least one reference (and fewer than
  \<open>2 ^ 31 - 1\<close>, so that the count does not overflow), \<open>filedup\<close> followed by \<open>fileclose\<close> succeeds and gives
  back the same file table: the duplicate's close neither frees the entry nor touches the pipe or inode behind it.
\<close>

theorem filedup_fileclose:
  assumes "lockset {} s" "f < length (files s)" "1 \<le> sint (f_ref (files s ! f))" "sint (f_ref (files s ! f)) < 2 ^ 31 - 1"
  shows "\<exists>t. bindM (filedup f) fileclose s = Ok () t \<and> lockset {} t \<and> files t = files s \<and> pipes t = pipes s"
proof -
  let ?u = "in_ftable (upd_file f (\<lambda>x. x\<lparr>f_ref := f_ref x + 1\<rparr>)) s"
  have l: "lockset {} ?u" by (rule lockset_in_ftable(1)) (use assms(1) in simp_all)
  have "sint (f_ref (files s ! f) + 1) = sint (f_ref (files s ! f)) + 1"
    using assms(3,4) by (simp add: sint_word_ariths signed_take_bit_int_eq_self)
  then have "fileclose f ?u = Ok () (in_ftable (upd_file f (\<lambda>x. x\<lparr>f_ref := f_ref x - 1\<rparr>)) ?u)"
    using assms(2,3) by (intro fileclose_shared [OF l]) simp_all
  moreover have "lockset {} (in_ftable (upd_file f (\<lambda>x. x\<lparr>f_ref := f_ref x - 1\<rparr>)) ?u)"
    by (rule lockset_in_ftable(1)) (use l in simp_all)
  ultimately show ?thesis
    using filedup_ok [OF assms(1) _ _ assms(3)] assms(2) by (simp add: bindM_def)
qed

section \<open>A concrete state\<close>

text \<open>A machine with one pipe, whose counters are about to wrap around.\<close>

definition demo_pipe :: pipe where
  "demo_pipe = \<lparr>pi_data = replicate 512 0, pi_nread = 0xFFFFFFFE, pi_nwrite = 0xFFFFFFFE, pi_readopen = True, pi_writeopen = True\<rparr>"

definition blank_file :: file_rec where
  "blank_file = \<lparr>f_type = FD_NONE, f_ref = 0, f_readable = False, f_writable = False, f_pipe = 0, f_ip = None, f_off = 0\<rparr>"

definition demo_file :: "'x \<Rightarrow> 'x file_st_scheme" where
  "demo_file x =
     demo_fs [] (cin_st_ext (replicate 128 0) 0 0 0 [None, Some Dev_console] 0 [] []
       (file_st_ext (replicate NFILE blank_file) (\<lambda>_. demo_pipe) x))"

lemma demo_file_sel [simp]:
  "lockset {} (demo_file x)" "pipes (demo_file x) = (\<lambda>_. demo_pipe)" "files (demo_file x) = replicate NFILE blank_file"
  by (simp_all add: demo_file_def demo_fs_def demo_state_def demo_vm_def lockset_def cpu_found_def curcpu_def)


theorem pipewrite_too_long_witness:
  "\<exists>t. pipewrite 0x80402000 (replicate 600 7) 600 (demo_file ()) = Wait Switched t \<and>
     pipe_bytes (pipes t 0x80402000) = replicate 512 7 \<and> p_chan (ptable t ! 0) = C_pipe_nwrite 0x80402000"
proof -
  have e: "pipe_bytes (pipes (demo_file ()) 0x80402000) = []" by (simp add: pipe_bytes_def ring_bytes_def demo_pipe_def)
  have s: "c_proc (mycpu_of (demo_file ())) = Some 0" "ptable (demo_file ()) = demo_table"
    by (simp_all add: demo_file_def demo_fs_def demo_state_def demo_vm_def curcpu_def)
  have k: "p_killed (demo_table ! 0) = 0" by (simp add: demo_table_def blank_proc_def)
  have r: "pipe_ready {} 0x80402000 (demo_file ())" by (simp add: pipe_ready_def pipe_wf_def demo_pipe_def PIPESIZE_def)
  show ?thesis
    using pipewrite_too_long [OF r, of 0 600 "replicate 600 7"] s e k by (auto simp: PIPESIZE_def demo_pipe_def)
qed

lemma demo_file_free: "free_pages [0x80401000] (demo_file x)"
  by (simp add: free_pages_def demo_file_def demo_fs_def demo_state_def demo_vm_def rd32_def valid_page_def PGSIZE_def V2P_def KERNBASE_def PHYSTOP_def)

theorem pipe_lifecycle_witness:
  "\<exists>t u v. pipealloc (demo_file ()) = Ok (Some (0, 1)) t \<and> free_pages [] t \<and>
     fileclose 1 t = Ok () u \<and> fileclose 0 u = Ok () v \<and> free_pages [0x80401000] v"
proof -
  have 1: "first_idx (\<lambda>f. f_ref f = 0) (files (demo_file ())) = Some 0"
    by (rule first_idx_SomeI) (simp_all add: NFILE_def blank_file_def)
  have 2: "first_idx (\<lambda>f. f_ref f = 0) ((files (demo_file ()))[0 := (files (demo_file ()) ! 0)\<lparr>f_ref := 1\<rparr>]) = Some 1"
    by (rule first_idx_SomeI) (simp_all add: NFILE_def blank_file_def)
  have d: "length (pi_data (pipes (demo_file ()) 0x80401000)) = PIPESIZE" by (simp add: demo_pipe_def PIPESIZE_def)
  show ?thesis using pipe_lifecycle [OF demo_file_sel(1) demo_file_free d 1 2] by (auto 0 4)
qed

theorem filedup_fileclose_witness:
  "\<exists>t. bindM (filedup 3) fileclose ((demo_file ())\<lparr>files := replicate NFILE (blank_file\<lparr>f_ref := 1\<rparr>)\<rparr>) = Ok () t \<and>
     files t = replicate NFILE (blank_file\<lparr>f_ref := 1\<rparr>)"
proof -
  let ?s = "(demo_file ())\<lparr>files := replicate NFILE (blank_file\<lparr>f_ref := 1\<rparr>)\<rparr>"
  have "lockset {} ?s" using demo_file_sel(1) [of "()"] by (simp add: lockset_def cpu_found_def curcpu_def)
  from filedup_fileclose [OF this, of 3] show ?thesis by (auto simp: NFILE_def)
qed

end
