(* ===== verification/Process.thy ===== *)
theory Process
  imports File
begin

text \<open>
  The life of a process: \<open>userinit\<close>, \<open>fork\<close>, \<open>exit\<close>, \<open>wait\<close>, \<open>wait2\<close> and \<open>forkret\<close> of \<open>proc.c\<close>, \<open>loaduvm\<close> of \<open>vm.c\<close>
  and \<open>exec\<close> of \<open>exec.c\<close>, with the kernel's access to user memory. A load or store of the kernel at
  an address below \<open>KERNBASE\<close> goes through the current page table; one that is not mapped is a
  page fault in kernel mode, which ends in the kernel panic of \<open>trap\<close>.
\<close>

section \<open>State and user memory\<close>

record kern_st = file_st +
  forkret_first :: bool
  cr2 :: u32

definition xlate :: "bool \<Rightarrow> u32 \<Rightarrow> 'x vm_st_scheme \<Rightarrow> u32 option" where
  "xlate wr va s =
     (if va \<ge> KERNBASE then Some va
      else
        let pd = rd32 (mem s) (P2V (cr3 s) + 4 * PDX va);
            pt = rd32 (mem s) (P2V (PTE_ADDR pd) + 4 * PTX va);
            ok = (\<lambda>e. e AND PTE_P \<noteq> 0 \<and> (wr \<longrightarrow> e AND PTE_W \<noteq> 0))
        in if ok pd \<and> ok pt then Some (P2V (PTE_ADDR pt) + (va AND 0xFFF)) else None)"

definition ld8 :: "u32 \<Rightarrow> ('x vm_st_scheme, u8) prog" where
  "ld8 va =
     bindM (getS (xlate False va)) (\<lambda>a.
     case a of None \<Rightarrow> panic ''trap'' | Some k \<Rightarrow> getS (\<lambda>s. mem s k))"

definition st8 :: "u32 \<Rightarrow> u8 \<Rightarrow> ('x vm_st_scheme, unit) prog" where
  "st8 va b =
     bindM (getS (xlate True va)) (\<lambda>a.
     case a of None \<Rightarrow> panic ''trap'' | Some k \<Rightarrow> modS (upd_mem (\<lambda>m. m(k := b))))"

fun load :: "nat \<Rightarrow> u32 \<Rightarrow> ('x vm_st_scheme, u8 list) prog" where
  "load 0 va = ret []"
| "load (Suc n) va = bindM (ld8 va) (\<lambda>b. bindM (load n (va + 1)) (\<lambda>bs. ret (b # bs)))"

fun store :: "u32 \<Rightarrow> u8 list \<Rightarrow> ('x vm_st_scheme, unit) prog" where
  "store va [] = ret ()"
| "store va (b # bs) = seqM (st8 va b) (store (va + 1) bs)"

definition load32 :: "u32 \<Rightarrow> ('x vm_st_scheme, u32) prog" where
  "load32 va = bindM (load 4 va) (\<lambda>bs. ret (dec32 bs))"

section \<open>Trap frames\<close>

definition tf_eax :: u32 where "tf_eax = 28"

definition tf_es :: u32 where "tf_es = 40"

definition tf_ds :: u32 where "tf_ds = 44"

definition tf_trapno :: u32 where "tf_trapno = 48"

definition tf_err :: u32 where "tf_err = 52"

definition tf_eip :: u32 where "tf_eip = 56"

definition tf_cs :: u32 where "tf_cs = 60"

definition tf_eflags :: u32 where "tf_eflags = 64"

definition tf_esp :: u32 where "tf_esp = 68"

definition tf_ss :: u32 where "tf_ss = 72"

definition put_tf :: "nat \<Rightarrow> u32 \<Rightarrow> u32 \<Rightarrow> ('x proc_st_scheme, unit) prog" where
  "put_tf p off v = modS (\<lambda>s. upd_mem (\<lambda>m. wr32 m (p_tf (ptable s ! p) + off) v) s)"

definition put_tf16 :: "nat \<Rightarrow> u32 \<Rightarrow> u16 \<Rightarrow> ('x proc_st_scheme, unit) prog" where
  "put_tf16 p off v = modS (\<lambda>s. upd_mem (\<lambda>m. poke m (p_tf (ptable s ! p) + off) (enc16 v)) s)"

section \<open>Names\<close>

text \<open>\<open>safestrcpy(name, src, 16)\<close> into the 16 byte name field of a process.\<close>

definition proc_name :: "u8 list \<Rightarrow> u8 list \<Rightarrow> u8 list" where
  "proc_name old src =
     map (\<lambda>k. safestrcpy (\<lambda>a. if a < 0x1000 then cbyte src (unat a) else cbyte old (unat (a - 0x1000))) 0x1000 0 16
            (0x1000 + of_nat k)) [0..<16]"

section \<open>The first process\<close>

definition DPL_USER :: u16 where "DPL_USER = 3"

definition user_seg :: "seg \<Rightarrow> u16" where
  "user_seg g = push_bit 3 (seg_num g) OR DPL_USER"

text \<open>The arguments are the address and the size of the linked-in \<open>initcode\<close>.\<close>

definition userinit :: "u32 \<Rightarrow> u32 \<Rightarrow> ('x kern_st_scheme, unit) prog" where
  "userinit start sz =
     bindM allocproc (\<lambda>r.
     seqM (modS (\<lambda>s. s\<lparr>initproc := r\<rparr>)) (
     case r of
       None \<Rightarrow> undef ''null pointer''
     | Some p \<Rightarrow>
         bindM setupkvm (\<lambda>d.
         seqM (modS (upd_proc p (\<lambda>q. q\<lparr>p_pgdir := d\<rparr>))) (
         if d = 0 then panic ''userinit: out of memory?''
         else
           seqM (inituvm d start sz) (
           seqM (modS (upd_proc p (\<lambda>q. q\<lparr>p_sz := PGSIZE\<rparr>))) (
           seqM (modS (\<lambda>s. upd_mem (\<lambda>m. memset m (p_tf (ptable s ! p)) 0 76) s)) (
           seqM (put_tf16 p tf_cs (user_seg SEG_UCODE)) (
           seqM (put_tf16 p tf_ds (user_seg SEG_UDATA)) (
           seqM (put_tf16 p tf_es (user_seg SEG_UDATA)) (
           seqM (put_tf16 p tf_ss (user_seg SEG_UDATA)) (
           seqM (put_tf p tf_eflags FL_IF) (
           seqM (put_tf p tf_esp PGSIZE) (
           seqM (put_tf p tf_eip 0) (
           seqM (modS (upd_proc p (\<lambda>q. q\<lparr>p_name := proc_name (p_name q) (map of_char ''initcode'')\<rparr>))) (
           bindM (namei [slash]) (\<lambda>cwd.
           seqM (modS (upd_proc p (\<lambda>q. q\<lparr>p_cwd := cwd\<rparr>)))
           (make_runnable p)))))))))))))))))"

section \<open>fork\<close>

fun dup_files :: "nat \<Rightarrow> nat \<Rightarrow> nat \<Rightarrow> nat \<Rightarrow> ('x file_st_scheme, unit) prog" where
  "dup_files 0 i cur np = ret ()"
| "dup_files (Suc n) i cur np =
     bindM (getS (\<lambda>s. p_ofile (ptable s ! cur) ! i)) (\<lambda>r.
     seqM (case r of
             None \<Rightarrow> ret ()
           | Some f \<Rightarrow>
               bindM (filedup f) (\<lambda>f.
               modS (upd_proc np (\<lambda>q. q\<lparr>p_ofile := (p_ofile q)[i := Some f]\<rparr>))))
     (dup_files n (Suc i) cur np))"

definition idup_null :: "nat option \<Rightarrow> ('x fs_st_scheme, nat) prog" where
  "idup_null r = (case r of None \<Rightarrow> undef ''null pointer'' | Some i \<Rightarrow> idup i)"

definition fork :: "('x kern_st_scheme, int) prog" where
  "fork =
     bindM curproc (\<lambda>cur.
     bindM allocproc (\<lambda>r.
     case r of
       None \<Rightarrow> ret (-1)
     | Some np \<Rightarrow>
         bindM (getS (\<lambda>s. ptable s ! cur)) (\<lambda>cp.
         bindM (copyuvm (p_pgdir cp) (p_sz cp)) (\<lambda>d.
         seqM (modS (upd_proc np (\<lambda>q. q\<lparr>p_pgdir := d\<rparr>))) (
         if d = 0 then
           bindM (getS (\<lambda>s. p_kstack (ptable s ! np))) (\<lambda>ks.
           seqM (kfree ks) (
           seqM (modS (upd_proc np (\<lambda>q. q\<lparr>p_kstack := 0, p_state := UNUSED\<rparr>)))
           (ret (-1))))
         else
           seqM (modS (upd_proc np (\<lambda>q. q\<lparr>p_sz := p_sz cp, p_parent := Some cur\<rparr>))) (
           seqM (modS (\<lambda>s. upd_mem (\<lambda>m. poke m (p_tf (ptable s ! np)) (peek_at m (p_tf (ptable s ! cur)) 76)) s)) (
           seqM (put_tf np tf_eax 0) (
           seqM (dup_files NOFILE 0 cur np) (
           bindM (idup_null (p_cwd cp)) (\<lambda>cwd.
           seqM (modS (upd_proc np (\<lambda>q. q\<lparr>p_cwd := Some cwd, p_name := proc_name (p_name q) (p_name cp)\<rparr>))) (
           bindM (getS (\<lambda>s. p_pid (ptable s ! np))) (\<lambda>pid.
           seqM (make_runnable np)
           (ret (sint pid))))))))))))))"

section \<open>exit and wait\<close>

fun close_files :: "nat \<Rightarrow> nat \<Rightarrow> nat \<Rightarrow> ('x file_st_scheme, unit) prog" where
  "close_files 0 fd me = ret ()"
| "close_files (Suc n) fd me =
     bindM (getS (\<lambda>s. p_ofile (ptable s ! me) ! fd)) (\<lambda>r.
     seqM (case r of
             None \<Rightarrow> ret ()
           | Some f \<Rightarrow>
               seqM (fileclose f)
               (modS (upd_proc me (\<lambda>q. q\<lparr>p_ofile := (p_ofile q)[fd := None]\<rparr>))))
     (close_files n (Suc fd) me))"

definition exit :: "('x kern_st_scheme, 'a) prog" where
  "exit =
     bindM curproc (\<lambda>me.
     bindM (getS initproc) (\<lambda>ini.
     if ini = Some me then panic ''init exiting''
     else
       seqM (close_files NOFILE 0 me) (
       seqM begin_op (
       bindM (getS (\<lambda>s. p_cwd (ptable s ! me))) (\<lambda>cwd.
       seqM (iput_null cwd) (
       seqM end_op (
       seqM (modS (upd_proc me (\<lambda>q. q\<lparr>p_cwd := None\<rparr>)))
       (exit_locked me))))))))"

definition zombie_child :: "nat \<Rightarrow> proc \<Rightarrow> bool" where
  "zombie_child me p \<longleftrightarrow> p_parent p = Some me \<and> p_state p = ZOMBIE"

text \<open>
  One scan of the table by \<open>wait\<close>, with the table's lock held; it is entered again after each
  sleep.
\<close>

definition wait_retry :: "nat \<Rightarrow> ('x kern_st_scheme, int) prog" where
  "wait_retry me =
     bindM (getS (\<lambda>s. first_idx (zombie_child me) (ptable s))) (\<lambda>z.
     case z of
       Some i \<Rightarrow>
         bindM (getS (\<lambda>s. ptable s ! i)) (\<lambda>p.
         seqM (kfree (p_kstack p)) (
         seqM (modS (upd_proc i (\<lambda>q. q\<lparr>p_kstack := 0\<rparr>))) (
         seqM (freevm (p_pgdir p)) (
         seqM (modS (upd_proc i reap_slot)) (
         seqM (release L_ptable)
         (ret (sint (p_pid p))))))))
     | None \<Rightarrow>
         bindM (getS (\<lambda>s. \<exists>p \<in> set (ptable s). p_parent p = Some me)) (\<lambda>havekids.
         bindM (getS (\<lambda>s. p_killed (ptable s ! me))) (\<lambda>k.
         if \<not> havekids \<or> k \<noteq> 0 then seqM (release L_ptable) (ret (-1))
         else sleep (C_proc me) L_ptable)))"

definition wait :: "('x kern_st_scheme, int) prog" where
  "wait = bindM curproc (\<lambda>me. seqM (acquire L_ptable) (wait_retry me))"

definition wait2_retry :: "u32 \<Rightarrow> u32 \<Rightarrow> nat \<Rightarrow> ('x kern_st_scheme, int) prog" where
  "wait2_retry wtime rutime me =
     bindM (getS (\<lambda>s. first_idx (zombie_child me) (ptable s))) (\<lambda>z.
     case z of
       Some i \<Rightarrow>
         bindM (getS (\<lambda>s. ptable s ! i)) (\<lambda>p.
         seqM (store wtime (enc32 (p_wtime p))) (
         seqM (store rutime (enc32 (p_rutime p))) (
         seqM (kfree (p_kstack p)) (
         seqM (modS (upd_proc i (\<lambda>q. q\<lparr>p_kstack := 0\<rparr>))) (
         seqM (freevm (p_pgdir p)) (
         seqM (modS (upd_proc i (\<lambda>q. (reap_slot q)\<lparr>p_wtime := 0, p_rutime := 0\<rparr>))) (
         seqM (release L_ptable)
         (ret (sint (p_pid p))))))))))
     | None \<Rightarrow>
         bindM (getS (\<lambda>s. \<exists>p \<in> set (ptable s). p_parent p = Some me)) (\<lambda>havekids.
         bindM (getS (\<lambda>s. p_killed (ptable s ! me))) (\<lambda>k.
         if \<not> havekids \<or> k \<noteq> 0 then seqM (release L_ptable) (ret (-1))
         else sleep (C_proc me) L_ptable)))"

definition wait2 :: "u32 \<Rightarrow> u32 \<Rightarrow> ('x kern_st_scheme, int) prog" where
  "wait2 wtime rutime = bindM curproc (\<lambda>me. seqM (acquire L_ptable) (wait2_retry wtime rutime me))"

definition forkret :: "('x kern_st_scheme, unit) prog" where
  "forkret =
     seqM (release L_ptable) (
     bindM (getS forkret_first) (\<lambda>first.
     whenM first (
       seqM (modS (\<lambda>s. s\<lparr>forkret_first := False\<rparr>)) (
       seqM (iinit ROOTDEV)
       (initlog ROOTDEV)))))"

section \<open>exec\<close>

fun loaduvm_loop :: "nat \<Rightarrow> u32 \<Rightarrow> u32 \<Rightarrow> nat \<Rightarrow> u32 \<Rightarrow> u32 \<Rightarrow> u32 \<Rightarrow> ('x cin_st_scheme, int) prog" where
  "loaduvm_loop 0 pgdir addr ip offset sz i = nofuel"
| "loaduvm_loop (Suc fuel) pgdir addr ip offset sz i =
     (if \<not> i < sz then ret 0
      else bindM (walkpgdir pgdir (addr + i) False) (\<lambda>pte.
      if pte = 0 then panic ''loaduvm: address should exist''
      else bindM (rdm pte) (\<lambda>e.
      let pa = PTE_ADDR e; n = (if sz - i < PGSIZE then sz - i else PGSIZE) in
      bindM (readi ip (offset + i) n) (\<lambda>r.
      seqM (modS (upd_mem (\<lambda>m. poke m (P2V pa) (snd r)))) (
      if fst r \<noteq> sint n then ret (-1)
      else loaduvm_loop fuel pgdir addr ip offset sz (i + PGSIZE))))))"

definition loaduvm :: "u32 \<Rightarrow> u32 \<Rightarrow> nat \<Rightarrow> u32 \<Rightarrow> u32 \<Rightarrow> ('x cin_st_scheme, int) prog" where
  "loaduvm pgdir addr ip offset sz =
     (if addr mod PGSIZE \<noteq> 0 then panic ''loaduvm: addr must be page aligned''
      else loaduvm_loop (NPAGES + 1) pgdir addr ip offset sz 0)"

definition ELF_MAGIC :: u32 where "ELF_MAGIC = 0x464C457F"

definition ELF_PROG_LOAD :: u32 where "ELF_PROG_LOAD = 1"

definition MAXARG :: nat where "MAXARG = 32"

record proghdr =
  ph_type :: u32
  ph_off :: u32
  ph_vaddr :: u32
  ph_filesz :: u32
  ph_memsz :: u32

definition dec_ph :: "u8 list \<Rightarrow> proghdr" where
  "dec_ph d = \<lparr>ph_type = get32 d 0, ph_off = get32 d 4, ph_vaddr = get32 d 8, ph_filesz = get32 d 16, ph_memsz = get32 d 20\<rparr>"

record elfhdr =
  e_magic :: u32
  e_entry :: u32
  e_phoff :: u32
  e_phnum :: u16

definition dec_elf :: "u8 list \<Rightarrow> elfhdr" where
  "dec_elf d = \<lparr>e_magic = get32 d 0, e_entry = get32 d 24, e_phoff = get32 d 28, e_phnum = get16 d 44\<rparr>"

text \<open>The loop over the program headers returns the new size, or \<open>None\<close> for \<open>goto bad\<close>.\<close>

fun exec_load :: "nat \<Rightarrow> nat \<Rightarrow> u32 \<Rightarrow> u32 \<Rightarrow> u32 \<Rightarrow> ('x cin_st_scheme, u32 option) prog" where
  "exec_load 0 ip pgdir off sz = ret (Some sz)"
| "exec_load (Suc n) ip pgdir off sz =
     bindM (readi ip off 32) (\<lambda>r.
     if fst r \<noteq> 32 then ret None
     else let ph = dec_ph (snd r) in
     if ph_type ph \<noteq> ELF_PROG_LOAD then exec_load n ip pgdir (off + 32) sz
     else if ph_memsz ph < ph_filesz ph then ret None
     else if ph_vaddr ph + ph_memsz ph < ph_vaddr ph then ret None
     else bindM (allocuvm pgdir sz (ph_vaddr ph + ph_memsz ph)) (\<lambda>sz.
     if sz = 0 then ret None
     else if ph_vaddr ph mod PGSIZE \<noteq> 0 then ret None
     else bindM (loaduvm pgdir (ph_vaddr ph) ip (ph_off ph) (ph_filesz ph)) (\<lambda>l.
     if l < 0 then ret None
     else exec_load n ip pgdir (off + 32) sz)))"

text \<open>The argument strings are pushed one after the other; the result is the stack pointer and their addresses.\<close>

fun exec_args :: "u32 \<Rightarrow> nat \<Rightarrow> u8 list list \<Rightarrow> u32 \<Rightarrow> u32 list \<Rightarrow> ('x kmem_st_scheme, (u32 \<times> u32 list) option) prog" where
  "exec_args pgdir argc [] sp us = ret (Some (sp, us))"
| "exec_args pgdir argc (a # as) sp us =
     (if argc \<ge> MAXARG then ret None
      else let sp = (sp - (of_nat (length a) + 1)) AND NOT 3 in
      bindM (copyout pgdir sp (a @ [0])) (\<lambda>r.
      if r < 0 then ret None
      else exec_args pgdir (Suc argc) as sp (us @ [sp])))"

definition exec_bad :: "u32 \<Rightarrow> nat option \<Rightarrow> ('x kern_st_scheme, int) prog" where
  "exec_bad pgdir ip =
     seqM (whenM (pgdir \<noteq> 0) (freevm pgdir)) (
     seqM (case ip of None \<Rightarrow> ret () | Some i \<Rightarrow> seqM (iunlockput i) end_op)
     (ret (-1)))"

definition last_elem :: "u8 list \<Rightarrow> u8 list" where
  "last_elem pth = rev (takeWhile (\<lambda>c. c \<noteq> slash) (rev pth))"

definition exec_commit :: "nat \<Rightarrow> u8 list \<Rightarrow> u32 \<Rightarrow> u32 \<Rightarrow> u32 \<Rightarrow> u32 \<Rightarrow> ('x kern_st_scheme, int) prog" where
  "exec_commit cur pth pgdir sz entry sp =
     seqM (modS (upd_proc cur (\<lambda>q. q\<lparr>p_name := proc_name (p_name q) (last_elem pth)\<rparr>))) (
     bindM (getS (\<lambda>s. p_pgdir (ptable s ! cur))) (\<lambda>oldpgdir.
     seqM (modS (upd_proc cur (\<lambda>q. q\<lparr>p_pgdir := pgdir, p_sz := sz\<rparr>))) (
     seqM (put_tf cur tf_eip entry) (
     seqM (put_tf cur tf_esp sp) (
     seqM (switchuvm (Some cur)) (
     seqM (freevm oldpgdir)
     (ret 0)))))))"

definition exec_stack :: "nat \<Rightarrow> u8 list \<Rightarrow> u8 list list \<Rightarrow> u32 \<Rightarrow> u32 \<Rightarrow> u32 \<Rightarrow> ('x kern_st_scheme, int) prog" where
  "exec_stack cur pth argv pgdir sz entry =
     (let sz = PGROUNDUP sz in
      bindM (allocuvm pgdir sz (sz + 2 * PGSIZE)) (\<lambda>sz.
      if sz = 0 then exec_bad pgdir None
      else seqM (clearpteu pgdir (sz - 2 * PGSIZE)) (
      bindM (exec_args pgdir 0 argv sz []) (\<lambda>r.
      case r of
        None \<Rightarrow> exec_bad pgdir None
      | Some (sp, us) \<Rightarrow>
          let argc = of_nat (length us);
              ustack = [0xFFFFFFFF, argc, sp - (argc + 1) * 4] @ us @ [0];
              sp = sp - (3 + argc + 1) * 4
          in bindM (copyout pgdir sp (concat (map enc32 ustack))) (\<lambda>r.
             if r < 0 then exec_bad pgdir None
             else exec_commit cur pth pgdir sz entry sp)))))"

definition exec :: "u8 list \<Rightarrow> u8 list list \<Rightarrow> ('x kern_st_scheme, int) prog" where
  "exec pth argv =
     bindM curproc (\<lambda>cur.
     seqM begin_op (
     bindM (namei pth) (\<lambda>r.
     case r of
       None \<Rightarrow> seqM end_op (seqM (kprint (''exec: fail'' @ nl) []) (ret (-1)))
     | Some ip \<Rightarrow>
         seqM (ilock (Some ip)) (
         bindM (readi ip 0 52) (\<lambda>r.
         if fst r \<noteq> 52 then exec_bad 0 (Some ip)
         else let elf = dec_elf (snd r) in
         if e_magic elf \<noteq> ELF_MAGIC then exec_bad 0 (Some ip)
         else bindM setupkvm (\<lambda>pgdir.
         if pgdir = 0 then exec_bad 0 (Some ip)
         else bindM (exec_load (unat (e_phnum elf)) ip pgdir (e_phoff elf) 0) (\<lambda>r.
         case r of
           None \<Rightarrow> exec_bad pgdir (Some ip)
         | Some sz \<Rightarrow>
             seqM (iunlockput ip) (
             seqM end_op
             (exec_stack cur pth argv pgdir sz (e_entry elf))))))))))"

end
