(* ===== verification/Syscall.thy ===== *)
theory Syscall
  imports Process
begin

text \<open>
  System calls: the argument checks of \<open>syscall.c\<close>, the file system calls of \<open>sysfile.c\<close>, the process
  calls of \<open>sysproc.c\<close>, the dispatcher, and \<open>trap\<close> of \<open>trap.c\<close>. Where the C code returns a pointer through
  an argument and 0 or -1 as its result, the definition returns the pointer as an option; a
  string argument is returned as its bytes.
\<close>

section \<open>Arguments\<close>

definition cursz :: "('x proc_st_scheme, u32) prog" where
  "cursz = bindM curproc (\<lambda>p. getS (\<lambda>s. p_sz (ptable s ! p)))"

definition fetchint :: "u32 \<Rightarrow> ('x vm_st_scheme, u32 option) prog" where
  "fetchint addr =
     bindM cursz (\<lambda>sz.
     if addr \<ge> sz \<or> addr + 4 > sz then ret None
     else bindM (load32 addr) (\<lambda>v. ret (Some v)))"

fun fetchstr_loop :: "nat \<Rightarrow> u32 \<Rightarrow> u32 \<Rightarrow> u8 list \<Rightarrow> ('x vm_st_scheme, u8 list option) prog" where
  "fetchstr_loop 0 s ep acc = nofuel"
| "fetchstr_loop (Suc fuel) s ep acc =
     (if \<not> s < ep then ret None
      else bindM (ld8 s) (\<lambda>c.
      if c = 0 then ret (Some acc)
      else fetchstr_loop fuel (s + 1) ep (acc @ [c])))"

definition fetchstr :: "u32 \<Rightarrow> ('x vm_st_scheme, u8 list option) prog" where
  "fetchstr addr =
     bindM cursz (\<lambda>sz.
     if addr \<ge> sz then ret None
     else fetchstr_loop (unat (sz - addr) + 1) addr sz [])"

definition argint :: "nat \<Rightarrow> ('x vm_st_scheme, u32 option) prog" where
  "argint n =
     bindM curproc (\<lambda>p.
     bindM (getS (\<lambda>s. rd32 (mem s) (p_tf (ptable s ! p) + tf_esp))) (\<lambda>esp.
     fetchint (esp + 4 + 4 * of_nat n)))"

definition argptr :: "nat \<Rightarrow> int \<Rightarrow> ('x vm_st_scheme, u32 option) prog" where
  "argptr n len =
     bindM cursz (\<lambda>sz.
     bindM (argint n) (\<lambda>r.
     case r of
       None \<Rightarrow> ret None
     | Some i \<Rightarrow>
         if len < 0 \<or> i \<ge> sz \<or> i + word_of_int len > sz then ret None
         else ret (Some i)))"

definition argstr :: "nat \<Rightarrow> ('x vm_st_scheme, u8 list option) prog" where
  "argstr n =
     bindM (argint n) (\<lambda>r.
     case r of None \<Rightarrow> ret None | Some addr \<Rightarrow> fetchstr addr)"

text \<open>\<open>orfail m k\<close>: continue with the value of \<open>m\<close>, or return -1.\<close>

definition orfail :: "('s, 'a option) prog \<Rightarrow> ('a \<Rightarrow> ('s, int) prog) \<Rightarrow> ('s, int) prog" where
  "orfail m k = bindM m (\<lambda>r. case r of None \<Rightarrow> ret (-1) | Some x \<Rightarrow> k x)"

section \<open>File descriptors\<close>

definition argfd :: "nat \<Rightarrow> ('x kern_st_scheme, (nat \<times> nat) option) prog" where
  "argfd n =
     bindM (argint n) (\<lambda>r.
     case r of
       None \<Rightarrow> ret None
     | Some fd \<Rightarrow>
         if sint fd < 0 \<or> sint fd \<ge> int NOFILE then ret None
         else bindM curproc (\<lambda>p.
         bindM (getS (\<lambda>s. p_ofile (ptable s ! p) ! nat (sint fd))) (\<lambda>f.
         case f of None \<Rightarrow> ret None | Some f \<Rightarrow> ret (Some (nat (sint fd), f)))))"

definition fdalloc :: "nat \<Rightarrow> ('x kern_st_scheme, nat option) prog" where
  "fdalloc f =
     bindM curproc (\<lambda>p.
     bindM (getS (\<lambda>s. first_idx (\<lambda>x. x = None) (p_ofile (ptable s ! p)))) (\<lambda>r.
     case r of
       None \<Rightarrow> ret None
     | Some fd \<Rightarrow>
         seqM (modS (upd_proc p (\<lambda>q. q\<lparr>p_ofile := (p_ofile q)[fd := Some f]\<rparr>)))
         (ret (Some fd))))"

definition fdclear :: "nat \<Rightarrow> ('x proc_st_scheme, unit) prog" where
  "fdclear fd = bindM curproc (\<lambda>p. modS (upd_proc p (\<lambda>q. q\<lparr>p_ofile := (p_ofile q)[fd := None]\<rparr>)))"

definition sys_dup :: "('x kern_st_scheme, int) prog" where
  "sys_dup =
     orfail (argfd 0) (\<lambda>(_, f).
     orfail (fdalloc f) (\<lambda>fd.
     seqM (filedup f)
     (ret (int fd))))"

definition sys_read :: "('x kern_st_scheme, int) prog" where
  "sys_read =
     orfail (argfd 0) (\<lambda>(_, f).
     orfail (argint 2) (\<lambda>n.
     orfail (argptr 1 (sint n)) (\<lambda>p.
     bindM (fileread f (sint n)) (\<lambda>r.
     seqM (store p (snd r))
     (ret (fst r))))))"

definition sys_write :: "('x kern_st_scheme, int) prog" where
  "sys_write =
     orfail (argfd 0) (\<lambda>(_, f).
     orfail (argint 2) (\<lambda>n.
     orfail (argptr 1 (sint n)) (\<lambda>p.
     bindM (load (nat (sint n)) p) (\<lambda>bs.
     filewrite f bs (sint n)))))"

definition sys_close :: "('x kern_st_scheme, int) prog" where
  "sys_close =
     orfail (argfd 0) (\<lambda>(fd, f).
     seqM (fdclear fd) (
     seqM (fileclose f)
     (ret 0)))"

definition enc_stat :: "stat \<Rightarrow> (u32 \<times> u8 list) list" where
  "enc_stat st =
     [(4, enc32 (st_dev st)), (8, enc32 (st_ino st)), (0, enc16 (st_type st)), (12, enc16 (st_nlink st)), (16, enc32 (st_size st))]"

fun store_fields :: "u32 \<Rightarrow> (u32 \<times> u8 list) list \<Rightarrow> ('x vm_st_scheme, unit) prog" where
  "store_fields a [] = ret ()"
| "store_fields a ((off, bs) # fs) = seqM (store (a + off) bs) (store_fields a fs)"

definition sys_fstat :: "('x kern_st_scheme, int) prog" where
  "sys_fstat =
     orfail (argfd 0) (\<lambda>(_, f).
     orfail (argptr 1 20) (\<lambda>st.
     orfail (filestat f) (\<lambda>v.
     seqM (store_fields st (enc_stat v))
     (ret 0))))"

section \<open>Links\<close>

definition add_nlink :: "nat \<Rightarrow> u16 \<Rightarrow> ('x fs_st_scheme, unit) prog" where
  "add_nlink i d = modS (upd_dinode i (\<lambda>x. x\<lparr>di_nlink := di_nlink x + d\<rparr>))"

definition link_bad :: "nat \<Rightarrow> ('x kern_st_scheme, int) prog" where
  "link_bad ip =
     seqM (ilock (Some ip)) (
     seqM (add_nlink ip (-1)) (
     seqM (iupdate ip) (
     seqM (iunlockput ip) (
     seqM end_op
     (ret (-1))))))"

definition sys_link :: "('x kern_st_scheme, int) prog" where
  "sys_link =
     orfail (argstr 0) (\<lambda>old.
     orfail (argstr 1) (\<lambda>new.
     seqM begin_op (
     bindM (namei old) (\<lambda>r.
     case r of
       None \<Rightarrow> seqM end_op (ret (-1))
     | Some ip \<Rightarrow>
         seqM (ilock (Some ip)) (
         bindM (getS (\<lambda>s. di_type (i_d (inodes s ! ip)))) (\<lambda>ty.
         if ty = T_DIR then seqM (iunlockput ip) (seqM end_op (ret (-1)))
         else
           seqM (add_nlink ip 1) (
           seqM (iupdate ip) (
           seqM (iunlock (Some ip)) (
           bindM (nameiparent new) (\<lambda>r.
           case r of
             (None, _) \<Rightarrow> link_bad ip
           | (Some dp, name) \<Rightarrow>
               seqM (ilock (Some dp)) (
               bindM (getS (\<lambda>s. i_dev (inodes s ! dp) \<noteq> i_dev (inodes s ! ip))) (\<lambda>xdev.
               bindM (getS (\<lambda>s. i_inum (inodes s ! ip))) (\<lambda>inum.
               bindM (if xdev then ret (-1) else dirlink dp name inum) (\<lambda>r.
               if r < 0 then seqM (iunlockput dp) (link_bad ip)
               else
                 seqM (iunlockput dp) (
                 seqM (iput ip) (
                 seqM end_op
                 (ret 0)))))))))))))))))"

fun isdirempty_loop :: "nat \<Rightarrow> nat \<Rightarrow> u32 \<Rightarrow> ('x cin_st_scheme, bool) prog" where
  "isdirempty_loop 0 dp off = nofuel"
| "isdirempty_loop (Suc fuel) dp off =
     bindM (getS (\<lambda>s. di_size (i_d (inodes s ! dp)))) (\<lambda>sz.
     if \<not> off < sz then ret True
     else bindM (readi dp off 16) (\<lambda>r.
     if fst r \<noteq> 16 then panic ''isdirempty: readi''
     else if de_inum (snd r) \<noteq> 0 then ret False
     else isdirempty_loop fuel dp (off + 16)))"

definition isdirempty :: "nat \<Rightarrow> ('x cin_st_scheme, bool) prog" where
  "isdirempty dp =
     bindM (getS (\<lambda>s. unat (di_size (i_d (inodes s ! dp))))) (\<lambda>sz.
     isdirempty_loop (sz div 16 + 2) dp 32)"

definition unlink_bad :: "nat \<Rightarrow> ('x kern_st_scheme, int) prog" where
  "unlink_bad dp = seqM (iunlockput dp) (seqM end_op (ret (-1)))"

definition unlink_entry :: "nat \<Rightarrow> nat \<Rightarrow> u32 \<Rightarrow> ('x kern_st_scheme, int) prog" where
  "unlink_entry dp ip off =
     bindM (writei dp (replicate 16 0) off 16) (\<lambda>w.
     if w \<noteq> 16 then panic ''unlink: writei''
     else
       bindM (getS (\<lambda>s. di_type (i_d (inodes s ! ip)))) (\<lambda>ty.
       seqM (whenM (ty = T_DIR) (seqM (add_nlink dp (-1)) (iupdate dp))) (
       seqM (iunlockput dp) (
       seqM (add_nlink ip (-1)) (
       seqM (iupdate ip) (
       seqM (iunlockput ip) (
       seqM end_op
       (ret 0))))))))"

definition sys_unlink :: "('x kern_st_scheme, int) prog" where
  "sys_unlink =
     orfail (argstr 0) (\<lambda>pth.
     seqM begin_op (
     bindM (nameiparent pth) (\<lambda>r.
     case r of
       (None, _) \<Rightarrow> seqM end_op (ret (-1))
     | (Some dp, name) \<Rightarrow>
         seqM (ilock (Some dp)) (
         if namecmp name [46] = 0 \<or> namecmp name [46, 46] = 0 then unlink_bad dp
         else bindM (dirlookup dp name) (\<lambda>r.
         case r of
           None \<Rightarrow> unlink_bad dp
         | Some (ip, off) \<Rightarrow>
             seqM (ilock (Some ip)) (
             bindM (getS (\<lambda>s. i_d (inodes s ! ip))) (\<lambda>d.
             if sint (di_nlink d) < 1 then panic ''unlink: nlink < 1''
             else bindM (if di_type d = T_DIR then isdirempty ip else ret True) (\<lambda>ok.
             if \<not> ok then seqM (iunlockput ip) (unlink_bad dp)
             else unlink_entry dp ip off))))))))"

section \<open>Creating and opening\<close>

definition create_new :: "nat \<Rightarrow> u8 list \<Rightarrow> u16 \<Rightarrow> u16 \<Rightarrow> u16 \<Rightarrow> ('x kern_st_scheme, nat option) prog" where
  "create_new dp name type major minor =
     bindM (getS (\<lambda>s. i_dev (inodes s ! dp))) (\<lambda>dev.
     bindM (ialloc dev type) (\<lambda>ip.
     seqM (ilock (Some ip)) (
     seqM (modS (upd_dinode ip (\<lambda>d. d\<lparr>di_major := major, di_minor := minor, di_nlink := 1\<rparr>))) (
     seqM (iupdate ip) (
     bindM (getS (\<lambda>s. i_inum (inodes s ! ip))) (\<lambda>inum.
     bindM (getS (\<lambda>s. i_inum (inodes s ! dp))) (\<lambda>dinum.
     seqM (whenM (type = T_DIR) (
       seqM (add_nlink dp 1) (
       seqM (iupdate dp) (
       bindM (dirlink ip [46] inum) (\<lambda>a.
       bindM (if a < 0 then ret (-1) else dirlink ip [46, 46] dinum) (\<lambda>b.
       if b < 0 then panic ''create dots'' else ret ()))))))
     (bindM (dirlink dp name inum) (\<lambda>r.
      if r < 0 then panic ''create: dirlink''
      else seqM (iunlockput dp) (ret (Some ip)))))))))))"

definition create :: "u8 list \<Rightarrow> u16 \<Rightarrow> u16 \<Rightarrow> u16 \<Rightarrow> ('x kern_st_scheme, nat option) prog" where
  "create pth type major minor =
     bindM (nameiparent pth) (\<lambda>r.
     case r of
       (None, _) \<Rightarrow> ret None
     | (Some dp, name) \<Rightarrow>
         seqM (ilock (Some dp)) (
         bindM (dirlookup dp name) (\<lambda>r.
         case r of
           Some (ip, _) \<Rightarrow>
             seqM (iunlockput dp) (
             seqM (ilock (Some ip)) (
             bindM (getS (\<lambda>s. di_type (i_d (inodes s ! ip)))) (\<lambda>ty.
             if type = T_FILE \<and> ty = T_FILE then ret (Some ip)
             else seqM (iunlockput ip) (ret None))))
         | None \<Rightarrow> create_new dp name type major minor)))"

definition O_WRONLY :: u32 where "O_WRONLY = 1"

definition O_RDWR :: u32 where "O_RDWR = 2"

definition O_CREATE :: u32 where "O_CREATE = 0x200"

definition open_inode :: "u8 list \<Rightarrow> u32 \<Rightarrow> ('x kern_st_scheme, nat option) prog" where
  "open_inode pth omode =
     (if omode AND O_CREATE \<noteq> 0 then create pth T_FILE 0 0
      else bindM (namei pth) (\<lambda>r.
      case r of
        None \<Rightarrow> ret None
      | Some ip \<Rightarrow>
          seqM (ilock (Some ip)) (
          bindM (getS (\<lambda>s. di_type (i_d (inodes s ! ip)))) (\<lambda>ty.
          if ty = T_DIR \<and> omode \<noteq> 0 then seqM (iunlockput ip) (ret None)
          else ret (Some ip)))))"

definition opened_file :: "nat \<Rightarrow> u32 \<Rightarrow> file_rec \<Rightarrow> file_rec" where
  "opened_file ip omode f =
     f\<lparr>f_type := FD_INODE, f_ip := Some ip, f_off := 0, f_readable := (omode AND O_WRONLY = 0),
       f_writable := (omode AND O_WRONLY \<noteq> 0 \<or> omode AND O_RDWR \<noteq> 0)\<rparr>"

definition sys_open :: "('x kern_st_scheme, int) prog" where
  "sys_open =
     orfail (argstr 0) (\<lambda>pth.
     orfail (argint 1) (\<lambda>omode.
     seqM begin_op (
     bindM (open_inode pth omode) (\<lambda>r.
     case r of
       None \<Rightarrow> seqM end_op (ret (-1))
     | Some ip \<Rightarrow>
         bindM filealloc (\<lambda>f.
         bindM (case f of None \<Rightarrow> ret None | Some f \<Rightarrow> fdalloc f) (\<lambda>fd.
         case (f, fd) of
           (Some f, Some fd) \<Rightarrow>
             seqM (iunlock (Some ip)) (
             seqM end_op (
             seqM (modS (upd_file f (opened_file ip omode)))
             (ret (int fd))))
         | _ \<Rightarrow>
             seqM (close_opt f) (
             seqM (iunlockput ip) (
             seqM end_op
             (ret (-1))))))))))"

definition make_node :: "nat option \<Rightarrow> ('x kern_st_scheme, int) prog" where
  "make_node r =
     (case r of
        None \<Rightarrow> seqM end_op (ret (-1))
      | Some ip \<Rightarrow> seqM (iunlockput ip) (seqM end_op (ret 0)))"

definition sys_mkdir :: "('x kern_st_scheme, int) prog" where
  "sys_mkdir =
     seqM begin_op (
     bindM (bindM (argstr 0) (\<lambda>r. case r of None \<Rightarrow> ret None | Some pth \<Rightarrow> create pth T_DIR 0 0))
     make_node)"

definition sys_mknod :: "('x kern_st_scheme, int) prog" where
  "sys_mknod =
     seqM begin_op (
     bindM (argstr 0) (\<lambda>pth.
     case pth of
       None \<Rightarrow> make_node None
     | Some pth \<Rightarrow>
         bindM (argint 1) (\<lambda>major.
         case major of
           None \<Rightarrow> make_node None
         | Some major \<Rightarrow>
             bindM (argint 2) (\<lambda>minor.
             case minor of
               None \<Rightarrow> make_node None
             | Some minor \<Rightarrow>
                 bindM (create pth T_DEV (ucast major) (ucast minor)) make_node))))"

definition sys_chdir :: "('x kern_st_scheme, int) prog" where
  "sys_chdir =
     bindM curproc (\<lambda>p.
     seqM begin_op (
     bindM (bindM (argstr 0) (\<lambda>r. case r of None \<Rightarrow> ret None | Some pth \<Rightarrow> namei pth)) (\<lambda>r.
     case r of
       None \<Rightarrow> seqM end_op (ret (-1))
     | Some ip \<Rightarrow>
         seqM (ilock (Some ip)) (
         bindM (getS (\<lambda>s. di_type (i_d (inodes s ! ip)))) (\<lambda>ty.
         if ty \<noteq> T_DIR then seqM (iunlockput ip) (seqM end_op (ret (-1)))
         else
           seqM (iunlock (Some ip)) (
           bindM (getS (\<lambda>s. p_cwd (ptable s ! p))) (\<lambda>cwd.
           seqM (iput_null cwd) (
           seqM end_op (
           seqM (modS (upd_proc p (\<lambda>q. q\<lparr>p_cwd := Some ip\<rparr>)))
           (ret 0))))))))))"

fun exec_argv :: "nat \<Rightarrow> u32 \<Rightarrow> u8 list list \<Rightarrow> ('x vm_st_scheme, u8 list list option) prog" where
  "exec_argv 0 uargv acc = ret None"
| "exec_argv (Suc n) uargv acc =
     bindM (fetchint uargv) (\<lambda>r.
     case r of
       None \<Rightarrow> ret None
     | Some uarg \<Rightarrow>
         if uarg = 0 then ret (Some acc)
         else bindM (fetchstr uarg) (\<lambda>r.
         case r of
           None \<Rightarrow> ret None
         | Some a \<Rightarrow> exec_argv n (uargv + 4) (acc @ [a])))"

definition sys_exec :: "('x kern_st_scheme, int) prog" where
  "sys_exec =
     orfail (argstr 0) (\<lambda>pth.
     orfail (argint 1) (\<lambda>uargv.
     orfail (exec_argv MAXARG uargv []) (\<lambda>argv.
     exec pth argv)))"

definition sys_pipe :: "('x kern_st_scheme, int) prog" where
  "sys_pipe =
     orfail (argptr 0 8) (\<lambda>fd.
     orfail pipealloc (\<lambda>(rf, wf).
     bindM (fdalloc rf) (\<lambda>fd0.
     bindM (case fd0 of None \<Rightarrow> ret None | Some _ \<Rightarrow> fdalloc wf) (\<lambda>fd1.
     case (fd0, fd1) of
       (Some a, Some b) \<Rightarrow>
         seqM (store fd (enc32 (of_nat a))) (
         seqM (store (fd + 4) (enc32 (of_nat b)))
         (ret 0))
     | _ \<Rightarrow>
         seqM (case fd0 of None \<Rightarrow> ret () | Some a \<Rightarrow> fdclear a) (
         seqM (fileclose rf) (
         seqM (fileclose wf)
         (ret (-1))))))))"

section \<open>Process calls\<close>

definition sys_fork :: "('x kern_st_scheme, int) prog" where
  "sys_fork = fork"

definition sys_exit :: "('x kern_st_scheme, int) prog" where
  "sys_exit = seqM (exit :: ('x kern_st_scheme, unit) prog) (ret 0)"

definition sys_wait2 :: "('x kern_st_scheme, int) prog" where
  "sys_wait2 =
     orfail (argptr 0 4) (\<lambda>wtime.
     orfail (argptr 1 4) (\<lambda>rutime.
     wait2 wtime rutime))"

definition sys_wait :: "('x kern_st_scheme, int) prog" where
  "sys_wait = wait"

definition sys_kill :: "('x kern_st_scheme, int) prog" where
  "sys_kill = orfail (argint 0) (\<lambda>pid. bindM (kill pid) (\<lambda>r. ret (sint r)))"

definition sys_getpid :: "('x kern_st_scheme, int) prog" where
  "sys_getpid = bindM curproc (\<lambda>p. getS (\<lambda>s. sint (p_pid (ptable s ! p))))"

definition sys_sbrk :: "('x kern_st_scheme, int) prog" where
  "sys_sbrk =
     orfail (argint 0) (\<lambda>n.
     bindM cursz (\<lambda>addr.
     bindM (growproc n) (\<lambda>r.
     ret (if r < 0 then -1 else sint addr))))"

definition sys_sleep_retry :: "u32 \<Rightarrow> u32 \<Rightarrow> ('x kern_st_scheme, int) prog" where
  "sys_sleep_retry ticks0 n =
     bindM (getS (\<lambda>s. ticks s - ticks0 < n)) (\<lambda>more.
     if \<not> more then seqM (release L_ticks) (ret 0)
     else bindM killed (\<lambda>k.
     if k then seqM (release L_ticks) (ret (-1))
     else sleep C_ticks L_ticks))"

definition sys_sleep :: "('x kern_st_scheme, int) prog" where
  "sys_sleep =
     orfail (argint 0) (\<lambda>n.
     seqM (acquire L_ticks) (
     bindM (getS ticks) (\<lambda>ticks0.
     sys_sleep_retry ticks0 n)))"

definition sys_uptime :: "('x kern_st_scheme, int) prog" where
  "sys_uptime =
     seqM (acquire L_ticks) (
     bindM (getS ticks) (\<lambda>xticks.
     seqM (release L_ticks)
     (ret (sint xticks))))"

section \<open>Dispatch\<close>

definition syscalls :: "('x kern_st_scheme, int) prog list" where
  "syscalls =
     [sys_fork, sys_exit, sys_wait, sys_pipe, sys_read, sys_kill, sys_exec, sys_fstat, sys_chdir, sys_dup, sys_getpid,
      sys_sbrk, sys_sleep, sys_uptime, sys_open, sys_write, sys_mknod, sys_unlink, sys_link, sys_mkdir, sys_close, sys_wait2]"

definition syscall :: "('x kern_st_scheme, unit) prog" where
  "syscall =
     bindM curproc (\<lambda>p.
     bindM (getS (\<lambda>s. rd32 (mem s) (p_tf (ptable s ! p) + tf_eax))) (\<lambda>eax.
     let num = sint eax in
     if num > 0 \<and> num < 23 then
       bindM (syscalls ! (nat num - 1)) (\<lambda>r.
       put_tf p tf_eax (word_of_int r))
     else
       bindM (getS (\<lambda>s. ptable s ! p)) (\<lambda>q.
       seqM (kprint (''%d %s: unknown sys call %d'' @ nl) [AInt (p_pid q), AStr (Some (str_of (p_name q))), AInt eax])
       (put_tf p tf_eax (-1)))))"

section \<open>Traps\<close>

definition T_SYSCALL :: u32 where "T_SYSCALL = 64"

definition T_IRQ0 :: u32 where "T_IRQ0 = 32"

definition tf16 :: "u32 \<Rightarrow> 'x mach_scheme \<Rightarrow> u32" where
  "tf16 a s = ucast (dec16 (peek_at (mem s) a 2))"

text \<open>\<open>exit_if_killed user\<close>: the checks of \<open>trap\<close> that end a killed process about to return to user space.\<close>

definition cur_killed :: "('x kern_st_scheme, bool) prog" where
  "cur_killed =
     bindM myproc (\<lambda>r.
     case r of None \<Rightarrow> ret False | Some _ \<Rightarrow> bindM curproc (\<lambda>p. getS (\<lambda>s. p_killed (ptable s ! p) \<noteq> 0)))"

definition exit_if_killed :: "bool \<Rightarrow> ('x kern_st_scheme, unit) prog" where
  "exit_if_killed user = bindM cur_killed (\<lambda>k. whenM (k \<and> user) exit)"

definition trap_syscall :: "u32 \<Rightarrow> ('x kern_st_scheme, unit) prog" where
  "trap_syscall tf =
     bindM killed (\<lambda>k.
     seqM (whenM k exit) (
     bindM curproc (\<lambda>p.
     seqM (modS (upd_proc p (\<lambda>q. q\<lparr>p_tf := tf\<rparr>))) (
     seqM syscall (
     bindM killed (\<lambda>k.
     whenM k exit))))))"

definition trap_fault :: "u32 \<Rightarrow> u32 \<Rightarrow> ('x kern_st_scheme, unit) prog" where
  "trap_fault tf trapno =
     bindM myproc (\<lambda>r.
     bindM (getS (\<lambda>s. tf16 (tf + tf_cs) s)) (\<lambda>cs.
     bindM (getS (\<lambda>s. rd32 (mem s) (tf + tf_eip))) (\<lambda>eip.
     bindM (getS (\<lambda>s. rd32 (mem s) (tf + tf_err))) (\<lambda>err.
     bindM (getS cr2) (\<lambda>va.
     bindM cpuid (\<lambda>c.
     if r = None \<or> cs AND 3 = 0 then
       seqM (kprint (''unexpected trap %d from cpu %d eip %x (cr2=0x%x)'' @ nl)
               [AInt trapno, AInt (of_nat c), AInt eip, AInt va])
       (panic ''trap'')
     else
       bindM curproc (\<lambda>p.
       bindM (getS (\<lambda>s. ptable s ! p)) (\<lambda>q.
       seqM (kprint (''pid %d %s: trap %d err %d on cpu %d eip 0x%x addr 0x%x--kill proc'' @ nl)
               [AInt (p_pid q), AStr (Some (str_of (p_name q))), AInt trapno, AInt err, AInt (of_nat c), AInt eip, AInt va])
       (modS (upd_proc p (\<lambda>q. q\<lparr>p_killed := 1\<rparr>)))))))))))"

definition trap_spurious :: "u32 \<Rightarrow> ('x kern_st_scheme, unit) prog" where
  "trap_spurious tf =
     bindM cpuid (\<lambda>c.
     bindM (getS (\<lambda>s. tf16 (tf + tf_cs) s)) (\<lambda>cs.
     bindM (getS (\<lambda>s. rd32 (mem s) (tf + tf_eip))) (\<lambda>eip.
     kprint (''cpu%d: spurious interrupt at %x:%x'' @ nl) [AInt (of_nat c), AInt cs, AInt eip])))"

text \<open>
  The handler. Acknowledging the interrupt at the local APIC has no effect on the state here,
  and with the memory disk \<open>ideintr\<close> does nothing.
\<close>

definition trap :: "u32 \<Rightarrow> ('x kern_st_scheme, unit) prog" where
  "trap tf =
     bindM (getS (\<lambda>s. rd32 (mem s) (tf + tf_trapno))) (\<lambda>trapno.
     if trapno = T_SYSCALL then trap_syscall tf
     else
       bindM (getS (\<lambda>s. tf16 (tf + tf_cs) s AND 3 = 3)) (\<lambda>user.
       seqM (if trapno = T_IRQ0 then clock_tick
             else if trapno = T_IRQ0 + 14 then ret ()
             else if trapno = T_IRQ0 + 15 then ret ()
             else if trapno = T_IRQ0 + 1 then kbdintr
             else if trapno = T_IRQ0 + 4 then uartintr
             else if trapno = T_IRQ0 + 7 \<or> trapno = T_IRQ0 + 31 then trap_spurious tf
             else trap_fault tf trapno) (
       seqM (exit_if_killed user) (
       seqM (whenM (trapno = T_IRQ0) preempt)
       (exit_if_killed user)))))"

end
