(* ===== verification/Callcheck.thy ===== *)
theory Callcheck
  imports Syscall
begin

text \<open>
  The checks at the system call boundary: what the argument fetchers of \<open>syscall.c\<close> accept of a process whose
  memory is mapped, and what the calls built on them do with bad descriptors, pointers and numbers.
\<close>

section \<open>What the argument checks accept\<close>

lemma pushpop_twice: "lockset S s \<Longrightarrow> pushpop (pushpop s) = pushpop s"
proof (cases "S = {}")
  case True
  assume l: "lockset S s"
  then have c: "curcpu s < length (cpus s)" "c_ncli (mycpu_of s) = 0"
    using locksetD(1,3) [OF l] True by (auto simp: curcpu_less unat_eq_0 [symmetric])
  then show ?thesis
    by (simp add: pushpop_def popped_def pushed_def upd_cpu_def readeflags_def curcpu_def first_idx_update_same FL_IF_def)
next
  case False
  assume "lockset S s"
  with False show ?thesis by (simp add: pushpop_held lockset_pushpop)
qed

text \<open>
  \<open>user_mem p s\<close>: process \<open>p\<close> is running, and its memory, below \<open>KERNBASE\<close>, is mapped by the page table in use.
  \<open>user_bytes\<close> are the bytes the process sees there.
\<close>

definition user_mem :: "nat \<Rightarrow> 'x vm_st_scheme \<Rightarrow> bool" where
  "user_mem p s \<longleftrightarrow> lockset {} s \<and> c_proc (mycpu_of s) = Some p \<and> p_sz (ptable s ! p) \<le> KERNBASE \<and>
     (\<forall>va < p_sz (ptable s ! p). xlate False va s \<noteq> None)"

definition user_byte :: "'x vm_st_scheme \<Rightarrow> u32 \<Rightarrow> u8" where
  "user_byte s va = mem s (the (xlate False va s))"

definition user_bytes :: "'x vm_st_scheme \<Rightarrow> u32 \<Rightarrow> nat \<Rightarrow> u8 list" where
  "user_bytes s va n = map (\<lambda>k. user_byte s (va + of_nat k)) [0..<n]"

lemma vm_frame_pushpop [simp]: "cr3 (pushpop s) = cr3 s"
  by (simp add: pushpop_def effect_defs)

lemma xlate_pushpop [simp]: "xlate w va (pushpop s) = xlate w va s"
  by (simp add: xlate_def)

lemma user_pushpop [simp]:
  "user_byte (pushpop s) va = user_byte s va" "user_bytes (pushpop s) va n = user_bytes s va n"
  by (simp_all add: user_byte_def user_bytes_def)

lemma user_memD:
  assumes "user_mem p s"
  shows "lockset {} s" "c_proc (mycpu_of s) = Some p" "unat (p_sz (ptable s ! p)) \<le> 2 ^ 31"
    "unat va < unat (p_sz (ptable s ! p)) \<Longrightarrow> \<exists>k. xlate False va s = Some k"
    "user_mem p (pushpop s)" "pushpop (pushpop s) = pushpop s"
    "curproc s = Ok p (pushpop s)" "cursz s = Ok (p_sz (ptable s ! p)) (pushpop s)"
  using assms lockset_pushpop [of "{}" s] pushpop_twice [of "{}" s] curproc_ok [of "{}" s p]
  by (auto simp: user_mem_def word_le_nat_alt word_less_nat_alt KERNBASE_def cursz_def M_defs)

lemma ld8_user:
  "user_mem p s \<Longrightarrow> unat va < unat (p_sz (ptable s ! p)) \<Longrightarrow> ld8 va s = Ok (user_byte s va) s"
  using user_memD(4) [of p s va] by (auto simp: ld8_def M_defs user_byte_def)

lemma load_user:
  "user_mem p s \<Longrightarrow> unat va + n \<le> unat (p_sz (ptable s ! p)) \<Longrightarrow> load n va s = Ok (user_bytes s va n) s"
proof (induction n arbitrary: va)
  case 0
  then show ?case by (simp add: user_bytes_def ret_def)
next
  case (Suc n)
  have "unat (va + 1) = unat va + 1"
    using Suc.prems(2) user_memD(3) [OF Suc.prems(1)] by (simp add: unat_word_ariths)
  then have "load n (va + 1) s = Ok (user_bytes s (va + 1) n) s" using Suc by simp
  moreover have "ld8 va s = Ok (user_byte s va) s" using Suc.prems(2) by (intro ld8_user [OF Suc.prems(1)]) simp
  ultimately show ?case
    by (simp add: M_defs user_bytes_def upt_conv_Cons map_Suc_upt [symmetric] comp_def add.assoc del: upt_Suc)
qed

definition user_word :: "nat \<Rightarrow> 'x vm_st_scheme \<Rightarrow> u32 \<Rightarrow> u32 option" where
  "user_word p s a = (if unat a + 4 \<le> unat (p_sz (ptable s ! p)) then Some (dec32 (user_bytes s a 4)) else None)"

lemma fetchint_user:
  assumes "user_mem p s"
  shows "fetchint a s = Ok (user_word p s a) (pushpop s)"
proof -
  note d = user_memD [OF assms]
  let ?sz = "p_sz (ptable s ! p)"
  have "(a \<ge> ?sz \<or> a + 4 > ?sz) \<longleftrightarrow> \<not> unat a + 4 \<le> unat ?sz"
  proof (cases "a \<ge> ?sz")
    case False
    then have "unat (a + 4) = unat a + 4" using d(3) by (simp add: unat_word_ariths word_le_nat_alt)
    then show ?thesis using False by (auto simp: word_le_nat_alt word_less_nat_alt)
  qed (simp add: word_le_nat_alt)
  moreover have "load 4 a (pushpop s) = Ok (user_bytes s a 4) (pushpop s)" if "unat a + 4 \<le> unat ?sz"
    using load_user [OF d(5), of a 4] that by simp
  ultimately show ?thesis
    using d(8) by (simp add: fetchint_def load32_def user_word_def bindM_def ret_def)
qed

definition user_arg :: "nat \<Rightarrow> 'x vm_st_scheme \<Rightarrow> nat \<Rightarrow> u32 option" where
  "user_arg p s n = user_word p s (rd32 (mem s) (p_tf (ptable s ! p) + tf_esp) + 4 + 4 * of_nat n)"

lemma user_arg_pushpop [simp]: "user_arg p (pushpop s) n = user_arg p s n" "user_word p (pushpop s) a = user_word p s a"
  by (simp_all add: user_arg_def user_word_def)

lemma argint_user: "user_mem p s \<Longrightarrow> argint n s = Ok (user_arg p s n) (pushpop s)"
  using user_memD(5,6,7) [of p s] fetchint_user [of p "pushpop s"]
  by (simp add: argint_def bindM_def getS_def user_arg_def)

text \<open>\<open>user_range p s a n\<close>: the \<open>n\<close> bytes from \<open>a\<close> belong to the process, without wrapping around.\<close>

definition user_range :: "nat \<Rightarrow> 'x vm_st_scheme \<Rightarrow> u32 \<Rightarrow> int \<Rightarrow> bool" where
  "user_range p s a n \<longleftrightarrow> 0 \<le> n \<and> a < p_sz (ptable s ! p) \<and> int (unat a) + n \<le> int (unat (p_sz (ptable s ! p)))"

lemma uint_less_power: "unat w < 2 ^ n \<Longrightarrow> uint w < 2 ^ n"
proof -
  assume "unat w < 2 ^ n"
  then have "int (unat w) < int (2 ^ n)" by (simp only: of_nat_less_iff)
  then show ?thesis by (simp only: of_nat_unat of_nat_power of_nat_numeral)
qed

lemma argptr_user:
  assumes "user_mem p s" "len < 2 ^ 31"
  shows "argptr n len s =
    Ok (case user_arg p s n of None \<Rightarrow> None | Some a \<Rightarrow> if user_range p s a len then Some a else None) (pushpop s)"
proof -
  note d = user_memD [OF assms(1)]
  let ?sz = "p_sz (ptable s ! p)"
  have "(len < 0 \<or> a \<ge> ?sz \<or> a + word_of_int len > ?sz) \<longleftrightarrow> \<not> user_range p s a len" for a
  proof (cases "0 \<le> len \<and> a < ?sz")
    case True
    then have "uint (word_of_int len :: u32) = len"
      using assms(2) by (simp add: uint_word_of_int)
    moreover have "uint a < 2 ^ 31"
      using True d(3) by (intro uint_less_power [of a 31]) (simp add: word_less_nat_alt)
    ultimately have "uint (a + word_of_int len) = uint a + len"
      using assms(2) True by (simp add: uint_word_ariths)
    then show ?thesis using True by (auto simp: user_range_def word_less_def word_le_def)
  qed (auto simp: user_range_def)
  then show ?thesis
    using d(8) argint_user [OF d(5), of n] d(6)
    by (auto simp: argptr_def bindM_def ret_def split: option.splits)
qed

lemma user_bytes_Suc: "user_bytes s a (Suc n) = user_byte s a # user_bytes s (a + 1) n"
  by (simp add: user_bytes_def upt_conv_Cons map_Suc_upt [symmetric] comp_def add.assoc del: upt_Suc)

lemma fetchstr_loop_user:
  assumes "user_mem p s" "unat a + n = unat (p_sz (ptable s ! p))" "n < fuel"
  shows "fetchstr_loop fuel a (p_sz (ptable s ! p)) acc s =
    Ok (if 0 \<in> set (user_bytes s a n) then Some (acc @ takeWhile (\<lambda>c. c \<noteq> 0) (user_bytes s a n)) else None) s"
  using assms(2,3)
proof (induction n arbitrary: a fuel acc)
  case 0
  then obtain f where "fuel = Suc f" by (cases fuel) auto
  with 0 show ?case by (simp add: user_bytes_def ret_def word_less_nat_alt)
next
  case (Suc n)
  obtain f where f: "fuel = Suc f" "n < f" using Suc.prems(2) by (cases fuel) auto
  have "unat (a + 1) = unat a + 1"
    using Suc.prems(1) user_memD(3) [OF assms(1)] by (simp add: unat_word_ariths)
  then have IH: "fetchstr_loop f (a + 1) (p_sz (ptable s ! p)) acc' s =
      Ok (if 0 \<in> set (user_bytes s (a + 1) n) then Some (acc' @ takeWhile (\<lambda>c. c \<noteq> 0) (user_bytes s (a + 1) n)) else None) s" for acc'
    using Suc.prems(1) f(2) by (intro Suc.IH) simp_all
  have lt: "a < p_sz (ptable s ! p)" using Suc.prems(1) by (simp add: word_less_nat_alt)
  have "ld8 a s = Ok (user_byte s a) s" using lt by (intro ld8_user [OF assms(1)]) (simp add: word_less_nat_alt)
  then show ?case using lt IH f(1) by (simp add: M_defs user_bytes_Suc)
qed

definition user_str :: "nat \<Rightarrow> 'x vm_st_scheme \<Rightarrow> u32 \<Rightarrow> u8 list option" where
  "user_str p s a =
     (let bs = user_bytes s a (unat (p_sz (ptable s ! p)) - unat a)
      in if 0 \<in> set bs then Some (takeWhile (\<lambda>c. c \<noteq> 0) bs) else None)"

text \<open>
  C33: Whatever address a process passes as a string, \<open>fetchstr\<close> returns: the bytes of the process up
  to the first zero byte, or -1 when the address is outside the process or no zero byte follows inside it. It never reads a
  byte beyond the end of the process, where a read would be a page fault.
\<close>

theorem fetchstr_returns:
  assumes "user_mem p s"
  shows "fetchstr a s = Ok (user_str p s a) (pushpop s)"
proof -
  note d = user_memD [OF assms]
  let ?sz = "p_sz (ptable s ! p)"
  show ?thesis
  proof (cases "a \<ge> ?sz")
    case True
    then show ?thesis using d(8)
      by (simp add: fetchstr_def bindM_def ret_def user_str_def user_bytes_def word_le_nat_alt)
  next
    case False
    then have u: "unat (?sz - a) = unat ?sz - unat a" by (intro unat_sub) simp
    have "fetchstr_loop (unat (?sz - a) + 1) a ?sz [] (pushpop s) = Ok (user_str p s a) (pushpop s)"
      using fetchstr_loop_user [OF d(5), of a "unat ?sz - unat a" "unat (?sz - a) + 1" "[]"] False u
      by (simp add: user_str_def Let_def word_le_nat_alt)
    then show ?thesis using d(8) False by (simp add: fetchstr_def bindM_def)
  qed
qed

lemma load_range:
  assumes "user_mem p s" "user_range p s a n"
  shows "load (nat n) a (pushpop s) = Ok (user_bytes s a (nat n)) (pushpop s)"
proof -
  have "unat a + nat n \<le> unat (p_sz (ptable s ! p))" using assms(2) unfolding user_range_def by linarith
  then show ?thesis using load_user [OF user_memD(5) [OF assms(1)], of a "nat n"] by simp
qed


section \<open>What the calls do with bad arguments\<close>

definition user_fd :: "nat \<Rightarrow> 'x kern_st_scheme \<Rightarrow> nat \<Rightarrow> (nat \<times> nat) option" where
  "user_fd p s n =
     (case user_arg p s n of None \<Rightarrow> None
      | Some fd \<Rightarrow> if 0 \<le> sint fd \<and> sint fd < 16
          then map_option (\<lambda>f. (nat (sint fd), f)) (p_ofile (ptable s ! p) ! nat (sint fd)) else None)"

lemma argfd_user:
  assumes "user_mem p s"
  shows "argfd n s = Ok (user_fd p s n) (pushpop s)"
  using argint_user [OF assms, of n] user_memD(5,6,7) [OF assms] user_memD(7) [OF user_memD(5) [OF assms]]
  by (auto simp: argfd_def user_fd_def bindM_def ret_def getS_def NOFILE_def split: option.splits)

text \<open>
  C20: \<open>sys_write\<close> hands \<open>filewrite\<close> the open file of the descriptor and exactly the bytes of the
  caller's buffer; with a descriptor that is out of range or not open, a negative count, or
  a buffer that is not wholly inside the process it returns -1 and touches nothing.
\<close>

theorem sys_write_validates:
  assumes "user_mem p s"
  shows "sys_write s =
    (case (user_fd p s 0, user_arg p s 2, user_arg p s 1) of
       (Some (_, f), Some n, Some a) \<Rightarrow>
         if user_range p s a (sint n) then filewrite f (user_bytes s a (nat (sint n))) (sint n) (pushpop s)
         else Ok (-1) (pushpop s)
     | _ \<Rightarrow> Ok (-1) (pushpop s))"
proof -
  note d = user_memD [OF assms]
  have "sint n < 2 ^ 31" for n :: u32 using sint_lt [of n] by simp
  note a = argptr_user [OF d(5) this]
  have r: "user_range p (pushpop s) = user_range p s" by (intro ext) (simp add: user_range_def)
  show ?thesis
    using argfd_user [OF assms, of 0] argint_user [OF d(5), of 2] a d(6) load_range [OF assms] r
    by (simp add: sys_write_def orfail_def bindM_def ret_def split: option.splits prod.splits)
qed

lemma kern_frame_in_ftable [simp]:
  "ptable (in_ftable (upd_file f g) s) = ptable s"
  by (simp add: in_ftable_def upd_file_def)

text \<open>
  \<open>sys_dup\<close> returns the lowest descriptor that is not in use; afterwards both descriptors name the
  same open file, whose reference count has grown by one, and no other descriptor has changed. A descriptor
  that is not open, or a full descriptor table, gives -1 and leaves every file as it was.
\<close>

theorem sys_dup_lowest:
  assumes "user_mem p s" "p < length (ptable s)"
    and "\<forall>fd f. user_fd p s 0 = Some (fd, f) \<longrightarrow> f < length (files s) \<and> 1 \<le> sint (f_ref (files s ! f))"
  shows "case (user_fd p s 0, first_idx (\<lambda>x. x = None) (p_ofile (ptable s ! p))) of
       (Some (_, f), Some fd) \<Rightarrow> \<exists>t. sys_dup s = Ok (int fd) t \<and> lockset {} t \<and>
          p_ofile (ptable t ! p) = (p_ofile (ptable s ! p))[fd := Some f] \<and>
          (\<forall>i. i \<noteq> p \<longrightarrow> ptable t ! i = ptable s ! i) \<and>
          files t = (files s)[f := (files s ! f)\<lparr>f_ref := f_ref (files s ! f) + 1\<rparr>]
     | _ \<Rightarrow> sys_dup s = Ok (-1) (pushpop s)"
proof (cases "user_fd p s 0")
  case None
  then show ?thesis using argfd_user [OF assms(1), of 0] by (simp add: sys_dup_def orfail_def bindM_def ret_def)
next
  case (Some x)
  obtain fd0 f where x: "x = (fd0, f)" by force
  note d = user_memD [OF assms(1)]
  have a: "argfd 0 s = Ok (Some (fd0, f)) (pushpop s)" using argfd_user [OF assms(1), of 0] Some x by simp
  have c: "curproc (pushpop s) = Ok p (pushpop s)" using user_memD(7) [OF d(5)] d(6) by simp
  show ?thesis
  proof (cases "first_idx (\<lambda>x. x = None) (p_ofile (ptable s ! p))")
    case None
    then show ?thesis using a c Some x
      by (simp add: sys_dup_def fdalloc_def orfail_def bindM_def getS_def ret_def)
  next
    case fd: (Some fd)
    let ?u = "upd_proc p (\<lambda>q. q\<lparr>p_ofile := (p_ofile q)[fd := Some f]\<rparr>) (pushpop s)"
    let ?t = "in_ftable (upd_file f (\<lambda>x. x\<lparr>f_ref := f_ref x + 1\<rparr>)) ?u"
    have fs: "f < length (files s)" "1 \<le> sint (f_ref (files s ! f))" "files ?u = files s" using assms(3) Some x by (auto simp: upd_proc_def pushpop_def effect_defs)
    have l: "lockset {} ?u" using lockset_pushpop [OF d(1)] by simp
    have "filedup f ?u = Ok f ?t"
      by (rule filedup_ok [OF l]) (use fs in auto)
    then have "sys_dup s = Ok (int fd) ?t"
      using a c fd by (simp add: sys_dup_def fdalloc_def orfail_def bindM_def seqM_def modS_def getS_def ret_def)
    moreover have "lockset {} ?t" by (rule lockset_in_ftable(1) [OF l]) simp_all
    moreover have "files ?t = (files s)[f := (files s ! f)\<lparr>f_ref := f_ref (files s ! f) + 1\<rparr>]"
      using fs(3) by (simp add: in_ftable_def upd_file_def effect_defs)
    moreover have "ptable ?t = (ptable s)[p := (ptable s ! p)\<lparr>p_ofile := (p_ofile (ptable s ! p))[fd := Some f]\<rparr>]"
      by (simp add: upd_proc_def)
    ultimately show ?thesis using Some x fd assms(2) by simp
  qed
qed

lemma file_frame_printed [simp]: "files (printed cs s) = files s" "inodes (printed cs s) = inodes (s :: 'a file_st_scheme)"
proof -
  have "files (putc c s) = files s" "inodes (putc c s) = inodes s" for c and s :: "'a file_st_scheme"
    by (simp_all add: putc_def Let_def)
  then show "files (printed cs s) = files s" "inodes (printed cs s) = inodes s"
    by (simp_all add: printed_def fold_frame [where f = files] fold_frame [where f = inodes] acq_def rel_def pushed_def popped_def
        upd_cpu_def upd_lock_def)
qed

lemma file_frame_pushpop [simp]: "files (pushpop s) = files s" "inodes (pushpop s) = inodes s"
  by (simp_all add: pushpop_def effect_defs)

text \<open>
  A system call number outside 1 to 22 (the number is signed) is reported on the console and the
  process continues with -1 in \<open>eax\<close>; apart from that word no memory and no process changes.
  Every number in range runs its entry of the table and leaves the result in \<open>eax\<close>.
\<close>

theorem syscall_result:
  assumes "user_mem p s" "con_ok s"
  defines "num \<equiv> sint (rd32 (mem s) (p_tf (ptable s ! p) + tf_eax))"
  shows "if 1 \<le> num \<and> num \<le> 22
     then \<forall>r t. (syscalls ! (nat num - 1)) (pushpop s) = Ok r t \<longrightarrow>
        (\<exists>u. syscall s = Ok () u \<and> rd32 (mem u) (p_tf (ptable t ! p) + tf_eax) = word_of_int r \<and> ptable u = ptable t)
     else \<exists>u. syscall s = Ok () u \<and> lockset {} u \<and> ptable u = ptable s \<and>
        mem u = wr32 (mem s) (p_tf (ptable s ! p) + tf_eax) (-1) \<and> files u = files s \<and> inodes u = inodes s"
proof (cases "1 \<le> num \<and> num \<le> 22")
  case True
  then show ?thesis
    using user_memD(7) [OF assms(1)] 
    by (auto simp: syscall_def bindM_def getS_def num_def Let_def put_tf_def modS_def upd_mem_def)
next
  case False
  note d = user_memD [OF assms(1)]
  let ?q = "ptable s ! p"
  let ?args = "[AInt (p_pid ?q), AStr (Some (str_of (p_name ?q))), AInt (rd32 (mem s) (p_tf ?q + tf_eax))]"
  obtain cs where cs: "cfmt (''%d %s: unknown sys call %d'' @ nl) ?args = Some cs" by (simp add: nl_def)
  have l: "lockset {} (pushpop s)" and o: "con_ok (pushpop s)"
    using lockset_pushpop [OF d(1)] assms(2) by (simp_all add: con_ok_def pushpop_def effect_defs)
  have k: "kprint (''%d %s: unknown sys call %d'' @ nl) ?args (pushpop s) = Ok () (printed cs (pushpop s))"
    by (rule cprintf_ok [OF l _ _ o cs]) simp_all
  have s: "syscall s = Ok () (upd_mem (\<lambda>m. wr32 m (p_tf ?q + tf_eax) (-1)) (printed cs (pushpop s)))"
    using False d(7) k by (auto simp: syscall_def bindM_def seqM_def getS_def num_def Let_def put_tf_def modS_def)
  have "lockset {} (printed cs (pushpop s))" by (rule lockset_printed [OF l]) simp_all
  then have "lockset {} (upd_mem (\<lambda>m. wr32 m (p_tf ?q + tf_eax) (-1)) (printed cs (pushpop s)))" by simp
  then show ?thesis using False s by (auto simp: upd_mem_def)
qed

text \<open>
  A process with one page of memory at address 0, its stack pointer at 16 and the three arguments 0, 0 and 3 above it;
  its descriptor 0 is open.
\<close>

definition demo_user :: "'x \<Rightarrow> 'x kern_st_scheme" where
  "demo_user x =
     (demo_file (kern_st_ext False 0 x))
       \<lparr>mem := wr32 (wr32 (wr32 (wr32 (\<lambda>_. 0) 0x80400000 0x401007) 0x80401000 0x402007) 0x80500044 16) 0x8040201C 3,
        ptable := [blank_proc\<lparr>p_state := RUNNING, p_pid := 2, p_sz := 4096, p_tf := 0x80500000,
                     p_ofile := Some 0 # replicate 15 None\<rparr>],
        files := [blank_file\<lparr>f_ref := 1\<rparr>]\<rparr>"

lemma first_page_xlate:
  assumes "unat va < 4096" "cr3 s = 0x400000" "rd32 (mem s) 0x80400000 = 0x401007" "rd32 (mem s) 0x80401000 = 0x402007"
  shows "xlate False va s = Some (0x80402000 + va)"
proof -
  have "(0xFFF :: u32) = mask 12" by (simp add: mask_eq_exp_minus_1)
  then have "va AND 0xFFF = take_bit 12 va" by (simp only: take_bit_eq_mask)
  then have "unat (drop_bit 22 va) = 0" "unat (drop_bit 12 va) = 0" "unat (va AND 0xFFF) = unat va"
    using assms(1) by (simp_all add: unat_drop_bit_eq drop_bit_eq_div unsigned_take_bit_eq take_bit_eq_mod unat_div unat_mod)
  then have "PDX va = 0" "PTX va = 0" "va AND 0xFFF = va" "\<not> KERNBASE \<le> va"
    using assms(1) by (simp_all add: PDX_def PTX_def unat_eq_0 word_unat_eq_iff [of "va AND _"] KERNBASE_def word_le_nat_alt)
  then show ?thesis using assms(2-) by (simp add: xlate_def PTE_P_def P2V_def KERNBASE_def PTE_ADDR_def)
qed

lemma demo_user_xlate: "unat va < 4096 \<Longrightarrow> xlate False va (demo_user x) = Some (0x80402000 + va)"
  by (rule first_page_xlate) (simp_all add: demo_user_def demo_file_def demo_fs_def demo_state_def rd32_def wr32_def)

lemma demo_user_mem: "user_mem 0 (demo_user x)"
  using demo_user_xlate [of _ x]
  by (auto simp: user_mem_def lockset_def demo_user_def demo_file_def demo_fs_def demo_state_def demo_vm_def cpu_found_def curcpu_def
      KERNBASE_def word_less_nat_alt)

lemma user_bytes_few: "user_bytes s a 3 = [user_byte s a, user_byte s (a + 1), user_byte s (a + 2)]"
  "user_bytes s a 4 = [user_byte s a, user_byte s (a + 1), user_byte s (a + 2), user_byte s (a + 3)]"
  by (simp_all add: user_bytes_def upt_conv_Cons)

lemma demo_user_bytes: "user_byte (demo_user x) 28 = 3" "user_byte (demo_user x) 29 = 0" "user_bytes (demo_user x) 0 3 = [0, 0, 0]"
  "user_bytes (demo_user x) 20 4 = [0, 0, 0, 0]" "user_bytes (demo_user x) 24 4 = [0, 0, 0, 0]" "user_bytes (demo_user x) 28 4 = [3, 0, 0, 0]"
proof -
  have m: "mem (demo_user x) = wr32 (wr32 (wr32 (wr32 (\<lambda>_. 0) 0x80400000 0x401007) 0x80401000 0x402007) 0x80500044 16) 0x8040201C 3"
    by (simp add: demo_user_def)
  have b: "user_byte (demo_user x) k = mem (demo_user x) (0x80402000 + k)" if "unat k < 4096" for k
    using demo_user_xlate [OF that, of x] by (simp add: user_byte_def)
  show "user_bytes (demo_user x) 0 3 = [0, 0, 0]" "user_bytes (demo_user x) 20 4 = [0, 0, 0, 0]" "user_bytes (demo_user x) 24 4 = [0, 0, 0, 0]"
    "user_bytes (demo_user x) 28 4 = [3, 0, 0, 0]"
    by (simp_all add: user_bytes_few b m wr32_def)
  show "user_byte (demo_user x) 28 = 3" "user_byte (demo_user x) 29 = 0" by (simp_all add: b m wr32_def)
qed

lemma demo_user_args: 
  "user_arg 0 (demo_user x) 0 = Some 0" "user_arg 0 (demo_user x) (Suc 0) = Some 0" "user_arg 0 (demo_user x) 2 = Some 3"
proof -
  have "p_tf (ptable (demo_user x) ! 0) = 0x80500000" "p_sz (ptable (demo_user x) ! 0) = 4096" by (simp_all add: demo_user_def)
  moreover have "rd32 (mem (demo_user x)) 0x80500044 = 16" by (simp add: demo_user_def rd32_def wr32_def)
  ultimately show "user_arg 0 (demo_user x) 0 = Some 0" "user_arg 0 (demo_user x) (Suc 0) = Some 0" "user_arg 0 (demo_user x) 2 = Some 3"
    by (simp_all add: user_arg_def user_word_def tf_esp_def demo_user_bytes dec32_def)
qed

theorem fetchstr_returns_witness: "\<exists>t. fetchstr 28 (demo_user ()) = Ok (Some [3]) t"
proof -
  have "p_sz (ptable (demo_user ()) ! 0) = 4096" by (simp add: demo_user_def)
  moreover have "user_bytes (demo_user ()) 28 4068 = 3 # 0 # user_bytes (demo_user ()) 30 4066"
    using user_bytes_Suc [of "demo_user ()" 28 4067] user_bytes_Suc [of "demo_user ()" 29 4066] by (simp add: demo_user_bytes)
  ultimately have "user_str 0 (demo_user ()) 28 = Some [3]" by (simp add: user_str_def)
  then show ?thesis using fetchstr_returns [OF demo_user_mem, of 28 "()"] by simp
qed


lemma demo_user_fd: "user_fd 0 (demo_user x) 0 = Some (0, 0)"
proof -
  have "p_ofile (ptable (demo_user x) ! 0) ! 0 = Some 0" by (simp add: demo_user_def)
  then show ?thesis by (simp add: user_fd_def demo_user_args)
qed

theorem sys_write_validates_witness:
  "sys_write (demo_user ()) = filewrite 0 [0, 0, 0] 3 (pushpop (demo_user ()))"
proof -
  have "user_range 0 (demo_user ()) 0 3" by (simp add: user_range_def demo_user_def)
  then show ?thesis
    using sys_write_validates [OF demo_user_mem, of "()"] by (simp add: demo_user_args demo_user_bytes demo_user_fd)
qed

theorem sys_dup_lowest_witness:
  "\<exists>t. sys_dup (demo_user ()) = Ok 1 t \<and> f_ref (files t ! 0) = 2"
proof -
  have s: "ptable (demo_user ()) ! 0 = blank_proc\<lparr>p_state := RUNNING, p_pid := 2, p_sz := 4096, p_tf := 0x80500000,
       p_ofile := Some 0 # replicate 15 None\<rparr>" "length (ptable (demo_user ())) = 1"
    "files (demo_user ()) = [blank_file\<lparr>f_ref := 1\<rparr>]" by (simp_all add: demo_user_def)
  have "first_idx (\<lambda>x. x = None) (Some 0 # replicate 15 (None :: nat option)) = Some 1" by (simp add: numeral_eq_Suc)
  then show ?thesis
    using sys_dup_lowest [OF demo_user_mem, of "()"] by (auto simp: s demo_user_fd simp del: first_idx.simps)
qed

theorem syscall_result_witness:
  "\<exists>u. syscall (demo_user ()) = Ok () u \<and> rd32 (mem u) 0x8050001C = -1"
proof -
  have s: "p_tf (ptable (demo_user ()) ! 0) = 0x80500000" by (simp add: demo_user_def)
  have e: "rd32 (mem (demo_user ())) 0x8050001C = 0" by (simp add: demo_user_def rd32_def wr32_def)
  have "con_ok (demo_user ())"
    by (simp add: con_ok_def screen_ok_def demo_user_def demo_file_def demo_fs_def demo_state_def demo_vm_def SCREEN_def)
  then show ?thesis using syscall_result [OF demo_user_mem, of "()"] by (auto simp: s e tf_eax_def)
qed

end
