(* ===== verification/Lineedit.thy ===== *)
theory Lineedit
  imports File
begin

text \<open>
  The console input of \<open>console.c\<close> and \<open>kbd.c\<close> as line editing: \<open>consoleintr\<close> refines \<open>edit_line\<close>, an edit function on the
  complete lines and the line being typed, for every device that hands out characters one by one
  (the keyboard and the serial port), and \<open>consoleread\<close> takes lines from it.
\<close>

section \<open>Typed lines\<close>

text \<open>
  The abstract state of the console input: the bytes of complete lines that nobody has read
  yet, and the line that is still being typed. \<open>edit_line\<close> is what a character does to it.
\<close>

definition edit_line :: "u8 \<Rightarrow> u8 list \<times> u8 list \<Rightarrow> u8 list \<times> u8 list" where
  "edit_line c x =
     (case x of (ready, line) \<Rightarrow>
        if c = 21 then (ready, [])
        else if c = 8 \<or> c = 127 then (ready, butlast line)
        else if c = 0 \<or> 128 \<le> length ready + length line then (ready, line)
        else let line = line @ [if c = 13 then 10 else c]
             in if last line = 10 \<or> last line = 4 \<or> length ready + length line = 128 then (ready @ line, [])
                else (ready, line))"

definition line_inv :: "u8 list \<times> u8 list \<Rightarrow> 'x cin_st_scheme \<Rightarrow> bool" where
  "line_inv x s \<longleftrightarrow>
     (case x of (ready, line) \<Rightarrow>
        length (in_buf s) = 2 ^ 7 \<and> ring_bytes 7 (in_buf s) (in_r s) (in_e s) = ready @ line \<and>
        unat (in_w s - in_r s) = length ready \<and> length ready + length line \<le> 128 \<and> 10 \<notin> set line)"

definition reader_awake :: "'x proc_st_scheme \<Rightarrow> bool" where
  "reader_awake s \<longleftrightarrow> (\<forall>p \<in> set (ptable s). \<not> (p_state p = SLEEPING \<and> p_chan p = C_input_r))"

lemma ring_bytes_unpush:
  assumes "e \<noteq> r"
  shows "ring_bytes k d r (e - 1) = butlast (ring_bytes k d r e)" "last (ring_bytes k d r e) = d ! (unat (e - 1) mod 2 ^ k)"
proof -
  have "0 < unat (e - r)" using assms by (simp add: unat_gt_0)
  then obtain n where n: "unat (e - r) = Suc n" using gr0_implies_Suc by blast
  have m: "unat (e - 1 - r) = n" using unat_minus_one [of "e - r"] assms n by (simp add: algebra_simps)
  then show "ring_bytes k d r (e - 1) = butlast (ring_bytes k d r e)"
    by (simp add: ring_bytes_def n map_butlast [symmetric])
  have "of_nat (unat (e - 1 - r)) = e - 1 - r" by simp
  then have "r + of_nat n = e - 1" using m by simp
  then show "last (ring_bytes k d r e) = d ! (unat (e - 1) mod 2 ^ k)" by (simp add: ring_bytes_def n)
qed

lemma line_invD:
  assumes "line_inv (ready, line) s"
  shows "unat (in_e s - in_r s) = length ready + length line" "in_e s = in_w s \<longleftrightarrow> line = []"
    "line \<noteq> [] \<Longrightarrow> in_e s \<noteq> in_r s \<and> in_buf s ! (unat (in_e s - 1) mod 2 ^ 7) = last line"
proof -
  show u: "unat (in_e s - in_r s) = length ready + length line"
    using assms length_ring_bytes [of 7 "in_buf s" "in_r s" "in_e s"] by (auto simp: line_inv_def)
  have "in_e s = in_w s \<longleftrightarrow> unat (in_e s - in_r s) = unat (in_w s - in_r s)" by (simp add: word_unat_eq_iff [symmetric])
  then show "in_e s = in_w s \<longleftrightarrow> line = []" using assms u by (simp add: line_inv_def)
  assume l: "line \<noteq> []"
  then have "unat (in_e s - in_r s) \<noteq> 0" using u by simp
  then have "in_e s \<noteq> in_r s" by auto
  moreover have "in_buf s ! (unat (in_e s - 1) mod 2 ^ 7) = last line"
    using ring_bytes_unpush(2) [OF calculation, of 7 "in_buf s"] assms l by (simp add: line_inv_def)
  ultimately show "in_e s \<noteq> in_r s \<and> in_buf s ! (unat (in_e s - 1) mod 2 ^ 7) = last line" by simp
qed

lemma cin_frame [simp]:
  "in_buf (acq l s) = in_buf s" "in_r (acq l s) = in_r s" "in_w (acq l s) = in_w s" "in_e (acq l s) = in_e s"
  "in_buf (rel l s) = in_buf s" "in_r (rel l s) = in_r s" "in_w (rel l s) = in_w s" "in_e (rel l s) = in_e s"
  "kbd_in (acq l s) = kbd_in s" "kbd_in (rel l s) = kbd_in s" "kbd_shift (acq l s) = kbd_shift s" "kbd_shift (rel l s) = kbd_shift s"
  "com_in (acq l s) = com_in s" "com_in (rel l s) = com_in s"
  by (simp_all add: effect_defs)

lemma cin_frame_putc [simp]:
  "in_buf (putc c s) = in_buf s" "in_r (putc c s) = in_r s" "in_w (putc c s) = in_w s" "in_e (putc c s) = in_e s"
  "kbd_in (putc c s) = kbd_in s" "kbd_shift (putc c s) = kbd_shift s" "com_in (putc c s) = com_in s" "uart (putc c s) = uart s"
  by (simp_all add: putc_def Let_def)

lemma cin_frame_woken [simp]:
  "in_buf (woken ch s) = in_buf s" "in_r (woken ch s) = in_r s" "in_w (woken ch s) = in_w s" "in_e (woken ch s) = in_e s"
  "kbd_in (woken ch s) = kbd_in s" "kbd_shift (woken ch s) = kbd_shift s" "com_in (woken ch s) = com_in s" "uart (woken ch s) = uart s"
  "con_ok (woken ch s) = con_ok s"
  by (simp_all add: woken_def con_ok_def)

lemma line_inv_frames [simp]:
  "line_inv x (putc c s) = line_inv x s" "line_inv x (woken ch s) = line_inv x s" "line_inv x (acq l s) = line_inv x s"
  "line_inv x (rel l s) = line_inv x s"
  by (simp_all add: line_inv_def)

section \<open>One character\<close>

abbreviation edited :: "'x cin_st_scheme \<Rightarrow> 'x cin_st_scheme" where
  "edited s \<equiv> putc BACKSPACE (s\<lparr>in_e := in_e s - 1\<rparr>)"

lemma lockset_cin [simp]:
  "lockset S (s\<lparr>in_e := e\<rparr>) = lockset S s" "lockset S (s\<lparr>in_buf := b\<rparr>) = lockset S s"
  "lockset S (s\<lparr>in_w := e\<rparr>) = lockset S s" "lockset S (s\<lparr>in_r := e\<rparr>) = lockset S s"
  "lockset S (s\<lparr>com_in := cs\<rparr>) = lockset S s" "lockset S (s\<lparr>kbd_in := cs\<rparr>) = lockset S s" "lockset S (s\<lparr>kbd_shift := h\<rparr>) = lockset S s"
  "con_ok (s\<lparr>in_e := e\<rparr>) = con_ok s" "con_ok (s\<lparr>in_buf := b\<rparr>) = con_ok s" "con_ok (s\<lparr>in_w := e\<rparr>) = con_ok s"
  "con_ok (s\<lparr>com_in := cs\<rparr>) = con_ok s" "con_ok (s\<lparr>kbd_in := cs\<rparr>) = con_ok s" "con_ok (s\<lparr>kbd_shift := h\<rparr>) = con_ok s"
  by (simp_all add: lockset_def cpu_found_def curcpu_def con_ok_def)

lemma curcpu_cin [simp]:
  "curcpu (s\<lparr>in_e := e\<rparr>) = curcpu s" "curcpu (s\<lparr>in_w := e\<rparr>) = curcpu s" "curcpu (s\<lparr>in_r := e\<rparr>) = curcpu s" "curcpu (s\<lparr>in_buf := b\<rparr>) = curcpu s"
  by (simp_all add: curcpu_def)

lemma rub_out:
  assumes "line_inv (ready, line) s" "line \<noteq> []" "con_ok s"
  shows "consputc BACKSPACE (s\<lparr>in_e := in_e s - 1\<rparr>) = Ok () (edited s)" "line_inv (ready, butlast line) (edited s)" "con_ok (edited s)"
proof -
  note d = line_invD [OF assms(1)]
  have "ring_bytes 7 (in_buf s) (in_r s) (in_e s - 1) = ready @ butlast line"
    using ring_bytes_unpush(1) [of "in_e s" "in_r s" 7 "in_buf s"] d(3) assms(1,2) by (simp add: line_inv_def butlast_append)
  moreover have "10 \<notin> set (butlast line)" using assms(1) by (auto simp: line_inv_def dest: in_set_butlastD)
  ultimately show "line_inv (ready, butlast line) (edited s)" using assms(1) by (auto simp: line_inv_def)
  show "consputc BACKSPACE (s\<lparr>in_e := in_e s - 1\<rparr>) = Ok () (edited s)" by (rule consputc_ok) (simp add: assms(3))
  show "con_ok (edited s)" by (rule con_ok_putc) (simp add: assms(3))
qed

definition typed :: "lockid set \<Rightarrow> u8 list \<times> u8 list \<Rightarrow> 'x cin_st_scheme \<Rightarrow> 'x cin_st_scheme \<Rightarrow> bool" where
  "typed S x s t \<longleftrightarrow> lockset S t \<and> con_ok t \<and> line_inv x t \<and> kbd_in t = kbd_in s \<and> kbd_shift t = kbd_shift s \<and> com_in t = com_in s \<and>
     uart t = uart s \<and> (ptable t = ptable s \<or> reader_awake t)"

lemma kill_line_ok:
  assumes "lockset S s" "con_ok s" "line_inv (ready, line) s" "length line < fuel"
  shows "\<exists>t. kill_line fuel s = Ok () t \<and> typed S (ready, []) s t \<and> ptable t = ptable s"
  using assms
proof (induction fuel arbitrary: s line)
  case 0
  then show ?case by simp
next
  case (Suc fuel)
  note d = line_invD [OF Suc.prems(3)]
  show ?case
  proof (cases "line = []")
    case True
    then show ?thesis using d(2) Suc.prems by (simp add: M_defs typed_def)
  next
    case False
    note r = rub_out [OF Suc.prems(3) False Suc.prems(2)]
    have bl: "length (butlast line) < fuel" using Suc.prems(4) False by (cases line) auto
    have "\<exists>t. kill_line fuel (edited s) = Ok () t \<and> typed S (ready, []) (edited s) t \<and> ptable t = ptable (edited s)"
      by (rule Suc.IH [where line = "butlast line"]) (use Suc.prems False r bl in simp_all)
    moreover have "last line \<noteq> 10" using last_in_set [OF False] Suc.prems(3) by (auto simp: line_inv_def)
    ultimately show ?thesis using False d(2) d(3) [OF False] r(1)
      by (auto simp: M_defs INPUT_BUF_def typed_def)
  qed
qed

lemma word_of_int_key: "0 \<le> c \<Longrightarrow> c < 256 \<Longrightarrow> uint (word_of_int c :: u8) = c"
  by (simp add: uint_word_of_int)

lemma put_input_ok:
  assumes "lockset S s" "L_ptable \<notin> S" "card S < 1000" "con_ok s" "line_inv (ready, line) s"
    and "length ready + length line < 128" "c \<noteq> 13"
  shows "\<exists>t. put_input (uint c) s = Ok () t \<and>
     (if c = 10 \<or> c = 4 \<or> length ready + length line = 127 then typed S (ready @ line @ [c], []) s t \<and> reader_awake t
      else typed S (ready, line @ [c]) s t \<and> ptable t = ptable s)"
proof -
  note d = line_invD [OF assms(5)]
  let ?u = "s\<lparr>in_buf := (in_buf s)[unat (in_e s) mod INPUT_BUF := c], in_e := in_e s + 1\<rparr>"
  let ?v = "putc (uint c) ?u"
  have rb: "ring_bytes 7 ((in_buf s)[unat (in_e s) mod 2 ^ 7 := c]) (in_r s) (in_e s + 1) = ready @ line @ [c]"
    using ring_bytes_push [of 7 "in_buf s" "in_e s" "in_r s" c] assms(5,6) d(1) by (simp add: line_inv_def)
  have len: "unat (in_e s + 1 - in_r s) = length ready + length line + 1"
    using arg_cong [OF rb, of length] by simp
  have p: "consputc (uint c) ?u = Ok () ?v" by (rule consputc_ok) (simp add: assms(4))
  have o: "con_ok ?v" by (rule con_ok_putc) (simp add: assms(4))
  have full: "in_e s + 1 = in_r s + 128 \<longleftrightarrow> length ready + length line = 127"
  proof -
    have "in_e s + 1 = in_r s + 128 \<longleftrightarrow> in_e s + 1 - in_r s = 128" by (auto simp: algebra_simps)
    also have "\<dots> \<longleftrightarrow> unat (in_e s + 1 - in_r s) = 128" by (simp add: word_unat_eq_iff)
    finally show ?thesis using len by simp
  qed
  have key: "uint c = 10 \<longleftrightarrow> c = 10" "uint c = 4 \<longleftrightarrow> c = 4" by (simp_all add: word_uint_eq_iff)
  show ?thesis
  proof (cases "c = 10 \<or> c = 4 \<or> length ready + length line = 127")
    case True
    let ?w = "?v\<lparr>in_w := in_e ?v\<rparr>"
    have l: "lockset S ?w" using assms(1) by simp
    have "wakeup C_input_r ?w = Ok () (woken C_input_r ?w)" by (rule wakeup_ok [OF l assms(2,3)])
    then have "put_input (uint c) s = Ok () (woken C_input_r ?w)"
      using p True full key by (auto simp: put_input_def M_defs INPUT_BUF_def)
    moreover have "line_inv (ready @ line @ [c], []) ?w"
      using rb len assms(5,6) by (simp add: line_inv_def INPUT_BUF_def)
    moreover have "reader_awake (woken C_input_r ?w)" by (auto simp: reader_awake_def awaken_def)
    ultimately show ?thesis
      using True lockset_woken [OF l assms(2,3), of C_input_r] o by (simp add: typed_def)
  next
    case False
    have "put_input (uint c) s = Ok () ?v"
      using p False full key by (auto simp: put_input_def M_defs INPUT_BUF_def)
    moreover have "line_inv (ready, line @ [c]) ?v"
      using rb len assms(5,6) False by (simp add: line_inv_def INPUT_BUF_def)
    ultimately show ?thesis using False assms(1) o by (simp add: typed_def)
  qed
qed

lemma input_char_ok:
  assumes "lockset S s" "L_ptable \<notin> S" "card S < 1000" "con_ok s" "line_inv x s"
  shows "\<exists>t. input_char (uint c) s = Ok () t \<and> typed S (edit_line c x) s t \<and> (fst (edit_line c x) \<noteq> fst x \<longrightarrow> reader_awake t)"
proof -
  obtain ready line where x: "x = (ready, line)" by force
  note inv = assms(5) [unfolded x]
  note d = line_invD [OF inv]
  have key: "uint c = k \<longleftrightarrow> c = word_of_int k" if "0 \<le> k" "k < 256" for k
    using that by (auto simp: uint_word_of_int)
  have room: "in_e s - in_r s < 128 \<longleftrightarrow> length ready + length line < 128" using d(1) by (simp add: word_less_nat_alt)
  consider "c = 21" | "c = 8 \<or> c = 127" | "c = 0 \<or> 128 \<le> length ready + length line" "c \<noteq> 21" "c \<noteq> 8" "c \<noteq> 127"
    | "c \<noteq> 21" "c \<noteq> 8" "c \<noteq> 127" "c \<noteq> 0" "length ready + length line < 128" by linarith
  then show ?thesis
  proof cases
    case 1
    have "unat (in_e s - in_w s) + 1 > length line"
    proof -
      have "in_w s - in_r s \<le> in_e s - in_r s" using d(1) inv by (simp add: word_le_nat_alt line_inv_def)
      from unat_sub [OF this] have "unat (in_e s - in_w s) = unat (in_e s - in_r s) - unat (in_w s - in_r s)" by simp
      then show ?thesis using d(1) inv by (simp add: line_inv_def)
    qed
    from kill_line_ok [OF assms(1,4) inv this] 1 show ?thesis
      by (auto simp: input_char_def x edit_line_def bindM_def getS_def)
  next
    case 2
    show ?thesis
    proof (cases "line = []")
      case True
      then show ?thesis using 2 d(2) inv assms(1,4)
        by (auto simp: input_char_def x edit_line_def M_defs typed_def key)
    next
      case False
      note r = rub_out [OF inv False assms(4)]
      show ?thesis using 2 False d(2) r assms(1)
        by (auto simp: input_char_def x edit_line_def M_defs typed_def key)
    qed
  next
    case 3
    then show ?thesis using assms(1,4) inv room
      by (auto simp: input_char_def x edit_line_def M_defs typed_def key)
  next
    case 4
    let ?c = "if c = 13 then 10 else c"
    have "?c \<noteq> 13" by simp
    note p = put_input_ok [OF assms(1-4) inv 4(5) this]
    have "input_char (uint c) s = put_input (uint ?c) s"
      using 4 room by (auto simp: input_char_def bindM_def getS_def whenM_def key)
    moreover obtain t where "put_input (uint ?c) s = Ok () t"
      "if ?c = 10 \<or> ?c = 4 \<or> length ready + length line = 127 then typed S (ready @ line @ [?c], []) s t \<and> reader_awake t
       else typed S (ready, line @ [?c]) s t \<and> ptable t = ptable s"
      using p by blast
    ultimately show ?thesis using 4 by (auto simp: x edit_line_def Let_def split: if_splits)
  qed
qed

section \<open>The interrupt handler\<close>

text \<open>
  \<open>consoleintr\<close> is called with the reader of a device. The locale says what it needs of one: the
  characters that wait in the device come out one by one, then -1, and reading them touches only the device.
\<close>

definition only_device :: "'x cin_st_scheme \<Rightarrow> 'x cin_st_scheme \<Rightarrow> bool" where
  "only_device s t \<longleftrightarrow> t = s\<lparr>kbd_in := kbd_in t, kbd_shift := kbd_shift t, com_in := com_in t\<rparr>"

lemma only_device_frame:
  assumes "only_device s t"
  shows "lockset S t = lockset S s" "con_ok t = con_ok s" "line_inv x t = line_inv x s" "ptable t = ptable s"
proof -
  obtain q h c where "t = s\<lparr>kbd_in := q, kbd_shift := h, com_in := c\<rparr>" using assms unfolding only_device_def by blast
  then show "lockset S t = lockset S s" "con_ok t = con_ok s" "line_inv x t = line_inv x s" "ptable t = ptable s"
    by (simp_all add: line_inv_def)
qed

locale char_source =
  fixes getc :: "('x cin_st_scheme, int) prog"
    and waiting_chars :: "'x cin_st_scheme \<Rightarrow> u8 list"
  assumes getc_none: "waiting_chars s = [] \<Longrightarrow> getc s = Ok (-1) s"
    and getc_next: "waiting_chars s = c # cs \<Longrightarrow> \<exists>t. getc s = Ok (uint c) t \<and> waiting_chars t = cs \<and> only_device s t"
    and chars_frame: "kbd_in t = kbd_in s \<Longrightarrow> kbd_shift t = kbd_shift s \<Longrightarrow> com_in t = com_in s \<Longrightarrow> uart t = uart s \<Longrightarrow>
      waiting_chars t = waiting_chars s"
begin

lemma consoleintr_loop_edits:
  assumes "lockset S s" "L_ptable \<notin> S" "card S < 1000" "con_ok s" "line_inv x s" "16 \<notin> set (waiting_chars s)"
    and "length (waiting_chars s) < fuel"
  shows "\<exists>t. consoleintr_loop fuel getc dump s = Ok dump t \<and> lockset S t \<and> con_ok t \<and> waiting_chars t = [] \<and>
     line_inv (fold edit_line (waiting_chars s) x) t \<and>
     (ptable t = ptable s \<and> fst (fold edit_line (waiting_chars s) x) = fst x \<or> reader_awake t)"
  using assms
proof (induction fuel arbitrary: s x)
  case 0
  then show ?case by simp
next
  case (Suc fuel)
  show ?case
  proof (cases "waiting_chars s")
    case Nil
    then show ?thesis using getc_none [OF Nil] Suc.prems by (simp add: M_defs)
  next
    case (Cons c cs)
    from getc_next [OF Cons] obtain t where t: "getc s = Ok (uint c) t" "waiting_chars t = cs" "only_device s t" by blast
    note f = only_device_frame [OF t(3)]
    obtain u where u: "input_char (uint c) t = Ok () u" "typed S (edit_line c x) t u"
      "fst (edit_line c x) \<noteq> fst x \<longrightarrow> reader_awake u"
      using input_char_ok [of S t x c] Suc.prems f by blast
    have cu: "waiting_chars u = cs" using u(2) t(2) chars_frame [of u t] by (simp add: typed_def)
    have "\<exists>v. consoleintr_loop fuel getc dump u = Ok dump v \<and> lockset S v \<and> con_ok v \<and> waiting_chars v = [] \<and>
       line_inv (fold edit_line (waiting_chars u) (edit_line c x)) v \<and>
       (ptable v = ptable u \<and> fst (fold edit_line (waiting_chars u) (edit_line c x)) = fst (edit_line c x) \<or> reader_awake v)"
      by (rule Suc.IH) (use Suc.prems u(2) cu Cons in \<open>auto simp: typed_def\<close>)
    then obtain v where v: "consoleintr_loop fuel getc dump u = Ok dump v" "lockset S v" "con_ok v" "waiting_chars v = []"
       "line_inv (fold edit_line cs (edit_line c x)) v"
       "ptable v = ptable u \<and> fst (fold edit_line cs (edit_line c x)) = fst (edit_line c x) \<or> reader_awake v"
      unfolding cu by blast
    have "uint c \<noteq> 16" using Suc.prems(6) Cons by (auto simp: word_uint_eq_iff)
    then have "consoleintr_loop (Suc fuel) getc dump s = Ok dump v"
      using t(1) u(1) v(1) uint_ge_0 [of c] by (simp add: M_defs)
    moreover have "ptable v = ptable s \<and> fst (fold edit_line cs (edit_line c x)) = fst x \<or> reader_awake v"
      using v(6) u(2,3) f(4) by (auto simp: typed_def reader_awake_def)
    ultimately show ?thesis using v Cons by auto
  qed
qed

lemma consoleintr_edits:
  assumes "lockset {} s" "con_ok s" "line_inv x s" "16 \<notin> set (waiting_chars s)" "length (waiting_chars s) < fuel"
  shows "\<exists>t. consoleintr fuel getc s = Ok () t \<and> lockset {} t \<and> con_ok t \<and> waiting_chars t = [] \<and>
     line_inv (fold edit_line (waiting_chars s) x) t \<and>
     (ptable t = ptable s \<and> fst (fold edit_line (waiting_chars s) x) = fst x \<or> reader_awake t)"
proof -
  have l: "lockset {L_cons} (acq L_cons s)" using lockset_acq [OF assms(1), of L_cons] by simp
  have "kbd_in (acq L_cons s) = kbd_in s" "kbd_shift (acq L_cons s) = kbd_shift s" "com_in (acq L_cons s) = com_in s" "uart (acq L_cons s) = uart s"
    by simp_all
  then have c: "waiting_chars (acq L_cons s) = waiting_chars s" by (rule chars_frame)
  obtain t where t: "consoleintr_loop fuel getc False (acq L_cons s) = Ok False t" "lockset {L_cons} t" "con_ok t" "waiting_chars t = []"
     "line_inv (fold edit_line (waiting_chars s) x) t"
     "ptable t = ptable (acq L_cons s) \<and> fst (fold edit_line (waiting_chars s) x) = fst x \<or> reader_awake t"
    using consoleintr_loop_edits [OF l _ _ _ _ _ assms(5) [folded c], of x False] assms(2-4) c by auto
  have "kbd_in (rel L_cons t) = kbd_in t" "kbd_shift (rel L_cons t) = kbd_shift t" "com_in (rel L_cons t) = com_in t" "uart (rel L_cons t) = uart t"
    by simp_all
  then have "waiting_chars (rel L_cons t) = waiting_chars t" by (rule chars_frame)
  moreover have "consoleintr fuel getc s = Ok () (rel L_cons t)"
    using acquire_ok [OF assms(1), of L_cons] t(1) release_ok [OF t(2), of L_cons] by (simp add: consoleintr_def M_defs)
  moreover have "lockset {} (rel L_cons t)" using lockset_rel [OF t(2), of L_cons] by simp
  ultimately show ?thesis using t by (auto simp: reader_awake_def)
qed

end

text \<open>The characters that a sequence of scan codes stands for.\<close>

fun kbd_chars :: "u8 \<Rightarrow> u8 list \<Rightarrow> u8 list" where
  "kbd_chars h [] = []"
| "kbd_chars h (d # ds) = snd (kbd_code h d) # kbd_chars (fst (kbd_code h d)) ds"

lemma length_kbd_chars [simp]: "length (kbd_chars h ds) = length ds"
  by (induction ds arbitrary: h) simp_all

interpretation keyboard: char_source kbdgetc "\<lambda>s. kbd_chars (kbd_shift s) (kbd_in s)"
proof
  fix s :: "'x cin_st_scheme" assume "kbd_chars (kbd_shift s) (kbd_in s) = []"
  then show "kbdgetc s = Ok (-1) s" by (cases "kbd_in s") (simp_all add: kbdgetc_def M_defs)
next
  fix s :: "'x cin_st_scheme" and c cs assume "kbd_chars (kbd_shift s) (kbd_in s) = c # cs"
  then show "\<exists>t. kbdgetc s = Ok (uint c) t \<and> kbd_chars (kbd_shift t) (kbd_in t) = cs \<and> only_device s t"
    by (cases "kbd_in s") (auto simp: kbdgetc_def M_defs only_device_def)
qed simp

interpretation serial: char_source uartgetc "\<lambda>s. if uart s then com_in s else []"
proof
  fix s :: "'x cin_st_scheme" assume "(if uart s then com_in s else []) = []"
  then show "uartgetc s = Ok (-1) s" by (auto simp: uartgetc_def M_defs split: if_splits)
next
  fix s :: "'x cin_st_scheme" and c cs assume "(if uart s then com_in s else []) = c # cs"
  then show "\<exists>t. uartgetc s = Ok (uint c) t \<and> (if uart t then com_in t else []) = cs \<and> only_device s t"
    by (auto simp: uartgetc_def M_defs only_device_def split: if_splits)
qed simp

text \<open>
  C19: The keyboard interrupt implements line editing. Whatever scan codes wait in the keyboard, the handler
  returns with all of them consumed, and the input buffer, a ring with three free-running indices that wrap
  around, stands for the lines that \<open>edit_line\<close> gives for the characters typed: backspace and kill act on
  the line being typed only, a complete line can no longer be changed, and nothing typed is lost
  while there is room. Whenever a line has been completed, no reader of the console is left asleep.
\<close>

theorem kbdintr_edits_lines:
  assumes "lockset {} s" "con_ok s" "line_inv x s" "16 \<notin> set (kbd_chars (kbd_shift s) (kbd_in s))"
  shows "\<exists>t. kbdintr s = Ok () t \<and> lockset {} t \<and> con_ok t \<and> kbd_in t = [] \<and>
     line_inv (fold edit_line (kbd_chars (kbd_shift s) (kbd_in s)) x) t \<and>
     (fst (fold edit_line (kbd_chars (kbd_shift s) (kbd_in s)) x) \<noteq> fst x \<longrightarrow> reader_awake t)"
proof -
  have "length (kbd_chars (kbd_shift s) (kbd_in s)) < length (kbd_in s) + 1" by simp
  from keyboard.consoleintr_edits [OF assms this] obtain t where t: "consoleintr (length (kbd_in s) + 1) kbdgetc s = Ok () t"
    "lockset {} t" "con_ok t" "kbd_chars (kbd_shift t) (kbd_in t) = []" "line_inv (fold edit_line (kbd_chars (kbd_shift s) (kbd_in s)) x) t"
    "ptable t = ptable s \<and> fst (fold edit_line (kbd_chars (kbd_shift s) (kbd_in s)) x) = fst x \<or> reader_awake t" by blast
  have "kbd_in t = []" using t(4) by (cases "kbd_in t") simp_all
  then show ?thesis using t by (auto simp: kbdintr_def bindM_def getS_def)
qed

section \<open>Reading a line\<close>

text \<open>
  What a read of at most \<open>n\<close> bytes takes from the complete lines: up to \<open>n\<close> bytes, but nothing after a newline. Control-D ends
  the input; when bytes have been taken before it, it stays for the next read. \<open>None\<close>: not enough
  input has arrived yet.
\<close>

fun take_line :: "bool \<Rightarrow> nat \<Rightarrow> u8 list \<Rightarrow> (u8 list \<times> u8 list) option" where
  "take_line got 0 ready = Some ([], ready)"
| "take_line got (Suc n) [] = None"
| "take_line got (Suc n) (c # ready) =
     (if c = 4 then Some ([], if got then c # ready else ready)
      else if c = 10 then Some ([c], ready)
      else map_option (\<lambda>(bs, r). (c # bs, r)) (take_line True n ready))"

abbreviation popped_char :: "'x cin_st_scheme \<Rightarrow> 'x cin_st_scheme" where
  "popped_char s \<equiv> s\<lparr>in_r := in_r s + 1\<rparr>"

lemma line_inv_pop:
  assumes "line_inv (c # ready, line) s"
  shows "in_r s \<noteq> in_w s" "in_buf s ! (unat (in_r s) mod 2 ^ 7) = c" "line_inv (ready, line) (popped_char s)"
proof -
  have ne: "in_e s \<noteq> in_r s" using line_invD(1) [OF assms] by auto
  show w: "in_r s \<noteq> in_w s" using assms by (auto simp: line_inv_def)
  have r: "in_buf s ! (unat (in_r s) mod 2 ^ 7) = c" "ring_bytes 7 (in_buf s) (in_r s + 1) (in_e s) = ready @ line"
    using ring_bytes_pop [OF ne, of 7 "in_buf s"] assms by (simp_all add: line_inv_def)
  moreover have "unat (in_w s - (in_r s + 1)) = length ready"
    using unat_sub_one [of "in_w s" "in_r s"] w assms by (simp add: line_inv_def)
  ultimately show "in_buf s ! (unat (in_r s) mod 2 ^ 7) = c" "line_inv (ready, line) (popped_char s)"
    using assms by (auto simp: line_inv_def)
qed

lemma consoleread_loop_takes:
  assumes "line_inv (ready, line) s" "take_line (0 < length acc) n ready = Some (bs, rest)" "n < fuel"
    and "target = int (length acc) + int n"
  shows "\<exists>t. consoleread_loop fuel ip target (int n) acc s = consoleread_end ip (int (length acc + length bs)) (acc @ bs) t \<and>
     line_inv (rest, line) t \<and> (\<exists>r. t = s\<lparr>in_r := r\<rparr>)"
  using assms
proof (induction fuel arbitrary: s acc n ready bs)
  case 0
  then show ?case by simp
next
  case (Suc fuel)
  show ?case
  proof (cases "n = 0")
    case True
    then show ?thesis using Suc.prems by (auto intro!: exI [of _ s] exI [of _ "in_r s"])
  next
    case False
    then obtain m where n: "n = Suc m" by (cases n) auto
    obtain c ready' where rd: "ready = c # ready'" using Suc.prems(2) n by (cases ready) auto
    note p = line_inv_pop [OF Suc.prems(1) [unfolded rd]]
    have step: "consoleread_loop (Suc fuel) ip target (int n) acc s =
       (if c = 4 then seqM (whenM (0 < length acc) (modS (\<lambda>s. s\<lparr>in_r := in_r s - 1\<rparr>))) (consoleread_end ip (int (length acc)) acc) (popped_char s)
        else if c = 10 then consoleread_end ip (int (length acc) + 1) (acc @ [c]) (popped_char s)
        else consoleread_loop fuel ip target (int m) (acc @ [c]) (popped_char s))"
      using p(1,2) n Suc.prems(4) by (simp add: bindM_def seqM_def getS_def modS_def INPUT_BUF_def add.commute)
    consider "c = 4" | "c = 10" | "c \<noteq> 4" "c \<noteq> 10" by blast
    then show ?thesis
    proof cases
      case 1
      show ?thesis
      proof (cases "0 < length acc")
        case True
        have "s\<lparr>in_r := in_r s + 1 - 1\<rparr> = s" by simp
        then show ?thesis unfolding step using 1 True Suc.prems(1,2) n rd
          by (auto simp: M_defs intro!: exI [of _ s] exI [of _ "in_r s"])
      next
        case False
        then show ?thesis unfolding step using 1 Suc.prems(2) n rd p(3)
          by (auto simp: M_defs intro!: exI [of _ "popped_char s"])
      qed
    next
      case 2
      then show ?thesis unfolding step using Suc.prems(2) n rd p(3)
        by (auto intro!: exI [of _ "popped_char s"] simp: add.commute [of 1])
    next
      case 3
      then obtain bs' where b: "take_line True m ready' = Some (bs', rest)" "bs = c # bs'"
        using Suc.prems(2) n rd by auto
      have "\<exists>t. consoleread_loop fuel ip target (int m) (acc @ [c]) (popped_char s) =
          consoleread_end ip (int (length (acc @ [c]) + length bs')) ((acc @ [c]) @ bs') t \<and>
          line_inv (rest, line) t \<and> (\<exists>r. t = (popped_char s)\<lparr>in_r := r\<rparr>)"
        by (rule Suc.IH) (use p(3) b Suc.prems(3,4) n in simp_all)
      then show ?thesis unfolding step using 3 b by auto
    qed
  qed
qed

lemma consoleread_loop_waits:
  assumes "line_inv (ready, line) s" "take_line (0 < length acc) n ready = None" "n < fuel" "lockset {L_cons} s"
    and "target = int (length acc) + int n" "c_proc (mycpu_of s) = Some me" "me < length (ptable s)" "p_killed (ptable s ! me) = 0"
  shows "\<exists>t. consoleread_loop fuel ip target (int n) acc s = Wait Switched t \<and> lockset {L_ptable} t \<and>
     p_state (ptable t ! me) = SLEEPING \<and> p_chan (ptable t ! me) = C_input_r \<and> line_inv ([], line) t"
  using assms
proof (induction fuel arbitrary: s acc n ready)
  case 0
  then show ?case by simp
next
  case (Suc fuel)
  obtain m where n: "n = Suc m" using Suc.prems(2) by (cases n) auto
  show ?case
  proof (cases ready)
    case Nil
    then have e: "in_r s = in_w s" using Suc.prems(1) by (simp add: line_inv_def unat_eq_0)
    have "curproc s = Ok me s" using curproc_ok [OF Suc.prems(4,6)] pushpop_held [OF Suc.prems(4)] by simp
    then have "consoleread_loop (Suc fuel) ip target (int n) acc s = Wait Switched (slept me C_input_r L_cons s)"
      using e n Suc.prems(8) sleep_ok [OF Suc.prems(4,6,7)] by (simp add: bindM_def getS_def)
    moreover have "line_inv ([], line) (slept me C_input_r L_cons s)"
      using Suc.prems(1) Nil by (simp add: line_inv_def slept_def upd_proc_def)
    ultimately show ?thesis
      using lockset_slept [OF Suc.prems(4)] Suc.prems(7) by (simp add: slept_def account_run_def)
  next
    case (Cons c ready')
    note p = line_inv_pop [OF Suc.prems(1) [unfolded Cons]]
    have c: "c \<noteq> 4" "c \<noteq> 10" "take_line True m ready' = None"
      using Suc.prems(2) n Cons by (auto split: if_splits)
    have "consoleread_loop (Suc fuel) ip target (int n) acc s = consoleread_loop fuel ip target (int m) (acc @ [c]) (popped_char s)"
      using p(1,2) n c by (simp add: bindM_def seqM_def getS_def modS_def INPUT_BUF_def)
    moreover have "\<exists>t. consoleread_loop fuel ip target (int m) (acc @ [c]) (popped_char s) = Wait Switched t \<and> lockset {L_ptable} t \<and>
       p_state (ptable t ! me) = SLEEPING \<and> p_chan (ptable t ! me) = C_input_r \<and> line_inv ([], line) t"
      by (rule Suc.IH) (use p(3) c Suc.prems n in simp_all)
    ultimately show ?thesis by simp
  qed
qed

text \<open>
  C34: A read of \<open>n\<close> bytes from the console takes from the complete lines exactly what \<open>take_line\<close> says, and leaves the rest and the
  line being typed; until that much input has arrived the reader sleeps, with the
  console unlocked, where the completion of a line wakes it.
\<close>

theorem consoleread_takes_line:
  assumes "line_inv (ready, line) s" "lockset {L_cons} s"
    and "c_proc (mycpu_of s) = Some me" "me < length (ptable s)" "p_killed (ptable s ! me) = 0"
  shows "case take_line False n ready of
       Some (bs, rest) \<Rightarrow> \<exists>t. consoleread_loop (n + 1) ip (int n) (int n) [] s = consoleread_end ip (int (length bs)) bs t \<and>
          line_inv (rest, line) t \<and> (\<exists>r. t = s\<lparr>in_r := r\<rparr>)
     | None \<Rightarrow> \<exists>t. consoleread_loop (n + 1) ip (int n) (int n) [] s = Wait Switched t \<and> lockset {L_ptable} t \<and>
          p_state (ptable t ! me) = SLEEPING \<and> p_chan (ptable t ! me) = C_input_r \<and> line_inv ([], line) t"
  using consoleread_loop_takes [OF assms(1), of "[]" n _ _ "n + 1"]
    consoleread_loop_waits [OF assms(1), of "[]" n "n + 1"] assms(2-5)
  by (auto split: option.splits)

text \<open>The keys a, b, backspace and enter, with the release of the first.\<close>

definition demo_typed :: "unit file_st_scheme" where
  "demo_typed = (demo_file ())\<lparr>kbd_in := [0x1E, 0x9E, 0x30, 0x0E, 0x1C]\<rparr>"

lemma demo_file_line: "line_inv ([], []) (demo_file x)" "con_ok (demo_file x)" "kbd_shift (demo_file x) = 0"
  by (simp_all add: line_inv_def ring_bytes_def con_ok_def screen_ok_def demo_file_def demo_fs_def demo_state_def demo_vm_def SCREEN_def)

theorem kbdintr_edits_lines_witness:
  "\<exists>t. kbdintr demo_typed = Ok () t \<and> kbd_in t = [] \<and> line_inv ([97, 10], []) t"
proof -
  have k: "kbd_chars 0 [0x1E, 0x9E, 0x30, 0x0E, 0x1C] = [97, 0, 98, 8, 10]" by code_simp
  have e: "fold edit_line [97, 0, 98, 8, 10] ([], []) = ([97, 10], [])" by code_simp
  have d: "kbd_in demo_typed = [0x1E, 0x9E, 0x30, 0x0E, 0x1C]" "kbd_shift demo_typed = 0"
    using demo_file_line(3) [of "()"] by (simp_all add: demo_typed_def)
  have i: "lockset {} demo_typed" "con_ok demo_typed" "line_inv ([], []) demo_typed"
    using demo_file_line [of "()"] by (simp_all add: demo_typed_def line_inv_def)
  show ?thesis using kbdintr_edits_lines [OF i, unfolded d k e] by auto
qed

theorem consoleread_takes_line_witness:
  "\<exists>t. consoleread_loop 6 0 5 5 [] ((acq L_cons (demo_file ()))\<lparr>in_buf := [104, 105, 10, 120] @ replicate 124 0, in_w := 4, in_e := 4\<rparr>) =
     consoleread_end 0 3 [104, 105, 10] t \<and> line_inv ([120], []) t"
proof -
  let ?s = "(acq L_cons (demo_file ()))\<lparr>in_buf := [104, 105, 10, 120] @ replicate 124 0, in_w := 4, in_e := 4\<rparr>"
  have r: "in_r (demo_file ()) = 0" "c_proc (mycpu_of (demo_file ())) = Some 0" "ptable (demo_file ()) = demo_table"
    by (simp_all add: demo_file_def demo_fs_def demo_state_def demo_vm_def curcpu_def)
  have l: "lockset {L_cons} ?s" using lockset_acq [of "{}" "demo_file ()" L_cons] by simp
  have i: "line_inv ([104, 105, 10, 120], []) ?s"
    by (simp add: line_inv_def ring_bytes_def r upt_conv_Cons)
  have p: "c_proc (mycpu_of ?s) = Some 0" "0 < length (ptable ?s)" "p_killed (ptable ?s ! 0) = 0"
    using r by (simp_all add: demo_table_def blank_proc_def)
  have t: "take_line False 5 [104, 105, 10, 120] = Some ([104, 105, 10], [120])" by code_simp
  show ?thesis using consoleread_takes_line [OF i l p, of 5 0] by (auto simp: t)
qed

end
