(* ===== verification/Grep.thy ===== *)
theory Grep
  imports Prelude
begin

text \<open>
  The user program \<open>grep.c\<close>: the pattern matcher (\<open>match\<close>, \<open>matchhere\<close>, \<open>matchstar\<close>) against the languages its patterns
  stand for, and the loop of \<open>grep\<close> over a file read in pieces through a buffer of 1024 bytes.
\<close>

section \<open>The matcher\<close>

text \<open>
  C strings are the lists of their bytes before the terminating zero: a test of a byte against
  zero is a test for the end of the list.
\<close>

fun matchhere :: "u8 list \<Rightarrow> u8 list \<Rightarrow> bool"
  and matchstar :: "u8 \<Rightarrow> u8 list \<Rightarrow> u8 list \<Rightarrow> bool" where
  "matchhere re str =
     (if re = [] then True
      else if tl re \<noteq> [] \<and> re ! 1 = 42 then matchstar (hd re) (drop 2 re) str
      else if hd re = 36 \<and> tl re = [] then str = []
      else if str \<noteq> [] \<and> (hd re = 46 \<or> hd re = hd str) then matchhere (tl re) (tl str)
      else False)"
| "matchstar c re str =
     (if matchhere re str then True
      else if str \<noteq> [] \<and> (hd str = c \<or> c = 46) then matchstar c re (tl str)
      else False)"

fun match_loop :: "u8 list \<Rightarrow> u8 list \<Rightarrow> bool" where
  "match_loop re str =
     (if matchhere re str then True
      else if str \<noteq> [] then match_loop re (tl str)
      else False)"

definition match :: "u8 list \<Rightarrow> u8 list \<Rightarrow> bool" where
  "match re str =
     (if re \<noteq> [] \<and> hd re = 94 then matchhere (tl re) str
      else match_loop re str)"

text \<open>
  What patterns mean: \<open>pat_lang re\<close> is the set of texts that a pattern without anchors describes, and
  a final \<open>$\<close> pins the match to the end of the str.
\<close>

definition byte_of :: "u8 \<Rightarrow> u8 set" where
  "byte_of c = (if c = 46 then UNIV else {c})"

definition stars :: "u8 set \<Rightarrow> u8 list set" where
  "stars C = {w. set w \<subseteq> C}"

function pat_lang :: "u8 list \<Rightarrow> u8 list set" where
  "pat_lang [] = {[]}"
| "pat_lang (c # 42 # re) = {u @ v | u v. u \<in> stars (byte_of c) \<and> v \<in> pat_lang re}"
| "re = [] \<or> hd re \<noteq> 42 \<Longrightarrow> pat_lang (c # re) = {d # v | d v. d \<in> byte_of c \<and> v \<in> pat_lang re}"
  by (auto, metis list.exhaust list.sel(1))
termination by lexicographic_order

definition here :: "u8 list \<Rightarrow> u8 list \<Rightarrow> bool" where
  "here re str \<longleftrightarrow>
     (if re \<noteq> [] \<and> last re = 36 then str \<in> pat_lang (butlast re)
      else \<exists>u v. str = u @ v \<and> u \<in> pat_lang re)"

declare matchhere.simps [simp del] matchstar.simps [simp del] match_loop.simps [simp del]

lemma here_Nil: "here [] str"
  by (simp add: here_def)

lemma here_dollar: "here [36] str \<longleftrightarrow> str = []"
  by (simp add: here_def)

lemma here_star: "here (c # 42 # re) str \<longleftrightarrow> (\<exists>u v. str = u @ v \<and> u \<in> stars (byte_of c) \<and> here re v)"
proof (cases "re = []")
  case True
  then show ?thesis by (auto simp: here_def)
next
  case False
  then show ?thesis by (auto simp: here_def) (metis append.assoc)+
qed

lemma pat_lang_one:
  assumes "re = [] \<or> hd re \<noteq> 42"
  shows "u \<in> pat_lang (c # re) \<longleftrightarrow> u \<noteq> [] \<and> hd u \<in> byte_of c \<and> tl u \<in> pat_lang re"
  using pat_lang.simps(3) [OF assms, of c] by (cases u) auto

lemma ex_split_Cons:
  "(\<exists>u v. str = u @ v \<and> u \<noteq> [] \<and> P (hd u) \<and> Q (tl u)) \<longleftrightarrow> str \<noteq> [] \<and> P (hd str) \<and> (\<exists>u v. tl str = u @ v \<and> Q u)"
proof (intro iffI)
  assume "\<exists>u v. str = u @ v \<and> u \<noteq> [] \<and> P (hd u) \<and> Q (tl u)"
  then obtain u v where "str = u @ v" "u \<noteq> []" "P (hd u)" "Q (tl u)" by blast
  then show "str \<noteq> [] \<and> P (hd str) \<and> (\<exists>u v. tl str = u @ v \<and> Q u)" by (cases u) auto
next
  assume "str \<noteq> [] \<and> P (hd str) \<and> (\<exists>u v. tl str = u @ v \<and> Q u)"
  then obtain u v where "str = (hd str # u) @ v" "P (hd str)" "Q u" by (cases str) auto
  then show "\<exists>u v. str = u @ v \<and> u \<noteq> [] \<and> P (hd u) \<and> Q (tl u)" by (intro exI [of _ "hd str # u"] exI [of _ v]) simp
qed

lemma here_one:
  assumes "re = [] \<or> hd re \<noteq> 42" "re \<noteq> [] \<or> c \<noteq> 36"
  shows "here (c # re) str \<longleftrightarrow> str \<noteq> [] \<and> hd str \<in> byte_of c \<and> here re (tl str)"
proof (cases "re \<noteq> [] \<and> last re = 36")
  case True
  then have "butlast re = [] \<or> hd (butlast re) \<noteq> 42" using assms(1) by (cases re) auto
  then show ?thesis using True by (cases str) (simp_all add: here_def pat_lang_one)
next
  case False
  then have n: "\<not> (c # re \<noteq> [] \<and> last (c # re) = 36)" using assms(2) by auto
  show ?thesis unfolding here_def if_not_P [OF n] if_not_P [OF False] pat_lang_one [OF assms(1)] by (rule ex_split_Cons)
qed

lemma matchhere_here:
  "matchhere re str \<longleftrightarrow> here re str"
  "matchstar c re str \<longleftrightarrow> (\<exists>u v. str = u @ v \<and> u \<in> stars (byte_of c) \<and> here re v)"
proof (induction re str and c re str rule: matchhere_matchstar.induct)
  case (1 re str)
  show ?case
  proof (cases re)
    case Nil
    then show ?thesis by (simp add: matchhere.simps here_Nil)
  next
    case (Cons c rs)
    consider (star) "rs \<noteq> []" "hd rs = 42" | (dollar) "rs = []" "c = 36" | (one) "rs = [] \<or> hd rs \<noteq> 42" "rs \<noteq> [] \<or> c \<noteq> 36" by blast
    then show ?thesis
    proof cases
      case star
      then obtain rs' where r: "rs = 42 # rs'" by (cases rs) auto
      then show ?thesis using 1(1) Cons by (subst matchhere.simps) (simp add: here_star)
    next
      case dollar
      then show ?thesis using Cons by (subst matchhere.simps) (simp add: here_dollar)
    next
      case one
      then have "matchhere re str \<longleftrightarrow> str \<noteq> [] \<and> (c = 46 \<or> c = hd str) \<and> matchhere rs (tl str)"
        using Cons by (subst matchhere.simps) (auto simp: nth_Cons' hd_conv_nth)
      moreover have "matchhere rs (tl str) \<longleftrightarrow> here rs (tl str)" if "str \<noteq> []" "c = 46 \<or> c = hd str"
        using 1(2) Cons one that by (cases rs) auto
      ultimately show ?thesis using here_one [OF one, of str] Cons by (auto simp: byte_of_def)
    qed
  qed
next
  case (2 c re str)
  show ?case
  proof (cases "here re str")
    case True
    have "str = [] @ str" "[] \<in> stars (byte_of c)" by (simp_all add: stars_def)
    moreover have "matchstar c re str" using True 2(1) by (subst matchstar.simps) simp
    ultimately show ?thesis using True by blast
  next
    case False
    then have "matchstar c re str \<longleftrightarrow> str \<noteq> [] \<and> hd str \<in> byte_of c \<and> matchstar c re (tl str)"
      using 2(1) by (subst matchstar.simps) (auto simp: byte_of_def)
    also have "\<dots> \<longleftrightarrow> str \<noteq> [] \<and> hd str \<in> byte_of c \<and> (\<exists>u v. tl str = u @ v \<and> u \<in> stars (byte_of c) \<and> here re v)"
      using 2 False by (auto simp: byte_of_def split: if_splits)
    also have "\<dots> \<longleftrightarrow> (\<exists>u v. str = u @ v \<and> u \<in> stars (byte_of c) \<and> here re v)"
    proof (intro iffI)
      assume "str \<noteq> [] \<and> hd str \<in> byte_of c \<and> (\<exists>u v. tl str = u @ v \<and> u \<in> stars (byte_of c) \<and> here re v)"
      then obtain u v where "str = (hd str # u) @ v" "hd str # u \<in> stars (byte_of c)" "here re v" by (cases str) (auto simp: stars_def)
      then show "\<exists>u v. str = u @ v \<and> u \<in> stars (byte_of c) \<and> here re v" by blast
    next
      assume "\<exists>u v. str = u @ v \<and> u \<in> stars (byte_of c) \<and> here re v"
      then obtain u v where "str = u @ v" "u \<in> stars (byte_of c)" "here re v" by blast
      with False show "str \<noteq> [] \<and> hd str \<in> byte_of c \<and> (\<exists>u v. tl str = u @ v \<and> u \<in> stars (byte_of c) \<and> here re v)"
        by (cases u) (auto simp: stars_def)
    qed
    finally show ?thesis .
  qed
qed

lemma match_loop_here: "match_loop re str \<longleftrightarrow> (\<exists>x y. str = x @ y \<and> here re y)"
proof (induction re str rule: match_loop.induct)
  case (1 re str)
  show ?case
  proof (cases "here re str")
    case True
    then show ?thesis by (subst match_loop.simps) (auto simp: matchhere_here)
  next
    case False
    then have "match_loop re str \<longleftrightarrow> str \<noteq> [] \<and> (\<exists>x y. tl str = x @ y \<and> here re y)"
      using 1 by (subst match_loop.simps) (auto simp: matchhere_here)
    also have "\<dots> \<longleftrightarrow> (\<exists>x y. str = x @ y \<and> here re y)"
    proof (intro iffI)
      assume "\<exists>x y. str = x @ y \<and> here re y"
      then obtain x y where "str = x @ y" "here re y" by blast
      with False show "str \<noteq> [] \<and> (\<exists>x y. tl str = x @ y \<and> here re y)" by (cases x) auto
    next
      assume "str \<noteq> [] \<and> (\<exists>x y. tl str = x @ y \<and> here re y)"
      then obtain x y where "str = (hd str # x) @ y" "here re y" by (cases str) auto
      then show "\<exists>x y. str = x @ y \<and> here re y" by blast
    qed
    finally show ?thesis .
  qed
qed

text \<open>
  C35: The matcher of \<open>grep\<close> decides what its patterns mean: a line matches when it contains a piece that
  the pattern describes, where \<open>.\<close> stands for any byte, a byte followed by \<open>*\<close> for any number
  of repetitions, and \<open>^\<close> and \<open>$\<close> at the ends of the pattern pin the piece to the ends of the line.
\<close>

theorem match_decides_language:
  "match re str \<longleftrightarrow>
     (let body = (if re \<noteq> [] \<and> hd re = 94 then tl re else re);
          pinned = (body \<noteq> [] \<and> last body = 36)
      in \<exists>x u v. str = x @ u @ v \<and> u \<in> pat_lang (if pinned then butlast body else body) \<and>
           (pinned \<longrightarrow> v = []) \<and> (re \<noteq> [] \<and> hd re = 94 \<longrightarrow> x = []))"
  by (auto simp: match_def Let_def matchhere_here match_loop_here here_def) 

section \<open>The line loop\<close>

text \<open>
  \<open>scan_lines re p\<close>: the inner loop over the complete lines of the buffer, from \<open>p\<close> on; the result is what is
  written and the position \<open>p\<close> reached, as the bytes after it. \<open>strchr\<close> stops at a zero byte.
\<close>

function scan_lines :: "u8 list \<Rightarrow> u8 list \<Rightarrow> u8 list \<times> u8 list" where
  "scan_lines re p =
     (case first_idx (\<lambda>c. c = 10) (takeWhile (\<lambda>c. c \<noteq> 0) p) of
        None \<Rightarrow> ([], p)
      | Some k \<Rightarrow>
          let line = take k p; r = scan_lines re (drop (Suc k) p)
          in ((if match re line then line @ [10] else []) @ fst r, snd r))"
  by pat_completeness auto

lemma first_idx_takeWhile: "first_idx P (takeWhile Q xs) = Some k \<Longrightarrow> k < length xs"
  using first_idx_SomeD [of P "takeWhile Q xs" k] length_takeWhile_le [of Q xs] by linarith

termination scan_lines
  by (relation "measure (\<lambda>(re, p). length p)") (auto dest!: first_idx_takeWhile)

text \<open>
  \<open>rd f n\<close> stands for \<open>read\<close> with room for \<open>n\<close> bytes on a descriptor in state \<open>f\<close>: the bytes read and the new state. \<open>b\<close> holds the \<open>m\<close>
  bytes kept in the buffer. A read without any newline is thrown away (\<open>m = 0\<close>).
\<close>

fun grep_loop :: "nat \<Rightarrow> u8 list \<Rightarrow> ('f \<Rightarrow> nat \<Rightarrow> u8 list \<times> 'f) \<Rightarrow> 'f \<Rightarrow> u8 list \<Rightarrow> u8 list option" where
  "grep_loop 0 re rd f b = None"
| "grep_loop (Suc fuel) re rd f b =
     (let r = rd f (1024 - length b - 1)
      in if fst r = [] then Some []
         else let b = b @ fst r;
                  l = scan_lines re b;
                  b' = (if length (snd l) = length b then [] else snd l)
              in map_option ((@) (fst l)) (grep_loop fuel re rd (snd r) b'))"

declare scan_lines.simps [simp del]

text \<open>The terminated lines of a text, and what follows the last of them.\<close>

function lines_of :: "u8 list \<Rightarrow> u8 list list" where
  "lines_of cs =
     (case first_idx (\<lambda>c. c = 10) cs of None \<Rightarrow> [] | Some k \<Rightarrow> take k cs # lines_of (drop (Suc k) cs))"
  by pat_completeness auto

termination lines_of
  by (relation "measure length") auto

declare lines_of.simps [simp del]

definition last_part :: "u8 list \<Rightarrow> u8 list" where
  "last_part cs = rev (takeWhile (\<lambda>c. c \<noteq> 10) (rev cs))"

definition matching_lines :: "u8 list \<Rightarrow> u8 list \<Rightarrow> u8 list" where
  "matching_lines re cs = concat (map (\<lambda>l. l @ [10]) (filter (match re) (lines_of cs)))"

lemma lines_of_Cons_line: "10 \<notin> set l \<Longrightarrow> lines_of (l @ 10 # cs) = l # lines_of cs"
proof -
  assume l: "10 \<notin> set l"
  have "first_idx (\<lambda>c. c = 10) (l @ 10 # cs) = Some (length l)"
    by (rule first_idx_SomeI) (use l in \<open>auto simp: nth_append in_set_conv_nth\<close>)
  then show ?thesis by (subst lines_of.simps) simp
qed

lemma lines_of_none: "10 \<notin> set cs \<Longrightarrow> lines_of cs = []"
proof -
  assume "10 \<notin> set cs"
  then have "first_idx (\<lambda>c. c = 10) cs = None" by (auto simp: first_idx_None_iff)
  then show ?thesis by (subst lines_of.simps) simp
qed

lemma takeWhile_absent: "x \<notin> set cs \<Longrightarrow> takeWhile (\<lambda>c. c \<noteq> x) cs = cs"
  unfolding takeWhile_eq_all_conv by auto

lemma last_part_line: "last_part (l @ 10 # cs) = last_part cs"
proof (cases "10 \<in> set cs")
  case True
  then show ?thesis by (auto simp: last_part_def takeWhile_append)
next
  case False
  then show ?thesis by (simp add: last_part_def takeWhile_append takeWhile_absent)
qed

lemma last_part_none: "10 \<notin> set cs \<Longrightarrow> last_part cs = cs"
  by (simp add: last_part_def takeWhile_absent)

lemma last_part_no_nl: "10 \<notin> set (last_part cs)"
  by (auto simp: last_part_def dest: set_takeWhileD)

text \<open>Induction over the lines of a text.\<close>

lemma lines_induct [case_names tail line]:
  assumes "\<And>cs. 10 \<notin> set cs \<Longrightarrow> P cs" "\<And>l cs. 10 \<notin> set l \<Longrightarrow> P cs \<Longrightarrow> P (l @ 10 # cs)"
  shows "P cs"
proof (induction "length cs" arbitrary: cs rule: less_induct)
  case less
  show ?case
  proof (cases "10 \<in> set cs")
    case True
    then obtain l cs' where "cs = l @ 10 # cs'" "10 \<notin> set l" using split_list_first [of 10 cs] by blast
    then show ?thesis using assms(2) less by simp
  qed (use assms(1) in blast)
qed

lemma scan_lines_matching:
  "0 \<notin> set p \<Longrightarrow> scan_lines re p = (matching_lines re p, last_part p)"
proof (induction p rule: lines_induct)
  case (tail cs)
  then have "first_idx (\<lambda>c. c = 10) (takeWhile (\<lambda>c. c \<noteq> 0) cs) = None"
    by (auto simp: first_idx_None_iff dest: set_takeWhileD)
  then show ?case using tail by (subst scan_lines.simps) (simp add: matching_lines_def lines_of_none last_part_none)
next
  case (line l cs)
  have "first_idx (\<lambda>c. c = 10) (l @ 10 # cs) = Some (length l)"
    by (rule first_idx_SomeI) (use line.hyps in \<open>auto simp: nth_append in_set_conv_nth\<close>)
  then have "first_idx (\<lambda>c. c = 10) (takeWhile (\<lambda>c. c \<noteq> 0) (l @ 10 # cs)) = Some (length l)"
    unfolding takeWhile_absent [OF line.prems] .
  then show ?case using line
    by (subst scan_lines.simps) (simp add: matching_lines_def lines_of_Cons_line last_part_line del: takeWhile_append1 takeWhile.simps)
qed

lemma matching_lines_append: "matching_lines re (p @ q) = matching_lines re p @ matching_lines re (last_part p @ q)"
proof (induction p rule: lines_induct)
  case (tail cs)
  then show ?case by (simp add: last_part_none matching_lines_def lines_of_none)
next
  case (line l cs)
  then show ?case by (simp add: matching_lines_def lines_of_Cons_line last_part_line)
qed

lemma last_part_split: "\<exists>u. p = u @ last_part p"
  using takeWhile_dropWhile_id [of "\<lambda>c. c \<noteq> 10" "rev p"] by (metis last_part_def rev_append rev_rev_ident)

text \<open>A regular file: every read returns as much as there is room for.\<close>

definition file_rd :: "u8 list \<Rightarrow> nat \<Rightarrow> u8 list \<times> u8 list" where
  "file_rd f n = (take n f, drop n f)"

definition short_lines :: "u8 list \<Rightarrow> bool" where
  "short_lines cs \<longleftrightarrow> (\<forall>u v w. cs = u @ v @ w \<and> 10 \<notin> set v \<longrightarrow> length v \<le> 1022)"

lemma short_lines_suffix: "short_lines (u @ cs) \<Longrightarrow> short_lines cs"
  unfolding short_lines_def by (metis append.assoc)

lemma grep_loop_matching:
  assumes "short_lines (b @ f)" "10 \<notin> set b" "0 \<notin> set (b @ f)" "length f + 1 < fuel"
  shows "grep_loop fuel re file_rd f b = Some (matching_lines re (b @ f))"
  using assms
proof (induction fuel arbitrary: f b)
  case 0
  then show ?case by simp
next
  case (Suc fuel)
  let ?n = "1024 - length b - 1"
  let ?b = "b @ take ?n f"
  have lb: "length b \<le> 1022" using Suc.prems(1,2) unfolding short_lines_def by (metis append_Nil)
  show ?case
  proof (cases "f = []")
    case True
    then show ?thesis using Suc.prems(2) by (simp add: file_rd_def matching_lines_def lines_of_none)
  next
    case False
    then have "0 < length f" by simp
    then have ne: "take ?n f \<noteq> []" "length (drop ?n f) < length f" using lb False by (auto, linarith)
    have sc: "scan_lines re ?b = (matching_lines re ?b, last_part ?b)"
      by (rule scan_lines_matching) (use Suc.prems(3) in \<open>auto dest: in_set_takeD\<close>)
    obtain u where u: "?b = u @ last_part ?b" using last_part_split by blast
    have bf: "b @ f = ?b @ drop ?n f" by simp
    have step: "grep_loop (Suc fuel) re file_rd f b =
       map_option ((@) (matching_lines re ?b)) (grep_loop fuel re file_rd (drop ?n f) (if length (last_part ?b) = length ?b then [] else last_part ?b))"
      using ne(1) sc by (simp add: file_rd_def Let_def)
    show ?thesis
    proof (cases "10 \<in> set ?b")
      case True
      then have "last_part ?b \<noteq> ?b" using last_part_no_nl [of ?b] by metis
      then have l: "length (last_part ?b) \<noteq> length ?b" using u by (metis append_Nil length_append add_cancel_left_left length_0_conv)
      have "b @ f = u @ (last_part ?b @ drop ?n f)" using bf u by (metis append.assoc)
      then have "short_lines (last_part ?b @ drop ?n f)" "0 \<notin> set (last_part ?b @ drop ?n f)"
        using Suc.prems(1,3) short_lines_suffix [of u "last_part ?b @ drop ?n f"] by (simp_all only: set_append Un_iff de_Morgan_disj simp_thms)
      then have "grep_loop fuel re file_rd (drop ?n f) (last_part ?b) = Some (matching_lines re (last_part ?b @ drop ?n f))"
        using Suc.prems(4) ne(2) last_part_no_nl by (intro Suc.IH) auto
      then show ?thesis using step l matching_lines_append [of re ?b "drop ?n f"] by (simp add: bf [symmetric])
    next
      case False
      have "length ?b \<le> 1022" using Suc.prems(1) False bf unfolding short_lines_def by (metis append_Nil)
      then have d: "drop ?n f = []" using lb by (auto simp: min_def split: if_splits)
      have "grep_loop fuel re file_rd [] [] = Some []" using Suc.prems(4) by (cases fuel) (simp_all add: file_rd_def)
      moreover have bb: "?b = b @ f" using bf d by (metis append_Nil2)
      have "matching_lines re ?b = []" using False by (simp add: matching_lines_def lines_of_none)
      ultimately show ?thesis unfolding step d using last_part_none [OF False] unfolding bb by simp
    qed
  qed
qed


text \<open>
  On a pipe, where a read may return part of a line, the same loop throws that part away: with the line
  \<open>abc\<close> arriving as \<open>ab\<close> and \<open>c\<close>, the pattern \<open>ab\<close> finds nothing, although the line matches.
\<close>

definition chunk_rd :: "u8 list list \<Rightarrow> nat \<Rightarrow> u8 list \<times> u8 list list" where
  "chunk_rd f n = (case f of [] \<Rightarrow> ([], []) | c # f' \<Rightarrow> if length c \<le> n then (c, f') else (take n c, drop n c # f'))"

lemma grep_loses_split_line:
  "grep_loop 4 [97, 98] chunk_rd [[97, 98], [99, 10]] [] = Some [] \<and> matching_lines [97, 98] [97, 98, 99, 10] = [97, 98, 99, 10]"
  by code_simp

theorem match_decides_language_witness:
  "match [94, 97, 42, 46, 36] [97, 97, 98] \<and> \<not> match [98, 36] [98, 97]"
proof
  have "[97, 97] \<in> stars (byte_of 97)" by (simp add: stars_def byte_of_def)
  moreover have "[98] \<in> pat_lang [46]" using pat_lang_one [of "[]" "[98]" 46] by (simp add: byte_of_def)
  ultimately have "[97, 97] @ [98] \<in> pat_lang [97, 42, 46]" unfolding pat_lang.simps(2) by blast
  then show "match [94, 97, 42, 46, 36] [97, 97, 98]"
    using match_decides_language [of "[94, 97, 42, 46, 36]" "[97, 97, 98]"] by auto
  have "u = [98]" if "u \<in> pat_lang [98]" for u using that pat_lang_one [of "[]" u 98] by (cases u) (simp_all add: byte_of_def)
  then show "\<not> match [98, 36] [98, 97]"
    using match_decides_language [of "[98, 36]" "[98, 97]"] by (auto simp: append_eq_Cons_conv Cons_eq_append_conv byte_of_def)
qed


end
