(* ===== verification/Family.thy ===== *)
theory Family
  imports Process
begin

text \<open>
  Parents and children: the invariant that nobody sleeps in \<open>wait\<close> while it has a child to collect, kept by
  the two sides of the handshake, \<open>wait\<close> and the locked part of \<open>exit\<close>.
\<close>

section \<open>Parents asleep in wait\<close>

text \<open>
  \<open>asleep i ps\<close>: process \<open>i\<close> sleeps in \<open>wait\<close>. The invariant \<open>waits_ok\<close> says that no process sleeps there
  while it has a child to collect.
\<close>

definition asleep :: "nat \<Rightarrow> proc list \<Rightarrow> bool" where
  "asleep i ps \<longleftrightarrow> i < length ps \<and> p_state (ps ! i) = SLEEPING \<and> p_chan (ps ! i) = C_proc i"

definition waits_ok :: "proc list \<Rightarrow> bool" where
  "waits_ok ps \<longleftrightarrow> (\<forall>i c. asleep i ps \<longrightarrow> c < length ps \<longrightarrow> \<not> zombie_child i (ps ! c))"

lemma nth_update_at: "k < length ps \<Longrightarrow> ps[i := v] ! k = (if i = k then v else ps ! k)"
  by (cases "i = k") simp_all

lemma asleep_awaken: "asleep i (map (awaken ch tck) ps) \<longleftrightarrow> asleep i ps \<and> ch \<noteq> C_proc i"
  by (auto simp: asleep_def awaken_def split: if_splits)

lemma zombie_awaken [simp]: "zombie_child i (awaken ch tck p) = zombie_child i p" "p_parent (awaken ch tck p) = p_parent p"
  by (auto simp: zombie_child_def awaken_def)

lemma waits_ok_awaken: "waits_ok ps \<Longrightarrow> waits_ok (map (awaken ch tck) ps)"
  by (auto simp: waits_ok_def asleep_awaken)

lemma awaken_zombie [simp]: "p_state (awaken ch tck p) = ZOMBIE \<longleftrightarrow> p_state p = ZOMBIE"
  by (auto simp: awaken_def)

text \<open>One round of the loop that hands the children of \<open>me\<close> to \<open>init\<close>.\<close>

definition reparented :: "nat \<Rightarrow> nat \<Rightarrow> nat option \<Rightarrow> u32 \<Rightarrow> proc list \<Rightarrow> proc list" where
  "reparented me i ini tck ps =
     (if p_parent (ps ! i) = Some me then
        (let qs = ps[i := (ps ! i)\<lparr>p_parent := ini\<rparr>]
         in if p_state (ps ! i) = ZOMBIE then map (awaken (proc_chan ini) tck) qs else qs)
      else ps)"

lemma reparent_loop_step:
  "reparent_loop (Suc n) i me s = reparent_loop n (Suc i) me (s\<lparr>ptable := reparented me i (initproc s) (ticks s) (ptable s)\<rparr>)"
  by (simp add: M_defs wakeup1_def upd_proc_def reparented_def Let_def)

lemma length_reparented [simp]: "length (reparented me i ini tck ps) = length ps"
  by (simp add: reparented_def Let_def)

lemma asleep_reparented: "asleep j (reparented me i ini tck ps) \<Longrightarrow> asleep j ps"
  by (auto simp: asleep_def reparented_def Let_def awaken_def nth_update_at split: if_splits)

lemma reparented_parent:
  assumes "k < length ps"
  shows "p_parent (reparented me i ini tck ps ! k) = (if k = i \<and> p_parent (ps ! i) = Some me then ini else p_parent (ps ! k))"
    "p_state (reparented me i ini tck ps ! k) = ZOMBIE \<longleftrightarrow> p_state (ps ! k) = ZOMBIE"
  using assms by (auto simp: reparented_def Let_def nth_update_at)

lemma waits_ok_reparented:
  assumes "waits_ok ps"
  shows "waits_ok (reparented me i ini tck ps)"
  unfolding waits_ok_def
proof (intro allI impI notI)
  fix j c
  assume a: "asleep j (reparented me i ini tck ps)" "c < length (reparented me i ini tck ps)"
    "zombie_child j (reparented me i ini tck ps ! c)"
  have aj: "asleep j ps" by (rule asleep_reparented [OF a(1)])
  show False
  proof (cases "c = i \<and> p_parent (ps ! i) = Some me")
    case True
    then have "ini = Some j" "p_state (ps ! i) = ZOMBIE" using a(2,3) reparented_parent [of c ps me i ini tck] by (auto simp: zombie_child_def)
    then have "reparented me i ini tck ps = map (awaken (C_proc j) tck) (ps[i := (ps ! i)\<lparr>p_parent := ini\<rparr>])"
      using True by (simp add: reparented_def proc_chan_def)
    then show False using a(1) asleep_awaken by metis
  next
    case False
    then have "zombie_child j (ps ! c)" using a(2,3) reparented_parent [of c ps me i ini tck] by (auto simp: zombie_child_def)
    then show False using assms aj a(2) by (auto simp: waits_ok_def)
  qed
qed

lemma reparent_loop_waits:
  assumes "waits_ok (ptable s)" "initproc s \<noteq> Some me"
  shows "\<exists>ps. reparent_loop n i me s = Ok () (s\<lparr>ptable := ps\<rparr>) \<and> waits_ok ps \<and> length ps = length (ptable s) \<and>
    (\<forall>j. asleep j ps \<longrightarrow> asleep j (ptable s)) \<and>
    (\<forall>k < length ps. p_parent (ps ! k) =
       (if i \<le> k \<and> k < i + n \<and> p_parent (ptable s ! k) = Some me then initproc s else p_parent (ptable s ! k)))"
  using assms
proof (induction n arbitrary: i s)
  case 0
  then show ?case by (auto simp: ret_def intro!: exI [of _ "ptable s"])
next
  case (Suc n)
  let ?ps = "reparented me i (initproc s) (ticks s) (ptable s)"
  from Suc.IH [of "s\<lparr>ptable := ?ps\<rparr>" "Suc i"] Suc.prems waits_ok_reparented [OF Suc.prems(1)] obtain qs where
    q: "reparent_loop n (Suc i) me (s\<lparr>ptable := ?ps\<rparr>) = Ok () (s\<lparr>ptable := qs\<rparr>)" "waits_ok qs" "length qs = length (ptable s)"
    "\<forall>j. asleep j qs \<longrightarrow> asleep j ?ps"
    "\<forall>k < length qs. p_parent (qs ! k) = (if Suc i \<le> k \<and> k < Suc i + n \<and> p_parent (?ps ! k) = Some me then initproc s else p_parent (?ps ! k))"
    by auto
  have "p_parent (qs ! k) = (if i \<le> k \<and> k < i + Suc n \<and> p_parent (ptable s ! k) = Some me then initproc s else p_parent (ptable s ! k))"
    if "k < length qs" for k
    using q(5) that q(3) reparented_parent(1) [of k "ptable s" me i "initproc s" "ticks s"] Suc.prems(2)
    by (cases "k = i") (auto simp: Suc_le_eq split: if_splits)
  then show ?case using q asleep_reparented unfolding reparent_loop_step by (intro exI [of _ qs]) blast
qed

lemma awaken_idle: "p_state p \<noteq> SLEEPING \<Longrightarrow> awaken ch tck p = p"
  by (simp add: awaken_def)

lemma exit_locked_waits:
  fixes s :: "'x vm_st_scheme"
  assumes "lockset {} s" "c_proc (mycpu_of s) = Some me" "me < length (ptable s)" "length (ptable s) = NPROC"
    and "waits_ok (ptable s)" "initproc s \<noteq> Some me" "p_parent (ptable s ! me) \<noteq> Some me"
  shows "\<exists>t. exit_locked me s = (Wait Switched t :: (waiting, 'a, _) outcome) \<and> lockset {L_ptable} t \<and> waits_ok (ptable t) \<and>
    length (ptable t) = NPROC \<and> p_state (ptable t ! me) = ZOMBIE \<and>
    (\<forall>k < NPROC. p_parent (ptable t ! k) = (if p_parent (ptable s ! k) = Some me then initproc s else p_parent (ptable s ! k))) \<and>
    (\<forall>j. p_parent (ptable s ! me) = Some j \<longrightarrow> \<not> asleep j (ptable t))"
proof -
  let ?ch = "proc_chan (p_parent (ptable s ! me))"
  let ?w = "(acq L_ptable s)\<lparr>ptable := map (awaken ?ch (ticks s)) (ptable s)\<rparr>"
  have wk: "waits_ok (ptable ?w)" using waits_ok_awaken [OF assms(5)] by simp
  have iw: "initproc ?w \<noteq> Some me" using assms(6) by simp
  obtain ps where ps: "reparent_loop NPROC 0 me ?w = Ok () (?w\<lparr>ptable := ps\<rparr>)" "waits_ok ps" "length ps = NPROC"
    "\<forall>j. asleep j ps \<longrightarrow> asleep j (ptable ?w)"
    "\<forall>k < NPROC. p_parent (ps ! k) = (if p_parent (ptable s ! k) = Some me then initproc s else p_parent (ptable s ! k))"
    using reparent_loop_waits [OF wk iw, of NPROC 0] assms(4) by auto
  let ?z = "account_run (ticks s) ((ps ! me)\<lparr>p_state := ZOMBIE\<rparr>)"
  let ?t = "(acq L_ptable s)\<lparr>ptable := ps[me := ?z]\<rparr>"
  have z: "p_state ?z = ZOMBIE" "p_parent ?z = p_parent (ps ! me)" by (simp_all add: account_run_def)
  have me: "me < length ps" using assms(3,4) ps(3) by simp
  have l: "lockset {L_ptable} ?t" using lockset_acq [OF assms(1), of L_ptable] by simp
  then have "sched_enter ?t = Ok (c_intena (mycpu_of ?t)) ?t"
    by (rule sched_enter_ok [of _ me]) (use assms(2) me z in simp_all)
  then have x: "exit_locked me s = (Wait Switched ?t :: (waiting, 'a, _) outcome)"
    using acquire_ok [OF assms(1), of L_ptable] ps(1) me
    by (simp add: exit_locked_def sched_def wakeup1_def M_defs upd_proc_def comp_def)
  have up: "asleep j (ps[me := ?z]) \<Longrightarrow> asleep j ps" for j using me z by (auto simp: asleep_def nth_update_at split: if_splits)
  have par: "\<not> asleep j ps" if "p_parent (ptable s ! me) = Some j" for j
    using ps(4) that by (auto simp: asleep_awaken proc_chan_def)
  have "waits_ok (ps[me := ?z])"
    unfolding waits_ok_def
  proof (intro allI impI notI)
    fix j c
    assume a: "asleep j (ps[me := ?z])" "c < length (ps[me := ?z])" "zombie_child j (ps[me := ?z] ! c)"
    show False
    proof (cases "c = me")
      case True
      then have "p_parent (ptable s ! me) = Some j"
        using a(3) z me ps(3,5) assms(7) by (auto simp: zombie_child_def split: if_splits)
      then show False using par up [OF a(1)] by blast
    next
      case False
      then show False using a up [OF a(1)] ps(2) by (auto simp: waits_ok_def)
    qed
  qed
  then show ?thesis using x l me z ps(3,5) par up by (intro exI [of _ ?t]) (auto simp: nth_update_at)
qed

lemma wait_without_zombie:
  assumes "lockset {} s" "c_proc (mycpu_of s) = Some me" "me < length (ptable s)" "waits_ok (ptable s)"
    and "first_idx (zombie_child me) (ptable s) = None"
  shows "if (\<forall>p \<in> set (ptable s). p_parent p \<noteq> Some me) \<or> p_killed (ptable s ! me) \<noteq> 0
     then \<exists>t. wait s = Ok (-1) t \<and> lockset {} t \<and> ptable t = ptable s
     else \<exists>t. wait s = Wait Switched t \<and> lockset {L_ptable} t \<and> asleep me (ptable t) \<and> waits_ok (ptable t)"
proof -
  let ?s = "acq L_ptable (pushpop s)"
  have l: "lockset {L_ptable} ?s" using lockset_acq [OF lockset_pushpop [OF assms(1)], of L_ptable] by simp
  have w: "wait s = wait_retry me ?s"
    using curproc_ok [OF assms(1,2)] acquire_ok [OF lockset_pushpop [OF assms(1)], of L_ptable] by (simp add: wait_def bindM_def seqM_def)
  show ?thesis
  proof (cases "(\<forall>p \<in> set (ptable s). p_parent p \<noteq> Some me) \<or> p_killed (ptable s ! me) \<noteq> 0")
    case True
    then have "wait_retry me ?s = Ok (-1) (rel L_ptable ?s)"
      using assms(5) release_ok [OF l, of L_ptable] by (auto simp: wait_retry_def bindM_def seqM_def getS_def ret_def)
    then show ?thesis using True w lockset_rel [OF l, of L_ptable] by simp
  next
    case False
    have c: "c_proc (mycpu_of ?s) = Some me" "me < length (ptable ?s)" using assms(2,3) by simp_all
    let ?t = "slept me (C_proc me) L_ptable ?s"
    have "wait_retry me ?s = Wait Switched ?t"
      using False assms(5) sleep_ok [OF l c, of "C_proc me"] by (auto simp: wait_retry_def bindM_def getS_def)
    moreover have tb: "ptable ?t = (ptable s)[me := account_run (ticks s) ((ptable s ! me)\<lparr>p_chan := C_proc me, p_state := SLEEPING\<rparr>)]"
      by (simp add: slept_def upd_proc_def)
    have "asleep me (ptable ?t)" using assms(3) by (simp add: tb asleep_def account_run_def)
    moreover have "waits_ok (ptable ?t)"
      unfolding waits_ok_def
    proof (intro allI impI notI)
      fix j c
      assume a: "asleep j (ptable ?t)" "c < length (ptable ?t)" "zombie_child j (ptable ?t ! c)"
      then have z: "zombie_child j (ptable s ! c)" "c < length (ptable s)"
        by (auto simp: tb nth_update_at zombie_child_def account_run_def split: if_splits)
      have "j \<noteq> me" using z assms(5) by (auto simp: first_idx_None_iff)
      then have "asleep j (ptable s)" using a(1) by (auto simp: tb asleep_def)
      then show False using z assms(4) by (auto simp: waits_ok_def)
    qed
    ultimately show ?thesis using False w lockset_slept [OF l] by auto
  qed
qed


text \<open>Process 0 runs, its parent 1 sleeps in \<open>wait\<close>.\<close>

definition demo_family :: "'x \<Rightarrow> 'x kern_st_scheme" where
  "demo_family x =
     (demo_file (kern_st_ext False 0 x))
       \<lparr>ptable := [blank_proc\<lparr>p_state := RUNNING, p_pid := 3, p_parent := Some 1\<rparr>,
                   blank_proc\<lparr>p_state := SLEEPING, p_chan := C_proc 1, p_pid := 1\<rparr>] @ replicate 62 blank_proc\<rparr>"


end
