(* ===== verification/Uvm.thy ===== *)
theory Uvm
  imports Vm
begin

text \<open>
  The memory of a process under \<open>allocuvm\<close> and \<open>deallocuvm\<close> of \<^verbatim>\<open>vm.c\<close>: which pages of the user half are present, which frames
  back them, and how the allocator, the page tables and the frames share the physical pages. The operations themselves are in
  the theory of the page tables; here are the invariant \<open>uvm_inv\<close> and what growing and shrinking do to it.
\<close>

unbundle bit_operations_syntax

section \<open>What the memory operations leave alone\<close>

text \<open>
  \<open>keeps f m\<close>: when \<open>m\<close> returns, \<open>f\<close> of the state is what it was. The operations on page tables keep everything above
  the memory allocator's state: console, processes and files.
\<close>

definition keeps :: "('s \<Rightarrow> 'b) \<Rightarrow> ('s \<Rightarrow> ('w, 'a, 's) outcome) \<Rightarrow> bool" where
  "keeps f m \<longleftrightarrow> (\<forall>s r t. m s = Ok r t \<longrightarrow> f t = f s)"

named_theorems keeps_intro \<open>rules for what an operation keeps\<close>

lemma keeps_basic [keeps_intro]:
  "keeps f (ret a)" "keeps f (panic e)" "keeps f (undef e)" "keeps f nofuel" "keeps f (waitM w)" "keeps f (getS g)"
  by (simp_all add: keeps_def M_defs)

lemma keeps_modS [keeps_intro]: "(\<And>s. f (h s) = f s) \<Longrightarrow> keeps f (modS h)"
  by (simp add: keeps_def modS_def)

lemma keeps_bindM [keeps_intro]: "keeps f m \<Longrightarrow> (\<And>a. keeps f (k a)) \<Longrightarrow> keeps f (bindM m k)"
  by (auto simp: keeps_def bindM_def split: outcome.splits)

lemma keeps_seqM [keeps_intro]: "keeps f m \<Longrightarrow> keeps f k \<Longrightarrow> keeps f (seqM m k)"
  unfolding seqM_def by (rule keeps_bindM)

lemma keeps_if [keeps_intro]: "keeps f m \<Longrightarrow> keeps f k \<Longrightarrow> keeps f (if b then m else k)"
  by simp

lemma keeps_whenM [keeps_intro]: "keeps f m \<Longrightarrow> keeps f (whenM b m)"
  by (simp add: whenM_def keeps_basic)

lemma keeps_option [keeps_intro]: "keeps f m \<Longrightarrow> (\<And>x. keeps f (k x)) \<Longrightarrow> keeps f (case r of None \<Rightarrow> m | Some x \<Rightarrow> k x)"
  by (cases r) simp_all

lemma wp_keeps: "wp m Q s \<Longrightarrow> keeps f m \<Longrightarrow> wp m (\<lambda>r t. Q r t \<and> f t = f s) s"
  by (auto simp: wp_def keeps_def split: outcome.splits)

lemma more_upd [simp]:
  "kmem_st.more (upd_lock l g s) = kmem_st.more s" "kmem_st.more (upd_cpu i h s) = kmem_st.more s"
  "kmem_st.more (upd_mem k s) = kmem_st.more s"
  by (simp_all add: upd_lock_def upd_cpu_def upd_mem_def)

lemma keeps_mycpu [keeps_intro]: "keeps (kmem_st.more :: 'x kmem_st_scheme \<Rightarrow> 'x) mycpu"
  unfolding mycpu_def by (intro keeps_intro)

lemma keeps_cli [keeps_intro]:
  "keeps (kmem_st.more :: 'x kmem_st_scheme \<Rightarrow> 'x) pushcli" "keeps (kmem_st.more :: 'x kmem_st_scheme \<Rightarrow> 'x) popcli"
  unfolding pushcli_def popcli_def cli_def sti_def by (intro keeps_intro; simp)+

lemma keeps_lock [keeps_intro]:
  "keeps (kmem_st.more :: 'x kmem_st_scheme \<Rightarrow> 'x) (acquire l)" "keeps (kmem_st.more :: 'x kmem_st_scheme \<Rightarrow> 'x) (release l)"
  unfolding acquire_def release_def holding_def by (intro keeps_intro; simp)+

lemma keeps_kmem [keeps_intro]:
  "keeps (kmem_st.more :: 'x kmem_st_scheme \<Rightarrow> 'x) kalloc" "keeps (kmem_st.more :: 'x kmem_st_scheme \<Rightarrow> 'x) (kfree v)"
  unfolding kalloc_def kfree_def by (intro keeps_intro; simp)+

lemma keeps_walkpgdir [keeps_intro]: "keeps (kmem_st.more :: 'x kmem_st_scheme \<Rightarrow> 'x) (walkpgdir d a b)"
  unfolding walkpgdir_def Let_def by (intro keeps_intro; simp)

lemma keeps_mappages [keeps_intro]: "keeps (kmem_st.more :: 'x kmem_st_scheme \<Rightarrow> 'x) (mappages d va sz pa perm)"
proof -
  have "keeps (kmem_st.more :: 'x kmem_st_scheme \<Rightarrow> 'x) (mappages_loop n d a l pa perm)" for n a l pa
    by (induction n arbitrary: a pa) (auto intro!: keeps_intro)
  then show ?thesis by (simp add: mappages_def)
qed

lemma keeps_deallocuvm [keeps_intro]: "keeps (kmem_st.more :: 'x kmem_st_scheme \<Rightarrow> 'x) (deallocuvm d o1 n1)"
proof -
  have "keeps (kmem_st.more :: 'x kmem_st_scheme \<Rightarrow> 'x) (deallocuvm_loop n d a o1)" for n a
    by (induction n arbitrary: a) (auto intro!: keeps_intro simp: Let_def)
  then show ?thesis unfolding deallocuvm_def by (intro keeps_intro)
qed
section \<open>User pages\<close>

text \<open>
  \<open>pte m d v\<close> is the entry of the virtual page with number \<open>v\<close> under directory \<open>d\<close>, \<open>uframe m d v\<close> the
  kernel address of its frame. A process's pages have numbers below \<open>2 ^ 19\<close>, the number of pages below \<open>KERNBASE\<close>.
\<close>

definition pte :: "mem \<Rightarrow> u32 \<Rightarrow> nat \<Rightarrow> u32" where
  "pte m d v = pte_of m d (page_at 0 v)"

definition uframe :: "mem \<Rightarrow> u32 \<Rightarrow> nat \<Rightarrow> u32" where
  "uframe m d v = P2V (PTE_ADDR (pte m d v))"

definition upresent :: "mem \<Rightarrow> u32 \<Rightarrow> nat \<Rightarrow> bool" where
  "upresent m d v \<longleftrightarrow> v < 2 ^ 19 \<and> pte m d v AND PTE_P \<noteq> 0"

definition frames_ok :: "u32 \<Rightarrow> u32 set \<Rightarrow> mem \<Rightarrow> u32 \<Rightarrow> bool" where
  "frames_ok e free m d \<longleftrightarrow>
     (\<forall>v. upresent m d v \<longrightarrow> valid_page e (uframe m d v) \<and> uframe m d v \<notin> free \<and> uframe m d v \<notin> tables m d \<and> uframe m d v \<noteq> d) \<and>
     inj_on (uframe m d) {v. upresent m d v}"

definition uvm_inv :: "lockid set \<Rightarrow> u32 list \<Rightarrow> u32 \<Rightarrow> 'x kmem_st_scheme \<Rightarrow> bool" where
  "uvm_inv S ps d s \<longleftrightarrow> vm_inv S ps d s \<and> frames_ok (kend s) (set ps) (mem s) d \<and> KERNBASE < kend s"

lemma unat_page_at: "v < 2 ^ 20 \<Longrightarrow> unat (page_at 0 v) = 4096 * v"
  by (simp add: page_at_def PGSIZE_def unat_word_ariths unat_of_nat)

lemma vpn_page: "v < 2 ^ 20 \<Longrightarrow> vpn (page_at 0 v) = v"
  by (simp add: vpn_def unat_page_at)

lemma pte_of_vpn: "pte_of m d a = pte m d (vpn a)"
proof -
  have "vpn (page_at 0 (vpn a)) = vpn a" using vpn_page [OF vpn_less] .
  then have "PDX (page_at 0 (vpn a)) = PDX a" "PTX (page_at 0 (vpn a)) = PTX a" by (simp_all flip: same_page_iff)
  then show ?thesis by (simp add: pte_def pte_of_def cong: option.case_cong)
qed

lemma rd32_only_pages_entry:
  assumes "only_pages P m m'" "\<forall>p \<in> P. p mod PGSIZE = 0" "q mod PGSIZE = 0" "q \<notin> P" "i < 1024"
  shows "rd32 m' (q + 4 * of_nat i) = rd32 m (q + 4 * of_nat i)"
proof (rule rd32_cong)
  fix k :: nat assume "k < 4"
  then have "in_range q 4096 (q + 4 * of_nat i + of_nat k)" by (rule entry_in_page [OF assms(5)])
  then have "\<forall>p \<in> P. \<not> in_range p 4096 (q + 4 * of_nat i + of_nat k)"
    using pages_disjoint [OF assms(3)] assms(2,4) by metis
  with assms(1) show "m' (q + 4 * of_nat i + of_nat k) = m (q + 4 * of_nat i + of_nat k)"
    by (simp add: only_pages_def)
qed

text \<open>Writing pages that are neither the directory nor a table changes no translation.\<close>

lemma translation_frame:
  assumes "only_pages P m m'" "\<forall>p \<in> P. p mod PGSIZE = 0 \<and> p \<noteq> d \<and> p \<notin> tables m d" "pt_ok e free m d"
  shows "k < 1024 \<Longrightarrow> pt_of m' d k = pt_of m d k" "pte_of m' d a = pte_of m d a" "tables m' d = tables m d"
    "pt_ok e free m' d"
proof -
  have al: "\<forall>p \<in> P. p mod PGSIZE = 0" "d \<notin> P" using assms(2) by auto
  show pt: "pt_of m' d k = pt_of m d k" if "k < 1024" for k
    using rd32_only_pages_entry [OF assms(1) al(1) pt_okD(1) [OF assms(3)] al(2) that] by (simp add: pt_of_def pde_def)
  show "tables m' d = tables m d" using pt by (auto simp: tables_def)
  show "pt_ok e free m' d" using assms(3) pt by (simp add: pt_ok_def)
  show "pte_of m' d a = pte_of m d a"
  proof (cases "pt_of m d (unat (PDX a))")
    case (Some t)
    then have "t \<in> tables m d" using index_less(1) by (auto simp: tables_def)
    then have "rd32 m' (t + 4 * of_nat (unat (PTX a))) = rd32 m (t + 4 * of_nat (unat (PTX a)))"
      using assms(2) pt_okD(5) [OF assms(3) index_less(1) Some] index_less(2)
      by (intro rd32_only_pages_entry [OF assms(1) al(1)]) auto
    then show ?thesis using Some pt [OF index_less(1), of a] by (simp add: pte_of_def)
  qed (simp add: pte_of_def pt [OF index_less(1)])
qed

lemma uvm_invD:
  assumes "uvm_inv S ps d s"
  shows "lockset S s" "L_kmem \<notin> S" "card S < 1000" "free_pages ps s" "pt_ok (kend s) (set ps) (mem s) d"
    "vm_inv S ps d s" "frames_ok (kend s) (set ps) (mem s) d" "KERNBASE < kend s"
  using assms by (simp_all add: uvm_inv_def vm_inv_def)

lemma uframeD:
  assumes "uvm_inv S ps d s" "upresent (mem s) d v"
  shows "valid_page (kend s) (uframe (mem s) d v)" "PTE_ADDR (pte (mem s) d v) \<noteq> 0" "uframe (mem s) d v \<notin> set ps"
    "uframe (mem s) d v \<notin> tables (mem s) d" "uframe (mem s) d v \<noteq> d" "uframe (mem s) d v mod PGSIZE = 0"
    "upresent (mem s) d w \<Longrightarrow> uframe (mem s) d w = uframe (mem s) d v \<Longrightarrow> w = v"
proof -
  show u: "valid_page (kend s) (uframe (mem s) d v)" "uframe (mem s) d v \<notin> set ps"
    "uframe (mem s) d v \<notin> tables (mem s) d" "uframe (mem s) d v \<noteq> d" "uframe (mem s) d v mod PGSIZE = 0"
    "upresent (mem s) d w \<Longrightarrow> uframe (mem s) d w = uframe (mem s) d v \<Longrightarrow> w = v"
    using uvm_invD(7) [OF assms(1)] assms(2) by (auto simp: frames_ok_def inj_on_def valid_page_def)
  have "KERNBASE < uframe (mem s) d v" using u(1) uvm_invD(8) [OF assms(1)] by (auto simp: valid_page_def intro: less_le_trans)
  then show "PTE_ADDR (pte (mem s) d v) \<noteq> 0" by (auto simp: uframe_def P2V_def)
qed

lemma tables_valid: "pt_ok e free m d \<Longrightarrow> t \<in> tables m d \<Longrightarrow> valid_page e t \<and> t \<notin> free \<and> t \<noteq> d \<and> t mod PGSIZE = 0"
  using pt_okD(5) [of e free m d] by (auto simp: tables_def)

text \<open>What a change to the tables must keep for the frames to stay sound.\<close>

lemma frames_ok_keep:
  assumes "frames_ok e F m d" "F' \<subseteq> F \<union> G" "tables m' d \<subseteq> tables m d \<union> (F - F')"
    and "\<And>v. upresent m' d v \<Longrightarrow> upresent m d v \<and> pte m' d v = pte m d v \<and> uframe m d v \<notin> G"
  shows "frames_ok e F' m' d"
proof -
  have u: "uframe m' d v = uframe m d v" if "upresent m' d v" for v using assms(4) [OF that] by (simp add: uframe_def)
  have "inj_on (uframe m' d) {v. upresent m' d v}"
  proof (rule inj_onI)
    fix v w assume "v \<in> {v. upresent m' d v}" "w \<in> {v. upresent m' d v}" "uframe m' d v = uframe m' d w"
    then show "v = w" using assms(1,4) u by (auto simp: frames_ok_def dest!: inj_onD)
  qed
  moreover have "valid_page e (uframe m' d v) \<and> uframe m' d v \<notin> F' \<and> uframe m' d v \<notin> tables m' d \<and> uframe m' d v \<noteq> d"
    if "upresent m' d v" for v
  proof -
    have k: "upresent m d v" "pte m' d v = pte m d v" "uframe m d v \<notin> G" using assms(4) [OF that] by blast+
    then have "valid_page e (uframe m d v)" "uframe m d v \<notin> F" "uframe m d v \<notin> tables m d" "uframe m d v \<noteq> d"
      using assms(1) by (auto simp: frames_ok_def)
    then show ?thesis using k u [OF that] assms(2,3) by auto
  qed
  ultimately show ?thesis by (simp add: frames_ok_def)
qed

section \<open>Freeing pages\<close>

text \<open>One round of \<open>deallocuvm\<close>: the frame goes back to the allocator and the entry is cleared.\<close>

lemma dealloc_one:
  fixes s :: "'x kmem_st_scheme"
  assumes "uvm_inv S ps d s" "upresent (mem s) d v"
  defines "f \<equiv> uframe (mem s) d v"
  defines "t \<equiv> upd_mem (\<lambda>m. wr32 m (pte_addr (mem s) d (page_at 0 v)) 0) (kfreed f s)"
  shows "pte_addr (mem s) d (page_at 0 v) \<noteq> 0" "kfree f s = Ok () (kfreed f s)" "uvm_inv S (f # ps) d t"
    "w < 2 ^ 20 \<Longrightarrow> pte (mem t) d w = (if w = v then 0 else pte (mem s) d w)" "tables (mem t) d = tables (mem s) d"
    "only_pages (insert f (tables (mem s) d)) (mem s) (mem t)" "kend t = kend s"
proof -
  note i = uvm_invD [OF assms(1)]
  note f = uframeD [OF assms(1,2), folded f_def]
  have v: "v < 2 ^ 19" "v < 2 ^ 20" using assms(2) by (simp_all add: upresent_def)
  have "pt_of (mem s) d (unat (PDX (page_at 0 v))) \<noteq> None"
    using assms(2) by (auto simp: upresent_def pte_def pte_of_def split: option.splits)
  then obtain pt where pt: "pt_of (mem s) d (unat (PDX (page_at 0 v))) = Some pt" by blast
  show "pte_addr (mem s) d (page_at 0 v) \<noteq> 0" using pte_addr_zero_iff [OF i(5)] pt by simp
  show "kfree f s = Ok () (kfreed f s)" by (rule kfree_ok [OF i(1-3) f(1)])
  let ?u = "kfreed f s"
  have op: "only_pages {f} (mem s) (mem ?u)" by (rule only_page_pages [OF only_page_kfreed]) simp
  have fr: "\<forall>p \<in> {f}. p mod PGSIZE = 0 \<and> p \<noteq> d \<and> p \<notin> tables (mem s) d" using f by simp
  note tr = translation_frame [OF op fr i(5)]
  have "pt_ok (kend s) (set (f # ps)) (mem ?u) d"
    using tr(4) i(5) f(4,5) tr(1) unfolding pt_ok_def tables_def by (auto simp: tr(1))
  then have vu: "vm_inv S (f # ps) d ?u"
    using i(1-4) f lockset_kfreed [OF i(1-3)] free_pages_kfreed [OF i(4) f(1,3)] by (simp add: vm_inv_def)
  have ptu: "pt_of (mem ?u) d (unat (PDX (page_at 0 v))) = Some pt" using tr(1) [OF index_less(1)] pt by simp
  have t: "t = upd_mem (\<lambda>m. wr32 m (pt + 4 * PTX (page_at 0 v)) 0) ?u" using pt by (simp add: t_def pte_addr_def)
  note w = vm_inv_write [OF vu ptu, of 0, folded t]
  show pw: "pte (mem t) d w = (if w = v then 0 else pte (mem s) d w)" if "w < 2 ^ 20" for w
    using w(4) [of "page_at 0 w"] tr(2) vpn_page [OF that] vpn_page [OF v(2)] by (simp add: pte_def)
  show tb: "tables (mem t) d = tables (mem s) d" using w(3) tr(3) by simp
  show "kend t = kend s" by (simp add: t)
  have "pt \<in> tables (mem s) d" using pt index_less(1) by (auto simp: tables_def)
  then show "only_pages (insert f (tables (mem s) d)) (mem s) (mem t)"
    by (intro only_pages_trans [OF only_pages_mono [OF op] only_pages_mono [OF w(2)]]) auto
  have "frames_ok (kend s) (set (f # ps)) (mem t) d"
  proof (rule frames_ok_keep [OF i(7), where G = "{f}"])
    fix u assume u: "upresent (mem t) d u"
    then have "u < 2 ^ 19" "u < 2 ^ 20" by (auto simp: upresent_def)
    then show "upresent (mem s) d u \<and> pte (mem t) d u = pte (mem s) d u \<and> uframe (mem s) d u \<notin> {f}"
      using u pw [of u] f(7) [of u] by (auto simp: upresent_def f_def split: if_splits)
  qed (use tb f(4) in auto)
  then show "uvm_inv S (f # ps) d t" using w(1) i(8) by (simp add: uvm_inv_def t)
qed
definition freed_frames :: "mem \<Rightarrow> u32 \<Rightarrow> nat \<Rightarrow> nat \<Rightarrow> u32 set" where
  "freed_frames m d v n = uframe m d ` {w. v \<le> w \<and> w < n \<and> upresent m d w}"

definition dealloc_post :: "lockid set \<Rightarrow> u32 list \<Rightarrow> u32 \<Rightarrow> nat \<Rightarrow> nat \<Rightarrow> 'x kmem_st_scheme \<Rightarrow> 'x kmem_st_scheme \<Rightarrow> bool" where
  "dealloc_post S ps d v n s t \<longleftrightarrow>
     (\<exists>qs. uvm_inv S qs d t \<and> set qs = set ps \<union> freed_frames (mem s) d v n) \<and> kend t = kend s \<and>
     tables (mem t) d = tables (mem s) d \<and>
     (\<forall>w < 2 ^ 20. pte (mem t) d w = (if v \<le> w \<and> w < n \<and> upresent (mem s) d w then 0 else pte (mem s) d w)) \<and>
     only_pages (freed_frames (mem s) d v n \<union> tables (mem s) d) (mem s) (mem t)"

lemma freed_frames_skip:
  assumes "\<And>w. v \<le> w \<Longrightarrow> w < v' \<Longrightarrow> w < n \<Longrightarrow> \<not> upresent m d w" "v \<le> v'"
  shows "freed_frames m d v n = freed_frames m d v' n"
  unfolding freed_frames_def using assms by (metis (no_types, opaque_lifting) le_trans linorder_not_less)

lemma dealloc_post_done: "uvm_inv S ps d s \<Longrightarrow> n \<le> v \<Longrightarrow> dealloc_post S ps d v n s s"
  by (auto simp: dealloc_post_def freed_frames_def)

lemma dealloc_post_skip:
  assumes "\<And>w. v \<le> w \<Longrightarrow> w < v' \<Longrightarrow> w < n \<Longrightarrow> \<not> upresent (mem s) d w" "v \<le> v'" "dealloc_post S ps d v' n s t"
  shows "dealloc_post S ps d v n s t"
proof -
  have "(v \<le> w \<and> w < n \<and> upresent (mem s) d w) = (v' \<le> w \<and> w < n \<and> upresent (mem s) d w)" for w
    using assms(1) [of w] assms(2) by (cases "v' \<le> w") auto
  moreover have "freed_frames (mem s) d v n = freed_frames (mem s) d v' n" by (rule freed_frames_skip) (use assms in auto)
  ultimately show ?thesis using assms(3) by (simp add: dealloc_post_def)
qed

lemma dealloc_post_step:
  fixes s :: "'x kmem_st_scheme"
  assumes "uvm_inv S ps d s" "upresent (mem s) d v" "v < n"
  defines "f \<equiv> uframe (mem s) d v"
  defines "t \<equiv> upd_mem (\<lambda>m. wr32 m (pte_addr (mem s) d (page_at 0 v)) 0) (kfreed f s)"
  assumes post: "dealloc_post S (f # ps) d (Suc v) n t u"
  shows "dealloc_post S ps d v n s u"
proof -
  note o = dealloc_one [OF assms(1,2), folded f_def, folded t_def]
  have up: "upresent (mem t) d w \<longleftrightarrow> upresent (mem s) d w \<and> w \<noteq> v" for w
    using o(4) [of w] by (auto simp: upresent_def split: if_splits)
  have fr: "uframe (mem t) d w = uframe (mem s) d w" if "Suc v \<le> w" "upresent (mem t) d w" for w
    using o(4) [of w] that by (simp add: uframe_def upresent_def)
  have F: "freed_frames (mem s) d v n = insert f (freed_frames (mem t) d (Suc v) n)"
  proof -
    have "{w. v \<le> w \<and> w < n \<and> upresent (mem s) d w} = insert v {w. Suc v \<le> w \<and> w < n \<and> upresent (mem t) d w}"
    proof -
      have "(v \<le> w \<and> w < n \<and> upresent (mem s) d w) \<longleftrightarrow> w = v \<or> (Suc v \<le> w \<and> w < n \<and> upresent (mem t) d w)" for w
        using assms(2,3) up [of w] by (cases "w = v") auto
      then show ?thesis by blast
    qed
    moreover have "uframe (mem t) d ` {w. Suc v \<le> w \<and> w < n \<and> upresent (mem t) d w} =
        uframe (mem s) d ` {w. Suc v \<le> w \<and> w < n \<and> upresent (mem t) d w}" using fr by (intro image_cong) auto
    ultimately show ?thesis by (simp add: freed_frames_def f_def)
  qed
  note p = post [unfolded dealloc_post_def]
  have "\<exists>qs. uvm_inv S qs d u \<and> set qs = set ps \<union> freed_frames (mem s) d v n" using p F by auto
  moreover have "pte (mem u) d w = (if v \<le> w \<and> w < n \<and> upresent (mem s) d w then 0 else pte (mem s) d w)" if "w < 2 ^ 20" for w
    using p that o(4) [OF that] up [of w] assms(2,3) by (auto simp: Suc_le_eq)
  moreover have "only_pages (freed_frames (mem s) d v n \<union> tables (mem s) d) (mem s) (mem u)"
    by (rule only_pages_trans [OF only_pages_mono [OF o(6)]]) (use p F o(5) in \<open>auto elim!: only_pages_mono\<close>)
  ultimately show ?thesis using p o(5,7) by (simp add: dealloc_post_def)
qed

lemma page_at_Suc: "page_at 0 v + PGSIZE = page_at 0 (Suc v)"
  by (simp add: page_at_def algebra_simps)

lemma next_table:
  assumes "v < 2 ^ 19"
  shows "PGADDR (PDX (page_at 0 v) + 1) 0 0 = page_at 0 ((v div 1024 + 1) * 1024)"
proof -
  have p: "unat (PDX (page_at 0 v)) = v div 1024" using vpn_indices(1) [of "page_at 0 v"] vpn_page [of v] assms by simp
  have le: "v div 1024 < 512" using assms by (simp add: less_mult_imp_div_less)
  have q: "PDX (page_at 0 v) = of_nat (v div 1024)" using p by (metis of_nat_unat_idx)
  have "PGADDR (PDX (page_at 0 v) + 1) 0 0 = push_bit 22 (of_nat (v div 1024 + 1))" by (simp add: PGADDR_def q add.commute)
  also have "\<dots> = page_at 0 ((v div 1024 + 1) * 1024)"
    by (simp add: push_bit_eq_mult page_at_def PGSIZE_def)
  finally show ?thesis by simp
qed

lemma no_table_absent:
  assumes "pt_of m d (unat (PDX (page_at 0 v))) = None" "v < 2 ^ 19" "v \<le> w" "w < (v div 1024 + 1) * 1024"
  shows "\<not> upresent m d w"
proof
  assume u: "upresent m d w"
  have "v div 1024 * 1024 \<le> v" by simp
  then have "w div 1024 = v div 1024" using assms(3,4) by (metis add.commute div_le_mono div_less_iff_less_mult le_antisym less_Suc_eq_le plus_1_eq_Suc zero_less_numeral)
  then have "unat (PDX (page_at 0 w)) = unat (PDX (page_at 0 v))"
    using vpn_indices(1) [of "page_at 0 w"] vpn_indices(1) [of "page_at 0 v"] vpn_page [of w] vpn_page [of v] assms(2) u
    by (simp add: upresent_def)
  then show False using u assms(1) by (simp add: upresent_def pte_def pte_of_def)
qed

lemma wp_lookup: "wp (walkpgdir d a False) Q s = Q (pte_addr (mem s) d a) s"
  by (simp add: wp_def walkpgdir_lookup)

lemma deallocuvm_loop_frees:
  fixes s :: "'x kmem_st_scheme"
  assumes "uvm_inv S ps d s" "v \<le> 2 ^ 19" "n \<le> 2 ^ 19" "n - v < fuel"
    and "\<And>w. w \<le> 2 ^ 19 \<Longrightarrow> page_at 0 w < oldsz \<longleftrightarrow> w < n"
  shows "wp (deallocuvm_loop fuel d (page_at 0 v) oldsz) (\<lambda>_. dealloc_post S ps d v n s) s"
  using assms(1,2,4)
proof (induction fuel arbitrary: v s ps)
  case 0
  then show ?case by simp
next
  case (Suc fuel)
  show ?case
  proof (cases "v < n")
    case False
    then have "\<not> page_at 0 v < oldsz" using assms(5) [OF Suc.prems(2)] by simp
    then show ?thesis using False dealloc_post_done [OF Suc.prems(1)] by simp
  next
    case True
    note i = uvm_invD [OF Suc.prems(1)]
    have lt: "page_at 0 v < oldsz" "v < 2 ^ 19" using assms(3) assms(5) [OF Suc.prems(2)] True by auto
    let ?a = "pte_addr (mem s) d (page_at 0 v)"
    show ?thesis
    proof (cases "?a = 0")
      case z: True
      then have none: "pt_of (mem s) d (unat (PDX (page_at 0 v))) = None" using pte_addr_zero_iff [OF i(5)] by simp
      let ?v = "(v div 1024 + 1) * 1024"
      have d: "v div 1024 < 512" using lt(2) by (simp add: less_mult_imp_div_less)
      have vv: "v < ?v" "?v \<le> 2 ^ 19" using d by (simp_all add: dividend_less_div_times)
      have "wp (deallocuvm_loop fuel d (page_at 0 ?v) oldsz) (\<lambda>_. dealloc_post S ps d ?v n s) s"
        by (rule Suc.IH [OF Suc.prems(1) vv(2)]) (use Suc.prems(3) vv(1) True in linarith)
      then have "wp (deallocuvm_loop fuel d (page_at 0 ?v) oldsz) (\<lambda>_. dealloc_post S ps d v n s) s"
        by (rule wp_mono) (rule dealloc_post_skip [of v ?v], use no_table_absent [OF none lt(2)] vv in auto)
      then show ?thesis using lt(1) z by (simp add: wp_lookup next_table [OF lt(2)])
    next
      case nz: False
      have e: "rd32 (mem s) ?a = pte (mem s) d v" using pte_addr_present [OF i(5) nz] by (simp add: pte_def)
      show ?thesis
      proof (cases "pte (mem s) d v AND PTE_P = 0")
        case True
        then have na: "\<not> upresent (mem s) d v" by (simp add: upresent_def)
        have "wp (deallocuvm_loop fuel d (page_at 0 (Suc v)) oldsz) (\<lambda>_. dealloc_post S ps d (Suc v) n s) s"
          by (rule Suc.IH [OF Suc.prems(1)]) (use Suc.prems(3) lt(2) \<open>v < n\<close> in auto)
        then have "wp (deallocuvm_loop fuel d (page_at 0 (Suc v)) oldsz) (\<lambda>_. dealloc_post S ps d v n s) s"
          by (rule wp_mono) (rule dealloc_post_skip [of v "Suc v"], use na in \<open>auto simp: less_Suc_eq_le dest: le_antisym\<close>)
        then show ?thesis using lt(1) nz e True by (simp add: wp_lookup page_at_Suc)
      next
        case False
        then have up: "upresent (mem s) d v" using lt(2) by (simp add: upresent_def)
        let ?f = "uframe (mem s) d v"
        let ?t = "upd_mem (\<lambda>m. wr32 m ?a 0) (kfreed ?f s)"
        note o = dealloc_one [OF Suc.prems(1) up]
        have "wp (deallocuvm_loop fuel d (page_at 0 (Suc v)) oldsz) (\<lambda>_. dealloc_post S (?f # ps) d (Suc v) n ?t) ?t"
          by (rule Suc.IH [OF o(3)]) (use Suc.prems(3) lt(2) \<open>v < n\<close> in auto)
        then have "wp (deallocuvm_loop fuel d (page_at 0 (Suc v)) oldsz) (\<lambda>_. dealloc_post S ps d v n s) ?t"
          by (rule wp_mono) (rule dealloc_post_step [OF Suc.prems(1) up \<open>v < n\<close>])
        moreover have "PTE_ADDR (pte (mem s) d v) \<noteq> 0" by (rule uframeD(2) [OF Suc.prems(1) up])
        moreover have "wp (kfree (P2V (PTE_ADDR (pte (mem s) d v)))) Q s = Q () (kfreed ?f s)" for Q
          using o(2) by (simp add: wp_def uframe_def)
        ultimately show ?thesis using lt(1) nz e False
          by (simp add: wp_lookup page_at_Suc Let_def)
      qed
    qed
  qed
qed
definition npages :: "u32 \<Rightarrow> nat" where
  "npages sz = (unat sz + 4095) div 4096"

lemma npages_le: "sz \<le> KERNBASE \<Longrightarrow> npages sz \<le> 2 ^ 19"
  by (simp add: npages_def KERNBASE_def word_le_nat_alt)

lemma page_below: "w < 2 ^ 20 \<Longrightarrow> page_at 0 w < sz \<longleftrightarrow> w < npages sz"
  by (simp add: word_less_nat_alt unat_page_at npages_def) linarith

lemma PGROUNDUP_page: "sz \<le> KERNBASE \<Longrightarrow> PGROUNDUP sz = page_at 0 (npages sz)"
proof -
  assume sz: "sz \<le> KERNBASE"
  then have "unat (sz + PGSIZE - 1) = unat sz + 4095"
    by (simp add: PGSIZE_def KERNBASE_def word_le_nat_alt unat_word_ariths add_diff_eq [symmetric])
  then have "unat (PGROUNDUP sz) = 4096 * npages sz"
    using and_not_FFF [of "sz + PGSIZE - 1"] by (simp add: PGROUNDUP_def npages_def PGSIZE_def)
  moreover have "unat (page_at 0 (npages sz)) = 4096 * npages sz" using npages_le [OF sz] by (intro unat_page_at) simp
  ultimately show ?thesis by (simp add: word_unat_eq_iff)
qed

lemma npages_mono: "a \<le> b \<Longrightarrow> npages a \<le> npages b"
  by (simp add: npages_def word_le_nat_alt div_le_mono)

lemma deallocuvm_ok:
  assumes "uvm_inv S ps d s" "newsz \<le> oldsz" "oldsz \<le> KERNBASE"
  shows "wp (deallocuvm d oldsz newsz) (\<lambda>r t. r = newsz \<and> dealloc_post S ps d (npages newsz) (npages oldsz) s t) s"
proof (cases "newsz \<ge> oldsz")
  case True
  then have "newsz = oldsz" using assms(2) by simp
  then show ?thesis using dealloc_post_done [OF assms(1)] by (simp add: deallocuvm_def)
next
  case False
  have k: "newsz \<le> KERNBASE" using assms(2,3) by simp
  have "wp (deallocuvm_loop (NPAGES + 1) d (page_at 0 (npages newsz)) oldsz) (\<lambda>_. dealloc_post S ps d (npages newsz) (npages oldsz) s) s"
    using npages_le [OF k] npages_le [OF assms(3)] page_below [of _ oldsz]
    by (intro deallocuvm_loop_frees [OF assms(1)]) (auto simp: NPAGES_def)
  then show ?thesis using False PGROUNDUP_page [OF k] by (auto simp: deallocuvm_def elim!: wp_mono)
qed

text \<open>The bytes of a user page, as the frame holds them.\<close>

definition upage :: "mem \<Rightarrow> u32 \<Rightarrow> nat \<Rightarrow> nat \<Rightarrow> u8" where
  "upage m d v k = m (uframe m d v + of_nat k)"

lemma upage_keep:
  assumes "only_pages P m m'" "\<forall>p \<in> P. p mod PGSIZE = 0 \<and> p \<noteq> uframe m d v" "uframe m d v mod PGSIZE = 0" "pte m' d v = pte m d v" "k < 4096"
  shows "upage m' d v k = upage m d v k"
proof -
  have "in_range (uframe m d v) 4096 (uframe m d v + of_nat k)" using assms(5) by (intro in_range_offset) simp_all
  then have "\<forall>p \<in> P. \<not> in_range p 4096 (uframe m d v + of_nat k)" using pages_disjoint [OF assms(3)] assms(2) by metis
  then show ?thesis using assms(1,4) by (simp add: upage_def uframe_def only_pages_def)
qed

text \<open>
  C11: \<open>deallocuvm\<close> shrinks a process exactly: it returns, every page from the new size up to the old one
  is unmapped, its frame is back on the free list (and no other page is), no other translation changes, and the contents of the pages that
  stay are untouched, although freeing fills each freed page with junk.
\<close>

theorem deallocuvm_frees:
  fixes s :: "'x kmem_st_scheme"
  assumes "uvm_inv S ps d s" "newsz \<le> oldsz" "oldsz \<le> KERNBASE"
  shows "\<exists>t qs. deallocuvm d oldsz newsz s = Ok newsz t \<and> uvm_inv S qs d t \<and>
     set qs = set ps \<union> uframe (mem s) d ` {v. npages newsz \<le> v \<and> v < npages oldsz \<and> upresent (mem s) d v} \<and>
     (\<forall>v < 2 ^ 20. pte (mem t) d v = (if npages newsz \<le> v \<and> v < npages oldsz \<and> upresent (mem s) d v then 0 else pte (mem s) d v)) \<and>
     (\<forall>v k. upresent (mem t) d v \<longrightarrow> k < 4096 \<longrightarrow> upage (mem t) d v k = upage (mem s) d v k)"
proof -
  obtain t where t: "deallocuvm d oldsz newsz s = Ok newsz t" "dealloc_post S ps d (npages newsz) (npages oldsz) s t"
    using deallocuvm_ok [OF assms] by (auto simp: wp_iff)
  let ?P = "freed_frames (mem s) d (npages newsz) (npages oldsz)"
  have p: "\<forall>v < 2 ^ 20. pte (mem t) d v = (if npages newsz \<le> v \<and> v < npages oldsz \<and> upresent (mem s) d v then 0 else pte (mem s) d v)"
    "only_pages (?P \<union> tables (mem s) d) (mem s) (mem t)"
    using t(2) by (simp_all add: dealloc_post_def)
  have "upage (mem t) d v k = upage (mem s) d v k" if v: "upresent (mem t) d v" and k: "k < 4096" for v k
  proof (rule upage_keep [OF p(2) _ _ _ k])
    have v20: "v < 2 ^ 20" "v < 2 ^ 19" using v by (auto simp: upresent_def)
    then have e: "pte (mem t) d v = pte (mem s) d v" "\<not> (npages newsz \<le> v \<and> v < npages oldsz \<and> upresent (mem s) d v)"
      using p(1) v by (auto simp: upresent_def split: if_splits)
    then have u: "upresent (mem s) d v" using v by (simp add: upresent_def)
    show "pte (mem t) d v = pte (mem s) d v" by (rule e(1))
    note f = uframeD [OF assms(1) u]
    show "uframe (mem s) d v mod PGSIZE = 0" by (rule f(6))
    show "\<forall>p \<in> ?P \<union> tables (mem s) d. p mod PGSIZE = 0 \<and> p \<noteq> uframe (mem s) d v"
    proof
      fix q assume "q \<in> ?P \<union> tables (mem s) d"
      then show "q mod PGSIZE = 0 \<and> q \<noteq> uframe (mem s) d v"
      proof
        assume "q \<in> ?P"
        then obtain w where w: "q = uframe (mem s) d w" "upresent (mem s) d w" "npages newsz \<le> w" "w < npages oldsz"
          by (auto simp: freed_frames_def)
        then show ?thesis using uframeD(6) [OF assms(1) w(2)] f(7) [OF w(2)] e(2) u by auto
      next
        assume "q \<in> tables (mem s) d"
        then show ?thesis using tables_valid [OF uvm_invD(5) [OF assms(1)]] f(4) by auto
      qed
    qed
  qed
  then show ?thesis using t p(1) unfolding dealloc_post_def freed_frames_def by blast
qed
section \<open>Growing a process\<close>

lemma map_one:
  fixes s :: "'x kmem_st_scheme"
  assumes "vm_inv S ps d s" "v < 2 ^ 19" "pte (mem s) d v AND PTE_P = 0"
  shows "wp (mappages d (page_at 0 v) PGSIZE pa perm)
    (\<lambda>r t. if r = 0 then \<exists>qs. map_step S ps qs d v pa perm s t
       else r = - 1 \<and> ps = [] \<and> map_post S ps d v 0 pa perm s (- 1) t \<and> (\<forall>vb. pte_of (mem t) d vb = pte_of (mem s) d vb)) s"
proof -
  have u: "unat (page_at 0 v) = 4096 * v" using assms(2) by (intro unat_page_at) simp
  have v: "vpn (page_at 0 v) = v" using assms(2) by (intro vpn_page) simp
  have a: "PGROUNDDOWN (page_at 0 v) = page_at 0 v"
    using unat_PGROUNDDOWN [of "page_at 0 v"] u v by (simp add: word_unat_eq_iff)
  have b: "PGROUNDDOWN (page_at 0 v + PGSIZE - 1) = page_at 0 v"
    using page_span(1,4) [of PGSIZE "page_at 0 v"] u v assms(2) a
    by (simp add: PGSIZE_def page_at_def)
  have c: "wp (mappages_loop (Suc f) d (page_at 0 v) (page_at 0 v) pa perm)
    (\<lambda>r t. if r = 0 then \<exists>qs. map_step S ps qs d v pa perm s t
       else r = - 1 \<and> ps = [] \<and> map_post S ps d v 0 pa perm s (- 1) t \<and> (\<forall>vb. pte_of (mem t) d vb = pte_of (mem s) d vb)) s" for f
    by (rule map_round [OF assms(1), where k = 0]) (use assms(3) v in \<open>auto simp: pte_def\<close>)
  have "NPAGES = Suc (NPAGES - 1)" by (simp add: NPAGES_def)
  then have n: "mappages_loop NPAGES = (mappages_loop (Suc (NPAGES - 1)) :: u32 \<Rightarrow> u32 \<Rightarrow> u32 \<Rightarrow> u32 \<Rightarrow> u32 \<Rightarrow> ('x kmem_st_scheme, int) prog)" by (rule arg_cong)
  show ?thesis unfolding mappages_def a b n by (rule c)
qed
text \<open>One round of \<open>allocuvm\<close>: a fresh page \<open>g\<close> is cleared and mapped at page number \<open>v\<close>.\<close>

lemma alloc_clear:
  fixes s :: "'x kmem_st_scheme"
  assumes "uvm_inv S (g # ps) d s"
  defines "u \<equiv> upd_mem (\<lambda>m. memset m g 0 PGSIZE) (kalloced s)"
  shows "kalloc s = Ok g (kalloced s)" "g \<noteq> 0" "valid_page (kend s) g" "g \<notin> set ps" "g \<noteq> d" "g \<notin> tables (mem s) d"
    "vm_inv S ps d u" "pte (mem u) d w = pte (mem s) d w" "tables (mem u) d = tables (mem s) d" "kend u = kend s"
    "only_pages {g} (mem s) (mem u)" "k < 4096 \<Longrightarrow> mem u (g + of_nat k) = 0" "mem u = memset (mem s) g 0 PGSIZE"
proof -
  note i = uvm_invD [OF assms(1)]
  have g: "freelist s = g" "g \<noteq> 0" "valid_page (kend s) g" "g \<notin> set ps" "g mod PGSIZE = 0"
    using i(4) by (auto simp: free_pages_def valid_page_def)
  show "kalloc s = Ok g (kalloced s)" using kalloc_ok [OF i(1-3)] g(1) by simp
  show "g \<noteq> 0" "valid_page (kend s) g" "g \<notin> set ps" by (fact g)+
  show gd: "g \<noteq> d" using pt_okD(3) [OF i(5)] by auto
  show gt: "g \<notin> tables (mem s) d" using tables_valid [OF i(5), of g] by auto
  show m: "mem u = memset (mem s) g 0 PGSIZE" by (simp add: u_def)
  show op: "only_pages {g} (mem s) (mem u)" unfolding m by (rule only_page_pages [OF only_page_memset]) simp
  have fr: "\<forall>p \<in> {g}. p mod PGSIZE = 0 \<and> p \<noteq> d \<and> p \<notin> tables (mem s) d" using g(5) gd gt by simp
  note tr = translation_frame [OF op fr i(5)]
  show "pte (mem u) d w = pte (mem s) d w" using tr(2) by (simp add: pte_def)
  show "tables (mem u) d = tables (mem s) d" by (rule tr(3))
  show k: "kend u = kend s" by (simp add: u_def)
  show "mem u (g + of_nat k) = 0" if "k < 4096"
    using in_range_offset [of k 4096 g] that by (simp add: m memset_apply PGSIZE_def)
  have "free_pages ps (kalloced s)" using i(4) by (rule free_pages_kalloced)
  then have "free_pages ps u"
    unfolding u_def by (rule free_pages_upd_mem [where P = "{g}"]) (use op g(4,5) in \<open>auto simp: u_def\<close>)
  moreover have "pt_ok (kend s) (set ps) (mem u) d" by (rule pt_ok_mono [OF tr(4)]) auto
  ultimately show "vm_inv S ps d u"
    using i(1-3) k lockset_kalloced [OF i(1-3)] by (simp add: vm_inv_def u_def)
qed

lemma page_entry:
  assumes "valid_page e g" "KERNBASE < e"
  shows "P2V (PTE_ADDR (V2P g OR (PTE_W OR PTE_U) OR PTE_P)) = g" "PTE_FLAGS (V2P g OR (PTE_W OR PTE_U) OR PTE_P) = PTE_W OR PTE_U OR PTE_P"
proof -
  have "V2P g mod PGSIZE = 0" using assms(1) by (intro V2P_aligned) (simp add: valid_page_def)
  moreover have "PTE_W OR PTE_U OR PTE_P < 4096" by (simp add: PTE_W_def PTE_U_def PTE_P_def)
  moreover have "V2P g OR (PTE_W OR PTE_U) OR PTE_P = V2P g OR (PTE_W OR PTE_U OR PTE_P)" by (simp add: or.assoc)
  ultimately show "P2V (PTE_ADDR (V2P g OR (PTE_W OR PTE_U) OR PTE_P)) = g"
    "PTE_FLAGS (V2P g OR (PTE_W OR PTE_U) OR PTE_P) = PTE_W OR PTE_U OR PTE_P"
    using PTE_combine [of "V2P g" "PTE_W OR PTE_U OR PTE_P"] by simp_all
qed

definition page_new :: "lockid set \<Rightarrow> u32 list \<Rightarrow> u32 \<Rightarrow> nat \<Rightarrow> 'x kmem_st_scheme \<Rightarrow> 'x kmem_st_scheme \<Rightarrow> bool" where
  "page_new S ps d v s t \<longleftrightarrow>
     (\<exists>qs. uvm_inv S qs d t \<and> set qs \<subseteq> set ps \<and> length ps \<le> length qs + 2) \<and> kend t = kend s \<and> tables (mem t) d \<subseteq> tables (mem s) d \<union> set ps \<and>
     (\<forall>w < 2 ^ 20. w \<noteq> v \<longrightarrow> pte (mem t) d w = pte (mem s) d w) \<and>
     upresent (mem t) d v \<and> PTE_FLAGS (pte (mem t) d v) = PTE_W OR PTE_U OR PTE_P \<and> uframe (mem t) d v \<in> set ps \<and>
     (\<forall>k < 4096. upage (mem t) d v k = 0) \<and>
     only_pages (insert d (set ps \<union> tables (mem s) d)) (mem s) (mem t)"

lemma page_new_mapped:
  fixes s :: "'x kmem_st_scheme"
  assumes "uvm_inv S (g # ps) d s" "v < 2 ^ 19" "\<not> upresent (mem s) d v"
  defines "u \<equiv> upd_mem (\<lambda>m. memset m g 0 PGSIZE) (kalloced s)"
  assumes "map_step S ps qs d v (V2P g) (PTE_W OR PTE_U) u t"
  shows "page_new S (g # ps) d v s t"
proof -
  note i = uvm_invD [OF assms(1)]
  note c = alloc_clear [OF assms(1), folded u_def]
  note st = assms(5) [unfolded map_step_def]
  have p: "pte (mem t) d w = (if w = v then V2P g OR (PTE_W OR PTE_U) OR PTE_P else pte (mem s) d w)" if "w < 2 ^ 20" for w
    using st vpn_page [OF that] c(8) [of w] by (simp add: pte_def)
  have v: "v < 2 ^ 20" using assms(2) by simp
  note e = page_entry [OF c(3) i(8)]
  have fv: "uframe (mem t) d v = g" using p [OF v] e(1) by (simp add: uframe_def)
  have uv: "upresent (mem t) d v" using p [OF v] PTE_P_or(1) [of "V2P g" "PTE_W OR PTE_U"] assms(2) by (simp add: upresent_def)
  have old: "upresent (mem s) d w \<and> uframe (mem t) d w = uframe (mem s) d w \<and> uframe (mem s) d w \<noteq> g" if "upresent (mem t) d w" "w \<noteq> v" for w
  proof -
    have w: "w < 2 ^ 20" using that(1) by (simp add: upresent_def)
    then have "upresent (mem s) d w" "uframe (mem t) d w = uframe (mem s) d w" using p [OF w] that by (auto simp: upresent_def uframe_def)
    then show ?thesis using uframeD(3) [OF assms(1), of w] by auto
  qed
  have tb: "tables (mem t) d \<subseteq> tables (mem s) d \<union> set ps" using st c(9) by simp
  have "frames_ok (kend s) (set qs) (mem t) d"
    unfolding frames_ok_def
  proof (intro conjI allI impI)
    fix w assume w: "upresent (mem t) d w"
    have "valid_page (kend s) (uframe (mem t) d w) \<and> uframe (mem t) d w \<notin> set qs \<and> uframe (mem t) d w \<notin> tables (mem t) d \<and> uframe (mem t) d w \<noteq> d"
    proof (cases "w = v")
      case True
      then show ?thesis using fv c(3-6) st tb by auto
    next
      case False
      note o = old [OF w False]
      then show ?thesis using uframeD(1,3,4,5) [OF assms(1), of w] st tb by auto
    qed
    then show "valid_page (kend s) (uframe (mem t) d w)" "uframe (mem t) d w \<notin> set qs" "uframe (mem t) d w \<notin> tables (mem t) d"
      "uframe (mem t) d w \<noteq> d" by blast+
  next
    show "inj_on (uframe (mem t) d) {w. upresent (mem t) d w}"
    proof (rule inj_onI)
      fix a b assume ab: "a \<in> {w. upresent (mem t) d w}" "b \<in> {w. upresent (mem t) d w}" "uframe (mem t) d a = uframe (mem t) d b"
      show "a = b"
      proof (cases "a = v \<or> b = v")
        case True
        then show ?thesis using ab old [of a] old [of b] fv by (cases "a = b") auto
      next
        case False
        then show ?thesis using ab old [of a] old [of b] uframeD(7) [OF assms(1), of b a] by auto
      qed
    qed
  qed
  then have "uvm_inv S qs d t" using st i(8) c(10) by (simp add: uvm_inv_def)
  moreover have op: "only_pages (insert d (set (g # ps) \<union> tables (mem s) d)) (mem s) (mem t)"
    by (rule only_pages_trans [OF only_pages_mono [OF c(11)]]) (use st c(9) in \<open>auto elim!: only_pages_mono\<close>)
  moreover have "upage (mem t) d v k = 0" if "k < 4096" for k
  proof -
    have "in_range g 4096 (g + of_nat k)" using that by (intro in_range_offset) simp_all
    moreover have "\<forall>q \<in> insert d (set ps \<union> tables (mem u) d). q mod PGSIZE = 0 \<and> q \<noteq> g"
      using c(4-6,9) i(4) pt_okD(1) [OF i(5)] tables_valid [OF i(5)] by (auto simp: free_pages_def valid_page_def)
    moreover have "g mod PGSIZE = 0" using c(3) by (simp add: valid_page_def)
    ultimately have "\<forall>q \<in> insert d (set ps \<union> tables (mem u) d). \<not> in_range q 4096 (g + of_nat k)"
      using pages_disjoint [of g] by metis
    then show ?thesis using st c(12) [OF that] fv by (simp add: upage_def only_pages_def)
  qed
  ultimately show ?thesis using st p v uv fv e(2) tb c(10) unfolding page_new_def by auto
qed
text \<open>
  \<open>grown v0 v\<close>: what holds after the pages \<open>v0\<close> to \<open>v\<close> have been added.
\<close>

definition grown :: "lockid set \<Rightarrow> u32 list \<Rightarrow> u32 \<Rightarrow> nat \<Rightarrow> nat \<Rightarrow> 'x kmem_st_scheme \<Rightarrow> 'x kmem_st_scheme \<Rightarrow> bool" where
  "grown S ps d v0 v s t \<longleftrightarrow>
     (\<exists>qs. uvm_inv S qs d t \<and> set qs \<subseteq> set ps) \<and> kend t = kend s \<and> tables (mem t) d \<subseteq> tables (mem s) d \<union> set ps \<and>
     (\<forall>w < 2 ^ 20. \<not> (v0 \<le> w \<and> w < v) \<longrightarrow> pte (mem t) d w = pte (mem s) d w) \<and>
     (\<forall>w. v0 \<le> w \<and> w < v \<longrightarrow> upresent (mem t) d w \<and> PTE_FLAGS (pte (mem t) d w) = PTE_W OR PTE_U OR PTE_P \<and>
        uframe (mem t) d w \<in> set ps \<and> (\<forall>k < 4096. upage (mem t) d w k = 0)) \<and>
     only_pages (insert d (set ps \<union> tables (mem s) d)) (mem s) (mem t)"

lemma grown_start: "uvm_inv S ps d s \<Longrightarrow> grown S ps d v0 v0 s s"
  by (auto simp: grown_def)

lemma upage_new:
  assumes "uvm_inv S qs d t" "set qs \<subseteq> Q" "only_pages (insert d (set qs \<union> tables (mem t) d)) (mem t) (mem u)" "upresent (mem t) d w"
    "pte (mem u) d w = pte (mem t) d w" "k < 4096"
  shows "upage (mem u) d w k = upage (mem t) d w k"
proof (rule upage_keep [OF assms(3) _ _ assms(5,6)])
  note i = uvm_invD [OF assms(1)]
  note f = uframeD [OF assms(1,4)]
  show "uframe (mem t) d w mod PGSIZE = 0" by (rule f(6))
  show "\<forall>p \<in> insert d (set qs \<union> tables (mem t) d). p mod PGSIZE = 0 \<and> p \<noteq> uframe (mem t) d w"
    using f(3-5) i(4) pt_okD(1) [OF i(5)] tables_valid [OF i(5)] by (auto simp: free_pages_def valid_page_def)
qed

lemma grown_step:
  assumes "grown S ps d v0 v s t" "v0 \<le> v" "v < 2 ^ 19" "uvm_inv S qs d t" "set qs \<subseteq> set ps" "page_new S qs d v t u"
  shows "grown S ps d v0 (Suc v) s u"
proof -
  note g = assms(1) [unfolded grown_def]
  note n = assms(6) [unfolded page_new_def]
  have "upresent (mem u) d w \<and> PTE_FLAGS (pte (mem u) d w) = PTE_W OR PTE_U OR PTE_P \<and> uframe (mem u) d w \<in> set ps \<and> (\<forall>k < 4096. upage (mem u) d w k = 0)"
    if "v0 \<le> w" "w < Suc v" for w
  proof (cases "w = v")
    case True
    then show ?thesis using n assms(5) by auto
  next
    case False
    then have w: "w < v" "w < 2 ^ 20" using that assms(3) by auto
    then have o: "upresent (mem t) d w" "PTE_FLAGS (pte (mem t) d w) = PTE_W OR PTE_U OR PTE_P" "uframe (mem t) d w \<in> set ps"
      "\<forall>k < 4096. upage (mem t) d w k = 0" "pte (mem u) d w = pte (mem t) d w" using g n False that by auto
    have "only_pages (insert d (set qs \<union> tables (mem t) d)) (mem t) (mem u)" using n by simp
    then have "upage (mem u) d w k = upage (mem t) d w k" if "k < 4096" for k
      using upage_new [OF assms(4,5) _ o(1,5) that] by simp
    then show ?thesis using o by (simp add: upresent_def uframe_def)
  qed
  moreover have "\<forall>w < 2 ^ 20. \<not> (v0 \<le> w \<and> w < Suc v) \<longrightarrow> pte (mem u) d w = pte (mem s) d w"
  proof (intro allI impI)
    fix w assume w: "w < 2 ^ 20" "\<not> (v0 \<le> w \<and> w < Suc v)"
    then have "w \<noteq> v" "\<not> (v0 \<le> w \<and> w < v)" using assms(2) by auto
    then show "pte (mem u) d w = pte (mem s) d w" using g n w(1) by simp
  qed
  moreover have "only_pages (insert d (set ps \<union> tables (mem s) d)) (mem s) (mem u)"
  proof (rule only_pages_trans [of _ "mem s" "mem t"])
    show "only_pages (insert d (set ps \<union> tables (mem s) d)) (mem s) (mem t)" using g by blast
    have "only_pages (insert d (set qs \<union> tables (mem t) d)) (mem t) (mem u)" using n by blast
    then show "only_pages (insert d (set ps \<union> tables (mem s) d)) (mem t) (mem u)" by (rule only_pages_mono) (use g assms(5) in auto)
  qed
  moreover have "\<exists>qs. uvm_inv S qs d u \<and> set qs \<subseteq> set ps" using n assms(5) by (meson subset_trans)
  moreover have "tables (mem u) d \<subseteq> tables (mem s) d \<union> set ps" using g n assms(5) by auto
  ultimately show ?thesis using g n by (simp add: grown_def)
qed

text \<open>Giving up: whatever has been added is taken away again.\<close>

definition undone :: "lockid set \<Rightarrow> u32 list \<Rightarrow> u32 \<Rightarrow> 'x kmem_st_scheme \<Rightarrow> 'x kmem_st_scheme \<Rightarrow> bool" where
  "undone S ps d s t \<longleftrightarrow>
     (\<exists>qs. uvm_inv S qs d t \<and> set qs \<subseteq> set ps) \<and> tables (mem t) d \<subseteq> tables (mem s) d \<union> set ps \<and>
     (\<forall>w < 2 ^ 20. pte (mem t) d w AND PTE_P \<noteq> 0 \<or> pte (mem s) d w AND PTE_P \<noteq> 0 \<longrightarrow> pte (mem t) d w = pte (mem s) d w) \<and>
     only_pages (insert d (set ps \<union> tables (mem s) d)) (mem s) (mem t)"

lemma undone_dealloc:
  assumes "grown S ps d v0 v s t" "v0 \<le> v" "v \<le> n" "n \<le> 2 ^ 19" "\<And>w. v0 \<le> w \<Longrightarrow> w < n \<Longrightarrow> \<not> upresent (mem s) d w"
    and "uvm_inv S qs d t" "set qs \<subseteq> set ps" "dealloc_post S qs d v0 n t u"
  shows "undone S ps d s u"
proof -
  note g = assms(1) [unfolded grown_def]
  note p = assms(8) [unfolded dealloc_post_def]
  have gone: "v0 \<le> w \<and> w < n \<and> upresent (mem t) d w \<longleftrightarrow> v0 \<le> w \<and> w < v" if "w < 2 ^ 20" for w
  proof -
    have "\<not> upresent (mem t) d w" if "v0 \<le> w" "w < n" "\<not> w < v"
      using assms(5) [OF that(1,2)] g \<open>w < 2 ^ 20\<close> that by (auto simp: upresent_def)
    then show ?thesis using g assms(3) by auto
  qed
  have F: "freed_frames (mem t) d v0 n \<subseteq> set ps"
  proof
    fix x assume "x \<in> freed_frames (mem t) d v0 n"
    then obtain w where w: "x = uframe (mem t) d w" "v0 \<le> w" "w < n" "upresent (mem t) d w" by (auto simp: freed_frames_def)
    then have "w < v" using gone [of w] by (auto simp: upresent_def)
    then show "x \<in> set ps" using g w by auto
  qed
  have "pte (mem u) d w = pte (mem s) d w" if "w < 2 ^ 20" "pte (mem u) d w AND PTE_P \<noteq> 0 \<or> pte (mem s) d w AND PTE_P \<noteq> 0" for w
  proof (cases "v0 \<le> w \<and> w < v")
    case True
    then have "pte (mem u) d w = 0" using p gone [OF that(1)] that(1) by simp
    moreover have "pte (mem s) d w AND PTE_P = 0" using assms(3,4) assms(5) [of w] True by (simp add: upresent_def)
    ultimately show ?thesis using that(2) by simp
  next
    case False
    then show ?thesis using p g gone [OF that(1)] that(1) by auto
  qed
  moreover have "only_pages (insert d (set ps \<union> tables (mem s) d)) (mem s) (mem u)"
  proof (rule only_pages_trans [of _ "mem s" "mem t"])
    show "only_pages (insert d (set ps \<union> tables (mem s) d)) (mem s) (mem t)" using g by blast
    have "only_pages (freed_frames (mem t) d v0 n \<union> tables (mem t) d) (mem t) (mem u)" using p by blast
    then show "only_pages (insert d (set ps \<union> tables (mem s) d)) (mem t) (mem u)" by (rule only_pages_mono) (use g F in auto)
  qed
  moreover have "\<exists>rs. uvm_inv S rs d u \<and> set rs \<subseteq> set ps"
  proof -
    obtain rs where "uvm_inv S rs d u" "set rs = set qs \<union> freed_frames (mem t) d v0 n" using p by blast
    then show ?thesis using F assms(7) by (intro exI [of _ rs]) simp
  qed
  moreover have "tables (mem u) d \<subseteq> tables (mem s) d \<union> set ps" using g p by simp
  ultimately show ?thesis unfolding undone_def by blast
qed
lemma grown_same:
  assumes "grown S ps d v0 v s t" "uvm_inv S qs d t" "set qs \<subseteq> set ps" "v \<le> 2 ^ 19" "uvm_inv S rs d u" "set rs \<subseteq> set ps" "kend u = kend t"
    and "tables (mem u) d \<subseteq> tables (mem t) d \<union> set qs" "\<And>w. w < 2 ^ 20 \<Longrightarrow> pte (mem u) d w = pte (mem t) d w"
    and "only_pages (insert d (set qs \<union> tables (mem t) d)) (mem t) (mem u)"
  shows "grown S ps d v0 v s u"
proof -
  note g = assms(1) [unfolded grown_def]
  have "upresent (mem u) d w \<and> PTE_FLAGS (pte (mem u) d w) = PTE_W OR PTE_U OR PTE_P \<and> uframe (mem u) d w \<in> set ps \<and> (\<forall>k < 4096. upage (mem u) d w k = 0)"
    if w: "v0 \<le> w \<and> w < v" for w
  proof -
    have o: "upresent (mem t) d w" "PTE_FLAGS (pte (mem t) d w) = PTE_W OR PTE_U OR PTE_P" "uframe (mem t) d w \<in> set ps"
      "\<forall>k < 4096. upage (mem t) d w k = 0" "pte (mem u) d w = pte (mem t) d w" using g w assms(4) assms(9) [of w] by auto
    then have "upage (mem u) d w k = upage (mem t) d w k" if "k < 4096" for k
      using upage_new [OF assms(2,3,10) o(1,5) that] by simp
    then show ?thesis using o by (simp add: upresent_def uframe_def)
  qed
  moreover have "only_pages (insert d (set ps \<union> tables (mem s) d)) (mem s) (mem u)"
  proof (rule only_pages_trans [of _ "mem s" "mem t"])
    show "only_pages (insert d (set ps \<union> tables (mem s) d)) (mem s) (mem t)" using g by blast
    show "only_pages (insert d (set ps \<union> tables (mem s) d)) (mem t) (mem u)" by (rule only_pages_mono [OF assms(10)]) (use g assms(3) in auto)
  qed
  moreover have "tables (mem u) d \<subseteq> tables (mem s) d \<union> set ps" using g assms(3,8) by auto
  moreover have "\<forall>w < 2 ^ 20. \<not> (v0 \<le> w \<and> w < v) \<longrightarrow> pte (mem u) d w = pte (mem s) d w" using g assms(9) by simp
  ultimately show ?thesis using g assms(5-7) unfolding grown_def by auto
qed

lemma con_ok_more: "kmem_st.more t = kmem_st.more s \<Longrightarrow> con_ok t = con_ok s"
  by (cases s; cases t) (simp add: con_ok_def)

lemma printed_kmem [simp]: "mem (printed cs s) = mem s" "kend (printed cs s) = kend s" "freelist (printed cs s) = freelist s"
  by (simp_all add: printed_def)

lemma uvm_inv_mem_eq:
  "mem t = mem s \<Longrightarrow> kend t = kend s \<Longrightarrow> freelist t = freelist s \<Longrightarrow> lockset S t \<Longrightarrow> uvm_inv S ps d s \<Longrightarrow> uvm_inv S ps d t"
  by (simp add: uvm_inv_def vm_inv_def free_pages_def)

lemma uvm_inv_printed:
  "uvm_inv S ps d s \<Longrightarrow> L_cons \<notin> S \<Longrightarrow> uvm_inv S ps d (printed cs s)"
  by (rule uvm_inv_mem_eq [of _ s]) (auto simp: uvm_inv_def vm_inv_def intro: lockset_printed)

lemma out_of_memory_text: "\<exists>cs. cfmt (''allocuvm out of memory'' @ nl) [] = Some cs" "\<exists>cs. cfmt (''allocuvm out of memory (2)'' @ nl) [] = Some cs"
  by (simp_all add: nl_def)

text \<open>Putting a page back that no table and no process uses.\<close>

lemma undone_kfree:
  assumes "undone S ps d s t" "uvm_inv S qs d t" "set qs \<subseteq> set ps" "valid_page (kend t) g" "g \<in> set ps" "g \<notin> set qs" "g \<noteq> d"
    and "g \<notin> tables (mem t) d" "\<And>w. upresent (mem t) d w \<Longrightarrow> uframe (mem t) d w \<noteq> g"
  shows "kfree g t = Ok () (kfreed g t)" "undone S ps d s (kfreed g t)"
proof -
  note i = uvm_invD [OF assms(2)]
  show "kfree g t = Ok () (kfreed g t)" by (rule kfree_ok [OF i(1-3) assms(4)])
  have g: "g mod PGSIZE = 0" using assms(4) by (simp add: valid_page_def)
  have op: "only_pages {g} (mem t) (mem (kfreed g t))" by (rule only_page_pages [OF only_page_kfreed]) simp
  have fr: "\<forall>p \<in> {g}. p mod PGSIZE = 0 \<and> p \<noteq> d \<and> p \<notin> tables (mem t) d" using g assms(7,8) by simp
  note tr = translation_frame [OF op fr i(5)]
  have p: "pte (mem (kfreed g t)) d w = pte (mem t) d w" for w using tr(2) by (simp add: pte_def)
  have "pt_ok (kend t) (set (g # qs)) (mem (kfreed g t)) d"
    using i(5) assms(7,8) tr(1) unfolding pt_ok_def tables_def by auto
  then have "vm_inv S (g # qs) d (kfreed g t)"
    using i(1-4) lockset_kfreed [OF i(1-3)] free_pages_kfreed [OF i(4) assms(4,6)] by (simp add: vm_inv_def)
  moreover have "frames_ok (kend t) (set (g # qs)) (mem (kfreed g t)) d"
    by (rule frames_ok_keep [OF i(7), where G = "{g}"]) (use p tr(3) assms(8,9) in \<open>auto simp: upresent_def\<close>)
  ultimately have "uvm_inv S (g # qs) d (kfreed g t)" using i(8) by (simp add: uvm_inv_def)
  moreover have "only_pages (insert d (set ps \<union> tables (mem s) d)) (mem s) (mem (kfreed g t))"
  proof (rule only_pages_trans [of _ "mem s" "mem t"])
    show "only_pages (insert d (set ps \<union> tables (mem s) d)) (mem s) (mem t)" using assms(1) by (simp add: undone_def)
    show "only_pages (insert d (set ps \<union> tables (mem s) d)) (mem t) (mem (kfreed g t))" by (rule only_pages_mono [OF op]) (use assms(5) in auto)
  qed
  ultimately show "undone S ps d s (kfreed g t)"
    using assms(1,3,5) p tr(3) unfolding undone_def by (auto intro!: exI [of _ "g # qs"])
qed
lemma giveup:
  assumes "uvm_inv S qs d t" "L_cons \<notin> S" "con_ok t" "cfmt msg [] = Some cs" "oldsz \<le> newsz" "newsz \<le> KERNBASE"
    and "\<And>u. dealloc_post S qs d (npages oldsz) (npages newsz) (printed cs t) u \<Longrightarrow> wp k Q u"
  shows "wp (seqM (kprint msg []) (seqM (deallocuvm d newsz oldsz) k)) Q t"
proof -
  note i = uvm_invD [OF assms(1)]
  have "wp (deallocuvm d newsz oldsz) (\<lambda>_. wp k Q) (printed cs t)"
    using deallocuvm_ok [OF uvm_inv_printed [OF assms(1,2)] assms(5,6)] by (rule wp_mono) (use assms(7) in blast)
  then show ?thesis using cprintf_ok [OF i(1) assms(2) i(3) assms(3,4)] by (simp add: wp_OkI)
qed

lemma con_ok_kalloced:
  assumes "uvm_inv S ps d t" "con_ok t"
  shows "kmem_st.more (kalloced t) = kmem_st.more t" "con_ok (kalloced t)"
proof -
  note i = uvm_invD [OF assms(1)]
  show "kmem_st.more (kalloced t) = kmem_st.more t"
    using keeps_kmem(1) kalloc_ok [OF i(1-3)] unfolding keeps_def by metis
  then show "con_ok (kalloced t)" using assms(2) con_ok_more by metis
qed

lemma uvm_inv_kalloced_empty:
  assumes "uvm_inv S [] d t"
  shows "freelist t = 0" "uvm_inv S [] d (kalloced t)"
proof -
  note i = uvm_invD [OF assms]
  show f: "freelist t = 0" using i(4) by (simp add: free_pages_def)
  have "freelist (kalloced t) = 0" using f by (simp add: kalloced_def pop_free_def)
  then show "uvm_inv S [] d (kalloced t)"
    using assms lockset_kalloced [OF i(1-3)] f by (intro uvm_inv_mem_eq [of "kalloced t" t]) simp_all
qed

text \<open>The allocator has no page for the process.\<close>

lemma no_page_undone:
  assumes "grown S ps d v0 v s t" "uvm_inv S [] d t" "v0 \<le> v" "v \<le> n" "n \<le> 2 ^ 19"
    and "\<And>w. v0 \<le> w \<Longrightarrow> w < n \<Longrightarrow> \<not> upresent (mem s) d w" "L_cons \<notin> S"
    and "dealloc_post S [] d v0 n (printed cs (kalloced t)) u"
  shows "undone S ps d s u"
proof -
  have i: "uvm_inv S [] d (printed cs (kalloced t))"
    by (intro uvm_inv_printed uvm_inv_kalloced_empty(2)) (fact assms)+
  have "grown S ps d v0 v s (printed cs (kalloced t))"
    by (rule grown_same [OF assms(1,2) _ _ i]) (use assms(4,5) in auto)
  then show ?thesis by (rule undone_dealloc [OF _ assms(3-6) i _ assms(8)]) simp_all
qed

text \<open>The allocator has a page for the process and none for a table: the page goes back too.\<close>

lemma no_table_undone:
  assumes "grown S ps d v0 v s t" "uvm_inv S [g] d t" "set [g] \<subseteq> set ps" "v0 \<le> v" "v \<le> n" "n \<le> 2 ^ 19"
    and "\<And>w. v0 \<le> w \<Longrightarrow> w < n \<Longrightarrow> \<not> upresent (mem s) d w" "L_cons \<notin> S"
  defines "u \<equiv> upd_mem (\<lambda>m. memset m g 0 PGSIZE) (kalloced t)"
  assumes "map_post S [] d v 0 pa perm u (- 1) t2" "\<forall>vb. pte_of (mem t2) d vb = pte_of (mem u) d vb"
  shows "uvm_inv S [] d t2"
    and "dealloc_post S [] d v0 n (printed cs t2) t3 \<Longrightarrow> kfree g t3 = Ok () (kfreed g t3) \<and> undone S ps d s (kfreed g t3)"
proof -
  note i = uvm_invD [OF assms(2)]
  note c = alloc_clear [OF assms(2), folded u_def]
  have m: "vm_inv S [] d t2" "kend t2 = kend t" "tables (mem t2) d \<subseteq> tables (mem t) d"
    "only_pages (insert d (tables (mem t) d)) (mem u) (mem t2)"
    using assms(10) c(9,10) by (auto simp: map_post_def)
  have p: "pte (mem t2) d w = pte (mem t) d w" for w using assms(11) c(8) [of w] by (simp add: pte_def)
  have "frames_ok (kend t) (set []) (mem t2) d"
    by (rule frames_ok_keep [OF i(7), where G = "{}"]) (use p m(3) in \<open>auto simp: upresent_def\<close>)
  then show t2: "uvm_inv S [] d t2" using m(1,2) i(8) by (simp add: uvm_inv_def)
  note tp = uvm_inv_printed [OF t2 assms(8), of cs]
  have op: "only_pages (insert d (set [g] \<union> tables (mem t) d)) (mem t) (mem t2)"
    by (rule only_pages_trans [OF only_pages_mono [OF c(11)] only_pages_mono [OF m(4)]]) auto
  have g: "grown S ps d v0 v s (printed cs t2)"
    by (rule grown_same [OF assms(1-3) _ tp]) (use assms(5,6) m(2,3) p op in auto)
  assume post: "dealloc_post S [] d v0 n (printed cs t2) t3"
  have un: "undone S ps d s t3" by (rule undone_dealloc [OF g assms(4-7) tp _ post]) simp_all
  have ng: "uframe (mem t2) d w \<noteq> g" if "upresent (mem t2) d w" for w
    using uframeD(3) [OF assms(2), of w] that p [of w] by (auto simp: upresent_def uframe_def)
  obtain rs where rs: "uvm_inv S rs d t3" "set rs = freed_frames (mem t2) d v0 n" using post by (auto simp: dealloc_post_def)
  have "set rs \<subseteq> set ps"
  proof
    fix x assume "x \<in> set rs"
    then obtain w where w: "x = uframe (mem t2) d w" "v0 \<le> w" "w < n" "upresent (mem t2) d w" using rs(2) by (auto simp: freed_frames_def)
    then have "w < v" using g [unfolded grown_def] assms(7) [OF w(2,3)] by (auto simp: upresent_def)
    then show "x \<in> set ps" using g [unfolded grown_def] w by auto
  qed
  moreover have "g \<notin> set rs" using rs(2) ng by (auto simp: freed_frames_def)
  moreover have "uframe (mem t3) d w \<noteq> g" if "upresent (mem t3) d w" for w
  proof -
    have "w < 2 ^ 20" "w < 2 ^ 19" using that by (auto simp: upresent_def)
    then have "pte (mem t3) d w = pte (mem t2) d w" using that post by (auto simp: dealloc_post_def upresent_def split: if_splits)
    then show ?thesis using ng [of w] that by (simp add: upresent_def uframe_def)
  qed
  moreover have "g \<notin> tables (mem t3) d" "kend t3 = kend t" using post m(2,3) c(6) by (auto simp: dealloc_post_def)
  ultimately show "kfree g t3 = Ok () (kfreed g t3) \<and> undone S ps d s (kfreed g t3)"
    using undone_kfree [OF un rs(1)] c(3,5) assms(3) by auto
qed

text \<open>Every page added has taken at most two pages off the free list, itself and a table for it.\<close>

definition roomy :: "lockid set \<Rightarrow> u32 list \<Rightarrow> u32 \<Rightarrow> nat \<Rightarrow> 'x kmem_st_scheme \<Rightarrow> bool" where
  "roomy S ps d k t \<longleftrightarrow> (\<exists>qs. uvm_inv S qs d t \<and> set qs \<subseteq> set ps \<and> length ps \<le> length qs + 2 * k)"

lemma roomy_step:
  assumes "set qs \<subseteq> set ps" "length ps \<le> length qs + 2 * k" "page_new S qs d v t u"
  shows "roomy S ps d (Suc k) u"
  using assms unfolding page_new_def roomy_def by (force intro: order_trans)

lemma allocuvm_loop_grows:
  fixes s :: "'x con_st_scheme"
  assumes "L_cons \<notin> S" "oldsz \<le> newsz" "newsz \<le> KERNBASE" "v0 = npages oldsz" "n = npages newsz"
    and "\<And>w. v0 \<le> w \<Longrightarrow> w < n \<Longrightarrow> \<not> upresent (mem s) d w"
    and "grown S ps d v0 v s t" "con_ok t" "v0 \<le> v" "v \<le> n" "n - v < fuel" "roomy S ps d (v - v0) t"
  shows "wp (allocuvm_loop fuel d (page_at 0 v) oldsz newsz)
    (\<lambda>r u. (r = newsz \<and> grown S ps d v0 n s u) \<or> (r = 0 \<and> undone S ps d s u \<and> length ps < 2 * (n - v0))) t"
  using assms(7-12)
proof (induction fuel arbitrary: v t)
  case 0
  then show ?case by simp
next
  case (Suc fuel)
  let ?Q = "\<lambda>r u. (r = newsz \<and> grown S ps d v0 n s u) \<or> (r = 0 \<and> undone S ps d s u \<and> length ps < 2 * (n - v0))"
  have n: "n \<le> 2 ^ 19" using npages_le [OF assms(3)] assms(5) by simp
  have lt: "page_at 0 v < newsz \<longleftrightarrow> v < n" using page_below [of v newsz] Suc.prems(4) n assms(5) by simp
  obtain qs where qs: "uvm_inv S qs d t" "set qs \<subseteq> set ps" "length ps \<le> length qs + 2 * (v - v0)" using Suc.prems(6) by (auto simp: roomy_def)
  note i = uvm_invD [OF qs(1)]
  have ka: "kalloc t = Ok (freelist t) (kalloced t)" by (rule kalloc_ok [OF i(1-3)])
  note co = con_ok_kalloced [OF qs(1) Suc.prems(2)]
  show ?case
  proof (cases "v < n")
    case False
    then have "v = n" using Suc.prems(4) by simp
    then show ?thesis using lt Suc.prems(1) by simp
  next
    case True
    have na: "\<not> upresent (mem t) d v"
      using assms(6) [of v] True Suc.prems(1,3) n by (auto simp: grown_def upresent_def)
    show ?thesis
    proof (cases qs)
      case Nil
      note e = uvm_inv_kalloced_empty [OF qs(1) [unfolded Nil]]
      have few: "length ps < 2 * (n - v0)" using qs(3) Nil True Suc.prems(3) by simp
      obtain cs where cs: "cfmt (''allocuvm out of memory'' @ nl) [] = Some cs" using out_of_memory_text(1) by blast
      have "wp (seqM (kprint (''allocuvm out of memory'' @ nl) []) (seqM (deallocuvm d newsz oldsz) (ret 0))) ?Q (kalloced t)"
        by (rule giveup [OF e(2) assms(1) co(2) cs assms(2,3)])
          (use no_page_undone [OF Suc.prems(1) qs(1) [unfolded Nil] Suc.prems(3,4) n assms(6,1)] assms(4,5) few in simp)
      then show ?thesis using True lt ka e(1) by (simp add: wp_OkI del: wp_seqM)
    next
      case (Cons g rs)
      let ?u = "upd_mem (\<lambda>m. memset m g 0 PGSIZE) (kalloced t)"
      note c = alloc_clear [OF qs(1) [unfolded Cons]]
      have cu: "kmem_st.more ?u = kmem_st.more t" using co(1) by simp
      have "wp (mappages d (page_at 0 v) PGSIZE (V2P g) (PTE_W OR PTE_U))
        (\<lambda>r w. wp (if r < 0 then
            seqM (kprint (''allocuvm out of memory (2)'' @ nl) []) (seqM (deallocuvm d newsz oldsz) (seqM (kfree g) (ret 0)))
          else allocuvm_loop fuel d (page_at 0 (Suc v)) oldsz newsz) ?Q w) ?u"
      proof (rule wp_mono [OF wp_keeps [OF map_one keeps_mappages]])
        fix r :: int and w :: "'x con_st_scheme"
        assume a: "(if r = 0 then \<exists>qs. map_step S rs qs d v (V2P g) (PTE_W OR PTE_U) ?u w
          else r = - 1 \<and> rs = [] \<and> map_post S rs d v 0 (V2P g) (PTE_W OR PTE_U) ?u (- 1) w \<and> (\<forall>vb. pte_of (mem w) d vb = pte_of (mem ?u) d vb)) \<and>
          kmem_st.more w = kmem_st.more ?u"
        then have cw: "con_ok w" using cu Suc.prems(2) con_ok_more by metis
        show "wp (if r < 0 then
            seqM (kprint (''allocuvm out of memory (2)'' @ nl) []) (seqM (deallocuvm d newsz oldsz) (seqM (kfree g) (ret 0)))
          else allocuvm_loop fuel d (page_at 0 (Suc v)) oldsz newsz) ?Q w"
        proof (cases "r = 0")
          case r: True
          then obtain q2 where "map_step S rs q2 d v (V2P g) (PTE_W OR PTE_U) ?u w" using a by auto
          then have pn: "page_new S qs d v t w" using page_new_mapped [OF qs(1) [unfolded Cons] _ na] True n Cons by simp
          then have "grown S ps d v0 (Suc v) s w" using grown_step [OF Suc.prems(1,3) _ qs(1,2)] True n by simp
          moreover have "roomy S ps d (Suc v - v0) w" using roomy_step [OF qs(2,3) pn] Suc.prems(3) by (simp add: Suc_diff_le)
          ultimately have "wp (allocuvm_loop fuel d (page_at 0 (Suc v)) oldsz newsz) ?Q w"
            using Suc.IH [OF _ cw] Suc.prems(3,5) True by simp
          then show ?thesis using r by simp
        next
          case r: False
          then have f: "rs = []" "map_post S [] d v 0 (V2P g) (PTE_W OR PTE_U) ?u (- 1) w" "\<forall>vb. pte_of (mem w) d vb = pte_of (mem ?u) d vb" "r = - 1"
            using a by auto
          have q: "uvm_inv S [g] d t" "set [g] \<subseteq> set ps" using qs Cons f(1) by simp_all
          have few: "length ps < 2 * (n - v0)" using qs(3) Cons f(1) True Suc.prems(3) by simp
          note un = no_table_undone [OF Suc.prems(1) q Suc.prems(3,4) n assms(6,1) f(2,3)]
          obtain cs where cs: "cfmt (''allocuvm out of memory (2)'' @ nl) [] = Some cs" using out_of_memory_text(2) by blast
          have "wp (seqM (kprint (''allocuvm out of memory (2)'' @ nl) []) (seqM (deallocuvm d newsz oldsz) (seqM (kfree g) (ret 0)))) ?Q w"
          proof (rule giveup [OF un(1) assms(1) cw cs assms(2,3)])
            fix u assume "dealloc_post S [] d (npages oldsz) (npages newsz) (printed cs w) u"
            then have "kfree g u = Ok () (kfreed g u)" "undone S ps d s (kfreed g u)" using un(2) assms(4,5) by blast+
            then show "wp (seqM (kfree g) (ret 0)) ?Q u" using few by (simp add: wp_OkI)
          qed
          then show ?thesis using f(4) by (simp del: wp_seqM)
        qed
      qed (use c(7,8) na True n in \<open>simp_all add: upresent_def\<close>)
      moreover have "wp kalloc R t = R g (kalloced t)" for R using c(1) by (simp add: wp_def)
      ultimately show ?thesis using True lt c(2) by (simp add: page_at_Suc del: wp_if cong: if_cong)
    qed
  qed
qed

lemma allocuvm_grows:
  fixes s :: "'x con_st_scheme"
  assumes "uvm_inv S ps d s" "L_cons \<notin> S" "con_ok s" "oldsz \<le> newsz" "newsz < KERNBASE"
    and "\<forall>v. npages oldsz \<le> v \<and> v < npages newsz \<longrightarrow> \<not> upresent (mem s) d v"
  shows "\<exists>r t qs. allocuvm d oldsz newsz s = Ok r t \<and> uvm_inv S qs d t \<and> set qs \<subseteq> set ps \<and>
     (\<forall>v k. upresent (mem s) d v \<longrightarrow> k < 4096 \<longrightarrow> upage (mem t) d v k = upage (mem s) d v k) \<and>
     (r = newsz \<and>
        (\<forall>v. npages oldsz \<le> v \<and> v < npages newsz \<longrightarrow> upresent (mem t) d v \<and>
           PTE_FLAGS (pte (mem t) d v) = PTE_W OR PTE_U OR PTE_P \<and> uframe (mem t) d v \<in> set ps \<and>
           (\<forall>k < 4096. upage (mem t) d v k = 0)) \<and>
        (\<forall>v < 2 ^ 20. \<not> (npages oldsz \<le> v \<and> v < npages newsz) \<longrightarrow> pte (mem t) d v = pte (mem s) d v) \<or>
      r = 0 \<and> length ps < 2 * (npages newsz - npages oldsz) \<and> (\<forall>v. upresent (mem t) d v \<longleftrightarrow> upresent (mem s) d v) \<and>
        (\<forall>v. upresent (mem s) d v \<longrightarrow> pte (mem t) d v = pte (mem s) d v))"
proof -
  let ?v0 = "npages oldsz" and ?n = "npages newsz"
  have k: "newsz \<le> KERNBASE" "oldsz \<le> KERNBASE" "?v0 \<le> ?n" "?n \<le> 2 ^ 19"
    using assms(4,5) npages_le [of newsz] by (auto intro: npages_mono)
  have ro: "roomy S ps d (?v0 - ?v0) s" using assms(1) by (auto simp: roomy_def)
  have "?n - ?v0 < NPAGES + 1" using k(4) by (simp add: NPAGES_def)
  then have "wp (allocuvm d oldsz newsz) (\<lambda>r u. (r = newsz \<and> grown S ps d ?v0 ?n s u) \<or> (r = 0 \<and> undone S ps d s u \<and> length ps < 2 * (?n - ?v0))) s"
    using allocuvm_loop_grows [OF assms(2,4) k(1) refl refl _ grown_start [OF assms(1)] assms(3) _ k(3)] assms(4-6) ro
    by (simp add: allocuvm_def PGROUNDUP_page [OF k(2)] linorder_not_le [symmetric] del: allocuvm_loop.simps)
  then obtain r t where t: "allocuvm d oldsz newsz s = Ok r t" "(r = newsz \<and> grown S ps d ?v0 ?n s t) \<or> (r = 0 \<and> undone S ps d s t \<and> length ps < 2 * (?n - ?v0))"
    by (auto simp: wp_iff)
  have op: "only_pages (insert d (set ps \<union> tables (mem s) d)) (mem s) (mem t)" using t(2) by (auto simp: grown_def undone_def)
  have p: "pte (mem t) d v = pte (mem s) d v" if "upresent (mem s) d v" for v
  proof -
    have "v < 2 ^ 20" "\<not> (?v0 \<le> v \<and> v < ?n)" using that assms(6) by (auto simp: upresent_def)
    then show ?thesis using that t(2) by (auto simp: grown_def undone_def upresent_def)
  qed
  have "\<forall>v k. upresent (mem s) d v \<longrightarrow> k < 4096 \<longrightarrow> upage (mem t) d v k = upage (mem s) d v k"
    using upage_new [OF assms(1) order_refl op] p by blast
  moreover have "upresent (mem t) d v \<longleftrightarrow> upresent (mem s) d v" if "undone S ps d s t" for v
    using that p [of v] by (cases "v < 2 ^ 20") (auto simp: undone_def upresent_def)
  moreover obtain qs where "uvm_inv S qs d t" "set qs \<subseteq> set ps" using t(2) by (auto simp: grown_def undone_def)
  ultimately show ?thesis using t p unfolding grown_def by blast
qed

text \<open>
  C8: growing a process is all or nothing. With at most \<open>KERNBASE\<close> bytes asked for, no less than before and no
  page there yet, \<open>allocuvm\<close> always returns. Either it returns the new size and every page from the old size
  on is present, writable by the user, zeroed and backed by its own page from the free list, while no other translation changed; or it returns
  0, which it does only when fewer than twice as many pages are free as the process asks for (each page may need a table), and the process has
  exactly the pages it had, each with its translation. In both cases the bytes of the pages the
  process had are untouched and the allocator and page tables are sound.
\<close>

theorem allocuvm_all_or_nothing:
  fixes s :: "'x con_st_scheme"
  assumes "uvm_inv S ps d s" "L_cons \<notin> S" "con_ok s" "oldsz \<le> newsz" "newsz < KERNBASE"
    and "\<forall>v. npages oldsz \<le> v \<and> v < npages newsz \<longrightarrow> \<not> upresent (mem s) d v"
  shows "\<exists>r t qs. allocuvm d oldsz newsz s = Ok r t \<and> uvm_inv S qs d t \<and> set qs \<subseteq> set ps \<and>
     (\<forall>v k. upresent (mem s) d v \<longrightarrow> k < 4096 \<longrightarrow> upage (mem t) d v k = upage (mem s) d v k) \<and>
     (r = newsz \<and>
        (\<forall>v. npages oldsz \<le> v \<and> v < npages newsz \<longrightarrow> upresent (mem t) d v \<and>
           PTE_FLAGS (pte (mem t) d v) = PTE_W OR PTE_U OR PTE_P \<and> uframe (mem t) d v \<in> set ps \<and>
           (\<forall>k < 4096. upage (mem t) d v k = 0)) \<and>
        (\<forall>v < 2 ^ 20. \<not> (npages oldsz \<le> v \<and> v < npages newsz) \<longrightarrow> pte (mem t) d v = pte (mem s) d v) \<or>
      r = 0 \<and> length ps < 2 * (npages newsz - npages oldsz) \<and> (\<forall>v. upresent (mem t) d v \<longleftrightarrow> upresent (mem s) d v) \<and>
        (\<forall>v. upresent (mem s) d v \<longrightarrow> pte (mem t) d v = pte (mem s) d v))"
  by (rule allocuvm_grows [OF assms])

section \<open>An example\<close>

text \<open>One user page at address 0: its directory, table and frame are pages of the kernel, and one page is free.\<close>

definition demo_pages :: mem where
  "demo_pages = wr32 (wr32 (\<lambda>_. 0) 0x80400000 0x00401007) 0x80401000 0x00402007"

definition demo_uvm :: con_st where
  "demo_uvm =
     \<lparr>cpus = [\<lparr>c_apicid = 0, c_ncli = 0, c_intena = 0, c_proc = None\<rparr>], lapicid = 0, if_flag = True,
      locks = (\<lambda>_. \<lparr>lk_locked = 0, lk_name = [], lk_cpu = None, lk_pcs = []\<rparr>), mem = demo_pages, frame = 0,
      use_lock = True, freelist = 0x80403000, kend = 0x80100000,
      con_locking = True, panicked = False, uart = True, uart_out = [], crt = replicate 2000 0, crt_pos = 0\<rparr>"

lemma demo_entry:
  assumes "w mod PGSIZE = 0" "j < 1024"
  shows "rd32 demo_pages (w + 4 * of_nat j) =
    (if j = 0 \<and> w = 0x80401000 then 0x00402007 else if j = 0 \<and> w = 0x80400000 then 0x00401007 else 0)"
proof -
  have z: "rd32 (\<lambda>_. 0) a = 0" for a by (simp add: rd32_def)
  have o: "rd32 (wr32 m v x) (w + 4 * of_nat j) = rd32 m (w + 4 * of_nat j)" if "v mod PGSIZE = 0" "v \<noteq> w \<or> j \<noteq> 0" for m v x
    using rd32_wr32_entry [OF that(1), of 0 w j m x] assms that(2) by auto
  have al: "(0x80401000 :: u32) mod PGSIZE = 0" "(0x80400000 :: u32) mod PGSIZE = 0" by (simp_all add: PGSIZE_def)
  show ?thesis
  proof (cases "j = 0 \<and> w = 0x80401000")
    case False
    then have a: "rd32 demo_pages (w + 4 * of_nat j) = rd32 (wr32 (\<lambda>_. 0) 0x80400000 0x00401007) (w + 4 * of_nat j)"
      unfolding demo_pages_def by (intro o al(1)) auto
    show ?thesis
    proof (cases "j = 0 \<and> w = 0x80400000")
      case f: False
      then show ?thesis using False a o [OF al(2)] z by auto
    qed (use False a in simp)
  qed (simp add: demo_pages_def)
qed

lemma demo_pt: "d < 1024 \<Longrightarrow> pt_of demo_pages 0x80400000 d = (if d = 0 then Some 0x80401000 else None)"
  using demo_entry [of "0x80400000" d] by (auto simp: pt_of_def pde_def PGSIZE_def PTE_P_def PTE_ADDR_def P2V_def KERNBASE_def)

lemma demo_pte: "v < 2 ^ 20 \<Longrightarrow> pte demo_pages 0x80400000 v = (if v = 0 then 0x00402007 else 0)"
proof -
  assume v: "v < 2 ^ 20"
  have p: "unat (PDX (page_at 0 v)) = v div 1024" "unat (PTX (page_at 0 v)) = v mod 1024"
    using vpn_indices [of "page_at 0 v"] vpn_page [OF v] by simp_all
  have d: "v div 1024 < 1024" using v by (simp add: less_mult_imp_div_less)
  have t: "PTX (page_at 0 v) = of_nat (v mod 1024)" using p(2) by (metis of_nat_unat_idx)
  have "rd32 demo_pages (0x80401000 + 4 * of_nat (v mod 1024)) = (if v mod 1024 = 0 then 0x00402007 else 0)"
    using demo_entry [of "0x80401000" "v mod 1024"] by (simp add: PGSIZE_def)
  moreover have "v div 1024 = 0 \<Longrightarrow> v mod 1024 = v" by (simp add: div_eq_0_iff)
  ultimately show ?thesis using demo_pt [OF d] p t by (auto simp: pte_def pte_of_def)
qed

lemma demo_present: "upresent demo_pages 0x80400000 v \<longleftrightarrow> v = 0"
  by (cases "v < 2 ^ 19") (auto simp: upresent_def demo_pte PTE_P_def)

lemma demo_frame: "uframe demo_pages 0x80400000 0 = 0x80402000"
  by (simp add: uframe_def demo_pte PTE_ADDR_def P2V_def KERNBASE_def)

lemma demo_uvm_inv: "uvm_inv {} [0x80403000] 0x80400000 demo_uvm" "con_ok demo_uvm" "mem demo_uvm = demo_pages"
proof -
  have ta: "tables demo_pages 0x80400000 = {0x80401000}" using demo_pt [of 0] demo_pt by (auto simp: tables_def split: if_splits intro: exI [of _ 0])
  have "lockset {} demo_uvm" by (simp add: lockset_def demo_uvm_def cpu_found_def curcpu_def)
  moreover have "rd32 demo_pages 0x80403000 = 0" using demo_entry [of "0x80403000" 0] by (simp add: PGSIZE_def)
  then have "free_pages [0x80403000] demo_uvm"
    by (simp add: free_pages_def demo_uvm_def valid_page_def PGSIZE_def PHYSTOP_def V2P_def KERNBASE_def)
  moreover have "pt_ok 0x80100000 {0x80403000} demo_pages 0x80400000"
    by (auto simp: pt_ok_def demo_pt valid_page_def PGSIZE_def PHYSTOP_def V2P_def KERNBASE_def)
  moreover have "frames_ok 0x80100000 {0x80403000} demo_pages 0x80400000"
    by (simp add: frames_ok_def demo_present demo_frame ta inj_on_def valid_page_def PGSIZE_def PHYSTOP_def V2P_def KERNBASE_def)
  ultimately show "uvm_inv {} [0x80403000] 0x80400000 demo_uvm"
    by (simp add: uvm_inv_def vm_inv_def demo_uvm_def KERNBASE_def)
  show "con_ok demo_uvm" by (simp add: con_ok_def screen_ok_def demo_uvm_def SCREEN_def)
  show "mem demo_uvm = demo_pages" by (simp add: demo_uvm_def)
qed

theorem deallocuvm_frees_witness:
  "\<exists>t qs. deallocuvm 0x80400000 0x1000 0 demo_uvm = Ok 0 t \<and> uvm_inv {} qs 0x80400000 t \<and>
     set qs = {0x80403000, 0x80402000} \<and> pte (mem t) 0x80400000 0 = 0"
proof -
  have n: "npages 0 = 0" "npages 0x1000 = 1" by (simp_all add: npages_def)
  then have "{v. npages 0 \<le> v \<and> v < npages 0x1000 \<and> v = 0} = {0}" by auto
  then show ?thesis
    using deallocuvm_frees [OF demo_uvm_inv(1), of 0 "0x1000"]
    by (fastforce simp: demo_uvm_inv(3) demo_present demo_frame n KERNBASE_def)
qed

theorem allocuvm_all_or_nothing_witness:
  "\<exists>r t. allocuvm 0x80400000 0x1000 0x2000 demo_uvm = Ok r t \<and>
     pte (mem t) 0x80400000 0 = 0x00402007 \<and>
     (r = 0x2000 \<and> uframe (mem t) 0x80400000 1 = 0x80403000 \<or> r = 0 \<and> \<not> upresent (mem t) 0x80400000 1)"
proof -
  have n: "npages 0x1000 = 1" "npages 0x2000 = 2" by (simp_all add: npages_def)
  have "\<exists>r t qs. allocuvm 0x80400000 0x1000 0x2000 demo_uvm = Ok r t \<and>
     (r = 0x2000 \<and> uframe (mem t) 0x80400000 1 \<in> {0x80403000} \<and> pte (mem t) 0x80400000 0 = pte demo_pages 0x80400000 0 \<or>
      r = 0 \<and> \<not> upresent (mem t) 0x80400000 1 \<and> pte (mem t) 0x80400000 0 = pte demo_pages 0x80400000 0)"
    using allocuvm_all_or_nothing [OF demo_uvm_inv(1) _ demo_uvm_inv(2), of "0x1000" "0x2000"]
    by (fastforce simp: demo_uvm_inv(3) demo_present n KERNBASE_def)
  then show ?thesis by (fastforce simp: demo_pte)
qed

end
