(* ===== verification/Shell.thy ===== *)
theory Shell
  imports Syscall
begin

text \<open>
  The command parser of the shell, \<^verbatim>\<open>sh.c\<close>: \<open>gettoken\<close>, \<open>peek\<close>, the recursive-descent functions from \<open>parsecmd\<close> to
  \<open>parseblock\<close>, the constructors of commands and \<open>nulterminate\<close>. The line is an array of characters that ends in a zero byte and
  pointers into it are indices. Allocation of the command structures always succeeds; a command is a value of the datatype \<open>cmd\<close>.
  Shown are totality with well-typed results for every line, and that the parser inverts a printer for commands.
\<close>

unbundle bit_operations_syntax

section \<open>Characters\<close>

definition NUL :: char where "NUL = CHR 0x00"

definition whitespace :: string where "whitespace = [CHR '' '', CHR 0x09, CHR 0x0D, CHR 0x0A, CHR 0x0B]"

definition symbols :: string where "symbols = ''<|>&;()''"

definition MAXARGS :: nat where "MAXARGS = 10"

definition O_RDONLY :: u32 where "O_RDONLY = 0"

text \<open>\<open>strchr\<close> of the user library: where \<open>c\<close> first occurs in the string, if it does; never for \<open>c = 0\<close>.\<close>

fun strchr :: "string \<Rightarrow> char \<Rightarrow> nat option" where
  "strchr [] c = None"
| "strchr (d # s) c = (if d = NUL then None else if d = c then Some 0 else map_option Suc (strchr s c))"

text \<open>\<open>*(s + i)\<close> for a string that starts at the beginning of the array \<open>a\<close>; an array holds its terminating zero.\<close>

definition at :: "string \<Rightarrow> nat \<Rightarrow> char" where
  "at a i = (if i < length a then a ! i else NUL)"

section \<open>Parsed commands\<close>

text \<open>
  \<open>struct cmd\<close> and the five structures that extend it. A word is held as two pointers into the line, its first byte
  and the byte after its last; here the words are a parameter \<open>'w\<close>. The arrays \<open>argv\<close> and \<open>eargv\<close> are one list of
  pairs, as long as the number of arguments before the null pointer.
\<close>

datatype 'w cmd =
    EXEC "'w list"
  | REDIR "'w cmd" 'w u32 nat
  | PIPE "'w cmd" "'w cmd"
  | LIST "'w cmd" "'w cmd"
  | BACK "'w cmd"

type_synonym span = "nat \<times> nat"

definition execcmd :: "'w cmd" where "execcmd = EXEC []"

definition redircmd :: "'w cmd \<Rightarrow> 'w \<Rightarrow> u32 \<Rightarrow> nat \<Rightarrow> 'w cmd" where "redircmd subcmd f mode fd = REDIR subcmd f mode fd"

definition pipecmd :: "'w cmd \<Rightarrow> 'w cmd \<Rightarrow> 'w cmd" where "pipecmd left right = PIPE left right"

definition listcmd :: "'w cmd \<Rightarrow> 'w cmd \<Rightarrow> 'w cmd" where "listcmd left right = LIST left right"

definition backcmd :: "'w cmd \<Rightarrow> 'w cmd" where "backcmd subcmd = BACK subcmd"

text \<open>
  \<open>parseexec\<close> keeps a pointer to the \<open>execcmd\<close> it allocated and stores arguments through it after redirections
  have been wrapped around it: \<open>add_arg\<close> stores into the structure at the bottom of the chain.
\<close>

fun add_arg :: "'w \<Rightarrow> 'w cmd \<Rightarrow> 'w cmd" where
  "add_arg w (EXEC ws) = EXEC (ws @ [w])"
| "add_arg w (REDIR c f m d) = REDIR (add_arg w c) f m d"
| "add_arg w c = c"

section \<open>Tokens\<close>

type_synonym 'a sh = "nat \<Rightarrow> (unit, 'a, nat) outcome"

function skip :: "(char \<Rightarrow> bool) \<Rightarrow> string \<Rightarrow> nat \<Rightarrow> nat \<Rightarrow> nat" where
  "skip P a es i = (if i < es \<and> P (at a i) then skip P a es (i + 1) else i)"
  by pat_completeness auto

termination skip
  by (relation "measure (\<lambda>(_, _, es, i). es - i)") auto

definition is_white :: "char \<Rightarrow> bool" where "is_white c = (strchr whitespace c \<noteq> None)"

definition is_word :: "char \<Rightarrow> bool" where "is_word c = (strchr whitespace c = None \<and> strchr symbols c = None)"

definition gettoken :: "string \<Rightarrow> nat \<Rightarrow> (char \<times> span) sh" where
  "gettoken a es ps =
     (let s = skip is_white a es ps; q = s; c = at a s;
          (tok, e) =
            (if c = NUL then (c, s)
             else if c = CHR ''|'' \<or> c = CHR ''('' \<or> c = CHR '')'' \<or> c = CHR '';'' \<or> c = CHR ''&'' \<or> c = CHR ''<'' then (c, s + 1)
             else if c = CHR ''>'' then
               (if at a (s + 1) = CHR ''>'' then (CHR ''+'', s + 2) else (c, s + 1))
             else (CHR ''a'', skip is_word a es s))
      in Ok (tok, (q, e)) (skip is_white a es e))"

definition peek :: "string \<Rightarrow> nat \<Rightarrow> string \<Rightarrow> bool sh" where
  "peek a es toks ps =
     (let s = skip is_white a es ps
      in Ok (at a s \<noteq> NUL \<and> strchr toks (at a s) \<noteq> None) s)"

section \<open>The parser\<close>

text \<open>
  One function per function of the source, with the loops inside them on their own. The state is \<open>*ps\<close>, an index into the
  line; the message of a panic is what the shell has printed on descriptor 2 without the last newline. The fuel of the
  loops and of the recursion is a bound in the length of the line.
\<close>

fun parseredirs :: "nat \<Rightarrow> string \<Rightarrow> nat \<Rightarrow> span cmd \<Rightarrow> span cmd sh" where
  "parseredirs 0 a es c = nofuel"
| "parseredirs (Suc n) a es c =
     bindM (peek a es ''<>'') (\<lambda>more.
     if \<not> more then ret c
     else bindM (gettoken a es) (\<lambda>(tok, _).
          bindM (gettoken a es) (\<lambda>(t, w).
          if t \<noteq> CHR ''a'' then panic ''missing file for redirection''
          else parseredirs n a es
            (if tok = CHR ''<'' then redircmd c w O_RDONLY 0
             else if tok = CHR ''>'' then redircmd c w (O_WRONLY OR O_CREATE) 1
             else if tok = CHR ''+'' then redircmd c w (O_WRONLY OR O_CREATE) 1
             else c))))"

fun parseargs :: "nat \<Rightarrow> string \<Rightarrow> nat \<Rightarrow> nat \<Rightarrow> span cmd \<Rightarrow> span cmd sh" where
  "parseargs 0 a es argc c = nofuel"
| "parseargs (Suc n) a es argc c =
     bindM (peek a es ''|)&;'') (\<lambda>stop.
     if stop then ret c
     else bindM (gettoken a es) (\<lambda>(tok, w).
          if tok = NUL then ret c
          else if tok \<noteq> CHR ''a'' then panic ''syntax''
          else if argc + 1 \<ge> MAXARGS then panic ''too many args''
          else bindM (parseredirs (es + 1) a es (add_arg w c)) (parseargs n a es (argc + 1))))"

fun parseamps :: "nat \<Rightarrow> string \<Rightarrow> nat \<Rightarrow> span cmd \<Rightarrow> span cmd sh" where
  "parseamps 0 a es c = nofuel"
| "parseamps (Suc n) a es c =
     bindM (peek a es ''&'') (\<lambda>more.
     if \<not> more then ret c
     else bindM (gettoken a es) (\<lambda>_. parseamps n a es (backcmd c)))"

fun parseline :: "nat \<Rightarrow> string \<Rightarrow> nat \<Rightarrow> span cmd sh"
  and parsepipe :: "nat \<Rightarrow> string \<Rightarrow> nat \<Rightarrow> span cmd sh"
  and parseexec :: "nat \<Rightarrow> string \<Rightarrow> nat \<Rightarrow> span cmd sh"
  and parseblock :: "nat \<Rightarrow> string \<Rightarrow> nat \<Rightarrow> span cmd sh" where
  "parseline 0 a es = nofuel"
| "parseline (Suc n) a es =
     bindM (parsepipe n a es) (\<lambda>c.
     bindM (parseamps (es + 1) a es c) (\<lambda>c.
     bindM (peek a es '';'') (\<lambda>semi.
     if semi then
       bindM (gettoken a es) (\<lambda>_.
       bindM (parseline n a es) (\<lambda>r. ret (listcmd c r)))
     else ret c)))"
| "parsepipe 0 a es = nofuel"
| "parsepipe (Suc n) a es =
     bindM (parseexec n a es) (\<lambda>c.
     bindM (peek a es ''|'') (\<lambda>bar.
     if bar then
       bindM (gettoken a es) (\<lambda>_.
       bindM (parsepipe n a es) (\<lambda>r. ret (pipecmd c r)))
     else ret c))"
| "parseexec 0 a es = nofuel"
| "parseexec (Suc n) a es =
     bindM (peek a es ''('') (\<lambda>par.
     if par then parseblock n a es
     else bindM (parseredirs (es + 1) a es execcmd) (parseargs (es + 1) a es 0))"
| "parseblock 0 a es = nofuel"
| "parseblock (Suc n) a es =
     bindM (peek a es ''('') (\<lambda>par.
     if \<not> par then panic ''parseblock''
     else bindM (gettoken a es) (\<lambda>_.
          bindM (parseline n a es) (\<lambda>c.
          bindM (peek a es '')'') (\<lambda>clo.
          if \<not> clo then panic ''syntax - missing )''
          else bindM (gettoken a es) (\<lambda>_.
               parseredirs (es + 1) a es c)))))"

text \<open>\<open>nulterminate\<close> writes a zero after every word, in the order in which it visits the command.\<close>

fun nulterminate :: "span cmd \<Rightarrow> string \<Rightarrow> string" where
  "nulterminate (EXEC ws) a = fold (\<lambda>w a. a[snd w := NUL]) ws a"
| "nulterminate (REDIR c f m d) a = (nulterminate c a)[snd f := NUL]"
| "nulterminate (PIPE l r) a = nulterminate r (nulterminate l a)"
| "nulterminate (LIST l r) a = nulterminate r (nulterminate l a)"
| "nulterminate (BACK c) a = nulterminate c a"

definition ustrlen :: "string \<Rightarrow> nat" where "ustrlen a = length (takeWhile (\<lambda>c. c \<noteq> NUL) a)"

text \<open>The result is the command and the line with the words terminated.\<close>

definition parsecmd :: "string \<Rightarrow> (unit, span cmd, string) outcome" where
  "parsecmd a =
     (let es = ustrlen a in
      case bindM (parseline (4 * (es + 1)) a es) (\<lambda>c. bindM (peek a es []) (\<lambda>_. ret c)) 0 of
        Ok c s \<Rightarrow>
          (if s \<noteq> es then Panic (''leftovers: '' @ takeWhile (\<lambda>c. c \<noteq> NUL) (drop s a) @ [CHR 0x0A] @ ''syntax'')
           else Ok c (nulterminate c a))
      | Panic e \<Rightarrow> Panic e
      | Undef e \<Rightarrow> Undef e
      | Wait w _ \<Rightarrow> Wait w a
      | NoFuel \<Rightarrow> NoFuel)"

section \<open>Scanning\<close>

lemma strchr_None_iff: "NUL \<notin> set s \<Longrightarrow> strchr s c = None \<longleftrightarrow> c \<notin> set s"
  by (induction s) auto

lemma is_white_iff: "is_white c \<longleftrightarrow> c \<in> set whitespace"
  unfolding is_white_def by (subst strchr_None_iff) (simp_all add: whitespace_def NUL_def)

lemma is_word_iff: "is_word c \<longleftrightarrow> c \<notin> set whitespace \<and> c \<notin> set symbols"
  unfolding is_word_def by (subst (1 2) strchr_None_iff) (simp_all add: whitespace_def symbols_def NUL_def)

text \<open>The line that is parsed: \<open>es\<close> is the index of its terminating zero.\<close>

definition line_at :: "string \<Rightarrow> nat \<Rightarrow> bool" where
  "line_at a es \<longleftrightarrow> es < length a \<and> a ! es = NUL \<and> (\<forall>i < es. a ! i \<noteq> NUL)"

lemma line_at_ustrlen:
  assumes "NUL \<in> set a"
  shows "line_at a (ustrlen a)"
proof -
  have "takeWhile (\<lambda>c. c \<noteq> NUL) a \<noteq> a" using assms by (metis set_takeWhileD)
  then have lt: "ustrlen a < length a"
    by (metis ustrlen_def length_takeWhile_le le_neq_implies_less takeWhile_eq_take take_all order_refl)
  moreover have "a ! ustrlen a = NUL" using nth_length_takeWhile lt unfolding ustrlen_def by blast
  moreover have "a ! i \<noteq> NUL" if "i < ustrlen a" for i
    using that takeWhile_nth [of i "\<lambda>c. c \<noteq> NUL" a] nth_mem [of i "takeWhile (\<lambda>c. c \<noteq> NUL) a"]
    by (auto simp: ustrlen_def dest: set_takeWhileD)
  ultimately show ?thesis by (simp add: line_at_def)
qed

lemma at_end: "line_at a es \<Longrightarrow> i \<le> es \<Longrightarrow> at a i = NUL \<longleftrightarrow> i = es"
  by (cases "i = es") (auto simp: line_at_def at_def)

lemma at_nth: "line_at a es \<Longrightarrow> i \<le> es \<Longrightarrow> at a i = a ! i"
  by (auto simp: line_at_def at_def)

declare skip.simps [simp del]

lemma skip_spec:
  "i \<le> es \<Longrightarrow> i \<le> skip P a es i \<and> skip P a es i \<le> es \<and> (\<forall>k. i \<le> k \<and> k < skip P a es i \<longrightarrow> P (at a k)) \<and>
     (skip P a es i < es \<longrightarrow> \<not> P (at a (skip P a es i)))"
proof (induction P a es i rule: skip.induct)
  case (1 P a es i)
  show ?case
  proof (cases "i < es \<and> P (at a i)")
    case True
    then show ?thesis using 1 skip.simps [of P a es i] by (auto simp: Suc_le_eq nat_less_le)
  next
    case False
    then show ?thesis using 1(2) skip.simps [of P a es i] by auto
  qed
qed

lemmas skip_le = skip_spec [THEN conjunct1] skip_spec [THEN conjunct2, THEN conjunct1]

lemma skip_skip: "i \<le> es \<Longrightarrow> skip P a es (skip P a es i) = skip P a es i"
  using skip_spec [of i es P a] skip.simps [of P a es "skip P a es i"] by (cases "skip P a es i < es") auto

section \<open>What the parser returns\<close>

text \<open>
  \<open>word_span\<close>: the two pointers enclose a word of the line. \<open>cmd_wf\<close>: the command has the shape the rest of the shell
  relies on: fewer than \<open>MAXARGS\<close> arguments, so that \<open>argv\<close> has its null pointer, and a redirection of descriptor 0
  for reading or 1 for writing.
\<close>

definition word_span :: "string \<Rightarrow> nat \<Rightarrow> span \<Rightarrow> bool" where
  "word_span a es w \<longleftrightarrow> fst w < snd w \<and> snd w \<le> es \<and> (\<forall>k. fst w \<le> k \<and> k < snd w \<longrightarrow> is_word (a ! k)) \<and>
     (snd w = es \<or> \<not> is_word (a ! snd w))"

fun cmd_wf :: "'w cmd \<Rightarrow> bool" where
  "cmd_wf (EXEC ws) \<longleftrightarrow> length ws < MAXARGS"
| "cmd_wf (REDIR c f m d) \<longleftrightarrow> cmd_wf c \<and> (m = O_RDONLY \<and> d = 0 \<or> m = O_WRONLY OR O_CREATE \<and> d = 1)"
| "cmd_wf (PIPE l r) \<longleftrightarrow> cmd_wf l \<and> cmd_wf r"
| "cmd_wf (LIST l r) \<longleftrightarrow> cmd_wf l \<and> cmd_wf r"
| "cmd_wf (BACK c) \<longleftrightarrow> cmd_wf c"

definition sh_cmd :: "string \<Rightarrow> nat \<Rightarrow> span cmd \<Rightarrow> bool" where
  "sh_cmd a es c \<longleftrightarrow> cmd_wf c \<and> (\<forall>w \<in> set_cmd c. word_span a es w)"

definition sh_errors :: "string set" where
  "sh_errors = {''missing file for redirection'', ''syntax'', ''too many args'', ''syntax - missing )''}"

text \<open>\<open>runs es P m i\<close>: started at \<open>i\<close>, \<open>m\<close> returns with \<open>P\<close>, not moving back and not past the end, or reports an error.\<close>

definition runs :: "nat \<Rightarrow> ('a \<Rightarrow> nat \<Rightarrow> bool) \<Rightarrow> 'a sh \<Rightarrow> nat \<Rightarrow> bool" where
  "runs es P m i \<longleftrightarrow>
     (case m i of Ok r j \<Rightarrow> i \<le> j \<and> j \<le> es \<and> P r j | Panic e \<Rightarrow> e \<in> sh_errors | _ \<Rightarrow> False)"

lemma runs_ret: "i \<le> es \<Longrightarrow> P x i \<Longrightarrow> runs es P (ret x) i"
  by (simp add: runs_def ret_def)

lemma runs_panic: "e \<in> sh_errors \<Longrightarrow> runs es P (panic e) i"
  by (simp add: runs_def panic_def)

lemma runs_bind:
  assumes "runs es P m i" "\<And>x j. i \<le> j \<Longrightarrow> j \<le> es \<Longrightarrow> P x j \<Longrightarrow> runs es Q (k x) j"
  shows "runs es Q (bindM m k) i"
proof (cases "m i")
  case (Ok x j)
  then have "i \<le> j" "runs es Q (k x) j" using assms by (auto simp: runs_def)
  then show ?thesis using Ok by (auto simp: runs_def bindM_def split: outcome.splits)
qed (use assms(1) in \<open>auto simp: runs_def bindM_def\<close>)

lemma runs_weaken: "runs es P m i \<Longrightarrow> (\<And>x j. i \<le> j \<Longrightarrow> j \<le> es \<Longrightarrow> P x j \<Longrightarrow> Q x j) \<Longrightarrow> runs es Q m i"
  by (auto simp: runs_def split: outcome.splits)

lemma peek_runs:
  assumes "line_at a es" "i \<le> es" "NUL \<notin> set toks"
  shows "runs es (\<lambda>b j. (b \<longleftrightarrow> j < es \<and> a ! j \<in> set toks) \<and> (j < es \<longrightarrow> \<not> is_white (a ! j))) (peek a es toks) i"
proof -
  let ?j = "skip is_white a es i"
  note s = skip_spec [OF assms(2), of is_white a]
  then have "at a ?j = NUL \<longleftrightarrow> ?j = es" "at a ?j = a ! ?j" using at_end [OF assms(1)] at_nth [OF assms(1)] by blast+
  moreover have "strchr toks (a ! ?j) \<noteq> None \<longleftrightarrow> a ! ?j \<in> set toks" using strchr_None_iff [OF assms(3)] by simp
  ultimately show ?thesis using s by (auto simp: runs_def peek_def Let_def)
qed

lemma gettoken_runs:
  assumes "line_at a es" "i \<le> es"
  shows "runs es (\<lambda>(tok, w) j. (if tok = NUL then j = es else i < j) \<and> (tok = CHR ''a'' \<longrightarrow> word_span a es w)) (gettoken a es) i"
proof -
  let ?s = "skip is_white a es i"
  note s = skip_spec [OF assms(2), of is_white a]
  define r where "r = (if at a ?s = NUL then (at a ?s, ?s)
     else if at a ?s = CHR ''|'' \<or> at a ?s = CHR ''('' \<or> at a ?s = CHR '')'' \<or> at a ?s = CHR '';'' \<or> at a ?s = CHR ''&'' \<or> at a ?s = CHR ''<'' then (at a ?s, ?s + 1)
     else if at a ?s = CHR ''>'' then
       (if at a (?s + 1) = CHR ''>'' then (CHR ''+'', ?s + 2) else (at a ?s, ?s + 1))
     else (CHR ''a'', skip is_word a es ?s))"
  have g: "gettoken a es i = Ok (fst r, (?s, snd r)) (skip is_white a es (snd r))"
    by (simp add: gettoken_def Let_def r_def)
  have "?s \<le> snd r \<and> snd r \<le> es \<and> (if fst r = NUL then snd r = es else ?s < snd r) \<and> (fst r = CHR ''a'' \<longrightarrow> word_span a es (?s, snd r))"
  proof (cases "?s = es")
    case True
    then show ?thesis using at_end [OF assms(1), of es] by (simp add: r_def NUL_def)
  next
    case False
    then have lt: "?s < es" "at a ?s \<noteq> NUL" "at a ?s = a ! ?s" "\<not> is_white (a ! ?s)"
      using s at_end [OF assms(1), of ?s] at_nth [OF assms(1), of ?s] by auto
    show ?thesis
    proof (cases "a ! ?s \<in> set symbols")
      case True
      have "?s + 1 < es" if "at a (?s + 1) = CHR ''>''" using at_end [OF assms(1), of "?s + 1"] that lt(1) by (cases "?s + 1 = es") (auto simp: NUL_def)
      then show ?thesis using True lt by (auto simp: r_def symbols_def NUL_def)
    next
      case nsym: False
      then have w: "is_word (a ! ?s)" using lt(4) by (simp add: is_word_iff is_white_iff)
      note k = skip_spec [of ?s es is_word a]
      have st: "?s < skip is_word a es ?s" using k lt(1,3) w by (metis less_or_eq_imp_le nat_less_le)
      have "is_word (a ! n)" if "?s \<le> n" "n < skip is_word a es ?s" for n
        using k lt(1) that at_nth [OF assms(1), of n] by (metis less_imp_le_nat order_trans)
      moreover have "skip is_word a es ?s = es \<or> \<not> is_word (a ! skip is_word a es ?s)"
        using k lt(1) at_nth [OF assms(1), of "skip is_word a es ?s"] by (metis less_imp_le_nat nat_less_le)
      moreover have "r = (CHR ''a'', skip is_word a es ?s)" using nsym lt(2,3) by (auto simp: r_def symbols_def)
      ultimately show ?thesis using st k lt(1) by (simp add: word_span_def NUL_def)
    qed
  qed
  moreover from this have "snd r \<le> skip is_white a es (snd r)" "skip is_white a es (snd r) \<le> es" using skip_le [of "snd r" es is_white a] by auto
  ultimately show ?thesis using s g by (auto simp: runs_def)
qed

lemmas parser_simps = parseredirs.simps parseargs.simps parseamps.simps parseline.simps parsepipe.simps parseexec.simps parseblock.simps

declare parser_simps [simp del]

fun nargs :: "'w cmd \<Rightarrow> nat option" where
  "nargs (EXEC ws) = Some (length ws)"
| "nargs (REDIR c f m d) = nargs c"
| "nargs c = None"

lemma add_arg_wf:
  "nargs c = Some n \<Longrightarrow> nargs (add_arg w c) = Some (Suc n)"
  "nargs c = Some n \<Longrightarrow> Suc n < MAXARGS \<Longrightarrow> cmd_wf c \<Longrightarrow> cmd_wf (add_arg w c)"
  "nargs c = Some n \<Longrightarrow> set_cmd (add_arg w c) = insert w (set_cmd c)"
  by (induction c) auto

lemma sh_cmd_cons [simp]:
  "sh_cmd a es execcmd" "sh_cmd a es (pipecmd l r) \<longleftrightarrow> sh_cmd a es l \<and> sh_cmd a es r"
  "sh_cmd a es (listcmd l r) \<longleftrightarrow> sh_cmd a es l \<and> sh_cmd a es r" "sh_cmd a es (backcmd l) \<longleftrightarrow> sh_cmd a es l"
  "sh_cmd a es (redircmd l w m d) \<longleftrightarrow> sh_cmd a es l \<and> word_span a es w \<and> (m = O_RDONLY \<and> d = 0 \<or> m = O_WRONLY OR O_CREATE \<and> d = 1)"
  "nargs (redircmd l w m d) = nargs l" "nargs execcmd = Some 0"
  by (auto simp: sh_cmd_def execcmd_def pipecmd_def listcmd_def backcmd_def redircmd_def MAXARGS_def)

text \<open>A token that \<open>peek\<close> has seen is there to be taken.\<close>

lemma next_token:
  assumes "line_at a es" "i < es"
    and "\<And>tok w j. i < j \<Longrightarrow> j \<le> es \<Longrightarrow> (tok = CHR ''a'' \<longrightarrow> word_span a es w) \<Longrightarrow> runs es Q (k (tok, w)) j"
  shows "runs es Q (bindM (gettoken a es) k) i"
proof (rule runs_bind [OF gettoken_runs [OF assms(1)]])
  fix x j assume "i \<le> j" "j \<le> es" "(case x of (tok, w) \<Rightarrow> \<lambda>j. (if tok = NUL then j = es else i < j) \<and> (tok = CHR ''a'' \<longrightarrow> word_span a es w)) j"
  then show "runs es Q (k x) j" using assms(2,3) by (cases x) (auto split: if_splits)
qed (use assms(2) in simp)

lemma errors [simp]:
  "''missing file for redirection'' \<in> sh_errors" "''syntax'' \<in> sh_errors" "''too many args'' \<in> sh_errors" "''syntax - missing )'' \<in> sh_errors"
  by (simp_all add: sh_errors_def)

lemma parseredirs_runs:
  assumes "line_at a es" "i \<le> es" "es - i < n" "sh_cmd a es c"
  shows "runs es (\<lambda>d j. sh_cmd a es d \<and> nargs d = nargs c) (parseredirs n a es c) i"
  using assms(2-4)
proof (induction n arbitrary: i c)
  case (Suc n)
  show ?case unfolding parseredirs.simps
  proof (rule runs_bind [OF peek_runs [OF assms(1) Suc.prems(1)]])
    fix b j assume j: "i \<le> j" "j \<le> es" "(b \<longleftrightarrow> j < es \<and> a ! j \<in> set ''<>'') \<and> (j < es \<longrightarrow> \<not> is_white (a ! j))"
    show "runs es (\<lambda>d j. sh_cmd a es d \<and> nargs d = nargs c) (if \<not> b then ret c
       else bindM (gettoken a es) (\<lambda>(tok, _). bindM (gettoken a es) (\<lambda>(t, w).
          if t \<noteq> CHR ''a'' then panic ''missing file for redirection''
          else parseredirs n a es
            (if tok = CHR ''<'' then redircmd c w O_RDONLY 0
             else if tok = CHR ''>'' then redircmd c w (O_WRONLY OR O_CREATE) 1
             else if tok = CHR ''+'' then redircmd c w (O_WRONLY OR O_CREATE) 1 else c)))) j"
    proof (cases b)
      case True
      then have lt: "j < es" using j(3) by simp
      have rec: "runs es (\<lambda>d j. sh_cmd a es d \<and> nargs d = nargs c) (parseredirs n a es e) l"
        if "l \<le> es" "j < l" "sh_cmd a es e" "nargs e = nargs c" for l e
        using Suc.IH [OF that(1) _ that(3)] that(1,2,4) j(1) Suc.prems(2) by simp
      show ?thesis using True
        by (auto intro!: next_token [OF assms(1) lt] runs_bind [OF gettoken_runs [OF assms(1)]] runs_panic rec simp: Suc.prems(3))
    qed (use j Suc.prems(3) in \<open>auto intro: runs_ret\<close>)
  qed (simp add: NUL_def)
qed simp

lemma parseargs_runs:
  assumes "line_at a es" "i \<le> es" "es - i < n" "sh_cmd a es c" "nargs c = Some argc"
  shows "runs es (\<lambda>d j. sh_cmd a es d) (parseargs n a es argc c) i"
  using assms(2-5)
proof (induction n arbitrary: i c argc)
  case (Suc n)
  show ?case unfolding parseargs.simps
  proof (rule runs_bind [OF peek_runs [OF assms(1) Suc.prems(1)]])
    fix b j assume j: "i \<le> j" "j \<le> es" "(b \<longleftrightarrow> j < es \<and> a ! j \<in> set ''|)&;'') \<and> (j < es \<longrightarrow> \<not> is_white (a ! j))"
    have arg: "runs es (\<lambda>d j. sh_cmd a es d) (bindM (parseredirs (es + 1) a es (add_arg w c)) (parseargs n a es (argc + 1))) l"
      if l: "j < l" "l \<le> es" and w: "word_span a es w" and m: "argc + 1 < MAXARGS" for l w
    proof (rule runs_bind [OF parseredirs_runs [OF assms(1) l(2)]])
      show "sh_cmd a es (add_arg w c)" using add_arg_wf(2,3) [OF Suc.prems(4)] m w Suc.prems(3) by (simp add: sh_cmd_def)
      fix d k assume "l \<le> k" "k \<le> es" "sh_cmd a es d \<and> nargs d = nargs (add_arg w c)"
      then show "runs es (\<lambda>d j. sh_cmd a es d) (parseargs n a es (argc + 1) d) k"
        using Suc.IH [of k d "argc + 1"] add_arg_wf(1) [OF Suc.prems(4)] Suc.prems(2) j(1) l(1) by simp
    qed simp
    show "runs es (\<lambda>d j. sh_cmd a es d) (if b then ret c
       else bindM (gettoken a es) (\<lambda>(tok, w).
          if tok = NUL then ret c
          else if tok \<noteq> CHR ''a'' then panic ''syntax''
          else if argc + 1 \<ge> MAXARGS then panic ''too many args''
          else bindM (parseredirs (es + 1) a es (add_arg w c)) (parseargs n a es (argc + 1)))) j"
      using j(2) Suc.prems(3)
      by (auto intro!: runs_ret runs_bind [OF gettoken_runs [OF assms(1) j(2)]] runs_panic arg [simplified] split: if_splits)
  qed (simp add: NUL_def)
qed simp

lemma parseamps_runs:
  assumes "line_at a es" "i \<le> es" "es - i < n" "sh_cmd a es c"
  shows "runs es (\<lambda>d j. sh_cmd a es d) (parseamps n a es c) i"
  using assms(2-4)
proof (induction n arbitrary: i c)
  case (Suc n)
  show ?case unfolding parseamps.simps
  proof (rule runs_bind [OF peek_runs [OF assms(1) Suc.prems(1)]])
    fix b j assume j: "i \<le> j" "j \<le> es" "(b \<longleftrightarrow> j < es \<and> a ! j \<in> set ''&'') \<and> (j < es \<longrightarrow> \<not> is_white (a ! j))"
    have "runs es (\<lambda>d j. sh_cmd a es d) (bindM (gettoken a es) (\<lambda>_. parseamps n a es (backcmd c))) j" if b
      by (rule next_token [OF assms(1)]) (use that j Suc.prems in \<open>auto intro!: Suc.IH\<close>)
    then show "runs es (\<lambda>d j. sh_cmd a es d) (if \<not> b then ret c else bindM (gettoken a es) (\<lambda>_. parseamps n a es (backcmd c))) j"
      using j(2) Suc.prems(3) by (auto intro: runs_ret)
  qed (simp add: NUL_def)
qed simp

text \<open>The recursion: each call has fuel for four calls per byte that is left.\<close>

lemma parsers_run:
  assumes "line_at a es"
  shows "i \<le> es \<Longrightarrow> 4 * (es - i) + 3 < n \<Longrightarrow> runs es (\<lambda>c j. sh_cmd a es c) (parseline n a es) i"
    and "i \<le> es \<Longrightarrow> 4 * (es - i) + 2 < n \<Longrightarrow> runs es (\<lambda>c j. sh_cmd a es c) (parsepipe n a es) i"
    and "i \<le> es \<Longrightarrow> 4 * (es - i) + 1 < n \<Longrightarrow> runs es (\<lambda>c j. sh_cmd a es c) (parseexec n a es) i"
    and "i < es \<Longrightarrow> a ! i = CHR ''('' \<Longrightarrow> 4 * (es - i) < n \<Longrightarrow> runs es (\<lambda>c j. sh_cmd a es c) (parseblock n a es) i"
proof (induction n arbitrary: i)
  case (Suc n)
  have nul: "NUL \<notin> set '';''" "NUL \<notin> set ''|''" "NUL \<notin> set ''(''" "NUL \<notin> set '')''" by (simp_all add: NUL_def)
  { case 1
    have tail: "runs es (\<lambda>c j. sh_cmd a es c) (bindM (gettoken a es) (\<lambda>_. bindM (parseline n a es) (\<lambda>r. ret (listcmd c r)))) j"
      if "i \<le> j" "j < es" "sh_cmd a es c" for c j
      by (rule next_token [OF assms that(2)], rule runs_bind [OF Suc.IH(1)])
        (use that 1 in \<open>auto intro!: runs_ret\<close>)
    show ?case unfolding parseline.simps
      by (rule runs_bind [OF Suc.IH(2)], use 1 in simp, use 1 in simp,
          rule runs_bind [OF parseamps_runs [OF assms]], assumption, simp, assumption,
          rule runs_bind [OF peek_runs [OF assms _ nul(1)]], assumption)
        (auto intro!: tail runs_ret)
  next
    case 2
    have tail: "runs es (\<lambda>c j. sh_cmd a es c) (bindM (gettoken a es) (\<lambda>_. bindM (parsepipe n a es) (\<lambda>r. ret (pipecmd c r)))) j"
      if "i \<le> j" "j < es" "sh_cmd a es c" for c j
      by (rule next_token [OF assms that(2)], rule runs_bind [OF Suc.IH(2)])
        (use that 2 in \<open>auto intro!: runs_ret\<close>)
    show ?case unfolding parsepipe.simps
      by (rule runs_bind [OF Suc.IH(3)], use 2 in simp, use 2 in simp,
          rule runs_bind [OF peek_runs [OF assms _ nul(2)]], assumption)
        (auto intro!: tail runs_ret)
  next
    case 3
    have simple: "runs es (\<lambda>c j. sh_cmd a es c) (bindM (parseredirs (es + 1) a es execcmd) (parseargs (es + 1) a es 0)) j" if "j \<le> es" for j
      by (rule runs_bind [OF parseredirs_runs [OF assms that]])
        (auto intro!: parseargs_runs [OF assms])
    show ?case unfolding parseexec.simps
      by (rule runs_bind [OF peek_runs [OF assms 3(1) nul(3)]])
        (use 3 in \<open>auto intro!: Suc.IH(4) simple [simplified]\<close>)
  next
    case 4
    have s: "skip is_white a es i = i"
      using 4 at_nth [OF assms, of i] skip.simps [of is_white a es i] by (simp add: is_white_iff whitespace_def)
    have p: "peek a es ''('' i = Ok True i" using 4 s at_nth [OF assms, of i] by (simp add: peek_def NUL_def)
    have close: "runs es (\<lambda>c j. sh_cmd a es c) (bindM (gettoken a es) (\<lambda>_. parseredirs (es + 1) a es c)) j"
      if "j < es" "sh_cmd a es c" for c j
      by (rule next_token [OF assms that(1)]) (use that in \<open>auto intro: runs_weaken [OF parseredirs_runs [OF assms]]\<close>)
    have "runs es (\<lambda>c j. sh_cmd a es c) (bindM (gettoken a es) (\<lambda>_. bindM (parseline n a es) (\<lambda>c.
          bindM (peek a es '')'') (\<lambda>clo.
          if \<not> clo then panic ''syntax - missing )''
          else bindM (gettoken a es) (\<lambda>_. parseredirs (es + 1) a es c))))) i"
      by (rule next_token [OF assms 4(1)], rule runs_bind [OF Suc.IH(1)], assumption, use 4 in simp,
          rule runs_bind [OF peek_runs [OF assms _ nul(4)]], assumption)
        (auto intro!: close [simplified] runs_panic)
    then show ?case unfolding parseblock.simps using p by (simp add: runs_def bindM_def)
  }
qed simp_all

text \<open>
  C12: parsing is total and its results are well typed. Given any line that ends in a zero byte, \<open>parsecmd\<close>
  returns or reports one of its errors: it neither loops, nor reads outside the line, nor reaches the panic in
  \<open>parseblock\<close>. A command that it returns has in each place a word of the line, less than \<open>MAXARGS\<close> arguments
  per command, and redirections of descriptor 0 for reading or 1 for writing only.
\<close>

theorem parsecmd_well_typed:
  assumes "NUL \<in> set a"
  shows "(\<exists>c b. parsecmd a = Ok c b \<and> cmd_wf c \<and> (\<forall>w \<in> set_cmd c. word_span a (ustrlen a) w)) \<or>
    (\<exists>e. parsecmd a = Panic e \<and> (e \<in> sh_errors \<or> (\<exists>r. e = ''leftovers: '' @ r @ [CHR 0x0A] @ ''syntax'')))"
proof -
  let ?es = "ustrlen a"
  note l = line_at_ustrlen [OF assms]
  have "runs ?es (\<lambda>c j. sh_cmd a ?es c) (bindM (parseline (4 * (?es + 1)) a ?es) (\<lambda>c. bindM (peek a ?es []) (\<lambda>_. ret c))) 0"
    by (rule runs_bind [OF parsers_run(1) [OF l]], simp, simp, rule runs_bind [OF peek_runs [OF l]]) (auto intro: runs_ret)
  then show ?thesis by (auto simp: runs_def parsecmd_def Let_def sh_cmd_def split: outcome.splits)
qed

section \<open>Printed commands\<close>

text \<open>
  The tokens of the shell's language, and the tokens a command is written with. The levels are those of the grammar:
  0 is what \<open>parseline\<close> reads, 1 the same without \<open>;\<close>, 2 what \<open>parsepipe\<close> reads, 3 what \<open>parseexec\<close> reads. A command of
  a level too low stands in parentheses.
\<close>

datatype tok = Word string | Op char | Append

fun tok_text :: "tok \<Rightarrow> string" where
  "tok_text (Word w) = w"
| "tok_text (Op c) = [c]"
| "tok_text Append = ''>>''"

fun tok_ok :: "tok \<Rightarrow> bool" where
  "tok_ok (Word w) \<longleftrightarrow> w \<noteq> [] \<and> (\<forall>c \<in> set w. is_word c \<and> c \<noteq> NUL)"
| "tok_ok (Op c) \<longleftrightarrow> c \<in> set symbols"
| "tok_ok Append \<longleftrightarrow> True"

text \<open>The token ends where \<open>r\<close> begins.\<close>

fun apart :: "tok \<Rightarrow> string \<Rightarrow> bool" where
  "apart (Word w) r \<longleftrightarrow> r = [] \<or> \<not> is_word (hd r)"
| "apart (Op c) r \<longleftrightarrow> c = CHR ''>'' \<longrightarrow> r = [] \<or> hd r \<noteq> CHR ''>''"
| "apart Append r \<longleftrightarrow> True"

text \<open>\<open>lexes s ts\<close>: the line \<open>s\<close> consists of the tokens \<open>ts\<close>, with any white space between them.\<close>

inductive lexes :: "string \<Rightarrow> tok list \<Rightarrow> bool" where
  lex_end: "\<forall>c \<in> set w. is_white c \<Longrightarrow> lexes w []"
| lex_tok: "\<forall>c \<in> set w. is_white c \<Longrightarrow> tok_ok t \<Longrightarrow> apart t r \<Longrightarrow> lexes r ts \<Longrightarrow> lexes (w @ tok_text t @ r) (t # ts)"

inductive_cases lexes_NilE: "lexes s []"

inductive_cases lexes_ConsE: "lexes s (t # ts)"

definition paren :: "bool \<Rightarrow> tok list \<Rightarrow> tok list" where
  "paren b ts = (if b then [Op CHR ''(''] @ ts @ [Op CHR '')''] else ts)"

definition redir_toks :: "string \<Rightarrow> nat \<Rightarrow> tok list" where
  "redir_toks f d = [Op (if d = 0 then CHR ''<'' else CHR ''>''), Word f]"

fun toks :: "nat \<Rightarrow> string cmd \<Rightarrow> tok list" where
  "toks p (EXEC ws) = map Word ws"
| "toks p (REDIR c f m d) = toks 3 c @ redir_toks f d"
| "toks p (PIPE l r) = paren (p > 2) (toks 3 l @ [Op CHR ''|''] @ toks 2 r)"
| "toks p (BACK c) = paren (p > 1) (toks 1 c @ [Op CHR ''&''])"
| "toks p (LIST l r) = paren (p > 0) (toks 1 l @ [Op CHR '';''] @ toks 0 r)"

definition print_cmd :: "string cmd \<Rightarrow> string" where
  "print_cmd c = concat (map (\<lambda>t. tok_text t @ '' '') (toks 0 c))"

definition word_ok :: "string \<Rightarrow> bool" where
  "word_ok w \<longleftrightarrow> w \<noteq> [] \<and> (\<forall>c \<in> set w. is_word c \<and> c \<noteq> NUL)"

lemma white_word: "is_white c \<Longrightarrow> \<not> is_word c"
  by (simp add: is_white_iff is_word_iff)

lemma symbol_not_white: "c \<in> set symbols \<Longrightarrow> \<not> is_white c" "c \<in> set symbols \<Longrightarrow> \<not> is_word c" "c \<in> set symbols \<Longrightarrow> c \<noteq> NUL"
  by (auto simp: is_white_iff is_word_iff symbols_def whitespace_def NUL_def)

lemma tok_text_ok: "tok_ok t \<Longrightarrow> tok_text t \<noteq> [] \<and> \<not> is_white (hd (tok_text t)) \<and> NUL \<notin> set (tok_text t)"
  using symbol_not_white by (cases t) (auto simp: is_word_iff is_white_iff whitespace_def NUL_def)

lemma white_not_NUL: "is_white c \<Longrightarrow> c \<noteq> NUL"
  by (auto simp: is_white_iff whitespace_def NUL_def)

lemma lexes_no_NUL: "lexes s ts \<Longrightarrow> NUL \<notin> set s"
  by (induction rule: lexes.induct) (use white_not_NUL tok_text_ok in auto)

text \<open>Printed with a blank after every token, a command can be read back.\<close>

lemma print_lexes: "\<forall>t \<in> set ts. tok_ok t \<Longrightarrow> lexes (concat (map (\<lambda>t. tok_text t @ '' '') ts)) ts"
proof (induction ts)
  case (Cons t ts)
  let ?r = "'' '' @ concat (map (\<lambda>t. tok_text t @ '' '') ts)"
  have b: "is_white CHR '' ''" by (simp add: is_white_iff whitespace_def)
  have "lexes ?r ts"
  proof (cases ts)
    case (Cons u us)
    have "lexes (concat (map (\<lambda>t. tok_text t @ '' '') ts)) ts" using Cons.IH Cons.prems by simp
    then obtain w r where w: "concat (map (\<lambda>t. tok_text t @ '' '') ts) = w @ tok_text u @ r" "\<forall>c \<in> set w. is_white c" "tok_ok u" "apart u r" "lexes r us"
      unfolding Cons by (auto elim: lexes_ConsE)
    have "lexes ((CHR '' '' # w) @ tok_text u @ r) (u # us)" by (rule lex_tok) (use w b in auto)
    then show ?thesis using w(1) Cons by simp
  qed (use b in \<open>auto intro: lex_end\<close>)
  moreover have "apart t ?r" using b white_word by (cases t) auto
  ultimately have "lexes ([] @ tok_text t @ ?r) (t # ts)" using Cons.prems by (intro lex_tok) auto
  then show ?case by simp
qed (auto intro: lex_end)

lemma toks_ok: "cmd_wf c \<Longrightarrow> \<forall>w \<in> set_cmd c. word_ok w \<Longrightarrow> t \<in> set (toks p c) \<Longrightarrow> tok_ok t"
  by (induction c arbitrary: p) (auto simp: paren_def redir_toks_def word_ok_def symbols_def split: if_splits)

section \<open>Reading tokens\<close>

definition rest :: "string \<Rightarrow> nat \<Rightarrow> nat \<Rightarrow> string" where
  "rest a es i = take (es - i) (drop i a)"

definition lexat :: "string \<Rightarrow> nat \<Rightarrow> nat \<Rightarrow> tok list \<Rightarrow> bool" where
  "lexat a es i ts \<longleftrightarrow> i \<le> es \<and> lexes (rest a es i) ts"

definition span_text :: "string \<Rightarrow> span \<Rightarrow> string" where
  "span_text a w = take (snd w - fst w) (drop (fst w) a)"

lemma rest_step: "line_at a es \<Longrightarrow> i < es \<Longrightarrow> rest a es i = at a i # rest a es (i + 1)"
proof -
  assume "line_at a es" "i < es"
  then have "drop i a = a ! i # drop (Suc i) a" "at a i = a ! i" "es - i = Suc (es - Suc i)"
    by (auto simp: line_at_def at_def Cons_nth_drop_Suc)
  then show ?thesis by (simp add: rest_def)
qed

lemma rest_add: "rest a es (i + k) = drop k (rest a es i)"
  by (simp add: rest_def drop_take add.commute)

lemma length_rest: "line_at a es \<Longrightarrow> i \<le> es \<Longrightarrow> length (rest a es i) = es - i"
  by (auto simp: rest_def line_at_def min_def)

lemma skip_rest: "line_at a es \<Longrightarrow> i \<le> es \<Longrightarrow> skip P a es i = i + length (takeWhile P (rest a es i))"
proof (induction P a es i rule: skip.induct)
  case (1 P a es i)
  show ?case
  proof (cases "i < es")
    case True
    then show ?thesis using 1 rest_step [OF 1(2) True] skip.simps [of P a es i] by simp
  next
    case False
    then show ?thesis using 1(3) skip.simps [of P a es i] by (simp add: rest_def)
  qed
qed

lemma rest_skip: "line_at a es \<Longrightarrow> i \<le> es \<Longrightarrow> rest a es (skip P a es i) = dropWhile P (rest a es i)"
  by (simp add: skip_rest rest_add dropWhile_eq_drop)

lemma span_text_rest: "line_at a es \<Longrightarrow> q \<le> es \<Longrightarrow> rest a es q = w @ r \<Longrightarrow> span_text a (q, q + length w) = w"
proof -
  assume a: "line_at a es" "q \<le> es" "rest a es q = w @ r"
  then have "length w \<le> es - q" using length_rest [OF a(1,2)] by simp
  then have "take (length w) (drop q a) = take (length w) (rest a es q)" by (simp add: rest_def min_absorb1)
  then show ?thesis using a(3) by (simp add: span_text_def)
qed

lemma dropWhile_white:
  assumes "lexes s (t # ts)"
  obtains r where "dropWhile is_white s = tok_text t @ r" "tok_ok t" "apart t r" "lexes r ts"
proof -
  from assms obtain w r where w: "s = w @ tok_text t @ r" "\<forall>c \<in> set w. is_white c" "tok_ok t" "apart t r" "lexes r ts"
    by (auto elim: lexes_ConsE)
  then have "dropWhile is_white s = dropWhile is_white (tok_text t @ r)" by (simp add: dropWhile_append2)
  also have "\<dots> = tok_text t @ r" using tok_text_ok [OF w(3)] by (cases "tok_text t") auto
  finally show thesis using that w by blast
qed

lemma lexes_dropWhile: "lexes s ts \<Longrightarrow> lexes (dropWhile is_white s) ts"
proof (cases ts)
  case Nil
  assume "lexes s ts"
  then show ?thesis using Nil by (auto elim!: lexes_NilE intro!: lex_end dest: set_dropWhileD)
next
  case (Cons t us)
  assume "lexes s ts"
  then obtain r where r: "dropWhile is_white s = tok_text t @ r" "tok_ok t" "apart t r" "lexes r us"
    using dropWhile_white Cons by metis
  then have "lexes ([] @ tok_text t @ r) (t # us)" by (intro lex_tok) auto
  then show ?thesis using r(1) Cons by simp
qed

lemma lexat_skip: "line_at a es \<Longrightarrow> lexat a es i ts \<Longrightarrow> lexat a es (skip is_white a es i) ts"
  using skip_le(2) [of i es is_white a] by (simp add: lexat_def rest_skip lexes_dropWhile)

lemma lexat_Nil: "line_at a es \<Longrightarrow> lexat a es i [] \<Longrightarrow> skip is_white a es i = es"
proof -
  assume a: "line_at a es" "lexat a es i []"
  then have "takeWhile is_white (rest a es i) = rest a es i" by (auto simp: lexat_def elim!: lexes_NilE)
  then have "length (takeWhile is_white (rest a es i)) = es - i" using a length_rest [of a es i] by (simp only: lexat_def)
  then show ?thesis using a skip_rest [of a es i is_white] by (simp add: lexat_def)
qed

fun kind :: "tok \<Rightarrow> char" where
  "kind (Word w) = CHR ''a''"
| "kind (Op c) = c"
| "kind Append = CHR ''+''"

lemma peek_lex:
  assumes "line_at a es" "lexat a es i ts" "NUL \<notin> set cs"
  obtains j where "peek a es cs i = Ok (case ts of [] \<Rightarrow> False | t # _ \<Rightarrow> hd (tok_text t) \<in> set cs) j" "lexat a es j ts" "i \<le> j"
proof (rule that)
  let ?j = "skip is_white a es i"
  have i: "i \<le> es" using assms(2) by (simp add: lexat_def)
  show j: "lexat a es ?j ts" by (rule lexat_skip [OF assms(1,2)])
  then have je: "?j \<le> es" by (simp add: lexat_def)
  show "i \<le> ?j" by (rule skip_le(1) [OF i])
  show "peek a es cs i = Ok (case ts of [] \<Rightarrow> False | t # _ \<Rightarrow> hd (tok_text t) \<in> set cs) ?j"
  proof (cases ts)
    case Nil
    then show ?thesis using lexat_Nil [OF assms(1)] assms(2) at_end [OF assms(1) order_refl] by (simp add: peek_def)
  next
    case (Cons t us)
    then obtain r where r: "rest a es ?j = tok_text t @ r" "tok_ok t"
      using assms(2) rest_skip [OF assms(1) i] dropWhile_white unfolding lexat_def by metis
    have ne: "tok_text t \<noteq> []" "NUL \<notin> set (tok_text t)" using tok_text_ok [OF r(2)] by auto
    then have "?j < es" using r(1) length_rest [OF assms(1) je] je by (cases "?j = es") (auto simp: rest_def)
    then have "at a ?j = hd (tok_text t)" using rest_step [OF assms(1)] r(1) ne(1) by (metis hd_append2 list.sel(1))
    moreover have "hd (tok_text t) \<noteq> NUL" using ne(2) hd_in_set [OF ne(1)] by metis
    ultimately show ?thesis using Cons strchr_None_iff [OF assms(3)] by (auto simp: peek_def Let_def)
  qed
qed

lemma gettoken_end:
  assumes "line_at a es" "lexat a es i []"
  shows "gettoken a es i = Ok (NUL, (es, es)) es"
  using lexat_Nil [OF assms] at_end [OF assms(1) order_refl] skip.simps [of is_white a es es] by (simp add: gettoken_def)

lemma gettoken_lex:
  assumes "line_at a es" "lexat a es i (t # ts)"
  obtains w j where "gettoken a es i = Ok (kind t, w) j" "lexat a es j ts" "i < j" "span_text a w = tok_text t"
proof -
  let ?s = "skip is_white a es i"
  have i: "i \<le> es" using assms(2) by (simp add: lexat_def)
  obtain r where r: "rest a es ?s = tok_text t @ r" "tok_ok t" "apart t r" "lexes r ts"
    using assms(2) rest_skip [OF assms(1) i] dropWhile_white unfolding lexat_def by metis
  note tx = tok_text_ok [OF r(2)]
  have s: "i \<le> ?s" "?s \<le> es" using skip_le [OF i] by auto
  have len: "?s + length (tok_text t) \<le> es" using length_rest [OF assms(1) s(2)] r(1) s(2) by simp
  have lt: "?s < es" using len tx by (cases "tok_text t") auto
  have c: "at a ?s = hd (tok_text t)" using rest_step [OF assms(1) lt] r(1) tx by (metis hd_append2 list.sel(1))
  let ?e = "?s + length (tok_text t)"
  have e: "rest a es ?e = r" using rest_add [of a es ?s "length (tok_text t)"] r(1) by simp
  have nx: "at a (?s + 1) = (if tl (tok_text t @ r) = [] then NUL else hd (tl (tok_text t @ r)))"
  proof -
    have "rest a es (?s + 1) = tl (tok_text t @ r)" using rest_step [OF assms(1) lt] r(1) by simp
    moreover have "rest a es (?s + 1) = (if ?s + 1 < es then at a (?s + 1) # rest a es (?s + 2) else [])"
      using rest_step [OF assms(1), of "?s + 1"] by (simp add: rest_def)
    moreover have "at a (?s + 1) = NUL" if "\<not> ?s + 1 < es"
    proof -
      have "?s + 1 = es" using that lt by simp
      then show ?thesis using at_end [OF assms(1), of es] by simp
    qed
    ultimately show ?thesis by (metis list.sel(1) list.distinct(1))
  qed
  have "gettoken a es i = Ok (kind t, (?s, ?e)) (skip is_white a es ?e)"
  proof (cases t)
    case (Word w)
    then have w: "w \<noteq> []" "\<forall>x \<in> set w. is_word x" "is_word (hd w)" "hd w \<noteq> NUL" using r(2) by auto
    have "takeWhile is_word (w @ r) = w" using w(2) r(3) Word by (cases r) (auto simp: takeWhile_append2)
    then have "skip is_word a es ?s = ?e" using skip_rest [OF assms(1) s(2), of is_word] r(1) Word by simp
    moreover have "at a ?s \<notin> set symbols" using c Word w(3) by (simp add: is_word_iff)
    ultimately show ?thesis using c Word w(4) by (auto simp: gettoken_def Let_def symbols_def)
  next
    case (Op x)
    then have x: "x \<in> set symbols" "x \<noteq> NUL" using r(2) symbol_not_white(3) by auto
    have "at a (?s + 1) \<noteq> CHR ''>''" if "x = CHR ''>''" using nx r(3) Op that by (auto simp: NUL_def)
    then show ?thesis using c Op x by (auto simp: gettoken_def Let_def symbols_def)
  next
    case Append
    then show ?thesis using c nx by (simp add: gettoken_def Let_def NUL_def)
  qed
  moreover have "lexat a es (skip is_white a es ?e) ts"
    by (rule lexat_skip [OF assms(1)]) (use len e r(4) in \<open>simp add: lexat_def\<close>)
  moreover have "i < skip is_white a es ?e" using skip_le(1) [OF len, of is_white a] s(1) tx by (cases "tok_text t") auto
  moreover have "span_text a (?s, ?e) = tok_text t" by (rule span_text_rest [OF assms(1) s(2) r(1)])
  ultimately show thesis by (rule that)
qed

section \<open>Reading commands\<close>

text \<open>\<open>yields m i c ts\<close>: from position \<open>i\<close>, \<open>m\<close> reads the command \<open>c\<close> and leaves the tokens \<open>ts\<close>.\<close>

definition yields :: "string \<Rightarrow> nat \<Rightarrow> span cmd sh \<Rightarrow> nat \<Rightarrow> string cmd \<Rightarrow> tok list \<Rightarrow> bool" where
  "yields a es m i c ts \<longleftrightarrow> (\<exists>r j. m i = Ok r j \<and> i \<le> j \<and> map_cmd (span_text a) r = c \<and> lexat a es j ts)"

definition starts :: "string \<Rightarrow> tok list \<Rightarrow> bool" where
  "starts cs ts \<longleftrightarrow> (case ts of [] \<Rightarrow> False | t # _ \<Rightarrow> hd (tok_text t) \<in> set cs)"

lemma starts_simps [simp]: "\<not> starts cs []" "starts cs (t # ts) \<longleftrightarrow> hd (tok_text t) \<in> set cs"
  by (simp_all add: starts_def)

lemma yields_ret: "lexat a es i ts \<Longrightarrow> map_cmd (span_text a) r = c \<Longrightarrow> yields a es (ret r) i c ts"
  by (simp add: yields_def ret_def)

lemma yields_peek:
  assumes "line_at a es" "lexat a es i ts" "NUL \<notin> set cs" "\<And>j. i \<le> j \<Longrightarrow> lexat a es j ts \<Longrightarrow> yields a es (k (starts cs ts)) j c us"
  shows "yields a es (bindM (peek a es cs) k) i c us"
proof -
  obtain j where j: "peek a es cs i = Ok (starts cs ts) j" "lexat a es j ts" "i \<le> j"
    using peek_lex [OF assms(1-3)] unfolding starts_def by metis
  with assms(4) [OF j(3,2)] show ?thesis by (auto simp: yields_def bindM_def)
qed

lemma yields_token:
  assumes "line_at a es" "lexat a es i (t # ts)"
    and "\<And>w j. i < j \<Longrightarrow> lexat a es j ts \<Longrightarrow> span_text a w = tok_text t \<Longrightarrow> yields a es (k (kind t, w)) j c us"
  shows "yields a es (bindM (gettoken a es) k) i c us"
proof -
  obtain w j where j: "gettoken a es i = Ok (kind t, w) j" "lexat a es j ts" "i < j" "span_text a w = tok_text t"
    using gettoken_lex [OF assms(1,2)] .
  with assms(3) [OF j(3,2,4)] show ?thesis by (auto simp: yields_def bindM_def)
qed

lemma yields_bind:
  assumes "yields a es m i b ts" "\<And>r j. i \<le> j \<Longrightarrow> lexat a es j ts \<Longrightarrow> map_cmd (span_text a) r = b \<Longrightarrow> yields a es (k r) j c us"
  shows "yields a es (bindM m k) i c us"
proof -
  obtain r j where j: "m i = Ok r j" "i \<le> j" "map_cmd (span_text a) r = b" "lexat a es j ts" using assms(1) by (auto simp: yields_def)
  with assms(2) [OF j(2,4,3)] show ?thesis by (auto simp: yields_def bindM_def)
qed

type_synonym redir = "string \<times> u32 \<times> nat"

definition wraps :: "'w cmd \<Rightarrow> ('w \<times> u32 \<times> nat) list \<Rightarrow> 'w cmd" where
  "wraps c rs = foldl (\<lambda>c (f, m, d). REDIR c f m d) c rs"

definition redirs_toks :: "redir list \<Rightarrow> tok list" where
  "redirs_toks rs = concat (map (\<lambda>(f, m, d). redir_toks f d) rs)"

definition redir_ok :: "redir \<Rightarrow> bool" where
  "redir_ok r \<longleftrightarrow> (case r of (f, m, d) \<Rightarrow> m = O_RDONLY \<and> d = 0 \<or> m = O_WRONLY OR O_CREATE \<and> d = 1)"

lemma wraps_simps [simp]: "wraps c [] = c" "wraps c ((f, m, d) # rs) = wraps (REDIR c f m d) rs" "wraps c (rs @ [(f, m, d)]) = REDIR (wraps c rs) f m d"
  by (simp_all add: wraps_def)

lemma redirs_toks_simps [simp]: "redirs_toks [] = []" "redirs_toks ((f, m, d) # rs) = redir_toks f d @ redirs_toks rs"
  "redirs_toks (rs @ qs) = redirs_toks rs @ redirs_toks qs"
  by (simp_all add: redirs_toks_def)

lemma add_arg_wraps: "add_arg w (wraps (EXEC ws) rs) = wraps (EXEC (ws @ [w])) rs"
  by (induction rs rule: rev_induct) (auto simp: wraps_def)

lemma map_add_arg: "map_cmd f (add_arg w c) = add_arg (f w) (map_cmd f c)"
  by (induction c) auto

lemma lexat_le: "lexat a es i ts \<Longrightarrow> i \<le> es"
  by (simp add: lexat_def)

lemma lexat_ok: "lexat a es i (t # ts) \<Longrightarrow> tok_ok t"
  by (auto simp: lexat_def elim: lexes_ConsE)

lemma parseredirs_yields:
  assumes "line_at a es" "lexat a es i (redirs_toks rs @ ts)" "\<not> starts ''<>'' ts" "\<forall>r \<in> set rs. redir_ok r" "es - i < n"
  shows "yields a es (parseredirs n a es r) i (wraps (map_cmd (span_text a) r) rs) ts"
  using assms(2,4,5)
proof (induction rs arbitrary: i n r)
  case Nil
  then obtain m where "n = Suc m" by (cases n) auto
  then show ?case using Nil assms(3)
    by (auto simp: parseredirs.simps NUL_def intro!: yields_peek [OF assms(1), of _ ts] yields_ret)
next
  case (Cons x rs)
  obtain f m d where x: "x = (f, m, d)" by (cases x)
  then have md: "m = O_RDONLY \<and> d = 0 \<or> m = O_WRONLY OR O_CREATE \<and> d = 1" using Cons.prems(2) by (simp add: redir_ok_def)
  obtain k where n: "n = Suc k" using Cons.prems(3) by (cases n) auto
  have rec: "yields a es (parseredirs k a es (redircmd r w m d)) j (wraps (REDIR (map_cmd (span_text a) r) f m d) rs) ts"
    if "lexat a es j (redirs_toks rs @ ts)" "i < j" "span_text a w = f" for w j
    using Cons.IH [OF that(1), of k "redircmd r w m d"] Cons.prems(2,3) that lexat_le [OF that(1)] n by (simp add: redircmd_def)
  have lx: "lexat a es i (Op (if d = 0 then CHR ''<'' else CHR ''>'') # Word f # redirs_toks rs @ ts)"
    using Cons.prems(1) by (simp add: x redir_toks_def)
  show ?case unfolding n parseredirs.simps
  proof (rule yields_peek [OF assms(1) lx])
    fix j assume j: "i \<le> j" "lexat a es j (Op (if d = 0 then CHR ''<'' else CHR ''>'') # Word f # redirs_toks rs @ ts)"
    show "yields a es (if \<not> starts ''<>'' (Op (if d = 0 then CHR ''<'' else CHR ''>'') # Word f # redirs_toks rs @ ts) then ret r
      else bindM (gettoken a es) (\<lambda>(tok, _). bindM (gettoken a es) (\<lambda>(t, w).
          if t \<noteq> CHR ''a'' then panic ''missing file for redirection''
          else parseredirs k a es
            (if tok = CHR ''<'' then redircmd r w O_RDONLY 0
             else if tok = CHR ''>'' then redircmd r w (O_WRONLY OR O_CREATE) 1
             else if tok = CHR ''+'' then redircmd r w (O_WRONLY OR O_CREATE) 1 else r)))) j
      (wraps (map_cmd (span_text a) r) (x # rs)) ts"
      using md rec j(1) by (auto simp: x intro!: yields_token [OF assms(1) j(2)] yields_token [OF assms(1)])
  qed (simp add: NUL_def)
qed

lemma parseargs_yields:
  assumes "line_at a es" "lexat a es i (map Word ws @ redirs_toks rs @ ts)" "ws = [] \<longrightarrow> rs = []" "ts = [] \<or> starts ''|)&;'' ts"
    "\<forall>r \<in> set rs. redir_ok r" "es - i < n" "argc + length ws < MAXARGS"
    "map_cmd (span_text a) r = wraps (EXEC vs) qs"
  shows "yields a es (parseargs n a es argc r) i (wraps (EXEC (vs @ ws)) (qs @ rs)) ts"
  using assms(2,3,5-8)
proof (induction ws arbitrary: i n r argc vs qs rs)
  case Nil
  then obtain m where n: "n = Suc m" by (cases n) auto
  have lx: "lexat a es i ts" using Nil by simp
  have e: "yields a es (bindM (gettoken a es) (\<lambda>(tok, w). if tok = NUL then ret r else k tok w)) j (wraps (EXEC vs) qs) []" if "lexat a es j []" for j k
    using gettoken_end [OF assms(1) that] that Nil.prems(6) lexat_le [OF that]
    by (auto simp: yields_def bindM_def ret_def lexat_def rest_def intro: lex_end)
  show ?case unfolding n parseargs.simps
    by (rule yields_peek [OF assms(1) lx]) (use assms(4) Nil e in \<open>auto simp: NUL_def intro: yields_ret\<close>)
next
  case (Cons w ws)
  obtain m where n: "n = Suc m" using Cons.prems(4) by (cases n) auto
  let ?ts = "map Word ws @ redirs_toks rs @ ts"
  have lx: "lexat a es i (Word w # ?ts)" using Cons.prems(1) by simp
  have w: "w \<noteq> []" "is_word (hd w)" using lexat_ok [OF lx] by auto
  then have ns: "\<not> starts ''|)&;'' (Word w # ?ts)" by (auto simp: is_word_iff symbols_def)
  define rs1 where "rs1 = (if ws = [] then rs else [])"
  define rs2 where "rs2 = (if ws = [] then [] else rs)"
  have sp: "?ts = redirs_toks rs1 @ map Word ws @ redirs_toks rs2 @ ts" "rs = rs1 @ rs2" by (simp_all add: rs1_def rs2_def)
  have nr: "\<not> starts ''<>'' (map Word ws @ redirs_toks rs2 @ ts)" if "lexat a es j ?ts" for j
  proof (cases ws)
    case Nil
    then show ?thesis using assms(4) by (auto simp: rs2_def starts_def split: list.splits)
  next
    case (Cons v vs)
    then have "is_word (hd v)" "v \<noteq> []" using lexat_ok [of a es j "Word v"] that by auto
    then show ?thesis using Cons by (auto simp: is_word_iff symbols_def)
  qed
  have arg: "yields a es (bindM (parseredirs (es + 1) a es (add_arg u r)) (parseargs m a es (argc + 1))) j (wraps (EXEC (vs @ w # ws)) (qs @ rs)) ts"
    if j: "lexat a es j ?ts" "i < j" "span_text a u = w" for u j
  proof (rule yields_bind)
    have lj: "lexat a es j (redirs_toks rs1 @ map Word ws @ redirs_toks rs2 @ ts)" using j(1) unfolding sp(1) .
    show "yields a es (parseredirs (es + 1) a es (add_arg u r)) j (wraps (map_cmd (span_text a) (add_arg u r)) rs1) (map Word ws @ redirs_toks rs2 @ ts)"
      by (rule parseredirs_yields [OF assms(1) lj nr [OF j(1)]]) (use Cons.prems(3) sp(2) in auto)
    fix x k assume k: "j \<le> k" "lexat a es k (map Word ws @ redirs_toks rs2 @ ts)" "map_cmd (span_text a) x = wraps (map_cmd (span_text a) (add_arg u r)) rs1"
    have "map_cmd (span_text a) x = wraps (EXEC (vs @ [w])) (qs @ rs1)"
      using k(3) Cons.prems(6) j(3) by (simp add: map_add_arg add_arg_wraps) (simp add: wraps_def)
    then have "yields a es (parseargs m a es (argc + 1) x) k (wraps (EXEC ((vs @ [w]) @ ws)) ((qs @ rs1) @ rs2)) ts"
      by (intro Cons.IH [OF k(2)]) (use Cons.prems j(2) k(1) n sp lexat_le [OF k(2)] in \<open>auto simp: rs2_def\<close>)
    then show "yields a es (parseargs m a es (argc + 1) x) k (wraps (EXEC (vs @ w # ws)) (qs @ rs)) ts" using sp by simp
  qed
  show ?case unfolding n parseargs.simps
  proof (rule yields_peek [OF assms(1) lx])
    fix j assume j: "i \<le> j" "lexat a es j (Word w # ?ts)"
    show "yields a es (if starts ''|)&;'' (Word w # ?ts) then ret r else bindM (gettoken a es) (\<lambda>(tok, w).
          if tok = NUL then ret r
          else if tok \<noteq> CHR ''a'' then panic ''syntax''
          else if argc + 1 \<ge> MAXARGS then panic ''too many args''
          else bindM (parseredirs (es + 1) a es (add_arg w r)) (parseargs m a es (argc + 1)))) j
      (wraps (EXEC (vs @ w # ws)) (qs @ rs)) ts"
      unfolding if_not_P [OF ns]
      by (rule yields_token [OF assms(1) j(2)]) (use arg j(1) Cons.prems(5) in \<open>simp add: NUL_def\<close>)
  qed (simp add: NUL_def)
qed

lemma parseamps_yields:
  assumes "line_at a es" "lexat a es i (replicate k (Op CHR ''&'') @ ts)" "\<not> starts ''&'' ts" "es - i < n"
  shows "yields a es (parseamps n a es r) i ((BACK ^^ k) (map_cmd (span_text a) r)) ts"
  using assms(2,4)
proof (induction k arbitrary: i n r)
  case 0
  then obtain m where "n = Suc m" by (cases n) auto
  then show ?case using 0 assms(3)
    by (auto simp: parseamps.simps NUL_def intro!: yields_peek [OF assms(1), of _ ts] yields_ret)
next
  case (Suc k)
  obtain m where n: "n = Suc m" using Suc.prems(2) by (cases n) auto
  have lx: "lexat a es i (Op CHR ''&'' # replicate k (Op CHR ''&'') @ ts)" using Suc.prems(1) by simp
  have rec: "yields a es (parseamps m a es (backcmd r)) j ((BACK ^^ Suc k) (map_cmd (span_text a) r)) ts"
    if "lexat a es j (replicate k (Op CHR ''&'') @ ts)" "i < j" for j
    using Suc.IH [OF that(1), of m "backcmd r"] Suc.prems(2) that lexat_le [OF that(1)] n by (simp add: backcmd_def funpow_swap1)
  show ?case unfolding n parseamps.simps
    by (rule yields_peek [OF assms(1) lx]) (use rec in \<open>auto simp: NUL_def intro!: yields_token [OF assms(1)]\<close>)
qed

text \<open>What \<open>parseline\<close> does once it knows what \<open>parsepipe\<close> reads.\<close>

lemma parseline_yields:
  assumes "line_at a es" "yields a es (parsepipe n a es) i c (replicate k (Op CHR ''&'') @ ts)" "\<not> starts ''&'' ts"
  shows "\<not> starts '';'' ts \<Longrightarrow> yields a es (parseline (Suc n) a es) i ((BACK ^^ k) c) ts"
    and "ts = Op CHR '';'' # us \<Longrightarrow> (\<And>j. i < j \<Longrightarrow> lexat a es j us \<Longrightarrow> yields a es (parseline n a es) j r vs) \<Longrightarrow>
      yields a es (parseline (Suc n) a es) i (LIST ((BACK ^^ k) c) r) vs"
proof -
  have amps: "yields a es (bindM (parsepipe n a es) (\<lambda>c. bindM (parseamps (es + 1) a es c) q)) i e vs"
    if "\<And>x j. i \<le> j \<Longrightarrow> lexat a es j ts \<Longrightarrow> map_cmd (span_text a) x = (BACK ^^ k) c \<Longrightarrow> yields a es (q x) j e vs" for q e vs
  proof (rule yields_bind [OF assms(2)])
    fix x j assume x: "i \<le> j" "lexat a es j (replicate k (Op CHR ''&'') @ ts)" "map_cmd (span_text a) x = c"
    show "yields a es (bindM (parseamps (es + 1) a es x) q) j e vs"
      by (rule yields_bind [OF parseamps_yields [OF assms(1) x(2) assms(3)]]) (use x that in auto)
  qed
  show "yields a es (parseline (Suc n) a es) i ((BACK ^^ k) c) ts" if "\<not> starts '';'' ts"
    unfolding parseline.simps
    by (rule amps, rule yields_peek [OF assms(1)], assumption) (use that in \<open>auto simp: NUL_def intro: yields_ret\<close>)
  show "yields a es (parseline (Suc n) a es) i (LIST ((BACK ^^ k) c) r) vs"
    if t: "ts = Op CHR '';'' # us" and r: "\<And>j. i < j \<Longrightarrow> lexat a es j us \<Longrightarrow> yields a es (parseline n a es) j r vs"
  proof -
    have "yields a es (bindM (gettoken a es) (\<lambda>_. bindM (parseline n a es) (\<lambda>r. ret (listcmd x r)))) j (LIST ((BACK ^^ k) c) r) vs"
      if "i \<le> j" "lexat a es j ts" "map_cmd (span_text a) x = (BACK ^^ k) c" for x j
      by (rule yields_token [OF assms(1)], use that t in simp, rule yields_bind [OF r])
        (use that in \<open>auto simp: listcmd_def intro: yields_ret\<close>)
    then show ?thesis unfolding parseline.simps
      by (intro amps yields_peek [OF assms(1), of _ ts]) (use t in \<open>auto simp: NUL_def\<close>)
  qed
qed

text \<open>The parser reads every well-formed command from its tokens, at each level of the grammar.\<close>

definition reads_line :: "string \<Rightarrow> nat \<Rightarrow> string cmd \<Rightarrow> bool" where
  "reads_line a es c \<longleftrightarrow> (\<forall>i n ts. lexat a es i (toks 0 c @ ts) \<longrightarrow> 4 * (es - i) + 3 < n \<longrightarrow> ts = [] \<or> starts '')'' ts \<longrightarrow>
     yields a es (parseline n a es) i c ts)"

definition reads_pipe :: "string \<Rightarrow> nat \<Rightarrow> string cmd \<Rightarrow> bool" where
  "reads_pipe a es c \<longleftrightarrow> (\<forall>i n ts. lexat a es i (toks 2 c @ ts) \<longrightarrow> 4 * (es - i) + 2 < n \<longrightarrow> ts = [] \<or> starts '')&;'' ts \<longrightarrow>
     yields a es (parsepipe n a es) i c ts)"

definition reads_exec :: "string \<Rightarrow> nat \<Rightarrow> string cmd \<Rightarrow> bool" where
  "reads_exec a es c \<longleftrightarrow> (\<forall>i n ts. lexat a es i (toks 3 c @ ts) \<longrightarrow> 4 * (es - i) + 1 < n \<longrightarrow> ts = [] \<or> starts ''|)&;'' ts \<longrightarrow>
     yields a es (parseexec n a es) i c ts)"

lemma starts_mono: "starts cs ts \<Longrightarrow> set cs \<subseteq> set ds \<Longrightarrow> starts ds ts"
  by (auto simp: starts_def split: list.splits)

lemma starts_not: "ts = [] \<or> starts cs ts \<Longrightarrow> set cs \<inter> set ds = {} \<Longrightarrow> \<not> starts ds ts"
  by (auto simp: starts_def split: list.splits)

lemma exec_simple:
  assumes "line_at a es" "\<forall>r \<in> set rs. redir_ok r" "length ws < MAXARGS"
  shows "reads_exec a es (wraps (EXEC ws) rs)"
  unfolding reads_exec_def
proof (intro allI impI)
  fix i n ts assume a: "lexat a es i (toks 3 (wraps (EXEC ws) rs) @ ts)" "4 * (es - i) + 1 < n" "ts = [] \<or> starts ''|)&;'' ts"
  obtain m where n: "n = Suc m" using a(2) by (cases n) auto
  have "toks p (wraps (EXEC ws) rs) = map Word ws @ redirs_toks rs" for p
    by (induction rs arbitrary: p rule: rev_induct) (auto simp: wraps_def)
  then have lx: "lexat a es i (map Word ws @ redirs_toks rs @ ts)" using a(1) by simp
  have first: "\<not> starts ''('' (map Word ws @ redirs_toks rs @ ts)"
  proof (cases ws)
    case Nil
    then show ?thesis using starts_not [OF a(3), of "''(''"] by (cases rs) (auto simp: redir_toks_def split: if_splits)
  next
    case (Cons w us)
    then have "is_word (hd w)" "w \<noteq> []" using lexat_ok [of a es i "Word w"] lx by auto
    then show ?thesis using Cons by (auto simp: is_word_iff symbols_def)
  qed
  define rs1 where "rs1 = (if ws = [] then rs else [])"
  define rs2 where "rs2 = (if ws = [] then [] else rs)"
  have sp: "map Word ws @ redirs_toks rs @ ts = redirs_toks rs1 @ map Word ws @ redirs_toks rs2 @ ts" "rs = rs1 @ rs2" by (simp_all add: rs1_def rs2_def)
  have nr: "\<not> starts ''<>'' (map Word ws @ redirs_toks rs2 @ ts)"
  proof (cases ws)
    case Nil
    then show ?thesis using starts_not [OF a(3), of "''<>''"] by (auto simp: rs2_def)
  next
    case (Cons w us)
    then have "is_word (hd w)" "w \<noteq> []" using lexat_ok [of a es i "Word w"] lx by auto
    then show ?thesis using Cons by (auto simp: is_word_iff symbols_def)
  qed
  have "yields a es (bindM (parseredirs (es + 1) a es execcmd) (parseargs (es + 1) a es 0)) j (wraps (EXEC ws) rs) ts"
    if j: "lexat a es j (map Word ws @ redirs_toks rs @ ts)" for j
  proof (rule yields_bind)
    show "yields a es (parseredirs (es + 1) a es execcmd) j (wraps (map_cmd (span_text a) execcmd) rs1) (map Word ws @ redirs_toks rs2 @ ts)"
      using j unfolding sp(1) by (rule parseredirs_yields [OF assms(1) _ nr]) (use assms(2) sp(2) in auto)
    fix x k assume k: "j \<le> k" "lexat a es k (map Word ws @ redirs_toks rs2 @ ts)" "map_cmd (span_text a) x = wraps (map_cmd (span_text a) execcmd) rs1"
    have "yields a es (parseargs (es + 1) a es 0 x) k (wraps (EXEC ([] @ ws)) (rs1 @ rs2)) ts"
      by (rule parseargs_yields [OF assms(1) k(2)]) (use a(3) assms(2,3) sp(2) k(3) in \<open>auto simp: rs2_def execcmd_def\<close>)
    then show "yields a es (parseargs (es + 1) a es 0 x) k (wraps (EXEC ws) rs) ts" using sp(2) by simp
  qed
  then show "yields a es (parseexec n a es) i (wraps (EXEC ws) rs) ts"
    unfolding n parseexec.simps by (intro yields_peek [OF assms(1) lx]) (use first in \<open>auto simp: NUL_def\<close>)
qed

lemma exec_block:
  assumes "line_at a es" "\<forall>r \<in> set rs. redir_ok r" "reads_line a es b" "toks 3 b = Op CHR ''('' # toks 0 b @ [Op CHR '')'']"
  shows "reads_exec a es (wraps b rs)"
  unfolding reads_exec_def
proof (intro allI impI)
  fix i n ts assume a: "lexat a es i (toks 3 (wraps b rs) @ ts)" "4 * (es - i) + 1 < n" "ts = [] \<or> starts ''|)&;'' ts"
  obtain m where n: "n = Suc (Suc m)" using a(2) by (cases n; cases "n - 1") auto
  have "toks 3 (wraps b rs) = toks 3 b @ redirs_toks rs" by (induction rs rule: rev_induct) (auto simp: wraps_def)
  then have lx: "lexat a es i (Op CHR ''('' # toks 0 b @ Op CHR '')'' # redirs_toks rs @ ts)" using a(1) assms(4) by simp
  have close: "yields a es (bindM (gettoken a es) (\<lambda>_. parseredirs (es + 1) a es x)) j (wraps b rs) ts"
    if "lexat a es j (Op CHR '')'' # redirs_toks rs @ ts)" "map_cmd (span_text a) x = b" for j x
    by (rule yields_token [OF assms(1) that(1)])
      (use that(2) parseredirs_yields [OF assms(1) _ starts_not [OF a(3), of "''<>''"] assms(2)] in auto)
  have "yields a es (bindM (gettoken a es) (\<lambda>_. bindM (parseline m a es) (\<lambda>c.
          bindM (peek a es '')'') (\<lambda>clo.
          if \<not> clo then panic ''syntax - missing )''
          else bindM (gettoken a es) (\<lambda>_. parseredirs (es + 1) a es c))))) j (wraps b rs) ts"
    if "i \<le> j" "lexat a es j (Op CHR ''('' # toks 0 b @ Op CHR '')'' # redirs_toks rs @ ts)" for j
  proof (rule yields_token [OF assms(1) that(2)])
    fix w k assume k: "j < k" "lexat a es k (toks 0 b @ Op CHR '')'' # redirs_toks rs @ ts)"
    have yl: "yields a es (parseline m a es) k b (Op CHR '')'' # redirs_toks rs @ ts)"
      using assms(3) k a(2) that(1) n lexat_le [OF k(2)] unfolding reads_line_def by simp
    show "yields a es (bindM (parseline m a es) (\<lambda>c. bindM (peek a es '')'') (\<lambda>clo.
          if \<not> clo then panic ''syntax - missing )''
          else bindM (gettoken a es) (\<lambda>_. parseredirs (es + 1) a es c)))) k (wraps b rs) ts"
      by (rule yields_bind [OF yl], rule yields_peek [OF assms(1)], assumption) (use close in \<open>simp_all add: NUL_def\<close>)
  qed
  then show "yields a es (parseexec n a es) i (wraps b rs) ts"
    unfolding n parseexec.simps parseblock.simps
    by (auto intro!: yields_peek [OF assms(1)] lx simp: NUL_def)
qed

lemma readsD:
  "reads_line a es c \<Longrightarrow> lexat a es i (toks 0 c @ ts) \<Longrightarrow> 4 * (es - i) + 3 < n \<Longrightarrow> ts = [] \<or> starts '')'' ts \<Longrightarrow> yields a es (parseline n a es) i c ts"
  "reads_pipe a es c \<Longrightarrow> lexat a es i (toks 2 c @ ts) \<Longrightarrow> 4 * (es - i) + 2 < n \<Longrightarrow> ts = [] \<or> starts '')&;'' ts \<Longrightarrow> yields a es (parsepipe n a es) i c ts"
  "reads_exec a es c \<Longrightarrow> lexat a es i (toks 3 c @ ts) \<Longrightarrow> 4 * (es - i) + 1 < n \<Longrightarrow> ts = [] \<or> starts ''|)&;'' ts \<Longrightarrow> yields a es (parseexec n a es) i c ts"
  unfolding reads_line_def reads_pipe_def reads_exec_def by blast+

lemma reads_pipeI:
  assumes "line_at a es" "reads_exec a es c" "toks 2 c = toks 3 c"
  shows "reads_pipe a es c"
  unfolding reads_pipe_def
proof (intro allI impI)
  fix i n ts assume a: "lexat a es i (toks 2 c @ ts)" "4 * (es - i) + 2 < n" "ts = [] \<or> starts '')&;'' ts"
  obtain m where n: "n = Suc m" using a(2) by (cases n) auto
  have y: "yields a es (parseexec m a es) i c ts"
    by (rule readsD(3) [OF assms(2)]) (use assms(3) a n starts_mono [of "'')&;''" ts "''|)&;''"] in auto)
  show "yields a es (parsepipe n a es) i c ts" unfolding n parsepipe.simps
    by (rule yields_bind [OF y], rule yields_peek [OF assms(1)], assumption)
      (use starts_not [OF a(3), of "''|''"] in \<open>auto simp: NUL_def intro: yields_ret\<close>)
qed

lemma reads_pipe_PIPE:
  assumes "line_at a es" "reads_exec a es l" "reads_pipe a es r"
  shows "reads_pipe a es (PIPE l r)"
  unfolding reads_pipe_def
proof (intro allI impI)
  fix i n ts assume a: "lexat a es i (toks 2 (PIPE l r) @ ts)" "4 * (es - i) + 2 < n" "ts = [] \<or> starts '')&;'' ts"
  obtain m where n: "n = Suc m" using a(2) by (cases n) auto
  have y: "yields a es (parseexec m a es) i l (Op CHR ''|'' # toks 2 r @ ts)"
    by (rule readsD(3) [OF assms(2)]) (use a(1,2) n in \<open>auto simp: paren_def\<close>)
  have z: "yields a es (bindM (gettoken a es) (\<lambda>_. bindM (parsepipe m a es) (\<lambda>r. ret (pipecmd x r)))) j (PIPE l r) ts"
    if "i \<le> j" "lexat a es j (Op CHR ''|'' # toks 2 r @ ts)" "map_cmd (span_text a) x = l" for x j
  proof (rule yields_token [OF assms(1) that(2)])
    fix w k assume k: "j < k" "lexat a es k (toks 2 r @ ts)"
    have "yields a es (parsepipe m a es) k r ts"
      by (rule readsD(2) [OF assms(3) k(2) _ a(3)]) (use k(1) a(2) n that(1) lexat_le [OF k(2)] in simp)
    then show "yields a es (bindM (parsepipe m a es) (\<lambda>r. ret (pipecmd x r))) k (PIPE l r) ts"
      by (rule yields_bind) (use that(3) in \<open>auto simp: pipecmd_def intro: yields_ret\<close>)
  qed
  show "yields a es (parsepipe n a es) i (PIPE l r) ts" unfolding n parsepipe.simps
    by (rule yields_bind [OF y], rule yields_peek [OF assms(1)], assumption) (use z in \<open>simp_all add: NUL_def\<close>)
qed

fun back_count :: "'w cmd \<Rightarrow> nat" where
  "back_count (BACK c) = Suc (back_count c)"
| "back_count c = 0"

fun back_body :: "'w cmd \<Rightarrow> 'w cmd" where
  "back_body (BACK c) = back_body c"
| "back_body c = c"

lemma back_split: "(BACK ^^ back_count c) (back_body c) = c"
  by (induction c) auto

lemma toks_back: "toks 1 c = toks 2 (back_body c) @ replicate (back_count c) (Op CHR ''&'')"
  by (induction c) (simp_all add: paren_def replicate_append_same)

lemma size_back_body: "size (back_body c) \<le> size c"
  by (induction c) auto

lemma reads_line_back:
  assumes "line_at a es" "reads_pipe a es (back_body c)" "toks 0 c = toks 1 c"
  shows "reads_line a es c"
  unfolding reads_line_def
proof (intro allI impI)
  fix i n ts assume a: "lexat a es i (toks 0 c @ ts)" "4 * (es - i) + 3 < n" "ts = [] \<or> starts '')'' ts"
  obtain m where n: "n = Suc m" using a(2) by (cases n) auto
  let ?k = "back_count c"
  have "lexat a es i (toks 2 (back_body c) @ replicate ?k (Op CHR ''&'') @ ts)" using a(1) assms(3) toks_back [of c] by simp
  moreover have "replicate ?k (Op CHR ''&'') @ ts = [] \<or> starts '')&;'' (replicate ?k (Op CHR ''&'') @ ts)"
    using a(3) starts_mono [of "'')''" ts "'')&;''"] by (cases ?k) auto
  ultimately have y: "yields a es (parsepipe m a es) i (back_body c) (replicate ?k (Op CHR ''&'') @ ts)"
    using a(2) n by (intro readsD(2) [OF assms(2)]) simp_all
  have ns: "\<not> starts ''&'' ts" "\<not> starts '';'' ts" using starts_not [OF a(3)] by auto
  show "yields a es (parseline n a es) i c ts" unfolding n
    using parseline_yields(1) [OF assms(1) y ns] back_split [of c] by simp
qed

lemma reads_line_LIST:
  assumes "line_at a es" "reads_pipe a es (back_body l)" "reads_line a es r"
  shows "reads_line a es (LIST l r)"
  unfolding reads_line_def
proof (intro allI impI)
  fix i n ts assume a: "lexat a es i (toks 0 (LIST l r) @ ts)" "4 * (es - i) + 3 < n" "ts = [] \<or> starts '')'' ts"
  obtain m where n: "n = Suc m" using a(2) by (cases n) auto
  let ?k = "back_count l" and ?us = "Op CHR '';'' # toks 0 r @ ts"
  have "lexat a es i (toks 2 (back_body l) @ replicate ?k (Op CHR ''&'') @ ?us)" using a(1) toks_back [of l] by (simp add: paren_def)
  moreover have "starts '')&;'' (replicate ?k (Op CHR ''&'') @ ?us)" by (cases ?k) auto
  ultimately have y: "yields a es (parsepipe m a es) i (back_body l) (replicate ?k (Op CHR ''&'') @ ?us)"
    using a(2) n by (intro readsD(2) [OF assms(2)]) simp_all
  have r: "yields a es (parseline m a es) j r ts" if j: "i < j" "lexat a es j (toks 0 r @ ts)" for j
    by (rule readsD(1) [OF assms(3) j(2) _ a(3)]) (use j(1) a(2) n lexat_le [OF j(2)] in simp)
  show "yields a es (parseline n a es) i (LIST l r) ts" unfolding n
    using parseline_yields(2) [OF assms(1) y _ refl r] back_split [of l] by simp
qed

fun redirs :: "string cmd \<Rightarrow> redir list" where
  "redirs (REDIR c f m d) = redirs c @ [(f, m, d)]"
| "redirs c = []"

fun redir_body :: "'w cmd \<Rightarrow> 'w cmd" where
  "redir_body (REDIR c f m d) = redir_body c"
| "redir_body c = c"

lemma redir_split: "wraps (redir_body c) (redirs c) = c" "size (redir_body c) \<le> size c"
  "cmd_wf c \<Longrightarrow> cmd_wf (redir_body c) \<and> (\<forall>r \<in> set (redirs c). redir_ok r)"
  by (induction c) (auto simp: redir_ok_def)

fun compound :: "'w cmd \<Rightarrow> bool" where
  "compound (EXEC ws) = False"
| "compound (REDIR c f m d) = False"
| "compound c = True"

lemma toks_compound: "compound b \<Longrightarrow> toks 3 b = Op CHR ''('' # toks 0 b @ [Op CHR '')'']"
  by (cases b) (simp_all add: paren_def)

lemma redir_body_not: "redir_body c \<noteq> REDIR d f m k"
  by (induction c) auto

lemma redir_body_size: "size (redir_body c) = size c \<Longrightarrow> redir_body c = (c :: string cmd)"
proof (cases c)
  case (REDIR d f m k)
  assume "size (redir_body c) = size c"
  then show ?thesis using redir_split(2) [of d] REDIR by simp
qed simp_all

lemma cmd_wf_back: "cmd_wf (back_body c) = cmd_wf c"
  by (induction c) auto

lemma reads_cmd:
  assumes "line_at a es"
  shows "cmd_wf c \<Longrightarrow> reads_line a es c \<and> reads_pipe a es c \<and> reads_exec a es c"
proof (induction "size c" arbitrary: c rule: less_induct)
  case less
  have IH: "reads_line a es d \<and> reads_pipe a es d \<and> reads_exec a es d" if "size d < size c" "cmd_wf d" for d
    using less.hyps that by blast
  have line: "reads_line a es c" if "compound c"
  proof -
    from that consider l r where "c = PIPE l r" | l r where "c = LIST l r" | l where "c = BACK l" by (cases c) auto
    then show ?thesis
    proof cases
      case 1
      then have "reads_pipe a es c" using IH [of l] IH [of r] less.prems by (auto intro!: reads_pipe_PIPE assms)
      then show ?thesis using 1 by (intro reads_line_back assms) (auto simp: paren_def)
    next
      case 2
      then show ?thesis using IH [of "back_body l"] IH [of r] less.prems size_back_body [of l]
        by (auto intro!: reads_line_LIST assms simp: cmd_wf_back less_Suc_eq_le le_SucI)
    next
      case 3
      then show ?thesis using IH [of "back_body l"] less.prems size_back_body [of l]
        by (intro reads_line_back assms) (auto simp: cmd_wf_back paren_def less_Suc_eq_le)
    qed
  qed
  have ex: "reads_exec a es c"
  proof -
    let ?b = "redir_body c"
    note s = redir_split [of c]
    have "reads_exec a es (wraps ?b (redirs c))"
    proof (cases "compound ?b")
      case True
      then have "reads_line a es ?b" using line IH [of ?b] s less.prems redir_body_size [of c] by (cases "size ?b < size c") auto
      then show ?thesis using True s(3) [OF less.prems] by (intro exec_block assms toks_compound) auto
    next
      case False
      then obtain ws where "?b = EXEC ws" using redir_body_not [of c] by (cases ?b) auto
      then show ?thesis using s(3) [OF less.prems] by (auto intro: exec_simple assms)
    qed
    then show ?thesis using s(1) by simp
  qed
  have "reads_pipe a es c"
  proof (cases "\<exists>l r. c = PIPE l r")
    case True
    then show ?thesis using IH less.prems by (auto intro!: reads_pipe_PIPE assms)
  next
    case False
    show ?thesis by (rule reads_pipeI [OF assms ex]) (use False in \<open>cases c; simp add: paren_def\<close>)
  qed
  moreover have "reads_line a es c" if "\<not> compound c"
    using calculation that by (intro reads_line_back assms) (cases c; simp)+
  ultimately show ?case using line ex by blast
qed

section \<open>Terminated words\<close>

text \<open>The C string at a pointer into the line.\<close>

definition cstring_at :: "string \<Rightarrow> span \<Rightarrow> string" where
  "cstring_at b w = takeWhile (\<lambda>c. c \<noteq> NUL) (drop (fst w) b)"

lemma fold_term:
  "length (fold (\<lambda>w a. a[snd w := NUL]) ws a) = length a"
  "k < length a \<Longrightarrow> fold (\<lambda>w a. a[snd w := NUL]) ws a ! k = (if k \<in> snd ` set ws then NUL else a ! k)"
  by (induction ws arbitrary: a) (auto simp: nth_list_update)

lemma nulterminate_spec:
  "length (nulterminate c a) = length a"
  "k < length a \<Longrightarrow> nulterminate c a ! k = (if k \<in> snd ` set_cmd c then NUL else a ! k)"
proof (induction c arbitrary: a)
  case (EXEC ws)
  { case 1 show ?case by (simp add: fold_term)
  next case 2 then show ?case by (simp add: fold_term) }
next
  case (REDIR c f m d)
  { case 1 show ?case using REDIR(1) by simp
  next case 2 then show ?case using REDIR by (cases "snd f = k") simp_all }
qed (simp_all add: nth_list_update image_Un)

lemma nulterminate_words:
  assumes "line_at a es" "\<forall>w \<in> set_cmd c. word_span a es w" "w \<in> set_cmd c"
  shows "cstring_at (nulterminate c a) w = span_text a w"
proof -
  obtain q e where w: "w = (q, e)" by (cases w)
  let ?b = "nulterminate c a"
  have s: "q < e" "e \<le> es" "\<And>k. q \<le> k \<Longrightarrow> k < e \<Longrightarrow> is_word (a ! k)" "es < length a"
    using assms by (auto simp: word_span_def w line_at_def)
  have ne: "a ! k \<noteq> NUL" if "k < es" for k using assms(1) that by (simp add: line_at_def)
  have inside: "k \<notin> snd ` set_cmd c" if "q \<le> k" "k < e" for k
  proof
    assume "k \<in> snd ` set_cmd c"
    then obtain v where v: "v \<in> set_cmd c" "k = snd v" by auto
    then have "k = es \<or> \<not> is_word (a ! k)" using assms(2) by (auto simp: word_span_def)
    then show False using s that by auto
  qed
  have eq: "?b ! (q + k) = a ! (q + k)" if "k < e - q" for k
    using nulterminate_spec(2) [of "q + k" a c] inside [of "q + k"] that s(2,4) by simp
  have "takeWhile (\<lambda>c. c \<noteq> NUL) (drop q ?b) = take (e - q) (drop q ?b)"
  proof (rule takeWhile_eq_take_P_nth)
    fix k assume k: "k < e - q" "k < length (drop q ?b)"
    then show "drop q ?b ! k \<noteq> NUL" using eq [OF k(1)] ne [of "q + k"] s(2) by (simp add: nulterminate_spec(1))
  next
    assume "e - q < length (drop q ?b)"
    moreover have "?b ! e = NUL" using nulterminate_spec(2) [of e a c] assms(3) s(2,4) w by force
    ultimately show "\<not> drop q ?b ! (e - q) \<noteq> NUL" using s(1) by (simp add: nulterminate_spec(1))
  qed
  also have "\<dots> = take (e - q) (drop q a)"
    by (rule nth_equalityI) (use eq s in \<open>auto simp: nulterminate_spec(1)\<close>)
  finally show ?thesis by (simp add: cstring_at_def span_text_def w)
qed

lemma parsecmd_reads:
  assumes "cmd_wf c" "lexes s (toks 0 c)"
  shows "\<exists>r b. parsecmd (s @ NUL # z) = Ok r b \<and> map_cmd (cstring_at b) r = c"
proof -
  let ?a = "s @ NUL # z" and ?es = "length s"
  have nn: "NUL \<notin> set s" by (rule lexes_no_NUL [OF assms(2)])
  then have "takeWhile (\<lambda>c. c \<noteq> NUL) ?a = s" by (subst takeWhile_append2) auto
  then have es: "ustrlen ?a = ?es" by (simp add: ustrlen_def)
  have l: "line_at ?a ?es" using line_at_ustrlen [of ?a] es by simp
  have lx: "lexat ?a ?es 0 (toks 0 c @ [])" using assms(2) by (simp add: lexat_def rest_def)
  have "yields ?a ?es (parseline (4 * (?es + 1)) ?a ?es) 0 c []"
    by (rule readsD(1) [OF _ lx]) (use reads_cmd [OF l assms(1)] in auto)
  then obtain r j where r: "parseline (4 * (?es + 1)) ?a ?es 0 = Ok r j" "map_cmd (span_text ?a) r = c" "lexat ?a ?es j []"
    by (auto simp: yields_def)
  have p: "peek ?a ?es [] j = Ok False ?es" using lexat_Nil [OF l r(3)] by (simp add: peek_def)
  have "runs ?es (\<lambda>c j. sh_cmd ?a ?es c) (parseline (4 * (?es + 1)) ?a ?es) 0" by (rule parsers_run(1) [OF l]) simp_all
  then have "\<forall>w \<in> set_cmd r. word_span ?a ?es w" using r(1) by (simp add: runs_def sh_cmd_def)
  then have "map_cmd (cstring_at (nulterminate r ?a)) r = c"
    using nulterminate_words [OF l] r(2) cmd.map_cong0 [of r "cstring_at (nulterminate r ?a)" "span_text ?a"] by auto
  moreover have "parsecmd ?a = Ok r (nulterminate r ?a)" using r(1) p es by (simp add: parsecmd_def Let_def bindM_def ret_def)
  ultimately show ?thesis by blast
qed

text \<open>
  C10: the parser inverts printing. Take any command with fewer than \<open>MAXARGS\<close> arguments and the two kinds of
  redirection, and any line made of the tokens it is written with, followed in its buffer by a zero byte and anything, with whatever white space between them
  (none where tokens do not run together). \<open>parsecmd\<close> returns that command: the same tree of pipes, lists, background
  commands and redirections, so \<open>|\<close> binds tighter than \<open>&\<close>, \<open>&\<close> tighter than \<open>;\<close>, and parentheses group; and every
  pointer in it leads, in the line after \<open>nulterminate\<close>, to the zero-terminated word the command has there.
\<close>

theorem parsecmd_inverts_print:
  assumes "cmd_wf c" "lexes s (toks 0 c)"
  shows "\<exists>r b. parsecmd (s @ NUL # z) = Ok r b \<and> map_cmd (cstring_at b) r = c"
  by (rule parsecmd_reads [OF assms])

text \<open>An example: a background pipeline, then a redirected group.\<close>

definition demo_cmd :: "string cmd" where
  "demo_cmd = LIST (BACK (PIPE (REDIR (EXEC [''cat'']) ''in'' O_RDONLY 0) (EXEC [''grep'', ''x''])))
     (REDIR (LIST (EXEC [''ls'']) (EXEC [''wc''])) ''out'' (O_WRONLY OR O_CREATE) 1)"

lemma demo_cmd_printed: "lexes (print_cmd demo_cmd) (toks 0 demo_cmd)"
proof -
  have "\<forall>w \<in> set_cmd demo_cmd. word_ok w"
    by (simp add: demo_cmd_def word_ok_def is_word_iff symbols_def whitespace_def NUL_def)
  moreover have "cmd_wf demo_cmd" by (simp add: demo_cmd_def MAXARGS_def)
  ultimately show ?thesis unfolding print_cmd_def using toks_ok by (intro print_lexes) blast
qed

theorem parsecmd_inverts_print_witness:
  "print_cmd demo_cmd = ''cat < in | grep x & ; ( ls ; wc ) > out '' \<and>
   (\<exists>r b. parsecmd (print_cmd demo_cmd @ [NUL]) = Ok r b \<and> map_cmd (cstring_at b) r = demo_cmd)"
proof
  show "print_cmd demo_cmd = ''cat < in | grep x & ; ( ls ; wc ) > out ''"
    by (simp add: print_cmd_def demo_cmd_def paren_def redir_toks_def)
  show "\<exists>r b. parsecmd (print_cmd demo_cmd @ [NUL]) = Ok r b \<and> map_cmd (cstring_at b) r = demo_cmd"
    using parsecmd_inverts_print [OF _ demo_cmd_printed, of "[]"] by (simp add: demo_cmd_def MAXARGS_def)
qed

theorem parsecmd_well_typed_witness:
  "parsecmd (''a >b'' @ [NUL]) = Ok (REDIR (EXEC [(0, 1)]) (3, 4) (O_WRONLY OR O_CREATE) 1) [CHR ''a'', NUL, CHR ''>'', CHR ''b'', NUL] \<and>
   cmd_wf (REDIR (EXEC [(0, 1)]) (3, 4) (O_WRONLY OR O_CREATE) 1 :: span cmd) \<and> word_span ''a >b'' 4 (3, 4)"
proof -
  have "parsecmd (''a >b'' @ [NUL]) = Ok (REDIR (EXEC [(0, 1)]) (3, 4) (O_WRONLY OR O_CREATE) 1) [CHR ''a'', NUL, CHR ''>'', CHR ''b'', NUL]"
    by code_simp
  then show ?thesis using parsecmd_well_typed [of "''a >b'' @ [NUL]"] by (auto simp: word_span_def)
qed

end
