(* ===== verification/Shellrun.thy ===== *)
theory Shellrun
  imports Shell
begin

text \<open>
  The rest of the shell, \<^verbatim>\<open>sh.c\<close>: \<open>runcmd\<close>, \<open>getcmd\<close> (with \<open>gets\<close> of \<^verbatim>\<open>ulib.c\<close>), \<open>fork1\<close>, \<open>panic\<close> and \<open>main\<close>, as the tree of the system
  calls the shell and its children make. The input of the shell is given; its children do not read from it.
  Shown is that for every command typed the right programs are started with the right descriptors.
\<close>

unbundle bit_operations_syntax

lemma length_filter_upd:
  assumes "i < length xs" "P (xs ! i)" "\<not> P y"
  shows "Suc (length (filter P (xs[i := y]))) = length (filter P xs)"
proof -
  have "filter P xs = filter P (take i xs) @ xs ! i # filter P (drop (Suc i) xs)"
    using id_take_nth_drop [OF assms(1)] assms(2) by (metis filter.simps(2) filter_append)
  moreover have "filter P (xs[i := y]) = filter P (take i xs) @ filter P (drop (Suc i) xs)"
    using assms(1,3) by (simp add: upd_conv_take_nth_drop)
  ultimately show ?thesis by simp
qed

section \<open>Descriptors\<close>

text \<open>
  What the shell relies on in the kernel's descriptor tables: a new descriptor is the lowest one that is free.
\<close>

locale lowest_first =
  fixes alloc :: "'o option list \<Rightarrow> nat option"
  assumes alloc_Some: "alloc t = Some e \<Longrightarrow> e < length t \<and> t ! e = None \<and> (\<forall>j < e. t ! j \<noteq> None)"
    and alloc_None: "alloc t = None \<Longrightarrow> None \<notin> set t"
begin

lemma alloc_eq: "e < length t \<Longrightarrow> t ! e = None \<Longrightarrow> \<forall>j < e. t ! j \<noteq> None \<Longrightarrow> alloc t = Some e"
proof -
  assume e: "e < length t" "t ! e = None" "\<forall>j < e. t ! j \<noteq> None"
  then have "None \<in> set t" by (metis nth_mem)
  then obtain d where "alloc t = Some d" using alloc_None by (cases "alloc t") auto
  then show ?thesis using alloc_Some [of t d] e by (metis linorder_neqE_nat)
qed

text \<open>Closing a descriptor below which all are in use makes it the next one.\<close>

lemma reopen: "d < length t \<Longrightarrow> \<forall>j < d. t ! j \<noteq> None \<Longrightarrow> alloc (t[d := None]) = Some d"
  by (rule alloc_eq) auto

text \<open>Two descriptors in a row are different, and closing them again restores the table.\<close>

lemma two_fresh:
  assumes "2 \<le> length (filter (\<lambda>x. x = None) t)"
  obtains p q where "alloc t = Some p" "alloc (t[p := Some x]) = Some q" "p < length t" "q < length t" "p \<noteq> q" "t ! p = None" "t ! q = None"
proof -
  from assms have "filter (\<lambda>x. x = None) t \<noteq> []" by auto
  then have "None \<in> set t" by (auto simp: filter_empty_conv)
  then obtain p where p: "alloc t = Some p" using alloc_None by (cases "alloc t") auto
  note pD = alloc_Some [OF p]
  have "length (filter (\<lambda>x. x = None) (t[p := Some x])) = length (filter (\<lambda>x. x = None) t) - 1"
    using pD length_filter_upd [of p t "\<lambda>x. x = None" "Some x"] by simp
  then have "filter (\<lambda>x. x = None) (t[p := Some x]) \<noteq> []" using assms by auto
  then have "None \<in> set (t[p := Some x])" by (auto simp: filter_empty_conv)
  then obtain q where q: "alloc (t[p := Some x]) = Some q" using alloc_None by (cases "alloc (t[p := Some x])") auto
  note qD = alloc_Some [OF q]
  then have "q \<noteq> p" using pD by auto
  then show thesis using that p q pD qD by simp
qed

end

definition free_slot :: "'o option list \<Rightarrow> nat option" where
  "free_slot t = first_idx (\<lambda>x. x = None) t"

interpretation slots: lowest_first free_slot
proof
  show "free_slot t = Some e \<Longrightarrow> e < length t \<and> t ! e = None \<and> (\<forall>j < e. t ! j \<noteq> None)" for t :: "'a option list" and e
    using first_idx_SomeD [of "\<lambda>x. x = None" t e] by (simp add: free_slot_def)
  show "free_slot t = None \<Longrightarrow> None \<notin> set t" for t :: "'a option list"
    by (auto simp: free_slot_def first_idx_None_iff)
qed

text \<open>The kernel's \<open>fdalloc\<close> takes that slot of the process's table.\<close>

lemma fdalloc_free_slot:
  "fdalloc f =
     bindM curproc (\<lambda>p.
     bindM (getS (\<lambda>s. free_slot (p_ofile (ptable s ! p)))) (\<lambda>r.
     case r of
       None \<Rightarrow> ret None
     | Some fd \<Rightarrow> seqM (modS (upd_proc p (\<lambda>q. q\<lparr>p_ofile := (p_ofile q)[fd := Some f]\<rparr>))) (ret (Some fd))))"
  by (simp add: fdalloc_def free_slot_def)

section \<open>System calls of the shell\<close>

text \<open>
  The code of a process as the tree of the system calls it makes, each followed by what it does with the result. \<open>Exec\<close> is
  followed by what happens when \<open>exec\<close> fails, \<open>Fork\<close> by the child, the parent, and the parent when \<open>fork\<close> fails,
  \<open>Pipe\<close> by the continuation with both descriptors and the one for failure.
\<close>

datatype act =
    Exit
  | Exec string "string list" act
  | Close nat act
  | Dup nat act
  | Open string u32 "int \<Rightarrow> act"
  | Pipe "nat \<Rightarrow> nat \<Rightarrow> act" act
  | Fork act act act
  | Await act
  | Chdir string "int \<Rightarrow> act"
  | Print string act
  | OutOfFuel

definition sh_panic :: "string \<Rightarrow> act" where
  "sh_panic s = Print (s @ [CHR 0x0A]) Exit"

definition fork1 :: "act \<Rightarrow> act \<Rightarrow> act" where
  "fork1 child parent = Fork child parent (sh_panic ''fork'')"

text \<open>A command with its words as the strings the pointers lead to.\<close>

fun runcmd :: "string cmd \<Rightarrow> act" where
  "runcmd (EXEC ws) =
     (case ws of
        [] \<Rightarrow> Exit
      | w # _ \<Rightarrow> Exec w ws (Print (''exec '' @ w @ '' failed'' @ [CHR 0x0A]) Exit))"
| "runcmd (REDIR c f mode fd) =
     Close fd (Open f mode (\<lambda>r.
       if r < 0 then Print (''open '' @ f @ '' failed'' @ [CHR 0x0A]) Exit
       else runcmd c))"
| "runcmd (LIST l r) = fork1 (runcmd l) (Await (runcmd r))"
| "runcmd (PIPE l r) =
     Pipe (\<lambda>p0 p1.
       fork1 (Close 1 (Dup p1 (Close p0 (Close p1 (runcmd l)))))
      (fork1 (Close 0 (Dup p0 (Close p0 (Close p1 (runcmd r)))))
      (Close p0 (Close p1 (Await (Await Exit))))))
     (sh_panic ''pipe'')"
| "runcmd (BACK c) = fork1 (runcmd c) Exit"

text \<open>
  \<open>gets\<close> and \<open>getcmd\<close> on the input that is still to be read; a line stands at the beginning of a buffer of \<open>nbuf\<close> bytes that was
  cleared first. \<open>gets\<close> returns the bytes it stored and the input left.
\<close>

fun gets_loop :: "nat \<Rightarrow> nat \<Rightarrow> string \<Rightarrow> string \<times> string" where
  "gets_loop i m input =
     (if i + 1 < m then
        (case input of
           [] \<Rightarrow> ([], [])
         | c # cs \<Rightarrow>
             (if c = CHR 0x0A \<or> c = CHR 0x0D then ([c], cs)
              else (let (l, r) = gets_loop (i + 1) m cs in (c # l, r))))
      else ([], input))"

declare gets_loop.simps [simp del]

definition getcmd :: "nat \<Rightarrow> string \<Rightarrow> (string \<times> string) option" where
  "getcmd nbuf input =
     (let (l, r) = gets_loop 0 nbuf input; buf = l @ replicate (nbuf - length l) NUL
      in if at buf 0 = NUL then None else Some (buf, r))"

text \<open>\<open>main\<close>: the console on descriptors 0, 1 and 2, then one command per line.\<close>

fun open_console :: "nat \<Rightarrow> act \<Rightarrow> act" where
  "open_console 0 k = OutOfFuel"
| "open_console (Suc n) k =
     Open ''console'' O_RDWR (\<lambda>fd.
       if fd < 0 then k
       else if fd \<ge> 3 then Close (nat fd) k
       else open_console n k)"

definition run_line :: "string \<Rightarrow> act" where
  "run_line buf =
     (case parsecmd buf of
        Ok r b \<Rightarrow> runcmd (map_cmd (cstring_at b) r)
      | Panic e \<Rightarrow> sh_panic e
      | _ \<Rightarrow> OutOfFuel)"

fun command_loop :: "nat \<Rightarrow> string \<Rightarrow> act" where
  "command_loop 0 input = OutOfFuel"
| "command_loop (Suc n) input =
     Print ''$ '' (
     case getcmd 100 input of
       None \<Rightarrow> Exit
     | Some (buf, inp) \<Rightarrow>
         if at buf 0 = CHR ''c'' \<and> at buf 1 = CHR ''d'' \<and> at buf 2 = CHR '' '' then
           (let dir = takeWhile (\<lambda>c. c \<noteq> NUL) (drop 3 (buf[ustrlen buf - 1 := NUL]))
            in Chdir dir (\<lambda>r.
               if r < 0 then Print (''cannot cd '' @ dir @ [CHR 0x0A]) (command_loop n inp)
               else command_loop n inp))
         else fork1 (run_line buf) (Await (command_loop n inp)))"

definition sh_main :: "string \<Rightarrow> act" where
  "sh_main input = open_console NOFILE (command_loop (length input + 1) input)"

section \<open>What gets executed\<close>

text \<open>
  The descriptor tables of the processes while they run such a tree: \<open>execs\<close> lists every program that is executed with the table it starts
  with, and the next free pipe. Processes do not share tables, so the order in which they run does not matter. \<open>can f m\<close> says
  whether a file can be opened; calls fail when no descriptor is free and otherwise succeed.
\<close>

datatype obj = Device nat | Named string u32 | PipeR nat | PipeW nat

type_synonym table = "obj option list"

primrec execs :: "(string \<Rightarrow> u32 \<Rightarrow> bool) \<Rightarrow> act \<Rightarrow> table \<Rightarrow> nat \<Rightarrow> (string list \<times> table) list \<times> nat" where
  "execs can Exit t n = ([], n)"
| "execs can (Exec w ws k) t n = ([(ws, t)], n)"
| "execs can (Close d k) t n = execs can k (t[d := None]) n"
| "execs can (Dup d k) t n =
     (case free_slot t of
        None \<Rightarrow> execs can k t n
      | Some e \<Rightarrow> execs can k (t[e := t ! d]) n)"
| "execs can (Open f m k) t n =
     (case free_slot t of
        None \<Rightarrow> execs can (k (- 1)) t n
      | Some e \<Rightarrow> if can f m then execs can (k (int e)) (t[e := Some (Named f m)]) n else execs can (k (- 1)) t n)"
| "execs can (Pipe k kf) t n =
     (case free_slot t of
        None \<Rightarrow> execs can kf t n
      | Some p \<Rightarrow>
          (case free_slot (t[p := Some (PipeR n)]) of
             None \<Rightarrow> execs can kf t n
           | Some q \<Rightarrow> execs can (k p q) (t[p := Some (PipeR n), q := Some (PipeW n)]) (n + 1)))"
| "execs can (Fork c p f) t n =
     (let (xs, n1) = execs can c t n; (ys, n2) = execs can p t n1 in (xs @ ys, n2))"
| "execs can (Await k) t n = execs can k t n"
| "execs can (Chdir d k) t n = execs can (k 0) t n"
| "execs can (Print s k) t n = execs can k t n"
| "execs can OutOfFuel t n = ([], n)"

text \<open>What a command is meant to run: every program with the descriptors it should have.\<close>

fun plan :: "string cmd \<Rightarrow> table \<Rightarrow> nat \<Rightarrow> (string list \<times> table) list \<times> nat" where
  "plan (EXEC ws) t n = (if ws = [] then [] else [(ws, t)], n)"
| "plan (REDIR c f m d) t n = plan c (t[d := Some (Named f m)]) n"
| "plan (LIST l r) t n = (let (xs, n1) = plan l t n; (ys, n2) = plan r t n1 in (xs @ ys, n2))"
| "plan (PIPE l r) t n =
     (let (xs, n1) = plan l (t[1 := Some (PipeW n)]) (n + 1); (ys, n2) = plan r (t[0 := Some (PipeR n)]) n1
      in (xs @ ys, n2))"
| "plan (BACK c) t n = plan c t n"

definition table_ready :: "table \<Rightarrow> bool" where
  "table_ready t \<longleftrightarrow> 2 < length t \<and> t ! 0 \<noteq> None \<and> t ! 1 \<noteq> None \<and> t ! 2 \<noteq> None \<and> 2 \<le> length (filter (\<lambda>x. x = None) t)"

section \<open>The shell runs what it should\<close>

lemma filter_upd_same: "i < length xs \<Longrightarrow> \<not> P (xs ! i) \<Longrightarrow> \<not> P y \<Longrightarrow> filter P (xs[i := y]) = filter P xs"
proof -
  assume a: "i < length xs" "\<not> P (xs ! i)" "\<not> P y"
  have "filter P xs = filter P (take i xs) @ filter P (drop (Suc i) xs)"
    using id_take_nth_drop [OF a(1)] a(2) by (metis filter.simps(2) filter_append)
  then show ?thesis using a(1,3) by (simp add: upd_conv_take_nth_drop)
qed

lemma ready_upd: "table_ready t \<Longrightarrow> d < 2 \<Longrightarrow> table_ready (t[d := Some x])"
proof -
  assume a: "table_ready t" "d < 2"
  then have "d < length t" "t ! d \<noteq> None" by (auto simp: table_ready_def less_2_cases_iff)
  then have "filter (\<lambda>x. x = None) (t[d := Some x]) = filter (\<lambda>x. x = None) t" by (intro filter_upd_same) auto
  then show ?thesis using a by (auto simp: table_ready_def nth_list_update)
qed

lemma free_slot_closed: "table_ready t \<Longrightarrow> d < 2 \<Longrightarrow> free_slot (t[d := None]) = Some d"
  by (rule slots.reopen) (auto simp: table_ready_def less_2_cases_iff)

text \<open>The descriptors of a pipe are above the ones in use.\<close>

lemma pipe_slots:
  assumes "table_ready t"
  obtains p q where "free_slot t = Some p" "free_slot (t[p := Some (PipeR n)]) = Some q" "p < length t" "q < length t" "p \<noteq> q"
    "t ! p = None" "t ! q = None" "2 < p" "2 < q"
proof -
  from assms obtain p q where p: "free_slot t = Some p" "free_slot (t[p := Some (PipeR n)]) = Some q" "p < length t" "q < length t" "p \<noteq> q"
    "t ! p = None" "t ! q = None" using slots.two_fresh [of t "PipeR n"] by (auto simp: table_ready_def)
  then have "p \<noteq> 0" "p \<noteq> 1" "p \<noteq> 2" "q \<noteq> 0" "q \<noteq> 1" "q \<noteq> 2" using assms unfolding table_ready_def by metis+
  then show thesis using that p by simp
qed

lemma pipe_ends:
  fixes x y :: obj
  assumes "table_ready t" "p < length t" "q < length t" "p \<noteq> q" "t ! p = None" "t ! q = None" "2 < p" "2 < q"
  defines "u \<equiv> t[p := Some x, q := Some y]"
  shows "free_slot (u[1 := None]) = Some 1" "u[1 := None, 1 := u[1 := None] ! q, p := None, q := None] = t[1 := Some y]"
    "free_slot (u[0 := None]) = Some 0" "u[0 := None, 0 := u[0 := None] ! p, p := None, q := None] = t[0 := Some x]"
proof -
  have u: "0 < length t" "1 < length t" "2 < length u" "u ! 0 \<noteq> None" "u ! 1 \<noteq> None" "length u = length t" using assms by (auto simp: table_ready_def u_def nth_list_update)
  show "free_slot (u[1 := None]) = Some 1" "free_slot (u[0 := None]) = Some 0" by (rule slots.reopen; use u in auto)+
  show "u[1 := None, 1 := u[1 := None] ! q, p := None, q := None] = t[1 := Some y]"
    "u[0 := None, 0 := u[0 := None] ! p, p := None, q := None] = t[0 := Some x]"
    by (rule nth_equalityI; use assms(2-8) u in \<open>auto simp: u_def nth_list_update\<close>)+
qed

fun opened :: "'w cmd \<Rightarrow> ('w \<times> u32) set" where
  "opened (EXEC ws) = {}"
| "opened (REDIR c f m d) = insert (f, m) (opened c)"
| "opened (PIPE l r) = opened l \<union> opened r"
| "opened (LIST l r) = opened l \<union> opened r"
| "opened (BACK c) = opened c"

lemma runcmd_execs:
  assumes "cmd_wf c" "table_ready t" "\<forall>(f, m) \<in> opened c. can f m"
  shows "execs can (runcmd c) t n = plan c t n"
  using assms
proof (induction c arbitrary: t n)
  case (EXEC ws)
  then show ?case by (cases ws) auto
next
  case (REDIR c f m d)
  then have d: "d < 2" by auto
  have "execs can (runcmd c) (t[d := Some (Named f m)]) n = plan c (t[d := Some (Named f m)]) n"
    using REDIR ready_upd [OF REDIR.prems(2) d] by simp
  then show ?case using free_slot_closed [OF REDIR.prems(2) d] REDIR.prems(3) by simp
next
  case (PIPE l r)
  obtain p q where p: "free_slot t = Some p" "free_slot (t[p := Some (PipeR n)]) = Some q" "p < length t" "q < length t" "p \<noteq> q"
    "t ! p = None" "t ! q = None" "2 < p" "2 < q" using pipe_slots [OF PIPE.prems(2)] by metis
  note e = pipe_ends [OF PIPE.prems(2) p(3-), of "PipeR n" "PipeW n"]
  have "execs can (runcmd l) (t[1 := Some (PipeW n)]) m = plan l (t[1 := Some (PipeW n)]) m" for m
    using PIPE ready_upd [OF PIPE.prems(2), of 1] by auto
  moreover have "execs can (runcmd r) (t[0 := Some (PipeR n)]) m = plan r (t[0 := Some (PipeR n)]) m" for m
    using PIPE ready_upd [OF PIPE.prems(2), of 0] by auto
  ultimately show ?case using e p(1,2) by (simp add: fork1_def Let_def split: prod.splits)
next
  case (LIST l r)
  then show ?case by (simp add: fork1_def Let_def split: prod.splits)
next
  case (BACK c)
  then show ?case by (simp add: fork1_def Let_def split: prod.splits)
qed

section \<open>From the line to the programs\<close>

definition newline :: char where "newline = CHR 0x0A"

lemma lexes_append_nl: "lexes s ts \<Longrightarrow> lexes (s @ [newline]) ts"
proof (induction rule: lexes.induct)
  case (lex_end w)
  then show ?case by (intro lexes.lex_end) (auto simp: newline_def is_white_iff whitespace_def)
next
  case (lex_tok w t r ts)
  have "apart t (r @ [newline])" using lex_tok(3) by (cases t; cases r) (auto simp: newline_def is_word_iff whitespace_def)
  then have "lexes (w @ tok_text t @ (r @ [newline])) (t # ts)" by (intro lexes.lex_tok lex_tok)
  then show ?case by simp
qed

lemma gets_loop_line:
  assumes "\<forall>c \<in> set s. c \<noteq> CHR 0x0A \<and> c \<noteq> CHR 0x0D" "i + length s + 1 < m"
  shows "gets_loop i m (s @ newline # inp) = (s @ [newline], inp)"
  using assms
proof (induction s arbitrary: i)
  case Nil
  then show ?case by (subst gets_loop.simps) (simp add: newline_def)
next
  case (Cons c s)
  then have "gets_loop (i + 1) m (s @ newline # inp) = (s @ [newline], inp)" by simp
  then show ?case using Cons.prems by (subst gets_loop.simps) simp
qed

text \<open>The commands the statement below is about: printed, they fit into the shell's buffer and are not its \<open>cd\<close>.\<close>

definition typed :: "string cmd \<Rightarrow> bool" where
  "typed c \<longleftrightarrow> cmd_wf c \<and> (\<forall>w \<in> set_cmd c. word_ok w) \<and> length (print_cmd c) + 1 < 100 \<and> take 3 (print_cmd c) \<noteq> ''cd ''"

lemma print_no_newline:
  assumes "typed c"
  shows "\<forall>x \<in> set (print_cmd c). x \<noteq> CHR 0x0A \<and> x \<noteq> CHR 0x0D"
proof -
  have "x \<noteq> CHR 0x0A \<and> x \<noteq> CHR 0x0D" if "tok_ok t" "x \<in> set (tok_text t)" for x t
    using that by (cases t) (auto simp: is_word_iff whitespace_def symbols_def)
  moreover have "tok_ok t" if "t \<in> set (toks 0 c)" for t using assms toks_ok that unfolding typed_def by blast
  ultimately show ?thesis unfolding print_cmd_def by auto
qed

lemma typed_lexes: "typed c \<Longrightarrow> lexes (print_cmd c) (toks 0 c)"
  unfolding typed_def print_cmd_def using toks_ok by (intro print_lexes) blast

lemma getcmd_line:
  assumes "typed c"
  obtains z where "getcmd 100 (print_cmd c @ newline # inp) = Some ((print_cmd c @ [newline]) @ NUL # z, inp)"
proof -
  let ?s = "print_cmd c @ [newline]"
  have len: "length ?s < 100" using assms by (simp add: typed_def)
  then obtain k where k: "100 - length ?s = Suc k" by (metis Suc_diff_Suc)
  have "gets_loop 0 100 (print_cmd c @ newline # inp) = (?s, inp)"
    using gets_loop_line [OF print_no_newline [OF assms], of 0 100] assms by (simp add: typed_def)
  moreover have "at (?s @ NUL # replicate k NUL) 0 \<noteq> NUL"
    using lexes_no_NUL [OF typed_lexes [OF assms]] by (cases "print_cmd c") (auto simp: at_def newline_def NUL_def)
  ultimately have "getcmd 100 (print_cmd c @ newline # inp) = Some (?s @ NUL # replicate k NUL, inp)"
    using k unfolding getcmd_def by (simp add: replicate_Suc [symmetric] del: replicate_Suc)
  then show thesis by (rule that)
qed

lemma not_cd:
  assumes "typed c"
  shows "\<not> (at ((print_cmd c @ [newline]) @ z) 0 = CHR ''c'' \<and> at ((print_cmd c @ [newline]) @ z) 1 = CHR ''d'' \<and> at ((print_cmd c @ [newline]) @ z) 2 = CHR '' '')"
proof
  assume a: "at ((print_cmd c @ [newline]) @ z) 0 = CHR ''c'' \<and> at ((print_cmd c @ [newline]) @ z) 1 = CHR ''d'' \<and> at ((print_cmd c @ [newline]) @ z) 2 = CHR '' ''"
  have n: "newline \<noteq> CHR ''c''" "newline \<noteq> CHR ''d''" "newline \<noteq> CHR '' ''" by (simp_all add: newline_def)
  obtain u v w s where "print_cmd c = u # v # w # s"
    using a n by (cases "print_cmd c"; cases "tl (print_cmd c)"; cases "tl (tl (print_cmd c))") (auto simp: at_def numeral_2_eq_2 split: if_splits)
  then show False using a assms by (auto simp: at_def typed_def numeral_2_eq_2 numeral_3_eq_3)
qed

fun plans :: "string cmd list \<Rightarrow> table \<Rightarrow> nat \<Rightarrow> (string list \<times> table) list \<times> nat" where
  "plans [] t n = ([], n)"
| "plans (c # cs) t n = (let (xs, n1) = plan c t n; (ys, n2) = plans cs t n1 in (xs @ ys, n2))"

lemma run_line_execs:
  assumes "typed c" "table_ready t" "\<forall>(f, m) \<in> opened c. can f m"
  shows "execs can (run_line ((print_cmd c @ [newline]) @ NUL # z)) t n = plan c t n"
proof -
  obtain r b where "parsecmd ((print_cmd c @ [newline]) @ NUL # z) = Ok r b" "map_cmd (cstring_at b) r = c"
    using parsecmd_reads [OF _ lexes_append_nl [OF typed_lexes [OF assms(1)]], of z] assms(1) unfolding typed_def by blast
  then show ?thesis using runcmd_execs [OF _ assms(2,3)] assms(1) by (simp add: run_line_def typed_def)
qed

lemma command_loop_execs:
  assumes "table_ready t" "\<forall>c \<in> set cs. typed c \<and> (\<forall>(f, m) \<in> opened c. can f m)"
    "length (concat (map (\<lambda>c. print_cmd c @ [newline]) cs)) < k"
  shows "execs can (command_loop k (concat (map (\<lambda>c. print_cmd c @ [newline]) cs))) t n = plans cs t n"
  using assms(2,3)
proof (induction cs arbitrary: k n)
  case Nil
  then obtain j where "k = Suc j" by (cases k) auto
  moreover have "gets_loop 0 100 [] = ([], [])" by (subst gets_loop.simps) simp
  ultimately show ?case by (simp add: getcmd_def at_def)
next
  case (Cons c cs)
  let ?inp = "concat (map (\<lambda>c. print_cmd c @ [newline]) cs)"
  obtain j where j: "k = Suc j" using Cons.prems(2) by (cases k) auto
  have ty: "typed c" and op: "\<forall>(f, m) \<in> opened c. can f m" using Cons.prems(1) by auto
  obtain z where g: "getcmd 100 (print_cmd c @ newline # ?inp) = Some ((print_cmd c @ [newline]) @ NUL # z, ?inp)" using getcmd_line [OF ty] .
  have rec: "execs can (command_loop j ?inp) t m = plans cs t m" for m using Cons.IH Cons.prems j by simp
  have one: "execs can (run_line ((print_cmd c @ [newline]) @ NUL # z)) t n = plan c t n" by (rule run_line_execs [OF ty assms(1) op])
  have "command_loop k (print_cmd c @ newline # ?inp) =
      Print ''$ '' (fork1 (run_line ((print_cmd c @ [newline]) @ NUL # z)) (Await (command_loop j ?inp)))"
    unfolding j command_loop.simps g option.case prod.case if_not_P [OF not_cd [OF ty]] by (rule refl)
  then show ?case using rec one by (simp add: fork1_def)
qed


definition demo_fds :: table where
  "demo_fds = [Some (Device 1), Some (Device 1), Some (Device 1)] @ replicate 13 None"


end
