(* ===== verification/Umalloc.thy ===== *)
theory Umalloc
  imports Prelude
begin

text \<open>
  The memory allocator of user programs, \<^verbatim>\<open>umalloc.c\<close>: \<open>malloc\<close>, \<open>free\<close> and \<open>morecore\<close> on a circular list of free blocks kept in
  address order. The fuel bounds the walks over that list; a bound in its length is shown to suffice.
\<close>

unbundle bit_operations_syntax

section \<open>The heap of a process\<close>

text \<open>
  Memory in units of a header, 8 bytes: a \<open>Header*\<close> is the number of a unit. A header holds the next free block and the
  size of its own block, itself included. \<open>h_base\<close> is where the static variable \<open>base\<close> lies, \<open>freep\<close> is 0 before
  the first call. \<open>brk\<close> is the size of the process in bytes; \<open>grow\<close>, an argument, is what the kernel's \<open>growproc\<close> makes of it.
\<close>

record heap =
  h_ptr :: "nat \<Rightarrow> nat"
  h_size :: "nat \<Rightarrow> nat"
  h_base :: nat
  freep :: nat
  brk :: u32

type_synonym 'a hp = "heap \<Rightarrow> (unit, 'a, heap) outcome"

definition HDR :: nat where "HDR = 8"

definition set_ptr :: "nat \<Rightarrow> nat \<Rightarrow> unit hp" where
  "set_ptr p q = modS (\<lambda>h. h\<lparr>h_ptr := (h_ptr h)(p := q)\<rparr>)"

definition set_size :: "nat \<Rightarrow> nat \<Rightarrow> unit hp" where
  "set_size p n = modS (\<lambda>h. h\<lparr>h_size := (h_size h)(p := n)\<rparr>)"

definition set_freep :: "nat \<Rightarrow> unit hp" where
  "set_freep p = modS (\<lambda>h. h\<lparr>freep := p\<rparr>)"

text \<open>The search of \<open>free\<close>: the free block after which \<open>bp\<close> belongs, the list being circular and in address order.\<close>

fun free_find :: "nat \<Rightarrow> nat \<Rightarrow> nat \<Rightarrow> nat hp" where
  "free_find 0 bp p = nofuel"
| "free_find (Suc n) bp p =
     bindM (getS (\<lambda>h. h_ptr h p)) (\<lambda>q.
     if bp > p \<and> bp < q then ret p
     else if p \<ge> q \<and> (bp > p \<or> bp < q) then ret p
     else free_find n bp q)"

definition free_insert :: "nat \<Rightarrow> nat \<Rightarrow> unit hp" where
  "free_insert bp p =
     bindM (getS (\<lambda>h. h_ptr h p)) (\<lambda>q.
     bindM (getS (\<lambda>h. h_size h bp)) (\<lambda>sb.
     seqM (if bp + sb = q then
             bindM (getS (\<lambda>h. h_size h q)) (\<lambda>sq.
             bindM (getS (\<lambda>h. h_ptr h q)) (\<lambda>r.
             seqM (set_size bp (sb + sq)) (set_ptr bp r)))
           else set_ptr bp q) (
     bindM (getS (\<lambda>h. h_size h p)) (\<lambda>sp.
     if p + sp = bp then
       bindM (getS (\<lambda>h. h_size h bp)) (\<lambda>sb.
       bindM (getS (\<lambda>h. h_ptr h bp)) (\<lambda>r.
       seqM (set_size p (sp + sb)) (seqM (set_ptr p r) (set_freep p))))
     else seqM (set_ptr p bp) (set_freep p)))))"

definition free :: "nat \<Rightarrow> nat \<Rightarrow> unit hp" where
  "free fuel ap =
     (let bp = ap - 1 in
      bindM (getS freep) (\<lambda>f.
      bindM (free_find fuel bp f) (free_insert bp)))"

text \<open>\<open>sbrk\<close> returns the old end of the process or, for failure, nothing.\<close>

definition sbrk :: "(u32 \<Rightarrow> u32 \<Rightarrow> u32 option) \<Rightarrow> u32 \<Rightarrow> u32 option hp" where
  "sbrk grow n =
     bindM (getS brk) (\<lambda>b.
     case grow b n of
       None \<Rightarrow> ret None
     | Some b' \<Rightarrow> seqM (modS (\<lambda>h. h\<lparr>brk := b'\<rparr>)) (ret (Some b)))"

definition morecore :: "(u32 \<Rightarrow> u32 \<Rightarrow> u32 option) \<Rightarrow> nat \<Rightarrow> u32 \<Rightarrow> nat hp" where
  "morecore grow fuel nu0 =
     (let nu = (if nu0 < 4096 then 4096 else nu0) in
      bindM (sbrk grow (nu * 8)) (\<lambda>r.
      case r of
        None \<Rightarrow> ret 0
      | Some p \<Rightarrow>
          (let hp = unat p div HDR in
           seqM (set_size hp (unat nu)) (
           seqM (free fuel (hp + 1))
           (getS freep)))))"

fun malloc_loop :: "(u32 \<Rightarrow> u32 \<Rightarrow> u32 option) \<Rightarrow> nat \<Rightarrow> nat \<Rightarrow> u32 \<Rightarrow> nat \<Rightarrow> nat \<Rightarrow> nat hp" where
  "malloc_loop grow fuel 0 nunits prevp p = nofuel"
| "malloc_loop grow fuel (Suc n) nunits prevp p =
     bindM (getS (\<lambda>h. h_size h p)) (\<lambda>sz.
     if sz \<ge> unat nunits then
       (if sz = unat nunits then
          bindM (getS (\<lambda>h. h_ptr h p)) (\<lambda>q.
          seqM (set_ptr prevp q) (seqM (set_freep prevp) (ret (p + 1))))
        else
          seqM (set_size p (sz - unat nunits)) (
          (let p' = p + (sz - unat nunits) in
           seqM (set_size p' (unat nunits)) (seqM (set_freep prevp) (ret (p' + 1))))))
     else
       bindM (getS freep) (\<lambda>f.
       if p = f then
         bindM (morecore grow fuel nunits) (\<lambda>r.
         if r = 0 then ret 0
         else bindM (getS (\<lambda>h. h_ptr h r)) (malloc_loop grow fuel n nunits r))
       else bindM (getS (\<lambda>h. h_ptr h p)) (malloc_loop grow fuel n nunits p)))"

definition malloc :: "(u32 \<Rightarrow> u32 \<Rightarrow> u32 option) \<Rightarrow> nat \<Rightarrow> u32 \<Rightarrow> nat hp" where
  "malloc grow fuel nbytes =
     (let nunits = (nbytes + 8 - 1) div 8 + 1 in
      bindM (getS freep) (\<lambda>f.
      bindM (getS h_base) (\<lambda>b.
      seqM (whenM (f = 0) (seqM (set_ptr b b) (seqM (set_freep b) (set_size b 0)))) (
      bindM (getS freep) (\<lambda>prevp.
      bindM (getS (\<lambda>h. h_ptr h prevp)) (malloc_loop grow fuel fuel nunits prevp))))))"

section \<open>The free list\<close>

text \<open>\<open>linked nx ns y\<close>: the nodes \<open>ns\<close> follow each other and the last one leads to \<open>y\<close>.\<close>

fun linked :: "(nat \<Rightarrow> nat) \<Rightarrow> nat list \<Rightarrow> nat \<Rightarrow> bool" where
  "linked nx [] y \<longleftrightarrow> True"
| "linked nx (x # xs) y \<longleftrightarrow> nx x = hd (xs @ [y]) \<and> linked nx xs y"

lemma linked_append: "linked nx (xs @ ys) z \<longleftrightarrow> linked nx xs (hd (ys @ [z])) \<and> linked nx ys z"
  by (induction xs) (auto simp: hd_append)

lemma linked_cong: "\<forall>x \<in> set xs. nx x = ny x \<Longrightarrow> linked nx xs y = linked ny xs y"
  by (induction xs) auto

lemma linked_nth: "linked nx xs (hd xs) \<Longrightarrow> i < length xs \<Longrightarrow> nx (xs ! i) = xs ! ((i + 1) mod length xs)"
proof -
  assume a: "linked nx xs (hd xs)" "i < length xs"
  have *: "linked nx ys y \<Longrightarrow> j < length ys \<Longrightarrow> nx (ys ! j) = (ys @ [y]) ! Suc j" for ys y j
  proof (induction ys arbitrary: j)
    case (Cons x ys)
    then show ?case by (cases j; cases ys) auto
  qed simp
  show ?thesis
  proof (cases "i + 1 < length xs")
    case True
    then show ?thesis using * [OF a] by (simp add: nth_append)
  next
    case False
    then have "i + 1 = length xs" using a(2) by simp
    moreover have "hd xs = xs ! 0" using a(2) by (intro hd_conv_nth) auto
    ultimately show ?thesis using * [OF a] a(2) by (simp add: nth_append)
  qed
qed

text \<open>
  The free list: \<open>base\<close> first, then the free blocks in address order, no two of them touching, all below the end of the process.
\<close>

definition gaps :: "(nat \<Rightarrow> nat) \<Rightarrow> nat list \<Rightarrow> bool" where
  "gaps sz ns \<longleftrightarrow> sorted_wrt (\<lambda>a b. a + sz a < b) ns"

definition heap_ok :: "nat list \<Rightarrow> heap \<Rightarrow> bool" where
  "heap_ok ns h \<longleftrightarrow> ns \<noteq> [] \<and> hd ns = h_base h \<and> 0 < h_base h \<and> linked (h_ptr h) ns (h_base h) \<and> gaps (h_size h) ns \<and>
     h_size h (h_base h) = 0 \<and> (\<forall>n \<in> set (tl ns). 0 < h_size h n) \<and> (\<forall>n \<in> set ns. n + h_size h n \<le> unat (brk h) div HDR) \<and>
     freep h \<in> set ns"

definition free_units :: "nat list \<Rightarrow> heap \<Rightarrow> nat set" where
  "free_units ns h = (\<Union>n \<in> set ns. {n ..< n + h_size h n})"

lemma heap_okD:
  assumes "heap_ok ns h"
  shows "ns \<noteq> []" "ns = h_base h # tl ns" "linked (h_ptr h) ns (hd ns)" "distinct ns" "sorted_wrt (<) ns"
    "i < length ns \<Longrightarrow> h_ptr h (ns ! i) = ns ! ((i + 1) mod length ns)" "n \<in> set ns \<Longrightarrow> h_base h \<le> n"
proof -
  show ne: "ns \<noteq> []" and l: "linked (h_ptr h) ns (hd ns)" using assms by (auto simp: heap_ok_def)
  show b: "ns = h_base h # tl ns" using assms by (metis heap_ok_def list.collapse)
  show s: "sorted_wrt (<) ns" using assms unfolding heap_ok_def gaps_def by (blast intro: sorted_wrt_mono_rel [rotated] add_lessD1)
  then show "distinct ns" by (simp add: strict_sorted_iff)
  show "h_ptr h (ns ! i) = ns ! ((i + 1) mod length ns)" if "i < length ns" using linked_nth [OF l that] .
  show "h_base h \<le> n" if "n \<in> set ns" using s that b by (metis less_imp_le order_refl set_ConsD sorted_wrt.simps(2))
qed

section \<open>Finding the place\<close>

text \<open>From any block of the list, the search reaches the last block below \<open>bp\<close> within one round.\<close>

lemma free_find_ok:
  assumes "heap_ok ns h" "t < length ns" "ns ! t < bp" "\<forall>j. t < j \<and> j < length ns \<longrightarrow> bp < ns ! j"
    and "i < length ns" "(t + length ns - i) mod length ns < fuel"
  shows "free_find fuel bp (ns ! i) h = Ok (ns ! t) h"
  using assms(5,6)
proof (induction fuel arbitrary: i)
  case (Suc fuel)
  let ?L = "length ns"
  note d = heap_okD [OF assms(1)]
  have nx: "h_ptr h (ns ! i) = ns ! ((i + 1) mod ?L)" by (rule d(6) [OF Suc.prems(1)])
  have lt: "ns ! j < ns ! k" if "j < k" "k < ?L" for j k using sorted_wrt_nth_less [OF d(5) that] .
  have base: "ns ! 0 < bp" using assms(2,3) lt [of 0 t] by (cases "t = 0") auto
  have below: "ns ! j < bp \<longleftrightarrow> j \<le> t" if "j < ?L" for j
  proof
    assume "ns ! j < bp"
    then show "j \<le> t" using assms(4) that by (metis less_asym not_le)
  next
    assume "j \<le> t"
    then show "ns ! j < bp" using assms(2,3) lt [of j t] by (cases "j = t") auto
  qed
  have above: "bp < ns ! j \<longleftrightarrow> t < j" if "j < ?L" for j
    using assms(4) below [OF that] that by (metis less_asym not_le)
  show ?case
  proof (cases "i = t")
    case True
    show ?thesis
    proof (cases "t + 1 < ?L")
      case True
      then show ?thesis using \<open>i = t\<close> nx above [of "t + 1"] assms(3) by (simp add: M_defs)
    next
      case False
      then have "(t + 1) mod ?L = 0" using assms(2) by (metis Suc_eq_plus1 Suc_lessI mod_self)
      moreover have "ns ! 0 \<le> ns ! t" using lt [of 0 t] assms(2) by (cases "t = 0") auto
      ultimately show ?thesis using \<open>i = t\<close> nx assms(3) base by (simp add: M_defs)
    qed
  next
    case False
    have step: "free_find (Suc fuel) bp (ns ! i) h = free_find fuel bp (ns ! ((i + 1) mod ?L)) h"
    proof (cases "i + 1 < ?L")
      case True
      then have "\<not> (ns ! i < bp \<and> bp < ns ! (i + 1))" using below [of i] above [of "i + 1"] False Suc.prems(1) by auto
      moreover have "ns ! i < ns ! (i + 1)" using lt [of i "i + 1"] True by simp
      ultimately show ?thesis using nx True by (auto simp: M_defs)
    next
      case c: False
      then have "(i + 1) mod ?L = 0" using Suc.prems(1) by (metis Suc_eq_plus1 Suc_lessI mod_self)
      moreover have "\<not> ns ! i < bp" using below [of i] c False assms(2) Suc.prems(1) by auto
      ultimately show ?thesis using nx base by (simp add: M_defs)
    qed
    have "(t + ?L - (i + 1) mod ?L) mod ?L < fuel"
    proof (cases "i + 1 < ?L")
      case True
      then have "t + ?L - i = Suc (t + ?L - (i + 1))" using Suc.prems(1) by simp
      then have m: "(t + ?L - i) mod ?L = Suc (t + ?L - (i + 1)) mod ?L" by simp
      show ?thesis
      proof (cases "t < i")
        case True
        then show ?thesis using Suc.prems \<open>i + 1 < ?L\<close> by simp
      next
        case f: False
        then have "i < t" and e: "t + ?L - i = (t - i) + ?L" "t + ?L - (i + 1) = (t - (i + 1)) + ?L" using False by auto
        have "(t + ?L - i) mod ?L = t - i" "(t + ?L - (i + 1)) mod ?L = t - (i + 1)" unfolding e using assms(2) by simp_all
        then show ?thesis using Suc.prems(2) \<open>i + 1 < ?L\<close> \<open>i < t\<close> by simp
      qed
    next
      case c: False
      then have "i + 1 = ?L" using Suc.prems(1) by simp
      then have "(i + 1) mod ?L = 0" "t + ?L - i = t + 1" by auto
      moreover have "t + 1 < ?L" using False c assms(2) Suc.prems(1) by simp
      ultimately show ?thesis using Suc.prems(2) assms(2) by simp
    qed
    then show ?thesis using step Suc.IH [of "(i + 1) mod ?L"] d(1) by simp
  qed
qed simp

section \<open>Freeing a block\<close>

text \<open>\<open>lent ns h b\<close>: \<open>b\<close> is the header of a block in use: above \<open>base\<close>, below the end, with no unit in a free block.\<close>

definition lent :: "nat list \<Rightarrow> heap \<Rightarrow> nat \<Rightarrow> bool" where
  "lent ns h b \<longleftrightarrow> h_base h < b \<and> 0 < h_size h b \<and> b + h_size h b \<le> unat (brk h) div HDR \<and> {b ..< b + h_size h b} \<inter> free_units ns h = {}"

lemma heap_ok_split:
  assumes "heap_ok ns h" "lent ns h b"
  obtains A B where "ns = A @ B" "A \<noteq> []" "\<forall>a \<in> set A. a < b \<and> a + h_size h a \<le> b" "\<forall>c \<in> set B. b + h_size h b \<le> c"
proof -
  let ?A = "takeWhile (\<lambda>n. n < b) ns" and ?B = "dropWhile (\<lambda>n. n < b) ns"
  note d = heap_okD [OF assms(1)]
  have u: "n + h_size h n \<le> b \<or> b + h_size h b \<le> n" if "n \<in> set ns" "0 < h_size h n" for n
  proof (rule ccontr)
    assume "\<not> ?thesis"
    then have "max n b \<in> {n ..< n + h_size h n}" "max n b \<in> {b ..< b + h_size h b}"
      using assms(2) that(2) by (auto simp: lent_def)
    then show False using assms(2) that(1) unfolding lent_def free_units_def by blast
  qed
  have A: "\<forall>a \<in> set ?A. a < b \<and> a + h_size h a \<le> b"
  proof
    fix a assume "a \<in> set ?A"
    then have a: "a < b" "a \<in> set ns" using set_takeWhileD [of a "\<lambda>n. n < b" ns] by auto
    then show "a < b \<and> a + h_size h a \<le> b" using u [OF a(2)] by (cases "h_size h a = 0") auto
  qed
  have B: "\<forall>c \<in> set ?B. b + h_size h b \<le> c"
  proof
    fix c assume c: "c \<in> set ?B"
    have "sorted_wrt (<) ?B" using d(5) by (metis sorted_wrt_append takeWhile_dropWhile_id)
    moreover have ne: "?B \<noteq> []" using c by (metis empty_iff empty_set)
    moreover have "\<not> hd ?B < b" by (rule hd_dropWhile [OF ne])
    ultimately have bc: "b \<le> c" using c by (cases ?B) auto
    have cs: "c \<in> set ns" using c by (rule set_dropWhileD)
    have "c \<noteq> h_base h" using bc assms(2) by (auto simp: lent_def)
    then have "c \<in> set (tl ns)" using cs d(2) by (metis set_ConsD)
    then have "0 < h_size h c" using assms(1) by (simp add: heap_ok_def)
    then show "b + h_size h b \<le> c" using u [OF cs] bc by auto
  qed
  have "hd ns < b" using assms by (auto simp: heap_ok_def lent_def)
  then have "?A \<noteq> []" using d(1) by (cases ns) auto
  then show thesis using that [of ?A ?B] A B by simp
qed

text \<open>The state after the block has been put behind \<open>n\<close>, and the list it then holds.\<close>

definition freed :: "nat \<Rightarrow> nat list \<Rightarrow> nat \<Rightarrow> heap \<Rightarrow> heap" where
  "freed n B b h =
     (let up = (B \<noteq> [] \<and> b + h_size h b = hd B);
          sb = (if up then h_size h b + h_size h (hd B) else h_size h b);
          r = hd ((if up then tl B else B) @ [h_base h])
      in if n + h_size h n = b
         then h\<lparr>h_size := (h_size h)(b := sb, n := h_size h n + sb), h_ptr := (h_ptr h)(b := r, n := r), freep := n\<rparr>
         else h\<lparr>h_size := (h_size h)(b := sb), h_ptr := (h_ptr h)(b := r, n := b), freep := n\<rparr>)"

definition freed_list :: "nat list \<Rightarrow> nat list \<Rightarrow> nat \<Rightarrow> heap \<Rightarrow> nat list" where
  "freed_list A B b h =
     A @ (if last A + h_size h (last A) = b then [] else [b]) @ (if B \<noteq> [] \<and> b + h_size h b = hd B then tl B else B)"

lemma free_insert_ok:
  assumes "heap_ok (A @ B) h" "lent (A @ B) h b" "A \<noteq> []" "\<forall>a \<in> set A. a < b" "\<forall>c \<in> set B. b < c"
  shows "free_insert b (last A) h = Ok () (freed (last A) B b h)"
proof -
  have l: "linked (h_ptr h) (A @ B) (h_base h)" "h_base h \<in> set A" using assms(1,3) hd_in_set [OF assms(3)] by (auto simp: heap_ok_def hd_append)
  then have nA: "h_ptr h (last A) = hd (B @ [h_base h])"
  proof -
    have "linked (h_ptr h) (butlast A @ [last A] @ B) (h_base h)" using l(1) assms(3) by (metis append.assoc append_butlast_last_id)
    then show ?thesis by (simp add: linked_append)
  qed
  have hB: "h_ptr h (hd B) = hd (tl B @ [h_base h])" if "B \<noteq> []"
    using l(1) that by (cases B) (auto simp: linked_append)
  have ne: "last A \<noteq> b" "b \<notin> set B" "last A \<noteq> hd B" if "B \<noteq> []" using assms(3-5) last_in_set [OF assms(3)] that hd_in_set [OF that] by fastforce+
  have nb: "b + h_size h b \<noteq> h_base h" using assms(2) by (simp add: lent_def)
  have nl: "last A \<noteq> b" using assms(3,4) last_in_set by fastforce
  show ?thesis
  proof (cases "B \<noteq> [] \<and> b + h_size h b = hd B")
    case True
    then have "hd (B @ [h_base h]) = hd B" by (cases B) auto
    then show ?thesis using True nA hB ne nl
      by (cases "last A + h_size h (last A) = b") (auto simp: free_insert_def freed_def set_ptr_def set_size_def set_freep_def M_defs Let_def fun_upd_twist)
  next
    case False
    then have "b + h_size h b \<noteq> hd (B @ [h_base h])" using nb by (cases B) auto
    then show ?thesis using False nA nl
      by (cases "last A + h_size h (last A) = b") (auto simp: free_insert_def freed_def set_ptr_def set_size_def set_freep_def M_defs Let_def fun_upd_idem)
  qed
qed

lemma gaps_simps [simp]: "gaps sz []" "gaps sz (x # xs) \<longleftrightarrow> (\<forall>y \<in> set xs. x + sz x < y) \<and> gaps sz xs"
  by (simp_all add: gaps_def)

lemma gaps_append: "gaps sz (xs @ ys) \<longleftrightarrow> gaps sz xs \<and> gaps sz ys \<and> (\<forall>x \<in> set xs. \<forall>y \<in> set ys. x + sz x < y)"
  by (auto simp: gaps_def sorted_wrt_append)

lemma gaps_cong: "\<forall>x \<in> set xs. sz x = sy x \<Longrightarrow> gaps sz xs = gaps sy xs"
  by (induction xs) auto

text \<open>A list in which a block takes the place of the blocks it absorbs.\<close>

lemma heap_ok_replace:
  assumes "heap_ok (C @ M @ D) h" "h_base h' = h_base h" "brk h' = brk h"
    and "\<forall>n \<in> set C \<union> set D. h_size h' n = h_size h n" "\<forall>n \<in> set (butlast C) \<union> set D. h_ptr h' n = h_ptr h n"
    and "h_ptr h' x = hd (D @ [h_base h])" "C \<noteq> [] \<Longrightarrow> h_ptr h' (last C) = x" "\<forall>c \<in> set C. c + h_size h c < x"
    and "\<forall>e \<in> set D. x + h_size h' x < e" "x + h_size h' x \<le> unat (brk h) div HDR"
    and "if C = [] then x = h_base h \<and> h_size h' x = 0 else 0 < h_size h' x" "freep h' \<in> set (C @ x # D)" "C = [] \<Longrightarrow> D = [] \<or> M \<noteq> []"
  shows "heap_ok (C @ x # D) h'"
proof -
  note k = assms(1) [unfolded heap_ok_def]
  have hd: "hd (C @ x # D) = h_base h" using k assms(11) by (cases C) auto
  have lD: "linked (h_ptr h) D (h_base h)" "linked (h_ptr h) C (hd (M @ D @ [h_base h]))" using k by (auto simp: linked_append)
  have "linked (h_ptr h') D (h_base h)" using lD(1) linked_cong [of D "h_ptr h'" "h_ptr h"] assms(5) by simp
  moreover have "linked (h_ptr h') C x"
  proof (cases "C = []")
    case False
    then have C: "C = butlast C @ [last C]" by simp
    then have "linked (h_ptr h) (butlast C) (last C)" using lD(2) linked_append [of "h_ptr h" "butlast C" "[last C]"] by simp
    then have "linked (h_ptr h') (butlast C) (last C)" using linked_cong [of "butlast C" "h_ptr h'" "h_ptr h"] assms(5) by simp
    then have "linked (h_ptr h') (butlast C @ [last C]) x" using assms(7) [OF False] by (simp add: linked_append)
    then show ?thesis using C by simp
  qed simp
  ultimately have "linked (h_ptr h') (C @ x # D) (h_base h)" using assms(6) by (simp add: linked_append)
  moreover have "gaps (h_size h') (C @ x # D)"
  proof -
    have "gaps (h_size h) C" "gaps (h_size h) D" "\<forall>c \<in> set C. \<forall>e \<in> set D. c + h_size h c < e" using k by (auto simp: gaps_append)
    then show ?thesis using gaps_cong [of C "h_size h'" "h_size h"] gaps_cong [of D "h_size h'" "h_size h"] assms(4,8,9) by (simp add: gaps_append)
  qed
  moreover have "h_size h' (h_base h) = 0" using k hd assms(4,11) by (cases C) auto
  moreover have "\<forall>n \<in> set (tl (C @ x # D)). 0 < h_size h' n"
  proof -
    have "\<forall>n \<in> set (tl C). 0 < h_size h n" using k by (cases C) auto
    moreover have "\<forall>n \<in> set D. 0 < h_size h n" using k assms(13) by (cases C; cases M) auto
    ultimately show ?thesis using assms(4,11) by (cases C) auto
  qed
  moreover have "\<forall>n \<in> set (C @ x # D). n + h_size h' n \<le> unat (brk h) div HDR" using k assms(4,10) by auto
  ultimately show ?thesis using hd k assms(2,3,12) by (simp add: heap_ok_def)
qed

lemma freed_ok:
  assumes "heap_ok (A @ B) h" "lent (A @ B) h b" "A \<noteq> []" "\<forall>a \<in> set A. a < b \<and> a + h_size h a \<le> b" "\<forall>c \<in> set B. b + h_size h b \<le> c"
  shows "heap_ok (freed_list A B b h) (freed (last A) B b h)"
    "free_units (freed_list A B b h) (freed (last A) B b h) = free_units (A @ B) h \<union> {b ..< b + h_size h b}"
proof -
  define up where "up \<longleftrightarrow> B \<noteq> [] \<and> b + h_size h b = hd B"
  define D where "D = (if up then tl B else B)"
  define M where "M = (if up then [hd B] else [])"
  define sb where "sb = (if up then h_size h b + h_size h (hd B) else h_size h b)"
  have MD: "A @ B = A @ M @ D" by (auto simp: M_def D_def up_def)
  note k = assms(1) [unfolded heap_ok_def MD]
  let ?n = "last A"
  have nA: "?n \<in> set A" using assms(3) by simp
  have s0: "0 < h_size h b" and bu: "b + h_size h b \<le> unat (brk h) div HDR" using assms(2) by (auto simp: lent_def)
  have gB: "gaps (h_size h) A" "gaps (h_size h) B" using assms(1) by (simp_all add: heap_ok_def gaps_append)
  have gap: "\<forall>e \<in> set D. b + sb < e"
  proof (cases B)
    case (Cons c cs)
    then show ?thesis using gB(2) assms(5) by (auto simp: D_def sb_def up_def nat_less_le le_less_trans)
  qed (simp add: D_def)
  have sbu: "b + sb \<le> unat (brk h) div HDR" using bu k by (auto simp: sb_def M_def up_def)
  have s0b: "0 < sb" using s0 by (simp add: sb_def)
  have nl: "?n \<noteq> b" "b \<notin> set A" "b \<notin> set D" "?n \<notin> set D" using assms(3-5) nA s0 gap by (fastforce simp: D_def)+
  have bD: "\<forall>n \<in> set D. h_ptr (freed ?n B b h) n = h_ptr h n \<and> h_size (freed ?n B b h) n = h_size h n"
    using nl by (auto simp: freed_def Let_def)
  have A: "A = butlast A @ [?n]" using assms(3) by simp
  have sA: "set A = insert ?n (set (butlast A))" using A by (metis list.simps(15) rotate1.simps(2) set_rotate1)
  have dis: "distinct A" using heap_okD(4) [OF assms(1)] by simp
  then have nb: "?n \<notin> set (butlast A)" using A by (metis distinct_append disjoint_iff list.set_intros(1))
  have lt: "c + h_size h c < ?n" if "c \<in> set (butlast A)" for c
    using gB(1) A that gaps_append [of "h_size h" "butlast A" "[?n]"] by auto
  have keepA: "\<forall>n \<in> set (butlast A). h_ptr (freed ?n B b h) n = h_ptr h n \<and> h_size (freed ?n B b h) n = h_size h n"
    using nl(2) nb A by (auto simp: freed_def Let_def dest: in_set_butlastD)
  have fl: "freed_list A B b h = A @ (if ?n + h_size h ?n = b then [] else [b]) @ D" by (simp add: freed_list_def D_def up_def)
  show "heap_ok (freed_list A B b h) (freed ?n B b h)"
  proof (cases "?n + h_size h ?n = b")
    case True
    have C: "butlast A \<noteq> []"
    proof
      assume "butlast A = []"
      then have "A = [?n]" using A by simp
      then have "hd (A @ M @ D) = ?n" by (metis append_Cons list.sel(1))
      then have "?n = h_base h" "h_size h ?n = 0" using k by auto
      then show False using True assms(2) by (simp add: lent_def)
    qed
    have f: "h_ptr (freed ?n B b h) ?n = hd (D @ [h_base h])" "h_size (freed ?n B b h) ?n = h_size h ?n + sb" "freep (freed ?n B b h) = ?n"
      "h_base (freed ?n B b h) = h_base h" "brk (freed ?n B b h) = brk h"
      using True nl(1) by (auto simp: freed_def Let_def D_def sb_def up_def)
    have pl: "h_ptr h (last (butlast A)) = ?n"
    proof -
      have "linked (h_ptr h) (butlast (butlast A) @ [last (butlast A)] @ [?n] @ B) (h_base h)"
        using k C A by (metis MD append.assoc append_butlast_last_id)
      then show ?thesis by (simp add: linked_append)
    qed
    have "heap_ok (butlast A @ ?n # D) (freed ?n B b h)"
    proof (rule heap_ok_replace [where M = "?n # M"])
      show "heap_ok (butlast A @ (?n # M) @ D) h" using assms(1) MD A by (metis append.assoc append_Cons append_Nil)
      show "\<forall>n \<in> set (butlast A) \<union> set D. h_size (freed ?n B b h) n = h_size h n" using bD keepA by auto
      show "\<forall>n \<in> set (butlast (butlast A)) \<union> set D. h_ptr (freed ?n B b h) n = h_ptr h n" using bD keepA by (auto dest: in_set_butlastD)
      show "h_ptr (freed ?n B b h) (last (butlast A)) = ?n" using pl keepA C by simp
      show "\<forall>c \<in> set (butlast A). c + h_size h c < ?n" using lt by blast
    qed (use f True gap sbu s0b C in auto)
    moreover have "butlast A @ ?n # D = (butlast A @ [?n]) @ D" by (simp only: append.assoc append_Cons append_Nil)
    ultimately show ?thesis using fl True assms(3) by simp
  next
    case False
    have f: "h_ptr (freed ?n B b h) ?n = b" "h_ptr (freed ?n B b h) b = hd (D @ [h_base h])" "h_size (freed ?n B b h) b = sb"
      "h_size (freed ?n B b h) ?n = h_size h ?n" "freep (freed ?n B b h) = ?n" "h_base (freed ?n B b h) = h_base h" "brk (freed ?n B b h) = brk h"
      using False nl(1) by (auto simp: freed_def Let_def D_def sb_def up_def)
    have "heap_ok (A @ b # D) (freed ?n B b h)"
    proof (rule heap_ok_replace [where M = M])
      show "heap_ok (A @ M @ D) h" using assms(1) MD by simp
      show "\<forall>n \<in> set A \<union> set D. h_size (freed ?n B b h) n = h_size h n"
      proof
        fix n assume "n \<in> set A \<union> set D"
        then have "n \<in> set (butlast A) \<or> n = ?n \<or> n \<in> set D" using sA by auto
        then show "h_size (freed ?n B b h) n = h_size h n" using bD keepA f(4) by auto
      qed
      show "\<forall>n \<in> set (butlast A) \<union> set D. h_ptr (freed ?n B b h) n = h_ptr h n" using bD keepA by auto
      show "\<forall>c \<in> set A. c + h_size h c < b"
      proof
        fix c assume "c \<in> set A"
        then consider "c = ?n" | "c \<in> set (butlast A)" using sA by auto
        then show "c + h_size h c < b"
        proof cases
          case 1
          then show ?thesis using assms(4) nA False by (simp add: nat_less_le)
        next
          case 2
          have "?n < b" using assms(4) nA by blast
          then show ?thesis using lt [OF 2] by simp
        qed
      qed
    qed (use f gap sbu s0b assms(3) nA in auto)
    then show ?thesis using fl False by simp
  qed
  have uM: "{b ..< b + sb} = {b ..< b + h_size h b} \<union> (\<Union>m \<in> set M. {m ..< m + h_size h m})" by (auto simp: sb_def M_def up_def)
  have uA: "(\<Union>n \<in> set (butlast A). {n ..< n + h_size (freed ?n B b h) n}) = (\<Union>n \<in> set (butlast A). {n ..< n + h_size h n})"
    and uD: "(\<Union>n \<in> set D. {n ..< n + h_size (freed ?n B b h) n}) = (\<Union>n \<in> set D. {n ..< n + h_size h n})"
    using keepA bD by auto
  have old: "free_units (A @ B) h = (\<Union>n \<in> set (butlast A). {n ..< n + h_size h n}) \<union> {?n ..< ?n + h_size h ?n} \<union>
      (\<Union>m \<in> set M. {m ..< m + h_size h m}) \<union> (\<Union>n \<in> set D. {n ..< n + h_size h n})"
    unfolding free_units_def MD set_append sA by auto
  show "free_units (freed_list A B b h) (freed ?n B b h) = free_units (A @ B) h \<union> {b ..< b + h_size h b}"
  proof (cases "?n + h_size h ?n = b")
    case True
    then have "h_size (freed ?n B b h) ?n = h_size h ?n + sb" using nl(1) by (auto simp: freed_def Let_def sb_def up_def)
    then have "{?n ..< ?n + h_size (freed ?n B b h) ?n} = {?n ..< ?n + h_size h ?n} \<union> {b ..< b + sb}" using True by auto
    moreover have "free_units (freed_list A B b h) (freed ?n B b h) = (\<Union>n \<in> set (butlast A). {n ..< n + h_size (freed ?n B b h) n}) \<union>
        {?n ..< ?n + h_size (freed ?n B b h) ?n} \<union> (\<Union>n \<in> set D. {n ..< n + h_size (freed ?n B b h) n})"
      unfolding fl using True sA by (auto simp: free_units_def)
    ultimately show ?thesis unfolding old uA uD using uM by blast
  next
    case False
    then have "h_size (freed ?n B b h) b = sb" "h_size (freed ?n B b h) ?n = h_size h ?n" using nl(1) by (auto simp: freed_def Let_def sb_def up_def)
    moreover have "free_units (freed_list A B b h) (freed ?n B b h) = (\<Union>n \<in> set (butlast A). {n ..< n + h_size (freed ?n B b h) n}) \<union>
        {?n ..< ?n + h_size (freed ?n B b h) ?n} \<union> {b ..< b + h_size (freed ?n B b h) b} \<union> (\<Union>n \<in> set D. {n ..< n + h_size (freed ?n B b h) n})"
      unfolding fl using False sA by (auto simp: free_units_def)
    ultimately show ?thesis unfolding old uA uD using uM by auto
  qed
qed

lemma heap_ok_freep: "heap_ok ns h \<Longrightarrow> \<exists>i < length ns. freep h = ns ! i"
  by (auto simp: heap_ok_def in_set_conv_nth)

lemma free_ok:
  assumes "heap_ok ns h" "lent ns h b" "length ns \<le> fuel"
  obtains ms h' where "free fuel (b + 1) h = Ok () h'" "heap_ok ms h'" "free_units ms h' = free_units ns h \<union> {b ..< b + h_size h b}"
    "length ms \<le> Suc (length ns)" "brk h' = brk h" "h_base h' = h_base h"
    "\<forall>x. x \<notin> set ns \<and> x \<noteq> b \<longrightarrow> h_size h' x = h_size h x"
proof -
  obtain A B where AB: "ns = A @ B" "A \<noteq> []" "\<forall>a \<in> set A. a < b \<and> a + h_size h a \<le> b" "\<forall>c \<in> set B. b + h_size h b \<le> c"
    using heap_ok_split [OF assms(1,2)] by metis
  have s0: "0 < h_size h b" using assms(2) by (simp add: lent_def)
  then have B: "\<forall>c \<in> set B. b < c" using AB(4) by force
  obtain i where i: "i < length ns" "freep h = ns ! i" using heap_ok_freep [OF assms(1)] by blast
  let ?t = "length A - 1"
  have t1: "?t < length A" using AB(2) by (cases A) auto
  have t: "?t < length ns" using t1 AB(1) by simp
  have t2: "ns ! ?t = last A" using t1 AB(1,2) by (simp add: nth_append last_conv_nth)
  have "\<forall>j. ?t < j \<and> j < length ns \<longrightarrow> b < ns ! j" using AB(1) B by (auto simp: nth_append)
  moreover have "(?t + length ns - i) mod length ns < fuel" using assms(3) i(1) by (metis less_le_trans mod_less_divisor gr_implies_not0 not_gr_zero)
  ultimately have "free_find fuel b (ns ! i) h = Ok (ns ! ?t) h"
    using AB(2,3) t2 by (intro free_find_ok [OF assms(1) t _ _ i(1)]) auto
  then have f: "free_find fuel b (freep h) h = Ok (last A) h" using i(2) t2 by simp
  have "free_insert b (last A) h = Ok () (freed (last A) B b h)"
    by (rule free_insert_ok) (use assms(1,2) AB B in auto)
  then have r: "free fuel (b + 1) h = Ok () (freed (last A) B b h)" using f by (simp add: free_def Let_def M_defs)
  have h1: "heap_ok (A @ B) h" "lent (A @ B) h b" using assms(1,2) AB(1) by simp_all
  note fr = freed_ok [OF h1 AB(2-4)]
  show thesis
  proof (rule that [OF r fr(1)])
    show "free_units (freed_list A B b h) (freed (last A) B b h) = free_units ns h \<union> {b ..< b + h_size h b}" using fr(2) AB(1) by simp
    show "length (freed_list A B b h) \<le> Suc (length ns)" using AB(1) by (auto simp: freed_list_def)
    show "\<forall>x. x \<notin> set ns \<and> x \<noteq> b \<longrightarrow> h_size (freed (last A) B b h) x = h_size h x"
      using AB(1) last_in_set [OF AB(2)] by (auto simp: freed_def Let_def)
  qed (simp_all add: freed_def Let_def)
qed

lemma lent_not_node:
  assumes "heap_ok ns h" "lent ns h c"
  shows "c \<notin> set ns"
proof
  assume c: "c \<in> set ns"
  have cc: "c \<in> {c ..< c + h_size h c}" "h_base h < c" using assms(2) by (auto simp: lent_def)
  then have "c \<in> set (tl ns)" using c heap_okD(2) [OF assms(1)] by (metis less_irrefl set_ConsD)
  then have "c \<in> free_units ns h" using assms(1) c by (auto simp: free_units_def heap_ok_def)
  then show False using assms(2) cc(1) unfolding lent_def by blast
qed

text \<open>
  C14: freeing keeps the free list sound and gives back exactly the block. Let the free list be circular in address order with
  no two blocks touching, and let \<open>b\<close> head a block in use. Then \<open>free\<close> returns; the list is again of this form, merged with
  the neighbours the block touches; the free memory is what was free before and the block; and the sizes of all other blocks in use are as before.
\<close>

theorem free_gives_back:
  assumes "heap_ok ns h" "lent ns h b" "length ns \<le> fuel"
  shows "\<exists>ms h'. free fuel (b + 1) h = Ok () h' \<and> heap_ok ms h' \<and> free_units ms h' = free_units ns h \<union> {b ..< b + h_size h b} \<and>
    (\<forall>c. lent ns h c \<and> {c ..< c + h_size h c} \<inter> {b ..< b + h_size h b} = {} \<longrightarrow> lent ms h' c \<and> h_size h' c = h_size h c)"
proof -
  obtain ms h' where r: "free fuel (b + 1) h = Ok () h'" "heap_ok ms h'" "free_units ms h' = free_units ns h \<union> {b ..< b + h_size h b}"
    "brk h' = brk h" "h_base h' = h_base h" "\<forall>x. x \<notin> set ns \<and> x \<noteq> b \<longrightarrow> h_size h' x = h_size h x"
    using free_ok [OF assms] by metis
  have "lent ms h' c \<and> h_size h' c = h_size h c" if c: "lent ns h c" "{c ..< c + h_size h c} \<inter> {b ..< b + h_size h b} = {}" for c
  proof -
    have "c \<in> {c ..< c + h_size h c}" using c(1) by (auto simp: lent_def)
    then have "c \<noteq> b" using c(2) assms(2) by (auto simp: lent_def)
    moreover have "c \<notin> set ns" by (rule lent_not_node [OF assms(1) c(1)])
    ultimately have "h_size h' c = h_size h c" using r(6) by simp
    then show ?thesis using c r(3-5) by (auto simp: lent_def)
  qed
  then show ?thesis using r by blast
qed

section \<open>Taking a block\<close>

definition taken :: "nat \<Rightarrow> nat \<Rightarrow> nat \<Rightarrow> heap \<Rightarrow> nat \<times> heap" where
  "taken prevp p k h =
     (if h_size h p = k then (p, h\<lparr>h_ptr := (h_ptr h)(prevp := h_ptr h p), freep := prevp\<rparr>)
      else (let q = p + (h_size h p - k) in (q, h\<lparr>h_size := (h_size h)(p := h_size h p - k, q := k), freep := prevp\<rparr>)))"

text \<open>What an allocation of \<open>k\<close> units must do: hand out \<open>k\<close> free units that are then no longer free.\<close>

definition hands_out :: "nat list \<Rightarrow> heap \<Rightarrow> nat \<Rightarrow> nat \<Rightarrow> heap \<Rightarrow> bool" where
  "hands_out ns h k q h' \<longleftrightarrow>
     {q ..< q + k} \<subseteq> free_units ns h \<and> h_size h' q = k \<and> h_base h' = h_base h \<and> brk h' = brk h \<and>
     (\<exists>ms. heap_ok ms h' \<and> free_units ms h' = free_units ns h - {q ..< q + k}) \<and>
     (\<forall>c. lent ns h c \<longrightarrow> h_size h' c = h_size h c)"

lemma block_disjoint:
  assumes "gaps sz ns" "n \<in> set ns" "m \<in> set ns" "x \<in> {n ..< n + sz n}" "x \<in> {m ..< m + sz m}"
  shows "n = m"
proof (rule ccontr)
  assume "n \<noteq> m"
  moreover obtain i j where "i < length ns" "ns ! i = n" "j < length ns" "ns ! j = m" using assms(2,3) by (auto simp: in_set_conv_nth)
  ultimately have "n + sz n < m \<or> m + sz m < n"
    using assms(1) sorted_wrt_nth_less [of "\<lambda>a b. a + sz a < b" ns i j] sorted_wrt_nth_less [of "\<lambda>a b. a + sz a < b" ns j i]
    unfolding gaps_def by (metis linorder_neqE_nat)
  then show False using assms(4,5) by auto
qed

lemma predecessor:
  assumes "heap_ok ns h" "prevp \<in> set ns" "h_ptr h prevp = p" "p \<in> set ns" "p \<noteq> h_base h"
  obtains C D where "ns = C @ p # D" "C \<noteq> []" "last C = prevp"
proof -
  note d = heap_okD [OF assms(1)]
  obtain C D where ns: "ns = C @ p # D" using assms(4) by (auto simp: in_set_conv_decomp)
  have C: "C \<noteq> []" using ns d(2) assms(5) by (cases C) auto
  obtain k where k: "k < length ns" "prevp = ns ! k" using assms(2) by (auto simp: in_set_conv_nth)
  let ?i = "length C"
  have i: "?i < length ns" "ns ! ?i = p" using ns by auto
  have "ns ! ((k + 1) mod length ns) = ns ! ?i" using d(6) [OF k(1)] k(2) assms(3) i(2) by simp
  then have e: "(k + 1) mod length ns = ?i" using d(4) i(1) by (subst (asm) nth_eq_iff_index_eq) (auto intro: mod_less_divisor)
  have "k + 1 < length ns"
  proof (rule ccontr)
    assume "\<not> ?thesis"
    then have "k + 1 = length ns" using k(1) by simp
    then show False using e C by simp
  qed
  then have "?i = k + 1" using e by simp
  then have "prevp = last C" using k(2) ns C by (simp add: nth_append last_conv_nth)
  then show thesis using that ns C by blast
qed

lemma heap_ok_after: "heap_ok ns h \<Longrightarrow> ns = C @ p # D \<Longrightarrow> h_ptr h p = hd (D @ [h_base h])"
  by (simp add: heap_ok_def linked_append)

lemma heap_ok_before: "heap_ok ns h \<Longrightarrow> ns = C @ p # D \<Longrightarrow> C \<noteq> [] \<Longrightarrow> h_ptr h (last C) = p"
proof -
  assume a: "heap_ok ns h" "ns = C @ p # D" "C \<noteq> []"
  then have "ns = butlast C @ last C # p # D" by simp
  then show ?thesis using heap_ok_after [OF a(1)] by fastforce
qed

lemma cut_out: "(X \<union> Y) \<inter> P = {} \<Longrightarrow> Q \<subseteq> P \<Longrightarrow> X \<union> P \<union> Y - Q = X \<union> (P - Q) \<union> Y"
  by blast

lemma taken_ok:
  assumes "heap_ok ns h" "prevp \<in> set ns" "h_ptr h prevp = p" "p \<in> set ns" "k \<le> h_size h p" "0 < k"
  shows "hands_out ns h k (fst (taken prevp p k h)) (snd (taken prevp p k h))"
proof -
  note k = assms(1) [unfolded heap_ok_def] and d = heap_okD [OF assms(1)]
  have pb: "p \<noteq> h_base h" using assms(5,6) k by auto
  obtain C D where C: "ns = C @ p # D" "C \<noteq> []" "last C = prevp" using predecessor [OF assms(1-4) pb] .
  then obtain E where E: "C = E @ [prevp]" by (metis append_butlast_last_id)
  have ns: "ns = E @ prevp # p # D" using C(1) E by simp
  have g: "gaps (h_size h) ns" using k by blast
  have gs: "\<forall>c \<in> set E. c + h_size h c < prevp" "\<forall>c \<in> set C. c + h_size h c < p" "\<forall>e \<in> set D. p + h_size h p < e" "prevp + h_size h prevp < p"
    using g ns C(1) by (auto simp: gaps_append)
  have nin: "prevp \<notin> set E" "prevp \<notin> set D" "p \<notin> set C" "p \<notin> set D" "prevp \<noteq> p" using d(4) ns C(1) by auto
  have un: "free_units ns h = (\<Union>n \<in> set C. {n ..< n + h_size h n}) \<union> {p ..< p + h_size h p} \<union> (\<Union>n \<in> set D. {n ..< n + h_size h n})"
    using C(1) by (auto simp: free_units_def)
  have noC: "((\<Union>n \<in> set C. {n ..< n + h_size h n}) \<union> (\<Union>n \<in> set D. {n ..< n + h_size h n})) \<inter> {p ..< p + h_size h p} = {}"
  proof -
    have "x \<notin> {n ..< n + h_size h n}" if "x \<in> {p ..< p + h_size h p}" "n \<in> set C \<union> set D" for x n
      using block_disjoint [OF g _ assms(4) _ that(1), of n] that(2) nin C(1) by auto
    then show ?thesis by blast
  qed
  have cl: "h_size h' c = h_size h c" if "lent ns h c" "\<forall>x. x \<notin> {p ..< p + h_size h p} \<longrightarrow> h_size h' x = h_size h x" for c h'
  proof -
    have "c \<in> {c ..< c + h_size h c}" using that(1) by (auto simp: lent_def)
    then have "c \<notin> {p ..< p + h_size h p}" using that(1) un unfolding lent_def by blast
    then show ?thesis using that(2) by simp
  qed
  have D: "h_ptr h p = hd (D @ [h_base h])" by (rule heap_ok_after [OF assms(1) C(1)])
  have pE: "E \<noteq> [] \<Longrightarrow> h_ptr h (last E) = prevp" using heap_ok_before [OF assms(1) ns] .
  have base: "if E = [] then prevp = h_base h \<and> h_size h prevp = 0 else 0 < h_size h prevp" using k ns by (cases E) auto
  show ?thesis
  proof (cases "h_size h p = k")
    case True
    let ?h = "h\<lparr>h_ptr := (h_ptr h)(prevp := h_ptr h p), freep := prevp\<rparr>"
    have "heap_ok (E @ prevp # D) ?h"
    proof (rule heap_ok_replace [where M = "[prevp, p]"])
      show "heap_ok (E @ [prevp, p] @ D) h" using assms(1) ns by simp
      show "h_ptr ?h (last E) = prevp" if "E \<noteq> []" using pE [OF that] nin(1) last_in_set [OF that] by auto
      show "\<forall>e \<in> set D. prevp + h_size ?h prevp < e" using gs(3,4) by force
    qed (use nin gs D k ns base in \<open>auto dest: in_set_butlastD\<close>)
    moreover have "free_units (E @ prevp # D) ?h = free_units ns h - {p ..< p + k}"
    proof -
      have "free_units (E @ prevp # D) ?h = (\<Union>n \<in> set C. {n ..< n + h_size h n}) \<union> (\<Union>n \<in> set D. {n ..< n + h_size h n})"
        using E by (auto simp: free_units_def)
      then show ?thesis unfolding un using cut_out [OF noC order_refl] True by simp
    qed
    moreover have "{p ..< p + k} \<subseteq> free_units ns h" using un True by blast
    ultimately show ?thesis using True by (auto simp: hands_out_def taken_def)
  next
    case False
    then have lt: "k < h_size h p" using assms(5) by simp
    let ?q = "p + (h_size h p - k)"
    let ?h = "h\<lparr>h_size := (h_size h)(p := h_size h p - k, ?q := k), freep := prevp\<rparr>"
    have q: "?q \<in> {p ..< p + h_size h p}" "?q \<noteq> p" "?q + k = p + h_size h p" using lt assms(6) by auto
    have qn: "?q \<notin> set C" "?q \<notin> set D"
    proof -
      show "?q \<notin> set C" using gs(2) q(2) by force
      show "?q \<notin> set D" using gs(3) q(1) by force
    qed
    have "heap_ok (C @ p # D) ?h"
    proof (rule heap_ok_replace [where M = "[p]"])
      show "heap_ok (C @ [p] @ D) h" using assms(1) C(1) by simp
      show "h_ptr ?h (last C) = p" using assms(3) C(3) by simp
      show "\<forall>n \<in> set C \<union> set D. h_size ?h n = h_size h n" using qn nin by auto
      show "\<forall>e \<in> set D. p + h_size ?h p < e" using gs(3) q(2) by force
      have "p + h_size h p \<le> unat (brk h) div HDR" using k assms(4) by blast
      moreover have "h_size ?h p = h_size h p - k" using q(2) by (auto simp: fun_upd_def)
      ultimately show "p + h_size ?h p \<le> unat (brk h) div HDR" by linarith
      show "freep ?h \<in> set (C @ p # D)" using E by simp
    qed (use D gs C(2) lt q(2) in auto)
    moreover have "free_units (C @ p # D) ?h = free_units ns h - {?q ..< ?q + k}"
    proof -
      have sz: "h_size ?h n = h_size h n" if "n \<in> set C \<union> set D" for n using that qn nin by auto
      have "(\<Union>n \<in> set C. {n ..< n + h_size ?h n}) = (\<Union>n \<in> set C. {n ..< n + h_size h n})"
        "(\<Union>n \<in> set D. {n ..< n + h_size ?h n}) = (\<Union>n \<in> set D. {n ..< n + h_size h n})" by (rule SUP_cong [OF refl]; simp only: sz UnI1 UnI2)+
      moreover have "{p ..< p + h_size ?h p} = {p ..< p + h_size h p} - {?q ..< ?q + k}" using q by auto
      moreover have "free_units (C @ p # D) ?h = (\<Union>n \<in> set C. {n ..< n + h_size ?h n}) \<union> {p ..< p + h_size ?h p} \<union> (\<Union>n \<in> set D. {n ..< n + h_size ?h n})"
        unfolding free_units_def by auto
      moreover have "{?q ..< ?q + k} \<subseteq> {p ..< p + h_size h p}" using q by auto
      ultimately show ?thesis unfolding un using cut_out [OF noC] by simp
    qed
    moreover have "{?q ..< ?q + k} \<subseteq> free_units ns h" using un q by auto
    moreover have "\<forall>c. lent ns h c \<longrightarrow> h_size ?h c = h_size h c"
    proof (intro allI impI)
      fix c assume "lent ns h c"
      then show "h_size ?h c = h_size h c" by (rule cl) (use q assms(5,6) in auto)
    qed
    moreover have "taken prevp p k h = (?q, ?h)" using False by (simp add: taken_def Let_def)
    moreover have "h_size ?h ?q = k" "h_base ?h = h_base h" "brk ?h = brk h" by simp_all
    ultimately show ?thesis unfolding hands_out_def fst_conv snd_conv by (metis fst_conv snd_conv)
  qed
qed

section \<open>Allocation\<close>

declare malloc_loop.simps [simp del]

lemma malloc_take:
  assumes "unat nu \<le> h_size h p"
  shows "malloc_loop grow fuel (Suc n) nu prevp p h = Ok (fst (taken prevp p (unat nu) h) + 1) (snd (taken prevp p (unat nu) h))"
  using assms by (auto simp: malloc_loop.simps taken_def Let_def M_defs set_ptr_def set_size_def set_freep_def)

text \<open>The scan from one free block over the ones that follow it up to \<open>freep\<close>.\<close>

lemma malloc_scan:
  assumes "heap_ok ns h" "0 < unat nu"
    and "ys \<noteq> []" "linked (h_ptr h) ys z" "last ys = freep h" "distinct ys" "set ys \<subseteq> set ns" "prevp \<in> set ns" "h_ptr h prevp = hd ys" "length ys \<le> n"
  shows "(\<exists>q h'. malloc_loop grow fuel n nu prevp (hd ys) h = Ok (q + 1) h' \<and> hands_out ns h (unat nu) q h') \<or>
     (\<forall>y \<in> set ys. h_size h y < unat nu) \<and>
     malloc_loop grow fuel n nu prevp (hd ys) h =
       bindM (morecore grow fuel nu) (\<lambda>r. if r = 0 then ret 0
         else bindM (getS (\<lambda>h. h_ptr h r)) (malloc_loop grow fuel (n - length ys) nu r)) h"
  using assms(3-)
proof (induction ys arbitrary: prevp n)
  case (Cons y ys)
  obtain m where n: "n = Suc m" using Cons.prems(8) by (cases n) auto
  show ?case
  proof (cases "unat nu \<le> h_size h y")
    case True
    have "hands_out ns h (unat nu) (fst (taken prevp y (unat nu) h)) (snd (taken prevp y (unat nu) h))"
      by (rule taken_ok [OF assms(1)]) (use Cons.prems True assms(2) in auto)
    then show ?thesis using malloc_take [OF True] n by (metis list.sel(1))
  next
    case False
    show ?thesis
    proof (cases "y = freep h")
      case True
      then have e: "ys = []" using Cons.prems(3,4) by (metis distinct.simps(2) last_ConsR last_in_set)
      have "malloc_loop grow fuel n nu prevp y h = bindM (morecore grow fuel nu) (\<lambda>r. if r = 0 then ret 0
          else bindM (getS (\<lambda>h. h_ptr h r)) (malloc_loop grow fuel m nu r)) h"
        unfolding n using False True by (simp add: malloc_loop.simps bindM_def getS_def)
      moreover have len: "n - length (y # ys) = m" using e n by simp
      ultimately show ?thesis unfolding len using False e by simp
    next
      case nf: False
      then have ne: "ys \<noteq> []" using Cons.prems(3) by auto
      have step: "malloc_loop grow fuel n nu prevp y h = malloc_loop grow fuel m nu y (hd ys) h"
        using False nf n Cons.prems(2) ne by (simp add: malloc_loop.simps bindM_def getS_def hd_append)
      have "(\<exists>q h'. malloc_loop grow fuel m nu y (hd ys) h = Ok (q + 1) h' \<and> hands_out ns h (unat nu) q h') \<or>
         (\<forall>y \<in> set ys. h_size h y < unat nu) \<and>
         malloc_loop grow fuel m nu y (hd ys) h =
           bindM (morecore grow fuel nu) (\<lambda>r. if r = 0 then ret 0
             else bindM (getS (\<lambda>h. h_ptr h r)) (malloc_loop grow fuel (m - length ys) nu r)) h"
        by (rule Cons.IH) (use Cons.prems ne n in \<open>auto simp: hd_append\<close>)
      moreover have len: "n - length (y # ys) = m - length ys" using n by simp
      ultimately show ?thesis unfolding len using step False by auto
    qed
  qed
qed simp

text \<open>The blocks in the order of a scan, \<open>freep\<close> last.\<close>

lemma scan_order:
  assumes "heap_ok ns h"
  obtains ys where "ys \<noteq> []" "linked (h_ptr h) ys (hd ys)" "last ys = freep h" "distinct ys" "set ys = set ns" "length ys = length ns"
    "h_ptr h (freep h) = hd ys"
proof -
  note d = heap_okD [OF assms]
  obtain f where f: "f < length ns" "freep h = ns ! f" using heap_ok_freep [OF assms] by blast
  let ?A = "take (Suc f) ns" and ?B = "drop (Suc f) ns"
  have l: "linked (h_ptr h) ?A (hd (?B @ [hd ns]))" "linked (h_ptr h) ?B (hd ns)"
    using d(3) linked_append [of "h_ptr h" ?A ?B "hd ns"] by auto
  have A: "?A \<noteq> []" "hd ?A = hd ns" "last ?A = ns ! f" using d(1) f(1) by (auto simp: take_Suc_conv_app_nth hd_append hd_conv_nth)
  have "linked (h_ptr h) (?B @ ?A) (hd (?B @ ?A))" using l A d(3) by (auto simp: linked_append hd_append)
  moreover have "h_ptr h (ns ! f) = hd (?B @ ?A)"
  proof -
    have "linked (h_ptr h) (take f ns @ [ns ! f]) (hd (?B @ [hd ns]))" using l(1) f(1) by (simp add: take_Suc_conv_app_nth)
    then show ?thesis using A(1,2) by (simp add: linked_append hd_append)
  qed
  moreover have "set (?B @ ?A) = set ns" using set_append [of ?A ?B] by (simp only: append_take_drop_id set_append Un_commute)
  moreover have "distinct (?B @ ?A)" using d(4) by (metis append_take_drop_id distinct_append inf_commute)
  ultimately show thesis using that [of "?B @ ?A"] A f(2) by simp
qed

lemma interval_in_block:
  assumes "gaps sz ns" "{b ..< b + k} \<subseteq> (\<Union>n \<in> set ns. {n ..< n + sz n})" "0 < k"
  obtains n where "n \<in> set ns" "k \<le> sz n"
proof -
  have "b \<in> {b ..< b + k}" using assms(3) by simp
  then obtain n where n: "n \<in> set ns" "b \<in> {n ..< n + sz n}" using assms(2) by blast
  have "b + k \<le> n + sz n"
  proof (rule ccontr)
    assume "\<not> ?thesis"
    then have "n + sz n \<in> {b ..< b + k}" using n(2) by auto
    then obtain m where m: "m \<in> set ns" "n + sz n \<in> {m ..< m + sz m}" using assms(2) by blast
    then have "m \<noteq> n" by auto
    obtain i j where "i < length ns" "ns ! i = n" "j < length ns" "ns ! j = m" using n(1) m(1) by (auto simp: in_set_conv_nth)
    then have "n + sz n < m \<or> m + sz m < n"
      using \<open>m \<noteq> n\<close> assms(1) sorted_wrt_nth_less [of "\<lambda>a b. a + sz a < b" ns i j] sorted_wrt_nth_less [of "\<lambda>a b. a + sz a < b" ns j i]
      unfolding gaps_def by (metis linorder_neqE_nat)
    then show False using m(2) n(2) by auto
  qed
  then show thesis using that [of n] n by auto
qed

text \<open>
  What the allocator relies on in the kernel: a request to grow by a positive amount moves the end of the process by that
  amount, within the address space, or fails.
\<close>

definition grow_ok :: "(u32 \<Rightarrow> u32 \<Rightarrow> u32 option) \<Rightarrow> bool" where
  "grow_ok grow \<longleftrightarrow> (\<forall>b n b'. grow b n = Some b' \<longrightarrow> 0 < sint n \<longrightarrow> b' = b + n \<and> unat b + unat n < 2 ^ 32)"

definition brk_ok :: "heap \<Rightarrow> bool" where
  "brk_ok h \<longleftrightarrow> 8 dvd unat (brk h) \<and> h_base h < unat (brk h) div HDR"

lemma times8:
  assumes "8 * unat (nu :: u32) < 2 ^ 31" "0 < unat nu"
  shows "unat (nu * 8) = 8 * unat nu" "0 < sint (nu * 8)"
proof -
  show u: "unat (nu * 8) = 8 * unat nu" using assms(1) by (simp add: unat_word_ariths)
  have "sint (nu * 8) = int (8 * unat nu)" using sint_small [of "nu * 8"] assms(1) unfolding u by blast
  then show "0 < sint (nu * 8)" using assms(2) by linarith
qed

lemma morecore_ok:
  assumes "heap_ok ns h" "brk_ok h" "grow_ok grow" "length ns \<le> fuel" "8 * unat nu < 2 ^ 31" "0 < unat nu"
  shows "morecore grow fuel nu h = Ok 0 h \<and> grow (brk h) ((if nu < 4096 then 4096 else nu) * 8) = None \<or>
    (\<exists>ms h'. morecore grow fuel nu h = Ok (freep h') h' \<and> heap_ok ms h' \<and> length ms \<le> Suc (length ns) \<and> brk_ok h' \<and> h_base h' = h_base h \<and>
       free_units ms h' = free_units ns h \<union> {unat (brk h) div HDR ..< unat (brk h') div HDR} \<and> unat (brk h) \<le> unat (brk h') \<and>
       unat nu \<le> unat (brk h') div HDR - unat (brk h) div HDR \<and> (\<forall>c. lent ns h c \<longrightarrow> h_size h' c = h_size h c))"
proof -
  define n where "n = (if nu < 4096 then 4096 else nu)"
  have n: "8 * unat n < 2 ^ 31" "0 < unat n" "unat nu \<le> unat n" using assms(5,6) by (auto simp: n_def word_less_nat_alt)
  note t = times8 [OF n(1,2)]
  show ?thesis
  proof (cases "grow (brk h) (n * 8)")
    case None
    then have "morecore grow fuel nu h = Ok 0 h" by (simp add: morecore_def n_def [symmetric] sbrk_def M_defs Let_def)
    then show ?thesis using None unfolding n_def by blast
  next
    case (Some b')
    have g: "b' = brk h + n * 8" "unat (brk h) + unat (n * 8) < 2 ^ 32" using assms(3) Some t(2) unfolding grow_ok_def by blast+
    have ub: "unat b' = unat (brk h) + 8 * unat n" using g t(1) by (simp add: unat_word_ariths)
    let ?p = "unat (brk h) div HDR"
    let ?h1 = "h\<lparr>brk := b', h_size := (h_size h)(?p := unat n)\<rparr>"
    have dv: "unat b' div HDR = ?p + unat n" "8 dvd unat b'" using ub assms(2) by (auto simp: brk_ok_def HDR_def)
    have notin: "?p \<notin> set ns"
    proof
      assume "?p \<in> set ns"
      then have "?p + h_size h ?p \<le> ?p" "?p \<noteq> h_base h" using assms(1,2) by (auto simp: heap_ok_def brk_ok_def)
      moreover have "?p \<in> set (tl ns)" using \<open>?p \<in> set ns\<close> calculation(2) heap_okD(2) [OF assms(1)] by (metis set_ConsD)
      ultimately show False using assms(1) by (auto simp: heap_ok_def)
    qed
    have sz: "\<forall>x \<in> set ns. h_size ?h1 x = h_size h x" using notin by auto
    have h1: "heap_ok ns ?h1"
    proof -
      have "gaps (h_size h) ns" using assms(1) by (simp add: heap_ok_def)
      then have "gaps (h_size ?h1) ns" by (rule iffD2 [OF gaps_cong [OF sz]])
      moreover have "h_base h \<in> set ns" using assms(1) hd_in_set [OF heap_okD(1) [OF assms(1)]] by (simp add: heap_ok_def)
      then have "h_size ?h1 (h_base h) = 0" using sz assms(1) unfolding heap_ok_def by (metis (mono_tags))
      moreover have "\<forall>x \<in> set (tl ns). 0 < h_size ?h1 x"
      proof
        fix x assume x: "x \<in> set (tl ns)"
        then have "x \<in> set ns" by (rule list.set_sel(2) [OF heap_okD(1) [OF assms(1)]])
        then have "h_size ?h1 x = h_size h x" using sz by blast
        then show "0 < h_size ?h1 x" using x assms(1) by (simp only: heap_ok_def)
      qed
      moreover have "\<forall>x \<in> set ns. x + h_size ?h1 x \<le> unat b' div HDR"
      proof
        fix x assume x: "x \<in> set ns"
        then have "h_size ?h1 x = h_size h x" using sz by blast
        moreover have "x + h_size h x \<le> ?p" using x assms(1) by (simp add: heap_ok_def)
        ultimately show "x + h_size ?h1 x \<le> unat b' div HDR" using dv(1) by linarith
      qed
      ultimately show ?thesis using assms(1) by (simp add: heap_ok_def)
    qed
    have fu: "free_units ns ?h1 = free_units ns h" using sz unfolding free_units_def by (intro SUP_cong) auto
    have le: "lent ns ?h1 ?p"
    proof -
      have "x < ?p" if "x \<in> free_units ns h" for x using that assms(1) by (fastforce simp: free_units_def heap_ok_def)
      then have "{?p ..< ?p + unat n} \<inter> free_units ns ?h1 = {}" unfolding fu by force
      then show ?thesis using dv(1) n(2) assms(2) by (simp add: lent_def brk_ok_def)
    qed
    obtain ms h' where r: "free fuel (?p + 1) ?h1 = Ok () h'" "heap_ok ms h'" "free_units ms h' = free_units ns ?h1 \<union> {?p ..< ?p + h_size ?h1 ?p}"
      "length ms \<le> Suc (length ns)" "brk h' = brk ?h1" "h_base h' = h_base ?h1" "\<forall>x. x \<notin> set ns \<and> x \<noteq> ?p \<longrightarrow> h_size h' x = h_size ?h1 x"
      using free_ok [OF h1 le assms(4)] .
    have "morecore grow fuel nu h = Ok (freep h') h'"
      using Some r(1) by (simp add: morecore_def n_def [symmetric] sbrk_def M_defs Let_def set_size_def)
    moreover have "h_size h' c = h_size h c" if c: "lent ns h c" for c
    proof -
      have "c < ?p" "c \<notin> set ns" using lent_not_node [OF assms(1) c] c by (auto simp: lent_def)
      then show ?thesis using r(7) by simp
    qed
    moreover have "brk_ok h'" using r(5,6) dv assms(2) by (simp add: brk_ok_def)
    ultimately show ?thesis using r(2-6) fu dv n(3) ub by auto
  qed
qed

lemma malloc_loop_ok:
  assumes "heap_ok ns h" "brk_ok h" "grow_ok grow" "length ns \<le> fuel" "2 * length ns + 1 \<le> n" "8 * unat nu < 2 ^ 31" "0 < unat nu"
  shows "(\<exists>q ms h1 h'. malloc_loop grow fuel n nu (freep h) (h_ptr h (freep h)) h = Ok (q + 1) h' \<and> heap_ok ms h1 \<and>
       hands_out ms h1 (unat nu) q h' \<and> brk_ok h1 \<and> h_base h1 = h_base h \<and> unat (brk h) \<le> unat (brk h1) \<and>
       free_units ms h1 = free_units ns h \<union> {unat (brk h) div HDR ..< unat (brk h1) div HDR} \<and>
       (\<forall>c. lent ns h c \<longrightarrow> h_size h1 c = h_size h c)) \<or>
    malloc_loop grow fuel n nu (freep h) (h_ptr h (freep h)) h = Ok 0 h \<and> (\<forall>y \<in> set ns. h_size h y < unat nu) \<and>
       grow (brk h) ((if nu < 4096 then 4096 else nu) * 8) = None"
proof -
  have f: "freep h \<in> set ns" using assms(1) by (simp add: heap_ok_def)
  obtain ys where ys: "ys \<noteq> []" "linked (h_ptr h) ys (hd ys)" "last ys = freep h" "distinct ys" "set ys = set ns" "length ys = length ns"
    "h_ptr h (freep h) = hd ys" using scan_order [OF assms(1)] .
  let ?n = "n - length ys"
  have len: "length ys \<le> n" using ys(6) assms(5) by simp
  have scan: "(\<exists>q h'. malloc_loop grow fuel n nu (freep h) (hd ys) h = Ok (q + 1) h' \<and> hands_out ns h (unat nu) q h') \<or>
     (\<forall>y \<in> set ys. h_size h y < unat nu) \<and>
     malloc_loop grow fuel n nu (freep h) (hd ys) h =
       bindM (morecore grow fuel nu) (\<lambda>r. if r = 0 then ret 0
         else bindM (getS (\<lambda>h. h_ptr h r)) (malloc_loop grow fuel ?n nu r)) h"
    by (rule malloc_scan [OF assms(1,7) ys(1-4) _ f ys(7) len]) (simp add: ys(5))
  note more = morecore_ok [OF assms(1-4,6,7)]
  show ?thesis
  proof (cases "\<exists>q h'. malloc_loop grow fuel n nu (freep h) (hd ys) h = Ok (q + 1) h' \<and> hands_out ns h (unat nu) q h'")
    case False
    then have small: "\<forall>y \<in> set ns. h_size h y < unat nu" using scan ys(5) by blast
    have ml: "malloc_loop grow fuel n nu (freep h) (hd ys) h =
       bindM (morecore grow fuel nu) (\<lambda>r. if r = 0 then ret 0
         else bindM (getS (\<lambda>h. h_ptr h r)) (malloc_loop grow fuel ?n nu r)) h" using scan False by blast
    show ?thesis
    proof (cases "morecore grow fuel nu h = Ok 0 h \<and> grow (brk h) ((if nu < 4096 then 4096 else nu) * 8) = None")
      case True
      then have "malloc_loop grow fuel n nu (freep h) (h_ptr h (freep h)) h = Ok 0 h" using ml ys(7) by (simp add: bindM_def ret_def)
      then show ?thesis using small True by blast
    next
      case nf: False
      then obtain ms h1 where m: "morecore grow fuel nu h = Ok (freep h1) h1" "heap_ok ms h1" "length ms \<le> Suc (length ns)" "brk_ok h1" "h_base h1 = h_base h"
        "free_units ms h1 = free_units ns h \<union> {unat (brk h) div HDR ..< unat (brk h1) div HDR}" "unat (brk h) \<le> unat (brk h1)"
        "unat nu \<le> unat (brk h1) div HDR - unat (brk h) div HDR" "\<forall>c. lent ns h c \<longrightarrow> h_size h1 c = h_size h c" using more by blast
      have f1: "freep h1 \<in> set ms" "0 < freep h1" using m(2) heap_okD(7) [OF m(2), of "freep h1"] by (auto simp: heap_ok_def)
      obtain zs where zs: "zs \<noteq> []" "linked (h_ptr h1) zs (hd zs)" "last zs = freep h1" "distinct zs" "set zs = set ms" "length zs = length ms"
        "h_ptr h1 (freep h1) = hd zs" using scan_order [OF m(2)] .
      let ?b = "unat (brk h) div HDR"
      have "{?b ..< ?b + unat nu} \<subseteq> {?b ..< unat (brk h1) div HDR}" using m(8) by auto
      then have "{?b ..< ?b + unat nu} \<subseteq> free_units ms h1" using m(6) by blast
      moreover have "gaps (h_size h1) ms" using m(2) by (simp add: heap_ok_def)
      ultimately obtain z where z: "z \<in> set ms" "unat nu \<le> h_size h1 z"
        using interval_in_block [of "h_size h1" ms ?b "unat nu"] assms(7) unfolding free_units_def by blast
      have "(\<exists>q h'. malloc_loop grow fuel ?n nu (freep h1) (hd zs) h1 = Ok (q + 1) h' \<and> hands_out ms h1 (unat nu) q h') \<or>
         (\<forall>y \<in> set zs. h_size h1 y < unat nu) \<and>
         malloc_loop grow fuel ?n nu (freep h1) (hd zs) h1 =
           bindM (morecore grow fuel nu) (\<lambda>r. if r = 0 then ret 0
             else bindM (getS (\<lambda>h. h_ptr h r)) (malloc_loop grow fuel (?n - length zs) nu r)) h1"
        by (rule malloc_scan [OF m(2) assms(7) zs(1-4) _ f1(1) zs(7)]) (use zs(5,6) m(3) ys(6) assms(5) in auto)
      moreover have "\<not> (\<forall>y \<in> set zs. h_size h1 y < unat nu)" using z zs(5) by (auto simp: not_less)
      ultimately obtain q h' where q: "malloc_loop grow fuel ?n nu (freep h1) (hd zs) h1 = Ok (q + 1) h'" "hands_out ms h1 (unat nu) q h'" by blast
      have "malloc_loop grow fuel n nu (freep h) (hd ys) h = Ok (q + 1) h'"
        unfolding ml using m(1) q(1) zs(7) f1(2) by (simp add: bindM_def getS_def)
      then show ?thesis unfolding ys(7) using q(2) m(2,4-7,9) by blast
    qed
  next
    case True
    then obtain q h' where q: "malloc_loop grow fuel n nu (freep h) (hd ys) h = Ok (q + 1) h'" "hands_out ns h (unat nu) q h'" by blast
    have "free_units ns h = free_units ns h \<union> {unat (brk h) div HDR ..< unat (brk h) div HDR}" by simp
    then show ?thesis unfolding ys(7) using q assms(1,2) order_refl by metis
  qed
qed

lemma lent_grown:
  assumes "lent ns h c" "h_base h1 = h_base h" "unat (brk h) \<le> unat (brk h1)" "h_size h1 c = h_size h c"
    "free_units ms h1 = free_units ns h \<union> {unat (brk h) div HDR ..< unat (brk h1) div HDR}"
  shows "lent ms h1 c"
proof -
  have "unat (brk h) div HDR \<le> unat (brk h1) div HDR" using assms(3) by (rule div_le_mono)
  moreover have "{c ..< c + h_size h c} \<inter> {unat (brk h) div HDR ..< unat (brk h1) div HDR} = {}" using assms(1) by (auto simp: lent_def)
  ultimately show ?thesis using assms by (auto simp: lent_def)
qed

lemma hands_outD:
  assumes "heap_ok ms h1" "hands_out ms h1 k q h'" "0 < k"
  obtains ns' where "heap_ok ns' h'" "lent ns' h' q"
    "\<forall>c. lent ms h1 c \<longrightarrow> lent ns' h' c \<and> h_size h' c = h_size h1 c \<and> {c ..< c + h_size h1 c} \<inter> {q ..< q + k} = {}"
proof -
  note o = assms(2) [unfolded hands_out_def]
  obtain ns' where ns': "heap_ok ns' h'" "free_units ns' h' = free_units ms h1 - {q ..< q + k}" using o by blast
  have "q \<in> free_units ms h1" "q + k - 1 \<in> free_units ms h1" using o assms(3) by auto
  then obtain n m where n: "n \<in> set ms" "q \<in> {n ..< n + h_size h1 n}" and m: "m \<in> set ms" "q + k - 1 < m + h_size h1 m" by (auto simp: free_units_def)
  have "n \<noteq> h_base h1" using n assms(1) by (auto simp: heap_ok_def)
  then have "h_base h1 < q" using heap_okD(7) [OF assms(1) n(1)] n(2) by auto
  moreover have "m + h_size h1 m \<le> unat (brk h1) div HDR" using m(1) assms(1) by (simp add: heap_ok_def)
  then have "q + k \<le> unat (brk h1) div HDR" using m(2) by linarith
  ultimately have "lent ns' h' q" using o ns'(2) assms(3) by (simp add: lent_def)
  moreover have "lent ns' h' c \<and> h_size h' c = h_size h1 c \<and> {c ..< c + h_size h1 c} \<inter> {q ..< q + k} = {}" if c: "lent ms h1 c" for c
  proof -
    have s: "h_size h' c = h_size h1 c" using o c by blast
    have d: "{c ..< c + h_size h1 c} \<inter> free_units ms h1 = {}" using c by (simp add: lent_def)
    then have "{c ..< c + h_size h1 c} \<inter> {q ..< q + k} = {}" using o by blast
    moreover have "lent ns' h' c" using c s o d ns'(2) by (auto simp: lent_def)
    ultimately show ?thesis using s by blast
  qed
  ultimately show thesis using that ns'(1) by blast
qed

text \<open>The heap when \<open>malloc\<close> has set up the empty list, which it does on its first call.\<close>

definition started :: "heap \<Rightarrow> heap" where
  "started h = (if freep h = 0 then h\<lparr>h_ptr := (h_ptr h)(h_base h := h_base h), freep := h_base h, h_size := (h_size h)(h_base h := 0)\<rparr> else h)"

lemma started_first: "freep h = 0 \<Longrightarrow> 0 < h_base h \<Longrightarrow> brk_ok h \<Longrightarrow> heap_ok [h_base h] (started h) \<and> brk_ok (started h)"
  by (simp add: started_def heap_ok_def brk_ok_def)

lemma malloc_started:
  assumes "heap_ok ns (started h)"
  shows "malloc grow fuel nbytes h = malloc_loop grow fuel fuel ((nbytes + 8 - 1) div 8 + 1) (freep (started h)) (h_ptr (started h) (freep (started h))) (started h)"
  by (simp add: malloc_def started_def M_defs Let_def set_ptr_def set_size_def set_freep_def)

lemma nunits:
  assumes "unat (nbytes :: u32) + 15 < 2 ^ 31"
  shows "unat ((nbytes + 8 - 1) div 8 + 1) = (unat nbytes + 7) div 8 + 1"
proof -
  have e: "nbytes + 8 - 1 = nbytes + 7" by simp
  have "unat (nbytes + 7) = unat nbytes + 7" using assms by (simp add: unat_word_ariths)
  then have "unat ((nbytes + 7) div 8) = (unat nbytes + 7) div 8" using unat_div [of "nbytes + 7" 8] by simp
  then show ?thesis unfolding e using assms by (simp add: unat_word_ariths)
qed

text \<open>
  C13: \<open>malloc\<close> hands out memory of its own. In a heap with a sound free list, asked for less than two gigabytes, it returns: 0, with
  the heap as it was, and then only when no free block is large enough and the kernel refuses to grow the process by what is missing; or else a block of at least the bytes asked for, with its header,
  all of it free before or beyond the old end of the process, and free no longer. The free list stays sound; every block in use keeps its header and its units,
  none of which are handed out.
\<close>

theorem malloc_fresh:
  fixes h0 :: heap
  defines "h \<equiv> started h0"
  assumes "heap_ok ns h" "brk_ok h" "grow_ok grow" "2 * length ns + 1 \<le> fuel" "unat nbytes + 15 < 2 ^ 31"
  shows "malloc grow fuel nbytes h0 = Ok 0 h \<and> (\<forall>n \<in> set ns. h_size h n < (unat nbytes + 7) div 8 + 1) \<and>
       grow (brk h) (of_nat (8 * max 4096 ((unat nbytes + 7) div 8 + 1))) = None \<or>
    (\<exists>q ms h'. malloc grow fuel nbytes h0 = Ok (q + 1) h' \<and> heap_ok ms h' \<and> brk_ok h' \<and> lent ms h' q \<and> unat nbytes \<le> HDR * (h_size h' q - 1) \<and>
       {q ..< q + h_size h' q} \<subseteq> free_units ns h \<union> {unat (brk h) div HDR ..< unat (brk h') div HDR} \<and>
       (\<forall>c. lent ns h c \<longrightarrow> lent ms h' c \<and> h_size h' c = h_size h c \<and> {c ..< c + h_size h c} \<inter> {q ..< q + h_size h' q} = {}))"
proof -
  define nu :: u32 where "nu = (nbytes + 8 - 1) div 8 + 1"
  have nu: "unat nu = (unat nbytes + 7) div 8 + 1" unfolding nu_def by (rule nunits [OF assms(6)])
  have k: "8 * unat nu < 2 ^ 31" "0 < unat nu" "unat nbytes \<le> HDR * (unat nu - 1)" using nu assms(6) by (simp_all add: HDR_def)
  have m: "malloc grow fuel nbytes h0 = malloc_loop grow fuel fuel nu (freep h) (h_ptr h (freep h)) h"
    unfolding nu_def h_def by (rule malloc_started) (use assms(1,2) in simp)
  have fl: "length ns \<le> fuel" using assms(5) by simp
  show ?thesis
  proof (cases "malloc grow fuel nbytes h0 = Ok 0 h \<and> (\<forall>n \<in> set ns. h_size h n < unat nu) \<and> grow (brk h) ((if nu < 4096 then 4096 else nu) * 8) = None")
    case True
    have "(if nu < 4096 then 4096 else nu) * 8 = of_nat (8 * max 4096 (unat nu))" by (auto simp: word_less_nat_alt max_def)
    then show ?thesis using True unfolding nu by metis
  next
    case False
    then obtain q ms h1 h' where q: "malloc grow fuel nbytes h0 = Ok (q + 1) h'" "heap_ok ms h1" "hands_out ms h1 (unat nu) q h'" "brk_ok h1" "h_base h1 = h_base h"
      "unat (brk h) \<le> unat (brk h1)" "free_units ms h1 = free_units ns h \<union> {unat (brk h) div HDR ..< unat (brk h1) div HDR}"
      "\<forall>c. lent ns h c \<longrightarrow> h_size h1 c = h_size h c"
      using malloc_loop_ok [OF assms(2-4) fl assms(5) k(1,2)] unfolding m by blast
    obtain ns' where n: "heap_ok ns' h'" "lent ns' h' q"
      "\<forall>c. lent ms h1 c \<longrightarrow> lent ns' h' c \<and> h_size h' c = h_size h1 c \<and> {c ..< c + h_size h1 c} \<inter> {q ..< q + unat nu} = {}"
      using hands_outD [OF q(2,3) k(2)] .
    have s: "h_size h' q = unat nu" "brk h' = brk h1" "h_base h' = h_base h1" "{q ..< q + unat nu} \<subseteq> free_units ms h1" using q(3) by (auto simp: hands_out_def)
    have "lent ns' h' c \<and> h_size h' c = h_size h c \<and> {c ..< c + h_size h c} \<inter> {q ..< q + unat nu} = {}" if c: "lent ns h c" for c
    proof -
      have e: "h_size h1 c = h_size h c" using q(8) c by blast
      have "lent ms h1 c" by (rule lent_grown [OF c q(5,6) e q(7)])
      then show ?thesis using n(3) e by metis
    qed
    moreover have "brk_ok h'" using q(4) s by (simp add: brk_ok_def)
    ultimately show ?thesis using q(1,7) n(1,2) s k(3) by auto
  qed
qed

text \<open>
  The size computation wraps: a request for the largest unsigned number is served as one for no bytes at all.
\<close>

lemma malloc_wraps: "malloc grow fuel (- 1) h = malloc grow fuel 0 h"
proof -
  have "((- 1 :: u32) + 8 - 1) div 8 + 1 = (0 + 8 - 1) div 8 + 1" by (simp add: word_arith_nat_div)
  then show ?thesis by (simp only: malloc_def)
qed

section \<open>An example\<close>

definition demo_grow :: "u32 \<Rightarrow> u32 \<Rightarrow> u32 option" where
  "demo_grow b n = (if unat b + unat n < 2 ^ 31 then Some (b + n) else None)"

lemma demo_grow_ok: "grow_ok demo_grow"
  by (auto simp: grow_ok_def demo_grow_def)

definition demo_heap :: heap where
  "demo_heap = \<lparr>h_ptr = (\<lambda>p. if p = 2 then 20 else 2), h_size = (\<lambda>p. if p = 10 then 5 else if p = 20 then 40 else 0), h_base = 2, freep = 2, brk = 800\<rparr>"

lemma demo_heap_ok: "heap_ok [2, 20] demo_heap" "brk_ok demo_heap" "lent [2, 20] demo_heap 10" "started demo_heap = demo_heap"
  by (simp_all add: heap_ok_def demo_heap_def HDR_def brk_ok_def lent_def free_units_def started_def)

theorem free_gives_back_witness:
  "\<exists>ms h'. free 2 (10 + 1) demo_heap = Ok () h' \<and> heap_ok ms h' \<and> free_units ms h' = {20 ..< 60} \<union> {10 ..< 15}"
proof -
  have "free_units [2, 20] demo_heap = {20 ..< 60}" "h_size demo_heap 10 = 5" by (simp_all add: free_units_def demo_heap_def)
  then show ?thesis using free_gives_back [OF demo_heap_ok(1,3), of 2] by auto
qed

theorem malloc_fresh_witness:
  "\<exists>h' ms. malloc demo_grow 5 100 demo_heap = Ok 47 h' \<and> heap_ok ms h' \<and> lent ms h' 46 \<and> lent ms h' 10 \<and> h_size h' 10 = 5"
proof -
  have r: "(case malloc demo_grow 5 100 demo_heap of Ok q _ \<Rightarrow> q = 47 | _ \<Rightarrow> False)" by code_simp
  have "h_size demo_heap 10 = 5" by (simp add: demo_heap_def)
  then show ?thesis using r malloc_fresh [of "[2, 20]" demo_heap demo_grow 5 100] demo_heap_ok demo_grow_ok by (auto split: outcome.splits)
qed

end
