(* ===== verification/Cricket.thy ===== *)
theory Cricket
  imports Prelude "HOL-Library.Multiset"
begin

text \<open>
  The cricket tournament of lab 7 with semaphores, \<^verbatim>\<open>src/lab7/lab7/cricket-semaphores.c\<close>: one thread per player runs \<open>bat\<close>, one thread, the
  umpire, runs \<open>startGame\<close>, and \<open>main\<close> starts and joins them. The threads interleave freely between their operations on the semaphores;
  the code between taking and giving back the mutex is one step, which \<open>sem_inv\<close> justifies, since it shows that at most one thread is there.
  The counters stay far below the bounds of \<open>int\<close> (a team scores at most 1100 runs) and are natural numbers here. The thread that
  \<open>main\<close> has not created yet is one that has not taken its first step.
\<close>

section \<open>The program\<close>

text \<open>
  Where a thread is, between two operations on semaphores. A player waits at the barrier, then for the mutex, bats, gives the mutex back and is
  gone; the umpire looks whether there is a match left, waits for the signal, for the mutex, scores, opens the barrier with 22 posts
  and gives the mutex back.
\<close>

datatype pstate = AtBarrier | AtMut | Batting | Leaving | Gone

datatype ustate = Checking | AwaitSig | AwaitMut | Scoring | Posting nat | Unlocking | Retired

text \<open>What is printed for a match: its number, the scores of both teams and the highest individual score.\<close>

type_synonym summary = "nat \<times> nat \<times> nat \<times> nat"

record game =
  player :: "pstate list"
  umpire :: ustate
  barrier :: nat
  mut :: nat
  sig :: nat
  counter_capital :: nat
  counter_titan :: nat
  capital_score :: nat
  titan_score :: nat
  maxscore :: nat
  matchno :: nat
  individual_score :: nat
  titanswin :: nat
  capitalswin :: nat
  tied :: nat
  permatchscore :: nat
  gameover :: bool
  matches :: nat
  printed_out :: "summary list"

definition init_game :: "nat \<Rightarrow> game" where
  "init_game threadNum =
     \<lparr>player = replicate threadNum AtBarrier, umpire = Checking, barrier = 22, mut = 1, sig = 0,
      counter_capital = 0, counter_titan = 0, capital_score = 0, titan_score = 0, maxscore = 0, matchno = 0, individual_score = 0,
      titanswin = 0, capitalswin = 0, tied = 0, permatchscore = 0, gameover = False, matches = threadNum div 22, printed_out = []\<rparr>"

text \<open>The body of \<open>bat\<close> under the mutex, for the value \<open>run\<close> of \<open>rand() % 101\<close>.\<close>

definition bat_body :: "nat \<Rightarrow> game \<Rightarrow> game" where
  "bat_body run g =
     (if counter_capital g < 11 then
        g\<lparr>counter_capital := counter_capital g + 1, capital_score := capital_score g + run,
          individual_score := (if run > individual_score g then run else individual_score g),
          permatchscore := (if run > permatchscore g then run else permatchscore g)\<rparr>
      else
        (let g = g\<lparr>counter_titan := counter_titan g + 1, titan_score := titan_score g + run,
              individual_score := (if run > individual_score g then run else individual_score g),
              permatchscore := (if run > permatchscore g then run else permatchscore g)\<rparr>
         in if counter_titan g = 11 then g\<lparr>gameover := True, sig := sig g + 1\<rparr> else g))"

text \<open>The body of \<open>startGame\<close> under the mutex, up to the loop that opens the barrier.\<close>

definition score_body :: "game \<Rightarrow> game" where
  "score_body g =
     (let g = g\<lparr>matchno := matchno g + 1\<rparr>;
          g = g\<lparr>printed_out := printed_out g @ [(matchno g, capital_score g, titan_score g, permatchscore g)]\<rparr>;
          g = (if capital_score g > titan_score g then
                 g\<lparr>capitalswin := capitalswin g + 1, maxscore := (if capital_score g > maxscore g then capital_score g else maxscore g)\<rparr>
               else if titan_score g > capital_score g then
                 g\<lparr>titanswin := titanswin g + 1, maxscore := (if titan_score g > maxscore g then titan_score g else maxscore g)\<rparr>
               else
                 g\<lparr>tied := tied g + 1, maxscore := (if capital_score g > maxscore g then capital_score g else maxscore g)\<rparr>)
      in g\<lparr>gameover := False, permatchscore := 0, counter_capital := 0, counter_titan := 0, capital_score := 0, titan_score := 0\<rparr>)"

definition move :: "nat \<Rightarrow> pstate \<Rightarrow> game \<Rightarrow> game" where
  "move i p g = g\<lparr>player := (player g)[i := p]\<rparr>"

text \<open>
  One operation of one thread; the list holds the run scored in it, if any. \<open>sem_wait\<close> is a step only when the semaphore is positive.
\<close>

inductive gstep :: "game \<Rightarrow> nat list \<Rightarrow> game \<Rightarrow> bool" where
  enter: "i < length (player g) \<Longrightarrow> player g ! i = AtBarrier \<Longrightarrow> 0 < barrier g \<Longrightarrow>
    gstep g [] ((move i AtMut g)\<lparr>barrier := barrier g - 1\<rparr>)"
| lock: "i < length (player g) \<Longrightarrow> player g ! i = AtMut \<Longrightarrow> 0 < mut g \<Longrightarrow>
    gstep g [] ((move i Batting g)\<lparr>mut := mut g - 1\<rparr>)"
| bat: "i < length (player g) \<Longrightarrow> player g ! i = Batting \<Longrightarrow> run < 101 \<Longrightarrow> gstep g [run] (bat_body run (move i Leaving g))"
| leave: "i < length (player g) \<Longrightarrow> player g ! i = Leaving \<Longrightarrow> gstep g [] ((move i Gone g)\<lparr>mut := mut g + 1\<rparr>)"
| check: "umpire g = Checking \<Longrightarrow> gstep g [] (g\<lparr>umpire := (if matchno g < matches g then AwaitSig else Retired)\<rparr>)"
| await: "umpire g = AwaitSig \<Longrightarrow> 0 < sig g \<Longrightarrow> gstep g [] (g\<lparr>umpire := AwaitMut, sig := sig g - 1\<rparr>)"
| ulock: "umpire g = AwaitMut \<Longrightarrow> 0 < mut g \<Longrightarrow> gstep g [] (g\<lparr>umpire := Scoring, mut := mut g - 1\<rparr>)"
| score: "umpire g = Scoring \<Longrightarrow> gstep g [] ((score_body g)\<lparr>umpire := Posting 0\<rparr>)"
| post: "umpire g = Posting j \<Longrightarrow> j < 22 \<Longrightarrow> gstep g [] (g\<lparr>umpire := Posting (j + 1), barrier := barrier g + 1\<rparr>)"
| posted: "umpire g = Posting 22 \<Longrightarrow> gstep g [] (g\<lparr>umpire := Unlocking\<rparr>)"
| uunlock: "umpire g = Unlocking \<Longrightarrow> gstep g [] (g\<lparr>umpire := Checking, mut := mut g + 1\<rparr>)"

text \<open>
  The numbers of the summary of the day, which \<open>main\<close> prints when it has joined all threads: the matches; for the Titans and then
  for the Capitals the matches won, lost and tied; the highest team score and the highest individual score.
\<close>

definition day_summary :: "game \<Rightarrow> nat list" where
  "day_summary g = [matches g, titanswin g, capitalswin g, tied g, capitalswin g, titanswin g, tied g, maxscore g, individual_score g]"

text \<open>\<open>grun n rs g h\<close>: \<open>n\<close> steps lead from \<open>g\<close> to \<open>h\<close>, and \<open>rs\<close> are the runs scored on the way.\<close>

inductive grun :: "nat \<Rightarrow> nat list \<Rightarrow> game \<Rightarrow> game \<Rightarrow> bool" where
  here: "grun 0 [] g g"
| next_step: "grun n rs g h \<Longrightarrow> gstep h ls k \<Longrightarrow> grun (Suc n) (rs @ ls) g k"

section \<open>The invariant\<close>

definition cnt :: "pstate \<Rightarrow> game \<Rightarrow> nat" where
  "cnt p g = count (mset (player g)) p"

lemma cnt_cong: "player h = player g \<Longrightarrow> cnt p h = cnt p g"
  by (simp add: cnt_def)

abbreviation batted :: "game \<Rightarrow> nat" where
  "batted g \<equiv> counter_capital g + counter_titan g"

definition in_match :: "ustate \<Rightarrow> bool" where
  "in_match u \<longleftrightarrow> u = Scoring \<or> (\<exists>j. u = Posting j) \<or> u = Unlocking"

definition sem_inv :: "game \<Rightarrow> bool" where
  "sem_inv g \<longleftrightarrow>
     mut g + cnt Batting g + cnt Leaving g + (if in_match (umpire g) then 1 else 0) = 1 \<and>
     counter_capital g \<le> 11 \<and> counter_titan g \<le> 11 \<and> (0 < counter_titan g \<longrightarrow> counter_capital g = 11) \<and>
     barrier g + cnt AtMut g + cnt Batting g + batted g = (case umpire g of Posting j \<Rightarrow> j | _ \<Rightarrow> 22) \<and>
     sig g + (if umpire g = AwaitMut \<or> umpire g = Scoring then 1 else 0) = (if batted g = 22 then 1 else 0) \<and>
     cnt Leaving g + cnt Gone g = 22 * matchno g + batted g \<and>
     matches g = length (player g) div 22 \<and>
     (case umpire g of Checking \<Rightarrow> matchno g \<le> matches g | AwaitSig \<Rightarrow> matchno g < matches g | AwaitMut \<Rightarrow> matchno g < matches g
        | Scoring \<Rightarrow> matchno g < matches g | Posting j \<Rightarrow> matchno g \<le> matches g \<and> j \<le> 22 \<and> batted g = 0 \<and> cnt Batting g = 0
        | Unlocking \<Rightarrow> matchno g \<le> matches g | Retired \<Rightarrow> matchno g = matches g)"

lemma total: "cnt AtBarrier g + cnt AtMut g + cnt Batting g + cnt Leaving g + cnt Gone g = length (player g)"
proof -
  have "count (mset ps) AtBarrier + count (mset ps) AtMut + count (mset ps) Batting + count (mset ps) Leaving + count (mset ps) Gone = length ps" for ps
  proof (induction ps)
    case (Cons p ps)
    then show ?case by (cases p) auto
  qed simp
  then show ?thesis unfolding cnt_def .
qed

lemma cnt_move:
  assumes "i < length (player g)" "player g ! i = p" "p \<noteq> q"
  shows "cnt p g = Suc (cnt p (move i q g))" "cnt q (move i q g) = Suc (cnt q g)" "r \<noteq> p \<Longrightarrow> r \<noteq> q \<Longrightarrow> cnt r (move i q g) = cnt r g"
proof -
  have "p \<in># mset (player g)" using assms by (metis nth_mem_mset)
  then show "cnt p g = Suc (cnt p (move i q g))" "cnt q (move i q g) = Suc (cnt q g)" "r \<noteq> p \<Longrightarrow> r \<noteq> q \<Longrightarrow> cnt r (move i q g) = cnt r g"
    using assms unfolding cnt_def by (simp_all add: move_def mset_update)
qed
lemma cnt_init: "cnt p (init_game n) = (if p = AtBarrier then n else 0)"
  by (simp add: cnt_def init_game_def)

lemma sem_inv_init: "sem_inv (init_game n)"
  unfolding sem_inv_def cnt_init by (simp add: init_game_def in_match_def)

lemma cnt_updates [simp]:
  "cnt p (g\<lparr>umpire := u\<rparr>) = cnt p g" "cnt p (g\<lparr>barrier := n\<rparr>) = cnt p g" "cnt p (g\<lparr>mut := n\<rparr>) = cnt p g" "cnt p (g\<lparr>sig := n\<rparr>) = cnt p g"
  by (rule cnt_cong, simp)+

lemma move_simps [simp]:
  "umpire (move i p g) = umpire g" "barrier (move i p g) = barrier g" "mut (move i p g) = mut g" "sig (move i p g) = sig g"
  "counter_capital (move i p g) = counter_capital g" "counter_titan (move i p g) = counter_titan g" "matchno (move i p g) = matchno g"
  "matches (move i p g) = matches g" "length (player (move i p g)) = length (player g)" "capital_score (move i p g) = capital_score g"
  "titan_score (move i p g) = titan_score g" "permatchscore (move i p g) = permatchscore g" "individual_score (move i p g) = individual_score g"
  "printed_out (move i p g) = printed_out g" "titanswin (move i p g) = titanswin g" "capitalswin (move i p g) = capitalswin g"
  "tied (move i p g) = tied g" "maxscore (move i p g) = maxscore g"
  by (simp_all add: move_def)

lemma bat_body_simps [simp]:
  "player (bat_body r g) = player g" "umpire (bat_body r g) = umpire g" "barrier (bat_body r g) = barrier g" "mut (bat_body r g) = mut g"
  "matchno (bat_body r g) = matchno g" "matches (bat_body r g) = matches g" "printed_out (bat_body r g) = printed_out g"
  "titanswin (bat_body r g) = titanswin g" "capitalswin (bat_body r g) = capitalswin g" "tied (bat_body r g) = tied g" "maxscore (bat_body r g) = maxscore g" "cnt p (bat_body r g) = cnt p g"
  by (simp_all add: bat_body_def Let_def cnt_def)

lemma score_body_simps [simp]:
  "player (score_body g) = player g" "barrier (score_body g) = barrier g" "mut (score_body g) = mut g" "sig (score_body g) = sig g"
  "matchno (score_body g) = Suc (matchno g)" "matches (score_body g) = matches g" "counter_capital (score_body g) = 0" "counter_titan (score_body g) = 0"
  "capital_score (score_body g) = 0" "titan_score (score_body g) = 0" "permatchscore (score_body g) = 0" "individual_score (score_body g) = individual_score g"
  "printed_out (score_body g) = printed_out g @ [(Suc (matchno g), capital_score g, titan_score g, permatchscore g)]"
  "cnt p (score_body g) = cnt p g"
  by (simp_all add: score_body_def Let_def cnt_def)

lemma sem_inv_enter:
  assumes "sem_inv g" "i < length (player g)" "player g ! i = AtBarrier" "0 < barrier g"
  shows "sem_inv ((move i AtMut g)\<lparr>barrier := barrier g - 1\<rparr>)"
  using assms(1,4) cnt_move [OF assms(2,3), of AtMut] unfolding sem_inv_def by (cases "umpire g") (simp_all add: in_match_def)

lemma sem_inv_lock:
  assumes "sem_inv g" "i < length (player g)" "player g ! i = AtMut" "0 < mut g"
  shows "sem_inv ((move i Batting g)\<lparr>mut := mut g - 1\<rparr>)"
  using assms(1,4) cnt_move [OF assms(2,3), of Batting] unfolding sem_inv_def by (cases "umpire g") (simp_all add: in_match_def)

lemma sem_inv_leave:
  assumes "sem_inv g" "i < length (player g)" "player g ! i = Leaving"
  shows "sem_inv ((move i Gone g)\<lparr>mut := mut g + 1\<rparr>)"
  using assms(1) cnt_move [OF assms(2,3), of Gone] unfolding sem_inv_def by (cases "umpire g") (simp_all add: in_match_def)

text \<open>Somebody batting means that the umpire is outside the mutex and the match is not over.\<close>

lemma batting_in_match:
  assumes "sem_inv g" "i < length (player g)" "player g ! i = Batting"
  shows "\<not> in_match (umpire g)" "batted g < 22" "sig g = 0" "umpire g \<noteq> AwaitMut"
proof -
  have c: "0 < cnt Batting g" using assms(2,3) by (metis cnt_def count_greater_zero_iff nth_mem set_mset_mset)
  then show n: "\<not> in_match (umpire g)" using assms(1) by (auto simp: sem_inv_def)
  then have "(case umpire g of Posting j \<Rightarrow> j | _ \<Rightarrow> 22) = 22" by (auto simp: in_match_def split: ustate.splits)
  then show b: "batted g < 22" using assms(1) c by (simp add: sem_inv_def)
  then show "sig g = 0" "umpire g \<noteq> AwaitMut" using assms(1) unfolding sem_inv_def by (simp_all split: if_splits)
qed

lemma bat_counters:
  "counter_capital (bat_body r g) = (if counter_capital g < 11 then counter_capital g + 1 else counter_capital g)"
  "counter_titan (bat_body r g) = (if counter_capital g < 11 then counter_titan g else counter_titan g + 1)"
  "sig (bat_body r g) = (if \<not> counter_capital g < 11 \<and> counter_titan g = 10 then sig g + 1 else sig g)"
  by (simp_all add: bat_body_def Let_def)

lemma sem_inv_bat:
  assumes "sem_inv g" "i < length (player g)" "player g ! i = Batting"
  shows "sem_inv (bat_body r (move i Leaving g))"
proof -
  note b = batting_in_match [OF assms] and c = cnt_move [OF assms(2,3), of Leaving]
  have d: "counter_capital g < 11 \<Longrightarrow> counter_titan g = 0" "\<not> counter_capital g < 11 \<Longrightarrow> counter_capital g = 11 \<and> counter_titan g < 11"
    using assms(1) b(2) by (auto simp: sem_inv_def)
  have u: "(case umpire g of Posting j \<Rightarrow> j | _ \<Rightarrow> 22) = 22" using b(1) by (auto simp: in_match_def split: ustate.splits)
  show ?thesis
  proof (cases "counter_capital g < 11")
    case True
    then show ?thesis using assms(1) b c d(1) u unfolding sem_inv_def by (auto simp: bat_counters in_match_def split: ustate.splits)
  next
    case False
    then show ?thesis using assms(1) b c d(2) u unfolding sem_inv_def by (auto simp: bat_counters in_match_def split: ustate.splits)
  qed
qed

lemma sem_inv_umpire:
  assumes "sem_inv g"
  shows "umpire g = Checking \<Longrightarrow> sem_inv (g\<lparr>umpire := (if matchno g < matches g then AwaitSig else Retired)\<rparr>)"
    and "umpire g = AwaitSig \<Longrightarrow> 0 < sig g \<Longrightarrow> sem_inv (g\<lparr>umpire := AwaitMut, sig := sig g - 1\<rparr>)"
    and "umpire g = AwaitMut \<Longrightarrow> 0 < mut g \<Longrightarrow> sem_inv (g\<lparr>umpire := Scoring, mut := mut g - 1\<rparr>)"
    and "umpire g = Posting j \<Longrightarrow> j < 22 \<Longrightarrow> sem_inv (g\<lparr>umpire := Posting (j + 1), barrier := barrier g + 1\<rparr>)"
    and "umpire g = Posting 22 \<Longrightarrow> sem_inv (g\<lparr>umpire := Unlocking\<rparr>)"
    and "umpire g = Unlocking \<Longrightarrow> sem_inv (g\<lparr>umpire := Checking, mut := mut g + 1\<rparr>)"
  using assms by (auto simp: sem_inv_def in_match_def split: if_splits)

text \<open>When the umpire scores, all 22 players of the match have batted.\<close>

lemma scoring_full:
  assumes "sem_inv g" "umpire g = Scoring"
  shows "counter_capital g = 11" "counter_titan g = 11" "sig g = 0" "barrier g = 0" "cnt AtMut g = 0" "cnt Batting g = 0"
proof -
  have b: "batted g = 22" "sig g = 0" using assms by (auto simp: sem_inv_def split: if_splits)
  moreover have "counter_capital g \<le> 11" "counter_titan g \<le> 11" using assms by (auto simp: sem_inv_def)
  ultimately show "counter_capital g = 11" "counter_titan g = 11" "sig g = 0" by simp_all
  show "barrier g = 0" "cnt AtMut g = 0" "cnt Batting g = 0" using assms b(1) by (simp_all add: sem_inv_def)
qed

lemma sem_inv_score:
  assumes "sem_inv g" "umpire g = Scoring"
  shows "sem_inv ((score_body g)\<lparr>umpire := Posting 0\<rparr>)"
  using assms scoring_full [OF assms] unfolding sem_inv_def by (simp add: in_match_def)

lemma sem_inv_step: "gstep g ls h \<Longrightarrow> sem_inv g \<Longrightarrow> sem_inv h"
  by (induction rule: gstep.induct) (simp_all only: sem_inv_enter sem_inv_lock sem_inv_bat sem_inv_leave sem_inv_umpire sem_inv_score)
section \<open>Every run ends\<close>

definition still :: "pstate \<Rightarrow> nat" where
  "still p = (case p of AtBarrier \<Rightarrow> 4 | AtMut \<Rightarrow> 3 | Batting \<Rightarrow> 2 | Leaving \<Rightarrow> 1 | Gone \<Rightarrow> 0)"

definition ustill :: "ustate \<Rightarrow> nat" where
  "ustill u = (case u of Posting j \<Rightarrow> 54 - j | Unlocking \<Rightarrow> 31 | Checking \<Rightarrow> 30 | AwaitSig \<Rightarrow> 29 | AwaitMut \<Rightarrow> 28 | Scoring \<Rightarrow> 27 | Retired \<Rightarrow> 0)"

text \<open>A bound on the steps still to come: four for each player, forty for each match and what the umpire has left of the current one.\<close>

definition to_go :: "game \<Rightarrow> nat" where
  "to_go g = (\<Sum>p \<leftarrow> player g. still p) + 40 * (matches g - matchno g) + ustill (umpire g)"

lemma sum_still_update:
  "i < length ps \<Longrightarrow> (\<Sum>p \<leftarrow> ps[i := q]. still p) + still (ps ! i) = (\<Sum>p \<leftarrow> ps. still p) + still q"
proof (induction ps arbitrary: i)
  case (Cons p ps)
  then show ?case by (cases i) auto
qed simp

lemma to_go_move:
  assumes "i < length (player g)" "player g ! i = p" "player h = (player g)[i := q]" "umpire h = umpire g" "matches h = matches g" "matchno h = matchno g"
    "Suc (still q) = still p"
  shows "Suc (to_go h) = to_go g"
  using sum_still_update [OF assms(1), of q] assms by (simp add: to_go_def)

lemma to_go_step:
  assumes "gstep g ls h" "sem_inv g"
  shows "to_go h < to_go g"
  using assms
proof (induction rule: gstep.induct)
  case (enter i g)
  from to_go_move [OF enter(1,2), of "(move i AtMut g)\<lparr>barrier := barrier g - 1\<rparr>" AtMut] show ?case by (simp add: move_def still_def)
next
  case (lock i g)
  from to_go_move [OF lock(1,2), of "(move i Batting g)\<lparr>mut := mut g - 1\<rparr>" Batting] show ?case by (simp add: move_def still_def)
next
  case (bat i g run)
  from to_go_move [OF bat(1,2), of "bat_body run (move i Leaving g)" Leaving] show ?case by (simp add: move_def still_def)
next
  case (leave i g)
  from to_go_move [OF leave(1,2), of "(move i Gone g)\<lparr>mut := mut g + 1\<rparr>" Gone] show ?case by (simp add: move_def still_def)
next
  case (score g)
  then have "matchno g < matches g" by (simp add: sem_inv_def)
  then show ?case using score(1) by (simp add: to_go_def ustill_def)
qed (auto simp: to_go_def ustill_def)

section \<open>A run that cannot go on has finished\<close>

definition final :: "game \<Rightarrow> bool" where
  "final g \<longleftrightarrow> (\<forall>p \<in> set (player g). p = Gone) \<and> umpire g = Retired \<and> matchno g = matches g"

lemma cnt_pos: "0 < cnt p g \<Longrightarrow> \<exists>i < length (player g). player g ! i = p"
  by (auto simp: cnt_def in_set_conv_nth)

lemma progress:
  assumes "sem_inv g" "\<nexists>ls h. gstep g ls h"
  shows "final g"
proof -
  note s = assms(1) [unfolded sem_inv_def] and t = total [of g]
  have u: "umpire g = AwaitSig \<or> umpire g = AwaitMut \<or> umpire g = Retired"
  proof (cases "umpire g")
    case (Posting j)
    then have "j < 22 \<or> j = 22" using s by auto
    then show ?thesis using Posting assms(2) gstep.post gstep.posted by blast
  qed (use assms(2) gstep.check gstep.score gstep.uunlock in blast)+
  then have n: "\<not> in_match (umpire g)" by (auto simp: in_match_def)
  have B: "cnt Batting g = 0" using cnt_pos [of Batting g] assms(2) gstep.bat [of _ g 0] by fastforce
  have L: "cnt Leaving g = 0" using cnt_pos [of Leaving g] assms(2) gstep.leave by blast
  have m: "mut g = 1" using s n B L by simp
  have M: "cnt AtMut g = 0" using cnt_pos [of AtMut g] assms(2) gstep.lock [of _ g] m by fastforce
  have w: "umpire g \<noteq> AwaitMut" using assms(2) gstep.ulock [of g] m by fastforce
  have b: "barrier g + batted g = 22" using s u B M by auto
  have G: "cnt Gone g = 22 * matchno g + batted g" using s L by simp
  have lt: "batted g < 22"
  proof (cases "umpire g = AwaitSig")
    case True
    then have "sig g = 0" using assms(2) gstep.await [of g] by blast
    then show ?thesis using s True b by (auto split: if_splits)
  next
    case False
    then have "matchno g = length (player g) div 22" using s u w by auto
    moreover have "22 * matchno g + batted g \<le> length (player g)" using G t by linarith
    ultimately show ?thesis by linarith
  qed
  then have "cnt AtBarrier g = 0" using cnt_pos [of AtBarrier g] assms(2) gstep.enter [of _ g] b by fastforce
  then have all: "cnt Gone g = length (player g)" using t B L M by simp
  then have "matchno g = matches g" using G lt s by simp
  moreover have "umpire g = Retired" using u w s calculation by auto
  moreover have "p = Gone" if "p \<in> set (player g)" for p
  proof (rule ccontr)
    assume "p \<noteq> Gone"
    then have "cnt p g = 0" using \<open>cnt AtBarrier g = 0\<close> M B L by (cases p) auto
    then show False using that by (simp add: cnt_def)
  qed
  ultimately show ?thesis by (auto simp: final_def)
qed

lemma final_stuck: "final g \<Longrightarrow> \<not> gstep g ls h"
  by (auto simp: final_def all_set_conv_all_nth elim!: gstep.cases)

section \<open>What is scored\<close>

definition highest :: "nat list \<Rightarrow> nat" where
  "highest rs = foldr max rs 0"

definition match_runs :: "nat list \<Rightarrow> nat \<Rightarrow> nat list" where
  "match_runs rs k = take 22 (drop (22 * k) rs)"

definition capitals :: "nat list \<Rightarrow> nat \<Rightarrow> nat" where
  "capitals rs k = sum_list (take 11 (match_runs rs k))"

definition titans :: "nat list \<Rightarrow> nat \<Rightarrow> nat" where
  "titans rs k = sum_list (drop 11 (match_runs rs k))"

definition summary_of :: "nat list \<Rightarrow> nat \<Rightarrow> summary" where
  "summary_of rs k = (Suc k, capitals rs k, titans rs k, highest (match_runs rs k))"

definition hist :: "nat list \<Rightarrow> game \<Rightarrow> bool" where
  "hist rs g \<longleftrightarrow>
     length rs = 22 * matchno g + batted g \<and>
     capital_score g = capitals rs (matchno g) \<and> titan_score g = titans rs (matchno g) \<and> permatchscore g = highest (match_runs rs (matchno g)) \<and>
     individual_score g = highest rs \<and> printed_out g = map (summary_of rs) [0 ..< matchno g] \<and>
     capitalswin g = length (filter (\<lambda>k. capitals rs k > titans rs k) [0 ..< matchno g]) \<and>
     titanswin g = length (filter (\<lambda>k. titans rs k > capitals rs k) [0 ..< matchno g]) \<and>
     tied g = length (filter (\<lambda>k. titans rs k = capitals rs k) [0 ..< matchno g]) \<and>
     maxscore g = highest (map (\<lambda>k. max (capitals rs k) (titans rs k)) [0 ..< matchno g])"

lemma highest_append: "highest (rs @ qs) = max (highest rs) (highest qs)"
  by (induction rs) (auto simp: highest_def)

lemma highest_simps [simp]: "highest [] = 0" "highest (r # rs) = max r (highest rs)"
  by (simp_all add: highest_def)

lemma match_runs_before: "22 * k + 22 \<le> length rs \<Longrightarrow> match_runs (rs @ qs) k = match_runs rs k"
  by (simp add: match_runs_def)

lemma before_simps:
  assumes "k < m" "22 * m \<le> length rs"
  shows "match_runs (rs @ qs) k = match_runs rs k" "capitals (rs @ qs) k = capitals rs k" "titans (rs @ qs) k = titans rs k" "summary_of (rs @ qs) k = summary_of rs k"
proof -
  show e: "match_runs (rs @ qs) k = match_runs rs k" by (rule match_runs_before) (use assms in simp)
  show "capitals (rs @ qs) k = capitals rs k" "titans (rs @ qs) k = titans rs k" "summary_of (rs @ qs) k = summary_of rs k"
    by (simp_all add: capitals_def titans_def summary_of_def e)
qed

lemma hist_init: "hist [] (init_game n)"
  by (simp add: hist_def init_game_def capitals_def titans_def match_runs_def)

lemma runs_now:
  assumes "length rs = 22 * m + b" "b < 22"
  shows "match_runs (rs @ [r]) m = match_runs rs m @ [r]" "length (match_runs rs m) = b"
  using assms by (simp_all add: match_runs_def)

lemma bat_scores:
  "capital_score (bat_body r g) = (if counter_capital g < 11 then capital_score g + r else capital_score g)"
  "titan_score (bat_body r g) = (if counter_capital g < 11 then titan_score g else titan_score g + r)"
  "permatchscore (bat_body r g) = max r (permatchscore g)" "individual_score (bat_body r g) = max r (individual_score g)"
  by (simp_all add: bat_body_def Let_def)

lemma hist_bat:
  assumes "hist rs g" "sem_inv g" "i < length (player g)" "player g ! i = Batting"
  shows "hist (rs @ [r]) (bat_body r (move i Leaving g))"
proof -
  note b = batting_in_match(2) [OF assms(2-4)] and h = assms(1) [unfolded hist_def]
  have l: "length rs = 22 * matchno g + batted g" "22 * matchno g \<le> length rs" using h by simp_all
  note n = runs_now(1) [OF l(1) b, of r] runs_now(2) [OF l(1) b]
  have c: "counter_capital g < 11 \<Longrightarrow> counter_titan g = 0" "\<not> counter_capital g < 11 \<Longrightarrow> counter_capital g = 11" using assms(2) by (auto simp: sem_inv_def)
  have cs: "capitals (rs @ [r]) (matchno g) = (if counter_capital g < 11 then capitals rs (matchno g) + r else capitals rs (matchno g))"
    "titans (rs @ [r]) (matchno g) = (if counter_capital g < 11 then titans rs (matchno g) else titans rs (matchno g) + r)"
    using c n by (auto simp: capitals_def titans_def)
  have f: "filter (\<lambda>k. P (capitals (rs @ [r]) k) (titans (rs @ [r]) k)) [0 ..< matchno g] = filter (\<lambda>k. P (capitals rs k) (titans rs k)) [0 ..< matchno g]" for P
    by (rule filter_cong [OF refl]) (simp add: before_simps [OF _ l(2)])
  have e: "map (summary_of (rs @ [r])) [0 ..< matchno g] = map (summary_of rs) [0 ..< matchno g]"
    "map (\<lambda>k. max (capitals (rs @ [r]) k) (titans (rs @ [r]) k)) [0 ..< matchno g] = map (\<lambda>k. max (capitals rs k) (titans rs k)) [0 ..< matchno g]"
    by (simp_all add: before_simps [OF _ l(2)])
  have "highest (match_runs (rs @ [r]) (matchno g)) = max r (highest (match_runs rs (matchno g)))" "highest (rs @ [r]) = max r (highest rs)"
    by (simp_all add: n(1) highest_append max.commute)
  moreover note arg_cong [OF e(2), of highest]
  ultimately show ?thesis using h f [of "\<lambda>a b. a > b"] f [of "\<lambda>a b. b > a"] f [of "\<lambda>a b. b = a"] e(1) cs
    unfolding hist_def by (simp add: bat_scores bat_counters)
qed

lemma score_results:
  "capitalswin (score_body g) = capitalswin g + (if capital_score g > titan_score g then 1 else 0)"
  "titanswin (score_body g) = titanswin g + (if titan_score g > capital_score g then 1 else 0)"
  "tied (score_body g) = tied g + (if titan_score g = capital_score g then 1 else 0)"
  "maxscore (score_body g) = max (maxscore g) (max (capital_score g) (titan_score g))"
  by (auto simp: score_body_def Let_def)

lemma hist_score:
  assumes "hist rs g" "sem_inv g" "umpire g = Scoring"
  shows "hist rs ((score_body g)\<lparr>umpire := u\<rparr>)"
proof -
  note h = assms(1) [unfolded hist_def] and f = scoring_full [OF assms(2,3)]
  have l: "length rs = 22 * Suc (matchno g)" using h f by simp
  then have "match_runs rs (Suc (matchno g)) = []" by (simp add: match_runs_def)
  then show ?thesis using h l by (auto simp: hist_def score_results capitals_def titans_def summary_of_def highest_append)
qed

lemma hist_step: "gstep g ls h \<Longrightarrow> sem_inv g \<Longrightarrow> hist rs g \<Longrightarrow> hist (rs @ ls) h"
proof (induction rule: gstep.induct)
  case (bat i g run)
  then show ?case using hist_bat by blast
next
  case (score g)
  then show ?case using hist_score by simp
qed (simp_all add: hist_def)

lemma run_inv:
  "grun n rs g h \<Longrightarrow> g = init_game N \<Longrightarrow> sem_inv h \<and> hist rs h \<and> n + to_go h \<le> 4 * N + 40 * (N div 22) + 30 \<and> length (player h) = N"
proof (induction rule: grun.induct)
  case (here g)
  have "to_go g = 4 * N + 40 * (N div 22) + 30"
    using here by (simp add: to_go_def init_game_def still_def ustill_def sum_list_replicate)
  then show ?case using here sem_inv_init hist_init by (simp add: init_game_def)
next
  case (next_step n rs g h ls k)
  have i: "sem_inv h" "hist rs h" using next_step by blast+
  have "length (player k) = length (player h)" using next_step.hyps(2) by (rule gstep.cases) auto
  then show ?case using sem_inv_step [OF next_step.hyps(2) i(1)] hist_step [OF next_step.hyps(2) i] to_go_step [OF next_step.hyps(2) i(1)] next_step by auto
qed
lemma final_runs:
  assumes "sem_inv g" "hist rs g" "final g"
  shows "length rs = length (player g)"
proof -
  have "cnt p g = 0" if "p \<noteq> Gone" for p using assms(3) that by (auto simp: final_def cnt_def)
  then have "cnt Gone g = length (player g)" "cnt Leaving g = 0" using total [of g] by simp_all
  then show ?thesis using assms(1,2) by (simp add: sem_inv_def hist_def)
qed

lemma complete_run: "\<exists>n rs g. grun n rs (init_game N) g \<and> (\<nexists>ls h. gstep g ls h)"
proof (rule ccontr)
  assume "\<not> ?thesis"
  then have more: "\<exists>ls h. gstep g ls h" if "grun n rs (init_game N) g" for n rs g using that by blast
  have "\<exists>rs g. grun n rs (init_game N) g" for n
  proof (induction n)
    case 0
    show ?case using grun.here by blast
  next
    case (Suc n)
    then obtain rs g where g: "grun n rs (init_game N) g" by blast
    obtain ls h where "gstep g ls h" using more [OF g] by blast
    then show ?case using grun.next_step [OF g] by blast
  qed
  then obtain rs g where g: "grun (4 * N + 40 * (N div 22) + 31) rs (init_game N) g" by blast
  from run_inv [OF g refl] show False by simp
qed

text \<open>
  C15: the tournament is played to its end, whatever the order in which the threads run. For \<open>N\<close> players the program takes a bounded number of
  steps; as long as it has not finished some thread can take a step, so nobody waits forever at the barrier, for the mutex or for the signal.
  When no step is left every player has batted exactly once and has returned, the umpire too; the printed summaries are those of the
  matches of 22 consecutive batters, the first eleven of them the Capitals and the others the Titans, each with its number, the two team
  scores and the highest individual score; and the summary of the day counts the matches won, lost and tied and the highest scores.
\<close>

theorem tournament:
  assumes "grun n rs (init_game N) g"
  shows "n \<le> 4 * N + 40 * (N div 22) + 30 \<and>
    ((\<exists>ls h. gstep g ls h) \<or>
     player g = replicate N Gone \<and> umpire g = Retired \<and> length rs = N \<and> printed_out g = map (summary_of rs) [0 ..< N div 22] \<and>
     (let won = length (filter (\<lambda>k. titans rs k > capitals rs k) [0 ..< N div 22]);
          lost = length (filter (\<lambda>k. capitals rs k > titans rs k) [0 ..< N div 22]);
          ties = length (filter (\<lambda>k. titans rs k = capitals rs k) [0 ..< N div 22])
      in day_summary g = [N div 22, won, lost, ties, lost, won, ties,
           highest (map (\<lambda>k. max (capitals rs k) (titans rs k)) [0 ..< N div 22]), highest rs]))"
proof -
  have i: "sem_inv g" "hist rs g" "n + to_go g \<le> 4 * N + 40 * (N div 22) + 30" "length (player g) = N" using run_inv [OF assms refl] by blast+
  have m: "matches g = N div 22" using i(1,4) by (simp add: sem_inv_def)
  show ?thesis
  proof (cases "\<exists>ls h. gstep g ls h")
    case True
    then show ?thesis using i(3) by simp
  next
    case False
    then have f: "final g" by (rule progress [OF i(1)])
    have "player g = replicate N Gone" using f i(4) by (auto simp: final_def intro: replicate_eqI)
    moreover have "length rs = N" using final_runs [OF i(1,2) f] i(4) by simp
    ultimately show ?thesis using i(2,3) f m by (simp add: hist_def final_def day_summary_def)
  qed
qed

theorem tournament_witness:
  "\<exists>n rs g. grun n rs (init_game 44) g \<and> n \<le> 286 \<and> player g = replicate 44 Gone \<and> length rs = 44 \<and> printed_out g = [summary_of rs 0, summary_of rs 1]"
proof -
  obtain n rs g where r: "grun n rs (init_game 44) g" "\<nexists>ls h. gstep g ls h" using complete_run [of 44] by blast
  have "[0 ..< 44 div 22] = [0, Suc 0]" by (simp add: upt_rec)
  then show ?thesis using tournament [OF r(1)] r by (auto simp: upt_rec)
qed

end
