(* ===== verification/Taskqueue.thy ===== *)
theory Taskqueue
  imports Ring "HOL-Library.Multiset"
begin

text \<open>
  The task queue of lab 7, \<^verbatim>\<open>src/lab7/lab7/taskqueue.c\<close>: \<open>main\<close> reads tasks and puts them into a ring of 20 slots, worker threads take and
  process them. A step is what a thread does while it holds a mutex, or one test of the flags; the threads interleave freely. The queue is an
  instance of the bounded queue of theory Ring. Tasks are in the range of \<open>int\<close>, so that fewer than \<open>2 ^ 32\<close> of them keep the sum in the
  range of \<open>long\<close>; it is an integer here. \<open>sleep\<close> has no effect on the state.
\<close>

section \<open>The program\<close>

text \<open>
  A line of the input: a task to process, a time to wait, or a character that is neither \<open>p\<close> nor \<open>w\<close>. A worker is at the top of its
  loop, processes the task it found, or is about to test whether it should stop; \<open>Lost\<close> stands for a worker that uses the result of
  \<open>queue_delete\<close> on an empty queue, which returns no value.
\<close>

datatype line = Task int | Delay nat | Unknown

datatype worker = Top | Processing int | Testing | Exited | Lost

datatype report = Overflow | QueueEmpty | WaitOver | Completed | Unrecognized | Totals int int int int int

record tq =
  front :: nat
  rear :: nat
  taskCount :: nat
  queue :: "nat \<Rightarrow> int"
  t_sum :: int
  t_odd :: int
  t_even :: int
  t_min :: int
  t_max :: int
  done_flag :: bool
  workers :: "worker list"
  infile :: "line list"
  finished :: bool
  out :: "report list"

definition QUEUE_SIZE :: nat where "QUEUE_SIZE = 20"

definition say :: "report \<Rightarrow> tq \<Rightarrow> tq" where
  "say r s = s\<lparr>out := out s @ [r]\<rparr>"

definition queue_insert :: "int \<Rightarrow> tq \<Rightarrow> tq" where
  "queue_insert item s =
     (let s = s\<lparr>rear := (rear s + 1) mod QUEUE_SIZE\<rparr> in
      if front s = rear s then
        (let s = say Overflow s in
         if rear s = 0 then s\<lparr>rear := QUEUE_SIZE - 1\<rparr> else s\<lparr>rear := rear s - 1\<rparr>)
      else s\<lparr>queue := (queue s)(rear s := item)\<rparr>)"

definition queue_delete :: "tq \<Rightarrow> int option \<times> tq" where
  "queue_delete s =
     (if front s = rear s then (None, say QueueEmpty s)
      else (let s = s\<lparr>front := (front s + 1) mod QUEUE_SIZE\<rparr> in (Some (queue s (front s)), s)))"

definition masterFunc :: "int \<Rightarrow> tq \<Rightarrow> tq" where
  "masterFunc item s =
     (let s = queue_insert item s in s\<lparr>taskCount := taskCount s + 1\<rparr>)"

text \<open>The remainder of C takes the sign of the number: for a negative odd number it is -1.\<close>

definition processtask :: "int \<Rightarrow> tq \<Rightarrow> tq" where
  "processtask number s =
     (let s = s\<lparr>t_sum := t_sum s + number\<rparr>;
          s = (if sgn number * (\<bar>number\<bar> mod 2) = 1 then s\<lparr>t_odd := t_odd s + 1\<rparr> else s\<lparr>t_even := t_even s + 1\<rparr>);
          s = (if number < t_min s then s\<lparr>t_min := number\<rparr> else s);
          s = (if number > t_max s then s\<lparr>t_max := number\<rparr> else s)
      in say Completed s)"

text \<open>The part of the loop of \<open>workerFunc\<close> under the mutex of the queue: the next state of the worker.\<close>

definition worker_take :: "tq \<Rightarrow> worker \<times> tq" where
  "worker_take s =
     (if taskCount s > 0 then
        (case queue_delete s of
           (None, s) \<Rightarrow> (Lost, s\<lparr>taskCount := taskCount s - 1\<rparr>)
         | (Some item, s) \<Rightarrow> (Processing item, s\<lparr>taskCount := taskCount s - 1\<rparr>))
      else (Testing, s))"

text \<open>One iteration of the loop of \<open>main\<close> over the input.\<close>

definition main_line :: "line \<Rightarrow> tq \<Rightarrow> tq" where
  "main_line l s =
     (case l of
        Task num \<Rightarrow> masterFunc num s
      | Delay num \<Rightarrow> say WaitOver s
      | Unknown \<Rightarrow> (say Unrecognized s)\<lparr>finished := True\<rparr>)"

definition start :: "int \<Rightarrow> line list \<Rightarrow> tq" where
  "start t input =
     \<lparr>front = 0, rear = 0, taskCount = 0, queue = (\<lambda>_. 0), t_sum = 0, t_odd = 0, t_even = 0, t_min = 2 ^ 31 - 1, t_max = - (2 ^ 31), done_flag = False,
      workers = replicate (nat (t div 2)) Top, infile = input, finished = False, out = []\<rparr>"

definition goes :: "nat \<Rightarrow> worker \<Rightarrow> tq \<Rightarrow> tq" where
  "goes i w s = s\<lparr>workers := (workers s)[i := w]\<rparr>"

inductive tstep :: "tq \<Rightarrow> tq \<Rightarrow> bool" where
  line: "\<not> finished s \<Longrightarrow> infile s = l # ls \<Longrightarrow> tstep s (main_line l (s\<lparr>infile := ls\<rparr>))"
| eof: "\<not> finished s \<Longrightarrow> infile s = [] \<Longrightarrow> \<not> done_flag s \<Longrightarrow> tstep s (s\<lparr>done_flag := True\<rparr>)"
| take: "\<not> finished s \<Longrightarrow> i < length (workers s) \<Longrightarrow> workers s ! i = Top \<Longrightarrow> worker_take s = (w, t) \<Longrightarrow> tstep s (goes i w t)"
| process: "\<not> finished s \<Longrightarrow> i < length (workers s) \<Longrightarrow> workers s ! i = Processing x \<Longrightarrow> tstep s (goes i Testing (processtask x s))"
| test: "\<not> finished s \<Longrightarrow> i < length (workers s) \<Longrightarrow> workers s ! i = Testing \<Longrightarrow>
    tstep s (goes i (if done_flag s \<and> taskCount s = 0 then Exited else Top) s)"
| report: "\<not> finished s \<Longrightarrow> done_flag s \<Longrightarrow> \<forall>w \<in> set (workers s). w = Exited \<Longrightarrow>
    tstep s ((say (Totals (t_sum s) (t_odd s) (t_even s) (t_min s) (t_max s)) s)\<lparr>finished := True\<rparr>)"
section \<open>The queue\<close>

definition queued :: "tq \<Rightarrow> nat" where
  "queued s = (rear s + 20 - front s) mod 20"

definition contents :: "tq \<Rightarrow> int list" where
  "contents s = map (\<lambda>i. queue s ((front s + Suc i) mod 20)) [0 ..< queued s]"

definition ring_ok :: "tq \<Rightarrow> bool" where
  "ring_ok s \<longleftrightarrow> front s < 20 \<and> rear s < 20"

definition queue_front :: "tq \<Rightarrow> int" where
  "queue_front s = queue s ((front s + 1) mod 20)"

lemma length_contents [simp]: "length (contents s) = queued s"
  by (simp add: contents_def)

lemma queued_length: "contents s = xs \<Longrightarrow> queued s = length xs"
  by auto

lemma queued_cases:
  assumes "ring_ok s"
  shows "queued s = (if front s \<le> rear s then rear s - front s else rear s + 20 - front s)"
  using assms by (auto simp: ring_ok_def queued_def mod_if)

lemma queued_bound: "ring_ok s \<Longrightarrow> queued s \<le> 19"
  by (auto simp: queued_def)

lemma rear_slot:
  assumes "ring_ok s"
  shows "(front s + queued s) mod 20 = rear s" "(rear s + 1) mod 20 = (front s + Suc (queued s)) mod 20"
  using assms by (auto simp: queued_cases ring_ok_def mod_if)

lemma not_full:
  assumes "ring_ok s"
  shows "front s = (rear s + 1) mod 20 \<longleftrightarrow> queued s = 19"
  using assms by (auto simp: queued_cases ring_ok_def mod_if split: if_splits)

lemma slot_inj: "a < 20 \<Longrightarrow> i < 20 \<Longrightarrow> j < 20 \<Longrightarrow> (a + i) mod 20 = (a + j) mod 20 \<Longrightarrow> i = (j :: nat)"
  by (auto simp: mod_if split: if_splits)

lemma insert_room:
  assumes "ring_ok s" "queued s < 19"
  shows "queue_insert x s = s\<lparr>rear := (rear s + 1) mod 20, queue := (queue s)((rear s + 1) mod 20 := x)\<rparr>"
  using not_full [OF assms(1)] assms(2) by (simp add: queue_insert_def QUEUE_SIZE_def)

lemma contents_insert:
  assumes "ring_ok s" "queued s < 19"
  shows "contents (queue_insert x s) = contents s @ [x]"
proof -
  let ?t = "queue_insert x s"
  have t: "front ?t = front s" "rear ?t = (rear s + 1) mod 20" "queue ?t = (queue s)((front s + Suc (queued s)) mod 20 := x)"
    using insert_room [OF assms, of x] rear_slot(2) [OF assms(1)] by simp_all
  have q: "queued ?t = Suc (queued s)" using assms t(1,2) by (auto simp: queued_def ring_ok_def mod_if split: if_splits)
  have "queue ?t ((front s + Suc i) mod 20) = queue s ((front s + Suc i) mod 20)" if "i < queued s" for i
  proof -
    have "(front s + Suc i) mod 20 \<noteq> (front s + Suc (queued s)) mod 20"
      using slot_inj [of "front s" "Suc i" "Suc (queued s)"] assms that by (auto simp: ring_ok_def)
    then show ?thesis by (simp add: t(3))
  qed
  then show ?thesis unfolding contents_def q t(1) by (simp add: t(3))
qed

lemma delete_some:
  assumes "ring_ok s" "contents s \<noteq> []"
  shows "queue_delete s = (Some (queue_front s), s\<lparr>front := (front s + 1) mod 20\<rparr>)"
proof -
  have "0 < queued s" using assms(2) by (simp add: contents_def)
  then have "front s \<noteq> rear s" using queued_cases [OF assms(1)] by auto
  then show ?thesis by (simp add: queue_delete_def queue_front_def QUEUE_SIZE_def)
qed

lemma contents_delete:
  assumes "ring_ok s" "contents s \<noteq> []"
  shows "contents s = queue_front s # contents (snd (queue_delete s))"
proof -
  let ?t = "snd (queue_delete s)"
  have t: "front ?t = (front s + 1) mod 20" "rear ?t = rear s" "queue ?t = queue s" using delete_some [OF assms] by simp_all
  have p: "0 < queued s" using assms(2) by (simp add: contents_def)
  have q: "queued s = Suc (queued ?t)" using assms(1) p t(1,2) by (auto simp: queued_def ring_ok_def mod_if split: if_splits)
  have e: "Suc (front ?t + i) mod 20 = Suc (Suc (front s + i)) mod 20" for i
    using mod_add_left_eq [of "front s + 1" 20 "Suc i"] unfolding t(1) by simp
  show ?thesis unfolding contents_def q upt_conv_Cons [OF zero_less_Suc] list.map
    by (simp add: queue_front_def map_Suc_upt [symmetric] t(3) e del: upt_Suc)
qed

interpretation tasks: bounded_queue queue_insert queue_front "\<lambda>s. snd (queue_delete s)" contents ring_ok 19
proof
  fix s x
  assume "ring_ok s" "length (contents s) < 19"
  then show "contents (queue_insert x s) = contents s @ [x]" "ring_ok (queue_insert x s)"
    using contents_insert insert_room by (auto simp: ring_ok_def)
next
  fix s
  assume a: "ring_ok s" "contents s \<noteq> []"
  show "queue_front s = hd (contents s)" "contents (snd (queue_delete s)) = tl (contents s)" by (simp_all add: contents_delete [OF a])
  show "ring_ok (snd (queue_delete s))" using a(1) delete_some [OF a] by (simp add: ring_ok_def)
next
  show "length (contents s) \<le> 19" if "ring_ok s" for s using queued_bound [OF that] by simp
qed
section \<open>Nothing is lost\<close>

fun task_of :: "line \<Rightarrow> int list" where
  "task_of (Task n) = [n]"
| "task_of _ = []"

definition tasks_of :: "line list \<Rightarrow> int list" where
  "tasks_of ls = concat (map task_of ls)"

fun handled :: "worker \<Rightarrow> int list" where
  "handled (Processing n) = [n]"
| "handled _ = []"

definition in_work :: "tq \<Rightarrow> int multiset" where
  "in_work s = mset (concat (map handled (workers s)))"

definition is_odd :: "int \<Rightarrow> bool" where
  "is_odd n \<longleftrightarrow> 0 < n \<and> odd n"

definition counted :: "int multiset \<Rightarrow> tq \<Rightarrow> bool" where
  "counted M s \<longleftrightarrow>
     t_sum s = \<Sum>\<^sub># M \<and> t_odd s = int (size (filter_mset is_odd M)) \<and> t_even s = int (size (filter_mset (\<lambda>n. \<not> is_odd n) M)) \<and>
     t_min s = Min (insert (2 ^ 31 - 1) (set_mset M)) \<and> t_max s = Max (insert (- (2 ^ 31)) (set_mset M))"

definition tq_inv :: "int multiset \<Rightarrow> tq \<Rightarrow> bool" where
  "tq_inv T s \<longleftrightarrow>
     ring_ok s \<and> taskCount s = queued s \<and> Lost \<notin> set (workers s) \<and>
     (Exited \<in> set (workers s) \<longrightarrow> done_flag s \<and> taskCount s = 0) \<and> (done_flag s \<longrightarrow> infile s = []) \<and>
     (\<exists>M. counted M s \<and> M + in_work s + mset (contents s) + mset (tasks_of (infile s)) = T)"

lemma odd_test: "sgn n * (\<bar>n\<bar> mod 2) = 1 \<longleftrightarrow> is_odd n" for n :: int
proof (cases "0 < n")
  case True
  then show ?thesis by (simp add: is_odd_def odd_iff_mod_2_eq_one)
next
  case False
  then have "sgn n * (\<bar>n\<bar> mod 2) \<le> 0" by (simp add: sgn_if)
  then show ?thesis using False by (simp add: is_odd_def)
qed

lemma Min_step:
  fixes n :: int
  assumes "finite A"
  shows "Min (insert b (insert n A)) = (if n < Min (insert b A) then n else Min (insert b A))"
proof -
  have "Min (insert n (insert b A)) = min n (Min (insert b A))" by (rule Min_insert) (use assms in auto)
  then show ?thesis unfolding insert_commute [of b n] by (simp only: min_def less_le_not_le) (meson linorder_linear order_antisym)
qed

lemma Max_step:
  fixes n :: int
  assumes "finite A"
  shows "Max (insert b (insert n A)) = (if Max (insert b A) < n then n else Max (insert b A))"
proof -
  have "Max (insert n (insert b A)) = max n (Max (insert b A))" by (rule Max_insert) (use assms in auto)
  then show ?thesis unfolding insert_commute [of b n] by (simp only: max_def less_le_not_le) (meson linorder_linear order_antisym)
qed

lemma processtask_fields:
  "t_sum (processtask n s) = t_sum s + n"
  "t_odd (processtask n s) = t_odd s + (if is_odd n then 1 else 0)"
  "t_even (processtask n s) = t_even s + (if is_odd n then 0 else 1)"
  "t_min (processtask n s) = (if n < t_min s then n else t_min s)"
  "t_max (processtask n s) = (if t_max s < n then n else t_max s)"
  by (simp_all add: processtask_def Let_def say_def odd_test)

lemma counted_process: "counted M s \<Longrightarrow> counted (add_mset n M) (processtask n s)"
  unfolding counted_def processtask_fields set_mset_add_mset_insert Min_step [OF finite_set_mset] Max_step [OF finite_set_mset] by simp

lemma processtask_simps [simp]:
  "front (processtask n s) = front s" "rear (processtask n s) = rear s" "queue (processtask n s) = queue s" "taskCount (processtask n s) = taskCount s"
  "done_flag (processtask n s) = done_flag s" "workers (processtask n s) = workers s" "infile (processtask n s) = infile s"
  "finished (processtask n s) = finished s" "out (processtask n s) = out s @ [Completed]"
  by (simp_all add: processtask_def Let_def say_def)

lemma contents_cong: "front t = front s \<Longrightarrow> rear t = rear s \<Longrightarrow> queue t = queue s \<Longrightarrow> contents t = contents s \<and> queued t = queued s \<and> ring_ok t = ring_ok s"
  by (simp add: contents_def queued_def ring_ok_def)

lemma counted_cong:
  "t_sum t = t_sum s \<Longrightarrow> t_odd t = t_odd s \<Longrightarrow> t_even t = t_even s \<Longrightarrow> t_min t = t_min s \<Longrightarrow> t_max t = t_max s \<Longrightarrow> counted M t = counted M s"
  by (simp add: counted_def)

lemma goes_simps [simp]:
  "front (goes i w s) = front s" "rear (goes i w s) = rear s" "queue (goes i w s) = queue s" "taskCount (goes i w s) = taskCount s"
  "done_flag (goes i w s) = done_flag s" "workers (goes i w s) = (workers s)[i := w]" "infile (goes i w s) = infile s" "out (goes i w s) = out s"
  "finished (goes i w s) = finished s" "contents (goes i w s) = contents s" "queued (goes i w s) = queued s" "ring_ok (goes i w s) = ring_ok s"
  "counted M (goes i w s) = counted M s"
  by (simp_all add: goes_def contents_def queued_def ring_ok_def counted_def)

lemma handled_update:
  "i < length ws \<Longrightarrow> mset (concat (map handled (ws[i := w]))) + mset (handled (ws ! i)) = mset (concat (map handled ws)) + mset (handled w)"
proof (induction ws arbitrary: i)
  case (Cons v ws)
  then show ?case by (cases i) (auto simp: ac_simps)
qed simp

lemma in_work_goes: "i < length (workers s) \<Longrightarrow> in_work (goes i w s) + mset (handled (workers s ! i)) = in_work s + mset (handled w)"
  using handled_update by (simp add: in_work_def)

lemma updated_set: "x \<in> set (ws[i := w]) \<Longrightarrow> x = w \<or> x \<in> set ws"
  using set_update_subset_insert by fastforce

lemma tq_inv_start: "tq_inv (mset (tasks_of input)) (start t input)"
proof -
  have "concat (map handled (replicate n Top)) = []" for n by (induction n) auto
  then have "in_work (start t input) = {#}" "contents (start t input) = []" "queued (start t input) = 0"
    by (simp_all add: in_work_def start_def contents_def queued_def)
  moreover have "counted {#} (start t input)" by (simp add: counted_def start_def)
  ultimately show ?thesis unfolding tq_inv_def by (auto simp: start_def ring_ok_def)
qed
text \<open>Every step keeps the invariant, unless an insertion overflows.\<close>

lemma tq_inv_put:
  assumes "tq_inv T s" "\<not> done_flag s" "infile s = Task n # ls" "queued s < 19"
  shows "tq_inv T (masterFunc n (s\<lparr>infile := ls\<rparr>))"
proof -
  let ?s = "s\<lparr>infile := ls\<rparr>" let ?t = "masterFunc n ?s"
  have c: "contents ?s = contents s" "queued ?s = queued s" "ring_ok ?s = ring_ok s" using contents_cong [of ?s s] by simp_all
  have r: "ring_ok s" using assms(1) by (simp add: tq_inv_def)
  have i: "contents (queue_insert n ?s) = contents s @ [n]" "ring_ok (queue_insert n ?s)"
    using tasks.put_contents [of ?s n] tasks.put_inv [of ?s n] c r assms(4) by simp_all
  have e: "queue_insert n ?s = ?s\<lparr>rear := (rear s + 1) mod 20, queue := (queue s)((rear s + 1) mod 20 := n)\<rparr>"
    using insert_room [of ?s n] c r assms(4) by simp
  have t: "?t = (queue_insert n ?s)\<lparr>taskCount := taskCount s + 1\<rparr>" by (simp add: masterFunc_def Let_def e)
  have k: "contents ?t = contents s @ [n]" "queued ?t = Suc (queued s)" "ring_ok ?t"
    using contents_cong [of ?t "queue_insert n ?s"] i queued_length [OF i(1)] unfolding t by simp_all
  obtain M where M: "counted M s" "M + in_work s + mset (contents s) + mset (tasks_of (infile s)) = T" using assms(1) by (auto simp: tq_inv_def)
  have "counted M ?t" using M(1) counted_cong [of ?t s M] unfolding t e by simp
  moreover have "in_work ?t = in_work s" unfolding t e by (simp add: in_work_def)
  moreover have "mset (tasks_of (infile s)) = add_mset n (mset (tasks_of ls))" using assms(3) by (simp add: tasks_of_def)
  ultimately have "counted M ?t \<and> M + in_work ?t + mset (contents ?t) + mset (tasks_of (infile ?t)) = T"
    using M(2) k(1) unfolding t e by simp
  then show ?thesis using assms(1,2) k unfolding tq_inv_def t e by auto
qed

lemma tq_inv_take:
  assumes "tq_inv T s" "i < length (workers s)" "workers s ! i = Top" "worker_take s = (w, t)"
  shows "tq_inv T (goes i w t)" "out t = out s" "infile t = infile s" "taskCount s = 0 \<Longrightarrow> w = Testing \<and> t = s"
    "0 < taskCount s \<Longrightarrow> \<exists>n. w = Processing n" "taskCount t = taskCount s - 1" "workers t = workers s" "finished t = finished s" "done_flag t = done_flag s"
proof -
  have r: "ring_ok s" "taskCount s = queued s" using assms(1) by (auto simp: tq_inv_def)
  obtain M where M: "counted M s" "M + in_work s + mset (contents s) + mset (tasks_of (infile s)) = T" using assms(1) by (auto simp: tq_inv_def)
  note g = in_work_goes [OF assms(2), unfolded assms(3)]
  consider "taskCount s = 0" "w = Testing" "t = s" |
    "0 < taskCount s" "w = Processing (queue_front s)" "t = s\<lparr>front := (front s + 1) mod 20, taskCount := taskCount s - 1\<rparr>"
    using assms(4) delete_some [OF r(1)] r(2) by (cases "taskCount s") (auto simp: worker_take_def contents_def)
  then have "tq_inv T (goes i w t) \<and> out t = out s \<and> infile t = infile s \<and> (taskCount s = 0 \<longrightarrow> w = Testing \<and> t = s) \<and>
    (0 < taskCount s \<longrightarrow> (\<exists>n. w = Processing n)) \<and> taskCount t = taskCount s - 1 \<and> workers t = workers s \<and> finished t = finished s \<and> done_flag t = done_flag s"
  proof cases
    case 1
    have "in_work (goes i Testing s) = in_work s" using g [of Testing] by simp
    then have "tq_inv T (goes i w t)" using assms(1) M 1 unfolding tq_inv_def by (auto dest!: updated_set)
    then show ?thesis using 1 by simp
  next
    case 2
    have ne: "contents s \<noteq> []" using 2(1) r(2) by (simp add: contents_def)
    have c: "contents s = queue_front s # contents t" "queued s = Suc (queued t)" "ring_ok t"
    proof -
      have d: "contents s = queue_front s # contents (snd (queue_delete s))" "ring_ok (snd (queue_delete s))"
        by (rule contents_delete [OF r(1) ne], rule tasks.drop_inv [OF r(1) ne])
      have "contents t = contents (snd (queue_delete s))" "ring_ok t = ring_ok (snd (queue_delete s))"
        using contents_cong [of t "snd (queue_delete s)"] delete_some [OF r(1) ne] 2(3) by simp_all
      then show "contents s = queue_front s # contents t" "ring_ok t" using d by simp_all
      then show "queued s = Suc (queued t)" using queued_length by fastforce
    qed
    have "counted M (goes i w t)" using M(1) counted_cong [of t s M] 2(3) by simp
    moreover have "in_work (goes i w t) = add_mset (queue_front s) (in_work s)" using g [of w] 2(2,3) by (simp add: in_work_def)
    then have "M + in_work (goes i w t) + mset (contents (goes i w t)) + mset (tasks_of (infile (goes i w t))) = T"
      using M(2) c(1) 2(3) by simp
    moreover have "Exited \<notin> set (workers s)" "Lost \<notin> set (workers s)" using 2(1) assms(1) by (auto simp: tq_inv_def)
    then have "Exited \<notin> set (workers (goes i w t))" "Lost \<notin> set (workers (goes i w t))" using 2(2,3) by (auto dest!: updated_set)
    moreover have "taskCount (goes i w t) = queued (goes i w t)" "ring_ok (goes i w t)" "done_flag (goes i w t) \<longrightarrow> infile (goes i w t) = []"
    proof -
      have "taskCount t = taskCount s - 1" "done_flag t = done_flag s" "infile t = infile s" using 2(3) by simp_all
      then show "taskCount (goes i w t) = queued (goes i w t)" "ring_ok (goes i w t)" "done_flag (goes i w t) \<longrightarrow> infile (goes i w t) = []"
        using r(2) c(2,3) assms(1) by (simp_all add: tq_inv_def)
    qed
    ultimately have "tq_inv T (goes i w t)" unfolding tq_inv_def by blast
    then show ?thesis using 2 by simp
  qed
  then show "tq_inv T (goes i w t)" "out t = out s" "infile t = infile s" "taskCount s = 0 \<Longrightarrow> w = Testing \<and> t = s"
    "0 < taskCount s \<Longrightarrow> \<exists>n. w = Processing n" "taskCount t = taskCount s - 1" "workers t = workers s" "finished t = finished s" "done_flag t = done_flag s" by blast+
qed

lemma tq_inv_process:
  assumes "tq_inv T s" "i < length (workers s)" "workers s ! i = Processing n"
  shows "tq_inv T (goes i Testing (processtask n s))"
proof -
  let ?t = "goes i Testing (processtask n s)"
  obtain M where M: "counted M s" "M + in_work s + mset (contents s) + mset (tasks_of (infile s)) = T" using assms(1) by (auto simp: tq_inv_def)
  have "counted (add_mset n M) ?t" using counted_process [OF M(1)] by simp
  moreover have "in_work s = add_mset n (in_work ?t)"
    using in_work_goes [of i "processtask n s" Testing] assms(2,3) by (simp add: in_work_def)
  moreover have "contents ?t = contents s" "queued ?t = queued s" "ring_ok ?t = ring_ok s" using contents_cong [of ?t s] by simp_all
  ultimately show ?thesis using assms(1) M(2) unfolding tq_inv_def by (auto dest!: updated_set intro!: exI [of _ "add_mset n M"])
qed

lemma tq_inv_test:
  assumes "tq_inv T s" "i < length (workers s)" "workers s ! i = Testing"
  shows "tq_inv T (goes i (if done_flag s \<and> taskCount s = 0 then Exited else Top) s)"
proof -
  let ?w = "if done_flag s \<and> taskCount s = 0 then Exited else Top"
  have "in_work (goes i ?w s) = in_work s" using in_work_goes [OF assms(2), of ?w] assms(3) by simp
  then show ?thesis using assms(1) unfolding tq_inv_def by (auto dest!: updated_set split: if_splits)
qed

lemma tq_inv_say: "tq_inv T (say r s) = tq_inv T s" "tq_inv T (s\<lparr>finished := b\<rparr>) = tq_inv T s"
  using contents_cong [of "say r s" s] contents_cong [of "s\<lparr>finished := b\<rparr>" s]
  by (simp_all add: tq_inv_def say_def in_work_def counted_def)
section \<open>Runs\<close>

lemma overflow_or_room:
  assumes "ring_ok s"
  shows "queued s < 19 \<or> Overflow \<in> set (out (masterFunc n s))"
  using not_full [OF assms] queued_bound [OF assms] by (auto simp: masterFunc_def queue_insert_def QUEUE_SIZE_def Let_def say_def)

lemma tq_inv_line:
  assumes "tq_inv T s" "infile s = l # ls" "Overflow \<notin> set (out (main_line l (s\<lparr>infile := ls\<rparr>)))"
  shows "tq_inv T (main_line l (s\<lparr>infile := ls\<rparr>))"
proof -
  let ?s = "s\<lparr>infile := ls\<rparr>"
  have d: "\<not> done_flag s" "ring_ok s" using assms(1,2) by (auto simp: tq_inv_def)
  have c: "contents ?s = contents s" "queued ?s = queued s" "ring_ok ?s = ring_ok s" using contents_cong [of ?s s] by simp_all
  have o: "tq_inv T ?s" if "task_of l = []"
    using assms(1,2) that c d(1) unfolding tq_inv_def by (simp add: tasks_of_def in_work_def counted_def)
  show ?thesis
  proof (cases l)
    case (Task n)
    have "queued s < 19" using overflow_or_room [of ?s n] assms(3) Task c d(2) by (simp add: main_line_def)
    then show ?thesis using tq_inv_put [OF assms(1) d(1)] assms(2) Task by (simp add: main_line_def)
  qed (use o in \<open>simp_all add: main_line_def tq_inv_say\<close>)
qed

lemma out_grows: "tstep s t \<Longrightarrow> set (out s) \<subseteq> set (out t)"
  by (induction rule: tstep.induct)
    (auto simp: main_line_def masterFunc_def queue_insert_def say_def Let_def worker_take_def queue_delete_def split: line.splits if_splits)

lemma step_inv: "tstep s t \<Longrightarrow> Overflow \<notin> set (out t) \<Longrightarrow> tq_inv T s \<Longrightarrow> tq_inv T t"
proof (induction rule: tstep.induct)
  case (eof s)
  have "tq_inv T (s\<lparr>done_flag := True\<rparr>)"
    using eof contents_cong [of "s\<lparr>done_flag := True\<rparr>" s] unfolding tq_inv_def by (simp add: in_work_def counted_def)
  then show ?case .
qed (simp_all add: tq_inv_line tq_inv_take(1) tq_inv_process tq_inv_test tq_inv_say)

text \<open>The totals are printed once, at the end, and are those of the fields.\<close>

definition printed_ok :: "int multiset \<Rightarrow> tq \<Rightarrow> bool" where
  "printed_ok T s \<longleftrightarrow> (\<forall>a b c d e. Totals a b c d e \<in> set (out s) \<longrightarrow> finished s \<and>
     a = \<Sum>\<^sub># T \<and> b = int (size (filter_mset is_odd T)) \<and> c = int (size (filter_mset (\<lambda>n. \<not> is_odd n) T)) \<and>
     d = Min (insert (2 ^ 31 - 1) (set_mset T)) \<and> e = Max (insert (- (2 ^ 31)) (set_mset T)))"

lemma all_done:
  assumes "tq_inv T s" "done_flag s" "\<forall>w \<in> set (workers s). w = Exited" "workers s \<noteq> []"
  shows "counted T s"
proof -
  have "Exited \<in> set (workers s)" using assms(3,4) by (metis hd_in_set)
  then have "contents s = []" using assms(1) by (simp add: tq_inv_def contents_def)
  moreover have "infile s = []" using assms(1,2) by (simp add: tq_inv_def)
  moreover have "concat (map handled ws) = []" if "\<forall>w \<in> set ws. w = Exited" for ws using that by (induction ws) auto
  then have "in_work s = {#}" using assms(3) by (simp add: in_work_def)
  ultimately show ?thesis using assms(1) by (auto simp: tq_inv_def tasks_of_def)
qed

lemma step_printed:
  assumes "tstep s t" "tq_inv T s" "workers s \<noteq> []" "printed_ok T s"
  shows "printed_ok T t"
proof -
  have "\<not> finished s" using assms(1) by (auto elim: tstep.cases)
  then have n: "Totals a b c d e \<notin> set (out s)" for a b c d e using assms(4) by (auto simp: printed_ok_def)
  show ?thesis
    using assms(1)
  proof cases
    case report
    then have "counted T s" using all_done assms(2,3) by blast
    then show ?thesis using n report(1) by (auto simp: printed_ok_def counted_def say_def)
  next
    case (take i w t)
    then show ?thesis using n tq_inv_take(2) [OF assms(2) take(3,4,5)] by (simp add: printed_ok_def)
  qed (use n in \<open>auto simp: printed_ok_def main_line_def masterFunc_def queue_insert_def say_def Let_def split: line.splits if_splits\<close>)
qed

lemma step_workers: "tstep s t \<Longrightarrow> length (workers t) = length (workers s)"
  by (induction rule: tstep.induct)
    (auto simp: main_line_def masterFunc_def queue_insert_def say_def Let_def worker_take_def queue_delete_def split: line.splits if_splits)

lemma reach_inv:
  assumes "tstep\<^sup>*\<^sup>* (start t input) s" "2 \<le> t" "Overflow \<notin> set (out s)"
  shows "tq_inv (mset (tasks_of input)) s \<and> printed_ok (mset (tasks_of input)) s \<and> workers s \<noteq> []"
  using assms
proof (induction rule: rtranclp_induct)
  case base
  have "printed_ok T (start t input)" for T by (simp add: printed_ok_def start_def)
  moreover have "workers (start t input) \<noteq> []" using base(1) by (simp add: start_def)
  ultimately show ?case using tq_inv_start by blast
next
  case (step s u)
  have "Overflow \<notin> set (out s)" using out_grows [OF step.hyps(2)] step.prems(2) by blast
  then have i: "tq_inv (mset (tasks_of input)) s" "printed_ok (mset (tasks_of input)) s" "workers s \<noteq> []" using step by blast+
  have "workers u \<noteq> []" using step_workers [OF step.hyps(2)] i(3) by force
  then show ?case using step_inv [OF step.hyps(2) step.prems(2) i(1)] step_printed [OF step.hyps(2) i(1,3,2)] by blast
qed
text \<open>With fewer than 20 tasks the queue never overflows.\<close>

lemma insert_no_overflow: "ring_ok s \<Longrightarrow> queued s < 19 \<Longrightarrow> out (masterFunc n s) = out s"
  by (simp add: masterFunc_def insert_room Let_def)

lemma main_line_infile: "infile (main_line l s) = infile s"
  by (simp add: main_line_def masterFunc_def queue_insert_def say_def Let_def split: line.splits)

lemma step_no_overflow:
  assumes "tstep s t" "tq_inv T s" "size T < 20 \<or> queued s = 0 \<or> infile t = infile s" "Overflow \<notin> set (out s)"
  shows "Overflow \<notin> set (out t)"
  using assms(1)
proof cases
  case (line l ls)
  let ?s = "s\<lparr>infile := ls\<rparr>"
  have c: "queued ?s = queued s" "ring_ok ?s" using contents_cong [of ?s s] assms(2) by (simp_all add: tq_inv_def)
  show ?thesis
  proof (cases l)
    case (Task n)
    obtain M where "M + in_work s + mset (contents s) + mset (tasks_of (infile s)) = T" using assms(2) by (auto simp: tq_inv_def)
    then have "queued s + size (mset (tasks_of (infile s))) \<le> size T" by auto
    then have "queued s < 19" using assms(3) line(1,3) Task c(2) by (auto simp: tasks_of_def main_line_infile)
    then show ?thesis using insert_no_overflow [OF c(2)] c(1) assms(4) line(1) Task by (simp add: main_line_def)
  qed (use line(1) assms(4) in \<open>simp_all add: main_line_def say_def\<close>)
next
  case (take i w t)
  then show ?thesis using tq_inv_take(2) [OF assms(2) take(3,4,5)] assms(4) by simp
qed (use assms(4) in \<open>simp_all add: say_def\<close>)

lemma small_no_overflow:
  assumes "tstep\<^sup>*\<^sup>* (start t input) s" "2 \<le> t" "length (tasks_of input) < 20"
  shows "Overflow \<notin> set (out s)"
  using assms
proof (induction rule: rtranclp_induct)
  case base
  show ?case by (simp add: start_def)
next
  case (step s u)
  then have o: "Overflow \<notin> set (out s)" by blast
  have "tq_inv (mset (tasks_of input)) s" using reach_inv [OF step.hyps(1) assms(2) o] by blast
  from step_no_overflow [OF step.hyps(2) this _ o] show ?case using assms(3) by simp
qed

text \<open>From every state without overflow the program can run to its end: it never gets stuck.\<close>

definition workload :: "worker \<Rightarrow> nat" where
  "workload w = (case w of Top \<Rightarrow> 2 | Processing _ \<Rightarrow> 2 | Testing \<Rightarrow> 1 | _ \<Rightarrow> 0)"

definition left :: "tq \<Rightarrow> nat" where
  "left s = 4 * length (infile s) + 3 * taskCount s + (\<Sum>w \<leftarrow> workers s. workload w) + (if done_flag s then 0 else 1)"

lemma workload_update: "i < length ws \<Longrightarrow> (\<Sum>w \<leftarrow> ws[i := v]. workload w) + workload (ws ! i) = (\<Sum>w \<leftarrow> ws. workload w) + workload v"
proof (induction ws arbitrary: i)
  case (Cons w ws)
  then show ?case by (cases i) auto
qed simp

lemma left_goes: "i < length (workers s) \<Longrightarrow> left (goes i v s) + workload (workers s ! i) = left s + workload v"
  using workload_update [of i "workers s" v] by (simp add: left_def)

definition advances :: "int multiset \<Rightarrow> tq \<Rightarrow> tq \<Rightarrow> bool" where
  "advances T s t \<longleftrightarrow> tstep\<^sup>*\<^sup>* s t \<and> tq_inv T t \<and> workers t \<noteq> [] \<and> Overflow \<notin> set (out t)"

lemma advances_step:
  assumes "advances T r s" "tstep s t" "queued s = 0 \<or> infile t = infile s"
  shows "advances T r t"
proof -
  note a = assms(1) [unfolded advances_def]
  have o: "Overflow \<notin> set (out t)" by (rule step_no_overflow [OF assms(2)]) (use a assms(3) in blast)+
  moreover have "workers t \<noteq> []" using step_workers [OF assms(2)] a by force
  ultimately show ?thesis using step_inv [OF assms(2) o] a assms(2) unfolding advances_def by (meson rtranclp.rtrancl_into_rtrancl)
qed

lemma take_next:
  assumes "advances T r s" "\<not> finished s" "i < length (workers s)" "workers s ! i = Top"
  obtains t where "advances T r t" "left t + (if taskCount s = 0 then 1 else 3) = left s"
proof -
  have inv: "tq_inv T s" using assms(1) by (simp add: advances_def)
  obtain w t where t: "worker_take s = (w, t)" by fastforce
  note k = tq_inv_take [OF inv assms(3,4) t]
  have l: "left (goes i w t) + 2 = left t + workload w" using left_goes [of i t w] assms(3,4) k(7) by (simp add: workload_def)
  have "left t + 3 * (taskCount s - taskCount t) = left s" using k(3,6,7,9) by (cases "taskCount s") (simp_all add: left_def)
  moreover have "workload w = (if taskCount s = 0 then 1 else 2)" using k(4,5) by (auto simp: workload_def)
  ultimately have "left (goes i w t) + (if taskCount s = 0 then 1 else 3) = left s" using l k(6) by (cases "taskCount s") auto
  moreover have "advances T r (goes i w t)"
    by (rule advances_step [OF assms(1) tstep.take [OF assms(2-4) t]]) (simp add: k(3))
  ultimately show thesis using that by blast
qed

lemma drain_queue:
  assumes "advances T r s" "\<not> finished s" "0 < taskCount s" "\<nexists>i n. i < length (workers s) \<and> workers s ! i = Processing n"
  obtains t where "advances T r t" "left t < left s"
proof -
  have inv: "tq_inv T s" "workers s \<noteq> []" using assms(1) by (simp_all add: advances_def)
  have h: "0 < length (workers s)" "workers s ! 0 \<in> set (workers s)" using inv(2) by simp_all
  have "Exited \<notin> set (workers s)" "Lost \<notin> set (workers s)" using inv(1) assms(3) by (auto simp: tq_inv_def)
  then have "workers s ! 0 \<noteq> Exited" "workers s ! 0 \<noteq> Lost" "\<nexists>n. workers s ! 0 = Processing n" using h assms(4) by metis+
  then consider "workers s ! 0 = Top" | "workers s ! 0 = Testing" by (cases "workers s ! 0") auto
  then show thesis
  proof cases
    case 1
    obtain t where "advances T r t" "left t + (if taskCount s = 0 then 1 else 3) = left s" using take_next [OF assms(1,2) h(1) 1] .
    then show ?thesis using that assms(3) by auto
  next
    case 2
    let ?s = "goes 0 Top s"
    have "tstep s ?s" using tstep.test [OF assms(2) h(1) 2] assms(3) by simp
    then have a: "advances T r ?s" by (rule advances_step [OF assms(1)]) simp
    have l: "left ?s = left s + 1" using left_goes [OF h(1), of Top] 2 by (simp add: workload_def)
    obtain t where "advances T r t" "left t + (if taskCount ?s = 0 then 1 else 3) = left ?s"
      by (rule take_next [OF a _, of 0]) (use assms(2) h(1) in auto)
    then show ?thesis using that l assms(3) by auto
  qed
qed

lemma idle_queue:
  assumes "advances T r s" "\<not> finished s" "taskCount s = 0" "\<nexists>i n. i < length (workers s) \<and> workers s ! i = Processing n"
  obtains t where "advances T r t" "finished t \<or> left t < left s"
proof -
  have inv: "tq_inv T s" "queued s = 0" using assms(1,3) by (simp_all add: advances_def tq_inv_def)
  consider l ls where "infile s = l # ls" | "infile s = []" "\<not> done_flag s" | i where "done_flag s" "i < length (workers s)" "workers s ! i = Top"
    | i where "done_flag s" "i < length (workers s)" "workers s ! i = Testing" | "done_flag s" "\<forall>w \<in> set (workers s). w = Exited"
  proof -
    have "w = Top \<or> w = Testing \<or> w = Exited" if "w \<in> set (workers s)" for w
    proof -
      have "w \<noteq> Lost" using inv(1) that by (auto simp: tq_inv_def)
      then show ?thesis using assms(4) that by (cases w) (auto simp: in_set_conv_nth)
    qed
    then show ?thesis using that by (metis in_set_conv_nth list.exhaust)
  qed
  then show thesis
  proof cases
    case 1
    let ?t = "main_line l (s\<lparr>infile := ls\<rparr>)"
    have "tstep s ?t" by (rule tstep.line [OF assms(2) 1])
    then have "advances T r ?t" by (rule advances_step [OF assms(1)]) (simp add: inv(2))
    moreover have "finished ?t \<or> left ?t < left s"
    proof (cases l)
      case (Task n)
      have "ring_ok (s\<lparr>infile := ls\<rparr>)" "queued (s\<lparr>infile := ls\<rparr>) < 19" using contents_cong [of "s\<lparr>infile := ls\<rparr>" s] inv by (simp_all add: tq_inv_def)
      from insert_room [OF this] show ?thesis using Task 1 by (simp add: main_line_def masterFunc_def left_def)
    qed (use 1 in \<open>simp_all add: main_line_def left_def say_def\<close>)
    ultimately show ?thesis using that by blast
  next
    case 2
    have "tstep s (s\<lparr>done_flag := True\<rparr>)" by (rule tstep.eof [OF assms(2) 2])
    then have "advances T r (s\<lparr>done_flag := True\<rparr>)" by (rule advances_step [OF assms(1)]) simp
    moreover have "left (s\<lparr>done_flag := True\<rparr>) < left s" using 2 by (simp add: left_def)
    ultimately show ?thesis using that by blast
  next
    case (3 i)
    obtain t where "advances T r t" "left t + (if taskCount s = 0 then 1 else 3) = left s" using take_next [OF assms(1,2) 3(2,3)] .
    then show ?thesis using that assms(3) by auto
  next
    case (4 i)
    have "tstep s (goes i Exited s)" using tstep.test [OF assms(2) 4(2,3)] 4(1) assms(3) by simp
    then have "advances T r (goes i Exited s)" by (rule advances_step [OF assms(1)]) simp
    moreover have "left (goes i Exited s) < left s" using left_goes [OF 4(2), of Exited] 4(3) by (simp add: workload_def)
    ultimately show ?thesis using that by blast
  next
    case 5
    let ?t = "(say (Totals (t_sum s) (t_odd s) (t_even s) (t_min s) (t_max s)) s)\<lparr>finished := True\<rparr>"
    have "tstep s ?t" by (rule tstep.report [OF assms(2) 5])
    then have "advances T r ?t" by (rule advances_step [OF assms(1)]) (simp add: say_def)
    then show ?thesis using that by simp
  qed
qed

lemma can_finish: "advances T r s \<Longrightarrow> \<exists>u. advances T r u \<and> finished u"
proof (induction "left s" arbitrary: s rule: less_induct)
  case less
  have "\<exists>t. advances T r t \<and> (finished t \<or> left t < left s)"
  proof (cases "\<exists>i n. i < length (workers s) \<and> workers s ! i = Processing n")
    case True
    then obtain i n where i: "i < length (workers s)" "workers s ! i = Processing n" by blast
    show ?thesis
    proof (cases "finished s")
      case False
      let ?t = "goes i Testing (processtask n s)"
      have "tstep s ?t" by (rule tstep.process [OF False i])
      then have "advances T r ?t" by (rule advances_step [OF less.prems]) simp
      moreover have "left (processtask n s) = left s" by (simp add: left_def)
      then have "left ?t < left s" using left_goes [of i "processtask n s" Testing] i by (simp add: workload_def)
      ultimately show ?thesis by blast
    qed (use less.prems in blast)
  next
    case False
    show ?thesis
    proof (cases "finished s")
      case nf: False
      show ?thesis
      proof (cases "taskCount s = 0")
        case True
        show ?thesis using idle_queue [OF less.prems nf True False] by blast
      next
        case ne: False
        then have "0 < taskCount s" by simp
        then show ?thesis using drain_queue [OF less.prems nf _ False] by blast
      qed
    qed (use less.prems in blast)
  qed
  then show ?case using less.hyps by blast
qed
section \<open>The property\<close>

definition ends_well :: "line list \<Rightarrow> tq \<Rightarrow> bool" where
  "ends_well input s \<longleftrightarrow> set (infile s) \<subseteq> set input \<and> (finished s \<longrightarrow> Unknown \<in> set input \<or> (\<exists>a b c d e. Totals a b c d e \<in> set (out s)))"

lemma ends_well_step: "tstep s t \<Longrightarrow> ends_well input s \<Longrightarrow> ends_well input t"
proof (induction rule: tstep.induct)
  case (report s)
  have "\<exists>a b c d e. Totals a b c d e \<in> set (out s @ [Totals (t_sum s) (t_odd s) (t_even s) (t_min s) (t_max s)])" by fastforce
  then show ?case using report.prems unfolding ends_well_def say_def by simp
qed (auto simp: ends_well_def main_line_def masterFunc_def queue_insert_def say_def Let_def worker_take_def queue_delete_def split: line.splits if_splits)

lemma ends_well_reach: "tstep\<^sup>*\<^sup>* (start t input) s \<Longrightarrow> ends_well input s"
  by (induction rule: rtranclp_induct) (auto simp: ends_well_step, simp add: ends_well_def start_def)


text \<open>
  When the queue is full an insertion drops the task but still counts it, so the count exceeds what is queued and a worker later takes
  from an empty queue.
\<close>

lemma overflow_miscounts:
  assumes "ring_ok s" "queued s = 19" "taskCount s = 19"
  shows "taskCount (masterFunc n s) = 20 \<and> queued (masterFunc n s) = 19 \<and> contents (masterFunc n s) = contents s \<and> Overflow \<in> set (out (masterFunc n s))"
proof -
  have f: "front s = (rear s + 1) mod 20" using not_full [OF assms(1)] assms(2) by blast
  then have m: "rear (masterFunc n s) = rear s" "front (masterFunc n s) = front s" "queue (masterFunc n s) = queue s"
    using assms(1) by (auto simp: masterFunc_def queue_insert_def QUEUE_SIZE_def say_def Let_def ring_ok_def mod_if split: if_splits)
  have "Overflow \<in> set (out (masterFunc n s))" using overflow_or_room [OF assms(1), of n] assms(2) by auto
  moreover have "taskCount (masterFunc n s) = 20" using assms(3) by (simp add: masterFunc_def queue_insert_def say_def Let_def)
  ultimately show ?thesis using contents_cong [of "masterFunc n s" s] m assms(2) by simp
qed

lemma empty_queue_loses_worker: "queued s = 0 \<Longrightarrow> ring_ok s \<Longrightarrow> 0 < taskCount s \<Longrightarrow> fst (worker_take s) = Lost"
  using queued_cases [of s] by (auto simp: worker_take_def queue_delete_def ring_ok_def split: if_splits)


end
