(* ===== verification/Mmap.thy ===== *)
theory Mmap
  imports Callcheck Uvm
begin

text \<open>
  Memory mapped on demand, as lab 5 adds it (\<^verbatim>\<open>src/lab5/200050133_lab5\<close>): \<open>sys_mmap\<close> of \<^verbatim>\<open>sysproc.c\<close> raises the size of the process and the
  page fault branch of \<open>trap\<close> in \<^verbatim>\<open>trap.c\<close> brings in the pages. Everything below them, \<open>allocuvm\<close> above all, is the code of lab 6 unchanged.
\<close>

unbundle bit_operations_syntax

section \<open>The code\<close>

definition T_PGFLT :: u32 where "T_PGFLT = 14"

text \<open>\<open>sys_mmap\<close> only raises the size of the process; the pages come with the faults.\<close>

definition sys_mmap :: "('x kern_st_scheme, int) prog" where
  "sys_mmap =
     bindM (argint 0) (\<lambda>a.
     case a of None \<Rightarrow> ret (- 1)
     | Some n \<Rightarrow>
         if sint n \<le> 0 \<or> sint n mod 4096 \<noteq> 0 then ret 0
         else
           bindM curproc (\<lambda>p.
           bindM (getS (\<lambda>s. p_sz (ptable s ! p))) (\<lambda>addr.
           seqM (modS (upd_proc p (\<lambda>q. q\<lparr>p_sz := addr + n\<rparr>)))
           (ret (sint addr)))))"

text \<open>The part of \<open>trap\<close> for page faults, which lab 5 adds; \<open>va < 0\<close> is false for an unsigned \<open>va\<close>.\<close>

definition trap_pgflt :: "('x kern_st_scheme, unit) prog" where
  "trap_pgflt =
     bindM (getS cr2) (\<lambda>va.
     bindM curproc (\<lambda>p.
     bindM (getS (\<lambda>s. p_sz (ptable s ! p))) (\<lambda>sz.
     if va \<ge> sz then ret ()
     else
       (let vadown = PGROUNDDOWN va; vaup = PGROUNDUP va;
            vaup = (if vadown = vaup then vaup + PGSIZE else vaup)
        in bindM curproc (\<lambda>p.
           bindM (getS (\<lambda>s. p_pgdir (ptable s ! p))) (\<lambda>pgdir.
           seqM (allocuvm pgdir vadown vaup) (
           bindM myproc (\<lambda>mp.
           switchuvm mp))))))))"

text \<open>\<open>trap\<close> of lab 5, up to the switch over the other traps, which is an argument.\<close>

definition trap5 :: "(u32 \<Rightarrow> ('x kern_st_scheme, unit) prog) \<Rightarrow> u32 \<Rightarrow> ('x kern_st_scheme, unit) prog" where
  "trap5 others tf =
     bindM (getS (\<lambda>s. rd32 (mem s) (tf + tf_trapno))) (\<lambda>trapno.
     if trapno = T_SYSCALL then trap_syscall tf
     else if trapno = T_PGFLT then trap_pgflt
     else others tf)"

section \<open>What growing a process leaves alone\<close>

text \<open>What \<open>allocuvm\<close> and the operations under it never touch: the processes and all that is above them, and which process each CPU runs.\<close>

definition upper :: "'x con_st_scheme \<Rightarrow> 'x \<times> u8 \<times> (u8 \<times> nat option) list" where
  "upper s = (con_st.more s, lapicid s, map (\<lambda>c. (c_apicid c, c_proc c)) (cpus s))"
lemma upper_upd [simp]:
  "upper (upd_lock l g s) = upper s" "upper (upd_mem k s) = upper s" "upper (s\<lparr>if_flag := b\<rparr>) = upper s"
  "upper (s\<lparr>freelist := x\<rparr>) = upper s" "upper (s\<lparr>uart_out := u\<rparr>) = upper s" "upper (s\<lparr>crt := c\<rparr>) = upper s" "upper (s\<lparr>crt_pos := q\<rparr>) = upper s"
  by (simp_all add: upper_def upd_lock_def upd_mem_def)

lemma upper_cpu [simp]:
  assumes "\<And>c. c_apicid (f c) = c_apicid c" "\<And>c. c_proc (f c) = c_proc c"
  shows "upper (upd_cpu i f s) = upper s"
proof -
  have "map (\<lambda>c. (c_apicid c, c_proc c)) ((cpus s)[i := f (cpus s ! i)]) = map (\<lambda>c. (c_apicid c, c_proc c)) (cpus s)"
    by (rule nth_equalityI; simp) (metis assms nth_list_update nth_list_update_neq)
  then show ?thesis by (simp add: upper_def upd_cpu_def)
qed

lemma keeps_upper_lock [keeps_intro]: "keeps upper (acquire l)" "keeps upper (release l)"
  unfolding acquire_def release_def holding_def pushcli_def popcli_def mycpu_def cli_def sti_def by (intro keeps_intro; simp)+

lemma keeps_upper_kmem [keeps_intro]: "keeps upper kalloc" "keeps upper (kfree v)"
  unfolding kalloc_def kfree_def by (intro keeps_intro; simp)+

lemma keeps_upper_walk [keeps_intro]: "keeps upper (walkpgdir d a b)"
  unfolding walkpgdir_def Let_def by (intro keeps_intro; simp)

lemma keeps_upper_map [keeps_intro]: "keeps upper (mappages d va sz pa perm)"
proof -
  have "keeps upper (mappages_loop n d a l pa perm)" for n a l pa
    by (induction n arbitrary: a pa) (auto intro!: keeps_intro)
  then show ?thesis by (simp add: mappages_def)
qed

lemma keeps_upper_dealloc [keeps_intro]: "keeps upper (deallocuvm d o1 n1)"
proof -
  have "keeps upper (deallocuvm_loop n d a o1)" for n a
    by (induction n arbitrary: a) (auto intro!: keeps_intro simp: Let_def)
  then show ?thesis unfolding deallocuvm_def by (intro keeps_intro)
qed

lemma keeps_upper_putc [keeps_intro]: "keeps upper (consputc c)"
  unfolding consputc_def uartputc_def cgaputc_def cli_def by (intro keeps_intro; simp)

lemma keeps_upper_putchars [keeps_intro]: "keeps upper (putchars cs)"
  by (induction cs) (auto intro!: keeps_intro)

lemma keeps_upper_print [keeps_intro]: "keeps (upper :: 'x con_st_scheme \<Rightarrow> _) (cprintf fmt args)"
proof -
  have "keeps (upper :: 'x con_st_scheme \<Rightarrow> _) (cprintf_loop f as)" for f as
  proof (induction "length f" arbitrary: f as rule: less_induct)
    case less
    show ?case
    proof (cases f)
      case (Cons c fmt)
      then have a: "keeps (upper :: 'x con_st_scheme \<Rightarrow> _) (cprintf_loop fmt as)" for as using less by simp
      show ?thesis
      proof (cases fmt)
        case f2: (Cons d fmt')
        then have b: "keeps (upper :: 'x con_st_scheme \<Rightarrow> _) (cprintf_loop fmt' as)" "keeps (upper :: 'x con_st_scheme \<Rightarrow> _) (cprintf_loop (e # fmt') as)" for e as
          using less Cons by (simp_all del: cprintf_loop.simps)
        have i: "keeps (upper :: 'x con_st_scheme \<Rightarrow> _) (printint w n g)" for w n g unfolding printint_def by (rule keeps_upper_putchars)
        show ?thesis
        proof (cases as)
          case Nil
          then show ?thesis unfolding Cons f2 by (subst cprintf_loop.simps(2)) (auto intro!: keeps_intro b simp del: cprintf_loop.simps)
        next
          case as: (Cons x as')
          then show ?thesis unfolding Cons f2 by (subst cprintf_loop.simps(2), cases x) (auto intro!: keeps_intro b i simp del: cprintf_loop.simps)
        qed
      qed (use a Cons in \<open>auto intro!: keeps_intro\<close>)
    qed (simp add: keeps_basic)
  qed
  then show ?thesis unfolding cprintf_def by (intro keeps_intro)
qed

lemma keeps_upper_alloc: "keeps upper (allocuvm d o1 n1)"
proof -
  have "keeps upper (allocuvm_loop n d a o1 n1)" for n a
    by (induction n arbitrary: a) (auto intro!: keeps_intro)
  then show ?thesis unfolding allocuvm_def by (intro keeps_intro)
qed

lemma upper_proc:
  fixes s :: "'x proc_st_scheme"
  assumes "upper t = upper s"
  shows "ptable t = ptable s" "curcpu t = curcpu s" "curcpu s < length (cpus s) \<Longrightarrow> c_proc (mycpu_of t) = c_proc (mycpu_of s)" "con_st.more t = con_st.more s"
proof -
  show m: "con_st.more t = con_st.more s" using assms by (simp add: upper_def)
  then show "ptable t = ptable s" by (cases s; cases t) simp
  have l: "length (cpus t) = length (cpus s)" and n: "\<And>i. i < length (cpus s) \<Longrightarrow> c_apicid (cpus t ! i) = c_apicid (cpus s ! i) \<and> c_proc (cpus t ! i) = c_proc (cpus s ! i)"
    and a: "lapicid t = lapicid s"
    using assms by (auto simp: upper_def list_eq_iff_nth_eq)
  have idx: "first_idx P xs = first_idx Q ys" if "length xs = length ys" "\<And>i. i < length ys \<Longrightarrow> P (xs ! i) = Q (ys ! i)" for P Q and xs ys :: "cpu list"
    using that
  proof (induction xs arbitrary: ys)
    case (Cons x xs)
    then obtain y ys' where y: "ys = y # ys'" by (cases ys) auto
    have "first_idx P xs = first_idx Q ys'" using Cons.prems y by (intro Cons.IH) force+
    then show ?case using Cons.prems(2) [of 0] y by simp
  qed simp
  have "first_idx (\<lambda>c. c_apicid c = lapicid t) (cpus t) = first_idx (\<lambda>c. c_apicid c = lapicid s) (cpus s)" by (rule idx) (use l n a in auto)
  then show c: "curcpu t = curcpu s" by (simp add: curcpu_def)
  show "c_proc (mycpu_of t) = c_proc (mycpu_of s)" if "curcpu s < length (cpus s)" using n [OF that] c by simp
qed
section \<open>A page fault brings in the page\<close>

lemma switchuvm_free:
  fixes s :: "'x vm_st_scheme"
  assumes "lockset {} s" "p_kstack (ptable s ! p) \<noteq> 0" "p_pgdir (ptable s ! p) \<noteq> 0"
  shows "switchuvm (Some p) s = Ok () (pushpop (switched p s))"
proof -
  have pc: "pushcli s = Ok () (pushed s)" "mycpu (pushed s) = Ok (curcpu s) (pushed s)"
    using pushcli_ok [OF locksetD(1) [OF assms(1)]] mycpu_ok [of "pushed s"] locksetD(1) [OF assms(1)] by auto
  have l: "lockset {} (switched p s)" using assms(1) by simp
  have "popcli (pushed (switched p s)) = Ok () (pushpop (switched p s))"
    unfolding pushpop_def using popcli_ok [of "pushed (switched p s)"] locksetD(1,7) [OF l] pushed_ncli_unat [OF l] by simp
  moreover have "pushed (switched p s) =
      (pushed s)\<lparr>cpu_gdt := cpu_gdt (switched p s), cpu_ts := cpu_ts (switched p s),
        task_reg := push_bit 3 (seg_num SEG_TSS), cr3 := V2P (p_pgdir (ptable s ! p))\<rparr>"
    using pushed_more [where s = s] by (simp add: switched_def Let_def)
  ultimately show ?thesis
    using assms(2,3) pc
    by (simp add: switchuvm_def M_defs set_gdt_def upd_ts_def lcr3_def switched_def Let_def del: bit_push_bit_iff)
qed

text \<open>The page around the faulting address.\<close>

lemma fault_page:
  assumes "unat va + 8192 \<le> 2 ^ 32"
  defines "down \<equiv> PGROUNDDOWN va"
  shows "(if down = PGROUNDUP va then PGROUNDUP va + PGSIZE else PGROUNDUP va) = down + PGSIZE"
    "unat (down + PGSIZE) = 4096 * vpn va + 4096" "npages down = vpn va" "npages (down + PGSIZE) = Suc (vpn va)" "down \<le> down + PGSIZE"
proof -
  have d: "unat down = 4096 * vpn va" unfolding down_def by (rule unat_PGROUNDDOWN)
  have v: "4096 * vpn va \<le> unat va" "unat va < 4096 * vpn va + 4096" by (simp_all add: vpn_def)
  show u: "unat (down + PGSIZE) = 4096 * vpn va + 4096" using d v assms(1) by (simp add: PGSIZE_def unat_word_ariths)
  show "npages down = vpn va" "npages (down + PGSIZE) = Suc (vpn va)" "down \<le> down + PGSIZE" using d u by (simp_all add: npages_def word_le_nat_alt)
  have e: "unat (va + PGSIZE - 1) = unat va + 4095" using assms(1) by (simp add: PGSIZE_def unat_word_ariths add_diff_eq [symmetric])
  have r: "unat (PGROUNDUP va) = 4096 * npages va"
    using and_not_FFF [of "va + PGSIZE - 1"] e by (simp add: PGROUNDUP_def npages_def PGSIZE_def)
  show "(if down = PGROUNDUP va then PGROUNDUP va + PGSIZE else PGROUNDUP va) = down + PGSIZE"
  proof (cases "unat va = 4096 * vpn va")
    case True
    then have "npages va = vpn va" by (simp add: npages_def)
    then have "PGROUNDUP va = down" using r d by (simp add: word_unat_eq_iff)
    then show ?thesis by simp
  next
    case False
    then have "npages va = Suc (vpn va)" using v unfolding npages_def by linarith
    then have "PGROUNDUP va = down + PGSIZE" using r u by (simp add: word_unat_eq_iff)
    moreover have "down \<noteq> down + PGSIZE" by (simp add: PGSIZE_def)
    ultimately show ?thesis by simp
  qed
qed

text \<open>
  \<open>brought_in ps d v s t\<close>: page \<open>v\<close> of the process with directory \<open>d\<close> has come in, zeroed and writable; all other pages are as before.
\<close>

definition brought_in :: "u32 list \<Rightarrow> u32 \<Rightarrow> nat \<Rightarrow> 'x vm_st_scheme \<Rightarrow> 'x vm_st_scheme \<Rightarrow> bool" where
  "brought_in ps d v s t \<longleftrightarrow>
     (\<exists>qs. uvm_inv {} qs d t \<and> set qs \<subseteq> set ps) \<and> upresent (mem t) d v \<and> PTE_FLAGS (pte (mem t) d v) = PTE_W OR PTE_U OR PTE_P \<and>
     uframe (mem t) d v \<in> set ps \<and> (\<forall>k < 4096. upage (mem t) d v k = 0) \<and>
     (\<forall>w < 2 ^ 20. w \<noteq> v \<longrightarrow> pte (mem t) d w = pte (mem s) d w) \<and>
     (\<forall>w k. upresent (mem s) d w \<longrightarrow> k < 4096 \<longrightarrow> upage (mem t) d w k = upage (mem s) d w k) \<and>
     ptable t = ptable s \<and> cr3 t = V2P d"

lemma pushpop_con [simp]: "con_ok (pushpop s) = con_ok s"
  by (simp add: con_ok_def pushpop_def effect_defs)

lemma uvm_inv_pushpop:
  assumes "uvm_inv {} ps d s"
  shows "uvm_inv {} ps d (pushpop s)"
proof (rule uvm_inv_mem_eq [OF _ _ _ _ assms])
  show "mem (pushpop s) = mem s" "kend (pushpop s) = kend s" "freelist (pushpop s) = freelist s" by (simp_all add: pushpop_def effect_defs)
  show "lockset {} (pushpop s)" by (rule lockset_pushpop [OF uvm_invD(1) [OF assms]])
qed

lemma uvm_inv_switched: "uvm_inv {} ps d s \<Longrightarrow> uvm_inv {} ps d (switched p s)"
  by (rule uvm_inv_mem_eq [of _ s]) (simp_all add: uvm_inv_def vm_inv_def, simp_all add: switched_def Let_def)

text \<open>A fault at an address of the process whose page is absent, when two pages are free.\<close>

lemma pgflt_brings_in:
  fixes s :: "'x kern_st_scheme"
  assumes "uvm_inv {} ps d s" "con_ok s" "c_proc (mycpu_of s) = Some p" "p_pgdir (ptable s ! p) = d" "p_kstack (ptable s ! p) \<noteq> 0"
    and "cr2 s < p_sz (ptable s ! p)" "unat (cr2 s) + 4096 < 2 ^ 31" "\<not> upresent (mem s) d (vpn (cr2 s))" "2 \<le> length ps"
  shows "\<exists>t. trap_pgflt s = Ok () t \<and> brought_in ps d (vpn (cr2 s)) s t"
proof -
  let ?va = "cr2 s" and ?v = "vpn (cr2 s)" and ?down = "PGROUNDDOWN (cr2 s)" and ?s = "pushpop (pushpop s)"
  note i = uvm_invD [OF assms(1)]
  have f: "unat ?va + 8192 \<le> 2 ^ 32" using assms(7) by simp
  note g = fault_page [OF f]
  have u: "uvm_inv {} ps d ?s" "con_ok ?s" by (intro uvm_inv_pushpop assms(1)) (simp add: assms(2))
  have "4096 * ?v \<le> unat ?va" by (simp add: vpn_def)
  then have "?down + PGSIZE < KERNBASE" using g(2) assms(7) by (simp add: KERNBASE_def word_less_nat_alt)
  moreover have "\<forall>v. npages ?down \<le> v \<and> v < npages (?down + PGSIZE) \<longrightarrow> \<not> upresent (mem ?s) d v" using g(3,4) assms(8) by (auto simp: less_Suc_eq_le)
  ultimately obtain r t qs where t: "allocuvm d ?down (?down + PGSIZE) ?s = Ok r t" "uvm_inv {} qs d t" "set qs \<subseteq> set ps"
    "\<forall>v k. upresent (mem s) d v \<longrightarrow> k < 4096 \<longrightarrow> upage (mem t) d v k = upage (mem s) d v k"
    "upresent (mem t) d ?v" "PTE_FLAGS (pte (mem t) d ?v) = PTE_W OR PTE_U OR PTE_P" "uframe (mem t) d ?v \<in> set ps" "\<forall>k < 4096. upage (mem t) d ?v k = 0"
    "\<forall>w < 2 ^ 20. w \<noteq> ?v \<longrightarrow> pte (mem t) d w = pte (mem s) d w"
    using allocuvm_grows [OF u(1) _ u(2) g(5)] assms(9) g(3,4) by (auto simp: less_Suc_eq_le)
  have up: "upper t = upper ?s" using keeps_upper_alloc t(1) unfolding keeps_def by blast
  have c: "curcpu ?s < length (cpus ?s)" by (rule curcpu_less [OF locksetD(1) [OF uvm_invD(1) [OF u(1)]]])
  have pt: "ptable t = ptable s" "c_proc (mycpu_of t) = Some p" using upper_proc(1) [OF up] upper_proc(3) [OF up c] assms(3) by simp_all
  have l: "lockset {} t" by (rule uvm_invD(1) [OF t(2)])
  let ?t = "switched p (pushpop t)"
  have cp: "curproc s = Ok p (pushpop s)" "curproc (pushpop s) = Ok p ?s" "myproc t = Ok (Some p) (pushpop t)"
    using curproc_ok [OF i(1) assms(3)] curproc_ok [of "{}" "pushpop s" p] myproc_ok [OF l] lockset_pushpop [OF i(1)] assms(3) pt(2) by simp_all
  have d0: "d \<noteq> 0" by (rule pt_okD(2) [OF i(5)])
  have sw: "switchuvm (Some p) (pushpop t) = Ok () (pushpop ?t)"
    by (rule switchuvm_free) (use lockset_pushpop [OF l] pt(1) assms(4,5) d0 in simp_all)
  have "trap_pgflt s = Ok () (pushpop ?t)"
    using assms(4,6) cp t(1) sw g(1) by (simp add: trap_pgflt_def M_defs Let_def not_le)
  moreover have "uvm_inv {} qs d (pushpop ?t)" by (intro uvm_inv_pushpop uvm_inv_switched t(2))
  moreover have "mem (pushpop ?t) = mem t" "ptable (pushpop ?t) = ptable s" "cr3 (pushpop ?t) = V2P d"
    using pt(1) assms(4) by simp_all (simp add: switched_def Let_def)
  ultimately show ?thesis using t(3-) unfolding brought_in_def by auto
qed
section \<open>The property\<close>

lemma sys_mmap_arg:
  fixes s :: "'x kern_st_scheme"
  assumes "user_mem p s" "user_arg p s 0 = Some n"
  shows "sys_mmap s =
    (if sint n \<le> 0 \<or> sint n mod 4096 \<noteq> 0 then Ok 0 (pushpop s)
     else Ok (sint (p_sz (ptable s ! p))) (upd_proc p (\<lambda>q. q\<lparr>p_sz := p_sz (ptable s ! p) + n\<rparr>) (pushpop s)))"
  using argint_user [OF assms(1), of 0] assms(2) user_memD(5,6,7) [OF assms(1)] user_memD(7) [OF user_memD(5) [OF assms(1)]]
  by (simp add: sys_mmap_def bindM_def seqM_def ret_def getS_def modS_def upd_proc_def)

lemma upd_proc_mach [simp]:
  "mem (upd_proc i f s) = mem s" "cpus (upd_proc i f s) = cpus s" "curcpu (upd_proc i f s) = curcpu s" "lockset S (upd_proc i f s) = lockset S s"
  "kend (upd_proc i f s) = kend s" "freelist (upd_proc i f s) = freelist s" "con_ok (upd_proc i f s) = con_ok s"
  by (simp_all add: upd_proc_def curcpu_def lockset_def cpu_found_def con_ok_def)

text \<open>
  C9: memory mapped by lab 5's \<open>mmap\<close> comes in page by page, on demand. For a running process whose memory is mapped, a call with a
  positive multiple of the page size returns the old size of the process as the address and takes no page; with any other argument it returns 0 and changes
  nothing. When the process then touches an address of the new area, below the last page under \<open>KERNBASE\<close>, and two pages are free (one may be needed for a
  table), the page fault returns with that page present, writable by the user and zeroed, taken from the free list, and with
  every other translation and the contents of every other page as they were.
\<close>

theorem mmap_on_demand:
  fixes s :: "'x kern_st_scheme"
  assumes "user_mem p s" "user_arg p s 0 = Some n" "p < length (ptable s)"
    and "uvm_inv {} ps (p_pgdir (ptable s ! p)) s" "con_ok s" "p_kstack (ptable s ! p) \<noteq> 0"
    and "\<forall>v. npages (p_sz (ptable s ! p)) \<le> v \<longrightarrow> \<not> upresent (mem s) (p_pgdir (ptable s ! p)) v" "2 \<le> length ps"
  shows "\<exists>r t. sys_mmap s = Ok r t \<and> mem t = mem s \<and> freelist t = freelist s \<and>
    (if 0 < sint n \<and> 4096 dvd sint n then
       r = sint (p_sz (ptable s ! p)) \<and> p_sz (ptable t ! p) = p_sz (ptable s ! p) + n \<and>
       (\<forall>va. npages (p_sz (ptable s ! p)) \<le> vpn va \<and> va < p_sz (ptable s ! p) + n \<and> unat va + 4096 < 2 ^ 31 \<longrightarrow>
          (\<exists>u. trap_pgflt (t\<lparr>cr2 := va\<rparr>) = Ok () u \<and> brought_in ps (p_pgdir (ptable s ! p)) (vpn va) t u))
     else r = 0 \<and> ptable t = ptable s)"
proof (cases "0 < sint n \<and> 4096 dvd sint n")
  case False
  then have "sys_mmap s = Ok 0 (pushpop s)" using sys_mmap_arg [OF assms(1,2)] by (auto simp: mod_eq_0_iff_dvd)
  then show ?thesis unfolding if_not_P [OF False] by (simp add: pushpop_def effect_defs)
next
  case True
  let ?sz = "p_sz (ptable s ! p)" and ?d = "p_pgdir (ptable s ! p)"
  define t where "t = upd_proc p (\<lambda>q. q\<lparr>p_sz := ?sz + n\<rparr>) (pushpop s)"
  have r: "sys_mmap s = Ok (sint ?sz) t" using sys_mmap_arg [OF assms(1,2)] True by (auto simp: t_def mod_eq_0_iff_dvd)
  have t: "mem t = mem s" "freelist t = freelist s" by (simp_all add: t_def)
  have q: "ptable t ! p = (ptable s ! p)\<lparr>p_sz := ?sz + n\<rparr>" using assms(3) by (simp add: t_def upd_proc_def)
  have "\<exists>u. trap_pgflt (t\<lparr>cr2 := va\<rparr>) = Ok () u \<and> brought_in ps ?d (vpn va) t u"
    if va: "npages ?sz \<le> vpn va" "va < ?sz + n" "unat va + 4096 < 2 ^ 31" for va
  proof -
    let ?t = "t\<lparr>cr2 := va\<rparr>"
    have "uvm_inv {} ps ?d ?t"
      by (rule uvm_inv_mem_eq [OF _ _ _ _ uvm_inv_pushpop [OF assms(4)]])
        (use lockset_pushpop [OF uvm_invD(1) [OF assms(4)]] in \<open>simp_all add: t_def\<close>, simp_all add: lockset_def cpu_found_def curcpu_def)
    moreover have "con_ok ?t" using assms(5) by (simp add: t_def con_ok_def) (simp add: upd_proc_def pushpop_def effect_defs)
    moreover have "curcpu ?t = curcpu t" "cpus ?t = cpus t" by (simp_all add: curcpu_def)
    then have "c_proc (mycpu_of ?t) = Some p" using user_memD(2) [OF assms(1)] by (simp add: t_def)
    moreover have "\<not> upresent (mem ?t) ?d (vpn va)" using assms(7) va(1) t(1) by simp
    ultimately obtain u where "trap_pgflt ?t = Ok () u" "brought_in ps ?d (vpn va) ?t u"
      using pgflt_brings_in [of ps ?d ?t p] q va(2,3) assms(6,8) by auto
    then show ?thesis by (auto simp: brought_in_def)
  qed
  then show ?thesis unfolding if_P [OF True] using r t q by auto
qed
section \<open>What the code gets wrong\<close>

text \<open>
  An access beyond the process is not punished: the fault returns and the instruction faults again, for ever. The same happens when
  memory has run out.
\<close>

lemma pgflt_beyond:
  fixes s :: "'x kern_st_scheme"
  assumes "lockset {} s" "c_proc (mycpu_of s) = Some p" "p_sz (ptable s ! p) \<le> cr2 s"
  shows "trap_pgflt s = Ok () (pushpop s)"
  using curproc_ok [OF assms(1,2)] assms(3) by (simp add: trap_pgflt_def M_defs)

text \<open>
  A fault on a page that is present, as the guard page below the user stack is, makes the kernel panic: the page is mapped a second time.
\<close>

lemma map_again:
  fixes s :: "'x kmem_st_scheme"
  assumes "pt_ok e fr (mem s) d" "v < 2 ^ 19" "pte (mem s) d v AND PTE_P \<noteq> 0"
  shows "mappages d (page_at 0 v) PGSIZE pa perm s = Panic ''remap''"
proof -
  let ?a = "page_at 0 v"
  have "unat ?a = 4096 * v" "vpn ?a = v" using assms(2) by (simp_all add: unat_page_at vpn_page)
  then have a: "PGROUNDDOWN ?a = ?a" using unat_PGROUNDDOWN [of ?a] by (simp add: word_unat_eq_iff)
  obtain t where t: "pt_of (mem s) d (unat (PDX ?a)) = Some t" "rd32 (mem s) (t + 4 * PTX ?a) AND PTE_P \<noteq> 0"
    using assms(3) by (auto simp: pte_def pte_of_def split: option.splits)
  have "t mod PGSIZE = 0" "t \<noteq> 0" using pt_okD(5) [OF assms(1) index_less(1) t(1)] by simp_all
  then have "t + 4 * PTX ?a \<noteq> 0" using entry_nonzero [of t "unat (PTX ?a)"] index_less(2) by simp
  moreover have "walkpgdir d ?a True s = Ok (t + 4 * PTX ?a) s"
    using t(1) by (auto simp: walkpgdir_def M_defs pt_of_def pde_def Let_def split: if_splits)
  ultimately have "mappages_loop (Suc n) d ?a l pa perm s = Panic ''remap''" for n l using t(2) by (simp add: M_defs)
  moreover have "NPAGES = Suc (NPAGES - 1)" by (simp add: NPAGES_def)
  ultimately show ?thesis unfolding mappages_def a by metis
qed

lemma pgflt_present_panics:
  fixes s :: "'x kern_st_scheme"
  assumes "uvm_inv {} (g # ps) d s" "c_proc (mycpu_of s) = Some p" "p_pgdir (ptable s ! p) = d"
    and "cr2 s < p_sz (ptable s ! p)" "unat (cr2 s) + 4096 < 2 ^ 31" "upresent (mem s) d (vpn (cr2 s))"
  shows "trap_pgflt s = Panic ''remap''"
proof -
  let ?v = "vpn (cr2 s)" and ?s = "pushpop (pushpop s)" and ?down = "PGROUNDDOWN (cr2 s)"
  note i = uvm_invD [OF assms(1)]
  have f: "unat (cr2 s) + 8192 \<le> 2 ^ 32" using assms(5) by simp
  note w = fault_page [OF f]
  have u: "uvm_inv {} (g # ps) d ?s" by (intro uvm_inv_pushpop assms(1))
  note c = alloc_clear [OF u]
  have "allocuvm d ?down (?down + PGSIZE) ?s = Panic ''remap''"
  proof -
    let ?u = "upd_mem (\<lambda>m. memset m g 0 PGSIZE) (kalloced ?s)"
    have v: "?v < 2 ^ 19" using assms(5) by (simp add: vpn_def)
    have d: "?down = page_at 0 ?v" using unat_PGROUNDDOWN [of "cr2 s"] unat_page_at [of ?v] v by (simp add: word_unat_eq_iff)
    have "?down + PGSIZE < KERNBASE" using w(2) assms(5) by (simp add: KERNBASE_def word_less_nat_alt vpn_def)
    moreover have "PGROUNDUP ?down = ?down" using PGROUNDUP_page [of ?down] w(3) d calculation w(5) by simp
    moreover have "?down < ?down + PGSIZE" using w(2) unat_PGROUNDDOWN [of "cr2 s"] by (simp add: word_less_nat_alt)
    moreover have "mappages d ?down PGSIZE (V2P g) (PTE_W OR PTE_U) ?u = Panic ''remap''"
      unfolding d by (rule map_again [of "kend ?u" "set ps"]) (use c(7) c(8) [of ?v] v assms(6) in \<open>simp_all add: vm_inv_def upresent_def\<close>)
    ultimately show ?thesis using c(1,2) by (simp add: allocuvm_def M_defs not_le order.asym)
  qed
  moreover have "curproc s = Ok p (pushpop s)" "curproc (pushpop s) = Ok p ?s"
    using curproc_ok [OF i(1) assms(2)] curproc_ok [of "{}" "pushpop s" p] lockset_pushpop [OF i(1)] assms(2) by simp_all
  ultimately show ?thesis using assms(3,4) w(1) by (simp add: trap_pgflt_def M_defs Let_def not_le)
qed

text \<open>\<open>mmap\<close> does not look at \<open>KERNBASE\<close>: a process of one page can claim addresses of the kernel as its own.\<close>

lemma mmap_claims_kernel:
  fixes s :: "'x kern_st_scheme"
  assumes "user_mem p s" "user_arg p s 0 = Some 0x7FFFF000" "p < length (ptable s)" "0x1000 < p_sz (ptable s ! p)" "p_sz (ptable s ! p) < KERNBASE"
  shows "\<exists>r t. sys_mmap s = Ok r t \<and> KERNBASE < p_sz (ptable t ! p)"
proof -
  have n: "sint (0x7FFFF000 :: u32) = 0x7FFFF000" by (subst sint_small) simp_all
  have "unat (p_sz (ptable s ! p) + 0x7FFFF000) = unat (p_sz (ptable s ! p)) + 0x7FFFF000"
    using assms(5) by (simp add: KERNBASE_def word_less_nat_alt unat_word_ariths)
  then have "KERNBASE < p_sz (ptable s ! p) + 0x7FFFF000" using assms(4) by (simp add: KERNBASE_def word_less_nat_alt)
  then show ?thesis using sys_mmap_arg [OF assms(1,2)] assms(3) n by (simp add: upd_proc_def)
qed

text \<open>\<open>fork\<close> copies every page below the size of the process, and panics at the first that has not been touched.\<close>

lemma fork_untouched_panics:
  assumes "i < sz" "pte_of (mem s) d i AND PTE_P = 0" "pt_ok e fr (mem s) d"
  shows "\<exists>m. copyuvm_loop (Suc fuel) d d' i sz s = Panic m"
proof (cases "pte_addr (mem s) d i = 0")
  case True
  then show ?thesis using assms(1) by (simp add: walkpgdir_lookup bindM_def panic_def)
next
  case False
  then have "rd32 (mem s) (pte_addr (mem s) d i) = pte_of (mem s) d i" by (rule pte_addr_present [OF assms(3)])
  then show ?thesis using False assms(1,2) by (simp add: walkpgdir_lookup bindM_def panic_def getS_def)
qed
section \<open>An example\<close>

text \<open>
  A process with one page, whose stack at address 16 holds the argument \<open>0x2000\<close> of a call of \<open>mmap\<close>; two pages are free.
\<close>

definition demo_lazy_mem :: mem where
  "demo_lazy_mem = wr32 (wr32 (wr32 demo_pages 0x80500044 16) 0x80402014 0x2000) 0x80403000 0x80404000"

definition demo_lazy :: "'x \<Rightarrow> 'x kern_st_scheme" where
  "demo_lazy x =
     (demo_user x)\<lparr>mem := demo_lazy_mem, freelist := 0x80403000, kend := 0x80100000,
       ptable := [blank_proc\<lparr>p_state := RUNNING, p_pid := 2, p_sz := 4096, p_tf := 0x80500000, p_pgdir := 0x80400000, p_kstack := 0x80501000\<rparr>]\<rparr>"

lemma demo_lazy_proc:
  "ptable (demo_lazy x) ! 0 =
     blank_proc\<lparr>p_state := RUNNING, p_pid := 2, p_sz := 4096, p_tf := 0x80500000, p_pgdir := 0x80400000, p_kstack := 0x80501000\<rparr>"
  "length (ptable (demo_lazy x)) = 1" "mem (demo_lazy x) = demo_lazy_mem" "freelist (demo_lazy x) = 0x80403000" "kend (demo_lazy x) = 0x80100000"
  by (simp_all add: demo_lazy_def)

lemma demo_lazy_pages: "only_pages {0x80500000, 0x80402000, 0x80403000} demo_pages demo_lazy_mem" (is "only_pages ?P _ _")
proof -
  have w: "only_pages ?P m (wr32 m (p + 4 * of_nat j) v)" if "p mod PGSIZE = 0" "j < 1024" "p \<in> ?P" for p m v j
    by (rule only_page_pages [OF only_page_entry [OF that(2,1)] that(3)])
  have al: "(0x80500000 :: u32) mod PGSIZE = 0" "(0x80402000 :: u32) mod PGSIZE = 0" "(0x80403000 :: u32) mod PGSIZE = 0" by (simp_all add: PGSIZE_def)
  have "only_pages ?P m (wr32 m 0x80500044 v)" "only_pages ?P m (wr32 m 0x80402014 v)" "only_pages ?P m (wr32 m 0x80403000 v)" for m v
    using w [OF al(1), of 17 m v] w [OF al(2), of 5 m v] w [OF al(3), of 0 m v] by simp_all
  then show ?thesis unfolding demo_lazy_mem_def by (meson only_pages_trans)
qed

lemma demo_lazy_uvm: "uvm_inv {} [0x80403000, 0x80404000] 0x80400000 (demo_lazy x)" "upresent demo_lazy_mem 0x80400000 v \<longleftrightarrow> v = 0"
  "pte demo_lazy_mem 0x80400000 0 = 0x00402007"
proof -
  have ta: "tables demo_pages 0x80400000 = {0x80401000}" using demo_pt [of 0] demo_pt by (auto simp: tables_def split: if_splits intro: exI [of _ 0])
  have pk: "pt_ok 0x80100000 {0x80403000, 0x80404000} demo_pages 0x80400000"
    by (auto simp: pt_ok_def demo_pt valid_page_def PGSIZE_def PHYSTOP_def V2P_def KERNBASE_def)
  have fr: "\<forall>p \<in> {0x80500000, 0x80402000, 0x80403000}. p mod PGSIZE = 0 \<and> p \<noteq> 0x80400000 \<and> p \<notin> tables demo_pages 0x80400000"
    by (simp add: ta PGSIZE_def)
  note tr = translation_frame [OF demo_lazy_pages fr pk]
  have pt: "pte demo_lazy_mem 0x80400000 w = pte demo_pages 0x80400000 w" for w using tr(2) by (simp add: pte_def)
  then show "pte demo_lazy_mem 0x80400000 0 = 0x00402007" using demo_pte [of 0] by simp
  show pr: "upresent demo_lazy_mem 0x80400000 v \<longleftrightarrow> v = 0" for v using demo_present [of v] pt by (simp add: upresent_def)
  have uf: "uframe demo_lazy_mem 0x80400000 0 = 0x80402000" using pt demo_frame by (simp add: uframe_def)
  have "lockset {} (demo_lazy x)" using user_memD(1) [OF demo_user_mem, of x] by (simp add: demo_lazy_def lockset_def cpu_found_def curcpu_def)
  moreover have "rd32 demo_lazy_mem 0x80403000 = 0x80404000" "rd32 demo_lazy_mem 0x80404000 = 0"
    by (simp_all add: demo_lazy_mem_def demo_pages_def rd32_def wr32_def)
  then have "free_pages [0x80403000, 0x80404000] (demo_lazy x)"
    by (simp add: free_pages_def demo_lazy_proc valid_page_def PGSIZE_def PHYSTOP_def V2P_def KERNBASE_def)
  moreover have "frames_ok 0x80100000 {0x80403000, 0x80404000} demo_lazy_mem 0x80400000"
    by (simp add: frames_ok_def pr uf tr(3) ta inj_on_def valid_page_def PGSIZE_def PHYSTOP_def V2P_def KERNBASE_def)
  ultimately show "uvm_inv {} [0x80403000, 0x80404000] 0x80400000 (demo_lazy x)"
    using tr(4) by (simp add: uvm_inv_def vm_inv_def demo_lazy_proc KERNBASE_def)
qed

lemma demo_lazy_user: "user_mem 0 (demo_lazy x)" "user_arg 0 (demo_lazy x) 0 = Some 0x2000"
proof -
  have m: "rd32 demo_lazy_mem 0x80400000 = 0x401007" "rd32 demo_lazy_mem 0x80401000 = 0x402007" "rd32 demo_lazy_mem 0x80500044 = 16"
    by (simp_all add: demo_lazy_mem_def demo_pages_def rd32_def wr32_def)
  have x: "xlate False va (demo_lazy x) = Some (0x80402000 + va)" if "unat va < 4096" for va
    by (rule first_page_xlate [OF that]) (use m in \<open>simp_all add: demo_lazy_proc\<close>, simp add: demo_lazy_def demo_user_def demo_file_def demo_fs_def demo_state_def)
  have "c_proc (mycpu_of (demo_lazy x)) = Some 0"
    by (simp add: demo_lazy_def demo_user_def demo_file_def demo_fs_def demo_state_def demo_vm_def curcpu_def)
  then show "user_mem 0 (demo_lazy x)"
    using x uvm_invD(1) [OF demo_lazy_uvm(1)] by (auto simp: user_mem_def demo_lazy_proc KERNBASE_def word_less_nat_alt)
  have "user_bytes (demo_lazy x) 20 4 = [0, 0x20, 0, 0]"
    by (simp add: user_bytes_few user_byte_def x demo_lazy_proc demo_lazy_mem_def demo_pages_def wr32_def)
  then show "user_arg 0 (demo_lazy x) 0 = Some 0x2000"
    using m(3) by (simp add: user_arg_def user_word_def demo_lazy_proc tf_esp_def dec32_def)
qed

theorem mmap_on_demand_witness:
  "\<exists>t u. sys_mmap (demo_lazy ()) = Ok 0x1000 t \<and> mem t = demo_lazy_mem \<and> trap_pgflt (t\<lparr>cr2 := 0x2004\<rparr>) = Ok () u \<and>
     upresent (mem u) 0x80400000 2 \<and> (\<forall>k < 4096. upage (mem u) 0x80400000 2 k = 0) \<and> pte (mem u) 0x80400000 0 = 0x00402007"
proof -
  have n: "0 < sint (0x2000 :: u32) \<and> 4096 dvd sint (0x2000 :: u32)" "sint (0x1000 :: u32) = 0x1000" by simp_all
  have v: "npages 0x1000 = 1" "vpn 0x2004 = 2" by (simp_all add: npages_def vpn_def)
  have c: "con_ok (demo_lazy ())"
    by (simp add: con_ok_def screen_ok_def demo_lazy_def demo_user_def demo_file_def demo_fs_def demo_state_def demo_vm_def SCREEN_def)
  have "\<exists>t. sys_mmap (demo_lazy ()) = Ok 0x1000 t \<and> mem t = demo_lazy_mem \<and>
     (\<forall>va. 1 \<le> vpn va \<and> va < 0x3000 \<and> unat va + 4096 < 2 ^ 31 \<longrightarrow>
        (\<exists>u. trap_pgflt (t\<lparr>cr2 := va\<rparr>) = Ok () u \<and> brought_in [0x80403000, 0x80404000] 0x80400000 (vpn va) t u))"
    using mmap_on_demand [OF demo_lazy_user(1) [of "()"] demo_lazy_user(2) [of "()"], of "[0x80403000, 0x80404000]"] demo_lazy_uvm(1) [of "()"]
      demo_lazy_uvm(2) c n v(1) by (auto simp: demo_lazy_proc)
  then obtain t where t: "sys_mmap (demo_lazy ()) = Ok 0x1000 t" "mem t = demo_lazy_mem"
    "\<forall>va. 1 \<le> vpn va \<and> va < 0x3000 \<and> unat va + 4096 < 2 ^ 31 \<longrightarrow>
        (\<exists>u. trap_pgflt (t\<lparr>cr2 := va\<rparr>) = Ok () u \<and> brought_in [0x80403000, 0x80404000] 0x80400000 (vpn va) t u)" by blast
  then obtain u where "trap_pgflt (t\<lparr>cr2 := 0x2004\<rparr>) = Ok () u" "brought_in [0x80403000, 0x80404000] 0x80400000 2 t u"
    using v(2) spec [OF t(3), of "0x2004"] by auto
  then show ?thesis using t(1,2) demo_lazy_uvm(3) unfolding brought_in_def by (intro exI [of _ t] exI [of _ u]) simp
qed

end
