(* ===== verification/Labstat.thy ===== *)
theory Labstat
  imports Callcheck
begin

text \<open>
  What the submissions for labs 5 and 6 add to the kernel to look at processes and memory: \<open>getNumProc\<close>, \<open>getMaxPid\<close>, \<open>helloYou\<close> and \<open>updateTable\<close>
  of \<^verbatim>\<open>src/lab6/200050086_lab6/proc.c\<close>, \<open>getmeminfo\<close> of \<^verbatim>\<open>src/lab5/200050133_lab5/proc.c\<close> and \<open>sys_freememstat\<close> and \<open>sys_getmeminfo\<close> of
  \<^verbatim>\<open>src/lab5/200050133_lab5/sysproc.c\<close>. The rest of those files is the kernel of the other theories.
\<close>

unbundle bit_operations_syntax

section \<open>The code\<close>

text \<open>The loops over the process table that only read it are functions of the table.\<close>

fun num_loop :: "proc list \<Rightarrow> u32 \<Rightarrow> u32" where
  "num_loop [] count = count"
| "num_loop (p # ps) count = num_loop ps (if p_state p \<noteq> UNUSED then count + 1 else count)"

definition getNumProc :: "('x proc_st_scheme, u32) prog" where
  "getNumProc =
     seqM (acquire L_ptable) (
     bindM (getS (\<lambda>s. num_loop (ptable s) 0)) (\<lambda>count.
     seqM (release L_ptable)
     (ret count)))"

fun maxpid_loop :: "proc list \<Rightarrow> int \<Rightarrow> int" where
  "maxpid_loop [] maxpid = maxpid"
| "maxpid_loop (p # ps) maxpid =
     maxpid_loop ps (if p_state p \<noteq> UNUSED \<and> sint (p_pid p) > maxpid then sint (p_pid p) else maxpid)"

definition getMaxPid :: "('x proc_st_scheme, int) prog" where
  "getMaxPid =
     seqM (acquire L_ptable) (
     bindM (getS (\<lambda>s. maxpid_loop (ptable s) (- 1))) (\<lambda>maxpid.
     seqM (release L_ptable)
     (ret maxpid)))"

definition helloYou :: "u8 list \<Rightarrow> ('x proc_st_scheme, int) prog" where
  "helloYou name =
     seqM (acquire L_ptable) (
     seqM (kprint ''%s'' [AStr (Some (str_of name))]) (
     seqM (release L_ptable)
     (ret 0)))"

definition tick_proc :: "proc \<Rightarrow> proc" where
  "tick_proc p =
     (let p = (if p_state p = RUNNING then p\<lparr>p_rutime := p_rutime p + 1\<rparr> else p)
      in if p_state p = RUNNABLE then p\<lparr>p_wtime := p_wtime p + 1\<rparr> else p)"

definition updateTable :: "('x proc_st_scheme, unit) prog" where
  "updateTable =
     seqM (acquire L_ptable) (
     seqM (modS (\<lambda>s. s\<lparr>ptable := map tick_proc (ptable s)\<rparr>))
     (release L_ptable))"

definition sys_freememstat :: "('x kmem_st_scheme, u32) prog" where
  "sys_freememstat = bindM count_free_pages (\<lambda>n. ret (n * PGSIZE))"

text \<open>One process of the listing of \<open>getmeminfo\<close>, and the loop.\<close>

definition meminfo_line :: "proc \<Rightarrow> ('x proc_st_scheme, unit) prog" where
  "meminfo_line p =
     seqM (kprint (''pid: %d, name: %s'' @ nl) [AInt (p_pid p), AStr (Some (str_of (p_name p)))]) (
     bindM (page_table_size (p_pgdir p) (p_sz p)) (\<lambda>page_table_sz.
     bindM (count_physical_pages (p_pgdir p) (p_sz p)) (\<lambda>count_phy_pages.
     seqM (kprint (''Memory usage in pages || Virtual: %d | Physical: %d'' @ nl) [AInt (p_sz p div PGSIZE), AInt count_phy_pages])
     (kprint (''Page Table Size in pages: %d'' @ nl) [AInt page_table_sz]))))"

fun meminfo_loop :: "u32 \<Rightarrow> proc list \<Rightarrow> ('x proc_st_scheme, unit) prog" where
  "meminfo_loop pid [] = ret ()"
| "meminfo_loop pid (p # ps) =
     seqM (whenM ((pid = 0 \<or> p_pid p = pid) \<and> p_state p \<noteq> UNUSED) (meminfo_line p)) (meminfo_loop pid ps)"

definition getmeminfo :: "u32 \<Rightarrow> ('x proc_st_scheme, unit) prog" where
  "getmeminfo pid =
     (if sint pid < 0 then kprint (''Invalid pid: %d'' @ nl) [AInt pid]
      else
        seqM (acquire L_ptable) (
        bindM (getS ptable) (\<lambda>ps.
        seqM (meminfo_loop pid ps)
        (release L_ptable))))"

text \<open>\<open>argint\<close> returns 0 or -1, so the test for a result below -1 never fires: a bad argument leaves \<open>pid\<close> uninitialised.\<close>

definition sys_getmeminfo :: "('x kern_st_scheme, int) prog" where
  "sys_getmeminfo =
     bindM (argint 0) (\<lambda>a.
     case a of None \<Rightarrow> undef ''uninitialised pid''
     | Some pid \<Rightarrow> seqM (getmeminfo pid) (ret 0))"

section \<open>What they compute\<close>

text \<open>A critical section that only reads: it returns with the locks as they were.\<close>

lemma locked_read:
  assumes "lockset S s" "l \<notin> S" "card S < 999"
  shows "seqM (acquire l) (bindM (getS f) (\<lambda>x. seqM (release l) (ret x))) s = Ok (f (acq l s)) (rel l (acq l s))" "lockset S (rel l (acq l s))"
proof -
  have c: "card S < 1000" "card (insert l S) < 1000" using assms locksetD(2) [OF assms(1)] by simp_all
  have t: "lockset (insert l S) (acq l s)" by (rule lockset_acq [OF assms(1,2) c(1)])
  show "lockset S (rel l (acq l s))" using lockset_rel [OF t, of l] assms(2) by simp
  show "seqM (acquire l) (bindM (getS f) (\<lambda>x. seqM (release l) (ret x))) s = Ok (f (acq l s)) (rel l (acq l s))"
    using acquire_ok [OF assms(1,2)] release_ok [OF t, of l] c by (simp add: M_defs)
qed

lemma num_loop_count: "num_loop ps c = c + of_nat (length (filter (\<lambda>p. p_state p \<noteq> UNUSED) ps))"
  by (induction ps arbitrary: c) (simp_all add: algebra_simps)

lemma maxpid_loop_max: "maxpid_loop ps m = Max (insert m ((\<lambda>p. sint (p_pid p)) ` {p \<in> set ps. p_state p \<noteq> UNUSED}))"
proof (induction ps arbitrary: m)
  case (Cons p ps)
  let ?A = "(\<lambda>p. sint (p_pid p)) ` {p \<in> set ps. p_state p \<noteq> UNUSED}"
  have e: "{q \<in> set (p # ps). p_state q \<noteq> UNUSED} = (if p_state p \<noteq> UNUSED then insert p {q \<in> set ps. p_state q \<noteq> UNUSED} else {q \<in> set ps. p_state q \<noteq> UNUSED})"
    by auto
  have x: "Max (insert m (insert a ?A)) = Max (insert (if a > m then a else m) ?A)" for a
  proof -
    have "Max (insert m (insert a A)) = Max (insert (max m a) A)" if "finite A" for A using that by (cases "A = {}") (simp_all add: max.assoc)
    then have "Max (insert m (insert a ?A)) = Max (insert (max m a) ?A)" by simp
    then show ?thesis by (simp add: max_def)
  qed
  show ?case
  proof (cases "p_state p = UNUSED")
    case False
    then show ?thesis unfolding e using Cons [of "if sint (p_pid p) > m then sint (p_pid p) else m"] x [of "sint (p_pid p)"] by simp
  next
    case True
    then show ?thesis unfolding e using Cons [of m] by simp
  qed
qed simp

text \<open>\<open>getNumProc\<close> returns the number of processes and \<open>getMaxPid\<close> the greatest pid, -1 when there is no process.\<close>

lemma process_counts:
  fixes s :: "'x proc_st_scheme"
  assumes "lockset S s" "L_ptable \<notin> S" "card S < 999"
  defines "u \<equiv> rel L_ptable (acq L_ptable s)"
  shows "lockset S u" "getNumProc s = Ok (of_nat (length (filter (\<lambda>p. p_state p \<noteq> UNUSED) (ptable s)))) u"
    "getMaxPid s = Ok (Max (insert (- 1) ((\<lambda>p. sint (p_pid p)) ` {p \<in> set (ptable s). p_state p \<noteq> UNUSED}))) u"
proof -
  note r = locked_read(1) [OF assms(1-3), folded u_def]
  show "lockset S u" unfolding u_def by (rule locked_read(2) [OF assms(1-3)])
  show "getNumProc s = Ok (of_nat (length (filter (\<lambda>p. p_state p \<noteq> UNUSED) (ptable s)))) u"
    using r [of "\<lambda>s. num_loop (ptable s) 0"] by (simp add: getNumProc_def num_loop_count)
  show "getMaxPid s = Ok (Max (insert (- 1) ((\<lambda>p. sint (p_pid p)) ` {p \<in> set (ptable s). p_state p \<noteq> UNUSED}))) u"
    using r [of "\<lambda>s. maxpid_loop (ptable s) (- 1)"] unfolding getMaxPid_def maxpid_loop_max by simp
qed

text \<open>
  The tick of the other submission counts as \<open>updatestatistics\<close> does, and without its check for a second running process: on every table with
  at most one the two are equal.
\<close>

lemma count_ticks_tick: "count_ticks b ps = Some qs \<Longrightarrow> qs = map tick_proc ps"
proof (induction ps arbitrary: b qs)
  case (Cons p ps)
  then show ?case by (cases "p_state p") (auto simp: tick_proc_def split: if_splits)
qed simp

lemma updateTable_statistics:
  assumes "lockset {} s" "running_is r (ptable s)"
  shows "updateTable s = updatestatistics s"
proof -
  obtain qs where "count_ticks False (ptable s) = Some qs" using count_ticks_one [of "ptable s" False] assms(2) by (auto simp: running_is_def)
  then show ?thesis using acquire_ok [OF assms(1), of L_ptable] count_ticks_tick [of False "ptable s" qs]
    by (simp add: updateTable_def updatestatistics_def M_defs)
qed

text \<open>\<open>sys_freememstat\<close> reports one page too few of the free memory.\<close>

lemma freememstat_short:
  assumes "kmem_ready (p # ps) s"
  shows "\<exists>t. sys_freememstat s = Ok (of_nat (length ps) * PGSIZE) t \<and> kmem_ready (p # ps) t"
  using count_free_pages_value [OF assms] by (auto elim!: wpE simp: sys_freememstat_def M_defs)

text \<open>For a bad pid \<open>getmeminfo\<close> says so and nothing else.\<close>

lemma getmeminfo_bad_pid:
  assumes "lockset S s" "L_cons \<notin> S" "card S < 1000" "con_ok s" "sint pid < 0"
  shows "\<exists>cs. cfmt (''Invalid pid: %d'' @ nl) [AInt pid] = Some cs \<and> getmeminfo pid s = Ok () (printed cs s)"
proof -
  obtain cs where cs: "cfmt (''Invalid pid: %d'' @ nl) [AInt pid] = Some cs" by (simp add: nl_def)
  have "getmeminfo pid s = Ok () (printed cs s)" unfolding getmeminfo_def if_P [OF assms(5)] by (rule cprintf_ok [OF assms(1-4) cs])
  then show ?thesis using cs by blast
qed

end
