(* ===== verification/Mkfs.thy ===== *)
theory Mkfs
  imports Paths
begin

text \<open>
  The builder of file system images, \<^verbatim>\<open>mkfs.c\<close>. The image file is the list of its sectors. The program runs on the host: a call of
  \<open>exit(1)\<close> and a failing \<open>assert\<close> are the outcome \<open>Panic\<close>. The files named on the command line come with what the successive calls
  of \<open>read\<close> return for them, or with nothing when they cannot be opened; the host's disk has room for a given number of sectors.
  The lemmas follow the blocks of the files: they are taken in order from the first data block on, none twice, and an append
  puts the bytes behind those of the file and touches no other.
\<close>

section \<open>State\<close>

definition FSSIZE :: nat where "FSSIZE = 1000"

definition NINODES :: nat where "NINODES = 200"

definition nbitmap :: nat where "nbitmap = FSSIZE div (BSIZE * 8) + 1"

definition ninodeblocks :: nat where "ninodeblocks = NINODES div IPB + 1"

definition nlog :: nat where "nlog = LOGSIZE"

definition nmeta :: nat where "nmeta = 2 + nlog + ninodeblocks + nbitmap"

definition nblocks :: nat where "nblocks = FSSIZE - nmeta"

record mkfs_st =
  mk_img :: "u8 list list"
  mk_room :: nat
  mk_sb :: superblock
  mk_freeinode :: u32
  mk_freeblock :: u32

type_synonym 'a mkfs_prog = "mkfs_st \<Rightarrow> (unit, 'a, mkfs_st) outcome"

text \<open>The globals when the program starts.\<close>

definition mkfs_start :: "nat \<Rightarrow> mkfs_st" where
  "mkfs_start room =
     \<lparr>mk_img = [], mk_room = room,
      mk_sb = \<lparr>sb_size = 0, sb_nblocks = 0, sb_ninodes = 0, sb_nlog = 0, sb_logstart = 0, sb_inodestart = 0, sb_bmapstart = 0\<rparr>,
      mk_freeinode = 1, mk_freeblock = 0\<rparr>"

section \<open>Byte order\<close>

text \<open>The bytes are stored in intel order and read back in the order of the host, which is an intel machine.\<close>

definition xshort :: "u16 \<Rightarrow> u16" where
  "xshort x = dec16 [ucast x, ucast (drop_bit 8 x)]"

definition xint :: "u32 \<Rightarrow> u32" where
  "xint x = dec32 [ucast x, ucast (drop_bit 8 x), ucast (drop_bit 16 x), ucast (drop_bit 24 x)]"

section \<open>Sectors and inodes\<close>

text \<open>The sector at the offset that is the \<open>uint\<close> product \<open>sec * BSIZE\<close>. A write past the end of the file leaves a hole of zeros.\<close>

definition sector_at :: "u32 \<Rightarrow> nat" where
  "sector_at sec = unat (sec * 512) div BSIZE"

definition wsect :: "u32 \<Rightarrow> u8 list \<Rightarrow> unit mkfs_prog" where
  "wsect sec buf =
     bindM (getS mk_room) (\<lambda>room.
     if room \<le> sector_at sec then panic ''write''
     else modS (\<lambda>s. s\<lparr>mk_img :=
       (let k = sector_at sec; f = mk_img s
        in if k < length f then f[k := buf] else f @ replicate (k - length f) (replicate BSIZE 0) @ [buf])\<rparr>))"

definition rsect :: "u32 \<Rightarrow> u8 list mkfs_prog" where
  "rsect sec =
     bindM (getS mk_img) (\<lambda>f.
     if sector_at sec < length f then ret (f ! sector_at sec) else panic ''read'')"

definition winode :: "u32 \<Rightarrow> dinode \<Rightarrow> unit mkfs_prog" where
  "winode inum ip =
     bindM (getS (\<lambda>s. IBLOCK inum (mk_sb s))) (\<lambda>bn.
     bindM (rsect bn) (\<lambda>buf.
     wsect bn (put_dinode buf (dip_off inum) ip)))"

definition rinode :: "u32 \<Rightarrow> dinode mkfs_prog" where
  "rinode inum =
     bindM (getS (\<lambda>s. IBLOCK inum (mk_sb s))) (\<lambda>bn.
     bindM (rsect bn) (\<lambda>buf.
     ret (get_dinode buf (dip_off inum))))"

definition mk_ialloc :: "u16 \<Rightarrow> u32 mkfs_prog" where
  "mk_ialloc type =
     bindM (getS mk_freeinode) (\<lambda>inum.
     seqM (modS (\<lambda>s. s\<lparr>mk_freeinode := mk_freeinode s + 1\<rparr>)) (
     seqM (winode inum (zero_dinode\<lparr>di_type := xshort type, di_nlink := xshort 1, di_size := xint 0\<rparr>))
     (ret inum)))"

text \<open>The loop of \<open>balloc\<close> over the bits of the bitmap block.\<close>

definition mark_bits :: "nat \<Rightarrow> u8 list" where
  "mark_bits used = fold (\<lambda>i buf. buf[i div 8 := buf ! (i div 8) OR bit_mask i]) [0..<used] (replicate BSIZE 0)"

definition mk_balloc :: "u32 \<Rightarrow> unit mkfs_prog" where
  "mk_balloc used =
     (if \<not> sint used < int (BSIZE * 8) then panic ''assert: used < BSIZE*8''
      else bindM (getS (\<lambda>s. sb_bmapstart (mk_sb s))) (\<lambda>bn. wsect bn (mark_bits (nat (sint used)))))"

section \<open>Appending to a file\<close>

definition new_block :: "u32 mkfs_prog" where
  "new_block =
     bindM (getS mk_freeblock) (\<lambda>b.
     seqM (modS (\<lambda>s. s\<lparr>mk_freeblock := mk_freeblock s + 1\<rparr>))
     (ret b))"

text \<open>An entry of \<open>din.addrs\<close>, filled with a fresh block if it is zero.\<close>

definition fill_addr :: "dinode \<Rightarrow> nat \<Rightarrow> dinode mkfs_prog" where
  "fill_addr din k =
     (if xint (di_addrs din ! k) = 0 then
        bindM new_block (\<lambda>b. ret (din\<lparr>di_addrs := (di_addrs din)[k := xint b]\<rparr>))
      else ret din)"

text \<open>The block number \<open>x\<close> for file block \<open>fbn\<close>, with the in-memory inode.\<close>

definition iappend_block :: "dinode \<Rightarrow> nat \<Rightarrow> (dinode \<times> u32) mkfs_prog" where
  "iappend_block din fbn =
     (if fbn < NDIRECT then
        bindM (fill_addr din fbn) (\<lambda>din.
        ret (din, xint (di_addrs din ! fbn)))
      else
        bindM (fill_addr din NDIRECT) (\<lambda>din.
        bindM (rsect (xint (di_addrs din ! NDIRECT))) (\<lambda>indirect.
        bindM
          (if get32 indirect (4 * (fbn - NDIRECT)) = 0 then
             bindM new_block (\<lambda>b.
             let indirect = put32 indirect (4 * (fbn - NDIRECT)) (xint b) in
             seqM (wsect (xint (di_addrs din ! NDIRECT)) indirect)
             (ret indirect))
           else ret indirect) (\<lambda>indirect.
        ret (din, xint (get32 indirect (4 * (fbn - NDIRECT))))))))"

text \<open>The loop, on the bytes still to be written; a round takes at least one of them.\<close>

fun iappend_loop :: "nat \<Rightarrow> dinode \<Rightarrow> u32 \<Rightarrow> u8 list \<Rightarrow> (dinode \<times> u32) mkfs_prog" where
  "iappend_loop 0 din off p = nofuel"
| "iappend_loop (Suc fuel) din off p =
     (if p = [] then ret (din, off)
      else
        let fbn = off div 512 in
        if \<not> unat fbn < MAXFILE then panic ''assert: fbn < MAXFILE''
        else
          bindM (iappend_block din (unat fbn)) (\<lambda>(din, x).
          let n1 = min (length p) (unat ((fbn + 1) * 512 - off)) in
          bindM (rsect x) (\<lambda>buf.
          seqM (wsect x (blit buf (unat (off - fbn * 512)) (take n1 p)))
          (iappend_loop fuel din (off + of_nat n1) (drop n1 p)))))"

definition iappend :: "u32 \<Rightarrow> u8 list \<Rightarrow> unit mkfs_prog" where
  "iappend inum p =
     bindM (rinode inum) (\<lambda>din.
     bindM (iappend_loop (length p + 1) din (xint (di_size din)) p) (\<lambda>(din, off).
     winode inum (din\<lparr>di_size := xint off\<rparr>)))"

section \<open>The program\<close>

type_synonym hostfile = "u8 list \<times> u8 list list option"

fun zero_sectors :: "nat \<Rightarrow> nat \<Rightarrow> unit mkfs_prog" where
  "zero_sectors 0 i = ret ()"
| "zero_sectors (Suc n) i = seqM (wsect (of_nat i) (replicate BSIZE 0)) (zero_sectors n (Suc i))"

text \<open>A directory entry: \<open>de\<close> is cleared, then the name is copied into it with \<open>strcpy\<close> or with \<open>strncpy\<close>.\<close>

definition dot_entry :: "u32 \<Rightarrow> u8 list \<Rightarrow> u8 list" where
  "dot_entry inum name = enc16 (xshort (ucast inum)) @ blit (replicate DIRSIZ 0) 0 (name @ [0])"

definition file_entry :: "u32 \<Rightarrow> u8 list \<Rightarrow> u8 list" where
  "file_entry inum name = enc16 (xshort (ucast inum)) @ name_field name"

text \<open>The loop that copies a file; it ends at the first \<open>read\<close> that returns no bytes, at the end of the file or on an error.\<close>

fun copy_reads :: "u32 \<Rightarrow> u8 list list \<Rightarrow> unit mkfs_prog" where
  "copy_reads inum [] = ret ()"
| "copy_reads inum (buf # bs) = (if buf = [] then ret () else seqM (iappend inum buf) (copy_reads inum bs))"

definition skip_underscore :: "u8 list \<Rightarrow> u8 list" where
  "skip_underscore name = (case name of c # cs \<Rightarrow> if c = 95 then cs else name | [] \<Rightarrow> name)"

definition add_file :: "u32 \<Rightarrow> hostfile \<Rightarrow> unit mkfs_prog" where
  "add_file rootino f =
     (if slash \<in> set (fst f) then panic ''assert: index''
      else case snd f of
        None \<Rightarrow> panic ''open''
      | Some reads \<Rightarrow>
          bindM (mk_ialloc T_FILE) (\<lambda>inum.
          seqM (iappend rootino (file_entry inum (skip_underscore (fst f))))
          (copy_reads inum reads)))"

fun add_files :: "u32 \<Rightarrow> hostfile list \<Rightarrow> unit mkfs_prog" where
  "add_files rootino [] = ret ()"
| "add_files rootino (f # fs) = seqM (add_file rootino f) (add_files rootino fs)"

definition new_sb :: superblock where
  "new_sb =
     \<lparr>sb_size = xint (of_nat FSSIZE), sb_nblocks = xint (of_nat nblocks), sb_ninodes = xint (of_nat NINODES), sb_nlog = xint (of_nat nlog),
      sb_logstart = xint 2, sb_inodestart = xint (of_nat (2 + nlog)), sb_bmapstart = xint (of_nat (2 + nlog + ninodeblocks))\<rparr>"

definition enc_sb :: "superblock \<Rightarrow> u8 list" where
  "enc_sb p =
     enc32 (sb_size p) @ enc32 (sb_nblocks p) @ enc32 (sb_ninodes p) @ enc32 (sb_nlog p) @ enc32 (sb_logstart p) @
     enc32 (sb_inodestart p) @ enc32 (sb_bmapstart p)"

definition fix_root_size :: "u32 \<Rightarrow> unit mkfs_prog" where
  "fix_root_size rootino =
     bindM (rinode rootino) (\<lambda>din.
     let off = xint (di_size din);
         off = (off div 512 + 1) * 512
     in winode rootino (din\<lparr>di_size := xint off\<rparr>))"

text \<open>\<open>main\<close>, on the arguments after the name of the program; the first is the image, which is opened for writing.\<close>

definition mkfs_main :: "hostfile list \<Rightarrow> unit mkfs_prog" where
  "mkfs_main argv =
     (case argv of
        [] \<Rightarrow> panic ''Usage: mkfs fs.img files...''
      | img # files \<Rightarrow>
          if snd img = None then panic ''open''
          else
            seqM (modS (\<lambda>s. s\<lparr>mk_sb := new_sb\<rparr>)) (
            seqM (modS (\<lambda>s. s\<lparr>mk_freeblock := of_nat nmeta\<rparr>)) (
            seqM (zero_sectors FSSIZE 0) (
            seqM (bindM (getS mk_sb) (\<lambda>p. wsect 1 (blit (replicate BSIZE 0) 0 (enc_sb p)))) (
            bindM (mk_ialloc T_DIR) (\<lambda>rootino.
            if rootino \<noteq> ROOTINO then panic ''assert: rootino == ROOTINO''
            else
              seqM (iappend rootino (dot_entry rootino [46])) (
              seqM (iappend rootino (dot_entry rootino [46, 46])) (
              seqM (add_files rootino files) (
              seqM (fix_root_size rootino)
              (bindM (getS mk_freeblock) mk_balloc))))))))))"

section \<open>Where the blocks of the files are\<close>

lemma xint_id [simp]: "xint x = x"
  using dec32_enc32 [of x] by (simp add: xint_def enc32_def)

lemma xshort_id [simp]: "xshort x = x"
  using dec16_enc16 [of x] by (simp add: xshort_def enc16_def)

text \<open>
  The blocks of a file in the order in which \<open>iappend\<close> takes them: twelve direct ones, the indirect block, and
  those listed there. File block \<open>k\<close> is number \<open>blk_slot k\<close>.
\<close>

definition di_slot :: "u8 list list \<Rightarrow> dinode \<Rightarrow> nat \<Rightarrow> u32" where
  "di_slot bs d p =
     (if p \<le> 12 then di_addrs d ! p
      else if di_addrs d ! 12 = 0 then 0
      else get32 (bs ! unat (di_addrs d ! 12)) (4 * (p - 13)))"

definition blk_slot :: "nat \<Rightarrow> nat" where
  "blk_slot k = (if k < 12 then k else k + 1)"

text \<open>
  \<open>laid_out D S bs fb\<close>: inode \<open>n\<close> is \<open>D n\<close> and has \<open>S n\<close> blocks. Together these are exactly the blocks from the first data block up to
  \<open>fb\<close>, none of them twice, and the blocks from \<open>fb\<close> on hold zeros.
\<close>

definition laid_out :: "(u32 \<Rightarrow> dinode) \<Rightarrow> (u32 \<Rightarrow> nat) \<Rightarrow> u8 list list \<Rightarrow> u32 \<Rightarrow> bool" where
  "laid_out D S bs fb \<longleftrightarrow>
     length bs = 1000 \<and> (\<forall>b < 1000. length (bs ! b) = 512) \<and> 59 \<le> unat fb \<and> unat fb \<le> 1000 \<and>
     (\<forall>n. length (di_addrs (D n)) = 13 \<and> S n \<le> 141) \<and>
     (\<forall>n p. p < 141 \<longrightarrow> (di_slot bs (D n) p \<noteq> 0 \<longleftrightarrow> p < S n)) \<and>
     (\<forall>n p. p < S n \<longrightarrow> 59 \<le> unat (di_slot bs (D n) p) \<and> unat (di_slot bs (D n) p) < unat fb) \<and>
     (\<forall>n m p q. p < S n \<longrightarrow> q < S m \<longrightarrow> di_slot bs (D n) p = di_slot bs (D m) q \<longrightarrow> n = m \<and> p = q) \<and>
     (\<forall>b. 59 \<le> b \<longrightarrow> b < unat fb \<longrightarrow> (\<exists>n p. p < S n \<and> unat (di_slot bs (D n) p) = b)) \<and>
     (\<forall>b. unat fb \<le> b \<longrightarrow> b < 1000 \<longrightarrow> bs ! b = replicate 512 0)"

lemma laid_outD:
  assumes "laid_out D S bs fb"
  shows "length bs = 1000" "b < 1000 \<Longrightarrow> length (bs ! b) = 512" "59 \<le> unat fb" "unat fb \<le> 1000"
    "length (di_addrs (D n)) = 13" "S n \<le> 141" "p < 141 \<Longrightarrow> (di_slot bs (D n) p = 0) = (\<not> p < S n)"
    "p < S n \<Longrightarrow> 59 \<le> unat (di_slot bs (D n) p)" "p < S n \<Longrightarrow> unat (di_slot bs (D n) p) < unat fb"
    "p < S n \<Longrightarrow> q < S m \<Longrightarrow> di_slot bs (D n) p = di_slot bs (D m) q \<Longrightarrow> n = m \<and> p = q"
    "59 \<le> b \<Longrightarrow> b < unat fb \<Longrightarrow> \<exists>n p. p < S n \<and> unat (di_slot bs (D n) p) = b"
    "unat fb \<le> b \<Longrightarrow> b < 1000 \<Longrightarrow> bs ! b = replicate 512 0"
proof -
  note a = assms [unfolded laid_out_def]
  show "length bs = 1000" "59 \<le> unat fb" "unat fb \<le> 1000" "length (di_addrs (D n)) = 13" "S n \<le> 141"
    using a by blast+
  show "b < 1000 \<Longrightarrow> length (bs ! b) = 512" "unat fb \<le> b \<Longrightarrow> b < 1000 \<Longrightarrow> bs ! b = replicate 512 0"
    "p < 141 \<Longrightarrow> (di_slot bs (D n) p = 0) = (\<not> p < S n)"
    using a by blast+
  show "p < S n \<Longrightarrow> 59 \<le> unat (di_slot bs (D n) p)" "p < S n \<Longrightarrow> unat (di_slot bs (D n) p) < unat fb"
    using a by blast+
  show "p < S n \<Longrightarrow> q < S m \<Longrightarrow> di_slot bs (D n) p = di_slot bs (D m) q \<Longrightarrow> n = m \<and> p = q"
    using a by blast
  show "59 \<le> b \<Longrightarrow> b < unat fb \<Longrightarrow> \<exists>n p. p < S n \<and> unat (di_slot bs (D n) p) = b"
    using a by blast
qed

text \<open>\<open>kept D S bs E cs\<close>: the blocks the files have are still theirs, and data and metadata blocks still hold what they did.\<close>

definition kept :: "(u32 \<Rightarrow> dinode) \<Rightarrow> (u32 \<Rightarrow> nat) \<Rightarrow> u8 list list \<Rightarrow> (u32 \<Rightarrow> dinode) \<Rightarrow> u8 list list \<Rightarrow> bool" where
  "kept D S bs E cs \<longleftrightarrow>
     (\<forall>b < 59. cs ! b = bs ! b) \<and>
     (\<forall>m p. p < S m \<longrightarrow> di_slot cs (E m) p = di_slot bs (D m) p \<and>
        (p \<noteq> 12 \<longrightarrow> cs ! unat (di_slot bs (D m) p) = bs ! unat (di_slot bs (D m) p)))"

lemma kept_refl: "kept D S bs D bs"
  by (simp add: kept_def)

lemma kept_trans:
  assumes "kept D S bs E cs" "kept E T cs G ds" "\<And>m. S m \<le> T m"
  shows "kept D S bs G ds"
proof -
  have l: "p < S m \<Longrightarrow> p < T m" for p m using assms(3) [of m] by simp
  note a = assms(1,2) [unfolded kept_def]
  show ?thesis unfolding kept_def
  proof (intro conjI allI impI)
    show "ds ! b = bs ! b" if "b < 59" for b using a that by simp
    fix m p
    assume p: "p < S m"
    show "di_slot ds (G m) p = di_slot bs (D m) p" using a p l [OF p] by simp
    show "ds ! unat (di_slot bs (D m) p) = bs ! unat (di_slot bs (D m) p)" if "p \<noteq> 12" using a p l [OF p] that by metis
  qed
qed

text \<open>One more block for inode \<open>n\<close>, the first free one.\<close>

lemma laid_out_grow:
  assumes L: "laid_out D S bs fb" and fb: "unat fb < 1000" and n: "S n < 141"
    and bs: "length cs = 1000" "\<And>b. b < 1000 \<Longrightarrow> length (cs ! b) = 512" "\<And>b. unat fb \<le> b \<Longrightarrow> b < 1000 \<Longrightarrow> cs ! b = bs ! b"
    and d: "length (di_addrs d) = 13"
    and old: "\<And>m p. p < 141 \<Longrightarrow> m \<noteq> n \<Longrightarrow> di_slot cs (D m) p = di_slot bs (D m) p"
    and new: "\<And>p. p < 141 \<Longrightarrow> di_slot cs d p = (if p = S n then fb else di_slot bs (D n) p)"
  shows "laid_out (D(n := d)) (S(n := Suc (S n))) cs (fb + 1)"
proof -
  note l = laid_outD [OF L]
  have u: "unat (fb + 1) = unat fb + 1" using fb by (simp add: unat_word_ariths)
  have nz: "fb \<noteq> 0" using l(3) by auto
  define E T where "E = D(n := d)" and "T = S(n := Suc (S n))"
  have slot: "di_slot cs (E m) p = (if m = n \<and> p = S n then fb else di_slot bs (D m) p)" if "p < 141" for m p
    using old [OF that, of m] new [OF that] by (cases "m = n") (auto simp: E_def)
  have cases: "p < T m \<longleftrightarrow> p < S m \<or> m = n \<and> p = S n" for m p by (auto simp: T_def)
  have lt: "p < S m \<Longrightarrow> p < 141" for p m using l(6) [of m] by simp
  have slt: "p < T m \<Longrightarrow> p < 141" for p m using lt n by (auto simp: cases)
  have ne: "p < S m \<Longrightarrow> di_slot bs (D m) p \<noteq> fb" for m p using l(9) [of p m] by auto
  have sl: "m = n \<and> p = S n \<and> di_slot cs (E m) p = fb \<or> p < S m \<and> di_slot cs (E m) p = di_slot bs (D m) p" if "p < T m" for m p
    using that slot [OF slt [OF that], of m] by (cases "m = n \<and> p = S n") (auto simp: cases)
  show ?thesis
    unfolding laid_out_def u E_def [symmetric] T_def [symmetric]
  proof (intro conjI allI impI)
    show "length cs = 1000" "59 \<le> unat fb + 1" "unat fb + 1 \<le> 1000" using bs(1) l(3) fb by simp_all
    show "length (di_addrs (E m)) = 13" "T m \<le> 141" for m using l(5,6) [of m] d n by (simp_all add: E_def T_def)
    show "length (cs ! b) = 512" if "b < 1000" for b using bs(2) that .
    show "di_slot cs (E m) p \<noteq> 0 \<longleftrightarrow> p < T m" if "p < 141" for m p
      using that slot [OF that, of m] l(7) [OF that, of m] nz by (auto simp: cases)
    show "59 \<le> unat (di_slot cs (E m) p)" if "p < T m" for m p using sl [OF that] l(3) l(8) [of p m] by (elim disjE conjE) simp_all
    show "unat (di_slot cs (E m) p) < unat fb + 1" if "p < T m" for m p using sl [OF that] l(9) [of p m] by (elim disjE conjE) simp_all
    fix m m' p q
    assume a: "p < T m" "q < T m'" "di_slot cs (E m) p = di_slot cs (E m') q"
    have "m = m' \<and> p = q"
      using sl [OF a(1)] sl [OF a(2)] a(3) l(10) [of p m q m'] ne [of p m] ne [of q m'] by (elim disjE conjE) simp_all
    then show "m = m'" "p = q" by simp_all
  next
    show "\<exists>m p. p < T m \<and> unat (di_slot cs (E m) p) = b" if "59 \<le> b" "b < unat fb + 1" for b
    proof (cases "b = unat fb")
      case True
      then show ?thesis using slot [OF n, of n] by (intro exI [of _ n] exI [of _ "S n"]) (simp add: cases)
    next
      case False
      then obtain m p where "p < S m" "unat (di_slot bs (D m) p) = b" using l(11) [of b] \<open>59 \<le> b\<close> \<open>b < unat fb + 1\<close> by auto
      then show ?thesis using slot [OF lt, of p m m] by (intro exI [of _ m] exI [of _ p]) (auto simp: cases)
    qed
    show "cs ! b = replicate 512 0" if "unat fb + 1 \<le> b" "b < 1000" for b using bs(3) l(12) that by simp
  qed
qed

lemma get32_zeros: "off + 4 \<le> n \<Longrightarrow> get32 (replicate n 0) off = 0"
  by (simp add: get32_def chunk_def dec32_def numeral_eq_Suc)

lemma grow_addrs:
  assumes L: "laid_out D S bs fb" and fb: "unat fb < 1000" and n: "S n \<le> 12"
  shows "laid_out (D(n := (D n)\<lparr>di_addrs := (di_addrs (D n))[S n := fb]\<rparr>)) (S(n := Suc (S n))) bs (fb + 1)"
proof (rule laid_out_grow [OF L fb])
  note l = laid_outD [OF L]
  show "S n < 141" "length bs = 1000" "length (di_addrs ((D n)\<lparr>di_addrs := (di_addrs (D n))[S n := fb]\<rparr>)) = 13"
    using n l(1,5) by simp_all
  show "length (bs ! b) = 512" if "b < 1000" for b using l(2) that .
  fix p :: nat
  assume p: "p < 141"
  have z: "p' < 141 \<Longrightarrow> S n \<le> p' \<Longrightarrow> di_slot bs (D n) p' = 0" for p' using l(7) [of p' n] by simp
  have z12: "di_addrs (D n) ! 12 = 0" using z [of 12] n by (simp add: di_slot_def)
  have len: "length (di_addrs (D n)) = 13" by (rule l(5))
  show "di_slot bs ((D n)\<lparr>di_addrs := (di_addrs (D n))[S n := fb]\<rparr>) p = (if p = S n then fb else di_slot bs (D n) p)"
  proof (cases "12 < p \<and> S n = 12")
    case True
    then have "bs ! unat fb = replicate 512 0" using l(12) [of "unat fb"] fb by simp
    then have "get32 (bs ! unat fb) (4 * (p - 13)) = 0" using p by (simp add: get32_zeros)
    then show ?thesis using True z12 len by (auto simp: di_slot_def nth_list_update)
  next
    case False
    then show ?thesis using n z12 len by (auto simp: di_slot_def nth_list_update)
  qed
qed simp_all

lemma kept_addrs:
  assumes L: "laid_out D S bs fb" and n: "S n \<le> 12"
  shows "kept D S bs (D(n := (D n)\<lparr>di_addrs := (di_addrs (D n))[S n := fb]\<rparr>)) bs"
proof -
  have "di_slot bs ((D n)\<lparr>di_addrs := (di_addrs (D n))[S n := fb]\<rparr>) p = di_slot bs (D n) p" if "p < S n" for p
    using that n by (simp add: di_slot_def)
  then show ?thesis by (simp add: kept_def)
qed

lemma slot_block:
  assumes L: "laid_out D S bs fb" and p: "p < S n"
  shows "unat (di_slot bs (D n) p) < 1000" "length (bs ! unat (di_slot bs (D n) p)) = 512"
proof -
  show *: "unat (di_slot bs (D n) p) < 1000" using laid_outD(9) [OF L p] laid_outD(4) [OF L] by simp
  show "length (bs ! unat (di_slot bs (D n) p)) = 512" by (rule laid_outD(2) [OF L *])
qed

text \<open>Only a write to the indirect block of a file moves its blocks.\<close>

lemma slot_frame:
  assumes L: "laid_out D S bs fb" and p: "p < S n" and o: "m \<noteq> n \<or> p \<noteq> 12"
  shows "di_slot (bs[unat (di_slot bs (D n) p) := b]) (D m) q = di_slot bs (D m) q"
proof (cases "12 < q \<and> di_addrs (D m) ! 12 \<noteq> 0")
  case True
  then have "di_slot bs (D m) 12 \<noteq> 0" by (simp add: di_slot_def)
  then have "12 < S m" using laid_outD(7) [OF L, of 12 m] by simp
  then have "di_slot bs (D n) p \<noteq> di_slot bs (D m) 12" using laid_outD(10) [OF L p, of 12 m] o by blast
  then have "unat (di_slot bs (D n) p) \<noteq> unat (di_addrs (D m) ! 12)" 
    by (metis di_slot_def order_refl unsigned_word_eqI)
  then show ?thesis using True by (simp add: di_slot_def [of _ _ q])
qed (auto simp: di_slot_def [of _ _ q])

lemma write_data:
  assumes L: "laid_out D S bs fb" and p: "p < S n" "p \<noteq> 12" and b: "length b = 512"
  shows "laid_out D S (bs[unat (di_slot bs (D n) p) := b]) fb"
proof -
  have f: "di_slot (bs[unat (di_slot bs (D n) p) := b]) (D m) q = di_slot bs (D m) q" for m q
    by (rule slot_frame [OF L p(1)]) (simp add: p)
  have "unat (di_slot bs (D n) p) < unat fb" by (rule laid_outD(9) [OF L p(1)])
  then show ?thesis using L b unfolding laid_out_def f by (simp add: nth_list_update)
qed

lemma grow_indirect:
  assumes L: "laid_out D S bs fb" and fb: "unat fb < 1000" and n: "12 < S n" "S n < 141"
  defines "x \<equiv> di_addrs (D n) ! 12"
  shows "laid_out D (S(n := Suc (S n))) (bs[unat x := put32 (bs ! unat x) (4 * (S n - 13)) fb]) (fb + 1)"
proof -
  note l = laid_outD [OF L]
  have x: "x = di_slot bs (D n) 12" "x \<noteq> 0" using l(7) [of 12 n] n by (auto simp: x_def di_slot_def)
  have u: "unat x < unat fb" "unat x < 1000" "length (bs ! unat x) = 512"
    using l(9) [OF n(1)] slot_block [OF L n(1)] by (simp_all add: x(1))
  let ?cs = "bs[unat x := put32 (bs ! unat x) (4 * (S n - 13)) fb]"
  have "laid_out (D(n := D n)) (S(n := Suc (S n))) ?cs (fb + 1)"
  proof (rule laid_out_grow [OF L fb n(2)])
    show "length ?cs = 1000" "length (di_addrs (D n)) = 13" using l(1,5) by simp_all
    show "length (?cs ! b) = 512" if "b < 1000" for b using that l(2) u n l(1) by (simp add: nth_list_update)
    show "?cs ! b = bs ! b" if "unat fb \<le> b" for b using that u by simp
    show "di_slot ?cs (D m) p = di_slot bs (D m) p" if "m \<noteq> n" for m p
      unfolding x(1) by (rule slot_frame [OF L n(1)]) (simp add: that)
    show "di_slot ?cs (D n) p = (if p = S n then fb else di_slot bs (D n) p)" if "p < 141" for p
      using that u n x(2) l(1)
      by (auto simp: di_slot_def x_def [symmetric] intro!: get32_put32_other)
  qed
  then show ?thesis by simp
qed

lemma kept_indirect:
  assumes L: "laid_out D S bs fb" and n: "12 < S n" "S n < 141"
  defines "x \<equiv> di_addrs (D n) ! 12"
  shows "kept D S bs D (bs[unat x := put32 (bs ! unat x) (4 * (S n - 13)) fb])"
proof -
  have x: "x = di_slot bs (D n) 12" by (simp add: x_def di_slot_def)
  let ?cs = "bs[unat x := put32 (bs ! unat x) (4 * (S n - 13)) fb]"
  have b: "unat x < length bs" "length (bs ! unat x) = 512" using slot_block [OF L n(1)] laid_outD(1) [OF L] by (simp_all add: x)
  have "di_slot ?cs (D m) q = di_slot bs (D m) q" if q: "q < S m" for m q
  proof (cases "m = n")
    case True
    then show ?thesis using q n b by (auto simp: di_slot_def x_def [symmetric] intro!: get32_put32_other)
  next
    case False
    then show ?thesis unfolding x by (intro slot_frame [OF L n(1)]) simp
  qed
  moreover have "59 \<le> unat x" using laid_outD(8) [OF L n(1)] by (simp add: x)
  moreover have "unat x \<noteq> unat (di_slot bs (D m) q)" if "q < S m" "q \<noteq> 12" for m q
    using laid_outD(10) [OF L n(1) that(1)] that(2) unsigned_word_eqI unfolding x by blast
  ultimately show ?thesis by (simp add: kept_def)
qed

section \<open>Appending\<close>

lemma sector_at_small:
  assumes "unat x \<le> 1000"
  shows "sector_at x = unat x"
proof -
  have "unat (x * 512) = unat x * 512"
    using assms by (simp add: unat_word_ariths)
  then show ?thesis by (simp add: sector_at_def BSIZE_def)
qed

text \<open>The state between two writes: all sectors are there, and the host's disk has room for them.\<close>

definition mk_ready :: "mkfs_st \<Rightarrow> bool" where
  "mk_ready s \<longleftrightarrow> length (mk_img s) = 1000 \<and> 1000 \<le> mk_room s \<and> mk_sb s = new_sb"

lemma rsect_run: "mk_ready s \<Longrightarrow> unat x < 1000 \<Longrightarrow> rsect x s = Ok (mk_img s ! unat x) s"
  by (simp add: rsect_def M_defs mk_ready_def sector_at_small)

lemma rsect_end: "mk_ready s \<Longrightarrow> unat x = 1000 \<Longrightarrow> rsect x s = Panic ''read''"
  by (simp add: rsect_def M_defs mk_ready_def sector_at_small)

lemma wsect_run: "mk_ready s \<Longrightarrow> unat x < 1000 \<Longrightarrow> wsect x b s = Ok () (s\<lparr>mk_img := (mk_img s)[unat x := b]\<rparr>)"
  by (simp add: wsect_def M_defs mk_ready_def sector_at_small Let_def)

lemma mk_ready_img [simp]: "length f = 1000 \<Longrightarrow> mk_ready s \<Longrightarrow> mk_ready (s\<lparr>mk_img := f\<rparr>)"
  by (simp add: mk_ready_def)

lemma mk_ready_fb [simp]: "mk_ready (s\<lparr>mk_freeblock := b\<rparr>) = mk_ready s"
  by (simp add: mk_ready_def)

text \<open>The number of blocks, with the indirect block, of a file of \<open>K\<close> data blocks.\<close>

definition nslots :: "nat \<Rightarrow> nat" where
  "nslots K = (if K \<le> 12 then K else K + 1)"

lemma nslots_mono: "K \<le> L \<Longrightarrow> nslots K \<le> nslots L"
  by (auto simp: nslots_def)

lemma blk_slot_less: "k < K \<Longrightarrow> blk_slot k < nslots K" and blk_slot_12: "blk_slot k \<noteq> 12"
  by (auto simp: blk_slot_def nslots_def)

lemma iappend_block_old:
  assumes L: "laid_out D S (mk_img s) fb" and r: "mk_ready s" and k: "blk_slot k < S n"
  shows "iappend_block (D n) k s = Ok (D n, di_slot (mk_img s) (D n) (blk_slot k)) s"
proof (cases "k < 12")
  case True
  then have "di_addrs (D n) ! k \<noteq> 0" using laid_outD(7) [OF L, of k n] k by (simp add: blk_slot_def di_slot_def)
  then show ?thesis using True by (simp add: iappend_block_def fill_addr_def NDIRECT_def M_defs blk_slot_def di_slot_def)
next
  case False
  then have p: "12 < S n" "blk_slot k = k + 1" using k by (simp_all add: blk_slot_def)
  then have x: "di_addrs (D n) ! 12 \<noteq> 0" "unat (di_addrs (D n) ! 12) < 1000"
    using laid_outD(7) [OF L, of 12 n] slot_block(1) [OF L, of 12 n] by (simp_all add: di_slot_def)
  have "k + 1 < 141" using k p laid_outD(6) [OF L, of n] by simp
  then have "di_slot (mk_img s) (D n) (k + 1) \<noteq> 0" using laid_outD(7) [OF L, of "k + 1" n] k p by simp
  then have "get32 (mk_img s ! unat (di_addrs (D n) ! 12)) (4 * (k - 12)) \<noteq> 0" using False x by (simp add: di_slot_def)
  then show ?thesis using False x
    by (simp add: iappend_block_def fill_addr_def NDIRECT_def M_defs rsect_run [OF r] p(2) di_slot_def)
qed

text \<open>A state that is \<open>s\<close> but for the image and the next free block.\<close>

definition mk_ext :: "mkfs_st \<Rightarrow> mkfs_st \<Rightarrow> bool" where
  "mk_ext s t \<longleftrightarrow> t = s\<lparr>mk_img := mk_img t, mk_freeblock := mk_freeblock t\<rparr>"

lemma mk_ext_refl: "mk_ext s s"
  by (simp add: mk_ext_def)

lemma mk_ext_trans: "mk_ext s t \<Longrightarrow> mk_ext t u \<Longrightarrow> mk_ext s u"
  by (cases s; cases t; cases u) (simp add: mk_ext_def)

lemma fill_addr_run:
  assumes L: "laid_out D S (mk_img s) (mk_freeblock s)" and n: "S n \<le> 12"
  shows "fill_addr (D n) (S n) s =
    Ok ((D n)\<lparr>di_addrs := (di_addrs (D n))[S n := mk_freeblock s]\<rparr>) (s\<lparr>mk_freeblock := mk_freeblock s + 1\<rparr>)"
proof -
  have "di_addrs (D n) ! S n = 0" using laid_outD(7) [OF L, of "S n" n] n by (simp add: di_slot_def)
  then show ?thesis by (simp add: fill_addr_def new_block_def M_defs)
qed

lemma fill_addr_old: "di_addrs d ! k \<noteq> 0 \<Longrightarrow> fill_addr d k s = Ok d s"
  by (simp add: fill_addr_def M_defs)

lemma iappend_block_fill:
  "\<not> k < 12 \<Longrightarrow> fill_addr d 12 s = Ok e t \<Longrightarrow> di_addrs e ! 12 \<noteq> 0 \<Longrightarrow> iappend_block d k s = iappend_block e k t"
  using fill_addr_old [of e 12 t] by (simp add: iappend_block_def NDIRECT_def bindM_def [of "fill_addr _ _"])

text \<open>The entry of the indirect block that \<open>iappend\<close> fills in.\<close>

definition with_entry :: "dinode \<Rightarrow> nat \<Rightarrow> mkfs_st \<Rightarrow> mkfs_st" where
  "with_entry d p s =
     s\<lparr>mk_img := (mk_img s)[unat (di_addrs d ! 12) := put32 (mk_img s ! unat (di_addrs d ! 12)) (4 * (p - 13)) (mk_freeblock s)],
       mk_freeblock := mk_freeblock s + 1\<rparr>"

lemma indirect_run:
  assumes L: "laid_out D S (mk_img s) (mk_freeblock s)" and r: "mk_ready s" and n: "12 < S n" "S n < 141"
  shows "iappend_block (D n) (S n - 1) s = Ok (D n, mk_freeblock s) (with_entry (D n) (S n) s)"
    "di_slot (mk_img (with_entry (D n) (S n) s)) (D n) (S n) = mk_freeblock s"
    "mk_ready (with_entry (D n) (S n) s)"
proof -
  define x where "x = di_addrs (D n) ! 12"
  have x: "x \<noteq> 0" "unat x < 1000" "length (mk_img s ! unat x) = 512" "length (mk_img s) = 1000"
    using laid_outD(7) [OF L, of 12 n] slot_block [OF L n(1)] n laid_outD(1) [OF L] by (simp_all add: di_slot_def x_def)
  have z: "get32 (mk_img s ! unat x) (4 * (S n - 13)) = 0"
    using laid_outD(7) [OF L, of "S n" n] n x(1) by (simp add: di_slot_def x_def)
  have nn: "\<not> S n - 1 < 12" "S n - 1 - 12 = S n - 13" using n by simp_all
  have w: "wsect x b (s\<lparr>mk_freeblock := f\<rparr>) = Ok () (s\<lparr>mk_img := (mk_img s)[unat x := b], mk_freeblock := f\<rparr>)" for b f
    using wsect_run [of "s\<lparr>mk_freeblock := f\<rparr>" x b] r x(2) by simp
  have f: "fill_addr (D n) 12 s = Ok (D n) s" using x(1) by (intro fill_addr_old) (simp add: x_def)
  have g: "get32 (put32 (mk_img s ! unat x) (4 * (S n - 13)) w) (4 * (S n - 13)) = w" for w
    using n x by (intro get32_put32_same) simp
  show "iappend_block (D n) (S n - 1) s = Ok (D n, mk_freeblock s) (with_entry (D n) (S n) s)"
    using nn rsect_run [OF r x(2)]
    by (simp add: iappend_block_def NDIRECT_def bindM_def [of "fill_addr _ _"] f x_def [symmetric] bindM_def [of "rsect _"] z)
      (simp add: M_defs new_block_def Let_def w g with_entry_def x_def [symmetric])
  show "di_slot (mk_img (with_entry (D n) (S n) s)) (D n) (S n) = mk_freeblock s"
    using n x g by (simp add: di_slot_def with_entry_def x_def [symmetric])
  show "mk_ready (with_entry (D n) (S n) s)" using r x by (simp add: with_entry_def)
qed

text \<open>The outcome when the file needs one more block and there is one.\<close>

definition block_added :: "(u32 \<Rightarrow> dinode) \<Rightarrow> (u32 \<Rightarrow> nat) \<Rightarrow> mkfs_st \<Rightarrow> u32 \<Rightarrow> nat \<Rightarrow> dinode \<Rightarrow> mkfs_st \<Rightarrow> bool" where
  "block_added D S s n p d t \<longleftrightarrow>
     laid_out (D(n := d)) (S(n := Suc p)) (mk_img t) (mk_freeblock t) \<and> kept D S (mk_img s) (D(n := d)) (mk_img t) \<and> mk_ready t \<and>
     mk_ext s t \<and> unat (mk_freeblock t) + S n = unat (mk_freeblock s) + Suc p \<and> d = (D n)\<lparr>di_addrs := di_addrs d\<rparr> \<and>
     mk_img t ! unat (di_slot (mk_img t) d p) = replicate 512 0"

lemma block_added_addr:
  assumes L: "laid_out D S (mk_img s) (mk_freeblock s)" and r: "mk_ready s" and fb: "unat (mk_freeblock s) < 1000" and n: "S n \<le> 12"
  defines "d \<equiv> (D n)\<lparr>di_addrs := (di_addrs (D n))[S n := mk_freeblock s]\<rparr>" and "t \<equiv> s\<lparr>mk_freeblock := mk_freeblock s + 1\<rparr>"
  shows "block_added D S s n (S n) d t" "di_slot (mk_img t) d (S n) = mk_freeblock s"
proof -
  show x: "di_slot (mk_img t) d (S n) = mk_freeblock s"
    using n laid_outD(5) [OF L, of n] by (simp add: di_slot_def d_def)
  have u: "unat (mk_freeblock s + 1) = unat (mk_freeblock s) + 1" using fb by (simp add: unat_word_ariths)
  show "block_added D S s n (S n) d t"
    unfolding block_added_def x
    using grow_addrs [OF L fb n] kept_addrs [OF L n] laid_outD(12) [OF L _ fb] r u
    by (simp add: d_def t_def mk_ext_def)
qed

lemma block_added_entry:
  assumes L: "laid_out D S (mk_img s) (mk_freeblock s)" and r: "mk_ready s" and fb: "unat (mk_freeblock s) < 1000" and n: "12 < S n" "S n < 141"
  shows "block_added D S s n (S n) (D n) (with_entry (D n) (S n) s)"
proof -
  have u: "unat (mk_freeblock s + 1) = unat (mk_freeblock s) + 1" using fb by (simp add: unat_word_ariths)
  have "unat (di_addrs (D n) ! 12) < unat (mk_freeblock s)" using laid_outD(9) [OF L n(1)] by (simp add: di_slot_def)
  then have z: "mk_img (with_entry (D n) (S n) s) ! unat (mk_freeblock s) = replicate 512 0"
    using laid_outD(12) [OF L _ fb] by (simp add: with_entry_def)
  show ?thesis
    unfolding block_added_def indirect_run(2) [OF L r n]
    using grow_indirect [OF L fb n] kept_indirect [OF L n] indirect_run(3) [OF L r n] u z
    by (simp add: with_entry_def mk_ext_def)
qed

lemma block_added_trans:
  assumes a: "block_added D S s n p d t" and b: "block_added (D(n := d)) (S(n := Suc p)) t n (Suc p) e u" and p: "S n \<le> Suc p"
  shows "block_added D S s n (Suc p) e u"
proof -
  have "S m \<le> (S(n := Suc p)) m" for m using p by simp
  then have "kept D S (mk_img s) ((D(n := d))(n := e)) (mk_img u)"
    using a b kept_trans [of D S "mk_img s" "D(n := d)" "mk_img t" "S(n := Suc p)"] by (simp add: block_added_def)
  moreover have "d = (D n)\<lparr>di_addrs := di_addrs d\<rparr>" "e = d\<lparr>di_addrs := di_addrs e\<rparr>" using a b by (simp_all add: block_added_def)
  then have "e = (D n)\<lparr>di_addrs := di_addrs e\<rparr>" by (cases d; cases e; cases "D n") simp
  ultimately show ?thesis using a b by (auto simp: block_added_def intro: mk_ext_trans)
qed

lemma iappend_block_new:
  assumes L: "laid_out D S (mk_img s) (mk_freeblock s)" and r: "mk_ready s" and n: "S n = nslots K" "K < 140"
    and fb: "unat (mk_freeblock s) + nslots (Suc K) \<le> 1000 + nslots K"
  shows "\<exists>d t. iappend_block (D n) K s = Ok (d, di_slot (mk_img t) d (blk_slot K)) t \<and> block_added D S s n (blk_slot K) d t"
proof -
  consider "K < 12" | "K = 12" | "12 < K" by linarith
  then show ?thesis
  proof cases
    case 1
    then have k: "S n = K" "S n \<le> 12" "blk_slot K = K" and f: "unat (mk_freeblock s) < 1000" using n fb by (simp_all add: nslots_def blk_slot_def)
    note a = block_added_addr [OF L r f k(2)]
    have "iappend_block (D n) K s = Ok ((D n)\<lparr>di_addrs := (di_addrs (D n))[S n := mk_freeblock s]\<rparr>, mk_freeblock s)
        (s\<lparr>mk_freeblock := mk_freeblock s + 1\<rparr>)"
      using fill_addr_run [OF L k(2)] 1 laid_outD(5) [OF L, of n] unfolding k(1)
      by (simp add: iappend_block_def NDIRECT_def bindM_def ret_def)
    then show ?thesis using a unfolding k by auto
  next
    case 2
    then have k: "S n = 12" "S n \<le> 12" and f: "unat (mk_freeblock s) < 999" "unat (mk_freeblock s) < 1000"
      using n fb by (simp_all add: nslots_def)
    let ?d = "(D n)\<lparr>di_addrs := (di_addrs (D n))[S n := mk_freeblock s]\<rparr>" and ?t = "s\<lparr>mk_freeblock := mk_freeblock s + 1\<rparr>"
    note a = block_added_addr(1) [OF L r f(2) k(2)]
    have L2: "laid_out (D(n := ?d)) (S(n := Suc (S n))) (mk_img ?t) (mk_freeblock ?t)" and r2: "mk_ready ?t"
      using a by (simp_all add: block_added_def)
    have f2: "unat (mk_freeblock ?t) < 1000" using f by (simp add: unat_word_ariths)
    have nz: "di_addrs ?d ! 12 \<noteq> 0" using laid_outD(3) [OF L] laid_outD(5) [OF L, of n] k by auto
    have run: "iappend_block (D n) K s = iappend_block ?d K ?t"
      using 2 fill_addr_run [OF L k(2)] nz by (intro iappend_block_fill) (simp_all add: k)
    have s13: "12 < (S(n := Suc (S n))) n" "(S(n := Suc (S n))) n < 141" using k by simp_all
    note b = block_added_entry [OF L2 r2 f2 s13] indirect_run [OF L2 r2 s13]
    have "block_added D S s n (Suc (S n)) ?d (with_entry ?d (Suc (S n)) ?t)"
      by (rule block_added_trans [OF a b(1) [unfolded fun_upd_same]]) simp
    then show ?thesis using b(2,3) run 2 k by (auto simp: blk_slot_def)
  next
    case 3
    then have k: "S n = Suc K" "12 < S n" "S n < 141" "blk_slot K = Suc K" and f: "unat (mk_freeblock s) < 1000"
      using n fb by (simp_all add: nslots_def blk_slot_def)
    show ?thesis
      using block_added_entry [OF L r f k(2,3)] indirect_run [OF L r k(2,3)] unfolding k by auto
  qed
qed

lemma iappend_block_full:
  assumes L: "laid_out D S (mk_img s) (mk_freeblock s)" and r: "mk_ready s" and n: "S n = nslots K" "K < 140"
    and fb: "1000 + nslots K < unat (mk_freeblock s) + nslots (Suc K)"
  shows "\<exists>e. bindM (iappend_block (D n) K) (\<lambda>(d, x). bindM (rsect x) (f d x)) s = Panic e"
proof -
  have le: "unat (mk_freeblock s) \<le> 1000" by (rule laid_outD(4) [OF L])
  have entry: "\<exists>e. bindM (iappend_block (D n) (S n - 1)) (\<lambda>(d, x). bindM (rsect x) (f d x)) s = Panic e"
    if L: "laid_out D S (mk_img s) (mk_freeblock s)" and r: "mk_ready s" and k: "12 < S n" "S n < 141" and e: "unat (mk_freeblock s) = 1000" for D S s
    using indirect_run [OF L r k] rsect_end [of "with_entry (D n) (S n) s" "mk_freeblock s"] e by (simp add: bindM_def)
  consider "K < 12" | "K = 12" | "12 < K" by linarith
  then show ?thesis
  proof cases
    case 1
    then have k: "S n = K" "S n \<le> 12" and e: "unat (mk_freeblock s) = 1000" using n fb le by (simp_all add: nslots_def)
    have "iappend_block (D n) K s = Ok ((D n)\<lparr>di_addrs := (di_addrs (D n))[S n := mk_freeblock s]\<rparr>, mk_freeblock s)
        (s\<lparr>mk_freeblock := mk_freeblock s + 1\<rparr>)"
      using fill_addr_run [OF L k(2)] 1 laid_outD(5) [OF L, of n] unfolding k(1)
      by (simp add: iappend_block_def NDIRECT_def bindM_def ret_def)
    then show ?thesis using rsect_end [of "s\<lparr>mk_freeblock := mk_freeblock s + 1\<rparr>" "mk_freeblock s"] r e by (simp add: bindM_def)
  next
    case 2
    let ?d = "(D n)\<lparr>di_addrs := (di_addrs (D n))[S n := mk_freeblock s]\<rparr>" and ?t = "s\<lparr>mk_freeblock := mk_freeblock s + 1\<rparr>"
    have k: "S n = 12" "S n \<le> 12" and e: "unat (mk_freeblock s) = 1000 \<or> unat (mk_freeblock s) = 999" using 2 n fb le by (auto simp: nslots_def)
    have nz: "di_addrs ?d ! 12 = mk_freeblock s" "mk_freeblock s \<noteq> 0" using laid_outD(3) [OF L] laid_outD(5) [OF L, of n] k by auto
    have run: "iappend_block (D n) K s = iappend_block ?d 12 ?t"
      using 2 fill_addr_run [OF L k(2)] nz iappend_block_fill [of K "D n" s ?d ?t] by (simp add: k)
    show ?thesis
    proof (cases "unat (mk_freeblock s) = 1000")
      case True
      then have "rsect (mk_freeblock s) ?t = Panic ''read''" using r by (intro rsect_end) simp_all
      then have "iappend_block ?d 12 ?t = Panic ''read''"
        using fill_addr_old [of ?d 12 ?t] nz by (simp add: iappend_block_def NDIRECT_def bindM_def)
      then show ?thesis using run by (simp add: bindM_def)
    next
      case False
      then have f: "unat (mk_freeblock s) < 1000" and f2: "unat (mk_freeblock ?t) = 1000" using e by (simp_all add: unat_word_ariths)
      have L2: "laid_out (D(n := ?d)) (S(n := Suc (S n))) (mk_img ?t) (mk_freeblock ?t)" and r2: "mk_ready ?t"
        using block_added_addr(1) [OF L r f k(2)] by (simp_all add: block_added_def)
      show ?thesis using entry [OF L2 r2 _ _ f2] k run by (simp add: bindM_def)
    qed
  next
    case 3
    then have k: "S n - 1 = K" "12 < S n" "S n < 141" and e: "unat (mk_freeblock s) = 1000" using n fb le by (simp_all add: nslots_def)
    show ?thesis using entry [OF L r k(2,3) e] by (simp only: k(1))
  qed
qed

text \<open>The bytes of a file, and what a write to it leaves alone in the others.\<close>

definition blocks_of :: "nat \<Rightarrow> nat" where
  "blocks_of sz = (sz + 511) div 512"

lemma blocks_of_split:
  assumes "r < 512"
  shows "blocks_of (512 * k + r) = (if r = 0 then k else Suc k)"
proof -
  have "512 * k + r + 511 = r + 511 + k * 512" by simp
  then have "blocks_of (512 * k + r) = k + (r + 511) div 512" unfolding blocks_of_def by (simp only: div_mult_self1 zero_neq_numeral simp_thms)
  moreover have "(r + 511) div 512 = (if r = 0 then 0 else 1)" using assms by (auto intro!: div_nat_eqI)
  ultimately show ?thesis by simp
qed

definition fbyte :: "u8 list list \<Rightarrow> dinode \<Rightarrow> nat \<Rightarrow> u8" where
  "fbyte bs d j = bs ! unat (di_slot bs d (blk_slot (j div 512))) ! (j mod 512)"

definition others :: "u32 \<Rightarrow> (u32 \<Rightarrow> dinode) \<Rightarrow> (u32 \<Rightarrow> nat) \<Rightarrow> u8 list list \<Rightarrow> (u32 \<Rightarrow> dinode) \<Rightarrow> u8 list list \<Rightarrow> bool" where
  "others n D S bs E cs \<longleftrightarrow>
     (\<forall>b < 59. cs ! b = bs ! b) \<and>
     (\<forall>m p. m \<noteq> n \<longrightarrow> p < S m \<longrightarrow> di_slot cs (E m) p = di_slot bs (D m) p \<and>
        (p \<noteq> 12 \<longrightarrow> cs ! unat (di_slot bs (D m) p) = bs ! unat (di_slot bs (D m) p)))"

lemma kept_others: "kept D S bs E cs \<Longrightarrow> others n D S bs E cs"
  by (simp add: kept_def others_def)

lemma others_trans:
  assumes "others n D S bs E cs" "others n E T cs G ds" "\<And>m. m \<noteq> n \<Longrightarrow> T m = S m"
  shows "others n D S bs G ds"
  using assms(1,2) unfolding others_def by (metis (no_types, lifting) assms(3))

lemma others_write:
  assumes L: "laid_out D S bs fb" and p: "p < S n" "p \<noteq> 12"
  shows "others n D S bs D (bs[unat (di_slot bs (D n) p) := b])"
proof -
  have "unat (di_slot bs (D n) p) \<noteq> unat (di_slot bs (D m) q)" if "m \<noteq> n" "q < S m" for m q
    using laid_outD(10) [OF L p(1) that(2)] that(1) unsigned_word_eqI by blast
  moreover have "59 \<le> unat (di_slot bs (D n) p)" by (rule laid_outD(8) [OF L p(1)])
  ultimately show ?thesis using slot_frame [OF L p(1), of _ b] p(2) by (simp add: others_def)
qed

lemma fbyte_kept:
  assumes "kept D S bs E cs" "blk_slot (j div 512) < S m"
  shows "fbyte cs (E m) j = fbyte bs (D m) j"
  using assms blk_slot_12 [of "j div 512"] by (simp add: kept_def fbyte_def)

lemma fbyte_others:
  assumes "others n D S bs E cs" "blk_slot (j div 512) < S m" "m \<noteq> n"
  shows "fbyte cs (E m) j = fbyte bs (D m) j"
  using assms blk_slot_12 [of "j div 512"] by (simp add: others_def fbyte_def)

lemma blk_slot_inj: "blk_slot i = blk_slot k \<longleftrightarrow> i = k"
  by (auto simp: blk_slot_def)

lemma fbyte_write:
  assumes L: "laid_out D S bs fb" and k: "blk_slot k < S n" "blk_slot (j div 512) < S n" and b: "o' + length xs \<le> 512"
  defines "x \<equiv> unat (di_slot bs (D n) (blk_slot k))"
  shows "fbyte (bs[x := blit (bs ! x) o' xs]) (D n) j =
    (if 512 * k + o' \<le> j \<and> j < 512 * k + o' + length xs then xs ! (j - (512 * k + o')) else fbyte bs (D n) j)"
proof -
  have f: "di_slot (bs[x := blit (bs ! x) o' xs]) (D n) p = di_slot bs (D n) p" for p
    unfolding x_def by (rule slot_frame [OF L k(1)]) (simp add: blk_slot_12)
  have x: "x < length bs" "length (bs ! x) = 512" using slot_block [OF L k(1)] laid_outD(1) [OF L] by (simp_all add: x_def)
  show ?thesis
  proof (cases "j div 512 = k")
    case True
    define r where "r = j mod 512"
    have j: "j = 512 * k + r" "r < 512" "j div 512 = k" "j mod 512 = r" using True by (auto simp: r_def)
    show ?thesis unfolding fbyte_def f j(3,4) x_def [symmetric] using j(2) x b by (auto simp: nth_blit j(1))
  next
    case False
    then have "blk_slot (j div 512) \<noteq> blk_slot k" by (simp add: blk_slot_inj)
    then have "unat (di_slot bs (D n) (blk_slot (j div 512))) \<noteq> x"
      using laid_outD(10) [OF L k] unsigned_word_eqI unfolding x_def by metis
    moreover have "\<not> (512 * k + o' \<le> j \<and> j < 512 * k + o' + length xs)" using False b by (auto simp: div_nat_eqI)
    ultimately show ?thesis by (auto simp: fbyte_def f)
  qed
qed

text \<open>One block further: the block that holds offset \<open>off\<close>, which is the size of the file so far.\<close>

lemma reach_block:
  assumes L: "laid_out D S (mk_img s) (mk_freeblock s)" and r: "mk_ready s"
    and n: "S n = nslots (blocks_of off)" "off < 71680" and k: "k = off div 512"
    and z: "\<And>j. off \<le> j \<Longrightarrow> j < 512 * blocks_of off \<Longrightarrow> fbyte (mk_img s) (D n) j = 0"
    and fb: "unat (mk_freeblock s) + nslots (Suc k) \<le> 1000 + nslots (blocks_of off)"
  shows "\<exists>d t. iappend_block (D n) k s = Ok (d, di_slot (mk_img t) d (blk_slot k)) t \<and>
    laid_out (D(n := d)) (S(n := nslots (Suc k))) (mk_img t) (mk_freeblock t) \<and> others n D S (mk_img s) (D(n := d)) (mk_img t) \<and>
    mk_ready t \<and> mk_ext s t \<and> unat (mk_freeblock t) + nslots (blocks_of off) = unat (mk_freeblock s) + nslots (Suc k) \<and>
    d = (D n)\<lparr>di_addrs := di_addrs d\<rparr> \<and>
    (\<forall>j < 512 * Suc k. fbyte (mk_img t) d j = (if j < off then fbyte (mk_img s) (D n) j else 0))"
proof (cases "off mod 512 = 0")
  case False
  then have b: "blocks_of off = Suc k" using blocks_of_split [of "off mod 512" k] by (simp add: k)
  then have "blk_slot k < S n" using n(1) blk_slot_less [of k "Suc k"] by simp
  then show ?thesis
    using iappend_block_old [OF L r] L r b n(1) z kept_others [OF kept_refl]
    by (intro exI [of _ "D n"] exI [of _ s]) (simp add: mk_ext_refl fun_upd_idem)
next
  case True
  then have b: "blocks_of off = k" "off = 512 * k" "k < 140" using n(2) blocks_of_split [of "off mod 512" k] by (auto simp: k)
  have p: "Suc (blk_slot k) = nslots (Suc k)" by (simp add: blk_slot_def nslots_def)
  obtain d t where t: "iappend_block (D n) k s = Ok (d, di_slot (mk_img t) d (blk_slot k)) t" "block_added D S s n (blk_slot k) d t"
    using iappend_block_new [OF L r n(1)] b fb by auto
  note a = t(2) [unfolded block_added_def p]
  have "fbyte (mk_img t) d j = (if j < off then fbyte (mk_img s) (D n) j else 0)" if "j < 512 * Suc k" for j
  proof (cases "j < off")
    case True
    then have "j div 512 < k" using b by (simp add: less_mult_imp_div_less)
    then have "blk_slot (j div 512) < S n" using n(1) b(1) blk_slot_less by simp
    then show ?thesis using fbyte_kept [of D S "mk_img s" "D(n := d)" "mk_img t" j n] a True by simp
  next
    case False
    then have "j div 512 = k" using that b by (simp add: div_nat_eqI)
    then show ?thesis using False a by (simp add: fbyte_def)
  qed
  then show ?thesis using t(1) a b n(1) kept_others [of D S "mk_img s" "D(n := d)" "mk_img t" n] by (intro exI [of _ d] exI [of _ t]) auto
qed

text \<open>
  \<open>appended D S s n off p d t\<close>: the bytes \<open>p\<close> have been put behind the first \<open>off\<close> bytes of file \<open>n\<close>, whose inode is \<open>d\<close> now; the
  rest of its last block holds zeros.
\<close>

definition appended ::
  "(u32 \<Rightarrow> dinode) \<Rightarrow> (u32 \<Rightarrow> nat) \<Rightarrow> mkfs_st \<Rightarrow> u32 \<Rightarrow> nat \<Rightarrow> u8 list \<Rightarrow> dinode \<Rightarrow> mkfs_st \<Rightarrow> bool" where
  "appended D S s n off p d t \<longleftrightarrow>
     laid_out (D(n := d)) (S(n := nslots (blocks_of (off + length p)))) (mk_img t) (mk_freeblock t) \<and>
     others n D S (mk_img s) (D(n := d)) (mk_img t) \<and> mk_ready t \<and> mk_ext s t \<and>
     unat (mk_freeblock t) + S n = unat (mk_freeblock s) + nslots (blocks_of (off + length p)) \<and>
     d = (D n)\<lparr>di_addrs := di_addrs d\<rparr> \<and>
     (\<forall>j < 512 * blocks_of (off + length p). fbyte (mk_img t) d j =
        (if j < off then fbyte (mk_img s) (D n) j else if j < off + length p then p ! (j - off) else 0))"

lemma mk_ext_img: "mk_ext s t \<Longrightarrow> mk_ext s (t\<lparr>mk_img := f\<rparr>)"
  by (cases s; cases t) (simp add: mk_ext_def)

lemma blocks_of_end:
  assumes "0 < x" "x \<le> 512"
  shows "blocks_of (512 * k + x) = Suc k"
proof (cases "x = 512")
  case True
  then show ?thesis using blocks_of_split [of 0 "Suc k"] by (simp add: algebra_simps)
next
  case False
  then show ?thesis using assms blocks_of_split [of x k] by simp
qed

lemma blocks_of_mono: "a \<le> b \<Longrightarrow> blocks_of a \<le> blocks_of b"
  by (simp add: blocks_of_def div_le_mono)

lemma blocks_of_le: "a \<le> 512 * blocks_of a"
  using div_mult_mod_eq [of "a + 511" 512] mod_less_divisor [of 512 "a + 511"] unfolding blocks_of_def by linarith

lemma blocks_of_max: "a \<le> 71680 \<Longrightarrow> blocks_of a \<le> 140"
  using blocks_of_mono [of a 71680] by (simp add: blocks_of_def)

lemma appended_trans:
  assumes a: "appended D S s n off p d t"
    and b: "appended (D(n := d)) (S(n := nslots (blocks_of (off + length p)))) t n (off + length p) q e u"
  shows "appended D S s n off (p @ q) e u"
proof -
  have len: "off + length p + length q = off + length (p @ q)" by simp
  have le: "blocks_of (off + length p) \<le> blocks_of (off + length (p @ q))" by (rule blocks_of_mono) simp
  note a' = a [unfolded appended_def] and b' = b [unfolded appended_def len]
  have "others n D S (mk_img s) ((D(n := d))(n := e)) (mk_img u)"
    by (rule others_trans [of n D S "mk_img s" "D(n := d)" "mk_img t" "S(n := nslots (blocks_of (off + length p)))"]) (use a' b' in simp_all)
  moreover have "d = (D n)\<lparr>di_addrs := di_addrs d\<rparr>" "e = d\<lparr>di_addrs := di_addrs e\<rparr>" using a' b' by simp_all
  then have "e = (D n)\<lparr>di_addrs := di_addrs e\<rparr>" by (cases d; cases e; cases "D n") simp
  moreover have "fbyte (mk_img u) e j =
      (if j < off then fbyte (mk_img s) (D n) j else if j < off + length (p @ q) then (p @ q) ! (j - off) else 0)"
    if j: "j < 512 * blocks_of (off + length (p @ q))" for j
  proof (cases "j < off + length p")
    case True
    then have "j < 512 * blocks_of (off + length p)" using blocks_of_le [of "off + length p"] by linarith
    moreover have "fbyte (mk_img u) e j = fbyte (mk_img t) d j" using b' j True by simp
    ultimately show ?thesis using a' True by (auto simp: nth_append)
  next
    case False
    then have "fbyte (mk_img u) e j = (if j < off + length (p @ q) then q ! (j - (off + length p)) else 0)" using b' j by simp
    then show ?thesis using False by (auto simp: nth_append)
  qed
  ultimately show ?thesis using a' b' unfolding appended_def by (auto intro: mk_ext_trans)
qed

lemma iappend_round:
  assumes L: "laid_out D S (mk_img s) (mk_freeblock s)" and r: "mk_ready s"
    and n: "S n = nslots (blocks_of off)" "off < 71680" and p: "p \<noteq> []" "off mod 512 + length p \<le> 512"
    and z: "\<And>j. off \<le> j \<Longrightarrow> j < 512 * blocks_of off \<Longrightarrow> fbyte (mk_img s) (D n) j = 0"
    and fb: "unat (mk_freeblock s) + nslots (blocks_of (off + length p)) \<le> 1000 + nslots (blocks_of off)"
  shows "\<exists>d x t b u. iappend_block (D n) (off div 512) s = Ok (d, x) t \<and> rsect x t = Ok b t \<and>
    wsect x (blit b (off mod 512) p) t = Ok () u \<and> appended D S s n off p d u"
proof -
  define k where "k = off div 512"
  have o: "off = 512 * k + off mod 512" by (simp add: k_def)
  have b: "blocks_of (off + length p) = Suc k"
    using blocks_of_end [of "off mod 512 + length p" k] p o by (simp add: add.assoc [symmetric])
  have le: "blocks_of off \<le> Suc k" using b blocks_of_mono [of off "off + length p"] by simp
  obtain d t where t: "iappend_block (D n) k s = Ok (d, di_slot (mk_img t) d (blk_slot k)) t"
    and l: "laid_out (D(n := d)) (S(n := nslots (Suc k))) (mk_img t) (mk_freeblock t)" "others n D S (mk_img s) (D(n := d)) (mk_img t)"
      "mk_ready t" "mk_ext s t" "unat (mk_freeblock t) + nslots (blocks_of off) = unat (mk_freeblock s) + nslots (Suc k)"
      "d = (D n)\<lparr>di_addrs := di_addrs d\<rparr>" "\<forall>j < 512 * Suc k. fbyte (mk_img t) d j = (if j < off then fbyte (mk_img s) (D n) j else 0)"
    using reach_block [OF L r n k_def z] fb b by auto
  let ?D = "D(n := d)" and ?S = "S(n := nslots (Suc k))" and ?x = "di_slot (mk_img t) d (blk_slot k)"
  have slot: "blk_slot i < ?S n" if "i < Suc k" for i using blk_slot_less [OF that] by simp
  have x: "unat ?x < 1000" "length (mk_img t ! unat ?x) = 512" using slot_block [OF l(1) slot [of k]] by simp_all
  define u where "u = t\<lparr>mk_img := (mk_img t)[unat ?x := blit (mk_img t ! unat ?x) (off mod 512) p]\<rparr>"
  have len: "length (blit (mk_img t ! unat ?x) (off mod 512) p) = 512" using x p by simp
  have k: "blk_slot k < ?S n" by (rule slot) simp
  have l2: "laid_out ?D ?S (mk_img u) (mk_freeblock u)"
    using write_data [OF l(1) k blk_slot_12 len] unfolding fun_upd_same by (simp add: u_def del: fun_upd_apply)
  have "others n ?D ?S (mk_img t) ?D (mk_img u)"
    using others_write [OF l(1) k blk_slot_12] unfolding fun_upd_same by (simp add: u_def del: fun_upd_apply)
  then have o2: "others n D S (mk_img s) ?D (mk_img u)" by (rule others_trans [OF l(2)]) simp
  have bys: "fbyte (mk_img u) d j = (if j < off then fbyte (mk_img s) (D n) j else if j < off + length p then p ! (j - off) else 0)"
    if "j < 512 * Suc k" for j
  proof -
    have "j div 512 < Suc k" using that by (simp add: less_mult_imp_div_less)
    then have "fbyte (mk_img u) d j = (if off \<le> j \<and> j < off + length p then p ! (j - off) else fbyte (mk_img t) d j)"
      using fbyte_write [OF l(1) k slot, of j "off mod 512" p] p o [symmetric] by (simp add: u_def)
    then show ?thesis using l(7) that by simp
  qed
  have "appended D S s n off p d u"
    unfolding appended_def b using l2 o2 bys l(3,4,5,6) n(1) laid_outD(1) [OF l(1)] by (simp add: u_def mk_ext_img)
  then show ?thesis using t rsect_run [OF l(3) x(1)] wsect_run [OF l(3) x(1)] unfolding k_def [symmetric] u_def by blast
qed

lemma round_words:
  fixes w :: u32
  assumes "unat w \<le> 71680"
  shows "unat (w div 512) = unat w div 512" "unat ((w div 512 + 1) * 512 - w) = 512 - unat w mod 512" "unat (w - w div 512 * 512) = unat w mod 512"
proof -
  define k m where "k = unat w div 512" and "m = unat w mod 512"
  have o: "unat w = 512 * k + m" "m < 512" "k \<le> 140" using assms by (simp_all add: k_def m_def)
  show d: "unat (w div 512) = unat w div 512" by (simp add: unat_div)
  have e: "unat ((w div 512 + 1) * 512) = (k + 1) * 512" "unat (w div 512 * 512) = k * 512"
    using o(3) d by (simp_all add: unat_word_ariths k_def [symmetric])
  have "w \<le> (w div 512 + 1) * 512" "w div 512 * 512 \<le> w" unfolding word_le_nat_alt e using o by simp_all
  then have "unat ((w div 512 + 1) * 512 - w) = (k + 1) * 512 - unat w" "unat (w - w div 512 * 512) = unat w - k * 512"
    by (simp_all only: unat_sub e)
  then show "unat ((w div 512 + 1) * 512 - w) = 512 - unat w mod 512" "unat (w - w div 512 * 512) = unat w mod 512"
    using o(1,2) by simp_all
qed

lemma iappend_loop_step:
  assumes "unat w < 71680" "p \<noteq> []"
  defines "n1 \<equiv> min (length p) (512 - unat w mod 512)"
  shows "iappend_loop (Suc f) d w p s =
    bindM (iappend_block d (unat w div 512)) (\<lambda>(d, x). bindM (rsect x) (\<lambda>b.
      seqM (wsect x (blit b (unat w mod 512) (take n1 p))) (iappend_loop f d (w + of_nat n1) (drop n1 p)))) s"
proof -
  have "unat w div 512 < 140" using assms(1) by simp
  then show ?thesis using assms round_words [of w] by (simp add: Let_def MAXFILE_def NDIRECT_def NINDIRECT_def)
qed

text \<open>No block is left for the next bytes.\<close>

lemma iappend_loop_full:
  assumes L: "laid_out D S (mk_img s) (mk_freeblock s)" and r: "mk_ready s" and n: "S n = nslots (blocks_of (unat w))" "unat w < 71680"
    and p: "p \<noteq> []" "0 < m" "unat w mod 512 + m \<le> 512"
    and full: "1000 + nslots (blocks_of (unat w)) < unat (mk_freeblock s) + nslots (blocks_of (unat w + m))"
  shows "\<exists>e. iappend_loop (Suc f) (D n) w p s = Panic e"
proof -
  let ?k = "unat w div 512"
  have "unat w mod 512 = 0"
  proof (rule ccontr)
    assume "unat w mod 512 \<noteq> 0"
    then have "blocks_of (unat w + m) = blocks_of (unat w)"
      using blocks_of_end [of "unat w mod 512" ?k] blocks_of_end [of "unat w mod 512 + m" ?k] p(3) by (simp add: add.assoc [symmetric])
    with full laid_outD(4) [OF L] show False by simp
  qed
  then have b: "blocks_of (unat w) = ?k" "blocks_of (unat w + m) = Suc ?k"
    using blocks_of_split [of 0 ?k] blocks_of_end [of m ?k] p div_mult_mod_eq [of "unat w" 512] by (simp_all add: mult.commute)
  have "?k < 140" using n(2) by simp
  then show ?thesis
    unfolding iappend_loop_step [OF n(2) p(1)] using full b by (intro iappend_block_full [OF L r]) (simp_all add: n)
qed

lemma iappend_loop_ok:
  assumes "laid_out D S (mk_img s) (mk_freeblock s)" "mk_ready s" "S n = nslots (blocks_of (unat w))" "unat w \<le> 71680"
    and "\<And>j. unat w \<le> j \<Longrightarrow> j < 512 * blocks_of (unat w) \<Longrightarrow> fbyte (mk_img s) (D n) j = 0" and "length p < f"
  shows "if unat w + length p \<le> 71680 \<and> unat (mk_freeblock s) + nslots (blocks_of (unat w + length p)) \<le> 1000 + S n
    then \<exists>d v t. iappend_loop f (D n) w p s = Ok (d, v) t \<and> unat v = unat w + length p \<and> appended D S s n (unat w) p d t
    else \<exists>e. iappend_loop f (D n) w p s = Panic e"
  using assms
proof (induction f arbitrary: D S s w p)
  case 0
  then show ?case by simp
next
  case (Suc f)
  note L = Suc.prems(1) and r = Suc.prems(2) and n = Suc.prems(3,4) and z = Suc.prems(5) and W = round_words [OF Suc.prems(4)]
  let ?fits = "unat w + length p \<le> 71680 \<and> unat (mk_freeblock s) + nslots (blocks_of (unat w + length p)) \<le> 1000 + S n"
  show ?case
  proof (cases "p = [] \<or> unat w = 71680")
    case True
    show ?thesis
    proof (cases "p = []")
      case True
      have "appended D S s n (unat w) [] (D n) s"
        using L r n z kept_others [OF kept_refl] by (simp add: appended_def mk_ext_refl fun_upd_idem)
      then show ?thesis using True n laid_outD(4) [OF L] by (simp add: ret_def)
    next
      case False
      then have "\<not> ?fits" "\<exists>e. iappend_loop (Suc f) (D n) w p s = Panic e"
        using True W(1) by (simp_all add: M_defs Let_def MAXFILE_def NDIRECT_def NINDIRECT_def)
      then show ?thesis by auto
    qed
  next
    case False
    then have lt: "unat w < 71680" and ne: "p \<noteq> []" using n(2) by simp_all
    let ?k = "unat w div 512"
    let ?n1 = "min (length p) (512 - unat w mod 512)"
    let ?p = "take ?n1 p" and ?q = "drop ?n1 p"
    have k: "?k < 140" using lt by simp
    have l1: "length ?p = ?n1" "?p \<noteq> []" "unat w mod 512 + length ?p \<le> 512" using ne by (simp_all add: not_le) 
    have mono: "nslots (blocks_of (unat w + length ?p)) \<le> nslots (blocks_of (unat w + length p))"
      by (intro nslots_mono blocks_of_mono) simp
    show ?thesis
    proof (cases "unat (mk_freeblock s) + nslots (blocks_of (unat w + length ?p)) \<le> 1000 + nslots (blocks_of (unat w))")
      case False
      have "\<exists>e. iappend_loop (Suc f) (D n) w p s = Panic e"
        using l1 False by (intro iappend_loop_full [OF L r n(1) lt ne, of "length ?p"]) simp_all
      moreover have "\<not> ?fits" using False mono n(1) by linarith
      ultimately show ?thesis by auto
    next
      case True
      obtain d x t b u where u: "iappend_block (D n) ?k s = Ok (d, x) t" "rsect x t = Ok b t"
          "wsect x (blit b (unat w mod 512) ?p) t = Ok () u" "appended D S s n (unat w) ?p d u"
        using iappend_round [OF L r n(1) lt l1(2,3) z True] by blast
      have run: "iappend_loop (Suc f) (D n) w p s = iappend_loop f d (w + of_nat ?n1) ?q u"
        unfolding iappend_loop_step [OF lt ne] using u(1,2,3) by (simp add: bindM_def seqM_def)
      let ?D = "D(n := d)" and ?S = "S(n := nslots (blocks_of (unat w + length ?p)))"
      have w: "unat (w + of_nat ?n1) = unat w + length ?p"
        using lt l1 by (simp add: unat_word_ariths unat_of_nat)
      have le: "unat w + length ?p \<le> 71680" using k l1(3) div_mult_mod_eq [of "unat w" 512] by linarith
      have len: "unat w + length ?p + length ?q = unat w + length p" by simp
      have ih: "if unat w + length ?p + length ?q \<le> 71680 \<and>
            unat (mk_freeblock u) + nslots (blocks_of (unat w + length ?p + length ?q)) \<le> 1000 + ?S n
          then \<exists>e v t. iappend_loop f (?D n) (w + of_nat ?n1) ?q u = Ok (e, v) t \<and> unat v = unat w + length ?p + length ?q \<and>
            appended ?D ?S u n (unat w + length ?p) ?q e t
          else \<exists>e. iappend_loop f (?D n) (w + of_nat ?n1) ?q u = Panic e"
      proof (rule Suc.IH [of ?D ?S u "w + of_nat ?n1" ?q, unfolded w])
        show "laid_out ?D ?S (mk_img u) (mk_freeblock u)" "mk_ready u" using u(4) by (simp_all add: appended_def)
        show "?S n = nslots (blocks_of (unat w + length ?p))" "unat w + length ?p \<le> 71680" using le by simp_all
        have "0 < length ?p" using l1(2) by blast
        then show "length ?q < f" using Suc.prems(6) len by linarith
        show "fbyte (mk_img u) (?D n) j = 0" if "unat w + length ?p \<le> j" "j < 512 * blocks_of (unat w + length ?p)" for j
          using u(4) that by (simp add: appended_def)
      qed
      have fb: "unat (mk_freeblock u) + S n = unat (mk_freeblock s) + nslots (blocks_of (unat w + length ?p))" using u(4) by (simp add: appended_def)
      show ?thesis
      proof (cases ?fits)
        case True
        then have "unat w + length p \<le> 71680 \<and> unat (mk_freeblock u) + nslots (blocks_of (unat w + length p)) \<le> 1000 + ?S n"
          using fb by simp
        then obtain e v t' where t': "iappend_loop f d (w + of_nat ?n1) ?q u = Ok (e, v) t'" "unat v = unat w + length p"
            "appended ?D ?S u n (unat w + length ?p) ?q e t'"
          using ih unfolding len fun_upd_same by (simp only: if_True simp_thms) blast
        have "appended D S s n (unat w) p e t'" using appended_trans [OF u(4) t'(3)] by (simp only: append_take_drop_id)
        then show ?thesis unfolding run using True t'(1,2) by auto
      next
        case False
        then have "\<not> (unat w + length p \<le> 71680 \<and> unat (mk_freeblock u) + nslots (blocks_of (unat w + length p)) \<le> 1000 + ?S n)"
          using fb unfolding fun_upd_same by linarith
        then show ?thesis unfolding run using False ih unfolding len fun_upd_same by (simp only: if_False simp_thms)
      qed
    qed
  qed
qed

end
