(* ===== verification/Mkimage.thy ===== *)
theory Mkimage
  imports Mkfs
begin

text \<open>
  The image that \<^verbatim>\<open>mkfs.c\<close> writes as a whole: what \<open>ialloc\<close> and \<open>iappend\<close> do to the files of an image, and that the program succeeds exactly when the
  files fit and then leaves an image that holds them, in the layout the kernel reads.
\<close>

section \<open>Files of an image\<close>

text \<open>The inode with a given number, as the kernel finds it; there is room for 208 of them in the inode blocks.\<close>

definition disk_inode :: "u8 list list \<Rightarrow> u32 \<Rightarrow> dinode" where
  "disk_inode bs n = (if unat n < 208 then get_dinode (bs ! unat (IBLOCK n new_sb)) (dip_off n) else zero_dinode)"

definition fsize :: "u8 list list \<Rightarrow> u32 \<Rightarrow> nat" where
  "fsize bs n = unat (di_size (disk_inode bs n))"

definition fdata :: "u8 list list \<Rightarrow> u32 \<Rightarrow> u8 list" where
  "fdata bs n = map (fbyte bs (disk_inode bs n)) [0..<fsize bs n]"

definition mk_ok :: "mkfs_st \<Rightarrow> bool" where
  "mk_ok s \<longleftrightarrow>
     mk_ready s \<and> laid_out (disk_inode (mk_img s)) (\<lambda>n. nslots (blocks_of (fsize (mk_img s) n))) (mk_img s) (mk_freeblock s) \<and>
     (\<forall>n. fsize (mk_img s) n \<le> 71680 \<and>
        (\<forall>j. fsize (mk_img s) n \<le> j \<longrightarrow> j < 512 * blocks_of (fsize (mk_img s) n) \<longrightarrow> fbyte (mk_img s) (disk_inode (mk_img s) n) j = 0))"

lemma new_sb_start: "sb_inodestart new_sb = 32" "sb_bmapstart new_sb = 58"
  by (simp_all add: new_sb_def nlog_def ninodeblocks_def LOGSIZE_def NINODES_def IPB_def)

lemma IBLOCK_new: "unat n < 208 \<Longrightarrow> unat (IBLOCK n new_sb) = unat n div 8 + 32"
  by (simp add: IBLOCK_def new_sb_start unat_word_ariths unat_div)

lemma IBLOCK_bounds: "unat n < 208 \<Longrightarrow> unat (IBLOCK n new_sb) < 58" "unat n < 208 \<Longrightarrow> 32 \<le> unat (IBLOCK n new_sb)"
  by (simp_all add: IBLOCK_new)

definition put_inode :: "u32 \<Rightarrow> dinode \<Rightarrow> u8 list list \<Rightarrow> u8 list list" where
  "put_inode n d bs = bs[unat (IBLOCK n new_sb) := put_dinode (bs ! unat (IBLOCK n new_sb)) (dip_off n) d]"

lemma rinode_run: "mk_ready s \<Longrightarrow> unat n < 208 \<Longrightarrow> rinode n s = Ok (disk_inode (mk_img s) n) s"
  using IBLOCK_bounds [of n] rsect_run [of s "IBLOCK n new_sb"]
  by (simp add: rinode_def disk_inode_def bindM_def getS_def ret_def mk_ready_def)

lemma winode_run: "mk_ready s \<Longrightarrow> unat n < 208 \<Longrightarrow> winode n d s = Ok () (s\<lparr>mk_img := put_inode n d (mk_img s)\<rparr>)"
  using IBLOCK_bounds [of n] rsect_run [of s "IBLOCK n new_sb"] wsect_run [of s "IBLOCK n new_sb"]
  by (simp add: winode_def put_inode_def bindM_def getS_def mk_ready_def)

lemma disk_inode_put:
  assumes len: "length bs = 1000" "\<And>b. b < 1000 \<Longrightarrow> length (bs ! b) = 512" and n: "unat n < 208" and d: "length (di_addrs d) = 13"
  shows "disk_inode (put_inode n d bs) = (disk_inode bs)(n := d)"
proof
  fix m
  have b: "unat (IBLOCK n new_sb) < 1000" using IBLOCK_bounds(1) [OF n] by simp
  have l: "length (bs ! unat (IBLOCK n new_sb)) = 512" by (rule len(2) [OF b])
  note o = dip_off_bound [unfolded BSIZE_def]
  show "disk_inode (put_inode n d bs) m = ((disk_inode bs)(n := d)) m"
  proof (cases "m = n")
    case True
    then show ?thesis using n b len(1) dinode_round_trip [of "dip_off n" "bs ! unat (IBLOCK n new_sb)" d] l d o [of n]
      by (simp add: disk_inode_def put_inode_def)
  next
    case False
    show ?thesis
    proof (cases "IBLOCK m new_sb = IBLOCK n new_sb")
      case True
      have "dip_off m \<noteq> dip_off n" using True False inum_eqI [of m n] by (auto simp: IBLOCK_def)
      then have "dip_off m + 64 \<le> dip_off n \<or> dip_off n + 64 \<le> dip_off m" by (auto simp: dip_off_def)
      then have "get_dinode (put_dinode (bs ! unat (IBLOCK n new_sb)) (dip_off n) d) (dip_off m) = get_dinode (bs ! unat (IBLOCK n new_sb)) (dip_off m)"
        using o [of n] o [of m] l d by (intro get_dinode_cong nth_put_dinode_other) auto
      then show ?thesis using True False b len(1) by (simp add: disk_inode_def put_inode_def)
    next
      case neq: False
      then have "unat (IBLOCK m new_sb) \<noteq> unat (IBLOCK n new_sb)" using unsigned_word_eqI by blast
      then show ?thesis using False by (simp add: disk_inode_def put_inode_def)
    qed
  qed
qed

text \<open>The inode blocks lie before the blocks of the files.\<close>

lemma slot_meta:
  assumes L: "laid_out D S bs fb" and b: "b < 59" and p: "p < 141"
  shows "di_slot (bs[b := x]) (D n) p = di_slot bs (D n) p"
proof (cases "di_addrs (D n) ! 12 = 0")
  case False
  then have "12 < S n" using laid_outD(7) [OF L, of 12 n] by (simp add: di_slot_def)
  then have "59 \<le> unat (di_addrs (D n) ! 12)" using laid_outD(8) [OF L, of 12 n] by (simp add: di_slot_def)
  then show ?thesis using b by (simp add: di_slot_def)
qed (simp add: di_slot_def)

lemma laid_out_meta:
  assumes L: "laid_out D S bs fb" and b: "b < 59" and x: "length x = 512"
  shows "laid_out D S (bs[b := x]) fb"
proof -
  have f: "p < S n \<Longrightarrow> di_slot (bs[b := x]) (D n) p = di_slot bs (D n) p" for n p
    using slot_meta [OF L b, of p] laid_outD(6) [OF L, of n] by simp
  show ?thesis
    unfolding laid_out_def
  proof (intro conjI allI impI)
    show "length (bs[b := x]) = 1000" "59 \<le> unat fb" "unat fb \<le> 1000" using laid_outD [OF L] by simp_all
    show "length (bs[b := x] ! c) = 512" if "c < 1000" for c using laid_outD(1) [OF L] laid_outD(2) [OF L that] that x by (cases "c = b") simp_all
    show "length (di_addrs (D n)) = 13" "S n \<le> 141" for n using laid_outD(5,6) [OF L] .
    show "di_slot (bs[b := x]) (D n) p \<noteq> 0 \<longleftrightarrow> p < S n" if "p < 141" for n p using laid_outD(7) [OF L that, of n] slot_meta [OF L b that] by simp
    show "59 \<le> unat (di_slot (bs[b := x]) (D n) p)" "unat (di_slot (bs[b := x]) (D n) p) < unat fb" if "p < S n" for n p
      using laid_outD(8,9) [OF L that] f [OF that] by simp_all
    show "n = m" "p = q" if "p < S n" "q < S m" "di_slot (bs[b := x]) (D n) p = di_slot (bs[b := x]) (D m) q" for n m p q
      using laid_outD(10) [OF L that(1,2)] that(3) unfolding f [OF that(1)] f [OF that(2)] by simp_all
    show "\<exists>n p. p < S n \<and> unat (di_slot (bs[b := x]) (D n) p) = c" if "59 \<le> c" "c < unat fb" for c
      using laid_outD(11) [OF L that] f by metis
    show "bs[b := x] ! c = replicate 512 0" if "unat fb \<le> c" "c < 1000" for c using laid_outD(3,12) [OF L] that b by simp
  qed
qed

lemma fbyte_meta:
  assumes L: "laid_out D S bs fb" and b: "b < 59" and j: "blk_slot (j div 512) < S n"
  shows "fbyte (bs[b := x]) (D n) j = fbyte bs (D n) j"
proof -
  have "di_slot (bs[b := x]) (D n) (blk_slot (j div 512)) = di_slot bs (D n) (blk_slot (j div 512))"
    using slot_meta [OF L b] laid_outD(6) [OF L, of n] j by simp
  then show ?thesis using laid_outD(8) [OF L j] b by (simp add: fbyte_def)
qed

lemma di_slot_addrs: "di_addrs d = di_addrs e \<Longrightarrow> di_slot bs d p = di_slot bs e p"
  by (simp add: di_slot_def)

lemma laid_out_addrs: "laid_out D S bs fb \<Longrightarrow> (\<And>m. di_addrs (E m) = di_addrs (D m)) \<Longrightarrow> laid_out E S bs fb"
proof -
  assume L: "laid_out D S bs fb" and a: "\<And>m. di_addrs (E m) = di_addrs (D m)"
  have "di_slot bs (E m) p = di_slot bs (D m) p" for m p by (rule di_slot_addrs [OF a])
  then show "laid_out E S bs fb" using L by (simp add: laid_out_def a)
qed

lemma fbyte_addrs: "di_addrs d = di_addrs e \<Longrightarrow> fbyte bs d j = fbyte bs e j"
  by (simp add: fbyte_def di_slot_def)

lemma length_fdata [simp]: "length (fdata bs n) = fsize bs n"
  by (simp add: fdata_def)

lemma slot_in_blocks: "j < 512 * K \<Longrightarrow> blk_slot (j div 512) < nslots K"
proof -
  assume "j < 512 * K"
  then have "j < K * 512" by linarith
  then show ?thesis by (intro blk_slot_less less_mult_imp_div_less)
qed

text \<open>
  What an append does to an image: the file grows by the bytes, and the other files, the types and link counts of
  all inodes and the blocks outside the inode table and the data area stay as they are.
\<close>

definition img_grown :: "mkfs_st \<Rightarrow> u32 \<Rightarrow> u8 list \<Rightarrow> mkfs_st \<Rightarrow> bool" where
  "img_grown s n p t \<longleftrightarrow>
     mk_ok t \<and> mk_ext s t \<and> fdata (mk_img t) = (fdata (mk_img s))(n := fdata (mk_img s) n @ p) \<and>
     (\<exists>d. disk_inode (mk_img t) = (disk_inode (mk_img s))(n := d) \<and> di_type d = di_type (disk_inode (mk_img s) n) \<and>
          di_nlink d = di_nlink (disk_inode (mk_img s) n)) \<and>
     (\<forall>b < 59. b < 32 \<or> b = 58 \<longrightarrow> mk_img t ! b = mk_img s ! b) \<and>
     unat (mk_freeblock t) + nslots (blocks_of (fsize (mk_img s) n)) =
       unat (mk_freeblock s) + nslots (blocks_of (fsize (mk_img s) n + length p))"

lemma disk_inode_meta: "(\<And>b. b < 59 \<Longrightarrow> cs ! b = bs ! b) \<Longrightarrow> disk_inode cs m = disk_inode bs m"
  using IBLOCK_bounds(1) [of m] by (cases "unat m < 208") (simp_all add: disk_inode_def)

lemma put_inode_grown:
  assumes ok: "mk_ok s" and n: "unat n < 208" and le: "fsize (mk_img s) n + length p \<le> 71680"
    and v: "unat v = fsize (mk_img s) n + length p"
    and a: "appended (disk_inode (mk_img s)) (\<lambda>n. nslots (blocks_of (fsize (mk_img s) n))) s n (fsize (mk_img s) n) p d t"
  shows "img_grown s n p (t\<lparr>mk_img := put_inode n (d\<lparr>di_size := v\<rparr>) (mk_img t)\<rparr>)"
proof -
  let ?D = "disk_inode (mk_img s)" and ?z = "fsize (mk_img s)" and ?e = "d\<lparr>di_size := v\<rparr>"
  let ?S = "\<lambda>n. nslots (blocks_of (?z n))" and ?cs = "put_inode n ?e (mk_img t)"
  note a' = a [unfolded appended_def]
  have L: "laid_out (?D(n := d)) (?S(n := nslots (blocks_of (?z n + length p)))) (mk_img t) (mk_freeblock t)" using a' by blast
  have O: "others n ?D ?S (mk_img s) (?D(n := d)) (mk_img t)" using a' by blast
  have bl: "length (mk_img t) = 1000" "\<And>b. b < 1000 \<Longrightarrow> length (mk_img t ! b) = 512" using laid_outD(1,2) [OF L] by blast+
  have da: "length (di_addrs ?e) = 13" using laid_outD(5) [OF L, of n] by simp
  have "disk_inode (mk_img t) m = ?D m" for m using O by (intro disk_inode_meta) (simp add: others_def)
  then have E: "disk_inode ?cs = ?D(n := ?e)" using disk_inode_put [OF bl n da] by (simp add: fun_eq_iff)
  have sz: "fsize ?cs = ?z(n := ?z n + length p)" using v by (simp add: fun_eq_iff fsize_def E)
  have S: "(\<lambda>m. nslots (blocks_of (fsize ?cs m))) = ?S(n := nslots (blocks_of (?z n + length p)))" by (simp add: sz fun_eq_iff)
  have ib: "unat (IBLOCK n new_sb) < 59" "unat (IBLOCK n new_sb) < 1000" using IBLOCK_bounds(1) [OF n] by simp_all
  have x: "length (put_dinode (mk_img t ! unat (IBLOCK n new_sb)) (dip_off n) ?e) = 512"
    using bl(2) [OF ib(2)] dip_off_bound [of n] da by (simp add: BSIZE_def)
  have "laid_out (?D(n := d)) (\<lambda>m. nslots (blocks_of (fsize ?cs m))) ?cs (mk_freeblock t)"
    unfolding S using laid_out_meta [OF L ib(1) x] by (simp add: put_inode_def)
  then have L': "laid_out (disk_inode ?cs) (\<lambda>m. nslots (blocks_of (fsize ?cs m))) ?cs (mk_freeblock t)"
    by (rule laid_out_addrs) (simp add: E)
  have bys: "fbyte ?cs (disk_inode ?cs m) j = fbyte (mk_img t) ((?D(n := d)) m) j" if "j < 512 * blocks_of (fsize ?cs m)" for m j
  proof -
    have "fbyte ?cs ((?D(n := d)) m) j = fbyte (mk_img t) ((?D(n := d)) m) j"
      unfolding put_inode_def using slot_in_blocks [OF that] by (intro fbyte_meta [OF L ib(1)]) (simp add: S [symmetric] del: fun_upd_apply)
    moreover have "fbyte ?cs (disk_inode ?cs m) j = fbyte ?cs ((?D(n := d)) m) j" by (rule fbyte_addrs) (simp add: E)
    ultimately show ?thesis by simp
  qed
  have same: "fbyte ?cs (disk_inode ?cs m) j = fbyte (mk_img s) (?D m) j" if "m \<noteq> n" "j < 512 * blocks_of (?z m)" for m j
    using bys [of j m] fbyte_others [OF O _ that(1), of j] slot_in_blocks [OF that(2)] that by (simp add: sz)
  have new: "fbyte ?cs (disk_inode ?cs n) j = (if j < ?z n then fbyte (mk_img s) (?D n) j else if j < ?z n + length p then p ! (j - ?z n) else 0)"
    if "j < 512 * blocks_of (?z n + length p)" for j
    using bys [of j n] a' that by (simp add: sz)
  have inside: "j < sz' \<Longrightarrow> j < 512 * blocks_of sz'" for j sz' using blocks_of_le [of sz'] by simp
  have "fdata ?cs n = fdata (mk_img s) n @ p"
    using new inside by (intro nth_equalityI) (simp_all add: sz fdata_def nth_append)
  moreover have "fdata ?cs m = fdata (mk_img s) m" if "m \<noteq> n" for m
    using same [OF that] inside that by (intro nth_equalityI) (simp_all add: sz fdata_def)
  ultimately have F: "fdata ?cs = (fdata (mk_img s))(n := fdata (mk_img s) n @ p)" by (simp add: fun_eq_iff)
  have "fsize ?cs m \<le> 71680 \<and> (\<forall>j. fsize ?cs m \<le> j \<longrightarrow> j < 512 * blocks_of (fsize ?cs m) \<longrightarrow> fbyte ?cs (disk_inode ?cs m) j = 0)" for m
    using ok le new same [of m] by (cases "m = n") (simp_all add: sz mk_ok_def)
  then have "mk_ok (t\<lparr>mk_img := ?cs\<rparr>)"
    using L' a' bl(1) by (simp add: mk_ok_def put_inode_def)
  moreover have "?cs ! b = mk_img s ! b" if "b < 59" "b < 32 \<or> b = 58" for b
    using that O IBLOCK_bounds [OF n] by (auto simp: put_inode_def others_def)
  moreover have d: "d = (?D n)\<lparr>di_addrs := di_addrs d\<rparr>" using a' by blast
  have "di_type d = di_type (?D n)" "di_nlink d = di_nlink (?D n)"
    using arg_cong [OF d, of di_type] arg_cong [OF d, of di_nlink] by simp_all
  then have "\<exists>e. disk_inode ?cs = ?D(n := e) \<and> di_type e = di_type (?D n) \<and> di_nlink e = di_nlink (?D n)"
    using E by (intro exI [of _ ?e]) simp
  ultimately show ?thesis using a' F by (simp add: img_grown_def mk_ext_img)
qed

text \<open>The number of blocks of a file with the given contents.\<close>

abbreviation blocks_for :: "u8 list \<Rightarrow> nat" where
  "blocks_for xs \<equiv> nslots (blocks_of (length xs))"

lemma iappend_ok:
  assumes ok: "mk_ok s" and n: "unat n < 208"
  shows "if fsize (mk_img s) n + length p \<le> 71680 \<and>
      unat (mk_freeblock s) + blocks_for (fdata (mk_img s) n @ p) \<le> 1000 + blocks_for (fdata (mk_img s) n)
    then \<exists>t. iappend n p s = Ok () t \<and> img_grown s n p t
    else \<exists>e. iappend n p s = Panic e"
    (is "if ?fits then _ else _")
proof -
  let ?D = "disk_inode (mk_img s)" and ?S = "\<lambda>n. nslots (blocks_of (fsize (mk_img s) n))" and ?w = "di_size (disk_inode (mk_img s) n)"
  note k = ok [unfolded mk_ok_def]
  have w: "unat ?w = fsize (mk_img s) n" by (simp add: fsize_def)
  have loop: "if unat ?w + length p \<le> 71680 \<and> unat (mk_freeblock s) + nslots (blocks_of (unat ?w + length p)) \<le> 1000 + ?S n
    then \<exists>d v t. iappend_loop (length p + 1) (?D n) ?w p s = Ok (d, v) t \<and> unat v = unat ?w + length p \<and> appended ?D ?S s n (unat ?w) p d t
    else \<exists>e. iappend_loop (length p + 1) (?D n) ?w p s = Panic e"
    by (rule iappend_loop_ok) (use k w in \<open>simp_all\<close>)
  have run: "iappend n p s = bindM (iappend_loop (length p + 1) (?D n) ?w p) (\<lambda>(d, v). winode n (d\<lparr>di_size := v\<rparr>)) s"
    using rinode_run [OF _ n, of s] k by (simp add: iappend_def bindM_def [of "rinode n"])
  show ?thesis
  proof (cases ?fits)
    case True
    then obtain d v t where t: "iappend_loop (length p + 1) (?D n) ?w p s = Ok (d, v) t" "unat v = fsize (mk_img s) n + length p"
        "appended ?D ?S s n (fsize (mk_img s) n) p d t"
      using loop unfolding w by (simp only: length_append length_fdata if_True simp_thms) blast
    have "mk_ready t" using t(3) by (simp add: appended_def)
    then show ?thesis
      unfolding run using True t(1) winode_run [OF _ n] put_inode_grown [OF ok n _ t(2,3)] by (simp add: bindM_def)
  next
    case False
    then obtain e where "iappend_loop (length p + 1) (?D n) ?w p s = Panic e"
      using loop unfolding w by (simp only: length_append length_fdata if_False simp_thms) blast
    then show ?thesis unfolding run using False by (simp add: bindM_def)
  qed
qed

text \<open>A new inode; the next number is free as long as there are fewer than 208 inodes.\<close>

definition inodes_ok :: "mkfs_st \<Rightarrow> bool" where
  "inodes_ok s \<longleftrightarrow> (\<forall>m. unat (mk_freeinode s) \<le> unat m \<longrightarrow> disk_inode (mk_img s) m = zero_dinode)"

definition made :: "mkfs_st \<Rightarrow> u32 \<Rightarrow> u16 \<Rightarrow> mkfs_st \<Rightarrow> bool" where
  "made s n ty t \<longleftrightarrow>
     mk_ok t \<and> inodes_ok t \<and> t = s\<lparr>mk_img := mk_img t, mk_freeinode := mk_freeinode s + 1\<rparr> \<and> fdata (mk_img t) = fdata (mk_img s) \<and>
     disk_inode (mk_img t) = (disk_inode (mk_img s))(n := zero_dinode\<lparr>di_type := ty, di_nlink := 1\<rparr>) \<and>
     (\<forall>b < 59. b < 32 \<or> b = 58 \<longrightarrow> mk_img t ! b = mk_img s ! b)"

lemma mk_ialloc_ok:
  assumes ok: "mk_ok s" "inodes_ok s" and n: "unat (mk_freeinode s) < 208"
  shows "\<exists>t. mk_ialloc ty s = Ok (mk_freeinode s) t \<and> made s (mk_freeinode s) ty t"
proof -
  let ?n = "mk_freeinode s" and ?e = "zero_dinode\<lparr>di_type := ty, di_nlink := 1\<rparr>"
  let ?cs = "put_inode ?n ?e (mk_img s)"
  let ?t = "s\<lparr>mk_freeinode := ?n + 1, mk_img := ?cs\<rparr>"
  note k = ok(1) [unfolded mk_ok_def]
  have L: "laid_out (disk_inode (mk_img s)) (\<lambda>n. nslots (blocks_of (fsize (mk_img s) n))) (mk_img s) (mk_freeblock s)" using k by blast
  have bl: "length (mk_img s) = 1000" "\<And>b. b < 1000 \<Longrightarrow> length (mk_img s ! b) = 512" using laid_outD(1,2) [OF L] by blast+
  have da: "length (di_addrs ?e) = 13" by (simp add: zero_dinode_def)
  have E: "disk_inode ?cs = (disk_inode (mk_img s))(?n := ?e)" by (rule disk_inode_put [OF bl n da])
  have z: "disk_inode (mk_img s) ?n = zero_dinode" using ok(2) by (simp add: inodes_ok_def)
  have sz: "fsize ?cs = fsize (mk_img s)" using z by (simp add: fun_eq_iff fsize_def E)
  have ad: "di_addrs (disk_inode ?cs m) = di_addrs (disk_inode (mk_img s) m)" for m using z by (simp add: E)
  have ib: "unat (IBLOCK ?n new_sb) < 59" "unat (IBLOCK ?n new_sb) < 1000" using IBLOCK_bounds(1) [OF n] by simp_all
  have x: "length (put_dinode (mk_img s ! unat (IBLOCK ?n new_sb)) (dip_off ?n) ?e) = 512"
    using bl(2) [OF ib(2)] dip_off_bound [of ?n] da by (simp add: BSIZE_def)
  have L': "laid_out (disk_inode ?cs) (\<lambda>m. nslots (blocks_of (fsize ?cs m))) ?cs (mk_freeblock s)"
    unfolding sz using laid_out_addrs [OF laid_out_meta [OF L ib(1) x] ad] by (simp add: put_inode_def)
  have by1: "fbyte ?cs (disk_inode ?cs m) j = fbyte (mk_img s) (disk_inode (mk_img s) m) j" if "j < 512 * blocks_of (fsize (mk_img s) m)" for m j
    using fbyte_meta [OF L ib(1) slot_in_blocks [OF that]] fbyte_addrs [OF ad, of ?cs m j] by (simp add: put_inode_def)
  have F: "fdata ?cs = fdata (mk_img s)"
    using by1 blocks_of_le by (intro ext nth_equalityI) (simp_all add: sz fdata_def order_less_le_trans)
  have "length ?cs = 1000" using bl(1) by (simp add: put_inode_def)
  then have "mk_ok ?t" using k L' by1 by (simp add: mk_ok_def sz mk_ready_def)
  moreover have "unat (?n + 1) = unat ?n + 1" using n by (simp add: unat_word_ariths)
  then have "inodes_ok ?t" using ok(2) by (auto simp: inodes_ok_def E)
  moreover have "mk_ready (s\<lparr>mk_freeinode := ?n + 1\<rparr>)" using k by (simp add: mk_ready_def)
  then have "mk_ialloc ty s = Ok ?n ?t"
    using winode_run [OF _ n, of "s\<lparr>mk_freeinode := ?n + 1\<rparr>" ?e] by (simp add: mk_ialloc_def M_defs zero_dinode_def)
  moreover have "?cs ! b = mk_img s ! b" if "b < 59" "b < 32 \<or> b = 58" for b
    using that IBLOCK_bounds [OF n] by (auto simp: put_inode_def)
  ultimately show ?thesis using F E by (intro exI [of _ ?t]) (simp add: made_def)
qed

section \<open>Adding the files\<close>

text \<open>
  The abstract image: the contents \<open>A\<close> of each inode and its type \<open>T\<close>. It fits when no file is too long and all their blocks
  can be had.
\<close>

definition img_blocks :: "(u32 \<Rightarrow> u8 list) \<Rightarrow> nat" where
  "img_blocks A = (\<Sum>i < 208. blocks_for (A (of_nat i)))"

definition img_fits :: "(u32 \<Rightarrow> u8 list) \<Rightarrow> bool" where
  "img_fits A \<longleftrightarrow> (\<forall>i < 208. length (A (of_nat i)) \<le> 71680) \<and> 59 + img_blocks A \<le> 1000"

definition shows_img :: "(u32 \<Rightarrow> u8 list) \<Rightarrow> (u32 \<Rightarrow> u16) \<Rightarrow> nat \<Rightarrow> u8 list \<Rightarrow> mkfs_st \<Rightarrow> bool" where
  "shows_img A T n sbb s \<longleftrightarrow>
     mk_ok s \<and> inodes_ok s \<and> unat (mk_freeinode s) = n \<and> fdata (mk_img s) = A \<and>
     (\<forall>m. di_type (disk_inode (mk_img s) m) = T m \<and> di_nlink (disk_inode (mk_img s) m) = (if T m = 0 then 0 else 1)) \<and>
     unat (mk_freeblock s) = 59 + img_blocks A \<and> mk_img s ! 1 = sbb"

lemma blocks_for_mono: "length xs \<le> length ys \<Longrightarrow> blocks_for xs \<le> blocks_for ys"
  by (intro nslots_mono blocks_of_mono)

lemma img_fits_mono:
  assumes "img_fits B" "\<And>i. length (A i) \<le> length (B i)"
  shows "img_fits A"
proof -
  have "img_blocks A \<le> img_blocks B" unfolding img_blocks_def by (intro sum_mono blocks_for_mono assms(2))
  moreover have "length (A i) \<le> 71680" if "length (B i) \<le> 71680" for i using assms(2) [of i] that by simp
  ultimately show ?thesis using assms(1) by (auto simp: img_fits_def)
qed

lemma of_nat_208: "i < 208 \<Longrightarrow> (of_nat i = (n :: u32)) = (i = unat n)"
  by (auto simp: unat_of_nat)

lemma img_blocks_upd:
  assumes "unat n < 208"
  shows "img_blocks (A(n := xs)) + blocks_for (A n) = img_blocks A + blocks_for xs"
proof -
  have n: "unat n \<in> {..<208}" using assms by simp
  have "(\<Sum>i \<in> {..<208} - {unat n}. blocks_for ((A(n := xs)) (of_nat i))) = (\<Sum>i \<in> {..<208} - {unat n}. blocks_for (A (of_nat i)))"
    by (rule sum.cong) (auto simp: of_nat_208)
  then show ?thesis
    unfolding img_blocks_def using sum.remove [OF _ n, of "\<lambda>i. blocks_for ((A(n := xs)) (of_nat i))"] sum.remove [OF _ n, of "\<lambda>i. blocks_for (A (of_nat i))"]
    by simp
qed

lemma shows_fits:
  assumes "shows_img A T n sbb s"
  shows "img_fits A"
proof -
  have "mk_ok s" and A: "fdata (mk_img s) = A" and fb: "unat (mk_freeblock s) = 59 + img_blocks A" using assms by (simp_all add: shows_img_def)
  then have "length (A m) \<le> 71680" for m unfolding A [symmetric] mk_ok_def by simp
  moreover have "unat (mk_freeblock s) \<le> 1000" using \<open>mk_ok s\<close> laid_outD(4) unfolding mk_ok_def by blast
  ultimately show ?thesis using fb by (simp add: img_fits_def)
qed

lemma fits_append:
  assumes "img_fits A" "unat m < 208"
  shows "img_fits (A(m := A m @ p)) \<longleftrightarrow> length (A m) + length p \<le> 71680 \<and> 59 + img_blocks A + blocks_for (A m @ p) \<le> 1000 + blocks_for (A m)"
proof -
  have "(\<forall>i < 208. length ((A(m := A m @ p)) (of_nat i)) \<le> 71680) \<longleftrightarrow> length (A m) + length p \<le> 71680"
    using assms by (auto simp: img_fits_def of_nat_208 dest: spec [of _ "unat m"])
  then show ?thesis using img_blocks_upd [OF assms(2), of A "A m @ p"] by (auto simp: img_fits_def simp del: length_append)
qed

lemma append_shows:
  assumes s: "shows_img A T n sbb s" and m: "unat m < n" "n \<le> 208"
  shows "if img_fits (A(m := A m @ p)) then \<exists>t. iappend m p s = Ok () t \<and> shows_img (A(m := A m @ p)) T n sbb t
    else \<exists>e. iappend m p s = Panic e"
proof -
  have ok: "mk_ok s" and A: "fdata (mk_img s) = A" and fb: "unat (mk_freeblock s) = 59 + img_blocks A" using s by (simp_all add: shows_img_def)
  have sz: "fsize (mk_img s) m = length (A m)" using length_fdata [of "mk_img s" m] by (simp add: A)
  have m208: "unat m < 208" using m by simp
  note f = fits_append [OF shows_fits [OF s] m208, of p] and i = iappend_ok [OF ok m208, of p, unfolded sz A fb]
  show ?thesis
  proof (cases "img_fits (A(m := A m @ p))")
    case True
    then obtain t where t: "iappend m p s = Ok () t" "img_grown s m p t" using i f by (auto simp: algebra_simps)
    note g = t(2) [unfolded img_grown_def sz A]
    obtain d where d: "disk_inode (mk_img t) = (disk_inode (mk_img s))(m := d)" "di_type d = di_type (disk_inode (mk_img s) m)"
        "di_nlink d = di_nlink (disk_inode (mk_img s) m)"
      using g by blast
    have fi: "mk_freeinode t = mk_freeinode s" using g by (cases s; cases t) (simp add: mk_ext_def)
    have "inodes_ok t" using s m(1) by (auto simp: inodes_ok_def fi d(1) shows_img_def)
    moreover have "unat (mk_freeblock t) = 59 + img_blocks (A(m := A m @ p))"
      using g fb img_blocks_upd [OF m208, of A "A m @ p"] by simp
    moreover have "mk_img t ! 1 = sbb" using g s by (simp add: shows_img_def)
    ultimately have "shows_img (A(m := A m @ p)) T n sbb t" using g s d by (simp add: shows_img_def fi)
    then show ?thesis using True t(1) by auto
  next
    case False
    then show ?thesis using i f by (auto simp: algebra_simps)
  qed
qed

lemma ialloc_shows:
  assumes s: "shows_img A T n sbb s" and n: "n < 208" and ty: "ty \<noteq> 0"
  shows "\<exists>t. mk_ialloc ty s = Ok (of_nat n) t \<and> shows_img A (T(of_nat n := ty)) (Suc n) sbb t \<and> A (of_nat n) = []"
proof -
  have k: "mk_ok s" "inodes_ok s" "unat (mk_freeinode s) = n" using s by (simp_all add: shows_img_def)
  then have e: "mk_freeinode s = of_nat n" by auto
  obtain t where t: "mk_ialloc ty s = Ok (of_nat n) t" "made s (of_nat n) ty t"
    using mk_ialloc_ok [OF k(1,2), of ty] k(3) n e by auto
  note g = t(2) [unfolded made_def]
  have f: "mk_freeinode t = of_nat n + 1" "mk_freeblock t = mk_freeblock s" using g e by (cases s; cases t; simp)+
  have "disk_inode (mk_img s) (of_nat n) = zero_dinode" using k e by (simp add: inodes_ok_def)
  then have "fsize (mk_img s) (of_nat n) = 0" by (simp add: fsize_def zero_dinode_def)
  then have "fdata (mk_img s) (of_nat n) = []" by (simp add: fdata_def)
  then have "A (of_nat n) = []" using s by (auto simp: shows_img_def)
  moreover have "unat (of_nat n + 1 :: u32) = Suc n" using n by (simp add: unat_word_ariths unat_of_nat)
  ultimately show ?thesis using t(1) g s f ty by (simp add: shows_img_def)
qed

text \<open>The files as they should be in the image: what \<open>read\<close> gives up to the end of the file, and an entry in the root directory.\<close>

definition file_data :: "hostfile \<Rightarrow> u8 list" where
  "file_data f = concat (takeWhile (\<lambda>b. b \<noteq> []) (the (snd f)))"

definition good_file :: "hostfile \<Rightarrow> bool" where
  "good_file f \<longleftrightarrow> slash \<notin> set (fst f) \<and> snd f \<noteq> None"

fun with_files :: "nat \<Rightarrow> hostfile list \<Rightarrow> (u32 \<Rightarrow> u8 list) \<Rightarrow> u32 \<Rightarrow> u8 list" where
  "with_files n [] A = A"
| "with_files n (f # fs) A =
     with_files (Suc n) fs
       ((A(ROOTINO := A ROOTINO @ file_entry (of_nat n) (skip_underscore (fst f))))(of_nat n := file_data f))"

lemma copy_shows:
  assumes "shows_img A T n sbb s" "unat m < n" "n \<le> 208"
  shows "if img_fits (A(m := A m @ concat (takeWhile (\<lambda>b. b \<noteq> []) bs)))
    then \<exists>t. copy_reads m bs s = Ok () t \<and> shows_img (A(m := A m @ concat (takeWhile (\<lambda>b. b \<noteq> []) bs))) T n sbb t
    else \<exists>e. copy_reads m bs s = Panic e"
  using assms
proof (induction bs arbitrary: A s)
  case Nil
  then show ?case using shows_fits by (auto simp: ret_def)
next
  case (Cons b bs)
  show ?case
  proof (cases "b = []")
    case True
    then show ?thesis using Cons.prems shows_fits by (auto simp: ret_def)
  next
    case False
    let ?xs = "concat (takeWhile (\<lambda>b. b \<noteq> []) bs)" and ?B = "A(m := A m @ b)"
    note a = append_shows [OF Cons.prems, of b]
    have e: "?B(m := ?B m @ ?xs) = A(m := A m @ concat (takeWhile (\<lambda>b. b \<noteq> []) (b # bs)))" using False by simp
    show ?thesis
    proof (cases "img_fits ?B")
      case True
      then obtain t where t: "iappend m b s = Ok () t" "shows_img ?B T n sbb t" using a by auto
      have run: "copy_reads m (b # bs) s = copy_reads m bs t" using t(1) False by (simp add: seqM_def bindM_def)
      show ?thesis unfolding run by (rule Cons.IH [OF t(2) Cons.prems(2,3), unfolded e])
    next
      case no: False
      then obtain x where "iappend m b s = Panic x" using a by auto
      then have "\<exists>x. copy_reads m (b # bs) s = Panic x" using False by (simp add: seqM_def bindM_def)
      moreover have "\<not> img_fits (A(m := A m @ concat (takeWhile (\<lambda>b. b \<noteq> []) (b # bs))))"
      proof
        assume "img_fits (A(m := A m @ concat (takeWhile (\<lambda>b. b \<noteq> []) (b # bs))))"
        then have "img_fits ?B" by (rule img_fits_mono) (simp add: False)
        then show False using no by simp
      qed
      ultimately show ?thesis by (simp only: if_False)
    qed
  qed
qed

lemma root_208: "unat (ROOTINO :: u32) = 1"
  by (simp add: ROOTINO_def)

definition with_file :: "nat \<Rightarrow> hostfile \<Rightarrow> (u32 \<Rightarrow> u8 list) \<Rightarrow> u32 \<Rightarrow> u8 list" where
  "with_file n f A = (A(ROOTINO := A ROOTINO @ file_entry (of_nat n) (skip_underscore (fst f))))(of_nat n := file_data f)"

lemma add_file_shows:
  assumes s: "shows_img A T n sbb s" and n: "2 \<le> n" "n < 208"
  shows "if good_file f \<and> img_fits (with_file n f A)
    then \<exists>t. add_file ROOTINO f s = Ok () t \<and> shows_img (with_file n f A) (T(of_nat n := T_FILE)) (Suc n) sbb t
    else \<exists>e. add_file ROOTINO f s = Panic e"
proof (cases "good_file f")
  case False
  then show ?thesis by (auto simp: good_file_def add_file_def panic_def)
next
  case True
  then obtain rs where rs: "snd f = Some rs" "slash \<notin> set (fst f)" by (auto simp: good_file_def)
  let ?m = "of_nat n :: u32" and ?T = "T(of_nat n := T_FILE)" and ?p = "file_entry (of_nat n) (skip_underscore (fst f))"
  let ?B = "A(ROOTINO := A ROOTINO @ ?p)"
  obtain t where t: "mk_ialloc T_FILE s = Ok ?m t" "shows_img A ?T (Suc n) sbb t" "A ?m = []"
    using ialloc_shows [OF s n(2), of T_FILE] by (auto simp: T_FILE_def)
  have run: "add_file ROOTINO f s = bindM (iappend ROOTINO ?p) (\<lambda>_. copy_reads ?m rs) t"
    using rs t(1) by (simp add: add_file_def seqM_def bindM_def [of "mk_ialloc _"])
  have um: "unat ?m = n" using n by (simp add: unat_of_nat)
  have ne: "?m \<noteq> ROOTINO"
  proof
    assume "?m = ROOTINO"
    then show False using um root_208 n by simp
  qed
  have w: "?B(?m := ?B ?m @ concat (takeWhile (\<lambda>b. b \<noteq> []) rs)) = with_file n f A"
    using ne t(3) rs by (simp add: with_file_def file_data_def)
  have a: "if img_fits ?B then \<exists>t'. iappend ROOTINO ?p t = Ok () t' \<and> shows_img ?B ?T (Suc n) sbb t' else \<exists>e. iappend ROOTINO ?p t = Panic e"
    by (rule append_shows [OF t(2)]) (use n root_208 in simp_all)
  show ?thesis
  proof (cases "img_fits ?B")
    case yes: True
    then obtain u where u: "iappend ROOTINO ?p t = Ok () u" "shows_img ?B ?T (Suc n) sbb u" using a by auto
    have "if img_fits (with_file n f A) then \<exists>v. copy_reads ?m rs u = Ok () v \<and> shows_img (with_file n f A) ?T (Suc n) sbb v
        else \<exists>e. copy_reads ?m rs u = Panic e"
      unfolding w [symmetric] by (rule copy_shows [OF u(2)]) (use n um in simp_all)
    then show ?thesis unfolding run using True u(1) by (simp add: bindM_def)
  next
    case False
    then have "\<exists>e. iappend ROOTINO ?p t = Panic e" using a by simp
    moreover have "\<not> img_fits (with_file n f A)"
    proof
      assume "img_fits (with_file n f A)"
      then have "img_fits ?B" by (rule img_fits_mono) (use t(3) ne in \<open>simp add: with_file_def\<close>)
      then show False using False by simp
    qed
    ultimately show ?thesis unfolding run by (auto simp: bindM_def)
  qed
qed

definition file_typed :: "nat \<Rightarrow> nat \<Rightarrow> (u32 \<Rightarrow> u16) \<Rightarrow> u32 \<Rightarrow> u16" where
  "file_typed n k T m = (if n \<le> unat m \<and> unat m < n + k then T_FILE else T m)"

lemma with_files_mono: "n + length fs \<le> 208 \<Longrightarrow> (\<And>i. n \<le> unat i \<Longrightarrow> A i = []) \<Longrightarrow> 2 \<le> n \<Longrightarrow> length (A i) \<le> length (with_files n fs A i)"
proof (induction fs arbitrary: n A)
  case Nil
  then show ?case by simp
next
  case (Cons f fs)
  let ?B = "with_file n f A"
  have u: "unat (of_nat n :: u32) = n" using Cons.prems(1) by (simp add: unat_of_nat)
  have B: "?B j = []" if "Suc n \<le> unat j" for j
    using Cons.prems(2) [of j] Cons.prems(3) that u root_208 by (auto simp: with_file_def)
  have "length (A i) \<le> length (?B i)" using Cons.prems(2) [of "of_nat n"] u by (simp add: with_file_def)
  also have "\<dots> \<le> length (with_files (Suc n) fs ?B i)" by (rule Cons.IH) (use Cons.prems B in simp_all)
  finally show ?case by (simp add: with_file_def)
qed

lemma shows_free: "shows_img A T n sbb s \<Longrightarrow> n \<le> unat m \<Longrightarrow> A m = []"
  by (auto simp: shows_img_def inodes_ok_def fdata_def fsize_def zero_dinode_def)

lemma add_files_shows:
  assumes "shows_img A T n sbb s" "2 \<le> n" "n + length fs \<le> 208"
  shows "if (\<forall>f \<in> set fs. good_file f) \<and> img_fits (with_files n fs A)
    then \<exists>t. add_files ROOTINO fs s = Ok () t \<and> shows_img (with_files n fs A) (file_typed n (length fs) T) (n + length fs) sbb t
    else \<exists>e. add_files ROOTINO fs s = Panic e"
  using assms
proof (induction fs arbitrary: n A T s)
  case Nil
  have "file_typed n 0 T = T" by (auto simp: fun_eq_iff file_typed_def)
  then show ?case using Nil shows_fits by (auto simp: ret_def)
next
  case (Cons f fs)
  let ?B = "with_file n f A" and ?T = "T(of_nat n := T_FILE)"
  have n: "n < 208" using Cons.prems(3) by simp
  have u: "unat (of_nat n :: u32) = n" using n by (simp add: unat_of_nat)
  have w: "with_files n (f # fs) A = with_files (Suc n) fs ?B" by (simp add: with_file_def)
  have T: "file_typed (Suc n) (length fs) ?T = file_typed n (length (f # fs)) T" 
  proof
    fix x :: u32
    have "x = of_nat n \<longleftrightarrow> unat x = n" using u by auto
    then show "file_typed (Suc n) (length fs) ?T x = file_typed n (length (f # fs)) T x" by (auto simp: file_typed_def)
  qed
  note a = add_file_shows [OF Cons.prems(1,2) n, of f]
  show ?case
  proof (cases "good_file f \<and> img_fits ?B")
    case True
    then obtain t where t: "add_file ROOTINO f s = Ok () t" "shows_img ?B ?T (Suc n) sbb t" using a by auto
    have run: "add_files ROOTINO (f # fs) s = add_files ROOTINO fs t" using t(1) by (simp add: seqM_def bindM_def)
    have len: "Suc n + length fs = n + length (f # fs)" by simp
    have g: "(\<forall>f \<in> set (f # fs). good_file f) = (\<forall>f \<in> set fs. good_file f)" using True by simp
    show ?thesis unfolding run w g by (rule Cons.IH [OF t(2), unfolded T len]) (use Cons.prems(2,3) in simp_all)
  next
    case False
    then obtain e where "add_file ROOTINO f s = Panic e" using a by auto
    then have "\<exists>e. add_files ROOTINO (f # fs) s = Panic e" by (simp add: seqM_def bindM_def)
    moreover have "\<not> ((\<forall>f \<in> set (f # fs). good_file f) \<and> img_fits (with_files n (f # fs) A))"
    proof
      assume h: "(\<forall>f \<in> set (f # fs). good_file f) \<and> img_fits (with_files n (f # fs) A)"
      have B: "?B j = []" if "Suc n \<le> unat j" for j
        using shows_free [OF Cons.prems(1), of j] Cons.prems(2) that u root_208 by (auto simp: with_file_def)
      have "img_fits ?B"
        by (rule img_fits_mono [OF h [THEN conjunct2, unfolded w]]) (rule with_files_mono, use Cons.prems B in simp_all)
      then show False using False h by simp
    qed
    ultimately show ?thesis by (simp only: if_False)
  qed
qed

section \<open>The whole image\<close>

lemma zero_sectors_run:
  "length (mk_img s) = i \<Longrightarrow> i + n \<le> 1000 \<Longrightarrow> i \<le> mk_room s \<Longrightarrow>
   if i + n \<le> mk_room s then zero_sectors n i s = Ok () (s\<lparr>mk_img := mk_img s @ replicate n (replicate 512 0)\<rparr>)
   else \<exists>e. zero_sectors n i s = Panic e"
proof (induction n arbitrary: i s)
  case 0
  then show ?case by (simp add: ret_def)
next
  case (Suc n)
  have k: "sector_at (of_nat i) = i" using Suc.prems(2) sector_at_small [of "of_nat i"] by (simp add: unat_of_nat)
  show ?case
  proof (cases "i < mk_room s")
    case True
    let ?t = "s\<lparr>mk_img := mk_img s @ [replicate 512 0]\<rparr>"
    have "wsect (of_nat i) (replicate BSIZE 0) s = Ok () ?t"
      using True Suc.prems(1) by (simp add: wsect_def M_defs k Let_def BSIZE_def)
    then have "zero_sectors (Suc n) i s = zero_sectors n (Suc i) ?t" by (simp add: seqM_def bindM_def)
    then show ?thesis using Suc.IH [of ?t "Suc i"] Suc.prems True by (simp add: replicate_app_Cons_same)
  next
    case False
    then have "wsect (of_nat i) (replicate BSIZE 0) s = Panic ''write''" by (simp add: wsect_def M_defs k)
    then show ?thesis using False by (simp add: seqM_def bindM_def)
  qed
qed

lemma get16_zeros: "off + 2 \<le> n \<Longrightarrow> get16 (replicate n 0) off = 0"
  by (simp add: get16_def chunk_def dec16_def numeral_eq_Suc)

lemma get_dinode_zeros: "off + 64 \<le> n \<Longrightarrow> get_dinode (replicate n 0) off = zero_dinode"
proof -
  assume o: "off + 64 \<le> n"
  then have "map (\<lambda>i. get32 (replicate n 0) (off + 12 + 4 * i)) [0..<13] = map (\<lambda>_. 0) [0..<13]"
    by (intro map_cong) (simp_all add: get32_zeros)
  then show ?thesis using o by (simp add: get_dinode_def zero_dinode_def get16_zeros get32_zeros get32s_def NDIRECT_def map_replicate_const)
qed

text \<open>The state before the root directory is made.\<close>

definition blank :: "nat \<Rightarrow> mkfs_st" where
  "blank room =
     (mkfs_start room)\<lparr>mk_sb := new_sb, mk_freeblock := of_nat nmeta,
       mk_img := (replicate 1000 (replicate 512 0))[1 := blit (replicate BSIZE 0) 0 (enc_sb new_sb)]\<rparr>"

lemma sb_block: "length (blit (replicate BSIZE 0) 0 (enc_sb new_sb)) = 512" "dec_sb (blit (replicate BSIZE 0) 0 (enc_sb new_sb)) = new_sb"
proof -
  have e: "length (enc_sb p) = 28" for p by (simp add: enc_sb_def)
  show "length (blit (replicate BSIZE 0) 0 (enc_sb new_sb)) = 512" by (simp add: e BSIZE_def)
  have "dec_sb (blit (replicate BSIZE 0) 0 (enc_sb p)) = p" for p
    by (simp add: dec_sb_def blit_def get32_def chunk_def enc_sb_def)
  then show "dec_sb (blit (replicate BSIZE 0) 0 (enc_sb new_sb)) = new_sb" .
qed

lemma blank_shows:
  assumes "1000 \<le> room"
  shows "shows_img (\<lambda>_. []) (\<lambda>_. 0) 1 (blit (replicate BSIZE 0) 0 (enc_sb new_sb)) (blank room)"
proof -
  define bs where "bs = (replicate 1000 (replicate 512 (0 :: u8)))[1 := blit (replicate BSIZE 0) 0 (enc_sb new_sb)]"
  have img: "mk_img (blank room) = bs" by (simp add: blank_def bs_def)
  have nth: "bs ! b = replicate 512 0" if "b < 1000" "b \<noteq> 1" for b using that by (simp add: bs_def)
  have one: "length bs = 1000" "bs ! 1 = blit (replicate BSIZE 0) 0 (enc_sb new_sb)" by (simp_all add: bs_def)
  have "disk_inode bs m = zero_dinode" for m
  proof (cases "unat m < 208")
    case True
    have "bs ! unat (IBLOCK m new_sb) = replicate 512 0" using IBLOCK_bounds [OF True] by (intro nth) simp_all
    then show ?thesis using True dip_off_bound [of m] by (simp add: disk_inode_def get_dinode_zeros BSIZE_def)
  qed (simp add: disk_inode_def)
  then have D: "disk_inode bs = (\<lambda>_. zero_dinode)" by (simp add: fun_eq_iff)
  have z: "fsize bs m = 0" for m by (simp add: fsize_def D zero_dinode_def)
  have slot: "di_slot bs zero_dinode p = 0" if "p < 141" for p using that by (simp add: di_slot_def zero_dinode_def)
  have fb: "mk_freeblock (blank room) = 59" by (simp add: blank_def nmeta_def nlog_def ninodeblocks_def nbitmap_def LOGSIZE_def NINODES_def IPB_def FSSIZE_def BSIZE_def)
  have S: "blocks_of 0 = 0" "nslots 0 = 0" by (simp_all add: nslots_def blocks_of_def)
  have len: "length (bs ! b) = 512" if "b < 1000" for b using that sb_block(1) nth [of b] one by (cases "b = 1") simp_all
  have "laid_out (\<lambda>_. zero_dinode) (\<lambda>_. 0) bs 59"
    unfolding laid_out_def using len slot nth one(1) by (simp add: zero_dinode_def)
  moreover have "mk_ready (blank room)" using assms one(1) img by (simp add: mk_ready_def) (simp add: blank_def mkfs_start_def)
  ultimately have "mk_ok (blank room)" by (simp add: mk_ok_def img D z S fb)
  moreover have "img_blocks (\<lambda>_. []) = 0" using S by (simp add: img_blocks_def)
  moreover have "fdata bs = (\<lambda>_. [])" by (simp add: fun_eq_iff fdata_def z)
  moreover have "mk_freeinode (blank room) = 1" by (simp add: blank_def mkfs_start_def)
  ultimately show ?thesis using one(2) by (simp add: shows_img_def inodes_ok_def img D fb zero_dinode_def)
qed

text \<open>The contents of the root directory, and when everything fits.\<close>

definition root_data :: "hostfile list \<Rightarrow> u8 list" where
  "root_data files =
     dot_entry ROOTINO [46] @ dot_entry ROOTINO [46, 46] @
     concat (map (\<lambda>(i, f). file_entry (of_nat i) (skip_underscore (fst f))) (enumerate 2 files))"

definition mkfs_fits :: "hostfile list \<Rightarrow> bool" where
  "mkfs_fits files \<longleftrightarrow>
     (\<forall>f \<in> set files. good_file f \<and> length (file_data f) \<le> 71680) \<and>
     59 + blocks_for (root_data files) + sum_list (map (\<lambda>f. blocks_for (file_data f)) files) \<le> 1000"

lemma unat_inum: "n \<le> 208 \<Longrightarrow> unat (of_nat n :: u32) = n"
  by (simp add: unat_of_nat)

lemma not_root:
  assumes "2 \<le> n" "n \<le> 208"
  shows "ROOTINO \<noteq> of_nat n"
proof
  assume "ROOTINO = of_nat n"
  then show False using unat_inum [OF assms(2)] root_208 assms(1) by simp
qed

lemma with_files_apply:
  assumes "2 \<le> n" "n + length fs \<le> 208"
  shows "with_files n fs A m =
    (if m = ROOTINO then A m @ concat (map (\<lambda>(i, f). file_entry (of_nat i) (skip_underscore (fst f))) (enumerate n fs))
     else if n \<le> unat m \<and> unat m < n + length fs then file_data (fs ! (unat m - n)) else A m)"
  using assms
proof (induction fs arbitrary: n A)
  case Nil
  then show ?case by auto
next
  case (Cons f fs)
  let ?m = "of_nat n :: u32"
  have u: "unat ?m = n" using Cons.prems by (simp add: unat_of_nat)
  have m: "m = ?m \<longleftrightarrow> unat m = n" using u by auto
  have ne: "ROOTINO \<noteq> ?m" using Cons.prems by (intro not_root) simp_all
  have r: "m = ROOTINO \<Longrightarrow> unat m = 1" using root_208 by simp
  define B where "B = (A(ROOTINO := A ROOTINO @ file_entry ?m (skip_underscore (fst f))))(?m := file_data f)"
  have B: "B ROOTINO = A ROOTINO @ file_entry ?m (skip_underscore (fst f))" "B ?m = file_data f" "m \<noteq> ROOTINO \<Longrightarrow> m \<noteq> ?m \<Longrightarrow> B m = A m"
    using ne by (simp_all add: B_def)
  have w: "with_files n (f # fs) A = with_files (Suc n) fs B" by (simp add: B_def)
  note ih = Cons.IH [of "Suc n" B]
  show ?case
  proof (cases "m = ROOTINO")
    case True
    then show ?thesis unfolding w using ih Cons.prems B(1) by simp
  next
    case False
    show ?thesis
    proof (cases "unat m = n")
      case True
      then show ?thesis unfolding w using ih Cons.prems False m B(2) by simp
    next
      case no: False
      have "n \<le> unat m \<Longrightarrow> (f # fs) ! (unat m - n) = fs ! (unat m - Suc n)"
        using no by (simp add: nth_Cons split: nat.split) (metis Suc_diff_Suc Suc_inject diff_is_0_eq le_antisym le_neq_implies_less nat.distinct(1))
      then show ?thesis unfolding w using ih Cons.prems False no m B(3) by auto
    qed
  qed
qed

lemma img_blocks_with_files:
  assumes "2 \<le> n" "n + length fs \<le> 208" "\<And>m. n \<le> unat m \<Longrightarrow> A m = []"
  shows "img_blocks (with_files n fs A) + blocks_for (A ROOTINO) =
    img_blocks A + blocks_for (with_files n fs A ROOTINO) + sum_list (map (\<lambda>f. blocks_for (file_data f)) fs)"
  using assms
proof (induction fs arbitrary: n A)
  case Nil
  then show ?case by simp
next
  case (Cons f fs)
  let ?m = "of_nat n :: u32" and ?B = "A(ROOTINO := A ROOTINO @ file_entry (of_nat n) (skip_underscore (fst f)))"
  have u: "unat ?m = n" using Cons.prems by (simp add: unat_of_nat)
  have ne: "ROOTINO \<noteq> ?m" using Cons.prems by (intro not_root) simp_all
  have e: "?B ?m = []" using Cons.prems(3) [of ?m] u ne by simp
  have z: "blocks_for [] = 0" by (simp add: nslots_def blocks_of_def)
  have E: "(?B(?m := file_data f)) m = []" if "Suc n \<le> unat m" for m
    using that Cons.prems(3) [of m] Cons.prems(1) u root_208 by auto
  have 1: "img_blocks ?B + blocks_for (A ROOTINO) = img_blocks A + blocks_for (?B ROOTINO)"
    using img_blocks_upd [of ROOTINO A] root_208 by simp
  have 2: "img_blocks (?B(?m := file_data f)) = img_blocks ?B + blocks_for (file_data f)"
    using img_blocks_upd [of ?m ?B "file_data f"] u Cons.prems(2) e z by simp
  have "img_blocks (with_files (Suc n) fs (?B(?m := file_data f))) + blocks_for ((?B(?m := file_data f)) ROOTINO) =
      img_blocks (?B(?m := file_data f)) + blocks_for (with_files (Suc n) fs (?B(?m := file_data f)) ROOTINO) + sum_list (map (\<lambda>f. blocks_for (file_data f)) fs)"
    by (rule Cons.IH) (use Cons.prems E in simp_all)
  moreover have "(?B(?m := file_data f)) ROOTINO = ?B ROOTINO" using ne by simp
  ultimately show ?case using 1 2 by (simp only: with_files.simps list.simps sum_list.Cons)
qed

lemma length_entries: "length (dot_entry n [46]) = 16" "length (dot_entry n [46, 46]) = 16" "length (file_entry n nm) = 16"
  by (simp_all add: dot_entry_def file_entry_def name_field_def DIRSIZ_def blit_def)

lemma length_root_data: "length (root_data files) = 16 * (length files + 2)"
proof -
  have "length (concat (map (\<lambda>(i, f). file_entry (of_nat i) (skip_underscore (fst f))) (enumerate n files))) = 16 * length files" for n
    by (induction files arbitrary: n) (simp_all add: length_entries)
  then show ?thesis by (simp add: root_data_def length_entries)
qed

definition dots :: "u32 \<Rightarrow> u8 list" where
  "dots = (\<lambda>_. [])(ROOTINO := dot_entry ROOTINO [46] @ dot_entry ROOTINO [46, 46])"

lemma dots_fit: "img_blocks dots = 1" "blocks_for (dots ROOTINO) = 1"
proof -
  have z: "blocks_for [] = 0" by (simp add: nslots_def blocks_of_def)
  show o: "blocks_for (dots ROOTINO) = 1" by (simp add: dots_def length_entries nslots_def blocks_of_def)
  show "img_blocks dots = 1"
    using img_blocks_upd [of ROOTINO "\<lambda>_. []" "dots ROOTINO"] root_208 z o by (simp add: dots_def img_blocks_def)
qed

lemma with_files_fits:
  assumes "length files \<le> 206"
  shows "(\<forall>f \<in> set files. good_file f) \<and> img_fits (with_files 2 files dots) \<longleftrightarrow> mkfs_fits files"
    "with_files 2 files dots ROOTINO = root_data files"
proof -
  let ?A = "with_files 2 files dots"
  note a = with_files_apply [of 2 files dots]
  show r: "?A ROOTINO = root_data files" using a [of ROOTINO] assms by (simp add: dots_def root_data_def)
  have d: "dots m = []" if "2 \<le> unat m" for m using that root_208 by (auto simp: dots_def)
  have b: "img_blocks ?A = blocks_for (root_data files) + sum_list (map (\<lambda>f. blocks_for (file_data f)) files)"
    using img_blocks_with_files [of 2 files dots, OF _ _ d] assms dots_fit r by simp
  have "(\<forall>i < 208. length (?A (of_nat i)) \<le> 71680) \<longleftrightarrow> (\<forall>f \<in> set files. length (file_data f) \<le> 71680)"
  proof (intro iffI ballI allI impI)
    fix f assume h: "\<forall>i < 208. length (?A (of_nat i)) \<le> 71680" and "f \<in> set files"
    then obtain i where i: "i < length files" "f = files ! i" by (metis in_set_conv_nth)
    have u: "unat (of_nat (i + 2) :: u32) = i + 2" "(of_nat (i + 2) :: u32) \<noteq> ROOTINO" "i + 2 < 208"
      using i assms unat_inum [of "i + 2"] not_root [of "i + 2"] by (simp_all del: of_nat_add)
    have "?A (of_nat (i + 2)) = file_data f" using a [of "of_nat (i + 2)"] i assms u by (simp del: of_nat_add)
    moreover have "length (?A (of_nat (i + 2))) \<le> 71680" using h u(3) by blast
    ultimately show "length (file_data f) \<le> 71680" by (simp del: of_nat_add)
  next
    fix i :: nat assume h: "\<forall>f \<in> set files. length (file_data f) \<le> 71680" and "i < 208"
    show "length (?A (of_nat i)) \<le> 71680"
      using a [of "of_nat i"] h assms length_root_data [of files] r by (auto simp: dots_def)
  qed
  then show "(\<forall>f \<in> set files. good_file f) \<and> img_fits ?A \<longleftrightarrow> mkfs_fits files"
    unfolding img_fits_def mkfs_fits_def b by auto
qed

lemma mark_bits_ok: "u \<le> 4096 \<Longrightarrow> length (mark_bits u) = 512 \<and> (\<forall>b < 4096. bit_free (mark_bits u) b \<longleftrightarrow> u \<le> b)"
proof (induction u)
  case 0
  have "bit_free (replicate 512 0) b" if "b < 4096" for b using that by (simp add: bit_free_iff)
  then show ?case by (simp add: mark_bits_def BSIZE_def)
next
  case (Suc u)
  let ?d = "mark_bits u"
  have d: "mark_bits (Suc u) = ?d[u div 8 := ?d ! (u div 8) OR bit_mask u]" by (simp add: mark_bits_def)
  have "u < 8 * length ?d" using Suc by simp
  then have "bit_free (mark_bits (Suc u)) b \<longleftrightarrow> bit_free ?d b \<and> b \<noteq> u" for b unfolding d by (rule bit_free_set)
  moreover have "length (mark_bits (Suc u)) = 512" unfolding d using Suc by simp
  ultimately show ?case using Suc by (auto simp: Suc_le_eq)
qed

text \<open>
  What an image has to hold: the super block; the root directory with its entries, its size rounded up; every file; no other inode;
  no block in two files, or twice in one; and a bitmap in which the blocks of files and of metadata are marked, and no others.
\<close>

definition in_use :: "u8 list list \<Rightarrow> nat \<Rightarrow> bool" where
  "in_use bs b \<longleftrightarrow> b < 59 \<or> (\<exists>n. \<exists>p < 141. di_slot bs (disk_inode bs n) p \<noteq> 0 \<and> unat (di_slot bs (disk_inode bs n) p) = b)"

definition image_holds :: "hostfile list \<Rightarrow> u8 list list \<Rightarrow> bool" where
  "image_holds files bs \<longleftrightarrow>
     length bs = 1000 \<and> dec_sb (bs ! 1) = new_sb \<and>
     (\<forall>n. di_type (disk_inode bs n) = (if n = ROOTINO then T_DIR else if 2 \<le> unat n \<and> unat n < length files + 2 then T_FILE else 0)) \<and>
     (\<forall>n. di_nlink (disk_inode bs n) = (if di_type (disk_inode bs n) = 0 then 0 else 1)) \<and>
     fsize bs ROOTINO = (length (root_data files) div 512 + 1) * 512 \<and>
     take (length (root_data files)) (fdata bs ROOTINO) = root_data files \<and>
     (\<forall>i < length files. fdata bs (of_nat (i + 2)) = file_data (files ! i) \<and>
        (\<forall>k < blocks_of (length (file_data (files ! i))). di_slot bs (disk_inode bs (of_nat (i + 2))) (blk_slot k) \<noteq> 0)) \<and>
     (\<forall>n m p q. p < 141 \<longrightarrow> q < 141 \<longrightarrow> di_slot bs (disk_inode bs n) p \<noteq> 0 \<longrightarrow>
        di_slot bs (disk_inode bs n) p = di_slot bs (disk_inode bs m) q \<longrightarrow> n = m \<and> p = q) \<and>
     (\<forall>b < 4096. bit_free (bs ! 58) b \<longleftrightarrow> \<not> in_use bs b)"

text \<open>The last two steps: the size of the root directory and the bitmap.\<close>

definition finished :: "u32 \<Rightarrow> mkfs_st \<Rightarrow> u8 list list" where
  "finished w s = (put_inode ROOTINO ((disk_inode (mk_img s) ROOTINO)\<lparr>di_size := w\<rparr>) (mk_img s))[58 := mark_bits (unat (mk_freeblock s))]"

lemma finish_run:
  assumes s: "shows_img A T n sbb s" and w: "w = (di_size (disk_inode (mk_img s) ROOTINO) div 512 + 1) * 512"
  shows "seqM (fix_root_size ROOTINO) (bindM (getS mk_freeblock) mk_balloc) s = Ok () (s\<lparr>mk_img := finished w s\<rparr>)"
proof -
  have ok: "mk_ok s" and r: "mk_ready s" using s by (simp_all add: shows_img_def mk_ok_def)
  have fb: "unat (mk_freeblock s) \<le> 1000" using ok laid_outD(4) unfolding mk_ok_def by blast
  then have "sint (mk_freeblock s) = int (unat (mk_freeblock s))" by (intro sint_small) simp
  then have si: "sint (mk_freeblock s) < int (BSIZE * 8)" "nat (sint (mk_freeblock s)) = unat (mk_freeblock s)"
    using fb by (simp_all add: BSIZE_def del: of_nat_unat)
  let ?cs = "put_inode ROOTINO ((disk_inode (mk_img s) ROOTINO)\<lparr>di_size := w\<rparr>) (mk_img s)"
  have 1: "fix_root_size ROOTINO s = Ok () (s\<lparr>mk_img := ?cs\<rparr>)"
    using rinode_run [OF r, of ROOTINO] winode_run [OF r, of ROOTINO] root_208 w by (simp add: fix_root_size_def bindM_def Let_def)
  have r2: "mk_ready (s\<lparr>mk_img := ?cs\<rparr>)" using r by (simp add: mk_ready_def put_inode_def)
  have "wsect 58 b (s\<lparr>mk_img := ?cs\<rparr>) = Ok () (s\<lparr>mk_img := ?cs[58 := b]\<rparr>)" for b
    using wsect_run [OF r2, of 58 b] by simp
  then have "mk_balloc (mk_freeblock s) (s\<lparr>mk_img := ?cs\<rparr>) = Ok () (s\<lparr>mk_img := finished w s\<rparr>)"
    using r si by (simp add: mk_balloc_def bindM_def getS_def mk_ready_def new_sb_start finished_def)
  then show ?thesis using 1 by (simp add: seqM_def bindM_def getS_def)
qed

lemma finished_layout:
  fixes w :: u32
  assumes s: "shows_img A T n sbb s"
  defines "bs \<equiv> mk_img s" and "cs \<equiv> finished w s"
  shows "disk_inode cs = (disk_inode bs)(ROOTINO := (disk_inode bs ROOTINO)\<lparr>di_size := w\<rparr>)" (is ?D)
    "laid_out (disk_inode cs) (\<lambda>n. blocks_for (A n)) cs (mk_freeblock s)" (is ?L)
    "j < 512 * blocks_of (length (A m)) \<Longrightarrow> fbyte cs (disk_inode cs m) j = fbyte bs (disk_inode bs m) j"
    "cs ! 1 = bs ! 1" "\<forall>b < 4096. bit_free (cs ! 58) b \<longleftrightarrow> unat (mk_freeblock s) \<le> b"
proof -
  have ok: "mk_ok s" and A: "fdata (mk_img s) = A" using s by (simp_all add: shows_img_def)
  have sz: "fsize bs m = length (A m)" for m using length_fdata [of bs m] A by (simp add: bs_def)
  have L: "laid_out (disk_inode bs) (\<lambda>n. blocks_for (A n)) bs (mk_freeblock s)" using ok unfolding mk_ok_def bs_def [symmetric] sz by blast
  have bl: "length bs = 1000" "\<And>b. b < 1000 \<Longrightarrow> length (bs ! b) = 512" using laid_outD(1,2) [OF L] by blast+
  let ?d = "(disk_inode bs ROOTINO)\<lparr>di_size := w\<rparr>" and ?k = "unat (IBLOCK ROOTINO new_sb)"
  have r: "unat ROOTINO < 208" using root_208 by simp
  have k: "?k < 59" "?k < 1000" "?k \<noteq> 58" "?k \<noteq> 1" using IBLOCK_bounds [OF r] by simp_all
  have da: "length (di_addrs ?d) = 13" using laid_outD(5) [OF L, of ROOTINO] by simp
  have x: "length (put_dinode (bs ! ?k) (dip_off ROOTINO) ?d) = 512"
    using bl(2) [OF k(2)] dip_off_bound [of ROOTINO] da by (simp add: BSIZE_def)
  have mb: "length (mark_bits (unat (mk_freeblock s))) = 512" "\<forall>b < 4096. bit_free (mark_bits (unat (mk_freeblock s))) b \<longleftrightarrow> unat (mk_freeblock s) \<le> b"
    using mark_bits_ok [of "unat (mk_freeblock s)"] laid_outD(4) [OF L] by simp_all
  have cs: "cs = (put_inode ROOTINO ?d bs)[58 := mark_bits (unat (mk_freeblock s))]" by (simp add: cs_def finished_def bs_def)
  have "disk_inode cs m = disk_inode (put_inode ROOTINO ?d bs) m" for m
    using IBLOCK_bounds(1) [of m] by (cases "unat m < 208") (simp_all add: disk_inode_def cs)
  then show D: ?D using disk_inode_put [OF bl r da] by (simp add: fun_eq_iff)
  have ad: "di_addrs (disk_inode cs m) = di_addrs (disk_inode bs m)" for m by (simp add: D)
  have L1: "laid_out (disk_inode bs) (\<lambda>n. blocks_for (A n)) (put_inode ROOTINO ?d bs) (mk_freeblock s)"
    using laid_out_meta [OF L k(1) x] by (simp add: put_inode_def)
  have "laid_out (disk_inode bs) (\<lambda>n. blocks_for (A n)) cs (mk_freeblock s)"
    unfolding cs by (rule laid_out_meta [OF L1 _ mb(1)]) simp
  then show ?L by (rule laid_out_addrs [OF _ ad])
  show "fbyte cs (disk_inode cs m) j = fbyte bs (disk_inode bs m) j" if "j < 512 * blocks_of (length (A m))"
  proof -
    have "fbyte cs (disk_inode cs m) j = fbyte cs (disk_inode bs m) j" by (rule fbyte_addrs [OF ad])
    also have "\<dots> = fbyte (put_inode ROOTINO ?d bs) (disk_inode bs m) j"
      unfolding cs by (rule fbyte_meta [OF L1 _ slot_in_blocks [OF that]]) simp
    also have "\<dots> = fbyte bs (disk_inode bs m) j"
      unfolding put_inode_def by (rule fbyte_meta [OF L k(1) slot_in_blocks [OF that]])
    finally show ?thesis .
  qed
  show "cs ! 1 = bs ! 1" using k(4) by (simp add: cs put_inode_def)
  show "\<forall>b < 4096. bit_free (cs ! 58) b \<longleftrightarrow> unat (mk_freeblock s) \<le> b" using mb(2) bl(1) by (simp add: cs put_inode_def)
qed

lemma finished_holds:
  assumes s: "shows_img (with_files 2 files dots) (file_typed 2 (length files) ((\<lambda>_. 0)(ROOTINO := T_DIR))) (2 + length files)
      (blit (replicate BSIZE 0) 0 (enc_sb new_sb)) s"
    and n: "length files \<le> 206" and w: "w = (di_size (disk_inode (mk_img s) ROOTINO) div 512 + 1) * 512"
  shows "image_holds files (finished w s)"
proof -
  let ?A = "with_files 2 files dots" and ?T = "file_typed 2 (length files) ((\<lambda>_. 0)(ROOTINO := T_DIR))"
  let ?bs = "mk_img s" and ?cs = "finished w s"
  note L = finished_layout(2) [OF s, of w]
  note D = finished_layout(1) [OF s, of w] and k = s [unfolded shows_img_def]
  have root: "?A ROOTINO = root_data files" by (rule with_files_fits(2) [OF n])
  have len: "length (root_data files) \<le> 3328" using n by (simp add: length_root_data)
  have fs: "fsize ?bs m = length (?A m)" for m using length_fdata [of ?bs m] k by simp
  have "unat (di_size (disk_inode ?bs ROOTINO)) = length (root_data files)" using fs [of ROOTINO] root by (simp add: fsize_def)
  then have uw: "unat w = (length (root_data files) div 512 + 1) * 512" using len unfolding w by (simp add: unat_word_ariths unat_div)
  have sz: "fsize ?cs m = (if m = ROOTINO then unat w else length (?A m))" for m using fs [of m] D by (simp add: fsize_def)
  have bys: "fbyte ?cs (disk_inode ?cs m) j = ?A m ! j" if "j < length (?A m)" for m j
  proof -
    have "j < 512 * blocks_of (length (?A m))" using that blocks_of_le [of "length (?A m)"] by simp
    then have "fbyte ?cs (disk_inode ?cs m) j = fbyte ?bs (disk_inode ?bs m) j" by (rule finished_layout(3) [OF s])
    also have "\<dots> = fdata ?bs m ! j" using that fs by (simp add: fdata_def)
    finally show ?thesis using k by simp
  qed
  have ge: "length (root_data files) \<le> unat w" 
    using uw dividend_less_div_times [of 512 "length (root_data files)"] by simp
  have rd: "take (length (root_data files)) (fdata ?cs ROOTINO) = root_data files"
    using bys [of _ ROOTINO] ge root by (intro nth_equalityI) (simp_all add: sz fdata_def)
  have fd: "fdata ?cs (of_nat (i + 2)) = file_data (files ! i)"
    "k < blocks_of (length (file_data (files ! i))) \<Longrightarrow> di_slot ?cs (disk_inode ?cs (of_nat (i + 2))) (blk_slot k) \<noteq> 0" if i: "i < length files" for i k
  proof -
    let ?m = "of_nat (i + 2) :: u32"
    have m: "unat ?m = i + 2" "?m \<noteq> ROOTINO" using i n unat_inum [of "i + 2"] not_root [of "i + 2"] by (simp_all del: of_nat_add)
    then have a: "?A ?m = file_data (files ! i)" using with_files_apply [of 2 files dots ?m] i n by (simp del: of_nat_add)
    have "fdata ?cs ?m = ?A ?m" using bys [of _ ?m] m(2) by (intro nth_equalityI) (simp_all add: sz fdata_def del: of_nat_add)
    then show "fdata ?cs ?m = file_data (files ! i)" using a by simp
    assume "k < blocks_of (length (file_data (files ! i)))"
    then have "blk_slot k < blocks_for (?A ?m)" unfolding a by (rule blk_slot_less)
    then show "di_slot ?cs (disk_inode ?cs ?m) (blk_slot k) \<noteq> 0"
      using laid_outD(6) [OF L, of ?m] laid_outD(7) [OF L, of "blk_slot k" ?m] by simp
  qed
  have ty: "di_type (disk_inode ?cs m) = ?T m" "di_nlink (disk_inode ?cs m) = (if ?T m = 0 then 0 else 1)" for m
    using k D by simp_all
  have T: "?T m = (if m = ROOTINO then T_DIR else if 2 \<le> unat m \<and> unat m < length files + 2 then T_FILE else 0)" for m
    using root_208 by (auto simp: file_typed_def)
  have inj: "m = m' \<and> p = q" if "p < 141" "q < 141" "di_slot ?cs (disk_inode ?cs m) p \<noteq> 0"
      "di_slot ?cs (disk_inode ?cs m) p = di_slot ?cs (disk_inode ?cs m') q" for m m' p q
    using that laid_outD(7) [OF L that(1), of m] laid_outD(7) [OF L that(2), of m'] by (intro laid_outD(10) [OF L]) simp_all
  have bits: "bit_free (?cs ! 58) b \<longleftrightarrow> \<not> in_use ?cs b" if "b < 4096" for b
  proof -
    have "in_use ?cs b \<longleftrightarrow> b < unat (mk_freeblock s)"
    proof
      assume "in_use ?cs b"
      then show "b < unat (mk_freeblock s)"
        unfolding in_use_def using laid_outD(3,7,9) [OF L] by fastforce
    next
      assume b: "b < unat (mk_freeblock s)"
      show "in_use ?cs b"
      proof (cases "b < 59")
        case False
        then obtain m p where "p < blocks_for (?A m)" "unat (di_slot ?cs (disk_inode ?cs m) p) = b" using laid_outD(11) [OF L _ b] by auto
        moreover from this(1) have "p < 141" using laid_outD(6) [OF L, of m] by simp
        ultimately show ?thesis using laid_outD(7) [OF L, of p m] unfolding in_use_def by blast
      qed (simp add: in_use_def)
    qed
    then show ?thesis using finished_layout(5) [OF s, of w] that by auto
  qed
  have sbd: "dec_sb (?cs ! 1) = new_sb" using finished_layout(4) [OF s, of w] k sb_block(2) by simp
  show ?thesis
    unfolding image_holds_def
  proof (intro conjI allI impI)
    show "length ?cs = 1000" "dec_sb (?cs ! 1) = new_sb" using laid_outD(1) [OF L] sbd .
    show "fsize ?cs ROOTINO = (length (root_data files) div 512 + 1) * 512" using uw by (simp add: sz)
    show "take (length (root_data files)) (fdata ?cs ROOTINO) = root_data files" by (rule rd)
    show "fdata ?cs (of_nat (i + 2)) = file_data (files ! i)" if "i < length files" for i by (rule fd(1) [OF that])
    show "di_slot ?cs (disk_inode ?cs (of_nat (i + 2))) (blk_slot k) \<noteq> 0"
      if "i < length files" "k < blocks_of (length (file_data (files ! i)))" for i k by (rule fd(2) [OF that])
    show "bit_free (?cs ! 58) b \<longleftrightarrow> \<not> in_use ?cs b" if "b < 4096" for b by (rule bits [OF that])
    show "di_nlink (disk_inode ?cs m) = (if di_type (disk_inode ?cs m) = 0 then 0 else 1)" for m unfolding ty ..
    show "di_type (disk_inode ?cs m) = (if m = ROOTINO then T_DIR else if 2 \<le> unat m \<and> unat m < length files + 2 then T_FILE else 0)" for m
      unfolding ty T ..
    fix m m' p q
    assume "p < 141" "q < 141" "di_slot ?cs (disk_inode ?cs m) p \<noteq> 0" "di_slot ?cs (disk_inode ?cs m) p = di_slot ?cs (disk_inode ?cs m') q"
    then show "m = m'" "p = q" using inj by blast+
  qed
qed

lemma dots_shows:
  assumes "1000 \<le> room"
  shows "\<exists>s. bindM (mk_ialloc T_DIR) (\<lambda>r. if r \<noteq> ROOTINO then panic e else
      seqM (iappend r (dot_entry r [46])) (seqM (iappend r (dot_entry r [46, 46])) (m r))) (blank room) = m ROOTINO s \<and>
    shows_img dots ((\<lambda>_. 0)(ROOTINO := T_DIR)) 2 (blit (replicate BSIZE 0) 0 (enc_sb new_sb)) s"
proof -
  let ?sb = "blit (replicate BSIZE 0) 0 (enc_sb new_sb)" and ?T = "(\<lambda>_. 0)(ROOTINO := T_DIR)"
  let ?A = "(\<lambda>_. [])(ROOTINO := dot_entry ROOTINO [46])"
  have r: "of_nat 1 = ROOTINO" by (simp add: ROOTINO_def)
  obtain s where s: "mk_ialloc T_DIR (blank room) = Ok ROOTINO s" "shows_img (\<lambda>_. []) ?T 2 ?sb s"
    using ialloc_shows [OF blank_shows [OF assms], of T_DIR] r by (auto simp: T_DIR_def numeral_2_eq_2)
  have fit: "img_fits ?A" "img_fits dots"
  proof -
    show d: "img_fits dots" using dots_fit by (auto simp: img_fits_def dots_def length_entries)
    show "img_fits ?A" by (rule img_fits_mono [OF d]) (simp add: dots_def)
  qed
  obtain t where t: "iappend ROOTINO (dot_entry ROOTINO [46]) s = Ok () t" "shows_img ?A ?T 2 ?sb t"
    using append_shows [OF s(2), of ROOTINO "dot_entry ROOTINO [46]"] fit(1) root_208 by auto
  have e: "?A(ROOTINO := ?A ROOTINO @ dot_entry ROOTINO [46, 46]) = dots" by (simp add: dots_def)
  obtain u where u: "iappend ROOTINO (dot_entry ROOTINO [46, 46]) t = Ok () u" "shows_img dots ?T 2 ?sb u"
    using append_shows [OF t(2), of ROOTINO "dot_entry ROOTINO [46, 46]"] fit(2) root_208 unfolding e by auto
  show ?thesis using s(1) t(1) u by (intro exI [of _ u]) (simp add: bindM_def seqM_def)
qed

text \<open>
  C5: The image builder. For at most 206 files (as many as there are inodes left), \<open>mkfs\<close> succeeds exactly when the image can be opened and the host's disk has room
  for it, every file can be opened and has no slash in its name, no file is longer than 140 blocks and all blocks, with those of the root
  directory and the indirect blocks, fit behind the metadata; in every other case it exits with an error. When it succeeds, the image is one the kernel
  can use: its super block describes the layout, the root directory lists the files, every file has its contents, no block belongs to two
  files and the bitmap marks exactly the blocks in use.
\<close>

theorem mkfs_builds:
  assumes "length files \<le> 206"
  shows "if snd img \<noteq> None \<and> 1000 \<le> room \<and> mkfs_fits files
    then \<exists>t. mkfs_main (img # files) (mkfs_start room) = Ok () t \<and> image_holds files (mk_img t)
    else \<exists>e. mkfs_main (img # files) (mkfs_start room) = Panic e"
proof (cases "snd img \<noteq> None \<and> 1000 \<le> room")
  case False
  let ?s = "(mkfs_start room)\<lparr>mk_sb := new_sb, mk_freeblock := of_nat nmeta\<rparr>"
  have "\<exists>e. zero_sectors 1000 0 ?s = Panic e" if "\<not> 1000 \<le> room"
    using zero_sectors_run [of ?s 0 1000] that by (simp add: mkfs_start_def)
  then have "\<exists>e. mkfs_main (img # files) (mkfs_start room) = Panic e"
    using False by (auto simp: mkfs_main_def M_defs FSSIZE_def)
  then show ?thesis using False by auto
next
  case True
  define m where "m = (\<lambda>r. seqM (add_files r files) (seqM (fix_root_size r) (bindM (getS mk_freeblock) mk_balloc)))"
  let ?s = "(mkfs_start room)\<lparr>mk_sb := new_sb, mk_freeblock := of_nat nmeta\<rparr>"
  let ?z = "?s\<lparr>mk_img := replicate 1000 (replicate 512 0)\<rparr>"
  have z: "zero_sectors 1000 0 ?s = Ok () ?z" using zero_sectors_run [of ?s 0 1000] True by (simp add: mkfs_start_def)
  have "mk_ready ?z" using True by (simp add: mk_ready_def mkfs_start_def)
  then have w: "wsect 1 b ?z = Ok () (?z\<lparr>mk_img := (mk_img ?z)[1 := b]\<rparr>)" for b using wsect_run [of ?z 1 b] by simp
  have sbw: "bindM (getS mk_sb) (\<lambda>p. wsect 1 (blit (replicate BSIZE 0) 0 (enc_sb p))) ?z = Ok () (blank room)"
    using w by (simp add: bindM_def getS_def blank_def)
  define k where "k = bindM (mk_ialloc T_DIR) (\<lambda>r. if r \<noteq> ROOTINO then panic ''assert: rootino == ROOTINO'' else
        seqM (iappend r (dot_entry r [46])) (seqM (iappend r (dot_entry r [46, 46])) (m r)))"
  obtain c where c: "snd img = Some c" using True by auto
  have "mkfs_main (img # files) (mkfs_start room) =
      seqM (zero_sectors 1000 0) (seqM (bindM (getS mk_sb) (\<lambda>p. wsect 1 (blit (replicate BSIZE 0) 0 (enc_sb p)))) k) ?s"
    unfolding mkfs_main_def k_def m_def by (simp add: c seqM_modS FSSIZE_def)
  also have "\<dots> = seqM (bindM (getS mk_sb) (\<lambda>p. wsect 1 (blit (replicate BSIZE 0) 0 (enc_sb p)))) k ?z" by (rule seqM_run [of "zero_sectors 1000 0", OF z])
  also have "\<dots> = k (blank room)" using sbw by (simp add: seqM_def bindM_def)
  finally have run: "mkfs_main (img # files) (mkfs_start room) = k (blank room)" .
  obtain s where s: "mkfs_main (img # files) (mkfs_start room) = m ROOTINO s"
      "shows_img dots ((\<lambda>_. 0)(ROOTINO := T_DIR)) 2 (blit (replicate BSIZE 0) 0 (enc_sb new_sb)) s"
    using dots_shows [of room _ m] True unfolding run k_def by blast
  note a = add_files_shows [OF s(2), of files, unfolded with_files_fits(1) [OF assms]]
  show ?thesis
  proof (cases "mkfs_fits files")
    case fits: True
    then obtain t where t: "add_files ROOTINO files s = Ok () t"
        "shows_img (with_files 2 files dots) (file_typed 2 (length files) ((\<lambda>_. 0)(ROOTINO := T_DIR))) (2 + length files)
           (blit (replicate BSIZE 0) 0 (enc_sb new_sb)) t"
      using a assms by auto
    have "m ROOTINO s = seqM (fix_root_size ROOTINO) (bindM (getS mk_freeblock) mk_balloc) t" using t(1) by (simp add: m_def seqM_def bindM_def)
    then show ?thesis using finish_run [OF t(2)] finished_holds [OF t(2) assms] True fits s(1) by auto
  next
    case no: False
    then have "\<exists>e. m ROOTINO s = Panic e" using a assms by (auto simp: m_def seqM_def bindM_def)
    then show ?thesis using no s(1) by auto
  qed
qed

theorem mkfs_builds_witness:
  "\<exists>t. mkfs_main [([105], Some []), ([95, 97], Some [[1, 2, 3], [4]])] (mkfs_start 2000) = Ok () t \<and>
     fdata (mk_img t) 2 = [1, 2, 3, 4] \<and> di_type (disk_inode (mk_img t) ROOTINO) = T_DIR"
proof -
  let ?f = "([95, 97], Some [[1, 2, 3], [4]]) :: hostfile"
  have d: "file_data ?f = [1, 2, 3, 4]" by (simp add: file_data_def)
  have "mkfs_fits [?f]"
    using length_root_data [of "[?f]"] d by (simp add: mkfs_fits_def good_file_def slash_def nslots_def blocks_of_def)
  then obtain t where t: "mkfs_main [([105], Some []), ?f] (mkfs_start 2000) = Ok () t" "image_holds [?f] (mk_img t)"
    using mkfs_builds [of "[?f]" "([105], Some [])" 2000] by auto
  then show ?thesis using d by (auto simp: image_holds_def)
qed

section \<open>Images and the kernel\<close>

text \<open>
  The kernel reads the files back: when the blocks it sees are those of the image and an inode of its cache has been
  loaded from it, the bytes it finds in the file are the ones the file had on the host.
\<close>

lemma kernel_reads_image:
  assumes h: "image_holds files bs" and v: "\<And>b. view s b = bs ! unat b" and j: "j < length files"
    and d: "i_d (inodes s ! i) = disk_inode bs (of_nat (j + 2))"
  shows "file_bytes s i 0 (length (file_data (files ! j))) = file_data (files ! j)"
proof (rule nth_equalityI)
  let ?d = "disk_inode bs (of_nat (j + 2))" and ?n = "length (file_data (files ! j))"
  have f: "fdata bs (of_nat (j + 2)) = file_data (files ! j)" and nz: "\<forall>k < blocks_of ?n. di_slot bs ?d (blk_slot k) \<noteq> 0"
    using h j by (auto simp: image_holds_def)
  fix b assume "b < length (file_bytes s i 0 ?n)"
  then have b: "b < ?n" by simp
  then have k: "b div 512 < blocks_of ?n" using blocks_of_le [of ?n] by (intro less_mult_imp_div_less) (simp add: mult.commute)
  have sz: "b < fsize bs (of_nat (j + 2))" using b f length_fdata [of bs "of_nat (j + 2)"] by simp
  have "file_addr s i (b div 512) = di_slot bs ?d (blk_slot (b div 512))"
    using nz [rule_format, OF k] by (auto simp: file_addr_def d v di_slot_def blk_slot_def Let_def)
  then have "file_bytes s i 0 ?n ! b = fbyte bs ?d b"
    using b by (simp add: file_bytes_def file_byte_def fbyte_def v BSIZE_def)
  also have "\<dots> = fdata bs (of_nat (j + 2)) ! b" using sz by (simp add: fdata_def)
  finally show "file_bytes s i 0 ?n ! b = file_data (files ! j) ! b" using f by simp
qed simp

text \<open>
  Nothing keeps \<open>ialloc\<close> inside the inode blocks: inode 208 goes to the sector of the bitmap, which \<open>balloc\<close> overwrites in the end.
\<close>

lemma ialloc_overruns:
  assumes "mk_ready s" "mk_freeinode s = 208"
  shows "mk_ialloc ty s = Ok 208 (s\<lparr>mk_freeinode := 209, mk_img := (mk_img s)[unat (sb_bmapstart new_sb) :=
    put_dinode (mk_img s ! unat (sb_bmapstart new_sb)) 0 (zero_dinode\<lparr>di_type := ty, di_nlink := 1\<rparr>)]\<rparr>)"
proof -
  have b: "IBLOCK 208 new_sb = sb_bmapstart new_sb" by (simp add: IBLOCK_def new_sb_start)
  have r: "mk_ready (s\<lparr>mk_freeinode := 209\<rparr>)" using assms(1) by (simp add: mk_ready_def)
  show ?thesis
    using rsect_run [OF r, of 58] wsect_run [OF r, of 58] r assms(2)
    by (simp add: mk_ialloc_def winode_def M_defs b new_sb_start mk_ready_def dip_off_def zero_dinode_def)
qed

end
