(* ===== verification/Ide.thy ===== *)
theory Ide
  imports Bio
begin

text \<open>
  The driver of the IDE disk, \<^verbatim>\<open>ide.c\<close>, with which the kernel is linked when it does not run from the memory disk. Requests hang in a queue
  threaded through the buffers by \<open>qnext\<close>; the first of them is the one the disk works on. The controller is not part of the
  program: it is an argument, the four port instructions on a device state, and what the driver relies on is the predicate
  \<open>ata_disk\<close>. The main result is that the driver, run by processes and interrupts in any order, is a queue of requests
  which take effect one after the other, in the order in which they were made, exactly as on the memory disk.
\<close>

section \<open>State\<close>

record 'd ata =
  port_in :: "u16 \<Rightarrow> 'd \<Rightarrow> u8 \<times> 'd"
  port_out :: "u16 \<Rightarrow> u8 \<Rightarrow> 'd \<Rightarrow> 'd"
  port_ins :: "u16 \<Rightarrow> nat \<Rightarrow> 'd \<Rightarrow> u8 list \<times> 'd"
  port_outs :: "u16 \<Rightarrow> u8 list \<Rightarrow> 'd \<Rightarrow> 'd"

record 'd ide_st = buf_st +
  idequeue :: "nat option"
  qnext :: "nat \<Rightarrow> nat option"
  havedisk1 :: bool
  ide_dev :: 'd

type_synonym ('d, 'x, 'a) ide_prog = "(('d, 'x) ide_st_scheme, 'a) prog"

definition SECTOR_SIZE :: nat where "SECTOR_SIZE = 512"

definition IDE_BSY :: u8 where "IDE_BSY = 0x80"

definition IDE_DRDY :: u8 where "IDE_DRDY = 0x40"

definition IDE_DF :: u8 where "IDE_DF = 0x20"

definition IDE_ERR :: u8 where "IDE_ERR = 0x01"

definition IDE_CMD_READ :: u8 where "IDE_CMD_READ = 0x20"

definition IDE_CMD_WRITE :: u8 where "IDE_CMD_WRITE = 0x30"

definition IDE_CMD_RDMUL :: u8 where "IDE_CMD_RDMUL = 0xc4"

definition IDE_CMD_WRMUL :: u8 where "IDE_CMD_WRMUL = 0xc5"

definition IDE_BLOCKS :: u32 where "IDE_BLOCKS = 1000"

section \<open>Ports\<close>

definition inb :: "'d ata \<Rightarrow> u16 \<Rightarrow> ('d, 'x, u8) ide_prog" where
  "inb A port =
     bindM (getS (\<lambda>s. port_in A port (ide_dev s))) (\<lambda>(v, d).
     seqM (modS (\<lambda>s. s\<lparr>ide_dev := d\<rparr>))
     (ret v))"

definition outb :: "'d ata \<Rightarrow> u16 \<Rightarrow> u8 \<Rightarrow> ('d, 'x, unit) ide_prog" where
  "outb A port v = modS (\<lambda>s. s\<lparr>ide_dev := port_out A port v (ide_dev s)\<rparr>)"

text \<open>\<open>insl\<close> and \<open>outsl\<close> move \<open>cnt\<close> 32 bit words to or from the data of a buffer.\<close>

definition insl :: "'d ata \<Rightarrow> u16 \<Rightarrow> nat \<Rightarrow> nat \<Rightarrow> ('d, 'x, unit) ide_prog" where
  "insl A port b cnt =
     bindM (getS (\<lambda>s. port_ins A port cnt (ide_dev s))) (\<lambda>(bs, d).
     seqM (modS (\<lambda>s. s\<lparr>ide_dev := d\<rparr>))
     (modS (upd_buf b (\<lambda>x. x\<lparr>b_data := blit (b_data x) 0 bs\<rparr>))))"

definition outsl :: "'d ata \<Rightarrow> u16 \<Rightarrow> nat \<Rightarrow> nat \<Rightarrow> ('d, 'x, unit) ide_prog" where
  "outsl A port b cnt = modS (\<lambda>s. s\<lparr>ide_dev := port_outs A port (take (4 * cnt) (b_data (bufs s ! b))) (ide_dev s)\<rparr>)"

section \<open>The driver\<close>

text \<open>The loop reads the status until the disk is ready; it may take as many reads as the device likes, \<open>fuel\<close> bounds them.\<close>

fun idewait :: "'d ata \<Rightarrow> nat \<Rightarrow> bool \<Rightarrow> ('d, 'x, int) ide_prog" where
  "idewait A 0 checkerr = nofuel"
| "idewait A (Suc fuel) checkerr =
     bindM (inb A 0x1f7) (\<lambda>r.
     if r AND (IDE_BSY OR IDE_DRDY) \<noteq> IDE_DRDY then idewait A fuel checkerr
     else if checkerr \<and> r AND (IDE_DF OR IDE_ERR) \<noteq> 0 then ret (- 1)
     else ret 0)"

fun probe_disk1 :: "'d ata \<Rightarrow> nat \<Rightarrow> ('d, 'x, unit) ide_prog" where
  "probe_disk1 A 0 = ret ()"
| "probe_disk1 A (Suc n) =
     bindM (inb A 0x1f7) (\<lambda>r.
     if r \<noteq> 0 then modS (\<lambda>s. s\<lparr>havedisk1 := True\<rparr>) else probe_disk1 A n)"

text \<open>The routing of the interrupt, \<open>ioapicenable(IRQ_IDE, ncpu - 1)\<close>, is an argument.\<close>

definition ideinit :: "'d ata \<Rightarrow> nat \<Rightarrow> ('d, 'x, unit) ide_prog \<Rightarrow> ('d, 'x, unit) ide_prog" where
  "ideinit A fuel ioapicenable =
     seqM (initlock L_ide ''ide'') (
     seqM ioapicenable (
     bindM (idewait A fuel False) (\<lambda>_.
     seqM (outb A 0x1f6 (0xe0 OR push_bit 4 1)) (
     seqM (probe_disk1 A 1000)
     (outb A 0x1f6 (0xe0 OR push_bit 4 0))))))"

definition idestart :: "'d ata \<Rightarrow> nat \<Rightarrow> nat option \<Rightarrow> ('d, 'x, unit) ide_prog" where
  "idestart A fuel bp =
     (case bp of
        None \<Rightarrow> panic ''idestart''
      | Some b \<Rightarrow>
          bindM (getS (\<lambda>s. bufs s ! b)) (\<lambda>x.
          if b_blockno x \<ge> IDE_BLOCKS then panic ''incorrect blockno''
          else
            let sector_per_block = BSIZE div SECTOR_SIZE;
                sector = b_blockno x * of_nat sector_per_block;
                read_cmd = (if sector_per_block = 1 then IDE_CMD_READ else IDE_CMD_RDMUL);
                write_cmd = (if sector_per_block = 1 then IDE_CMD_WRITE else IDE_CMD_WRMUL)
            in
              if sector_per_block > 7 then panic ''idestart''
              else
                bindM (idewait A fuel False) (\<lambda>_.
                seqM (outb A 0x3f6 0) (
                seqM (outb A 0x1f2 (of_nat sector_per_block)) (
                seqM (outb A 0x1f3 (ucast (sector AND 0xff))) (
                seqM (outb A 0x1f4 (ucast (drop_bit 8 sector AND 0xff))) (
                seqM (outb A 0x1f5 (ucast (drop_bit 16 sector AND 0xff))) (
                seqM (outb A 0x1f6 (0xe0 OR ucast (push_bit 4 (b_dev x AND 1)) OR ucast (drop_bit 24 sector AND 0x0f)))
                (if b_flags x AND B_DIRTY \<noteq> 0 then
                   seqM (outb A 0x1f7 write_cmd)
                   (outsl A 0x1f0 b (BSIZE div 4))
                 else outb A 0x1f7 read_cmd)))))))))"

definition ideintr :: "'d ata \<Rightarrow> nat \<Rightarrow> ('d, 'x, unit) ide_prog" where
  "ideintr A fuel =
     seqM (acquire L_ide) (
     bindM (getS idequeue) (\<lambda>q.
     case q of
       None \<Rightarrow> release L_ide
     | Some b \<Rightarrow>
         seqM (modS (\<lambda>s. s\<lparr>idequeue := qnext s b\<rparr>)) (
         bindM (getS (\<lambda>s. b_flags (bufs s ! b) AND B_DIRTY \<noteq> 0)) (\<lambda>dirty.
         seqM
           (whenM (\<not> dirty) (
              bindM (idewait A fuel True) (\<lambda>r.
              whenM (r \<ge> 0) (insl A 0x1f0 b (BSIZE div 4))))) (
         seqM (modS (upd_buf b (\<lambda>x. x\<lparr>b_flags := b_flags x OR B_VALID\<rparr>))) (
         seqM (modS (upd_buf b (\<lambda>x. x\<lparr>b_flags := b_flags x AND NOT B_DIRTY\<rparr>))) (
         seqM (wakeup (C_buf b)) (
         bindM (getS idequeue) (\<lambda>q.
         seqM (whenM (q \<noteq> None) (idestart A fuel q))
         (release L_ide))))))))))"

text \<open>
  The pointer \<open>pp\<close> of the loop that looks for the end of the queue: \<open>None\<close> is the address of \<open>idequeue\<close>, \<open>Some x\<close> that
  of the field \<open>qnext\<close> of buffer \<open>x\<close>. There are at most \<open>NBUF\<close> buffers in the queue.
\<close>

definition load_pp :: "nat option \<Rightarrow> ('d, 'x) ide_st_scheme \<Rightarrow> nat option" where
  "load_pp pp s = (case pp of None \<Rightarrow> idequeue s | Some x \<Rightarrow> qnext s x)"

definition store_pp :: "nat option \<Rightarrow> nat option \<Rightarrow> ('d, 'x) ide_st_scheme \<Rightarrow> ('d, 'x) ide_st_scheme" where
  "store_pp pp v s = (case pp of None \<Rightarrow> s\<lparr>idequeue := v\<rparr> | Some x \<Rightarrow> s\<lparr>qnext := (qnext s)(x := v)\<rparr>)"

fun queue_end :: "nat \<Rightarrow> nat option \<Rightarrow> ('d, 'x, nat option) ide_prog" where
  "queue_end 0 pp = nofuel"
| "queue_end (Suc fuel) pp =
     bindM (getS (load_pp pp)) (\<lambda>v.
     case v of None \<Rightarrow> ret pp | Some x \<Rightarrow> queue_end fuel (Some x))"

text \<open>The loop that waits for the request to finish, entered again each time the sleep returns, and what follows it.\<close>

definition ide_iderw_retry :: "nat \<Rightarrow> ('d, 'x, unit) ide_prog" where
  "ide_iderw_retry b =
     bindM (getS (\<lambda>s. b_flags (bufs s ! b))) (\<lambda>fl.
     if fl AND (B_VALID OR B_DIRTY) \<noteq> B_VALID then sleep (C_buf b) L_ide
     else release L_ide)"

definition ide_iderw :: "'d ata \<Rightarrow> nat \<Rightarrow> nat \<Rightarrow> ('d, 'x, unit) ide_prog" where
  "ide_iderw A fuel b =
     bindM (holdingsleep (SL_buf b)) (\<lambda>h.
     if \<not> h then panic ''iderw: buf not locked''
     else bindM (getS (\<lambda>s. bufs s ! b)) (\<lambda>x.
     if b_flags x AND (B_VALID OR B_DIRTY) = B_VALID then panic ''iderw: nothing to do''
     else bindM (getS havedisk1) (\<lambda>hd1.
     if b_dev x \<noteq> 0 \<and> \<not> hd1 then panic ''iderw: ide disk 1 not present''
     else
       seqM (acquire L_ide) (
       seqM (modS (\<lambda>s. s\<lparr>qnext := (qnext s)(b := None)\<rparr>)) (
       bindM (queue_end (NBUF + 1) None) (\<lambda>pp.
       seqM (modS (store_pp pp (Some b))) (
       bindM (getS idequeue) (\<lambda>q.
       seqM (whenM (q = Some b) (idestart A fuel (Some b)))
       (ide_iderw_retry b)))))))))"

section \<open>The controller\<close>

text \<open>Reading the status register until the disk is ready.\<close>

fun ata_wait :: "'d ata \<Rightarrow> nat \<Rightarrow> 'd \<Rightarrow> (u8 \<times> 'd) option" where
  "ata_wait A 0 d = None"
| "ata_wait A (Suc n) d =
     (let (r, e) = port_in A 0x1f7 d
      in if r AND (IDE_BSY OR IDE_DRDY) \<noteq> IDE_DRDY then ata_wait A n e else Some (r, e))"

text \<open>The registers written before a command.\<close>

definition ata_setup :: "'d ata \<Rightarrow> u32 \<Rightarrow> u32 \<Rightarrow> 'd \<Rightarrow> 'd" where
  "ata_setup A dev blk d =
     port_out A 0x1f6 (0xe0 OR ucast (push_bit 4 (dev AND 1)) OR ucast (drop_bit 24 blk AND 0x0f))
       (port_out A 0x1f5 (ucast (drop_bit 16 blk AND 0xff))
         (port_out A 0x1f4 (ucast (drop_bit 8 blk AND 0xff))
           (port_out A 0x1f3 (ucast (blk AND 0xff)) (port_out A 0x1f2 1 (port_out A 0x3f6 0 d)))))"

text \<open>
  What the driver relies on: within the given number of reads of the status register the disk is ready, and reports no error. A read command makes the disk hold the
  sector ready for \<open>insl\<close>; the data that follow a write command are the new contents of the sector. \<open>content\<close> is what the two drives hold, \<open>pend\<close> the
  sector that waits to be fetched.
\<close>

definition ata_disk :: "'d ata \<Rightarrow> nat \<Rightarrow> ('d \<Rightarrow> u32 \<Rightarrow> u32 \<Rightarrow> u8 list) \<Rightarrow> ('d \<Rightarrow> (u32 \<times> u32) option) \<Rightarrow> bool" where
  "ata_disk A fuel content pend \<longleftrightarrow>
     (\<forall>d. \<exists>r e. ata_wait A fuel d = Some (r, e) \<and> r AND (IDE_DF OR IDE_ERR) = 0 \<and> content e = content d \<and> pend e = pend d) \<and>
     (\<forall>d dev blk. pend d = None \<longrightarrow> blk < IDE_BLOCKS \<longrightarrow>
        content (port_out A 0x1f7 IDE_CMD_READ (ata_setup A dev blk d)) = content d \<and>
        pend (port_out A 0x1f7 IDE_CMD_READ (ata_setup A dev blk d)) = Some (dev AND 1, blk)) \<and>
     (\<forall>d dev blk. pend d = Some (dev, blk) \<longrightarrow>
        (\<exists>e. port_ins A 0x1f0 128 d = (content d dev blk, e) \<and> content e = content d \<and> pend e = None)) \<and>
     (\<forall>d dev blk bs. pend d = None \<longrightarrow> blk < IDE_BLOCKS \<longrightarrow> length bs = 512 \<longrightarrow>
        content (port_outs A 0x1f0 bs (port_out A 0x1f7 IDE_CMD_WRITE (ata_setup A dev blk d))) =
          (content d)(dev AND 1 := (content d (dev AND 1))(blk := bs)) \<and>
        pend (port_outs A 0x1f0 bs (port_out A 0x1f7 IDE_CMD_WRITE (ata_setup A dev blk d))) = None) \<and>
     (\<forall>d dev blk. length (content d dev blk) = 512)"

lemma ata_diskD:
  assumes "ata_disk A fuel content pend"
  shows "\<exists>r e. ata_wait A fuel d = Some (r, e) \<and> r AND (IDE_DF OR IDE_ERR) = 0 \<and> content e = content d \<and> pend e = pend d"
    "pend d = None \<Longrightarrow> blk < IDE_BLOCKS \<Longrightarrow> content (port_out A 0x1f7 IDE_CMD_READ (ata_setup A dev blk d)) = content d"
    "pend d = None \<Longrightarrow> blk < IDE_BLOCKS \<Longrightarrow> pend (port_out A 0x1f7 IDE_CMD_READ (ata_setup A dev blk d)) = Some (dev AND 1, blk)"
    "pend d = Some (v, blk) \<Longrightarrow> \<exists>e. port_ins A 0x1f0 128 d = (content d v blk, e) \<and> content e = content d \<and> pend e = None"
    "pend d = None \<Longrightarrow> blk < IDE_BLOCKS \<Longrightarrow> length bs = 512 \<Longrightarrow>
      content (port_outs A 0x1f0 bs (port_out A 0x1f7 IDE_CMD_WRITE (ata_setup A dev blk d))) =
        (content d)(dev AND 1 := (content d (dev AND 1))(blk := bs))"
    "pend d = None \<Longrightarrow> blk < IDE_BLOCKS \<Longrightarrow> length bs = 512 \<Longrightarrow>
      pend (port_outs A 0x1f0 bs (port_out A 0x1f7 IDE_CMD_WRITE (ata_setup A dev blk d))) = None"
    "length (content d v blk) = 512"
  using assms unfolding ata_disk_def by blast+

lemma idewait_run:
  "ata_wait A n (ide_dev s) = Some (r, e) \<Longrightarrow>
   idewait A n c s = Ok (if c \<and> r AND (IDE_DF OR IDE_ERR) \<noteq> 0 then - 1 else 0) (s\<lparr>ide_dev := e\<rparr>)"
proof (induction n arbitrary: s)
  case 0
  then show ?case by simp
next
  case (Suc n)
  obtain v d where p: "port_in A 0x1f7 (ide_dev s) = (v, d)" by (cases "port_in A 0x1f7 (ide_dev s)")
  have "inb A 0x1f7 s = Ok v (s\<lparr>ide_dev := d\<rparr>)" by (simp add: inb_def M_defs p)
  then show ?case using Suc.IH [of "s\<lparr>ide_dev := d\<rparr>"] Suc.prems p by (auto simp: bindM_def ret_def Let_def split: if_splits)
qed

section \<open>Requests in order\<close>

text \<open>The effect of one request on the disks and on the buffers, as the memory disk has it.\<close>

definition is_dirty :: "buf \<Rightarrow> bool" where
  "is_dirty x \<longleftrightarrow> b_flags x AND B_DIRTY \<noteq> 0"

definition ide_written :: "buf \<Rightarrow> (u32 \<Rightarrow> u32 \<Rightarrow> u8 list) \<Rightarrow> u32 \<Rightarrow> u32 \<Rightarrow> u8 list" where
  "ide_written x D = (if is_dirty x then D(b_dev x AND 1 := (D (b_dev x AND 1))(b_blockno x := b_data x)) else D)"

definition ide_synced :: "(u32 \<Rightarrow> u32 \<Rightarrow> u8 list) \<Rightarrow> buf \<Rightarrow> buf" where
  "ide_synced D x =
     x\<lparr>b_data := (if is_dirty x then b_data x else D (b_dev x AND 1) (b_blockno x)), b_flags := (b_flags x OR B_VALID) AND NOT B_DIRTY\<rparr>"

definition request_ok :: "buf \<Rightarrow> bool" where
  "request_ok x \<longleftrightarrow> b_flags x AND (B_VALID OR B_DIRTY) \<noteq> B_VALID \<and> b_blockno x < IDE_BLOCKS \<and> length (b_data x) = 512"

fun qlist :: "(nat \<Rightarrow> nat option) \<Rightarrow> nat option \<Rightarrow> nat list \<Rightarrow> bool" where
  "qlist nx v [] \<longleftrightarrow> v = None"
| "qlist nx v (b # q) \<longleftrightarrow> v = Some b \<and> qlist nx (nx b) q"

text \<open>
  \<open>serving content pend d q D bs\<close>: the state of the device when the requests \<open>q\<close> are queued and all earlier ones have taken effect on the disks
  \<open>D\<close>. The disk works on the first one: a write has been handed over, a read waits to be fetched.
\<close>

definition serving ::
  "('d \<Rightarrow> u32 \<Rightarrow> u32 \<Rightarrow> u8 list) \<Rightarrow> ('d \<Rightarrow> (u32 \<times> u32) option) \<Rightarrow> 'd \<Rightarrow> nat list \<Rightarrow> (u32 \<Rightarrow> u32 \<Rightarrow> u8 list) \<Rightarrow> buf list \<Rightarrow> bool" where
  "serving content pend d q D bs \<longleftrightarrow>
     (case q of
        [] \<Rightarrow> pend d = None \<and> content d = D
      | b # _ \<Rightarrow> content d = ide_written (bs ! b) D \<and>
          pend d = (if is_dirty (bs ! b) then None else Some (b_dev (bs ! b) AND 1, b_blockno (bs ! b))))"

definition ide_shows ::
  "('d \<Rightarrow> u32 \<Rightarrow> u32 \<Rightarrow> u8 list) \<Rightarrow> ('d \<Rightarrow> (u32 \<times> u32) option) \<Rightarrow> nat list \<Rightarrow> (u32 \<Rightarrow> u32 \<Rightarrow> u8 list) \<Rightarrow> ('d, 'x) ide_st_scheme \<Rightarrow> bool" where
  "ide_shows content pend q D s \<longleftrightarrow>
     length (bufs s) = NBUF \<and> qlist (qnext s) (idequeue s) q \<and> distinct q \<and> (\<forall>b \<in> set q. b < NBUF \<and> request_ok (bufs s ! b)) \<and>
     serving content pend (ide_dev s) q D (bufs s)"

lemma idestart_run:
  assumes A: "ata_disk A n content pend" and p: "pend (ide_dev s) = None" and x: "request_ok (bufs s ! b)"
  shows "\<exists>e. idestart A n (Some b) s = Ok () (s\<lparr>ide_dev := e\<rparr>) \<and> serving content pend e (b # q) (content (ide_dev s)) (bufs s)"
proof -
  let ?x = "bufs s ! b"
  obtain r e where e: "ata_wait A n (ide_dev s) = Some (r, e)" "content e = content (ide_dev s)" "pend e = None"
    using ata_diskD(1) [OF A, of "ide_dev s"] p by auto
  have w: "idewait A n False s = Ok 0 (s\<lparr>ide_dev := e\<rparr>)" using idewait_run [OF e(1), of False] by simp
  have k: "b_blockno ?x < IDE_BLOCKS" "\<not> IDE_BLOCKS \<le> b_blockno ?x" "length (b_data ?x) = 512" using x by (auto simp: request_ok_def)
  let ?f = "ata_setup A (b_dev ?x) (b_blockno ?x) e"
  let ?g = "if is_dirty ?x then port_outs A 0x1f0 (b_data ?x) (port_out A 0x1f7 IDE_CMD_WRITE ?f) else port_out A 0x1f7 IDE_CMD_READ ?f"
  have "idestart A n (Some b) s = Ok () (s\<lparr>ide_dev := ?g\<rparr>)"
    using w k by (simp add: idestart_def M_defs outb_def outsl_def is_dirty_def Let_def BSIZE_def SECTOR_SIZE_def ata_setup_def)
  moreover have "serving content pend ?g (b # q) (content (ide_dev s)) (bufs s)"
    using ata_diskD [OF A] e k by (auto simp: serving_def ide_written_def)
  ultimately show ?thesis by blast
qed

lemma ide_frame [simp]:
  "idequeue (acq l s) = idequeue s" "idequeue (rel l s) = idequeue s" "idequeue (woken ch s) = idequeue s"
  "qnext (acq l s) = qnext s" "qnext (rel l s) = qnext s" "qnext (woken ch s) = qnext s"
  "ide_dev (acq l s) = ide_dev s" "ide_dev (rel l s) = ide_dev s" "ide_dev (woken ch s) = ide_dev s"
  "havedisk1 (acq l s) = havedisk1 s" "havedisk1 (rel l s) = havedisk1 s" "havedisk1 (woken ch s) = havedisk1 s"
  by (simp_all add: effect_defs woken_def)

lemma ide_buf_frame [simp]: "bufs (acq l s) = bufs s" "bufs (rel l s) = bufs s" "bufs (woken ch s) = bufs s"
  by (simp_all add: effect_defs woken_def)

lemma lockset_ide [simp]:
  "lockset S (s\<lparr>idequeue := v\<rparr>) = lockset S s" "lockset S (s\<lparr>qnext := nx\<rparr>) = lockset S s" "lockset S (s\<lparr>ide_dev := d\<rparr>) = lockset S s"
  "lockset S (upd_buf i f s) = lockset S s"
  by (simp_all add: lockset_def cpu_found_def curcpu_def upd_buf_def)

lemma ide_upd_buf [simp]:
  "idequeue (upd_buf i f s) = idequeue s" "qnext (upd_buf i f s) = qnext s" "ide_dev (upd_buf i f s) = ide_dev s"
  "ptable (upd_buf i f s) = ptable s" "ticks (upd_buf i f s) = ticks s"
  by (simp_all add: upd_buf_def)

lemma ide_upd_bufs: "bufs (upd_buf i f s) = (bufs s)[i := f (bufs s ! i)]"
  by (simp add: upd_buf_def)

text \<open>The part of \<open>ideintr\<close> that ends the first request.\<close>

lemma fetch_run:
  assumes A: "ata_disk A n content pend" and s: "serving content pend (ide_dev s) (b # q) D (bufs s)"
    and b: "b < length (bufs s)" "request_ok (bufs s ! b)"
  shows "\<exists>e. whenM (b_flags (bufs s ! b) AND B_DIRTY = 0) (bindM (idewait A n True) (\<lambda>r. whenM (r \<ge> 0) (insl A 0x1f0 b (BSIZE div 4)))) s =
      Ok () (upd_buf b (\<lambda>x. x\<lparr>b_data := b_data (ide_synced D (bufs s ! b))\<rparr>) (s\<lparr>ide_dev := e\<rparr>)) \<and>
    pend e = None \<and> content e = ide_written (bufs s ! b) D"
proof (cases "is_dirty (bufs s ! b)")
  case True
  then have "upd_buf b (\<lambda>x. x\<lparr>b_data := b_data (ide_synced D (bufs s ! b))\<rparr>) (s\<lparr>ide_dev := ide_dev s\<rparr>) = s"
    by (simp add: upd_buf_def ide_synced_def)
  then show ?thesis using True s by (intro exI [of _ "ide_dev s"]) (simp add: serving_def ret_def whenM_def is_dirty_def)
next
  case False
  let ?x = "bufs s ! b"
  obtain r d where d: "ata_wait A n (ide_dev s) = Some (r, d)" "r AND (IDE_DF OR IDE_ERR) = 0" "content d = D"
      "pend d = Some (b_dev ?x AND 1, b_blockno ?x)"
    using ata_diskD(1) [OF A, of "ide_dev s"] s False by (auto simp: serving_def ide_written_def)
  obtain e where e: "port_ins A 0x1f0 128 d = (content d (b_dev ?x AND 1) (b_blockno ?x), e)" "content e = content d" "pend e = None"
    using ata_diskD(4) [OF A d(4)] by blast
  have "length (D (b_dev ?x AND 1) (b_blockno ?x)) = 512" using ata_diskD(7) [OF A, of d] d(3) by simp
  then have bl: "blit (b_data ?x) 0 (D (b_dev ?x AND 1) (b_blockno ?x)) = D (b_dev ?x AND 1) (b_blockno ?x)"
    using b(2) by (simp add: blit_def request_ok_def)
  have "idewait A n True s = Ok 0 (s\<lparr>ide_dev := d\<rparr>)" using idewait_run [OF d(1), of True] d(2) by simp
  moreover have "insl A 0x1f0 b (BSIZE div 4) (s\<lparr>ide_dev := d\<rparr>) =
      Ok () (upd_buf b (\<lambda>x. x\<lparr>b_data := b_data (ide_synced D ?x)\<rparr>) (s\<lparr>ide_dev := e\<rparr>))"
    using e(1) d(3) bl False by (simp add: insl_def M_defs BSIZE_def upd_buf_def ide_synced_def)
  ultimately show ?thesis using False e(2,3) d(3) by (intro exI [of _ e]) (simp add: bindM_def whenM_def ide_written_def is_dirty_def)
qed

lemma serving_upd: "c \<notin> set q \<Longrightarrow> serving content pend d q D (bs[c := x]) = serving content pend d q D bs"
  by (cases q) (simp_all add: serving_def)

text \<open>The handler after the data have been fetched.\<close>

definition mark_done :: "nat \<Rightarrow> ('d, 'x) ide_st_scheme \<Rightarrow> ('d, 'x) ide_st_scheme" where
  "mark_done b s = upd_buf b (\<lambda>x. x\<lparr>b_flags := (b_flags x OR B_VALID) AND NOT B_DIRTY\<rparr>) s"

lemma ideintr_run:
  assumes l: "lockset {} s" and q: "idequeue s = Some b" and b: "b < length (bufs v)"
    and f: "whenM (b_flags (bufs s ! b) AND B_DIRTY = 0) (bindM (idewait A n True) (\<lambda>r. whenM (r \<ge> 0) (insl A 0x1f0 b (BSIZE div 4))))
      ((acq L_ide s)\<lparr>idequeue := qnext s b\<rparr>) = Ok () v" and v: "lockset {L_ide} v"
  defines "w \<equiv> woken (C_buf b) (mark_done b v)"
  shows "ideintr A n s = seqM (whenM (idequeue v \<noteq> None) (idestart A n (idequeue v))) (release L_ide) w" "lockset {L_ide} w"
proof -
  have la: "acquire L_ide s = Ok () (acq L_ide s)" using acquire_ok [OF l, of L_ide] by simp
  have lu: "lockset {L_ide} (mark_done b v)" using v by (simp add: mark_done_def)
  have w: "wakeup (C_buf b) (mark_done b v) = Ok () w" unfolding w_def by (rule wakeup_ok [OF lu]) simp_all
  show "lockset {L_ide} w" unfolding w_def by (rule lockset_woken [OF lu]) simp_all
  have fl: "upd_buf b (\<lambda>x. x\<lparr>b_flags := b_flags x AND NOT B_DIRTY\<rparr>) (upd_buf b (\<lambda>x. x\<lparr>b_flags := b_flags x OR B_VALID\<rparr>) v) = mark_done b v"
    using b by (simp add: mark_done_def upd_buf_def)
  have "idequeue w = idequeue v" by (simp add: w_def mark_done_def)
  then show "ideintr A n s = seqM (whenM (idequeue v \<noteq> None) (idestart A n (idequeue v))) (release L_ide) w"
    unfolding ideintr_def seqM_run [of "acquire L_ide", OF la] bindM_getS
    using q fl by (simp add: seqM_modS bindM_getS seqM_run [of "whenM _ _", OF f] seqM_run [of "wakeup _", OF w])
qed

text \<open>The interrupt ends the first request, wakes the process that waits for it, and starts the next.\<close>

lemma ideintr_serves:
  assumes A: "ata_disk A n content pend" and l: "lockset {} s" and s: "ide_shows content pend (b # q) D s"
  shows "\<exists>t. ideintr A n s = Ok () t \<and> lockset {} t \<and> ide_shows content pend q (ide_written (bufs s ! b) D) t \<and>
    bufs t = (bufs s)[b := ide_synced D (bufs s ! b)] \<and> ptable t = map (awaken (C_buf b) (ticks s)) (ptable s)"
proof -
  let ?x = "bufs s ! b" and ?bs = "(bufs s)[b := ide_synced D (bufs s ! b)]"
  note k = s [unfolded ide_shows_def]
  have b: "b < length (bufs s)" "request_ok ?x" "b \<notin> set q" "idequeue s = Some b" using k by auto
  let ?a = "(acq L_ide s)\<lparr>idequeue := qnext s b\<rparr>"
  have la: "lockset {L_ide} ?a" using lockset_acq [OF l, of L_ide] by simp
  obtain e where e: "whenM (b_flags (bufs ?a ! b) AND B_DIRTY = 0) (bindM (idewait A n True) (\<lambda>r. whenM (r \<ge> 0) (insl A 0x1f0 b (BSIZE div 4)))) ?a =
      Ok () (upd_buf b (\<lambda>x. x\<lparr>b_data := b_data (ide_synced D (bufs ?a ! b))\<rparr>) (?a\<lparr>ide_dev := e\<rparr>))"
      "pend e = None" "content e = ide_written (bufs ?a ! b) D"
    using fetch_run [OF A, of ?a b q D] k b by auto
  define v where "v = upd_buf b (\<lambda>x. x\<lparr>b_data := b_data (ide_synced D (bufs ?a ! b))\<rparr>) (?a\<lparr>ide_dev := e\<rparr>)"
  define w where "w = woken (C_buf b) (mark_done b v)"
  have v: "idequeue v = qnext s b" "b < length (bufs v)" "lockset {L_ide} v" using b la by (simp_all add: v_def ide_upd_bufs)
  have f: "whenM (b_flags ?x AND B_DIRTY = 0) (bindM (idewait A n True) (\<lambda>r. whenM (r \<ge> 0) (insl A 0x1f0 b (BSIZE div 4)))) ?a = Ok () v"
    using e(1) by (simp add: v_def)
  note run = ideintr_run [OF l b(4) v(2) f v(3), folded w_def, unfolded v(1)]
  have u: "bufs w = ?bs" "idequeue w = qnext s b" "qnext w = qnext s" "ide_dev w = e" "ptable w = map (awaken (C_buf b) (ticks s)) (ptable s)"
    using b(1) by (simp_all add: w_def v_def mark_done_def ide_upd_bufs ide_synced_def)
  have q: "qlist (qnext s) (qnext s b) q" using k by simp
  have "?bs ! c = bufs s ! c" if "c \<in> set q" for c using that b(3) by (metis nth_list_update_neq)
  then have rq: "\<forall>c \<in> set q. c < NBUF \<and> request_ok (?bs ! c)" using k by simp
  have pe: "pend (ide_dev w) = None" "content (ide_dev w) = ide_written ?x D" using e(2,3) by (simp_all add: u)
  have "\<exists>d. whenM (qnext s b \<noteq> None) (idestart A n (qnext s b)) w = Ok () (w\<lparr>ide_dev := d\<rparr>) \<and> serving content pend d q (ide_written ?x D) ?bs"
  proof (cases q)
    case Nil
    then show ?thesis using q pe by (intro exI [of _ "ide_dev w"]) (simp add: whenM_def ret_def serving_def)
  next
    case (Cons c q')
    then show ?thesis using idestart_run [OF A pe(1), of c q'] q rq pe(2) by (simp add: whenM_def u)
  qed
  then obtain d where d: "whenM (qnext s b \<noteq> None) (idestart A n (qnext s b)) w = Ok () (w\<lparr>ide_dev := d\<rparr>)"
      "serving content pend d q (ide_written ?x D) ?bs" by blast
  let ?t = "rel L_ide (w\<lparr>ide_dev := d\<rparr>)"
  have lt: "lockset {L_ide} (w\<lparr>ide_dev := d\<rparr>)" using run(2) by simp
  have "ideintr A n s = Ok () ?t" unfolding run(1) seqM_run [of "whenM _ _", OF d(1)] by (rule release_ok [OF lt]) simp
  moreover have "lockset {} ?t" using lockset_rel [OF lt, of L_ide] by simp
  moreover have "ide_shows content pend q (ide_written ?x D) ?t" using k q rq d(2) u by (simp add: ide_shows_def)
  ultimately show ?thesis using u by (intro exI [of _ ?t]) simp
qed

lemma ideintr_idle:
  assumes l: "lockset {} s" and s: "ide_shows content pend [] D s"
  shows "\<exists>t. ideintr A n s = Ok () t \<and> lockset {} t \<and> ide_shows content pend [] D t \<and> bufs t = bufs s \<and> ptable t = ptable s"
proof -
  have la: "acquire L_ide s = Ok () (acq L_ide s)" "lockset {L_ide} (acq L_ide s)"
    using acquire_ok [OF l, of L_ide] lockset_acq [OF l, of L_ide] by simp_all
  have "ideintr A n s = Ok () (rel L_ide (acq L_ide s))"
    using s release_ok [OF la(2), of L_ide] unfolding ideintr_def seqM_run [of "acquire L_ide", OF la(1)] bindM_getS by (simp add: ide_shows_def)
  moreover have "lockset {} (rel L_ide (acq L_ide s))" using lockset_rel [OF la(2), of L_ide] by simp
  ultimately show ?thesis using s by (intro exI [of _ "rel L_ide (acq L_ide s)"]) (simp add: ide_shows_def)
qed

text \<open>A device error is not noticed: the buffer is marked valid although nothing has been read into it.\<close>

lemma ideintr_error_lost:
  assumes l: "lockset {} s" and q: "idequeue s = Some b" "qnext s b = None" "b < length (bufs s)" "\<not> is_dirty (bufs s ! b)"
    and e: "ata_wait A n (ide_dev s) = Some (r, d)" "r AND (IDE_DF OR IDE_ERR) \<noteq> 0"
  shows "\<exists>t. ideintr A n s = Ok () t \<and> b_data (bufs t ! b) = b_data (bufs s ! b) \<and>
    b_flags (bufs t ! b) = (b_flags (bufs s ! b) OR B_VALID) AND NOT B_DIRTY"
proof -
  let ?a = "(acq L_ide s)\<lparr>idequeue := qnext s b\<rparr>"
  let ?v = "?a\<lparr>ide_dev := d\<rparr>"
  have v: "b < length (bufs ?v)" "lockset {L_ide} ?v" using q(3) lockset_acq [OF l, of L_ide] by simp_all
  have "idewait A n True ?a = Ok (- 1) ?v" using idewait_run [of A n ?a r d True] e by simp
  then have f: "whenM (b_flags (bufs s ! b) AND B_DIRTY = 0) (bindM (idewait A n True) (\<lambda>r. whenM (r \<ge> 0) (insl A 0x1f0 b (BSIZE div 4)))) ?a = Ok () ?v"
    using q(4) by (simp add: whenM_def is_dirty_def bindM_def ret_def)
  note run = ideintr_run [OF l q(1) v(1) f v(2)]
  let ?t = "rel L_ide (woken (C_buf b) (mark_done b ?v))"
  have "ideintr A n s = Ok () ?t"
    using run(1) release_ok [OF run(2), of L_ide] q(2) by (simp add: whenM_def seqM_def bindM_def ret_def)
  then show ?thesis using q(3) by (intro exI [of _ ?t]) (simp add: mark_done_def ide_upd_bufs)
qed

section \<open>Making a request\<close>

lemma queue_end_run:
  "qlist (qnext s) (load_pp pp s) q \<Longrightarrow> length q < fuel \<Longrightarrow> queue_end fuel pp s = Ok (if q = [] then pp else Some (last q)) s"
proof (induction q arbitrary: fuel pp)
  case Nil
  then show ?case by (cases fuel) (simp_all add: bindM_getS ret_def)
next
  case (Cons b q)
  then obtain f where f: "fuel = Suc f" by (cases fuel) auto
  have "qlist (qnext s) (load_pp (Some b) s) q" using Cons.prems(1) by (simp add: load_pp_def)
  then show ?case using Cons f by (simp add: bindM_getS)
qed

lemma qlist_frame: "b \<notin> set q \<Longrightarrow> qlist (nx(b := v)) u q = qlist nx u q"
  by (induction q arbitrary: u) auto

lemma qlist_snoc:
  assumes "qlist nx v q" "distinct q" "b \<notin> set q" "nx b = None"
  shows "if q = [] then qlist nx (Some b) [b] else qlist (nx(last q := Some b)) v (q @ [b])"
  using assms
proof (induction q arbitrary: v)
  case Nil
  then show ?case by simp
next
  case (Cons c q)
  show ?case
  proof (cases "q = []")
    case True
    then show ?thesis using Cons.prems by simp
  next
    case False
    then have "last q \<noteq> c" using Cons.prems(2) last_in_set [of q] by auto
    then show ?thesis using Cons False by auto
  qed
qed

text \<open>The state in which \<open>iderw\<close> has put the buffer at the end of the queue, with the lock held.\<close>

definition enqueued :: "nat \<Rightarrow> nat list \<Rightarrow> ('d, 'x) ide_st_scheme \<Rightarrow> ('d, 'x) ide_st_scheme" where
  "enqueued b q s = store_pp (if q = [] then None else Some (last q)) (Some b) (s\<lparr>qnext := (qnext s)(b := None)\<rparr>)"

lemma enqueued_sel [simp]:
  "bufs (enqueued b q s) = bufs s" "ide_dev (enqueued b q s) = ide_dev s" "havedisk1 (enqueued b q s) = havedisk1 s"
  "lockset S (enqueued b q s) = lockset S s" "ctx S pid (enqueued b q s) = ctx S pid s" "ptable (enqueued b q s) = ptable s"
  "sleeplocks (enqueued b q s) = sleeplocks s"
  by (simp_all add: enqueued_def store_pp_def ctx_def lockset_def cpu_found_def curcpu_def)

lemma ctx_ide [simp]: "ctx S pid (s\<lparr>ide_dev := d\<rparr>) = ctx S pid s"
  by (simp add: ctx_def lockset_def cpu_found_def curcpu_def)

lemma enqueued_qlist:
  assumes "qlist (qnext s) (idequeue s) q" "distinct q" "b \<notin> set q"
  shows "qlist (qnext (enqueued b q s)) (idequeue (enqueued b q s)) (q @ [b])" "idequeue (enqueued b q s) = Some b \<longleftrightarrow> q = []"
proof -
  let ?nx = "(qnext s)(b := None)"
  have l: "qlist ?nx (idequeue s) q" using assms by (simp add: qlist_frame)
  show "qlist (qnext (enqueued b q s)) (idequeue (enqueued b q s)) (q @ [b])"
    using qlist_snoc [OF l assms(2,3)] by (cases "q = []") (simp_all add: enqueued_def store_pp_def)
  show "idequeue (enqueued b q s) = Some b \<longleftrightarrow> q = []"
    using assms by (cases q) (auto simp: enqueued_def store_pp_def)
qed

lemma slept_ide [simp]:
  "idequeue (slept p ch lk s) = idequeue s" "qnext (slept p ch lk s) = qnext s" "ide_dev (slept p ch lk s) = ide_dev s"
  "bufs (slept p ch lk s) = bufs s"
  by (simp_all add: slept_def effect_defs upd_proc_def)

text \<open>
  \<open>iderw\<close> puts the buffer behind the requests already there, starts the disk if there are none, and sleeps until the request is done.
\<close>

lemma iderw_queues:
  assumes A: "ata_disk A n content pend" and c: "ctx {} pid s" and lk: "locked_by pid b s" and s: "ide_shows content pend q D s"
    and b: "b < NBUF" "b \<notin> set q" "request_ok (bufs s ! b)" and hd: "b_dev (bufs s ! b) = 0 \<or> havedisk1 s"
  shows "\<exists>p t. ide_iderw A n b s = Wait Switched t \<and> lockset {L_ptable} t \<and> ide_shows content pend (q @ [b]) D t \<and> bufs t = bufs s \<and>
    c_proc (mycpu_of t) = Some p \<and> p_state (ptable t ! p) = SLEEPING \<and> p_chan (ptable t ! p) = C_buf b"
proof -
  note k = s [unfolded ide_shows_def]
  obtain u where u: "holdingsleep (SL_buf b) s = Ok True u" "mach_eq s u" "ctx {} pid u"
    using holdingsleep_ok [OF c, of "SL_buf b"] lk by (auto simp: locked_by_def)
  have us: "bufs u = bufs s" "idequeue u = idequeue s" "qnext u = qnext s" "ide_dev u = ide_dev s" "havedisk1 u = havedisk1 s"
    using u(2) by (auto elim!: mach_eqE)
  have la: "acquire L_ide u = Ok () (acq L_ide u)" "ctx {L_ide} pid (acq L_ide u)" using ctx_acquire [OF u(3), of L_ide] by simp_all
  let ?a = "acq L_ide u"
  have dq: "distinct q" "set q \<subseteq> {..<NBUF}" using k by auto
  then have "length q \<le> NBUF" using card_mono [OF _ dq(2)] distinct_card [OF dq(1)] by simp
  then have qe: "queue_end (Suc NBUF) None (?a\<lparr>qnext := (qnext s)(b := None)\<rparr>) =
      Ok (if q = [] then None else Some (last q)) (?a\<lparr>qnext := (qnext s)(b := None)\<rparr>)"
    using k b(2) us by (intro queue_end_run) (simp_all add: load_pp_def qlist_frame)
  let ?e = "enqueued b q ?a"
  have ql: "qlist (qnext ?e) (idequeue ?e) (q @ [b])" "idequeue ?e = Some b \<longleftrightarrow> q = []"
    using enqueued_qlist [of ?a q b] k b(2) us by simp_all
  have "\<exists>d. whenM (idequeue ?e = Some b) (idestart A n (Some b)) ?e = Ok () (?e\<lparr>ide_dev := d\<rparr>) \<and> serving content pend d (q @ [b]) D (bufs s)"
  proof (cases "q = []")
    case True
    then have "pend (ide_dev ?e) = None" "content (ide_dev ?e) = D" using k us by (simp_all add: serving_def)
    then show ?thesis using idestart_run [OF A, of ?e b "[]"] b(3) us True ql(2) by (simp add: whenM_def)
  next
    case False
    then show ?thesis using k us ql(2) by (intro exI [of _ "ide_dev ?e"]) (cases q; simp add: whenM_def ret_def serving_def)
  qed
  then obtain d where d: "whenM (idequeue ?e = Some b) (idestart A n (Some b)) ?e = Ok () (?e\<lparr>ide_dev := d\<rparr>)"
      "serving content pend d (q @ [b]) D (bufs s)" by blast
  let ?f = "?e\<lparr>ide_dev := d\<rparr>"
  have cf: "ctx {L_ide} pid ?f" using la(2) by simp
  obtain p where p: "c_proc (mycpu_of ?f) = Some p" "p < length (ptable ?f)" using cf by (auto simp: ctx_def)
  have lf: "lockset {L_ide} ?f" using cf by (rule ctxD)
  have fl: "b_flags (bufs s ! b) AND (B_VALID OR B_DIRTY) \<noteq> B_VALID" using b(3) by (simp add: request_ok_def)
  have en: "store_pp (if q = [] then None else Some (last q)) (Some b) (?a\<lparr>qnext := (qnext s)(b := None)\<rparr>) = ?e"
    by (simp add: enqueued_def us)
  have hd': "\<not> (b_dev (bufs s ! b) \<noteq> 0 \<and> \<not> havedisk1 s)" using hd by simp
  have run: "ide_iderw A n b s = sleep (C_buf b) L_ide ?f"
    using fl hd' by (auto simp: ide_iderw_def bindM_run [of "holdingsleep _", OF u(1)] bindM_getS seqM_run [of "acquire _", OF la(1)] seqM_modS us
        bindM_run [of "queue_end _ _", OF qe] en seqM_run [of "whenM _ _", OF d(1)] ide_iderw_retry_def simp del: queue_end.simps)
  let ?t = "slept p (C_buf b) L_ide ?f"
  have "ide_iderw A n b s = Wait Switched ?t" unfolding run by (rule sleep_ok [OF lf p])
  moreover have "lockset {L_ptable} ?t" by (rule lockset_slept [OF lf])
  moreover have "ide_shows content pend (q @ [b]) D ?t" using k ql(1) b d(2) us by (simp add: ide_shows_def)
  moreover have "c_proc (mycpu_of ?t) = Some p" "p_state (ptable ?t ! p) = SLEEPING" "p_chan (ptable ?t ! p) = C_buf b"
    using p by (simp_all add: slept_def upd_proc_def account_run_def)
  ultimately show ?thesis using us by (intro exI [of _ p] exI [of _ ?t]) simp
qed

lemma done_flags: "(f OR B_VALID) AND NOT B_DIRTY AND (B_VALID OR B_DIRTY) = B_VALID"
proof (rule bit_word_eqI)
  fix n assume "n < LENGTH(32)"
  have "bit B_VALID n \<longleftrightarrow> n = 1" "bit B_DIRTY n \<longleftrightarrow> n = 2"
    using bit_exp_iff [where 'a = u32, of 1 n] bit_exp_iff [where 'a = u32, of 2 n] by (auto simp: B_VALID_def B_DIRTY_def)
  then show "bit ((f OR B_VALID) AND NOT B_DIRTY AND (B_VALID OR B_DIRTY)) n = bit B_VALID n"
    using \<open>n < LENGTH(32)\<close> by (auto simp: bit_and_iff bit_or_iff bit_not_iff)
qed

text \<open>A process that is woken up because its request is done leaves \<open>iderw\<close> with the lock released.\<close>

lemma iderw_retry_returns:
  assumes "lockset {L_ide} s" "bufs s ! b = ide_synced D x"
  shows "ide_iderw_retry b s = Ok () (rel L_ide s)"
  using release_ok [OF assms(1), of L_ide] assms(2) done_flags [of "b_flags x"]
  by (simp add: ide_iderw_retry_def bindM_getS ide_synced_def and.assoc)

section \<open>The driver as a queue\<close>

text \<open>
  The events in which the driver takes part: a process asks for a buffer to be transferred, the disk interrupts, or the owner of
  a buffer that is not queued changes it. The specification is a queue of buffers, the contents of the disks, and the
  buffers; an interrupt transfers the first buffer of the queue.
\<close>

datatype ide_event = Request nat | Interrupt | Change nat buf

fun ide_spec ::
  "ide_event \<Rightarrow> nat list \<times> (u32 \<Rightarrow> u32 \<Rightarrow> u8 list) \<times> buf list \<Rightarrow> (nat list \<times> (u32 \<Rightarrow> u32 \<Rightarrow> u8 list) \<times> buf list) option" where
  "ide_spec (Request b) (q, D, bs) = (if b < NBUF \<and> b \<notin> set q \<and> request_ok (bs ! b) then Some (q @ [b], D, bs) else None)"
| "ide_spec Interrupt (q, D, bs) =
     Some (case q of [] \<Rightarrow> ([], D, bs) | b # q \<Rightarrow> (q, ide_written (bs ! b) D, bs[b := ide_synced D (bs ! b)]))"
| "ide_spec (Change b x) (q, D, bs) = (if b < NBUF \<and> b \<notin> set q then Some (q, D, bs[b := x]) else None)"

definition ide_view :: "('d, 'x) ide_st_scheme \<Rightarrow> nat option \<times> (nat \<Rightarrow> nat option) \<times> buf list \<times> 'd" where
  "ide_view s = (idequeue s, qnext s, bufs s, ide_dev s)"

text \<open>What the driver finds when it is called, and what it does.\<close>

fun ide_ready :: "ide_event \<Rightarrow> 'd ide_st \<Rightarrow> bool" where
  "ide_ready (Request b) s \<longleftrightarrow> (\<exists>pid. ctx {} pid s \<and> locked_by pid b s) \<and> (b_dev (bufs s ! b) = 0 \<or> havedisk1 s)"
| "ide_ready Interrupt s \<longleftrightarrow> lockset {} s"
| "ide_ready (Change b x) s \<longleftrightarrow> True"

fun ide_call :: "'d ata \<Rightarrow> nat \<Rightarrow> ide_event \<Rightarrow> 'd ide_st \<Rightarrow> 'd ide_st \<Rightarrow> bool" where
  "ide_call A n (Request b) s t \<longleftrightarrow>
     ide_iderw A n b s = Wait Switched t \<and>
     (\<exists>p. c_proc (mycpu_of t) = Some p \<and> p_state (ptable t ! p) = SLEEPING \<and> p_chan (ptable t ! p) = C_buf b)"
| "ide_call A n Interrupt s t \<longleftrightarrow>
     ideintr A n s = Ok () t \<and> lockset {} t \<and>
     (\<forall>b. idequeue s = Some b \<longrightarrow> ptable t = map (awaken (C_buf b) (ticks s)) (ptable s))"
| "ide_call A n (Change b x) s t \<longleftrightarrow> t = s\<lparr>bufs := (bufs s)[b := x]\<rparr>"

text \<open>
  \<open>follows A n content pend es st v\<close>: whatever the rest of the kernel does in between, the driver answers each of the events \<open>es\<close> that the
  specification allows, neither panics nor hangs, and afterwards shows the queue, the disks and the buffers of the specification.
\<close>

fun follows ::
  "'d ata \<Rightarrow> nat \<Rightarrow> ('d \<Rightarrow> u32 \<Rightarrow> u32 \<Rightarrow> u8 list) \<Rightarrow> ('d \<Rightarrow> (u32 \<times> u32) option) \<Rightarrow> ide_event list \<Rightarrow>
   nat list \<times> (u32 \<Rightarrow> u32 \<Rightarrow> u8 list) \<times> buf list \<Rightarrow> nat option \<times> (nat \<Rightarrow> nat option) \<times> buf list \<times> 'd \<Rightarrow> bool" where
  "follows A n content pend [] (q, D, bs) v \<longleftrightarrow>
     (\<forall>s :: 'd ide_st. ide_view s = v \<longrightarrow> ide_shows content pend q D s \<and> bufs s = bs)"
| "follows A n content pend (e # es) st v \<longleftrightarrow>
     (\<forall>st' s. ide_spec e st = Some st' \<longrightarrow> ide_view s = v \<longrightarrow> ide_ready e s \<longrightarrow>
        (\<exists>t. ide_call A n e s t \<and> follows A n content pend es st' (ide_view t)))"

lemma ide_shows_view: "ide_view s = ide_view t \<Longrightarrow> ide_shows content pend q D s = ide_shows content pend q D t"
  by (simp add: ide_view_def ide_shows_def)

lemma ide_step:
  fixes s :: "'d ide_st"
  assumes A: "ata_disk A n content pend" and s: "ide_shows content pend q D s"
    and e: "ide_spec e (q, D, bufs s) = Some (q', D', bs')" and r: "ide_ready e s"
  shows "\<exists>t. ide_call A n e s t \<and> ide_shows content pend q' D' t \<and> bufs t = bs'"
proof (cases e)
  case (Request b)
  then have b: "b < NBUF" "b \<notin> set q" "request_ok (bufs s ! b)" and q: "q' = q @ [b]" "D' = D" "bs' = bufs s" using e by (auto split: if_splits)
  obtain pid where "ctx {} pid s" "locked_by pid b s" "b_dev (bufs s ! b) = 0 \<or> havedisk1 s" using r Request by auto
  from iderw_queues [OF A this(1,2) s b this(3)] show ?thesis unfolding Request q by auto
next
  case Interrupt
  then have l: "lockset {} s" using r by simp
  show ?thesis
  proof (cases q)
    case Nil
    then show ?thesis using ideintr_idle [OF l, of content pend D A n] s e Interrupt by (auto simp: ide_shows_def)
  next
    case (Cons b q'')
    then have i: "idequeue s = Some b" using s by (simp add: ide_shows_def)
    show ?thesis using ideintr_serves [OF A l, of b q'' D] s e Interrupt Cons i by auto
  qed
next
  case (Change b x)
  then have b: "b < NBUF" "b \<notin> set q" and q: "q' = q" "D' = D" "bs' = (bufs s)[b := x]" using e by (auto split: if_splits)
  have "(bufs s)[b := x] ! c = bufs s ! c" if "c \<in> set q" for c using that b(2) by (metis nth_list_update_neq)
  then show ?thesis using s b unfolding Change q by (auto simp: ide_shows_def serving_upd)
qed

text \<open>
  C6: The disk driver. On a controller that behaves as the ATA standard says, the driver of the IDE disk is a queue: whatever processes and interrupts come in
  whatever order, each request takes effect on the disk and on its buffer exactly as with the memory disk, one after the other in the order in which they were made, so that
  a read returns what the requests before it have written; the process sleeps until then and is woken by the interrupt that ends its request.
\<close>

theorem ide_serves_in_order:
  fixes s :: "'d ide_st"
  assumes "ata_disk A n content pend" "ide_shows content pend q D s"
  shows "follows A n content pend es (q, D, bufs s) (ide_view s)"
  using assms(2)
proof (induction es arbitrary: q D s)
  case Nil
  then show ?case by (auto simp: ide_view_def ide_shows_def)
next
  case (Cons e es)
  show ?case
    unfolding follows.simps
  proof (intro allI impI)
    fix st' and s' :: "'d ide_st"
    assume e: "ide_spec e (q, D, bufs s) = Some st'" and v: "ide_view s' = ide_view s" and r: "ide_ready e s'"
    obtain q' D' bs' where st: "st' = (q', D', bs')" by (cases st')
    have s': "ide_shows content pend q D s'" "bufs s' = bufs s" using Cons.prems ide_shows_view [OF v] v by (auto simp: ide_view_def)
    obtain t where "ide_call A n e s' t" "ide_shows content pend q' D' t" "bufs t = bs'"
      using ide_step [OF assms(1) s'(1) _ r] e st s'(2) by auto
    then show "\<exists>t. ide_call A n e s' t \<and> follows A n content pend es st' (ide_view t)" using Cons.IH st by blast
  qed
qed

section \<open>A controller\<close>

text \<open>A controller of this kind: it is always ready and keeps the registers that were written last.\<close>

record sim =
  sim_disk :: "u32 \<Rightarrow> u32 \<Rightarrow> u8 list"
  sim_regs :: "u16 \<Rightarrow> u8"
  sim_pend :: "(u32 \<times> u32) option"

definition sim_lba :: "sim \<Rightarrow> u32 \<times> u32" where
  "sim_lba d =
     (ucast (drop_bit 4 (sim_regs d 0x1f6) AND 1),
      ucast (sim_regs d 0x1f3) OR push_bit 8 (ucast (sim_regs d 0x1f4)) OR push_bit 16 (ucast (sim_regs d 0x1f5))
        OR push_bit 24 (ucast (sim_regs d 0x1f6 AND 0x0f)))"

definition sim_content :: "sim \<Rightarrow> u32 \<Rightarrow> u32 \<Rightarrow> u8 list" where
  "sim_content d v b = take 512 (sim_disk d v b @ replicate 512 0)"

definition sim_ata :: "sim ata" where
  "sim_ata =
     \<lparr>port_in = (\<lambda>port d. (IDE_DRDY, d)),
      port_out = (\<lambda>port v d.
        if port = 0x1f7 then (if v = IDE_CMD_READ then d\<lparr>sim_pend := Some (sim_lba d)\<rparr> else d)
        else d\<lparr>sim_regs := (sim_regs d)(port := v)\<rparr>),
      port_ins = (\<lambda>port cnt d. (case sim_pend d of None \<Rightarrow> [] | Some (v, b) \<Rightarrow> sim_content d v b, d\<lparr>sim_pend := None\<rparr>)),
      port_outs = (\<lambda>port bs d. d\<lparr>sim_disk := (sim_disk d)(fst (sim_lba d) := (sim_disk d (fst (sim_lba d)))(snd (sim_lba d) := bs))\<rparr>)\<rparr>"

lemma low_byte: "ucast (v AND 0xff :: u32) = (ucast v :: u8)"
proof -
  have "mask 8 = (0xff :: u32)" by (simp add: mask_eq_exp_minus_1)
  then have "v AND 0xff = take_bit 8 v" by (simp add: take_bit_eq_mask)
  then show ?thesis by (auto intro!: bit_word_eqI simp: bit_ucast_iff bit_take_bit_iff)
qed

lemma lba_bytes:
  fixes w :: u32
  assumes "drop_bit 24 w = 0"
  shows "ucast (ucast (w AND 0xff) :: u8) OR push_bit 8 (ucast (ucast (drop_bit 8 w AND 0xff) :: u8)) OR
    push_bit 16 (ucast (ucast (drop_bit 16 w AND 0xff) :: u8)) = w"
  using rd32_bytes [of w] assms by (simp only: low_byte) simp

lemma drive_bit: "dev AND 1 = (0 :: u32) \<or> dev AND 1 = (1 :: u32)"
  by (simp add: and_one_eq mod_2_eq_odd)

lemma sim_setup:
  assumes "blk < IDE_BLOCKS"
  shows "sim_lba (ata_setup sim_ata dev blk d) = (dev AND 1, blk)"
    "sim_disk (ata_setup sim_ata dev blk d) = sim_disk d" "sim_pend (ata_setup sim_ata dev blk d) = sim_pend d"
proof -
  have "unat blk < 1000" using assms by (simp add: word_less_nat_alt IDE_BLOCKS_def)
  then have "unat (drop_bit 24 blk) = 0" by (simp add: drop_bit_eq_div unat_div)
  then have z: "drop_bit 24 blk = 0" by (simp add: unat_eq_0)
  show "sim_disk (ata_setup sim_ata dev blk d) = sim_disk d" "sim_pend (ata_setup sim_ata dev blk d) = sim_pend d"
    by (simp_all add: ata_setup_def sim_ata_def)
  show "sim_lba (ata_setup sim_ata dev blk d) = (dev AND 1, blk)"
    using lba_bytes [OF z] drive_bit [of dev]
    by (elim disjE) (simp_all only: ata_setup_def z, simp_all add: sim_lba_def sim_ata_def)
qed

lemma sim_ata_ok: "ata_disk sim_ata 1 sim_content sim_pend"
proof -
  have w: "ata_wait sim_ata 1 d = Some (IDE_DRDY, d)" for d
    by (simp add: sim_ata_def IDE_DRDY_def IDE_BSY_def)
  have e: "IDE_DRDY AND (IDE_DF OR IDE_ERR) = 0" by (simp add: IDE_DRDY_def IDE_DF_def IDE_ERR_def)
  have c: "sim_content (d\<lparr>sim_pend := p\<rparr>) = sim_content d" for d p by (simp add: sim_content_def fun_eq_iff)
  have s: "sim_content (ata_setup sim_ata dev blk d) = sim_content d" if "blk < IDE_BLOCKS" for dev blk d
    using sim_setup(2) [OF that] by (simp add: sim_content_def fun_eq_iff)
  show ?thesis
    unfolding ata_disk_def
  proof (intro conjI allI impI)
    fix d :: sim show "\<exists>r f. ata_wait sim_ata 1 d = Some (r, f) \<and> r AND (IDE_DF OR IDE_ERR) = 0 \<and> sim_content f = sim_content d \<and> sim_pend f = sim_pend d"
      using w e by auto
  next
    fix d :: sim and dev blk assume "sim_pend d = None" "blk < IDE_BLOCKS"
    then show "sim_content (port_out sim_ata 0x1f7 IDE_CMD_READ (ata_setup sim_ata dev blk d)) = sim_content d"
      "sim_pend (port_out sim_ata 0x1f7 IDE_CMD_READ (ata_setup sim_ata dev blk d)) = Some (dev AND 1, blk)"
      using s sim_setup(1) by (simp_all add: sim_ata_def [THEN arg_cong [of _ _ port_out]] c)
  next
    fix d :: sim and v blk assume "sim_pend d = Some (v, blk)"
    then show "\<exists>f. port_ins sim_ata 0x1f0 128 d = (sim_content d v blk, f) \<and> sim_content f = sim_content d \<and> sim_pend f = None"
      by (auto simp: sim_ata_def c)
  next
    fix d :: sim and dev blk and bs :: "u8 list" assume a: "sim_pend d = None" "blk < IDE_BLOCKS" "length bs = 512"
    let ?e = "ata_setup sim_ata dev blk d"
    have r: "port_outs sim_ata 0x1f0 bs (port_out sim_ata 0x1f7 IDE_CMD_WRITE ?e) =
        ?e\<lparr>sim_disk := (sim_disk ?e)(fst (sim_lba ?e) := (sim_disk ?e (fst (sim_lba ?e)))(snd (sim_lba ?e) := bs))\<rparr>"
      by (simp add: sim_ata_def [THEN arg_cong [of _ _ port_out]] sim_ata_def [THEN arg_cong [of _ _ port_outs]] IDE_CMD_WRITE_def IDE_CMD_READ_def)
    show "sim_content (port_outs sim_ata 0x1f0 bs (port_out sim_ata 0x1f7 IDE_CMD_WRITE ?e)) =
        (sim_content d)(dev AND 1 := (sim_content d (dev AND 1))(blk := bs))"
      using a(3) unfolding r sim_setup [OF a(2)] by (simp add: sim_content_def fun_eq_iff)
    show "sim_pend (port_outs sim_ata 0x1f0 bs (port_out sim_ata 0x1f7 IDE_CMD_WRITE ?e)) = None"
      using a(1) unfolding r by (simp add: sim_setup [OF a(2)])
  qed (simp add: sim_content_def)
qed

definition demo_ide :: "sim ide_st" where
  "demo_ide =
     vm_st.extend demo_vm (buf_st_ext (\<lambda>_. \<lparr>sl_locked = 1, sl_name = [], sl_pid = 2\<rparr>)
       (replicate 30 \<lparr>b_flags = 0, b_dev = 1, b_blockno = 7, b_refcnt = 1, b_data = replicate 512 0\<rparr>) (\<lambda>i. i) (\<lambda>i. i) [] []
       (ide_st_ext None (\<lambda>_. None) True \<lparr>sim_disk = (\<lambda>_ _. replicate 512 9), sim_regs = (\<lambda>_. 0), sim_pend = None\<rparr> ()))"

theorem ide_serves_in_order_witness:
  "\<exists>t. ide_iderw sim_ata 1 0 demo_ide = Wait Switched t \<and> ide_shows sim_content sim_pend [0] (\<lambda>_ _. replicate 512 9) t"
proof -
  have b: "bufs demo_ide ! 0 = \<lparr>b_flags = 0, b_dev = 1, b_blockno = 7, b_refcnt = 1, b_data = replicate 512 0\<rparr>" "length (bufs demo_ide) = NBUF"
    by (simp_all add: demo_ide_def vm_st.defs NBUF_def)
  have s: "ide_shows sim_content sim_pend [] (\<lambda>_ _. replicate 512 9) demo_ide"
    using b(2) by (simp add: ide_shows_def serving_def demo_ide_def vm_st.defs sim_content_def fun_eq_iff)
  have r: "request_ok (bufs demo_ide ! 0)" by (simp add: b request_ok_def B_VALID_def IDE_BLOCKS_def)
  have "ctx {} 2 demo_ide" "locked_by 2 0 demo_ide" "havedisk1 demo_ide"
    by (simp_all add: ctx_def lockset_def demo_ide_def vm_st.defs demo_vm_def cpu_found_def curcpu_def demo_table_def locked_by_def)
  then have y: "ide_ready (Request 0) demo_ide" by auto
  have "ide_spec (Request 0) ([], \<lambda>_ _. replicate 512 9, bufs demo_ide) = Some ([0], \<lambda>_ _. replicate 512 9, bufs demo_ide)"
    using r by (simp add: NBUF_def)
  then obtain t where "ide_call sim_ata 1 (Request 0) demo_ide t" "follows sim_ata 1 sim_content sim_pend [] ([0], \<lambda>_ _. replicate 512 9, bufs demo_ide) (ide_view t)"
    using ide_serves_in_order [OF sim_ata_ok s, of "[Request 0]", unfolded follows.simps(2), rule_format, OF _ refl y] by blast
  then show ?thesis by auto
qed

end
