(* ===== verification/Ulib.thy ===== *)
theory Ulib
  imports Shellrun
begin

text \<open>
  The user library: the rest of \<^verbatim>\<open>ulib.c\<close> and \<^verbatim>\<open>printf.c\<close>. Programs are written against the system calls of the kernel, which are an
  argument (\<open>usys\<close>), in the outcome monad of the kernel: a call that blocks ends in the outcome \<open>Wait\<close>. Shown is what \<open>printf\<close> writes,
  that \<open>atoi\<close> reads back what it prints, and that \<open>strcmp\<close> orders strings as their bytes.
\<close>

section \<open>System calls\<close>

text \<open>
  The calls of \<^verbatim>\<open>user.h\<close> that the programs make. A call of \<open>read\<close> gives the number it returns and the bytes it has stored in the buffer; \<open>fstat\<close>
  gives no status when it fails. \<open>exit\<close> does not return.
\<close>

record ('w, 'k) usys =
  u_exit :: "'k \<Rightarrow> ('w, unit, 'k) outcome"
  u_read :: "int \<Rightarrow> int \<Rightarrow> 'k \<Rightarrow> ('w, int \<times> u8 list, 'k) outcome"
  u_write :: "int \<Rightarrow> u8 list \<Rightarrow> 'k \<Rightarrow> ('w, int, 'k) outcome"
  u_open :: "u8 list \<Rightarrow> u32 \<Rightarrow> 'k \<Rightarrow> ('w, int, 'k) outcome"
  u_close :: "int \<Rightarrow> 'k \<Rightarrow> ('w, int, 'k) outcome"
  u_fstat :: "int \<Rightarrow> 'k \<Rightarrow> ('w, stat option, 'k) outcome"
  u_unlink :: "u8 list \<Rightarrow> 'k \<Rightarrow> ('w, int, 'k) outcome"
  u_mkdir :: "u8 list \<Rightarrow> 'k \<Rightarrow> ('w, int, 'k) outcome"
  u_link :: "u8 list \<Rightarrow> u8 list \<Rightarrow> 'k \<Rightarrow> ('w, int, 'k) outcome"
  u_kill :: "u32 \<Rightarrow> 'k \<Rightarrow> ('w, int, 'k) outcome"

type_synonym ('w, 'k, 'a) uprog = "'k \<Rightarrow> ('w, 'a, 'k) outcome"

definition uexit :: "('w, 'k) usys \<Rightarrow> ('w, 'k, 'a) uprog" where
  "uexit sys = seqM (u_exit sys) (undef ''exit returned'')"

text \<open>The bytes of a literal.\<close>

definition lit :: "string \<Rightarrow> u8 list" where
  "lit = map of_char"

lemma lit_simps [simp]: "lit [] = []" "lit (c # cs) = of_char c # lit cs" "lit (cs @ ds) = lit cs @ lit ds"
  by (simp_all add: lit_def)

section \<open>Strings and numbers\<close>

text \<open>Strings are the lists of their bytes before the terminating zero. \<open>strcmp\<close> reads that zero where one of them ends.\<close>

fun ustrcmp :: "u8 list \<Rightarrow> u8 list \<Rightarrow> int" where
  "ustrcmp (p # ps) (q # qs) = (if p = q then ustrcmp ps qs else uint p - uint q)"
| "ustrcmp (p # ps) [] = uint p"
| "ustrcmp [] (q # qs) = 0 - uint q"
| "ustrcmp [] [] = 0"

text \<open>The loop of \<open>strcpy\<close>: the bytes of the source up to its zero over the beginning of the target.\<close>

definition ustrcpy :: "u8 list \<Rightarrow> u8 list \<Rightarrow> u8 list" where
  "ustrcpy s t = blit s 0 (t @ [0])"

text \<open>\<open>memset\<close> and \<open>memmove\<close> on memory; unlike the kernel's, this \<open>memmove\<close> always copies upwards.\<close>

definition umemset :: "mem \<Rightarrow> u32 \<Rightarrow> u32 \<Rightarrow> u32 \<Rightarrow> mem" where
  "umemset m dst c n = stosb m dst (ucast c) (unat n)"

definition umemmove :: "mem \<Rightarrow> u32 \<Rightarrow> u32 \<Rightarrow> int \<Rightarrow> mem" where
  "umemmove m dst src n = copy_up m dst src (nat n)"

fun uatoi_loop :: "u32 \<Rightarrow> u8 list \<Rightarrow> u32" where
  "uatoi_loop n [] = n"
| "uatoi_loop n (c # s) = (if 48 \<le> c \<and> c \<le> 57 then uatoi_loop (n * 10 + ucast c - 48) s else n)"

definition uatoi :: "u8 list \<Rightarrow> u32" where
  "uatoi s = uatoi_loop 0 s"

definition ustat :: "('w, 'k) usys \<Rightarrow> u8 list \<Rightarrow> ('w, 'k, stat option) uprog" where
  "ustat sys n =
     bindM (u_open sys n O_RDONLY) (\<lambda>fd.
     if fd < 0 then ret None
     else bindM (u_fstat sys fd) (\<lambda>r.
     seqM (u_close sys fd)
     (ret r)))"

section \<open>Formatted output\<close>

definition uputc :: "('w, 'k) usys \<Rightarrow> int \<Rightarrow> u8 \<Rightarrow> ('w, 'k, unit) uprog" where
  "uputc sys fd c = seqM (u_write sys fd [c]) (ret ())"

fun uputs :: "('w, 'k) usys \<Rightarrow> int \<Rightarrow> u8 list \<Rightarrow> ('w, 'k, unit) uprog" where
  "uputs sys fd [] = ret ()"
| "uputs sys fd (c # cs) = seqM (uputc sys fd c) (uputs sys fd cs)"

definition udigits :: "u8 list" where "udigits = lit ''0123456789ABCDEF''"

text \<open>The \<open>do\<close> loop of \<open>printint\<close>, least significant digit first, and its buffer.\<close>

function udigit_loop :: "nat \<Rightarrow> nat \<Rightarrow> u8 list" where
  "udigit_loop base x =
     udigits ! (x mod base) # (if 2 \<le> base \<and> x div base \<noteq> 0 then udigit_loop base (x div base) else [])"
  by auto
termination by (relation "measure snd") (auto intro!: div_less_dividend simp: div_greater_zero_iff)

declare udigit_loop.simps [simp del]

definition uint_buf :: "u32 \<Rightarrow> nat \<Rightarrow> bool \<Rightarrow> u8 list" where
  "uint_buf xx base sign =
     (let neg = sign \<and> sint xx < 0;
          x = (if neg then - xx else xx)
      in udigit_loop base (unat x) @ (if neg then lit ''-'' else []))"

definition uprintint :: "('w, 'k) usys \<Rightarrow> int \<Rightarrow> u32 \<Rightarrow> nat \<Rightarrow> bool \<Rightarrow> ('w, 'k, unit) uprog" where
  "uprintint sys fd xx base sign = uputs sys fd (rev (uint_buf xx base sign))"

text \<open>An argument of \<open>printf\<close>: a word, or a pointer to a string that may be null.\<close>

datatype uarg = UInt u32 | UStr "u8 list option"

text \<open>The loop of \<open>printf\<close>; the third argument is its variable \<open>state\<close>, true after a percent sign.\<close>

fun uprintf_loop :: "('w, 'k) usys \<Rightarrow> int \<Rightarrow> bool \<Rightarrow> string \<Rightarrow> uarg list \<Rightarrow> ('w, 'k, unit) uprog" where
  "uprintf_loop sys fd st [] ap = ret ()"
| "uprintf_loop sys fd False (c # fmt) ap =
     (if c = CHR ''%'' then uprintf_loop sys fd True fmt ap
      else seqM (uputc sys fd (of_char c)) (uprintf_loop sys fd False fmt ap))"
| "uprintf_loop sys fd True (c # fmt) ap =
     (if c = CHR ''d'' then
        (case ap of UInt w # ap' \<Rightarrow> seqM (uprintint sys fd w 10 True) (uprintf_loop sys fd False fmt ap')
         | _ \<Rightarrow> undef ''printf argument'')
      else if c = CHR ''x'' \<or> c = CHR ''p'' then
        (case ap of UInt w # ap' \<Rightarrow> seqM (uprintint sys fd w 16 False) (uprintf_loop sys fd False fmt ap')
         | _ \<Rightarrow> undef ''printf argument'')
      else if c = CHR ''s'' then
        (case ap of
           UStr s # ap' \<Rightarrow>
             seqM (uputs sys fd (case s of None \<Rightarrow> lit ''(null)'' | Some t \<Rightarrow> t)) (uprintf_loop sys fd False fmt ap')
         | _ \<Rightarrow> undef ''printf argument'')
      else if c = CHR ''c'' then
        (case ap of UInt w # ap' \<Rightarrow> seqM (uputc sys fd (ucast w)) (uprintf_loop sys fd False fmt ap')
         | _ \<Rightarrow> undef ''printf argument'')
      else if c = CHR ''%'' then seqM (uputc sys fd (of_char c)) (uprintf_loop sys fd False fmt ap)
      else seqM (uputc sys fd (of_char (CHR ''%''))) (
           seqM (uputc sys fd (of_char c)) (uprintf_loop sys fd False fmt ap)))"

definition uprintf :: "('w, 'k) usys \<Rightarrow> int \<Rightarrow> string \<Rightarrow> uarg list \<Rightarrow> ('w, 'k, unit) uprog" where
  "uprintf sys fd fmt ap = uprintf_loop sys fd False fmt ap"

section \<open>What is printed\<close>

text \<open>
  What a conversion stands for: the text and the number of arguments it takes, or nothing when the argument is of the wrong kind. A
  format is literal text with conversions in between, and a percent sign at its end prints nothing.
\<close>

definition conv_text :: "char \<Rightarrow> uarg list \<Rightarrow> (u8 list \<times> uarg list) option" where
  "conv_text c ap =
     (case ap of
        UInt w # ap' \<Rightarrow>
          if c = CHR ''d'' then Some (rev (uint_buf w 10 True), ap')
          else if c \<in> {CHR ''x'', CHR ''p''} then Some (rev (uint_buf w 16 False), ap')
          else if c = CHR ''c'' then Some ([ucast w], ap')
          else if c = CHR ''s'' then None
          else Some (if c = CHR ''%'' then lit ''%'' else lit [CHR ''%'', c], ap)
      | UStr s # ap' \<Rightarrow>
          if c = CHR ''s'' then Some (case s of None \<Rightarrow> lit ''(null)'' | Some t \<Rightarrow> t, ap')
          else if c \<in> {CHR ''d'', CHR ''x'', CHR ''p'', CHR ''c''} then None
          else Some (if c = CHR ''%'' then lit ''%'' else lit [CHR ''%'', c], ap)
      | [] \<Rightarrow>
          if c \<in> {CHR ''d'', CHR ''x'', CHR ''p'', CHR ''c'', CHR ''s''} then None
          else Some (if c = CHR ''%'' then lit ''%'' else lit [CHR ''%'', c], ap))"

fun ufmt :: "string \<Rightarrow> uarg list \<Rightarrow> u8 list option" where
  "ufmt [] ap = Some []"
| "ufmt [c] ap = Some (if c = CHR ''%'' then [] else lit [c])"
| "ufmt (c # d # fmt) ap =
     (if c = CHR ''%'' then
        (case conv_text d ap of
           None \<Rightarrow> None
         | Some (t, ap') \<Rightarrow> map_option ((@) t) (ufmt fmt ap'))
      else map_option ((#) (of_char c)) (ufmt (d # fmt) ap))"

lemma uputs_append: "uputs sys fd (xs @ ys) = seqM (uputs sys fd xs) (uputs sys fd ys)"
proof (induction xs)
  case Nil
  then show ?case by (auto simp: M_defs)
next
  case (Cons x xs)
  then show ?case by (simp add: seqM_assoc)
qed

lemma uputc_uputs: "uputc sys fd c = uputs sys fd [c]"
  by simp

lemma uprintf_conv:
  "conv_text c ap = Some (t, ap') \<Longrightarrow>
   uprintf_loop sys fd True (c # fmt) ap = seqM (uputs sys fd t) (uprintf_loop sys fd False fmt ap')"
  by (auto simp: conv_text_def uprintint_def seqM_assoc split: list.splits uarg.splits if_splits)

lemma uprintf_text: "ufmt fmt ap = Some t \<Longrightarrow> uprintf_loop sys fd False fmt ap = uputs sys fd t"
proof (induction fmt ap arbitrary: t rule: ufmt.induct)
  case (3 c d fmt ap)
  show ?case
  proof (cases "c = CHR ''%''")
    case True
    with 3(3) obtain t1 ap' t2 where d: "conv_text d ap = Some (t1, ap')" "ufmt fmt ap' = Some t2" "t = t1 @ t2"
      by (auto split: option.splits)
    show ?thesis using True uprintf_conv [OF d(1), of sys fd fmt] 3(1) [OF True d(1) refl d(2)] d(3) by (simp add: uputs_append)
  next
    case False
    then show ?thesis using 3 by auto
  qed
qed auto

lemma uprintf_prints: "ufmt fmt ap = Some t \<Longrightarrow> uprintf sys fd fmt ap = uputs sys fd t"
  by (simp add: uprintf_def uprintf_text)

section \<open>Numbers and the order of strings\<close>

definition is_digit :: "u8 \<Rightarrow> bool" where
  "is_digit c \<longleftrightarrow> 48 \<le> c \<and> c \<le> 57"

lemma udigit_ten:
  assumes "d < 10"
  shows "is_digit (udigits ! d) \<and> ucast (udigits ! d) = (of_nat d + 48 :: u32)"
proof -
  have "d \<in> set [0..<10]" using assms by simp
  then show ?thesis by (auto simp: udigits_def is_digit_def upt_conv_Cons)
qed

lemma uatoi_loop_append: "\<forall>c \<in> set xs. is_digit c \<Longrightarrow> uatoi_loop n (xs @ ys) = uatoi_loop (uatoi_loop n xs) ys"
  by (induction xs arbitrary: n) (simp_all add: is_digit_def)

lemma uatoi_stops: "ys = [] \<or> \<not> is_digit (hd ys) \<Longrightarrow> uatoi_loop n ys = n"
  by (cases ys) (auto simp: is_digit_def)

lemma udigit_loop_digits: "\<forall>c \<in> set (udigit_loop 10 x). is_digit c"
proof (induction x rule: less_induct)
  case (less x)
  show ?case using less [of "x div 10"] udigit_ten [of "x mod 10"] by (subst udigit_loop.simps) auto
qed

lemma uatoi_digits: "uatoi (rev (udigit_loop 10 x)) = of_nat x"
proof (induction x rule: less_induct)
  case (less x)
  note d = udigit_ten [of "x mod 10"]
  have step: "uatoi_loop n [udigits ! (x mod 10)] = n * 10 + of_nat (x mod 10)" for n
    using d by (simp add: is_digit_def)
  show ?case
  proof (cases "x div 10 = 0")
    case True
    then have "x mod 10 = x" by simp
    then show ?thesis using True step [of 0] by (subst udigit_loop.simps) (simp add: uatoi_def)
  next
    case False
    then have "uatoi (rev (udigit_loop 10 (x div 10))) = of_nat (x div 10)" by (intro less) simp
    then have "uatoi (rev (udigit_loop 10 x)) = of_nat (x div 10) * 10 + of_nat (x mod 10)"
      using False step udigit_loop_digits [of "x div 10"]
      by (subst udigit_loop.simps) (simp add: uatoi_def uatoi_loop_append)
    also have "\<dots> = of_nat (x div 10 * 10 + x mod 10)" by (simp only: of_nat_add of_nat_mult of_nat_numeral)
    finally show ?thesis by simp
  qed
qed

text \<open>
  \<open>atoi\<close> reads back what \<open>printf\<close> prints. For every \<open>int\<close> the conversion \<open>%d\<close> writes a minus sign when it is negative and then
  decimal digits, at least one, from which \<open>atoi\<close> gets the absolute value, whatever follows them as long as it is not a digit; the least \<open>int\<close>, which has
  no absolute value, included.
\<close>

theorem printf_atoi:
  "\<exists>ds. uprintf sys fd ''%d'' [UInt w] = uputs sys fd (if sint w < 0 then lit ''-'' @ ds else ds) \<and>
     ds \<noteq> [] \<and> (\<forall>c \<in> set ds. is_digit c) \<and>
     (us = [] \<or> \<not> is_digit (hd us) \<longrightarrow> uatoi (ds @ us) = (if sint w < 0 then - w else w))"
proof -
  let ?x = "if sint w < 0 then - w else w"
  let ?ds = "rev (udigit_loop 10 (unat ?x))"
  have "rev (uint_buf w 10 True) = (if sint w < 0 then lit ''-'' @ ?ds else ?ds)" by (simp add: uint_buf_def)
  then have "ufmt ''%d'' [UInt w] = Some (if sint w < 0 then lit ''-'' @ ?ds else ?ds)" by (simp add: conv_text_def)
  then have "uprintf sys fd ''%d'' [UInt w] = uputs sys fd (if sint w < 0 then lit ''-'' @ ?ds else ?ds)"
    by (rule uprintf_prints)
  moreover have "?ds \<noteq> []" by (subst udigit_loop.simps) simp
  moreover have "uatoi (?ds @ us) = ?x" if "us = [] \<or> \<not> is_digit (hd us)"
    using uatoi_digits [of "unat ?x"] uatoi_stops [OF that] udigit_loop_digits [of "unat ?x"]
    by (simp add: uatoi_def uatoi_loop_append)
  ultimately show ?thesis using udigit_loop_digits by (intro exI [of _ ?ds]) auto
qed

theorem printf_atoi_witness:
  "\<forall>sys :: (nat, nat) usys. \<exists>ds. uprintf sys 1 ''%d'' [UInt (- 42)] = uputs sys 1 (lit ''-'' @ ds) \<and> uatoi (ds @ lit '' x'') = 42"
proof
  fix sys :: "(nat, nat) usys"
  show "\<exists>ds. uprintf sys 1 ''%d'' [UInt (- 42)] = uputs sys 1 (lit ''-'' @ ds) \<and> uatoi (ds @ lit '' x'') = 42"
    using printf_atoi [of sys 1 "- 42" "lit '' x''"] by (auto simp: is_digit_def)
qed

text \<open>
  \<open>memmove\<close> of the user library moves a block towards lower addresses, as \<open>grep\<close> does, however much source and target overlap; towards higher
  addresses it repeats the bytes at the beginning of the source.
\<close>

lemma umemmove_down:
  assumes "unat dst \<le> unat src" "unat src + nat n \<le> 2 ^ 32"
  shows "umemmove m dst src n x = (if in_range dst (nat n) x then m (src + (x - dst)) else m x)"
  unfolding umemmove_def
proof (rule copy_up_apply)
  show "nat n \<le> 2 ^ 32" using assms(2) by linarith
  fix i j assume ij: "j < i" "i < nat n"
  have "unat (dst + of_nat j) = unat dst + j" "unat (src + of_nat i) = unat src + i"
    using unat_add_offset [of dst "nat n" j] unat_add_offset [of src "nat n" i] assms ij by linarith+
  then show "dst + of_nat j \<noteq> src + of_nat i" using assms(1) ij by (metis add_le_less_mono less_irrefl)
qed

lemma umemmove_up_smears:
  "map (umemmove (\<lambda>a. ucast a) 0x1001 0x1000 3) [0x1000, 0x1001, 0x1002, 0x1003] = [0, 0, 0, 0]"
proof -
  have "nat 3 = Suc (Suc (Suc 0))" by simp
  then show ?thesis by (simp only: umemmove_def copy_up.simps) simp
qed

lemma ustrcmp_order:
  assumes "0 \<notin> set p" "0 \<notin> set q"
  shows "(ustrcmp p q = 0 \<longleftrightarrow> p = q) \<and> (ustrcmp p q < 0 \<longleftrightarrow> (p, q) \<in> lexord {(x, y). x < y})"
  using assms
proof (induction p q rule: ustrcmp.induct)
  case (1 p ps q qs)
  show ?case
  proof (cases "p = q")
    case True
    then show ?thesis using 1 by simp
  next
    case False
    then show ?thesis by (simp add: word_less_def word_uint_eq_iff)
  qed
next
  case (2 p ps)
  then show ?case by (auto simp: uint_0_iff)
next
  case (3 q qs)
  then have "0 < uint q" by (metis list.set_intros(1) uint_0_iff uint_ge_0 order_le_less)
  then show ?case by simp
qed simp

end
