(* ===== verification/Userprog.thy ===== *)
theory Userprog
  imports Ulib
begin

text \<open>
  The small user programs: \<^verbatim>\<open>cat.c\<close>, \<^verbatim>\<open>wc.c\<close>, \<^verbatim>\<open>ls.c\<close>, \<^verbatim>\<open>echo.c\<close>, \<^verbatim>\<open>rm.c\<close>, \<^verbatim>\<open>mkdir.c\<close>, \<^verbatim>\<open>ln.c\<close> and \<^verbatim>\<open>kill.c\<close>, over
  the system calls of Ulib. The arguments of \<open>main\<close> are the strings of \<open>argv\<close>, the name of the program first. Loops that read until the end of
  their input carry fuel. Shown is, for any input in pieces of any size, what \<open>cat\<close> copies, what \<open>wc\<close> counts, and that the pipes of the
  kernel are such an input.
\<close>

section \<open>cat\<close>

fun cat :: "nat \<Rightarrow> ('w, 'k) usys \<Rightarrow> int \<Rightarrow> ('w, 'k, unit) uprog" where
  "cat 0 sys fd = nofuel"
| "cat (Suc fuel) sys fd =
     bindM (u_read sys fd 512) (\<lambda>(n, buf).
     if n > 0 then
       bindM (u_write sys 1 (take (nat n) buf)) (\<lambda>m.
       if m \<noteq> n then seqM (uprintf sys 1 (''cat: write error'' @ [CHR 0x0A]) []) (uexit sys)
       else cat fuel sys fd)
     else if n < 0 then seqM (uprintf sys 1 (''cat: read error'' @ [CHR 0x0A]) []) (uexit sys)
     else ret ())"

text \<open>
  The loop that \<open>main\<close> of several programs runs over the files it is given: open, work, close; \<open>name\<close> is the program in the message
  for a file that cannot be opened.
\<close>

fun each_file :: "('w, 'k) usys \<Rightarrow> string \<Rightarrow> (int \<Rightarrow> u8 list \<Rightarrow> ('w, 'k, unit) uprog) \<Rightarrow> u8 list list \<Rightarrow> ('w, 'k, unit) uprog" where
  "each_file sys name work [] = uexit sys"
| "each_file sys name work (f # fs) =
     bindM (u_open sys f O_RDONLY) (\<lambda>fd.
     if fd < 0 then seqM (uprintf sys 1 (name @ '': cannot open %s'' @ [CHR 0x0A]) [UStr (Some f)]) (uexit sys)
     else seqM (work fd f) (
          seqM (u_close sys fd)
          (each_file sys name work fs)))"

definition cat_main :: "nat \<Rightarrow> ('w, 'k) usys \<Rightarrow> u8 list list \<Rightarrow> ('w, 'k, unit) uprog" where
  "cat_main fuel sys argv =
     (if length argv \<le> 1 then seqM (cat fuel sys 0) (uexit sys)
      else each_file sys ''cat'' (\<lambda>fd _. cat fuel sys fd) (tl argv))"

section \<open>wc\<close>

text \<open>The four counters of \<open>wc\<close>: lines, words, characters and whether the last character was part of a word.\<close>

record counts =
  wc_l :: u32
  wc_w :: u32
  wc_c :: u32
  wc_in :: bool

text \<open>The argument of \<open>strchr\<close> in \<open>wc\<close>, and the test; a zero byte is not found in it.\<close>

definition wc_blanks :: string where "wc_blanks = [CHR '' '', CHR 0x0D, CHR 0x09, CHR 0x0A, CHR 0x0B]"

definition wc_blank :: "u8 \<Rightarrow> bool" where
  "wc_blank b = (strchr wc_blanks (char_of (unat b)) \<noteq> None)"

definition wc_char :: "u8 \<Rightarrow> counts \<Rightarrow> counts" where
  "wc_char b x =
     (let x = x\<lparr>wc_c := wc_c x + 1\<rparr>;
          x = (if b = 10 then x\<lparr>wc_l := wc_l x + 1\<rparr> else x)
      in if wc_blank b then x\<lparr>wc_in := False\<rparr>
         else if \<not> wc_in x then x\<lparr>wc_w := wc_w x + 1, wc_in := True\<rparr>
         else x)"

fun wc_loop :: "nat \<Rightarrow> ('w, 'k) usys \<Rightarrow> int \<Rightarrow> counts \<Rightarrow> ('w, 'k, int \<times> counts) uprog" where
  "wc_loop 0 sys fd x = nofuel"
| "wc_loop (Suc fuel) sys fd x =
     bindM (u_read sys fd 512) (\<lambda>(n, buf).
     if n > 0 then wc_loop fuel sys fd (fold wc_char (take (nat n) buf) x)
     else ret (n, x))"

definition wc :: "nat \<Rightarrow> ('w, 'k) usys \<Rightarrow> int \<Rightarrow> u8 list \<Rightarrow> ('w, 'k, unit) uprog" where
  "wc fuel sys fd name =
     bindM (wc_loop fuel sys fd \<lparr>wc_l = 0, wc_w = 0, wc_c = 0, wc_in = False\<rparr>) (\<lambda>(n, x).
     if n < 0 then seqM (uprintf sys 1 (''wc: read error'' @ [CHR 0x0A]) []) (uexit sys)
     else uprintf sys 1 (''%d %d %d %s'' @ [CHR 0x0A]) [UInt (wc_l x), UInt (wc_w x), UInt (wc_c x), UStr (Some name)])"

definition wc_main :: "nat \<Rightarrow> ('w, 'k) usys \<Rightarrow> u8 list list \<Rightarrow> ('w, 'k, unit) uprog" where
  "wc_main fuel sys argv =
     (if length argv \<le> 1 then seqM (wc fuel sys 0 []) (uexit sys)
      else each_file sys ''wc'' (wc fuel sys) (tl argv))"

section \<open>ls\<close>

text \<open>The loop of \<open>fmtname\<close>: \<open>i\<close> is one more than the index of \<open>p\<close>; it stops at a slash or before the beginning.\<close>

fun slash_loop :: "u8 list \<Rightarrow> nat \<Rightarrow> nat" where
  "slash_loop pth 0 = 0"
| "slash_loop pth (Suc i) = (if i < length pth \<and> pth ! i = of_char (CHR ''/'') then Suc i else slash_loop pth i)"

definition fmtname :: "u8 list \<Rightarrow> u8 list" where
  "fmtname pth =
     (let p = drop (slash_loop pth (Suc (length pth))) pth
      in if DIRSIZ \<le> length p then p
         else p @ replicate (DIRSIZ - length p) (of_char (CHR '' '')))"

definition print_stat :: "('w, 'k) usys \<Rightarrow> u8 list \<Rightarrow> stat \<Rightarrow> ('w, 'k, unit) uprog" where
  "print_stat sys name st =
     uprintf sys 1 (''%s %d %d %d'' @ [CHR 0x0A]) [UStr (Some name), UInt (scast (st_type st)), UInt (st_ino st), UInt (st_size st)]"

text \<open>
  The loop over the entries of a directory; an entry is 16 bytes, the number of its inode and its name. The path of an entry is built in a
  buffer whose end is the name up to its first zero.
\<close>

fun ls_loop :: "nat \<Rightarrow> ('w, 'k) usys \<Rightarrow> int \<Rightarrow> u8 list \<Rightarrow> ('w, 'k, unit) uprog" where
  "ls_loop 0 sys fd pth = nofuel"
| "ls_loop (Suc fuel) sys fd pth =
     bindM (u_read sys fd 16) (\<lambda>(n, de).
     if n \<noteq> 16 then ret ()
     else if get16 de 0 = 0 then ls_loop fuel sys fd pth
     else let buf = pth @ lit ''/'' @ takeWhile (\<lambda>c. c \<noteq> 0) (chunk de 2 DIRSIZ) in
       bindM (ustat sys buf) (\<lambda>r.
       seqM
         (case r of
            None \<Rightarrow> uprintf sys 1 (''ls: cannot stat %s'' @ [CHR 0x0A]) [UStr (Some buf)]
          | Some st \<Rightarrow> print_stat sys (fmtname buf) st)
         (ls_loop fuel sys fd pth)))"

definition ls :: "nat \<Rightarrow> ('w, 'k) usys \<Rightarrow> u8 list \<Rightarrow> ('w, 'k, unit) uprog" where
  "ls fuel sys pth =
     bindM (u_open sys pth O_RDONLY) (\<lambda>fd.
     if fd < 0 then uprintf sys 2 (''ls: cannot open %s'' @ [CHR 0x0A]) [UStr (Some pth)]
     else bindM (u_fstat sys fd) (\<lambda>r.
     case r of
       None \<Rightarrow>
         seqM (uprintf sys 2 (''ls: cannot stat %s'' @ [CHR 0x0A]) [UStr (Some pth)])
        (seqM (u_close sys fd) (ret ()))
     | Some st \<Rightarrow>
         seqM
           (if st_type st = T_FILE then print_stat sys (fmtname pth) st
            else if st_type st = T_DIR then
              (if length pth + 1 + DIRSIZ + 1 > 512 then uprintf sys 1 (''ls: path too long'' @ [CHR 0x0A]) []
               else ls_loop fuel sys fd pth)
            else ret ())
        (seqM (u_close sys fd) (ret ()))))"

fun ls_each :: "nat \<Rightarrow> ('w, 'k) usys \<Rightarrow> u8 list list \<Rightarrow> ('w, 'k, unit) uprog" where
  "ls_each fuel sys [] = uexit sys"
| "ls_each fuel sys (f # fs) = seqM (ls fuel sys f) (ls_each fuel sys fs)"

definition ls_main :: "nat \<Rightarrow> ('w, 'k) usys \<Rightarrow> u8 list list \<Rightarrow> ('w, 'k, unit) uprog" where
  "ls_main fuel sys argv =
     (if length argv < 2 then seqM (ls fuel sys (lit ''.'')) (uexit sys)
      else ls_each fuel sys (tl argv))"

section \<open>Programs of a few calls\<close>

fun echo_loop :: "('w, 'k) usys \<Rightarrow> u8 list list \<Rightarrow> ('w, 'k, unit) uprog" where
  "echo_loop sys [] = uexit sys"
| "echo_loop sys (a # as) =
     seqM (uprintf sys 1 ''%s%s'' [UStr (Some a), UStr (Some (if as \<noteq> [] then lit '' '' else lit [CHR 0x0A]))])
     (echo_loop sys as)"

definition echo_main :: "('w, 'k) usys \<Rightarrow> u8 list list \<Rightarrow> ('w, 'k, unit) uprog" where
  "echo_main sys argv = echo_loop sys (tl argv)"

fun rm_loop :: "('w, 'k) usys \<Rightarrow> u8 list list \<Rightarrow> ('w, 'k, unit) uprog" where
  "rm_loop sys [] = uexit sys"
| "rm_loop sys (f # fs) =
     bindM (u_unlink sys f) (\<lambda>r.
     if r < 0 then seqM (uprintf sys 2 (''rm: %s failed to delete'' @ [CHR 0x0A]) [UStr (Some f)]) (uexit sys)
     else rm_loop sys fs)"

definition rm_main :: "('w, 'k) usys \<Rightarrow> u8 list list \<Rightarrow> ('w, 'k, unit) uprog" where
  "rm_main sys argv =
     (if length argv < 2 then seqM (uprintf sys 2 (''Usage: rm files...'' @ [CHR 0x0A]) []) (uexit sys)
      else rm_loop sys (tl argv))"

fun mkdir_loop :: "('w, 'k) usys \<Rightarrow> u8 list list \<Rightarrow> ('w, 'k, unit) uprog" where
  "mkdir_loop sys [] = uexit sys"
| "mkdir_loop sys (f # fs) =
     bindM (u_mkdir sys f) (\<lambda>r.
     if r < 0 then seqM (uprintf sys 2 (''mkdir: %s failed to create'' @ [CHR 0x0A]) [UStr (Some f)]) (uexit sys)
     else mkdir_loop sys fs)"

definition mkdir_main :: "('w, 'k) usys \<Rightarrow> u8 list list \<Rightarrow> ('w, 'k, unit) uprog" where
  "mkdir_main sys argv =
     (if length argv < 2 then seqM (uprintf sys 2 (''Usage: mkdir files...'' @ [CHR 0x0A]) []) (uexit sys)
      else mkdir_loop sys (tl argv))"

definition ln_main :: "('w, 'k) usys \<Rightarrow> u8 list list \<Rightarrow> ('w, 'k, unit) uprog" where
  "ln_main sys argv =
     (case argv of
        [_, old, new] \<Rightarrow>
          bindM (u_link sys old new) (\<lambda>r.
          seqM (whenM (r < 0) (uprintf sys 2 (''link %s %s: failed'' @ [CHR 0x0A]) [UStr (Some old), UStr (Some new)]))
          (uexit sys))
      | _ \<Rightarrow> seqM (uprintf sys 2 (''Usage: ln old new'' @ [CHR 0x0A]) []) (uexit sys))"

fun kill_loop :: "('w, 'k) usys \<Rightarrow> u8 list list \<Rightarrow> ('w, 'k, unit) uprog" where
  "kill_loop sys [] = uexit sys"
| "kill_loop sys (a # as) = seqM (u_kill sys (uatoi a)) (kill_loop sys as)"

definition kill_main :: "('w, 'k) usys \<Rightarrow> u8 list list \<Rightarrow> ('w, 'k, unit) uprog" where
  "kill_main sys argv =
     (if length argv < 2 then seqM (uprintf sys 2 (''usage: kill pid...'' @ [CHR 0x0A]) []) (uexit sys)
      else kill_loop sys (tl argv))"

section \<open>Input in pieces\<close>

text \<open>
  What the programs rely on in the kernel: \<open>read\<close> on the descriptor \<open>fd\<close> takes some bytes off the input that is left, at most as many as asked for and none only
  at its end; \<open>write\<close> on the standard output appends to what has been written, as long as that is within \<open>cap\<close>.
\<close>

locale user_io =
  fixes sys :: "('w, 'k) usys" and fd :: int and ready :: "'k \<Rightarrow> bool"
    and inp :: "'k \<Rightarrow> u8 list" and out :: "'k \<Rightarrow> u8 list" and cap :: nat
  assumes read_law: "\<And>k n. ready k \<Longrightarrow> 0 < n \<Longrightarrow>
      \<exists>c t. u_read sys fd n k = Ok (int (length c), c) t \<and> int (length c) \<le> n \<and> ready t \<and>
        inp k = c @ inp t \<and> (c = [] \<longrightarrow> inp k = []) \<and> out t = out k"
    and write_law: "\<And>k bs. ready k \<Longrightarrow> length (out k) + length bs \<le> cap \<Longrightarrow>
      \<exists>t. u_write sys 1 bs k = Ok (int (length bs)) t \<and> ready t \<and> inp t = inp k \<and> out t = out k @ bs"
begin

lemma uputs_writes:
  "ready k \<Longrightarrow> length (out k) + length cs \<le> cap \<Longrightarrow>
   \<exists>t. uputs sys 1 cs k = Ok () t \<and> ready t \<and> inp t = inp k \<and> out t = out k @ cs"
proof (induction cs arbitrary: k)
  case Nil
  then show ?case by (simp add: ret_def)
next
  case (Cons c cs)
  from write_law [OF Cons.prems(1), of "[c]"] Cons.prems(2) obtain t where
    t: "u_write sys 1 [c] k = Ok (int (length [c])) t" "ready t" "inp t = inp k" "out t = out k @ [c]" by auto
  have c: "uputc sys 1 c k = Ok () t" using t(1) by (simp add: uputc_def seqM_def bindM_def ret_def)
  from Cons.IH [OF t(2)] Cons.prems(2) t(3,4) obtain u where
    "uputs sys 1 cs t = Ok () u" "ready u" "inp u = inp k" "out u = out k @ c # cs" by auto
  then show ?case using c by (simp add: seqM_def bindM_def)
qed

lemma read_some:
  assumes "ready k"
  obtains c t where "u_read sys fd 512 k = Ok (int (length c), c) t" "ready t" "inp k = c @ inp t" "c = [] \<Longrightarrow> inp k = []" "out t = out k"
  using read_law [OF assms, of 512] by auto

lemma cat_loop_copies:
  "ready k \<Longrightarrow> length (inp k) < fuel \<Longrightarrow> length (out k) + length (inp k) \<le> cap \<Longrightarrow>
   \<exists>t. cat fuel sys fd k = Ok () t \<and> ready t \<and> inp t = [] \<and> out t = out k @ inp k"
proof (induction fuel arbitrary: k)
  case 0
  then show ?case by simp
next
  case (Suc fuel)
  obtain c t where r: "u_read sys fd 512 k = Ok (int (length c), c) t" "ready t" "inp k = c @ inp t" "c = [] \<Longrightarrow> inp k = []" "out t = out k"
    using read_some [OF Suc.prems(1)] by blast
  show ?case
  proof (cases "c = []")
    case True
    then show ?thesis using r by (simp add: bindM_def ret_def)
  next
    case False
    from write_law [OF r(2), of c] Suc.prems(3) r(3,5) obtain u where
      u: "u_write sys 1 c t = Ok (int (length c)) u" "ready u" "inp u = inp t" "out u = out k @ c" by auto
    from Suc.IH [OF u(2)] Suc.prems(2,3) False u(3,4) r(3) obtain v where
      "cat fuel sys fd u = Ok () v" "ready v" "inp v = []" "out v = out k @ inp k" by (cases c) auto
    then show ?thesis using False r(1) u(1) by (simp add: bindM_def)
  qed
qed

lemma wc_loop_folds:
  "ready k \<Longrightarrow> length (inp k) < fuel \<Longrightarrow>
   \<exists>t. wc_loop fuel sys fd x k = Ok (0, fold wc_char (inp k) x) t \<and> ready t \<and> inp t = [] \<and> out t = out k"
proof (induction fuel arbitrary: k x)
  case 0
  then show ?case by simp
next
  case (Suc fuel)
  obtain c t where r: "u_read sys fd 512 k = Ok (int (length c), c) t" "ready t" "inp k = c @ inp t" "c = [] \<Longrightarrow> inp k = []" "out t = out k"
    using read_some [OF Suc.prems(1)] by blast
  show ?case
  proof (cases "c = []")
    case True
    then show ?thesis using r by (simp add: bindM_def ret_def)
  next
    case False
    then have "length (inp t) < fuel" using Suc.prems(2) r(3) by (cases c) auto
    from Suc.IH [OF r(2) this, of "fold wc_char c x"] r(1,3,5) False show ?thesis by (simp add: bindM_def)
  qed
qed

end

section \<open>What wc counts\<close>

text \<open>The words of a text: the longest pieces without white space.\<close>

definition white :: "u8 \<Rightarrow> bool" where
  "white c \<longleftrightarrow> c \<in> {32, 9, 10, 11, 13}"

function words_of :: "u8 list \<Rightarrow> u8 list list" where
  "words_of [] = []"
| "words_of (c # cs) =
     (if white c then words_of cs
      else (c # takeWhile (\<lambda>d. \<not> white d) cs) # words_of (dropWhile (\<lambda>d. \<not> white d) cs))"
  by pat_completeness auto
termination by (relation "measure length") (auto simp: le_imp_less_Suc length_dropWhile_le)

lemma wc_blank_white: "wc_blank b = white b"
proof -
  have c: "char_of (unat b) = d \<longleftrightarrow> unat b = of_char d" for d
    using unsigned_less [where 'a = nat, of b] by (auto simp: char_of_eq_iff take_bit_eq_mod)
  have "wc_blank b \<longleftrightarrow> char_of (unat b) \<in> set wc_blanks"
    unfolding wc_blank_def by (subst strchr_None_iff) (simp_all add: wc_blanks_def NUL_def)
  also have "\<dots> \<longleftrightarrow> unat b \<in> {32, 13, 9, 10, 11}" by (simp add: wc_blanks_def c)
  also have "\<dots> \<longleftrightarrow> white b" by (auto simp: white_def word_unat_eq_iff)
  finally show ?thesis .
qed

lemma wc_fold:
  "fold wc_char cs x =
     \<lparr>wc_l = wc_l x + of_nat (count_list cs 10),
      wc_w = wc_w x + of_nat (length (words_of (if wc_in x then dropWhile (\<lambda>d. \<not> white d) cs else cs))),
      wc_c = wc_c x + of_nat (length cs),
      wc_in = (if cs = [] then wc_in x else \<not> white (last cs))\<rparr>"
proof (induction cs arbitrary: x)
  case Nil
  then show ?case by simp
next
  case (Cons c cs)
  have "white 10" by (simp add: white_def)
  then show ?case unfolding fold_simps Cons.IH by (auto simp: wc_char_def wc_blank_white Let_def)
qed

text \<open>The line that \<open>wc\<close> prints for a text: lines, words, characters and the name.\<close>

definition decimal :: "nat \<Rightarrow> u8 list" where
  "decimal n = rev (udigit_loop 10 n)"

definition wc_line :: "u8 list \<Rightarrow> u8 list \<Rightarrow> u8 list" where
  "wc_line cs name =
     decimal (count_list cs 10) @ lit '' '' @ decimal (length (words_of cs)) @ lit '' '' @
     decimal (length cs) @ lit '' '' @ name @ lit [CHR 0x0A]"

lemma decimal_int_buf: "n < 2 ^ 31 \<Longrightarrow> rev (uint_buf (of_nat n) 10 True) = decimal n"
proof -
  assume n: "n < 2 ^ 31"
  then have u: "unat (of_nat n :: u32) = n" by (simp add: unsigned_of_nat take_bit_nat_eq_self)
  with n have "0 \<le> sint (of_nat n :: u32)" by (subst sint_small) simp_all
  then show ?thesis using u by (simp add: uint_buf_def decimal_def)
qed

lemma length_words_of: "length (words_of cs) \<le> length cs"
proof (induction cs rule: words_of.induct)
  case (2 c cs)
  then show ?case using length_dropWhile_le [of "\<lambda>d. \<not> white d" cs] by auto
qed simp

lemma wc_text:
  assumes "length cs < 2 ^ 31"
  shows "ufmt (''%d %d %d %s'' @ [CHR 0x0A])
     [UInt (of_nat (count_list cs 10)), UInt (of_nat (length (words_of cs))), UInt (of_nat (length cs)), UStr (Some name)] =
       Some (wc_line cs name)"
proof -
  have "count_list cs 10 < 2 ^ 31" "length (words_of cs) < 2 ^ 31"
    using assms count_le_length [of cs 10] length_words_of [of cs] by linarith+
  then show ?thesis using assms by (simp add: conv_text_def wc_line_def decimal_int_buf)
qed

text \<open>
  C22: \<open>wc\<close> counts its whole input. Whatever pieces the calls of \<open>read\<close> return it in, words cut by the end of a buffer included, \<open>wc\<close> reads the input to its
  end and writes one line with the number of lines, of words (the longest pieces without blanks), of bytes, and the name it was given,
  provided the input is shorter than \<open>2 ^ 31\<close> bytes and the line can be written.
\<close>

theorem wc_counts:
  assumes read_law: "\<And>k n. ready k \<Longrightarrow> 0 < n \<Longrightarrow>
      \<exists>c t. u_read sys fd n k = Ok (int (length c), c) t \<and> int (length c) \<le> n \<and> ready t \<and>
        inp k = c @ inp t \<and> (c = [] \<longrightarrow> inp k = []) \<and> out t = out k"
    and write_law: "\<And>k bs. ready k \<Longrightarrow> length (out k) + length bs \<le> cap \<Longrightarrow>
      \<exists>t. u_write sys 1 bs k = Ok (int (length bs)) t \<and> ready t \<and> inp t = inp k \<and> out t = out k @ bs"
    and start: "ready k" "length (inp k) < 2 ^ 31" "length (inp k) < fuel" "length (out k) + length (wc_line (inp k) name) \<le> cap"
  shows "\<exists>t. wc fuel sys fd name k = Ok () t \<and> ready t \<and> inp t = [] \<and> out t = out k @ wc_line (inp k) name"
proof -
  note io = user_io.intro [of ready sys fd inp out cap, OF read_law write_law]
  let ?x = "\<lparr>wc_l = 0, wc_w = 0, wc_c = 0, wc_in = False\<rparr> :: counts"
  from user_io.wc_loop_folds [OF io start(1,3), of ?x] obtain t where
    t: "wc_loop fuel sys fd ?x k = Ok (0, fold wc_char (inp k) ?x) t" "ready t" "inp t = []" "out t = out k" by blast
  have "wc fuel sys fd name k = uputs sys 1 (wc_line (inp k) name) t"
    using t(1) uprintf_prints [OF wc_text [OF start(2), of name], of sys 1]
    by (simp add: wc_def bindM_def wc_fold del: append.simps)
  then show ?thesis using user_io.uputs_writes [OF io t(2), of "wc_line (inp k) name"] start(4) t(3,4) by simp
qed

section \<open>Pipes of the kernel as standard input and output\<close>

text \<open>
  A process whose descriptor 0 is the open file \<open>f\<close> and whose descriptor 1 is the open file \<open>g\<close>, with the kernel's own \<open>fileread\<close> and
  \<open>filewrite\<close>; the calls that \<open>cat\<close> and \<open>wc\<close> do not make on their standard input fail.
\<close>

definition piped_sys :: "nat \<Rightarrow> nat \<Rightarrow> (waiting, 'x file_st_scheme) usys" where
  "piped_sys f g =
     \<lparr>u_exit = waitM Switched,
      u_read = (\<lambda>fd n. if fd = 0 then fileread f n else ret (- 1, [])),
      u_write = (\<lambda>fd bs. if fd = 1 then filewrite g bs (int (length bs)) else ret (- 1)),
      u_open = (\<lambda>_ _. ret (- 1)), u_close = (\<lambda>_. ret (- 1)), u_fstat = (\<lambda>_. ret None),
      u_unlink = (\<lambda>_. ret (- 1)), u_mkdir = (\<lambda>_. ret (- 1)), u_link = (\<lambda>_ _. ret (- 1)), u_kill = (\<lambda>_. ret (- 1))\<rparr>"

text \<open>\<open>f\<close> is the read end of the pipe \<open>p\<close>, all of whose write ends are closed; \<open>g\<close> is the write end of the pipe \<open>q\<close>.\<close>

definition piped :: "lockid set \<Rightarrow> nat \<Rightarrow> nat \<Rightarrow> u32 \<Rightarrow> u32 \<Rightarrow> 'x file_st_scheme \<Rightarrow> bool" where
  "piped S f g p q s \<longleftrightarrow>
     pipe_ready S p s \<and> pipe_ready S q s \<and> p \<noteq> q \<and> \<not> pi_writeopen (pipes s p) \<and>
     f_readable (files s ! f) \<and> f_type (files s ! f) = FD_PIPE \<and> f_pipe (files s ! f) = p \<and>
     f_writable (files s ! g) \<and> f_type (files s ! g) = FD_PIPE \<and> f_pipe (files s ! g) = q"

lemma pipe_ready_other: "pipe_ready S p t \<Longrightarrow> pipe_ready S q s \<Longrightarrow> pipes t q = pipes s q \<Longrightarrow> pipe_ready S q t"
  by (simp add: pipe_ready_def)

lemma piped_read:
  assumes "piped S f g p q s" "0 < n"
  shows "\<exists>c t. u_read (piped_sys f g) 0 n s = Ok (int (length c), c) t \<and> int (length c) \<le> n \<and> piped S f g p q t \<and>
      pipe_bytes (pipes s p) = c @ pipe_bytes (pipes t p) \<and> (c = [] \<longrightarrow> pipe_bytes (pipes s p) = []) \<and>
      pipe_bytes (pipes t q) = pipe_bytes (pipes s q)"
proof -
  note d = assms(1) [unfolded piped_def]
  let ?b = "pipe_bytes (pipes s p)"
  from piperead_wp [of S p s n] d assms(2) obtain t where
    t: "piperead p n s = Ok (int (min (nat n) (length ?b)), take (nat n) ?b) t" "pipe_ready S p t" "pipe_moves p (drop (nat n) ?b) s t"
    by (auto elim!: wpE)
  have "u_read (piped_sys f g) 0 n s = Ok (int (length (take (nat n) ?b)), take (nat n) ?b) t"
    using t(1) d by (simp add: piped_sys_def fileread_def bindM_def getS_def min.commute)
  moreover have "piped S f g p q t"
    using d t(2,3) pipe_ready_other [of S p t q s] by (auto simp: piped_def pipe_moves_def)
  ultimately show ?thesis using t(3) d assms(2)
    by (intro exI [of _ "take (nat n) ?b"] exI [of _ t]) (auto simp: pipe_moves_def)
qed

lemma piped_write:
  assumes "piped S f g p q s" "length (pipe_bytes (pipes s q)) + length bs \<le> PIPESIZE"
  shows "\<exists>t. u_write (piped_sys f g) 1 bs s = Ok (int (length bs)) t \<and> piped S f g p q t \<and>
      pipe_bytes (pipes t p) = pipe_bytes (pipes s p) \<and> pipe_bytes (pipes t q) = pipe_bytes (pipes s q) @ bs"
proof -
  note d = assms(1) [unfolded piped_def]
  from pipewrite_wp [of S q s "int (length bs)" bs] d assms(2) obtain t where
    t: "pipewrite q bs (int (length bs)) s = Ok (int (length bs)) t" "pipe_ready S q t" "pipe_moves q (pipe_bytes (pipes s q) @ bs) s t"
    by (auto elim!: wpE)
  have "u_write (piped_sys f g) 1 bs s = Ok (int (length bs)) t"
    using t(1) d by (simp add: piped_sys_def filewrite_def bindM_def getS_def)
  moreover have "piped S f g p q t"
    using d t(2,3) pipe_ready_other [of S q t p s] by (auto simp: piped_def pipe_moves_def)
  ultimately show ?thesis using t(3) d by (auto simp: pipe_moves_def)
qed

interpretation piped_io: user_io "piped_sys f g" 0 "piped S f g p q" "\<lambda>s. pipe_bytes (pipes s p)" "\<lambda>s. pipe_bytes (pipes s q)" PIPESIZE
  for f g p q S
  by unfold_locales (rule piped_read, assumption+, rule piped_write)

text \<open>
  \<open>cat\<close> between two pipes. Started with the read end of a pipe that has no writer left as its standard input and the write end of another pipe with
  enough room as its standard output, \<open>cat\<close> moves all bytes, in order, and returns with the first pipe empty.
\<close>

theorem cat_between_pipes:
  assumes "piped S f g p q s" "length (pipe_bytes (pipes s q)) + length (pipe_bytes (pipes s p)) \<le> PIPESIZE"
  shows "\<exists>t. cat 514 (piped_sys f g) 0 s = Ok () t \<and> piped S f g p q t \<and>
     pipe_bytes (pipes t p) = [] \<and> pipe_bytes (pipes t q) = pipe_bytes (pipes s q) @ pipe_bytes (pipes s p)"
  by (rule piped_io.cat_loop_copies [OF assms(1)]) (use assms(2) in \<open>simp_all add: PIPESIZE_def\<close>)

section \<open>Names in ls\<close>

text \<open>\<open>fmtname\<close> shows the last element of a path, filled up to 14 characters.\<close>

lemma slash_loop_last:
  "i \<le> length pth \<Longrightarrow> drop (slash_loop pth i) (take i pth) = rev (takeWhile (\<lambda>c. c \<noteq> of_char (CHR ''/'')) (rev (take i pth)))"
proof (induction i)
  case (Suc i)
  have t: "take (Suc i) pth = take i pth @ [pth ! i]" using Suc.prems by (simp add: take_Suc_conv_app_nth)
  have "slash_loop pth i \<le> i" for i by (induction i) simp_all
  then show ?case using Suc by (simp add: t min_def)
qed simp

lemma fmtname_last:
  "fmtname pth =
     (let name = rev (takeWhile (\<lambda>c. c \<noteq> of_char (CHR ''/'')) (rev pth)) in name @ replicate (14 - length name) (of_char (CHR '' '')))"
  using slash_loop_last [of "length pth" pth] by (simp add: fmtname_def Let_def DIRSIZ_def)

section \<open>A process between two pipes\<close>

definition demo_piped :: "unit file_st_scheme" where
  "demo_piped = (demo_file ())\<lparr>
     files := [blank_file\<lparr>f_type := FD_PIPE, f_readable := True, f_pipe := 0x80401000\<rparr>,
               blank_file\<lparr>f_type := FD_PIPE, f_writable := True, f_pipe := 0x80402000\<rparr>],
     pipes := (\<lambda>r. if r = 0x80401000
       then demo_pipe\<lparr>pi_data := lit ''ab  c'' @ [10] @ replicate 506 0, pi_nread := 0, pi_nwrite := 6, pi_writeopen := False\<rparr>
       else demo_pipe)\<rparr>"

lemma demo_piped_bytes:
  "pipe_bytes (pipes demo_piped 0x80401000) = lit ''ab  c'' @ [10]" "pipe_bytes (pipes demo_piped 0x80402000) = []"
  by (simp_all add: demo_piped_def pipe_bytes_def ring_bytes_def demo_pipe_def upt_rec)

lemma demo_piped_ok: "piped {} 0 1 0x80401000 0x80402000 demo_piped"
proof -
  have "lockset {} demo_piped" using demo_file_sel(1) [of "()"] by (simp add: demo_piped_def lockset_def cpu_found_def curcpu_def)
  then show ?thesis by (simp add: piped_def pipe_ready_def pipe_wf_def demo_piped_def demo_pipe_def PIPESIZE_def)
qed

theorem wc_counts_witness:
  "\<exists>t. wc 10 (piped_sys 0 1) 0 (lit ''x'') demo_piped = Ok () t \<and> pipe_bytes (pipes t 0x80402000) = lit ''1 2 6 x'' @ [10]"
proof -
  have l: "wc_line [97, 98, 32, 32, 99, 10] [120] = [49, 32, 50, 32, 54, 32, 120, 10]" by code_simp
  show ?thesis
    using wc_counts [of "piped {} 0 1 0x80401000 0x80402000" "piped_sys 0 1" 0 "\<lambda>s. pipe_bytes (pipes s 0x80401000)"
        "\<lambda>s. pipe_bytes (pipes s 0x80402000)" PIPESIZE demo_piped 10 "lit ''x''", OF piped_read piped_write demo_piped_ok]
    by (auto simp: demo_piped_bytes l PIPESIZE_def)
qed

theorem cat_between_pipes_witness:
  "\<exists>t. cat 514 (piped_sys 0 1) 0 demo_piped = Ok () t \<and> pipe_bytes (pipes t 0x80401000) = [] \<and>
     pipe_bytes (pipes t 0x80402000) = lit ''ab  c'' @ [10]"
  using cat_between_pipes [OF demo_piped_ok] by (auto simp: demo_piped_bytes PIPESIZE_def)

end
