(* ===== verification/Spec2Isabelle.thy ===== *)
theory Spec2Isabelle
  imports Callcheck Lineedit Grep Family Uvm Shellrun Umalloc Cricket Taskqueue Mmap Labstat Mkimage Ide Userprog
begin

text \<open>
  A verification development for the xv6 kernel of the repository (\<^verbatim>\<open>src/lab6/lab6\<close>, the x86 kernel with the changes of lab 6), its
  user programs and library (\<^verbatim>\<open>sh.c\<close>, \<^verbatim>\<open>grep.c\<close>, \<^verbatim>\<open>umalloc.c\<close>, \<^verbatim>\<open>ulib.c\<close>, \<^verbatim>\<open>printf.c\<close>, \<^verbatim>\<open>wc.c\<close> and others), the additions of lab 5 (\<^verbatim>\<open>src/lab5/200050133_lab5\<close>: memory mapped on demand,
  memory statistics), those of the second submission of lab 6 (\<^verbatim>\<open>src/lab6/200050086_lab6\<close>), and two threaded programs of lab 7 (\<^verbatim>\<open>src/lab7/lab7\<close>).

  \<^bold>\<open>How code is modelled.\<close>
  Kernel code is a state transformer over one record, the machine: processors, memory as bytes at 32 bit addresses, the locks, the process
  table, page tables in that memory, the buffer cache, the disk, the log, the inode and file tables, the pipes, the console and its
  devices. The record grows by extension from theory to theory, so that an operation is polymorphic in what it does not
  know of. The outcome of an operation (\<open>outcome\<close> of Prelude) is \<open>Ok\<close> with a value and a state, \<open>Panic\<close> with the message of the source's
  \<open>panic\<close>, \<open>Undef\<close> for what C leaves undefined, \<open>Wait\<close> with the state in which the code spins on a lock or has given up the processor, or
  \<open>NoFuel\<close> for a loop that has used up its bound. Machine integers are words of their width: \<open>uint\<close> wraps, \<open>int\<close> is read with \<open>sint\<close>. A weakest precondition
  calculus (\<open>wp\<close>, in Prelude) and the collections of \<open>named_theorems\<close> there carry the proofs.

  \<^bold>\<open>The theories and what they show.\<close>
  \<^item> Prelude: types, outcome monad, weakest preconditions, generic lemmas. Ring: the locale \<open>bounded_queue\<close> and ring arithmetic. Bytes:
    little-endian fields in a block.
  \<^item> Cstring (\<^verbatim>\<open>string.c\<close>): each routine against a list function, overlap of \<open>memmove\<close> included.
  \<^item> Spinlock (\<^verbatim>\<open>spinlock.c\<close>, \<open>struct cpu\<close>): nesting of \<open>pushcli\<close> and \<open>popcli\<close>, the locale \<open>lock_service\<close> interpreted on \<open>acquire\<close> and
    \<open>release\<close>; a lock held elsewhere is the outcome \<open>Wait\<close> of a spin.
  \<^item> Kalloc (\<^verbatim>\<open>kalloc.c\<close>): the free list in the free pages themselves, the locale \<open>page_allocator\<close> interpreted on \<open>kalloc\<close> and \<open>kfree\<close>, the
    initial lists of \<open>kinit1\<close> and \<open>kinit2\<close>.
  \<^item> Console, Conin, Lineedit (\<^verbatim>\<open>console.c\<close>, \<^verbatim>\<open>uart.c\<close>, \<^verbatim>\<open>kbd.c\<close>): \<open>cprintf\<close> against a formatted text; keyboard input as line editing,
    the locale \<open>char_source\<close> interpreted on the keyboard and on the serial port.
  \<^item> Ptable, Sched, Process, Family (\<^verbatim>\<open>proc.c\<close>, \<^verbatim>\<open>trap.c\<close>): the process table with the times lab 6 keeps; the machine of scheduler, \<open>yield\<close>,
    \<open>sleep\<close>, \<open>wakeup\<close>, \<open>exit\<close> and the clock as a step relation, with its invariants; \<open>fork\<close>, \<open>wait\<close>, \<open>wait2\<close>; no lost wakeup between \<open>exit\<close>
    and \<open>wait\<close>.
  \<^item> Vm, Uvm (\<^verbatim>\<open>vm.c\<close>): two-level page tables in memory; \<open>mappages\<close> entry by entry; \<open>allocuvm\<close> and \<open>deallocuvm\<close> on the pages a process
    sees and the frames it owns. Mmap (lab 5): \<open>sys_mmap\<close> and the page fault that brings pages in. Labstat (labs 5 and 6): process and memory
    statistics.
  \<^item> Bio (\<^verbatim>\<open>sleeplock.c\<close>, \<^verbatim>\<open>memide.c\<close>, \<^verbatim>\<open>bio.c\<close>): the doubly linked list of buffers and the block each buffer stands for. Log (\<^verbatim>\<open>log.c\<close>): a
    commit cut off after any prefix of its disk writes recovers to the state before or after it.
  \<^item> Inode, Txn, Dir, Fileio, Paths (\<^verbatim>\<open>fs.c\<close>): block allocator, inode cache, block map, file contents, directories and path names; Txn states
    three rules for opening, changing and closing a block, from which the rest is proved against the disk as the cache shows it.
  \<^item> File (\<^verbatim>\<open>pipe.c\<close>, \<^verbatim>\<open>file.c\<close>): the file table, pipes as an interpretation of \<open>bounded_queue\<close>. Syscall, Callcheck (\<^verbatim>\<open>syscall.c\<close>,
    \<^verbatim>\<open>sysfile.c\<close>, \<^verbatim>\<open>sysproc.c\<close>, \<^verbatim>\<open>exec.c\<close>): all system calls, and that arguments are accepted exactly when they lie in the process.
  \<^item> Shell, Shellrun (\<^verbatim>\<open>sh.c\<close>): the parser reads back every printed command; running a line makes the system calls that start its
    programs with the descriptors it names, on the locale \<open>lowest_first\<close> of descriptor tables. Grep (\<^verbatim>\<open>grep.c\<close>): the matcher decides the
    language of a pattern. Umalloc (\<^verbatim>\<open>umalloc.c\<close>): the circular free list stays sorted, disjoint and merged, and blocks handed out never overlap.
  \<^item> Ulib (\<^verbatim>\<open>ulib.c\<close>, \<^verbatim>\<open>printf.c\<close>): what \<open>printf\<close> writes, and that \<open>atoi\<close> reads it back. Userprog (\<^verbatim>\<open>cat.c\<close>, \<^verbatim>\<open>wc.c\<close>, \<^verbatim>\<open>ls.c\<close>, \<^verbatim>\<open>echo.c\<close>, \<^verbatim>\<open>rm.c\<close>,
    \<^verbatim>\<open>mkdir.c\<close>, \<^verbatim>\<open>ln.c\<close>, \<^verbatim>\<open>kill.c\<close>): programs over the system calls as an argument; the locale \<open>user_io\<close> states what \<open>cat\<close> and \<open>wc\<close> need of \<open>read\<close> and
    \<open>write\<close> and is interpreted on the kernel's pipes.
  \<^item> Cricket, Taskqueue (lab 7): every interleaving of the threads, as step relations; the task ring is a second interpretation of
    \<open>bounded_queue\<close>.
  \<^item> Mkfs, Mkimage (\<^verbatim>\<open>mkfs.c\<close>): the image builder, on the image as a list of sectors; it succeeds exactly when the files fit, and the image then holds
    them in the layout the kernel reads. Ide (\<^verbatim>\<open>ide.c\<close>): the driver of the IDE disk, over the ports of a controller that is an argument; for every order of
    requests and interrupts it is a queue with the effect of the memory disk. The kernel above Bio uses the memory disk.

  This theory holds properties that span components: lock nesting, the page allocator's contract over a run, what a buffer shows of the disk
  and the output of the console.

  \<^bold>\<open>Bounds and loops.\<close>
  Loops over an array recurse on the elements left. A loop whose end is a condition on words or on data in memory carries fuel, with the
  outcome \<open>NoFuel\<close> when it runs out; the theorems state the result itself, so they show that the fuel is enough. The bounds are the number
  of iterations there can be: one more than the bytes asked for in \<open>readi\<close>, \<open>writei\<close>, \<open>filewrite\<close> and \<open>consoleread\<close>, than the
  buffers (\<open>NBUF\<close>) in \<open>bget\<close>, than the log blocks (\<open>LOGSIZE\<close>) in \<open>write_log\<close> and \<open>install_trans\<close>, than the inodes of the super block in \<open>ialloc\<close>, than the
  entries of a directory in \<open>dirlookup\<close> and \<open>dirlink\<close>, than the bytes of a path in \<open>namex\<close> and of a line in the
  parser; \<open>2 ^ 20\<close> pages of a 32 bit address space (\<open>NPAGES\<close>) in the loops over pages and the free list. The loop of \<open>consoleintr\<close> reads until its source
  of characters is empty, that of \<open>idewait\<close> polls until the disk is ready, those of \<open>cat\<close>, \<open>wc\<close> and \<open>ls\<close> read until the end of their input; they take their fuel from the caller. The retry loops around \<open>sleep\<close> are one iteration each: the sleep is the
  outcome \<open>Wait\<close>, and the definition named \<open>_retry\<close> is what runs after the wakeup. Threads and processes take turns at the points where the source
  blocks, takes or gives a lock.

  \<^bold>\<open>Not modelled.\<close>
  The interrupt controllers and the multiprocessor tables (\<^verbatim>\<open>lapic.c\<close>, \<^verbatim>\<open>ioapic.c\<close>, \<^verbatim>\<open>picirq.c\<close>, \<^verbatim>\<open>mp.c\<close>) and \<^verbatim>\<open>main.c\<close>, which program devices; the
  boot loader and the assembly files, of which \<open>swtch\<close> appears as the outcome \<open>Wait Switched\<close>; \<^verbatim>\<open>init.c\<close>, which starts the shell for ever, \<^verbatim>\<open>usertests.c\<close> and the other test programs;
  the lab 7 program with condition variables, whose threads race on shared counters, so that no interleaving of its steps
  describes its runs; the earlier versions of the files of labs 5 to 7. Two processors in one kernel component at the same time are
  not modelled: taking a lock that is held is the outcome \<open>Wait\<close>.
\<close>

section \<open>Locks\<close>

lemma acq_rel_if:
  assumes "lockset S s" "l \<notin> S"
  shows "if_flag (rel l (acq l s)) = if_flag s"
proof -
  note d = locksetD [OF assms(1)]
  have c: "curcpu s < length (cpus s)" using d(1) by (rule curcpu_less)
  have n: "c_ncli (mycpu_of s) = 0 \<longleftrightarrow> S = {}" using d(2,3) by (auto simp: unat_eq_0 [symmetric])
  show ?thesis
  proof (cases "S = {}")
    case True
    then show ?thesis using c n
      by (simp add: rel_def acq_def popped_if cpus_pushed readeflags_def FL_IF_def)
  next
    case False
    then have "c_ncli (mycpu_of s) + 1 \<noteq> 1" using n by simp
    then show ?thesis using c n False assms(1) [unfolded lockset_def]
      by (simp add: rel_def acq_def popped_if cpus_pushed)
  qed
qed

text \<open>
  C37: A processor that holds the spinlocks \<open>S\<close> takes a further free lock at once; while it holds it
  interrupts are off and taking it again is the kernel panic of \<open>acquire\<close>; giving it back leaves exactly
  \<open>S\<close> held and the interrupt flag as it was, however deeply the locks are nested.
\<close>

theorem lock_discipline:
  assumes "lockset S s" "l \<notin> S" "card S < 999"
  shows "\<exists>t u. acquire l s = Ok () t \<and> lockset (insert l S) t \<and> \<not> if_flag t \<and> acquire l t = Panic ''acquire'' \<and>
           release l t = Ok () u \<and> lockset S u \<and> if_flag u = if_flag s"
proof -
  have c: "card S < 1000" "card (insert l S) < 1000" using assms(2,3) locksetD(2) [OF assms(1)] by simp_all
  have t: "lockset (insert l S) (acq l s)" by (rule lockset_acq [OF assms(1,2) c(1)])
  have "lockset S (rel l (acq l s))" using lockset_rel [OF t, of l] assms(2) by simp
  moreover have "\<not> if_flag (acq l s)" using t by (simp add: lockset_def)
  moreover have "acquire l (acq l s) = Panic ''acquire''" using acquire_held [OF t] c(2) by simp
  ultimately show ?thesis
    using acquire_ok [OF assms(1,2)] release_ok [OF t, of l] t acq_rel_if [OF assms(1,2)] by blast
qed

theorem lock_discipline_witness:
  "\<exists>t u. acquire L_kmem demo_vm = Ok () t \<and> \<not> if_flag t \<and> release L_kmem t = Ok () u \<and> if_flag u"
  using lock_discipline [OF demo_vm_lockset, of L_kmem] by (auto simp: demo_vm_def)

section \<open>Physical pages\<close>

text \<open>
  C38: When exactly the pages \<open>ps\<close> are free, in this order, \<open>kalloc\<close> hands out the first of them and
  leaves the others free, or returns 0 when there is none; and \<open>kfree\<close> of a valid page that is not
  free puts it in front, where the next \<open>kalloc\<close> finds it. A page that is not aligned, lies below
  the kernel's end or above physical memory is refused with a panic.
\<close>

theorem page_allocator_contract:
  assumes r: "kmem_ready ps s"
  shows "distinct ps \<and>
    (\<exists>t. kalloc s = Ok (if ps = [] then 0 else hd ps) t \<and> kmem_ready (tl ps) t) \<and>
    (valid_page (kend s) p \<and> p \<notin> set ps \<longrightarrow>
       (\<exists>t u. kfree p s = Ok () t \<and> kmem_ready (p # ps) t \<and> kalloc t = Ok p u \<and> kmem_ready ps u)) \<and>
    (p mod PGSIZE \<noteq> 0 \<or> p < kend s \<or> PHYSTOP \<le> V2P p \<longrightarrow> kfree p s = Panic ''kfree'')"
proof (intro conjI impI)
  show "distinct ps" using pages.inv_distinct [OF r] by simp
  show "\<exists>t. kalloc s = Ok (if ps = [] then 0 else hd ps) t \<and> kmem_ready (tl ps) t"
    using pages.alloc_some [of "hd ps" "tl ps" s] pages.alloc_none [of s] r by (cases ps) auto
  show "\<exists>t u. kfree p s = Ok () t \<and> kmem_ready (p # ps) t \<and> kalloc t = Ok p u \<and> kmem_ready ps u"
    if "valid_page (kend s) p \<and> p \<notin> set ps"
    using pages.free_page [OF r, of p] that pages.alloc_some by blast
  show "kfree p s = Panic ''kfree''" if "p mod PGSIZE \<noteq> 0 \<or> p < kend s \<or> PHYSTOP \<le> V2P p"
    using that by (auto simp: kfree_def M_defs)
qed

theorem page_allocator_contract_witness:
  "(\<exists>t. kalloc demo_kmem = Ok 0x80401000 t \<and> kmem_ready [] t) \<and>
   (\<exists>t u. kfree 0x80402000 demo_kmem = Ok () t \<and> kalloc t = Ok 0x80402000 u) \<and>
   kfree 0x80402001 demo_kmem = Panic ''kfree''"
proof -
  note c = page_allocator_contract [OF demo_kmem_ready]
  have "valid_page (kend demo_kmem) 0x80402000"
    by (simp add: demo_kmem_def valid_page_def PGSIZE_def PHYSTOP_def V2P_def KERNBASE_def)
  then show ?thesis using c [of "0x80402000"] c [of "0x80402001"] by (auto simp: PGSIZE_def)
qed

text \<open>
  The page counter of lab 5 does not count the free pages: with \<open>n + 1\<close> pages free it returns
  \<open>n\<close>, and with none it dereferences a null pointer. It leaves the free list as it was.
\<close>

theorem count_free_pages_misses_one:
  assumes "kmem_ready ps s"
  shows "if ps = [] then count_free_pages s = Undef ''null pointer''
         else \<exists>t. count_free_pages s = Ok (of_nat (length ps) - 1) t \<and> kmem_ready ps t"
proof (cases ps)
  case Nil
  then show ?thesis using count_free_pages_empty assms by simp
next
  case (Cons p qs)
  from count_free_pages_value [OF assms [unfolded Cons]] show ?thesis unfolding Cons by (auto elim!: wpE)
qed

theorem count_free_pages_misses_one_witness:
  "(\<exists>t. count_free_pages demo_kmem = Ok 0 t) \<and> (\<exists>t. kalloc demo_kmem = Ok 0x80401000 t \<and> count_free_pages t = Undef ''null pointer'')"
proof -
  obtain t where t: "kalloc demo_kmem = Ok 0x80401000 t" "kmem_ready [] t"
    using pages.alloc_some [OF demo_kmem_ready] by blast
  show ?thesis
    using count_free_pages_misses_one [OF demo_kmem_ready] count_free_pages_misses_one [OF t(2)] t(1) by auto
qed

section \<open>The console\<close>

text \<open>
  The characters that \<open>printint\<close> puts out, read back as a number in its base, are the value of the
  argument: as a signed number when it was asked to print the sign, including the most negative
  one, and as an unsigned number otherwise.
\<close>

theorem printint_round_trip:
  assumes "2 \<le> base" "base \<le> 16" "con_ok s"
  shows "\<exists>t. printint xx base sign s = Ok () (fold putc (map of_char t) s) \<and> con_ok (fold putc (map of_char t) s) \<and>
           signed_text base t = (if sign then sint xx else uint xx)"
proof (intro exI [of _ "rev (int_buf xx base sign)"] conjI)
  show "signed_text base (rev (int_buf xx base sign)) = (if sign then sint xx else uint xx)"
    by (rule signed_text_int_buf [OF assms(1,2)])
qed (use putchars_ok [OF assms(3)] in \<open>auto simp: printint_def\<close>)

theorem printint_round_trip_witness:
  "\<exists>t. printint 0x80000000 10 True demo_vm = Ok () (fold putc (map of_char t) demo_vm) \<and> signed_text 10 t = -2147483648"
proof -
  have "con_ok demo_vm" by (simp add: con_ok_def screen_ok_def demo_vm_def SCREEN_def)
  then show ?thesis using printint_round_trip [of 10 demo_vm "0x80000000" True] by auto
qed

text \<open>
  C40: With the cursor on the screen, \<open>cprintf\<close> of a format that fits its arguments returns with the
  locks as they were, sends exactly the characters of the formatted text to the serial port, in
  order, and scrolls so that the cursor stays within the first 24 rows.
\<close>

theorem cprintf_prints:
  assumes "lockset S s" "L_cons \<notin> S" "card S < 1000" "con_ok s" "uart s"
    and "cfmt fmt args = Some cs" "BACKSPACE \<notin> set cs"
  shows "\<exists>t. cprintf (Some fmt) args s = Ok () t \<and> lockset S t \<and> con_ok t \<and> uart_out t = uart_out s @ map word_of_int cs \<and>
           unat (crt_pos t) \<le> 24 * 80 \<and> length (crt s) \<ge> SCREEN"
proof (intro exI conjI)
  show "cprintf (Some fmt) args s = Ok () (printed cs s)" by (rule cprintf_ok [OF assms(1-4,6)])
  show "lockset S (printed cs s)" by (rule lockset_printed [OF assms(1-3)])
  show c: "con_ok (printed cs s)" by (rule con_ok_printed [OF assms(4)])
  show "uart_out (printed cs s) = uart_out s @ map word_of_int cs"
    using uart_out_fold_putc [of cs "acq L_cons s"] uart_out_fold_putc [of cs s] assms(5,7) by (auto simp: printed_def)
  show "unat (crt_pos (printed cs s)) \<le> 24 * 80" "SCREEN \<le> length (crt s)"
    using c assms(4) by (simp_all add: con_ok_def screen_ok_def)
qed

theorem cprintf_prints_witness:
  "\<exists>t. cprintf (Some ''%d: %s'') [AInt 42, AStr (Some ''up'')] demo_vm = Ok () t \<and> uart_out t = [52, 50, 58, 32, 117, 112]"
proof -
  have f: "cfmt ''%d: %s'' [AInt 42, AStr (Some ''up'')] = Some [52, 50, 58, 32, 117, 112]"
    by code_simp
  have "con_ok demo_vm" "uart demo_vm" "uart_out demo_vm = []"
    by (simp_all add: con_ok_def screen_ok_def demo_vm_def SCREEN_def)
  then show ?thesis using cprintf_prints [OF demo_vm_lockset _ _ _ _ f] by (auto simp: BACKSPACE_def)
qed


section \<open>The buffer cache\<close>

text \<open>
  C23: The buffer cache shows one version of every disk block. In a sound cache with no buffer in use and
  fewer dirty blocks than buffers, \<open>bread\<close> returns a locked buffer with the block's current contents
  (the cached ones when the block is cached, else those on disk), evicting only clean buffers: no
  block changes and no dirty block is lost; \<open>brelse\<close> gives it back and leaves every buffer free.
\<close>

theorem bread_shows_block:
  assumes "cstate pid s" "unat b < length (memdisk s)" "card (dirty s) < NBUF"
  shows "\<exists>i t u. bread 1 b s = Ok i t \<and> held pid i t \<and> b_blockno (bufs t ! i) = b \<and> bdata i t = view s b \<and>
           (b \<notin> dirty s \<longrightarrow> bdata i t = memdisk s ! unat b) \<and> view t = view s \<and> dirty t = dirty s \<and>
           memdisk t = memdisk s \<and> brelse i t = Ok () u \<and> cstate pid u \<and> view u = view s \<and> dirty u = dirty s \<and> memdisk u = memdisk s"
proof -
  obtain i t where t: "bread 1 b s = Ok i t" "opens pid b s i t" "\<forall>k < NBUF. k \<noteq> i \<longrightarrow> b_refcnt (bufs t ! k) = 0"
    using read_block_ok [OF assms] by blast
  note o = t(2) [unfolded opens_def]
  obtain u where u: "brelse i t = Ok () u" "blocks_put pid t [] u"
    using close_buf_ok [of pid t i] o t(3) by blast
  show ?thesis using t(1) o u clean_view [OF assms(1) _ assms(2)] by (auto simp: blocks_put_def)
qed

theorem bread_shows_block_witness:
  "\<exists>i t. bread 1 40 demo_txn = Ok i t \<and> bdata i t = replicate BSIZE 7 \<and> memdisk demo_txn ! 40 = replicate BSIZE 0"
  using bread_shows_block [OF demo_txn_cstate, of 40]
  by (auto simp: demo_txn_log demo_disk_def NBUF_def)

end
